(* ===== verification/Amitcp_Prelude.thy ===== *)
theory Amitcp_Prelude
  imports Main "HOL-Library.Word"
begin

unbundle bit_operations_syntax

text \<open>
  Shared vocabulary of the AmiTCP_NG development: the machine integers of the m68k build
  (\<open>u_char\<close>, \<open>u_short\<close>, \<open>u_long\<close>/\<open>int\<close>/\<open>long\<close> are 8, 16 and 32 bits; \<open>short\<close> is 16 bits),
  big-endian reads and writes of 16- and 32-bit quantities, and the generic facts on words and
  lists that the component theories use.
\<close>

section \<open>Machine integers\<close>

type_synonym u8 = "8 word"
type_synonym u16 = "16 word"
type_synonym u32 = "32 word"

text \<open>The errors that several components return (\<open>sys/errno.h\<close>).\<close>

definition EINVAL :: int where "EINVAL = 22"
definition EOPNOTSUPP :: int where "EOPNOTSUPP = 45"
definition ENOBUFS :: int where "ENOBUFS = 55"
definition EISCONN :: int where "EISCONN = 56"
definition ENOTCONN :: int where "ENOTCONN = 57"

text \<open>Big-endian 16- and 32-bit values from bytes, as the m68k and the network order have them.\<close>

definition be16 :: "u8 \<Rightarrow> u8 \<Rightarrow> u32" where
  "be16 a b = push_bit 8 (ucast a) OR ucast b"

definition be32 :: "u8 \<Rightarrow> u8 \<Rightarrow> u8 \<Rightarrow> u8 \<Rightarrow> u32" where
  "be32 a b c d =
     push_bit 24 (ucast a) OR push_bit 16 (ucast b) OR push_bit 8 (ucast c) OR ucast d"

text \<open>Facts about signed reads of words whose unsigned value stays in the lower half.\<close>

named_theorems word_window

lemma int_unat_half:
  fixes x :: u32
  assumes "unat x < 2 ^ 31"
  shows "int (unat x) < 2147483648"
proof -
  have "int (unat x) < int (2 ^ 31)" using assms by (simp only: of_nat_less_iff)
  also have "int (2 ^ 31) = 2147483648" by simp
  finally show ?thesis .
qed

lemma sint_eq_uint_small:
  fixes x :: u32
  assumes "unat x < 2 ^ 31"
  shows "sint x = int (unat x)"
proof -
  have "uint x < 2147483648" using int_unat_half[OF assms] by simp
  moreover have "- 2147483648 \<le> uint x"
    by (rule order_trans[of _ 0]) simp_all
  ultimately have "signed_take_bit 31 (uint x) = uint x"
    by (intro signed_take_bit_int_eq_self) simp_all
  then show ?thesis
    by (simp add: sint_uint)
qed

lemma sint_diff_small [word_window]:
  fixes x y :: u32
  assumes "unat x < 2 ^ 31" "unat y < 2 ^ 31"
  shows "sint (x - y) = int (unat x) - int (unat y)"
proof -
  have b: "uint x < 2147483648" "uint y < 2147483648"
    using int_unat_half[OF assms(1)] int_unat_half[OF assms(2)] by simp_all
  moreover have "0 \<le> uint x" "0 \<le> uint y" by simp_all
  ultimately have d: "- 2147483648 \<le> uint x - uint y" "uint x - uint y < 2147483648"
    by linarith+
  have "sint (x - y) = signed_take_bit 31 (sint x - sint y)"
    by (simp add: sint_word_ariths)
  also have "\<dots> = signed_take_bit 31 (int (unat x) - int (unat y))"
    by (simp only: sint_eq_uint_small[OF assms(1)] sint_eq_uint_small[OF assms(2)])
  also have "\<dots> = int (unat x) - int (unat y)"
    using d by (intro signed_take_bit_int_eq_self) simp_all
  finally show ?thesis .
qed

lemma sint_eq_0_iff_u32: "sint (x :: u32) = 0 \<longleftrightarrow> x = 0"
  by (metis sint_0 signed_word_eqI)

lemma sint_neg_iff:
  fixes x :: u32
  shows "sint x < 0 \<longleftrightarrow> \<not> unat x < 2 ^ 31"
proof
  assume "sint x < 0"
  then show "\<not> unat x < 2 ^ 31" using sint_eq_uint_small[of x] by auto
next
  assume big: "\<not> unat x < 2 ^ 31"
  show "sint x < 0"
  proof (rule ccontr)
    have lt: "sint x < 2147483648" using sint_lt[of x] by simp
    assume "\<not> sint x < 0"
    then have "uint x = sint x"
      using lt by (subst uint_sint) (simp add: take_bit_int_eq_self)
    then have "uint x < 2147483648" using lt by simp
    then show False using big by (auto simp: uint_nat simp del: of_nat_unat)
  qed
qed

lemma sint_neg_antipodal:
  fixes d :: u32
  assumes "sint d \<le> 0" "sint (- d) < 0"
  shows "d = 2147483648"
proof (rule ccontr)
  assume ne: "d \<noteq> 2147483648"
  have "sint d \<noteq> - 2147483648"
  proof
    assume "sint d = - 2147483648"
    then have "sint d = sint (2147483648 :: u32)" by simp
    then show False using ne signed_word_eqI by blast
  qed
  moreover have "- 2147483648 \<le> sint d" using sint_ge[of d] by simp
  ultimately have "signed_take_bit 31 (- sint d) = - sint d"
    using assms(1) by (intro signed_take_bit_int_eq_self) simp_all
  moreover have "sint (- d) = signed_take_bit 31 (- sint d)" by (simp add: sint_word_ariths)
  ultimately show False using assms by simp
qed

lemma unat_ucast_u16_u32 [simp]: "unat (ucast (x :: u16) :: u32) = unat x"
  using unsigned_less[of x, where ?'a=nat] by (simp add: unsigned_ucast_eq take_bit_nat_eq_self)

lemma unat_ucast_u8_u32 [simp]: "unat (ucast (x :: u8) :: u32) = unat x"
  using unsigned_less[of x, where ?'a=nat] by (simp add: unsigned_ucast_eq take_bit_nat_eq_self)

lemma unat_ucast_u8_u16 [simp]: "unat (ucast (x :: u8) :: u16) = unat x"
  using unsigned_less[of x, where ?'a=nat] by (simp add: unsigned_ucast_eq take_bit_nat_eq_self)

lemma unat_u8_bound: "unat (x :: u8) < 256"
  using unsigned_less[of x, where ?'a=nat] by simp

lemma unat_u16_bound: "unat (x :: u16) < 65536"
  using unsigned_less[of x, where ?'a=nat] by simp

lemma unat_u32_bound: "unat (x :: u32) < 4294967296"
  using unsigned_less[of x, where ?'a=nat] by simp

lemma sint_of_nat_u32: "n < 2 ^ 31 \<Longrightarrow> sint (of_nat n :: u32) = int n"
  by (subst sint_eq_uint_small) (simp_all add: unat_of_nat)

lemma unat_add_of_nat: "unat x + n < 2 ^ 32 \<Longrightarrow> unat (x + of_nat n :: u32) = unat x + n"
  by (subst unat_add_lem[THEN iffD1]) (simp_all add: unat_of_nat)

lemma unat_le_of_sint_le:
  fixes x c :: u32
  assumes "sint x \<le> sint c" "0 \<le> sint x"
  shows "unat x \<le> unat c"
proof -
  have "unat x < 2 ^ 31" "unat c < 2 ^ 31" using assms sint_neg_iff[of x] sint_neg_iff[of c] by linarith+
  then show ?thesis using assms sint_eq_uint_small[of x] sint_eq_uint_small[of c] by linarith
qed

lemma unat_nonneg_clamp: "unat (if sint (x :: u32) < 0 then 0 else x) < 2 ^ 31"
  using sint_neg_iff[of x] by auto

lemma unat_ucast_u32_u64 [simp]: "unat (ucast (x :: u32) :: 64 word) = unat x"
  using unsigned_less[of x, where ?'a=nat] by (simp add: unsigned_ucast_eq take_bit_nat_eq_self)

end
