(* ===== verification/In_Pcb.thy ===== *)
theory In_Pcb
  imports Amitcp_Prelude
begin

text \<open>
  The Internet control blocks (\<open>netinet/in_pcb.c\<close>) and the lookup of the connection a segment
  belongs to (\<open>findpcb\<close> in \<open>tcp_input\<close>, with its cache of the last one). The blocks of a protocol are a list of
  pointers into a store; the head of the list is itself a block, whose \<open>inp_lport\<close> is the cursor of the
  ephemeral ports. Ports are in host order, which is the order of the network on this machine.
  The interface addresses and routes that \<open>in_pcbconnect\<close> consults are arguments.
\<close>

type_synonym pcbptr = nat

definition EACCES :: int where "EACCES = 13"
definition EADDRINUSE :: int where "EADDRINUSE = 48"
definition EADDRNOTAVAIL :: int where "EADDRNOTAVAIL = 49"

definition SO_ACCEPTCONN :: u32 where "SO_ACCEPTCONN = 0x0002"
definition SO_REUSEADDR :: u32 where "SO_REUSEADDR = 0x0004"
definition SO_REUSEPORT :: u32 where "SO_REUSEPORT = 0x0200"

definition IPPORT_RESERVED :: u16 where "IPPORT_RESERVED = 1024"
definition IPPORT_ANONMIN :: u16 where "IPPORT_ANONMIN = 49152"
definition NG_PORT_SPAN :: u32 where "NG_PORT_SPAN = 16384"
definition NG_PORT_RANDTRIES :: nat where "NG_PORT_RANDTRIES = 32"
definition NG_PORT_SCANTRIES :: nat where "NG_PORT_SCANTRIES = 1024"

text \<open>\<open>inp_soopts\<close> is \<open>inp_socket->so_options\<close>.\<close>

record inpcb =
  inp_laddr :: u32
  inp_lport :: u16
  inp_faddr :: u32
  inp_fport :: u16
  inp_socket :: bool
  inp_soopts :: u32

record pcbst =
  pcb_head :: pcbptr
  pcbs :: "pcbptr list"
  pcb :: "pcbptr \<Rightarrow> inpcb"
  last_inpcb :: pcbptr
  ng_port_rand :: u32

definition pcb_upd :: "pcbptr \<Rightarrow> (inpcb \<Rightarrow> inpcb) \<Rightarrow> pcbst \<Rightarrow> pcbst" where
  "pcb_upd p f st = st\<lparr>pcb := (pcb st)(p := f (pcb st p))\<rparr>"

section \<open>Lookup\<close>

text \<open>How many wildcards a block needs to match; \<open>None\<close> when it does not.\<close>

definition pcb_wild :: "u32 \<Rightarrow> u16 \<Rightarrow> u32 \<Rightarrow> u16 \<Rightarrow> inpcb \<Rightarrow> nat option" where
  "pcb_wild faddr fport laddr lport inp =
     (if inp_lport inp \<noteq> lport then None
      else if inp_laddr inp \<noteq> 0 \<and> laddr \<noteq> 0 \<and> inp_laddr inp \<noteq> laddr then None
      else if inp_faddr inp \<noteq> 0 \<and> faddr \<noteq> 0 \<and> (inp_faddr inp \<noteq> faddr \<or> inp_fport inp \<noteq> fport) then None
      else Some ((if (inp_laddr inp \<noteq> 0) \<noteq> (laddr \<noteq> 0) then 1 else 0) +
                 (if (inp_faddr inp \<noteq> 0) \<noteq> (faddr \<noteq> 0) then 1 else 0)))"

text \<open>The walk, over at most 2000 blocks.\<close>

fun pcb_walk :: "nat \<Rightarrow> (pcbptr \<Rightarrow> nat option) \<Rightarrow> bool \<Rightarrow> pcbptr list \<Rightarrow> pcbptr option \<Rightarrow> nat \<Rightarrow> pcbptr option" where
  "pcb_walk k w flag [] match matchwild = match"
| "pcb_walk 0 w flag (p # ps) match matchwild = match"
| "pcb_walk (Suc k) w flag (p # ps) match matchwild =
     (case w p of
        None \<Rightarrow> pcb_walk k w flag ps match matchwild
      | Some n \<Rightarrow>
          if n \<noteq> 0 \<and> \<not> flag then pcb_walk k w flag ps match matchwild
          else if n < matchwild then (if n = 0 then Some p else pcb_walk k w flag ps (Some p) n)
          else pcb_walk k w flag ps match matchwild)"

definition in_pcblookup :: "u32 \<Rightarrow> u16 \<Rightarrow> u32 \<Rightarrow> u16 \<Rightarrow> bool \<Rightarrow> pcbst \<Rightarrow> pcbptr option" where
  "in_pcblookup faddr fport laddr lport flag st =
     pcb_walk 2000 (\<lambda>p. pcb_wild faddr fport laddr lport (pcb st p)) flag (pcbs st) None 3"

section \<open>Ports\<close>

text \<open>\<open>ng_port_delta\<close>; \<open>entropy\<close> is what \<open>ng_gather_entropy\<close> finds for the first call.\<close>

definition xorshift :: "u32 \<Rightarrow> u32" where
  "xorshift x = (let a = x XOR push_bit 13 x; b = a XOR drop_bit 17 a in b XOR push_bit 5 b)"

definition ng_port_delta :: "u32 \<Rightarrow> u32 \<Rightarrow> u32 \<times> u32" where
  "ng_port_delta entropy r =
     (let r1 = (if r = 0 then (if entropy = 0 then 0x9E3779B9 else entropy) else r);
          r2 = xorshift r1; d = r2 AND (NG_PORT_SPAN - 1)
      in (if d = 0 then 1 else d, r2))"

definition port_next :: "u32 \<Rightarrow> u16 \<Rightarrow> u16" where
  "port_next d cursor =
     (let cur = max (ucast cursor) (ucast IPPORT_ANONMIN :: u32)
      in ucast ((ucast IPPORT_ANONMIN :: u32) + ((cur - ucast IPPORT_ANONMIN) + d) mod NG_PORT_SPAN))"

text \<open>The random tries, then the scan; the port found, if any.\<close>

fun port_rand :: "nat \<Rightarrow> u32 \<Rightarrow> u32 \<Rightarrow> pcbst \<Rightarrow> pcbst \<times> u16 option" where
  "port_rand 0 entropy laddr st = (st, None)"
| "port_rand (Suc k) entropy laddr st =
     (case ng_port_delta entropy (ng_port_rand st) of
        (d, r) \<Rightarrow>
          let st1 = pcb_upd (pcb_head st) (\<lambda>h. h\<lparr>inp_lport := port_next d (inp_lport h)\<rparr>) (st\<lparr>ng_port_rand := r\<rparr>);
              lport = inp_lport (pcb st1 (pcb_head st1))
          in if in_pcblookup 0 0 laddr lport False st1 = None then (st1, Some lport) else port_rand k entropy laddr st1)"

fun port_scan :: "nat \<Rightarrow> u32 \<Rightarrow> pcbst \<Rightarrow> pcbst \<times> u16 option" where
  "port_scan 0 laddr st = (st, None)"
| "port_scan (Suc k) laddr st =
     (let st1 = pcb_upd (pcb_head st)
                  (\<lambda>h. h\<lparr>inp_lport := (if inp_lport h + 1 < IPPORT_ANONMIN then IPPORT_ANONMIN else inp_lport h + 1)\<rparr>) st;
          lport = inp_lport (pcb st1 (pcb_head st1))
      in if in_pcblookup 0 0 laddr lport False st1 = None then (st1, Some lport) else port_scan k laddr st1)"

text \<open>
  \<open>in_pcbbind\<close>. \<open>nam\<close> is the address and port asked for, if any, \<open>Inl\<close> when it has the wrong length.
  \<open>pe_connreq\<close> is \<open>PR_CONNREQUIRED\<close> of the protocol, \<open>pe_ifaddr\<close> whether an address is one of an interface.
\<close>

record pcbenv =
  pe_anyif :: bool
  pe_ifaddr :: "u32 \<Rightarrow> bool"
  pe_priv :: bool
  pe_connreq :: bool
  pe_entropy :: u32

definition in_multicast :: "u32 \<Rightarrow> bool" where
  "in_multicast a \<longleftrightarrow> a AND 0xF0000000 = 0xE0000000"

definition bind_port :: "pcbenv \<Rightarrow> pcbptr \<Rightarrow> pcbst \<Rightarrow> pcbst \<times> int" where
  "bind_port e p st =
     (case port_rand NG_PORT_RANDTRIES (pe_entropy e) (inp_laddr (pcb st p)) st of
        (st1, Some lport) \<Rightarrow> (pcb_upd p (\<lambda>i. i\<lparr>inp_lport := lport\<rparr>) st1, 0)
      | (st1, None) \<Rightarrow>
          (case port_scan NG_PORT_SCANTRIES (inp_laddr (pcb st p)) st1 of
             (st2, Some lport) \<Rightarrow> (pcb_upd p (\<lambda>i. i\<lparr>inp_lport := lport\<rparr>) st2, 0)
           | (st2, None) \<Rightarrow> (st2, EADDRNOTAVAIL)))"

definition bind_named :: "pcbenv \<Rightarrow> pcbptr \<Rightarrow> u32 \<Rightarrow> u16 \<Rightarrow> pcbst \<Rightarrow> int" where
  "bind_named e p addr lport st =
     (let opts = inp_soopts (pcb st p);
          reuseport = (opts AND SO_REUSEPORT) OR (if in_multicast addr then opts AND SO_REUSEADDR else 0);
          wild = (opts AND (SO_REUSEADDR OR SO_REUSEPORT) = 0 \<and> (\<not> pe_connreq e \<or> opts AND SO_ACCEPTCONN = 0))
      in if \<not> in_multicast addr \<and> addr \<noteq> 0 \<and> \<not> pe_ifaddr e addr then EADDRNOTAVAIL
         else if lport = 0 then 0
         else if lport < IPPORT_RESERVED \<and> \<not> pe_priv e then EACCES
         else (case in_pcblookup 0 0 addr lport wild st of
                 None \<Rightarrow> 0
               | Some t \<Rightarrow> if reuseport AND inp_soopts (pcb st t) = 0 then EADDRINUSE else 0))"

definition in_pcbbind :: "pcbenv \<Rightarrow> pcbptr \<Rightarrow> (unit + u32 \<times> u16) option \<Rightarrow> pcbst \<Rightarrow> pcbst \<times> int" where
  "in_pcbbind e p nam st =
     (if \<not> pe_anyif e then (st, EADDRNOTAVAIL)
      else if inp_lport (pcb st p) \<noteq> 0 \<or> inp_laddr (pcb st p) \<noteq> 0 then (st, EINVAL)
      else case nam of
          None \<Rightarrow> bind_port e p st
        | Some (Inl _) \<Rightarrow> (st, EINVAL)
        | Some (Inr (addr, lport)) \<Rightarrow>
            (let err = bind_named e p addr lport st; st1 = pcb_upd p (\<lambda>i. i\<lparr>inp_laddr := addr\<rparr>) st
             in if err \<noteq> 0 then (st, err)
                else if lport = 0 then bind_port e p st1
                else (pcb_upd p (\<lambda>i. i\<lparr>inp_lport := lport\<rparr>) st1, 0)))"

section \<open>Blocks\<close>

definition in_pcballoc :: "pcbptr \<Rightarrow> u32 \<Rightarrow> pcbst \<Rightarrow> pcbst" where
  "in_pcballoc p opts st = st\<lparr>pcbs := p # pcbs st, pcb := (pcb st)(p := \<lparr>inp_laddr = 0, inp_lport = 0, inp_faddr = 0,
     inp_fport = 0, inp_socket = True, inp_soopts = opts\<rparr>)\<rparr>"

text \<open>
  \<open>in_pcbconnect\<close>: \<open>faddr\<close> is the peer after an address of 0 has been replaced by the primary one, \<open>src\<close> the local
  address the route or the interfaces give, if there is one.
\<close>

definition in_pcbconnect :: "pcbenv \<Rightarrow> u32 option \<Rightarrow> pcbptr \<Rightarrow> u32 \<Rightarrow> u16 \<Rightarrow> pcbst \<Rightarrow> pcbst \<times> int" where
  "in_pcbconnect e src p faddr fport st =
     (let i = pcb st p in
      if fport = 0 then (st, EADDRNOTAVAIL)
      else if inp_laddr i = 0 \<and> src = None then (st, EADDRNOTAVAIL)
      else let laddr = (if inp_laddr i \<noteq> 0 then inp_laddr i else the src) in
        if in_pcblookup faddr fport laddr (inp_lport i) False st \<noteq> None then (st, EADDRINUSE)
        else (case (if inp_laddr i = 0 \<and> inp_lport i = 0 then in_pcbbind e p None st else (st, 0)) of
            (st1, err) \<Rightarrow>
              if err \<noteq> 0 then (st1, err)
              else (pcb_upd p (\<lambda>i. i\<lparr>inp_laddr := laddr, inp_faddr := faddr, inp_fport := fport\<rparr>) st1, 0)))"

definition in_pcbdetach :: "pcbptr \<Rightarrow> pcbst \<Rightarrow> pcbst" where
  "in_pcbdetach p st = st\<lparr>pcbs := remove1 p (pcbs st)\<rparr>"

definition in_pcbdisconnect :: "bool \<Rightarrow> pcbptr \<Rightarrow> pcbst \<Rightarrow> pcbst" where
  "in_pcbdisconnect nofdref p st =
     (let st1 = pcb_upd p (\<lambda>i. i\<lparr>inp_faddr := 0, inp_fport := 0\<rparr>) st in if nofdref then in_pcbdetach p st1 else st1)"

text \<open>The blocks \<open>in_pcbnotify\<close> calls the notify routine for, and whether with \<open>in_rtchange\<close> instead.\<close>

definition pcb_notified :: "nat \<Rightarrow> u32 \<Rightarrow> u16 \<Rightarrow> u32 \<Rightarrow> u16 \<Rightarrow> pcbst \<Rightarrow> pcbptr list" where
  "pcb_notified cmd faddr fport laddr lport st =
     (if cmd \<ge> 21 \<or> faddr = 0 then []
      else let all_refs = (14 \<le> cmd \<and> cmd \<le> 17 \<or> cmd = 6) in
        filter (\<lambda>p. let i = pcb st p in inp_faddr i = faddr \<and> inp_socket i \<and>
            (all_refs \<or> (lport = 0 \<or> inp_lport i = lport) \<and> (laddr = 0 \<or> inp_laddr i = laddr) \<and> (fport = 0 \<or> inp_fport i = fport)))
          (pcbs st))"

section \<open>TCP's use of them\<close>

text \<open>\<open>findpcb\<close> in \<open>tcp_input\<close>.\<close>

definition tcp_findpcb :: "u32 \<Rightarrow> u16 \<Rightarrow> u32 \<Rightarrow> u16 \<Rightarrow> pcbst \<Rightarrow> pcbst \<times> pcbptr option" where
  "tcp_findpcb src sport dst dport st =
     (let i = pcb st (last_inpcb st) in
      if inp_lport i \<noteq> dport \<or> inp_fport i \<noteq> sport \<or> inp_faddr i \<noteq> src \<or> inp_laddr i \<noteq> dst
      then (case in_pcblookup src sport dst dport True st of
              None \<Rightarrow> (st, None)
            | Some p \<Rightarrow> (st\<lparr>last_inpcb := p\<rparr>, Some p))
      else (st, Some (last_inpcb st)))"

text \<open>The end of \<open>tcp_close\<close>.\<close>

definition tcp_unlink :: "pcbptr \<Rightarrow> pcbst \<Rightarrow> pcbst" where
  "tcp_unlink p st = in_pcbdetach p (if p = last_inpcb st then st\<lparr>last_inpcb := pcb_head st\<rparr> else st)"

text \<open>\<open>PRU_CONNECT\<close>, as far as the block goes.\<close>

definition tcp_pcbconnect :: "pcbenv \<Rightarrow> u32 option \<Rightarrow> pcbptr \<Rightarrow> u32 \<Rightarrow> u16 \<Rightarrow> pcbst \<Rightarrow> pcbst \<times> int" where
  "tcp_pcbconnect e src p faddr fport st =
     (case (if inp_lport (pcb st p) = 0 then in_pcbbind e p None st else (st, 0)) of
        (st1, err) \<Rightarrow> if err \<noteq> 0 then (st1, err) else in_pcbconnect e src p faddr fport st1)"

text \<open>The block of a connection that comes in (\<open>tcp_input\<close>, the new socket and \<open>LISTEN\<close>).\<close>

definition tcp_pcbaccept :: "pcbenv \<Rightarrow> pcbptr \<Rightarrow> u32 \<Rightarrow> u16 \<Rightarrow> u32 \<Rightarrow> u16 \<Rightarrow> pcbst \<Rightarrow> pcbst \<times> int" where
  "tcp_pcbaccept e p src sport dst dport st =
     in_pcbconnect e None p src sport (pcb_upd p (\<lambda>i. i\<lparr>inp_laddr := dst, inp_lport := dport\<rparr>) st)"

end
