(* ===== verification/Sockvar.thy ===== *)
theory Sockvar
  imports Amitcp_Prelude
begin

text \<open>
  The counters of a socket buffer (\<open>struct sockbuf\<close> of \<open>sys/socketvar.h\<close>), the space left in
  it, and its reservation (\<open>sbspace\<close>, \<open>sbreserve\<close> of \<open>kern/uipc_socket2.c\<close>). \<open>sb_max\<close> and
  \<open>mbconf.mclbytes\<close> are arguments. \<open>min\<close> on words is the unsigned \<open>min\<close> of
  \<open>kern/amiga_subr.h\<close>.
\<close>

record sockbuf =
  sb_cc :: u32
  sb_hiwat :: u32
  sb_mbcnt :: u32
  sb_mbmax :: u32
  sb_lowat :: u32

definition sbspace :: "sockbuf \<Rightarrow> int" where
  "sbspace sb = min (sint (sb_hiwat sb - sb_cc sb)) (sint (sb_mbmax sb - sb_mbcnt sb))"

text \<open>The largest reservation accepted: \<open>MSIZE\<close> is 128.\<close>

definition sb_limit :: "u32 \<Rightarrow> u32 \<Rightarrow> u32" where
  "sb_limit sbmax mclb = sbmax div (128 + mclb) * mclb"

definition sbreserve :: "u32 \<Rightarrow> u32 \<Rightarrow> u32 \<Rightarrow> sockbuf \<Rightarrow> sockbuf \<times> bool" where
  "sbreserve sbmax mclb cc sb =
     (if cc > sb_limit sbmax mclb then (sb, False)
      else let sb1 = sb\<lparr>sb_hiwat := cc, sb_mbmax := min (cc * 2) sbmax\<rparr>
        in (if sb_lowat sb1 > sb_hiwat sb1 then sb1\<lparr>sb_lowat := sb_hiwat sb1\<rparr> else sb1, True))"

end
