(* ===== verification/Mbuf.thy ===== *)
theory Mbuf
  imports Amitcp_Prelude "HOL-Library.Monad_Syntax"
begin

text \<open>
  The mbuf pool and the mbuf chain routines (\<open>kern/uipc_mbuf.c\<close>, \<open>sys/mbuf.h\<close>), on an explicit
  heap. A pointer is its 32-bit address, \<open>0\<close> is \<open>NULL\<close>; the heap maps every address to the mbuf
  or cluster there (there is no MMU: a stray read returns something). Loops along \<open>m_next\<close> are
  \<open>partial_function\<close>s in the option monad, so that a walk of a cyclic list is \<open>None\<close>.

  The interrupt level (\<open>splimp\<close>) and the log lines are not modelled. \<open>AllocMem\<close> takes its
  results from a list in the state; \<open>canwait\<close>, which the code ignores, is dropped. The chains
  that the protocols' drain entries would release (the fragments \<open>ip_drain\<close> hands to
  \<open>ip_freef\<close>; \<open>tcp_drain\<close> is empty) are a list of the state.
\<close>

section \<open>Data\<close>

type_synonym ptr = u32

definition MSIZE :: nat where "MSIZE = 128"
definition MLEN :: int where "MLEN = 108"
definition MHLEN :: int where "MHLEN = 96"
definition MINCLSIZE :: int where "MINCLSIZE = MHLEN + MLEN"

definition M_EXT :: u16 where "M_EXT = 0x0001"
definition M_PKTHDR :: u16 where "M_PKTHDR = 0x0002"
definition M_BCAST :: u16 where "M_BCAST = 0x0100"
definition M_MCAST :: u16 where "M_MCAST = 0x0200"
definition M_CSUM_DONE :: u16 where "M_CSUM_DONE = 0x0400"
definition M_COPYFLAGS :: u16 where "M_COPYFLAGS = M_PKTHDR OR M_BCAST OR M_MCAST"

definition MT_FREE :: nat where "MT_FREE = 0"
definition MT_DATA :: nat where "MT_DATA = 1"
definition MT_SONAME :: nat where "MT_SONAME = 8"

definition M_COPYALL :: int where "M_COPYALL = 1000000000"

record pkthdr =
  ph_len :: int
  ph_rcvif :: u32
  ph_csum :: u32

text \<open>
  \<open>m_data\<close> is the offset of the data in its storage: in \<open>m_dat\<close> (the \<open>MLEN\<close> bytes after the
  header), or in the cluster's buffer when \<open>M_EXT\<close> is set. The packet header and \<open>m_ext\<close>, which
  overlay the first 20 bytes of \<open>m_dat\<close>, are fields of their own.
\<close>

record mbuf =
  m_next :: ptr
  m_nextpkt :: ptr
  m_len :: int
  m_data :: int
  m_type :: nat
  m_flags :: u16
  m_pkthdr :: pkthdr
  ext_buf :: ptr
  ext_size :: u32
  m_dat :: "u8 list"

text \<open>A cluster: the union of the free-list link and the reference count, and the buffer.\<close>

record mcluster =
  mcl_word :: u32
  mcl_buf :: "u8 list"

record memHeader =
  mh_base :: u32
  mh_size :: u32
  ismbuf :: bool

record mbconf =
  initial_mbuf_chunks :: u32
  mbufchunk :: u32
  clusterchunk :: u32
  maxmem :: u32
  mclbytes :: u32

record mst =
  mbufs :: "ptr \<Rightarrow> mbuf"
  clus :: "ptr \<Rightarrow> mcluster"
  mfree :: ptr
  mclfree :: ptr
  mbufmem :: "memHeader list"
  conf :: mbconf
  st_mbufs :: u32
  st_clusters :: u32
  st_clfree :: u32
  st_drain :: u32
  st_memused :: u32
  st_mtypes :: "nat \<Rightarrow> u16"
  initialized :: bool
  ng_mbufcheck :: bool
  ng_mbufcheck_active :: bool
  ng_mbuf_doublefree :: u32
  ng_mbuf_useafterfree :: u32
  ng_mbuf_listcorrupt :: u32
  MCFail :: u32
  MPFail :: u32
  max_protohdr :: int
  allocs :: "u32 list"
  drainable :: "ptr list"

definition wrap32 :: "int \<Rightarrow> int" where
  "wrap32 x = signed_take_bit 31 x"

definition has_flag :: "u16 \<Rightarrow> mbuf \<Rightarrow> bool" where
  "has_flag f m \<longleftrightarrow> m_flags m AND f \<noteq> 0"

definition upd :: "ptr \<Rightarrow> (mbuf \<Rightarrow> mbuf) \<Rightarrow> mst \<Rightarrow> mst" where
  "upd p f st = st\<lparr>mbufs := (mbufs st)(p := f (mbufs st p))\<rparr>"

text \<open>\<open>sizeof(struct memHeader)\<close> and \<open>sizeof(struct mcluster)\<close>.\<close>

definition memHeader_sz :: u32 where "memHeader_sz = 12"
definition mcluster_sz :: u32 where "mcluster_sz = 4"

section \<open>Pool membership\<close>

definition chunk_has :: "u32 \<Rightarrow> memHeader \<Rightarrow> bool" where
  "chunk_has a mh \<longleftrightarrow> ismbuf mh \<and> a \<ge> mh_base mh + memHeader_sz \<and>
     a + of_nat MSIZE \<le> mh_base mh + mh_size mh"

definition m_valid :: "mst \<Rightarrow> ptr \<Rightarrow> bool" where
  "m_valid st m =
     (if m = 0 \<or> m AND (of_nat MSIZE - 1) \<noteq> 0 then False
      else list_ex (chunk_has m) (mbufmem st))"

section \<open>Poisoning\<close>

definition NG_MBUF_POISON :: u32 where "NG_MBUF_POISON = 0xDFDFDFDF"

definition poison_dat :: "u8 list" where
  "poison_dat = replicate 108 0xDF"

definition poison_hdr :: pkthdr where
  "poison_hdr = \<lparr>ph_len = sint NG_MBUF_POISON, ph_rcvif = NG_MBUF_POISON, ph_csum = NG_MBUF_POISON\<rparr>"

definition ng_mbuf_bad_free :: "ptr \<Rightarrow> mst \<Rightarrow> mst \<times> bool" where
  "ng_mbuf_bad_free m st =
     (if m_type (mbufs st m) \<noteq> MT_FREE then (st, False)
      else (st\<lparr>ng_mbuf_doublefree := ng_mbuf_doublefree st + 1\<rparr>, True))"

text \<open>The poison covers \<open>m_dat\<close> with the packet header and \<open>m_ext\<close> that overlay it.\<close>

definition ng_mbuf_poison :: "ptr \<Rightarrow> mst \<Rightarrow> mst" where
  "ng_mbuf_poison m = upd m (\<lambda>b. b\<lparr>m_type := MT_FREE, m_pkthdr := poison_hdr,
     ext_buf := NG_MBUF_POISON, ext_size := NG_MBUF_POISON, m_dat := poison_dat\<rparr>)"

definition poisoned :: "mbuf \<Rightarrow> bool" where
  "poisoned b \<longleftrightarrow> m_pkthdr b = poison_hdr \<and> ext_buf b = NG_MBUF_POISON \<and>
     ext_size b = NG_MBUF_POISON \<and> m_dat b = poison_dat"

definition ng_mbuf_alloc_check :: "ptr \<Rightarrow> mst \<Rightarrow> mst" where
  "ng_mbuf_alloc_check m st =
     (if m_type (mbufs st m) \<noteq> MT_FREE
      then st\<lparr>ng_mbuf_listcorrupt := ng_mbuf_listcorrupt st + 1\<rparr>
      else if \<not> poisoned (mbufs st m)
      then st\<lparr>ng_mbuf_useafterfree := ng_mbuf_useafterfree st + 1\<rparr>
      else st)"

section \<open>Growing the pool\<close>

datatype mbconf_var = V_initial_mbuf_chunks | V_mbufchunk | V_clusterchunk | V_maxmem | V_mclbytes

fun mb_check_conf :: "mbconf_var \<Rightarrow> int \<Rightarrow> bool" where
  "mb_check_conf V_initial_mbuf_chunks v = (v > 0 \<and> v \<le> 4096)"
| "mb_check_conf V_mbufchunk v = (v \<ge> 32 \<and> v \<le> 65536)"
| "mb_check_conf V_clusterchunk v = (v > 0 \<and> v \<le> 65536)"
| "mb_check_conf V_maxmem v = (v > 32 \<and> v \<le> 128 * 1024)"
| "mb_check_conf V_mclbytes v = (v \<ge> MINCLSIZE \<and> v \<le> 65536 \<and> v AND 3 = 0)"

definition AllocMem :: "mst \<Rightarrow> mst \<times> u32" where
  "AllocMem st = (case allocs st of [] \<Rightarrow> (st, 0) | a # as \<Rightarrow> (st\<lparr>allocs := as\<rparr>, a))"

definition dtom :: "u32 \<Rightarrow> ptr" where
  "dtom x = x AND NOT (of_nat MSIZE - 1)"

primrec m_alloc_loop :: "nat \<Rightarrow> ptr \<Rightarrow> mst \<Rightarrow> mst" where
  "m_alloc_loop 0 m st = st"
| "m_alloc_loop (Suc n) m st =
     (let st1 = ng_mbuf_poison m st;
          st2 = upd m (\<lambda>b. b\<lparr>m_next := mfree st1\<rparr>) st1
      in m_alloc_loop n (m + of_nat MSIZE) (st2\<lparr>mfree := m\<rparr>))"

definition m_alloc_size :: "u32 \<Rightarrow> u32" where
  "m_alloc_size howmany = of_nat MSIZE * (howmany + 1) + memHeader_sz"

text \<open>\<open>howmany\<close> is the int argument's word; it is read as signed in \<open>howmany <= 0\<close>.\<close>

definition m_alloc :: "u32 \<Rightarrow> mst \<Rightarrow> mst \<times> bool" where
  "m_alloc howmany st =
     (if sint howmany \<le> 0 \<or> howmany + 1 > (0xFFFFFFFF - memHeader_sz) div of_nat MSIZE
      then (st, False)
      else let sz = m_alloc_size howmany in
        if st_memused st + sz > maxmem (conf st) * 1024 then (st, False)
        else (case AllocMem st of (st1, mh) \<Rightarrow>
          if mh = 0 then (st1, False)
          else let st2 = st1\<lparr>st_memused := st_memused st1 + sz,
                             mbufmem := \<lparr>mh_base = mh, mh_size = sz, ismbuf = True\<rparr> # mbufmem st1,
                             st_mbufs := st_mbufs st1 + howmany\<rparr>
            in (m_alloc_loop (unat howmany) (dtom (mh + memHeader_sz + of_nat MSIZE - 1)) st2, True)))"

text \<open>The bytes at a new cluster's buffer are whatever the memory held.\<close>

definition fit :: "nat \<Rightarrow> u8 list \<Rightarrow> u8 list" where
  "fit n xs = take n (xs @ replicate n 0)"

primrec m_clalloc_loop :: "nat \<Rightarrow> ptr \<Rightarrow> mst \<Rightarrow> mst" where
  "m_clalloc_loop 0 p st = st"
| "m_clalloc_loop (Suc n) p st =
     m_clalloc_loop n (p + mcluster_sz + mclbytes (conf st))
       (st\<lparr>clus := (clus st)(p := \<lparr>mcl_word = mclfree st,
                                   mcl_buf = fit (unat (mclbytes (conf st))) (mcl_buf (clus st p))\<rparr>),
           mclfree := p, st_clfree := st_clfree st + 1\<rparr>)"

definition m_clalloc :: "u32 \<Rightarrow> mst \<Rightarrow> mst \<times> bool" where
  "m_clalloc ncl st =
     (let stride = mcluster_sz + mclbytes (conf st) in
      if sint ncl \<le> 0 \<or> ncl > (0xFFFFFFFF - memHeader_sz) div stride then (st, False)
      else let sz = ncl * stride + memHeader_sz in
        if st_memused st + sz > maxmem (conf st) * 1024 then (st, False)
        else (case AllocMem st of (st1, mh) \<Rightarrow>
          if mh = 0 then (st1, False)
          else let st2 = st1\<lparr>st_memused := st_memused st1 + sz,
                             mbufmem := \<lparr>mh_base = mh, mh_size = sz, ismbuf = False\<rparr> # mbufmem st1\<rparr>;
                   st3 = m_clalloc_loop (unat ncl) (mh + memHeader_sz) st2
            in (st3\<lparr>st_clusters := st_clusters st3 + ncl\<rparr>, True)))"

definition mbdeinit :: "mst \<Rightarrow> mst" where
  "mbdeinit st = st\<lparr>st_memused := st_memused st - sum_list (map mh_size (mbufmem st)),
                    mbufmem := [], initialized := False\<rparr>"

definition mbinit :: "mst \<Rightarrow> mst \<times> bool" where
  "mbinit st =
     (if initialized st then (st, True)
      else let st1 = st\<lparr>ng_mbufcheck_active := ng_mbufcheck st, ng_mbuf_doublefree := 0,
                        ng_mbuf_useafterfree := 0, ng_mbuf_listcorrupt := 0,
                        mfree := 0, mclfree := 0\<rparr>;
               (st2, ok1) = m_alloc (initial_mbuf_chunks (conf st) * mbufchunk (conf st)) st1;
               (st3, ok2) = (if ok1 then m_clalloc (clusterchunk (conf st)) st2 else (st2, False));
               st4 = st3\<lparr>initialized := ok2\<rparr>
           in if ok2 then (st4, True) else (mbdeinit st4, False))"

section \<open>Clusters\<close>

text \<open>The reference count is the first short of the union: the high half of the word.\<close>

definition mcl_refcnt :: "u32 \<Rightarrow> u16" where
  "mcl_refcnt w = ucast (drop_bit 16 w)"

definition set_refcnt :: "u16 \<Rightarrow> u32 \<Rightarrow> u32" where
  "set_refcnt r w = push_bit 16 (ucast r) OR (w AND 0xFFFF)"

definition upd_clus :: "ptr \<Rightarrow> (u32 \<Rightarrow> u32) \<Rightarrow> mst \<Rightarrow> mst" where
  "upd_clus p f st = st\<lparr>clus := (clus st)(p := (clus st p)\<lparr>mcl_word := f (mcl_word (clus st p))\<rparr>)\<rparr>"

definition MCLALLOC :: "mst \<Rightarrow> mst \<times> ptr" where
  "MCLALLOC st =
     (let st1 = (if mclfree st = 0 then fst (m_clalloc (clusterchunk (conf st)) st) else st);
          p = mclfree st1
      in if p \<noteq> 0
         then (upd_clus p (set_refcnt 1)
                 (st1\<lparr>st_clfree := st_clfree st1 - 1, mclfree := mcl_word (clus st1 p)\<rparr>), p)
         else (st1, 0))"

definition MCLGET :: "ptr \<Rightarrow> mst \<Rightarrow> mst" where
  "MCLGET m st =
     (case MCLALLOC st of (st1, p) \<Rightarrow>
        let st2 = upd m (\<lambda>b. b\<lparr>ext_buf := p\<rparr>) st1 in
        if p \<noteq> 0
        then upd m (\<lambda>b. b\<lparr>m_data := 0, m_flags := m_flags b OR M_EXT,
                          ext_size := mclbytes (conf st2)\<rparr>) st2
        else st2)"

definition MCLFREE :: "ptr \<Rightarrow> mst \<Rightarrow> mst" where
  "MCLFREE p st =
     (let st1 = upd_clus p (\<lambda>w. set_refcnt (mcl_refcnt w - 1) w) st in
      if mcl_refcnt (mcl_word (clus st1 p)) = 0
      then (upd_clus p (\<lambda>w. mclfree st1) st1)\<lparr>mclfree := p, st_clfree := st_clfree st1 + 1\<rparr>
      else st1)"

section \<open>Getting and freeing mbufs\<close>

definition count_type :: "nat \<Rightarrow> u16 \<Rightarrow> mst \<Rightarrow> mst" where
  "count_type ty d st = st\<lparr>st_mtypes := (st_mtypes st)(ty := st_mtypes st ty + d)\<rparr>"

text \<open>The macro with its \<open>m_retry\<close> call replaced by \<open>NULL\<close>, as \<open>m_retry\<close> expands it.\<close>

definition MGET_nr :: "nat \<Rightarrow> mst \<Rightarrow> mst \<times> ptr" where
  "MGET_nr ty st =
     (let m = mfree st in
      if m \<noteq> 0 then
        (let st1 = st\<lparr>mfree := m_next (mbufs st m)\<rparr>;
             st2 = (if ng_mbufcheck_active st then ng_mbuf_alloc_check m st1 else st1);
             st3 = count_type ty 1 (upd m (\<lambda>b. b\<lparr>m_type := ty\<rparr>) st2)
         in (upd m (\<lambda>b. b\<lparr>m_next := 0, m_nextpkt := 0, m_data := 0, m_flags := 0\<rparr>) st3, m))
      else (st, 0))"

text \<open>\<open>MFREE(m, n)\<close>; the result is \<open>n\<close>.\<close>

definition MFREE :: "ptr \<Rightarrow> mst \<Rightarrow> mst \<times> ptr" where
  "MFREE m st =
     (let (st0, bad) = (if ng_mbufcheck_active st then ng_mbuf_bad_free m st else (st, False)) in
      if bad then (st0, 0)
      else let st1 = count_type (m_type (mbufs st0 m)) (- 1) st0;
               st2 = (if has_flag M_EXT (mbufs st1 m) then MCLFREE (ext_buf (mbufs st1 m)) st1 else st1);
               n = m_next (mbufs st2 m);
               st3 = (if ng_mbufcheck_active st2 then ng_mbuf_poison m st2 else st2);
               st4 = upd m (\<lambda>b. b\<lparr>m_next := mfree st3\<rparr>) st3
           in (st4\<lparr>mfree := m\<rparr>, n))"

definition m_free :: "ptr \<Rightarrow> mst \<Rightarrow> mst \<times> ptr" where
  "m_free m st = MFREE m st"

partial_function (option) m_freem :: "ptr \<Rightarrow> mst \<Rightarrow> mst option" where
  "m_freem m st =
     (if m = 0 then Some st
      else (case MFREE m st of (st1, n) \<Rightarrow> m_freem n st1))"

fun drain_chains :: "ptr list \<Rightarrow> mst \<Rightarrow> mst option" where
  "drain_chains [] st = Some st"
| "drain_chains (p # ps) st = do { st1 \<leftarrow> m_freem p st; drain_chains ps st1 }"

definition m_reclaim :: "mst \<Rightarrow> mst option" where
  "m_reclaim st = do {
     st1 \<leftarrow> drain_chains (drainable st) (st\<lparr>drainable := []\<rparr>);
     Some (st1\<lparr>st_drain := st_drain st1 + 1\<rparr>) }"

definition m_retry :: "nat \<Rightarrow> mst \<Rightarrow> (mst \<times> ptr) option" where
  "m_retry ty st = do {
     st1 \<leftarrow> m_reclaim st;
     let st2 = (if mfree st1 = 0 then fst (m_alloc (mbufchunk (conf st1)) st1) else st1);
     Some (MGET_nr ty st2) }"

definition MGET :: "nat \<Rightarrow> mst \<Rightarrow> (mst \<times> ptr) option" where
  "MGET ty st = (if mfree st \<noteq> 0 then Some (MGET_nr ty st) else m_retry ty st)"

definition MGETHDR :: "nat \<Rightarrow> mst \<Rightarrow> (mst \<times> ptr) option" where
  "MGETHDR ty st = do {
     (st1, m) \<leftarrow> MGET ty st;
     Some (if m \<noteq> 0 then upd m (\<lambda>b. b\<lparr>m_data := MLEN - MHLEN, m_flags := M_PKTHDR\<rparr>) st1 else st1, m) }"

definition m_get :: "nat \<Rightarrow> mst \<Rightarrow> (mst \<times> ptr) option" where
  "m_get ty st = MGET ty st"

definition m_gethdr :: "nat \<Rightarrow> mst \<Rightarrow> (mst \<times> ptr) option" where
  "m_gethdr ty st = MGETHDR ty st"

definition m_getclr :: "nat \<Rightarrow> mst \<Rightarrow> (mst \<times> ptr) option" where
  "m_getclr ty st = do {
     (st1, m) \<leftarrow> MGET ty st;
     Some (if m = 0 then st1 else upd m (\<lambda>b. b\<lparr>m_dat := replicate 108 0,
       m_pkthdr := \<lparr>ph_len = 0, ph_rcvif = 0, ph_csum = 0\<rparr>, ext_buf := 0, ext_size := 0\<rparr>) st1, m) }"

end
