(* ===== verification/Sockbuf.thy ===== *)
theory Sockbuf
  imports Sockvar Mbuf
begin

text \<open>
  The contents of a socket buffer (\<open>kern/uipc_socket2.c\<close>): the records a buffer holds and the
  routines that append to it and drop from it. A record is the list of its mbufs, an mbuf its data,
  its cluster size if it has one, the bytes left behind the data in \<open>m_dat\<close>, and its type. The
  pointers \<open>sb_mb\<close> and \<open>sb_mbtail\<close> are the first mbuf of the first record and the last of the last.
  No mbuf of a buffer is on the free list here, so the tests of \<open>SB_WAS_FREED\<close> fail.
\<close>

record vmbuf =
  vm_data :: "u8 list"
  vm_ext :: "u32 option"
  vm_room :: int
  vm_type :: nat

type_synonym sbuf = "sockbuf \<times> vmbuf list list"

datatype sb_panic = Panic_sbdrop | Panic_sbflush | Panic_sbflush2 | Panic_sbappendaddr | Panic_sbappendcontrol

definition vm_len :: "vmbuf \<Rightarrow> nat" where
  "vm_len m = length (vm_data m)"

definition vm_size :: "vmbuf \<Rightarrow> u32" where
  "vm_size m = of_nat MSIZE + (case vm_ext m of None \<Rightarrow> 0 | Some s \<Rightarrow> s)"

section \<open>The counters\<close>

definition sballoc :: "vmbuf \<Rightarrow> sockbuf \<Rightarrow> sockbuf" where
  "sballoc m sb = sb\<lparr>sb_cc := sb_cc sb + of_nat (vm_len m), sb_mbcnt := sb_mbcnt sb + vm_size m\<rparr>"

definition sbfree :: "vmbuf \<Rightarrow> sockbuf \<Rightarrow> sockbuf" where
  "sbfree m sb = sb\<lparr>sb_cc := sb_cc sb - of_nat (vm_len m), sb_mbcnt := sb_mbcnt sb - vm_size m\<rparr>"

text \<open>What \<open>SOCKBUF_DEBUG\<close> checks.\<close>

definition sbcheck :: "sbuf \<Rightarrow> bool" where
  "sbcheck s = (case s of (sb, recs) \<Rightarrow>
     sb_cc sb = of_nat (sum_list (map vm_len (concat recs))) \<and>
     sb_mbcnt sb = sum_list (map vm_size (concat recs)) \<and> [] \<notin> set recs)"

section \<open>Appending\<close>

text \<open>\<open>sbcompress(sb, m, n)\<close>: \<open>r\<close> is the record that ends in \<open>n\<close>, empty when \<open>n\<close> is null.\<close>

definition grow_last :: "vmbuf \<Rightarrow> vmbuf list \<Rightarrow> vmbuf list" where
  "grow_last m r = butlast r @ [(last r)\<lparr>vm_data := vm_data (last r) @ vm_data m,
     vm_room := vm_room (last r) - int (vm_len m)\<rparr>]"

fun sbcompress :: "sockbuf \<Rightarrow> vmbuf list \<Rightarrow> vmbuf list \<Rightarrow> sockbuf \<times> vmbuf list" where
  "sbcompress sb r [] = (sb, r)"
| "sbcompress sb r (m # ms) =
     (if vm_len m = 0 \<and>
         (case ms of o1 # _ \<Rightarrow> vm_type o1 = vm_type m | [] \<Rightarrow> r \<noteq> [] \<and> vm_type (last r) = vm_type m)
      then sbcompress sb r ms
      else if r \<noteq> [] \<and> vm_ext (last r) = None \<and> int (vm_len m) < vm_room (last r) \<and>
              vm_type (last r) = vm_type m
      then sbcompress (sb\<lparr>sb_cc := sb_cc sb + of_nat (vm_len m)\<rparr>) (grow_last m r) ms
      else sbcompress (sballoc m sb) (r @ [m]) ms)"

definition sbappend :: "sbuf \<Rightarrow> vmbuf list \<Rightarrow> sbuf" where
  "sbappend s m = (case s of (sb, recs) \<Rightarrow>
     if m = [] then s
     else (case sbcompress sb (if recs = [] then [] else last recs) m of
             (sb1, r) \<Rightarrow> (sb1, butlast recs @ [r])))"

definition sbappendrecord :: "sbuf \<Rightarrow> vmbuf list \<Rightarrow> sbuf" where
  "sbappendrecord s m = (case s of (sb, recs) \<Rightarrow>
     (case m of [] \<Rightarrow> s
      | m0 # ms \<Rightarrow> (case sbcompress (sballoc m0 sb) [m0] ms of (sb1, r) \<Rightarrow> (sb1, recs @ [r]))))"

text \<open>
  \<open>hdr\<close> is the packet length of the data when its first mbuf has a packet header; \<open>mget\<close> says
  whether \<open>MGET\<close> finds an mbuf. The result is the value returned, as a truth value.
\<close>

definition sbappendaddr :: "bool \<Rightarrow> u8 list \<Rightarrow> int option \<Rightarrow> vmbuf list \<Rightarrow> vmbuf list \<Rightarrow> sbuf \<Rightarrow> sb_panic + sbuf \<times> bool" where
  "sbappendaddr mget asa hdr m0 control s = (case s of (sb, recs) \<Rightarrow>
     if m0 \<noteq> [] \<and> hdr = None then Inl Panic_sbappendaddr
     else let space = int (length asa) + (if m0 \<noteq> [] then the hdr else 0) + int (sum_list (map vm_len control))
       in if space > sbspace sb then Inr (s, False)
          else if int (length asa) > MLEN then Inr (s, False)
          else if \<not> mget then Inr (s, False)
          else let m = \<lparr>vm_data = asa, vm_ext = None, vm_room = MLEN - int (length asa), vm_type = MT_SONAME\<rparr>;
                   chain = m # control @ m0
               in Inr ((fold sballoc chain sb, recs @ [chain]), True))"

definition sbappendcontrol :: "vmbuf list \<Rightarrow> vmbuf list \<Rightarrow> sbuf \<Rightarrow> sb_panic + sbuf \<times> bool" where
  "sbappendcontrol m0 control s = (case s of (sb, recs) \<Rightarrow>
     if control = [] then Inl Panic_sbappendcontrol
     else if int (sum_list (map vm_len control)) + int (sum_list (map vm_len m0)) > sbspace sb
     then Inr (s, False)
     else Inr ((fold sballoc (control @ m0) sb, recs @ [control @ m0]), True))"

section \<open>Dropping\<close>

text \<open>The first loop of \<open>sbdrop\<close>; \<open>m\<close> is what is left of the record, \<open>nx\<close> the records after it.\<close>

function sbdrop_walk ::
  "int \<Rightarrow> sockbuf \<Rightarrow> vmbuf list \<Rightarrow> vmbuf list list \<Rightarrow> (sockbuf \<times> vmbuf list \<times> vmbuf list list) option" where
  "sbdrop_walk len sb [] nx =
     (if len > 0 then (case nx of [] \<Rightarrow> None | r # rs \<Rightarrow> sbdrop_walk len sb r rs) else Some (sb, [], nx))"
| "sbdrop_walk len sb (m # ms) nx =
     (if len > 0 then
        (if int (vm_len m) > len
         then Some (sb\<lparr>sb_cc := sb_cc sb - word_of_int len\<rparr>, m\<lparr>vm_data := drop (nat len) (vm_data m)\<rparr> # ms, nx)
         else sbdrop_walk (len - int (vm_len m)) (sbfree m sb) ms nx)
      else Some (sb, m # ms, nx))"
  by pat_completeness auto
termination
  by (relation "measure (\<lambda>(len, sb, m, nx). length m + sum_list (map (\<lambda>r. Suc (length r)) nx))") auto

text \<open>The second loop, over the empty mbufs left at the front of the record.\<close>

fun sbdrop_empty :: "sockbuf \<Rightarrow> vmbuf list \<Rightarrow> sockbuf \<times> vmbuf list" where
  "sbdrop_empty sb [] = (sb, [])"
| "sbdrop_empty sb (m # ms) = (if vm_len m = 0 then sbdrop_empty (sbfree m sb) ms else (sb, m # ms))"

definition sbdrop :: "bool \<Rightarrow> int \<Rightarrow> sbuf \<Rightarrow> sb_panic + sbuf" where
  "sbdrop mbufcheck len s = (case s of (sb, recs) \<Rightarrow>
     if mbufcheck \<and> recs = [] \<and> (sb_cc sb \<noteq> 0 \<or> sb_mbcnt sb \<noteq> 0)
     then Inr (sb\<lparr>sb_cc := 0, sb_mbcnt := 0\<rparr>, [])
     else (case sbdrop_walk len sb (if recs = [] then [] else hd recs) (tl recs) of
             None \<Rightarrow> Inl Panic_sbdrop
           | Some (sb1, m, nx) \<Rightarrow>
               (case sbdrop_empty sb1 m of (sb2, m2) \<Rightarrow> Inr (sb2, if m2 \<noteq> [] then m2 # nx else nx))))"

definition sbdroprecord :: "sbuf \<Rightarrow> sbuf" where
  "sbdroprecord s = (case s of (sb, recs) \<Rightarrow>
     (case recs of [] \<Rightarrow> s | r # rs \<Rightarrow> (fold sbfree r sb, rs)))"

text \<open>\<open>sbflush\<close> and its loop, which may not end; \<open>locked\<close> is \<open>sb_flags & SB_LOCK\<close>.\<close>

partial_function (option) sbflush_loop :: "bool \<Rightarrow> sbuf \<Rightarrow> (sb_panic + sbuf) option" where
  "sbflush_loop mbufcheck s =
     (if sb_mbcnt (fst s) = 0 then Some (Inr s)
      else (case sbdrop mbufcheck (sint (sb_cc (fst s))) s of
              Inl p \<Rightarrow> Some (Inl p)
            | Inr s1 \<Rightarrow> sbflush_loop mbufcheck s1))"

declare sbflush_loop.simps [code]

definition sbflush :: "bool \<Rightarrow> bool \<Rightarrow> sbuf \<Rightarrow> (sb_panic + sbuf) option" where
  "sbflush mbufcheck locked s =
     (if locked then Some (Inl Panic_sbflush)
      else map_option (\<lambda>r. case r of Inl p \<Rightarrow> Inl p
             | Inr (sb, recs) \<Rightarrow> if sb_cc sb \<noteq> 0 \<or> recs \<noteq> [] then Inl Panic_sbflush2 else Inr (sb, recs))
           (sbflush_loop mbufcheck s))"

definition sbrelease :: "bool \<Rightarrow> bool \<Rightarrow> sbuf \<Rightarrow> (sb_panic + sbuf) option" where
  "sbrelease mbufcheck locked s =
     map_option (map_sum id (\<lambda>(sb, recs). (sb\<lparr>sb_hiwat := 0, sb_mbmax := 0\<rparr>, recs))) (sbflush mbufcheck locked s)"

text \<open>
  \<open>soreserve\<close>: both buffers, each of at least 2048 bytes; the last result is whether it succeeds.
\<close>

definition sb_floor :: "u32 \<Rightarrow> u32" where
  "sb_floor cc = (if cc < 2048 then 2048 else cc)"

definition soreserve ::
  "bool \<Rightarrow> bool \<Rightarrow> u32 \<Rightarrow> u32 \<Rightarrow> u32 \<Rightarrow> u32 \<Rightarrow> sbuf \<Rightarrow> sbuf \<Rightarrow> (sb_panic + sbuf \<times> sbuf \<times> bool) option" where
  "soreserve mbufcheck locked sbmax mclb sndcc rcvcc so_s so_r =
     (case sbreserve sbmax mclb (sb_floor sndcc) (fst so_s) of (s1, ok1) \<Rightarrow>
        if \<not> ok1 then Some (Inr ((s1, snd so_s), so_r, False))
        else (case sbreserve sbmax mclb (sb_floor rcvcc) (fst so_r) of (r1, ok2) \<Rightarrow>
          if \<not> ok2
          then map_option (map_sum id (\<lambda>s2. (s2, (r1, snd so_r), False))) (sbrelease mbufcheck locked (s1, snd so_s))
          else let r2 = (if sb_lowat r1 = 0 then r1\<lparr>sb_lowat := 1\<rparr> else r1);
                   s2 = (if sb_lowat s1 = 0 then s1\<lparr>sb_lowat := mclb\<rparr> else s1);
                   s3 = (if sb_lowat s2 > sb_hiwat s2 then s2\<lparr>sb_lowat := sb_hiwat s2\<rparr> else s2)
            in Some (Inr ((s3, snd so_s), (r2, snd so_r), True))))"

section \<open>Trimming\<close>

text \<open>
  \<open>m_adj\<close> on the data of the mbufs of a chain: a cut at the tail gives the bytes back to the room behind
  the data.
\<close>

definition vm_cut :: "nat \<Rightarrow> vmbuf \<Rightarrow> vmbuf" where
  "vm_cut n m = m\<lparr>vm_data := take n (vm_data m), vm_room := vm_room m + int (vm_len m - n)\<rparr>"

fun vm_head :: "nat \<Rightarrow> vmbuf list \<Rightarrow> vmbuf list" where
  "vm_head len [] = []"
| "vm_head len (m # ms) =
     (if len > 0 then
        (if vm_len m \<le> len then vm_cut 0 m # vm_head (len - vm_len m) ms
         else m\<lparr>vm_data := drop len (vm_data m)\<rparr> # ms)
      else m # ms)"

fun vm_keep :: "nat \<Rightarrow> vmbuf list \<Rightarrow> vmbuf list" where
  "vm_keep count [] = []"
| "vm_keep count (m # ms) =
     (if vm_len m \<ge> count then vm_cut count m # map (vm_cut 0) ms else m # vm_keep (count - vm_len m) ms)"

definition vm_adj :: "int \<Rightarrow> vmbuf list \<Rightarrow> vmbuf list" where
  "vm_adj len m =
     (if m = [] then m
      else if len \<ge> 0 then vm_head (nat len) m
      else let n = nat (- len); count = sum_list (map vm_len m) in
        if vm_len (last m) \<ge> n then butlast m @ [vm_cut (vm_len (last m) - n) (last m)]
        else vm_keep (count - n) m)"

end
