(* ===== verification/In_Cksum.thy ===== *)
theory In_Cksum
  imports Amitcp_Prelude
begin

unbundle bit_operations_syntax

text \<open>
  The Internet checksum of an mbuf chain (\<open>netinet/in_cksum.c\<close>), the portable C routine: 32-bit
  accumulation with unrolled loops, the swap trick for data at odd addresses, and a byte
  carried over when a word spans two mbufs. It is shown equal to the RFC 1071 sum of the
  first \<open>len\<close> bytes of the chain.
\<close>

section \<open>The routine\<close>

text \<open>
  An mbuf as the routine sees it: whether its data starts at an odd address, and the data.
  The m68k is big-endian, so the 16-bit word at an address is \<open>be16\<close> of its two bytes.
\<close>

record ck_mbuf =
  ck_odd :: bool
  ck_data :: "u8 list"

definition ADDCARRY :: "u32 \<Rightarrow> u32" where
  "ADDCARRY x = (if x > 65535 then x - 65535 else x)"

definition REDUCE :: "u32 \<Rightarrow> u32" where
  "REDUCE s = ADDCARRY (drop_bit 16 s + (s AND 0xFFFF))"

text \<open>\<open>sum += w[0]; ... sum += w[n - 1]\<close>\<close>

primrec add_words :: "nat \<Rightarrow> u32 \<Rightarrow> u8 list \<Rightarrow> u32" where
  "add_words 0 s w = s"
| "add_words (Suc n) s w = add_words n (s + be16 (w ! 0) (w ! 1)) (drop 2 w)"

text \<open>
  \<open>while ((mlen -= 2 * n) >= 0) { n words; w += n; }\<close> with the \<open>mlen\<close> bytes left to sum as the
  list; the words per round are \<open>Suc n\<close>. The result is the sum and the bytes left over.
\<close>

function sum_loop :: "nat \<Rightarrow> u32 \<Rightarrow> u8 list \<Rightarrow> u32 \<times> u8 list" where
  "sum_loop n s w =
     (if length w \<ge> 2 * Suc n then sum_loop n (add_words (Suc n) s w) (drop (2 * Suc n) w)
      else (s, w))"
  by pat_completeness auto
termination by (relation "measure (\<lambda>(n, s, w). length w)") auto

declare sum_loop.simps [simp del]

text \<open>
  The state between mbufs: the sum, and the byte saved in \<open>s_util.c[0]\<close> when \<open>mlen\<close> is \<open>-1\<close>.
\<close>

record ck_state =
  ck_sum :: u32
  ck_pend :: "u8 option"

text \<open>
  The part of the loop body after the continuation byte: \<open>odd_w\<close> is the low bit of \<open>w\<close>, the list
  the \<open>mlen\<close> bytes of this mbuf that are still to be summed.
\<close>

definition ck_body :: "bool \<Rightarrow> u32 \<Rightarrow> u8 list \<Rightarrow> ck_state" where
  "ck_body odd_w s w =
     (let swapped = (odd_w \<and> w \<noteq> []);
          s1 = (if swapped then push_bit 8 (REDUCE s) else s);
          c0 = (if swapped then w ! 0 else 0);
          w1 = (if swapped then drop 1 w else w);
          (s2, w2) = sum_loop 15 s1 w1;
          (s3, w3) = sum_loop 3 s2 w2
      in if w3 = [] \<and> \<not> swapped then \<lparr>ck_sum = s3, ck_pend = None\<rparr>
         else let (s4, w4) = sum_loop 0 (REDUCE s3) w3
           in if swapped then
                (case w4 of
                   [] \<Rightarrow> \<lparr>ck_sum = push_bit 8 (REDUCE s4), ck_pend = Some c0\<rparr>
                 | b # _ \<Rightarrow> \<lparr>ck_sum = push_bit 8 (REDUCE s4) + be16 c0 b, ck_pend = None\<rparr>)
              else \<lparr>ck_sum = s4, ck_pend = (case w4 of [] \<Rightarrow> None | b # _ \<Rightarrow> Some b)\<rparr>)"

text \<open>One mbuf with data, \<open>len\<close> the bytes still wanted; the new \<open>len\<close> is returned too.\<close>

definition ck_mbuf_step :: "ck_mbuf \<Rightarrow> nat \<Rightarrow> ck_state \<Rightarrow> ck_state \<times> nat" where
  "ck_mbuf_step m len st =
     (case ck_pend st of
        Some c \<Rightarrow>
          (let w = drop 1 (ck_data m); len1 = len - 1;
               mlen = (if len1 < length w then len1 else length w)
           in (ck_body (\<not> ck_odd m) (ck_sum st + be16 c (ck_data m ! 0)) (take mlen w),
               len1 - mlen))
      | None \<Rightarrow>
          (let w = ck_data m; mlen = (if len < length w then len else length w)
           in (ck_body (ck_odd m) (ck_sum st) (take mlen w), len - mlen)))"

fun ck_loop :: "ck_mbuf list \<Rightarrow> nat \<Rightarrow> ck_state \<Rightarrow> ck_state" where
  "ck_loop [] len st = st"
| "ck_loop (m # ms) len st =
     (if len = 0 then st
      else if ck_data m = [] then ck_loop ms len st
      else (case ck_mbuf_step m len st of (st', len') \<Rightarrow> ck_loop ms len' st'))"

definition in_cksum :: "ck_mbuf list \<Rightarrow> nat \<Rightarrow> u32" where
  "in_cksum m len =
     (let st = ck_loop m len \<lparr>ck_sum = 0, ck_pend = None\<rparr>;
          s = (case ck_pend st of None \<Rightarrow> ck_sum st | Some c \<Rightarrow> ck_sum st + be16 c 0)
      in NOT (REDUCE s) AND 0xFFFF)"

section \<open>The reference sum\<close>

text \<open>RFC 1071: the sum of the big-endian 16-bit words, the last one padded with a zero byte.\<close>

fun wsum :: "u8 list \<Rightarrow> nat" where
  "wsum [] = 0"
| "wsum [a] = 256 * unat a"
| "wsum (a # b # r) = 256 * unat a + unat b + wsum r"

text \<open>One's-complement representative of a sum: end-around carries folded in.\<close>

definition ones_fold :: "nat \<Rightarrow> nat" where
  "ones_fold n = (if n = 0 then 0 else Suc ((n - 1) mod 65535))"

text \<open>Two sums with the same one's-complement value.\<close>

definition ceq :: "nat \<Rightarrow> nat \<Rightarrow> bool" where
  "ceq a b \<longleftrightarrow> a mod 65535 = b mod 65535 \<and> (a = 0 \<longleftrightarrow> b = 0)"

section \<open>One's-complement sums\<close>

lemma ceq_refl [simp]: "ceq a a"
  by (simp add: ceq_def)

lemma ceq_sym: "ceq a b \<Longrightarrow> ceq b a"
  by (simp add: ceq_def)

lemma ceq_trans: "ceq a b \<Longrightarrow> ceq b c \<Longrightarrow> ceq a c"
  by (simp add: ceq_def)

lemma ceq_add: "ceq a b \<Longrightarrow> ceq c d \<Longrightarrow> ceq (a + c) (b + d)"
  unfolding ceq_def by (metis add_is_0 mod_add_cong)

lemma ceq_mult: "ceq a b \<Longrightarrow> ceq (256 * a) (256 * b)"
  unfolding ceq_def by (metis mod_mult_cong mult_is_0)

lemma ceq_swap: "ceq (256 * (256 * n)) n"
proof -
  have e: "256 * (256 * n) = 65535 * n + n" by simp
  have "(65535 * n + n) mod 65535 = n mod 65535" by (rule mod_mult_self4)
  then show ?thesis unfolding ceq_def e by simp
qed

lemma ceq_fold: "r \<le> 65535 \<Longrightarrow> ceq r n \<Longrightarrow> r = ones_fold n"
proof (cases "n = 0")
  case True
  then show "r \<le> 65535 \<Longrightarrow> ceq r n \<Longrightarrow> r = ones_fold n" by (simp add: ceq_def ones_fold_def)
next
  case False
  assume r: "r \<le> 65535" and c: "ceq r n"
  then have "r \<noteq> 0" using False by (simp add: ceq_def)
  then obtain r' where r': "r = Suc r'" "r' < 65535" using r by (cases r) auto
  obtain n' where n': "n = Suc n'" using False by (cases n) auto
  have "Suc r' mod 65535 = Suc n' mod 65535" using c r' n' by (simp add: ceq_def)
  then have "r' mod 65535 = n' mod 65535" by (simp add: mod_Suc split: if_splits)
  then show ?thesis using r' n' by (simp add: ones_fold_def)
qed

lemma unat_be16: "unat (be16 a b) = 256 * unat a + unat b"
proof -
  define n where "n = 256 * unat a + unat b"
  have lt: "n < 2 ^ 32" using unat_u8_bound[of a] unat_u8_bound[of b] by (simp add: n_def)
  have "be16 a b = push_bit 8 (ucast a) + ucast b"
    unfolding be16_def
    by (rule disjunctive_add_eq_or[symmetric]) (auto simp: bit_eq_iff bit_simps dest: bit_imp_le_length)
  also have "\<dots> = of_nat n"
    by (simp add: n_def push_bit_eq_mult mult.commute)
  also have "unat (of_nat n :: u32) = n"
    using lt by (simp add: unat_of_nat)
  finally show ?thesis by (simp add: n_def)
qed

lemma REDUCE_spec: "unat (REDUCE s) \<le> 65535 \<and> ceq (unat (REDUCE s)) (unat s)"
proof -
  define h where "h = unat s div 65536"
  define l where "l = unat s mod 65536"
  have uh: "unat (drop_bit 16 s) = h" by (simp add: h_def drop_bit_eq_div unat_div)
  have "s AND 0xFFFF = take_bit 16 s" by (simp add: take_bit_eq_mask mask_eq_exp_minus_1)
  then have ul: "unat (s AND 0xFFFF) = l" by (simp add: l_def take_bit_eq_mod unat_mod)
  have hb: "h \<le> 65535" using unat_u32_bound[of s] by (simp add: h_def)
  have lb: "l \<le> 65535" by (simp add: l_def)
  have us: "unat s = 65535 * h + (h + l)" by (simp add: h_def l_def)
  define x where "x = drop_bit 16 s + (s AND 0xFFFF)"
  have ux: "unat x = h + l"
    unfolding x_def using uh ul hb lb by (subst unat_add_lem[THEN iffD1]) simp_all
  show ?thesis
  proof (cases "h + l > 65535")
    case True
    then have "unat (REDUCE s) = h + l - 65535"
      using ux by (simp add: REDUCE_def ADDCARRY_def x_def[symmetric] word_less_nat_alt unat_sub word_le_nat_alt)
    moreover have "unat s = 65535 * (h + 1) + (h + l - 65535)" using us True by simp
    moreover have "(65535 * (h + 1) + (h + l - 65535)) mod 65535 = (h + l - 65535) mod 65535"
      by (rule mod_mult_self4)
    ultimately show ?thesis using hb lb True by (simp add: ceq_def)
  next
    case False
    then have "unat (REDUCE s) = h + l"
      using ux by (simp add: REDUCE_def ADDCARRY_def x_def[symmetric] word_less_nat_alt)
    moreover have "(65535 * h + (h + l)) mod 65535 = (h + l) mod 65535" by (rule mod_mult_self4)
    ultimately show ?thesis unfolding ceq_def us using False by simp
  qed
qed

lemma unat_shift8: "unat s \<le> 65535 \<Longrightarrow> unat (push_bit 8 s :: u32) = 256 * unat s"
  by (simp add: push_bit_eq_mult) (subst unat_mult_lem[THEN iffD1], simp_all)

lemma wsum_append_even: "even (length xs) \<Longrightarrow> wsum (xs @ ys) = wsum xs + wsum ys"
  by (induction xs rule: wsum.induct) auto

lemma wsum_snoc_odd: "odd (length xs) \<Longrightarrow> wsum (xs @ [b]) = wsum xs + unat b"
  by (induction xs rule: wsum.induct) auto

lemma wsum_even_le: "even (length xs) \<Longrightarrow> wsum xs \<le> 32768 * length xs"
proof (induction xs rule: wsum.induct)
  case (3 a b r)
  then show ?case using unat_u8_bound[of a] unat_u8_bound[of b] by simp
qed simp_all

text \<open>A sequence read one byte late: swapping the bytes of every word is multiplying by 256.\<close>

lemma wsum_Cons: "ceq (wsum (a # w)) (256 * unat a + 256 * wsum w)"
proof (induction w arbitrary: a rule: wsum.induct)
  case 1
  then show ?case by simp
next
  case (2 b)
  have "ceq (256 * unat a + 256 * (256 * unat b)) (256 * unat a + unat b)"
    by (intro ceq_add ceq_swap ceq_refl)
  then show ?case by (simp add: ceq_def)
next
  case (3 b c r)
  have "ceq (256 * unat a + unat b + wsum (c # r))
      (256 * unat a + 256 * (256 * unat b) + (256 * unat c + 256 * wsum r))"
    by (rule ceq_add[OF ceq_add[OF ceq_refl ceq_sym[OF ceq_swap]] 3])
  then show ?case by (simp add: algebra_simps)
qed

lemma add_words_spec:
  "2 * n \<le> length w \<Longrightarrow> unat s + wsum (take (2 * n) w) < 2 ^ 32 \<Longrightarrow>
   unat (add_words n s w) = unat s + wsum (take (2 * n) w)"
proof (induction n arbitrary: s w)
  case (Suc n)
  obtain a b r where w: "w = a # b # r" using Suc.prems(1) by (metis Suc_le_length_iff mult_Suc_right add_2_eq_Suc)
  have "unat s + (256 * unat a + unat b) < 2 ^ 32" using Suc.prems(2) w by simp
  then have "unat (s + be16 a b) = unat s + (256 * unat a + unat b)"
    using unat_be16[of a b] by (subst unat_add_lem[THEN iffD1]) simp_all
  then show ?case using Suc.IH[of r "s + be16 a b"] Suc.prems w by simp
qed simp

lemma sum_loop_spec:
  assumes "unat s + 32768 * length w < 2 ^ 32"
  obtains pre where "w = pre @ snd (sum_loop n s w)" "even (length pre)"
    "length (snd (sum_loop n s w)) < 2 * Suc n" "unat (fst (sum_loop n s w)) = unat s + wsum pre"
  using assms
proof (induction n s w arbitrary: thesis rule: sum_loop.induct)
  case (1 n s w)
  show ?case
  proof (cases "length w \<ge> 2 * Suc n")
    case False
    then show ?thesis using 1(2)[of "[]"] by (simp add: sum_loop.simps[of n s w])
  next
    case True
    let ?p = "take (2 * Suc n) w" and ?r = "drop (2 * Suc n) w"
    have ev: "even (length ?p)" using True by simp
    have le: "wsum ?p \<le> 32768 * length ?p" using wsum_even_le[OF ev] .
    have u: "unat (add_words (Suc n) s w) = unat s + wsum ?p"
      using True le 1(3) by (intro add_words_spec) simp_all
    have "unat (add_words (Suc n) s w) + 32768 * length ?r < 2 ^ 32"
      using u le 1(3) True by simp
    then obtain pre where p: "?r = pre @ snd (sum_loop n (add_words (Suc n) s w) ?r)" "even (length pre)"
      "length (snd (sum_loop n (add_words (Suc n) s w) ?r)) < 2 * Suc n"
      "unat (fst (sum_loop n (add_words (Suc n) s w) ?r)) = unat (add_words (Suc n) s w) + wsum pre"
      using 1(1)[OF True] by blast
    have unf: "sum_loop n s w = sum_loop n (add_words (Suc n) s w) ?r"
      using True by (subst sum_loop.simps) simp
    show ?thesis
    proof (rule 1(2)[of "?p @ pre"])
      show "w = (?p @ pre) @ snd (sum_loop n s w)" unfolding unf using p(1) by (metis append.assoc append_take_drop_id)
      show "even (length (?p @ pre))" using ev p(2) by simp
      show "length (snd (sum_loop n s w)) < 2 * Suc n" unfolding unf by (rule p(3))
      show "unat (fst (sum_loop n s w)) = unat s + wsum (?p @ pre)"
        unfolding unf p(4) u using wsum_append_even[OF ev] by simp
    qed
  qed
qed


lemma sum_loop_pair:
  assumes "sum_loop n s w = (s', w')" "unat s + 32768 * length w < 2 ^ 32"
  obtains pre where "w = pre @ w'" "even (length pre)" "length w' < 2 + 2 * n" "unat s' = unat s + wsum pre"
  using sum_loop_spec[OF assms(2), of n] unfolding assms(1) fst_conv snd_conv mult_Suc_right by blast

section \<open>The loop body\<close>

definition stval :: "ck_state \<Rightarrow> nat" where
  "stval st = unat (ck_sum st) + (case ck_pend st of None \<Rightarrow> 0 | Some c \<Rightarrow> 256 * unat c)"

lemma be16_add:
  assumes "unat s + 65535 < 2 ^ 32"
  shows "unat (s + be16 a b) = unat s + (256 * unat a + unat b)"
proof -
  have "256 * unat a + unat b \<le> 65535" using unat_u8_bound[of a] unat_u8_bound[of b] by simp
  then show ?thesis using assms unat_be16[of a b] by (subst unat_add_lem[THEN iffD1]) simp_all
qed

text \<open>The two unrolled loops together.\<close>

lemma sum_loops_spec:
  assumes "unat s + 32768 * length w < 2 ^ 32" "sum_loop 15 s w = (s2, w2)" "sum_loop 3 s2 w2 = (s3, w3)"
  obtains pre where "w = pre @ w3" "even (length pre)" "length w3 < 8" "unat s3 = unat s + wsum pre"
proof -
  obtain p1 where p1: "w = p1 @ w2" "even (length p1)" "unat s2 = unat s + wsum p1"
    using sum_loop_pair[OF assms(2,1)] by blast
  have "unat s2 + 32768 * length w2 < 2 ^ 32"
    using assms(1) p1 wsum_even_le[OF p1(2)] by simp
  then obtain p2 where p2: "w2 = p2 @ w3" "even (length p2)" "length w3 < 8" "unat s3 = unat s2 + wsum p2"
    by (rule sum_loop_pair[OF assms(3)]) simp_all
  show thesis
    by (rule that[of "p1 @ p2"]) (use p1 p2 wsum_append_even[OF p1(2)] in auto)
qed

lemma sum_tail_spec:
  assumes "unat s \<le> 65535" "length w < 8" "sum_loop 0 s w = (s', w')"
  obtains pre where "w = pre @ w'" "even (length pre)" "length w' < 2" "unat s' = unat s + wsum pre"
    "unat s' \<le> 65535 + 32768 * length pre"
proof -
  have "unat s + 32768 * length w < 2 ^ 32" using assms by simp
  then obtain pre where "w = pre @ w'" "even (length pre)" "length w' < 2" "unat s' = unat s + wsum pre"
    by (rule sum_loop_pair[OF assms(3)]) simp_all
  moreover have "unat s' \<le> 65535 + 32768 * length pre"
    using calculation assms(1) wsum_even_le[of pre] by simp
  ultimately show thesis by (rule that)
qed

lemma ck_body_swapped:
  assumes "unat s + 32768 * length w < 2 ^ 32" "length w \<le> 65535" "w = c0 # w1"
  shows "ceq (stval (ck_body True s w)) (unat s + wsum w) \<and>
         (ck_pend (ck_body True s w) = None \<longleftrightarrow> even (length w)) \<and>
         unat (ck_sum (ck_body True s w)) \<le> 16842495"
proof -
  define s1 where "s1 = push_bit 8 (REDUCE s)"
  have r: "unat (REDUCE s) \<le> 65535" "ceq (unat (REDUCE s)) (unat s)" using REDUCE_spec by auto
  have u1: "unat s1 = 256 * unat (REDUCE s)" unfolding s1_def using unat_shift8[OF r(1)] .
  obtain s2 w2 where l1: "sum_loop 15 s1 w1 = (s2, w2)" by force
  obtain s3 w3 where l2: "sum_loop 3 s2 w2 = (s3, w3)" by force
  obtain s4 w4 where l3: "sum_loop 0 (REDUCE s3) w3 = (s4, w4)" by force
  have "unat s1 + 32768 * length w1 < 2 ^ 32" using u1 r(1) assms(2,3) by simp
  then obtain pre where pre: "w1 = pre @ w3" "even (length pre)" "length w3 < 8" "unat s3 = unat s1 + wsum pre"
    using sum_loops_spec[OF _ l1 l2] by blast
  have r3: "unat (REDUCE s3) \<le> 65535" "ceq (unat (REDUCE s3)) (unat s3)" using REDUCE_spec by auto
  obtain p4 where p4: "w3 = p4 @ w4" "even (length p4)" "length w4 < 2" "unat s4 = unat (REDUCE s3) + wsum p4"
    using sum_tail_spec[OF r3(1) pre(3) l3] by blast
  define q where "q = pre @ p4"
  have w1: "w1 = q @ w4" "even (length q)" using pre p4 by (simp_all add: q_def)
  have r4: "unat (REDUCE s4) \<le> 65535" "ceq (unat (REDUCE s4)) (unat s4)" using REDUCE_spec by auto
  define s5 where "s5 = push_bit 8 (REDUCE s4)"
  have u5: "unat s5 = 256 * unat (REDUCE s4)" unfolding s5_def using unat_shift8[OF r4(1)] .
  have "ceq (unat s4) (unat s3 + wsum p4)" unfolding p4(4) by (intro ceq_add r3(2) ceq_refl)
  then have c4: "ceq (unat s4) (256 * unat (REDUCE s) + wsum q)"
    unfolding pre(4) u1 q_def wsum_append_even[OF pre(2)] by (simp add: add.assoc)
  have "ceq (unat s5) (256 * (256 * unat (REDUCE s) + wsum q))"
    unfolding u5 by (intro ceq_mult) (rule ceq_trans[OF r4(2) c4])
  moreover have "ceq (256 * (256 * unat (REDUCE s) + wsum q)) (unat s + 256 * wsum q)"
    unfolding distrib_left by (intro ceq_add ceq_refl) (rule ceq_trans[OF ceq_swap r(2)])
  ultimately have c5: "ceq (unat s5) (unat s + 256 * wsum q)" by (rule ceq_trans)
  have body: "ck_body True s w = (case w4 of
      [] \<Rightarrow> \<lparr>ck_sum = s5, ck_pend = Some c0\<rparr> | b # _ \<Rightarrow> \<lparr>ck_sum = s5 + be16 c0 b, ck_pend = None\<rparr>)"
    using l1 l2 l3 assms(3) by (simp add: ck_body_def s1_def s5_def Let_def split: list.split)
  have cw: "ceq (unat s + 256 * wsum q + 256 * unat c0) (unat s + wsum (c0 # q))"
    using ceq_add[OF ceq_refl[of "unat s"] ceq_sym[OF wsum_Cons[of c0 q]]] by (simp add: algebra_simps)
  have c6: "ceq (unat s5 + 256 * unat c0) (unat s + wsum (c0 # q))"
    by (rule ceq_trans[OF ceq_add[OF c5 ceq_refl] cw])
  show ?thesis
  proof (cases w4)
    case Nil
    then show ?thesis using c6 w1 assms(3) u5 r4(1) unfolding body by (simp add: stval_def)
  next
    case (Cons b r)
    then have w4: "w4 = [b]" using p4(3) by (cases r) auto
    have u: "unat (s5 + be16 c0 b) = unat s5 + (256 * unat c0 + unat b)"
      using u5 r4(1) by (intro be16_add) simp
    have "wsum (c0 # w1) = wsum (c0 # q) + unat b"
      using wsum_snoc_odd[of "c0 # q" b] w1 w4 by simp
    then have "ceq (unat s5 + (256 * unat c0 + unat b)) (unat s + wsum w)"
      using ceq_add[OF c6 ceq_refl[of "unat b"]] assms(3) by (simp add: add.assoc)
    moreover have "unat s5 + (256 * unat c0 + unat b) \<le> 16842495"
      using u5 r4(1) unat_u8_bound[of c0] unat_u8_bound[of b] by simp
    moreover have "even (length w)" using w1 w4 assms(3) by simp
    ultimately show ?thesis using u unfolding body w4 by (simp add: stval_def)
  qed
qed


lemma ck_body_plain:
  assumes "unat s + 32768 * length w < 2 ^ 32" "\<not> (odd_w \<and> w \<noteq> [])"
  shows "ceq (stval (ck_body odd_w s w)) (unat s + wsum w) \<and>
         (ck_pend (ck_body odd_w s w) = None \<longleftrightarrow> even (length w)) \<and>
         (unat (ck_sum (ck_body odd_w s w)) \<le> 16842495 \<or>
          unat (ck_sum (ck_body odd_w s w)) \<le> unat s + 32768 * length w \<and> even (length w))"
proof -
  obtain s2 w2 where l1: "sum_loop 15 s w = (s2, w2)" by force
  obtain s3 w3 where l2: "sum_loop 3 s2 w2 = (s3, w3)" by force
  obtain s4 w4 where l3: "sum_loop 0 (REDUCE s3) w3 = (s4, w4)" by force
  obtain pre where pre: "w = pre @ w3" "even (length pre)" "length w3 < 8" "unat s3 = unat s + wsum pre"
    using sum_loops_spec[OF assms(1) l1 l2] by blast
  have r3: "unat (REDUCE s3) \<le> 65535" "ceq (unat (REDUCE s3)) (unat s3)" using REDUCE_spec by auto
  obtain p4 where p4: "w3 = p4 @ w4" "even (length p4)" "length w4 < 2"
      "unat s4 = unat (REDUCE s3) + wsum p4" "unat s4 \<le> 65535 + 32768 * length p4"
    using sum_tail_spec[OF r3(1) pre(3) l3] by blast
  have body: "ck_body odd_w s w = (if w3 = [] then \<lparr>ck_sum = s3, ck_pend = None\<rparr>
      else \<lparr>ck_sum = s4, ck_pend = (case w4 of [] \<Rightarrow> None | b # _ \<Rightarrow> Some b)\<rparr>)"
  proof -
    have sw: "(odd_w \<and> w \<noteq> []) = False" using assms(2) by blast
    show ?thesis unfolding ck_body_def Let_def sw using l1 l2 l3 by simp
  qed
  show ?thesis
  proof (cases "w3 = []")
    case True
    then have "wsum w \<le> 32768 * length w" "even (length w)" using pre wsum_even_le[of w] by simp_all
    then show ?thesis unfolding body using True pre by (simp add: stval_def)
  next
    case False
    define q where "q = pre @ p4"
    have w: "w = q @ w4" "even (length q)" using pre p4 by (simp_all add: q_def)
    have "ceq (unat s4) (unat s3 + wsum p4)" unfolding p4(4) by (intro ceq_add r3(2) ceq_refl)
    then have c4: "ceq (unat s4) (unat s + wsum q)"
      unfolding pre(4) q_def wsum_append_even[OF pre(2)] by (simp add: add.assoc)
    have b4: "unat s4 \<le> 16842495" using p4 pre(3) by simp
    show ?thesis
    proof (cases w4)
      case Nil
      then show ?thesis unfolding body using False c4 b4 w by (simp add: stval_def)
    next
      case (Cons b r)
      then have w4: "w4 = [b]" using p4(3) by (cases r) auto
      have "ceq (unat s4 + 256 * unat b) (unat s + wsum w)"
        using ceq_add[OF c4 ceq_refl[of "256 * unat b"]] wsum_append_even[OF w(2), of w4] w(1) w4
        by (simp add: add.assoc)
      then show ?thesis unfolding body using False b4 w w4 by (simp add: stval_def)
    qed
  qed
qed

text \<open>What the state stands for after the bytes \<open>p\<close>.\<close>

definition ck_inv :: "u8 list \<Rightarrow> ck_state \<Rightarrow> bool" where
  "ck_inv p st \<longleftrightarrow> ceq (stval st) (wsum p) \<and> (ck_pend st = None \<longleftrightarrow> even (length p)) \<and>
     unat (ck_sum st) \<le> 16842495 + 32768 * (length p - (if ck_pend st = None then 0 else 1))"

lemma ck_body_inv:
  assumes "even (length p)" "ceq (unat s) (wsum p)" "unat s \<le> 16842495 + 32768 * length p"
    and "length (p @ w) \<le> 65535"
  shows "ck_inv (p @ w) (ck_body odd_w s w)"
proof -
  have b: "unat s + 32768 * length w < 2 ^ 32" using assms(3,4) by simp
  have body: "ceq (stval (ck_body odd_w s w)) (unat s + wsum w)"
    "ck_pend (ck_body odd_w s w) = None \<longleftrightarrow> even (length w)"
    "unat (ck_sum (ck_body odd_w s w)) \<le> 16842495 \<or>
     unat (ck_sum (ck_body odd_w s w)) \<le> unat s + 32768 * length w \<and> even (length w)"
  proof -
    show "ceq (stval (ck_body odd_w s w)) (unat s + wsum w)"
      "ck_pend (ck_body odd_w s w) = None \<longleftrightarrow> even (length w)"
      "unat (ck_sum (ck_body odd_w s w)) \<le> 16842495 \<or>
       unat (ck_sum (ck_body odd_w s w)) \<le> unat s + 32768 * length w \<and> even (length w)"
      using ck_body_plain[OF b, of odd_w] ck_body_swapped[OF b, of "hd w" "tl w"] assms(4)
      by (cases "odd_w \<and> w \<noteq> []"; simp)+
  qed
  have "ceq (stval (ck_body odd_w s w)) (wsum (p @ w))"
    using ceq_trans[OF body(1) ceq_add[OF assms(2) ceq_refl]] wsum_append_even[OF assms(1)] by simp
  moreover have "unat (ck_sum (ck_body odd_w s w)) \<le> 16842495 + 32768 * (length (p @ w) -
      (if ck_pend (ck_body odd_w s w) = None then 0 else 1))"
    using body(2,3) assms(3) by auto
  ultimately show ?thesis using body(2) assms(1) by (simp add: ck_inv_def)
qed

lemma ck_mbuf_step_inv:
  assumes inv: "ck_inv p st" and len: "0 < len" "length p + len \<le> 65535" and ne: "ck_data m \<noteq> []"
    and step: "ck_mbuf_step m len st = (st', len')"
  shows "ck_inv (p @ take len (ck_data m)) st' \<and> len' = len - length (ck_data m)"
proof (cases "ck_pend st")
  case None
  define w where "w = take len (ck_data m)"
  have "take (if len < length (ck_data m) then len else length (ck_data m)) (ck_data m) = w"
    by (simp add: w_def)
  then have st': "st' = ck_body (ck_odd m) (ck_sum st) w" "len' = len - length (ck_data m)"
    using step None by (auto simp: ck_mbuf_step_def Let_def split: if_splits)
  have "ck_inv (p @ w) st'"
    unfolding st'(1) using inv None len by (intro ck_body_inv) (simp_all add: ck_inv_def stval_def w_def)
  then show ?thesis using st'(2) by (simp add: w_def)
next
  case (Some c)
  obtain d ds where d: "ck_data m = d # ds" using ne by (cases "ck_data m") auto
  define w where "w = take (len - 1) ds"
  have tk: "take len (ck_data m) = d # w" using len(1) d by (cases len) (simp_all add: w_def)
  have "take (if len - 1 < length ds then len - 1 else length ds) ds = w" by (simp add: w_def)
  then have st': "st' = ck_body (\<not> ck_odd m) (ck_sum st + be16 c d) w" "len' = len - length (ck_data m)"
    using step Some d by (auto simp: ck_mbuf_step_def Let_def split: if_splits)
  have odd_p: "odd (length p)" using inv Some by (simp add: ck_inv_def)
  have sb: "unat (ck_sum st) \<le> 16842495 + 32768 * (length p - 1)" using inv Some by (simp add: ck_inv_def)
  have u: "unat (ck_sum st + be16 c d) = unat (ck_sum st) + (256 * unat c + unat d)"
    using sb len by (intro be16_add) simp
  have "ceq (unat (ck_sum st) + 256 * unat c + unat d) (wsum p + unat d)"
    using inv Some by (intro ceq_add ceq_refl) (simp add: ck_inv_def stval_def)
  then have c1: "ceq (unat (ck_sum st + be16 c d)) (wsum (p @ [d]))"
    unfolding u wsum_snoc_odd[OF odd_p] by (simp add: add.assoc)
  obtain n where lp: "length p = Suc n" using odd_p by (cases p) auto
  have b1: "unat (ck_sum st + be16 c d) \<le> 16842495 + 32768 * length (p @ [d])"
    unfolding u using sb lp unat_u8_bound[of c] unat_u8_bound[of d] by simp
  have "ck_inv ((p @ [d]) @ w) st'"
    unfolding st'(1) using odd_p c1 b1 len by (intro ck_body_inv) (simp_all add: w_def)
  then show ?thesis using tk st'(2) by simp
qed

lemma ck_loop_inv:
  "ck_inv p st \<Longrightarrow> length p + len \<le> 65535 \<Longrightarrow>
   ck_inv (p @ take len (concat (map ck_data ms))) (ck_loop ms len st)"
proof (induction ms arbitrary: p len st)
  case (Cons m ms)
  show ?case
  proof (cases "len = 0 \<or> ck_data m = []")
    case True
    then show ?thesis using Cons by auto
  next
    case False
    obtain st' len' where s: "ck_mbuf_step m len st = (st', len')" by force
    have st: "ck_inv (p @ take len (ck_data m)) st'" "len' = len - length (ck_data m)"
      using ck_mbuf_step_inv[OF Cons.prems(1) _ Cons.prems(2) _ s] False by auto
    have "ck_inv ((p @ take len (ck_data m)) @ take len' (concat (map ck_data ms))) (ck_loop ms len' st')"
      using st Cons.prems(2) by (intro Cons.IH) auto
    then show ?thesis using s False st(2) by simp
  qed
qed simp

lemma complement16:
  fixes r :: u32
  assumes "unat r \<le> 65535"
  shows "unat (NOT r AND 0xFFFF) = 65535 - unat r"
proof -
  have "unat (take_bit 16 r) = unat r"
    using assms by (simp add: unsigned_take_bit_eq take_bit_nat_eq_self)
  then have t: "take_bit 16 r = r" by (simp add: word_unat_eq_iff)
  have "r + (NOT r AND mask 16) = r OR (NOT r AND mask 16)"
    by (intro disjunctive_add_eq_or) (auto simp: bit_eq_iff bit_simps)
  also have "\<dots> = mask 16"
    by (subst (1 2) t[symmetric]) (auto simp: bit_eq_iff bit_simps)
  finally have "NOT r AND 0xFFFF = 0xFFFF - r"
    by (simp add: mask_eq_exp_minus_1 algebra_simps eq_diff_eq)
  then show ?thesis using assms by (simp add: unat_sub word_le_nat_alt)
qed

lemma in_cksum_conv:
  assumes "len \<le> 65535"
  shows "unat (in_cksum m len) = 65535 - ones_fold (wsum (take len (concat (map ck_data m))))"
proof -
  let ?p = "take len (concat (map ck_data m))"
  define st where "st = ck_loop m len \<lparr>ck_sum = 0, ck_pend = None\<rparr>"
  define s where "s = (case ck_pend st of None \<Rightarrow> ck_sum st | Some c \<Rightarrow> ck_sum st + be16 c 0)"
  have "ck_inv [] \<lparr>ck_sum = 0, ck_pend = None\<rparr>" by (simp add: ck_inv_def stval_def)
  then have inv: "ck_inv ?p st"
    unfolding st_def using ck_loop_inv[of "[]" _ len m] assms by simp
  have lp: "length ?p \<le> 65535" using assms by simp
  have "unat s = stval st"
  proof (cases "ck_pend st")
    case None
    then show ?thesis by (simp add: s_def stval_def)
  next
    case (Some c)
    then have "unat (ck_sum st) \<le> 16842495 + 32768 * (length ?p - 1)" using inv by (simp add: ck_inv_def)
    also have "\<dots> \<le> 16842495 + 32768 * 65535" using lp by (intro add_left_mono mult_left_mono) simp_all
    finally have "unat (ck_sum st) + 65535 < 2 ^ 32" by simp
    then show ?thesis using Some by (simp add: s_def stval_def be16_add)
  qed
  then have "ceq (unat (REDUCE s)) (wsum ?p)"
    using ceq_trans[of "unat (REDUCE s)" "unat s" "wsum ?p"] REDUCE_spec[of s] inv by (simp add: ck_inv_def)
  then have "unat (REDUCE s) = ones_fold (wsum ?p)" using ceq_fold REDUCE_spec[of s] by blast
  then show ?thesis
    using complement16[of "REDUCE s"] REDUCE_spec[of s]
    by (simp add: in_cksum_def st_def[symmetric] s_def[symmetric] Let_def)
qed


text \<open>C20: the checksum routine computes RFC 1071. For any mbuf chain, with data at odd or
  even addresses, empty mbufs and words spanning mbufs, and any \<open>len\<close> up to 65535, the result
  is the complement of the one's-complement sum of the big-endian 16-bit words of the first
  \<open>len\<close> bytes; the unrolled 32-bit accumulation never loses a carry.\<close>

theorem in_cksum_rfc1071:
  assumes "len \<le> 65535"
  shows "unat (in_cksum m len) = 65535 - ones_fold (wsum (take len (concat (map ck_data m))))"
  by (rule in_cksum_conv[OF assms])

theorem in_cksum_rfc1071_witness:
  "unat (in_cksum [\<lparr>ck_odd = True, ck_data = [0x12, 0x34, 0x56]\<rparr>, \<lparr>ck_odd = False, ck_data = [0x78]\<rparr>] 4) = 38739"
proof -
  have "unat (in_cksum [\<lparr>ck_odd = True, ck_data = [0x12, 0x34, 0x56]\<rparr>, \<lparr>ck_odd = False, ck_data = [0x78]\<rparr>] 4)
      = 65535 - ones_fold (wsum [0x12, 0x34, 0x56, 0x78])"
    by (subst in_cksum_rfc1071) simp_all
  then show ?thesis by (simp add: ones_fold_def)
qed


lemma ones_fold_le: "ones_fold n \<le> 65535"
proof -
  have "Suc ((n - 1) mod 65535) \<le> 65535" by (rule Suc_leI) simp
  then show ?thesis by (metis ones_fold_def le0)
qed

lemma ones_fold_ceq: "ceq (ones_fold n) n"
proof (cases n)
  case (Suc k)
  have "Suc (k mod 65535) mod 65535 = Suc k mod 65535" by (rule mod_Suc_eq)
  then show ?thesis by (simp add: ceq_def ones_fold_def Suc)
qed (simp add: ceq_def ones_fold_def)

lemma ones_fold_complement: "ones_fold (n + (65535 - ones_fold n)) = 65535"
proof -
  have "ceq (n + (65535 - ones_fold n)) (ones_fold n + (65535 - ones_fold n))"
    by (intro ceq_add ceq_refl ceq_sym[OF ones_fold_ceq])
  then have "ceq 65535 (n + (65535 - ones_fold n))"
    using ones_fold_le[of n] by (simp add: ceq_sym)
  then show ?thesis using ceq_fold[of 65535] by simp
qed

lemma wsum_field:
  assumes "even (length pre)"
  shows "wsum (pre @ a # b # post) = wsum (pre @ 0 # 0 # post) + (256 * unat a + unat b)"
  using wsum_append_even[OF assms] by simp

text \<open>
  A checksum computed over data with a zeroed 16-bit field at an even offset, stored
  in that field, makes the routine return 0 over the result, however either packet is split
  into mbufs: what the senders compute is what the receivers accept.\<close>

theorem in_cksum_verifies:
  assumes "even (length pre)" "length (pre @ 0 # 0 # post) \<le> 65535"
    and "concat (map ck_data m) = pre @ 0 # 0 # post @ rest"
    and "concat (map ck_data m') = pre @ a # b # post @ rest'"
    and "256 * unat a + unat b = unat (in_cksum m (length (pre @ 0 # 0 # post)))"
  shows "in_cksum m' (length (pre @ 0 # 0 # post)) = 0"
proof -
  let ?len = "length (pre @ 0 # 0 # post)"
  have t: "take ?len (concat (map ck_data m)) = pre @ 0 # 0 # post"
    "take ?len (concat (map ck_data m')) = pre @ a # b # post"
    using assms(3,4) by simp_all
  have "256 * unat a + unat b = 65535 - ones_fold (wsum (pre @ 0 # 0 # post))"
    unfolding assms(5) in_cksum_conv[OF assms(2)] t(1) ..
  then have "ones_fold (wsum (pre @ a # b # post)) = 65535"
    unfolding wsum_field[OF assms(1), of a b post] using ones_fold_complement by simp
  then have "unat (in_cksum m' ?len) = 0"
    unfolding in_cksum_conv[OF assms(2)] t(2) by simp
  then show ?thesis by (simp add: unat_eq_zero)
qed

theorem in_cksum_verifies_witness:
  "in_cksum [\<lparr>ck_odd = False, ck_data = [0x45, 0x00, 0xBA, 0xFF]\<rparr>] 4 = 0"
proof -
  have four: "4 = length ([0x45, 0x00 :: u8] @ 0 # 0 # [])" by simp
  have u: "unat (in_cksum [\<lparr>ck_odd = False, ck_data = [0x45, 0x00, 0, 0]\<rparr>] 4) = 47871"
    by (subst in_cksum_conv) (simp_all add: ones_fold_def)
  show ?thesis
    unfolding four
    using in_cksum_verifies[of "[0x45, 0x00]" "[]" "[\<lparr>ck_odd = False, ck_data = [0x45, 0x00, 0, 0]\<rparr>]" "[]"
        "[\<lparr>ck_odd = False, ck_data = [0x45, 0x00, 0xBA, 0xFF]\<rparr>]" "0xBA" "0xFF" "[]"] u
    unfolding four by simp
qed


end
