(* ===== verification/Udp.thy ===== *)
theory Udp
  imports In_Pcb Sockbuf In_Cksum
begin

text \<open>
  UDP (\<open>netinet/udp_usrreq.c\<close>): the reception of a datagram with its length and checksum tests, the
  search for its socket or sockets, the sending of one, and the requests of the socket layer. A packet
  is the chain of its mbufs, whose bytes begin with the IP header, and the \<open>m_pkthdr.len\<close> of the first.
  The socket of a block is known by the block. \<open>last_inpcb\<close> of the table is \<open>udp_last_inpcb\<close>.
\<close>

definition INP_RECVDSTADDR :: u32 where "INP_RECVDSTADDR = 0x04"
definition INP_CONTROLOPTS :: u32 where "INP_CONTROLOPTS = 0x07"
definition IP_RECVDSTADDR :: u32 where "IP_RECVDSTADDR = 7"
definition MT_CONTROL :: nat where "MT_CONTROL = 14"

record udpstat =
  udps_ipackets :: u32
  udps_hdrops :: u32
  udps_badsum :: u32
  udps_badlen :: u32
  udps_noport :: u32
  udps_noportbcast :: u32
  udps_fullsock :: u32
  udpps_pcbcachemiss :: u32
  udps_opackets :: u32

text \<open>The calls of the socket layer that do not touch the receive buffer, in their order.\<close>

datatype socall = Sorwakeup pcbptr | Sowwakeup pcbptr | So_error pcbptr int | Soisconnected pcbptr |
  Soisdisconnected pcbptr | Socantsendmore pcbptr | Notconnected pcbptr

record udpst =
  udb :: pcbst
  so_rcv :: "pcbptr \<Rightarrow> sbuf"
  inp_flags :: "pcbptr \<Rightarrow> u32"
  stats :: udpstat
  calls :: "socall list"

definition so_call :: "socall \<Rightarrow> udpst \<Rightarrow> udpst" where
  "so_call c st = st\<lparr>calls := calls st @ [c]\<rparr>"

definition tally :: "(udpstat \<Rightarrow> udpstat) \<Rightarrow> udpst \<Rightarrow> udpst" where
  "tally f st = st\<lparr>stats := f (stats st)\<rparr>"

text \<open>
  What the rest of the stack answers to \<open>udp_input\<close>: whether checksums are tested, \<open>max_protohdr\<close>,
  whether the mbufs for \<open>m_pullup\<close>, for the \<open>k\<close>th mbuf of the copy for a block, for the address and
  for the control data are there, and which mbufs begin at an odd address.
\<close>

record udpenv =
  ud_cksum :: bool
  ud_protohdr :: int
  ud_pull :: bool
  ud_copy :: "pcbptr \<Rightarrow> nat \<Rightarrow> bool"
  ud_name :: "pcbptr \<Rightarrow> bool"
  ud_opt :: bool
  ud_odd :: "nat \<Rightarrow> bool"

datatype upanic = Null_socket | Sb_panic sb_panic

section \<open>Headers in bytes\<close>

definition rd16 :: "u8 list \<Rightarrow> nat \<Rightarrow> u16" where
  "rd16 d i = ucast (be16 (d ! i) (d ! (i + 1)))"

definition rd32 :: "u8 list \<Rightarrow> nat \<Rightarrow> u32" where
  "rd32 d i = be32 (d ! i) (d ! (i + 1)) (d ! (i + 2)) (d ! (i + 3))"

definition b16 :: "u16 \<Rightarrow> u8 list" where
  "b16 w = [ucast (drop_bit 8 w), ucast w]"

definition b32 :: "u32 \<Rightarrow> u8 list" where
  "b32 w = [ucast (drop_bit 24 w), ucast (drop_bit 16 w), ucast (drop_bit 8 w), ucast w]"

definition wr :: "nat \<Rightarrow> u8 list \<Rightarrow> u8 list \<Rightarrow> u8 list" where
  "wr i bs d = take i d @ bs @ drop (i + length bs) d"

definition fst_upd :: "(u8 list \<Rightarrow> u8 list) \<Rightarrow> vmbuf list \<Rightarrow> vmbuf list" where
  "fst_upd f m = (case m of [] \<Rightarrow> [] | m0 # ms \<Rightarrow> m0\<lparr>vm_data := f (vm_data m0)\<rparr> # ms)"

definition hdr_of :: "vmbuf list \<Rightarrow> u8 list" where
  "hdr_of m = vm_data (hd m)"

definition uh_iplen :: "u8 list \<Rightarrow> int" where "uh_iplen d = sint (rd16 d 2)"
definition uh_src :: "u8 list \<Rightarrow> u32" where "uh_src d = rd32 d 12"
definition uh_dst :: "u8 list \<Rightarrow> u32" where "uh_dst d = rd32 d 16"
definition uh_sport :: "u8 list \<Rightarrow> u16" where "uh_sport d = rd16 d 20"
definition uh_dport :: "u8 list \<Rightarrow> u16" where "uh_dport d = rd16 d 22"
definition uh_ulen :: "u8 list \<Rightarrow> u16" where "uh_ulen d = rd16 d 24"
definition uh_sum :: "u8 list \<Rightarrow> u16" where "uh_sum d = rd16 d 26"

section \<open>Chains\<close>

text \<open>\<open>ip_stripoptions\<close>\<close>

definition vm_stripopts :: "nat \<Rightarrow> vmbuf list \<Rightarrow> vmbuf list" where
  "vm_stripopts iphlen m =
     (case m of [] \<Rightarrow> [] | m0 # ms \<Rightarrow>
        let d = vm_data m0 in
        m0\<lparr>vm_data := wr 0 [(d ! 0 AND 0xF0) OR 5] (take 20 d @ drop iphlen d),
           vm_room := vm_room m0 + int (iphlen - 20)\<rparr> # ms)"

text \<open>The loop of \<open>m_pullup\<close>; the sizes are not negative.\<close>

partial_function (option) pull_loop ::
  "int \<Rightarrow> int \<Rightarrow> vmbuf \<Rightarrow> vmbuf list \<Rightarrow> (int \<times> vmbuf \<times> vmbuf list) option" where
  "pull_loop prot len m ns =
     (if ns = [] then Some (len, m, [])
      else let n = hd ns; c = nat (min (min (max len prot) (vm_room m)) (int (vm_len n)));
               m1 = m\<lparr>vm_data := vm_data m @ take c (vm_data n), vm_room := vm_room m - int c\<rparr>;
               rest = (if vm_len n > c then n\<lparr>vm_data := drop c (vm_data n)\<rparr> # tl ns else tl ns)
          in if len - int c > 0 \<and> rest \<noteq> [] then pull_loop prot (len - int c) m1 rest
             else Some (len - int c, m1, rest))"

declare pull_loop.simps [code]

text \<open>\<open>m_pullup\<close> of a chain with a packet header; \<open>Some None\<close> is its failure.\<close>

definition vm_pullup :: "bool \<Rightarrow> int \<Rightarrow> int \<Rightarrow> vmbuf list \<Rightarrow> vmbuf list option option" where
  "vm_pullup mget prot len m =
     (case m of [] \<Rightarrow> Some None
      | n # ns \<Rightarrow>
          let fits = (vm_ext n = None \<and> len < int (vm_len n) + vm_room n \<and> ns \<noteq> []) in
          if fits \<and> int (vm_len n) \<ge> len then Some (Some m)
          else if \<not> fits \<and> (len > MHLEN \<or> \<not> mget) then Some None
          else map_option (\<lambda>(left, m1, rest). if left > 0 then None else Some (m1 # rest))
                 (if fits then pull_loop prot (len - int (vm_len n)) n ns
                  else pull_loop prot len \<lparr>vm_data = [], vm_ext = None, vm_room = MHLEN, vm_type = vm_type n\<rparr> m))"

text \<open>\<open>m_copy(m, 0, M_COPYALL)\<close>: clusters are shared.\<close>

fun vm_copy :: "(nat \<Rightarrow> bool) \<Rightarrow> nat \<Rightarrow> vmbuf list \<Rightarrow> vmbuf list option" where
  "vm_copy mget k [] = Some []"
| "vm_copy mget k (m # ms) =
     (if \<not> mget k then None
      else map_option ((#) (if vm_ext m \<noteq> None then m
             else m\<lparr>vm_room := (if k = 0 then MHLEN else MLEN) - int (vm_len m)\<rparr>)) (vm_copy mget (Suc k) ms))"

text \<open>
  What \<open>m_adj(m, -n)\<close> leaves in \<open>m_pkthdr.len\<close>: a trim that only concerns the last of several mbufs
  does not change it.
\<close>

definition adj_plen :: "nat \<Rightarrow> vmbuf list \<Rightarrow> int \<Rightarrow> int" where
  "adj_plen n m plen =
     (if vm_len (last m) \<ge> n then (if length m = 1 then plen - int n else plen)
      else max 0 (int (sum_list (map vm_len m)) - int n))"

text \<open>The chain as \<open>in_cksum\<close> sees it.\<close>

definition ck_chain :: "(nat \<Rightarrow> bool) \<Rightarrow> vmbuf list \<Rightarrow> ck_mbuf list" where
  "ck_chain od m = map2 (\<lambda>i b. \<lparr>ck_odd = od i, ck_data = vm_data b\<rparr>) [0..<length m] m"

text \<open>\<open>m_len -= n\<close>, \<open>m_data += n\<close>\<close>

definition vm_strip :: "nat \<Rightarrow> vmbuf list \<Rightarrow> vmbuf list" where
  "vm_strip n = fst_upd (drop n)"

section \<open>Reception\<close>

text \<open>\<open>udp_in\<close>: the sender as a \<open>sockaddr_in\<close>.\<close>

definition udp_in :: "u8 list \<Rightarrow> u8 list" where
  "udp_in d = [16, 2] @ b16 (uh_sport d) @ b32 (uh_src d) @ replicate 8 0"

text \<open>The pseudo header over the IP header, and the test of the checksum.\<close>

definition udp_overlay :: "u8 list \<Rightarrow> u8 list" where
  "udp_overlay d = replicate 9 0 @ [d ! 9] @ b16 (uh_ulen d) @ drop 12 d"

definition udp_verify :: "udpenv \<Rightarrow> nat \<Rightarrow> vmbuf list \<Rightarrow> vmbuf list option" where
  "udp_verify e len m =
     (if ud_cksum e \<and> uh_sum (hdr_of m) \<noteq> 0
      then let s = ucast (in_cksum (ck_chain (ud_odd e) (fst_upd udp_overlay m)) (len + 20)) :: u16
           in if s \<noteq> 0 then None else Some (fst_upd (\<lambda>d. wr 26 (b16 s) (udp_overlay d)) m)
      else Some m)"

text \<open>The end of the delivery: \<open>sbappendaddr\<close>, then the reader is woken or the datagram is dropped.\<close>

definition udp_append :: "udpenv \<Rightarrow> pcbptr \<Rightarrow> u8 list \<Rightarrow> int \<Rightarrow> vmbuf list \<Rightarrow> vmbuf list \<Rightarrow> udpst \<Rightarrow> upanic + udpst" where
  "udp_append e p asa plen m opts st =
     (case sbappendaddr (ud_name e p) asa (Some plen) m opts (so_rcv st p) of
        Inl x \<Rightarrow> Inl (Sb_panic x)
      | Inr (s, ok) \<Rightarrow>
          Inr (if ok then so_call (Sorwakeup p) (st\<lparr>so_rcv := (so_rcv st)(p := s)\<rparr>)
               else tally (\<lambda>u. u\<lparr>udps_fullsock := udps_fullsock u + 1\<rparr>) st))"

definition fan_match :: "u8 list \<Rightarrow> inpcb \<Rightarrow> bool" where
  "fan_match d i \<longleftrightarrow> inp_lport i = uh_dport d \<and> (inp_laddr i \<noteq> 0 \<longrightarrow> inp_laddr i = uh_dst d) \<and>
     (inp_faddr i \<noteq> 0 \<longrightarrow> inp_faddr i = uh_src d \<and> inp_fport i = uh_sport d)"

text \<open>
  The walk over the blocks for a broadcast or multicast: every match but the last gets a copy; the
  walk stops behind a match that does not share its port. \<open>m\<close> has been stripped of its headers.
\<close>

fun udp_fan :: "udpenv \<Rightarrow> u8 list \<Rightarrow> int \<Rightarrow> vmbuf list \<Rightarrow> pcbptr list \<Rightarrow> pcbptr option \<Rightarrow> udpst \<Rightarrow>
  upanic + udpst \<times> pcbptr option" where
  "udp_fan e d plen m [] lst st = Inr (st, lst)"
| "udp_fan e d plen m (p # ps) lst st =
     (if \<not> fan_match d (pcb (udb st) p) then udp_fan e d plen m ps lst st
      else case (case lst of None \<Rightarrow> Inr st
                 | Some q \<Rightarrow> (case vm_copy (ud_copy e q) 0 m of None \<Rightarrow> Inr st
                            | Some n \<Rightarrow> udp_append e q (udp_in d) plen n [] st)) of
          Inl x \<Rightarrow> Inl x
        | Inr st1 \<Rightarrow>
            if \<not> inp_socket (pcb (udb st1) p) then Inl Null_socket
            else if inp_soopts (pcb (udb st1) p) AND (SO_REUSEPORT OR SO_REUSEADDR) = 0 then Inr (st1, Some p)
            else udp_fan e d plen m ps (Some p) st1)"

definition udp_bcast :: "udpenv \<Rightarrow> int \<Rightarrow> vmbuf list \<Rightarrow> udpst \<Rightarrow> upanic + udpst" where
  "udp_bcast e plen m st =
     (let d = hdr_of m; m1 = vm_strip 28 m; plen1 = plen - 28 in
      case udp_fan e d plen1 m1 (pcbs (udb st)) None st of
        Inl x \<Rightarrow> Inl x
      | Inr (st1, None) \<Rightarrow> Inr (tally (\<lambda>u. u\<lparr>udps_noportbcast := udps_noportbcast u + 1\<rparr>) st1)
      | Inr (st1, Some q) \<Rightarrow> udp_append e q (udp_in d) plen1 m1 [] st1)"

text \<open>The block of a datagram, through the cache.\<close>

definition udp_findpcb :: "u8 list \<Rightarrow> udpst \<Rightarrow> udpst \<times> pcbptr option" where
  "udp_findpcb d st =
     (let t = udb st; i = pcb t (last_inpcb t);
          miss = tally (\<lambda>u. u\<lparr>udpps_pcbcachemiss := udpps_pcbcachemiss u + 1\<rparr>) in
      if inp_lport i \<noteq> uh_dport d \<or> inp_fport i \<noteq> uh_sport d \<or> inp_faddr i \<noteq> uh_src d \<or> inp_laddr i \<noteq> uh_dst d
      then (case in_pcblookup (uh_src d) (uh_sport d) (uh_dst d) (uh_dport d) True t of
              None \<Rightarrow> (miss st, None)
            | Some p \<Rightarrow> (miss (st\<lparr>udb := t\<lparr>last_inpcb := p\<rparr>\<rparr>), Some p))
      else (st, Some (last_inpcb t)))"

text \<open>\<open>udp_saveopt\<close> of the destination address.\<close>

definition udp_saveopt :: "bool \<Rightarrow> u8 list \<Rightarrow> u32 \<Rightarrow> vmbuf list" where
  "udp_saveopt mget p type =
     (if \<not> mget then []
      else let d = b32 (of_nat (length p + 12)) @ b32 0 @ b32 type @ p
        in [\<lparr>vm_data = d, vm_ext = None, vm_room = MLEN - int (length d), vm_type = MT_CONTROL\<rparr>])"

text \<open>
  A datagram for this host. \<open>save\<close> is the IP header before the checksum. With no block it goes
  back to the sender in an ICMP error, with the header restored; that packet is the second result.
\<close>

definition udp_unicast :: "udpenv \<Rightarrow> u8 list \<Rightarrow> int \<Rightarrow> vmbuf list \<Rightarrow> udpst \<Rightarrow> upanic + udpst \<times> vmbuf list option" where
  "udp_unicast e save plen m st =
     (let d = hdr_of m in
      case udp_findpcb d st of
        (st1, None) \<Rightarrow>
          Inr (tally (\<lambda>u. u\<lparr>udps_noport := udps_noport u + 1\<rparr>) st1,
            Some (fst_upd (\<lambda>x. wr 2 (b16 (rd16 save 2 + 20)) (wr 0 save x)) m))
      | (st1, Some p) \<Rightarrow>
          let opts = (if inp_flags st1 p AND INP_CONTROLOPTS \<noteq> 0 \<and> inp_flags st1 p AND INP_RECVDSTADDR \<noteq> 0
                      then udp_saveopt (ud_opt e) (b32 (uh_dst d)) IP_RECVDSTADDR else [])
          in if \<not> inp_socket (pcb (udb st1) p) then Inl Null_socket
             else map_sum id (\<lambda>s. (s, None)) (udp_append e p (udp_in d) (plen - 28) (vm_strip 28 m) opts st1))"

definition udp_checked ::
  "udpenv \<Rightarrow> bool \<Rightarrow> int \<Rightarrow> vmbuf list \<Rightarrow> udpst \<Rightarrow> upanic + udpst \<times> vmbuf list option" where
  "udp_checked e bcast plen m st =
     (let d = hdr_of m; len = unat (uh_ulen d) in
      if int len > uh_iplen d \<or> len < 8
      then Inr (tally (\<lambda>u. u\<lparr>udps_badlen := udps_badlen u + 1\<rparr>) st, None)
      else let n = nat (uh_iplen d - int len);
               m1 = (if n \<noteq> 0 then vm_adj (- int n) m else m);
               plen1 = (if n \<noteq> 0 then adj_plen n m plen else plen)
        in case udp_verify e len m1 of
             None \<Rightarrow> Inr (tally (\<lambda>u. u\<lparr>udps_badsum := udps_badsum u + 1\<rparr>) st, None)
           | Some m2 \<Rightarrow>
               if bcast then map_sum id (\<lambda>s. (s, None)) (udp_bcast e plen1 m2 st)
               else udp_unicast e (take 20 (hdr_of m1)) plen1 m2 st)"

text \<open>
  \<open>udp_input\<close>; \<open>bcast\<close> is \<open>M_BCAST\<close> or \<open>M_MCAST\<close> of the packet. \<open>None\<close> is a loop of \<open>m_pullup\<close> that
  does not end.
\<close>

definition udp_input ::
  "udpenv \<Rightarrow> bool \<Rightarrow> nat \<Rightarrow> int \<Rightarrow> vmbuf list \<Rightarrow> udpst \<Rightarrow> (upanic + udpst \<times> vmbuf list option) option" where
  "udp_input e bcast iphlen plen m st =
     (let st1 = tally (\<lambda>u. u\<lparr>udps_ipackets := udps_ipackets u + 1\<rparr>) st;
          m1 = (if iphlen > 20 then vm_stripopts iphlen m else m);
          plen1 = (if iphlen > 20 then plen - int (iphlen - 20) else plen)
      in map_option (\<lambda>r. case r of
             None \<Rightarrow> Inr (tally (\<lambda>u. u\<lparr>udps_hdrops := udps_hdrops u + 1\<rparr>) st1, None)
           | Some m2 \<Rightarrow> udp_checked e bcast plen1 m2 st1)
           (if length (hdr_of m1) < 28 then vm_pullup (ud_pull e) (ud_protohdr e) 28 m1 else Some (Some m1)))"

section \<open>Sending\<close>

text \<open>
  The answers to \<open>udp_output\<close>: whether checksums are made, whether there is room for the headers in
  front of the data, else whether \<open>m_prepend\<close> finds an mbuf, which mbufs begin at an odd address, the
  time to live and type of service of the block, and the result of \<open>ip_output\<close>.
\<close>

record udpoenv =
  uo_cksum :: bool
  uo_lead :: bool
  uo_mget :: bool
  uo_odd :: "nat \<Rightarrow> bool"
  uo_ttl :: u8
  uo_tos :: u8
  uo_err :: int

text \<open>\<open>M_PREPEND\<close> of \<open>n\<close> bytes, which are written afterwards; \<open>m_prepend\<close> aligns them to the end.\<close>

definition vm_prepend :: "bool \<Rightarrow> bool \<Rightarrow> nat \<Rightarrow> vmbuf list \<Rightarrow> vmbuf list option" where
  "vm_prepend lead mget n m =
     (if lead \<and> vm_ext (hd m) = None then Some (fst_upd (\<lambda>d. replicate n 0 @ d) m)
      else if mget
      then Some (\<lparr>vm_data = replicate n 0, vm_ext = None, vm_room = (MHLEN - int n) mod 4, vm_type = vm_type (hd m)\<rparr> # m)
      else None)"

text \<open>The header of \<open>struct udpiphdr\<close>; \<open>ulen\<close> is a \<open>u_short\<close>.\<close>

definition udp_hdr :: "u16 \<Rightarrow> inpcb \<Rightarrow> u16 \<Rightarrow> u8 list" where
  "udp_hdr ulen i ck = replicate 9 0 @ [17] @ b16 ulen @ b32 (inp_laddr i) @ b32 (inp_faddr i) @
     b16 (inp_lport i) @ b16 (inp_fport i) @ b16 ulen @ b16 ck"

text \<open>From \<open>M_PREPEND\<close> on: the error and the packet given to \<open>ip_output\<close>.\<close>

definition udp_send :: "udpoenv \<Rightarrow> inpcb \<Rightarrow> vmbuf list \<Rightarrow> int \<Rightarrow> udpst \<Rightarrow> udpst \<times> int \<times> vmbuf list option" where
  "udp_send o' i m plen st =
     (case vm_prepend (uo_lead o') (uo_mget o') 28 m of
        None \<Rightarrow> (st, ENOBUFS, None)
      | Some m1 \<Rightarrow>
          let ulen = word_of_int plen + 8;
              m2 = fst_upd (wr 0 (udp_hdr ulen i 0)) m1;
              s = ucast (in_cksum (ck_chain (uo_odd o') m2) (nat (28 + plen))) :: u16;
              ck = (if \<not> uo_cksum o' then 0 else if s = 0 then 0xffff else s);
              m3 = fst_upd (wr 26 (b16 ck)) m2;
              m4 = fst_upd (wr 2 (b16 (word_of_int (28 + plen)))) m3;
              m5 = fst_upd (\<lambda>d. wr 1 [uo_tos o'] (wr 8 [uo_ttl o'] d)) m4
          in (tally (\<lambda>u. u\<lparr>udps_opackets := udps_opackets u + 1\<rparr>) st, uo_err o', Some m5))"

text \<open>
  \<open>in_pcbconnect\<close> on the UDP table; \<open>Inl\<close> is the error for an address of the wrong length or family,
  \<open>src\<close> the local address the routes and interfaces give.
\<close>

definition udp_connect ::
  "pcbenv \<Rightarrow> u32 option \<Rightarrow> pcbptr \<Rightarrow> int + u32 \<times> u16 \<Rightarrow> udpst \<Rightarrow> udpst \<times> int" where
  "udp_connect pe src p addr st =
     (case addr of Inl err \<Rightarrow> (st, err)
      | Inr (fa, fp) \<Rightarrow> (case in_pcbconnect pe src p fa fp (udb st) of (t, err) \<Rightarrow> (st\<lparr>udb := t\<rparr>, err)))"

text \<open>
  \<open>udp_output\<close>. With an address the block is connected for the time of the sending; \<open>nofdref\<close> is
  \<open>SS_NOFDREF\<close> of its socket.
\<close>

definition udp_output ::
  "udpoenv \<Rightarrow> pcbenv \<Rightarrow> u32 option \<Rightarrow> bool \<Rightarrow> pcbptr \<Rightarrow> vmbuf list \<Rightarrow> int \<Rightarrow> (int + u32 \<times> u16) option \<Rightarrow> udpst \<Rightarrow>
   udpst \<times> int \<times> vmbuf list option" where
  "udp_output o' pe src nofdref p m plen addr st =
     (case addr of
        Some a \<Rightarrow>
          let laddr = inp_laddr (pcb (udb st) p) in
          if inp_faddr (pcb (udb st) p) \<noteq> 0 then (st, EISCONN, None)
          else (case udp_connect pe src p a st of
              (st1, err) \<Rightarrow>
                if err \<noteq> 0 then (st1, err, None)
                else (case udp_send o' (pcb (udb st1) p) m plen st1 of
                    (st2, r) \<Rightarrow>
                      (st2\<lparr>udb := pcb_upd p (\<lambda>i. i\<lparr>inp_laddr := laddr\<rparr>) (in_pcbdisconnect nofdref p (udb st2))\<rparr>, r)))
      | None \<Rightarrow>
          if inp_faddr (pcb (udb st) p) = 0 then (st, ENOTCONN, None) else udp_send o' (pcb (udb st) p) m plen st)"

section \<open>Requests and errors\<close>

definition udp_detach :: "pcbptr \<Rightarrow> udpst \<Rightarrow> udpst" where
  "udp_detach p st =
     (let t = udb st; t1 = (if p = last_inpcb t then t\<lparr>last_inpcb := pcb_head t\<rparr> else t)
      in st\<lparr>udb := in_pcbdetach p t1\<rparr>)"

text \<open>
  The requests of \<open>udp_usrreq\<close>. For \<open>PRU_ATTACH\<close>: the options of the socket, whether an mbuf for
  the block is there, and the receive buffer that \<open>soreserve\<close> leaves, with whether it succeeds.
\<close>

datatype udpreq = U_ATTACH u32 bool sbuf bool | U_DETACH | U_BIND "(unit + u32 \<times> u16) option" | U_LISTEN |
  U_CONNECT "int + u32 \<times> u16" | U_CONNECT2 | U_ACCEPT | U_DISCONNECT | U_SHUTDOWN |
  U_SEND "vmbuf list" int "(int + u32 \<times> u16) option" | U_ABORT | U_SENSE | U_SENDOOB | U_RCVD | U_RCVOOB

definition udp_attach :: "pcbptr \<Rightarrow> u32 \<Rightarrow> bool \<Rightarrow> sbuf \<Rightarrow> bool \<Rightarrow> udpst \<Rightarrow> udpst \<times> int" where
  "udp_attach p opts mget rcv ok st =
     (if \<not> mget then (st, ENOBUFS)
      else let st1 = st\<lparr>udb := in_pcballoc p opts (udb st), inp_flags := (inp_flags st)(p := 0), so_rcv := (so_rcv st)(p := rcv)\<rparr>
        in if ok then (st1, 0) else (udp_detach p st1, ENOBUFS))"

fun udp_usrreq ::
  "udpoenv \<Rightarrow> pcbenv \<Rightarrow> u32 option \<Rightarrow> bool \<Rightarrow> bool \<Rightarrow> pcbptr \<Rightarrow> udpreq \<Rightarrow> udpst \<Rightarrow> udpst \<times> int \<times> vmbuf list option" where
  "udp_usrreq o' pe src nofdref has p (U_ATTACH opts mget rcv ok) st =
     (if has then (st, EINVAL, None) else (case udp_attach p opts mget rcv ok st of (st1, err) \<Rightarrow> (st1, err, None)))"
| "udp_usrreq o' pe src nofdref has p req st =
     (if \<not> has then (st, EINVAL, None)
      else case req of
          U_DETACH \<Rightarrow> (udp_detach p st, 0, None)
        | U_BIND nam \<Rightarrow> (case in_pcbbind pe p nam (udb st) of (t, err) \<Rightarrow> (st\<lparr>udb := t\<rparr>, err, None))
        | U_CONNECT a \<Rightarrow>
            if inp_faddr (pcb (udb st) p) \<noteq> 0 then (st, EISCONN, None)
            else (case udp_connect pe src p a st of
                    (st1, err) \<Rightarrow> (if err = 0 then so_call (Soisconnected p) st1 else st1, err, None))
        | U_DISCONNECT \<Rightarrow>
            if inp_faddr (pcb (udb st) p) = 0 then (st, ENOTCONN, None)
            else (so_call (Notconnected p)
                   (st\<lparr>udb := pcb_upd p (\<lambda>i. i\<lparr>inp_laddr := 0\<rparr>) (in_pcbdisconnect nofdref p (udb st))\<rparr>), 0, None)
        | U_SHUTDOWN \<Rightarrow> (so_call (Socantsendmore p) st, 0, None)
        | U_SEND m plen addr \<Rightarrow> udp_output o' pe src nofdref p m plen addr st
        | U_ABORT \<Rightarrow> (udp_detach p (so_call (Soisdisconnected p) st), 0, None)
        | _ \<Rightarrow> (st, EOPNOTSUPP, None))"

text \<open>
  \<open>udp_ctlinput\<close> and \<open>udp_notify\<close>. \<open>errmap\<close> is \<open>inetctlerrmap\<close>; \<open>ip\<close> are the ports and the source of
  the packet an ICMP error quotes, \<open>faddr\<close> is the address of \<open>sa\<close>. The routes that \<open>in_rtchange\<close>
  gives up for the redirects are not part of a block here.
\<close>

definition udp_notify :: "pcbptr \<Rightarrow> int \<Rightarrow> udpst \<Rightarrow> udpst" where
  "udp_notify p err = so_call (Sowwakeup p) \<circ> so_call (Sorwakeup p) \<circ> so_call (So_error p err)"

definition udp_ctlinput :: "(nat \<Rightarrow> int) \<Rightarrow> nat \<Rightarrow> u32 \<Rightarrow> (u16 \<times> u32 \<times> u16) option \<Rightarrow> udpst \<Rightarrow> udpst" where
  "udp_ctlinput errmap cmd faddr ip st =
     (if cmd \<ge> 21 \<or> errmap cmd = 0 then st
      else let ps = (case ip of
                 Some (dport, src, sport) \<Rightarrow> pcb_notified cmd faddr dport src sport (udb st)
               | None \<Rightarrow> pcb_notified cmd faddr 0 0 0 (udb st))
        in if 14 \<le> cmd \<and> cmd \<le> 17 then st else fold (\<lambda>p. udp_notify p (errmap cmd)) ps st)"

end
