(* ===== verification/Sockbuf_Correct.thy ===== *)
theory Sockbuf_Correct
  imports Sockbuf "HOL-Library.Sublist"
begin

text \<open>
  Correctness of the socket buffers: the counters agree with the mbufs held (what \<open>SOCKBUF_DEBUG\<close>
  checks), the bytes of a stream leave in the order they came, records keep their boundaries, a
  reserved receive buffer is never overfilled, and flushing ends with an empty buffer.
\<close>

section \<open>Chains as bytes\<close>

definition vbytes :: "vmbuf list \<Rightarrow> u8 list" where
  "vbytes ms = concat (map vm_data ms)"

definition vsize :: "vmbuf list \<Rightarrow> u32" where
  "vsize ms = sum_list (map vm_size ms)"

definition sb_bytes :: "sbuf \<Rightarrow> u8 list" where
  "sb_bytes s = vbytes (concat (snd s))"

lemma vbytes_simps [simp]:
  "vbytes [] = []" "vbytes (m # ms) = vm_data m @ vbytes ms" "vbytes (ms @ ns) = vbytes ms @ vbytes ns"
  by (simp_all add: vbytes_def)

lemma vsize_simps [simp]:
  "vsize [] = 0" "vsize (m # ms) = vm_size m + vsize ms" "vsize (ms @ ns) = vsize ms + vsize ns"
  by (simp_all add: vsize_def)

lemma length_vbytes: "length (vbytes ms) = sum_list (map vm_len ms)"
  by (induction ms) (simp_all add: vm_len_def)

lemma sb_bytes_simps [simp]:
  "sb_bytes (sb, []) = []" "sb_bytes (sb, r # rs) = vbytes r @ sb_bytes (sb, rs)"
  "sb_bytes (sb, rs @ rs') = sb_bytes (sb, rs) @ sb_bytes (sb, rs')"
  by (simp_all add: sb_bytes_def)

lemma sb_bytes_sel: "sb_bytes (sb, rs) = sb_bytes (sb', rs)"
  by (simp add: sb_bytes_def)

lemma sbcheck_iff:
  "sbcheck (sb, recs) \<longleftrightarrow> sb_cc sb = of_nat (length (sb_bytes (sb, recs))) \<and> sb_mbcnt sb = vsize (concat recs) \<and> [] \<notin> set recs"
  by (simp add: sbcheck_def sb_bytes_def length_vbytes vsize_def)

lemma vbytes_vm_head: "vbytes (vm_head n m) = drop n (vbytes m)"
  by (induction n m rule: vm_head.induct) (auto simp: vm_cut_def vm_len_def)

lemma vm_adj_bytes: "0 \<le> i \<Longrightarrow> vbytes (vm_adj i m) = drop (nat i) (vbytes m)"
  by (simp add: vm_adj_def vbytes_vm_head)

lemma vbytes_cut_all [simp]: "vbytes (map (vm_cut 0) ms) = []"
  by (induction ms) (simp_all add: vm_cut_def)

lemma vbytes_vm_keep: "vbytes (vm_keep n m) = take n (vbytes m)"
  by (induction n m rule: vm_keep.induct) (auto simp: vm_cut_def vm_len_def)

lemma vm_adj_tail:
  assumes "0 < n"
  shows "vbytes (vm_adj (- int n) m) = take (length (vbytes m) - n) (vbytes m)"
proof (cases "m = []")
  case False
  then have e: "m = butlast m @ [last m]" by simp
  have "vbytes (butlast m @ [vm_cut (vm_len (last m) - n) (last m)]) = take (length (vbytes m) - n) (vbytes m)"
    if "vm_len (last m) \<ge> n"
    using that by (subst (3 4) e) (simp add: vm_cut_def vm_len_def)
  then show ?thesis using False assms by (auto simp: vm_adj_def Let_def vbytes_vm_keep length_vbytes)
qed (simp add: vm_adj_def)

text \<open>The counters but for \<open>sb_cc\<close> and \<open>sb_mbcnt\<close>.\<close>

definition same_limits :: "sockbuf \<Rightarrow> sockbuf \<Rightarrow> bool" where
  "same_limits sb sb' \<longleftrightarrow> sb_hiwat sb' = sb_hiwat sb \<and> sb_mbmax sb' = sb_mbmax sb \<and> sb_lowat sb' = sb_lowat sb"

lemma same_limits_refl [simp]: "same_limits sb sb"
  by (simp add: same_limits_def)

lemma sballoc_sel [simp]:
  "sb_cc (sballoc m sb) = sb_cc sb + of_nat (length (vm_data m))" "sb_mbcnt (sballoc m sb) = sb_mbcnt sb + vm_size m"
  "same_limits s (sballoc m sb) = same_limits s sb" "same_limits (sballoc m sb) s = same_limits sb s"
  by (simp_all add: sballoc_def vm_len_def same_limits_def)

lemma sbfree_sel [simp]:
  "sb_cc (sbfree m sb) = sb_cc sb - of_nat (length (vm_data m))" "sb_mbcnt (sbfree m sb) = sb_mbcnt sb - vm_size m"
  "same_limits s (sbfree m sb) = same_limits s sb" "same_limits (sbfree m sb) s = same_limits sb s"
  by (simp_all add: sbfree_def vm_len_def same_limits_def)

lemma fold_sballoc:
  "sb_cc (fold sballoc ms sb) = sb_cc sb + of_nat (length (vbytes ms))"
  "sb_mbcnt (fold sballoc ms sb) = sb_mbcnt sb + vsize ms" "same_limits sb (fold sballoc ms sb)"
  by (induction ms arbitrary: sb) (simp_all add: algebra_simps, simp_all add: same_limits_def sballoc_def sbfree_def)

lemma fold_sbfree:
  "sb_cc (fold sbfree ms sb) = sb_cc sb - of_nat (length (vbytes ms))"
  "sb_mbcnt (fold sbfree ms sb) = sb_mbcnt sb - vsize ms" "same_limits sb (fold sbfree ms sb)"
  by (induction ms arbitrary: sb) (simp_all add: algebra_simps, simp_all add: same_limits_def sballoc_def sbfree_def)

section \<open>Appending\<close>

lemma grow_last_sel:
  assumes "r \<noteq> []"
  shows "vbytes (grow_last m r) = vbytes r @ vm_data m" "vsize (grow_last m r) = vsize r" "grow_last m r \<noteq> []"
    "length (grow_last m r) = length r"
proof -
  have r: "r = butlast r @ [last r]" using assms by simp
  have "vbytes (grow_last m r) = vbytes (butlast r) @ vm_data (last r) @ vm_data m" by (simp add: grow_last_def)
  also have "\<dots> = vbytes (butlast r @ [last r]) @ vm_data m" by simp
  finally show "vbytes (grow_last m r) = vbytes r @ vm_data m" using r by simp
  have "vsize (grow_last m r) = vsize (butlast r) + vm_size (last r)" by (simp add: grow_last_def vm_size_def)
  also have "\<dots> = vsize (butlast r @ [last r])" by simp
  finally show "vsize (grow_last m r) = vsize r" using r by simp
  show "grow_last m r \<noteq> []" by (simp add: grow_last_def)
  show "length (grow_last m r) = length r" using assms by (simp add: grow_last_def)
qed

lemma sbcompress_ok:
  "case sbcompress sb r ms of (sb', r') \<Rightarrow>
     vbytes r' = vbytes r @ vbytes ms \<and> sb_cc sb' = sb_cc sb + of_nat (length (vbytes ms)) \<and>
     sb_mbcnt sb' = sb_mbcnt sb + (vsize r' - vsize r) \<and> same_limits sb sb' \<and> (r' = [] \<longleftrightarrow> ms = [] \<and> r = [])"
proof (induction sb r ms rule: sbcompress.induct)
  case (2 sb r m ms)
  let ?e = "vm_len m = 0 \<and> (case ms of o1 # _ \<Rightarrow> vm_type o1 = vm_type m | [] \<Rightarrow> r \<noteq> [] \<and> vm_type (last r) = vm_type m)"
  let ?g = "r \<noteq> [] \<and> vm_ext (last r) = None \<and> int (vm_len m) < vm_room (last r) \<and> vm_type (last r) = vm_type m"
  consider "?e" | "\<not> ?e" "?g" | "\<not> ?e" "\<not> ?g" by blast
  then show ?case
  proof cases
    case 1
    then have "sbcompress sb r (m # ms) = sbcompress sb r ms" "vm_data m = []" "ms \<noteq> [] \<or> r \<noteq> []"
      by (auto simp: vm_len_def split: list.splits)
    then show ?thesis using "2.IH"(1)[OF 1] by auto
  next
    case 2
    have r: "sbcompress sb r (m # ms) = sbcompress (sb\<lparr>sb_cc := sb_cc sb + of_nat (vm_len m)\<rparr>) (grow_last m r) ms"
      by (subst sbcompress.simps(2), subst if_not_P[OF 2(1)], subst if_P[OF 2(2)], rule refl)
    show ?thesis
      using "2.IH"(2)[OF 2] grow_last_sel[of r m] 2(2) unfolding r
      by (auto simp: vm_len_def same_limits_def)
  next
    case 3
    have r: "sbcompress sb r (m # ms) = sbcompress (sballoc m sb) (r @ [m]) ms"
      by (subst sbcompress.simps(2), subst if_not_P[OF 3(1)], subst if_not_P[OF 3(2)], rule refl)
    show ?thesis using "2.IH"(3)[OF 3] unfolding r by auto
  qed
qed simp

lemma sbcompress_sel:
  assumes "sbcompress sb r ms = (sb', r')"
  shows "vbytes r' = vbytes r @ vbytes ms" "sb_cc sb' = sb_cc sb + of_nat (length (vbytes ms))"
    "sb_mbcnt sb' = sb_mbcnt sb + (vsize r' - vsize r)" "same_limits sb sb'" "r' = [] \<longleftrightarrow> ms = [] \<and> r = []"
  using sbcompress_ok[where sb=sb and r=r and ms=ms] assms by auto

lemma sbappend_ok:
  assumes "sbcheck s"
  shows "sbcheck (sbappend s m)" "sb_bytes (sbappend s m) = sb_bytes s @ vbytes m"
    "same_limits (fst s) (fst (sbappend s m))"
    "butlast (snd (sbappend s m)) = butlast (snd s)"
proof -
  obtain sb recs where s: "s = (sb, recs)" by fastforce
  have "sbcheck (sbappend s m) \<and> sb_bytes (sbappend s m) = sb_bytes s @ vbytes m \<and>
    same_limits (fst s) (fst (sbappend s m)) \<and> butlast (snd (sbappend s m)) = butlast (snd s)"
  proof (cases "m = []")
    case True
    then show ?thesis using assms by (simp add: sbappend_def s)
  next
    case m: False
    obtain sb1 r1 where c: "sbcompress sb (if recs = [] then [] else last recs) m = (sb1, r1)" by fastforce
    note C = sbcompress_sel[OF c]
    have a: "sbappend (sb, recs) m = (sb1, butlast recs @ [r1])" using c m by (simp add: sbappend_def)
    show ?thesis
    proof (cases recs rule: rev_cases)
      case Nil
      then show ?thesis using assms C m s unfolding s a by (simp add: sbcheck_iff sb_bytes_def)
    next
      case (snoc rs r)
      then show ?thesis using assms C m s unfolding s a by (simp add: sbcheck_iff sb_bytes_def)
    qed
  qed
  then show "sbcheck (sbappend s m)" "sb_bytes (sbappend s m) = sb_bytes s @ vbytes m"
    "same_limits (fst s) (fst (sbappend s m))" "butlast (snd (sbappend s m)) = butlast (snd s)"
    by blast+
qed

lemma sbappendrecord_ok:
  assumes "sbcheck s"
  shows "sbcheck (sbappendrecord s m)" "sb_bytes (sbappendrecord s m) = sb_bytes s @ vbytes m"
    "same_limits (fst s) (fst (sbappendrecord s m))"
    "m \<noteq> [] \<Longrightarrow> \<exists>r. snd (sbappendrecord s m) = snd s @ [r] \<and> vbytes r = vbytes m \<and> r \<noteq> []"
proof -
  obtain sb recs where s: "s = (sb, recs)" by fastforce
  have "sbcheck (sbappendrecord s m) \<and> sb_bytes (sbappendrecord s m) = sb_bytes s @ vbytes m \<and>
    same_limits (fst s) (fst (sbappendrecord s m)) \<and>
    (m \<noteq> [] \<longrightarrow> (\<exists>r. snd (sbappendrecord s m) = snd s @ [r] \<and> vbytes r = vbytes m \<and> r \<noteq> []))"
  proof (cases m)
    case Nil
    then show ?thesis using assms by (simp add: sbappendrecord_def s)
  next
    case (Cons m0 ms)
    obtain sb1 r1 where c: "sbcompress (sballoc m0 sb) [m0] ms = (sb1, r1)" by fastforce
    have a: "sbappendrecord (sb, recs) m = (sb1, recs @ [r1])" using c Cons by (simp add: sbappendrecord_def)
    show ?thesis using assms sbcompress_sel[OF c] Cons s unfolding s a by (simp add: sbcheck_iff sb_bytes_def)
  qed
  then show "sbcheck (sbappendrecord s m)" "sb_bytes (sbappendrecord s m) = sb_bytes s @ vbytes m"
    "same_limits (fst s) (fst (sbappendrecord s m))"
    "m \<noteq> [] \<Longrightarrow> \<exists>r. snd (sbappendrecord s m) = snd s @ [r] \<and> vbytes r = vbytes m \<and> r \<noteq> []"
    by blast+
qed

section \<open>Dropping\<close>

lemma sbdrop_walk_ok:
  assumes "0 \<le> len"
  shows "case sbdrop_walk len sb m nx of
      None \<Rightarrow> int (length (vbytes (m @ concat nx))) < len
    | Some (sb', m', nx') \<Rightarrow> len \<le> int (length (vbytes (m @ concat nx))) \<and>
        vbytes (m' @ concat nx') = drop (nat len) (vbytes (m @ concat nx)) \<and>
        sb_cc sb' = sb_cc sb - word_of_int len \<and>
        sb_mbcnt sb' + vsize (m @ concat nx) = sb_mbcnt sb + vsize (m' @ concat nx') \<and>
        same_limits sb sb' \<and> set nx' \<subseteq> set nx \<and>
        suffix (map vm_size (m' @ concat nx')) (map vm_size (m @ concat nx))"
  using assms
proof (induction len sb m nx rule: sbdrop_walk.induct)
  case (1 len sb nx)
  then show ?case by (cases nx) (auto split: option.splits)
next
  case (2 len sb m ms nx)
  show ?case
  proof (cases "len > 0 \<and> int (vm_len m) \<le> len")
    case False
    then show ?thesis using "2.prems"
      by (auto simp: vm_len_def vm_size_def same_limits_def)
  next
    case True
    then have ih: "case sbdrop_walk (len - int (vm_len m)) (sbfree m sb) ms nx of
      None \<Rightarrow> int (length (vbytes (ms @ concat nx))) < len - int (vm_len m)
    | Some (sb', m', nx') \<Rightarrow> len - int (vm_len m) \<le> int (length (vbytes (ms @ concat nx))) \<and>
        vbytes (m' @ concat nx') = drop (nat (len - int (vm_len m))) (vbytes (ms @ concat nx)) \<and>
        sb_cc sb' = sb_cc (sbfree m sb) - word_of_int (len - int (vm_len m)) \<and>
        sb_mbcnt sb' + vsize (ms @ concat nx) = sb_mbcnt (sbfree m sb) + vsize (m' @ concat nx') \<and>
        same_limits (sbfree m sb) sb' \<and> set nx' \<subseteq> set nx \<and>
        suffix (map vm_size (m' @ concat nx')) (map vm_size (ms @ concat nx))"
      using "2.IH" by simp
    have w: "sbdrop_walk len sb (m # ms) nx = sbdrop_walk (len - int (vm_len m)) (sbfree m sb) ms nx" using True by simp
    have n: "nat (len - int (length (vm_data m))) = nat len - length (vm_data m)" "length (vm_data m) \<le> nat len"
      using True unfolding vm_len_def by linarith+
    show ?thesis
      using ih True n(2) unfolding w by (auto simp: n(1) vm_len_def algebra_simps suffix_ConsI split: option.splits)
  qed
qed


lemma sbdrop_empty_ok:
  "case sbdrop_empty sb m of (sb', m') \<Rightarrow> vbytes m' = vbytes m \<and> sb_cc sb' = sb_cc sb \<and>
     sb_mbcnt sb' + vsize m = sb_mbcnt sb + vsize m' \<and> same_limits sb sb' \<and> suffix (map vm_size m') (map vm_size m) \<and>
     (m' = [] \<or> vm_data (hd m') \<noteq> []) \<and> (m \<noteq> [] \<and> vm_data (hd m) = [] \<longrightarrow> length m' < length m)"
proof (induction sb m rule: sbdrop_empty.induct)
  case (2 sb m ms)
  then show ?case
    using suffix_length_le[of "map vm_size (snd (sbdrop_empty (sbfree m sb) ms))" "map vm_size ms"]
    by (auto simp: vm_len_def algebra_simps suffix_ConsI)
qed simp

definition mbufs_of :: "sbuf \<Rightarrow> nat" where
  "mbufs_of s = length (concat (snd s))"

lemma sbcheck_concat:
  assumes "sbcheck (sb, recs)" "m @ concat nx = concat recs" "[] \<notin> set nx" "sb' = sb"
  shows "sbcheck (sb', if m \<noteq> [] then m # nx else nx)"
  using assms by (auto simp: sbcheck_iff sb_bytes_def)

lemma sbdrop_ok:
  assumes "sbcheck s" "0 \<le> len" "len \<le> int (length (sb_bytes s))" "len < 2 ^ 31"
  shows "\<exists>s'. sbdrop chk len s = Inr s' \<and> sbcheck s' \<and> sb_bytes s' = drop (nat len) (sb_bytes s) \<and>
    same_limits (fst s) (fst s') \<and> suffix (map vm_size (concat (snd s'))) (map vm_size (concat (snd s))) \<and>
    (len = 0 \<and> snd s \<noteq> [] \<and> sb_bytes s = [] \<longrightarrow> mbufs_of s' < mbufs_of s)"
proof -
  obtain sb recs where s: "s = (sb, recs)" by fastforce
  define m0 where "m0 = (if recs = [] then [] else hd recs)"
  have c: "m0 @ concat (tl recs) = concat recs" by (cases recs) (simp_all add: m0_def)
  have chk: "sb_cc sb = of_nat (length (sb_bytes s))" "sb_mbcnt sb = vsize (concat recs)" "[] \<notin> set recs"
    using assms(1) by (simp_all add: s sbcheck_iff)
  note W = sbdrop_walk_ok[where sb=sb and m=m0 and nx="tl recs", OF assms(2), unfolded c]
  obtain sb1 m nx where w: "sbdrop_walk len sb m0 (tl recs) = Some (sb1, m, nx)"
    using W assms(3) by (cases "sbdrop_walk len sb m0 (tl recs)") (auto simp: s sb_bytes_def)
  obtain sb2 m2 where e: "sbdrop_empty sb1 m = (sb2, m2)" by fastforce
  define recs' where "recs' = (if m2 \<noteq> [] then m2 # nx else nx)"
  have guard: "\<not> (recs = [] \<and> (sb_cc sb \<noteq> 0 \<or> sb_mbcnt sb \<noteq> 0))"
    using chk by (auto simp: s sb_bytes_def)
  have run: "sbdrop chk len s = Inr (sb2, recs')"
    using guard w e by (auto simp: sbdrop_def s m0_def[symmetric] recs'_def)
  have W1: "vbytes (m @ concat nx) = drop (nat len) (vbytes (concat recs))" "sb_cc sb1 = sb_cc sb - word_of_int len"
    "sb_mbcnt sb1 + vsize (concat recs) = sb_mbcnt sb + vsize (m @ concat nx)" "same_limits sb sb1"
    "set nx \<subseteq> set (tl recs)" "suffix (map vm_size (m @ concat nx)) (map vm_size (concat recs))"
    using W w by auto
  have E: "vbytes m2 = vbytes m" "sb_cc sb2 = sb_cc sb1" "sb_mbcnt sb2 + vsize m = sb_mbcnt sb1 + vsize m2"
    "same_limits sb1 sb2" "suffix (map vm_size m2) (map vm_size m)"
    using sbdrop_empty_ok[where sb=sb1 and m=m] e by auto
  have cc: "concat recs' = m2 @ concat nx" by (simp add: recs'_def)
  have by': "sb_bytes (sb2, recs') = drop (nat len) (sb_bytes s)"
    using W1(1) E(1) by (simp add: sb_bytes_def cc s)
  have ne: "[] \<notin> set recs'" using W1(5) chk(3) by (cases recs) (auto simp: recs'_def)
  have "length (sb_bytes (sb2, recs')) = length (sb_bytes s) - nat len" by (simp add: by')
  moreover have "sb_cc sb2 = of_nat (length (sb_bytes s)) - word_of_int len" using E(2) W1(2) chk(1) by simp
  moreover have "of_nat (length (sb_bytes s)) - word_of_int len = (of_nat (length (sb_bytes s) - nat len) :: u32)"
    using assms(2,3) by (simp add: of_nat_diff)
  moreover have "sb_mbcnt sb2 = vsize (concat recs')"
    using E(3) W1(3) chk(2) by (simp add: cc algebra_simps)
  ultimately have ok: "sbcheck (sb2, recs')" using ne by (simp add: sbcheck_iff)
  have lim: "same_limits (fst s) sb2" using W1(4) E(4) by (simp add: same_limits_def s)
  have n: "suffix (map vm_size (concat recs')) (map vm_size (concat recs))"
    using suffix_order.trans[OF _ W1(6)] E(5) by (simp add: cc)
  have lt: "mbufs_of (sb2, recs') < mbufs_of s" if "len = 0" "recs \<noteq> []" "sb_bytes s = []"
  proof -
    note hyp = that
    have m: "sb1 = sb" "m = m0" "nx = tl recs" using w that(1) by (cases m0; simp)+
    obtain b r where r: "m0 = b # r" using hyp(2) chk(3) by (cases recs; cases m0) (auto simp: m0_def)
    have "vm_data b = []" using hyp(3) c r by (simp add: s sb_bytes_def flip: c)
    then have "length m2 < length m0" using sbdrop_empty_ok[where sb=sb1 and m=m] e m r by auto
    then show ?thesis using arg_cong[OF c, of length] m by (simp add: mbufs_of_def cc s)
  qed
  show ?thesis using run ok by' lim n lt by (auto simp: s)
qed

lemma sbdrop_panics:
  assumes "sbcheck s" "int (length (sb_bytes s)) < len"
  shows "sbdrop chk len s = Inl Panic_sbdrop"
proof -
  obtain sb recs where s: "s = (sb, recs)" by fastforce
  define m0 where "m0 = (if recs = [] then [] else hd recs)"
  have c: "m0 @ concat (tl recs) = concat recs" by (cases recs) (simp_all add: m0_def)
  have "sbdrop_walk len sb m0 (tl recs) = None"
    using sbdrop_walk_ok[where sb=sb and m=m0 and nx="tl recs" and len=len, unfolded c] assms(2)
    by (auto simp: s sb_bytes_def split: option.splits)
  moreover have "\<not> (recs = [] \<and> (sb_cc sb \<noteq> 0 \<or> sb_mbcnt sb \<noteq> 0))"
    using assms(1) by (auto simp: s sbcheck_iff sb_bytes_def)
  ultimately show ?thesis by (auto simp: sbdrop_def s m0_def[symmetric])
qed

lemma sbdroprecord_ok:
  assumes "sbcheck s"
  shows "sbcheck (sbdroprecord s)" "snd (sbdroprecord s) = tl (snd s)" "same_limits (fst s) (fst (sbdroprecord s))"
proof -
  obtain sb recs where s: "s = (sb, recs)" by fastforce
  show "sbcheck (sbdroprecord s)" "snd (sbdroprecord s) = tl (snd s)" "same_limits (fst s) (fst (sbdroprecord s))"
    using assms by (cases recs; simp add: s sbdroprecord_def sbcheck_iff sb_bytes_def fold_sbfree)+
qed

section \<open>Flushing\<close>

text \<open>The storage held, as a number.\<close>

definition storage :: "sbuf \<Rightarrow> nat" where
  "storage s = sum_list (map (unat \<circ> vm_size) (concat (snd s)))"

lemma storage_suffix:
  assumes "suffix (map vm_size (concat (snd s'))) (map vm_size (concat (snd s)))"
  shows "storage s' \<le> storage s"
proof -
  obtain xs where "map vm_size (concat (snd s)) = xs @ map vm_size (concat (snd s'))" using assms by (auto elim: suffixE)
  from arg_cong[OF this, of "\<lambda>ys. sum_list (map unat ys)"] show ?thesis by (simp add: storage_def flip: map_map)
qed

lemma mbcnt_storage: "sbcheck s \<Longrightarrow> sb_mbcnt (fst s) = of_nat (storage s)"
proof -
  have "sum_list (map vm_size ms) = of_nat (sum_list (map (unat \<circ> vm_size) ms))" for ms
    by (induction ms) simp_all
  then show "sbcheck s \<Longrightarrow> ?thesis" by (cases s) (simp add: sbcheck_iff vsize_def storage_def)
qed

definition small_buf :: "sbuf \<Rightarrow> bool" where
  "small_buf s \<longleftrightarrow> sbcheck s \<and> length (sb_bytes s) < 2 ^ 31 \<and> storage s < 2 ^ 32 \<and>
     0 \<notin> set (map vm_size (concat (snd s)))"

lemma small_buf_mbcnt:
  assumes "small_buf s"
  shows "sb_mbcnt (fst s) = 0 \<longleftrightarrow> snd s = []"
proof -
  have "sb_mbcnt (fst s) = 0 \<longleftrightarrow> storage s = 0"
  proof -
    have "unat (sb_mbcnt (fst s)) = storage s"
      using assms mbcnt_storage[of s] by (simp add: small_buf_def unat_of_nat take_bit_nat_eq_self)
    then show ?thesis by (metis unat_eq_0)
  qed
  also have "\<dots> \<longleftrightarrow> concat (snd s) = []" using assms
    by (cases "concat (snd s)") (auto simp: storage_def small_buf_def unat_eq_0)
  also have "\<dots> \<longleftrightarrow> snd s = []" using assms by (cases s; cases "snd s") (auto simp: small_buf_def sbcheck_iff)
  finally show ?thesis .
qed

lemma sbdrop_all:
  assumes "small_buf s" "snd s \<noteq> []"
  shows "\<exists>s'. sbdrop chk (sint (sb_cc (fst s))) s = Inr s' \<and> small_buf s' \<and> sb_bytes s' = [] \<and>
    same_limits (fst s) (fst s') \<and> mbufs_of s' + length (sb_bytes s') < mbufs_of s + length (sb_bytes s)"
proof -
  have c: "sint (sb_cc (fst s)) = int (length (sb_bytes s))"
    using assms(1) sint_of_nat_u32[of "length (sb_bytes s)"] by (cases s) (simp add: small_buf_def sbcheck_iff)
  have l: "int (length (sb_bytes s)) < 2 ^ 31" using assms(1) by (simp add: small_buf_def)
  obtain s' where s': "sbdrop chk (sint (sb_cc (fst s))) s = Inr s'" "sbcheck s'" "sb_bytes s' = []"
    "same_limits (fst s) (fst s')" "suffix (map vm_size (concat (snd s'))) (map vm_size (concat (snd s)))"
    "sb_bytes s = [] \<longrightarrow> mbufs_of s' < mbufs_of s"
    using sbdrop_ok[of s "int (length (sb_bytes s))" chk] assms l unfolding c small_buf_def by auto
  have "small_buf s'"
    using assms(1) s'(2,3) storage_suffix[OF s'(5)] set_mono_suffix[OF s'(5)] by (auto simp: small_buf_def)
  moreover have "mbufs_of s' \<le> mbufs_of s" using suffix_length_le[OF s'(5)] by (simp add: mbufs_of_def)
  ultimately show ?thesis using s' by (cases "sb_bytes s") auto
qed

lemma sbflush_loop_ends:
  assumes "small_buf s"
  shows "\<exists>s'. sbflush_loop chk s = Some (Inr s') \<and> small_buf s' \<and> snd s' = [] \<and> same_limits (fst s) (fst s')"
  using assms
proof (induction "mbufs_of s + length (sb_bytes s)" arbitrary: s rule: less_induct)
  case less
  show ?case
  proof (cases "snd s = []")
    case True
    then show ?thesis using less.prems small_buf_mbcnt by (subst sbflush_loop.simps) simp
  next
    case False
    obtain s1 where s1: "sbdrop chk (sint (sb_cc (fst s))) s = Inr s1" "small_buf s1" "same_limits (fst s) (fst s1)"
      "mbufs_of s1 + length (sb_bytes s1) < mbufs_of s + length (sb_bytes s)"
      using sbdrop_all[OF less.prems False] by blast
    obtain s' where "sbflush_loop chk s1 = Some (Inr s')" "small_buf s'" "snd s' = []" "same_limits (fst s1) (fst s')"
      using less.hyps[OF s1(4,2)] by blast
    then show ?thesis
      using False s1 less.prems small_buf_mbcnt by (subst sbflush_loop.simps) (auto simp: same_limits_def)
  qed
qed

text \<open>
  Sbflush always ends on a buffer whose counters agree with its mbufs (less than 2 GB of data in
  less than 4 GB of storage), records of empty mbufs included, and leaves it empty with both counters
  at zero and its limits unchanged; it never panics, with and without the free-list checks. On a
  locked buffer it panics.\<close>

theorem sbflush_empties:
  assumes "small_buf s"
  shows "\<exists>sb. sbflush chk locked s = Some (if locked then Inl Panic_sbflush else Inr (sb, [])) \<and>
    sb_cc sb = 0 \<and> sb_mbcnt sb = 0 \<and> same_limits (fst s) sb"
proof -
  obtain s' where s': "sbflush_loop chk s = Some (Inr s')" "small_buf s'" "snd s' = []" "same_limits (fst s) (fst s')"
    using sbflush_loop_ends[OF assms] by blast
  obtain sb where sb: "s' = (sb, [])" using s'(3) by (cases s') auto
  have "sb_cc sb = 0" "sb_mbcnt sb = 0" using s'(2) by (simp_all add: sb small_buf_def sbcheck_iff)
  then show ?thesis using s' by (auto simp: sbflush_def sb)
qed


section \<open>A buffer as a byte queue\<close>

text \<open>A history: chunks appended, and counts of bytes taken off the front when so many are held.\<close>

fun fifo_run :: "('s \<Rightarrow> 'c \<Rightarrow> 's) \<Rightarrow> ('s \<Rightarrow> u8 list) \<Rightarrow> (nat \<Rightarrow> 's \<Rightarrow> 's option) \<Rightarrow> ('c + nat) list \<Rightarrow> 's \<Rightarrow>
    (u8 list \<times> 's) option" where
  "fifo_run app bytes dropped [] s = Some ([], s)"
| "fifo_run app bytes dropped (Inl c # ops) s = fifo_run app bytes dropped ops (app s c)"
| "fifo_run app bytes dropped (Inr n # ops) s =
     (if n \<le> length (bytes s) \<and> n < 2 ^ 31
      then (case dropped n s of None \<Rightarrow> None
        | Some s' \<Rightarrow> map_option (\<lambda>(out, t). (take n (bytes s) @ out, t)) (fifo_run app bytes dropped ops s'))
      else fifo_run app bytes dropped ops s)"

fun fifo_fed :: "('c \<Rightarrow> u8 list) \<Rightarrow> ('c + nat) list \<Rightarrow> u8 list" where
  "fifo_fed chunk [] = []"
| "fifo_fed chunk (Inl c # ops) = chunk c @ fifo_fed chunk ops"
| "fifo_fed chunk (Inr n # ops) = fifo_fed chunk ops"

text \<open>The contract the protocols rely on.\<close>

locale byte_fifo =
  fixes inv :: "'s \<Rightarrow> bool" and bytes :: "'s \<Rightarrow> u8 list"
    and app :: "'s \<Rightarrow> 'c \<Rightarrow> 's" and chunk :: "'c \<Rightarrow> u8 list" and dropped :: "nat \<Rightarrow> 's \<Rightarrow> 's option"
  assumes app_inv: "inv s \<Longrightarrow> inv (app s c)"
    and app_bytes: "inv s \<Longrightarrow> bytes (app s c) = bytes s @ chunk c"
    and drop_ok: "inv s \<Longrightarrow> n \<le> length (bytes s) \<Longrightarrow> n < 2 ^ 31 \<Longrightarrow>
      \<exists>s'. dropped n s = Some s' \<and> inv s' \<and> bytes s' = drop n (bytes s)"
begin

lemma run_stream:
  assumes "inv s"
  shows "\<exists>out t. fifo_run app bytes dropped ops s = Some (out, t) \<and> inv t \<and>
    out @ bytes t = bytes s @ fifo_fed chunk ops"
  using assms
proof (induction ops arbitrary: s)
  case (Cons a ops)
  show ?case
  proof (cases a)
    case (Inl c)
    then show ?thesis using Cons.IH[of "app s c"] app_inv[OF Cons.prems] app_bytes[OF Cons.prems] by simp
  next
    case (Inr n)
    show ?thesis
    proof (cases "n \<le> length (bytes s) \<and> n < 2 ^ 31")
      case True
      then obtain s' where d: "dropped n s = Some s'" "inv s'" "bytes s' = drop n (bytes s)"
        using drop_ok[OF Cons.prems] by blast
      obtain out t where o: "fifo_run app bytes dropped ops s' = Some (out, t)" "inv t"
        "out @ bytes t = bytes s' @ fifo_fed chunk ops"
        using Cons.IH[OF d(2)] by blast
      have "(take n (bytes s) @ out) @ bytes t = bytes s @ fifo_fed chunk ops"
        using o(3) d(3) by (simp add: append_assoc[symmetric] del: append_assoc) simp
      then show ?thesis using True d o Inr by simp
    next
      case False
      then have "fifo_run app bytes dropped (a # ops) s = fifo_run app bytes dropped ops s" using Inr by auto
      then show ?thesis using Cons.IH[OF Cons.prems] Inr by simp
    qed
  qed
qed simp

end

text \<open>The drop of a buffer, its panic as no result.\<close>

definition sb_take :: "nat \<Rightarrow> sbuf \<Rightarrow> sbuf option" where
  "sb_take n s = (case sbdrop False (int n) s of Inl _ \<Rightarrow> None | Inr s' \<Rightarrow> Some s')"

interpretation sbq: byte_fifo sbcheck sb_bytes sbappend vbytes sb_take
proof
  fix s c n
  assume s: "sbcheck s"
  show "sbcheck (sbappend s c)" "sb_bytes (sbappend s c) = sb_bytes s @ vbytes c" using sbappend_ok(1,2)[OF s] by simp_all
  show "\<exists>s'. sb_take n s = Some s' \<and> sbcheck s' \<and> sb_bytes s' = drop n (sb_bytes s)"
    if "n \<le> length (sb_bytes s)" "n < 2 ^ 31"
  proof -
    have "int n < 2 ^ 31" using that(2) by simp
    then show ?thesis using sbdrop_ok[OF s, of "int n" False] that(1) by (auto simp: sb_take_def)
  qed
qed

interpretation sbr: byte_fifo sbcheck sb_bytes sbappendrecord vbytes sb_take
proof
  fix s c n
  assume s: "sbcheck s"
  show "sbcheck (sbappendrecord s c)" "sb_bytes (sbappendrecord s c) = sb_bytes s @ vbytes c"
    using sbappendrecord_ok(1,2)[OF s] by simp_all
  show "n \<le> length (sb_bytes s) \<Longrightarrow> n < 2 ^ 31 \<Longrightarrow>
    \<exists>s'. sb_take n s = Some s' \<and> sbcheck s' \<and> sb_bytes s' = drop n (sb_bytes s)"
    by (rule sbq.drop_ok[OF s])
qed

text \<open>C16: a socket buffer is a byte queue: along any history of sbappend and of sbdrop of at most the
  bytes held, no drop panics, the counters always agree with the mbufs held, and the bytes dropped
  followed by those left are exactly the bytes first held followed by those appended, whatever the
  mbufs were merged or trimmed to.\<close>

theorem sbuf_stream:
  assumes "sbcheck s"
  shows "\<exists>out t. fifo_run sbappend sb_bytes sb_take ops s = Some (out, t) \<and> sbcheck t \<and> out @ sb_bytes t = sb_bytes s @ fifo_fed vbytes ops"
  by (rule sbq.run_stream[OF assms])

section \<open>Datagrams\<close>

text \<open>A chain with its address is only appended when its bytes fit; the length in the packet header may be more.\<close>

lemma sbappendaddr_ok:
  assumes "sbcheck s" "sbappendaddr mget asa hdr m0 control s = Inr (s', ok)"
    and "m0 \<noteq> [] \<longrightarrow> (\<exists>h. hdr = Some h \<and> int (length (vbytes m0)) \<le> h)"
  shows "sbcheck s'" "same_limits (fst s) (fst s')" "\<not> ok \<Longrightarrow> s' = s"
    "ok \<Longrightarrow> \<exists>r. snd s' = snd s @ [r] \<and> vbytes r = asa @ vbytes control @ vbytes m0 \<and> vm_type (hd r) = MT_SONAME"
    "ok \<Longrightarrow> sb_bytes s' = sb_bytes s @ asa @ vbytes control @ vbytes m0"
    "ok \<Longrightarrow> int (length (asa @ vbytes control @ vbytes m0)) \<le> sbspace (fst s)"
proof -
  obtain sb recs where s: "s = (sb, recs)" by fastforce
  let ?m = "\<lparr>vm_data = asa, vm_ext = None, vm_room = MLEN - int (length asa), vm_type = MT_SONAME\<rparr>"
  have len: "int (length (asa @ vbytes control @ vbytes m0)) \<le>
    int (length asa) + (if m0 \<noteq> [] then the hdr else 0) + int (sum_list (map vm_len control))"
    using assms(3) by (auto simp: length_vbytes)
  have "(s', ok) = (s, False) \<or> ok \<and> s' = (fold sballoc (?m # control @ m0) sb, recs @ [?m # control @ m0]) \<and>
    int (length (asa @ vbytes control @ vbytes m0)) \<le> sbspace sb"
    using assms(2) len unfolding sbappendaddr_def s prod.case Let_def by (auto split: if_splits)
  then consider "s' = s" "\<not> ok" | "ok" "s' = (fold sballoc (?m # control @ m0) sb, recs @ [?m # control @ m0])"
    "int (length (asa @ vbytes control @ vbytes m0)) \<le> sbspace sb" by auto
  then have "sbcheck s' \<and> same_limits (fst s) (fst s') \<and> (\<not> ok \<longrightarrow> s' = s) \<and>
    (ok \<longrightarrow> (\<exists>r. snd s' = snd s @ [r] \<and> vbytes r = asa @ vbytes control @ vbytes m0 \<and> vm_type (hd r) = MT_SONAME) \<and>
      sb_bytes s' = sb_bytes s @ asa @ vbytes control @ vbytes m0 \<and>
      int (length (asa @ vbytes control @ vbytes m0)) \<le> sbspace (fst s))"
  proof cases
    case 1
    then show ?thesis using assms(1) by simp
  next
    case 2
    have "sbcheck s'" using assms(1) fold_sballoc[where ms="?m # control @ m0" and sb=sb] unfolding 2(2) s
      by (simp add: sbcheck_iff sb_bytes_def del: fold.simps)
    moreover have "same_limits sb (fst s')" using fold_sballoc(3)[where ms="?m # control @ m0" and sb=sb] 2(2) by simp
    ultimately show ?thesis using 2 by (simp add: s sb_bytes_def)
  qed
  then show "sbcheck s'" "same_limits (fst s) (fst s')" "\<not> ok \<Longrightarrow> s' = s"
    "ok \<Longrightarrow> \<exists>r. snd s' = snd s @ [r] \<and> vbytes r = asa @ vbytes control @ vbytes m0 \<and> vm_type (hd r) = MT_SONAME"
    "ok \<Longrightarrow> sb_bytes s' = sb_bytes s @ asa @ vbytes control @ vbytes m0"
    "ok \<Longrightarrow> int (length (asa @ vbytes control @ vbytes m0)) \<le> sbspace (fst s)" by blast+
qed

text \<open>
  Sbappendaddr (a datagram with its sender's address and control data) never overfills a buffer:
  it either leaves the buffer as it was or appends one record, in front the address and then the
  control data and the data, byte for byte; the counters then agree with the mbufs and the bytes
  held are still at most sb_hiwat. It panics only when the data has no packet header.\<close>

theorem sbappendaddr_bounded:
  assumes "sbcheck s" "sb_cc (fst s) \<le> sb_hiwat (fst s)" "unat (sb_hiwat (fst s)) < 2 ^ 31"
    and "m0 \<noteq> [] \<longrightarrow> (\<exists>h. hdr = Some h \<and> int (length (vbytes m0)) \<le> h)"
  shows "\<exists>s' ok. sbappendaddr mget asa hdr m0 control s = Inr (s', ok) \<and> sbcheck s' \<and>
    sb_cc (fst s') \<le> sb_hiwat (fst s') \<and>
    (if ok then \<exists>r. snd s' = snd s @ [r] \<and> vbytes r = asa @ vbytes control @ vbytes m0 \<and> vm_type (hd r) = MT_SONAME
     else s' = s)"
proof -
  obtain sb recs where s: "s = (sb, recs)" by fastforce
  obtain s' ok where r: "sbappendaddr mget asa hdr m0 control s = Inr (s', ok)"
  proof -
    have "\<exists>x. sbappendaddr mget asa hdr m0 control s = Inr x"
      using assms(4) unfolding sbappendaddr_def s prod.case Let_def by auto
    then show thesis using that by auto
  qed
  note A = sbappendaddr_ok[OF assms(1) r assms(4)]
  have "sb_cc (fst s') \<le> sb_hiwat (fst s')"
  proof (cases ok)
    case False
    then show ?thesis using A(3) assms(2) by simp
  next
    case True
    define n where "n = length (asa @ vbytes control @ vbytes m0)"
    have c: "sb_cc (fst s) = of_nat (length (sb_bytes s))" "sb_cc (fst s') = of_nat (length (sb_bytes s'))"
      using assms(1) A(1) by (cases s; cases s'; simp add: sbcheck_iff)+
    have l: "length (sb_bytes s') = length (sb_bytes s) + n" using A(5)[OF True] by (simp add: n_def)
    have u: "unat (sb_cc (fst s)) \<le> unat (sb_hiwat (fst s))" using assms(2) by (simp add: word_le_nat_alt)
    have "int n \<le> sint (sb_hiwat (fst s) - sb_cc (fst s))"
      using A(6)[OF True] unfolding n_def[symmetric] sbspace_def by simp
    also have "\<dots> = int (unat (sb_hiwat (fst s))) - int (unat (sb_cc (fst s)))"
      using sint_diff_small[of "sb_hiwat (fst s)" "sb_cc (fst s)"] assms(3) u by simp
    finally have n: "unat (sb_cc (fst s)) + n \<le> unat (sb_hiwat (fst s))" using u by linarith
    have "sb_cc (fst s') = sb_cc (fst s) + of_nat n" by (simp add: c l)
    then have "unat (sb_cc (fst s')) = unat (sb_cc (fst s)) + n"
      using n assms(3) unat_add_of_nat[of "sb_cc (fst s)" n] by simp
    then show ?thesis using n A(2) by (simp add: word_le_nat_alt same_limits_def)
  qed
  then show ?thesis using r A by auto
qed

section \<open>Instances\<close>

definition ex_sbuf :: sbuf where
  "ex_sbuf = (\<lparr>sb_cc = 0, sb_hiwat = 4096, sb_mbcnt = 0, sb_mbmax = 8192, sb_lowat = 1\<rparr>, [])"

definition ex_mb :: "u8 list \<Rightarrow> vmbuf" where
  "ex_mb bs = \<lparr>vm_data = bs, vm_ext = None, vm_room = 50, vm_type = MT_DATA\<rparr>"

lemma ex_sbuf_ok: "sbcheck ex_sbuf"
  by (simp add: ex_sbuf_def sbcheck_def)

theorem sbuf_stream_witness:
  "\<exists>out t. fifo_run sbappend sb_bytes sb_take [Inl [ex_mb [1, 2, 3]], Inr 2, Inl [ex_mb [], ex_mb [4]], Inr 1] ex_sbuf =
     Some (out, t) \<and> out @ sb_bytes t = [1, 2, 3, 4]"
  using sbuf_stream[OF ex_sbuf_ok, of "[Inl [ex_mb [1, 2, 3]], Inr 2, Inl [ex_mb [], ex_mb [4]], Inr 1]"]
  by (auto simp: ex_mb_def ex_sbuf_def)

theorem sbflush_empties_witness:
  "\<exists>sb. sbflush False False (sbappend ex_sbuf [ex_mb [7]]) = Some (Inr (sb, [])) \<and> sb_mbcnt sb = 0"
proof -
  have "small_buf (sbappend ex_sbuf [ex_mb [7]])"
    using sbappend_ok(1)[OF ex_sbuf_ok, of "[ex_mb [7]]"]
    by (simp add: small_buf_def storage_def sbappend_def ex_sbuf_def ex_mb_def vm_len_def
        vm_size_def MSIZE_def)
  then show ?thesis using sbflush_empties[of "sbappend ex_sbuf [ex_mb [7]]" False False] by auto
qed

theorem sbappendaddr_bounded_witness:
  "\<exists>s'. sbappendaddr True [2, 0] (Some 3) [ex_mb [5, 6, 7]] [] ex_sbuf = Inr (s', True) \<and> sb_cc (fst s') \<le> 4096"
proof -
  obtain s' ok where r: "sbappendaddr True [2, 0] (Some 3) [ex_mb [5, 6, 7]] [] ex_sbuf = Inr (s', ok)"
    "sb_cc (fst s') \<le> sb_hiwat (fst s')"
    using sbappendaddr_bounded[OF ex_sbuf_ok, of "[ex_mb [5, 6, 7]]" "Some 3" True "[2, 0]" "[]"]
    by (auto simp: ex_mb_def ex_sbuf_def)
  then have "ok" "sb_hiwat (fst s') = 4096"
    by (auto simp: sbappendaddr_def ex_sbuf_def sbspace_def ex_mb_def MLEN_def sballoc_def Let_def)
  then show ?thesis using r by auto
qed

end
