(* ===== verification/Udp_Chain.thy ===== *)
theory Udp_Chain
  imports Udp Sockbuf_Correct
begin

text \<open>
  The bytes of the headers of a datagram, and what the operations of \<open>udp_input\<close> on the chain of its
  mbufs do to them.
\<close>

section \<open>Numbers in bytes\<close>

lemma rd16_at: "length pre = i \<Longrightarrow> rd16 (pre @ a # b # post) i = ucast (be16 a b)"
  by (simp add: rd16_def nth_append)

lemma ucast_be16_bytes: "ucast (be16 (ucast (drop_bit 8 w)) (ucast w)) = (w :: u16)"
  by (rule bit_word_eqI) (auto simp: be16_def bit_simps)

lemma rd16_b16: "length pre = i \<Longrightarrow> rd16 (pre @ b16 w @ post) i = w"
  by (simp add: b16_def rd16_at ucast_be16_bytes)

lemma be32_b32: "be32 (ucast (drop_bit 24 w)) (ucast (drop_bit 16 w)) (ucast (drop_bit 8 w)) (ucast w) = (w :: u32)"
  by (rule bit_word_eqI) (auto simp: be32_def bit_simps; rule ccontr; simp)

lemma rd32_b32: "length pre = i \<Longrightarrow> rd32 (pre @ b32 w @ post) i = w"
  by (simp add: b32_def rd32_def nth_append be32_b32)

lemma length_b [simp]: "length (b16 w) = 2" "length (b32 v) = 4"
  by (simp_all add: b16_def b32_def)

lemma rd_cong:
  "(\<And>k. i \<le> k \<Longrightarrow> k < i + 2 \<Longrightarrow> d ! k = d' ! k) \<Longrightarrow> rd16 d i = rd16 d' i"
  "(\<And>k. i \<le> k \<Longrightarrow> k < i + 4 \<Longrightarrow> d ! k = d' ! k) \<Longrightarrow> rd32 d i = rd32 d' i"
  by (simp_all add: rd16_def rd32_def)

text \<open>The fields of a datagram are in its first 28 bytes.\<close>

lemma rd_take [simp]:
  "i + 2 \<le> n \<Longrightarrow> rd16 (take n d) i = rd16 d i" "i + 4 \<le> n \<Longrightarrow> rd32 (take n d) i = rd32 d i"
  by (simp_all add: rd16_def rd32_def)

lemma fields_take28:
  "uh_iplen (take 28 d) = uh_iplen d" "uh_src (take 28 d) = uh_src d" "uh_dst (take 28 d) = uh_dst d"
  "uh_sport (take 28 d) = uh_sport d" "uh_dport (take 28 d) = uh_dport d" "uh_ulen (take 28 d) = uh_ulen d"
  "uh_sum (take 28 d) = uh_sum d"
  by (simp_all add: uh_iplen_def uh_src_def uh_dst_def uh_sport_def uh_dport_def uh_ulen_def uh_sum_def)

lemma fields_cong:
  assumes "take 28 d = take 28 d'"
  shows "uh_iplen d = uh_iplen d'" "uh_src d = uh_src d'" "uh_dst d = uh_dst d'" "uh_sport d = uh_sport d'"
    "uh_dport d = uh_dport d'" "uh_ulen d = uh_ulen d'" "uh_sum d = uh_sum d'" "d \<noteq> [] \<Longrightarrow> udp_in d = udp_in d'"
  using fields_take28[of d] fields_take28[of d'] assms by (simp_all add: udp_in_def)

text \<open>The pseudo header hides the first 12 bytes only.\<close>

lemma overlay_nth: "12 \<le> k \<Longrightarrow> k < length d \<Longrightarrow> udp_overlay d ! k = d ! k"
  by (auto simp: udp_overlay_def nth_append)

lemma length_overlay: "12 \<le> length d \<Longrightarrow> length (udp_overlay d) = length d"
  by (simp add: udp_overlay_def)

lemma overlay_append: "28 \<le> length d \<Longrightarrow> udp_overlay (d @ r) = udp_overlay d @ r"
  by (simp add: udp_overlay_def uh_ulen_def rd16_def nth_append)

lemma length_wr: "i + length bs \<le> length d \<Longrightarrow> length (wr i bs d) = length d"
  by (simp add: wr_def)

lemma wr_nth: "k < i \<or> i + length bs \<le> k \<Longrightarrow> i + length bs \<le> length d \<Longrightarrow> k < length d \<Longrightarrow> wr i bs d ! k = d ! k"
  by (auto simp: wr_def nth_append)

lemma wr_append: "i + length bs \<le> length d \<Longrightarrow> wr i bs (d @ r) = wr i bs d @ r"
  by (simp add: wr_def)

lemma drop_wr: "i + length bs \<le> n \<Longrightarrow> n \<le> length d \<Longrightarrow> drop n (wr i bs d) = drop n d"
  by (simp add: wr_def)

text \<open>What is left of the header when the checksum has been tested.\<close>

definition udp_tested :: "u16 \<Rightarrow> u8 list \<Rightarrow> u8 list" where
  "udp_tested s d = wr 26 (b16 s) (udp_overlay d)"

lemma tested_fields:
  assumes "28 \<le> length d"
  shows "uh_src (udp_tested s d) = uh_src d" "uh_dst (udp_tested s d) = uh_dst d" "uh_sport (udp_tested s d) = uh_sport d"
    "uh_dport (udp_tested s d) = uh_dport d" "drop 28 (udp_tested s d) = drop 28 d" "length (udp_tested s d) = length d"
proof -
  have n: "udp_tested s d ! k = d ! k" if "12 \<le> k" "k < 26" for k
    using assms that by (simp add: udp_tested_def wr_nth length_overlay overlay_nth)
  show "uh_src (udp_tested s d) = uh_src d" "uh_dst (udp_tested s d) = uh_dst d" "uh_sport (udp_tested s d) = uh_sport d"
    "uh_dport (udp_tested s d) = uh_dport d"
    unfolding uh_src_def uh_dst_def uh_sport_def uh_dport_def by (rule rd_cong; use n in simp)+
  show "length (udp_tested s d) = length d" using assms by (simp add: udp_tested_def length_wr length_overlay)
  show "drop 28 (udp_tested s d) = drop 28 d"
    using assms by (simp add: udp_tested_def drop_wr length_overlay) (simp add: udp_overlay_def)
qed

section \<open>Chains\<close>

lemma fst_upd_simps [simp]:
  "fst_upd f [] = []" "fst_upd f (m # ms) = m\<lparr>vm_data := f (vm_data m)\<rparr> # ms" "fst_upd f c = [] \<longleftrightarrow> c = []"
  "c \<noteq> [] \<Longrightarrow> hdr_of (fst_upd f c) = f (hdr_of c)" "length (fst_upd f c) = length c"
  by (simp_all add: fst_upd_def hdr_of_def split: list.split)

lemma hdr_simps [simp]: "hdr_of (m # ms) = vm_data m"
  by (simp add: hdr_of_def)

lemma vbytes_hdr: "m \<noteq> [] \<Longrightarrow> vbytes m = hdr_of m @ vbytes (tl m)"
  by (cases m) simp_all

lemma vbytes_fst_upd: "m \<noteq> [] \<Longrightarrow> (\<And>r. f (hdr_of m @ r) = f (hdr_of m) @ r) \<Longrightarrow> vbytes (fst_upd f m) = f (vbytes m)"
  by (cases m) simp_all

lemma vbytes_strip: "n \<le> length (hdr_of m) \<Longrightarrow> vbytes (vm_strip n m) = drop n (vbytes m)"
  by (cases m) (simp_all add: vm_strip_def)

lemma vm_strip_empty [simp]: "vm_strip n m = [] \<longleftrightarrow> m = []"
  by (simp add: vm_strip_def)

lemma hdr_cong: "m \<noteq> [] \<Longrightarrow> n \<le> length (hdr_of m) \<Longrightarrow> take n (hdr_of m) = take n (vbytes m)"
  by (simp add: vbytes_hdr)

lemma vm_copy_bytes:
  "vm_copy mget k m = Some n \<Longrightarrow> vbytes n = vbytes m \<and> (n = [] \<longleftrightarrow> m = [])"
proof (induction mget k m arbitrary: n rule: vm_copy.induct)
  case (2 mget k m ms)
  then obtain ns where "mget k" "vm_copy mget (Suc k) ms = Some ns"
    "n = (if vm_ext m \<noteq> None then m else m\<lparr>vm_room := (if k = 0 then MHLEN else MLEN) - int (vm_len m)\<rparr>) # ns"
    by (auto split: if_splits)
  then show ?case using 2 by auto
qed simp

lemma vm_copy_all: "(\<And>k. mget k) \<Longrightarrow> \<exists>n. vm_copy mget k m = Some n"
proof (induction m arbitrary: k)
  case (Cons a m)
  obtain n where "vm_copy mget (Suc k) m = Some n" using Cons by blast
  then show ?case using Cons.prems[of k] by simp
qed simp

lemma ck_chain_bytes: "concat (map ck_data (ck_chain od m)) = vbytes m"
proof -
  have "map ck_data (ck_chain od m) = map vm_data m"
    by (rule nth_equalityI) (simp_all add: ck_chain_def)
  then show ?thesis by (simp add: vbytes_def)
qed

section \<open>Pulling up\<close>

lemma pull_loop_ok:
  assumes "0 < len" "len \<le> vm_room m"
  shows "\<exists>left m1 rest. pull_loop prot len m ns = Some (left, m1, rest) \<and> vm_data m1 @ vbytes rest = vm_data m @ vbytes ns \<and>
    left = len - (int (vm_len m1) - int (vm_len m)) \<and> (left > 0 \<longrightarrow> rest = [])"
  using assms
proof (induction ns arbitrary: m len)
  case Nil
  then show ?case by (subst pull_loop.simps) simp
next
  case (Cons n ns)
  define c where "c = nat (min (min (max len prot) (vm_room m)) (int (vm_len n)))"
  define m1 where "m1 = m\<lparr>vm_data := vm_data m @ take c (vm_data n), vm_room := vm_room m - int c\<rparr>"
  define rest where "rest = (if vm_len n > c then n\<lparr>vm_data := drop c (vm_data n)\<rparr> # ns else ns)"
  have c: "c \<le> vm_len n" "int c \<le> vm_room m" "vm_len n > c \<Longrightarrow> len \<le> int c"
    using Cons.prems by (simp_all add: c_def) linarith+
  have l: "pull_loop prot len m (n # ns) = (if len - int c > 0 \<and> rest \<noteq> [] then pull_loop prot (len - int c) m1 rest
      else Some (len - int c, m1, rest))"
    by (subst pull_loop.simps) (simp only: Let_def list.sel list.distinct if_False c_def[symmetric] m1_def[symmetric] rest_def[symmetric])
  have b: "vm_data m1 @ vbytes rest = vm_data m @ vbytes (n # ns)" "int (vm_len m1) = int (vm_len m) + int c"
    using c(1) by (auto simp: m1_def rest_def vm_len_def)
  show ?case
  proof (cases "len - int c > 0 \<and> rest \<noteq> []")
    case True
    then have r: "rest = ns" using c(3) by (auto simp: rest_def)
    have "0 < len - int c" "len - int c \<le> vm_room m1" using True Cons.prems by (simp_all add: m1_def)
    from Cons.IH[OF this] show ?thesis using l True b by (auto simp: r)
  next
    case False
    then show ?thesis using l b by auto
  qed
qed

text \<open>\<open>m_pullup\<close> ends; it fails for want of an mbuf or of bytes, else the bytes are the same.\<close>

lemma vm_pullup_ok:
  assumes "m \<noteq> []" "0 < len" "len \<le> MHLEN"
  shows "\<exists>r. vm_pullup mget prot len m = Some r \<and> (case r of
      None \<Rightarrow> \<not> mget \<or> int (length (vbytes m)) < len
    | Some m' \<Rightarrow> m' \<noteq> [] \<and> vbytes m' = vbytes m \<and> len \<le> int (length (hdr_of m')))"
proof -
  obtain n ns where m: "m = n # ns" using assms(1) by (cases m) auto
  let ?fits = "vm_ext n = None \<and> len < int (vm_len n) + vm_room n \<and> ns \<noteq> []"
  let ?new = "\<lparr>vm_data = [], vm_ext = None, vm_room = MHLEN, vm_type = vm_type n\<rparr>"
  have e: "vm_pullup mget prot len m =
      (if ?fits \<and> int (vm_len n) \<ge> len then Some (Some m)
       else if \<not> ?fits \<and> (len > MHLEN \<or> \<not> mget) then Some None
       else map_option (\<lambda>(left, m1, rest). if left > 0 then None else Some (m1 # rest))
              (if ?fits then pull_loop prot (len - int (vm_len n)) n ns else pull_loop prot len ?new m))"
    unfolding vm_pullup_def m by (simp only: list.case Let_def)
  consider "?fits" "int (vm_len n) \<ge> len" | "?fits" "int (vm_len n) < len" | "\<not> ?fits" "\<not> mget" | "\<not> ?fits" "mget"
    by linarith
  then show ?thesis
  proof cases
    case 1
    then show ?thesis unfolding e using m by (simp add: vm_len_def)
  next
    case 2
    have "0 < len - int (vm_len n)" "len - int (vm_len n) \<le> vm_room n" using 2 by simp_all
    from pull_loop_ok[OF this, of prot ns] obtain left m1 rest where
      l: "pull_loop prot (len - int (vm_len n)) n ns = Some (left, m1, rest)" "vm_data m1 @ vbytes rest = vbytes m"
        "left = len - int (vm_len m1)" "left > 0 \<longrightarrow> rest = []"
      using m by auto
    have "int (length (vbytes m)) < len" if "left > 0" using l(2-4) that by (auto simp: vm_len_def)
    then show ?thesis unfolding e using 2 l by (auto simp: vm_len_def)
  next
    case 3
    then show ?thesis unfolding e by auto
  next
    case 4
    from pull_loop_ok[of len ?new prot m] assms(2,3) obtain left m1 rest where
      l: "pull_loop prot len ?new m = Some (left, m1, rest)" "vm_data m1 @ vbytes rest = vbytes m"
        "left = len - int (vm_len m1)" "left > 0 \<longrightarrow> rest = []"
      by (auto simp: vm_len_def)
    have "int (length (vbytes m)) < len" if "left > 0" using l(2-4) that by (auto simp: vm_len_def)
    then show ?thesis unfolding e using 4 l assms(3) by (auto simp: vm_len_def)
  qed
qed

end
