(* ===== verification/In_Pcb_Correct.thy ===== *)
theory In_Pcb_Correct
  imports In_Pcb
begin

text \<open>
  The lookup finds the most specific block, connections of TCP are unique, so that the cache of
  \<open>tcp_input\<close> never changes the answer; and where the implicit bind of \<open>in_pcbconnect\<close> breaks this.
\<close>

section \<open>The lookup\<close>

text \<open>A block that matches, with its number of wildcards; only exact ones without \<open>INPLOOKUP_WILDCARD\<close>.\<close>

definition pcb_cand :: "(pcbptr \<Rightarrow> nat option) \<Rightarrow> bool \<Rightarrow> pcbptr \<Rightarrow> bool" where
  "pcb_cand w flag p \<longleftrightarrow> w p \<noteq> None \<and> (flag \<or> w p = Some 0)"

text \<open>The first of the best.\<close>

definition pcb_best :: "(pcbptr \<Rightarrow> nat option) \<Rightarrow> bool \<Rightarrow> pcbptr list \<Rightarrow> pcbptr \<Rightarrow> bool" where
  "pcb_best w flag ps p \<longleftrightarrow> (\<exists>as bs. ps = as @ p # bs \<and> pcb_cand w flag p \<and>
     (\<forall>q\<in>set as. pcb_cand w flag q \<longrightarrow> the (w p) < the (w q)) \<and> (\<forall>q\<in>set bs. pcb_cand w flag q \<longrightarrow> the (w p) \<le> the (w q)))"

lemma pcb_best_here: "pcb_cand w flag p \<Longrightarrow> \<forall>q\<in>set ps. pcb_cand w flag q \<longrightarrow> the (w p) \<le> the (w q) \<Longrightarrow> pcb_best w flag (p # ps) p"
  unfolding pcb_best_def by (rule exI[of _ "[]"]) auto

lemma pcb_best_later: "pcb_best w flag ps q \<Longrightarrow> pcb_cand w flag p \<longrightarrow> the (w q) < the (w p) \<Longrightarrow> pcb_best w flag (p # ps) q"
  unfolding pcb_best_def by (elim exE conjE) (rule_tac x = "p # as" in exI, auto)

lemma walk_best:
  "pcb_walk k w flag ps m b = m \<and> (\<forall>q\<in>set (take k ps). pcb_cand w flag q \<longrightarrow> b \<le> the (w q)) \<or>
   (\<exists>p. pcb_walk k w flag ps m b = Some p \<and> pcb_best w flag (take k ps) p \<and> the (w p) < b)"
proof (induction k w flag ps m b rule: pcb_walk.induct)
  case (3 k w flag p ps m b)
  show ?case
  proof (cases "pcb_cand w flag p \<and> the (w p) < b")
    case True
    then obtain n where n: "w p = Some n" "n < b" "n \<noteq> 0 \<longrightarrow> flag" by (auto simp: pcb_cand_def)
    show ?thesis
    proof (cases "n = 0")
      case True
      then show ?thesis using n pcb_best_here[of w flag p "take k ps"] by (auto simp: pcb_cand_def)
    next
      case False
      have r: "pcb_walk (Suc k) w flag (p # ps) m b = pcb_walk k w flag ps (Some p) n" using n False by simp
      from 3(3)[OF n(1)] n False
      consider "pcb_walk k w flag ps (Some p) n = Some p" "\<forall>q\<in>set (take k ps). pcb_cand w flag q \<longrightarrow> n \<le> the (w q)"
        | q where "pcb_walk k w flag ps (Some p) n = Some q" "pcb_best w flag (take k ps) q" "the (w q) < n"
        by auto
      then show ?thesis
      proof cases
        case 1
        then show ?thesis using r n pcb_best_here[of w flag p "take k ps"] True by auto
      next
        case 2
        then show ?thesis using r n pcb_best_later[of w flag "take k ps" q p] by auto
      qed
    qed
  next
    case False
    have r: "pcb_walk (Suc k) w flag (p # ps) m b = pcb_walk k w flag ps m b"
      using False by (auto simp: pcb_cand_def split: option.split)
    have "pcb_walk k w flag ps m b = m \<and> (\<forall>q\<in>set (take k ps). pcb_cand w flag q \<longrightarrow> b \<le> the (w q)) \<or>
        (\<exists>q. pcb_walk k w flag ps m b = Some q \<and> pcb_best w flag (take k ps) q \<and> the (w q) < b)"
    proof (cases "w p")
      case None
      then show ?thesis using 3(1) by blast
    next
      case (Some n)
      then show ?thesis using 3(2)[OF Some] 3(4)[OF Some] False by (cases "n \<noteq> 0 \<and> \<not> flag") (auto simp: pcb_cand_def)
    qed
    then show ?thesis unfolding r using False pcb_best_later[of w flag "take k ps" _ p] by fastforce
  qed
qed auto

lemma walk_numeral [simp]:
  "pcb_walk (numeral k) w flag (p # ps) m b =
     (case w p of
        None \<Rightarrow> pcb_walk (pred_numeral k) w flag ps m b
      | Some n \<Rightarrow>
          if n \<noteq> 0 \<and> \<not> flag then pcb_walk (pred_numeral k) w flag ps m b
          else if n < b then (if n = 0 then Some p else pcb_walk (pred_numeral k) w flag ps (Some p) n)
          else pcb_walk (pred_numeral k) w flag ps m b)"
  by (simp add: numeral_eq_Suc)

lemma pcb_wild_le: "pcb_wild fa fp la lp i = Some n \<Longrightarrow> n \<le> 2"
  by (auto simp: pcb_wild_def split: if_splits)

lemma lookup_best:
  assumes "length (pcbs st) \<le> 2000"
  shows "case in_pcblookup faddr fport laddr lport flag st of
      None \<Rightarrow> \<forall>q\<in>set (pcbs st). \<not> pcb_cand (\<lambda>p. pcb_wild faddr fport laddr lport (pcb st p)) flag q
    | Some p \<Rightarrow> pcb_best (\<lambda>p. pcb_wild faddr fport laddr lport (pcb st p)) flag (pcbs st) p"
proof -
  let ?w = "\<lambda>p. pcb_wild faddr fport laddr lport (pcb st p)"
  have t: "take 2000 (pcbs st) = pcbs st" using assms by simp
  have "pcb_cand ?w flag q \<Longrightarrow> the (?w q) \<le> 2" for q using pcb_wild_le by (auto simp: pcb_cand_def)
  then show ?thesis
    using walk_best[of 2000 ?w flag "pcbs st" None 3] unfolding in_pcblookup_def t by fastforce
qed

text \<open>C33: in_pcblookup finds the most specific control block. Of the blocks that match the addresses and ports of
  a packet, those with more wildcards only where they are allowed, it returns the first with the fewest
  wildcards, and none only if no block matches.\<close>

theorem in_pcblookup_best:
  assumes "length (pcbs st) \<le> 2000"
  shows "case in_pcblookup faddr fport laddr lport flag st of
      None \<Rightarrow> \<forall>q\<in>set (pcbs st). \<not> pcb_cand (\<lambda>p. pcb_wild faddr fport laddr lport (pcb st p)) flag q
    | Some p \<Rightarrow> pcb_best (\<lambda>p. pcb_wild faddr fport laddr lport (pcb st p)) flag (pcbs st) p"
  by (rule lookup_best[OF assms])

text \<open>Two blocks on one port, one of them connected.\<close>

definition ex_pcb :: "u32 \<Rightarrow> u16 \<Rightarrow> u32 \<Rightarrow> u16 \<Rightarrow> inpcb" where
  "ex_pcb laddr lport faddr fport = \<lparr>inp_laddr = laddr, inp_lport = lport, inp_faddr = faddr, inp_fport = fport,
     inp_socket = True, inp_soopts = 0\<rparr>"

definition ex_pcbs :: pcbst where
  "ex_pcbs = \<lparr>pcb_head = 10, pcbs = [12, 13], pcb = (\<lambda>_. ex_pcb 0 0 0 0)(12 := ex_pcb 0 80 0 0, 13 := ex_pcb 1 80 2 4000),
     last_inpcb = 10, ng_port_rand = 1\<rparr>"

theorem in_pcblookup_best_witness:
  "in_pcblookup 2 4000 1 80 True ex_pcbs = Some 13 \<and>
   pcb_best (\<lambda>p. pcb_wild 2 4000 1 80 (pcb ex_pcbs p)) True (pcbs ex_pcbs) 13"
proof -
  have r: "in_pcblookup 2 4000 1 80 True ex_pcbs = Some 13"
    by (simp add: in_pcblookup_def ex_pcbs_def ex_pcb_def pcb_wild_def)
  have "length (pcbs ex_pcbs) \<le> 2000" by (simp add: ex_pcbs_def)
  from in_pcblookup_best[OF this, of 2 4000 1 80 True] r show ?thesis by simp
qed

section \<open>Ports\<close>

text \<open>What the choice of a port changes: the cursor and the random state.\<close>

definition pcb_same :: "pcbst \<Rightarrow> pcbst \<Rightarrow> bool" where
  "pcb_same st st' \<longleftrightarrow> pcb_head st' = pcb_head st \<and> pcbs st' = pcbs st \<and> last_inpcb st' = last_inpcb st \<and>
     (\<forall>x. x \<noteq> pcb_head st \<longrightarrow> pcb st' x = pcb st x) \<and> inp_faddr (pcb st' (pcb_head st)) = inp_faddr (pcb st (pcb_head st))"

lemma pcb_upd_sel [simp]: "pcb_head (pcb_upd p f st) = pcb_head st" "pcbs (pcb_upd p f st) = pcbs st"
  "last_inpcb (pcb_upd p f st) = last_inpcb st" "pcb (pcb_upd p f st) p = f (pcb st p)"
  "x \<noteq> p \<Longrightarrow> pcb (pcb_upd p f st) x = pcb st x"
  by (simp_all add: pcb_upd_def)

lemma pcb_same_trans: "pcb_same a b \<Longrightarrow> pcb_same b c \<Longrightarrow> pcb_same a c"
  by (simp add: pcb_same_def)

lemma pcb_same_refl: "pcb_same st st"
  by (simp add: pcb_same_def)

lemma port_next_high: "port_next d c \<noteq> 0"
proof -
  let ?m = "(max (ucast c) (ucast IPPORT_ANONMIN :: u32) - ucast IPPORT_ANONMIN + d) mod NG_PORT_SPAN"
  have m: "unat ?m < 16384" by (simp add: NG_PORT_SPAN_def unat_mod)
  have "unat ((ucast IPPORT_ANONMIN :: u32) + ?m) = 49152 + unat ?m"
    using m unat_add_of_nat[of "ucast IPPORT_ANONMIN" "unat ?m"] by (simp add: IPPORT_ANONMIN_def)
  then have "unat (port_next d c) = 49152 + unat ?m"
    using m by (simp add: port_next_def Let_def unsigned_ucast_eq take_bit_nat_eq_self)
  then show ?thesis by auto
qed

lemma port_rand_same: "port_rand k e la st = (st', r) \<Longrightarrow> pcb_same st st' \<and> r \<noteq> Some 0"
proof (induction k e la st arbitrary: st' r rule: port_rand.induct)
  case (2 k e la st)
  obtain d x where d: "ng_port_delta e (ng_port_rand st) = (d, x)" by fastforce
  let ?s = "pcb_upd (pcb_head st) (\<lambda>h. h\<lparr>inp_lport := port_next d (inp_lport h)\<rparr>) (st\<lparr>ng_port_rand := x\<rparr>)"
  have s: "pcb_same st ?s" by (simp add: pcb_same_def)
  have p: "inp_lport (pcb ?s (pcb_head ?s)) \<noteq> 0" using port_next_high by simp
  show ?case
  proof (cases "in_pcblookup 0 0 la (inp_lport (pcb ?s (pcb_head ?s))) False ?s = None")
    case True
    then have "st' = ?s" "r = Some (inp_lport (pcb ?s (pcb_head ?s)))" using 2(2) d by (auto simp: Let_def)
    then show ?thesis using s p by auto
  next
    case False
    then have "port_rand k e la ?s = (st', r)" using 2(2) d by (auto simp: Let_def)
    then show ?thesis using 2(1)[OF d[symmetric] refl refl False] s pcb_same_trans by blast
  qed
qed (simp add: pcb_same_refl)

lemma port_scan_same: "port_scan k la st = (st', r) \<Longrightarrow> pcb_same st st' \<and> r \<noteq> Some 0"
proof (induction k la st arbitrary: st' r rule: port_scan.induct)
  case (2 k la st)
  let ?s = "pcb_upd (pcb_head st)
    (\<lambda>h. h\<lparr>inp_lport := (if inp_lport h + 1 < IPPORT_ANONMIN then IPPORT_ANONMIN else inp_lport h + 1)\<rparr>) st"
  have s: "pcb_same st ?s" by (simp add: pcb_same_def)
  have p: "inp_lport (pcb ?s (pcb_head ?s)) \<noteq> 0" by (auto simp: IPPORT_ANONMIN_def)
  show ?case
  proof (cases "in_pcblookup 0 0 la (inp_lport (pcb ?s (pcb_head ?s))) False ?s = None")
    case True
    then have "st' = ?s" "r = Some (inp_lport (pcb ?s (pcb_head ?s)))" using 2(2) by (auto simp: Let_def)
    then show ?thesis using s p by auto
  next
    case False
    then have "port_scan k la ?s = (st', r)" using 2(2) by (auto simp: Let_def)
    then show ?thesis using 2(1)[OF refl refl False] s pcb_same_trans by blast
  qed
qed (simp add: pcb_same_refl)

section \<open>Connections are unique\<close>

definition pcb_tuple :: "inpcb \<Rightarrow> u32 \<times> u16 \<times> u32 \<times> u16" where
  "pcb_tuple i = (inp_faddr i, inp_fport i, inp_laddr i, inp_lport i)"

definition pcb_full :: "inpcb \<Rightarrow> bool" where
  "pcb_full i \<longleftrightarrow> inp_faddr i \<noteq> 0 \<and> inp_laddr i \<noteq> 0"

definition pcb_inv :: "pcbst \<Rightarrow> bool" where
  "pcb_inv st \<longleftrightarrow> distinct (pcb_head st # pcbs st) \<and> last_inpcb st \<in> insert (pcb_head st) (set (pcbs st)) \<and>
     inp_faddr (pcb st (pcb_head st)) = 0 \<and> (\<forall>p\<in>set (pcbs st). inp_faddr (pcb st p) \<noteq> 0 \<longrightarrow> inp_lport (pcb st p) \<noteq> 0) \<and>
     (\<forall>p\<in>set (pcbs st). \<forall>q\<in>set (pcbs st). pcb_full (pcb st p) \<and> p \<noteq> q \<longrightarrow> pcb_tuple (pcb st p) \<noteq> pcb_tuple (pcb st q))"

lemma wild_exact: "pcb_tuple i = (fa, fp, la, lp) \<Longrightarrow> pcb_wild fa fp la lp i = Some 0"
  by (auto simp: pcb_wild_def pcb_tuple_def)

lemma wild_zero: "fa \<noteq> 0 \<Longrightarrow> la \<noteq> 0 \<Longrightarrow> pcb_wild fa fp la lp i = Some 0 \<Longrightarrow> pcb_tuple i = (fa, fp, la, lp)"
  by (auto simp: pcb_wild_def pcb_tuple_def split: if_splits)

lemma lookup_none:
  assumes "length (pcbs st) \<le> 2000" "in_pcblookup fa fp la lp flag st = None" "q \<in> set (pcbs st)"
  shows "pcb_tuple (pcb st q) \<noteq> (fa, fp, la, lp)"
  using lookup_best[OF assms(1), of fa fp la lp flag] assms(2,3) wild_exact[of "pcb st q" fa fp la lp]
  by (auto simp: pcb_cand_def)

lemma lookup_member: "in_pcblookup fa fp la lp flag st = Some p \<Longrightarrow> length (pcbs st) \<le> 2000 \<Longrightarrow> p \<in> set (pcbs st)"
  using lookup_best[of st fa fp la lp flag] by (auto simp: pcb_best_def)

lemma lookup_no_wild:
  "in_pcblookup fa fp la lp False st = Some p \<Longrightarrow> length (pcbs st) \<le> 2000 \<Longrightarrow>
   p \<in> set (pcbs st) \<and> pcb_wild fa fp la lp (pcb st p) = Some 0"
  using lookup_best[of st fa fp la lp False] by (auto simp: pcb_best_def pcb_cand_def)

lemma lookup_exact:
  assumes "length (pcbs st) \<le> 2000" "pcb_inv st" "p \<in> set (pcbs st)" "pcb_tuple (pcb st p) = (fa, fp, la, lp)" "fa \<noteq> 0" "la \<noteq> 0"
  shows "in_pcblookup fa fp la lp flag st = Some p"
proof -
  let ?w = "\<lambda>p. pcb_wild fa fp la lp (pcb st p)"
  have w: "?w p = Some 0" by (rule wild_exact[OF assms(4)])
  have c: "pcb_cand ?w flag p" using w by (simp add: pcb_cand_def)
  obtain q where q: "in_pcblookup fa fp la lp flag st = Some q" "pcb_best ?w flag (pcbs st) q"
    using lookup_best[OF assms(1), of fa fp la lp flag] c assms(3) by (auto split: option.splits)
  obtain as bs where ab: "pcbs st = as @ q # bs" "pcb_cand ?w flag q"
    "\<forall>r\<in>set as. pcb_cand ?w flag r \<longrightarrow> the (?w q) < the (?w r)" "\<forall>r\<in>set bs. pcb_cand ?w flag r \<longrightarrow> the (?w q) \<le> the (?w r)"
    using q(2) by (auto simp: pcb_best_def)
  have "?w q = Some 0"
  proof (cases "p = q")
    case False
    then have "the (?w q) \<le> 0" using assms(3) ab(1,3,4) c w by fastforce
    then show ?thesis using ab(2) by (auto simp: pcb_cand_def)
  qed (use w in simp)
  then have "pcb_tuple (pcb st q) = pcb_tuple (pcb st p)" using wild_zero[OF assms(5,6)] assms(4) by metis
  moreover have "pcb_full (pcb st p)" using assms(4-6) by (simp add: pcb_full_def pcb_tuple_def)
  ultimately have "q = p" using assms(2,3) ab(1) unfolding pcb_inv_def by (metis in_set_conv_decomp)
  then show ?thesis using q(1) by simp
qed

section \<open>Every operation keeps them so\<close>

lemma pcb_inv_same: "pcb_inv st \<Longrightarrow> pcb_same st st' \<Longrightarrow> pcb_inv st'"
proof -
  assume i: "pcb_inv st" and s: "pcb_same st st'"
  have "pcb st' p = pcb st p" if "p \<in> set (pcbs st)" for p
  proof -
    have "p \<noteq> pcb_head st" using i that by (auto simp: pcb_inv_def)
    then show ?thesis using s by (simp add: pcb_same_def)
  qed
  then show ?thesis using i s by (simp add: pcb_inv_def pcb_same_def)
qed

text \<open>A block that is not connected may change its local end.\<close>

lemma pcb_inv_upd:
  assumes "pcb_inv st" "p \<in> set (pcbs st)" "inp_faddr (f (pcb st p)) \<noteq> 0 \<longrightarrow> inp_lport (f (pcb st p)) \<noteq> 0"
    "pcb_full (f (pcb st p)) \<longrightarrow> (\<forall>q\<in>set (pcbs st). q \<noteq> p \<longrightarrow> pcb_tuple (pcb st q) \<noteq> pcb_tuple (f (pcb st p)))"
  shows "pcb_inv (pcb_upd p f st)"
proof -
  have hp: "p \<noteq> pcb_head st" using assms(1,2) by (auto simp: pcb_inv_def)
  have full: "pcb_full i" if "pcb_tuple i = pcb_tuple j" "pcb_full j" for i j using that by (auto simp: pcb_full_def pcb_tuple_def)
  have g: "pcb (pcb_upd p f st) x = (if x = p then f (pcb st p) else pcb st x)" for x by simp
  have u: "pcb_tuple (pcb (pcb_upd p f st) x) \<noteq> pcb_tuple (pcb (pcb_upd p f st) y)"
    if "x \<in> set (pcbs st)" "y \<in> set (pcbs st)" "pcb_full (pcb (pcb_upd p f st) x)" "x \<noteq> y" for x y
  proof (cases "x = p")
    case True
    then show ?thesis using assms(4) that by (auto simp: g)
  next
    case x: False
    show ?thesis
    proof (cases "y = p")
      case True
      then show ?thesis using assms(4) that x full[of "f (pcb st p)" "pcb st x"] by (auto simp: g)
    next
      case False
      then show ?thesis using assms(1) that x by (simp add: g pcb_inv_def)
    qed
  qed
  have l: "\<forall>x\<in>set (pcbs st). inp_faddr (pcb (pcb_upd p f st) x) \<noteq> 0 \<longrightarrow> inp_lport (pcb (pcb_upd p f st) x) \<noteq> 0"
    using assms(1,3) by (simp add: g pcb_inv_def)
  show ?thesis using assms(1) u l hp unfolding pcb_inv_def by (simp add: g)
qed

lemma pcb_bind_port_inv:
  assumes "pcb_inv st" "p \<in> set (pcbs st)" "inp_faddr (pcb st p) = 0" "bind_port e p st = (st', err)"
  shows "pcb_inv st' \<and> pcbs st' = pcbs st \<and> inp_faddr (pcb st' p) = 0 \<and> (err = 0 \<longrightarrow> inp_lport (pcb st' p) \<noteq> 0)"
proof -
  have hp: "p \<noteq> pcb_head st" using assms(1,2) by (auto simp: pcb_inv_def)
  have k: "pcb_inv s \<and> pcbs s = pcbs st \<and> inp_faddr (pcb s p) = 0 \<and>
      pcb_inv (pcb_upd p (\<lambda>i. i\<lparr>inp_lport := l\<rparr>) s)" if "pcb_same st s" for s l
  proof -
    have i: "pcb_inv s" by (rule pcb_inv_same[OF assms(1) that])
    have s: "pcbs s = pcbs st" "pcb s p = pcb st p" using that hp by (simp_all add: pcb_same_def)
    have "pcb_inv (pcb_upd p (\<lambda>i. i\<lparr>inp_lport := l\<rparr>) s)"
      by (rule pcb_inv_upd[OF i]) (use assms(2,3) s in \<open>simp_all add: pcb_full_def\<close>)
    then show ?thesis using i s assms(3) by simp
  qed
  obtain s1 r1 where 1: "port_rand NG_PORT_RANDTRIES (pe_entropy e) (inp_laddr (pcb st p)) st = (s1, r1)" by fastforce
  note s1 = port_rand_same[OF 1]
  show ?thesis
  proof (cases r1)
    case (Some l)
    then have "st' = pcb_upd p (\<lambda>i. i\<lparr>inp_lport := l\<rparr>) s1" "l \<noteq> 0" using assms(4) 1 s1 by (auto simp: bind_port_def)
    then show ?thesis using k[of s1 l] s1 by simp
  next
    case None
    obtain s2 r2 where 2: "port_scan NG_PORT_SCANTRIES (inp_laddr (pcb st p)) s1 = (s2, r2)" by fastforce
    have s2: "pcb_same st s2" "r2 \<noteq> Some 0" using port_scan_same[OF 2] s1 pcb_same_trans by blast+
    show ?thesis
    proof (cases r2)
      case (Some l)
      then have "st' = pcb_upd p (\<lambda>i. i\<lparr>inp_lport := l\<rparr>) s2" "l \<noteq> 0" using assms(4) 1 2 None s2 by (auto simp: bind_port_def)
      then show ?thesis using k[OF s2(1), of l] by simp
    next
      case n2: None
      then have "st' = s2" "err \<noteq> 0" using assms(4) 1 2 None by (auto simp: bind_port_def EADDRNOTAVAIL_def)
      then show ?thesis using k[OF s2(1)] by simp
    qed
  qed
qed

lemma pcb_bind_inv:
  assumes "pcb_inv st" "p \<in> set (pcbs st)" "in_pcbbind e p nam st = (st', err)"
  shows "pcb_inv st' \<and> pcbs st' = pcbs st \<and> (err = 0 \<longrightarrow> inp_lport (pcb st' p) \<noteq> 0)"
proof (cases "\<not> pe_anyif e \<or> inp_lport (pcb st p) \<noteq> 0 \<or> inp_laddr (pcb st p) \<noteq> 0")
  case True
  then have "st' = st" "err \<noteq> 0" using assms(3) by (auto simp: in_pcbbind_def EADDRNOTAVAIL_def EINVAL_def split: if_splits)
  then show ?thesis using assms(1) by simp
next
  case False
  then have f: "inp_faddr (pcb st p) = 0" using assms(1,2) by (auto simp: pcb_inv_def)
  have upd: "pcb_inv (pcb_upd p g s)" if "pcb_inv s" "pcbs s = pcbs st" "inp_faddr (g (pcb s p)) = 0" for g s
    by (rule pcb_inv_upd) (use that assms(2) in \<open>simp_all add: pcb_full_def\<close>)
  show ?thesis
  proof (cases nam)
    case None
    then have "bind_port e p st = (st', err)" using assms(3) False by (simp add: in_pcbbind_def)
    then show ?thesis using pcb_bind_port_inv[OF assms(1,2) f] by blast
  next
    case (Some n)
    show ?thesis
    proof (cases n)
      case (Inl u)
      then have "st' = st" "err \<noteq> 0" using assms(3) False Some by (auto simp: in_pcbbind_def EINVAL_def)
      then show ?thesis using assms(1) by simp
    next
      case (Inr al)
      obtain addr lport where al: "al = (addr, lport)" by fastforce
      let ?s = "pcb_upd p (\<lambda>i. i\<lparr>inp_laddr := addr\<rparr>) st"
      have s: "pcb_inv ?s" "pcbs ?s = pcbs st" "inp_faddr (pcb ?s p) = 0" using upd[OF assms(1)] f by simp_all
      have b: "in_pcbbind e p nam st = (let err = bind_named e p addr lport st in if err \<noteq> 0 then (st, err)
          else if lport = 0 then bind_port e p ?s else (pcb_upd p (\<lambda>i. i\<lparr>inp_lport := lport\<rparr>) ?s, 0))"
        using False Some Inr al by (simp add: in_pcbbind_def Let_def)
      consider "st' = st" "err \<noteq> 0" | "bind_port e p ?s = (st', err)"
        | "st' = pcb_upd p (\<lambda>i. i\<lparr>inp_lport := lport\<rparr>) ?s" "lport \<noteq> 0"
        using assms(3) b by (auto simp: Let_def split: if_splits)
      then show ?thesis
      proof cases
        case 2
        then show ?thesis using pcb_bind_port_inv[OF s(1) _ s(3)] s(2) assms(2) by simp
      next
        case 3
        then show ?thesis using upd[OF s(1,2)] s by simp
      qed (use assms(1) in simp)
    qed
  qed
qed

lemma pcb_connect_inv:
  assumes "pcb_inv st" "p \<in> set (pcbs st)" "length (pcbs st) \<le> 2000" "inp_lport (pcb st p) \<noteq> 0"
    "in_pcbconnect e src p fa fp st = (st', err)"
  shows "pcb_inv st'"
proof -
  define la where "la = (if inp_laddr (pcb st p) \<noteq> 0 then inp_laddr (pcb st p) else the src)"
  have c: "in_pcbconnect e src p fa fp st =
      (if fp = 0 \<or> inp_laddr (pcb st p) = 0 \<and> src = None then (st, EADDRNOTAVAIL)
       else if in_pcblookup fa fp la (inp_lport (pcb st p)) False st \<noteq> None then (st, EADDRINUSE)
       else (pcb_upd p (\<lambda>i. i\<lparr>inp_laddr := la, inp_faddr := fa, inp_fport := fp\<rparr>) st, 0))"
    unfolding in_pcbconnect_def Let_def la_def[symmetric] using assms(4) by auto
  consider "st' = st" | "in_pcblookup fa fp la (inp_lport (pcb st p)) False st = None"
      "st' = pcb_upd p (\<lambda>i. i\<lparr>inp_laddr := la, inp_faddr := fa, inp_fport := fp\<rparr>) st"
    using assms(5) unfolding c by (metis prod.inject)
  then show ?thesis
  proof cases
    case 2
    show ?thesis unfolding 2(2)
      by (rule pcb_inv_upd[OF assms(1,2)]) (use assms(4) lookup_none[OF assms(3) 2(1)] in \<open>auto simp: pcb_tuple_def\<close>)
  qed (use assms(1) in simp)
qed

section \<open>Any history of the table\<close>

datatype pcbev = PcbAlloc pcbptr u32 | PcbBind pcbptr pcbenv "(unit + u32 \<times> u16) option" |
  PcbConnect pcbptr pcbenv "u32 option" u32 u16 | PcbAccept pcbptr pcbenv u32 u16 u32 u16 |
  PcbDisconnect pcbptr | PcbClose pcbptr | PcbSegment u32 u16 u32 u16

fun pcb_event :: "pcbev \<Rightarrow> pcbst \<Rightarrow> pcbst" where
  "pcb_event (PcbAlloc p opts) st = in_pcballoc p opts st"
| "pcb_event (PcbBind p e nam) st = fst (in_pcbbind e p nam st)"
| "pcb_event (PcbConnect p e src fa fp) st = fst (tcp_pcbconnect e src p fa fp st)"
| "pcb_event (PcbAccept p e src sport dst dport) st = fst (tcp_pcbaccept e p src sport dst dport st)"
| "pcb_event (PcbDisconnect p) st = in_pcbdisconnect False p st"
| "pcb_event (PcbClose p) st = tcp_unlink p st"
| "pcb_event (PcbSegment src sport dst dport) st = fst (tcp_findpcb src sport dst dport st)"

text \<open>
  A new block is memory that is not in use, the others are in the table; the block of an incoming connection is not
  connected yet and the segment was for a port; the table holds at most 2000 blocks.
\<close>

fun pcb_ev_ok :: "pcbev \<Rightarrow> pcbst \<Rightarrow> bool" where
  "pcb_ev_ok (PcbAlloc p opts) st \<longleftrightarrow> p \<noteq> pcb_head st \<and> p \<notin> set (pcbs st)"
| "pcb_ev_ok (PcbAccept p e src sport dst dport) st \<longleftrightarrow> p \<in> set (pcbs st) \<and> inp_faddr (pcb st p) = 0 \<and> dport \<noteq> 0"
| "pcb_ev_ok (PcbBind p e nam) st \<longleftrightarrow> p \<in> set (pcbs st)"
| "pcb_ev_ok (PcbConnect p e src fa fp) st \<longleftrightarrow> p \<in> set (pcbs st)"
| "pcb_ev_ok (PcbDisconnect p) st \<longleftrightarrow> p \<in> set (pcbs st)"
| "pcb_ev_ok (PcbClose p) st \<longleftrightarrow> p \<in> set (pcbs st)"
| "pcb_ev_ok (PcbSegment src sport dst dport) st \<longleftrightarrow> True"

inductive pcb_reach :: "pcbst \<Rightarrow> bool" where
  start: "pcbs st = [] \<Longrightarrow> last_inpcb st = pcb_head st \<Longrightarrow> inp_faddr (pcb st (pcb_head st)) = 0 \<Longrightarrow> pcb_reach st"
| event: "pcb_reach st \<Longrightarrow> pcb_ev_ok ev st \<Longrightarrow> length (pcbs st) \<le> 2000 \<Longrightarrow> pcb_reach (pcb_event ev st)"

lemma pcb_alloc_inv: "pcb_inv st \<Longrightarrow> p \<noteq> pcb_head st \<Longrightarrow> p \<notin> set (pcbs st) \<Longrightarrow> pcb_inv (in_pcballoc p opts st)"
proof -
  assume a: "pcb_inv st" "p \<noteq> pcb_head st" "p \<notin> set (pcbs st)"
  have full: "pcb_full i" if "pcb_tuple i = pcb_tuple j" "pcb_full j" for i j using that by (auto simp: pcb_full_def pcb_tuple_def)
  have n: "\<not> pcb_full (pcb (in_pcballoc p opts st) p)" by (simp add: in_pcballoc_def pcb_full_def)
  have o: "x \<noteq> p \<Longrightarrow> pcb (in_pcballoc p opts st) x = pcb st x" for x by (simp add: in_pcballoc_def)
  have "pcb_tuple (pcb (in_pcballoc p opts st) x) \<noteq> pcb_tuple (pcb (in_pcballoc p opts st) y)"
    if "x \<in> insert p (set (pcbs st))" "y \<in> insert p (set (pcbs st))" "pcb_full (pcb (in_pcballoc p opts st) x)" "x \<noteq> y" for x y
  proof -
    have x: "x \<noteq> p" using that(3) n by auto
    show ?thesis
    proof (cases "y = p")
      case True
      then show ?thesis using full[OF _ that(3), of "pcb (in_pcballoc p opts st) y"] n by metis
    next
      case False
      then show ?thesis using a(1) that x by (simp add: o pcb_inv_def)
    qed
  qed
  then show ?thesis using a by (auto simp: pcb_inv_def in_pcballoc_def)
qed

lemma pcb_unlink_inv: "pcb_inv st \<Longrightarrow> pcb_inv (tcp_unlink p st)"
  by (auto simp: pcb_inv_def tcp_unlink_def in_pcbdetach_def dest: notin_set_remove1 in_set_remove1[THEN iffD1, rotated] set_remove1_subset[THEN subsetD])

lemma pcb_event_inv:
  assumes "pcb_inv st" "pcb_ev_ok ev st" "length (pcbs st) \<le> 2000"
  shows "pcb_inv (pcb_event ev st)"
proof (cases ev)
  case (PcbBind p e nam)
  then show ?thesis using pcb_bind_inv[OF assms(1), of p e nam] assms(2) by (cases "in_pcbbind e p nam st") simp
next
  case (PcbConnect p e src fa fp)
  have p: "p \<in> set (pcbs st)" using assms(2) PcbConnect by simp
  have c: "pcb_inv (fst (in_pcbconnect e src p fa fp s))" if "pcb_inv s" "pcbs s = pcbs st" "inp_lport (pcb s p) \<noteq> 0" for s
    using pcb_connect_inv[of s p e src fa fp] that p assms(3) by (cases "in_pcbconnect e src p fa fp s") simp
  show ?thesis
  proof (cases "inp_lport (pcb st p) = 0")
    case True
    obtain s err where b: "in_pcbbind e p None st = (s, err)" by fastforce
    note i = pcb_bind_inv[OF assms(1) p b]
    show ?thesis using i c[of s] PcbConnect True b by (cases "err = 0") (simp_all add: tcp_pcbconnect_def)
  next
    case False
    then show ?thesis using c[OF assms(1)] PcbConnect by (simp add: tcp_pcbconnect_def)
  qed
next
  case (PcbAccept p e src sport dst dport)
  let ?s = "pcb_upd p (\<lambda>i. i\<lparr>inp_laddr := dst, inp_lport := dport\<rparr>) st"
  have p: "p \<in> set (pcbs st)" "inp_faddr (pcb st p) = 0" "dport \<noteq> 0" using assms(2) PcbAccept by simp_all
  have s: "pcb_inv ?s" by (rule pcb_inv_upd[OF assms(1) p(1)]) (use p in \<open>simp_all add: pcb_full_def\<close>)
  then show ?thesis using pcb_connect_inv[OF s, of p e None src sport] p assms(3) PcbAccept
    by (cases "in_pcbconnect e None p src sport ?s") (simp add: tcp_pcbaccept_def)
next
  case (PcbDisconnect p)
  then show ?thesis using pcb_inv_upd[OF assms(1), of p "\<lambda>i. i\<lparr>inp_faddr := 0, inp_fport := 0\<rparr>"] assms(2)
    by (simp add: in_pcbdisconnect_def pcb_full_def)
next
  case (PcbSegment src sport dst dport)
  then show ?thesis using assms(1) lookup_member[OF _ assms(3)]
    by (auto simp: tcp_findpcb_def Let_def pcb_inv_def split: option.split)
qed (use assms pcb_alloc_inv pcb_unlink_inv in auto)

lemma pcb_reach_inv: "pcb_reach st \<Longrightarrow> pcb_inv st"
proof (induction rule: pcb_reach.induct)
  case (start st)
  then show ?case by (simp add: pcb_inv_def)
qed (rule pcb_event_inv)


text \<open>A connection comes in, and its next segment.\<close>

definition ex_pcbenv :: pcbenv where
  "ex_pcbenv = \<lparr>pe_anyif = True, pe_ifaddr = (\<lambda>_. True), pe_priv = True, pe_connreq = True, pe_entropy = 1\<rparr>"

definition ex_table :: pcbst where
  "ex_table = ex_pcbs\<lparr>pcbs := []\<rparr>"

definition ex_conns :: pcbst where
  "ex_conns = pcb_event (PcbSegment 2 4000 1 80) (pcb_event (PcbAccept 14 ex_pcbenv 2 4000 1 80) (pcb_event (PcbAlloc 14 0) ex_table))"

lemma ex_conns_eq: "ex_conns = ex_table\<lparr>pcbs := [14], last_inpcb := 14, pcb := (pcb ex_table)(14 := ex_pcb 1 80 2 4000)\<rparr>"
  by (simp add: ex_conns_def ex_table_def ex_pcbs_def ex_pcb_def in_pcballoc_def tcp_pcbaccept_def in_pcbconnect_def
      tcp_findpcb_def in_pcblookup_def pcb_wild_def pcb_upd_def Let_def)


section \<open>Where they are not\<close>

lemma rand_first:
  assumes "length (pcbs st) \<le> 2000" "pcb_head st \<notin> set (pcbs st)" "ng_port_delta en (ng_port_rand st) = (d, x)"
    "\<forall>p\<in>set (pcbs st). pcb_wild 0 0 0 (port_next d (inp_lport (pcb st (pcb_head st)))) (pcb st p) \<noteq> Some 0"
  shows "port_rand (Suc k) en 0 st = (pcb_upd (pcb_head st) (\<lambda>h. h\<lparr>inp_lport := port_next d (inp_lport h)\<rparr>) (st\<lparr>ng_port_rand := x\<rparr>),
    Some (port_next d (inp_lport (pcb st (pcb_head st)))))"
proof -
  let ?s = "pcb_upd (pcb_head st) (\<lambda>h. h\<lparr>inp_lport := port_next d (inp_lport h)\<rparr>) (st\<lparr>ng_port_rand := x\<rparr>)"
  let ?l = "port_next d (inp_lport (pcb st (pcb_head st)))"
  have "in_pcblookup 0 0 0 ?l False ?s = None"
  proof (rule ccontr)
    assume "in_pcblookup 0 0 0 ?l False ?s \<noteq> None"
    then obtain p where p: "in_pcblookup 0 0 0 ?l False ?s = Some p" by blast
    then have "p \<in> set (pcbs st)" "pcb_wild 0 0 0 ?l (pcb ?s p) = Some 0" using lookup_no_wild[OF p] assms(1) by simp_all
    moreover from this(1) have "p \<noteq> pcb_head st" using assms(2) by auto
    ultimately show False using assms(4) by simp
  qed
  then show ?thesis using assms(3) by (simp add: Let_def)
qed

text \<open>C37: the implicit bind of in_pcbconnect can give two connections the same addresses and ports. The
  duplicate check comes before the port is chosen, and the choice of an ephemeral port only avoids ports on
  which an unconnected socket is bound; so when the random port of an unbound socket (UDP's connect)
  is one that a connection to the same peer uses, connect succeeds and both have the same 4-tuple.\<close>

theorem in_pcbconnect_duplicate:
  assumes "distinct (pcb_head st # pcbs st)" "length (pcbs st) \<le> 2000" "n \<in> set (pcbs st)" "q \<in> set (pcbs st)" "n \<noteq> q"
    "pe_anyif e" "fp \<noteq> 0" "inp_laddr (pcb st n) = 0" "inp_lport (pcb st n) = 0"
    "ng_port_delta (pe_entropy e) (ng_port_rand st) = (d, x)"
    "pcb_tuple (pcb st q) = (fa, fp, la, port_next d (inp_lport (pcb st (pcb_head st))))"
    "\<forall>p\<in>set (pcbs st). pcb_wild 0 0 0 (port_next d (inp_lport (pcb st (pcb_head st)))) (pcb st p) \<noteq> Some 0"
    "in_pcblookup fa fp la 0 False st = None"
  shows "\<exists>st'. in_pcbconnect e (Some la) n fa fp st = (st', 0) \<and> pcb_tuple (pcb st' n) = pcb_tuple (pcb st' q)"
proof -
  let ?l = "port_next d (inp_lport (pcb st (pcb_head st)))"
  let ?s = "pcb_upd (pcb_head st) (\<lambda>h. h\<lparr>inp_lport := port_next d (inp_lport h)\<rparr>) (st\<lparr>ng_port_rand := x\<rparr>)"
  have h: "pcb_head st \<noteq> n" "pcb_head st \<noteq> q" "pcb_head st \<notin> set (pcbs st)" using assms(1,3,4) by auto
  have "NG_PORT_RANDTRIES = Suc 31" by (simp add: NG_PORT_RANDTRIES_def)
  then have "port_rand NG_PORT_RANDTRIES (pe_entropy e) 0 st = (?s, Some ?l)"
    using rand_first[OF assms(2) h(3) assms(10,12), of 31] by simp
  then have b: "in_pcbbind e n None st = (pcb_upd n (\<lambda>i. i\<lparr>inp_lport := ?l\<rparr>) ?s, 0)"
    using assms(6,8,9) by (simp add: in_pcbbind_def bind_port_def)
  have c: "in_pcbconnect e (Some la) n fa fp st =
      (pcb_upd n (\<lambda>i. i\<lparr>inp_laddr := la, inp_faddr := fa, inp_fport := fp\<rparr>) (pcb_upd n (\<lambda>i. i\<lparr>inp_lport := ?l\<rparr>) ?s), 0)"
    using assms(7-9,13) b by (simp add: in_pcbconnect_def Let_def)
  show ?thesis unfolding c using h assms(5,11) by (simp add: pcb_tuple_def)
qed

definition ex_udp :: pcbst where
  "ex_udp = ex_pcbs\<lparr>pcb := (pcb ex_pcbs)(12 := ex_pcb 0 0 0 0, 13 := ex_pcb 1 57377 2 53)\<rparr>"

theorem in_pcbconnect_duplicate_witness:
  "\<exists>st'. in_pcbconnect ex_pcbenv (Some 1) 12 2 53 ex_udp = (st', 0) \<and> pcb_tuple (pcb st' 12) = pcb_tuple (pcb st' 13)"
proof -
  have d: "ng_port_delta (pe_entropy ex_pcbenv) (ng_port_rand ex_udp) = (0x2021, 0x42021)"
    by (simp add: ng_port_delta_def xorshift_def ex_udp_def ex_pcbs_def NG_PORT_SPAN_def)
  have p: "port_next 0x2021 (inp_lport (pcb ex_udp (pcb_head ex_udp))) = 57377"
    by (simp add: port_next_def ex_udp_def ex_pcbs_def ex_pcb_def IPPORT_ANONMIN_def NG_PORT_SPAN_def)
  show ?thesis
    by (rule in_pcbconnect_duplicate[of ex_udp 12 13 ex_pcbenv 53 "0x2021" "0x42021" 2 1, unfolded p, OF _ _ _ _ _ _ _ _ _ d])
      (simp_all add: ex_udp_def ex_pcbs_def ex_pcb_def ex_pcbenv_def pcb_tuple_def pcb_wild_def in_pcblookup_def)
qed

end
