(* ===== verification/Udp_Input.thy ===== *)
theory Udp_Input
  imports Udp_Chain In_Pcb_Correct
begin

text \<open>
  What \<open>udp_input\<close> does with a datagram, told on its bytes: which datagrams it drops, to which socket
  the others go, and what the socket receives.
\<close>

section \<open>The datagram that comes in\<close>

text \<open>What \<open>ipintr\<close> has established: the header is in the first mbuf, the lengths agree.\<close>

definition udp_wf :: "nat \<Rightarrow> int \<Rightarrow> vmbuf list \<Rightarrow> bool" where
  "udp_wf iphlen plen m \<longleftrightarrow> m \<noteq> [] \<and> 20 \<le> iphlen \<and> iphlen \<le> length (hdr_of m) \<and> plen = int (length (vbytes m)) \<and>
     uh_iplen (vbytes m) = int (length (vbytes m)) - int iphlen"

text \<open>Its bytes without the options.\<close>

definition udp_bytes :: "nat \<Rightarrow> u8 list \<Rightarrow> u8 list" where
  "udp_bytes iphlen b = (if iphlen > 20 then wr 0 [(b ! 0 AND 0xF0) OR 5] (take 20 b @ drop iphlen b) else b)"

text \<open>The tests that a datagram must pass.\<close>

definition udp_good :: "bool \<Rightarrow> u8 list \<Rightarrow> bool" where
  "udp_good ck D \<longleftrightarrow> 28 \<le> length D \<and> 8 \<le> uh_ulen D \<and> unat (uh_ulen D) + 20 \<le> length D \<and>
     (ck \<and> uh_sum D \<noteq> 0 \<longrightarrow> ones_fold (wsum (take (unat (uh_ulen D) + 20) (udp_overlay D))) = 65535)"

definition udp_data :: "u8 list \<Rightarrow> u8 list" where
  "udp_data D = drop 28 (take (unat (uh_ulen D) + 20) D)"

lemma wr_first: "d \<noteq> [] \<Longrightarrow> wr 0 [x] (d @ r) = wr 0 [x] d @ r"
  by (cases d) (simp_all add: wr_def)

lemma stripopts_bytes:
  assumes "m \<noteq> []" "20 \<le> iphlen" "iphlen \<le> length (hdr_of m)"
  shows "vbytes (vm_stripopts iphlen m) = wr 0 [(vbytes m ! 0 AND 0xF0) OR 5] (take 20 (vbytes m) @ drop iphlen (vbytes m))"
    "vm_stripopts iphlen m \<noteq> []"
proof -
  obtain a as where m: "m = a # as" using assms(1) by (cases m) auto
  have l: "iphlen \<le> length (vm_data a)" using assms(3) m by simp
  then have "vbytes m ! 0 = vm_data a ! 0" using assms(2) m by (auto simp: nth_append)
  then show "vbytes (vm_stripopts iphlen m) = wr 0 [(vbytes m ! 0 AND 0xF0) OR 5] (take 20 (vbytes m) @ drop iphlen (vbytes m))"
    using l assms(2) m by (simp add: vm_stripopts_def Let_def wr_def)
  show "vm_stripopts iphlen m \<noteq> []" using m by (simp add: vm_stripopts_def Let_def)
qed

lemma udp_bytes_ok:
  assumes "udp_wf iphlen plen m"
  defines "D \<equiv> udp_bytes iphlen (vbytes m)" and "m1 \<equiv> if iphlen > 20 then vm_stripopts iphlen m else m"
  shows "vbytes m1 = D" "m1 \<noteq> []" "int (length D) = plen - int (iphlen - 20)" "uh_iplen D = int (length D) - 20" "20 \<le> length D"
proof -
  note w = assms(1)[unfolded udp_wf_def]
  have l: "iphlen \<le> length (vbytes m)" using w by (simp add: vbytes_hdr)
  show "vbytes m1 = D" "m1 \<noteq> []" using w stripopts_bytes[of m iphlen] by (auto simp: m1_def D_def udp_bytes_def)
  have n: "length D = length (vbytes m) - (iphlen - 20)" using w l by (auto simp: D_def udp_bytes_def wr_def)
  then show "int (length D) = plen - int (iphlen - 20)" "20 \<le> length D" using w l by auto
  have "rd16 D 2 = rd16 (vbytes m) 2"
    by (rule rd_cong(1)) (use w l in \<open>auto simp: D_def udp_bytes_def wr_def nth_append\<close>)
  then show "uh_iplen D = int (length D) - 20" using w l n by (simp add: uh_iplen_def)
qed

section \<open>Trimming\<close>

lemma adj_hdr:
  assumes "m \<noteq> []" "0 < n" "n \<le> length (vbytes m)"
  shows "hdr_of (vm_adj (- int n) m) = take (length (vbytes m) - n) (hdr_of m)" "vm_adj (- int n) m \<noteq> []"
proof -
  obtain a as where m: "m = a # as" using assms(1) by (cases m) auto
  have s: "sum_list (map vm_len m) = length (vbytes m)" by (simp add: length_vbytes)
  have e: "vm_adj (- int n) m = (if vm_len (last m) \<ge> n then butlast m @ [vm_cut (vm_len (last m) - n) (last m)]
      else vm_keep (length (vbytes m) - n) m)"
    using assms(1,2) s by (simp add: vm_adj_def Let_def)
  show "hdr_of (vm_adj (- int n) m) = take (length (vbytes m) - n) (hdr_of m)"
  proof (cases "vm_len (last m) \<ge> n \<and> as \<noteq> []")
    case True
    then have "vbytes m = vm_data a @ vbytes (butlast as) @ vm_data (last as)"
      using m append_butlast_last_id[of as] by (metis vbytes_simps append_Nil2)
    then have "length (vm_data a) \<le> length (vbytes m) - n" using True m by (auto simp: vm_len_def)
    moreover have "vm_adj (- int n) m = a # butlast as @ [vm_cut (vm_len (last m) - n) (last m)]" using e True m by auto
    ultimately show ?thesis using m by simp
  next
    case False
    show ?thesis
    proof (cases "vm_len (last m) \<ge> n")
      case True
      then have o: "as = []" using False by blast
      have "vm_adj (- int n) m = [vm_cut (vm_len a - n) a]" unfolding e if_P[OF True] unfolding m o by simp
      then show ?thesis unfolding m o by (simp add: vm_cut_def vm_len_def)
    next
      case False
      then have k: "vm_adj (- int n) m = vm_keep (length (vbytes m) - n) m" using e by simp
      show ?thesis unfolding k by (simp add: m vm_cut_def vm_len_def)
    qed
  qed
  show "vm_adj (- int n) m \<noteq> []" using e m by auto
qed

lemma adj_plen_ge: "int (length (vbytes m)) \<le> plen \<Longrightarrow> n \<le> length (vbytes m) \<Longrightarrow>
    int (length (vbytes m) - n) \<le> adj_plen n m plen"
  by (auto simp: adj_plen_def length_vbytes)

section \<open>The checksum\<close>

lemma verify_ok:
  assumes "m \<noteq> []" "28 \<le> length (hdr_of m)" "length (vbytes m) = len + 20" "len + 20 \<le> 65535"
  shows "udp_verify e len m =
    (if ud_cksum e \<and> uh_sum (vbytes m) \<noteq> 0
     then (if ones_fold (wsum (udp_overlay (vbytes m))) = 65535 then Some (fst_upd (udp_tested 0) m) else None)
     else Some m)"
proof -
  have t: "take 28 (hdr_of m) = take 28 (vbytes m)" using hdr_cong[OF assms(1,2)] .
  have h: "uh_sum (hdr_of m) = uh_sum (vbytes m)" by (rule fields_cong(7)[OF t])
  have b: "vbytes (fst_upd udp_overlay m) = udp_overlay (vbytes m)"
    using assms(1,2) by (intro vbytes_fst_upd overlay_append) simp_all
  have l: "length (udp_overlay (vbytes m)) = len + 20" using assms(3) assms(2) by (simp add: length_overlay)
  have c: "unat (in_cksum (ck_chain (ud_odd e) (fst_upd udp_overlay m)) (len + 20)) =
      65535 - ones_fold (wsum (udp_overlay (vbytes m)))"
    unfolding in_cksum_conv[OF assms(4)] ck_chain_bytes b using l by simp
  then have u: "unat (in_cksum (ck_chain (ud_odd e) (fst_upd udp_overlay m)) (len + 20)) \<le> 65535" by simp
  have z: "ucast (in_cksum (ck_chain (ud_odd e) (fst_upd udp_overlay m)) (len + 20)) = (0 :: u16) \<longleftrightarrow>
      ones_fold (wsum (udp_overlay (vbytes m))) = 65535"
  proof -
    have "ucast x = (0 :: u16) \<longleftrightarrow> unat x = 0" if "unat x \<le> 65535" for x :: u32
    proof -
      have "unat (ucast x :: u16) = unat x" using that by (simp add: unsigned_ucast_eq take_bit_nat_eq_self)
      then show ?thesis unfolding unat_eq_zero[symmetric, of "ucast x :: u16"] by simp
    qed
    from this[OF u] show ?thesis using c ones_fold_le[of "wsum (udp_overlay (vbytes m))"] by auto
  qed
  show ?thesis unfolding udp_verify_def h Let_def udp_tested_def z[symmetric] by auto
qed

section \<open>Dropped or delivered\<close>

text \<open>A header with the same ends.\<close>

definition same_ends :: "u8 list \<Rightarrow> u8 list \<Rightarrow> bool" where
  "same_ends h D \<longleftrightarrow> uh_src h = uh_src D \<and> uh_dst h = uh_dst D \<and> uh_sport h = uh_sport D \<and> uh_dport h = uh_dport D"

text \<open>The chain that is delivered: stripped, it is the data; \<open>plen\<close> is at least its length.\<close>

definition udp_ready :: "u8 list \<Rightarrow> int \<Rightarrow> vmbuf list \<Rightarrow> bool" where
  "udp_ready D plen m \<longleftrightarrow> m \<noteq> [] \<and> 28 \<le> length (hdr_of m) \<and> same_ends (hdr_of m) D \<and> vbytes (vm_strip 28 m) = udp_data D \<and>
     int (length (udp_data D)) + 28 \<le> plen \<and> (unat (uh_ulen D) + 20 = length D \<longrightarrow> plen = int (length D))"

definition udp_deliver ::
  "udpenv \<Rightarrow> bool \<Rightarrow> u8 list \<Rightarrow> int \<Rightarrow> vmbuf list \<Rightarrow> udpst \<Rightarrow> upanic + udpst \<times> vmbuf list option" where
  "udp_deliver e bcast save plen m st =
     (if bcast then map_sum id (\<lambda>s. (s, None)) (udp_bcast e plen m st) else udp_unicast e save plen m st)"

definition arrived :: "udpst \<Rightarrow> udpst" where
  "arrived st = tally (\<lambda>u. u\<lparr>udps_ipackets := udps_ipackets u + 1\<rparr>) st"

lemma tested_hdr:
  assumes "28 \<le> length (hdr_of m)" "m \<noteq> []"
  shows "same_ends (hdr_of (fst_upd (udp_tested 0) m)) (vbytes m)" "vbytes (vm_strip 28 (fst_upd (udp_tested 0) m)) = drop 28 (vbytes m)"
    "28 \<le> length (hdr_of (fst_upd (udp_tested 0) m))" "length (vbytes (fst_upd (udp_tested 0) m)) = length (vbytes m)"
proof -
  have h: "hdr_of (fst_upd (udp_tested 0) m) = udp_tested 0 (hdr_of m)" using assms(2) by simp
  have t: "take 28 (hdr_of m) = take 28 (vbytes m)" using hdr_cong[OF assms(2,1)] .
  note f = tested_fields[OF assms(1), of 0] fields_cong(2-5)[OF t]
  show "same_ends (hdr_of (fst_upd (udp_tested 0) m)) (vbytes m)" unfolding h same_ends_def using f by simp
  show l: "28 \<le> length (hdr_of (fst_upd (udp_tested 0) m))" unfolding h using f(6) assms(1) by simp
  have b: "vbytes (fst_upd (udp_tested 0) m) = udp_tested 0 (hdr_of m) @ vbytes (tl m)" using assms(2) by (cases m) simp_all
  show "vbytes (vm_strip 28 (fst_upd (udp_tested 0) m)) = drop 28 (vbytes m)"
    unfolding vbytes_strip[OF l] b vbytes_hdr[OF assms(2)] using f(5,6) assms(1) by simp
  show "length (vbytes (fst_upd (udp_tested 0) m)) = length (vbytes m)"
    unfolding b vbytes_hdr[OF assms(2)] using f(6) by simp
qed

lemma plain_hdr:
  assumes "28 \<le> length (hdr_of m)" "m \<noteq> []"
  shows "same_ends (hdr_of m) (vbytes m)" "vbytes (vm_strip 28 m) = drop 28 (vbytes m)"
  using fields_cong(2-5)[OF hdr_cong[OF assms(2,1)]] vbytes_strip[OF assms(1)] by (simp_all add: same_ends_def)

text \<open>The tests on a chain with the headers in front.\<close>

lemma checked_cases:
  assumes "m \<noteq> []" "28 \<le> length (hdr_of m)" "uh_iplen (vbytes m) = int (length (vbytes m)) - 20" "plen = int (length (vbytes m))"
  defines "D \<equiv> vbytes m"
  shows "if udp_good (ud_cksum e) D
    then \<exists>m2 plen2. udp_checked e bcast plen m st = udp_deliver e bcast (take 20 D) plen2 m2 st \<and> udp_ready D plen2 m2
    else \<exists>f. udp_checked e bcast plen m st = Inr (tally f st, None)"
proof -
  define d where "d = hdr_of m"
  define len where "len = unat (uh_ulen D)"
  have t: "take 28 d = take 28 D" unfolding d_def D_def using hdr_cong[OF assms(1,2)] .
  note f = fields_cong[OF t]
  have L: "28 \<le> length D" using assms(1,2) by (simp add: D_def vbytes_hdr)
  have il: "uh_iplen d = int (length D) - 20" using f(1) assms(3) by (simp add: D_def)
  have lb: "length D \<le> 32787" using assms(3) sint_lt[of "rd16 D 2"] by (simp add: D_def uh_iplen_def)
  have w8: "8 \<le> uh_ulen D \<longleftrightarrow> 8 \<le> len" by (simp add: len_def word_le_nat_alt)
  define n where "n = length D - (len + 20)"
  define m1 where "m1 = (if n \<noteq> 0 then vm_adj (- int n) m else m)"
  define plen1 where "plen1 = (if n \<noteq> 0 then adj_plen n m plen else plen)"
  have c: "udp_checked e bcast plen m st =
      (if int len > uh_iplen d \<or> len < 8 then Inr (tally (\<lambda>u. u\<lparr>udps_badlen := udps_badlen u + 1\<rparr>) st, None)
       else case udp_verify e len m1 of
             None \<Rightarrow> Inr (tally (\<lambda>u. u\<lparr>udps_badsum := udps_badsum u + 1\<rparr>) st, None)
           | Some m2 \<Rightarrow> udp_deliver e bcast (take 20 (hdr_of m1)) plen1 m2 st)"
  proof -
    have nn: "nat (uh_iplen d - int len) = n" using il by (simp add: n_def)
    show ?thesis unfolding udp_checked_def d_def[symmetric] Let_def f(6) len_def[symmetric] nn m1_def plen1_def udp_deliver_def ..
  qed
  show ?thesis
  proof (cases "int len > uh_iplen d \<or> len < 8")
    case True
    then have "\<not> udp_good (ud_cksum e) D" using il w8 by (auto simp: udp_good_def len_def[symmetric])
    then show ?thesis unfolding c if_P[OF True] by auto
  next
    case False
    then have len: "8 \<le> len" "len + 20 \<le> length D" using il by auto
    have m1: "m1 \<noteq> []" "hdr_of m1 = take (len + 20) d" "vbytes m1 = take (len + 20) D"
      using adj_hdr[OF assms(1), of n] vm_adj_tail[of n m] assms(1) len L
      by (auto simp: m1_def n_def D_def d_def vbytes_hdr)
    have h1: "28 \<le> length (hdr_of m1)" using m1(2) assms(2) len by (simp add: d_def)
    have l1: "length (vbytes m1) = len + 20" using m1(3) len by simp
    have t1: "take 28 (vbytes m1) = take 28 D" using m1(3) len by (simp add: min_def)
    have s20: "take 20 (hdr_of m1) = take 20 D"
      using m1(2) arg_cong[OF t, of "take 20"] len by (simp add: min_def)
    have o: "udp_overlay (vbytes m1) = take (len + 20) (udp_overlay D)"
      using len fields_cong(6)[OF t1] by (simp add: m1(3) udp_overlay_def drop_take take_Cons')
    have p1: "int (len + 20) \<le> plen1" "len + 20 = length D \<longrightarrow> plen1 = int (length D)"
      using adj_plen_ge[of m plen n] assms(4) len by (auto simp: plen1_def n_def D_def)
    have dd: "drop 28 (vbytes m1) = udp_data D" using m1(3) by (simp add: udp_data_def len_def)
    have ends: "same_ends h (vbytes m1) \<Longrightarrow> same_ends h D" for h using fields_cong(2-5)[OF t1] by (simp add: same_ends_def)
    have dl: "int (length (udp_data D)) + 28 = int (len + 20)" using len by (simp add: udp_data_def len_def[symmetric])
    have g: "udp_good (ud_cksum e) D \<longleftrightarrow>
        (ud_cksum e \<and> uh_sum D \<noteq> 0 \<longrightarrow> ones_fold (wsum (udp_overlay (vbytes m1))) = 65535)"
      using L len w8 o by (simp add: udp_good_def len_def[symmetric])
    have v: "udp_verify e len m1 = (if ud_cksum e \<and> uh_sum D \<noteq> 0
        then (if ones_fold (wsum (udp_overlay (vbytes m1))) = 65535 then Some (fst_upd (udp_tested 0) m1) else None) else Some m1)"
      using verify_ok[OF m1(1) h1 l1, of e] fields_cong(7)[OF t1] len lb by simp
    have r: "udp_ready D plen1 m1" "udp_ready D plen1 (fst_upd (udp_tested 0) m1)"
      using plain_hdr[OF h1 m1(1)] tested_hdr[OF h1 m1(1)] h1 m1(1) p1 dl ends
      by (auto simp: udp_ready_def dd len_def[symmetric])
    show ?thesis unfolding c if_not_P[OF False] v s20 g using r by auto
  qed
qed

text \<open>
  \<open>udp_input\<close>: a datagram that fails a test, or for which \<open>m_pullup\<close> finds no mbuf, leaves nothing
  but a counter.
\<close>

lemma udp_input_cases:
  assumes "udp_wf iphlen plen m"
  defines "D \<equiv> udp_bytes iphlen (vbytes m)"
  obtains (drop) f where "udp_input e bcast iphlen plen m st = Some (Inr (tally f st, None))" "\<not> (udp_good (ud_cksum e) D \<and> ud_pull e)"
    | (deliver) m2 plen2 where "udp_good (ud_cksum e) D" "udp_ready D plen2 m2"
      "udp_input e bcast iphlen plen m st = Some (udp_deliver e bcast (take 20 D) plen2 m2 (arrived st))"
proof -
  define m1 where "m1 = (if iphlen > 20 then vm_stripopts iphlen m else m)"
  define plen1 where "plen1 = (if iphlen > 20 then plen - int (iphlen - 20) else plen)"
  note b = udp_bytes_ok[OF assms(1), folded D_def m1_def]
  have p1: "plen1 = int (length D)" using b(3) by (simp add: plen1_def)
  have i: "udp_input e bcast iphlen plen m st = map_option (\<lambda>r. case r of
             None \<Rightarrow> Inr (tally (\<lambda>u. u\<lparr>udps_hdrops := udps_hdrops u + 1\<rparr>) (arrived st), None)
           | Some m2 \<Rightarrow> udp_checked e bcast plen1 m2 (arrived st))
           (if length (hdr_of m1) < 28 then vm_pullup (ud_pull e) (ud_protohdr e) 28 m1 else Some (Some m1))"
    unfolding udp_input_def Let_def m1_def plen1_def arrived_def ..
  obtain r where r: "(if length (hdr_of m1) < 28 then vm_pullup (ud_pull e) (ud_protohdr e) 28 m1 else Some (Some m1)) = Some r"
    "case r of None \<Rightarrow> \<not> ud_pull e \<or> length D < 28 | Some m' \<Rightarrow> m' \<noteq> [] \<and> vbytes m' = D \<and> 28 \<le> length (hdr_of m')"
  proof (cases "length (hdr_of m1) < 28")
    case True
    then show ?thesis using vm_pullup_ok[OF b(2), of 28 "ud_pull e" "ud_protohdr e"] that b(1)
      by (auto simp: MHLEN_def split: option.splits)
  next
    case False
    then show ?thesis using that[of "Some m1"] b(1,2) by simp
  qed
  have tt: "tally f (arrived st) = tally (f \<circ> (\<lambda>u. u\<lparr>udps_ipackets := udps_ipackets u + 1\<rparr>)) st" for f
    by (simp add: tally_def arrived_def)
  show thesis
  proof (cases r)
    case None
    then have ng: "\<not> (udp_good (ud_cksum e) D \<and> ud_pull e)" using r(2) by (auto simp: udp_good_def)
    show thesis using drop[OF _ ng] i r(1) None by (simp add: tt)
  next
    case (Some m')
    then have m': "m' \<noteq> []" "vbytes m' = D" "28 \<le> length (hdr_of m')" using r(2) by simp_all
    have k: "udp_input e bcast iphlen plen m st = Some (udp_checked e bcast plen1 m' (arrived st))" using i r(1) Some by simp
    have q: "uh_iplen (vbytes m') = int (length (vbytes m')) - 20" "plen1 = int (length (vbytes m'))" using b(4) p1 m'(2) by simp_all
    note c = checked_cases[OF m'(1,3) q, of e bcast "arrived st", unfolded m'(2)]
    show thesis
    proof (cases "udp_good (ud_cksum e) D")
      case True
      then show thesis using c deliver k by auto
    next
      case False
      then show thesis using c drop k by (auto simp: tt)
    qed
  qed
qed

end
