(* ===== verification/Udp_Correct.thy ===== *)
theory Udp_Correct
  imports Udp_Input
begin

text \<open>
  The socket of a datagram and what it receives; the copies of a broadcast; and the one datagram for
  which \<open>udp_input\<close> follows a null pointer.
\<close>

section \<open>Receiving\<close>

text \<open>A receive buffer with one more record of these bytes.\<close>

definition gained :: "u8 list \<Rightarrow> sbuf \<Rightarrow> sbuf \<Rightarrow> bool" where
  "gained bs s s' \<longleftrightarrow> sbcheck s' \<and> same_limits (fst s) (fst s') \<and>
     (\<exists>r. snd s' = snd s @ [r] \<and> vbytes r = bs \<and> vm_type (hd r) = MT_SONAME)"

text \<open>The socket of \<open>p\<close> alone has gained a record, and its reader has been woken.\<close>

definition got :: "pcbptr \<Rightarrow> u8 list \<Rightarrow> udpst \<Rightarrow> udpst \<Rightarrow> bool" where
  "got p bs st st' \<longleftrightarrow> calls st' = calls st @ [Sorwakeup p] \<and> (\<forall>q. q \<noteq> p \<longrightarrow> so_rcv st' q = so_rcv st q) \<and>
     gained bs (so_rcv st p) (so_rcv st' p)"

definition missed :: "udpst \<Rightarrow> udpst \<Rightarrow> bool" where
  "missed st st' \<longleftrightarrow> calls st' = calls st \<and> so_rcv st' = so_rcv st"

text \<open>There is an mbuf for the address and room for the address and \<open>n\<close> bytes more.\<close>

definition room :: "udpenv \<Rightarrow> pcbptr \<Rightarrow> int \<Rightarrow> udpst \<Rightarrow> bool" where
  "room e p n st \<longleftrightarrow> ud_name e p \<and> 16 + n \<le> sbspace (fst (so_rcv st p))"

lemma length_udp_in [simp]: "length (udp_in d) = 16"
  by (simp add: udp_in_def)

lemma tally_sel [simp]:
  "udb (tally f st) = udb st" "so_rcv (tally f st) = so_rcv st" "inp_flags (tally f st) = inp_flags st" "calls (tally f st) = calls st"
  "udb (arrived st) = udb st" "so_rcv (arrived st) = so_rcv st" "inp_flags (arrived st) = inp_flags st" "calls (arrived st) = calls st"
  "udb (so_call c st) = udb st" "so_rcv (so_call c st) = so_rcv st" "inp_flags (so_call c st) = inp_flags st"
  "calls (so_call c st) = calls st @ [c]"
  by (simp_all add: tally_def arrived_def so_call_def)

lemma udp_append_ok:
  assumes "sbcheck (so_rcv st p)" "m \<noteq> []" "int (length (vbytes m)) \<le> plen"
  shows "\<exists>st'. udp_append e p (udp_in d) plen m opts st = Inr st' \<and> udb st' = udb st \<and> inp_flags st' = inp_flags st \<and>
    (got p (udp_in d @ vbytes opts @ vbytes m) st st' \<or> missed st st' \<and> \<not> room e p (int (length (vbytes opts)) + plen) st)"
proof -
  let ?r = "sbappendaddr (ud_name e p) (udp_in d) (Some plen) m opts (so_rcv st p)"
  obtain sb recs where s: "so_rcv st p = (sb, recs)" by fastforce
  have "\<exists>x. ?r = Inr x" using assms(2) unfolding sbappendaddr_def s prod.case Let_def by auto
  then obtain s ok where r: "?r = Inr (s, ok)" by auto
  have h: "m \<noteq> [] \<longrightarrow> (\<exists>h. Some plen = Some h \<and> int (length (vbytes m)) \<le> h)" using assms(3) by simp
  note A = sbappendaddr_ok[OF assms(1) r h]
  show ?thesis
  proof (cases ok)
    case True
    then show ?thesis using A(1,2) A(4)[OF True] r
      by (auto simp: udp_append_def got_def gained_def)
  next
    case False
    have "\<not> room e p (int (length (vbytes opts)) + plen) st"
    proof
      assume "room e p (int (length (vbytes opts)) + plen) st"
      then have "ok" using r assms(2)
        by (auto simp: sbappendaddr_def Let_def room_def length_vbytes MLEN_def split: prod.splits)
      then show False using False by simp
    qed
    then show ?thesis using r False by (auto simp: udp_append_def missed_def)
  qed
qed

section \<open>The block of a datagram\<close>

definition udp_wild :: "u8 list \<Rightarrow> udpst \<Rightarrow> pcbptr \<Rightarrow> nat option" where
  "udp_wild D st p = pcb_wild (uh_src D) (uh_sport D) (uh_dst D) (uh_dport D) (pcb (udb st) p)"

text \<open>No other block fits better.\<close>

definition udp_best :: "u8 list \<Rightarrow> udpst \<Rightarrow> pcbptr \<Rightarrow> bool" where
  "udp_best D st p \<longleftrightarrow> p \<in> set (pcbs (udb st)) \<and> udp_wild D st p \<noteq> None \<and>
     (\<forall>q\<in>set (pcbs (udb st)). udp_wild D st q \<noteq> None \<longrightarrow> the (udp_wild D st p) \<le> the (udp_wild D st q))"

text \<open>The table: only the head has no socket, it is not connected, and the buffers are consistent.\<close>

definition udp_table :: "udpst \<Rightarrow> bool" where
  "udp_table st \<longleftrightarrow> (let t = udb st in
     length (pcbs t) \<le> 2000 \<and> distinct (pcb_head t # pcbs t) \<and> last_inpcb t \<in> insert (pcb_head t) (set (pcbs t)) \<and>
     \<not> inp_socket (pcb t (pcb_head t)) \<and> inp_faddr (pcb t (pcb_head t)) = 0 \<and>
     (\<forall>p\<in>set (pcbs t). inp_socket (pcb t p) \<and> sbcheck (so_rcv st p)))"

lemma findpcb_ends: "same_ends h D \<Longrightarrow> udp_findpcb h st = udp_findpcb D st"
  by (simp add: udp_findpcb_def same_ends_def Let_def)

text \<open>The datagram that the head of the table fits.\<close>

definition for_head :: "u8 list \<Rightarrow> udpst \<Rightarrow> bool" where
  "for_head D st \<longleftrightarrow> last_inpcb (udb st) = pcb_head (udb st) \<and>
     pcb_tuple (pcb (udb st) (pcb_head (udb st))) = (uh_src D, uh_sport D, uh_dst D, uh_dport D)"

lemma findpcb_cases:
  assumes "udp_table st" "udp_findpcb D st = (st', r)"
  shows "so_rcv st' = so_rcv st" "calls st' = calls st" "inp_flags st' = inp_flags st" "pcb (udb st') = pcb (udb st)"
    "case r of None \<Rightarrow> \<forall>q\<in>set (pcbs (udb st)). udp_wild D st q = None
     | Some p \<Rightarrow> if for_head D st then p = pcb_head (udb st) else udp_best D st p"
proof -
  let ?t = "udb st"
  let ?c = "last_inpcb ?t"
  have "so_rcv st' = so_rcv st \<and> calls st' = calls st \<and> inp_flags st' = inp_flags st \<and> pcb (udb st') = pcb ?t \<and>
    (case r of None \<Rightarrow> \<forall>q\<in>set (pcbs ?t). udp_wild D st q = None
     | Some p \<Rightarrow> if for_head D st then p = pcb_head ?t else udp_best D st p)"
  proof (cases "pcb_tuple (pcb ?t ?c) = (uh_src D, uh_sport D, uh_dst D, uh_dport D)")
    case True
    then have r: "st' = st" "r = Some ?c" using assms(2) by (auto simp: udp_findpcb_def pcb_tuple_def Let_def)
    have w: "udp_wild D st ?c = Some 0" unfolding udp_wild_def by (rule wild_exact[OF True])
    show ?thesis
    proof (cases "?c = pcb_head ?t")
      case h: True
      then have "for_head D st" using True by (simp add: for_head_def)
      then show ?thesis using r h by simp
    next
      case h: False
      then have "?c \<in> set (pcbs ?t)" using assms(1) by (auto simp: udp_table_def Let_def)
      then show ?thesis using r w h by (simp add: udp_best_def for_head_def)
    qed
  next
    case False
    then have n: "\<not> for_head D st" by (auto simp: for_head_def)
    have l: "length (pcbs ?t) \<le> 2000" using assms(1) by (simp add: udp_table_def Let_def)
    let ?l = "in_pcblookup (uh_src D) (uh_sport D) (uh_dst D) (uh_dport D) True ?t"
    have e: "so_rcv st' = so_rcv st" "calls st' = calls st" "inp_flags st' = inp_flags st" "pcb (udb st') = pcb ?t" "r = ?l"
      using False assms(2) by (auto simp: udp_findpcb_def pcb_tuple_def Let_def split: option.splits)
    have "case ?l of None \<Rightarrow> \<forall>q\<in>set (pcbs ?t). udp_wild D st q = None | Some p \<Rightarrow> udp_best D st p"
      using lookup_best[OF l, of "uh_src D" "uh_sport D" "uh_dst D" "uh_dport D" True]
      by (fastforce simp: pcb_best_def pcb_cand_def udp_best_def udp_wild_def split: option.splits)
    then show ?thesis using e n by (auto split: option.splits)
  qed
  then show "so_rcv st' = so_rcv st" "calls st' = calls st" "inp_flags st' = inp_flags st" "pcb (udb st') = pcb ?t"
    "case r of None \<Rightarrow> \<forall>q\<in>set (pcbs ?t). udp_wild D st q = None
     | Some p \<Rightarrow> if for_head D st then p = pcb_head ?t else udp_best D st p" by blast+
qed

section \<open>A datagram for this host\<close>

text \<open>The control data that comes with it.\<close>

definition udp_ctl :: "udpenv \<Rightarrow> u32 \<Rightarrow> u8 list \<Rightarrow> u8 list" where
  "udp_ctl e fl D = vbytes (if fl AND INP_CONTROLOPTS \<noteq> 0 \<and> fl AND INP_RECVDSTADDR \<noteq> 0
     then udp_saveopt (ud_opt e) (b32 (uh_dst D)) IP_RECVDSTADDR else [])"

text \<open>The packet that is sent back: the IP header as it came, with its own length added again.\<close>

definition returned :: "u8 list \<Rightarrow> vmbuf list \<Rightarrow> bool" where
  "returned D c \<longleftrightarrow> take 20 (vbytes c) = wr 2 (b16 (rd16 D 2 + 20)) (take 20 D) \<and> drop 28 (vbytes c) = udp_data D"

lemma same_ends_in: "same_ends h D \<Longrightarrow> udp_in h = udp_in D"
  by (simp add: udp_in_def same_ends_def)

lemma returned_ok:
  assumes "udp_ready D plen m" "20 \<le> length D"
  shows "returned D (fst_upd (\<lambda>x. wr 2 (b16 (rd16 (take 20 D) 2 + 20)) (wr 0 (take 20 D) x)) m)"
proof -
  have m: "m \<noteq> []" "28 \<le> length (hdr_of m)" using assms(1) by (simp_all add: udp_ready_def)
  have d: "drop 28 (vbytes m) = udp_data D" using assms(1) vbytes_strip[of 28 m] by (simp add: udp_ready_def)
  obtain a as where a: "m = a # as" using m(1) by (cases m) auto
  have "wr 2 b (wr 0 (take 20 D) x) = wr 2 b (take 20 D) @ drop 20 x" if "length b = 2" for b x
    using assms(2) that by (simp add: wr_def)
  moreover have "length (wr 2 b (take 20 D)) = 20" if "length b = 2" for b using assms(2) that by (simp add: length_wr)
  ultimately show ?thesis using m d by (simp add: returned_def a)
qed

lemma udp_unicast_cases:
  assumes "udp_table st" "udp_ready D plen m" "20 \<le> length D"
  shows "if for_head D st then udp_unicast e (take 20 D) plen m st = Inl Null_socket
    else \<exists>st' out. udp_unicast e (take 20 D) plen m st = Inr (st', out) \<and>
      ((\<exists>p. udp_best D st p \<and> out = None \<and> (got p (udp_in D @ udp_ctl e (inp_flags st p) D @ udp_data D) st st' \<or>
          missed st st' \<and> \<not> room e p (int (length (udp_ctl e (inp_flags st p) D)) + (plen - 28)) st)) \<or>
       (\<forall>q\<in>set (pcbs (udb st)). udp_wild D st q = None) \<and> missed st st' \<and> (\<exists>c. out = Some c \<and> returned D c))"
proof -
  have m: "m \<noteq> []" "28 \<le> length (hdr_of m)" "same_ends (hdr_of m) D" "vbytes (vm_strip 28 m) = udp_data D"
    "int (length (udp_data D)) \<le> plen - 28"
    using assms(2) by (simp_all add: udp_ready_def)
  obtain st1 r where r: "udp_findpcb D st = (st1, r)" by fastforce
  note f = findpcb_cases[OF assms(1) r]
  have u: "udp_unicast e (take 20 D) plen m st = (case r of
        None \<Rightarrow> Inr (tally (\<lambda>u. u\<lparr>udps_noport := udps_noport u + 1\<rparr>) st1,
          Some (fst_upd (\<lambda>x. wr 2 (b16 (rd16 (take 20 D) 2 + 20)) (wr 0 (take 20 D) x)) m))
      | Some p \<Rightarrow>
          let opts = (if inp_flags st1 p AND INP_CONTROLOPTS \<noteq> 0 \<and> inp_flags st1 p AND INP_RECVDSTADDR \<noteq> 0
                      then udp_saveopt (ud_opt e) (b32 (uh_dst D)) IP_RECVDSTADDR else [])
          in if \<not> inp_socket (pcb (udb st1) p) then Inl Null_socket
             else map_sum id (\<lambda>s. (s, None)) (udp_append e p (udp_in D) (plen - 28) (vm_strip 28 m) opts st1))"
    using m(3) unfolding udp_unicast_def Let_def findpcb_ends[OF m(3)] r prod.case same_ends_in[OF m(3)]
    by (simp add: same_ends_def split: option.split)
  show ?thesis
  proof (cases r)
    case None
    then have "\<not> for_head D st" using r by (auto simp: udp_findpcb_def for_head_def pcb_tuple_def Let_def split: option.splits if_splits)
    then show ?thesis using f None returned_ok[OF assms(2,3)] u by (simp add: missed_def)
  next
    case (Some p)
    show ?thesis
    proof (cases "for_head D st")
      case True
      then show ?thesis using f(4,5) Some assms(1) by (simp add: u udp_table_def Let_def)
    next
      case False
      then have b: "udp_best D st p" using f(5) Some by simp
      then have p: "inp_socket (pcb (udb st1) p)" "sbcheck (so_rcv st1 p)"
        using assms(1) f(1,4) by (auto simp: udp_best_def udp_table_def Let_def)
      let ?o = "if inp_flags st1 p AND INP_CONTROLOPTS \<noteq> 0 \<and> inp_flags st1 p AND INP_RECVDSTADDR \<noteq> 0
                then udp_saveopt (ud_opt e) (b32 (uh_dst D)) IP_RECVDSTADDR else []"
      have c: "vbytes ?o = udp_ctl e (inp_flags st p) D" by (simp only: udp_ctl_def f(3))
      from udp_append_ok[of st1 p "vm_strip 28 m" "plen - 28" e D ?o] obtain st2 where
        a: "udp_append e p (udp_in D) (plen - 28) (vm_strip 28 m) ?o st1 = Inr st2"
          "got p (udp_in D @ vbytes ?o @ udp_data D) st1 st2 \<or> missed st1 st2 \<and> \<not> room e p (int (length (vbytes ?o)) + (plen - 28)) st1"
        using p(2) m by auto
      have "udp_unicast e (take 20 D) plen m st = Inr (st2, None)"
        unfolding u Some option.case Let_def a(1) using p(1) by simp
      moreover have "got p bs st1 st2 = got p bs st st2" "missed st1 st2 = missed st st2" "room e p n st1 = room e p n st" for bs n
        using f(1,2) by (simp_all add: got_def missed_def room_def)
      ultimately have "udp_unicast e (take 20 D) plen m st = Inr (st2, None)"
        "got p (udp_in D @ udp_ctl e (inp_flags st p) D @ udp_data D) st st2 \<or>
         missed st st2 \<and> \<not> room e p (int (length (udp_ctl e (inp_flags st p) D)) + (plen - 28)) st"
        using a(2) unfolding c by simp_all
      then show ?thesis unfolding if_not_P[OF False] using b by blast
    qed
  qed
qed

lemma arrived_same [simp]:
  "udp_table (arrived st) = udp_table st" "for_head D (arrived st) = for_head D st" "udp_best D (arrived st) = udp_best D st"
  "udp_wild D (arrived st) = udp_wild D st" "got p bs (arrived st) = got p bs st" "missed (arrived st) = missed st"
  "room e p n (arrived st) = room e p n st"
  by (simp_all add: udp_table_def for_head_def udp_best_def udp_wild_def got_def missed_def room_def fun_eq_iff)

text \<open>
  What the socket of \<open>p\<close> makes of the datagram: it takes it, or it does not and then there was no room
  (the room asked for is more than needed when the datagram has been trimmed).
\<close>

definition udp_taken :: "udpenv \<Rightarrow> u8 list \<Rightarrow> pcbptr \<Rightarrow> udpst \<Rightarrow> udpst \<Rightarrow> bool" where
  "udp_taken e D p st st' \<longleftrightarrow> (let bs = udp_ctl e (inp_flags st p) D @ udp_data D in
     (got p (udp_in D @ bs) st st' \<or> missed st st') \<and>
     (unat (uh_ulen D) + 20 = length D \<and> room e p (int (length bs)) st \<longrightarrow> got p (udp_in D @ bs) st st'))"

lemma udp_unicast_delivered:
  assumes "udp_wf iphlen plen m" "udp_table st" "ud_pull e"
  defines "D \<equiv> udp_bytes iphlen (vbytes m)"
  assumes "udp_good (ud_cksum e) D" "uh_src D \<noteq> 0"
  shows "\<exists>st' out. udp_input e False iphlen plen m st = Some (Inr (st', out)) \<and>
    ((\<exists>p. udp_best D st p \<and> out = None \<and> udp_taken e D p st st') \<or>
     (\<forall>q\<in>set (pcbs (udb st)). udp_wild D st q = None) \<and> missed st st' \<and> (\<exists>c. out = Some c \<and> returned D c))"
proof -
  have L: "28 \<le> length D" using assms(5) by (simp add: udp_good_def)
  have h: "\<not> for_head D st" using assms(2,6) by (auto simp: for_head_def pcb_tuple_def udp_table_def Let_def)
  show ?thesis
  proof (cases rule: udp_input_cases[OF assms(1), of e False st, folded D_def])
    case (1 f)
    then show ?thesis using assms(3,5) by blast
  next
    case (2 m2 plen2)
    have "udp_table (arrived st)" "20 \<le> length D" using assms(2) L by simp_all
    note c = udp_unicast_cases[OF this(1) 2(2) this(2), of e]
    have p: "plen2 - 28 = int (length (udp_data D))" if "unat (uh_ulen D) + 20 = length D"
      using 2(2) that L by (simp add: udp_ready_def udp_data_def)
    have i: "udp_input e False iphlen plen m st = Some (udp_unicast e (take 20 D) plen2 m2 (arrived st))"
      using 2(3) by (simp add: udp_deliver_def)
    have n: "int (length (c @ udp_data D)) = int (length c) + (plen2 - 28)" if "unat (uh_ulen D) + 20 = length D" for c
      using p[OF that] by simp
    show ?thesis using c unfolding arrived_same tally_sel if_not_P[OF h] i udp_taken_def Let_def by (metis n)
  qed
qed


text \<open>C36: udp_input follows a null pointer for one kind of datagram, and for no other. Its cache starts at the
  head of the table and is compared before the table is searched; a good unicast datagram that carries
  exactly the head's numbers (sender 0.0.0.0 port 0, destination 0.0.0.0, and as its port the cursor
  of the ephemeral ports, 0 after the start) is taken to belong to the head, which has no socket.\<close>

theorem udp_input_null_socket:
  assumes "udp_wf iphlen plen m" "udp_table st" "ud_pull e"
  defines "D \<equiv> udp_bytes iphlen (vbytes m)"
  shows "udp_input e False iphlen plen m st = Some (Inl Null_socket) \<longleftrightarrow>
    udp_good (ud_cksum e) D \<and> last_inpcb (udb st) = pcb_head (udb st) \<and>
    pcb_tuple (pcb (udb st) (pcb_head (udb st))) = (uh_src D, uh_sport D, uh_dst D, uh_dport D)"
proof (cases rule: udp_input_cases[OF assms(1), of e False st, folded D_def])
  case (1 f)
  then show ?thesis using assms(3) by auto
next
  case (2 m2 plen2)
  have "udp_table (arrived st)" "20 \<le> length D" using assms(2) 2(1) by (simp_all add: udp_good_def)
  note c = udp_unicast_cases[OF this(1) 2(2) this(2), of e]
  show ?thesis using c 2(1,3) by (auto simp: udp_deliver_def for_head_def split: if_splits)
qed

section \<open>A broadcast\<close>

text \<open>The blocks a broadcast is for: those that match, up to the first that does not share its port.\<close>

fun fan_to :: "(pcbptr \<Rightarrow> bool) \<Rightarrow> (pcbptr \<Rightarrow> bool) \<Rightarrow> pcbptr list \<Rightarrow> pcbptr list" where
  "fan_to mt sh [] = []"
| "fan_to mt sh (p # ps) = (if \<not> mt p then fan_to mt sh ps else if \<not> sh p then [p] else p # fan_to mt sh ps)"

definition shares :: "inpcb \<Rightarrow> bool" where
  "shares i \<longleftrightarrow> inp_soopts i AND (SO_REUSEPORT OR SO_REUSEADDR) \<noteq> 0"

text \<open>
  The blocks \<open>ps\<close> in their order: those with \<open>P\<close> gain the record, the others nothing; no block for which
  there are mbufs and room goes without.
\<close>

definition served :: "udpenv \<Rightarrow> u8 list \<Rightarrow> int \<Rightarrow> (pcbptr \<Rightarrow> bool) \<Rightarrow> pcbptr list \<Rightarrow> udpst \<Rightarrow> udpst \<Rightarrow> bool" where
  "served e bs n P ps st st' \<longleftrightarrow> calls st' = calls st @ map Sorwakeup (filter P ps) \<and>
     (\<forall>q. if q \<in> set ps \<and> P q then gained bs (so_rcv st q) (so_rcv st' q) else so_rcv st' q = so_rcv st q) \<and>
     (\<forall>p\<in>set ps. (\<forall>k. ud_copy e p k) \<and> room e p n st \<longrightarrow> P p)"

lemma served_nil: "served e bs n P [] st st"
  by (simp add: served_def)

lemma servedD:
  assumes "served e bs n P ps st st'"
  shows "q \<in> set ps \<Longrightarrow> P q \<Longrightarrow> gained bs (so_rcv st q) (so_rcv st' q)"
    "q \<notin> set ps \<or> \<not> P q \<Longrightarrow> so_rcv st' q = so_rcv st q"
    "p \<in> set ps \<Longrightarrow> (\<And>k. ud_copy e p k) \<Longrightarrow> room e p n st \<Longrightarrow> P p"
  using assms unfolding served_def by metis+

lemma served_append:
  assumes "served e bs n P qs st st1" "served e bs n Q ps st1 st2" "set qs \<inter> set ps = {}"
  shows "served e bs n (\<lambda>x. if x \<in> set qs then P x else Q x) (qs @ ps) st st2"
proof -
  let ?R = "\<lambda>x. if x \<in> set qs then P x else Q x"
  have f: "filter ?R ps = filter Q ps" "filter ?R qs = filter P qs"
    by (rule filter_cong; use assms(3) in auto)+
  have o: "so_rcv st1 p = so_rcv st p" if "p \<notin> set qs" for p using servedD(2)[OF assms(1)] that by simp
  have c: "calls st2 = calls st @ map Sorwakeup (filter ?R (qs @ ps))"
    using assms(1,2) unfolding served_def filter_append f by simp
  have g: "if p \<in> set (qs @ ps) \<and> ?R p then gained bs (so_rcv st p) (so_rcv st2 p) else so_rcv st2 p = so_rcv st p" for p
  proof (cases "p \<in> set qs")
    case True
    then have "so_rcv st2 p = so_rcv st1 p" using servedD(2)[OF assms(2)] assms(3) by blast
    then show ?thesis using servedD(1,2)[OF assms(1), of p] True by simp
  next
    case False
    then show ?thesis using servedD(1,2)[OF assms(2), of p] o[OF False] by simp
  qed
  have n: "?R p" if "p \<in> set (qs @ ps)" "\<forall>k. ud_copy e p k" "room e p n st" for p
  proof (cases "p \<in> set qs")
    case True
    then show ?thesis using servedD(3)[OF assms(1), of p] that by simp
  next
    case False
    then have "room e p n st1" "p \<in> set ps" using that o[OF False] by (simp_all add: room_def)
    then show ?thesis using servedD(3)[OF assms(2), of p] that(2) False by simp
  qed
  show ?thesis unfolding served_def using c g n by blast
qed

lemma served_one:
  assumes "got q bs st st1 \<or> missed st st1 \<and> \<not> ((\<forall>k. ud_copy e q k) \<and> room e q n st)"
  shows "\<exists>P. served e bs n P [q] st st1"
proof (cases "got q bs st st1")
  case True
  then have "served e bs n (\<lambda>_. True) [q] st st1" by (auto simp: got_def served_def)
  then show ?thesis by blast
next
  case False
  then have "served e bs n (\<lambda>_. False) [q] st st1" using assms by (auto simp: missed_def served_def)
  then show ?thesis by blast
qed

lemma copy_ok:
  assumes "sbcheck (so_rcv st q)" "m \<noteq> []" "int (length (vbytes m)) \<le> plen"
  shows "\<exists>st1 P. (case vm_copy (ud_copy e q) 0 m of None \<Rightarrow> Inr st | Some n \<Rightarrow> udp_append e q (udp_in d) plen n [] st) = Inr st1 \<and>
    udb st1 = udb st \<and> served e (udp_in d @ vbytes m) plen P [q] st st1"
proof (cases "vm_copy (ud_copy e q) 0 m")
  case None
  then have "\<not> (\<forall>k. ud_copy e q k)" using vm_copy_all[of "ud_copy e q" 0 m] by auto
  then have "\<exists>P. served e (udp_in d @ vbytes m) plen P [q] st st" by (intro served_one) (simp add: missed_def)
  then show ?thesis using None by auto
next
  case (Some n)
  note b = vm_copy_bytes[OF Some]
  from udp_append_ok[OF assms(1), of n plen e d "[]"] obtain st1 where
    a: "udp_append e q (udp_in d) plen n [] st = Inr st1" "udb st1 = udb st"
      "got q (udp_in d @ vbytes m) st st1 \<or> missed st st1 \<and> \<not> room e q plen st"
    using b assms(2,3) by auto
  then have "\<exists>P. served e (udp_in d @ vbytes m) plen P [q] st st1" by (intro served_one) blast
  then show ?thesis using Some a by auto
qed

text \<open>The walk serves all but the last.\<close>

lemma fan_ok:
  assumes "m \<noteq> []" "int (length (vbytes m)) \<le> plen" "distinct (case lst of None \<Rightarrow> ps | Some q \<Rightarrow> q # ps)"
    "\<forall>p\<in>set (case lst of None \<Rightarrow> ps | Some q \<Rightarrow> q # ps). inp_socket (pcb (udb st) p) \<and> sbcheck (so_rcv st p)"
  shows "let F = (case lst of None \<Rightarrow> [] | Some q \<Rightarrow> [q]) @ fan_to (\<lambda>p. fan_match d (pcb (udb st) p)) (\<lambda>p. shares (pcb (udb st) p)) ps in
    \<exists>st' P. udp_fan e d plen m ps lst st = Inr (st', if F = [] then None else Some (last F)) \<and> udb st' = udb st \<and>
      served e (udp_in d @ vbytes m) plen P (butlast F) st st'"
  using assms(3,4)
proof (induction ps arbitrary: lst st)
  case Nil
  then show ?case by (cases lst) (auto simp: served_nil)
next
  case (Cons p ps)
  let ?t = "udb st"
  let ?mt = "\<lambda>p. fan_match d (pcb ?t p)" and ?sh = "\<lambda>p. shares (pcb ?t p)"
  show ?case
  proof (cases "?mt p")
    case False
    have "distinct (case lst of None \<Rightarrow> ps | Some q \<Rightarrow> q # ps)"
      "\<forall>p\<in>set (case lst of None \<Rightarrow> ps | Some q \<Rightarrow> q # ps). inp_socket (pcb ?t p) \<and> sbcheck (so_rcv st p)"
      using Cons.prems by (auto split: option.splits)
    from Cons.IH[OF this] False show ?thesis by simp
  next
    case True
    have sock: "inp_socket (pcb ?t p)" using Cons.prems by (auto split: option.splits)
    obtain st1 P where 1: "(case lst of None \<Rightarrow> Inr st
        | Some q \<Rightarrow> (case vm_copy (ud_copy e q) 0 m of None \<Rightarrow> Inr st | Some n \<Rightarrow> udp_append e q (udp_in d) plen n [] st)) = Inr st1"
      "udb st1 = ?t" "served e (udp_in d @ vbytes m) plen P (case lst of None \<Rightarrow> [] | Some q \<Rightarrow> [q]) st st1"
    proof (cases lst)
      case None
      then show ?thesis using that[of st "\<lambda>_. True"] by (simp add: served_nil)
    next
      case (Some q)
      then show ?thesis using copy_ok[of st q m plen e d] Cons.prems assms(1,2) that by auto
    qed
    have sb: "sbcheck (so_rcv st1 x)" if "x \<in> set (p # ps)" for x
    proof -
      have "so_rcv st1 x = so_rcv st x" using servedD(2)[OF 1(3), of x] Cons.prems(1) that by (cases lst) auto
      then show ?thesis using Cons.prems(2) that by (auto split: option.splits)
    qed
    have step: "udp_fan e d plen m (p # ps) lst st = (if \<not> ?sh p then Inr (st1, Some p) else udp_fan e d plen m ps (Some p) st1)"
      using True sock by (simp add: 1(1,2) shares_def)
    show ?thesis
    proof (cases "?sh p")
      case False
      then have f: "fan_to ?mt ?sh (p # ps) = [p]" using True by simp
      show ?thesis using step 1 False unfolding f Let_def by (cases lst) (auto simp del: udp_fan.simps)
    next
      case sh: True
      have "distinct (case Some p of None \<Rightarrow> ps | Some q \<Rightarrow> q # ps)"
        "\<forall>p\<in>set (case Some p of None \<Rightarrow> ps | Some q \<Rightarrow> q # ps). inp_socket (pcb (udb st1) p) \<and> sbcheck (so_rcv st1 p)"
        using Cons.prems sb 1(2) by (auto split: option.splits)
      from Cons.IH[OF this] obtain st2 Q where 2:
        "udp_fan e d plen m ps (Some p) st1 = Inr (st2, Some (last (p # fan_to ?mt ?sh ps)))" "udb st2 = ?t"
        "served e (udp_in d @ vbytes m) plen Q (butlast (p # fan_to ?mt ?sh ps)) st1 st2"
        unfolding Let_def 1(2) by auto
      have f: "fan_to ?mt ?sh (p # ps) = p # fan_to ?mt ?sh ps" using True sh by simp
      show ?thesis
      proof (cases lst)
        case None
        then have "st1 = st" using 1(1) by simp
        then show ?thesis using 2 step sh None unfolding f Let_def by (auto simp del: udp_fan.simps)
      next
        case (Some q)
        have "set (fan_to ?mt ?sh ps) \<subseteq> set ps" by (induction ps) auto
        then have "q \<notin> set (butlast (p # fan_to ?mt ?sh ps))" using Cons.prems(1) Some by (auto dest: in_set_butlastD)
        then have "\<exists>R. served e (udp_in d @ vbytes m) plen R ([q] @ butlast (p # fan_to ?mt ?sh ps)) st st2"
          using served_append[OF _ 2(3), of P "[q]" st] 1(3) Some by auto
        then show ?thesis using 2(1,2) step sh Some unfolding f Let_def by (auto simp del: udp_fan.simps)
      qed
    qed
  qed
qed

lemma fan_ends: "same_ends h D \<Longrightarrow> fan_match h i = fan_match D i"
  by (simp add: fan_match_def same_ends_def)

definition fan_list :: "u8 list \<Rightarrow> udpst \<Rightarrow> pcbptr list" where
  "fan_list D st = fan_to (\<lambda>p. fan_match D (pcb (udb st) p)) (\<lambda>p. shares (pcb (udb st) p)) (pcbs (udb st))"

lemma fan_list_sub: "set (fan_to mt sh ps) \<subseteq> set ps" "distinct ps \<Longrightarrow> distinct (fan_to mt sh ps)"
proof -
  show s: "set (fan_to mt sh ps) \<subseteq> set ps" for ps by (induction ps) auto
  show "distinct ps \<Longrightarrow> distinct (fan_to mt sh ps)" using s by (induction ps) auto
qed

lemma arrived_fan [simp]:
  "fan_list D (arrived st) = fan_list D st" "served e bs n P ps (arrived st) st' = served e bs n P ps st st'"
  by (simp_all only: fan_list_def served_def tally_sel arrived_same)

lemma udp_bcast_ok:
  assumes "udp_table st" "udp_ready D plen m"
  shows "\<exists>st' P. udp_bcast e plen m st = Inr st' \<and> served e (udp_in D @ udp_data D) (plen - 28) P (fan_list D st) st st'"
proof -
  let ?t = "udb st" and ?F = "fan_list D st" and ?m = "vm_strip 28 m"
  have m: "m \<noteq> []" "same_ends (hdr_of m) D" "vbytes ?m = udp_data D" "int (length (udp_data D)) \<le> plen - 28"
    using assms(2) by (simp_all add: udp_ready_def)
  have t: "distinct (pcbs ?t)" "\<forall>p\<in>set (pcbs ?t). inp_socket (pcb ?t p) \<and> sbcheck (so_rcv st p)"
    using assms(1) by (simp_all add: udp_table_def Let_def)
  have F: "fan_to (\<lambda>p. fan_match (hdr_of m) (pcb ?t p)) (\<lambda>p. shares (pcb ?t p)) (pcbs ?t) = ?F"
    using fan_ends[OF m(2)] by (simp add: fan_list_def)
  obtain st1 P where f: "udp_fan e (hdr_of m) (plen - 28) ?m (pcbs ?t) None st = Inr (st1, if ?F = [] then None else Some (last ?F))"
    "served e (udp_in D @ udp_data D) (plen - 28) P (butlast ?F) st st1"
    using fan_ok[where m = ?m and plen = "plen - 28" and lst = None and ps = "pcbs ?t" and st = st and d = "hdr_of m" and e = e] m t F same_ends_in[OF m(2)] by (auto simp: Let_def)
  show ?thesis
  proof (cases "?F = []")
    case True
    then show ?thesis using f by (auto simp: udp_bcast_def served_def intro: exI[of _ "\<lambda>_. True"])
  next
    case False
    let ?q = "last ?F"
    have d: "distinct (butlast ?F @ [?q])" using False fan_list_sub(2)[OF t(1)] by (simp add: fan_list_def)
    have "?q \<in> set (pcbs ?t)" using False last_in_set fan_list_sub(1) unfolding fan_list_def by blast
    then have "sbcheck (so_rcv st1 ?q)" using t(2) servedD(2)[OF f(2), of ?q] d by simp
    from udp_append_ok[OF this, of ?m "plen - 28" e "hdr_of m" "[]"] m obtain st2 where
      a: "udp_append e ?q (udp_in (hdr_of m)) (plen - 28) ?m [] st1 = Inr st2"
        "got ?q (udp_in D @ udp_data D) st1 st2 \<or> missed st1 st2 \<and> \<not> room e ?q (plen - 28) st1"
      using same_ends_in[OF m(2)] by auto
    obtain Q where Q: "served e (udp_in D @ udp_data D) (plen - 28) Q [?q] st1 st2" using served_one a(2) by blast
    have "set (butlast ?F) \<inter> set [?q] = {}" using d unfolding distinct_append by blast
    note served_append[OF f(2) Q this, unfolded append_butlast_last_id[OF False]]
    moreover have "udp_bcast e plen m st = Inr st2" using f(1) a(1) False by (simp add: udp_bcast_def Let_def)
    ultimately show ?thesis by blast
  qed
qed


section \<open>Instances\<close>

text \<open>Two sockets on port 53, of which the first shares it.\<close>

definition ex_udb :: pcbst where
  "ex_udb = \<lparr>pcb_head = 10, pcbs = [12, 13], pcb = (\<lambda>_. (ex_pcb 0 0 0 0)\<lparr>inp_socket := False\<rparr>)
     (12 := (ex_pcb 0 53 0 0)\<lparr>inp_soopts := SO_REUSEPORT\<rparr>, 13 := ex_pcb 0 53 0 0), last_inpcb = 10, ng_port_rand = 1\<rparr>"

definition ex_udpst :: udpst where
  "ex_udpst = \<lparr>udb = ex_udb, so_rcv = (\<lambda>_. ex_sbuf), inp_flags = (\<lambda>_. 0), stats = \<lparr>udps_ipackets = 0, udps_hdrops = 0,
     udps_badsum = 0, udps_badlen = 0, udps_noport = 0, udps_noportbcast = 0, udps_fullsock = 0, udpps_pcbcachemiss = 0,
     udps_opackets = 0\<rparr>, calls = []\<rparr>"

definition ex_udpenv :: udpenv where
  "ex_udpenv = \<lparr>ud_cksum = True, ud_protohdr = 40, ud_pull = True, ud_copy = (\<lambda>_ _. True), ud_name = (\<lambda>_. True), ud_opt = True,
     ud_odd = (\<lambda>_. False)\<rparr>"

text \<open>A datagram of 3 bytes with no checksum, in two mbufs.\<close>

definition ex_gram :: "u8 \<Rightarrow> u8 \<Rightarrow> u8 \<Rightarrow> u8 \<Rightarrow> vmbuf list" where
  "ex_gram src sport dst dport = [ex_mb [0x45, 0, 0, 11, 0, 0, 0, 0, 30, 17, 0, 0, 0, 0, 0, src, 0, 0, 0, dst, 0, sport, 0, dport],
     ex_mb [0, 11, 0, 0, 1, 2, 3]]"

lemma ex_gram_bytes: "vbytes (ex_gram s p d q) = [0x45, 0, 0, 11, 0, 0, 0, 0, 30, 17, 0, 0, 0, 0, 0, s, 0, 0, 0, d, 0, p, 0, q,
  0, 11, 0, 0, 1, 2, 3]"
  by (simp add: ex_gram_def ex_mb_def)

lemma ucast_u8: "ucast (ucast (x :: u8) :: u32) = (ucast x :: u16)"
  by (rule bit_word_eqI) (simp add: bit_simps)

lemma ex_gram_fields:
  "uh_iplen (vbytes (ex_gram s p d q)) = 11" "uh_ulen (vbytes (ex_gram s p d q)) = 11" "uh_sum (vbytes (ex_gram s p d q)) = 0"
  "uh_src (vbytes (ex_gram s p d q)) = ucast s" "uh_dst (vbytes (ex_gram s p d q)) = ucast d"
  "uh_sport (vbytes (ex_gram s p d q)) = ucast p" "uh_dport (vbytes (ex_gram s p d q)) = ucast q"
  "udp_data (vbytes (ex_gram s p d q)) = [1, 2, 3]"
  unfolding ex_gram_bytes udp_data_def uh_iplen_def uh_ulen_def uh_sum_def uh_src_def uh_dst_def uh_sport_def uh_dport_def rd16_def rd32_def
  by (simp_all add: be16_def be32_def ucast_u8)

lemma replicate_8: "replicate 8 x = [x, x, x, x, x, x, x, x]"
  by (simp add: numeral_eq_Suc)

lemma ex_gram_ok: "udp_wf 20 31 (ex_gram s p d q)" "udp_good b (vbytes (ex_gram s p d q))" "udp_bytes 20 (vbytes (ex_gram s p d q)) = vbytes (ex_gram s p d q)"
proof -
  have l: "length (vbytes (ex_gram s p d q)) = 31" by (simp add: ex_gram_bytes)
  show "udp_wf 20 31 (ex_gram s p d q)" unfolding udp_wf_def ex_gram_fields l by (simp add: ex_gram_def ex_mb_def)
  show "udp_good b (vbytes (ex_gram s p d q))" unfolding udp_good_def ex_gram_fields l by simp
  show "udp_bytes 20 (vbytes (ex_gram s p d q)) = vbytes (ex_gram s p d q)" by (simp add: udp_bytes_def)
qed

lemma ex_table_ok: "udp_table ex_udpst"
  by (simp add: udp_table_def ex_udpst_def ex_udb_def ex_pcb_def ex_sbuf_ok)

lemma ex_room: "n \<le> 4000 \<Longrightarrow> room ex_udpenv p n ex_udpst"
  by (simp add: room_def ex_udpenv_def ex_udpst_def ex_sbuf_def sbspace_def)


text \<open>The first datagram after the start, from 0.0.0.0 port 0 to 0.0.0.0 port 0.\<close>

theorem udp_input_null_socket_witness:
  "udp_input ex_udpenv False 20 31 (ex_gram 0 0 0 0) ex_udpst = Some (Inl Null_socket) \<and>
   udp_input ex_udpenv False 20 31 (ex_gram 1 9 2 53) ex_udpst \<noteq> Some (Inl Null_socket)"
proof -
  have e: "ud_pull ex_udpenv" by (simp add: ex_udpenv_def)
  have h: "last_inpcb (udb ex_udpst) = pcb_head (udb ex_udpst)" "pcb_tuple (pcb (udb ex_udpst) (pcb_head (udb ex_udpst))) = (0, 0, 0, 0)"
    by (simp_all add: ex_udpst_def ex_udb_def ex_pcb_def pcb_tuple_def)
  note n = udp_input_null_socket[OF ex_gram_ok(1) ex_table_ok e, unfolded ex_gram_ok(3) ex_gram_fields h]
  show ?thesis unfolding n using ex_gram_ok(2) by simp
qed


end
