(* ===== verification/Udp_Send.thy ===== *)
theory Udp_Send
  imports Udp_Correct
begin

text \<open>
  Sending: the packet that \<open>udp_output\<close> makes, that \<open>udp_input\<close> delivers its data, and what a
  sending to an address leaves of the block.
\<close>

section \<open>The packet\<close>

lemma length_udp_hdr [simp]: "length (udp_hdr ulen i ck) = 28"
  by (simp add: udp_hdr_def)

lemma wr_same: "length bs = length d \<Longrightarrow> wr 0 bs (d @ r) = bs @ r"
  by (simp add: wr_def)

lemma wr_sum: "wr 26 (b16 ck) (udp_hdr ulen i 0) = udp_hdr ulen i ck"
  by (simp add: wr_def udp_hdr_def)

lemma prepend_ok:
  assumes "m \<noteq> []" "vm_prepend lead mget n m = Some m1"
  shows "m1 \<noteq> []" "vbytes m1 = replicate n 0 @ vbytes m" "n \<le> length (hdr_of m1)"
  using assms by (cases m; auto simp: vm_prepend_def split: if_splits)+

text \<open>The header is written into the first mbuf: the bytes change in place.\<close>

lemma upd_bytes:
  assumes "m \<noteq> []" "i + length bs \<le> length (hdr_of m)"
  shows "fst_upd (wr i bs) m \<noteq> []" "vbytes (fst_upd (wr i bs) m) = wr i bs (vbytes m)"
    "length (hdr_of (fst_upd (wr i bs) m)) = length (hdr_of m)"
  using assms vbytes_fst_upd[OF assms(1), of "wr i bs"] by (simp_all add: wr_append length_wr)

definition udp_ck :: "udpoenv \<Rightarrow> u16 \<Rightarrow> inpcb \<Rightarrow> u8 list \<Rightarrow> u16" where
  "udp_ck o' ulen i bs =
     (let s = word_of_nat (65535 - ones_fold (wsum (udp_hdr ulen i 0 @ bs))) in
      if \<not> uo_cksum o' then 0 else if s = 0 then 0xffff else s)"

lemma send_bytes:
  assumes "m \<noteq> []" "length (vbytes m) \<le> 65507" "udp_send o' i m (int (length (vbytes m))) st = (st1, err, Some P)"
  defines "ulen \<equiv> word_of_nat (length (vbytes m)) + 8"
  defines "H \<equiv> udp_hdr ulen i (udp_ck o' ulen i (vbytes m))"
  shows "vbytes P = wr 1 [uo_tos o'] (wr 8 [uo_ttl o'] (wr 2 (b16 (word_of_nat (28 + length (vbytes m)))) H)) @ vbytes m"
    "P \<noteq> []" "28 \<le> length (hdr_of P)"
proof -
  let ?n = "length (vbytes m)"
  obtain m1 where m1: "vm_prepend (uo_lead o') (uo_mget o') 28 m = Some m1"
    using assms(3) by (auto simp: udp_send_def split: option.splits)
  note p = prepend_ok[OF assms(1) m1]
  define m2 where "m2 = fst_upd (wr 0 (udp_hdr ulen i 0)) m1"
  have m2: "m2 \<noteq> []" "vbytes m2 = udp_hdr ulen i 0 @ vbytes m" "28 \<le> length (hdr_of m2)"
    using upd_bytes[OF p(1), of 0 "udp_hdr ulen i 0"] p by (simp_all add: m2_def wr_same)
  define s where "s = (ucast (in_cksum (ck_chain (uo_odd o') m2) (28 + ?n)) :: u16)"
  have s: "s = word_of_nat (65535 - ones_fold (wsum (udp_hdr ulen i 0 @ vbytes m)))"
  proof -
    have "unat (in_cksum (ck_chain (uo_odd o') m2) (28 + ?n)) = 65535 - ones_fold (wsum (udp_hdr ulen i 0 @ vbytes m))"
      using in_cksum_conv[of "28 + ?n" "ck_chain (uo_odd o') m2"] assms(2) by (simp add: ck_chain_bytes m2(2))
    then show ?thesis unfolding s_def by (metis of_nat_unat)
  qed
  define ck where "ck = (if \<not> uo_cksum o' then 0 else if s = 0 then 0xffff else s)"
  have ck: "ck = udp_ck o' ulen i (vbytes m)" by (simp add: ck_def udp_ck_def s Let_def)
  define m3 where "m3 = fst_upd (wr 26 (b16 ck)) m2"
  have m3: "m3 \<noteq> []" "vbytes m3 = H @ vbytes m" "28 \<le> length (hdr_of m3)"
    using upd_bytes[OF m2(1), of 26 "b16 ck"] m2 wr_append[of 26 "b16 ck" "udp_hdr ulen i 0" "vbytes m"]
    by (simp_all add: m3_def H_def ck wr_sum)
  define m4 where "m4 = fst_upd (wr 2 (b16 (word_of_nat (28 + ?n)))) m3"
  have m4: "m4 \<noteq> []" "vbytes m4 = wr 2 (b16 (word_of_nat (28 + ?n))) H @ vbytes m" "28 \<le> length (hdr_of m4)"
    using upd_bytes[OF m3(1), of 2 "b16 (word_of_nat (28 + ?n))"] m3 wr_append[of 2 "b16 (word_of_nat (28 + ?n))" H "vbytes m"]
    by (simp_all add: m4_def H_def)
  have nn: "nat (28 + int ?n) = 28 + ?n" "word_of_int (28 + int ?n) = word_of_nat (28 + ?n)" "word_of_int (int ?n) = word_of_nat ?n"
    by (simp_all add: nat_add_distrib)
  have "P = fst_upd (\<lambda>d. wr 1 [uo_tos o'] (wr 8 [uo_ttl o'] d)) m4"
    using assms(3) unfolding udp_send_def m1 option.case Let_def nn ulen_def[symmetric] m2_def[symmetric] s_def[symmetric]
      ck_def[symmetric] m3_def[symmetric] m4_def[symmetric] by simp
  also have "\<dots> = fst_upd (wr 1 [uo_tos o']) (fst_upd (wr 8 [uo_ttl o']) m4)" by (simp add: fst_upd_def split: list.split)
  finally have P: "P = fst_upd (wr 1 [uo_tos o']) (fst_upd (wr 8 [uo_ttl o']) m4)" .
  let ?H4 = "wr 2 (b16 (word_of_nat (28 + ?n))) H"
  have l: "length ?H4 = 28" by (simp add: length_wr H_def)
  have m5: "fst_upd (wr 8 [uo_ttl o']) m4 \<noteq> []" "vbytes (fst_upd (wr 8 [uo_ttl o']) m4) = wr 8 [uo_ttl o'] ?H4 @ vbytes m"
    "28 \<le> length (hdr_of (fst_upd (wr 8 [uo_ttl o']) m4))"
    using upd_bytes[OF m4(1), of 8 "[uo_ttl o']"] m4 wr_append[of 8 "[uo_ttl o']" ?H4 "vbytes m"] l by simp_all
  show "vbytes P = wr 1 [uo_tos o'] (wr 8 [uo_ttl o'] ?H4) @ vbytes m" "P \<noteq> []" "28 \<le> length (hdr_of P)"
    using upd_bytes[OF m5(1), of 1 "[uo_tos o']"] m5 wr_append[of 1 "[uo_tos o']" "wr 8 [uo_ttl o'] ?H4" "vbytes m"] l
    unfolding P by (simp_all add: length_wr)
qed

section \<open>From one host to another\<close>

lemma b16_value: "256 * unat (ucast (drop_bit 8 w) :: u8) + unat (ucast w :: u8) = unat (w :: u16)"
proof -
  let ?b = "be16 (ucast (drop_bit 8 w)) (ucast w)"
  have u: "unat ?b = 256 * unat (ucast (drop_bit 8 w) :: u8) + unat (ucast w :: u8)" by (rule unat_be16)
  then have "unat ?b \<le> 65535"
    using unat_u8_bound[of "ucast (drop_bit 8 w)"] unat_u8_bound[of "ucast w"] by simp
  then have "unat (ucast ?b :: u16) = unat ?b" by (simp add: unsigned_ucast_eq take_bit_nat_eq_self)
  then show ?thesis using u ucast_be16_bytes[of w] by simp
qed

lemma ones_fold_negative_zero: "ones_fold n = 65535 \<Longrightarrow> ones_fold (n + 65535) = 65535"
proof -
  assume n: "ones_fold n = 65535"
  have z: "n \<noteq> 0"
  proof
    assume "n = 0"
    then show False using n by (simp add: ones_fold_def)
  qed
  then have "(n + 65535 - 1) mod 65535 = (n - 1) mod 65535"
    using mod_add_self2[of "n - 1" 65535] by (simp add: add.commute)
  then show ?thesis using n z by (simp add: ones_fold_def)
qed

text \<open>The checksum stored in the header makes the sum over the pseudo header, the header and the data right.\<close>

lemma ck_valid:
  assumes "uo_cksum o'"
  shows "ones_fold (wsum (udp_hdr ulen i (udp_ck o' ulen i bs) @ bs)) = 65535"
proof -
  define w where "w = wsum (udp_hdr ulen i 0 @ bs)"
  define pre where "pre = take 26 (udp_hdr ulen i 0)"
  have h: "udp_hdr ulen i ck @ bs = pre @ ucast (drop_bit 8 ck) # ucast ck # bs" for ck
  proof -
    have "udp_hdr ulen i ck = pre @ b16 ck" by (simp add: udp_hdr_def pre_def)
    then show ?thesis by (simp add: b16_def)
  qed
  have ev: "even (length pre)" by (simp add: pre_def)
  have f: "wsum (udp_hdr ulen i ck @ bs) = wsum (pre @ 0 # 0 # bs) + unat ck" for ck
    unfolding h wsum_field[OF ev, of "ucast (drop_bit 8 ck)"] b16_value ..
  have e: "wsum (udp_hdr ulen i ck @ bs) = w + unat ck" for ck
    using f[of ck] f[of 0] by (simp add: w_def)
  let ?s = "word_of_nat (65535 - ones_fold w) :: u16"
  have u: "unat ?s = 65535 - ones_fold w" by (simp add: unat_of_nat)
  show ?thesis
  proof (cases "?s = 0")
    case True
    then have "ones_fold w = 65535" using u ones_fold_le[of w] by simp
    then have "ones_fold (w + 65535) = 65535" by (rule ones_fold_negative_zero)
    then show ?thesis using True assms by (simp add: e udp_ck_def w_def[symmetric] Let_def)
  next
    case False
    then have "udp_ck o' ulen i bs = ?s" using assms by (simp add: udp_ck_def w_def[symmetric] Let_def)
    then show ?thesis using ones_fold_complement[of w] by (simp add: e u)
  qed
qed

text \<open>Two headers that agree from the addresses on, and in the protocol.\<close>

definition after12 :: "u8 list \<Rightarrow> u8 list \<Rightarrow> bool" where
  "after12 b r \<longleftrightarrow> length r = length b \<and> drop 12 r = drop 12 b \<and> r ! 9 = b ! 9"

text \<open>
  What may happen to the bytes \<open>b\<close> of a packet between \<open>udp_output\<close> and the peer's \<open>udp_input\<close>: \<open>ip_output\<close>
  and the routers write the first 12 bytes of the header, the protocol excepted, and \<open>ipintr\<close> takes the
  length of the header off \<open>ip_len\<close>.
\<close>

definition carried :: "u8 list \<Rightarrow> u8 list \<Rightarrow> bool" where
  "carried b r \<longleftrightarrow> after12 b r \<and> uh_iplen r = int (length r) - 20"

lemma sent_fields:
  assumes "m \<noteq> []" "length (vbytes m) \<le> 65507" "udp_send o' i m (int (length (vbytes m))) st = (st1, err, Some P)"
    and "after12 (vbytes P) D"
  defines "ulen \<equiv> word_of_nat (length (vbytes m)) + 8"
  defines "H \<equiv> udp_hdr ulen i (udp_ck o' ulen i (vbytes m))"
  shows "length D = 28 + length (vbytes m)" "udp_overlay D = H @ vbytes m" "drop 28 D = vbytes m"
    "uh_src D = inp_laddr i" "uh_dst D = inp_faddr i" "uh_sport D = inp_lport i" "uh_dport D = inp_fport i" "uh_ulen D = ulen"
    "uh_sum D = udp_ck o' ulen i (vbytes m)"
proof -
  let ?n = "length (vbytes m)" and ?ck = "udp_ck o' ulen i (vbytes m)"
  let ?T = "b32 (inp_laddr i) @ b32 (inp_faddr i) @ b16 (inp_lport i) @ b16 (inp_fport i) @ b16 ulen @ b16 ?ck @ vbytes m"
  let ?b = "wr 1 [uo_tos o'] (wr 8 [uo_ttl o'] (wr 2 (b16 (word_of_nat (28 + ?n))) H))"
  have P: "vbytes P = ?b @ vbytes m" using send_bytes(1)[OF assms(1-3)] by (simp add: H_def ulen_def)
  have lb: "length ?b = 28" by (simp add: length_wr H_def)
  have t: "drop 12 (vbytes P) = ?T"
    unfolding P using lb by (simp add: drop_wr length_wr H_def) (simp add: udp_hdr_def)
  have p9: "vbytes P ! 9 = 17"
    unfolding P using lb by (simp add: nth_append wr_nth length_wr H_def) (simp add: udp_hdr_def nth_append)
  show l: "length D = 28 + ?n" using assms(4) lb by (simp add: after12_def P)
  define pre where "pre = take 12 D"
  have D: "D = pre @ ?T" "length pre = 12" using assms(4) t l append_take_drop_id[of 12 D] by (simp_all add: after12_def pre_def)
  show "drop 28 D = vbytes m" using D(2) by (subst D(1)) simp
  show "uh_src D = inp_laddr i" unfolding uh_src_def by (subst D(1), rule rd32_b32) (simp add: D(2))
  show "uh_dst D = inp_faddr i"
    using rd32_b32[of "pre @ b32 (inp_laddr i)" 16] by (subst D(1)) (simp add: uh_dst_def D(2))
  show "uh_sport D = inp_lport i"
    using rd16_b16[of "pre @ b32 (inp_laddr i) @ b32 (inp_faddr i)" 20] by (subst D(1)) (simp add: uh_sport_def D(2))
  show "uh_dport D = inp_fport i"
    using rd16_b16[of "pre @ b32 (inp_laddr i) @ b32 (inp_faddr i) @ b16 (inp_lport i)" 22]
    by (subst D(1)) (simp add: uh_dport_def D(2))
  show u: "uh_ulen D = ulen"
    using rd16_b16[of "pre @ b32 (inp_laddr i) @ b32 (inp_faddr i) @ b16 (inp_lport i) @ b16 (inp_fport i)" 24]
    by (subst D(1)) (simp add: uh_ulen_def D(2))
  show "uh_sum D = ?ck"
    using rd16_b16[of "pre @ b32 (inp_laddr i) @ b32 (inp_faddr i) @ b16 (inp_lport i) @ b16 (inp_fport i) @ b16 ulen" 26]
    by (subst D(1)) (simp add: uh_sum_def D(2))
  have "D ! 9 = 17" "drop 12 D = ?T" using assms(4) p9 t by (simp_all add: after12_def)
  then show "udp_overlay D = H @ vbytes m" by (simp add: udp_overlay_def u H_def udp_hdr_def)
qed

text \<open>C9: what one host sends with UDP another receives. When udp_output hands a datagram of at most 32739 bytes
  to ip_output and its bytes come to a peer as IP delivers them, cut into mbufs in any way, then
  udp_input there finds its checksum and lengths right; if any block fits, the datagram goes to one than which
  none fits better, and, given room, that socket gains one record: the sender's address and port, the control
  data it asked for, and the very bytes that were sent.\<close>

theorem udp_roundtrip:
  assumes "m \<noteq> []" "length (vbytes m) \<le> 32739" "udp_send o' i m (int (length (vbytes m))) st = (st1, err, Some P)" "inp_laddr i \<noteq> 0"
    and "carried (vbytes P) (vbytes c)" "c \<noteq> []" "20 \<le> length (hdr_of c)" "ud_pull e" "udp_table rst"
    and "\<exists>q\<in>set (pcbs (udb rst)). pcb_wild (inp_laddr i) (inp_lport i) (inp_faddr i) (inp_fport i) (pcb (udb rst) q) \<noteq> None"
  shows "\<exists>st' p. udp_input e False 20 (int (length (vbytes c))) c rst = Some (Inr (st', None)) \<and> udp_best (vbytes c) rst p \<and>
    udp_wild (vbytes c) rst p = pcb_wild (inp_laddr i) (inp_lport i) (inp_faddr i) (inp_fport i) (pcb (udb rst) p) \<and>
    (room e p (int (length (udp_ctl e (inp_flags rst p) (vbytes c) @ vbytes m))) rst \<longrightarrow>
     got p (([16, 2] @ b16 (inp_lport i) @ b32 (inp_laddr i) @ replicate 8 0) @ udp_ctl e (inp_flags rst p) (vbytes c) @ vbytes m) rst st')"
proof -
  let ?D = "vbytes c"
  have n: "length (vbytes m) \<le> 65507" using assms(2) by simp
  have c: "after12 (vbytes P) ?D" "uh_iplen ?D = int (length ?D) - 20" using assms(5) by (simp_all add: carried_def)
  note f = sent_fields[OF assms(1) n assms(3) c(1)]
  let ?ulen = "word_of_nat (length (vbytes m)) + 8 :: u16"
  have ul: "unat ?ulen = length (vbytes m) + 8"
  proof -
    have "unat (word_of_nat (length (vbytes m) + 8) :: u16) = length (vbytes m) + 8"
      using assms(2) by (simp add: unat_of_nat del: of_nat_add)
    then show ?thesis by simp
  qed
  have g: "udp_good (ud_cksum e) ?D"
    using f ul ck_valid[of o' ?ulen i "vbytes m"] udp_ck_def[of o' ?ulen i "vbytes m"]
    by (cases "uo_cksum o'") (simp_all add: udp_good_def word_le_nat_alt Let_def)
  have w: "udp_wf 20 (int (length ?D)) c" using c(2) assms(6,7) by (simp add: udp_wf_def)
  have b: "udp_bytes 20 ?D = ?D" by (simp add: udp_bytes_def)
  have dd: "udp_data ?D = vbytes m" using f ul by (simp add: udp_data_def)
  have x: "udp_wild ?D rst q = pcb_wild (inp_laddr i) (inp_lport i) (inp_faddr i) (inp_fport i) (pcb (udb rst) q)" for q
    by (simp add: udp_wild_def f)
  have k: "udp_in ?D = [16, 2] @ b16 (inp_lport i) @ b32 (inp_laddr i) @ replicate 8 0" by (simp add: udp_in_def f)
  have L: "unat (uh_ulen ?D) + 20 = length ?D" using f ul by simp
  have s: "uh_src ?D \<noteq> 0" using f assms(4) by simp
  note d = udp_unicast_delivered[OF w assms(9,8), unfolded b, OF g s]
  have ex: "\<not> (\<forall>q\<in>set (pcbs (udb rst)). udp_wild ?D rst q = None)" using assms(10) by (simp add: x)
  have t: "udp_taken e ?D p rst st' \<Longrightarrow> room e p (int (length (udp_ctl e (inp_flags rst p) ?D @ vbytes m))) rst \<Longrightarrow>
     got p (([16, 2] @ b16 (inp_lport i) @ b32 (inp_laddr i) @ replicate 8 0) @ udp_ctl e (inp_flags rst p) ?D @ vbytes m) rst st'" for p st'
    unfolding udp_taken_def Let_def dd k using L by blast
  show ?thesis using d ex x t by blast
qed

section \<open>Sending to an address\<close>

text \<open>Connecting changes the block, its port when it had none, and the head's cursor.\<close>

lemma bind_port_cases:
  assumes "bind_port pe p t = (t', err)"
  shows "if err = 0 then \<exists>s l. pcb_same t s \<and> t' = pcb_upd p (\<lambda>i. i\<lparr>inp_lport := l\<rparr>) s else pcb_same t t'"
proof -
  obtain s1 r1 where 1: "port_rand NG_PORT_RANDTRIES (pe_entropy pe) (inp_laddr (pcb t p)) t = (s1, r1)" by fastforce
  obtain s2 r2 where 2: "port_scan NG_PORT_SCANTRIES (inp_laddr (pcb t p)) s1 = (s2, r2)" by fastforce
  have "pcb_same t s1" "pcb_same t s2" using port_rand_same[OF 1] port_scan_same[OF 2] pcb_same_trans by blast+
  then show ?thesis using assms 1 2 by (cases r1; cases r2) (auto simp: bind_port_def EADDRNOTAVAIL_def)
qed

lemma connect_cases:
  assumes "p \<noteq> pcb_head t" "in_pcbconnect pe src p fa fp t = (t', err)"
  defines "la \<equiv> if inp_laddr (pcb t p) \<noteq> 0 then inp_laddr (pcb t p) else the src"
  shows "if err = 0 then \<exists>s l. pcb_same t s \<and> (inp_lport (pcb t p) \<noteq> 0 \<longrightarrow> l = inp_lport (pcb t p)) \<and>
      t' = pcb_upd p (\<lambda>i. (pcb t p)\<lparr>inp_lport := l, inp_laddr := la, inp_faddr := fa, inp_fport := fp\<rparr>) s
    else pcb_same t t'"
proof -
  let ?i = "pcb t p"
  define bound where "bound = (if inp_laddr ?i = 0 \<and> inp_lport ?i = 0 then in_pcbbind pe p None t else (t, 0))"
  have e: "in_pcbconnect pe src p fa fp t =
      (if fp = 0 \<or> inp_laddr ?i = 0 \<and> src = None then (t, EADDRNOTAVAIL)
       else if in_pcblookup fa fp la (inp_lport ?i) False t \<noteq> None then (t, EADDRINUSE)
       else case bound of (t1, err) \<Rightarrow> if err \<noteq> 0 then (t1, err)
         else (pcb_upd p (\<lambda>i. i\<lparr>inp_laddr := la, inp_faddr := fa, inp_fport := fp\<rparr>) t1, 0))"
    unfolding in_pcbconnect_def Let_def la_def[symmetric] bound_def[symmetric] by auto
  obtain t1 err1 where b: "bound = (t1, err1)" by fastforce
  consider "t' = t" "err \<noteq> 0" | "err1 \<noteq> 0" "t' = t1" "err = err1"
    | "err1 = 0" "err = 0" "t' = pcb_upd p (\<lambda>i. i\<lparr>inp_laddr := la, inp_faddr := fa, inp_fport := fp\<rparr>) t1"
    using assms(2) unfolding e b by (auto simp: EADDRNOTAVAIL_def EADDRINUSE_def split: if_splits)
  then show ?thesis
  proof cases
    case 1
    then show ?thesis by (simp add: pcb_same_refl)
  next
    case 2
    have "pcb_same t t1"
    proof (cases "inp_laddr ?i = 0 \<and> inp_lport ?i = 0 \<and> pe_anyif pe")
      case True
      then have "bind_port pe p t = (t1, err1)" using b by (simp add: bound_def in_pcbbind_def)
      then show ?thesis using bind_port_cases[of pe p t t1 err1] 2 by simp
    next
      case False
      then have "t1 = t" using b by (auto simp: bound_def in_pcbbind_def split: if_splits)
      then show ?thesis by (simp add: pcb_same_refl)
    qed
    then show ?thesis using 2 by simp
  next
    case 3
    have "\<exists>s l. pcb_same t s \<and> (inp_lport ?i \<noteq> 0 \<longrightarrow> l = inp_lport ?i) \<and> t1 = pcb_upd p (\<lambda>i. i\<lparr>inp_lport := l\<rparr>) s"
    proof (cases "inp_laddr ?i = 0 \<and> inp_lport ?i = 0")
      case True
      then have "bind_port pe p t = (t1, 0)" using b 3(1) by (auto simp: bound_def in_pcbbind_def EADDRNOTAVAIL_def split: if_splits)
      then show ?thesis using bind_port_cases[of pe p t t1 0] True by simp
    next
      case False
      then have "t1 = t" using b by (auto simp: bound_def)
      moreover have "pcb_upd p (\<lambda>i. i\<lparr>inp_lport := inp_lport ?i\<rparr>) t = t" by (simp add: pcb_upd_def)
      ultimately show ?thesis using pcb_same_refl[of t] by metis
    qed
    then obtain s l where s: "pcb_same t s" "inp_lport ?i \<noteq> 0 \<longrightarrow> l = inp_lport ?i" "t1 = pcb_upd p (\<lambda>i. i\<lparr>inp_lport := l\<rparr>) s" by blast
    have "pcb s p = ?i" using s(1) assms(1) by (simp add: pcb_same_def)
    then have "t' = pcb_upd p (\<lambda>i. ?i\<lparr>inp_lport := l, inp_laddr := la, inp_faddr := fa, inp_fport := fp\<rparr>) s"
      unfolding 3(3) s(3) by (simp add: pcb_upd_def)
    then show ?thesis using s(1,2) 3(2) by auto
  qed
qed

lemma send_state: "udp_send o' i m plen st = (st', err, out) \<Longrightarrow>
    udb st' = udb st \<and> so_rcv st' = so_rcv st \<and> calls st' = calls st \<and> inp_flags st' = inp_flags st"
  by (auto simp: udp_send_def Let_def split: option.splits)

text \<open>C35: sending to an address does not leave a trace of the connection it makes. Whatever the outcome
  (an error of the connect, no mbuf for the headers, an error of ip_output or success), the block that
  was not connected is not connected afterwards and has its local address back; only a port that it did
  not have may have been bound to it. The table, its cache, the other blocks (but for the port cursor of
  the head) and the sockets are as before. The packet, if there is one, goes to the address asked for
  and from the port the block now has, so that the answer finds the block, and holds the bytes given.\<close>

theorem udp_sendto_restores:
  assumes "p \<in> set (pcbs (udb st))" "p \<noteq> pcb_head (udb st)" "inp_faddr (pcb (udb st) p) = 0" "inp_fport (pcb (udb st) p) = 0"
    and "m \<noteq> []" "length (vbytes m) \<le> 65507"
    and "udp_output o' pe src False p m (int (length (vbytes m))) (Some (Inr (fa, fp))) st = (st', err, out)"
  shows "pcbs (udb st') = pcbs (udb st) \<and> last_inpcb (udb st') = last_inpcb (udb st) \<and> so_rcv st' = so_rcv st \<and> calls st' = calls st \<and>
    (\<forall>q. q \<noteq> p \<and> q \<noteq> pcb_head (udb st) \<longrightarrow> pcb (udb st') q = pcb (udb st) q) \<and>
    (\<exists>l. pcb (udb st') p = (pcb (udb st) p)\<lparr>inp_lport := l\<rparr> \<and> (inp_lport (pcb (udb st) p) \<noteq> 0 \<longrightarrow> l = inp_lport (pcb (udb st) p)) \<and>
      (\<forall>P. out = Some P \<longrightarrow> uh_dst (vbytes P) = fa \<and> uh_dport (vbytes P) = fp \<and> uh_sport (vbytes P) = l \<and>
        uh_src (vbytes P) = (if inp_laddr (pcb (udb st) p) \<noteq> 0 then inp_laddr (pcb (udb st) p) else the src) \<and>
        drop 28 (vbytes P) = vbytes m))"
proof -
  let ?t = "udb st" and ?i = "pcb (udb st) p"
  obtain t1 err1 where c: "in_pcbconnect pe src p fa fp ?t = (t1, err1)" by fastforce
  note cc = connect_cases[OF assms(2) c]
  show ?thesis
  proof (cases "err1 = 0")
    case False
    then have "st' = st\<lparr>udb := t1\<rparr>" "out = None" using assms(3,7) c by (auto simp: udp_output_def udp_connect_def)
    moreover have "pcb_same ?t t1" using cc False by simp
    then have "pcbs t1 = pcbs ?t" "last_inpcb t1 = last_inpcb ?t" "\<forall>q. q \<noteq> pcb_head ?t \<longrightarrow> pcb t1 q = pcb ?t q"
      by (simp_all add: pcb_same_def)
    moreover from this have "pcb t1 p = ?i\<lparr>inp_lport := inp_lport ?i\<rparr>" using assms(2) by simp
    ultimately show ?thesis by (auto intro: exI[of _ "inp_lport ?i"])
  next
    case True
    let ?la = "if inp_laddr ?i \<noteq> 0 then inp_laddr ?i else the src"
    from cc True obtain s l where s: "pcb_same ?t s" "inp_lport ?i \<noteq> 0 \<longrightarrow> l = inp_lport ?i"
      "t1 = pcb_upd p (\<lambda>i. ?i\<lparr>inp_lport := l, inp_laddr := ?la, inp_faddr := fa, inp_fport := fp\<rparr>) s" by auto
    let ?c = "?i\<lparr>inp_lport := l, inp_laddr := ?la, inp_faddr := fa, inp_fport := fp\<rparr>"
    obtain st2 err2 out2 where snd: "udp_send o' ?c m (int (length (vbytes m))) (st\<lparr>udb := t1\<rparr>) = (st2, err2, out2)"
      using prod_cases3 by blast
    have o: "st' = st2\<lparr>udb := pcb_upd p (\<lambda>i. i\<lparr>inp_laddr := inp_laddr ?i\<rparr>) (in_pcbdisconnect False p (udb st2))\<rparr>" "out = out2"
      using assms(3,7) c True snd by (auto simp: udp_output_def udp_connect_def Let_def s(3))
    note k = send_state[OF snd]
    have b: "pcb (udb st') p = ?i\<lparr>inp_lport := l\<rparr>" using k assms(3,4) by (simp add: o in_pcbdisconnect_def s(3))
    have x: "pcbs (udb st') = pcbs ?t" "last_inpcb (udb st') = last_inpcb ?t" "so_rcv st' = so_rcv st" "calls st' = calls st"
      "\<forall>q. q \<noteq> p \<and> q \<noteq> pcb_head ?t \<longrightarrow> pcb (udb st') q = pcb ?t q"
      using k s(1) by (simp_all add: o in_pcbdisconnect_def s(3) pcb_same_def)
    have f: "uh_dst (vbytes P) = fa \<and> uh_dport (vbytes P) = fp \<and> uh_sport (vbytes P) = l \<and> uh_src (vbytes P) = ?la \<and>
        drop 28 (vbytes P) = vbytes m" if "out = Some P" for P
      using sent_fields[OF assms(5,6), of o' ?c "st\<lparr>udb := t1\<rparr>" st2 err2 P "vbytes P"] snd that
      by (simp add: o after12_def)
    show ?thesis using x b s(2) f by blast
  qed
qed

section \<open>Instances\<close>

definition ex_udpoenv :: udpoenv where
  "ex_udpoenv = \<lparr>uo_cksum = True, uo_lead = False, uo_mget = True, uo_odd = (\<lambda>_. False), uo_ttl = 30, uo_tos = 0, uo_err = 0\<rparr>"

lemma ex_sends: "\<exists>st' P. udp_send ex_udpoenv i m plen st = (st', 0, Some P)"
  by (simp add: udp_send_def vm_prepend_def ex_udpoenv_def Let_def)

text \<open>Three bytes from port 9 of 0.0.0.1 to port 53 of 0.0.0.2.\<close>

theorem udp_roundtrip_witness:
  "\<exists>st1 P c st' p. udp_send ex_udpoenv (ex_pcb 1 9 2 53) [ex_mb [1, 2, 3]] 3 ex_udpst = (st1, 0, Some P) \<and> carried (vbytes P) (vbytes c) \<and>
    udp_input ex_udpenv False 20 31 c ex_udpst = Some (Inr (st', None)) \<and>
    got p ([16, 2, 0, 9, 0, 0, 0, 1, 0, 0, 0, 0, 0, 0, 0, 0] @ [1, 2, 3]) ex_udpst st'"
proof -
  let ?i = "ex_pcb 1 9 2 53" and ?m = "[ex_mb [1, 2, 3]]"
  have n: "length (vbytes ?m) = 3" "vbytes ?m = [1, 2, 3]" by (simp_all add: ex_mb_def)
  obtain st1 P where s: "udp_send ex_udpoenv ?i ?m 3 ex_udpst = (st1, 0, Some P)" using ex_sends by blast
  define D where "D = [0x45, 0, 0, 11, 0, 0, 0, 0, 29, 17, 0, 0] @ drop 12 (vbytes P)"
  have b: "vbytes P = wr 1 [0] (wr 8 [30] (wr 2 (b16 31) (udp_hdr 11 ?i (udp_ck ex_udpoenv 11 ?i [1, 2, 3])))) @ [1, 2, 3]"
    using send_bytes(1)[of ?m ex_udpoenv ?i ex_udpst st1 0 P] s unfolding n by (simp add: ex_udpoenv_def)
  have "length (vbytes P) = 31" unfolding b by (simp add: length_wr)
  moreover have "vbytes P ! 9 = 17" unfolding b by (simp add: nth_append wr_nth length_wr) (simp add: udp_hdr_def nth_append)
  moreover have "uh_iplen D = 11" by (simp add: D_def uh_iplen_def rd16_def be16_def)
  ultimately have c: "carried (vbytes P) D" "length D = 31" by (simp_all add: carried_def after12_def D_def)
  let ?c = "[ex_mb D]"
  have v: "vbytes ?c = D" by (simp add: ex_mb_def)
  have a: "?m \<noteq> []" "length (vbytes ?m) \<le> 32739" "inp_laddr ?i \<noteq> 0" "?c \<noteq> []" "20 \<le> length (hdr_of ?c)" "ud_pull ex_udpenv"
    using c(2) by (simp_all add: n ex_pcb_def ex_mb_def ex_udpenv_def)
  have q: "\<exists>q\<in>set (pcbs (udb ex_udpst)). pcb_wild (inp_laddr ?i) (inp_lport ?i) (inp_faddr ?i) (inp_fport ?i) (pcb (udb ex_udpst) q) \<noteq> None"
    by (simp add: ex_udpst_def ex_udb_def ex_pcb_def pcb_wild_def)
  have s': "udp_send ex_udpoenv ?i ?m (int (length (vbytes ?m))) ex_udpst = (st1, 0, Some P)" using s unfolding n by simp
  have k: "udp_ctl ex_udpenv (inp_flags ex_udpst p) x = []" for p x by (simp add: udp_ctl_def ex_udpst_def)
  obtain st' p where r: "udp_input ex_udpenv False 20 (int (length (vbytes ?c))) ?c ex_udpst = Some (Inr (st', None))"
    "room ex_udpenv p (int (length ([] @ vbytes ?m))) ex_udpst \<longrightarrow>
     got p (([16, 2] @ b16 (inp_lport ?i) @ b32 (inp_laddr ?i) @ replicate 8 0) @ [] @ vbytes ?m) ex_udpst st'"
    using udp_roundtrip[OF a(1,2) s' a(3) _ a(4-6) ex_table_ok q, unfolded v, OF c(1)] unfolding k v by blast
  have "room ex_udpenv p (int (length ([] @ vbytes ?m))) ex_udpst" unfolding append_Nil n using ex_room[of 3 p] by simp
  then have "got p ([16, 2, 0, 9, 0, 0, 0, 1, 0, 0, 0, 0, 0, 0, 0, 0] @ [1, 2, 3]) ex_udpst st'"
    using r(2) unfolding append_Nil n by (simp add: ex_pcb_def b16_def b32_def replicate_8)
  moreover have "udp_input ex_udpenv False 20 31 ?c ex_udpst = Some (Inr (st', None))" using r(1) unfolding v c(2) by simp
  ultimately show ?thesis using s c(1) v by metis
qed

text \<open>The socket on port 53 answers port 7 of 0.0.0.2, and is as it was.\<close>

theorem udp_sendto_restores_witness:
  "\<exists>st' P. udp_output ex_udpoenv ex_pcbenv (Some 1) False 12 [ex_mb [1, 2, 3]] 3 (Some (Inr (2, 7))) ex_udpst = (st', 0, Some P) \<and>
    pcb (udb st') 12 = pcb (udb ex_udpst) 12 \<and> pcb (udb st') 13 = pcb (udb ex_udpst) 13 \<and>
    uh_src (vbytes P) = 1 \<and> uh_sport (vbytes P) = 53 \<and> uh_dst (vbytes P) = 2 \<and> uh_dport (vbytes P) = 7 \<and> drop 28 (vbytes P) = [1, 2, 3]"
proof -
  let ?m = "[ex_mb [1, 2, 3]]" and ?i = "pcb (udb ex_udpst) 12"
  have n: "length (vbytes ?m) = 3" "vbytes ?m = [1, 2, 3]" by (simp_all add: ex_mb_def)
  have i: "inp_faddr ?i = 0" "inp_fport ?i = 0" "inp_lport ?i = 53" "inp_laddr ?i = 0"
    "12 \<in> set (pcbs (udb ex_udpst))" "12 \<noteq> pcb_head (udb ex_udpst)" "13 \<noteq> pcb_head (udb ex_udpst)"
    by (simp_all add: ex_udpst_def ex_udb_def ex_pcb_def)
  have l: "in_pcblookup 2 7 1 53 False (udb ex_udpst) = None"
    by (simp add: in_pcblookup_def ex_udpst_def ex_udb_def ex_pcb_def pcb_wild_def)
  let ?t = "pcb_upd 12 (\<lambda>i. i\<lparr>inp_laddr := 1, inp_faddr := 2, inp_fport := 7\<rparr>) (udb ex_udpst)"
  have c: "in_pcbconnect ex_pcbenv (Some 1) 12 2 7 (udb ex_udpst) = (?t, 0)"
    using l by (simp add: in_pcbconnect_def i Let_def)
  obtain st1 P where s: "udp_send ex_udpoenv (pcb ?t 12) ?m 3 (ex_udpst\<lparr>udb := ?t\<rparr>) = (st1, 0, Some P)" using ex_sends by blast
  obtain st' where o: "udp_output ex_udpoenv ex_pcbenv (Some 1) False 12 ?m 3 (Some (Inr (2, 7))) ex_udpst = (st', 0, Some P)"
    using s c i by (simp add: udp_output_def udp_connect_def Let_def)
  then have "udp_output ex_udpoenv ex_pcbenv (Some 1) False 12 ?m (int (length (vbytes ?m))) (Some (Inr (2, 7))) ex_udpst = (st', 0, Some P)"
    unfolding n by simp
  from udp_sendto_restores[OF i(5,6,1,2) _ _ this] i n have
    "pcb (udb st') 13 = pcb (udb ex_udpst) 13"
    "\<exists>l. pcb (udb st') 12 = ?i\<lparr>inp_lport := l\<rparr> \<and> l = 53 \<and> uh_dst (vbytes P) = 2 \<and> uh_dport (vbytes P) = 7 \<and>
       uh_sport (vbytes P) = l \<and> uh_src (vbytes P) = 1 \<and> drop 28 (vbytes P) = [1, 2, 3]"
    by auto
  moreover have "?i\<lparr>inp_lport := 53\<rparr> = ?i" using i(3) by (cases ?i) simp
  ultimately show ?thesis using o by auto
qed

end
