(* ===== verification/Ip_Reass.thy ===== *)
theory Ip_Reass
  imports Amitcp_Prelude
begin

text \<open>
  Fragments of IP datagrams: the reassembly queues (\<open>ip_reass\<close>, \<open>ip_freef\<close>, \<open>ip_slowtimo\<close> and
  \<open>ip_drain\<close>, and \<open>ipintr\<close> from \<open>ours\<close> on, \<open>netinet/ip_input.c\<close>). A packet is its header in host order
  and its payload, the bytes behind the header; \<open>m_adj\<close> and \<open>m_cat\<close> act on these bytes. The counts of
  \<open>ipstat\<close> are not modelled. The queue \<open>ipq\<close> is the list from its head on, a queue its fragments from
  \<open>ipq_next\<close> on.
\<close>

definition IP_DF :: u16 where "IP_DF = 0x4000"
definition IP_MF :: u16 where "IP_MF = 0x2000"
definition IPFRAGTTL :: u8 where "IPFRAGTTL = 60"
definition IP_MAXFRAGPACKETS :: int where "IP_MAXFRAGPACKETS = 8"
definition IP_MAXFRAGSPERPACKET :: nat where "IP_MAXFRAGSPERPACKET = 64"

record ippkt =
  ip_p :: u8
  ip_id :: u16
  ip_src :: u32
  ip_dst :: u32
  ip_opts :: "u8 list"
  ip_off :: u16
  ip_len :: u16
  ip_data :: "u8 list"

definition ip_hlen :: "ippkt \<Rightarrow> nat" where
  "ip_hlen ip = 20 + length (ip_opts ip)"

text \<open>A fragment in a queue: \<open>ip_off\<close> and \<open>ip_len\<close> are the bytes before it and in it.\<close>

record ipfrag =
  fr_off :: u16
  fr_len :: u16
  ipf_mff :: bool
  fr_opts :: "u8 list"
  fr_data :: "u8 list"

record ipq =
  ipq_ttl :: u8
  ipq_p :: u8
  ipq_id :: u16
  ipq_src :: u32
  ipq_dst :: u32
  ipq_nfrags :: u16
  ipq_frags :: "ipfrag list"

record ipst =
  ipqs :: "ipq list"
  ip_nfrags :: int

section \<open>Overlaps\<close>

definition fr_end :: "ipfrag \<Rightarrow> nat" where
  "fr_end q = unat (fr_off q) + unat (fr_len q)"

definition fr_skip :: "nat \<Rightarrow> ipfrag \<Rightarrow> ipfrag" where
  "fr_skip i q = q\<lparr>fr_off := fr_off q + of_nat i, fr_len := fr_len q - of_nat i, fr_data := drop i (fr_data q)\<rparr>"

text \<open>Against the fragment before: \<open>None\<close> when that one has all the data.\<close>

definition fr_front :: "ipfrag list \<Rightarrow> ipfrag \<Rightarrow> ipfrag option" where
  "fr_front pre ip =
     (if pre = [] then Some ip
      else if fr_end (last pre) > unat (fr_off ip) then
        (let i = fr_end (last pre) - unat (fr_off ip)
         in if i \<ge> unat (fr_len ip) then None else Some (fr_skip i ip))
      else Some ip)"

fun fr_back :: "ipfrag \<Rightarrow> ipfrag list \<Rightarrow> ipfrag list" where
  "fr_back ip [] = []"
| "fr_back ip (q # qs) =
     (if fr_end ip > unat (fr_off q) then
        (let i = fr_end ip - unat (fr_off q)
         in if i < unat (fr_len q) then fr_skip i q # qs else fr_back ip qs)
      else q # qs)"

section \<open>Queues\<close>

definition ip_freef :: "nat \<Rightarrow> ipst \<Rightarrow> ipst" where
  "ip_freef n st = \<lparr>ipqs = take n (ipqs st) @ drop (Suc n) (ipqs st),
     ip_nfrags = (if ip_nfrags st > 0 then ip_nfrags st - 1 else ip_nfrags st)\<rparr>"

text \<open>The check for a complete datagram: its length, if the fragments follow each other from 0 on.\<close>

fun fr_total :: "nat \<Rightarrow> ipfrag list \<Rightarrow> nat option" where
  "fr_total nx [] = Some nx"
| "fr_total nx (q # qs) = (if fr_off q \<noteq> of_nat nx then None else fr_total (nx + unat (fr_len q)) qs)"

text \<open>The datagram of a complete queue.\<close>

definition ip_joined :: "nat \<Rightarrow> ipq \<Rightarrow> ippkt" where
  "ip_joined nx fp = \<lparr>ip_p = ipq_p fp, ip_id = ipq_id fp, ip_src = ipq_src fp, ip_dst = ipq_dst fp,
     ip_opts = fr_opts (hd (ipq_frags fp)), ip_off = fr_off (hd (ipq_frags fp)), ip_len = of_nat nx,
     ip_data = concat (map fr_data (ipq_frags fp))\<rparr>"

text \<open>From \<open>insert\<close> on: the fragment goes between \<open>pre\<close> and \<open>post\<close> of the queue \<open>n\<close>.\<close>

definition ip_insert :: "nat \<Rightarrow> ipq \<Rightarrow> ipfrag list \<Rightarrow> ipfrag \<Rightarrow> ipfrag list \<Rightarrow> ipst \<Rightarrow> ipst \<times> ippkt option" where
  "ip_insert n fp pre ip post st =
     (if unat (ipq_nfrags fp) \<ge> IP_MAXFRAGSPERPACKET
      then (st\<lparr>ipqs := (ipqs st)[n := fp\<lparr>ipq_frags := pre @ post\<rparr>]\<rparr>, None)
      else let fp1 = fp\<lparr>ipq_frags := pre @ ip # post, ipq_nfrags := ipq_nfrags fp + 1\<rparr>;
               st1 = st\<lparr>ipqs := (ipqs st)[n := fp1]\<rparr>
        in case fr_total 0 (ipq_frags fp1) of
             None \<Rightarrow> (st1, None)
           | Some nx \<Rightarrow>
               if ipf_mff (last (ipq_frags fp1)) then (st1, None)
               else if nx > 32767 then (ip_freef n st1, None)
               else (st1\<lparr>ipqs := take n (ipqs st1) @ drop (Suc n) (ipqs st1)\<rparr>, Some (ip_joined nx fp1)))"

text \<open>\<open>ip_reass\<close>; \<open>mget\<close> says whether \<open>m_get\<close> finds an mbuf for a new queue.\<close>

definition ip_newq :: "ippkt \<Rightarrow> ipq" where
  "ip_newq h = \<lparr>ipq_ttl = IPFRAGTTL, ipq_p = ip_p h, ipq_id = ip_id h, ipq_src = ip_src h, ipq_dst = ip_dst h,
     ipq_nfrags = 0, ipq_frags = []\<rparr>"

definition ip_reass :: "bool \<Rightarrow> ippkt \<Rightarrow> ipfrag \<Rightarrow> nat option \<Rightarrow> ipst \<Rightarrow> ipst \<times> ippkt option" where
  "ip_reass mget h ip fpn st =
     (case fpn of
        None \<Rightarrow>
          (let st1 = (if ip_nfrags st \<ge> IP_MAXFRAGPACKETS \<and> ipqs st \<noteq> [] then ip_freef (length (ipqs st) - 1) st else st)
           in if \<not> mget then (st1, None)
              else ip_insert 0 (ip_newq h) [] ip [] (st1\<lparr>ipqs := ip_newq h # ipqs st1, ip_nfrags := ip_nfrags st1 + 1\<rparr>))
      | Some n \<Rightarrow>
          (let fp = ipqs st ! n;
               pre = takeWhile (\<lambda>q. \<not> fr_off q > fr_off ip) (ipq_frags fp);
               post = dropWhile (\<lambda>q. \<not> fr_off q > fr_off ip) (ipq_frags fp)
           in case fr_front pre ip of
                None \<Rightarrow> (st, None)
              | Some ip1 \<Rightarrow>
                  (let post1 = fr_back ip1 post
                   in ip_insert n (fp\<lparr>ipq_nfrags := ipq_nfrags fp - of_nat (length post - length post1)\<rparr>) pre ip1 post1 st)))"

section \<open>Arrival and time\<close>

definition ipq_match :: "ippkt \<Rightarrow> ipq \<Rightarrow> bool" where
  "ipq_match h fp \<longleftrightarrow> ip_id h = ipq_id fp \<and> ip_src h = ipq_src fp \<and> ip_dst h = ipq_dst fp \<and> ip_p h = ipq_p fp"

fun ipq_find :: "ippkt \<Rightarrow> ipq list \<Rightarrow> nat option" where
  "ipq_find h [] = None"
| "ipq_find h (fp # fps) = (if ipq_match h fp then Some 0 else map_option Suc (ipq_find h fps))"

text \<open>\<open>ipintr\<close> from \<open>ours\<close> on: what goes to the protocol's input routine, if anything.\<close>

definition ip_ours :: "bool \<Rightarrow> ippkt \<Rightarrow> ipst \<Rightarrow> ipst \<times> ippkt option" where
  "ip_ours mget h st =
     (let len = ip_len h - of_nat (ip_hlen h) in
      if ip_off h AND NOT IP_DF \<noteq> 0 then
        (let fp = ipq_find h (ipqs st); mff = (ip_off h AND IP_MF \<noteq> 0); off = push_bit 3 (ip_off h) in
         if mff \<or> off \<noteq> 0
         then ip_reass mget h \<lparr>fr_off = off, fr_len = len, ipf_mff = mff, fr_opts = ip_opts h, fr_data = ip_data h\<rparr> fp st
         else (case fp of None \<Rightarrow> st | Some n \<Rightarrow> ip_freef n st, Some (h\<lparr>ip_len := len, ip_off := off\<rparr>)))
      else (st, Some (h\<lparr>ip_len := len\<rparr>)))"

text \<open>\<open>ip_slowtimo\<close>: at most 2000 queues a tick.\<close>

fun ip_age :: "nat \<Rightarrow> ipq list \<Rightarrow> int \<Rightarrow> ipq list \<times> int" where
  "ip_age 0 fps n = (fps, n)"
| "ip_age (Suc k) [] n = ([], n)"
| "ip_age (Suc k) (fp # fps) n =
     (let fp1 = fp\<lparr>ipq_ttl := ipq_ttl fp - 1\<rparr> in
      if ipq_ttl fp1 = 0 then ip_age k fps (if n > 0 then n - 1 else n)
      else (case ip_age k fps n of (fps1, n1) \<Rightarrow> (fp1 # fps1, n1)))"

definition ip_slowtimo :: "ipst \<Rightarrow> ipst" where
  "ip_slowtimo st = (case ip_age 2000 (ipqs st) (ip_nfrags st) of (fps, n) \<Rightarrow> \<lparr>ipqs = fps, ip_nfrags = n\<rparr>)"

definition ip_drain :: "ipst \<Rightarrow> ipst" where
  "ip_drain st = ((\<lambda>s. ip_freef 0 s) ^^ length (ipqs st)) st"

definition ip_init :: ipst where
  "ip_init = \<lparr>ipqs = [], ip_nfrags = 0\<rparr>"

section \<open>Traffic\<close>

text \<open>The datagrams that come out of a sequence of packets.\<close>

definition out_list :: "ippkt option \<Rightarrow> ippkt list" where
  "out_list r = (case r of None \<Rightarrow> [] | Some h \<Rightarrow> [h])"

fun ip_feed :: "ippkt list \<Rightarrow> ipst \<Rightarrow> ipst \<times> ippkt list" where
  "ip_feed [] st = (st, [])"
| "ip_feed (p # ps) st =
     (case ip_ours True p st of (st1, r) \<Rightarrow> case ip_feed ps st1 of (st2, ds) \<Rightarrow> (st2, out_list r @ ds))"

end
