(* ===== verification/Ip_Frag.thy ===== *)
theory Ip_Frag
  imports Ip_Reass
begin

text \<open>
  The fragmentation of a datagram that is too long for its interface (the end of \<open>ip_output\<close> and
  \<open>ip_optcopy\<close>, \<open>netinet/ip_output.c\<close>). The answers of \<open>MGETHDR\<close>, of \<open>m_copy\<close> and of the interface
  are arguments; the checksums of the headers are not part of a packet here.
\<close>

section \<open>Options\<close>

text \<open>
  \<open>ip_optcopy\<close>: the options of a datagram that go into every fragment; the loop does not end on an
  option of length 0. \<open>behind\<close> is the byte behind the options, which is read as the length of an option
  whose type is their last byte.
\<close>

definition IPOPT_COPIED :: "u8 \<Rightarrow> bool" where
  "IPOPT_COPIED opt \<longleftrightarrow> opt AND 0x80 \<noteq> 0"

definition optcopy_len :: "u8 \<Rightarrow> u8 list \<Rightarrow> nat" where
  "optcopy_len behind cp =
     (if hd cp = 1 then 1 else min (unat (if length cp > 1 then cp ! 1 else behind)) (length cp))"

partial_function (option) optcopy_loop :: "u8 \<Rightarrow> u8 list \<Rightarrow> u8 list \<Rightarrow> u8 list option" where
  "optcopy_loop behind cp dp =
     (if cp = [] \<or> hd cp = 0 then Some dp
      else optcopy_loop behind (drop (optcopy_len behind cp) cp)
        (if IPOPT_COPIED (hd cp) then dp @ take (optcopy_len behind cp) cp else dp))"

declare optcopy_loop.simps [code]

definition ip_optcopy :: "u8 \<Rightarrow> u8 list \<Rightarrow> u8 list option" where
  "ip_optcopy behind opts =
     map_option (\<lambda>dp. dp @ replicate ((4 - length dp mod 4) mod 4) 0) (optcopy_loop behind opts [])"

section \<open>Fragments\<close>

definition EMSGSIZE :: int where "EMSGSIZE = 40"

text \<open>The fragment with the \<open>len\<close> bytes from \<open>off\<close> on (offsets count the header); \<open>opts\<close> are its options.\<close>

definition frag_pkt :: "ippkt \<Rightarrow> u8 list \<Rightarrow> nat \<Rightarrow> nat \<Rightarrow> ippkt" where
  "frag_pkt h opts off len =
     (let o1 = of_nat ((off - ip_hlen h) div 8) + (ip_off h AND NOT IP_MF);
          o2 = (if ip_off h AND IP_MF \<noteq> 0 then o1 OR IP_MF else o1);
          more = off + len < unat (ip_len h);
          len1 = (if more then len else unat (ip_len h) - off)
      in h\<lparr>ip_opts := opts, ip_off := (if more then o2 OR IP_MF else o2), ip_len := of_nat (len1 + (20 + length opts)),
           ip_data := take len1 (drop (off - ip_hlen h) (ip_data h))\<rparr>)"

text \<open>
  The loop over the fragments behind the first one; \<open>mem k\<close> says whether both allocations for the
  \<open>k\<close>th succeed. The value is the error and the fragments made.
\<close>

partial_function (option) frag_loop ::
  "u8 \<Rightarrow> (nat \<Rightarrow> bool) \<Rightarrow> nat \<Rightarrow> ippkt \<Rightarrow> nat \<Rightarrow> nat \<Rightarrow> (int \<times> ippkt list) option" where
  "frag_loop behind mem k h len off =
     (if \<not> off < unat (ip_len h) then Some (0, [])
      else if \<not> mem k then Some (ENOBUFS, [])
      else Option.bind (if ip_hlen h > 20 then ip_optcopy behind (ip_opts h) else Some [])
        (\<lambda>opts. Option.bind (frag_loop behind mem (Suc k) h len (off + len))
          (\<lambda>(err, ps). Some (err, frag_pkt h opts off len # ps))))"

declare frag_loop.simps [code]

text \<open>\<open>sendorfree\<close>: the packets handed to the interface, up to the first that it refuses.\<close>

fun frag_send :: "(nat \<Rightarrow> int) \<Rightarrow> nat \<Rightarrow> ippkt list \<Rightarrow> int \<times> ippkt list" where
  "frag_send out k [] = (0, [])"
| "frag_send out k (p # ps) =
     (if out k \<noteq> 0 then (out k, [p]) else (case frag_send out (Suc k) ps of (err, qs) \<Rightarrow> (err, p # qs)))"

definition frag_first :: "ippkt \<Rightarrow> nat \<Rightarrow> ippkt" where
  "frag_first h len = h\<lparr>ip_off := ip_off h OR IP_MF, ip_len := of_nat (ip_hlen h + len), ip_data := take len (ip_data h)\<rparr>"

text \<open>\<open>ip_output\<close> from the test of the length on; \<open>mtu\<close> is a \<open>short\<close>.\<close>

definition ip_fragment ::
  "u8 \<Rightarrow> (nat \<Rightarrow> bool) \<Rightarrow> (nat \<Rightarrow> int) \<Rightarrow> u16 \<Rightarrow> ippkt \<Rightarrow> (int \<times> ippkt list) option" where
  "ip_fragment behind mem out mtu h =
     (let len = (sint mtu - int (ip_hlen h)) AND NOT 7 in
      if ip_len h \<le> mtu then Some (frag_send out 0 [h])
      else if ip_off h AND IP_DF \<noteq> 0 then Some (EMSGSIZE, [])
      else if len < 8 then Some (EMSGSIZE, [])
      else map_option (\<lambda>(err, ps). if err \<noteq> 0 then (err, []) else frag_send out 0 (frag_first h (nat len) # ps))
             (frag_loop behind mem 0 h (nat len) (ip_hlen h + nat len)))"

end
