(* ===== verification/Ip_Reass_Correct.thy ===== *)
theory Ip_Reass_Correct
  imports Ip_Frag
begin

text \<open>
  Fragments come together again: a queue holds the fragments of its datagram in their order whatever
  the order of their arrival, the datagram comes out with the last one that was missing, and what
  \<open>ip_output\<close> makes of a datagram is what the queue puts together.
\<close>

section \<open>The fragments of one datagram\<close>

lemma unat16 [simp]: "n < 65536 \<Longrightarrow> unat (of_nat n :: u16) = n"
  by (simp add: unsigned_of_nat take_bit_nat_eq_self_iff)

lemma off_of_unat: "unat (x :: u16) = n \<Longrightarrow> x = of_nat n"
  by (metis of_nat_unat ucast_id)

fun fr_chain :: "nat \<Rightarrow> ipfrag list \<Rightarrow> bool" where
  "fr_chain n [] = True"
| "fr_chain n (q # qs) \<longleftrightarrow> unat (fr_off q) = n \<and> 0 < unat (fr_len q) \<and> length (fr_data q) = unat (fr_len q) \<and>
     fr_chain (n + unat (fr_len q)) qs"

definition flen :: "ipfrag list \<Rightarrow> nat" where
  "flen F = sum_list (map (\<lambda>q. unat (fr_len q)) F)"

lemma flen_simps [simp]: "flen [] = 0" "flen (q # qs) = unat (fr_len q) + flen qs" "flen (A @ B) = flen A + flen B"
  by (simp_all add: flen_def)

lemma fr_chain_append: "fr_chain n (A @ B) \<longleftrightarrow> fr_chain n A \<and> fr_chain (n + flen A) B"
  by (induction A arbitrary: n) (auto simp: add.assoc)

lemma fr_chain_bounds:
  "fr_chain n F \<Longrightarrow> q \<in> set F \<Longrightarrow> n \<le> unat (fr_off q) \<and> unat (fr_off q) < fr_end q \<and> fr_end q \<le> n + flen F"
proof (induction F arbitrary: n)
  case (Cons a F)
  from Cons.prems(2) consider "q = a" | "q \<in> set F" by auto
  then show ?case
  proof cases
    case 1
    then show ?thesis using Cons.prems(1) by (simp add: fr_end_def)
  next
    case 2
    then show ?thesis using Cons.prems(1) Cons.IH[of "n + unat (fr_len a)"] by fastforce
  qed
qed simp

lemma fr_chain_around:
  assumes "fr_chain n (A @ p # B)"
  shows "q \<in> set A \<Longrightarrow> fr_end q \<le> unat (fr_off p) \<and> unat (fr_off q) < unat (fr_off p)"
    "q \<in> set B \<Longrightarrow> fr_end p \<le> unat (fr_off q) \<and> unat (fr_off p) < unat (fr_off q)"
proof -
  have c: "fr_chain n A" "fr_chain (n + flen A) (p # B)" using assms by (simp_all add: fr_chain_append)
  then have p: "unat (fr_off p) = n + flen A" "0 < unat (fr_len p)" "fr_chain (fr_end p) B"
    by (simp_all add: fr_end_def)
  show "q \<in> set A \<Longrightarrow> fr_end q \<le> unat (fr_off p) \<and> unat (fr_off q) < unat (fr_off p)"
    using fr_chain_bounds[OF c(1)] p(1) by fastforce
  show "q \<in> set B \<Longrightarrow> fr_end p \<le> unat (fr_off q) \<and> unat (fr_off p) < unat (fr_off q)"
    using fr_chain_bounds[OF p(3)] p(2) by (fastforce simp: fr_end_def)
qed

lemma fr_chain_notin: "fr_chain n (A @ p # B) \<Longrightarrow> p \<notin> set A \<and> p \<notin> set B"
  using fr_chain_around by blast

lemma fr_total_prefix:
  assumes "fr_chain n F" "n + flen F < 65536" "fr_total n (filter P F) = Some m"
  shows "\<exists>k. filter P F = take k F"
  using assms
proof (induction F arbitrary: n)
  case (Cons q F)
  show ?case
  proof (cases "P q")
    case True
    have "fr_total (n + unat (fr_len q)) (filter P F) = Some m"
      using Cons.prems True by (simp split: if_splits)
    then obtain k where "filter P F = take k F" using Cons.IH[of "n + unat (fr_len q)"] Cons.prems by auto
    then have "filter P (q # F) = take (Suc k) (q # F)" using True by simp
    then show ?thesis by blast
  next
    case False
    show ?thesis
    proof (cases "filter P F")
      case (Cons r R)
      have "r \<in> set F" using Cons by (metis filter_eq_ConsD in_set_conv_decomp)
      then have "fr_end q \<le> unat (fr_off r)" using fr_chain_around(2)[of n "[]" q F r] Cons.prems(1) by simp
      then have "n < unat (fr_off r)" using Cons.prems(1) by (simp add: fr_end_def)
      then have "fr_off r \<noteq> of_nat n" using Cons.prems(2) by auto
      then show ?thesis using Cons.prems(3) False Cons by simp
    qed (use False in \<open>auto intro: exI[of _ 0]\<close>)
  qed
qed simp

lemma fr_total_whole: "fr_chain n F \<Longrightarrow> n + flen F < 65536 \<Longrightarrow> fr_total n F = Some (n + flen F)"
proof (induction F arbitrary: n)
  case (Cons q F)
  then have "fr_off q = of_nat n" by (simp add: off_of_unat)
  then show ?case using Cons by (simp add: add.assoc)
qed simp

text \<open>The fragments of a whole datagram.\<close>

definition whole :: "ipfrag list \<Rightarrow> bool" where
  "whole F \<longleftrightarrow> fr_chain 0 F \<and> flen F \<le> 32767 \<and> length F \<le> 64 \<and> 2 \<le> length F \<and> (\<forall>q\<in>set F. ipf_mff q \<longleftrightarrow> q \<noteq> last F)"

lemma fr_chain_distinct: "fr_chain n F \<Longrightarrow> distinct F"
  by (induction F arbitrary: n) (use fr_chain_around(2)[of _ "[]"] in fastforce)+

lemma whole_distinct: "whole F \<Longrightarrow> distinct F"
  using fr_chain_distinct by (auto simp: whole_def)

text \<open>A queue that has some of them, the newest in the list.\<close>

definition qst :: "ipq \<Rightarrow> ipfrag list \<Rightarrow> ipq list \<Rightarrow> int \<Rightarrow> ipst" where
  "qst fp G rest n = \<lparr>ipqs = fp\<lparr>ipq_frags := G, ipq_nfrags := of_nat (length G)\<rparr> # rest, ip_nfrags = n\<rparr>"

lemma insert_whole:
  assumes "whole F" "pre @ p # post = filter P F" "ipq_nfrags fp = of_nat (length pre + length post)"
    "ipqs st = fp0 # rest" "ip_nfrags st = n"
  shows "ip_insert 0 fp pre p post st =
    (if filter P F = F then (\<lparr>ipqs = rest, ip_nfrags = n\<rparr>, Some (ip_joined (flen F) (fp\<lparr>ipq_frags := F\<rparr>)))
     else (qst fp (filter P F) rest n, None))"
proof -
  let ?G = "filter P F"
  have st: "st = \<lparr>ipqs = fp0 # rest, ip_nfrags = n\<rparr>" using assms(4,5) by simp
  have w: "fr_chain 0 F" "flen F < 65536" "length F \<le> 64" "flen F \<le> 32767" "2 \<le> length F"
    "\<forall>q\<in>set F. ipf_mff q \<longleftrightarrow> q \<noteq> last F"
    using assms(1) by (simp_all add: whole_def)
  have l: "length ?G = Suc (length pre + length post)" by (simp flip: assms(2))
  have n: "unat (ipq_nfrags fp) = length pre + length post" "length pre + length post < 64"
    using l w(3) length_filter_le[of P F] assms(3) unat16[of "length pre + length post"]
    by (simp_all del: unat16)
  have k: "ipq_nfrags fp + 1 = of_nat (length ?G)" by (simp add: assms(3) l)
  show ?thesis
  proof (cases "?G = F")
    case True
    have "last F \<in> set F" using w(5) by (intro last_in_set) auto
    then have m: "\<not> ipf_mff (last F)" using w(6) by blast
    show ?thesis
      using n m w(4) k fr_total_whole[of 0 F] w(1,2) True
      by (simp add: ip_insert_def IP_MAXFRAGSPERPACKET_def assms(2) ip_joined_def st Let_def)
  next
    case False
    have "fr_total 0 ?G = None \<or> ipf_mff (last ?G)"
    proof (cases "fr_total 0 ?G")
      case (Some m)
      then obtain j where j: "?G = take j F" using fr_total_prefix[of 0 F P m] w(1,2) by auto
      then have "j < length F" using False by (metis leI take_all)
      moreover have "?G \<noteq> []" using l by auto
      ultimately have "last ?G = F ! (j - 1)" "0 < j"
        using j by (auto simp: last_conv_nth min_def)
      moreover have "last F = F ! (length F - 1)" using w(5) by (intro last_conv_nth) auto
      ultimately have "last ?G \<noteq> last F"
        using whole_distinct[OF assms(1)] \<open>j < length F\<close> by (simp add: nth_eq_iff_index_eq)
      moreover have "last ?G \<in> set F" using \<open>?G \<noteq> []\<close> by (metis filter_is_subset last_in_set subsetD)
      ultimately show ?thesis using w(6) by blast
    qed simp
    then show ?thesis
      using n False k
      by (auto simp: ip_insert_def IP_MAXFRAGSPERPACKET_def assms(2) st qst_def Let_def split: option.splits)
  qed
qed

lemma while_split:
  "\<forall>x\<in>set X. P x \<Longrightarrow> \<forall>y\<in>set Y. \<not> P y \<Longrightarrow> takeWhile P (X @ Y) = X \<and> dropWhile P (X @ Y) = Y"
  by (induction X) (cases Y; auto)+

lemma back_clear: "\<forall>q\<in>set qs. fr_end p \<le> unat (fr_off q) \<Longrightarrow> fr_back p qs = qs"
  by (cases qs) auto

lemma reass_step:
  assumes "whole F" "p \<in> set F"
  shows "ip_reass True h p (Some 0) (qst fp (filter (\<lambda>q. q \<in> S) F) rest n) =
    (if p \<in> S then (qst fp (filter (\<lambda>q. q \<in> S) F) rest n, None)
     else if F = filter (\<lambda>q. q \<in> insert p S) F
       then (\<lparr>ipqs = rest, ip_nfrags = n\<rparr>, Some (ip_joined (flen F) (fp\<lparr>ipq_frags := F\<rparr>)))
     else (qst fp (filter (\<lambda>q. q \<in> insert p S) F) rest n, None))"
proof -
  obtain A B where F: "F = A @ p # B" using split_list[OF assms(2)] by blast
  have c: "fr_chain 0 (A @ p # B)" using assms(1) by (simp add: whole_def F)
  let ?A = "filter (\<lambda>q. q \<in> S) A" and ?B = "filter (\<lambda>q. q \<in> S) B"
  let ?P = "\<lambda>q. \<not> fr_off q > fr_off p"
  have lo: "\<forall>q\<in>set ?A. ?P q" "\<forall>q\<in>set ?B. \<not> ?P q"
    using fr_chain_around[OF c] by (fastforce simp: word_less_nat_alt)+
  have le: "unat (fr_off p) < fr_end p" using fr_chain_bounds[OF c, of p] by simp
  have af: "fr_end q \<le> unat (fr_off p)" if "q \<in> set ?A" for q using fr_chain_around(1)[OF c] that by simp
  show ?thesis
  proof (cases "p \<in> S")
    case True
    have w: "takeWhile ?P ((?A @ [p]) @ ?B) = ?A @ [p]" using while_split[of "?A @ [p]" ?P ?B] lo by auto
    have "fr_front (?A @ [p]) p = None"
      using le by (simp add: fr_front_def Let_def) (simp add: fr_end_def)
    then show ?thesis using True w by (simp add: ip_reass_def qst_def F Let_def)
  next
    case False
    have w: "takeWhile ?P (?A @ ?B) = ?A" "dropWhile ?P (?A @ ?B) = ?B"
      using while_split[OF lo] by simp_all
    have f: "fr_front ?A p = Some p"
    proof (cases "?A = []")
      case False
      then show ?thesis using af[OF last_in_set[OF False]] by (simp add: fr_front_def)
    qed (simp add: fr_front_def)
    have b: "fr_back p ?B = ?B" by (rule back_clear) (use fr_chain_around(2)[OF c] in auto)
    have e: "?A @ p # ?B = filter (\<lambda>q. q \<in> insert p S) F"
    proof -
      have "filter (\<lambda>q. q \<in> insert p S) A = ?A" "filter (\<lambda>q. q \<in> insert p S) B = ?B"
        by (rule filter_cong, use fr_chain_notin[OF c] in auto)+
      then show ?thesis by (simp add: F)
    qed
    let ?fp = "fp\<lparr>ipq_frags := ?A @ ?B, ipq_nfrags := of_nat (length ?A + length ?B)\<rparr>"
    have i: "ip_insert 0 ?fp ?A p ?B \<lparr>ipqs = ?fp # rest, ip_nfrags = n\<rparr> =
      (if filter (\<lambda>q. q \<in> insert p S) F = F
       then (\<lparr>ipqs = rest, ip_nfrags = n\<rparr>, Some (ip_joined (flen F) (?fp\<lparr>ipq_frags := F\<rparr>)))
       else (qst ?fp (filter (\<lambda>q. q \<in> insert p S) F) rest n, None))"
      by (rule insert_whole[OF assms(1) e]) simp_all
    have "ip_reass True h p (Some 0) (qst fp (filter (\<lambda>q. q \<in> S) F) rest n) =
      ip_insert 0 ?fp ?A p ?B \<lparr>ipqs = ?fp # rest, ip_nfrags = n\<rparr>"
      using False w f b by (simp add: ip_reass_def qst_def F Let_def)
    also note i
    also have "qst ?fp G rest n = qst fp G rest n" for G by (simp add: qst_def)
    also have "ip_joined (flen F) (?fp\<lparr>ipq_frags := F\<rparr>) = ip_joined (flen F) (fp\<lparr>ipq_frags := F\<rparr>)"
      by (simp add: ip_joined_def)
    finally show ?thesis using False by auto
  qed
qed

section \<open>Arrival in any order\<close>

definition frag_of :: "ippkt \<Rightarrow> ipfrag" where
  "frag_of p = \<lparr>fr_off = push_bit 3 (ip_off p), fr_len = ip_len p - of_nat (ip_hlen p), ipf_mff = (ip_off p AND IP_MF \<noteq> 0),
     fr_opts = ip_opts p, fr_data = ip_data p\<rparr>"

definition same_dgram :: "ippkt \<Rightarrow> ippkt \<Rightarrow> bool" where
  "same_dgram h p \<longleftrightarrow> ip_p p = ip_p h \<and> ip_id p = ip_id h \<and> ip_src p = ip_src h \<and> ip_dst p = ip_dst h"

definition is_frag :: "ippkt \<Rightarrow> bool" where
  "is_frag p \<longleftrightarrow> ip_off p AND IP_MF \<noteq> 0 \<or> push_bit 3 (ip_off p) \<noteq> 0"

lemma is_frag_off: "is_frag p \<Longrightarrow> ip_off p AND NOT IP_DF \<noteq> 0"
proof
  assume f: "is_frag p" and z: "ip_off p AND NOT IP_DF = 0"
  have "ip_off p = (ip_off p AND IP_DF) OR (ip_off p AND NOT IP_DF)"
    by (simp flip: bit.conj_disj_distrib)
  then have e: "ip_off p = ip_off p AND IP_DF" using z by simp
  have "ip_off p AND IP_MF = ip_off p AND (IP_DF AND IP_MF)" by (subst e) (simp add: ac_simps)
  then have "ip_off p AND IP_MF = 0" by (simp add: IP_DF_def IP_MF_def)
  moreover have "push_bit 3 (ip_off p) = push_bit 3 (ip_off p) AND push_bit 3 IP_DF" by (subst e) (simp add: push_bit_and)
  moreover have "push_bit 3 IP_DF = 0" by (simp add: IP_DF_def word_eq_iff_unsigned)
  ultimately have "push_bit 3 (ip_off p) = 0" "ip_off p AND IP_MF = 0" by simp_all
  then show False using f by (simp add: is_frag_def)
qed

lemma ours_frag:
  "is_frag p \<Longrightarrow> ip_ours True p st = ip_reass True p (frag_of p) (ipq_find p (ipqs st)) st"
  using is_frag_off[of p] by (auto simp: ip_ours_def is_frag_def frag_of_def Let_def)

lemma find_first: "same_dgram h p \<Longrightarrow> ipq_find p (ipqs (qst (ip_newq h) G rest n)) = Some 0"
  by (simp add: qst_def ip_newq_def ipq_match_def same_dgram_def)

lemma filter_full: "filter (\<lambda>q. q \<in> S) F = F \<longleftrightarrow> set F \<subseteq> S"
  by (auto simp: filter_id_conv)

lemma feed_some:
  assumes "whole F" "\<forall>p\<in>set qs. is_frag p \<and> same_dgram h p \<and> frag_of p \<in> set F" "qs \<noteq> []"
    "set F \<subseteq> S \<union> frag_of ` set qs" "frag_of (last qs) \<notin> S \<union> frag_of ` set (butlast qs)"
  shows "ip_feed qs (qst (ip_newq h) (filter (\<lambda>q. q \<in> S) F) rest n) =
    (\<lparr>ipqs = rest, ip_nfrags = n\<rparr>, [ip_joined (flen F) ((ip_newq h)\<lparr>ipq_frags := F\<rparr>)])"
  using assms(2-)
proof (induction qs arbitrary: S)
  case (Cons p ps)
  let ?st = "\<lambda>S. qst (ip_newq h) (filter (\<lambda>q. q \<in> S) F) rest n"
  have p: "is_frag p" "same_dgram h p" "frag_of p \<in> set F" using Cons.prems(1) by auto
  have o: "ip_ours True p (?st S) = ip_reass True p (frag_of p) (Some 0) (?st S)"
    using ours_frag[OF p(1)] find_first[OF p(2)] by simp
  note s = reass_step[OF assms(1) p(3), of p "ip_newq h" S rest n]
  show ?case
  proof (cases "ps = []")
    case True
    then have "frag_of p \<notin> S" "F = filter (\<lambda>q. q \<in> insert (frag_of p) S) F"
      using Cons.prems(3,4) filter_full[of "insert (frag_of p) S" F] by auto
    then show ?thesis using o s True by (simp add: out_list_def)
  next
    case False
    have lp: "frag_of (last ps) \<notin> insert (frag_of p) (S \<union> frag_of ` set (butlast ps))"
      using Cons.prems(4) False by auto
    have l: "frag_of (last ps) \<in> set F" using Cons.prems(1) False by simp
    show ?thesis
    proof (cases "frag_of p \<in> S")
      case True
      have "ip_feed ps (?st S) = (\<lparr>ipqs = rest, ip_nfrags = n\<rparr>, [ip_joined (flen F) ((ip_newq h)\<lparr>ipq_frags := F\<rparr>)])"
        using Cons.IH[of S] Cons.prems(1,3) False lp True by auto
      then show ?thesis using o s True by (simp add: out_list_def)
    next
      case new: False
      have "F \<noteq> filter (\<lambda>q. q \<in> insert (frag_of p) S) F"
        using filter_full[of "insert (frag_of p) S" F] l lp by auto
      then have r: "ip_ours True p (?st S) = (?st (insert (frag_of p) S), None)" using o s new by simp
      have "ip_feed ps (?st (insert (frag_of p) S)) =
          (\<lparr>ipqs = rest, ip_nfrags = n\<rparr>, [ip_joined (flen F) ((ip_newq h)\<lparr>ipq_frags := F\<rparr>)])"
        using Cons.IH[of "insert (frag_of p) S"] Cons.prems(1,3) False lp by auto
      then show ?thesis using r by (simp add: out_list_def)
    qed
  qed
qed simp

text \<open>The room made for a new queue.\<close>

definition ip_evict :: "ipst \<Rightarrow> ipst" where
  "ip_evict st = (if ip_nfrags st \<ge> IP_MAXFRAGPACKETS \<and> ipqs st \<noteq> [] then ip_freef (length (ipqs st) - 1) st else st)"

lemma reass_new:
  "ip_reass True h p None st = ip_insert 0 (ip_newq h) [] p []
     \<lparr>ipqs = ip_newq h # ipqs (ip_evict st), ip_nfrags = ip_nfrags (ip_evict st) + 1\<rparr>"
proof -
  have u: "e\<lparr>ipqs := a, ip_nfrags := b\<rparr> = \<lparr>ipqs = a, ip_nfrags = b\<rparr>" for e :: ipst and a b by (cases e) simp
  show ?thesis by (simp add: ip_reass_def ip_evict_def Let_def u)
qed

text \<open>The first fragment of a datagram to arrive.\<close>

lemma first_arrives:
  assumes "whole F" "is_frag p" "same_dgram h p" "frag_of p \<in> set F" "ipq_find h (ipqs st) = None"
  shows "ip_ours True p st = (qst (ip_newq h) [frag_of p] (ipqs (ip_evict st)) (ip_nfrags (ip_evict st) + 1), None)"
proof -
  have F: "2 \<le> length F" "distinct F" using assms(1) whole_distinct by (auto simp: whole_def)
  have k: "ip_newq p = ip_newq h" using assms(3) by (simp add: ip_newq_def same_dgram_def)
  have fnd: "ipq_find p fps = ipq_find h fps" for fps
    using assms(3) by (induction fps) (simp_all add: ipq_match_def same_dgram_def)
  let ?F1 = "filter (\<lambda>q. q \<in> {frag_of p}) F"
  have one: "?F1 = [frag_of p]" using F(2) assms(4) by (induction F) (auto simp: filter_empty_conv)
  have ne: "?F1 \<noteq> F" using one F(1) by auto
  have i: "ip_insert 0 (ip_newq h) [] (frag_of p) []
      \<lparr>ipqs = ip_newq h # ipqs (ip_evict st), ip_nfrags = ip_nfrags (ip_evict st) + 1\<rparr> =
    (qst (ip_newq h) ?F1 (ipqs (ip_evict st)) (ip_nfrags (ip_evict st) + 1), None)"
    using insert_whole[OF assms(1), of "[]" "frag_of p" "[]" "\<lambda>q. q \<in> {frag_of p}" "ip_newq h"] one ne by (simp add: ip_newq_def)
  show ?thesis using ours_frag[OF assms(2)] fnd assms(5) i[unfolded one] by (simp add: reass_new k)
qed

lemma feed_whole:
  assumes "whole F" "\<forall>p\<in>set qs. is_frag p \<and> same_dgram h p" "frag_of ` set qs = set F"
    "frag_of (last qs) \<notin> frag_of ` set (butlast qs)" "ipq_find h (ipqs st) = None"
  shows "ip_feed qs st = (\<lparr>ipqs = ipqs (ip_evict st), ip_nfrags = ip_nfrags (ip_evict st) + 1\<rparr>,
    [ip_joined (flen F) ((ip_newq h)\<lparr>ipq_frags := F\<rparr>)])"
proof -
  have F: "2 \<le> length F" "distinct F" using assms(1) whole_distinct by (auto simp: whole_def)
  obtain p ps where qs: "qs = p # ps" using assms(3) F(1) by (cases qs) auto
  have p: "is_frag p" "same_dgram h p" "frag_of p \<in> set F" using assms(2,3) qs by auto
  note o = first_arrives[OF assms(1) p assms(5)]
  have one: "filter (\<lambda>q. q \<in> {frag_of p}) F = [frag_of p]"
    using F(2) p(3) by (induction F) (auto simp: filter_empty_conv)
  have ps: "ps \<noteq> []" using assms(3) F qs by (cases F; cases "tl F") auto
  have "ip_feed ps (qst (ip_newq h) (filter (\<lambda>q. q \<in> {frag_of p}) F) (ipqs (ip_evict st)) (ip_nfrags (ip_evict st) + 1)) =
    (\<lparr>ipqs = ipqs (ip_evict st), ip_nfrags = ip_nfrags (ip_evict st) + 1\<rparr>,
      [ip_joined (flen F) ((ip_newq h)\<lparr>ipq_frags := F\<rparr>)])"
    by (rule feed_some[OF assms(1) _ ps]) (use assms(2-4) qs ps in auto)
  then show ?thesis using o one by (simp add: qs out_list_def)
qed

end
