(* ===== verification/Ip_Frag_Correct.thy ===== *)
theory Ip_Frag_Correct
  imports Ip_Reass_Correct
begin

text \<open>
  The round trip of a datagram: the fragments \<open>ip_output\<close> makes of it follow each other, so that the
  queue of the receiver puts the datagram together again.
\<close>

section \<open>One fragment\<close>

lemma mf_bit: "m < 8192 \<Longrightarrow> (of_nat m :: u16) AND IP_MF = 0"
proof -
  assume "m < 8192"
  then have "\<not> bit m 13" by (simp add: bit_iff_odd)
  then have "\<not> bit (of_nat m :: u16) 13" by (simp add: bit_simps)
  then have "(of_nat m :: u16) AND 2 ^ 13 = 0" by (simp only: and_exp_eq_0_iff_not_bit) simp
  then show ?thesis by (simp add: IP_MF_def)
qed

lemma mf_out: "push_bit 3 IP_MF = 0"
  by (simp add: IP_MF_def word_eq_iff_unsigned)

lemma off_bits:
  assumes "8 dvd k"
  shows "push_bit 3 (of_nat (k div 8) :: u16) = of_nat k"
proof -
  have "push_bit 3 (of_nat (k div 8) :: u16) = of_nat (k div 8) * 2 ^ 3" by (rule push_bit_eq_mult)
  also have "\<dots> = of_nat (k div 8 * 8)" by simp
  finally show ?thesis using assms by simp
qed

definition good_dgram :: "ippkt \<Rightarrow> bool" where
  "good_dgram h \<longleftrightarrow> ip_off h = 0 \<and> ip_len h = of_nat (ip_hlen h + length (ip_data h)) \<and> ip_hlen h \<le> 60 \<and>
     length (ip_data h) \<le> 32767"

lemma good_len: "good_dgram h \<Longrightarrow> unat (ip_len h) = ip_hlen h + length (ip_data h)"
  by (simp add: good_dgram_def del: of_nat_add)

lemma frag_of_pkt:
  assumes "good_dgram h" "8 dvd k" "k < length (ip_data h)"
  shows "frag_of (frag_pkt h opts (ip_hlen h + k) len) =
    \<lparr>fr_off = of_nat k, fr_len = of_nat (min len (length (ip_data h) - k)), ipf_mff = (k + len < length (ip_data h)),
     fr_opts = opts, fr_data = take len (drop k (ip_data h))\<rparr>"
proof -
  let ?o = "of_nat (k div 8) :: u16"
  have m: "?o AND IP_MF = 0" using assms by (intro mf_bit) (auto simp: good_dgram_def)
  have m2: "(?o OR IP_MF) AND IP_MF \<noteq> 0"
    by (simp add: bit.conj_disj_distrib2 m) (simp add: IP_MF_def)
  have p: "push_bit 3 (?o OR IP_MF) = of_nat k" "push_bit 3 ?o = of_nat k"
    by (simp_all add: push_bit_or mf_out off_bits[OF assms(2)])
  have z: "ip_off h = 0" using assms(1) by (simp add: good_dgram_def)
  show ?thesis
    using m m2 p assms(3)
    by (cases "k + len < length (ip_data h)")
      (simp_all add: frag_of_def frag_pkt_def good_len[OF assms(1)] z Let_def ip_hlen_def)
qed

lemma frag_pkt_same: "same_dgram h (frag_pkt h opts off len)"
  by (simp add: same_dgram_def frag_pkt_def Let_def)

lemma frag_pkt_is: "good_dgram h \<Longrightarrow> 8 dvd k \<Longrightarrow> 0 < k \<Longrightarrow> k < length (ip_data h) \<Longrightarrow>
  is_frag (frag_pkt h opts (ip_hlen h + k) len)"
proof -
  assume a: "good_dgram h" "8 dvd k" "0 < k" "k < length (ip_data h)"
  have "fr_off (frag_of (frag_pkt h opts (ip_hlen h + k) len)) = of_nat k" using frag_of_pkt[OF a(1,2,4)] by simp
  moreover have "(of_nat k :: u16) \<noteq> 0"
  proof
    assume "(of_nat k :: u16) = 0"
    then have "unat (of_nat k :: u16) = 0" by simp
    moreover have "unat (of_nat k :: u16) = k" by (rule unat16) (use a in \<open>auto simp: good_dgram_def\<close>)
    ultimately show False using a(3) by simp
  qed
  ultimately show ?thesis by (simp add: is_frag_def frag_of_def)
qed

section \<open>All of them\<close>

text \<open>The fragments from the byte \<open>k\<close> on.\<close>

definition frags_from :: "ippkt \<Rightarrow> nat \<Rightarrow> ippkt list \<Rightarrow> bool" where
  "frags_from h k ps \<longleftrightarrow> fr_chain k (map frag_of ps) \<and> flen (map frag_of ps) = length (ip_data h) - k \<and>
     concat (map ip_data ps) = drop k (ip_data h) \<and> (\<forall>p\<in>set ps. is_frag p \<and> same_dgram h p) \<and>
     (ps \<noteq> [] \<longrightarrow> (\<forall>p\<in>set (butlast ps). ipf_mff (frag_of p)) \<and> \<not> ipf_mff (frag_of (last ps)))"

lemma frag_loop_makes:
  assumes "good_dgram h" "8 dvd len" "0 < len" "ip_optcopy b (ip_opts h) = Some os" "8 dvd k" "0 < k"
  shows "\<exists>ps. frag_loop b (\<lambda>_. True) i h len (ip_hlen h + k) = Some (0, ps) \<and> frags_from h k ps \<and>
    (k < length (ip_data h) \<longrightarrow> ps \<noteq> [])"
  using assms(5,6)
proof (induction "length (ip_data h) - k" arbitrary: k i rule: less_induct)
  case less
  let ?d = "length (ip_data h)"
  show ?case
  proof (cases "k < ?d")
    case False
    then show ?thesis
      by (subst frag_loop.simps) (simp add: good_len[OF assms(1)] frags_from_def)
  next
    case True
    define opts where "opts = (if ip_hlen h > 20 then os else [])"
    have o: "(if ip_hlen h > 20 then ip_optcopy b (ip_opts h) else Some []) = Some opts"
      by (simp add: opts_def assms(4))
    let ?p = "frag_pkt h opts (ip_hlen h + k) len"
    obtain ps where l: "frag_loop b (\<lambda>_. True) (Suc i) h len (ip_hlen h + (k + len)) = Some (0, ps)"
      and f: "frags_from h (k + len) ps" "k + len < ?d \<longrightarrow> ps \<noteq> []"
    proof -
      have "length (ip_data h) - (k + len) < length (ip_data h) - k" "8 dvd k + len" "0 < k + len"
        using less.prems True assms(2,3) by auto
      from less.hyps[OF this, of "Suc i"] show ?thesis using that by blast
    qed
    have "frag_loop b (\<lambda>_. True) i h len (ip_hlen h + k) = Some (0, ?p # ps)"
      by (subst frag_loop.simps) (use True l in \<open>simp add: good_len[OF assms(1)] o add.assoc\<close>)
    moreover have "frags_from h k (?p # ps)"
    proof -
      note q = frag_of_pkt[OF assms(1) less.prems(1) True, of opts len]
      have d: "?d \<le> 32767" using assms(1) by (simp add: good_dgram_def)
      have u: "unat (of_nat k :: u16) = k" "unat (of_nat (min len (?d - k)) :: u16) = min len (?d - k)"
        using True d by (auto intro!: unat16)
      have e: "ps = []" if "\<not> k + len < ?d"
      proof (rule ccontr)
        assume "ps \<noteq> []"
        then obtain p ps' where "ps = p # ps'" by (cases ps) auto
        then show False using f(1) that by (auto simp: frags_from_def)
      qed
      have c: "concat (map ip_data ps) = drop (k + len) (ip_data h)" using f(1) by (simp add: frags_from_def)
      have dt: "ip_data ?p = take len (drop k (ip_data h))" using q by (simp add: frag_of_def)
      have "fr_chain k (frag_of ?p # map frag_of ps)"
        using f(1) e u True assms(3) by (cases "k + len < ?d") (simp_all add: q frags_from_def)
      moreover have "concat (map ip_data (?p # ps)) = drop k (ip_data h)"
        using c dt by simp (metis append_take_drop_id drop_drop add.commute)
      moreover have "flen (map frag_of (?p # ps)) = ?d - k"
        using f(1) u True by (simp add: q frags_from_def)
      moreover have "\<forall>p\<in>set (?p # ps). is_frag p \<and> same_dgram h p"
        using f(1) frag_pkt_same[of h opts "ip_hlen h + k" len] frag_pkt_is[OF assms(1) less.prems True, of opts len]
        by (simp add: frags_from_def)
      moreover have "(\<forall>p\<in>set (butlast (?p # ps)). ipf_mff (frag_of p)) \<and> \<not> ipf_mff (frag_of (last (?p # ps)))"
      proof (cases "k + len < ?d")
        case True
        then show ?thesis using f by (simp add: frags_from_def q)
      next
        case False
        then show ?thesis using e by (simp add: q)
      qed
      ultimately show ?thesis unfolding frags_from_def by simp
    qed
    ultimately show ?thesis by blast
  qed
qed

section \<open>The round trip\<close>

lemma and_not_7: "(x :: int) AND NOT 7 = x - x mod 8"
proof -
  have m: "x AND 7 = x mod 8"
    using take_bit_eq_mask[of 3 x] by (simp add: take_bit_eq_mod mask_eq_exp_minus_1)
  have "NOT x AND (x AND 7) = 0" by (simp flip: and.assoc)
  then have "x - (x AND 7) = x AND NOT (x AND 7)" by (rule disjunctive_diff_eq_and_not)
  also have "\<dots> = x AND NOT 7" by (simp add: bit.conj_disj_distrib)
  finally show ?thesis using m by simp
qed

lemma frag_step:
  assumes "mtu \<le> 32767" "hl + 8 \<le> unat (mtu :: u16)"
  defines "len \<equiv> (sint mtu - int hl) AND NOT 7"
  shows "8 \<le> len" "8 dvd nat len" "hl + nat len \<le> unat mtu"
proof -
  have "sint mtu = int (unat mtu)"
    
  proof -
    have "uint mtu < 32768" "0 \<le> uint mtu" using assms(1) by (simp_all add: word_le_def)
    then have "signed_take_bit 15 (uint mtu) = uint mtu" by (intro signed_take_bit_int_eq_self) (simp_all add: order_trans[of _ 0])
    then show ?thesis by (simp add: sint_uint)
  qed
  then have e: "len = int (unat mtu - hl) - int (unat mtu - hl) mod 8"
    using assms(2) by (simp add: len_def and_not_7 and_not_7[simplified] of_nat_diff)
  then have e2: "len = int ((unat mtu - hl) - (unat mtu - hl) mod 8)"
    by (simp only: of_nat_diff[OF mod_less_eq_dividend] zmod_int of_nat_numeral)
  have m: "8 \<le> a \<Longrightarrow> 8 \<le> a - a mod 8" for a :: nat
    using div_le_mono[of 8 a 8] by (simp add: minus_mod_eq_mult_div)
  have "8 \<le> (unat mtu - hl) - (unat mtu - hl) mod 8" by (rule m) (use assms(2) in simp)
  then show "8 \<le> len" unfolding e2 by (metis of_nat_le_iff of_nat_numeral)
  show "hl + nat len \<le> unat mtu" unfolding e2 nat_int using assms(2) by linarith
  show "8 dvd nat len" unfolding e2 nat_int by (rule dvd_minus_mod)
qed

lemma ip_fragment_whole:
  assumes "good_dgram h" "mtu < ip_len h" "mtu \<le> 32767" "ip_hlen h + 8 \<le> unat mtu" "ip_optcopy b (ip_opts h) = Some os"
  shows "\<exists>p ps. ip_fragment b (\<lambda>_. True) (\<lambda>_. 0) mtu h = Some (0, p # ps) \<and> ps \<noteq> [] \<and> frags_from h 0 (p # ps) \<and>
    ip_opts p = ip_opts h"
proof -
  define len where "len = nat ((sint mtu - int (ip_hlen h)) AND NOT 7)"
  note l = frag_step[OF assms(3,4), folded len_def]
  have l0: "0 < len" "(sint mtu - int (ip_hlen h)) AND NOT 7 \<ge> 8" using l(1) by (simp_all add: len_def)
  have nl: "nat (sint mtu - int (ip_hlen h) AND - 8) = len" by (simp add: len_def)
  have lt: "len < length (ip_data h)"
    using l(3) assms(2) good_len[OF assms(1)] by (simp add: word_less_nat_alt)
  obtain ps where ps: "frag_loop b (\<lambda>_. True) 0 h len (ip_hlen h + len) = Some (0, ps)" "frags_from h len ps" "ps \<noteq> []"
    using frag_loop_makes[OF assms(1) l(2) l0(1) assms(5) l(2) l0(1), of 0] lt by blast
  have s: "frag_send (\<lambda>_. 0) k qs = (0, qs)" for k qs by (induction qs arbitrary: k) simp_all
  have z: "ip_off h = 0" using assms(1) by (simp add: good_dgram_def)
  let ?p = "frag_first h len"
  have p: "frag_of ?p = \<lparr>fr_off = 0, fr_len = of_nat len, ipf_mff = True, fr_opts = ip_opts h, fr_data = take len (ip_data h)\<rparr>"
    by (simp add: frag_of_def frag_first_def z mf_out ip_hlen_def) (simp add: IP_MF_def)
  have u: "unat (of_nat len :: u16) = len" using lt assms(1) by (intro unat16) (simp add: good_dgram_def)
  have "frags_from h 0 (?p # ps)"
  proof -
    have "is_frag ?p" "same_dgram h ?p" "ip_data ?p = take len (ip_data h)"
      by (simp_all add: is_frag_def same_dgram_def frag_first_def z) (simp add: IP_MF_def)
    then show ?thesis using ps(2,3) lt u l0(1) by (simp add: frags_from_def p)
  qed
  moreover have "ip_fragment b (\<lambda>_. True) (\<lambda>_. 0) mtu h = Some (0, ?p # ps)"
    using iffD2[OF not_le assms(2)] l0 ps(1) s nl by (simp add: ip_fragment_def z Let_def)
  ultimately show ?thesis using ps(3) by (auto simp: frag_first_def)
qed

lemma frags_whole:
  assumes "good_dgram h" "frags_from h 0 (p # ps)" "ps \<noteq> []" "length (p # ps) \<le> 64"
  shows "whole (map frag_of (p # ps))"
proof -
  let ?F = "map frag_of (p # ps)"
  have c: "fr_chain 0 ?F" using assms(2) by (simp only: frags_from_def)
  have d: "distinct ?F" using fr_chain_distinct[OF c] .
  have b: "\<forall>q\<in>set (butlast ?F). ipf_mff q" "\<not> ipf_mff (last ?F)"
    using assms(2) by (auto simp: frags_from_def map_butlast[symmetric] last_map)
  have e: "?F = butlast ?F @ [last ?F]" by (metis append_butlast_last_id list.simps(3,9))
  have "ipf_mff q \<longleftrightarrow> q \<noteq> last ?F" if "q \<in> set ?F" for q
  proof -
    have "q \<in> set (butlast ?F) \<or> q = last ?F" using that by (subst (asm) e) auto
    then show ?thesis using b by blast
  qed
  moreover have "flen ?F \<le> 32767" using assms(1,2) by (simp only: frags_from_def good_dgram_def) simp
  moreover have "2 \<le> length ?F" using assms(3) by (cases ps) auto
  ultimately show ?thesis using c assms(4) unfolding whole_def by simp
qed

lemma frags_joined:
  assumes "good_dgram h" "frags_from h 0 (p # ps)" "ip_opts p = ip_opts h"
  shows "ip_joined (flen (map frag_of (p # ps))) ((ip_newq h)\<lparr>ipq_frags := map frag_of (p # ps)\<rparr>) =
    h\<lparr>ip_len := of_nat (length (ip_data h))\<rparr>"
proof -
  have d: "concat (map fr_data (map frag_of qs)) = concat (map ip_data qs)" for qs
    by (simp add: frag_of_def comp_def)
  have f: "fr_off (frag_of p) = 0" "fr_opts (frag_of p) = ip_opts h"
    using assms(2) by (simp_all add: frags_from_def unat_eq_zero frag_of_def assms(3))
  have l: "flen (map frag_of (p # ps)) = length (ip_data h)" using assms(2) by (simp only: frags_from_def drop_0 diff_zero)
  have c: "concat (map ip_data (p # ps)) = ip_data h" using assms(2) by (simp only: frags_from_def drop_0 diff_zero)
  have o: "ip_off h = 0" using assms(1) by (simp add: good_dgram_def)
  show ?thesis
    unfolding ip_joined_def l using f c d[of "p # ps"] o by (cases h) (simp add: ip_newq_def)
qed

text \<open>What comes out of the fragments of a datagram, and the state behind it.\<close>

lemma feed_fragments:
  assumes "good_dgram h" "frags_from h 0 (p # ps)" "ps \<noteq> []" "length (p # ps) \<le> 64" "ip_opts p = ip_opts h"
    "set qs = set (p # ps)" "last qs \<notin> set (butlast qs)" "ipq_find h (ipqs st) = None"
  shows "ip_feed qs st = (\<lparr>ipqs = ipqs (ip_evict st), ip_nfrags = ip_nfrags (ip_evict st) + 1\<rparr>,
    [h\<lparr>ip_len := of_nat (length (ip_data h))\<rparr>])"
proof -
  note w = frags_whole[OF assms(1-4)]
  have q: "\<forall>q\<in>set qs. is_frag q \<and> same_dgram h q" using assms(2,6) unfolding frags_from_def by metis
  have s: "frag_of ` set qs = set (map frag_of (p # ps))" using assms(6) by simp
  have inj: "inj_on frag_of (set qs)" using whole_distinct[OF w] assms(6) by (simp only: distinct_map)
  have "qs \<noteq> []" using assms(6) by auto
  then have "last qs \<in> set qs" "set (butlast qs) \<subseteq> set qs" by (auto dest: in_set_butlastD)
  then have l: "frag_of (last qs) \<notin> frag_of ` set (butlast qs)"
    using assms(7) inj by (auto simp: inj_on_def)
  show ?thesis using feed_whole[OF w q s l assms(8)] frags_joined[OF assms(1,2,5)] by simp
qed


text \<open>A datagram of 20 bytes for an interface that takes 28.\<close>

definition ex_dgram :: ippkt where
  "ex_dgram = \<lparr>ip_p = 17, ip_id = 1, ip_src = 1, ip_dst = 2, ip_opts = [], ip_off = 0, ip_len = 40,
     ip_data = [0, 1, 2, 3, 4, 5, 6, 7, 8, 9, 10, 11, 12, 13, 14, 15, 16, 17, 18, 19]\<rparr>"

lemma optcopy_none: "ip_optcopy b [] = Some []"
  by (simp add: ip_optcopy_def) (subst optcopy_loop.simps, simp)

lemma ex_fragments: "ip_fragment b (\<lambda>_. True) (\<lambda>_. 0) 28 ex_dgram =
  Some (0, [frag_first ex_dgram 8, frag_pkt ex_dgram [] 28 8, frag_pkt ex_dgram [] 36 8])"
proof -
  have l: "frag_loop b (\<lambda>_. True) 0 ex_dgram 8 28 = Some (0, [frag_pkt ex_dgram [] 28 8, frag_pkt ex_dgram [] 36 8])"
    by (subst frag_loop.simps, simp add: ex_dgram_def ip_hlen_def, subst frag_loop.simps, simp add: ip_hlen_def,
        subst frag_loop.simps, simp)
  then show ?thesis by (simp add: ip_fragment_def) (simp add: ex_dgram_def ip_hlen_def)
qed


end
