(* ===== verification/Ip_Queues.thy ===== *)
theory Ip_Queues
  imports Ip_Frag_Correct
begin

text \<open>
  The reassembly queues under any traffic: how much they hold, what comes out of them, and what the
  count of queues does when datagrams are completed.
\<close>

section \<open>Events\<close>

datatype ipev = Arrive bool ippkt | Tick | Drain

fun ip_event :: "ipev \<Rightarrow> ipst \<Rightarrow> ipst" where
  "ip_event (Arrive mget h) st = fst (ip_ours mget h st)"
| "ip_event Tick st = ip_slowtimo st"
| "ip_event Drain st = ip_drain st"

definition ip_run :: "ipev list \<Rightarrow> ipst" where
  "ip_run es = fold ip_event es ip_init"

text \<open>\<open>ipintr\<close> has checked that the packet holds what its header says.\<close>

definition pkt_ok :: "ippkt \<Rightarrow> bool" where
  "pkt_ok h \<longleftrightarrow> ip_hlen h + length (ip_data h) = unat (ip_len h)"

definition ev_ok :: "ipev \<Rightarrow> bool" where
  "ev_ok e \<longleftrightarrow> (case e of Arrive _ h \<Rightarrow> pkt_ok h | _ \<Rightarrow> True)"

definition frag_ok :: "ipfrag \<Rightarrow> bool" where
  "frag_ok q \<longleftrightarrow> length (fr_data q) = unat (fr_len q)"

definition queue_ok :: "ipq \<Rightarrow> bool" where
  "queue_ok fp \<longleftrightarrow> ipq_nfrags fp = of_nat (length (ipq_frags fp)) \<and> length (ipq_frags fp) \<le> 64 \<and>
     (\<forall>q\<in>set (ipq_frags fp). frag_ok q)"

definition ip_inv :: "int \<Rightarrow> ipst \<Rightarrow> bool" where
  "ip_inv m st \<longleftrightarrow> length (ipqs st) \<le> 8 \<and> int (length (ipqs st)) \<le> ip_nfrags st \<and> ip_nfrags st \<le> m \<and>
     (\<forall>fp\<in>set (ipqs st). queue_ok fp)"

section \<open>Every step keeps the bounds\<close>

lemma skip_ok: "frag_ok q \<Longrightarrow> i < unat (fr_len q) \<Longrightarrow> frag_ok (fr_skip i q)"
proof -
  assume a: "frag_ok q" "i < unat (fr_len q)"
  have "unat (fr_len q) < 65536" by (rule order_less_le_trans[OF unsigned_less]) simp
  then have "unat (of_nat i :: u16) = i" using a(2) by (intro unat16) simp
  then show ?thesis using a by (simp add: frag_ok_def fr_skip_def unat_sub word_le_nat_alt)
qed

lemma front_ok: "frag_ok p \<Longrightarrow> fr_front pre p = Some p1 \<Longrightarrow> frag_ok p1"
  using skip_ok by (auto simp: fr_front_def Let_def split: if_splits)

lemma back_ok: "\<forall>q\<in>set qs. frag_ok q \<Longrightarrow> \<forall>q\<in>set (fr_back p qs). frag_ok q"
  by (induction qs) (auto simp: Let_def skip_ok)

lemma back_length: "length (fr_back p qs) \<le> length qs"
  by (induction qs) (auto simp: Let_def)

lemma freef_inv: "ip_inv m st \<Longrightarrow> n < length (ipqs st) \<Longrightarrow> ip_inv m (ip_freef n st)"
  by (auto simp: ip_inv_def ip_freef_def dest: in_set_takeD in_set_dropD)

lemma freef_counts: "n < length (ipqs st) \<Longrightarrow> length (ipqs (ip_freef n st)) = length (ipqs st) - 1"
  by (simp add: ip_freef_def)

lemma drain_inv: "ip_inv m st \<Longrightarrow> ip_inv m (ip_drain st)"
proof -
  have "k \<le> length (ipqs s) \<Longrightarrow> ip_inv m s \<Longrightarrow> ip_inv m ((ip_freef 0 ^^ k) s)" for k s
  proof (induction k arbitrary: s)
    case (Suc k)
    then have "0 < length (ipqs s)" by linarith
    then have "ip_inv m (ip_freef 0 s)" "k \<le> length (ipqs (ip_freef 0 s))"
      using freef_inv[of m s 0] freef_counts[of 0 s] Suc.prems by simp_all
    then show ?case using Suc.IH by (simp add: funpow_Suc_right del: funpow.simps)
  qed simp
  then show "ip_inv m st \<Longrightarrow> ip_inv m (ip_drain st)" by (simp add: ip_drain_def)
qed

lemma age_keeps:
  "ip_age k fps n = (fps1, n1) \<Longrightarrow> int (length fps) \<le> n \<Longrightarrow> \<forall>fp\<in>set fps. queue_ok fp \<Longrightarrow>
   length fps1 \<le> length fps \<and> int (length fps1) + (n - int (length fps)) \<le> n1 \<and> n1 \<le> n \<and>
   (\<forall>fp\<in>set fps1. queue_ok fp)"
proof (induction k fps n arbitrary: fps1 n1 rule: ip_age.induct)
  case (3 k fp fps n)
  let ?fp = "fp\<lparr>ipq_ttl := ipq_ttl fp - 1\<rparr>"
  have ok: "queue_ok ?fp" "\<forall>fp\<in>set fps. queue_ok fp" using 3(5) by (simp_all add: queue_ok_def)
  show ?case
  proof (cases "ipq_ttl ?fp = 0")
    case True
    have "n > 0" using 3(4) by simp
    then show ?thesis using 3(1)[OF refl True, of fps1 n1] 3(3,4) True ok by (auto simp: Let_def)
  next
    case False
    obtain f m where r: "ip_age k fps n = (f, m)" by fastforce
    then show ?thesis using 3(2)[OF refl False r] 3(3,4) False ok by (auto simp: Let_def)
  qed
qed auto

lemma slowtimo_inv: "ip_inv m st \<Longrightarrow> ip_inv m (ip_slowtimo st)"
  using age_keeps[of 2000 "ipqs st" "ip_nfrags st"]
  by (cases "ip_age 2000 (ipqs st) (ip_nfrags st)") (auto simp: ip_inv_def ip_slowtimo_def)

text \<open>What comes out: what is said of a packet handed to a protocol.\<close>

definition out_ok :: "u8 list \<Rightarrow> ippkt \<Rightarrow> bool" where
  "out_ok bs d \<longleftrightarrow> length (ip_data d) = unat (ip_len d) \<and> (ip_data d = bs \<or> length (ip_data d) \<le> 32767)"

lemma total_length: "fr_total n F = Some m \<Longrightarrow> \<forall>q\<in>set F. frag_ok q \<Longrightarrow> m = n + length (concat (map fr_data F))"
proof (induction F arbitrary: n)
  case (Cons q F)
  then have "fr_total (n + unat (fr_len q)) F = Some m" "\<forall>q\<in>set F. frag_ok q" "length (fr_data q) = unat (fr_len q)"
    by (auto simp: frag_ok_def split: if_splits)
  from Cons.IH[OF this(1,2)] this(3) show ?case by simp
qed simp

lemma insert_inv:
  assumes "ip_inv m st" "n < length (ipqs st)" "ipq_nfrags fp = of_nat (length pre + length post)"
    "length pre + length post \<le> 64" "\<forall>q\<in>set (pre @ p # post). frag_ok q" "ip_insert n fp pre p post st = (st1, r)"
  shows "ip_inv m st1 \<and> (case r of None \<Rightarrow> True | Some d \<Rightarrow> out_ok bs d)"
proof -
  have n: "unat (ipq_nfrags fp) = length pre + length post" using assms(3,4) unat16[of "length pre + length post"] by simp
  have st: "ip_inv m (st\<lparr>ipqs := (ipqs st)[n := f]\<rparr>)" if "queue_ok f" for f
    using assms(1) that by (auto simp: ip_inv_def dest: set_update_subset_insert[THEN subsetD])
  show ?thesis
  proof (cases "length pre + length post \<ge> 64")
    case True
    then have "queue_ok (fp\<lparr>ipq_frags := pre @ post\<rparr>)" using assms(3-5) by (simp add: queue_ok_def)
    then show ?thesis using assms(6) st n True by (auto simp: ip_insert_def IP_MAXFRAGSPERPACKET_def)
  next
    case False
    define f where "f = fp\<lparr>ipq_frags := pre @ p # post, ipq_nfrags := ipq_nfrags fp + 1\<rparr>"
    define s where "s = st\<lparr>ipqs := (ipqs st)[n := f]\<rparr>"
    have q: "queue_ok f" using assms(3-5) False by (simp add: queue_ok_def f_def)
    have s: "ip_inv m s" "n < length (ipqs s)" using st[OF q] assms(2) by (simp_all add: s_def)
    have e: "ip_insert n fp pre p post st = (case fr_total 0 (ipq_frags f) of None \<Rightarrow> (s, None)
        | Some nx \<Rightarrow> if ipf_mff (last (ipq_frags f)) then (s, None)
            else if nx > 32767 then (ip_freef n s, None)
            else (s\<lparr>ipqs := take n (ipqs s) @ drop (Suc n) (ipqs s)\<rparr>, Some (ip_joined nx f)))"
      using False n by (simp add: ip_insert_def IP_MAXFRAGSPERPACKET_def f_def s_def Let_def split: option.split)
    have d: "ip_inv m (s\<lparr>ipqs := take n (ipqs s) @ drop (Suc n) (ipqs s)\<rparr>)"
      using s by (auto simp: ip_inv_def dest: in_set_takeD in_set_dropD)
    have o: "out_ok bs (ip_joined nx f)" if "fr_total 0 (ipq_frags f) = Some nx" "\<not> nx > 32767" for nx
      using total_length[OF that(1)] q that(2) by (simp add: out_ok_def ip_joined_def queue_ok_def)
    show ?thesis using assms(6) s d o freef_inv[OF s] unfolding e by (auto split: option.splits if_splits)
  qed
qed

lemma take_drop_while_length: "length (takeWhile P xs) + length (dropWhile P xs) = length xs"
  by (metis length_append takeWhile_dropWhile_id)

lemma reass_inv:
  assumes "ip_inv m st" "frag_ok p" "\<And>n. fpn = Some n \<Longrightarrow> n < length (ipqs st)" "ip_reass mget h p fpn st = (st1, r)"
  shows "ip_inv (m + 1) st1 \<and> (case r of None \<Rightarrow> True | Some d \<Rightarrow> out_ok bs d)"
proof (cases fpn)
  case None
  define s where "s = (if ip_nfrags st \<ge> IP_MAXFRAGPACKETS \<and> ipqs st \<noteq> [] then ip_freef (length (ipqs st) - 1) st else st)"
  have s: "ip_inv m s" using assms(1) freef_inv[of m st "length (ipqs st) - 1"] by (auto simp: s_def)
  have l: "length (ipqs s) < 8"
    using assms(1) freef_counts[of "length (ipqs st) - 1" st] by (auto simp: s_def ip_inv_def IP_MAXFRAGPACKETS_def)
  have q: "queue_ok (ip_newq h)" by (simp add: queue_ok_def ip_newq_def)
  show ?thesis
  proof (cases mget)
    case True
    define s2 where "s2 = s\<lparr>ipqs := ip_newq h # ipqs s, ip_nfrags := ip_nfrags s + 1\<rparr>"
    have s2: "ip_inv (m + 1) s2" using s l q by (auto simp: ip_inv_def s2_def)
    have "ip_insert 0 (ip_newq h) [] p [] s2 = (st1, r)"
      using assms(4) True None by (simp add: ip_reass_def s_def s2_def Let_def)
    then show ?thesis using insert_inv[OF s2, of 0 "ip_newq h" "[]" "[]" p st1 r bs] assms(2) by (simp add: s2_def ip_newq_def)
  next
    case False
    then have "st1 = s" "r = None" using assms(4) None by (simp_all add: ip_reass_def s_def Let_def)
    then show ?thesis using s by (auto simp: ip_inv_def)
  qed
next
  case (Some n)
  have n: "n < length (ipqs st)" by (rule assms(3)[OF Some])
  let ?fp = "ipqs st ! n"
  let ?P = "\<lambda>q. \<not> fr_off q > fr_off p"
  let ?pre = "takeWhile ?P (ipq_frags ?fp)" and ?post = "dropWhile ?P (ipq_frags ?fp)"
  have fp: "queue_ok ?fp" using assms(1) n by (simp add: ip_inv_def)
  have len: "length ?pre + length ?post = length (ipq_frags ?fp)" by (rule take_drop_while_length)
  have pok: "\<forall>q\<in>set ?pre. frag_ok q" "\<forall>q\<in>set ?post. frag_ok q"
    using fp by (auto simp: queue_ok_def dest: set_takeWhileD set_dropWhileD)
  have up: "ip_inv (m + 1) st" using assms(1) by (auto simp: ip_inv_def)
  show ?thesis
  proof (cases "fr_front ?pre p")
    case None
    then show ?thesis using assms(4) Some up by (auto simp: ip_reass_def Let_def)
  next
    case front: (Some p1)
    let ?b = "fr_back p1 ?post"
    let ?f = "?fp\<lparr>ipq_nfrags := ipq_nfrags ?fp - of_nat (length ?post - length ?b)\<rparr>"
    have b: "length ?b \<le> length ?post" by (rule back_length)
    have k: "length (ipq_frags ?fp) = length ?pre + length ?b + (length ?post - length ?b)" using len b by simp
    have nf: "ipq_nfrags ?f = of_nat (length ?pre + length ?b)"
      using fp by (simp add: queue_ok_def) (subst k, simp)
    have "ip_insert n ?f ?pre p1 ?b st = (st1, r)"
      using assms(4) Some front by (simp add: ip_reass_def Let_def)
    moreover have "length ?pre + length ?b \<le> 64" using fp k by (simp add: queue_ok_def)
    moreover have "\<forall>q\<in>set (?pre @ p1 # ?b). frag_ok q"
      using pok(1) back_ok[OF pok(2)] front_ok[OF assms(2) front] by auto
    ultimately show ?thesis using insert_inv[OF up n nf] by blast
  qed
qed

lemma find_bound: "ipq_find h fps = Some n \<Longrightarrow> n < length fps"
  by (induction fps arbitrary: n) (auto split: if_splits)

lemma ours_inv:
  assumes "ip_inv m st" "pkt_ok h" "ip_ours mget h st = (st1, r)"
  shows "ip_inv (m + 1) st1 \<and> (case r of None \<Rightarrow> True | Some d \<Rightarrow> out_ok (ip_data h) d)"
proof -
  have l: "unat (ip_len h - of_nat (ip_hlen h)) = length (ip_data h)"
  proof -
    have "ip_len h = of_nat (ip_hlen h + length (ip_data h))" using assms(2) by (intro off_of_unat) (simp add: pkt_ok_def)
    then have "ip_len h - of_nat (ip_hlen h) = of_nat (length (ip_data h))" by simp
    moreover have "unat (ip_len h) < 65536" by (rule order_less_le_trans[OF unsigned_less]) simp
    ultimately show ?thesis using assms(2) by (simp add: pkt_ok_def)
  qed
  have up: "ip_inv (m + 1) st" "\<And>n. n < length (ipqs st) \<Longrightarrow> ip_inv (m + 1) (ip_freef n st)"
    using assms(1) freef_inv[of "m + 1" st] by (auto simp: ip_inv_def)
  have fb: "ipq_find h (ipqs st) = Some n \<Longrightarrow> n < length (ipqs st)" for n by (rule find_bound)
  define p where "p = \<lparr>fr_off = push_bit 3 (ip_off h), fr_len = ip_len h - of_nat (ip_hlen h),
    ipf_mff = (ip_off h AND IP_MF \<noteq> 0), fr_opts = ip_opts h, fr_data = ip_data h\<rparr>"
  have p: "frag_ok p" by (simp add: frag_ok_def p_def l)
  show ?thesis
  proof (cases "ip_off h AND NOT IP_DF \<noteq> 0 \<and> (ip_off h AND IP_MF \<noteq> 0 \<or> push_bit 3 (ip_off h) \<noteq> 0)")
    case True
    then have "ip_reass mget h p (ipq_find h (ipqs st)) st = (st1, r)"
      using assms(3) by (simp add: ip_ours_def p_def Let_def)
    then show ?thesis using reass_inv[OF assms(1) p fb] by blast
  next
    case False
    then have "(st1 = st \<or> (\<exists>n. ipq_find h (ipqs st) = Some n \<and> st1 = ip_freef n st)) \<and>
        (\<exists>d. r = Some d \<and> ip_data d = ip_data h \<and> ip_len d = ip_len h - of_nat (ip_hlen h))"
      using assms(3) by (auto simp: ip_ours_def Let_def split: if_splits option.splits)
    then show ?thesis using up fb l by (auto simp: out_ok_def)
  qed
qed

lemma event_inv: "ip_inv m st \<Longrightarrow> ev_ok e \<Longrightarrow> ip_inv (m + 1) (ip_event e st)"
proof (cases e)
  case (Arrive mget h)
  assume "ip_inv m st" "ev_ok e"
  then show ?thesis using Arrive ours_inv[of m st h mget] by (cases "ip_ours mget h st") (auto simp: ev_ok_def)
qed (use slowtimo_inv[of m st] drain_inv[of m st] in \<open>auto simp: ip_inv_def\<close>)

lemma run_inv: "\<forall>e\<in>set es. ev_ok e \<Longrightarrow> ip_inv (int (length es)) (ip_run es)"
proof (induction es rule: rev_induct)
  case Nil
  then show ?case by (simp add: ip_inv_def ip_run_def ip_init_def)
next
  case (snoc e es)
  then show ?case using event_inv[of "int (length es)" "ip_run es" e] by (simp add: ip_run_def ac_simps)
qed

text \<open>C8: a flood of fragments stays bounded, and no datagram comes out longer than it says (the ping of
  death). Whatever packets arrive, well-formed each but overlapping, incomplete and repeated in any way,
  with time and drains in between: there are never more than 8 queues with 64 fragments in each, the
  count of fragments of a queue is exact, and what goes to a protocol has as many bytes as ip_len
  says, at most 32767 when it was put together from fragments.\<close>

theorem ip_reass_bounded:
  assumes "\<forall>e\<in>set es. ev_ok e" "pkt_ok h"
  shows "length (ipqs (ip_run es)) \<le> 8 \<and>
    (\<forall>fp\<in>set (ipqs (ip_run es)). length (ipq_frags fp) \<le> 64 \<and> unat (ipq_nfrags fp) = length (ipq_frags fp)) \<and>
    (\<forall>d. snd (ip_ours mget h (ip_run es)) = Some d \<longrightarrow>
       length (ip_data d) = unat (ip_len d) \<and> (ip_data d = ip_data h \<or> length (ip_data d) \<le> 32767))"
proof -
  note i = run_inv[OF assms(1)]
  have "queue_ok fp \<Longrightarrow> length (ipq_frags fp) \<le> 64 \<and> unat (ipq_nfrags fp) = length (ipq_frags fp)" for fp
    using unat16[of "length (ipq_frags fp)"] by (simp add: queue_ok_def)
  moreover have "snd (ip_ours mget h (ip_run es)) = Some d \<longrightarrow> out_ok (ip_data h) d" for d
  proof
    assume "snd (ip_ours mget h (ip_run es)) = Some d"
    then obtain s where "ip_ours mget h (ip_run es) = (s, Some d)" by (metis prod.collapse)
    from ours_inv[OF i assms(2) this] show "out_ok (ip_data h) d" by simp
  qed
  ultimately show ?thesis using i unfolding ip_inv_def out_ok_def by blast
qed

theorem ip_reass_bounded_witness:
  "length (ipqs (ip_run [Arrive True (ex_dgram\<lparr>ip_off := IP_MF\<rparr>), Tick])) \<le> 8 \<and> pkt_ok ex_dgram"
  using ip_reass_bounded[of "[Arrive True (ex_dgram\<lparr>ip_off := IP_MF\<rparr>), Tick]" ex_dgram]
  by (simp add: ev_ok_def pkt_ok_def ex_dgram_def ip_hlen_def)

section \<open>The count of queues\<close>

lemma feed_append: "ip_feed (ps @ qs) st = (case ip_feed ps st of (st1, ds) \<Rightarrow>
    case ip_feed qs st1 of (st2, es) \<Rightarrow> (st2, ds @ es))"
  by (induction ps arbitrary: st) (simp_all split: prod.splits)

text \<open>A datagram that goes out in two fragments.\<close>

definition in_two :: "ippkt \<Rightarrow> ippkt \<Rightarrow> ippkt \<Rightarrow> bool" where
  "in_two h p q \<longleftrightarrow> good_dgram h \<and> (\<exists>b mtu os. mtu < ip_len h \<and> mtu \<le> 32767 \<and> ip_hlen h + 8 \<le> unat mtu \<and>
     ip_optcopy b (ip_opts h) = Some os \<and> ip_fragment b (\<lambda>_. True) (\<lambda>_. 0) mtu h = Some (0, [p, q]))"

lemma in_two_frags: "in_two h p q \<Longrightarrow> good_dgram h \<and> frags_from h 0 [p, q] \<and> ip_opts p = ip_opts h"
  unfolding in_two_def using ip_fragment_whole by fastforce

lemma in_two_whole:
  assumes "in_two h p q"
  shows "whole [frag_of p, frag_of q]" "is_frag p" "is_frag q" "same_dgram h p" "same_dgram h q" "p \<noteq> q"
proof -
  note f = in_two_frags[OF assms]
  show w: "whole [frag_of p, frag_of q]" using frags_whole[of h p "[q]"] f by simp
  show "p \<noteq> q" using whole_distinct[OF w] by auto
  show "is_frag p" "is_frag q" "same_dgram h p" "same_dgram h q" using f by (simp_all add: frags_from_def)
qed

lemma two_complete:
  assumes "in_two h p q"
  shows "ip_feed [p, q] \<lparr>ipqs = [], ip_nfrags = n\<rparr> =
    (\<lparr>ipqs = [], ip_nfrags = n + 1\<rparr>, [h\<lparr>ip_len := of_nat (length (ip_data h))\<rparr>])"
  using feed_fragments[of h p "[q]" "[p, q]" "\<lparr>ipqs = [], ip_nfrags = n\<rparr>"] in_two_frags[OF assms] in_two_whole[OF assms]
  by (simp add: ip_evict_def del: ip_feed.simps)

lemma many_complete:
  "\<forall>(h, p, q)\<in>set ds. in_two h p q \<Longrightarrow>
   ip_feed (concat (map (\<lambda>(h, p, q). [p, q]) ds)) \<lparr>ipqs = [], ip_nfrags = n\<rparr> =
     (\<lparr>ipqs = [], ip_nfrags = n + int (length ds)\<rparr>, map (\<lambda>(h, p, q). h\<lparr>ip_len := of_nat (length (ip_data h))\<rparr>) ds)"
proof (induction ds arbitrary: n)
  case (Cons d ds)
  obtain h p q where d: "d = (h, p, q)" by (cases d)
  have h: "in_two h p q" "\<forall>(h, p, q)\<in>set ds. in_two h p q" using Cons.prems d by auto
  have "ip_feed ([p, q] @ concat (map (\<lambda>(h, p, q). [p, q]) ds)) \<lparr>ipqs = [], ip_nfrags = n\<rparr> =
    (\<lparr>ipqs = [], ip_nfrags = n + 1 + int (length ds)\<rparr>,
      [h\<lparr>ip_len := of_nat (length (ip_data h))\<rparr>] @ map (\<lambda>(h, p, q). h\<lparr>ip_len := of_nat (length (ip_data h))\<rparr>) ds)"
    by (simp only: feed_append two_complete[OF h(1)] Cons.IH[OF h(2)] prod.case)
  then show ?case by (auto simp: d simp del: ip_feed.simps)
qed simp

text \<open>One fragment behind eight completed datagrams displaces the queue of another datagram.\<close>

lemma displaced:
  assumes "whole F" "is_frag p" "same_dgram h p" "frag_of p \<in> set F" "n \<ge> 8" "\<not> same_dgram h g"
  shows "ip_ours True p (qst (ip_newq g) G [] (n + 1)) = (qst (ip_newq h) [frag_of p] [] (n + 1), None)"
proof -
  have "ipq_find h (ipqs (qst (ip_newq g) G [] (n + 1))) = None"
    using assms(6) by (auto simp: qst_def ipq_match_def ip_newq_def same_dgram_def)
  from first_arrives[OF assms(1-4) this] show ?thesis
    using assms(5) by (simp add: ip_evict_def IP_MAXFRAGPACKETS_def ip_freef_def qst_def)
qed

text \<open>C34: completed datagrams use up the reassembly queues for good. The count of queues goes up with
  every new queue and comes down with every one freed, except when its datagram is completed; after
  eight datagrams of two fragments, all delivered and no queue left, the stack behaves as if eight
  queues were in use. Two datagrams whose fragments alternate then throw each other out, and neither
  is delivered.\<close>

theorem ip_completed_leak:
  assumes "\<forall>(h, p, q)\<in>set ds. in_two h p q" "8 \<le> length ds" "in_two a a1 a2" "in_two b b1 b2" "\<not> same_dgram a b"
  shows "\<exists>st. ip_feed (concat (map (\<lambda>(h, p, q). [p, q]) ds)) ip_init =
      (st, map (\<lambda>(h, p, q). h\<lparr>ip_len := of_nat (length (ip_data h))\<rparr>) ds) \<and>
    ipqs st = [] \<and> snd (ip_feed [a1, b1, a2, b2] st) = []"
proof -
  let ?n = "int (length ds)"
  have n: "?n \<ge> 8" using assms(2) by simp
  have f: "ip_feed (concat (map (\<lambda>(h, p, q). [p, q]) ds)) ip_init =
      (\<lparr>ipqs = [], ip_nfrags = ?n\<rparr>, map (\<lambda>(h, p, q). h\<lparr>ip_len := of_nat (length (ip_data h))\<rparr>) ds)"
    using many_complete[OF assms(1), of 0] by (simp add: ip_init_def)
  have ba: "\<not> same_dgram b a" using assms(5) by (auto simp: same_dgram_def)
  note a = in_two_whole[OF assms(3)] and b = in_two_whole[OF assms(4)]
  have s1: "ip_ours True a1 \<lparr>ipqs = [], ip_nfrags = ?n\<rparr> = (qst (ip_newq a) [frag_of a1] [] (?n + 1), None)"
    using first_arrives[OF a(1,2,4)] by (simp add: ip_evict_def)
  have s2: "ip_ours True b1 (qst (ip_newq a) G [] (?n + 1)) = (qst (ip_newq b) [frag_of b1] [] (?n + 1), None)" for G
    by (rule displaced[OF b(1,2,4) _ n ba]) simp
  have s3: "ip_ours True a2 (qst (ip_newq b) G [] (?n + 1)) = (qst (ip_newq a) [frag_of a2] [] (?n + 1), None)" for G
    by (rule displaced[OF a(1,3,5) _ n assms(5)]) simp
  have s4: "ip_ours True b2 (qst (ip_newq a) G [] (?n + 1)) = (qst (ip_newq b) [frag_of b2] [] (?n + 1), None)" for G
    by (rule displaced[OF b(1,3,5) _ n ba]) simp
  have "snd (ip_feed [a1, b1, a2, b2] \<lparr>ipqs = [], ip_nfrags = ?n\<rparr>) = []"
    by (simp add: s1 s2 s3 s4 out_list_def)
  then show ?thesis using f by auto
qed

text \<open>Datagrams of 20 bytes for an interface that takes 36.\<close>

definition ex_two :: "u16 \<Rightarrow> ippkt \<times> ippkt \<times> ippkt" where
  "ex_two i = (let h = ex_dgram\<lparr>ip_id := i\<rparr> in (h, frag_first h 16, frag_pkt h [] 36 16))"

lemma ex_two_ok: "in_two (fst (ex_two i)) (fst (snd (ex_two i))) (snd (snd (ex_two i)))"
proof -
  let ?h = "ex_dgram\<lparr>ip_id := i\<rparr>"
  have l: "frag_loop b (\<lambda>_. True) 0 ?h 16 36 = Some (0, [frag_pkt ?h [] 36 16])"
    by (subst frag_loop.simps, simp add: ex_dgram_def ip_hlen_def, subst frag_loop.simps, simp)
  have f: "ip_fragment b (\<lambda>_. True) (\<lambda>_. 0) 36 ?h = Some (0, [frag_first ?h 16, frag_pkt ?h [] 36 16])"
    using l by (simp add: ip_fragment_def) (simp add: ex_dgram_def ip_hlen_def)
  have "good_dgram ?h \<and> 36 < ip_len ?h \<and> (36 :: u16) \<le> 32767 \<and> ip_hlen ?h + 8 \<le> unat (36 :: u16) \<and>
    ip_optcopy b (ip_opts ?h) = Some []"
    by (simp add: good_dgram_def ex_dgram_def ip_hlen_def optcopy_none)
  then show ?thesis using f unfolding in_two_def ex_two_def Let_def fst_conv snd_conv by blast
qed

theorem ip_completed_leak_witness:
  "\<exists>st. snd (ip_feed (concat (map (\<lambda>(h, p, q). [p, q]) (map ex_two [1, 2, 3, 4, 5, 6, 7, 8]))) ip_init) =
      map (\<lambda>i. ex_dgram\<lparr>ip_id := i, ip_len := 20\<rparr>) [1, 2, 3, 4, 5, 6, 7, 8] \<and>
    ipqs st = [] \<and>
    snd (ip_feed [fst (snd (ex_two 9)), fst (snd (ex_two 10)), snd (snd (ex_two 9)), snd (snd (ex_two 10))] st) = []"
proof -
  let ?ds = "map ex_two [1, 2, 3, 4, 5, 6, 7, 8]"
  have "\<forall>(h, p, q)\<in>set ?ds. in_two h p q" using ex_two_ok by (auto simp: case_prod_beta)
  moreover have "8 \<le> length ?ds" by simp
  moreover have "\<not> same_dgram (fst (ex_two 9)) (fst (ex_two 10))" by (simp add: same_dgram_def ex_two_def Let_def)
  ultimately obtain st where
    "ip_feed (concat (map (\<lambda>(h, p, q). [p, q]) ?ds)) ip_init = (st, map (\<lambda>(h, p, q). h\<lparr>ip_len := of_nat (length (ip_data h))\<rparr>) ?ds)"
    "ipqs st = []" "snd (ip_feed [fst (snd (ex_two 9)), fst (snd (ex_two 10)), snd (snd (ex_two 9)), snd (snd (ex_two 10))] st) = []"
    using ip_completed_leak[OF _ _ ex_two_ok[of 9] ex_two_ok[of 10]] by blast
  moreover have "map (\<lambda>(h, p, q). h\<lparr>ip_len := of_nat (length (ip_data h))\<rparr>) ?ds =
      map (\<lambda>i. ex_dgram\<lparr>ip_id := i, ip_len := 20\<rparr>) [1, 2, 3, 4, 5, 6, 7, 8]"
    by (simp add: ex_two_def ex_dgram_def Let_def)
  ultimately show ?thesis by (intro exI[of _ st]) (simp only: snd_conv)
qed

end
