(* ===== verification/Sock_Queue.thy ===== *)
theory Sock_Queue
  imports Amitcp_Prelude
begin

text \<open>
  The connection queues of a listening socket (\<open>sonewconn\<close>, \<open>soqinsque\<close>, \<open>soqremque\<close> and
  \<open>soisconnected\<close>, \<open>kern/uipc_socket2.c\<close>; the ends of \<open>sofree\<close> and \<open>accept\<close> that dequeue). The
  sockets are linked through their own fields, so the model has them in a store: a function from
  pointers, 0 being \<open>NULL\<close>. The walks are \<open>partial_function\<close>s, \<open>None\<close> for one that does not end.
  \<open>soreserve\<close> in \<open>sonewconn\<close> and the wakeups and events are not modelled.
\<close>

type_synonym soptr = nat

record soqnode =
  so_head :: soptr
  so_q0 :: soptr
  so_q :: soptr
  so_q0len :: int
  so_qlen :: int
  so_qlimit :: int
  so_isconn :: bool

type_synonym sostore = "soptr \<Rightarrow> soqnode"

datatype so_panic = Panic_sofree_dq | Panic_accept

section \<open>The lists\<close>

text \<open>\<open>q\<close> is the queue: \<open>False\<close> for the partial connections, \<open>True\<close> for those to be accepted.\<close>

definition so_link :: "bool \<Rightarrow> soqnode \<Rightarrow> soptr" where
  "so_link q s = (if q then so_q s else so_q0 s)"

definition so_setlink :: "bool \<Rightarrow> soptr \<Rightarrow> soqnode \<Rightarrow> soqnode" where
  "so_setlink q p s = (if q then s\<lparr>so_q := p\<rparr> else s\<lparr>so_q0 := p\<rparr>)"

definition so_addlen :: "bool \<Rightarrow> int \<Rightarrow> soqnode \<Rightarrow> soqnode" where
  "so_addlen q d s = (if q then s\<lparr>so_qlen := so_qlen s + d\<rparr> else s\<lparr>so_q0len := so_q0len s + d\<rparr>)"

definition so_upd :: "soptr \<Rightarrow> (soqnode \<Rightarrow> soqnode) \<Rightarrow> sostore \<Rightarrow> sostore" where
  "so_upd p f h = h(p := f (h p))"

partial_function (option) soq_end :: "bool \<Rightarrow> sostore \<Rightarrow> soptr \<Rightarrow> soptr option" where
  "soq_end q h p = (if so_link q (h p) = 0 then Some p else soq_end q h (so_link q (h p)))"

definition soqinsque :: "soptr \<Rightarrow> soptr \<Rightarrow> bool \<Rightarrow> sostore \<Rightarrow> sostore option" where
  "soqinsque head so q h =
     (let h1 = so_upd so (\<lambda>s. s\<lparr>so_head := head\<rparr>) h;
          h2 = so_upd so (so_setlink q 0) (so_upd head (so_addlen q 1) h1)
      in map_option (\<lambda>p. so_upd p (so_setlink q so) h2) (soq_end q h2 head))"

text \<open>The node before \<open>so\<close>, if it is in the queue.\<close>

partial_function (option) soq_prev :: "bool \<Rightarrow> soptr \<Rightarrow> sostore \<Rightarrow> soptr \<Rightarrow> soptr option option" where
  "soq_prev q so h p =
     (if so_link q (h p) = so then Some (Some p)
      else if so_link q (h p) = 0 then Some None
      else soq_prev q so h (so_link q (h p)))"

declare soq_end.simps [code] soq_prev.simps [code]

definition soqremque :: "soptr \<Rightarrow> bool \<Rightarrow> sostore \<Rightarrow> (sostore \<times> bool) option" where
  "soqremque so q h =
     (let head = so_head (h so) in
      map_option (\<lambda>r. case r of
          None \<Rightarrow> (h, False)
        | Some p \<Rightarrow>
            (let h1 = so_upd head (so_addlen q (-1)) (so_upd p (so_setlink q (so_link q (h so))) h)
             in (so_upd so (\<lambda>s. s\<lparr>so_q := 0, so_q0 := 0, so_head := 0\<rparr>) h1, True)))
        (soq_prev q so h head))"

section \<open>The operations\<close>

text \<open>
  \<open>sonewconn\<close>: \<open>so\<close> is the answer of \<open>MALLOC\<close>, \<open>attach\<close> whether \<open>PRU_ATTACH\<close> succeeds, \<open>conn\<close> whether
  \<open>connstatus\<close> is not 0.
\<close>

definition so_zero :: soqnode where
  "so_zero = \<lparr>so_head = 0, so_q0 = 0, so_q = 0, so_q0len = 0, so_qlen = 0, so_qlimit = 0, so_isconn = False\<rparr>"

definition sonewconn :: "soptr \<Rightarrow> bool \<Rightarrow> bool \<Rightarrow> soptr \<Rightarrow> sostore \<Rightarrow> (sostore \<times> soptr) option" where
  "sonewconn so attach conn head h =
     (if so_qlen (h head) + so_q0len (h head) > 3 * so_qlimit (h head) div 2 then Some (h, 0)
      else if so = 0 then Some (h, 0)
      else Option.bind (soqinsque head so conn (h(so := so_zero)))
        (\<lambda>h1. if \<not> attach then map_option (\<lambda>(h2, _). (h2, 0)) (soqremque so conn h1)
          else Some (if conn then so_upd so (\<lambda>s. s\<lparr>so_isconn := True\<rparr>) h1 else h1, so)))"

definition so_isconnected :: "soptr \<Rightarrow> sostore \<Rightarrow> sostore option" where
  "so_isconnected so h =
     (let head = so_head (h so); h1 = so_upd so (\<lambda>s. s\<lparr>so_isconn := True\<rparr>) h in
      if head = 0 then Some h1
      else Option.bind (soqremque so False h1) (\<lambda>(h2, r). if r then soqinsque head so True h2 else Some h2))"

text \<open>\<open>accept\<close> once a connection is queued, and \<open>sofree\<close> as far as the queues go.\<close>

definition so_accept :: "soptr \<Rightarrow> sostore \<Rightarrow> (so_panic + sostore \<times> soptr) option" where
  "so_accept head h =
     (let aso = so_q (h head) in
      map_option (\<lambda>(h1, r). if r then Inr (h1, aso) else Inl Panic_accept) (soqremque aso True h))"

definition so_dequeue :: "soptr \<Rightarrow> sostore \<Rightarrow> (so_panic + sostore) option" where
  "so_dequeue so h =
     (if so_head (h so) = 0 then Some (Inr h)
      else Option.bind (soqremque so False h) (\<lambda>(h1, r1).
        if r1 then Some (Inr (so_upd so (\<lambda>s. s\<lparr>so_head := 0\<rparr>) h1))
        else map_option (\<lambda>(h2, r2).
            if r2 then Inr (so_upd so (\<lambda>s. s\<lparr>so_head := 0\<rparr>) h2) else Inl Panic_sofree_dq) (soqremque so True h1)))"

section \<open>What happens to one listening socket\<close>

datatype soev = SoNew soptr bool bool | SoConnected soptr | SoAccept | SoFree soptr

fun so_event :: "soptr \<Rightarrow> soev \<Rightarrow> sostore \<Rightarrow> (so_panic + sostore) option" where
  "so_event head (SoNew so attach conn) h = map_option (\<lambda>(h1, _). Inr h1) (sonewconn so attach conn head h)"
| "so_event head (SoConnected so) h = map_option Inr (so_isconnected so h)"
| "so_event head SoAccept h =
     (if so_qlen (h head) = 0 then Some (Inr h) else map_option (map_sum id fst) (so_accept head h))"
| "so_event head (SoFree so) h = so_dequeue so h"

fun so_events :: "soptr \<Rightarrow> soev list \<Rightarrow> sostore \<Rightarrow> (so_panic + sostore) option" where
  "so_events head [] h = Some (Inr h)"
| "so_events head (e # es) h =
     Option.bind (so_event head e h) (\<lambda>r. case r of Inl p \<Rightarrow> Some (Inl p) | Inr h1 \<Rightarrow> so_events head es h1)"

end
