(* ===== verification/Sock_Queue_Correct.thy ===== *)
theory Sock_Queue_Correct
  imports Sock_Queue
begin

text \<open>
  The queues of a listening socket are two lists: what each operation on the store does to them.
\<close>

section \<open>Lists in the store\<close>

fun soq_list :: "bool \<Rightarrow> sostore \<Rightarrow> soptr \<Rightarrow> soptr list \<Rightarrow> bool" where
  "soq_list q h p [] \<longleftrightarrow> p = 0"
| "soq_list q h p (x # xs) \<longleftrightarrow> p = x \<and> x \<noteq> 0 \<and> soq_list q h (so_link q (h x)) xs"

definition so_len :: "bool \<Rightarrow> soqnode \<Rightarrow> int" where
  "so_len q s = (if q then so_qlen s else so_q0len s)"

lemma so_sel [simp]:
  "so_link q (so_setlink r p s) = (if q = r then p else so_link q s)" "so_link q (so_addlen r d s) = so_link q s"
  "so_link q (s\<lparr>so_head := p\<rparr>) = so_link q s" "so_link q (s\<lparr>so_isconn := b\<rparr>) = so_link q s"
  "so_link q (s\<lparr>so_q := 0, so_q0 := 0, so_head := 0\<rparr>) = 0" "so_link q (s\<lparr>so_q := 0, so_q0 := 0\<rparr>) = 0"
  "so_len q (so_setlink r p s) = so_len q s" "so_len q (so_addlen r d s) = so_len q s + (if q = r then d else 0)"
  "so_len q (s\<lparr>so_head := p\<rparr>) = so_len q s" "so_len q (s\<lparr>so_isconn := b\<rparr>) = so_len q s"
  "so_head (so_setlink r p s) = so_head s" "so_head (so_addlen r d s) = so_head s"
  "so_qlimit (so_setlink r p s) = so_qlimit s" "so_qlimit (so_addlen r d s) = so_qlimit s"
  by (simp_all add: so_link_def so_setlink_def so_addlen_def so_len_def)

lemma so_upd_sel [simp]: "so_upd p f h p = f (h p)" "x \<noteq> p \<Longrightarrow> so_upd p f h x = h x"
  by (simp_all add: so_upd_def)

lemma soq_list_cong:
  "\<forall>x\<in>set xs. so_link q (h' x) = so_link q (h x) \<Longrightarrow> soq_list q h' p xs = soq_list q h p xs"
  by (induction xs arbitrary: p) auto

lemma soq_end_spec:
  "soq_list q h (so_link q (h p)) xs \<Longrightarrow> soq_end q h p = Some (last (p # xs))"
proof (induction xs arbitrary: p)
  case Nil
  then show ?case by (subst soq_end.simps) simp
next
  case (Cons x xs)
  then have "soq_end q h x = Some (last (x # xs))" by simp
  then show ?case using Cons.prems by (subst soq_end.simps) auto
qed

lemma soq_list_snoc:
  assumes "soq_list q h (so_link q (h p)) xs" "so \<notin> set (p # xs)" "so \<noteq> 0" "so_link q (h so) = 0" "distinct (p # xs)"
  shows "soq_list q (so_upd (last (p # xs)) (so_setlink q so) h) (so_link q (so_upd (last (p # xs)) (so_setlink q so) h p)) (xs @ [so])"
  using assms
proof (induction xs arbitrary: p)
  case Nil
  then show ?case by (simp add: so_upd_def)
next
  case (Cons x xs)
  let ?h = "so_upd (last (p # x # xs)) (so_setlink q so) h"
  have "soq_list q ?h (so_link q (?h x)) (xs @ [so])" using Cons.IH[of x] Cons.prems by simp
  moreover have "p \<noteq> last (x # xs)" using Cons.prems(5) by (metis distinct.simps(2) last_in_set list.distinct(1))
  then have "?h p = h p" by simp
  ultimately show ?case using Cons.prems(1) by simp
qed

lemma soq_prev_spec:
  "soq_list q h (so_link q (h p)) xs \<Longrightarrow> so \<noteq> 0 \<Longrightarrow>
   (so \<notin> set xs \<longrightarrow> soq_prev q so h p = Some None) \<and>
   (xs = as @ so # bs \<and> so \<notin> set as \<longrightarrow> soq_prev q so h p = Some (Some (last (p # as))))"
proof (induction xs arbitrary: p as)
  case Nil
  then show ?case by (subst (1 2) soq_prev.simps) simp
next
  case (Cons x xs)
  show ?case
  proof (cases "x = so")
    case True
    have "soq_prev q so h p = Some (Some p)" using Cons.prems True by (subst soq_prev.simps) simp
    then show ?thesis using True by (cases as) auto
  next
    case False
    have "soq_prev q so h p = soq_prev q so h x" using Cons.prems(1) False by (subst soq_prev.simps) simp
    then show ?thesis using Cons.IH[of x "tl as"] Cons.prems False by (cases as) auto
  qed
qed

lemma soq_list_remove:
  assumes "soq_list q h (so_link q (h p)) (as @ so # bs)" "distinct (p # as @ so # bs)"
  shows "soq_list q (so_upd (last (p # as)) (so_setlink q (so_link q (h so))) h)
    (so_link q (so_upd (last (p # as)) (so_setlink q (so_link q (h so))) h p)) (as @ bs)"
  using assms
proof (induction as arbitrary: p)
  case Nil
  let ?h = "so_upd p (so_setlink q (so_link q (h so))) h"
  have "soq_list q ?h (so_link q (h so)) bs = soq_list q h (so_link q (h so)) bs"
    by (rule soq_list_cong) (use Nil.prems(2) in \<open>auto simp: so_upd_def\<close>)
  then show ?case using Nil.prems by simp
next
  case (Cons x as)
  let ?h = "so_upd (last (p # x # as)) (so_setlink q (so_link q (h so))) h"
  have "soq_list q ?h (so_link q (?h x)) (as @ bs)" using Cons.IH[of x] Cons.prems by simp
  moreover have "p \<noteq> last (x # as)" using Cons.prems(2) by (metis Un_iff append_Cons distinct.simps(2) last_in_set list.distinct(1) set_append)
  then have "?h p = h p" by simp
  ultimately show ?case using Cons.prems(1) by simp
qed

section \<open>The queues\<close>

text \<open>The store holds the queues \<open>L False\<close> and \<open>L True\<close> of the listening socket, and no other queue.\<close>

definition soq_rep :: "soptr \<Rightarrow> sostore \<Rightarrow> (bool \<Rightarrow> soptr list) \<Rightarrow> bool" where
  "soq_rep head h L \<longleftrightarrow> head \<noteq> 0 \<and> distinct (head # L False @ L True) \<and>
     (\<forall>q. soq_list q h (so_link q (h head)) (L q) \<and> so_len q (h head) = int (length (L q))) \<and>
     (\<forall>s. so_head (h s) = (if s \<in> set (L False) \<union> set (L True) then head else 0))"

lemma rep_distinct: "soq_rep head h L \<Longrightarrow> distinct (head # L q) \<and> (q \<noteq> r \<longrightarrow> set (L q) \<inter> set (L r) = {})"
  by (cases q; cases r) (auto simp: soq_rep_def)

lemma rep_nonnull: "soq_rep head h L \<Longrightarrow> 0 \<notin> set (L q)"
proof -
  have "soq_list q h p xs \<Longrightarrow> 0 \<notin> set xs" for p xs by (induction xs arbitrary: p) auto
  then show "soq_rep head h L \<Longrightarrow> 0 \<notin> set (L q)" unfolding soq_rep_def by blast
qed

lemma rep_member: "soq_rep head h L \<Longrightarrow> so \<in> set (L q) \<Longrightarrow> so \<noteq> 0 \<and> so \<noteq> head"
  using rep_nonnull[of head h L q] rep_distinct[of head h L q] by (metis distinct.simps(2))

lemma soqinsque_rep:
  assumes "soq_rep head h L" "so \<noteq> 0" "so \<noteq> head" "\<forall>r. so \<notin> set (L r)"
  shows "\<exists>h'. soqinsque head so q h = Some h' \<and> soq_rep head h' (L(q := L q @ [so])) \<and> so_qlimit (h' head) = so_qlimit (h head)"
proof -
  define h2 where "h2 = so_upd so (so_setlink q 0) (so_upd head (so_addlen q 1) (so_upd so (\<lambda>s. s\<lparr>so_head := head\<rparr>) h))"
  note D = rep_distinct[OF assms(1)]
  have l: "so_link r (h2 x) = (if x = so \<and> r = q then 0 else so_link r (h x))" for r x
    by (cases "x = so"; cases "x = head") (simp_all add: h2_def assms(3))
  have lst: "soq_list r h2 (so_link r (h2 head)) (L r)" for r
  proof -
    have "soq_list r h2 (so_link r (h head)) (L r) = soq_list r h (so_link r (h head)) (L r)"
      by (rule soq_list_cong) (use assms(4) l in auto)
    then show ?thesis using assms(1,3) by (auto simp: l soq_rep_def)
  qed
  define p where "p = last (head # L q)"
  define h3 where "h3 = so_upd p (so_setlink q so) h2"
  have e: "soq_end q h2 head = Some p" using soq_end_spec[OF lst] by (simp add: p_def)
  have run: "soqinsque head so q h = Some h3" by (simp add: soqinsque_def h2_def[symmetric] e h3_def)
  have pin: "p = head \<or> p \<in> set (L q)" unfolding p_def by (cases "L q") auto
  have q: "soq_list q h3 (so_link q (h3 head)) (L q @ [so])"
    unfolding h3_def p_def by (rule soq_list_snoc[OF lst]) (use assms(2-4) D l in auto)
  have r: "soq_list r h3 (so_link r (h3 head)) (L r)" if "r \<noteq> q" for r
  proof -
    have s: "so_link r (h3 x) = so_link r (h2 x)" for x using that by (cases "x = p") (simp_all add: h3_def)
    have "soq_list r h3 (so_link r (h2 head)) (L r) = soq_list r h2 (so_link r (h2 head)) (L r)"
      by (rule soq_list_cong) (simp add: s)
    then show ?thesis using lst by (simp add: s)
  qed
  have len: "so_len r (h3 head) = so_len r (h head) + (if r = q then 1 else 0)" for r
    using assms(3) by (cases "p = head") (simp_all add: h3_def h2_def)
  have hd: "so_head (h3 x) = (if x = so then head else so_head (h x))" for x
    using assms(3) by (cases "x = p"; cases "x = so"; cases "x = head") (simp_all add: h3_def h2_def)
  have lim: "so_qlimit (h3 head) = so_qlimit (h head)"
    using assms(3) by (cases "p = head") (simp_all add: h3_def h2_def)
  have "soq_rep head h3 (L(q := L q @ [so]))"
    using assms q r len hd unfolding soq_rep_def by (cases q) auto
  then show ?thesis using run lim by blast
qed

lemma soqremque_rep:
  assumes "soq_rep head h L" "so \<in> set (L r)"
  shows "\<exists>h'. soqremque so q h = Some (h', so \<in> set (L q)) \<and> so_qlimit (h' head) = so_qlimit (h head) \<and>
    soq_rep head h' (if so \<in> set (L q) then L(q := remove1 so (L q)) else L) \<and> (so \<in> set (L q) \<longrightarrow> so_head (h' so) = 0)"
proof -
  have hd: "so_head (h so) = head" using assms by (cases r) (auto simp: soq_rep_def)
  have so: "so \<noteq> 0" "so \<noteq> head" using rep_member[OF assms] by simp_all
  have lst: "soq_list q h (so_link q (h head)) (L q)" for q using assms(1) by (simp add: soq_rep_def)
  show ?thesis
  proof (cases "so \<in> set (L q)")
    case False
    have "soq_prev q so h head = Some None" using soq_prev_spec[OF lst so(1)] False by blast
    then show ?thesis using False assms(1) by (simp add: soqremque_def hd)
  next
    case True
    obtain as bs where ab: "L q = as @ so # bs" "so \<notin> set as" using split_list_first[OF True] by blast
    define p where "p = last (head # as)"
    have D: "distinct (head # as @ so # bs)" using rep_distinct[OF assms(1), of q] ab(1) by simp
    have pr: "soq_prev q so h head = Some (Some p)" using soq_prev_spec[OF lst so(1), of q as bs] ab by (simp add: p_def)
    define h1 where "h1 = so_upd p (so_setlink q (so_link q (h so))) h"
    define h3 where "h3 = so_upd so (\<lambda>s. s\<lparr>so_q := 0, so_q0 := 0, so_head := 0\<rparr>) (so_upd head (so_addlen q (-1)) h1)"
    have run: "soqremque so q h = Some (h3, True)" by (simp add: soqremque_def hd pr h1_def h3_def Let_def)
    have pin: "p = head \<or> p \<in> set as" unfolding p_def by (cases as) auto
    then have ps: "p \<noteq> so" using so(2) ab(2) by auto
    have l: "so_link s (h3 x) = (if x = so then 0 else so_link s (h1 x))" for s x
      using so(2) by (cases "x = so"; cases "x = head") (simp_all add: h3_def)
    have l1: "so_link s (h1 x) = so_link s (h x)" if "s \<noteq> q" for s x using that by (cases "x = p") (simp_all add: h1_def)
    have q: "soq_list q h3 (so_link q (h3 head)) (as @ bs)"
    proof -
      have "soq_list q h1 (so_link q (h1 head)) (as @ bs)"
        unfolding h1_def p_def by (rule soq_list_remove) (use lst[of q] D ab(1) in auto)
      moreover have "soq_list q h3 (so_link q (h1 head)) (as @ bs) = soq_list q h1 (so_link q (h1 head)) (as @ bs)"
        by (rule soq_list_cong) (use D l in auto)
      ultimately show ?thesis using so(2) by (simp add: l)
    qed
    have o: "soq_list s h3 (so_link s (h3 head)) (L s)" if "s \<noteq> q" for s
    proof -
      have "so \<notin> set (L s)" using rep_distinct[OF assms(1), of q s] that True by auto
      then have "soq_list s h3 (so_link s (h head)) (L s) = soq_list s h (so_link s (h head)) (L s)"
        by (intro soq_list_cong) (auto simp: l l1[OF that])
      then show ?thesis using lst so(2) by (auto simp: l l1[OF that])
    qed
    have len: "so_len s (h3 head) = so_len s (h head) - (if s = q then 1 else 0)" for s
      using so(2) by (cases "p = head") (simp_all add: h3_def h1_def)
    have hh: "so_head (h3 x) = (if x = so then 0 else so_head (h x))" for x
      using so(2) by (cases "x = p"; cases "x = so"; cases "x = head") (simp_all add: h3_def h1_def)
    have lim: "so_qlimit (h3 head) = so_qlimit (h head)"
      using so(2) by (cases "p = head") (simp_all add: h3_def h1_def)
    have rm: "remove1 so (L q) = as @ bs" using ab by (simp add: remove1_append)
    have ln: "int (length (as @ bs)) = int (length (L q)) - 1" using ab(1) by simp
    have "soq_rep head h3 (L(q := as @ bs))"
      using assms(1) q o len hh ab(1) D ln unfolding soq_rep_def by (cases q) auto
    then show ?thesis using run True lim hh by (simp add: rm)
  qed
qed

section \<open>The operations\<close>

text \<open>What an event does to the two lists; \<open>lim\<close> is \<open>so_qlimit\<close>.\<close>

fun abs_event :: "int \<Rightarrow> soev \<Rightarrow> (bool \<Rightarrow> soptr list) \<Rightarrow> (bool \<Rightarrow> soptr list)" where
  "abs_event lim (SoNew so attach conn) L =
     (if int (length (L False) + length (L True)) > 3 * lim div 2 \<or> so = 0 \<or> \<not> attach then L
      else L(conn := L conn @ [so]))"
| "abs_event lim (SoConnected so) L =
     (if so \<in> set (L False) then L(False := remove1 so (L False), True := L True @ [so]) else L)"
| "abs_event lim SoAccept L = L(True := tl (L True))"
| "abs_event lim (SoFree so) L = (\<lambda>q. remove1 so (L q))"

text \<open>\<open>MALLOC\<close> hands out memory that is not in use.\<close>

fun ev_fresh :: "soptr \<Rightarrow> soev \<Rightarrow> (bool \<Rightarrow> soptr list) \<Rightarrow> bool" where
  "ev_fresh head (SoNew so attach conn) L \<longleftrightarrow> so \<noteq> head \<and> so \<notin> set (L False) \<union> set (L True)"
| "ev_fresh head e L \<longleftrightarrow> True"

fun all_fresh :: "soptr \<Rightarrow> int \<Rightarrow> soev list \<Rightarrow> (bool \<Rightarrow> soptr list) \<Rightarrow> bool" where
  "all_fresh head lim [] L \<longleftrightarrow> True"
| "all_fresh head lim (e # es) L \<longleftrightarrow> ev_fresh head e L \<and> all_fresh head lim es (abs_event lim e L)"

lemma rep_conn: "soq_rep head h L \<Longrightarrow> soq_rep head (so_upd so (\<lambda>s. s\<lparr>so_isconn := b\<rparr>) h) L"
proof -
  assume r: "soq_rep head h L"
  let ?h = "so_upd so (\<lambda>s. s\<lparr>so_isconn := b\<rparr>) h"
  have e: "so_link q (?h x) = so_link q (h x)" "so_len q (?h x) = so_len q (h x)" "so_head (?h x) = so_head (h x)" for q x
    by (cases "x = so"; simp)+
  have "soq_list q ?h p xs = soq_list q h p xs" for q p xs by (rule soq_list_cong) (simp add: e)
  then show ?thesis using r by (simp add: soq_rep_def e)
qed

lemma rep_new_store:
  assumes "soq_rep head h L" "so \<noteq> head" "\<forall>r. so \<notin> set (L r)"
  shows "soq_rep head (h(so := so_zero)) L"
proof -
  have "soq_list q (h(so := so_zero)) p (L q) = soq_list q h p (L q)" for q p
    by (rule soq_list_cong) (use assms(3) in auto)
  then show ?thesis using assms by (auto simp: soq_rep_def so_zero_def)
qed

lemma rep_cleared: "soq_rep head h L \<Longrightarrow> so_head (h so) = 0 \<Longrightarrow> soq_rep head (so_upd so (\<lambda>s. s\<lparr>so_head := 0\<rparr>) h) L"
proof -
  assume "soq_rep head h L" "so_head (h so) = 0"
  moreover from this(2) have "so_upd so (\<lambda>s. s\<lparr>so_head := 0\<rparr>) h = h" by (auto simp: so_upd_def fun_eq_iff)
  ultimately show ?thesis by simp
qed

definition stepped :: "soptr \<Rightarrow> int \<Rightarrow> (bool \<Rightarrow> soptr list) \<Rightarrow> (so_panic + sostore) option \<Rightarrow> bool" where
  "stepped head lim L r \<longleftrightarrow> (\<exists>h'. r = Some (Inr h') \<and> soq_rep head h' L \<and> so_qlimit (h' head) = lim)"

lemma new_rep:
  assumes "soq_rep head h L" "ev_fresh head (SoNew so attach conn) L"
  shows "stepped head (so_qlimit (h head)) (abs_event (so_qlimit (h head)) (SoNew so attach conn) L)
    (so_event head (SoNew so attach conn) h)"
proof -
  have len: "so_qlen (h head) = int (length (L True))" "so_q0len (h head) = int (length (L False))"
    using assms(1) by (auto simp: soq_rep_def so_len_def all_bool_eq)
  have fr: "so \<noteq> head" "\<forall>r. so \<notin> set (L r)" using assms(2) by (auto simp: all_bool_eq)
  consider (full) "int (length (L False) + length (L True)) > 3 * so_qlimit (h head) div 2 \<or> so = 0"
    | (room) "\<not> int (length (L False) + length (L True)) > 3 * so_qlimit (h head) div 2" "so \<noteq> 0" by blast
  then show ?thesis
  proof cases
    case full
    then have "sonewconn so attach conn head h = Some (h, 0)" by (auto simp: sonewconn_def len)
    then show ?thesis using full assms(1) by (auto simp: stepped_def)
  next
    case room
    let ?h = "h(so := so_zero)"
    obtain h1 where h1: "soqinsque head so conn ?h = Some h1" "soq_rep head h1 (L(conn := L conn @ [so]))"
      "so_qlimit (h1 head) = so_qlimit (h head)"
      using soqinsque_rep[OF rep_new_store[OF assms(1) fr] room(2) fr, of conn] fr(1) by auto
    have r: "sonewconn so attach conn head h = (if \<not> attach then map_option (\<lambda>(h2, _). (h2, 0)) (soqremque so conn h1)
          else Some (if conn then so_upd so (\<lambda>s. s\<lparr>so_isconn := True\<rparr>) h1 else h1, so))"
      using room by (simp add: sonewconn_def len h1(1))
    show ?thesis
    proof (cases attach)
      case True
      have "soq_rep head (if conn then so_upd so (\<lambda>s. s\<lparr>so_isconn := True\<rparr>) h1 else h1) (L(conn := L conn @ [so]))"
        using rep_conn[OF h1(2), of so True] h1(2) by (cases conn) simp_all
      moreover have "so_qlimit ((if conn then so_upd so (\<lambda>s. s\<lparr>so_isconn := True\<rparr>) h1 else h1) head) = so_qlimit (h head)"
        using h1(3) fr(1) by simp
      ultimately show ?thesis using True room r by (auto simp: stepped_def)
    next
      case False
      have "so \<in> set ((L(conn := L conn @ [so])) conn)" by simp
      from soqremque_rep[OF h1(2) this, of conn] obtain h2 where h2: "soqremque so conn h1 = Some (h2, True)"
        "so_qlimit (h2 head) = so_qlimit (h1 head)" "soq_rep head h2 (L(conn := remove1 so (L conn @ [so])))"
        by auto
      have "remove1 so (L conn @ [so]) = L conn" using fr(2) by (simp add: remove1_append)
      then have "soq_rep head h2 L" using h2(3) by simp
      then show ?thesis using False r h2(1,2) h1(3) by (auto simp: stepped_def)
    qed
  qed
qed

lemma conn_rep:
  assumes "soq_rep head h L"
  shows "stepped head (so_qlimit (h head)) (abs_event lim (SoConnected so) L) (so_event head (SoConnected so) h)"
proof -
  let ?h = "so_upd so (\<lambda>s. s\<lparr>so_isconn := True\<rparr>) h"
  have r: "soq_rep head ?h L" "so_head (?h so) = so_head (h so)" "so_qlimit (?h head) = so_qlimit (h head)"
    using rep_conn[OF assms] by (auto simp: so_upd_def)
  have hd: "so_head (h so) = (if so \<in> set (L False) \<union> set (L True) then head else 0)" "head \<noteq> 0"
    using assms by (auto simp: soq_rep_def)
  show ?thesis
  proof (cases "so \<in> set (L False) \<union> set (L True)")
    case False
    then have "so_isconnected so h = Some ?h" using hd by (simp add: so_isconnected_def)
    then show ?thesis using False r by (auto simp: stepped_def)
  next
    case True
    then obtain s where s: "so \<in> set (L s)" by blast
    obtain h1 where h1: "soqremque so False ?h = Some (h1, so \<in> set (L False))" "so_qlimit (h1 head) = so_qlimit (h head)"
      "soq_rep head h1 (if so \<in> set (L False) then L(False := remove1 so (L False)) else L)"
      using soqremque_rep[OF r(1) s, of False] r(3) by auto
    have run: "so_isconnected so h = (if so \<in> set (L False) then soqinsque head so True h1 else Some h1)"
      using True hd h1(1) by (simp add: so_isconnected_def)
    show ?thesis
    proof (cases "so \<in> set (L False)")
      case True
      let ?L = "L(False := remove1 so (L False))"
      have d: "so \<noteq> 0" "so \<noteq> head" "\<forall>r. so \<notin> set (?L r)"
        using rep_member[OF assms True] rep_distinct[OF assms, of False] assms True by (auto simp: soq_rep_def all_bool_eq)
      obtain h2 where "soqinsque head so True h1 = Some h2" "soq_rep head h2 (?L(True := ?L True @ [so]))"
        "so_qlimit (h2 head) = so_qlimit (h1 head)"
        using soqinsque_rep[of head h1 ?L, OF _ d, of True] h1(3) True by auto
      then show ?thesis using run True h1(2) by (simp add: stepped_def)
    next
      case False
      then show ?thesis using run h1 by (simp add: stepped_def)
    qed
  qed
qed

lemma accept_rep:
  assumes "soq_rep head h L"
  shows "stepped head (so_qlimit (h head)) (abs_event lim SoAccept L) (so_event head SoAccept h)"
proof (cases "L True")
  case Nil
  then have "so_qlen (h head) = 0" using assms by (auto simp: soq_rep_def so_len_def all_bool_eq)
  moreover have "L(True := []) = L" using Nil by auto
  ultimately show ?thesis using Nil assms by (simp add: stepped_def)
next
  case (Cons a as)
  then have l: "so_qlen (h head) \<noteq> 0" "so_q (h head) = a" using assms by (auto simp: soq_rep_def so_len_def so_link_def all_bool_eq)
  have "a \<in> set (L True)" using Cons by simp
  from soqremque_rep[OF assms this, of True] Cons obtain h1 where "soqremque a True h = Some (h1, True)"
    "so_qlimit (h1 head) = so_qlimit (h head)" "soq_rep head h1 (L(True := as))" by auto
  then show ?thesis using l Cons by (simp add: so_accept_def stepped_def Let_def)
qed

lemma free_rep:
  assumes "soq_rep head h L"
  shows "stepped head (so_qlimit (h head)) (abs_event lim (SoFree so) L) (so_event head (SoFree so) h)"
proof -
  have hd: "so_head (h so) = (if so \<in> set (L False) \<union> set (L True) then head else 0)" "head \<noteq> 0"
    using assms by (auto simp: soq_rep_def)
  show ?thesis
  proof (cases "so \<in> set (L False) \<union> set (L True)")
    case False
    then have "abs_event lim (SoFree so) L = L" by (auto simp: fun_eq_iff remove1_idem all_bool_eq)
    then show ?thesis using False hd assms by (simp add: stepped_def so_dequeue_def)
  next
    case True
    then obtain s where s: "so \<in> set (L s)" by blast
    have dj: "so \<in> set (L False) \<Longrightarrow> so \<notin> set (L True)" using assms by (auto simp: soq_rep_def)
    obtain h1 where h1: "soqremque so False h = Some (h1, so \<in> set (L False))" "so_qlimit (h1 head) = so_qlimit (h head)"
      "soq_rep head h1 (if so \<in> set (L False) then L(False := remove1 so (L False)) else L)"
      "so \<in> set (L False) \<longrightarrow> so_head (h1 so) = 0"
      using soqremque_rep[OF assms s, of False] by auto
    let ?clear = "so_upd so (\<lambda>s. s\<lparr>so_head := 0\<rparr>)"
    have lim: "so_qlimit (?clear k head) = so_qlimit (k head)" for k by (cases "head = so") simp_all
    show ?thesis
    proof (cases "so \<in> set (L False)")
      case in0: True
      have "abs_event lim (SoFree so) L = L(False := remove1 so (L False))"
        using dj[OF in0] by (auto simp: fun_eq_iff remove1_idem all_bool_eq)
      moreover have "soq_rep head (?clear h1) (L(False := remove1 so (L False)))" using rep_cleared[of head h1] h1(3,4) in0 by simp
      ultimately show ?thesis using hd True h1(1,2) in0 lim by (simp add: stepped_def so_dequeue_def)
    next
      case in1: False
      have h1r: "soq_rep head h1 L" "so \<in> set (L True)" using h1(3) in1 True by auto
      obtain h2 where h2: "soqremque so True h1 = Some (h2, True)" "so_qlimit (h2 head) = so_qlimit (h1 head)"
        "soq_rep head h2 (L(True := remove1 so (L True)))" "so_head (h2 so) = 0"
        using soqremque_rep[OF h1r, of True] h1r(2) by auto
      have "abs_event lim (SoFree so) L = L(True := remove1 so (L True))"
        using in1 by (auto simp: fun_eq_iff remove1_idem all_bool_eq)
      moreover have "soq_rep head (?clear h2) (L(True := remove1 so (L True)))" by (rule rep_cleared[OF h2(3,4)])
      ultimately show ?thesis using hd True h1(1,2) h2(1,2) in1 lim by (simp add: stepped_def so_dequeue_def)
    qed
  qed
qed

section \<open>Any history of a listening socket\<close>

lemma event_rep:
  assumes "soq_rep head h L" "ev_fresh head e L" "so_qlimit (h head) = lim"
  shows "stepped head lim (abs_event lim e L) (so_event head e h)"
  using assms new_rep conn_rep accept_rep free_rep by (cases e) (blast, metis+)

text \<open>The number of queued connections stays within one of the limit.\<close>

definition soq_bounded :: "int \<Rightarrow> (bool \<Rightarrow> soptr list) \<Rightarrow> bool" where
  "soq_bounded lim L \<longleftrightarrow> int (length (L False) + length (L True)) \<le> 3 * lim div 2 + 1"

lemma event_bounded: "0 \<le> lim \<Longrightarrow> soq_bounded lim L \<Longrightarrow> soq_bounded lim (abs_event lim e L)"
proof (induction lim e L rule: abs_event.induct)
  case (2 lim so L)
  have "so \<in> set (L False) \<Longrightarrow> length (remove1 so (L False)) + 1 = length (L False)"
    using length_pos_if_in_set[of so "L False"] by (simp add: length_remove1)
  then show ?case using 2 by (auto simp: soq_bounded_def)
next
  case (4 lim so L)
  have "length (remove1 so (L q)) \<le> length (L q)" for q by (simp add: length_remove1)
  then have "length (remove1 so (L False)) + length (remove1 so (L True)) \<le> length (L False) + length (L True)"
    by (simp add: add_mono)
  then show ?case using 4 by (simp add: soq_bounded_def)
qed (auto simp: soq_bounded_def)

text \<open>C12: the queues of a listening socket are the lists of its connections. Whatever connections come in,
  are completed, accepted, dropped or refused, in any order, every walk over the linked sockets ends,
  no panic is reached, and the queues are those of a plain model: a new connection goes to the end of
  the partial ones, a completed one to the end of the complete ones, accept takes the oldest, and a
  dropped one leaves no trace; both counts are exact, and never more than 3/2 of the backlog plus one
  connection are queued.\<close>

theorem so_queues_refine:
  assumes "soq_rep head h L" "all_fresh head (so_qlimit (h head)) es L" "0 \<le> so_qlimit (h head)"
    "soq_bounded (so_qlimit (h head)) L"
  shows "\<exists>h'. so_events head es h = Some (Inr h') \<and> soq_rep head h' (fold (abs_event (so_qlimit (h head))) es L) \<and>
    so_q0len (h' head) + so_qlen (h' head) \<le> 3 * so_qlimit (h head) div 2 + 1"
  using assms
proof (induction es arbitrary: h L)
  case Nil
  then show ?case by (auto simp: soq_rep_def so_len_def soq_bounded_def all_bool_eq)
next
  case (Cons e es)
  let ?lim = "so_qlimit (h head)" and ?L = "abs_event (so_qlimit (h head)) e L"
  obtain h1 where 1: "so_event head e h = Some (Inr h1)" "soq_rep head h1 ?L" "so_qlimit (h1 head) = ?lim"
    using event_rep[of head h L e ?lim] Cons.prems by (auto simp: stepped_def)
  have "soq_bounded ?lim ?L" by (rule event_bounded) (use Cons.prems in auto)
  then show ?case using Cons.IH[of h1 ?L] Cons.prems 1 by simp
qed

text \<open>Two connections to a socket with a backlog of 1; the second completes first and is accepted.\<close>

definition ex_listen :: sostore where
  "ex_listen = (\<lambda>_. so_zero)(10 := so_zero\<lparr>so_qlimit := 1\<rparr>)"

theorem so_queues_refine_witness:
  "\<exists>h'. so_events 10 [SoNew 12 True False, SoNew 13 True False, SoConnected 13, SoAccept, SoFree 12] ex_listen = Some (Inr h') \<and>
    soq_rep 10 h' (\<lambda>_. [])"
proof -
  let ?es = "[SoNew 12 True False, SoNew 13 True False, SoConnected 13, SoAccept, SoFree 12]"
  have l: "so_qlimit (ex_listen 10) = 1" by (simp add: ex_listen_def)
  have r: "soq_rep 10 ex_listen (\<lambda>_. [])"
    by (auto simp: soq_rep_def ex_listen_def so_zero_def so_link_def so_len_def)
  have f: "all_fresh 10 (so_qlimit (ex_listen 10)) ?es (\<lambda>_. [])" unfolding l by simp
  have b: "0 \<le> so_qlimit (ex_listen 10)" "soq_bounded (so_qlimit (ex_listen 10)) (\<lambda>_. [])"
    by (simp_all add: l soq_bounded_def)
  have e: "fold (abs_event (so_qlimit (ex_listen 10))) ?es (\<lambda>_. []) = (\<lambda>_. [])" unfolding l by (auto simp: fun_eq_iff)
  from so_queues_refine[OF r f b] show ?thesis unfolding e by blast
qed

end
