(* ===== verification/Tcp_Seq.thy ===== *)
theory Tcp_Seq
  imports Amitcp_Prelude
begin

text \<open>
  TCP sequence numbers (\<open>netinet/tcp_seq.h\<close>): 32-bit values compared by the sign of their
  difference. The comparisons order a window of fewer than \<open>2 ^ 31\<close> sequence numbers, and only
  such a window; the locale states that contract and the scoreboard and reassembly theories
  use it.
\<close>

section \<open>The comparison macros\<close>

definition SEQ_LT :: "u32 \<Rightarrow> u32 \<Rightarrow> bool" where
  "SEQ_LT a b \<longleftrightarrow> sint (a - b) < 0"

definition SEQ_LEQ :: "u32 \<Rightarrow> u32 \<Rightarrow> bool" where
  "SEQ_LEQ a b \<longleftrightarrow> sint (a - b) \<le> 0"

definition SEQ_GT :: "u32 \<Rightarrow> u32 \<Rightarrow> bool" where
  "SEQ_GT a b \<longleftrightarrow> sint (a - b) > 0"

definition SEQ_GEQ :: "u32 \<Rightarrow> u32 \<Rightarrow> bool" where
  "SEQ_GEQ a b \<longleftrightarrow> sint (a - b) \<ge> 0"

lemmas SEQ_defs = SEQ_LT_def SEQ_LEQ_def SEQ_GT_def SEQ_GEQ_def

section \<open>Windows\<close>

text \<open>The offset of a sequence number above a base, and membership of a window.\<close>

definition seq_off :: "u32 \<Rightarrow> u32 \<Rightarrow> nat" where
  "seq_off b x = unat (x - b)"

definition seq_in :: "u32 \<Rightarrow> u32 \<Rightarrow> bool" where
  "seq_in b x \<longleftrightarrow> seq_off b x < 2 ^ 31"

text \<open>
  The contract of an ordered window: on members, the four comparisons are the order of the
  offsets, and offsets identify members.
\<close>

locale seq_window =
  fixes inw :: "'s \<Rightarrow> bool" and off :: "'s \<Rightarrow> nat"
    and lt leq gt geq :: "'s \<Rightarrow> 's \<Rightarrow> bool"
  assumes lt_off: "inw a \<Longrightarrow> inw b \<Longrightarrow> lt a b \<longleftrightarrow> off a < off b"
    and leq_off: "inw a \<Longrightarrow> inw b \<Longrightarrow> leq a b \<longleftrightarrow> off a \<le> off b"
    and gt_off: "inw a \<Longrightarrow> inw b \<Longrightarrow> gt a b \<longleftrightarrow> off b < off a"
    and geq_off: "inw a \<Longrightarrow> inw b \<Longrightarrow> geq a b \<longleftrightarrow> off b \<le> off a"
    and off_inj: "inw a \<Longrightarrow> inw b \<Longrightarrow> off a = off b \<Longrightarrow> a = b"
begin

lemmas cmp_off = lt_off leq_off gt_off geq_off

lemma lt_trans: "inw a \<Longrightarrow> inw b \<Longrightarrow> inw c \<Longrightarrow> lt a b \<Longrightarrow> lt b c \<Longrightarrow> lt a c"
  by (simp add: cmp_off)

lemma leq_antisym: "inw a \<Longrightarrow> inw b \<Longrightarrow> leq a b \<Longrightarrow> leq b a \<Longrightarrow> a = b"
  by (auto simp: cmp_off intro: off_inj)

lemma geq_iff_not_lt: "inw a \<Longrightarrow> inw b \<Longrightarrow> geq a b \<longleftrightarrow> \<not> lt a b"
  by (auto simp: cmp_off)

end

lemma sint_diff_off:
  assumes "seq_in b x" "seq_in b y"
  shows "sint (x - y) = int (seq_off b x) - int (seq_off b y)"
proof -
  have "x - y = (x - b) - (y - b)" by simp
  then show ?thesis
    using assms sint_diff_small[of "x - b" "y - b"]
    by (simp add: seq_in_def seq_off_def)
qed

lemma seq_off_inj: "seq_off b x = seq_off b y \<Longrightarrow> x = y"
  unfolding seq_off_def by (metis diff_add_cancel word_unat_eq_iff)

interpretation sw: seq_window "seq_in b" "seq_off b" SEQ_LT SEQ_LEQ SEQ_GT SEQ_GEQ for b
proof unfold_locales
  fix x y
  assume in_w: "seq_in b x" "seq_in b y"
  note d = sint_diff_off[OF in_w]
  show "SEQ_LT x y = (seq_off b x < seq_off b y)" using d by (simp add: SEQ_LT_def)
  show "SEQ_LEQ x y = (seq_off b x \<le> seq_off b y)" using d by (simp add: SEQ_LEQ_def)
  show "SEQ_GT x y = (seq_off b y < seq_off b x)" using d by (simp add: SEQ_GT_def)
  show "SEQ_GEQ x y = (seq_off b y \<le> seq_off b x)" using d by (simp add: SEQ_GEQ_def)
qed (auto intro: seq_off_inj)

lemma seq_off_self [simp]: "seq_off b b = 0"
  by (simp add: seq_off_def)

lemma seq_in_self [simp]: "seq_in b b"
  by (simp add: seq_in_def)

lemma SEQ_LT_off: "SEQ_LT x b \<longleftrightarrow> \<not> seq_in b x"
  by (simp add: SEQ_LT_def seq_in_def seq_off_def sint_neg_iff)

lemma SEQ_GEQ_off: "SEQ_GEQ x b \<longleftrightarrow> seq_in b x"
  using SEQ_LT_off[of x b] by (auto simp: SEQ_LT_def SEQ_GEQ_def)

lemma SEQ_GT_off: "SEQ_GT x b \<longleftrightarrow> seq_in b x \<and> x \<noteq> b"
proof -
  have "sint (x - b) = 0 \<longleftrightarrow> x = b" by (simp add: sint_eq_0_iff_u32)
  with SEQ_GEQ_off[of x b] show ?thesis by (auto simp: SEQ_GT_def SEQ_GEQ_def)
qed

lemma SEQ_LEQ_off: "SEQ_LEQ x b \<longleftrightarrow> \<not> seq_in b x \<or> x = b"
  using SEQ_GT_off[of x b] by (auto simp: SEQ_GT_def SEQ_LEQ_def)

lemma seq_off_rebase:
  assumes "seq_off b u \<le> seq_off b x"
  shows "seq_off u x = seq_off b x - seq_off b u"
proof -
  from assms have "u - b \<le> x - b" by (simp add: seq_off_def word_le_nat_alt)
  then have "unat ((x - b) - (u - b)) = unat (x - b) - unat (u - b)" by (rule unat_sub)
  then show ?thesis by (simp add: seq_off_def)
qed

lemma seq_off_add: "n < 2 ^ 32 \<Longrightarrow> seq_off b (b + of_nat n) = n"
  by (simp add: seq_off_def unat_of_nat)

lemma seq_of_off: "b + of_nat (seq_off b x) = x"
  by (simp add: seq_off_def)

text \<open>
  A walk from \<open>seq\<close> towards \<open>smax\<close> in non-zero steps, clamped at \<open>smax\<close>, gets closer at every
  step: what makes the segment walks of the stack terminate on every input.
\<close>

lemma seq_step_decreases:
  fixes seq smax :: u32 and mss :: u16
  assumes "SEQ_LT seq smax" "mss \<noteq> 0"
  shows "unat (smax - (if SEQ_GT (seq + ucast mss) smax then smax else seq + ucast mss))
           < unat (smax - seq)"
proof -
  define d where "d = smax - seq"
  define m :: u32 where "m = ucast mss"
  have "seq \<noteq> smax" using assms(1) by (auto simp: SEQ_LT_def)
  then have d0: "0 < unat d" by (simp add: d_def unat_gt_0)
  have um: "unat m = unat mss" by (simp add: m_def)
  have m0: "0 < unat m" using assms(2) um by (simp add: unat_gt_0)
  have mb: "unat m < 2 ^ 31"
    using um unsigned_less[of mss, where ?'a=nat] by simp
  show ?thesis
  proof (cases "SEQ_GT (seq + m) smax")
    case True
    then show ?thesis using d0 by (simp add: m_def d_def)
  next
    case False
    have "unat m \<le> unat d"
    proof (rule ccontr)
      assume less: "\<not> unat m \<le> unat d"
      then have "sint (m - d) = int (unat m) - int (unat d)"
        using mb by (intro sint_diff_small) simp_all
      moreover have "m - d = (seq + m) - smax" by (simp add: d_def)
      ultimately have "\<not> 0 < int (unat m) - int (unat d)"
        using False by (auto simp only: SEQ_GT_def)
      then show False using less by linarith
    qed
    then have u: "unat (d - m) = unat d - unat m" by (simp add: unat_sub word_le_nat_alt)
    have e: "smax - (seq + m) = d - m" by (simp add: d_def)
    have "unat (smax - (seq + m)) < unat d"
      unfolding e u using m0 d0 by linarith
    then show ?thesis using False by (simp add: m_def d_def)
  qed
qed

lemma seq_diff_of_nat:
  assumes "seq_off b x \<le> seq_off b y"
  shows "y - x = of_nat (seq_off b y - seq_off b x)"
  unfolding seq_off_rebase[OF assms, symmetric] by (simp add: seq_off_def)

lemma seq_off_back:
  assumes "n < 2 ^ 31"
  shows "seq_off (u - 2 ^ 30) (u + of_nat n) = 2 ^ 30 + n"
proof -
  have "u + of_nat n = (u - 2 ^ 30) + of_nat (2 ^ 30 + n)" by simp
  moreover have "2 ^ 30 + n < (2 ^ 32 :: nat)" using assms by simp
  ultimately show ?thesis using seq_off_add[of "2 ^ 30 + n" "u - 2 ^ 30"] by (simp only:)
qed

lemma seq_step_fin:
  fixes seq smax :: u32 and mss :: u16
  assumes "seq_in seq smax" "seq_off b smax < 2 ^ 31" "seq_off b seq \<le> seq_off b smax"
  shows "seq_off b seq \<le> seq_off b (if SEQ_GT (seq + ucast mss) smax then smax else seq + ucast mss) \<and>
         seq_off b (if SEQ_GT (seq + ucast mss) smax then smax else seq + ucast mss) \<le> seq_off b smax"
proof (cases "SEQ_GT (seq + ucast mss) smax")
  case True
  then show ?thesis using assms by simp
next
  case False
  have m: "unat mss < 2 ^ 16" using unat_u16_bound[of mss] by simp
  have e: "seq + ucast mss = seq + of_nat (unat mss)" by simp
  have os: "seq_off seq (seq + ucast mss) = unat mss"
    unfolding e using m by (intro seq_off_add) simp
  then have "seq_in seq (seq + ucast mss)" using m by (simp add: seq_in_def)
  then have le: "unat mss \<le> seq_off b smax - seq_off b seq"
    using False assms(1) os seq_off_rebase[OF assms(3)] by (simp add: sw.gt_off[of seq])
  have "seq + ucast mss - b = (seq - b) + of_nat (unat mss)" by simp
  moreover have "unat (seq - b) + unat mss < 2 ^ 32"
    using assms(2,3) m unfolding seq_off_def by simp
  ultimately have "seq_off b (seq + ucast mss) = seq_off b seq + unat mss"
    unfolding seq_off_def by (simp only: unat_add_of_nat)
  then show ?thesis using False le assms by simp
qed

end
