(* ===== verification/Tcp_Var.thy ===== *)
theory Tcp_Var
  imports Tcp_Seq
begin

text \<open>
  The TCP control block (\<open>netinet/tcp_var.h\<close>): the fields the modelled operations read or
  write, one record field per C field, machine integers at their width. An array with a
  separate count of valid entries (\<open>sackblks\<close>/\<open>rcv_numsacks\<close>, \<open>snd_sackblks\<close>/\<open>snd_numsackblks\<close>)
  is the list of its valid entries, so the count is the length of the list. \<open>short\<close> fields are
  16-bit words read with \<open>sint\<close>.
\<close>

type_synonym s16 = "16 word"

record sackblk =
  blk_start :: u32
  blk_end :: u32

definition TCP_MAX_SACK :: nat where
  "TCP_MAX_SACK = 4"

definition TCP_MAX_SACK_SND :: nat where
  "TCP_MAX_SACK_SND = 16"

text \<open>The four timers; \<open>t_timer\<close> is the array they index.\<close>

datatype tcpt = TCPT_REXMT | TCPT_PERSIST | TCPT_KEEP | TCPT_2MSL

record tcpcb =
  t_state :: nat
  t_timer :: "tcpt \<Rightarrow> s16"
  t_rxtshift :: s16
  t_rxtcur :: s16
  t_dupacks :: s16
  t_maxseg :: u16
  t_force :: u8
  t_flags :: u16
  snd_una :: u32
  snd_nxt :: u32
  snd_up :: u32
  snd_wl1 :: u32
  snd_wl2 :: u32
  iss :: u32
  snd_wnd :: u32
  rcv_wnd :: u32
  rcv_nxt :: u32
  rcv_up :: u32
  irs :: u32
  rcv_adv :: u32
  snd_max :: u32
  snd_cwnd :: u32
  snd_ssthresh :: u32
  t_idle :: s16
  t_rtt :: s16
  t_rtseq :: u32
  t_srtt :: s16
  t_rttvar :: s16
  t_rttmin :: u16
  max_sndwnd :: u32
  t_oobflags :: u8
  t_iobc :: u8
  t_softerror :: s16
  snd_scale :: u8
  rcv_scale :: u8
  request_r_scale :: u8
  requested_s_scale :: u8
  ts_recent :: u32
  ts_recent_age :: u32
  t_rcvstall :: u32
  t_rcvstall_cc :: u32
  t_rcvstall_done :: u32
  last_ack_sent :: u32
  sackblks :: "sackblk list"
  rcv_dsackblk :: sackblk
  snd_sackblks :: "sackblk list"
  snd_recover :: u32
  snd_highrxt :: u32
  prr_delivered :: u32
  prr_out :: u32
  prr_recoverfs :: u32

text \<open>The flags in \<open>t_flags\<close>.\<close>

definition TF_ACKNOW :: u16 where "TF_ACKNOW = 0x0001"
definition TF_DELACK :: u16 where "TF_DELACK = 0x0002"
definition TF_NODELAY :: u16 where "TF_NODELAY = 0x0004"
definition TF_NOOPT :: u16 where "TF_NOOPT = 0x0008"
definition TF_SENTFIN :: u16 where "TF_SENTFIN = 0x0010"
definition TF_REQ_SCALE :: u16 where "TF_REQ_SCALE = 0x0020"
definition TF_RCVD_SCALE :: u16 where "TF_RCVD_SCALE = 0x0040"
definition TF_REQ_TSTMP :: u16 where "TF_REQ_TSTMP = 0x0080"
definition TF_RCVD_TSTMP :: u16 where "TF_RCVD_TSTMP = 0x0100"
definition TF_REQ_SACK :: u16 where "TF_REQ_SACK = 0x0200"
definition TF_SACK_PERMIT :: u16 where "TF_SACK_PERMIT = 0x0400"
definition TF_SACK_RECOVER :: u16 where "TF_SACK_RECOVER = 0x0800"
definition TF_SACK_RESCUE :: u16 where "TF_SACK_RESCUE = 0x1000"
definition TF_DSACK :: u16 where "TF_DSACK = 0x2000"

definition tf :: "u16 \<Rightarrow> tcpcb \<Rightarrow> bool" where
  "tf f tp \<longleftrightarrow> t_flags tp AND f \<noteq> 0"

definition set_timer :: "tcpt \<Rightarrow> s16 \<Rightarrow> tcpcb \<Rightarrow> tcpcb" where
  "set_timer i v tp = tp\<lparr>t_timer := (t_timer tp)(i := v)\<rparr>"

text \<open>The control block \<open>tcp_newtcpcb\<close> starts from is \<open>bzero\<close>ed.\<close>

definition tcpcb_zero :: tcpcb where
  "tcpcb_zero = \<lparr>t_state = 0, t_timer = (\<lambda>_. 0), t_rxtshift = 0, t_rxtcur = 0, t_dupacks = 0,
     t_maxseg = 0, t_force = 0, t_flags = 0, snd_una = 0, snd_nxt = 0, snd_up = 0, snd_wl1 = 0, snd_wl2 = 0, iss = 0,
     snd_wnd = 0, rcv_wnd = 0, rcv_nxt = 0, rcv_up = 0, irs = 0, rcv_adv = 0, snd_max = 0, snd_cwnd = 0,
     snd_ssthresh = 0, t_idle = 0, t_rtt = 0, t_rtseq = 0, t_srtt = 0, t_rttvar = 0,
     t_rttmin = 0, max_sndwnd = 0, t_oobflags = 0, t_iobc = 0, t_softerror = 0, snd_scale = 0, rcv_scale = 0, request_r_scale = 0,
     requested_s_scale = 0, ts_recent = 0, ts_recent_age = 0, t_rcvstall = 0,
     t_rcvstall_cc = 0, t_rcvstall_done = 0, last_ack_sent = 0, sackblks = [],
     rcv_dsackblk = \<lparr>blk_start = 0, blk_end = 0\<rparr>, snd_sackblks = [],
     snd_recover = 0, snd_highrxt = 0, prr_delivered = 0, prr_out = 0, prr_recoverfs = 0\<rparr>"

lemma tcpcb_zero_simps [simp]:
  "snd_una tcpcb_zero = 0" "snd_max tcpcb_zero = 0" "snd_nxt tcpcb_zero = 0"
  "rcv_nxt tcpcb_zero = 0" "snd_cwnd tcpcb_zero = 0" "snd_ssthresh tcpcb_zero = 0"
  "t_maxseg tcpcb_zero = 0" "t_flags tcpcb_zero = 0" "t_rtt tcpcb_zero = 0" "t_srtt tcpcb_zero = 0"
  "t_rttvar tcpcb_zero = 0" "t_rttmin tcpcb_zero = 0" "t_rxtshift tcpcb_zero = 0"
  "sackblks tcpcb_zero = []" "snd_sackblks tcpcb_zero = []" "snd_highrxt tcpcb_zero = 0"
  "prr_delivered tcpcb_zero = 0" "prr_out tcpcb_zero = 0" "prr_recoverfs tcpcb_zero = 0"
  by (simp_all add: tcpcb_zero_def)

end
