(* ===== verification/Tcp_Sack.thy ===== *)
theory Tcp_Sack
  imports Tcp_Var
begin

text \<open>
  Selective acknowledgement (\<open>netinet/tcp_sack.c\<close>): the receiver's block list (RFC 2018), the
  sender's scoreboard and its loss-recovery decisions (RFC 6675), and proportional rate
  reduction (RFC 6937).
\<close>

abbreviation blk :: "u32 \<Rightarrow> u32 \<Rightarrow> sackblk" where
  "blk s e \<equiv> \<lparr>blk_start = s, blk_end = e\<rparr>"

section \<open>Receiver block list\<close>

fun sack_walk :: "u32 \<Rightarrow> sackblk \<Rightarrow> sackblk list \<Rightarrow> sackblk list \<Rightarrow> sackblk \<times> sackblk list" where
  "sack_walk nxt head saved [] = (head, saved)"
| "sack_walk nxt head saved (b # bs) =
     (if SEQ_LEQ (blk_end b) nxt then sack_walk nxt head saved bs
      else if SEQ_LEQ (blk_start head) (blk_end b) \<and> SEQ_LEQ (blk_start b) (blk_end head) then
        sack_walk nxt
          (blk (if SEQ_LT (blk_start b) (blk_start head) then blk_start b else blk_start head)
               (if SEQ_GT (blk_end b) (blk_end head) then blk_end b else blk_end head))
          saved bs
      else sack_walk nxt head (saved @ [b]) bs)"

definition tcp_sack_addblock :: "tcpcb \<Rightarrow> u32 \<Rightarrow> u32 \<Rightarrow> tcpcb" where
  "tcp_sack_addblock tp start fin =
     (if SEQ_LEQ fin (rcv_nxt tp) then tp
      else let s = (if SEQ_LT start (rcv_nxt tp) then rcv_nxt tp else start)
        in if SEQ_GEQ s fin then tp
           else case sack_walk (rcv_nxt tp) (blk s fin) [] (sackblks tp) of (head, saved) \<Rightarrow>
             tp\<lparr>sackblks := head # take (TCP_MAX_SACK - 1) saved\<rparr>)"

text \<open>The compaction loop shared by the receiver and the sender: drop and left-trim.\<close>

fun sack_trim :: "u32 \<Rightarrow> sackblk list \<Rightarrow> sackblk list" where
  "sack_trim ack [] = []"
| "sack_trim ack (b # bs) =
     (if SEQ_LEQ (blk_end b) ack then sack_trim ack bs
      else (if SEQ_LT (blk_start b) ack then b\<lparr>blk_start := ack\<rparr> else b) # sack_trim ack bs)"

definition tcp_sack_purge :: "tcpcb \<Rightarrow> tcpcb" where
  "tcp_sack_purge tp = tp\<lparr>sackblks := sack_trim (rcv_nxt tp) (sackblks tp)\<rparr>"

section \<open>Sender scoreboard\<close>

definition tcp_sack_snd_trim :: "tcpcb \<Rightarrow> tcpcb" where
  "tcp_sack_snd_trim tp = tp\<lparr>snd_sackblks := sack_trim (snd_una tp) (snd_sackblks tp)\<rparr>"

text \<open>\<open>if (n < TCP_MAX_SACK_SND) merged[n++] = b\<close>\<close>

definition snd_push :: "sackblk list \<Rightarrow> sackblk \<Rightarrow> sackblk list" where
  "snd_push merged b = (if length merged < TCP_MAX_SACK_SND then merged @ [b] else merged)"

fun snd_insert_walk ::
  "sackblk list \<Rightarrow> bool \<Rightarrow> u32 \<Rightarrow> u32 \<Rightarrow> sackblk list \<Rightarrow> sackblk list \<times> bool \<times> u32 \<times> u32" where
  "snd_insert_walk merged placed s e [] = (merged, placed, s, e)"
| "snd_insert_walk merged placed s e (b # bs) =
     (if SEQ_LT (blk_end b) s then snd_insert_walk (snd_push merged b) placed s e bs
      else if SEQ_GT (blk_start b) e then
        snd_insert_walk
          (snd_push (if placed then merged else snd_push merged (blk s e)) b) True s e bs
      else
        snd_insert_walk merged placed
          (if SEQ_LT (blk_start b) s then blk_start b else s)
          (if SEQ_GT (blk_end b) e then blk_end b else e) bs)"

definition tcp_sack_snd_insert :: "tcpcb \<Rightarrow> u32 \<Rightarrow> u32 \<Rightarrow> tcpcb" where
  "tcp_sack_snd_insert tp start fin =
     (case snd_insert_walk [] False start fin (snd_sackblks tp) of (merged, placed, s, e) \<Rightarrow>
        tp\<lparr>snd_sackblks := (if placed then merged else snd_push merged (blk s e))\<rparr>)"

fun sack_update_loop :: "tcpcb \<Rightarrow> sackblk list \<Rightarrow> tcpcb" where
  "sack_update_loop tp [] = tp"
| "sack_update_loop tp (b # bs) =
     (let e = (if SEQ_GT (blk_end b) (snd_max tp) then snd_max tp else blk_end b);
          s = (if SEQ_LT (blk_start b) (snd_una tp) then snd_una tp else blk_start b)
      in if SEQ_GEQ s e then sack_update_loop tp bs
         else sack_update_loop (tcp_sack_snd_insert tp s e) bs)"

definition tcp_sack_update :: "tcpcb \<Rightarrow> sackblk list \<Rightarrow> tcpcb" where
  "tcp_sack_update tp sack = sack_update_loop (tcp_sack_snd_trim tp) sack"

section \<open>Loss recovery decisions\<close>

definition tcprexmtthresh :: nat where
  "tcprexmtthresh = 3"

definition tcp_sack_issacked :: "tcpcb \<Rightarrow> u32 \<Rightarrow> bool" where
  "tcp_sack_issacked tp seq =
     list_ex (\<lambda>b. SEQ_LEQ (blk_start b) seq \<and> SEQ_LT seq (blk_end b)) (snd_sackblks tp)"

text \<open>The walk of \<open>tcp_sack_islost\<close>: the islands strictly above \<open>seq\<close> and the octets above it.\<close>

fun islost_walk :: "u32 \<Rightarrow> sackblk list \<Rightarrow> nat \<Rightarrow> u32 \<Rightarrow> nat \<times> u32" where
  "islost_walk seq [] islands abv = (islands, abv)"
| "islost_walk seq (b # bs) islands abv =
     (if SEQ_LEQ (blk_end b) seq then islost_walk seq bs islands abv
      else if SEQ_GT (blk_start b) seq
        then islost_walk seq bs (Suc islands) (abv + (blk_end b - blk_start b))
        else islost_walk seq bs islands (abv + (blk_end b - seq)))"

definition tcp_sack_islost :: "tcpcb \<Rightarrow> u32 \<Rightarrow> bool" where
  "tcp_sack_islost tp seq =
     (case islost_walk seq (snd_sackblks tp) 0 0 of (islands, abv) \<Rightarrow>
        islands \<ge> tcprexmtthresh \<or>
        sint abv > int (tcprexmtthresh - 1) * int (unat (t_maxseg tp)))"

text \<open>
  \<open>SetPipe\<close>: the walk over the unacknowledged window, a segment at a time. \<open>mss\<close> is
  \<open>t_maxseg ? t_maxseg : 1\<close>, so the step is never zero.
\<close>

definition pipe_mss :: "tcpcb \<Rightarrow> u16" where
  "pipe_mss tp = (if t_maxseg tp \<noteq> 0 then t_maxseg tp else 1)"

function sack_pipe_loop :: "tcpcb \<Rightarrow> u32 \<Rightarrow> u32 \<Rightarrow> u32" where
  "sack_pipe_loop tp seq pipe =
     (if SEQ_LT seq (snd_max tp) then
        let end0 = seq + ucast (pipe_mss tp);
            fin = (if SEQ_GT end0 (snd_max tp) then snd_max tp else end0)
        in sack_pipe_loop tp fin
             (if \<not> tcp_sack_issacked tp seq \<and>
                 (\<not> tcp_sack_islost tp seq \<or> SEQ_LT seq (snd_highrxt tp))
              then pipe + (fin - seq) else pipe)
      else pipe)"
  by pat_completeness auto
termination
proof (relation "measure (\<lambda>(tp, seq, pipe). unat (snd_max tp - seq))", goal_cases)
  case (2 tp seq pipe end0 fin)
  have "pipe_mss tp \<noteq> 0" by (simp add: pipe_mss_def)
  from seq_step_decreases[OF 2(1) this] 2(2,3) show ?case
    by (simp split: if_splits)
qed simp

declare sack_pipe_loop.simps [simp del]

definition tcp_sack_pipe :: "tcpcb \<Rightarrow> u32" where
  "tcp_sack_pipe tp = sack_pipe_loop tp (snd_una tp) 0"

text \<open>
  \<open>NextSeg\<close> rules (1) and (2): the result is \<open>(*startp, *endp, *rxmit)\<close>; the C function always
  returns 1.
\<close>

fun nextseg_walk :: "tcpcb \<Rightarrow> u32 \<Rightarrow> sackblk list \<Rightarrow> u32 \<times> u32 \<times> bool" where
  "nextseg_walk tp holestart [] = (snd_max tp, snd_max tp, False)"
| "nextseg_walk tp holestart (b # bs) =
     (let holeend = blk_start b;
          s = (if SEQ_LT holestart (snd_highrxt tp) then snd_highrxt tp else holestart)
      in if SEQ_LT s holeend then
           (if tcp_sack_islost tp s then (s, holeend, True)
            else (snd_max tp, snd_max tp, False))
         else nextseg_walk tp (blk_end b) bs)"

definition tcp_sack_nextseg :: "tcpcb \<Rightarrow> u32 \<times> u32 \<times> bool" where
  "tcp_sack_nextseg tp = nextseg_walk tp (snd_una tp) (snd_sackblks tp)"

text \<open>\<open>NextSeg\<close> rule (3): \<open>None\<close> is the return value 0.\<close>

fun rescue_walk :: "tcpcb \<Rightarrow> u32 \<Rightarrow> sackblk list \<Rightarrow> (u32 \<times> u32) option" where
  "rescue_walk tp holestart [] = None"
| "rescue_walk tp holestart (b # bs) =
     (let holeend = blk_start b;
          s = (if SEQ_LT holestart (snd_highrxt tp) then snd_highrxt tp else holestart)
      in if SEQ_LT s holeend then Some (s, holeend)
         else rescue_walk tp (blk_end b) bs)"

definition tcp_sack_rescue :: "tcpcb \<Rightarrow> (u32 \<times> u32) option" where
  "tcp_sack_rescue tp = rescue_walk tp (snd_una tp) (snd_sackblks tp)"

section \<open>Proportional rate reduction\<close>

fun bytes_above_walk :: "u32 \<Rightarrow> sackblk list \<Rightarrow> u32 \<Rightarrow> u32" where
  "bytes_above_walk flo [] bytes = bytes"
| "bytes_above_walk flo (b # bs) bytes =
     (if SEQ_LEQ (blk_end b) flo then bytes_above_walk flo bs bytes
      else bytes_above_walk flo bs
        (bytes + (blk_end b - (if SEQ_LT (blk_start b) flo then flo else blk_start b))))"

definition tcp_sack_snd_bytes_above :: "tcpcb \<Rightarrow> u32 \<Rightarrow> u32" where
  "tcp_sack_snd_bytes_above tp flo = bytes_above_walk flo (snd_sackblks tp) 0"

text \<open>
  One acknowledgement's worth of rate reduction. \<open>long\<close> values are 32-bit words read with
  \<open>sint\<close>; the proportional product is formed in 64 bits as in the code.
\<close>

definition prr_sndcnt :: "tcpcb \<Rightarrow> u32 \<Rightarrow> u32 \<Rightarrow> u32" where
  "prr_sndcnt tp delivered pipe =
     (let fs = (if prr_recoverfs tp \<noteq> 0 then prr_recoverfs tp else 1)
      in if unat pipe > unat (snd_ssthresh tp) then
           let q = ((ucast (prr_delivered tp) :: 64 word) * ucast (snd_ssthresh tp)
                    + ucast (fs - 1)) div ucast fs;
               q1 = (if q > 0x7FFFFFFF then 0x7FFFFFFF else q)
           in (ucast q1 :: u32) - prr_out tp
         else
           let lim0 = prr_delivered tp - prr_out tp;
               lim1 = (if sint delivered > sint lim0 then delivered else lim0);
               lim = lim1 + ucast (t_maxseg tp);
               c = snd_ssthresh tp - pipe
           in if sint lim < sint c then lim else c)"

definition tcp_sack_prr_ack :: "tcpcb \<Rightarrow> u32 \<Rightarrow> u32 \<Rightarrow> tcpcb" where
  "tcp_sack_prr_ack tp acked prev_sacked =
     (let cur_sacked = tcp_sack_snd_bytes_above tp (snd_una tp);
          delivered0 = acked + cur_sacked - prev_sacked;
          delivered = (if sint delivered0 < 0 then 0 else delivered0);
          tp1 = tp\<lparr>prr_delivered := prr_delivered tp + delivered\<rparr>;
          pipe = tcp_sack_pipe tp1;
          sndcnt0 = prr_sndcnt tp1 delivered pipe;
          sndcnt = (if sint sndcnt0 < 0 then 0 else sndcnt0)
      in tp1\<lparr>snd_cwnd := pipe + sndcnt\<rparr>)"

end
