(* ===== verification/Tcp_Output.thy ===== *)
theory Tcp_Output
  imports Tcp_Sack Sockvar "HOL-Library.Monad_Syntax"
begin

text \<open>
  The TCP send engine: \<open>tcp_output\<close> and \<open>tcp_setpersist\<close> (\<open>netinet/tcp_output.c\<close>), \<open>tcp_mss\<close>
  (\<open>netinet/tcp_input.c\<close>) and \<open>tcp_quench\<close> (\<open>netinet/tcp_subr.c\<close>).

  A segment handed to \<open>ip_output\<close> is a record of its header fields, its options and the part
  \<open>sg_off\<close>, \<open>sg_len\<close> of the send buffer it carries: the bytes are those \<open>m_copydata\<close> or
  \<open>m_copym\<close> read there. Lengths and windows held in \<open>long\<close> or \<open>int\<close> variables are integers,
  wrapped where the C expression is unsigned or can overflow. What the mbuf pool and \<open>ip_output\<close>
  answer is read from the stream \<open>net\<close> of the state. The statistics counters, the trace, the
  IP header, the checksum and the port and address fields of the template are not modelled.
\<close>

section \<open>Constants\<close>

definition TH_FIN :: u8 where "TH_FIN = 0x01"
definition TH_SYN :: u8 where "TH_SYN = 0x02"
definition TH_RST :: u8 where "TH_RST = 0x04"
definition TH_PUSH :: u8 where "TH_PUSH = 0x08"
definition TH_ACK :: u8 where "TH_ACK = 0x10"
definition TH_URG :: u8 where "TH_URG = 0x20"

text \<open>The states \<open>TCPS_CLOSED\<close> to \<open>TCPS_TIME_WAIT\<close> are 0 to 10.\<close>

definition TCPS_CLOSED :: nat where "TCPS_CLOSED = 0"
definition TCPS_SYN_RECEIVED :: nat where "TCPS_SYN_RECEIVED = 3"
definition TCPS_ESTABLISHED :: nat where "TCPS_ESTABLISHED = 4"
definition TCPS_CLOSE_WAIT :: nat where "TCPS_CLOSE_WAIT = 5"
definition TCPS_TIME_WAIT :: nat where "TCPS_TIME_WAIT = 10"

definition tcp_outflags :: "u8 list" where
  "tcp_outflags = [TH_RST OR TH_ACK, 0, TH_SYN, TH_SYN OR TH_ACK, TH_ACK, TH_ACK,
     TH_FIN OR TH_ACK, TH_FIN OR TH_ACK, TH_FIN OR TH_ACK, TH_ACK, TH_ACK]"

definition TCP_MSS :: u16 where "TCP_MSS = 512"
definition TCP_MAXWIN :: u32 where "TCP_MAXWIN = 65535"
definition TCP_MAX_WINSHIFT :: u8 where "TCP_MAX_WINSHIFT = 14"
definition TCPTV_PERSMIN :: int where "TCPTV_PERSMIN = 10"
definition TCPTV_PERSMAX :: int where "TCPTV_PERSMAX = 120"
definition TCPTV_MIN :: int where "TCPTV_MIN = 2"
definition TCPTV_REXMTMAX :: int where "TCPTV_REXMTMAX = 128"
definition TCP_MAXRXTSHIFT :: int where "TCP_MAXRXTSHIFT = 12"

definition tcp_backoff :: "int list" where
  "tcp_backoff = [1, 2, 4, 8, 16, 32, 64, 64, 64, 64, 64, 64, 64]"

definition ENETDOWN :: int where "ENETDOWN = 50"
definition ETIMEDOUT :: int where "ETIMEDOUT = 60"
definition EHOSTDOWN :: int where "EHOSTDOWN = 64"
definition EHOSTUNREACH :: int where "EHOSTUNREACH = 65"

section \<open>State\<close>

text \<open>The routing entry of a connection: its metrics, and the MTU of its interface.\<close>

record rtentry =
  if_mtu :: s16
  rmx_locks :: u32
  rmx_mtu :: u32
  rmx_recvpipe :: u32
  rmx_sendpipe :: u32
  rmx_ssthresh :: u32
  rmx_rtt :: u32
  rmx_rttvar :: u32
  rt_key_any :: bool

definition RTV_MTU :: u32 where "RTV_MTU = 0x1"
definition RTV_SSTHRESH :: u32 where "RTV_SSTHRESH = 0x20"
definition RTV_RTT :: u32 where "RTV_RTT = 0x40"
definition RTV_RTTVAR :: u32 where "RTV_RTTVAR = 0x80"

text \<open>
  The socket and internet control block of a connection. \<open>rtalloc_rt\<close> is the entry \<open>rtalloc\<close>
  would find.
\<close>

record tcpsock =
  so_snd :: sockbuf
  so_rcv :: sockbuf
  so_keepalive :: bool
  so_error :: int
  inp_faddr_any :: bool
  inp_faddr_local :: bool
  ro_rt :: "rtentry option"
  rtalloc_rt :: "rtentry option"

text \<open>The stack's tunables and clocks.\<close>

record tcpglob =
  tcp_now :: u32
  max_linkhdr :: int
  tcp_mssdflt :: int
  tcp_iw :: int
  g_mclbytes :: u32
  g_sb_max :: u32
  tcp_keepidle :: int
  tcp_keepintvl :: int
  tcp_maxidle :: int

text \<open>
  What one attempt to send meets: no header mbuf, no mbufs for the data (\<open>m_copy\<close> fails) and
  then the result of \<open>ip_output\<close>, or only the latter.
\<close>

datatype netres = NoHdr | NoCopy int | Sent int

record tcpseg =
  sg_seq :: u32
  sg_ack :: u32
  sg_flags :: u8
  sg_win :: u16
  sg_urp :: u16
  sg_opt :: "u8 list"
  sg_off :: int
  sg_len :: int

record tcpst =
  tp :: tcpcb
  sk :: tcpsock
  glob :: tcpglob
  net :: "nat \<Rightarrow> netres"
  net_i :: nat
  segs :: "tcpseg list"
  alive :: bool

text \<open>A \<open>panic\<close> of the code is a result of its own.\<close>

datatype panic = Panic_setpersist

definition w32 :: "int \<Rightarrow> u32" where
  "w32 x = word_of_int x"

definition wrap_int :: "int \<Rightarrow> int" where
  "wrap_int x = sint (w32 x)"

text \<open>\<open>TCPT_RANGESET\<close> on a \<open>short\<close>: the value is truncated before it is compared.\<close>

definition tcpt_rangeset :: "int \<Rightarrow> int \<Rightarrow> int \<Rightarrow> s16" where
  "tcpt_rangeset value tvmin tvmax =
     (let tv = (word_of_int value :: s16) in
      if sint tv < tvmin then word_of_int tvmin
      else if sint tv > tvmax then word_of_int tvmax else tv)"

section \<open>The persist timer\<close>

definition tcp_setpersist :: "tcpcb \<Rightarrow> panic + tcpcb" where
  "tcp_setpersist t =
     (let v = (sint (t_srtt t) div 4 + sint (t_rttvar t)) div 2 in
      if t_timer t TCPT_REXMT \<noteq> 0 then Inl Panic_setpersist
      else let t1 = set_timer TCPT_PERSIST
                 (tcpt_rangeset (v * tcp_backoff ! nat (sint (t_rxtshift t))) TCPTV_PERSMIN TCPTV_PERSMAX) t
        in Inr (if sint (t_rxtshift t1) < TCP_MAXRXTSHIFT
                then t1\<lparr>t_rxtshift := t_rxtshift t1 + 1\<rparr> else t1))"

section \<open>The segment size\<close>

text \<open>The metrics of the route that seed a connection without a round-trip sample.\<close>

definition mss_rtt :: "rtentry \<Rightarrow> tcpcb \<Rightarrow> tcpcb" where
  "mss_rtt rt t =
     (if t_srtt t = 0 \<and> rmx_rtt rt \<noteq> 0 then
        let rtt = sint (rmx_rtt rt);
            t1 = (if rmx_locks rt AND RTV_MTU \<noteq> 0
                  then t\<lparr>t_rttmin := word_of_int (sgn rtt * (\<bar>rtt\<bar> div 500000))\<rparr> else t);
            t2 = t1\<lparr>t_srtt := word_of_int (sgn rtt * (\<bar>rtt\<bar> div 62500))\<rparr>;
            t3 = (if rmx_rttvar rt \<noteq> 0
                  then t2\<lparr>t_rttvar := ucast (rmx_rttvar rt div 125000)\<rparr>
                  else t2\<lparr>t_rttvar := word_of_int (sgn (sint (t_srtt t2)) * (\<bar>sint (t_srtt t2) * 4\<bar> div 8))\<rparr>)
        in t3\<lparr>t_rxtcur := tcpt_rangeset ((sint (t_srtt t3) div 4 + sint (t_rttvar t3)) div 2)
                 (int (unat (t_rttmin t3))) TCPTV_REXMTMAX\<rparr>
      else t)"

text \<open>The segment size the path allows: \<open>mss\<close> is held as the word of the \<open>int\<close>.\<close>

definition mss_path :: "tcpglob \<Rightarrow> bool \<Rightarrow> rtentry \<Rightarrow> u32" where
  "mss_path g local rt =
     (if rmx_mtu rt \<noteq> 0 then rmx_mtu rt - 40
      else let m0 = scast (if_mtu rt) - 40;
               m1 = (if m0 > g_mclbytes g then m0 div g_mclbytes g * g_mclbytes g else m0)
           in if \<not> local \<and> tcp_mssdflt g > 0 then min m1 (w32 (tcp_mssdflt g)) else m1)"

definition mss_cwnd :: "tcpglob \<Rightarrow> tcpcb \<Rightarrow> u32" where
  "mss_cwnd g t =
     (let seg = (if tcp_iw g < 1 then 1 else if tcp_iw g > 100 then 100 else tcp_iw g);
          smss = ucast (t_maxseg t) :: u32;
          iw = w32 seg * smss;
          capw = max (2 * smss) 14600
      in if iw > capw then capw else iw)"

text \<open>The socket buffers as integral numbers of segments; the segment no larger than the send buffer.\<close>

definition mss_bufs :: "tcpglob \<Rightarrow> rtentry \<Rightarrow> int \<Rightarrow> tcpsock \<Rightarrow> tcpsock \<times> int" where
  "mss_bufs g rt mss0 s =
     (let sndbuf = (if rmx_sendpipe rt = 0 then sb_hiwat (so_snd s) else rmx_sendpipe rt);
          (s1, mss) =
            (if sndbuf < w32 mss0 then (s, max (sint sndbuf) 1)
             else (s\<lparr>so_snd := fst (sbreserve (g_sb_max g) (g_mclbytes g)
                      (min sndbuf (g_sb_max g) div w32 mss0 * w32 mss0) (so_snd s))\<rparr>, mss0));
          rcvbuf = (if rmx_recvpipe rt = 0 then sb_hiwat (so_rcv s1) else rmx_recvpipe rt)
      in (if rcvbuf > w32 mss
          then s1\<lparr>so_rcv := fst (sbreserve (g_sb_max g) (g_mclbytes g)
                 (min rcvbuf (g_sb_max g) div w32 mss * w32 mss) (so_rcv s1))\<rparr>
          else s1, mss))"

definition tcp_mss :: "u16 \<Rightarrow> tcpst \<Rightarrow> tcpst \<times> int" where
  "tcp_mss offer st =
     (let g = glob st; s0 = sk st;
          s = (if ro_rt s0 = None \<and> \<not> inp_faddr_any s0 then s0\<lparr>ro_rt := rtalloc_rt s0\<rparr> else s0)
      in case ro_rt s of
           None \<Rightarrow> (st\<lparr>sk := s\<rparr>,
                    if tcp_mssdflt g > 0 \<and> tcp_mssdflt g \<le> 65535 then tcp_mssdflt g else int (unat TCP_MSS))
         | Some rt \<Rightarrow>
           (let t1 = mss_rtt rt (tp st);
                m1 = mss_path g (inp_faddr_local s) rt;
                m2 = (if offer \<noteq> 0 then min m1 (ucast offer) else m1);
                mss0 = max (sint m2) 32;
                commit = (mss0 < int (unat (t_maxseg t1)) \<or> offer \<noteq> 0);
                (s2, mss) = (if commit then mss_bufs g rt mss0 s else (s, mss0));
                t2 = (if commit then t1\<lparr>t_maxseg := word_of_int mss\<rparr> else t1);
                t3 = t2\<lparr>snd_cwnd := mss_cwnd g t2\<rparr>;
                t4 = (if rmx_ssthresh rt \<noteq> 0
                      then t3\<lparr>snd_ssthresh := max (2 * w32 mss) (rmx_ssthresh rt)\<rparr> else t3)
            in (st\<lparr>tp := t4, sk := s2\<rparr>, mss)))"

definition tcp_quench :: "tcpcb \<Rightarrow> tcpcb" where
  "tcp_quench t = t\<lparr>snd_cwnd := ucast (t_maxseg t)\<rparr>"


section \<open>What to send\<close>

text \<open>The local variables of \<open>tcp_output\<close> for one segment.\<close>

record outv =
  ov_off :: int
  ov_len :: int
  ov_win :: int
  ov_flags :: u8
  ov_sendalot :: bool
  ov_rxmit :: bool
  ov_rseq :: u32

definition hasf :: "u8 \<Rightarrow> u8 \<Rightarrow> bool" where
  "hasf f w \<longleftrightarrow> w AND f \<noteq> 0"

text \<open>The sequential choice, from \<open>again:\<close> to the recovery block.\<close>

definition out_plan :: "tcpsock \<Rightarrow> tcpcb \<Rightarrow> tcpcb \<times> outv" where
  "out_plan s t =
     (let off = sint (snd_nxt t - snd_una t);
          win0 = sint (min (snd_wnd t) (snd_cwnd t));
          (t1, win) = (if t_force t \<noteq> 0
                       then (if win0 = 0 then (t, 1)
                             else ((set_timer TCPT_PERSIST 0 t)\<lparr>t_rxtshift := 0\<rparr>, win0))
                       else (t, win0));
          len0 = sint (min (sb_cc (so_snd s)) (w32 win) - w32 off);
          (t2, len1) = (if len0 < 0
                        then (if win = 0 then (set_timer TCPT_REXMT 0 t1)\<lparr>snd_nxt := snd_una t1\<rparr> else t1, 0)
                        else (t1, len0));
          big = len1 > int (unat (t_maxseg t2))
      in (t2, \<lparr>ov_off = off, ov_len = (if big then int (unat (t_maxseg t2)) else len1), ov_win = win,
               ov_flags = tcp_outflags ! t_state t2, ov_sendalot = big, ov_rxmit = False, ov_rseq = 0\<rparr>))"

text \<open>A retransmission of the hole from \<open>hs\<close> to \<open>he\<close>.\<close>

definition out_hole :: "tcpcb \<Rightarrow> u32 \<Rightarrow> u32 \<Rightarrow> outv \<Rightarrow> outv" where
  "out_hole t hs he v = v\<lparr>ov_rxmit := True, ov_rseq := hs, ov_off := sint (hs - snd_una t),
     ov_len := sint (he - hs)\<rparr>"

text \<open>Rules (1) to (3) of the recovery, when the pipe has room.\<close>

definition out_rules :: "tcpsock \<Rightarrow> u32 \<Rightarrow> tcpcb \<Rightarrow> outv \<Rightarrow> tcpcb \<times> outv" where
  "out_rules s pipe t v =
     (let (hs, he, rx) = tcp_sack_nextseg t;
          (t1, v1) =
            (if rx then (t, out_hole t hs he v)
             else let room = sint (snd_cwnd t - pipe);
                      off = sint (snd_max t - snd_una t);
                      len0 = sint (min (sb_cc (so_snd s)) (snd_wnd t) - w32 off);
                      len = (if len0 > room then room else len0);
                      v0 = v\<lparr>ov_off := off, ov_len := len\<rparr>
                  in if len \<le> 0 \<and> \<not> tf TF_SACK_RESCUE t then
                       (case tcp_sack_rescue t of
                          Some (rs, re) \<Rightarrow> (t\<lparr>t_flags := t_flags t OR TF_SACK_RESCUE\<rparr>, out_hole t rs re v0)
                        | None \<Rightarrow> (t, v0))
                     else (t, v0));
          v2 = (if ov_len v1 > int (unat (t_maxseg t1))
                then v1\<lparr>ov_len := int (unat (t_maxseg t1)), ov_sendalot := True\<rparr> else v1)
      in (t1, if ov_len v2 < 0 then v2\<lparr>ov_len := 0\<rparr> else v2))"

text \<open>The one-byte probe of a closed window.\<close>

definition out_probe :: "tcpsock \<Rightarrow> tcpcb \<Rightarrow> outv \<Rightarrow> outv" where
  "out_probe s t v =
     (if ov_len v = 0 \<and> t_force t \<noteq> 0 \<and> snd_wnd t = 0 \<and> SEQ_LT (snd_una t) (snd_max t) then
        (let v1 = v\<lparr>ov_rxmit := True, ov_rseq := snd_una t, ov_off := 0, ov_len := 1\<rparr> in
         if 1 > sint (sb_cc (so_snd s)) then
           (let v2 = v1\<lparr>ov_len := sint (sb_cc (so_snd s))\<rparr> in
            if ov_len v2 = 0 then v2\<lparr>ov_rxmit := False, ov_rseq := 0\<rparr> else v2)
         else v1)
      else v)"

definition out_recover :: "tcpsock \<Rightarrow> tcpcb \<Rightarrow> outv \<Rightarrow> tcpcb \<times> outv" where
  "out_recover s t v =
     (if tf TF_SACK_RECOVER t then
        (let pipe = tcp_sack_pipe t;
             v0 = v\<lparr>ov_len := 0, ov_sendalot := False\<rparr>;
             (t1, v1) = (if pipe < snd_cwnd t then out_rules s pipe t v0 else (t, v0))
         in (t1, out_probe s t1 v1))
      else (t, v))"

text \<open>The end of the buffer as a sequence number; \<open>TH_FIN\<close> goes only with the last byte.\<close>

definition out_nofin :: "tcpsock \<Rightarrow> tcpcb \<Rightarrow> u32 \<Rightarrow> outv \<Rightarrow> outv" where
  "out_nofin s t from v =
     (if SEQ_LT (from + w32 (ov_len v)) (snd_una t + sb_cc (so_snd s))
      then v\<lparr>ov_flags := ov_flags v AND NOT TH_FIN\<rparr> else v)"

text \<open>The tests between the recovery block and \<open>send:\<close>, on the window \<open>ov_win\<close> just computed.\<close>

definition out_data :: "tcpsock \<Rightarrow> bool \<Rightarrow> tcpcb \<Rightarrow> outv \<Rightarrow> bool" where
  "out_data s idle t v \<longleftrightarrow> ov_len v \<noteq> 0 \<and>
     (ov_len v = int (unat (t_maxseg t)) \<or>
      (idle \<or> tf TF_NODELAY t) \<and> w32 (ov_len v + ov_off v) \<ge> sb_cc (so_snd s) \<or>
      t_force t \<noteq> 0 \<or> w32 (ov_len v) \<ge> max_sndwnd t div 2 \<or> SEQ_LT (snd_nxt t) (snd_max t))"

definition out_winup :: "tcpsock \<Rightarrow> tcpcb \<Rightarrow> outv \<Rightarrow> bool" where
  "out_winup s t v \<longleftrightarrow> ov_win v > 0 \<and>
     (let adv = sint (w32 (ov_win v) - (rcv_adv t - rcv_nxt t)) in
      adv \<ge> 2 * int (unat (t_maxseg t)) \<or> wrap_int (2 * adv) \<ge> sint (sb_hiwat (so_rcv s)))"

definition out_ctl :: "tcpcb \<Rightarrow> outv \<Rightarrow> bool" where
  "out_ctl t v \<longleftrightarrow> tf TF_ACKNOW t \<or> hasf (TH_SYN OR TH_RST) (ov_flags v) \<or> SEQ_GT (snd_up t) (snd_una t) \<or>
     hasf TH_FIN (ov_flags v) \<and> (\<not> tf TF_SENTFIN t \<or> snd_nxt t = snd_una t)"

text \<open>Everything up to the decision: the control block, the segment, and whether to send it.\<close>

definition out_decide :: "tcpsock \<Rightarrow> bool \<Rightarrow> tcpcb \<Rightarrow> tcpcb \<times> outv \<times> bool" where
  "out_decide s idle t =
     (let (t1, v1) = out_plan s t; (t2, v2) = out_recover s t1 v1 in
      if tf TF_SACK_RECOVER t1 \<and> ov_len v2 > 0
      then (t2, out_nofin s t2 (if ov_rxmit v2 then ov_rseq v2 else snd_nxt t2)
                  (v2\<lparr>ov_win := sbspace (so_rcv s)\<rparr>), True)
      else let v3 = (out_nofin s t2 (snd_nxt t2) v2)\<lparr>ov_win := sbspace (so_rcv s)\<rparr>
           in (t2, v3, out_data s idle t2 v3 \<or> out_winup s t2 v3 \<or> out_ctl t2 v3))"

section \<open>Not sending\<close>

definition out_nosend :: "tcpsock \<Rightarrow> tcpcb \<Rightarrow> panic + tcpcb" where
  "out_nosend s t =
     (if sb_cc (so_snd s) \<noteq> 0 \<and> t_timer t TCPT_REXMT = 0 \<and> t_timer t TCPT_PERSIST = 0 then
        (if \<not> tf TF_SACK_RECOVER t then tcp_setpersist (t\<lparr>t_rxtshift := 0\<rparr>)
         else if SEQ_LT (snd_una t) (snd_max t) then
           (if snd_wnd t = 0 then tcp_setpersist (t\<lparr>t_rxtshift := 0\<rparr>)
            else Inr (set_timer TCPT_REXMT (t_rxtcur t) t))
         else Inr t)
      else Inr t)"

section \<open>Options\<close>

definition bytes16 :: "u16 \<Rightarrow> u8 list" where
  "bytes16 w = [ucast (drop_bit 8 w), ucast w]"

definition bytes32 :: "u32 \<Rightarrow> u8 list" where
  "bytes32 w = [ucast (drop_bit 24 w), ucast (drop_bit 16 w), ucast (drop_bit 8 w), ucast w]"

function scale_up :: "u32 \<Rightarrow> u8 \<Rightarrow> u8" where
  "scale_up hiwat r =
     (if r < TCP_MAX_WINSHIFT \<and> push_bit (unat r) TCP_MAXWIN < hiwat then scale_up hiwat (r + 1) else r)"
  by pat_completeness auto
termination
proof (relation "measure (\<lambda>(h, r). 14 - unat r)", goal_cases)
  case (2 hiwat r)
  then have "unat r < 14" by (simp add: TCP_MAX_WINSHIFT_def word_less_nat_alt)
  then have "unat (r + 1) = unat r + 1" by (subst unat_add_lem[THEN iffD1]) simp_all
  then show ?case using \<open>unat r < 14\<close> by simp
qed simp

declare scale_up.simps [simp del]

definition syn_options :: "tcpsock \<Rightarrow> u8 \<Rightarrow> u16 \<Rightarrow> tcpcb \<Rightarrow> tcpcb \<times> u8 list" where
  "syn_options s flags mss t =
     (let o1 = [2, 4] @ bytes16 mss;
          (t1, o2) =
            (if tf TF_REQ_SCALE t \<and> (\<not> hasf TH_ACK flags \<or> tf TF_RCVD_SCALE t)
             then (let r = scale_up (sb_hiwat (so_rcv s)) (request_r_scale t)
                   in (t\<lparr>request_r_scale := r\<rparr>, o1 @ [1, 3, 3, r]))
             else (t, o1));
          o3 = (if tf TF_REQ_SACK t1 \<and> (\<not> hasf TH_ACK flags \<or> tf TF_SACK_PERMIT t1)
                then o2 @ [1, 1, 4, 2] else o2)
      in (t1, o3))"

definition ts_options :: "u32 \<Rightarrow> u8 \<Rightarrow> tcpcb \<Rightarrow> u8 list" where
  "ts_options now flags t =
     (if t_flags t AND (TF_REQ_TSTMP OR TF_NOOPT) = TF_REQ_TSTMP \<and> \<not> hasf TH_RST flags \<and>
         (flags AND (TH_SYN OR TH_ACK) = TH_SYN \<or> tf TF_RCVD_TSTMP t)
      then [1, 1, 8, 10] @ bytes32 now @ bytes32 (ts_recent t) else [])"

definition blk_bytes :: "sackblk \<Rightarrow> u8 list" where
  "blk_bytes b = bytes32 (blk_start b) @ bytes32 (blk_end b)"

text \<open>The SACK option behind \<open>optlen\<close> option bytes: as many blocks as fit in the 40.\<close>

definition sack_options :: "nat \<Rightarrow> u8 \<Rightarrow> int \<Rightarrow> tcpcb \<Rightarrow> tcpcb \<times> u8 list" where
  "sack_options optlen flags len t =
     (if tf TF_SACK_PERMIT t \<and> len = 0 \<and> \<not> hasf (TH_SYN OR TH_RST) flags \<and>
         (sackblks t \<noteq> [] \<or> tf TF_DSACK t) then
        (let maxblk = (40 - optlen - 4) div 8;
             dsack = (if tf TF_DSACK t \<and> 1 \<le> maxblk then 1 else 0);
             nblk = min (length (sackblks t)) (maxblk - dsack);
             blocks = (if dsack = 1 then [rcv_dsackblk t] else []) @ take nblk (sackblks t);
             opt = (if blocks = [] then [] else [1, 1, 5, of_nat (2 + length blocks * 8)] @ concat (map blk_bytes blocks))
         in (t\<lparr>t_flags := t_flags t AND NOT TF_DSACK\<rparr>, opt))
      else (t, []))"

definition out_options :: "outv \<Rightarrow> tcpst \<Rightarrow> tcpst \<times> u8 list" where
  "out_options v st =
     (let (st1, o1) =
        (if hasf TH_SYN (ov_flags v) \<and> \<not> tf TF_NOOPT (tp st)
         then (let (st0, mss) = tcp_mss 0 st;
                   (t1, opt) = syn_options (sk st0) (ov_flags v) (word_of_int mss) (tp st0)
               in (st0\<lparr>tp := t1\<rparr>, opt))
         else (st, []));
          o2 = o1 @ ts_options (tcp_now (glob st1)) (ov_flags v) (tp st1);
          (t2, o3) = sack_options (length o2) (ov_flags v) (ov_len v) (tp st1)
      in (st1\<lparr>tp := t2\<rparr>, o2 @ o3))"


section \<open>Sending\<close>

text \<open>The window field, in bytes before it is scaled.\<close>

definition out_win :: "tcpsock \<Rightarrow> tcpcb \<Rightarrow> int \<Rightarrow> int" where
  "out_win s t win =
     (let w1 = (if win < sint (sb_hiwat (so_rcv s) div 4) \<and> win < int (unat (t_maxseg t)) then 0 else win);
          top_win = sint (push_bit (unat (rcv_scale t)) TCP_MAXWIN);
          w2 = (if w1 > top_win then top_win else w1);
          adv = sint (rcv_adv t - rcv_nxt t)
      in if w2 < adv then adv else w2)"

text \<open>The header: the control block with \<open>snd_nxt\<close> and \<open>snd_up\<close> adjusted, and the segment.\<close>

definition out_header :: "tcpsock \<Rightarrow> tcpcb \<Rightarrow> outv \<Rightarrow> u8 list \<Rightarrow> tcpcb \<times> tcpseg" where
  "out_header s t v opt =
     (let t1 = (if \<not> ov_rxmit v \<and> hasf TH_FIN (ov_flags v) \<and> tf TF_SENTFIN t \<and> snd_nxt t = snd_max t
                then t\<lparr>snd_nxt := snd_nxt t - 1\<rparr> else t);
          urg = SEQ_GT (snd_up t1) (snd_nxt t1);
          seg = \<lparr>sg_seq = (if ov_rxmit v then ov_rseq v else snd_nxt t1), sg_ack = rcv_nxt t1,
                 sg_flags = (if urg then ov_flags v OR TH_URG else ov_flags v),
                 sg_win = word_of_int (drop_bit (unat (rcv_scale t1)) (ov_win v)),
                 sg_urp = (if urg then ucast (snd_up t1 - snd_nxt t1) else 0),
                 sg_opt = opt, sg_off = ov_off v, sg_len = ov_len v\<rparr>
      in (if urg then t1 else t1\<lparr>snd_up := snd_una t1\<rparr>, seg))"

text \<open>The sequence space and the timers, after a hole, after a segment, after a forced byte.\<close>

definition acct_hole :: "tcpcb \<Rightarrow> outv \<Rightarrow> panic + tcpcb" where
  "acct_hole t v =
     (let fin = ov_rseq v + w32 (ov_len v);
          t1 = (if ov_len v > 0 \<and> SEQ_GT fin (snd_highrxt t) then t\<lparr>snd_highrxt := fin\<rparr> else t)
      in if t_timer t1 TCPT_REXMT = 0 \<and> snd_nxt t1 \<noteq> snd_una t1 \<and> t_timer t1 TCPT_PERSIST = 0 then
           (if snd_wnd t1 = 0 then tcp_setpersist (t1\<lparr>t_rxtshift := 0\<rparr>)
            else Inr (set_timer TCPT_REXMT (t_rxtcur t1) t1))
         else Inr t1)"

definition acct_send :: "tcpcb \<Rightarrow> outv \<Rightarrow> tcpcb" where
  "acct_send t v =
     (let startseq = snd_nxt t;
          t1 = (if hasf TH_SYN (ov_flags v) then t\<lparr>snd_nxt := snd_nxt t + 1\<rparr> else t);
          t2 = (if hasf TH_FIN (ov_flags v)
                then t1\<lparr>snd_nxt := snd_nxt t1 + 1, t_flags := t_flags t1 OR TF_SENTFIN\<rparr> else t1);
          t3 = t2\<lparr>snd_nxt := snd_nxt t2 + w32 (ov_len v)\<rparr>;
          t4 = (if SEQ_GT (snd_nxt t3) (snd_max t3) then
                  (let u = t3\<lparr>snd_max := snd_nxt t3\<rparr> in
                   if t_rtt u = 0 then u\<lparr>t_rtt := 1, t_rtseq := startseq\<rparr> else u)
                else t3)
      in if t_timer t4 TCPT_REXMT = 0 \<and> snd_nxt t4 \<noteq> snd_una t4 then
           (let u = set_timer TCPT_REXMT (t_rxtcur t4) t4 in
            if t_timer u TCPT_PERSIST \<noteq> 0 then (set_timer TCPT_PERSIST 0 u)\<lparr>t_rxtshift := 0\<rparr> else u)
         else t4)"

definition acct_probe :: "tcpcb \<Rightarrow> outv \<Rightarrow> tcpcb" where
  "acct_probe t v =
     (let fin = snd_nxt t + w32 (ov_len v) in
      if SEQ_GT fin (snd_max t) then t\<lparr>snd_max := fin\<rparr> else t)"

definition out_account :: "tcpcb \<Rightarrow> outv \<Rightarrow> panic + tcpcb" where
  "out_account t v =
     (if ov_rxmit v then acct_hole t v
      else if t_force t = 0 \<or> t_timer t TCPT_PERSIST = 0 then Inr (acct_send t v)
      else Inr (acct_probe t v))"

text \<open>The error path \<open>out:\<close>; the result is the value \<open>tcp_output\<close> returns.\<close>

definition out_error :: "int \<Rightarrow> tcpsock \<Rightarrow> tcpcb \<Rightarrow> tcpcb \<times> int" where
  "out_error err s t =
     (let t1 = (if sb_cc (so_snd s) \<noteq> 0 \<and> t_timer t TCPT_REXMT = 0 \<and> t_timer t TCPT_PERSIST = 0 \<and>
                   SEQ_LT (snd_una t) (snd_max t)
                then set_timer TCPT_REXMT (t_rxtcur t) t else t)
      in if err = ENOBUFS then (tcp_quench t1, 0)
         else if (err = EHOSTUNREACH \<or> err = ENETDOWN \<or> err = EHOSTDOWN) \<and> t_state t1 \<ge> TCPS_SYN_RECEIVED
         then (t1\<lparr>t_softerror := word_of_int err\<rparr>, 0)
         else (t1, err))"

definition out_sent :: "outv \<Rightarrow> tcpcb \<Rightarrow> tcpcb" where
  "out_sent v t =
     (let t1 = (if tf TF_SACK_RECOVER t then t\<lparr>prr_out := prr_out t + w32 (ov_len v)\<rparr> else t);
          fin = rcv_nxt t1 + w32 (ov_win v);
          t2 = (if ov_win v > 0 \<and> SEQ_GT fin (rcv_adv t1) then t1\<lparr>rcv_adv := fin\<rparr> else t1)
      in t2\<lparr>last_ack_sent := rcv_nxt t2, t_flags := t_flags t2 AND NOT (TF_ACKNOW OR TF_DELACK)\<rparr>)"

text \<open>Data that does not fit behind the header needs \<open>m_copy\<close>: \<open>MHLEN\<close> is 96.\<close>

definition needs_copy :: "tcpglob \<Rightarrow> nat \<Rightarrow> int \<Rightarrow> bool" where
  "needs_copy g optlen len \<longleftrightarrow> w32 len > w32 (96 - int (40 + optlen) - max_linkhdr g)"

text \<open>
  From \<open>send:\<close> to the end of the loop body: the state, and \<open>Some err\<close> when \<open>tcp_output\<close> returns
  \<open>err\<close>, \<open>None\<close> when the segment was sent.
\<close>

definition out_send :: "outv \<Rightarrow> tcpst \<Rightarrow> panic + tcpst \<times> int option" where
  "out_send v0 st0 =
     (let (st, opt) = out_options v0 st0;
          v1 = (if ov_off v0 < 0 then v0\<lparr>ov_off := 0\<rparr> else v0);
          res = net st (net_i st);
          st1 = st\<lparr>net_i := net_i st + 1\<rparr>
      in case res of
           NoHdr \<Rightarrow> (case out_error ENOBUFS (sk st1) (tp st1) of (t, e) \<Rightarrow> Inr (st1\<lparr>tp := t\<rparr>, Some e))
         | _ \<Rightarrow>
           (let (nocopy, err) = (case res of NoCopy e \<Rightarrow> (True, e) | Sent e \<Rightarrow> (False, e) | NoHdr \<Rightarrow> (False, 0));
                v2 = (if ov_len v1 \<noteq> 0 \<and> nocopy \<and> needs_copy (glob st1) (length opt) (ov_len v1)
                      then v1\<lparr>ov_len := 0\<rparr> else v1);
                v3 = (if ov_len v1 \<noteq> 0 \<and> w32 (ov_off v2 + ov_len v2) = sb_cc (so_snd (sk st1))
                      then v2\<lparr>ov_flags := ov_flags v2 OR TH_PUSH\<rparr> else v2);
                v4 = v3\<lparr>ov_win := out_win (sk st1) (tp st1) (ov_win v3)\<rparr>;
                (t1, seg) = out_header (sk st1) (tp st1) v4 opt
            in case out_account t1 v4 of
                 Inl p \<Rightarrow> Inl p
               | Inr t2 \<Rightarrow>
                 (let st2 = st1\<lparr>tp := t2, segs := segs st1 @ [seg]\<rparr> in
                  if err \<noteq> 0
                  then (case out_error err (sk st2) t2 of (t3, e) \<Rightarrow> Inr (st2\<lparr>tp := t3\<rparr>, Some e))
                  else Inr (st2\<lparr>tp := out_sent v4 t2\<rparr>, None))))"

text \<open>One turn of \<open>again:\<close>. \<open>Some r\<close> is a return, \<open>None\<close> another turn.\<close>

definition out_turn :: "bool \<Rightarrow> tcpst \<Rightarrow> panic + tcpst \<times> int option" where
  "out_turn idle st =
     (case out_decide (sk st) idle (tp st) of (t, v, send) \<Rightarrow>
        if send then
          (case out_send v (st\<lparr>tp := t\<rparr>) of
             Inl p \<Rightarrow> Inl p
           | Inr (st1, Some e) \<Rightarrow> Inr (st1, Some e)
           | Inr (st1, None) \<Rightarrow> Inr (st1, if ov_sendalot v then None else Some 0))
        else (case out_nosend (sk st) t of
                Inl p \<Rightarrow> Inl p
              | Inr t1 \<Rightarrow> Inr (st\<lparr>tp := t1\<rparr>, Some 0)))"

text \<open>The loop; it is \<open>None\<close> when it never returns.\<close>

partial_function (option) tcp_output_loop :: "bool \<Rightarrow> tcpst \<Rightarrow> (panic + tcpst \<times> int) option" where
  "tcp_output_loop idle st =
     (case out_turn idle st of
        Inl p \<Rightarrow> Some (Inl p)
      | Inr (st1, Some e) \<Rightarrow> Some (Inr (st1, e))
      | Inr (st1, None) \<Rightarrow> tcp_output_loop idle st1)"

declare tcp_output_loop.simps [code]

definition tcp_output :: "tcpst \<Rightarrow> (panic + tcpst \<times> int) option" where
  "tcp_output st =
     (let t = tp st; idle = (snd_max t = snd_una t);
          t1 = (if idle \<and> sint (t_idle t) \<ge> sint (t_rxtcur t)
                then t\<lparr>snd_cwnd := ucast (t_maxseg t)\<rparr> else t)
      in tcp_output_loop idle (st\<lparr>tp := t1\<rparr>))"

end
