(* ===== verification/Tcp_Timer.thy ===== *)
theory Tcp_Timer
  imports Tcp_Output
begin

text \<open>
  The timers of a connection (\<open>netinet/tcp_timer.c\<close>), the round-trip estimator \<open>tcp_xmit_timer\<close>
  (\<open>netinet/tcp_input.c\<close>), and \<open>tcp_newtcpcb\<close>, \<open>tcp_drop\<close>, \<open>tcp_close\<close> and \<open>tcp_respond\<close>
  (\<open>netinet/tcp_subr.c\<close>) as the timers use them. A closed connection is the state with \<open>alive\<close>
  cleared: the release of its memory, the wakeups and the detach from the list of control blocks
  are not modelled, nor are the statistics counters and the routing message of \<open>in_losing\<close>.
\<close>

section \<open>Creation\<close>

text \<open>The three switches are \<open>tcp_do_rfc1323\<close>, \<open>tcp_do_rfc1323_tstmp\<close> and \<open>tcp_do_sack\<close>.\<close>

definition tcp_newtcpcb :: "tcpglob \<Rightarrow> bool \<Rightarrow> bool \<Rightarrow> bool \<Rightarrow> tcpcb" where
  "tcp_newtcpcb g do_scale do_tstmp do_sack =
     (let mss = (if tcp_mssdflt g > 0 \<and> tcp_mssdflt g \<le> 65535 then word_of_int (tcp_mssdflt g) else TCP_MSS);
          f1 = (if do_scale then TF_REQ_SCALE else 0);
          f2 = (if do_tstmp then f1 OR TF_REQ_TSTMP else f1);
          f3 = (if do_sack then f2 OR TF_REQ_SACK else f2)
      in tcpcb_zero\<lparr>t_maxseg := mss, t_flags := f3, t_srtt := 0, t_rttvar := word_of_int TCPTV_MIN,
           t_rttmin := word_of_int TCPTV_MIN, t_rxtcur := tcpt_rangeset 2 TCPTV_MIN TCPTV_REXMTMAX,
           snd_cwnd := ucast mss, snd_ssthresh := TCP_MAXWIN\<rparr>)"

section \<open>Round-trip times\<close>

text \<open>\<open>TCP_REXMTVAL\<close>; the arithmetic of the estimator is on \<open>short\<close>s.\<close>

definition TCP_REXMTVAL :: "tcpcb \<Rightarrow> int" where
  "TCP_REXMTVAL t = sint (t_srtt t) div 8 + sint (t_rttvar t)"

definition smooth :: "s16 \<Rightarrow> s16 \<Rightarrow> s16" where
  "smooth v delta = (if sint (v + delta) \<le> 0 then 1 else v + delta)"

definition tcp_xmit_timer :: "s16 \<Rightarrow> tcpcb \<Rightarrow> tcpcb" where
  "tcp_xmit_timer rtt t =
     (let t1 =
        (if t_srtt t \<noteq> 0 then
           (let delta = (word_of_int (sint rtt - 1 - sint (t_srtt t) div 8) :: s16);
                srtt = smooth (t_srtt t) delta;
                delta1 = (if sint delta < 0 then - delta else delta);
                delta2 = delta1 - word_of_int (sint (t_rttvar t) div 4)
            in t\<lparr>t_srtt := srtt, t_rttvar := smooth (t_rttvar t) delta2\<rparr>)
         else t\<lparr>t_srtt := push_bit 3 rtt, t_rttvar := push_bit 1 rtt\<rparr>);
          t2 = t1\<lparr>t_rtt := 0, t_rxtshift := 0\<rparr>
      in t2\<lparr>t_rxtcur := tcpt_rangeset (TCP_REXMTVAL t2) (int (unat (t_rttmin t2))) TCPTV_REXMTMAX,
            t_softerror := 0\<rparr>)"

section \<open>Closing\<close>

text \<open>
  The metrics saved in the route. \<open>i\<close> is the variable of that name, which the second disjunct of
  the last test reads even when the first leaves it at an older value.
\<close>

definition close_rtt :: "tcpcb \<Rightarrow> rtentry \<times> u32 \<Rightarrow> rtentry \<times> u32" where
  "close_rtt t = (\<lambda>(rt, i).
     (if rmx_locks rt AND RTV_RTT = 0 then
        (let j = w32 (sint (t_srtt t) * 62500) in
         (rt\<lparr>rmx_rtt := (if rmx_rtt rt \<noteq> 0 \<and> j \<noteq> 0 then (rmx_rtt rt + j) div 2 else j)\<rparr>, j))
      else (rt, i)))"

definition close_rttvar :: "tcpcb \<Rightarrow> rtentry \<times> u32 \<Rightarrow> rtentry \<times> u32" where
  "close_rttvar t = (\<lambda>(rt, i).
     (if rmx_locks rt AND RTV_RTTVAR = 0 then
        (let j = w32 (sint (t_rttvar t) * 125000) in
         (rt\<lparr>rmx_rttvar := (if rmx_rttvar rt \<noteq> 0 \<and> j \<noteq> 0 then (rmx_rttvar rt + j) div 2 else j)\<rparr>, j))
      else (rt, i)))"

definition close_ssthresh :: "tcpcb \<Rightarrow> rtentry \<times> u32 \<Rightarrow> rtentry" where
  "close_ssthresh t = (\<lambda>(rt, i).
     (let unlocked = (rmx_locks rt AND RTV_SSTHRESH = 0);
          j = (if unlocked then snd_ssthresh t else i)
      in if unlocked \<and> j \<noteq> 0 \<and> rmx_ssthresh rt \<noteq> 0 \<or> j < rmx_sendpipe rt div 2 then
           (let seg = ucast (t_maxseg t) :: u32;
                k = (j + seg div 2) div seg;
                k1 = (if k < 2 then 2 else k);
                l = k1 * (seg + 40)
            in rt\<lparr>rmx_ssthresh := (if rmx_ssthresh rt \<noteq> 0 then (rmx_ssthresh rt + l) div 2 else l)\<rparr>)
         else rt))"

definition tcp_close :: "tcpst \<Rightarrow> tcpst" where
  "tcp_close st =
     (let t = tp st; s = sk st;
          s1 = (case ro_rt s of
                  Some rt \<Rightarrow>
                    (if SEQ_LT (iss t + sb_hiwat (so_snd s) * 16) (snd_max t) \<and> \<not> rt_key_any rt
                     then s\<lparr>ro_rt := Some (close_ssthresh t (close_rttvar t (close_rtt t (rt, 0))))\<rparr>
                     else s)
                | None \<Rightarrow> s)
      in st\<lparr>sk := s1, alive := False\<rparr>)"

definition tcp_drop :: "int \<Rightarrow> tcpst \<Rightarrow> (panic + tcpst) option" where
  "tcp_drop errno st = do {
     r \<leftarrow> (if t_state (tp st) \<ge> TCPS_SYN_RECEIVED
          then tcp_output (st\<lparr>tp := (tp st)\<lparr>t_state := TCPS_CLOSED\<rparr>\<rparr>)
          else Some (Inr (st, 0)));
     Some (case r of
        Inl p \<Rightarrow> Inl p
      | Inr (st1, _) \<Rightarrow>
          (let e = (if errno = ETIMEDOUT \<and> t_softerror (tp st1) \<noteq> 0 then sint (t_softerror (tp st1)) else errno)
           in Inr (tcp_close (st1\<lparr>sk := (sk st1)\<lparr>so_error := e\<rparr>\<rparr>)))) }"

text \<open>\<open>tcp_respond\<close> on the template of the connection, without a segment to answer.\<close>

definition tcp_respond :: "u32 \<Rightarrow> u32 \<Rightarrow> tcpst \<Rightarrow> tcpst" where
  "tcp_respond ack seq st =
     (let t = tp st; win0 = sbspace (so_rcv (sk st));
          lim = sint (push_bit (unat (rcv_scale t)) TCP_MAXWIN);
          win = drop_bit (unat (rcv_scale t)) (if win0 > lim then lim else win0);
          seg = \<lparr>sg_seq = seq, sg_ack = ack, sg_flags = TH_ACK, sg_win = word_of_int win, sg_urp = 0,
                 sg_opt = [], sg_off = 0, sg_len = 0\<rparr>
      in case net st (net_i st) of
           NoHdr \<Rightarrow> st\<lparr>net_i := net_i st + 1\<rparr>
         | _ \<Rightarrow> st\<lparr>net_i := net_i st + 1, segs := segs st @ [seg]\<rparr>)"

definition in_losing :: "tcpsock \<Rightarrow> tcpsock" where
  "in_losing s = s\<lparr>ro_rt := None\<rparr>"

section \<open>The timers\<close>

definition tcp_canceltimers :: "tcpcb \<Rightarrow> tcpcb" where
  "tcp_canceltimers t = t\<lparr>t_timer := (\<lambda>_. 0)\<rparr>"

text \<open>A division by zero of the code: \<open>t_maxseg\<close> in \<open>min(snd_wnd, snd_cwnd) / 2 / t_maxseg\<close>.\<close>

definition rexmt_window :: "tcpcb \<Rightarrow> u32" where
  "rexmt_window t =
     (let win = min (snd_wnd t) (snd_cwnd t) div 2 div ucast (t_maxseg t) in if win < 2 then 2 else win)"

text \<open>The retransmission proper, once the shift has been raised and found small enough.\<close>

definition rexmt_backoff :: "tcpst \<Rightarrow> tcpst" where
  "rexmt_backoff st =
     (let t = tp st;
          cur = tcpt_rangeset (TCP_REXMTVAL t * tcp_backoff ! nat (sint (t_rxtshift t)))
                  (int (unat (t_rttmin t))) TCPTV_REXMTMAX;
          t1 = set_timer TCPT_REXMT cur (t\<lparr>t_rxtcur := cur\<rparr>);
          st1 = (if sint (t_rxtshift t1) > 3
                 then st\<lparr>sk := in_losing (sk st),
                        tp := t1\<lparr>t_rttvar := t_rttvar t1 + word_of_int (sint (t_srtt t1) div 8), t_srtt := 0\<rparr>\<rparr>
                 else st\<lparr>tp := t1\<rparr>);
          t2 = (tp st1)\<lparr>snd_nxt := snd_una (tp st1)\<rparr>;
          t3 = (if tf TF_SACK_RECOVER t2
                then t2\<lparr>t_flags := t_flags t2 AND NOT (TF_SACK_RECOVER OR TF_SACK_RESCUE),
                        snd_sackblks := [], snd_highrxt := snd_una t2\<rparr>
                else t2);
          seg = ucast (t_maxseg t3) :: u32;
          t4 = t3\<lparr>t_rtt := 0, snd_cwnd := seg, snd_ssthresh := rexmt_window t3 * seg, t_dupacks := 0\<rparr>
      in st1\<lparr>tp := t4\<rparr>)"

definition output_ignored :: "tcpst \<Rightarrow> (panic + tcpst) option" where
  "output_ignored st = map_option (map_sum id fst) (tcp_output st)"

definition tcp_timers :: "tcpt \<Rightarrow> tcpst \<Rightarrow> (panic + tcpst) option" where
  "tcp_timers timer st =
     (let t = tp st; g = glob st in
      case timer of
        TCPT_2MSL \<Rightarrow>
          (if t_state t \<noteq> TCPS_TIME_WAIT \<and> sint (t_idle t) \<le> tcp_maxidle g
           then Some (Inr (st\<lparr>tp := set_timer TCPT_2MSL (word_of_int (tcp_keepintvl g)) t\<rparr>))
           else Some (Inr (tcp_close st)))
      | TCPT_REXMT \<Rightarrow>
          (if t_state t \<ge> TCPS_ESTABLISHED \<and> sb_cc (so_snd (sk st)) > 0 \<and> snd_wnd t = 0 \<and>
              SEQ_LT (snd_una t) (snd_max t)
           then Some (map_sum id (\<lambda>t1. st\<lparr>tp := t1\<rparr>)
                  (tcp_setpersist ((set_timer TCPT_REXMT 0 t)\<lparr>t_rxtshift := 0\<rparr>)))
           else let t1 = t\<lparr>t_rxtshift := t_rxtshift t + 1\<rparr> in
             if sint (t_rxtshift t1) > TCP_MAXRXTSHIFT
             then tcp_drop (if t_softerror t1 \<noteq> 0 then sint (t_softerror t1) else ETIMEDOUT)
                    (st\<lparr>tp := t1\<lparr>t_rxtshift := word_of_int TCP_MAXRXTSHIFT\<rparr>\<rparr>)
             else output_ignored (rexmt_backoff (st\<lparr>tp := t1\<rparr>)))
      | TCPT_PERSIST \<Rightarrow>
          (case tcp_setpersist t of
             Inl p \<Rightarrow> Some (Inl p)
           | Inr t1 \<Rightarrow> map_option (map_sum id (\<lambda>s. s\<lparr>tp := (tp s)\<lparr>t_force := 0\<rparr>\<rparr>))
                        (output_ignored (st\<lparr>tp := t1\<lparr>t_force := 1\<rparr>\<rparr>)))
      | TCPT_KEEP \<Rightarrow>
          (if t_state t < TCPS_ESTABLISHED then tcp_drop ETIMEDOUT st
           else if so_keepalive (sk st) \<and> t_state t \<le> TCPS_CLOSE_WAIT then
             (if sint (t_idle t) \<ge> tcp_keepidle g + tcp_maxidle g then tcp_drop ETIMEDOUT st
              else let st1 = tcp_respond (rcv_nxt t) (snd_una t - 1) st
                in Some (Inr (st1\<lparr>tp := set_timer TCPT_KEEP (word_of_int (tcp_keepintvl g)) (tp st1)\<rparr>)))
           else Some (Inr (st\<lparr>tp := set_timer TCPT_KEEP (word_of_int (tcp_keepidle g)) t\<rparr>))))"

text \<open>
  The receive-stall detector. \<open>sleeper\<close> is the answer of \<open>ng_sleeper_on\<close>: 0 for nobody, a
  negative value when the queue could not be read. The result is the report, if one is made.
\<close>

definition NG_RCVSTALL_TICKS :: int where "NG_RCVSTALL_TICKS = 60"

definition ng_rcvstall_check :: "u32 \<Rightarrow> int \<Rightarrow> sockbuf \<Rightarrow> tcpcb \<Rightarrow> tcpcb \<times> bool" where
  "ng_rcvstall_check now sleeper sb t =
     (if sb_cc sb = 0 \<or> sleeper = 0 then (t\<lparr>t_rcvstall := 0, t_rcvstall_done := 0\<rparr>, False)
      else if sleeper < 0 then (t, False)
      else if t_rcvstall t = 0 \<or> t_rcvstall_cc t \<noteq> sb_cc sb
      then (t\<lparr>t_rcvstall := now, t_rcvstall_cc := sb_cc sb, t_rcvstall_done := 0\<rparr>, False)
      else if t_rcvstall_done t = 0 \<and> sint (now - t_rcvstall t) \<ge> NG_RCVSTALL_TICKS
      then (t\<lparr>t_rcvstall_done := 1\<rparr>, True)
      else (t, False))"

text \<open>
  One connection's part of \<open>tcp_slowtimo\<close>: the four timers in order, stopping when the connection
  goes; then the idle and round-trip clocks and the stall detector.
\<close>

definition timer_tick :: "tcpt \<Rightarrow> tcpst \<Rightarrow> (panic + tcpst) option" where
  "timer_tick i st =
     (let v = t_timer (tp st) i in
      if v = 0 then Some (Inr st)
      else let st1 = st\<lparr>tp := set_timer i (v - 1) (tp st)\<rparr> in
        if v - 1 = 0 then tcp_timers i st1 else Some (Inr st1))"

fun timer_ticks :: "tcpt list \<Rightarrow> tcpst \<Rightarrow> (panic + tcpst) option" where
  "timer_ticks [] st = Some (Inr st)"
| "timer_ticks (i # is) st = do {
     r \<leftarrow> timer_tick i st;
     (case r of Inl p \<Rightarrow> Some (Inl p) | Inr st1 \<Rightarrow> if alive st1 then timer_ticks is st1 else Some (Inr st1)) }"

definition slow_one :: "int \<Rightarrow> tcpst \<Rightarrow> (panic + tcpst) option" where
  "slow_one sleeper st = do {
     r \<leftarrow> timer_ticks [TCPT_REXMT, TCPT_PERSIST, TCPT_KEEP, TCPT_2MSL] st;
     Some (case r of
        Inl p \<Rightarrow> Inl p
      | Inr st1 \<Rightarrow>
          if alive st1 then
            (let t = tp st1;
                 t1 = t\<lparr>t_idle := t_idle t + 1, t_rtt := (if t_rtt t \<noteq> 0 then t_rtt t + 1 else 0)\<rparr>
             in Inr (st1\<lparr>tp := fst (ng_rcvstall_check (tcp_now (glob st1)) sleeper (so_rcv (sk st1)) t1)\<rparr>))
          else Inr st1) }"

text \<open>The clocks \<open>tcp_slowtimo\<close> advances before the walk.\<close>

definition slow_clock :: "tcpglob \<Rightarrow> tcpglob" where
  "slow_clock g = g\<lparr>tcp_now := tcp_now g + 1, tcp_maxidle := 8 * tcp_keepintvl g\<rparr>"

text \<open>
  The walk of the connections, each with its own state: the survivors, in order, and the stack's
  clocks written to each. \<open>sleeper\<close> is asked per connection.
\<close>

fun slow_walk :: "(tcpst \<Rightarrow> int) \<Rightarrow> tcpst list \<Rightarrow> (panic + tcpst list) option" where
  "slow_walk sleeper [] = Some (Inr [])"
| "slow_walk sleeper (c # cs) = do {
     r \<leftarrow> slow_one (sleeper c) c;
     (case r of
        Inl p \<Rightarrow> Some (Inl p)
      | Inr c1 \<Rightarrow> do {
          rs \<leftarrow> slow_walk sleeper cs;
          Some (map_sum id (\<lambda>cs1. if alive c1 then c1 # cs1 else cs1) rs) }) }"

definition tcp_slowtimo :: "(tcpst \<Rightarrow> int) \<Rightarrow> tcpst list \<Rightarrow> (panic + tcpst list) option" where
  "tcp_slowtimo sleeper cs = slow_walk sleeper (map (\<lambda>c. c\<lparr>glob := slow_clock (glob c)\<rparr>) cs)"

text \<open>The fast timer's flush of one connection's pending acknowledgement.\<close>

definition fast_one :: "tcpst \<Rightarrow> (panic + tcpst) option" where
  "fast_one st =
     (let t = tp st in
      if tf (TF_DELACK OR TF_ACKNOW) t
      then output_ignored (st\<lparr>tp := t\<lparr>t_flags := t_flags t AND NOT TF_DELACK OR TF_ACKNOW\<rparr>\<rparr>)
      else Some (Inr st))"

end
