(* ===== verification/Tcp_Reass.thy ===== *)
theory Tcp_Reass
  imports Tcp_Timer Sockbuf
begin

text \<open>
  The reassembly queue of a connection (\<open>TCP_REASS\<close> and \<open>tcp_reass\<close>, \<open>netinet/tcp_input.c\<close>). A
  segment is its header in host order and the mbufs of its data; the queue is the list from
  \<open>seg_next\<close> on. A receive buffer is the pair of its counters and its records.
\<close>

record tseg =
  ti_seq :: u32
  ti_ack :: u32
  ti_len :: s16
  ti_flags :: u8
  ti_win :: u16
  ti_urp :: u16
  ti_m :: "vmbuf list"

section \<open>The queue\<close>

text \<open>The limit on the bytes and the count of segments waiting; \<open>MSIZE\<close> is 128.\<close>

definition reass_full :: "sockbuf \<Rightarrow> tseg list \<Rightarrow> tseg \<Rightarrow> bool" where
  "reass_full sb q ti =
     (let room = max 0 (sint (sb_hiwat sb - sb_cc sb));
          maxsegs = max 8 (room div int MSIZE);
          reasslen = sum_list (map (\<lambda>p. int (unat (ti_len p))) q)
      in reasslen + int (unat (ti_len ti)) > room \<or> int (length q) + 1 > maxsegs)"

text \<open>The trim of the leading bytes of a segment.\<close>

definition seg_skip :: "int \<Rightarrow> tseg \<Rightarrow> tseg" where
  "seg_skip i ti = ti\<lparr>ti_seq := ti_seq ti + w32 i, ti_len := ti_len ti - word_of_int i, ti_m := vm_adj i (ti_m ti)\<rparr>"

definition seg_fin :: "tseg \<Rightarrow> u32" where
  "seg_fin ti = ti_seq ti + scast (ti_len ti)"

text \<open>Against the segment before: \<open>None\<close> when that one has all the data.\<close>

definition reass_front :: "tseg list \<Rightarrow> tseg \<Rightarrow> tseg option" where
  "reass_front pre ti =
     (if pre = [] then Some ti
      else let i = sint (seg_fin (last pre) - ti_seq ti) in
        if i > 0 then (if i \<ge> sint (ti_len ti) then None else Some (seg_skip i ti)) else Some ti)"

fun reass_back :: "tseg \<Rightarrow> tseg list \<Rightarrow> tseg list" where
  "reass_back ti [] = []"
| "reass_back ti (q # qs) =
     (let i = sint (seg_fin ti - ti_seq q) in
      if i \<le> 0 then q # qs
      else if i < sint (ti_len q) then seg_skip i q # qs
      else reass_back ti qs)"

text \<open>The insertion: the queue and the segment as queued, \<open>None\<close> when nothing of it is new.\<close>

definition reass_insert :: "tseg \<Rightarrow> tseg list \<Rightarrow> (tseg list \<times> tseg) option" where
  "reass_insert ti q =
     (let pre = takeWhile (\<lambda>p. \<not> SEQ_GT (ti_seq p) (ti_seq ti)) q;
          post = dropWhile (\<lambda>p. \<not> SEQ_GT (ti_seq p) (ti_seq ti)) q
      in case reass_front pre ti of
           None \<Rightarrow> None
         | Some t1 \<Rightarrow> Some (pre @ t1 # reass_back t1 post, t1))"

text \<open>The loop after \<open>present:\<close>.\<close>

type_synonym rstate = "tcpcb \<times> sbuf \<times> tseg list"

fun reass_deliver :: "bool \<Rightarrow> tcpcb \<Rightarrow> sbuf \<Rightarrow> tseg list \<Rightarrow> u8 \<Rightarrow> rstate \<times> u8" where
  "reass_deliver cantrcv t sb [] flags = ((t, sb, []), flags)"
| "reass_deliver cantrcv t sb (ti # q) flags =
     (if ti_seq ti = rcv_nxt t
      then reass_deliver cantrcv (t\<lparr>rcv_nxt := rcv_nxt t + scast (ti_len ti)\<rparr>)
             (if cantrcv then sb else sbappend sb (ti_m ti)) q (ti_flags ti AND TH_FIN)
      else ((t, sb, ti # q), flags))"

definition reass_present :: "bool \<Rightarrow> rstate \<Rightarrow> rstate \<times> u8" where
  "reass_present cantrcv = (\<lambda>(t, sb, q).
     if t_state t < TCPS_SYN_RECEIVED then ((t, sb, q), 0)
     else (case q of
             [] \<Rightarrow> ((t, sb, q), 0)
           | ti # _ \<Rightarrow>
             if ti_seq ti \<noteq> rcv_nxt t then ((t, sb, q), 0)
             else if t_state t = TCPS_SYN_RECEIVED \<and> ti_len ti \<noteq> 0 then ((t, sb, q), 0)
             else (case reass_deliver cantrcv t sb q 0 of ((t1, sb1, q1), flags) \<Rightarrow>
                     ((if tf TF_SACK_PERMIT t1 then tcp_sack_purge t1 else t1, sb1, q1), flags))))"

text \<open>The whole routine; the segment \<open>None\<close> is the call with \<open>ti == 0\<close>.\<close>

definition tcp_reass :: "bool \<Rightarrow> tseg option \<Rightarrow> rstate \<Rightarrow> rstate \<times> u8" where
  "tcp_reass cantrcv seg = (\<lambda>(t, sb, q).
     case seg of
       None \<Rightarrow> reass_present cantrcv (t, sb, q)
     | Some ti \<Rightarrow>
         if ti_seq ti \<noteq> rcv_nxt t \<and> reass_full (fst sb) q ti then ((t, sb, q), 0)
         else (case reass_insert ti q of
                 None \<Rightarrow> ((t, sb, q), 0)
               | Some (q1, t1) \<Rightarrow>
                   reass_present cantrcv
                     (if tf TF_SACK_PERMIT t then tcp_sack_addblock t (ti_seq t1) (seg_fin t1) else t, sb, q1)))"

definition TCP_SETDELACK :: "tcpcb \<Rightarrow> tcpcb" where
  "TCP_SETDELACK t =
     (if tf TF_DELACK t then t\<lparr>t_flags := t_flags t AND NOT TF_DELACK OR TF_ACKNOW\<rparr>
      else t\<lparr>t_flags := t_flags t OR TF_DELACK\<rparr>)"

definition TCP_REASS :: "bool \<Rightarrow> tseg \<Rightarrow> rstate \<Rightarrow> rstate \<times> u8" where
  "TCP_REASS cantrcv ti = (\<lambda>(t, sb, q).
     if ti_seq ti = rcv_nxt t \<and> q = [] \<and> t_state t = TCPS_ESTABLISHED
     then (((TCP_SETDELACK t)\<lparr>rcv_nxt := rcv_nxt t + scast (ti_len ti)\<rparr>, sbappend sb (ti_m ti), q), ti_flags ti AND TH_FIN)
     else (case tcp_reass cantrcv (Some ti) (t, sb, q) of ((t1, sb1, q1), flags) \<Rightarrow>
             ((t1\<lparr>t_flags := t_flags t1 OR TF_ACKNOW\<rparr>, sb1, q1), flags)))"

end
