(* ===== verification/Tcp_Options.thy ===== *)
theory Tcp_Options
  imports Tcp_Timer
begin

text \<open>
  The options of a received segment (\<open>tcp_dooptions\<close>, \<open>netinet/tcp_input.c\<close>). \<open>cp\<close> is the list of
  the option bytes left (\<open>cnt\<close> of them); a read behind their end is the result \<open>None\<close>. What the
  routine hands back through its pointer arguments is the record \<open>optres\<close>.
\<close>

record optres =
  ts_present :: bool
  ts_val :: u32
  ts_ecr :: u32
  sack_in :: "sackblk list"

definition opt_at :: "u8 list \<Rightarrow> nat \<Rightarrow> u8 option" where
  "opt_at cp i = (if i < length cp then Some (cp ! i) else None)"

text \<open>\<open>bcopy\<close> of four bytes and \<open>NTOHL\<close>.\<close>

definition opt_long :: "u8 list \<Rightarrow> nat \<Rightarrow> u32 option" where
  "opt_long cp i = do {
     a \<leftarrow> opt_at cp i; b \<leftarrow> opt_at cp (i + 1); c \<leftarrow> opt_at cp (i + 2); d \<leftarrow> opt_at cp (i + 3);
     Some (be32 a b c d) }"

text \<open>The length of the option at \<open>cp\<close>, at most \<open>cnt\<close>; \<open>None\<close> ends the walk.\<close>

definition opt_len :: "u8 list \<Rightarrow> nat option" where
  "opt_len cp =
     (if cp ! 0 = 0 then None
      else if cp ! 0 = 1 then Some 1
      else if length cp < 2 then None
      else let n = unat (cp ! 1) in if n < 2 \<or> n > length cp then None else Some n)"

text \<open>The blocks of a SACK option, \<open>n\<close> of them from \<open>bp\<close> on.\<close>

fun opt_blocks :: "u8 list \<Rightarrow> nat \<Rightarrow> nat \<Rightarrow> sackblk list \<Rightarrow> sackblk list option" where
  "opt_blocks cp bp 0 sack = Some sack"
| "opt_blocks cp bp (Suc n) sack = do {
     s \<leftarrow> opt_long cp bp; e \<leftarrow> opt_long cp (bp + 4);
     opt_blocks cp (bp + 8) n (sack @ [\<lparr>blk_start = s, blk_end = e\<rparr>]) }"

text \<open>The \<open>switch\<close>: the connection, the results, and \<open>mss_present\<close>.\<close>

definition opt_one :: "u8 \<Rightarrow> nat \<Rightarrow> u8 list \<Rightarrow> tcpst \<times> optres \<times> bool \<Rightarrow> (tcpst \<times> optres \<times> bool) option" where
  "opt_one flags optlen cp = (\<lambda>(st, o1, mssp).
     (let opt = unat (cp ! 0); t = tp st in
      if opt = 2 then
        (if optlen \<noteq> 4 \<or> \<not> hasf TH_SYN flags then Some (st, o1, mssp)
         else do { a \<leftarrow> opt_at cp 2; b \<leftarrow> opt_at cp 3;
                   Some (fst (tcp_mss (ucast (be16 a b)) st), o1, True) })
      else if opt = 3 then
        (if optlen \<noteq> 3 \<or> \<not> hasf TH_SYN flags then Some (st, o1, mssp)
         else do { w \<leftarrow> opt_at cp 2;
                   Some (st\<lparr>tp := t\<lparr>t_flags := t_flags t OR TF_RCVD_SCALE,
                                  requested_s_scale := min w TCP_MAX_WINSHIFT\<rparr>\<rparr>, o1, mssp) })
      else if opt = 4 then
        (if optlen \<noteq> 2 \<or> \<not> hasf TH_SYN flags \<or> \<not> tf TF_REQ_SACK t then Some (st, o1, mssp)
         else Some (st\<lparr>tp := t\<lparr>t_flags := t_flags t OR TF_SACK_PERMIT\<rparr>\<rparr>, o1, mssp))
      else if opt = 5 then
        (if \<not> tf TF_SACK_PERMIT t \<or> optlen < 10 \<or> (optlen - 2) mod 8 \<noteq> 0 then Some (st, o1, mssp)
         else do { bl \<leftarrow> opt_blocks cp 2 (min ((optlen - 2) div 8) (TCP_MAX_SACK - length (sack_in o1))) (sack_in o1);
                   Some (st, o1\<lparr>sack_in := bl\<rparr>, mssp) })
      else if opt = 8 then
        (if optlen \<noteq> 10 then Some (st, o1, mssp)
         else do { v \<leftarrow> opt_long cp 2; e \<leftarrow> opt_long cp 6;
                   Some (if hasf TH_SYN flags \<and> tf TF_REQ_TSTMP t
                         then st\<lparr>tp := t\<lparr>t_flags := t_flags t OR TF_RCVD_TSTMP, ts_recent := v,
                                ts_recent_age := tcp_now (glob st)\<rparr>\<rparr>
                         else st, o1\<lparr>ts_present := True, ts_val := v, ts_ecr := e\<rparr>, mssp) })
      else Some (st, o1, mssp)))"

lemma opt_len_bounds: "cp \<noteq> [] \<Longrightarrow> opt_len cp = Some n \<Longrightarrow> 0 < n \<and> n \<le> length cp"
  by (cases cp) (auto simp: opt_len_def Let_def split: if_splits)

function opt_walk :: "u8 \<Rightarrow> u8 list \<Rightarrow> tcpst \<times> optres \<times> bool \<Rightarrow> (tcpst \<times> optres \<times> bool) option" where
  "opt_walk flags cp s =
     (if cp = [] then Some s
      else (case opt_len cp of
              None \<Rightarrow> Some s
            | Some n \<Rightarrow> (case opt_one flags n cp s of
                None \<Rightarrow> None
              | Some s1 \<Rightarrow> opt_walk flags (drop n cp) s1)))"
  by pat_completeness auto
termination
  by (relation "measure (\<lambda>(flags, cp, s). length cp)") (auto dest: opt_len_bounds)

declare opt_walk.simps [simp del]

text \<open>
  The whole routine: the results start with \<open>*nsack = 0\<close>; the twelve bytes of the timestamp option
  are taken out of a segment size this segment has set. \<open>o0\<close> is what the caller's variables hold.
\<close>

definition tcp_dooptions :: "u8 \<Rightarrow> u8 list \<Rightarrow> optres \<Rightarrow> tcpst \<Rightarrow> (tcpst \<times> optres) option" where
  "tcp_dooptions flags om o0 st = do {
     (st1, o1, mssp) \<leftarrow> opt_walk flags om (st, o0\<lparr>sack_in := []\<rparr>, False);
     (let t = tp st1 in
      Some (if mssp \<and> t_flags t AND (TF_REQ_TSTMP OR TF_RCVD_TSTMP) = TF_REQ_TSTMP OR TF_RCVD_TSTMP
            then st1\<lparr>tp := t\<lparr>t_maxseg := t_maxseg t - 12\<rparr>\<rparr> else st1, o1)) }"

end
