(* ===== verification/Tcp_In.thy ===== *)
theory Tcp_In
  imports Tcp_Reass Tcp_Options
begin

text \<open>
  Received segments (\<open>tcp_input\<close>, \<open>netinet/tcp_input.c\<close>), first part: the state a segment meets, the
  ways a segment leaves the routine, header prediction, and the handshake. A segment comes in host
  order, with the IP and TCP headers and the options taken off its mbufs (\<open>ti_m\<close> is its data), and
  its control block found. The statistics, the trace, the wakeups and the events raised are not
  modelled.
\<close>

section \<open>State\<close>

text \<open>
  A connection: the control block with its socket's counters, the reassembly queue, the records of
  both socket buffers, the flags of \<open>so_state\<close> the routine uses, \<open>so_oobmark\<close>, and the two static
  counters of the challenge. \<open>mbufcheck\<close> is \<open>ng_mbufcheck_active\<close>.
\<close>

record inconn =
  cn :: tcpst
  rq :: "tseg list"
  sndq :: "vmbuf list list"
  rcvq :: "vmbuf list list"
  ss_nofdref :: bool
  ss_cantrcvmore :: bool
  ss_cantsendmore :: bool
  ss_isconnected :: bool
  ss_rcvatmark :: bool
  so_oobinline :: bool
  so_oobmark :: u32
  challenge_win :: u32
  challenge_cnt :: int
  mbufcheck :: bool

text \<open>
  The variables of the routine: the segment, \<open>tiflags\<close>, \<open>tiwin\<close>, \<open>rst_seq\<close>, what the options gave,
  \<open>needoutput\<close> and \<open>prr_prev_sacked\<close>.
\<close>

record invar =
  sg :: tseg
  tif :: u8
  tiwin :: u32
  rst_seq :: u32
  io :: optres
  needoutput :: bool
  prev_sacked :: u32

text \<open>
  What the rest of the stack answers: whether the segment was broadcast, \<open>m_get\<close>, \<open>in_pcbconnect\<close> and
  \<open>tcp_template\<close> succeed, what \<open>tcp_new_isn\<close> returns, and the switch \<open>tcp_do_rfc3042\<close>.
\<close>

record inenv =
  ie_bcast :: bool
  ie_mget :: bool
  ie_connect :: bool
  ie_template :: bool
  ie_isn :: u32
  ie_rfc3042 :: bool

text \<open>The panics of the routines called; a result that is \<open>None\<close> is a call that does not return.\<close>

datatype in_panic = Panic_output panic | Panic_sb sb_panic | Panic_mlen

type_synonym inres = "(in_panic + inconn) option"

text \<open>
  How a part of the routine ends: the next part, \<open>goto step6\<close>, a return, or \<open>goto findpcb\<close> with the
  initial sequence number for the new connection.
\<close>

datatype flow = Go inconn invar | Step6 inconn invar | Stop inres | Again u32 inconn invar

fun flow_bind :: "flow \<Rightarrow> (inconn \<Rightarrow> invar \<Rightarrow> flow) \<Rightarrow> flow" where
  "flow_bind (Go c v) f = f c v"
| "flow_bind (Step6 c v) f = Step6 c v"
| "flow_bind (Stop r) f = Stop r"
| "flow_bind (Again i c v) f = Again i c v"

fun res_bind :: "inres \<Rightarrow> (inconn \<Rightarrow> flow) \<Rightarrow> flow" where
  "res_bind None f = Stop None"
| "res_bind (Some (Inl p)) f = Stop (Some (Inl p))"
| "res_bind (Some (Inr c)) f = f c"

definition ctp :: "inconn \<Rightarrow> tcpcb" where
  "ctp c = tp (cn c)"

definition set_tp :: "tcpcb \<Rightarrow> inconn \<Rightarrow> inconn" where
  "set_tp t c = c\<lparr>cn := (cn c)\<lparr>tp := t\<rparr>\<rparr>"

definition csnd :: "inconn \<Rightarrow> sbuf" where
  "csnd c = (so_snd (sk (cn c)), sndq c)"

definition crcv :: "inconn \<Rightarrow> sbuf" where
  "crcv c = (so_rcv (sk (cn c)), rcvq c)"

definition set_snd :: "sbuf \<Rightarrow> inconn \<Rightarrow> inconn" where
  "set_snd s c = c\<lparr>cn := (cn c)\<lparr>sk := (sk (cn c))\<lparr>so_snd := fst s\<rparr>\<rparr>, sndq := snd s\<rparr>"

definition set_rcv :: "sbuf \<Rightarrow> inconn \<Rightarrow> inconn" where
  "set_rcv s c = c\<lparr>cn := (cn c)\<lparr>sk := (sk (cn c))\<lparr>so_rcv := fst s\<rparr>\<rparr>, rcvq := snd s\<rparr>"

definition now :: "inconn \<Rightarrow> u32" where
  "now c = tcp_now (glob (cn c))"

definition or_flags :: "u16 \<Rightarrow> tcpcb \<Rightarrow> tcpcb" where
  "or_flags f t = t\<lparr>t_flags := t_flags t OR f\<rparr>"

definition TSTMP_LT :: "u32 \<Rightarrow> u32 \<Rightarrow> bool" where
  "TSTMP_LT a b \<longleftrightarrow> sint (a - b) < 0"

definition TSTMP_GEQ :: "u32 \<Rightarrow> u32 \<Rightarrow> bool" where
  "TSTMP_GEQ a b \<longleftrightarrow> sint (a - b) \<ge> 0"

definition TCP_PAWS_IDLE :: int where "TCP_PAWS_IDLE = 24 * 24 * 60 * 60 * 2"
definition TCP_ISSINCR :: u32 where "TCP_ISSINCR = 125 * 1024"
definition TCPTV_MSL :: int where "TCPTV_MSL = 60"
definition TCPTV_KEEP_INIT :: int where "TCPTV_KEEP_INIT = 150"
definition TCP_CHALLENGE_ACK_LIMIT :: int where "TCP_CHALLENGE_ACK_LIMIT = 10"
definition TCPOOB_HAVEDATA :: u8 where "TCPOOB_HAVEDATA = 0x01"
definition TCPOOB_HADDATA :: u8 where "TCPOOB_HADDATA = 0x02"
definition ECONNABORTED :: int where "ECONNABORTED = 53"
definition ECONNRESET :: int where "ECONNRESET = 54"
definition ECONNREFUSED :: int where "ECONNREFUSED = 61"
definition TCPS_LISTEN :: nat where "TCPS_LISTEN = 1"
definition TCPS_SYN_SENT :: nat where "TCPS_SYN_SENT = 2"
definition TCPS_FIN_WAIT_1 :: nat where "TCPS_FIN_WAIT_1 = 6"
definition TCPS_CLOSING :: nat where "TCPS_CLOSING = 7"
definition TCPS_LAST_ACK :: nat where "TCPS_LAST_ACK = 8"
definition TCPS_FIN_WAIT_2 :: nat where "TCPS_FIN_WAIT_2 = 9"

section \<open>The ways out\<close>

definition in_output :: "inconn \<Rightarrow> inres" where
  "in_output c = map_option (\<lambda>r. case r of Inl p \<Rightarrow> Inl (Panic_output p) | Inr (st, _) \<Rightarrow> Inr (c\<lparr>cn := st\<rparr>))
     (tcp_output (cn c))"

definition in_close :: "inconn \<Rightarrow> inconn" where
  "in_close c = c\<lparr>cn := tcp_close (cn c)\<rparr>"

definition in_dropconn :: "int \<Rightarrow> inconn \<Rightarrow> inres" where
  "in_dropconn e c = map_option (map_sum Panic_output (\<lambda>st. c\<lparr>cn := st\<rparr>)) (tcp_drop e (cn c))"

definition in_drop :: "inconn \<Rightarrow> flow" where
  "in_drop c = Stop (Some (Inr c))"

definition in_ack_now :: "inconn \<Rightarrow> flow" where
  "in_ack_now c = Stop (in_output (set_tp (or_flags TF_ACKNOW (ctp c)) c))"

definition in_dropafterack :: "invar \<Rightarrow> inconn \<Rightarrow> flow" where
  "in_dropafterack v c = (if hasf TH_RST (tif v) then in_drop c else in_ack_now c)"

definition in_challenge :: "inconn \<Rightarrow> flow" where
  "in_challenge c =
     (let c1 = (if now c \<noteq> challenge_win c then c\<lparr>challenge_win := now c, challenge_cnt := 0\<rparr> else c);
          c2 = c1\<lparr>challenge_cnt := challenge_cnt c1 + 1\<rparr>
      in if challenge_cnt c2 > TCP_CHALLENGE_ACK_LIMIT then in_drop c2 else in_ack_now c2)"

text \<open>
  The segment \<open>tcp_respond\<close> sends in answer to one received; the window is that of the connection, 0
  without one.
\<close>

definition respond_win :: "tcpst \<Rightarrow> u16" where
  "respond_win st =
     (let win = sbspace (so_rcv (sk st)); lim = sint (push_bit (unat (rcv_scale (tp st))) TCP_MAXWIN)
      in word_of_int (drop_bit (unat (rcv_scale (tp st))) (if win > lim then lim else win)))"

definition reset_seg :: "u16 \<Rightarrow> invar \<Rightarrow> tcpseg" where
  "reset_seg win v =
     (let ti = sg v; f = tif v;
          len = (if hasf TH_SYN f then ti_len ti + 1 else ti_len ti);
          base = \<lparr>sg_seq = 0, sg_ack = 0, sg_flags = 0, sg_win = win, sg_urp = 0, sg_opt = [], sg_off = 0, sg_len = 0\<rparr>
      in if hasf TH_ACK f then base\<lparr>sg_seq := ti_ack ti, sg_flags := TH_RST\<rparr>
         else base\<lparr>sg_ack := ti_seq ti + scast len, sg_flags := TH_RST OR TH_ACK\<rparr>)"

text \<open>\<open>dropwithreset\<close>; \<open>gone\<close> says that \<open>tp\<close> is null.\<close>

definition in_reset :: "inenv \<Rightarrow> bool \<Rightarrow> invar \<Rightarrow> inconn \<Rightarrow> inconn" where
  "in_reset e gone v c =
     (if hasf TH_RST (tif v) \<or> ie_bcast e then c
      else let st = cn c in
        c\<lparr>cn := st\<lparr>net_i := net_i st + 1, segs := segs st @ [reset_seg (if gone then 0 else respond_win st) v]\<rparr>\<rparr>)"

definition in_dropwithreset :: "inenv \<Rightarrow> bool \<Rightarrow> invar \<Rightarrow> inconn \<Rightarrow> flow" where
  "in_dropwithreset e gone v c = in_drop (in_reset e gone v c)"

definition soisconnected :: "inconn \<Rightarrow> inconn" where
  "soisconnected c = c\<lparr>ss_isconnected := True\<rparr>"

definition soisdisconnected :: "inconn \<Rightarrow> inconn" where
  "soisdisconnected c = c\<lparr>ss_isconnected := False, ss_cantrcvmore := True, ss_cantsendmore := True\<rparr>"

definition socantrcvmore :: "inconn \<Rightarrow> inconn" where
  "socantrcvmore c = c\<lparr>ss_cantrcvmore := True\<rparr>"

text \<open>The reassembly calls on a connection.\<close>

definition in_reass_none :: "inconn \<Rightarrow> inconn" where
  "in_reass_none c = (case tcp_reass (ss_cantrcvmore c) None (ctp c, crcv c, rq c) of
     ((t, s, q), _) \<Rightarrow> (set_tp t (set_rcv s c))\<lparr>rq := q\<rparr>)"

definition in_reass :: "tseg \<Rightarrow> inconn \<Rightarrow> inconn \<times> u8" where
  "in_reass ti c = (case TCP_REASS (ss_cantrcvmore c) ti (ctp c, crcv c, rq c) of
     ((t, s, q), flags) \<Rightarrow> ((set_tp t (set_rcv s c))\<lparr>rq := q\<rparr>, flags))"

definition in_sbdrop :: "int \<Rightarrow> inconn \<Rightarrow> inres" where
  "in_sbdrop n c = Some (map_sum Panic_sb (\<lambda>s. set_snd s c) (sbdrop (mbufcheck c) n (csnd c)))"

section \<open>Arrival\<close>

text \<open>The options are \<open>om\<close>; in \<open>LISTEN\<close> they wait for the switch.\<close>

definition in_options :: "u8 list option \<Rightarrow> inconn \<Rightarrow> invar \<Rightarrow> flow" where
  "in_options om c v =
     (case om of
        None \<Rightarrow> Go c v
      | Some cp \<Rightarrow> (case tcp_dooptions (ti_flags (sg v)) cp (io v) (cn c) of
          None \<Rightarrow> Stop None
        | Some (st, o1) \<Rightarrow> Go (c\<lparr>cn := st\<rparr>) (v\<lparr>io := o1\<rparr>)))"

definition in_start :: "u8 list option \<Rightarrow> inconn \<Rightarrow> invar \<Rightarrow> flow" where
  "in_start om c v =
     (if t_state (ctp c) = TCPS_CLOSED then in_drop c
      else let t = set_timer TCPT_KEEP (word_of_int (tcp_keepidle (glob (cn c)))) ((ctp c)\<lparr>t_idle := 0\<rparr>) in
        flow_bind (if t_state t \<noteq> TCPS_LISTEN then in_options om (set_tp t c) v else Go (set_tp t c) v)
          (\<lambda>c1 v1. Go c1 (v1\<lparr>tiwin := push_bit (unat (snd_scale (ctp c1))) (ucast (ti_win (sg v1)))\<rparr>)))"

section \<open>Header prediction\<close>

definition tcp_winupd_ok :: "tcpcb \<Rightarrow> tseg \<Rightarrow> u32 \<Rightarrow> bool" where
  "tcp_winupd_ok t ti win \<longleftrightarrow> win \<noteq> snd_wnd t \<and> snd_wnd t \<noteq> 0 \<and>
     (SEQ_LT (snd_wl1 t) (ti_seq ti) \<or>
      snd_wl1 t = ti_seq ti \<and> (SEQ_LT (snd_wl2 t) (ti_ack ti) \<or> snd_wl2 t = ti_ack ti \<and> win > snd_wnd t))"

definition set_wnd :: "tseg \<Rightarrow> u32 \<Rightarrow> tcpcb \<Rightarrow> tcpcb" where
  "set_wnd ti win t = t\<lparr>snd_wnd := win, snd_wl1 := ti_seq ti, snd_wl2 := ti_ack ti,
     max_sndwnd := (if win > max_sndwnd t then win else max_sndwnd t)\<rparr>"

definition ack_rtt :: "u32 \<Rightarrow> invar \<Rightarrow> tcpcb \<Rightarrow> tcpcb" where
  "ack_rtt tnow v t =
     (if ts_present (io v) \<and> tf TF_RCVD_TSTMP t then tcp_xmit_timer (ucast (tnow - ts_ecr (io v) + 1)) t
      else if t_rtt t \<noteq> 0 \<and> SEQ_GT (ti_ack (sg v)) (t_rtseq t) then tcp_xmit_timer (t_rtt t) t
      else t)"

definition in_predicted :: "inconn \<Rightarrow> invar \<Rightarrow> bool" where
  "in_predicted c v \<longleftrightarrow> (let t = ctp c in
     t_state t = TCPS_ESTABLISHED \<and>
     tif v AND (TH_SYN OR TH_FIN OR TH_RST OR TH_URG OR TH_ACK) = TH_ACK \<and>
     (\<not> ts_present (io v) \<or> TSTMP_GEQ (ts_val (io v)) (ts_recent t)) \<and>
     ti_seq (sg v) = rcv_nxt t \<and> tiwin v \<noteq> 0 \<and> snd_nxt t = snd_max t \<and>
     sint (t_dupacks t) < int tcprexmtthresh \<and> \<not> tf TF_SACK_RECOVER t)"

text \<open>The update of \<open>ts_recent\<close>; \<open>n\<close> is the sequence space of the segment behind its data.\<close>

definition ts_update :: "u32 \<Rightarrow> u32 \<Rightarrow> invar \<Rightarrow> tcpcb \<Rightarrow> tcpcb" where
  "ts_update tnow n v t =
     (if ts_present (io v) \<and> SEQ_LEQ (ti_seq (sg v)) (last_ack_sent t) \<and>
         SEQ_LT (last_ack_sent t) (seg_fin (sg v) + n)
      then t\<lparr>ts_recent_age := tnow, ts_recent := ts_val (io v)\<rparr> else t)"

definition in_sack_blocks :: "invar \<Rightarrow> tcpcb \<Rightarrow> tcpcb" where
  "in_sack_blocks v t =
     (if tf TF_SACK_PERMIT t \<and> sack_in (io v) \<noteq> [] then tcp_sack_update t (sack_in (io v)) else t)"

definition output_if_data :: "inconn \<Rightarrow> flow" where
  "output_if_data c = Stop (if sb_cc (so_snd (sk (cn c))) \<noteq> 0 then in_output c else Some (Inr c))"

definition predict_ack :: "bool \<Rightarrow> inconn \<Rightarrow> invar \<Rightarrow> flow" where
  "predict_ack winupd c v =
     (let ti = sg v;
          t0 = (ctp c)\<lparr>t_dupacks := 0\<rparr>;
          t1 = (if winupd then set_wnd ti (tiwin v) t0 else t0);
          t2 = ack_rtt (now c) v t1;
          acked = sint (ti_ack ti - snd_una t2)
      in res_bind (in_sbdrop acked (set_tp t2 c)) (\<lambda>c1.
           let t3 = in_sack_blocks v ((ctp c1)\<lparr>snd_una := ti_ack ti\<rparr>);
               t4 = (if snd_una t3 = snd_max t3 then set_timer TCPT_REXMT 0 t3
                     else if t_timer t3 TCPT_PERSIST = 0 then set_timer TCPT_REXMT (t_rxtcur t3) t3 else t3)
           in output_if_data (set_tp t4 c1)))"

definition predict_win :: "inconn \<Rightarrow> invar \<Rightarrow> flow" where
  "predict_win c v =
     (let t1 = set_wnd (sg v) (tiwin v) ((ctp c)\<lparr>t_dupacks := 0\<rparr>)
      in output_if_data (set_tp (in_sack_blocks v t1) c))"

definition predict_data :: "inconn \<Rightarrow> invar \<Rightarrow> flow" where
  "predict_data c v =
     (let ti = sg v; t = ctp c;
          t1 = TCP_SETDELACK (t\<lparr>rcv_nxt := rcv_nxt t + scast (ti_len ti)\<rparr>);
          c1 = set_tp t1 (set_rcv (sbappend (crcv c) (ti_m ti)) c)
      in Stop (if tf TF_ACKNOW t1 then in_output c1 else Some (Inr c1)))"

definition in_predict :: "inconn \<Rightarrow> invar \<Rightarrow> flow" where
  "in_predict c v =
     (if in_predicted c v then
        (let ti = sg v; t = ts_update (now c) 0 v (ctp c); c1 = set_tp t c in
         if ti_len ti = 0 then
           (let winupd = tcp_winupd_ok t ti (tiwin v);
                newwnd = (if winupd then tiwin v else snd_wnd t)
            in if SEQ_GT (ti_ack ti) (snd_una t) \<and> SEQ_LEQ (ti_ack ti) (snd_max t) \<and>
                  (tiwin v = snd_wnd t \<or> winupd) \<and> snd_cwnd t \<ge> newwnd
               then predict_ack winupd c1 v
               else if ti_ack ti = snd_una t \<and> winupd then predict_win c1 v
               else Go c1 v)
         else if tiwin v = snd_wnd t \<and> ti_ack ti = snd_una t \<and> rq c1 = [] \<and>
                 sint (ti_len ti) \<le> sbspace (so_rcv (sk (cn c1)))
         then predict_data c1 v
         else Go c1 v)
      else Go c v)"

section \<open>The handshake\<close>

definition in_window :: "inconn \<Rightarrow> invar \<Rightarrow> flow" where
  "in_window c v =
     (let t = ctp c; win = max 0 (sbspace (so_rcv (sk (cn c))))
      in Go (set_tp (t\<lparr>rcv_wnd := w32 (max win (sint (rcv_adv t - rcv_nxt t)))\<rparr>) c) v)"

definition commit_scale :: "tcpcb \<Rightarrow> tcpcb" where
  "commit_scale t =
     (if t_flags t AND (TF_RCVD_SCALE OR TF_REQ_SCALE) = TF_RCVD_SCALE OR TF_REQ_SCALE
      then t\<lparr>snd_scale := requested_s_scale t, rcv_scale := request_r_scale t\<rparr> else t)"

definition in_trim6 :: "inconn \<Rightarrow> invar \<Rightarrow> flow" where
  "in_trim6 c v =
     (let t = ctp c; ti = (sg v)\<lparr>ti_seq := ti_seq (sg v) + 1\<rparr>;
          long = (ucast (ti_len ti) :: u32) > rcv_wnd t;
          todrop = sint (scast (ti_len ti) - rcv_wnd t);
          ti1 = (if long then ti\<lparr>ti_m := vm_adj (- todrop) (ti_m ti), ti_len := ucast (rcv_wnd t)\<rparr> else ti);
          f = (if long then tif v AND NOT TH_FIN else tif v)
      in Step6 (set_tp (t\<lparr>snd_wl1 := ti_seq ti - 1, rcv_up := ti_seq ti\<rparr>) c) (v\<lparr>sg := ti1, tif := f\<rparr>))"

text \<open>The temporary socket of a refused connection request is aborted.\<close>

definition in_abort :: "inconn \<Rightarrow> flow" where
  "in_abort c = Stop (in_dropconn ECONNABORTED c)"

definition in_listen :: "inenv \<Rightarrow> u32 \<Rightarrow> u8 list option \<Rightarrow> inconn \<Rightarrow> invar \<Rightarrow> flow" where
  "in_listen e start om c v =
     (let ti = sg v; f = tif v in
      if hasf TH_RST f then in_abort c
      else if hasf TH_ACK f then in_abort (in_reset e False v c)
      else if \<not> hasf TH_SYN f then in_abort c
      else if ie_bcast e then in_abort c
      else if \<not> ie_mget e \<or> \<not> ie_connect e then in_abort c
      else if \<not> ie_template e then Stop (in_dropconn ENOBUFS c)
      else flow_bind (in_options om c v) (\<lambda>c1 v1.
        let t = ctp c1; i = (if start \<noteq> 0 then start else ie_isn e);
            t1 = t\<lparr>iss := i, irs := ti_seq ti, snd_una := i, snd_nxt := i, snd_max := i, snd_up := i,
                   rcv_adv := ti_seq ti + 1, rcv_nxt := ti_seq ti + 1\<rparr>;
            t2 = (or_flags TF_ACKNOW t1)\<lparr>t_state := TCPS_SYN_RECEIVED\<rparr>
        in in_trim6 (set_tp (set_timer TCPT_KEEP (word_of_int TCPTV_KEEP_INIT) t2) c1) v1))"

definition in_synsent :: "inenv \<Rightarrow> inconn \<Rightarrow> invar \<Rightarrow> flow" where
  "in_synsent e c v =
     (let ti = sg v; f = tif v; t = ctp c in
      if hasf TH_ACK f \<and> (SEQ_LEQ (ti_ack ti) (iss t) \<or> SEQ_GT (ti_ack ti) (snd_max t))
      then in_dropwithreset e False v c
      else if hasf TH_RST f then (if hasf TH_ACK f then Stop (in_dropconn ECONNREFUSED c) else in_drop c)
      else if \<not> hasf TH_SYN f then in_drop c
      else let t1 = (if hasf TH_ACK f
                     then (let u = t\<lparr>snd_una := ti_ack ti\<rparr> in
                           if SEQ_LT (snd_nxt u) (snd_una u) then u\<lparr>snd_nxt := snd_una u\<rparr> else u)
                     else t);
               t2 = or_flags TF_ACKNOW ((set_timer TCPT_REXMT 0 t1)\<lparr>irs := ti_seq ti,
                      rcv_adv := ti_seq ti + 1, rcv_nxt := ti_seq ti + 1\<rparr>)
        in if hasf TH_ACK f \<and> SEQ_GT (snd_una t2) (iss t2)
           then (let c1 = in_reass_none (set_tp (commit_scale (t2\<lparr>t_state := TCPS_ESTABLISHED\<rparr>)) (soisconnected c));
                     t3 = ctp c1
                 in in_trim6 (set_tp (if t_rtt t3 \<noteq> 0 then tcp_xmit_timer (t_rtt t3) t3 else t3) c1) v)
           else in_trim6 (set_tp (t2\<lparr>t_state := TCPS_SYN_RECEIVED\<rparr>) c) v)"

end
