(* ===== verification/Tcp_Input.thy ===== *)
theory Tcp_Input
  imports Tcp_In
begin

text \<open>
  Received segments (\<open>tcp_input\<close>, \<open>netinet/tcp_input.c\<close>), second part: acceptability, resets,
  acknowledgements with loss recovery, the window, urgent data, the text and FIN, and the whole
  routine.
\<close>

section \<open>Acceptability\<close>

definition in_paws :: "inconn \<Rightarrow> invar \<Rightarrow> flow" where
  "in_paws c v =
     (let t = ctp c in
      if ts_present (io v) \<and> \<not> hasf TH_RST (tif v) \<and> tf TF_RCVD_TSTMP t \<and> TSTMP_LT (ts_val (io v)) (ts_recent t)
      then (if sint (now c - ts_recent_age t) > TCP_PAWS_IDLE then Go (set_tp (t\<lparr>ts_recent := 0\<rparr>) c) v
            else in_dropafterack v c)
      else Go c v)"

text \<open>The duplicate part of a segment, with its SYN; \<open>todrop\<close> is the count that the code has left.\<close>

definition left_cut :: "int \<Rightarrow> invar \<Rightarrow> invar" where
  "left_cut todrop v =
     (let ti = seg_skip todrop (sg v); urg = int (unat (ti_urp ti)) > todrop
      in v\<lparr>sg := ti\<lparr>ti_urp := (if urg then ti_urp ti - word_of_int todrop else 0)\<rparr>,
           tif := (if urg then tif v else tif v AND NOT TH_URG)\<rparr>)"

definition left_syn :: "int \<Rightarrow> invar \<Rightarrow> int \<times> invar" where
  "left_syn todrop v =
     (if hasf TH_SYN (tif v) then
        (let ti = (sg v)\<lparr>ti_seq := ti_seq (sg v) + 1\<rparr>; f = tif v AND NOT TH_SYN in
         (todrop - 1,
          if unat (ti_urp ti) > 1 then v\<lparr>sg := ti\<lparr>ti_urp := ti_urp ti - 1\<rparr>, tif := f\<rparr>
          else v\<lparr>sg := ti, tif := f AND NOT TH_URG\<rparr>))
      else (todrop, v))"

definition in_left :: "inconn \<Rightarrow> invar \<Rightarrow> flow" where
  "in_left c v0 =
     (let v = v0\<lparr>rst_seq := ti_seq (sg v0)\<rparr>; t = ctp c; todrop0 = sint (rcv_nxt t - ti_seq (sg v)) in
      if todrop0 > 0 then
        (case left_syn todrop0 v of (todrop, v1) \<Rightarrow>
           let ti = sg v1; len = sint (ti_len ti); fin = hasf TH_FIN (tif v1) in
           if todrop > len \<or> todrop = len \<and> \<not> fin then
             (if fin \<and> todrop = len + 1
              then Go (set_tp (or_flags TF_ACKNOW t) c) (left_cut len (v1\<lparr>tif := tif v1 AND NOT TH_FIN\<rparr>))
              else in_dropafterack v1
                     (if tf TF_SACK_PERMIT t \<and> len > 0
                      then set_tp (or_flags (TF_DSACK OR TF_ACKNOW) (t\<lparr>rcv_dsackblk := blk (ti_seq ti) (seg_fin ti)\<rparr>)) c
                      else c))
           else Go c (left_cut todrop v1))
      else Go c v)"

definition in_gone :: "inenv \<Rightarrow> inconn \<Rightarrow> invar \<Rightarrow> flow" where
  "in_gone e c v =
     (if ss_nofdref c \<and> t_state (ctp c) > TCPS_CLOSE_WAIT \<and> ti_len (sg v) \<noteq> 0
      then in_dropwithreset e True v (in_close c) else Go c v)"

definition right_cut :: "int \<Rightarrow> invar \<Rightarrow> invar" where
  "right_cut todrop v =
     (let ti = sg v in
      v\<lparr>sg := ti\<lparr>ti_m := vm_adj (- todrop) (ti_m ti), ti_len := ti_len ti - word_of_int todrop\<rparr>,
        tif := tif v AND NOT (TH_PUSH OR TH_FIN)\<rparr>)"

definition in_right :: "inconn \<Rightarrow> invar \<Rightarrow> flow" where
  "in_right c v =
     (let t = ctp c; ti = sg v; todrop = sint (seg_fin ti - (rcv_nxt t + rcv_wnd t)) in
      if todrop > 0 then
        (if todrop \<ge> sint (ti_len ti) then
           (if hasf TH_SYN (tif v) \<and> t_state t = TCPS_TIME_WAIT \<and> SEQ_GT (ti_seq ti) (rcv_nxt t)
            then Again (rcv_nxt t + TCP_ISSINCR) (in_close c) v
            else if rcv_wnd t = 0 \<and> ti_seq ti = rcv_nxt t
            then Go (set_tp (or_flags TF_ACKNOW t) c) (right_cut todrop v)
            else in_dropafterack v c)
         else Go c (right_cut todrop v))
      else Go c v)"

definition in_tsrecent :: "inconn \<Rightarrow> invar \<Rightarrow> flow" where
  "in_tsrecent c v = Go (set_tp (ts_update (now c) (if hasf (TH_SYN OR TH_FIN) (tif v) then 1 else 0) v (ctp c)) c) v"

section \<open>Resets\<close>

definition set_error :: "int \<Rightarrow> inconn \<Rightarrow> inconn" where
  "set_error err c = c\<lparr>cn := (cn c)\<lparr>sk := (sk (cn c))\<lparr>so_error := err\<rparr>\<rparr>\<rparr>"

definition rst_close :: "int \<Rightarrow> inconn \<Rightarrow> flow" where
  "rst_close err c = in_drop (in_close (set_tp ((ctp c)\<lparr>t_state := TCPS_CLOSED\<rparr>) (set_error err c)))"

definition in_rst :: "inconn \<Rightarrow> invar \<Rightarrow> flow" where
  "in_rst c v =
     (if hasf TH_RST (tif v) then
        (let n = t_state (ctp c) in
         if rst_seq v \<noteq> rcv_nxt (ctp c) then in_challenge c
         else if n = TCPS_SYN_RECEIVED then rst_close ECONNREFUSED c
         else if n \<in> {TCPS_ESTABLISHED, TCPS_FIN_WAIT_1, TCPS_FIN_WAIT_2, TCPS_CLOSE_WAIT} then rst_close ECONNRESET c
         else if n \<in> {TCPS_CLOSING, TCPS_LAST_ACK, TCPS_TIME_WAIT} then in_drop (in_close c)
         else Go c v)
      else Go c v)"

definition in_syn :: "inconn \<Rightarrow> invar \<Rightarrow> flow" where
  "in_syn c v =
     (if hasf TH_SYN (tif v) then in_challenge c
      else if \<not> hasf TH_ACK (tif v) then in_drop c
      else Go c v)"

section \<open>Acknowledgements\<close>

definition in_sack :: "inconn \<Rightarrow> invar \<Rightarrow> flow" where
  "in_sack c v =
     (let t = ctp c in
      if tf TF_SACK_PERMIT t then
        Go (set_tp (tcp_sack_update t (sack_in (io v))) c)
           (if tf TF_SACK_RECOVER t then v\<lparr>prev_sacked := tcp_sack_snd_bytes_above t (snd_una t)\<rparr> else v)
      else Go c v)"

definition in_synrcvd :: "inenv \<Rightarrow> inconn \<Rightarrow> invar \<Rightarrow> flow" where
  "in_synrcvd e c v =
     (let t = ctp c; ti = sg v in
      if t_state t = TCPS_SYN_RECEIVED then
        (if SEQ_GT (snd_una t) (ti_ack ti) \<or> SEQ_GT (ti_ack ti) (snd_max t) then in_dropwithreset e False v c
         else let t1 = commit_scale (t\<lparr>t_state := TCPS_ESTABLISHED\<rparr>);
                  v1 = (if t_flags t AND (TF_RCVD_SCALE OR TF_REQ_SCALE) = TF_RCVD_SCALE OR TF_REQ_SCALE
                        then v\<lparr>tiwin := push_bit (unat (snd_scale t1)) (ucast (ti_win ti))\<rparr> else v);
                  c1 = in_reass_none (set_tp t1 (soisconnected c))
           in Go (set_tp ((ctp c1)\<lparr>snd_wl1 := ti_seq ti - 1\<rparr>) c1) v1)
      else Go c v)"

text \<open>\<open>tcp_output\<close> and \<open>goto drop\<close>, with something done to the control block in between.\<close>

definition output_drop :: "(tcpcb \<Rightarrow> tcpcb) \<Rightarrow> inconn \<Rightarrow> flow" where
  "output_drop f c = res_bind (in_output c) (\<lambda>c1. in_drop (set_tp (f (ctp c1)) c1))"

definition seg32 :: "tcpcb \<Rightarrow> u32" where
  "seg32 t = ucast (t_maxseg t)"

text \<open>The third duplicate acknowledgement.\<close>

definition fast_ssthresh :: "tcpcb \<Rightarrow> u32" where
  "fast_ssthresh t = (let win = min (snd_wnd t) (snd_cwnd t) div 2 div seg32 t in (if win < 2 then 2 else win) * seg32 t)"

definition sack_enter :: "tcpcb \<Rightarrow> tcpcb" where
  "sack_enter t =
     (let fs = snd_max t - snd_una t
      in t\<lparr>snd_cwnd := snd_ssthresh t, snd_recover := snd_max t, snd_highrxt := snd_una t,
           prr_delivered := 0, prr_out := 0, prr_recoverfs := (if fs < seg32 t then seg32 t else fs),
           t_flags := (t_flags t OR TF_SACK_RECOVER) AND NOT TF_SACK_RESCUE\<rparr>)"

definition fast_rexmt :: "tcpcb \<Rightarrow> tseg \<Rightarrow> inconn \<Rightarrow> flow" where
  "fast_rexmt t0 ti c =
     (let onxt = snd_nxt t0;
          t = (set_timer TCPT_REXMT 0 (t0\<lparr>snd_ssthresh := fast_ssthresh t0\<rparr>))\<lparr>t_rtt := 0\<rparr>
      in if tf TF_SACK_PERMIT t \<and> snd_nxt t = snd_max t then output_drop id (set_tp (sack_enter t) c)
         else output_drop
           (\<lambda>t2. let t3 = t2\<lparr>snd_cwnd := snd_ssthresh t2 + seg32 t2 * w32 (sint (t_dupacks t2))\<rparr>
                 in if SEQ_GT onxt (snd_nxt t3) then t3\<lparr>snd_nxt := onxt\<rparr> else t3)
           (set_tp (t\<lparr>snd_recover := onxt, snd_nxt := ti_ack ti, snd_cwnd := seg32 t\<rparr>) c))"

text \<open>An acknowledgement at or below \<open>snd_una\<close>; \<open>Go\<close> is the \<open>break\<close> that leads to \<open>step6\<close>.\<close>

definition in_dupack :: "inenv \<Rightarrow> inconn \<Rightarrow> invar \<Rightarrow> flow" where
  "in_dupack e c v =
     (let t = ctp c; ti = sg v in
      if ti_len ti = 0 \<and> tiwin v = snd_wnd t then
        (if tf TF_SACK_RECOVER t then output_drop id (set_tp (tcp_sack_prr_ack t 0 (prev_sacked v)) c)
         else if t_timer t TCPT_REXMT = 0 \<or> ti_ack ti \<noteq> snd_una t then Step6 (set_tp (t\<lparr>t_dupacks := 0\<rparr>) c) v
         else let t1 = t\<lparr>t_dupacks := t_dupacks t + 1\<rparr>; n = sint (t_dupacks t1) in
           if n = int tcprexmtthresh then fast_rexmt t1 ti c
           else if n > int tcprexmtthresh
           then output_drop id (set_tp (t1\<lparr>snd_cwnd := snd_cwnd t1 + seg32 t1\<rparr>) c)
           else if ie_rfc3042 e
           then output_drop (\<lambda>t2. t2\<lparr>snd_cwnd := snd_cwnd t1\<rparr>)
                  (set_tp (t1\<lparr>snd_cwnd := snd_cwnd t1 + w32 n * seg32 t1\<rparr>) c)
           else Step6 (set_tp t1 c) v)
      else let t1 = (if tf TF_SACK_RECOVER t then tcp_sack_prr_ack t 0 (prev_sacked v) else t)
        in Step6 (set_tp (t1\<lparr>t_dupacks := 0\<rparr>) c) v)"

text \<open>The state of fast recovery at a new acknowledgement: whether it is a partial one.\<close>

definition ack_partial :: "tcpcb \<Rightarrow> tseg \<Rightarrow> bool" where
  "ack_partial t ti \<longleftrightarrow> \<not> tf TF_SACK_RECOVER t \<and> sint (t_dupacks t) \<ge> int tcprexmtthresh \<and> SEQ_LT (ti_ack ti) (snd_recover t)"

definition ack_deflate :: "tcpcb \<Rightarrow> tcpcb" where
  "ack_deflate t =
     (if sint (t_dupacks t) > int tcprexmtthresh \<and> snd_cwnd t > snd_ssthresh t
      then t\<lparr>snd_cwnd := snd_ssthresh t, t_dupacks := 0\<rparr> else t\<lparr>t_dupacks := 0\<rparr>)"

definition ack_timer :: "tseg \<Rightarrow> tcpcb \<Rightarrow> tcpcb" where
  "ack_timer ti t =
     (if ti_ack ti = snd_max t then set_timer TCPT_REXMT 0 t
      else if t_timer t TCPT_PERSIST = 0 then set_timer TCPT_REXMT (t_rxtcur t) t else t)"

definition ack_open :: "tcpcb \<Rightarrow> tcpcb" where
  "ack_open t =
     (let cw = snd_cwnd t; seg = seg32 t;
          incr = (if cw > snd_ssthresh t then seg * seg div cw + seg div 8 else seg)
      in t\<lparr>snd_cwnd := min (cw + incr) (push_bit (unat (snd_scale t)) TCP_MAXWIN)\<rparr>)"

text \<open>The acknowledged data leave the send buffer; the result says whether our FIN is acknowledged.\<close>

definition ack_drop :: "u32 \<Rightarrow> inconn \<Rightarrow> bool \<times> inres" where
  "ack_drop acked c =
     (let cc = sb_cc (so_snd (sk (cn c))); t = ctp c in
      if acked > cc then (True, in_sbdrop (sint cc) (set_tp (t\<lparr>snd_wnd := snd_wnd t - cc\<rparr>) c))
      else (False, map_option (map_sum id (\<lambda>c1. set_tp ((ctp c1)\<lparr>snd_wnd := snd_wnd (ctp c1) - acked\<rparr>) c1))
             (in_sbdrop (sint acked) c)))"

definition ack_una :: "tseg \<Rightarrow> tcpcb \<Rightarrow> tcpcb" where
  "ack_una ti t =
     (let u = t\<lparr>snd_una := ti_ack ti\<rparr> in if SEQ_LT (snd_nxt u) (snd_una u) then u\<lparr>snd_nxt := snd_una u\<rparr> else u)"

text \<open>SACK recovery at a new acknowledgement; the second result is \<open>needoutput\<close>.\<close>

definition ack_recover :: "u32 \<Rightarrow> u32 \<Rightarrow> tcpcb \<Rightarrow> tcpcb \<times> bool" where
  "ack_recover acked prev t =
     (if tf TF_SACK_RECOVER t then
        (if SEQ_GEQ (snd_una t) (snd_recover t)
         then (t\<lparr>t_flags := t_flags t AND NOT TF_SACK_RECOVER, snd_sackblks := [], snd_cwnd := snd_ssthresh t\<rparr>, False)
         else let t1 = (if SEQ_LT (snd_highrxt t) (snd_una t) then t\<lparr>snd_highrxt := snd_una t\<rparr> else t)
           in (tcp_sack_prr_ack t1 acked prev, True))
      else (t, False))"

text \<open>NewReno's answer to a partial acknowledgement.\<close>

definition partial_cwnd :: "u32 \<Rightarrow> u32 \<Rightarrow> u32 \<Rightarrow> u32" where
  "partial_cwnd cw0 acked seg =
     (let cw1 = (if cw0 > acked then cw0 - acked else 0);
          cw2 = (if acked \<ge> seg then cw1 + seg else cw1)
      in if cw2 < seg then seg else cw2)"

definition in_partial :: "u32 \<Rightarrow> inconn \<Rightarrow> inres" where
  "in_partial acked c =
     (let t = ctp c; onxt = snd_nxt t; cw = snd_cwnd t in
      map_option (map_sum id (\<lambda>c1.
          let t1 = (if SEQ_GT onxt (snd_nxt (ctp c1)) then (ctp c1)\<lparr>snd_nxt := onxt\<rparr> else ctp c1)
          in set_tp (t1\<lparr>snd_cwnd := partial_cwnd cw acked (seg32 t1)\<rparr>) c1))
        (in_output (set_tp (t\<lparr>t_rtt := 0, snd_nxt := snd_una t, snd_cwnd := seg32 t\<rparr>) c)))"

text \<open>The states that wait for the acknowledgement of our FIN.\<close>

definition set_timewait :: "tcpcb \<Rightarrow> tcpcb" where
  "set_timewait t = set_timer TCPT_2MSL (word_of_int (2 * TCPTV_MSL)) (tcp_canceltimers (t\<lparr>t_state := TCPS_TIME_WAIT\<rparr>))"

definition in_finacked :: "bool \<Rightarrow> inconn \<Rightarrow> invar \<Rightarrow> flow" where
  "in_finacked fin c v =
     (let t = ctp c; n = t_state t in
      if n = TCPS_FIN_WAIT_1 \<and> fin then
        (let c1 = (if ss_cantrcvmore c
                   then set_tp (set_timer TCPT_2MSL (word_of_int (tcp_maxidle (glob (cn c)))) t) (soisdisconnected c)
                   else c)
         in Step6 (set_tp ((ctp c1)\<lparr>t_state := TCPS_FIN_WAIT_2\<rparr>) c1) v)
      else if n = TCPS_CLOSING \<and> fin then Step6 (set_tp (set_timewait t) (soisdisconnected c)) v
      else if n = TCPS_LAST_ACK \<and> fin then in_drop (in_close c)
      else if n = TCPS_TIME_WAIT
      then in_dropafterack v (set_tp (set_timer TCPT_2MSL (word_of_int (2 * TCPTV_MSL)) t) c)
      else Step6 c v)"

text \<open>A new acknowledgement: before the data leave the buffer, and after.\<close>

definition ack_ready :: "bool \<Rightarrow> u32 \<Rightarrow> invar \<Rightarrow> tcpcb \<Rightarrow> tcpcb" where
  "ack_ready partial tnow v t =
     (let t1 = ack_timer (sg v) (ack_rtt tnow v t) in if \<not> tf TF_SACK_RECOVER t1 \<and> \<not> partial then ack_open t1 else t1)"

definition in_acked :: "bool \<Rightarrow> bool \<Rightarrow> u32 \<Rightarrow> invar \<Rightarrow> inconn \<Rightarrow> flow" where
  "in_acked fin partial acked v c =
     (case ack_recover acked (prev_sacked v) (ack_una (sg v) (ctp c)) of (t, n) \<Rightarrow>
        res_bind (if partial then in_partial acked (set_tp t c) else Some (Inr (set_tp t c)))
          (\<lambda>c1. in_finacked fin c1 (v\<lparr>needoutput := needoutput v \<or> n \<or> partial\<rparr>)))"

definition in_newack :: "inconn \<Rightarrow> invar \<Rightarrow> flow" where
  "in_newack c v =
     (let ti = sg v; t = ctp c;
          partial = ack_partial t ti;
          t1 = (if partial then t else ack_deflate t);
          acked = ti_ack ti - snd_una t1
      in if SEQ_GT (ti_ack ti) (snd_max t1) then in_dropafterack v (set_tp t1 c)
         else (case ack_drop acked (set_tp (ack_ready partial (now c) v t1) c) of (fin, r) \<Rightarrow>
           res_bind r (in_acked fin partial acked (v\<lparr>needoutput := needoutput v \<or> ti_ack ti = snd_max t1\<rparr>))))"

definition in_ack :: "inenv \<Rightarrow> inconn \<Rightarrow> invar \<Rightarrow> flow" where
  "in_ack e c v =
     (if t_state (ctp c) < TCPS_ESTABLISHED then Step6 c v
      else if SEQ_LEQ (ti_ack (sg v)) (snd_una (ctp c)) then in_dupack e c v
      else in_newack c v)"

section \<open>From \<open>step6\<close> on\<close>

definition in_winup :: "inconn \<Rightarrow> invar \<Rightarrow> inconn \<times> invar" where
  "in_winup c v =
     (let t = ctp c; ti = sg v in
      if hasf TH_ACK (tif v) \<and>
         (SEQ_LT (snd_wl1 t) (ti_seq ti) \<or>
          snd_wl1 t = ti_seq ti \<and>
            (SEQ_LT (snd_wl2 t) (ti_ack ti) \<or> snd_wl2 t = ti_ack ti \<and> tiwin v > snd_wnd t))
      then (set_tp (set_wnd ti (tiwin v) t) c, v\<lparr>needoutput := True\<rparr>)
      else (c, v))"

text \<open>\<open>tcp_pulloutofband\<close>: the byte at \<open>cnt\<close> and the chain without it.\<close>

fun pull_byte :: "nat \<Rightarrow> vmbuf list \<Rightarrow> (u8 \<times> vmbuf list) option" where
  "pull_byte cnt [] = None"
| "pull_byte cnt (m # ms) =
     (if vm_len m > cnt
      then Some (vm_data m ! cnt,
             m\<lparr>vm_data := take cnt (vm_data m) @ drop (cnt + 1) (vm_data m), vm_room := vm_room m + 1\<rparr> # ms)
      else map_option (map_prod id ((#) m)) (pull_byte (cnt - vm_len m) ms))"

definition tcp_pulloutofband :: "tseg \<Rightarrow> tcpcb \<Rightarrow> tcpcb \<times> tseg" where
  "tcp_pulloutofband ti t =
     (if ti_urp ti = 0 then (t, ti)
      else case pull_byte (unat (ti_urp ti) - 1) (ti_m ti) of
        None \<Rightarrow> (t, ti)
      | Some (b, m) \<Rightarrow> (t\<lparr>t_iobc := b, t_oobflags := t_oobflags t OR TCPOOB_HAVEDATA\<rparr>, ti\<lparr>ti_m := m\<rparr>))"

definition urg_mark :: "tseg \<Rightarrow> inconn \<Rightarrow> inconn" where
  "urg_mark ti c =
     (let t = ctp c; up = ti_seq ti + ucast (ti_urp ti) in
      if SEQ_GT up (rcv_up t) then
        (let mark = sb_cc (so_rcv (sk (cn c))) + (up - rcv_nxt t) - 1;
             c1 = c\<lparr>so_oobmark := mark, ss_rcvatmark := ss_rcvatmark c \<or> mark = 0\<rparr>
         in set_tp (t\<lparr>rcv_up := up, t_oobflags := t_oobflags t AND NOT (TCPOOB_HAVEDATA OR TCPOOB_HADDATA)\<rparr>) c1)
      else c)"

definition in_urg :: "inconn \<Rightarrow> invar \<Rightarrow> inconn \<times> invar" where
  "in_urg c v =
     (let t = ctp c; ti = sg v in
      if hasf TH_URG (tif v) \<and> ti_urp ti \<noteq> 0 \<and> t_state t < TCPS_TIME_WAIT then
        (if (ucast (ti_urp ti) :: u32) + sb_cc (so_rcv (sk (cn c))) > g_sb_max (glob (cn c))
         then (c, v\<lparr>sg := ti\<lparr>ti_urp := 0\<rparr>, tif := tif v AND NOT TH_URG\<rparr>)
         else let c1 = urg_mark ti c in
           if unat (ti_urp ti) \<le> unat (ti_len ti) \<and> \<not> so_oobinline c1
           then (case tcp_pulloutofband ti (ctp c1) of (t1, ti1) \<Rightarrow> (set_tp t1 c1, v\<lparr>sg := ti1\<rparr>))
           else (c1, v))
      else (if SEQ_GT (rcv_nxt t) (rcv_up t) then set_tp (t\<lparr>rcv_up := rcv_nxt t\<rparr>) c else c, v))"

text \<open>The text: \<open>tiflags\<close> comes back as what \<open>TCP_REASS\<close> says of FIN.\<close>

definition in_text :: "inconn \<Rightarrow> invar \<Rightarrow> inconn \<times> invar" where
  "in_text c v =
     (if (ti_len (sg v) \<noteq> 0 \<or> hasf TH_FIN (tif v)) \<and> t_state (ctp c) < TCPS_TIME_WAIT
      then (case in_reass (sg v) c of (c1, flags) \<Rightarrow> (c1, v\<lparr>tif := flags\<rparr>))
      else (c, v\<lparr>tif := tif v AND NOT TH_FIN\<rparr>))"

definition in_fin :: "inconn \<Rightarrow> invar \<Rightarrow> inconn" where
  "in_fin c v =
     (if hasf TH_FIN (tif v) then
        (let c1 = (if t_state (ctp c) < TCPS_TIME_WAIT
                   then set_tp (let t = or_flags TF_ACKNOW (ctp c) in t\<lparr>rcv_nxt := rcv_nxt t + 1\<rparr>) (socantrcvmore c)
                   else c);
             t = ctp c1; n = t_state t
         in if n = TCPS_SYN_RECEIVED \<or> n = TCPS_ESTABLISHED then set_tp (t\<lparr>t_state := TCPS_CLOSE_WAIT\<rparr>) c1
            else if n = TCPS_FIN_WAIT_1 then set_tp (t\<lparr>t_state := TCPS_CLOSING\<rparr>) c1
            else if n = TCPS_FIN_WAIT_2 then set_tp (set_timewait t) (soisdisconnected c1)
            else if n = TCPS_TIME_WAIT then set_tp (set_timer TCPT_2MSL (word_of_int (2 * TCPTV_MSL)) t) c1
            else c1)
      else c)"

definition in_step6 :: "inconn \<Rightarrow> invar \<Rightarrow> inres" where
  "in_step6 c0 v0 =
     (case in_winup c0 v0 of (c1, v1) \<Rightarrow>
      case in_urg c1 v1 of (c2, v2) \<Rightarrow>
      case in_text c2 v2 of (c3, v3) \<Rightarrow>
        (let c4 = in_fin c3 v3 in
         if needoutput v3 \<or> tf TF_ACKNOW (ctp c4) then in_output c4 else Some (Inr c4)))"

section \<open>The whole routine\<close>

text \<open>The checks of a synchronised connection, in their order.\<close>

definition in_synced :: "inenv \<Rightarrow> inconn \<Rightarrow> invar \<Rightarrow> flow" where
  "in_synced e c v =
     flow_bind (in_paws c v) (\<lambda>c v.
     flow_bind (in_left c v) (\<lambda>c v.
     flow_bind (in_gone e c v) (\<lambda>c v.
     flow_bind (in_right c v) (\<lambda>c v.
     flow_bind (in_tsrecent c v) (\<lambda>c v.
     flow_bind (in_rst c v) (\<lambda>c v.
     flow_bind (in_syn c v) (\<lambda>c v.
     flow_bind (in_sack c v) (\<lambda>c v.
     flow_bind (in_synrcvd e c v) (\<lambda>c v. in_ack e c v)))))))))"

definition in_switch :: "inenv \<Rightarrow> u32 \<Rightarrow> u8 list option \<Rightarrow> inconn \<Rightarrow> invar \<Rightarrow> flow" where
  "in_switch e start om c v =
     (if t_state (ctp c) = TCPS_LISTEN then in_listen e start om c v
      else if t_state (ctp c) = TCPS_SYN_SENT then in_synsent e c v
      else in_synced e c v)"

text \<open>From the control block found to \<open>step6\<close> or a return.\<close>

definition in_found :: "inenv \<Rightarrow> u32 \<Rightarrow> u8 list option \<Rightarrow> inconn \<Rightarrow> invar \<Rightarrow> flow" where
  "in_found e start om c v =
     flow_bind (in_start om c v) (\<lambda>c v.
     flow_bind (in_predict c v) (\<lambda>c v.
     flow_bind (in_window c v) (\<lambda>c v. in_switch e start om c v)))"

text \<open>
  What \<open>in_pcblookup\<close>, the access control and \<open>sonewconn\<close> find for a segment: a connection, the new
  one of a listening socket, in \<open>LISTEN\<close>, or a listening socket that access control denies.
\<close>

datatype found = No_pcb | Denied tcpst | No_socket | Found inconn

text \<open>What becomes of a segment: nothing, a reset of no connection, or a new state of a connection.\<close>

datatype outcome = Ignored | Reset tcpseg | Conn inres

definition lost_reset :: "inenv \<Rightarrow> u16 \<Rightarrow> invar \<Rightarrow> outcome" where
  "lost_reset e win v = (if hasf TH_RST (tif v) \<or> ie_bcast e then Ignored else Reset (reset_seg win v))"

fun in_end :: "flow \<Rightarrow> outcome" where
  "in_end (Go c v) = Conn (in_step6 c v)"
| "in_end (Step6 c v) = Conn (in_step6 c v)"
| "in_end (Stop r) = Conn r"
| "in_end (Again i c v) = Ignored"

definition in_pcb :: "inenv \<Rightarrow> u32 \<Rightarrow> u8 list option \<Rightarrow> found \<Rightarrow> invar \<Rightarrow> outcome \<times> (u32 \<times> invar) option" where
  "in_pcb e start om fd v =
     (case fd of
        No_pcb \<Rightarrow> (lost_reset e 0 v, None)
      | Denied st \<Rightarrow> (lost_reset e (respond_win st) v, None)
      | No_socket \<Rightarrow> (Ignored, None)
      | Found c \<Rightarrow> (case in_found e start om c v of
          Again i c1 v1 \<Rightarrow> (Conn (Some (Inr c1)), Some (i, v1))
        | fl \<Rightarrow> (in_end fl, None)))"

text \<open>The second pass takes 40 bytes off the first mbuf once more; \<open>m_len\<close> may not go below 0 here.\<close>

definition strip_again :: "tseg \<Rightarrow> tseg option" where
  "strip_again ti =
     (case ti_m ti of
        [] \<Rightarrow> Some ti
      | m # ms \<Rightarrow> if ti_len ti = 0 then Some ti
          else if vm_len m < 40 then None
          else Some (ti\<lparr>ti_m := m\<lparr>vm_data := drop 40 (vm_data m)\<rparr> # ms\<rparr>))"

definition invar0 :: "tseg \<Rightarrow> invar" where
  "invar0 ti = \<lparr>sg = ti, tif = ti_flags ti, tiwin = 0, rst_seq = 0,
     io = \<lparr>ts_present = False, ts_val = 0, ts_ecr = 0, sack_in = []\<rparr>, needoutput = False, prev_sacked = 0\<rparr>"

text \<open>
  \<open>tcp_input\<close> from \<open>findpcb\<close> on: \<open>f1\<close> is what is found for the segment, \<open>f2\<close> what is found when the
  connection in \<open>TIME_WAIT\<close> has been closed. The outcomes of the two passes.
\<close>

definition tcp_input :: "inenv \<Rightarrow> u8 list option \<Rightarrow> found \<Rightarrow> found \<Rightarrow> tseg \<Rightarrow> outcome list" where
  "tcp_input e om f1 f2 ti =
     (case in_pcb e 0 om f1 (invar0 ti) of
        (o1, None) \<Rightarrow> [o1]
      | (o1, Some (i, v)) \<Rightarrow>
          (case strip_again (sg v) of
             None \<Rightarrow> [o1, Conn (Some (Inl Panic_mlen))]
           | Some ti1 \<Rightarrow> [o1, fst (in_pcb e i None f2 (v\<lparr>sg := ti1\<rparr>))]))"

end
