(* ===== verification/Tcp_Usrreq.thy ===== *)
theory Tcp_Usrreq
  imports Tcp_Input
begin

text \<open>
  The requests of the socket layer (\<open>tcp_usrreq\<close> and the routines it calls, \<open>netinet/tcp_usrreq.c\<close>).
  A socket has a protocol control block while its connection is \<open>alive\<close>. The addresses that
  \<open>PRU_ACCEPT\<close>, \<open>PRU_SOCKADDR\<close> and \<open>PRU_PEERADDR\<close> copy out and the trace are not modelled.
\<close>

definition EWOULDBLOCK :: int where "EWOULDBLOCK = 35"

text \<open>
  What the rest of the stack answers: the errors of \<open>in_control\<close>, \<open>in_pcbbind\<close>, \<open>in_pcbconnect\<close> and
  \<open>in_pcballoc\<close>, whether the socket has a local port, whether \<open>tcp_template\<close> and the allocation of
  a control block succeed, the initial sequence number, whether the peer connected to is on a local
  network, and whether the receive buffer is locked. \<open>ue_linger0\<close> is \<open>SO_LINGER\<close> with a time of 0;
  the last fields are the defaults of a new control block and its buffers.
\<close>

record usrenv =
  ue_control :: int
  ue_lport :: bool
  ue_bind :: int
  ue_connect :: int
  ue_pcballoc :: int
  ue_template :: bool
  ue_newtcb :: bool
  ue_isn :: u32
  ue_local :: bool
  ue_locked :: bool
  ue_linger0 :: bool
  ue_rfc1323 :: bool
  ue_tstmp :: bool
  ue_sack :: bool
  tcp_sendspace :: u32
  tcp_recvspace :: u32

datatype usr_panic = Panic_in in_panic | Panic_usrreq

text \<open>The connection, the error, and the byte \<open>PRU_RCVOOB\<close> returns.\<close>

type_synonym usrres = "(usr_panic + inconn \<times> int \<times> u8 list) option"

datatype usrreq = PRU_CONTROL | PRU_ATTACH | PRU_DETACH | PRU_BIND | PRU_LISTEN | PRU_CONNECT | PRU_CONNECT2 |
  PRU_DISCONNECT | PRU_ACCEPT | PRU_SHUTDOWN | PRU_RCVD | PRU_SEND "vmbuf list" | PRU_ABORT | PRU_SENSE |
  PRU_RCVOOB bool | PRU_SENDOOB "vmbuf list" | PRU_SOCKADDR | PRU_PEERADDR | PRU_SLOWTIMO tcpt | PRU_OTHER

definition usr_done :: "inconn \<Rightarrow> int \<Rightarrow> usrres" where
  "usr_done c err = Some (Inr (c, err, []))"

definition usr_res :: "inres \<Rightarrow> usrres" where
  "usr_res r = map_option (map_sum Panic_in (\<lambda>c. (c, 0, []))) r"

text \<open>\<open>tcp_output\<close> with its error.\<close>

definition usr_output :: "inconn \<Rightarrow> usrres" where
  "usr_output c = map_option (\<lambda>r. case r of
     Inl p \<Rightarrow> Inl (Panic_in (Panic_output p)) | Inr (st, err) \<Rightarrow> Inr (c\<lparr>cn := st\<rparr>, err, [])) (tcp_output (cn c))"

definition soisconnecting :: "inconn \<Rightarrow> inconn" where
  "soisconnecting c = c\<lparr>ss_isconnected := False\<rparr>"

definition soisdisconnecting :: "inconn \<Rightarrow> inconn" where
  "soisdisconnecting c = c\<lparr>ss_cantrcvmore := True, ss_cantsendmore := True\<rparr>"

definition socantsendmore :: "inconn \<Rightarrow> inconn" where
  "socantsendmore c = c\<lparr>ss_cantsendmore := True\<rparr>"

section \<open>Closing\<close>

definition closed_state :: "nat \<Rightarrow> nat" where
  "closed_state n =
     (if n = TCPS_SYN_RECEIVED \<or> n = TCPS_ESTABLISHED then TCPS_FIN_WAIT_1
      else if n = TCPS_CLOSE_WAIT then TCPS_LAST_ACK else n)"

definition tcp_usrclosed :: "inconn \<Rightarrow> inconn" where
  "tcp_usrclosed c =
     (let t = ctp c; n = t_state t;
          c1 = (if n = TCPS_CLOSED \<or> n = TCPS_LISTEN \<or> n = TCPS_SYN_SENT
                then in_close (set_tp (t\<lparr>t_state := TCPS_CLOSED\<rparr>) c)
                else set_tp (t\<lparr>t_state := closed_state n\<rparr>) c)
      in if alive (cn c1) \<and> t_state (ctp c1) \<ge> TCPS_FIN_WAIT_2 then soisdisconnected c1 else c1)"

definition tcp_disconnect :: "usrenv \<Rightarrow> inconn \<Rightarrow> inres" where
  "tcp_disconnect e c =
     (if t_state (ctp c) < TCPS_ESTABLISHED then Some (Inr (in_close c))
      else if ue_linger0 e then in_dropconn 0 c
      else (let c1 = soisdisconnecting c in
        case sbflush (mbufcheck c1) (ue_locked e) (crcv c1) of
          None \<Rightarrow> None
        | Some (Inl p) \<Rightarrow> Some (Inl (Panic_sb p))
        | Some (Inr s) \<Rightarrow>
            (let c2 = tcp_usrclosed (set_rcv s c1)
             in if alive (cn c2) then in_output c2 else Some (Inr c2))))"

section \<open>Opening\<close>

text \<open>\<open>tcp_attach\<close>: a socket without buffers gets them, then a control block.\<close>

definition attach_bufs :: "usrenv \<Rightarrow> inconn \<Rightarrow> (usr_panic + inconn \<times> bool) option" where
  "attach_bufs e c =
     (if sb_hiwat (fst (csnd c)) = 0 \<or> sb_hiwat (fst (crcv c)) = 0
      then map_option (map_sum (\<lambda>p. Panic_in (Panic_sb p)) (\<lambda>(s, r, ok). (set_rcv r (set_snd s c), ok)))
             (soreserve (mbufcheck c) (ue_locked e) (g_sb_max (glob (cn c))) (g_mclbytes (glob (cn c)))
               (tcp_sendspace e) (tcp_recvspace e) (csnd c) (crcv c))
      else Some (Inr (c, True)))"

definition tcp_attach :: "usrenv \<Rightarrow> inconn \<Rightarrow> usrres" where
  "tcp_attach e c = map_option (\<lambda>r. case r of
       Inl p \<Rightarrow> Inl p
     | Inr (c1, ok) \<Rightarrow>
         Inr (if \<not> ok then (c1, ENOBUFS, [])
              else if ue_pcballoc e \<noteq> 0 then (c1, ue_pcballoc e, [])
              else if \<not> ue_newtcb e then (c1, ENOBUFS, [])
              else let t = tcp_newtcpcb (glob (cn c1)) (ue_rfc1323 e) (ue_tstmp e) (ue_sack e)
                in (c1\<lparr>cn := (cn c1)\<lparr>tp := t\<lparr>t_state := TCPS_CLOSED\<rparr>, alive := True\<rparr>, rq := []\<rparr>, 0, [])))
     (attach_bufs e c)"

text \<open>\<open>PRU_CONNECT\<close>.\<close>

definition usr_connect :: "usrenv \<Rightarrow> inconn \<Rightarrow> usrres" where
  "usr_connect e c =
     (if \<not> ue_lport e \<and> ue_bind e \<noteq> 0 then usr_done c (ue_bind e)
      else if ue_connect e \<noteq> 0 then usr_done c (ue_connect e)
      else if \<not> ue_template e then usr_done c ENOBUFS
      else let st = cn c; i = ue_isn e;
          t1 = set_timer TCPT_KEEP (word_of_int TCPTV_KEEP_INIT) ((tp st)\<lparr>t_state := TCPS_SYN_SENT\<rparr>);
          t2 = t1\<lparr>iss := i, snd_una := i, snd_nxt := i, snd_max := i, snd_up := i\<rparr>
        in usr_output ((soisconnecting c)\<lparr>cn := st\<lparr>tp := t2,
             sk := (sk st)\<lparr>inp_faddr_any := False, inp_faddr_local := ue_local e\<rparr>\<rparr>\<rparr>))"

section \<open>Data\<close>

definition usr_send :: "vmbuf list \<Rightarrow> inconn \<Rightarrow> usrres" where
  "usr_send m c = usr_output (set_snd (sbappend (csnd c) m) c)"

definition usr_sendoob :: "vmbuf list \<Rightarrow> inconn \<Rightarrow> usrres" where
  "usr_sendoob m c =
     (if sbspace (fst (csnd c)) < -512 then usr_done c ENOBUFS
      else let c1 = set_snd (sbappend (csnd c) m) c; t = ctp c1;
               c2 = set_tp (t\<lparr>snd_up := snd_una t + sb_cc (fst (csnd c1)), t_force := 1\<rparr>) c1
        in map_option (map_sum id (\<lambda>(c3, err, b). (set_tp ((ctp c3)\<lparr>t_force := 0\<rparr>) c3, err, b))) (usr_output c2))"

definition usr_rcvoob :: "bool \<Rightarrow> inconn \<Rightarrow> usrres" where
  "usr_rcvoob peek c =
     (let t = ctp c in
      if so_oobmark c = 0 \<and> \<not> ss_rcvatmark c \<or> so_oobinline c \<or> t_oobflags t AND TCPOOB_HADDATA \<noteq> 0
      then usr_done c EINVAL
      else if t_oobflags t AND TCPOOB_HAVEDATA = 0 then usr_done c EWOULDBLOCK
      else Some (Inr (if peek then c else set_tp (t\<lparr>t_oobflags := t_oobflags t XOR (TCPOOB_HAVEDATA OR TCPOOB_HADDATA)\<rparr>) c,
             0, [t_iobc t])))"

section \<open>The switch\<close>

definition usr_timer :: "tcpt \<Rightarrow> inconn \<Rightarrow> usrres" where
  "usr_timer i c = map_option (map_sum (\<lambda>p. Panic_in (Panic_output p)) (\<lambda>st. (c\<lparr>cn := st\<rparr>, 0, []))) (tcp_timers i (cn c))"

fun usr_switch :: "usrenv \<Rightarrow> usrreq \<Rightarrow> inconn \<Rightarrow> usrres" where
  "usr_switch e PRU_CONTROL c = usr_done c (ue_control e)"
| "usr_switch e PRU_ATTACH c = (if alive (cn c) then usr_done c EISCONN else tcp_attach e c)"
| "usr_switch e PRU_DETACH c =
     usr_res (if t_state (ctp c) > TCPS_LISTEN then tcp_disconnect e c else Some (Inr (in_close c)))"
| "usr_switch e PRU_BIND c = usr_done c (ue_bind e)"
| "usr_switch e PRU_LISTEN c =
     (if \<not> ue_lport e \<and> ue_bind e \<noteq> 0 then usr_done c (ue_bind e)
      else usr_done (set_tp ((ctp c)\<lparr>t_state := TCPS_LISTEN\<rparr>) c) 0)"
| "usr_switch e PRU_CONNECT c = usr_connect e c"
| "usr_switch e PRU_CONNECT2 c = usr_done c EOPNOTSUPP"
| "usr_switch e PRU_DISCONNECT c = usr_res (tcp_disconnect e c)"
| "usr_switch e PRU_ACCEPT c = usr_done c 0"
| "usr_switch e PRU_SHUTDOWN c =
     (let c1 = tcp_usrclosed (socantsendmore c) in if alive (cn c1) then usr_output c1 else usr_done c1 0)"
| "usr_switch e PRU_RCVD c = usr_res (in_output c)"
| "usr_switch e (PRU_SEND m) c = usr_send m c"
| "usr_switch e PRU_ABORT c = usr_res (in_dropconn ECONNABORTED c)"
| "usr_switch e PRU_SENSE c = usr_done c EOPNOTSUPP"
| "usr_switch e (PRU_RCVOOB peek) c = usr_rcvoob peek c"
| "usr_switch e (PRU_SENDOOB m) c = usr_sendoob m c"
| "usr_switch e PRU_SOCKADDR c = usr_done c 0"
| "usr_switch e PRU_PEERADDR c = usr_done c 0"
| "usr_switch e (PRU_SLOWTIMO i) c = usr_timer i c"
| "usr_switch e PRU_OTHER c = Some (Inl Panic_usrreq)"

text \<open>The whole routine; \<open>ctl\<close> says that there is control data.\<close>

definition tcp_usrreq :: "usrenv \<Rightarrow> usrreq \<Rightarrow> bool \<Rightarrow> inconn \<Rightarrow> usrres" where
  "tcp_usrreq e req ctl c =
     (if req = PRU_CONTROL then usr_switch e req c
      else if ctl then usr_done c EINVAL
      else if \<not> alive (cn c) \<and> req \<noteq> PRU_ATTACH then usr_done c EINVAL
      else usr_switch e req c)"

section \<open>Options\<close>

text \<open>
  \<open>tcp_ctloutput\<close>: setting an option with the \<open>int\<close> of the mbuf, if it holds one; reading one into
  an mbuf, if there is one. Other levels go to \<open>ip_ctloutput\<close>, whose answer is an argument.
\<close>

datatype ctlop = PRCO_SETOPT "int option" | PRCO_GETOPT bool | PRCO_OTHER

definition TCP_NODELAY :: int where "TCP_NODELAY = 1"
definition TCP_MAXSEG :: int where "TCP_MAXSEG = 2"

fun tcp_ctl :: "ctlop \<Rightarrow> int \<Rightarrow> tcpcb \<Rightarrow> tcpcb \<times> int \<times> int option" where
  "tcp_ctl (PRCO_SETOPT m) opt t =
     (if opt = TCP_NODELAY then
        (case m of None \<Rightarrow> (t, EINVAL, None)
         | Some v \<Rightarrow> (t\<lparr>t_flags := (if v \<noteq> 0 then t_flags t OR TF_NODELAY else t_flags t AND NOT TF_NODELAY)\<rparr>, 0, None))
      else (t, EINVAL, None))"
| "tcp_ctl (PRCO_GETOPT mget) opt t =
     (if \<not> mget then (t, ENOBUFS, None)
      else if opt = TCP_NODELAY then (t, 0, Some (int (unat (t_flags t AND TF_NODELAY))))
      else if opt = TCP_MAXSEG then (t, 0, Some (int (unat (t_maxseg t))))
      else (t, EINVAL, None))"
| "tcp_ctl PRCO_OTHER opt t = (t, 0, None)"

definition tcp_ctloutput :: "int \<times> int option \<Rightarrow> bool \<Rightarrow> ctlop \<Rightarrow> int \<Rightarrow> inconn \<Rightarrow> inconn \<times> int \<times> int option" where
  "tcp_ctloutput ip tcplevel op opt c =
     (if \<not> tcplevel then (c, ip) else (case tcp_ctl op opt (ctp c) of (t, err, v) \<Rightarrow> (set_tp t c, err, v)))"

end
