(* ===== verification/Tcp_Sack_Board.thy ===== *)
theory Tcp_Sack_Board
  imports Tcp_Sack
begin

text \<open>
  Correctness of the two SACK block lists of \<open>netinet/tcp_sack.c\<close>: the sender's scoreboard
  stays sorted, merged and inside the unacknowledged window and records exactly what was
  reported; the receiver's list stays separated, leads with the newest range and claims only
  what was received. Blocks are read as sets of octet offsets above a base.
\<close>

section \<open>Scoreboard invariants over window offsets\<close>

text \<open>
  Blocks are read through their offsets above a base: ascending, non-empty, with a gap of at
  least one octet between neighbours, all inside \<open>[lo, hi]\<close>.
\<close>

fun blks_ok :: "u32 \<Rightarrow> nat \<Rightarrow> nat \<Rightarrow> sackblk list \<Rightarrow> bool" where
  "blks_ok b lo hi [] = True"
| "blks_ok b lo hi (x # xs) =
     (lo \<le> seq_off b (blk_start x) \<and> seq_off b (blk_start x) < seq_off b (blk_end x) \<and>
      seq_off b (blk_end x) \<le> hi \<and> blks_ok b (Suc (seq_off b (blk_end x))) hi xs)"

definition octets :: "u32 \<Rightarrow> sackblk list \<Rightarrow> nat set" where
  "octets b xs = (\<Union>x \<in> set xs. {seq_off b (blk_start x) ..< seq_off b (blk_end x)})"

lemma octets_simps [simp]:
  "octets b [] = {}"
  "octets b (x # xs) = {seq_off b (blk_start x) ..< seq_off b (blk_end x)} \<union> octets b xs"
  by (auto simp: octets_def)

lemma octets_append [simp]: "octets b (xs @ ys) = octets b xs \<union> octets b ys"
  by (auto simp: octets_def)

lemma octets_take: "octets b (take n xs) \<subseteq> octets b xs"
  by (auto simp: octets_def dest: in_set_takeD)

lemma blks_ok_mono: "blks_ok b lo hi xs \<Longrightarrow> lo' \<le> lo \<Longrightarrow> hi \<le> hi' \<Longrightarrow> blks_ok b lo' hi' xs"
  by (induction xs arbitrary: lo lo') (auto intro: order_trans)

lemma blks_ok_take: "blks_ok b lo hi xs \<Longrightarrow> blks_ok b lo hi (take n xs)"
  by (induction xs arbitrary: lo n) (auto simp: take_Cons' )

lemma blks_ok_octets: "blks_ok b lo hi xs \<Longrightarrow> octets b xs \<subseteq> {lo ..< hi}"
  by (induction xs arbitrary: lo) fastforce+

lemma blks_ok_in:
  assumes "blks_ok b lo hi xs" "hi < 2 ^ 31" "x \<in> set xs"
  shows "seq_in b (blk_start x) \<and> seq_in b (blk_end x)"
  using assms by (induction xs arbitrary: lo) (auto simp: seq_in_def)

lemma blks_ok_Cons_in:
  assumes "blks_ok b lo hi (x # xs)" "hi < 2 ^ 31"
  shows "seq_in b (blk_start x)" "seq_in b (blk_end x)"
  using blks_ok_in[OF assms] by auto

lemma blks_ok_mem:
  "x \<in> set xs \<Longrightarrow> blks_ok b lo hi xs \<Longrightarrow>
   seq_off b (blk_start x) < seq_off b (blk_end x) \<and> seq_off b (blk_end x) \<le> hi"
  by (induction xs arbitrary: lo) auto

subsection \<open>Trimming\<close>

lemma sack_trim_ok:
  assumes "blks_ok b lo hi xs" "hi < 2 ^ 31" "seq_in b ack"
  shows "blks_ok b (max lo (seq_off b ack)) hi (sack_trim ack xs) \<and>
         octets b (sack_trim ack xs) = octets b xs \<inter> {seq_off b ack ..}"
  using assms(1)
proof (induction xs arbitrary: lo)
  case Nil
  then show ?case by simp
next
  case (Cons x xs)
  note w = blks_ok_Cons_in[OF Cons.prems assms(2)]
  have ih: "blks_ok b (max (Suc (seq_off b (blk_end x))) (seq_off b ack)) hi (sack_trim ack xs)"
      "octets b (sack_trim ack xs) = octets b xs \<inter> {seq_off b ack..}"
    using Cons.IH[of "Suc (seq_off b (blk_end x))"] Cons.prems by auto
  note cmp = sw.leq_off[of b, OF w(2) assms(3)] sw.lt_off[of b, OF w(1) assms(3)]
  show ?case
  proof (cases "seq_off b (blk_end x) \<le> seq_off b ack")
    case True
    then have "sack_trim ack (x # xs) = sack_trim ack xs" using cmp by simp
    then show ?thesis
      using ih Cons.prems True blks_ok_mono[OF ih(1)] by auto
  next
    case False
    define y where "y = (if SEQ_LT (blk_start x) ack then x\<lparr>blk_start := ack\<rparr> else x)"
    have trim: "sack_trim ack (x # xs) = y # sack_trim ack xs" using cmp False by (simp add: y_def)
    have ys: "seq_off b (blk_start y) = max (seq_off b (blk_start x)) (seq_off b ack)"
      and ye: "blk_end y = blk_end x" using cmp by (auto simp: y_def)
    have m: "max (Suc (seq_off b (blk_end x))) (seq_off b ack) = Suc (seq_off b (blk_end x))"
      using False by simp
    have "blks_ok b (max lo (seq_off b ack)) hi (y # sack_trim ack xs)"
      using ih(1) Cons.prems False by (simp add: ys ye m) linarith
    moreover have "octets b (y # sack_trim ack xs) = octets b (x # xs) \<inter> {seq_off b ack..}"
      by (simp only: octets_simps ih(2) ys ye) auto
    ultimately show ?thesis by (simp only: trim)
  qed
qed

lemma length_sack_trim: "length (sack_trim ack xs) \<le> length xs"
  by (induction xs) auto

subsection \<open>Merging one range\<close>

text \<open>The insertion without the capacity limit, as a reference.\<close>

fun snd_merge :: "u32 \<Rightarrow> u32 \<Rightarrow> sackblk list \<Rightarrow> sackblk list" where
  "snd_merge s e [] = [blk s e]"
| "snd_merge s e (b # bs) =
     (if SEQ_LT (blk_end b) s then b # snd_merge s e bs
      else if SEQ_GT (blk_start b) e then blk s e # b # bs
      else snd_merge (if SEQ_LT (blk_start b) s then blk_start b else s)
                     (if SEQ_GT (blk_end b) e then blk_end b else e) bs)"

lemma length_snd_merge: "length (snd_merge s e xs) \<le> Suc (length xs)"
  by (induction xs arbitrary: s e) (auto simp: le_SucI)

lemma snd_merge_ok:
  assumes "blks_ok b lo hi xs" "hi < 2 ^ 31"
    and "lo \<le> seq_off b s" "seq_off b s < seq_off b e" "seq_off b e \<le> hi"
  shows "blks_ok b lo hi (snd_merge s e xs) \<and>
         octets b (snd_merge s e xs) = octets b xs \<union> {seq_off b s ..< seq_off b e}"
  using assms(1,3-)
proof (induction xs arbitrary: lo s e)
  case Nil
  then show ?case by simp
next
  case (Cons x xs)
  note w = blks_ok_Cons_in[OF Cons.prems(1) assms(2)]
  have in_se: "seq_in b s" "seq_in b e" using Cons.prems assms(2) by (auto simp: seq_in_def)
  have tl: "blks_ok b (Suc (seq_off b (blk_end x))) hi xs" using Cons.prems by simp
  consider (before) "seq_off b (blk_end x) < seq_off b s"
    | (after) "\<not> seq_off b (blk_end x) < seq_off b s" "seq_off b e < seq_off b (blk_start x)"
    | (absorb) "\<not> seq_off b (blk_end x) < seq_off b s" "\<not> seq_off b e < seq_off b (blk_start x)"
    by blast
  then show ?case
  proof cases
    case before
    then show ?thesis
      using Cons.IH[OF tl, of s e] Cons.prems w in_se by (auto simp: sw.lt_off)
  next
    case after
    then show ?thesis
      using Cons.prems w in_se by (auto simp: sw.lt_off sw.gt_off)
  next
    case absorb
    define s' where "s' = (if SEQ_LT (blk_start x) s then blk_start x else s)"
    define e' where "e' = (if SEQ_GT (blk_end x) e then blk_end x else e)"
    have os: "seq_off b s' = min (seq_off b (blk_start x)) (seq_off b s)"
      using w in_se by (auto simp: s'_def sw.lt_off[of b])
    have oe: "seq_off b e' = max (seq_off b (blk_end x)) (seq_off b e)"
      using w in_se by (auto simp: e'_def sw.gt_off[of b])
    have "snd_merge s e (x # xs) = snd_merge s' e' xs"
      using absorb w in_se by (simp add: s'_def e'_def sw.lt_off[of b] sw.gt_off[of b])
    moreover have "blks_ok b lo hi xs"
      using blks_ok_mono[OF tl, of lo hi] Cons.prems by simp
    moreover note Cons.IH[of lo s' e']
    ultimately show ?thesis
      using Cons.prems absorb os oe by auto
  qed
qed


lemma snd_push_conv: "length m \<le> TCP_MAX_SACK_SND \<Longrightarrow>
  snd_push m x = take TCP_MAX_SACK_SND (m @ [x])"
  by (auto simp: snd_push_def)

lemma snd_push_length: "length m \<le> TCP_MAX_SACK_SND \<Longrightarrow> length (snd_push m x) \<le> TCP_MAX_SACK_SND"
  by (auto simp: snd_push_def)

lemma take_snd_push: "length m \<le> TCP_MAX_SACK_SND \<Longrightarrow>
  take TCP_MAX_SACK_SND (snd_push m x @ ys) = take TCP_MAX_SACK_SND (m @ x # ys)"
  by (auto simp: snd_push_def take_Cons')

lemma snd_insert_walk_placed:
  assumes "blks_ok b lo hi xs" "hi < 2 ^ 31" "seq_in b s" "seq_in b e"
    "seq_off b s \<le> seq_off b e" "seq_off b e < lo" "length m \<le> TCP_MAX_SACK_SND"
  shows "snd_insert_walk m True s e xs = (take TCP_MAX_SACK_SND (m @ xs), True, s, e)"
  using assms(1,6,7)
proof (induction xs arbitrary: lo m)
  case Nil
  then show ?case by simp
next
  case (Cons x xs)
  note w = blks_ok_Cons_in[OF Cons.prems(1) assms(2)]
  have "\<not> SEQ_LT (blk_end x) s" "SEQ_GT (blk_start x) e"
    using Cons.prems assms(5) by (auto simp: sw.lt_off[of b, OF w(2) assms(3)]
      sw.gt_off[of b, OF w(1) assms(4)])
  then show ?case
    using Cons.IH[of "Suc (seq_off b (blk_end x))" "snd_push m x"] Cons.prems
    by (simp add: take_snd_push snd_push_length del: take_append)
qed

lemma snd_insert_walk_merge:
  assumes "blks_ok b lo hi xs" "hi < 2 ^ 31" "seq_off b s < seq_off b e" "seq_off b e \<le> hi"
    and "length m \<le> TCP_MAX_SACK_SND"
  shows "(case snd_insert_walk m False s e xs of (merged, placed, s', e') \<Rightarrow>
            if placed then merged else snd_push merged (blk s' e'))
         = take TCP_MAX_SACK_SND (m @ snd_merge s e xs)"
  using assms(1,3-)
proof (induction xs arbitrary: lo m s e)
  case Nil
  then show ?case by (simp add: snd_push_conv)
next
  case (Cons x xs)
  note w = blks_ok_Cons_in[OF Cons.prems(1) assms(2)]
  have in_se: "seq_in b s" "seq_in b e" using Cons.prems assms(2) by (auto simp: seq_in_def)
  note cmp = sw.lt_off[of b, OF w(2) in_se(1)] sw.gt_off[of b, OF w(1) in_se(2)]
    sw.lt_off[of b, OF w(1) in_se(1)] sw.gt_off[of b, OF w(2) in_se(2)]
  have tl: "blks_ok b (Suc (seq_off b (blk_end x))) hi xs" using Cons.prems by simp
  consider (before) "SEQ_LT (blk_end x) s"
    | (after) "\<not> SEQ_LT (blk_end x) s" "SEQ_GT (blk_start x) e"
    | (absorb) "\<not> SEQ_LT (blk_end x) s" "\<not> SEQ_GT (blk_start x) e"
    by blast
  then show ?case
  proof cases
    case before
    then show ?thesis
      using Cons.IH[OF tl, of s e "snd_push m x"] Cons.prems
      by (simp add: take_snd_push snd_push_length del: take_append)
  next
    case after
    have "seq_off b e < Suc (seq_off b (blk_end x))" using after cmp Cons.prems by auto
    then have "snd_insert_walk (snd_push (snd_push m (blk s e)) x) True s e xs =
        (take TCP_MAX_SACK_SND (snd_push (snd_push m (blk s e)) x @ xs), True, s, e)"
      using Cons.prems by (intro snd_insert_walk_placed[OF tl assms(2) in_se])
        (simp_all add: snd_push_length)
    then show ?thesis
      using after Cons.prems by (simp add: take_snd_push snd_push_length del: take_append)
  next
    case absorb
    define s' where "s' = (if SEQ_LT (blk_start x) s then blk_start x else s)"
    define e' where "e' = (if SEQ_GT (blk_end x) e then blk_end x else e)"
    have "seq_off b s' < seq_off b e'" "seq_off b e' \<le> hi"
      using Cons.prems cmp by (auto simp: s'_def e'_def)
    from Cons.IH[OF tl this Cons.prems(4)] absorb show ?thesis
      by (simp add: s'_def e'_def)
  qed
qed


subsection \<open>The scoreboard invariant\<close>

text \<open>
  \<open>snd_sack_inv b tp\<close>: the unacknowledged window is shorter than half the sequence space, the
  base \<open>b\<close> (the acknowledgement point when the blocks were last folded in) is at or below
  \<open>snd_una\<close>, and the scoreboard is sorted, merged and inside \<open>[b, snd_max]\<close>.
\<close>

definition snd_sack_inv :: "u32 \<Rightarrow> tcpcb \<Rightarrow> bool" where
  "snd_sack_inv b tp \<longleftrightarrow>
     seq_off b (snd_max tp) < 2 ^ 31 \<and> seq_off b (snd_una tp) \<le> seq_off b (snd_max tp) \<and>
     blks_ok b 0 (seq_off b (snd_max tp)) (snd_sackblks tp) \<and>
     length (snd_sackblks tp) \<le> TCP_MAX_SACK_SND"

text \<open>What a reported block adds: the part of it inside the unacknowledged window.\<close>

definition reported :: "tcpcb \<Rightarrow> sackblk list \<Rightarrow> nat set" where
  "reported tp sack =
     {x. x < seq_off (snd_una tp) (snd_max tp) \<and>
         (\<exists>k \<in> set sack. SEQ_LEQ (blk_start k) (snd_una tp + of_nat x) \<and>
                         SEQ_LT (snd_una tp + of_nat x) (blk_end k))}"

text \<open>
  A reported block the clamping of \<open>tcp_sack_update\<close> handles: it ends above the
  acknowledgement point, or it starts at or below it and does not end exactly half the
  sequence space away.
\<close>

definition sack_sane :: "u32 \<Rightarrow> sackblk \<Rightarrow> bool" where
  "sack_sane una k \<longleftrightarrow> SEQ_GT (blk_end k) una \<or>
     (SEQ_LEQ (blk_start k) una \<and> blk_end k \<noteq> una + 2147483648)"

lemma blks_ok_rebase:
  "blks_ok b lo hi xs \<Longrightarrow> seq_off b u \<le> lo \<Longrightarrow>
   blks_ok u (lo - seq_off b u) (hi - seq_off b u) xs \<and>
   octets u xs = (\<lambda>n. n - seq_off b u) ` octets b xs"
proof (induction xs arbitrary: lo)
  case Nil
  then show ?case by simp
next
  case (Cons x xs)
  let ?u = "seq_off b u"
  have le: "?u \<le> seq_off b (blk_start x)" "?u \<le> seq_off b (blk_end x)"
    using Cons.prems by auto
  note r = seq_off_rebase[OF le(1)] seq_off_rebase[OF le(2)]
  have "blks_ok u (Suc (seq_off b (blk_end x)) - ?u) (hi - ?u) xs \<and>
        octets u xs = (\<lambda>n. n - ?u) ` octets b xs"
    using Cons.prems le by (intro Cons.IH) auto
  moreover have "Suc (seq_off b (blk_end x)) - ?u = Suc (seq_off b (blk_end x) - ?u)"
    using le by simp
  moreover have "{seq_off b (blk_start x) - ?u ..< seq_off b (blk_end x) - ?u} =
      (\<lambda>n. n - ?u) ` {seq_off b (blk_start x) ..< seq_off b (blk_end x)}"
    using le by (subst image_minus_const_atLeastLessThan_nat) auto
  ultimately show ?case
    using Cons.prems le by (auto simp: r image_Un)
qed

lemma snd_trim_inv:
  assumes "snd_sack_inv b tp"
  shows "snd_sack_inv (snd_una tp) (tcp_sack_snd_trim tp)"
proof -
  let ?u = "seq_off b (snd_una tp)" and ?m = "seq_off b (snd_max tp)"
  have w: "seq_in b (snd_una tp)" using assms by (auto simp: snd_sack_inv_def seq_in_def)
  have "blks_ok b ?u ?m (sack_trim (snd_una tp) (snd_sackblks tp))"
    using sack_trim_ok[of b 0 ?m "snd_sackblks tp" "snd_una tp"] assms w
    by (simp add: snd_sack_inv_def)
  then have "blks_ok (snd_una tp) 0 (?m - ?u) (sack_trim (snd_una tp) (snd_sackblks tp))"
    using blks_ok_rebase[of b ?u ?m _ "snd_una tp"] by simp
  moreover have "seq_off (snd_una tp) (snd_max tp) = ?m - ?u"
    using assms by (intro seq_off_rebase) (simp add: snd_sack_inv_def)
  ultimately show ?thesis
    using assms length_sack_trim[of "snd_una tp" "snd_sackblks tp"]
    by (simp add: snd_sack_inv_def tcp_sack_snd_trim_def) linarith
qed

lemma snd_insert_inv:
  assumes inv: "snd_sack_inv (snd_una tp) tp"
    and se: "seq_off (snd_una tp) s < seq_off (snd_una tp) e"
      "seq_off (snd_una tp) e \<le> seq_off (snd_una tp) (snd_max tp)"
  shows "snd_sack_inv (snd_una tp) (tcp_sack_snd_insert tp s e)"
    and "octets (snd_una tp) (snd_sackblks (tcp_sack_snd_insert tp s e)) \<subseteq>
         octets (snd_una tp) (snd_sackblks tp) \<union> {seq_off (snd_una tp) s ..< seq_off (snd_una tp) e}"
    and "length (snd_sackblks tp) < TCP_MAX_SACK_SND \<Longrightarrow>
         octets (snd_una tp) (snd_sackblks (tcp_sack_snd_insert tp s e)) =
         octets (snd_una tp) (snd_sackblks tp) \<union> {seq_off (snd_una tp) s ..< seq_off (snd_una tp) e}"
    and "length (snd_sackblks (tcp_sack_snd_insert tp s e)) \<le> Suc (length (snd_sackblks tp))"
proof -
  let ?u = "snd_una tp" and ?bs = "snd_sackblks tp"
  have ok: "blks_ok ?u 0 (seq_off ?u (snd_max tp)) ?bs" "seq_off ?u (snd_max tp) < 2 ^ 31"
    using inv by (auto simp: snd_sack_inv_def)
  have eq: "snd_sackblks (tcp_sack_snd_insert tp s e) = take TCP_MAX_SACK_SND (snd_merge s e ?bs)"
    using snd_insert_walk_merge[OF ok se, of "[]"]
    by (auto simp: tcp_sack_snd_insert_def split: prod.splits if_splits)
  note m = snd_merge_ok[OF ok _ se]
  have same: "snd_una (tcp_sack_snd_insert tp s e) = ?u"
    "snd_max (tcp_sack_snd_insert tp s e) = snd_max tp"
    by (simp_all add: tcp_sack_snd_insert_def split: prod.splits)
  show "snd_sack_inv ?u (tcp_sack_snd_insert tp s e)"
    using inv m by (simp add: snd_sack_inv_def same eq blks_ok_take)
  show "octets ?u (snd_sackblks (tcp_sack_snd_insert tp s e)) \<subseteq>
      octets ?u ?bs \<union> {seq_off ?u s ..< seq_off ?u e}"
    using m octets_take[of ?u TCP_MAX_SACK_SND "snd_merge s e ?bs"] by (auto simp: eq)
  show "octets ?u (snd_sackblks (tcp_sack_snd_insert tp s e)) =
      octets ?u ?bs \<union> {seq_off ?u s ..< seq_off ?u e}" if "length ?bs < TCP_MAX_SACK_SND"
    using m length_snd_merge[of s e ?bs] that by (simp add: eq)
  show "length (snd_sackblks (tcp_sack_snd_insert tp s e)) \<le> Suc (length ?bs)"
    using length_snd_merge[of s e ?bs] by (simp add: eq)
qed


lemma sack_clamp_window:
  fixes tp :: tcpcb and k :: sackblk
  assumes "seq_off (snd_una tp) (snd_max tp) < 2 ^ 31" "sack_sane (snd_una tp) k"
  defines "e \<equiv> if SEQ_GT (blk_end k) (snd_max tp) then snd_max tp else blk_end k"
    and "s \<equiv> if SEQ_LT (blk_start k) (snd_una tp) then snd_una tp else blk_start k"
  assumes lt: "\<not> SEQ_GEQ s e"
  shows "seq_off (snd_una tp) s < seq_off (snd_una tp) e \<and>
         seq_off (snd_una tp) e \<le> seq_off (snd_una tp) (snd_max tp)"
proof -
  let ?u = "snd_una tp" and ?m = "snd_max tp"
  have wm: "seq_in ?u ?m" using assms(1) by (simp add: seq_in_def)
  have ws: "seq_in ?u s" by (auto simp: s_def SEQ_LT_off)
  show ?thesis
  proof (cases "SEQ_GT (blk_end k) ?u")
    case True
    then have we: "seq_in ?u (blk_end k)" by (simp add: SEQ_GT_off)
    then have "seq_in ?u e" "seq_off ?u e \<le> seq_off ?u ?m"
      using wm by (auto simp: e_def sw.gt_off[of ?u])
    then show ?thesis using lt ws by (simp add: sw.geq_off[of ?u])
  next
    case False
    then have "SEQ_LEQ (blk_start k) ?u" and na: "blk_end k \<noteq> ?u + 2147483648"
      using assms(2) by (simp_all add: sack_sane_def)
    then have su: "s = ?u" by (auto simp: s_def SEQ_LEQ_off SEQ_LT_off)
    show ?thesis
    proof (cases "SEQ_GT (blk_end k) ?m")
      case True
      then have "e = ?m" by (simp add: e_def)
      moreover have "?u \<noteq> ?m" using lt su calculation by (auto simp: SEQ_GEQ_off)
      ultimately show ?thesis using su wm
        by (auto simp: seq_off_def unat_gt_0)
    next
      case nf: False
      then have "sint (blk_end k - ?u) \<le> 0" "sint (- (blk_end k - ?u)) < 0"
        using lt su False by (simp_all add: e_def SEQ_GEQ_def SEQ_GT_def)
      from sint_neg_antipodal[OF this] na show ?thesis by (simp add: algebra_simps)
    qed
  qed
qed


lemma tcp_sack_snd_insert_frame [simp]:
  "snd_una (tcp_sack_snd_insert tp s e) = snd_una tp"
  "snd_max (tcp_sack_snd_insert tp s e) = snd_max tp"
  by (simp_all add: tcp_sack_snd_insert_def split: prod.splits)

lemma sack_update_loop_inv:
  assumes "snd_sack_inv (snd_una tp) tp" "\<forall>k \<in> set sack. sack_sane (snd_una tp) k"
  shows "snd_sack_inv (snd_una tp) (sack_update_loop tp sack)"
  using assms
proof (induction sack arbitrary: tp)
  case Nil
  then show ?case by simp
next
  case (Cons k sack)
  define e where "e = (if SEQ_GT (blk_end k) (snd_max tp) then snd_max tp else blk_end k)"
  define s where "s = (if SEQ_LT (blk_start k) (snd_una tp) then snd_una tp else blk_start k)"
  show ?case
  proof (cases "SEQ_GEQ s e")
    case True
    then show ?thesis using Cons by (simp add: s_def e_def Let_def)
  next
    case False
    have w: "seq_off (snd_una tp) s < seq_off (snd_una tp) e \<and>
             seq_off (snd_una tp) e \<le> seq_off (snd_una tp) (snd_max tp)"
      using sack_clamp_window[of tp k] Cons.prems False
      by (simp add: s_def e_def snd_sack_inv_def)
    then have "snd_sack_inv (snd_una tp) (tcp_sack_snd_insert tp s e)"
      using snd_insert_inv(1)[OF Cons.prems(1)] by blast
    then have "snd_sack_inv (snd_una tp) (sack_update_loop (tcp_sack_snd_insert tp s e) sack)"
      using Cons.IH[of "tcp_sack_snd_insert tp s e"] Cons.prems by simp
    then show ?thesis using False by (simp add: s_def e_def Let_def)
  qed
qed

text \<open>Blocks a peer with a sane clock reports: both ends within \<open>2 ^ 30\<close> of \<open>snd_una\<close>.\<close>

definition sack_near :: "u32 \<Rightarrow> sackblk \<Rightarrow> bool" where
  "sack_near una k \<longleftrightarrow> seq_in (una - 2 ^ 30) (blk_start k) \<and> seq_in (una - 2 ^ 30) (blk_end k)"

lemma reported_Cons: "reported tp (k # ks) = reported tp [k] \<union> reported tp ks"
  by (auto simp: reported_def)

lemma reported_cong: "snd_una tp' = snd_una tp \<Longrightarrow> snd_max tp' = snd_max tp \<Longrightarrow>
  reported tp' ks = reported tp ks"
  by (simp add: reported_def)

lemma reported_clamp:
  fixes tp :: tcpcb and k :: sackblk
  assumes m: "seq_off (snd_una tp) (snd_max tp) < 2 ^ 30" and near: "sack_near (snd_una tp) k"
  defines "e \<equiv> if SEQ_GT (blk_end k) (snd_max tp) then snd_max tp else blk_end k"
    and "s \<equiv> if SEQ_LT (blk_start k) (snd_una tp) then snd_una tp else blk_start k"
  shows "reported tp [k] =
    (if SEQ_GEQ s e then {} else {seq_off (snd_una tp) s ..< seq_off (snd_una tp) e})"
    and "\<not> SEQ_GEQ s e \<Longrightarrow> seq_off (snd_una tp) s < seq_off (snd_una tp) e \<and>
         seq_off (snd_una tp) e \<le> seq_off (snd_una tp) (snd_max tp)"
proof -
  let ?u = "snd_una tp" and ?m = "snd_max tp"
  let ?c = "?u - 2 ^ 30"
  let ?o = "seq_off ?c"
  define M where "M = seq_off ?u ?m"
  have M: "M < 2 ^ 30" using m by (simp add: M_def)
  have ou: "?o ?u = 2 ^ 30" using seq_off_back[of 0 ?u] by simp
  have om: "?o ?m = 2 ^ 30 + M"
    using seq_off_back[of M ?u] M seq_of_off[of ?u ?m] by (simp add: M_def)
  have w: "seq_in ?c ?u" "seq_in ?c ?m" using ou om M by (simp_all add: seq_in_def)
  have wk: "seq_in ?c (blk_start k)" "seq_in ?c (blk_end k)"
    using near by (simp_all add: sack_near_def)
  have oe: "?o e = min (?o (blk_end k)) (2 ^ 30 + M)"
    using w wk om by (auto simp: e_def sw.gt_off[of ?c])
  have os: "?o s = max (?o (blk_start k)) (2 ^ 30)"
    using w wk ou by (auto simp: s_def sw.lt_off[of ?c])
  have wse: "seq_in ?c s" "seq_in ?c e"
    using w wk by (auto simp: s_def e_def)
  have x: "seq_in ?c (?u + of_nat x)" "?o (?u + of_nat x) = 2 ^ 30 + x" if "x < M" for x
    using that M seq_off_back[of x ?u] by (simp_all add: seq_in_def)
  have rep: "reported tp [k] = {x. x < M \<and> ?o (blk_start k) \<le> 2 ^ 30 + x \<and> 2 ^ 30 + x < ?o (blk_end k)}"
    using x wk by (auto simp: reported_def M_def[symmetric] sw.leq_off[of ?c] sw.lt_off[of ?c])
  have rep': "reported tp [k] = {x. ?o s \<le> 2 ^ 30 + x \<and> 2 ^ 30 + x < ?o e}"
    unfolding rep os oe by (intro Collect_cong) (simp add: min_def max_def, linarith)
  have ge: "2 ^ 30 \<le> ?o s" unfolding os by simp
  have conv: "seq_off ?u s = ?o s - 2 ^ 30" "seq_off ?u e = ?o e - 2 ^ 30" if "\<not> SEQ_GEQ s e"
  proof -
    have "?o s < ?o e" using that wse by (simp add: sw.geq_off[of ?c])
    then have "?o ?u \<le> ?o s" "?o ?u \<le> ?o e" using ge ou by linarith+
    from this[THEN seq_off_rebase] show "seq_off ?u s = ?o s - 2 ^ 30" "seq_off ?u e = ?o e - 2 ^ 30"
      by (simp_all only: ou)
  qed
  show "reported tp [k] = (if SEQ_GEQ s e then {} else {seq_off ?u s ..< seq_off ?u e})"
  proof (cases "SEQ_GEQ s e")
    case True
    then show ?thesis using wse by (auto simp: rep' sw.geq_off[of ?c])
  next
    case False
    have "{x. ?o s \<le> 2 ^ 30 + x \<and> 2 ^ 30 + x < ?o e} = {?o s - 2 ^ 30 ..< ?o e - 2 ^ 30}"
      using ge by (intro set_eqI) (simp, linarith)
    then show ?thesis using False by (simp add: rep' conv)
  qed
  show "seq_off ?u s < seq_off ?u e \<and> seq_off ?u e \<le> seq_off ?u ?m" if f: "\<not> SEQ_GEQ s e"
  proof -
    have "?o s < ?o e" using f wse by (simp add: sw.geq_off[of ?c])
    moreover have "?o e \<le> 2 ^ 30 + M" unfolding oe by simp
    ultimately show ?thesis using ge unfolding conv[OF f] M_def[symmetric] by linarith
  qed
qed

lemma sack_update_loop_exact:
  assumes "snd_sack_inv (snd_una tp) tp" "seq_off (snd_una tp) (snd_max tp) < 2 ^ 30"
    and "\<forall>k \<in> set sack. sack_near (snd_una tp) k"
  shows "octets (snd_una tp) (snd_sackblks (sack_update_loop tp sack)) \<subseteq>
         octets (snd_una tp) (snd_sackblks tp) \<union> reported tp sack"
    and "length (snd_sackblks tp) + length sack \<le> TCP_MAX_SACK_SND \<Longrightarrow>
         octets (snd_una tp) (snd_sackblks (sack_update_loop tp sack)) =
         octets (snd_una tp) (snd_sackblks tp) \<union> reported tp sack"
proof -
  have "octets (snd_una tp) (snd_sackblks (sack_update_loop tp sack)) \<subseteq>
         octets (snd_una tp) (snd_sackblks tp) \<union> reported tp sack \<and>
     (length (snd_sackblks tp) + length sack \<le> TCP_MAX_SACK_SND \<longrightarrow>
         octets (snd_una tp) (snd_sackblks (sack_update_loop tp sack)) =
         octets (snd_una tp) (snd_sackblks tp) \<union> reported tp sack)"
    using assms
  proof (induction sack arbitrary: tp)
    case Nil
    then show ?case by (simp add: reported_def)
  next
    case (Cons k sack)
    define e where "e = (if SEQ_GT (blk_end k) (snd_max tp) then snd_max tp else blk_end k)"
    define s where "s = (if SEQ_LT (blk_start k) (snd_una tp) then snd_una tp else blk_start k)"
    note rc = reported_clamp[OF Cons.prems(2), of k, folded s_def e_def]
    show ?case
    proof (cases "SEQ_GEQ s e")
      case True
      then have "sack_update_loop tp (k # sack) = sack_update_loop tp sack"
        by (simp add: s_def e_def Let_def)
      moreover have "reported tp (k # sack) = reported tp sack"
        using rc(1) True Cons.prems(3) by (subst reported_Cons) simp
      ultimately show ?thesis using Cons.IH[OF Cons.prems(1,2)] Cons.prems(3) by simp
    next
      case False
      let ?tp = "tcp_sack_snd_insert tp s e"
      have w: "seq_off (snd_una tp) s < seq_off (snd_una tp) e"
          "seq_off (snd_una tp) e \<le> seq_off (snd_una tp) (snd_max tp)"
        using rc(2) False Cons.prems(3) by auto
      note ins = snd_insert_inv[OF Cons.prems(1) w]
      have step: "sack_update_loop tp (k # sack) = sack_update_loop ?tp sack"
        using False by (simp add: s_def e_def Let_def)
      have rep: "reported tp (k # sack) =
          {seq_off (snd_una tp) s ..< seq_off (snd_una tp) e} \<union> reported tp sack"
        using rc(1) False Cons.prems(3) by (subst reported_Cons) simp
      have "reported ?tp sack = reported tp sack" by (rule reported_cong) simp_all
      then have ih: "octets (snd_una tp) (snd_sackblks (sack_update_loop ?tp sack)) \<subseteq>
          octets (snd_una tp) (snd_sackblks ?tp) \<union> reported tp sack \<and>
          (length (snd_sackblks ?tp) + length sack \<le> TCP_MAX_SACK_SND \<longrightarrow>
           octets (snd_una tp) (snd_sackblks (sack_update_loop ?tp sack)) =
           octets (snd_una tp) (snd_sackblks ?tp) \<union> reported tp sack)"
        using Cons.IH[of ?tp] ins(1) Cons.prems by simp
      show ?thesis
      proof (intro conjI impI)
        show "octets (snd_una tp) (snd_sackblks (sack_update_loop tp (k # sack)))
            \<subseteq> octets (snd_una tp) (snd_sackblks tp) \<union> reported tp (k # sack)"
          unfolding step rep using ih ins(2) by blast
        assume len: "length (snd_sackblks tp) + length (k # sack) \<le> TCP_MAX_SACK_SND"
        then have "octets (snd_una tp) (snd_sackblks ?tp) = octets (snd_una tp) (snd_sackblks tp) \<union>
            {seq_off (snd_una tp) s ..< seq_off (snd_una tp) e}"
          using ins(3) by simp
        moreover have "length (snd_sackblks ?tp) + length sack \<le> TCP_MAX_SACK_SND"
          using len ins(4) by simp
        ultimately show "octets (snd_una tp) (snd_sackblks (sack_update_loop tp (k # sack)))
            = octets (snd_una tp) (snd_sackblks tp) \<union> reported tp (k # sack)"
          unfolding step rep using ih by auto
      qed
    qed
  qed
  then show "octets (snd_una tp) (snd_sackblks (sack_update_loop tp sack)) \<subseteq>
         octets (snd_una tp) (snd_sackblks tp) \<union> reported tp sack"
    and "length (snd_sackblks tp) + length sack \<le> TCP_MAX_SACK_SND \<Longrightarrow>
         octets (snd_una tp) (snd_sackblks (sack_update_loop tp sack)) =
         octets (snd_una tp) (snd_sackblks tp) \<union> reported tp sack"
    by blast+
qed

section \<open>Receiver blocks\<close>

definition blk_sep :: "u32 \<Rightarrow> sackblk \<Rightarrow> sackblk \<Rightarrow> bool" where
  "blk_sep b x y \<longleftrightarrow> seq_off b (blk_end x) < seq_off b (blk_start y) \<or>
                     seq_off b (blk_end y) < seq_off b (blk_start x)"

definition blk_wf :: "u32 \<Rightarrow> sackblk \<Rightarrow> bool" where
  "blk_wf b x \<longleftrightarrow> seq_off b (blk_start x) < seq_off b (blk_end x) \<and> seq_off b (blk_end x) < 2 ^ 31"

definition rcv_blks_ok :: "u32 \<Rightarrow> sackblk list \<Rightarrow> bool" where
  "rcv_blks_ok b xs \<longleftrightarrow> list_all (blk_wf b) xs \<and> sorted_wrt (blk_sep b) xs"

lemma blk_sep_sym: "blk_sep b x y = blk_sep b y x"
  by (auto simp: blk_sep_def)

lemma blk_wf_in: "blk_wf b x \<Longrightarrow> seq_in b (blk_start x) \<and> seq_in b (blk_end x)"
  by (auto simp: blk_wf_def seq_in_def)

lemma sack_touch_iff:
  assumes "blk_wf b x" "blk_wf b y"
  shows "SEQ_LEQ (blk_start x) (blk_end y) \<and> SEQ_LEQ (blk_start y) (blk_end x) \<longleftrightarrow> \<not> blk_sep b x y"
  using blk_wf_in[OF assms(1)] blk_wf_in[OF assms(2)]
  by (auto simp: blk_sep_def sw.leq_off[of b])

definition blk_join :: "sackblk \<Rightarrow> sackblk \<Rightarrow> sackblk" where
  "blk_join b head =
     blk (if SEQ_LT (blk_start b) (blk_start head) then blk_start b else blk_start head)
         (if SEQ_GT (blk_end b) (blk_end head) then blk_end b else blk_end head)"

lemma blk_join_off:
  assumes "blk_wf b x" "blk_wf b h"
  shows "seq_off b (blk_start (blk_join x h)) = min (seq_off b (blk_start x)) (seq_off b (blk_start h))"
    and "seq_off b (blk_end (blk_join x h)) = max (seq_off b (blk_end x)) (seq_off b (blk_end h))"
  using blk_wf_in[OF assms(1)] blk_wf_in[OF assms(2)]
  by (auto simp: blk_join_def sw.lt_off[of b] sw.gt_off[of b])

lemma blk_join_wf: "blk_wf b x \<Longrightarrow> blk_wf b h \<Longrightarrow> blk_wf b (blk_join x h)"
  using blk_join_off[of b x h] by (auto simp: blk_wf_def)

lemma blk_join_sep:
  assumes "blk_wf b x" "blk_wf b h" "\<not> blk_sep b h x" "blk_wf b c" "blk_sep b c x" "blk_sep b c h"
  shows "blk_sep b c (blk_join x h)"
  using assms blk_join_off[OF assms(1,2)] by (auto simp: blk_sep_def blk_wf_def)

lemma blk_join_octets:
  assumes "blk_wf b x" "blk_wf b h" "\<not> blk_sep b h x"
  shows "octets b [blk_join x h] = octets b [x] \<union> octets b [h]"
  using assms blk_join_off[OF assms(1,2)] by (auto simp: blk_sep_def blk_wf_def)

lemma octets_below: "blk_wf b x \<Longrightarrow> seq_off b (blk_end x) \<le> n \<Longrightarrow> octets b [x] \<inter> {n..} = {}"
  by auto

lemma sack_walk_ok:
  assumes "seq_in b nxt" "blk_wf b head" "rcv_blks_ok b (saved @ bs)"
    and "\<forall>c \<in> set saved. blk_sep b c head"
    and "sack_walk nxt head saved bs = (head', saved')"
  shows "rcv_blks_ok b (head' # saved') \<and>
         octets b (head' # saved') \<inter> {seq_off b nxt..} =
           octets b (head # saved @ bs) \<inter> {seq_off b nxt..} \<and>
         octets b [head] \<subseteq> octets b [head'] \<and>
         length saved' \<le> length saved + length bs"
  using assms
proof (induction nxt head saved bs rule: sack_walk.induct)
  case (1 nxt head saved)
  then show ?case by (auto simp: rcv_blks_ok_def blk_sep_sym)
next
  case (2 nxt head saved x bs)
  let ?n = "seq_off b nxt"
  have wx: "blk_wf b x" using 2(6) by (simp add: rcv_blks_ok_def)
  note cmp = sw.leq_off[of b, OF conjunct2[OF blk_wf_in[OF wx]] 2(4)]
  consider (old) "SEQ_LEQ (blk_end x) nxt"
    | (join) "\<not> SEQ_LEQ (blk_end x) nxt" "\<not> blk_sep b head x"
    | (keep) "\<not> SEQ_LEQ (blk_end x) nxt" "blk_sep b head x" by blast
  then show ?case
  proof cases
    case old
    have ok: "rcv_blks_ok b (saved @ bs)"
      using 2(6) by (auto simp: rcv_blks_ok_def sorted_wrt_append)
    have "octets b [x] \<inter> {?n..} = {}" using octets_below[OF wx] old cmp by simp
    then have "octets b (head # saved @ x # bs) \<inter> {?n..} = octets b (head # saved @ bs) \<inter> {?n..}"
      by auto
    then show ?thesis using 2(1)[OF old 2(4,5) ok 2(7)] 2(8) old by auto
  next
    case join
    then have touch: "SEQ_LEQ (blk_start head) (blk_end x) \<and> SEQ_LEQ (blk_start x) (blk_end head)"
      using sack_touch_iff[OF 2(5) wx] by simp
    have ok: "rcv_blks_ok b (saved @ bs)"
      using 2(6) by (auto simp: rcv_blks_ok_def sorted_wrt_append)
    have sep: "\<forall>c \<in> set saved. blk_sep b c (blk_join x head)"
      using 2(6,7) join wx 2(5)
      by (auto simp: rcv_blks_ok_def sorted_wrt_append list_all_iff intro!: blk_join_sep)
    have "octets b [blk_join x head] = octets b [x] \<union> octets b [head]"
      by (rule blk_join_octets[OF wx 2(5) join(2)])
    then show ?thesis
      using 2(2)[OF join(1) touch 2(4), folded blk_join_def, OF blk_join_wf[OF wx 2(5)] ok sep]
        2(8) join touch by (auto simp: blk_join_def[symmetric])
  next
    case keep
    then have touch: "\<not> (SEQ_LEQ (blk_start head) (blk_end x) \<and> SEQ_LEQ (blk_start x) (blk_end head))"
      using sack_touch_iff[OF 2(5) wx] by simp
    have ok: "rcv_blks_ok b ((saved @ [x]) @ bs)" using 2(6) by simp
    have sep: "\<forall>c \<in> set (saved @ [x]). blk_sep b c head" using 2(7) keep by (simp add: blk_sep_sym)
    show ?thesis
      using 2(3)[OF keep(1) touch 2(4,5) ok sep] 2(8) keep touch by (auto simp: Un_ac)
  qed
qed

lemma rcv_blks_ok_take: "rcv_blks_ok b xs \<Longrightarrow> rcv_blks_ok b (take n xs)"
  by (auto simp: rcv_blks_ok_def list_all_iff sorted_wrt_take dest: in_set_takeD)

definition rcv_sack_inv :: "u32 \<Rightarrow> tcpcb \<Rightarrow> bool" where
  "rcv_sack_inv b tp \<longleftrightarrow> seq_in b (rcv_nxt tp) \<and> rcv_blks_ok b (sackblks tp) \<and>
     length (sackblks tp) \<le> TCP_MAX_SACK"

lemma tcp_sack_addblock_cases:
  assumes inv: "rcv_sack_inv b tp"
    and new: "seq_in b start" "seq_in b fin" "SEQ_LT start fin" "SEQ_GT fin (rcv_nxt tp)"
  obtains head saved where
    "tcp_sack_addblock tp start fin = tp\<lparr>sackblks := head # take (TCP_MAX_SACK - 1) saved\<rparr>"
    "rcv_blks_ok b (head # saved)"
    "octets b (head # saved) \<inter> {seq_off b (rcv_nxt tp)..} =
       (octets b (sackblks tp) \<union> {seq_off b start ..< seq_off b fin}) \<inter> {seq_off b (rcv_nxt tp)..}"
    "{seq_off b start ..< seq_off b fin} \<inter> {seq_off b (rcv_nxt tp)..} \<subseteq> octets b [head]"
    "length saved \<le> length (sackblks tp)"
proof -
  let ?n = "rcv_nxt tp"
  have wn: "seq_in b ?n" using inv by (simp add: rcv_sack_inv_def)
  define s where "s = (if SEQ_LT start ?n then ?n else start)"
  have os: "seq_off b s = max (seq_off b start) (seq_off b ?n)"
    using new wn by (auto simp: s_def sw.lt_off[of b])
  have ws: "seq_in b s" using new wn by (simp add: s_def)
  have lt: "seq_off b s < seq_off b fin"
    using new wn os by (simp add: sw.lt_off[of b] sw.gt_off[of b])
  have c1: "\<not> SEQ_LEQ fin ?n" using new wn by (simp add: sw.leq_off[of b] sw.gt_off[of b])
  have c2: "\<not> SEQ_GEQ s fin" using ws new lt by (simp add: sw.geq_off[of b])
  have wh: "blk_wf b (blk s fin)" using lt new by (simp add: blk_wf_def seq_in_def)
  obtain head saved where w: "sack_walk ?n (blk s fin) [] (sackblks tp) = (head, saved)"
    by force
  have ok: "rcv_blks_ok b ([] @ sackblks tp)" using inv by (simp add: rcv_sack_inv_def)
  have "\<forall>c \<in> set []. blk_sep b c (blk s fin)" by simp
  note r = sack_walk_ok[OF wn wh ok this w]
  have o: "octets b [blk s fin] = {seq_off b start ..< seq_off b fin} \<inter> {seq_off b ?n..}"
    using os by auto
  show thesis
  proof (rule that)
    show "tcp_sack_addblock tp start fin = tp\<lparr>sackblks := head # take (TCP_MAX_SACK - 1) saved\<rparr>"
      using c1 c2 w by (simp add: tcp_sack_addblock_def s_def[symmetric] Let_def)
    show "rcv_blks_ok b (head # saved)" using r by simp
    show "octets b (head # saved) \<inter> {seq_off b ?n..} =
        (octets b (sackblks tp) \<union> {seq_off b start ..< seq_off b fin}) \<inter> {seq_off b ?n..}"
      using r o by auto
    show "{seq_off b start ..< seq_off b fin} \<inter> {seq_off b ?n..} \<subseteq> octets b [head]"
      unfolding o[symmetric] using r by blast
    show "length saved \<le> length (sackblks tp)" using r by simp
  qed
qed


lemma octets_take_Cons: "octets b (x # take n xs) \<subseteq> octets b (x # xs)"
  using octets_take[of b n xs] by auto

text \<open>
  Receiver SACK list. Reporting an out-of-order range keeps the block list well formed
  (at most four non-empty blocks, pairwise separated by a gap), puts the new range into the
  first block (RFC 2018 section 4), never claims an octet above \<open>rcv_nxt\<close> that was not
  received, and loses none as long as there is a free slot.\<close>

theorem tcp_sack_addblock_spec:
  assumes inv: "rcv_sack_inv b tp"
    and new: "seq_in b start" "seq_in b fin" "SEQ_LT start fin" "SEQ_GT fin (rcv_nxt tp)"
  shows "rcv_sack_inv b (tcp_sack_addblock tp start fin) \<and>
         {seq_off b start ..< seq_off b fin} \<inter> {seq_off b (rcv_nxt tp)..} \<subseteq>
           octets b (take 1 (sackblks (tcp_sack_addblock tp start fin))) \<and>
         octets b (sackblks (tcp_sack_addblock tp start fin)) \<inter> {seq_off b (rcv_nxt tp)..} \<subseteq>
           (octets b (sackblks tp) \<union> {seq_off b start ..< seq_off b fin}) \<inter> {seq_off b (rcv_nxt tp)..} \<and>
         (length (sackblks tp) < TCP_MAX_SACK \<longrightarrow>
            octets b (sackblks (tcp_sack_addblock tp start fin)) \<inter> {seq_off b (rcv_nxt tp)..} =
            (octets b (sackblks tp) \<union> {seq_off b start ..< seq_off b fin}) \<inter> {seq_off b (rcv_nxt tp)..})"
proof -
  define n where "n = seq_off b (rcv_nxt tp)"
  define tp' where "tp' = tcp_sack_addblock tp start fin"
  obtain head saved where c:
    "tp' = tp\<lparr>sackblks := head # take (TCP_MAX_SACK - 1) saved\<rparr>"
    "rcv_blks_ok b (head # saved)"
    "octets b (head # saved) \<inter> {n..} =
       (octets b (sackblks tp) \<union> {seq_off b start ..< seq_off b fin}) \<inter> {n..}"
    "{seq_off b start ..< seq_off b fin} \<inter> {n..} \<subseteq> octets b [head]"
    "length saved \<le> length (sackblks tp)"
    using tcp_sack_addblock_cases[OF inv new] unfolding n_def tp'_def by metis
  have blks: "sackblks tp' = head # take (TCP_MAX_SACK - 1) saved" using c(1) by simp
  have "rcv_sack_inv b tp'"
    using inv rcv_blks_ok_take[OF c(2), of TCP_MAX_SACK] c(1)
    by (simp add: rcv_sack_inv_def TCP_MAX_SACK_def)
  moreover have "{seq_off b start ..< seq_off b fin} \<inter> {n..} \<subseteq> octets b (take 1 (sackblks tp'))"
    using c(4) unfolding blks by (simp only: take_Suc_Cons One_nat_def take_0)
  moreover have "octets b (sackblks tp') \<inter> {n..} \<subseteq>
      (octets b (sackblks tp) \<union> {seq_off b start ..< seq_off b fin}) \<inter> {n..}"
    using c(3) octets_take_Cons[of b head "TCP_MAX_SACK - 1" saved] unfolding blks by blast
  moreover have "octets b (sackblks tp') \<inter> {n..} =
      (octets b (sackblks tp) \<union> {seq_off b start ..< seq_off b fin}) \<inter> {n..}"
    if "length (sackblks tp) < TCP_MAX_SACK"
    using c(3,5) that unfolding blks by simp
  ultimately show ?thesis unfolding n_def tp'_def by blast
qed

theorem tcp_sack_addblock_spec_witness:
  "rcv_sack_inv 0 (tcp_sack_addblock (tcpcb_zero\<lparr>rcv_nxt := 100, sackblks := [blk 300 400]\<rparr>) 150 300)
   \<and> sackblks (tcp_sack_addblock (tcpcb_zero\<lparr>rcv_nxt := 100, sackblks := [blk 300 400]\<rparr>) 150 300)
      = [blk 150 400]"
proof
  have "rcv_sack_inv 0 (tcpcb_zero\<lparr>rcv_nxt := 100, sackblks := [blk 300 400]\<rparr>)"
    by (simp add: rcv_sack_inv_def rcv_blks_ok_def blk_wf_def seq_in_def seq_off_def TCP_MAX_SACK_def)
  from tcp_sack_addblock_spec[OF this, of 150 300]
  show "rcv_sack_inv 0 (tcp_sack_addblock (tcpcb_zero\<lparr>rcv_nxt := 100, sackblks := [blk 300 400]\<rparr>) 150 300)"
    by (simp add: seq_in_def seq_off_def SEQ_LT_def SEQ_GT_def)
  show "sackblks (tcp_sack_addblock (tcpcb_zero\<lparr>rcv_nxt := 100, sackblks := [blk 300 400]\<rparr>) 150 300)
      = [blk 150 400]"
    by (simp add: tcp_sack_addblock_def SEQ_defs)
qed

text \<open>C14: the sender's scoreboard. Folding an acknowledgement's SACK blocks in keeps the
  scoreboard sorted, merged (a gap of at least one octet between blocks), inside
  \<open>[snd_una, snd_max]\<close> and within its sixteen slots, whatever the blocks are, except for blocks
  that end at or below \<open>snd_una\<close> while starting above it or ending half the sequence space
  away (\<open>sack_sane\<close>).\<close>

theorem tcp_sack_update_inv:
  assumes "snd_sack_inv b tp" "\<forall>k \<in> set sack. sack_sane (snd_una tp) k"
  shows "snd_sack_inv (snd_una tp) (tcp_sack_update tp sack)"
proof -
  have "snd_una (tcp_sack_snd_trim tp) = snd_una tp" by (simp add: tcp_sack_snd_trim_def)
  then show ?thesis
    using sack_update_loop_inv[of "tcp_sack_snd_trim tp" sack] snd_trim_inv[OF assms(1)] assms(2)
    by (simp add: tcp_sack_update_def)
qed

theorem tcp_sack_update_inv_witness:
  "snd_sack_inv 1000 (tcp_sack_update (tcpcb_zero\<lparr>snd_una := 1000, snd_max := 9000\<rparr>)
      [blk 2000 3000, blk 500 700, blk 3000 20000]) \<and>
   snd_sackblks (tcp_sack_update (tcpcb_zero\<lparr>snd_una := 1000, snd_max := 9000\<rparr>)
      [blk 2000 3000, blk 500 700, blk 3000 20000]) = [blk 2000 9000]"
proof
  let ?tp = "tcpcb_zero\<lparr>snd_una := 1000, snd_max := 9000\<rparr>"
  have "snd_sack_inv 0 ?tp"
    by (simp add: snd_sack_inv_def seq_off_def TCP_MAX_SACK_SND_def)
  from tcp_sack_update_inv[OF this, of "[blk 2000 3000, blk 500 700, blk 3000 20000]"]
  show "snd_sack_inv 1000 (tcp_sack_update ?tp [blk 2000 3000, blk 500 700, blk 3000 20000])"
    by (simp add: sack_sane_def SEQ_defs)
  show "snd_sackblks (tcp_sack_update ?tp [blk 2000 3000, blk 500 700, blk 3000 20000]) = [blk 2000 9000]"
    by (simp add: tcp_sack_update_def tcp_sack_snd_trim_def tcp_sack_snd_insert_def snd_push_def
        SEQ_defs Let_def TCP_MAX_SACK_SND_def)
qed

text \<open>
  The scoreboard after an update covers exactly the octets it covered above
  \<open>snd_una\<close> before, together with the octets of the unacknowledged window that the reported
  blocks name, when there is room for the blocks and the peer's numbers lie within \<open>2 ^ 30\<close>
  of \<open>snd_una\<close>: nothing is forgotten and nothing is invented.\<close>

theorem tcp_sack_update_exact:
  assumes "snd_sack_inv b tp" "seq_off (snd_una tp) (snd_max tp) < 2 ^ 30"
    and "\<forall>k \<in> set sack. sack_near (snd_una tp) k"
    and "length (snd_sackblks tp) + length sack \<le> TCP_MAX_SACK_SND"
  shows "octets (snd_una tp) (snd_sackblks (tcp_sack_update tp sack)) =
         octets (snd_una tp) (snd_sackblks (tcp_sack_snd_trim tp)) \<union> reported tp sack"
proof -
  let ?t = "tcp_sack_snd_trim tp"
  have same: "snd_una ?t = snd_una tp" "snd_max ?t = snd_max tp" by (simp_all add: tcp_sack_snd_trim_def)
  have "length (snd_sackblks ?t) \<le> length (snd_sackblks tp)"
    by (simp add: tcp_sack_snd_trim_def length_sack_trim)
  then have "length (snd_sackblks ?t) + length sack \<le> TCP_MAX_SACK_SND" using assms(4) by linarith
  moreover have "reported ?t sack = reported tp sack" by (rule reported_cong) (simp_all add: same)
  ultimately show ?thesis
    using sack_update_loop_exact(2)[of ?t sack] snd_trim_inv[OF assms(1)] assms(2,3)
    by (simp add: tcp_sack_update_def same)
qed

theorem tcp_sack_update_exact_witness:
  "octets 1000 (snd_sackblks (tcp_sack_update (tcpcb_zero\<lparr>snd_una := 1000, snd_max := 9000\<rparr>) [blk 2000 3000]))
   = reported (tcpcb_zero\<lparr>snd_una := 1000, snd_max := 9000\<rparr>) [blk 2000 3000]"
proof -
  let ?tp = "tcpcb_zero\<lparr>snd_una := 1000, snd_max := 9000\<rparr>"
  have "snd_sack_inv 0 ?tp"
    by (simp add: snd_sack_inv_def seq_off_def TCP_MAX_SACK_SND_def)
  from tcp_sack_update_exact[OF this, of "[blk 2000 3000]"] show ?thesis
    by (simp add: sack_near_def seq_in_def seq_off_def tcp_sack_snd_trim_def TCP_MAX_SACK_SND_def)
qed

text \<open>
  The clamping of \<open>tcp_sack_update\<close> misses a block whose start is
  \<open>snd_una + 0x7FFFFFFF\<close> and whose end is \<open>snd_una - 1\<close>: both comparisons with the window pass,
  start and end are half the sequence space apart, and the block is stored although it lies
  outside \<open>[snd_una, snd_max]\<close>, against what \<open>tcp_sack_snd_insert\<close> is promised.\<close>

theorem tcp_sack_update_unclamped:
  assumes "seq_off (snd_una tp) (snd_max tp) < 2 ^ 31" "snd_sackblks tp = []"
  shows "snd_sackblks (tcp_sack_update tp [blk (snd_una tp + 0x7FFFFFFF) (snd_una tp - 1)]) =
           [blk (snd_una tp + 0x7FFFFFFF) (snd_una tp - 1)] \<and>
         \<not> snd_sack_inv (snd_una tp)
            (tcp_sack_update tp [blk (snd_una tp + 0x7FFFFFFF) (snd_una tp - 1)])"
proof -
  let ?u = "snd_una tp" and ?m = "snd_max tp"
  let ?k = "blk (?u + 0x7FFFFFFF) (?u - 1)"
  have d: "?u - 1 - ?m = - of_nat (Suc (seq_off ?u ?m))"
    by (simp add: seq_off_def)
  have neg: "sint (- (of_nat n :: u32)) \<le> 0" if "0 < n" "n \<le> 2 ^ 31" for n
  proof (rule ccontr)
    assume "\<not> sint (- (of_nat n :: u32)) \<le> 0"
    then have z: "unat (- (of_nat n :: u32)) < 2 ^ 31" using sint_neg_iff[of "- (of_nat n :: u32)"] by linarith
    then have "sint (0 - - (of_nat n :: u32)) = 0 - int (unat (- (of_nat n :: u32)))"
      using sint_diff_small[of 0 "- (of_nat n :: u32)"] by simp
    then have s: "sint (of_nat n :: u32) \<le> 0" by simp
    have "n \<noteq> 2 ^ 31" using z by auto
    then show False using s sint_of_nat_u32[of n] that by simp
  qed
  have c1: "\<not> SEQ_GT (?u - 1) ?m"
    unfolding SEQ_GT_def d using neg[of "Suc (seq_off ?u ?m)"] assms(1) by (simp del: of_nat_Suc)
  have c2: "\<not> SEQ_LT (?u + 0x7FFFFFFF) ?u" "\<not> SEQ_GEQ (?u + 0x7FFFFFFF) (?u - 1)"
    by (simp_all add: SEQ_defs)
  have r: "snd_sackblks (tcp_sack_update tp [?k]) = [?k]"
    using c1 c2 assms(2) by (simp add: tcp_sack_update_def tcp_sack_snd_trim_def
      tcp_sack_snd_insert_def snd_push_def TCP_MAX_SACK_SND_def Let_def)
  have "snd_max (tcp_sack_update tp [?k]) = ?m"
    by (simp add: tcp_sack_update_def tcp_sack_snd_trim_def Let_def)
  moreover have "seq_off ?u (?u - 1) = 2 ^ 32 - 1"
    by (simp add: seq_off_def unsigned_minus_1_eq_mask mask_eq_exp_minus_1)
  ultimately show ?thesis using r assms(1) by (simp add: snd_sack_inv_def)
qed


theorem tcp_sack_update_unclamped_witness:
  "snd_sackblks (tcp_sack_update (tcpcb_zero\<lparr>snd_una := 1000, snd_max := 9000\<rparr>) [blk 2147484647 999]) =
     [blk 2147484647 999]"
  using tcp_sack_update_unclamped[of "tcpcb_zero\<lparr>snd_una := 1000, snd_max := 9000\<rparr>"]
  by (simp add: seq_off_def)

end
