(* ===== verification/Tcp_Sack_Recovery.thy ===== *)
theory Tcp_Sack_Recovery
  imports Tcp_Sack_Board
begin

text \<open>
  The loss-recovery decisions of \<open>netinet/tcp_sack.c\<close> against RFC 6675 and RFC 6937: IsLost as
  a count of islands and octets, its monotonicity (which justifies the early stop of NextSeg),
  the pipe estimate, the choice of the next hole, and the rate reduction.
\<close>

section \<open>IsLost\<close>

text \<open>The islands above an offset, and the octets reported at or above it.\<close>

definition islands_above :: "u32 \<Rightarrow> nat \<Rightarrow> sackblk list \<Rightarrow> nat" where
  "islands_above b n xs = length (filter (\<lambda>k. n < seq_off b (blk_start k)) xs)"

definition octets_above :: "u32 \<Rightarrow> nat \<Rightarrow> sackblk list \<Rightarrow> nat" where
  "octets_above b n xs = card (octets b xs \<inter> {n..})"

lemma finite_octets [simp]: "finite (octets b xs)"
  by (simp add: octets_def)

lemma octets_above_le: "blks_ok b lo hi xs \<Longrightarrow> octets_above b n xs \<le> hi - lo"
proof -
  assume "blks_ok b lo hi xs"
  then have "octets b xs \<inter> {n..} \<subseteq> {lo ..< hi}" using blks_ok_octets by blast
  from card_mono[OF _ this] show ?thesis by (simp add: octets_above_def)
qed

lemma octets_above_Cons:
  assumes "blks_ok b lo hi (x # xs)"
  shows "octets_above b n (x # xs) =
    (seq_off b (blk_end x) - max n (seq_off b (blk_start x))) + octets_above b n xs"
proof -
  let ?I = "{seq_off b (blk_start x) ..< seq_off b (blk_end x)} \<inter> {n..}"
  have "octets b xs \<subseteq> {Suc (seq_off b (blk_end x)) ..< hi}"
    using assms blks_ok_octets[of b _ hi xs] by simp
  then have "?I \<inter> (octets b xs \<inter> {n..}) = {}" by auto
  moreover have "?I = {max n (seq_off b (blk_start x)) ..< seq_off b (blk_end x)}" by auto
  ultimately show ?thesis
    by (simp add: octets_above_def Int_Un_distrib2 card_Un_disjoint)
qed

lemma octets_above_mono: "m \<le> n \<Longrightarrow> octets_above b n xs \<le> octets_above b m xs"
  unfolding octets_above_def by (intro card_mono) auto

lemma islands_above_mono: "m \<le> n \<Longrightarrow> islands_above b n xs \<le> islands_above b m xs"
  unfolding islands_above_def by (induction xs) auto

lemma islost_walk_spec:
  assumes "blks_ok b lo hi xs" "hi < 2 ^ 31" "seq_in b seq"
  shows "islost_walk seq xs i a =
    (i + islands_above b (seq_off b seq) xs, a + of_nat (octets_above b (seq_off b seq) xs))"
  using assms(1)
proof (induction xs arbitrary: lo i a)
  case Nil
  then show ?case by (simp add: islands_above_def octets_above_def)
next
  case (Cons x xs)
  note w = blks_ok_Cons_in[OF Cons.prems assms(2)]
  have tl: "blks_ok b (Suc (seq_off b (blk_end x))) hi xs" using Cons.prems by simp
  note cmp = sw.leq_off[of b, OF w(2) assms(3)] sw.gt_off[of b, OF w(1) assms(3)]
  note oa = octets_above_Cons[OF Cons.prems, of "seq_off b seq"]
  consider (below) "seq_off b (blk_end x) \<le> seq_off b seq"
    | (abv) "seq_off b seq < seq_off b (blk_start x)"
    | (strad) "\<not> seq_off b (blk_end x) \<le> seq_off b seq" "\<not> seq_off b seq < seq_off b (blk_start x)"
    by blast
  then show ?case
  proof cases
    case below
    then show ?thesis using Cons.IH[OF tl] Cons.prems cmp oa by (simp add: islands_above_def)
  next
    case abv
    then have "blk_end x - blk_start x = of_nat (seq_off b (blk_end x) - seq_off b (blk_start x))"
      using Cons.prems by (intro seq_diff_of_nat) simp
    then show ?thesis using Cons.IH[OF tl] Cons.prems cmp oa abv
      by (simp add: islands_above_def max_def)
  next
    case strad
    then have "blk_end x - seq = of_nat (seq_off b (blk_end x) - seq_off b seq)"
      by (intro seq_diff_of_nat) simp
    then show ?thesis using Cons.IH[OF tl] Cons.prems cmp oa strad
      by (simp add: islands_above_def max_def)
  qed
qed

lemma snd_sack_inv_blks:
  assumes "snd_sack_inv b tp"
  shows "blks_ok b 0 (seq_off b (snd_max tp)) (snd_sackblks tp)" "seq_off b (snd_max tp) < 2 ^ 31"
    "seq_in b (snd_una tp)" "seq_in b (snd_max tp)"
  using assms by (auto simp: snd_sack_inv_def seq_in_def)

lemma islost_conv:
  assumes "snd_sack_inv b tp" "seq_in b seq"
  shows "tcp_sack_islost tp seq \<longleftrightarrow>
    tcprexmtthresh \<le> islands_above b (seq_off b seq) (snd_sackblks tp) \<or>
    (tcprexmtthresh - 1) * unat (t_maxseg tp) < octets_above b (seq_off b seq) (snd_sackblks tp)"
proof -
  note i = snd_sack_inv_blks[OF assms(1)]
  have "octets_above b (seq_off b seq) (snd_sackblks tp) < 2 ^ 31"
    using octets_above_le[OF i(1), of "seq_off b seq"] i(2) by simp
  note s = sint_of_nat_u32[OF this]
  have c: "int m * int n < int k \<longleftrightarrow> m * n < k" for m n k :: nat
    by (metis of_nat_less_iff of_nat_mult)
  show ?thesis
    using islost_walk_spec[OF i(1,2) assms(2), of 0 0] s
    by (simp add: tcp_sack_islost_def c del: of_nat_unat)
qed

lemma islost_antimono:
  assumes "snd_sack_inv b tp" "seq_in b x" "seq_in b y" "SEQ_LEQ x y" "tcp_sack_islost tp y"
  shows "tcp_sack_islost tp x"
proof -
  have "seq_off b x \<le> seq_off b y" using assms by (simp add: sw.leq_off[of b])
  then show ?thesis
    using assms islost_conv[OF assms(1,2)] islost_conv[OF assms(1,3)]
      octets_above_mono[of "seq_off b x" "seq_off b y" b "snd_sackblks tp"]
      islands_above_mono[of "seq_off b x" "seq_off b y" b "snd_sackblks tp"] by linarith
qed

lemma issacked_conv:
  assumes "snd_sack_inv b tp" "seq_in b seq"
  shows "tcp_sack_issacked tp seq \<longleftrightarrow> seq_off b seq \<in> octets b (snd_sackblks tp)"
  using blks_ok_in[OF snd_sack_inv_blks(1,2)[OF assms(1)]] assms(2)
  by (auto simp: tcp_sack_issacked_def list_ex_iff octets_def sw.leq_off[of b] sw.lt_off[of b])

section \<open>Bytes above\<close>

lemma bytes_above_walk_spec:
  assumes "blks_ok b lo hi xs" "hi < 2 ^ 31" "seq_in b flo"
  shows "bytes_above_walk flo xs a = a + of_nat (octets_above b (seq_off b flo) xs)"
  using assms(1)
proof (induction xs arbitrary: lo a)
  case Nil
  then show ?case by (simp add: octets_above_def)
next
  case (Cons x xs)
  note w = blks_ok_Cons_in[OF Cons.prems assms(2)]
  have tl: "blks_ok b (Suc (seq_off b (blk_end x))) hi xs" using Cons.prems by simp
  note cmp = sw.leq_off[of b, OF w(2) assms(3)] sw.lt_off[of b, OF w(1) assms(3)]
  note oa = octets_above_Cons[OF Cons.prems, of "seq_off b flo"]
  show ?case
  proof (cases "seq_off b (blk_end x) \<le> seq_off b flo")
    case True
    then show ?thesis using Cons.IH[OF tl] cmp oa by simp
  next
    case False
    define s where "s = (if SEQ_LT (blk_start x) flo then flo else blk_start x)"
    have os: "seq_off b s = max (seq_off b flo) (seq_off b (blk_start x))"
      using cmp by (simp add: s_def max_def)
    have "blk_end x - s = of_nat (seq_off b (blk_end x) - seq_off b s)"
      using os False Cons.prems by (intro seq_diff_of_nat) simp
    moreover have "bytes_above_walk flo (x # xs) a = bytes_above_walk flo xs (a + (blk_end x - s))"
      using cmp(1) False by (simp add: s_def)
    ultimately show ?thesis unfolding oa Cons.IH[OF tl] os by (simp only: of_nat_add add.assoc)
  qed
qed

lemma snd_bytes_above_conv:
  assumes "snd_sack_inv b tp" "seq_in b flo"
  shows "unat (tcp_sack_snd_bytes_above tp flo) =
         octets_above b (seq_off b flo) (snd_sackblks tp)"
proof -
  note i = snd_sack_inv_blks[OF assms(1)]
  have "octets_above b (seq_off b flo) (snd_sackblks tp) < 2 ^ 31"
    using octets_above_le[OF i(1), of "seq_off b flo"] i(2) by simp
  then show ?thesis
    using bytes_above_walk_spec[OF i(1,2) assms(2), of 0]
    by (simp add: tcp_sack_snd_bytes_above_def unat_of_nat)
qed

section \<open>Pipe\<close>

lemma sack_pipe_loop_bound:
  assumes "seq_off b (snd_max tp) < 2 ^ 31" "seq_off b seq \<le> seq_off b (snd_max tp)"
    "unat pipe + (seq_off b (snd_max tp) - seq_off b seq) < 2 ^ 31"
  shows "unat (sack_pipe_loop tp seq pipe) \<le>
         unat pipe + (seq_off b (snd_max tp) - seq_off b seq) \<and>
         (snd_sackblks tp = [] \<longrightarrow> unat (sack_pipe_loop tp seq pipe) =
            unat pipe + (seq_off b (snd_max tp) - seq_off b seq))"
  using assms
proof (induction tp seq pipe rule: sack_pipe_loop.induct)
  case (1 tp seq pipe)
  let ?m = "snd_max tp"
  have w: "seq_in b ?m" "seq_in b seq" using 1(2,3) by (simp_all add: seq_in_def)
  show ?case
  proof (cases "SEQ_LT seq ?m")
    case False
    then have "seq_off b ?m \<le> seq_off b seq" using w by (simp add: sw.lt_off[of b])
    moreover have "sack_pipe_loop tp seq pipe = pipe"
      using False by (subst sack_pipe_loop.simps) simp
    ultimately show ?thesis using 1(3) by simp
  next
    case True
    define mss where "mss = pipe_mss tp"
    define fin where "fin = (if SEQ_GT (seq + ucast mss) ?m then ?m else seq + ucast mss)"
    define pipe' where "pipe' = (if \<not> tcp_sack_issacked tp seq \<and>
        (\<not> tcp_sack_islost tp seq \<or> SEQ_LT seq (snd_highrxt tp)) then pipe + (fin - seq) else pipe)"
    have unf: "sack_pipe_loop tp seq pipe = sack_pipe_loop tp fin pipe'"
      using True by (subst sack_pipe_loop.simps) (simp add: fin_def pipe'_def mss_def Let_def)
    have "seq_off seq ?m < 2 ^ 31" using 1(2) seq_off_rebase[OF 1(3)] by simp
    then have "seq_in seq ?m" by (simp add: seq_in_def)
    then have "seq_off b seq \<le> seq_off b fin \<and> seq_off b fin \<le> seq_off b ?m"
      unfolding fin_def using seq_step_fin[of seq ?m b mss] 1(2,3) by blast
    then have fin: "seq_off b seq \<le> seq_off b fin" "seq_off b fin \<le> seq_off b ?m" by auto
    have d: "fin - seq = of_nat (seq_off b fin - seq_off b seq)" using fin by (intro seq_diff_of_nat)
    have "unat pipe + (seq_off b fin - seq_off b seq) < 2 ^ 32" using fin 1(4) by simp
    then have up: "unat (pipe + (fin - seq)) = unat pipe + (seq_off b fin - seq_off b seq)"
      unfolding d by (rule unat_add_of_nat)
    have emp: "snd_sackblks tp = [] \<Longrightarrow> pipe' = pipe + (fin - seq)"
      by (simp add: pipe'_def tcp_sack_issacked_def tcp_sack_islost_def tcprexmtthresh_def)
    have p': "unat pipe' \<le> unat pipe + (seq_off b fin - seq_off b seq)"
      using up by (simp add: pipe'_def)
    have "unat (sack_pipe_loop tp fin pipe') \<le> unat pipe' + (seq_off b ?m - seq_off b fin) \<and>
       (snd_sackblks tp = [] \<longrightarrow>
        unat (sack_pipe_loop tp fin pipe') = unat pipe' + (seq_off b ?m - seq_off b fin))"
      using 1(1)[OF True refl refl, folded mss_def, folded fin_def, folded pipe'_def] fin p' 1(2,4)
      by simp
    then have ih: "unat (sack_pipe_loop tp fin pipe') \<le> unat pipe' + (seq_off b ?m - seq_off b fin)"
      "snd_sackblks tp = [] \<Longrightarrow>
        unat (sack_pipe_loop tp fin pipe') = unat pipe' + (seq_off b ?m - seq_off b fin)" by auto
    show ?thesis unfolding unf
    proof (intro conjI impI)
      show "unat (sack_pipe_loop tp fin pipe') \<le> unat pipe + (seq_off b ?m - seq_off b seq)"
        using ih(1) p' fin by linarith
      assume "snd_sackblks tp = []"
      then show "unat (sack_pipe_loop tp fin pipe') = unat pipe + (seq_off b ?m - seq_off b seq)"
        using ih(2) emp up fin by simp
    qed
  qed
qed


lemma snd_sack_inv_flight:
  assumes "snd_sack_inv b tp"
  shows "seq_off b (snd_max tp) - seq_off b (snd_una tp) = seq_off (snd_una tp) (snd_max tp)"
  using seq_off_rebase[of b "snd_una tp" "snd_max tp"] assms by (simp add: snd_sack_inv_def)

lemma tcp_sack_pipe_bound:
  assumes "snd_sack_inv b tp"
  shows "unat (tcp_sack_pipe tp) \<le> seq_off (snd_una tp) (snd_max tp)"
    "snd_sackblks tp = [] \<Longrightarrow> unat (tcp_sack_pipe tp) = seq_off (snd_una tp) (snd_max tp)"
    "seq_off (snd_una tp) (snd_max tp) < 2 ^ 31"
proof -
  have i: "seq_off b (snd_max tp) < 2 ^ 31" "seq_off b (snd_una tp) \<le> seq_off b (snd_max tp)"
    using assms by (simp_all add: snd_sack_inv_def)
  then have "unat (0 :: u32) + (seq_off b (snd_max tp) - seq_off b (snd_una tp)) < 2 ^ 31" by simp
  note p = sack_pipe_loop_bound[OF i this]
  show "unat (tcp_sack_pipe tp) \<le> seq_off (snd_una tp) (snd_max tp)"
    "snd_sackblks tp = [] \<Longrightarrow> unat (tcp_sack_pipe tp) = seq_off (snd_una tp) (snd_max tp)"
    using p snd_sack_inv_flight[OF assms] by (simp_all add: tcp_sack_pipe_def)
  show "seq_off (snd_una tp) (snd_max tp) < 2 ^ 31"
    unfolding snd_sack_inv_flight[OF assms, symmetric] using i by linarith
qed

section \<open>NextSeg\<close>

lemma nextseg_walk_spec:
  assumes "blks_ok b lo hi xs" "hi < 2 ^ 31"
    and "seq_in b holestart" "seq_in b (snd_highrxt tp)" "seq_off b holestart \<le> lo"
    and "snd_sack_inv b tp"
  shows "case nextseg_walk tp holestart xs of
      (s, e, True) \<Rightarrow> seq_in b s \<and> seq_off b holestart \<le> seq_off b s \<and> seq_off b s < seq_off b e \<and>
          seq_off b (snd_highrxt tp) \<le> seq_off b s \<and>
          {seq_off b s ..< seq_off b e} \<inter> octets b xs = {} \<and>
          e \<in> blk_start ` set xs \<and> tcp_sack_islost tp s
    | (s, e, False) \<Rightarrow> s = snd_max tp \<and> e = snd_max tp \<and>
          (\<forall>x. seq_in b x \<and> SEQ_LEQ holestart x \<and> SEQ_LEQ (snd_highrxt tp) x \<and>
               seq_off b x \<notin> octets b xs \<and> (\<exists>k \<in> set xs. SEQ_LT x (blk_start k)) \<longrightarrow>
               \<not> tcp_sack_islost tp x)"
  using assms(1,3,5)
proof (induction xs arbitrary: lo holestart)
  case Nil
  then show ?case by simp
next
  case (Cons k xs)
  note w = blks_ok_Cons_in[OF Cons.prems(1) assms(2)]
  have tl: "blks_ok b (Suc (seq_off b (blk_end k))) hi xs" using Cons.prems by simp
  define s where "s = (if SEQ_LT holestart (snd_highrxt tp) then snd_highrxt tp else holestart)"
  have ws: "seq_in b s" and os: "seq_off b s = max (seq_off b holestart) (seq_off b (snd_highrxt tp))"
    using assms(4) Cons.prems(2) by (auto simp: s_def sw.lt_off[of b])
  have later: "octets b xs \<subseteq> {Suc (seq_off b (blk_end k)) ..< hi}" using blks_ok_octets[OF tl] .
  show ?case
  proof (cases "SEQ_LT s (blk_start k)")
    case True
    then have lt: "seq_off b s < seq_off b (blk_start k)" using ws w by (simp add: sw.lt_off[of b])
    have unf: "nextseg_walk tp holestart (k # xs) =
        (if tcp_sack_islost tp s then (s, blk_start k, True) else (snd_max tp, snd_max tp, False))"
      using True by (simp add: s_def[symmetric] Let_def)
    show ?thesis
    proof (cases "tcp_sack_islost tp s")
      case lost: True
      have "{seq_off b s ..< seq_off b (blk_start k)} \<inter> octets b (k # xs) = {}"
        using later Cons.prems(1) by fastforce
      then show ?thesis unfolding unf using lost lt os ws by simp
    next
      case nl: False
      have "\<not> tcp_sack_islost tp x"
        if "seq_in b x" "SEQ_LEQ holestart x" "SEQ_LEQ (snd_highrxt tp) x" for x
      proof
        assume l: "tcp_sack_islost tp x"
        have "SEQ_LEQ s x" using that by (simp add: s_def)
        from islost_antimono[OF assms(6) ws that(1) this l] nl show False by simp
      qed
      then show ?thesis unfolding unf using nl by simp
    qed
  next
    case False
    then have ge: "seq_off b (blk_start k) \<le> seq_off b s" using ws w by (simp add: sw.lt_off[of b])
    have unf: "nextseg_walk tp holestart (k # xs) = nextseg_walk tp (blk_end k) xs"
      using False by (simp add: s_def[symmetric] Let_def)
    have ih: "case nextseg_walk tp (blk_end k) xs of
      (s, e, True) \<Rightarrow> seq_in b s \<and> seq_off b (blk_end k) \<le> seq_off b s \<and> seq_off b s < seq_off b e \<and>
          seq_off b (snd_highrxt tp) \<le> seq_off b s \<and>
          {seq_off b s ..< seq_off b e} \<inter> octets b xs = {} \<and>
          e \<in> blk_start ` set xs \<and> tcp_sack_islost tp s
    | (s, e, False) \<Rightarrow> s = snd_max tp \<and> e = snd_max tp \<and>
          (\<forall>x. seq_in b x \<and> SEQ_LEQ (blk_end k) x \<and> SEQ_LEQ (snd_highrxt tp) x \<and>
               seq_off b x \<notin> octets b xs \<and> (\<exists>k \<in> set xs. SEQ_LT x (blk_start k)) \<longrightarrow>
               \<not> tcp_sack_islost tp x)"
      using Cons.IH[OF tl w(2)] by simp
    have up: "SEQ_LEQ (blk_end k) x"
      if "seq_in b x" "SEQ_LEQ holestart x" "SEQ_LEQ (snd_highrxt tp) x" "seq_off b x \<notin> octets b (k # xs)" for x
    proof -
      have "seq_off b s \<le> seq_off b x"
        using that Cons.prems(2) assms(4) os by (simp add: sw.leq_off[of b])
      then show ?thesis using that ge w by (simp add: sw.leq_off[of b])
    qed
    have notk: "\<not> SEQ_LT x (blk_start k)" if "seq_in b x" "SEQ_LEQ (blk_end k) x" for x
      using that w Cons.prems(1) by (simp add: sw.leq_off[of b] sw.lt_off[of b])
    obtain s' e' r where r: "nextseg_walk tp (blk_end k) xs = (s', e', r)" by (metis prod_cases3)
    show ?thesis
    proof (cases r)
      case True
      have h: "seq_off b holestart \<le> seq_off b (blk_end k)" using Cons.prems by simp
      have "{seq_off b s' ..< seq_off b e'} \<inter> octets b (k # xs) = {}"
        using ih r True by auto
      then show ?thesis using ih r True h unfolding unf by auto
    next
      case False
      then show ?thesis unfolding unf using ih r up notk by auto
    qed
  qed
qed

lemma rescue_walk_spec:
  assumes "blks_ok b lo hi xs" "hi < 2 ^ 31"
    and "seq_in b holestart" "seq_in b (snd_highrxt tp)" "seq_off b holestart \<le> lo"
  shows "case rescue_walk tp holestart xs of
      Some (s, e) \<Rightarrow> seq_in b s \<and> seq_off b holestart \<le> seq_off b s \<and> seq_off b s < seq_off b e \<and>
          seq_off b (snd_highrxt tp) \<le> seq_off b s \<and>
          {seq_off b s ..< seq_off b e} \<inter> octets b xs = {} \<and> e \<in> blk_start ` set xs
    | None \<Rightarrow> (\<forall>x. seq_in b x \<and> SEQ_LEQ holestart x \<and> SEQ_LEQ (snd_highrxt tp) x \<and>
               (\<exists>k \<in> set xs. SEQ_LT x (blk_start k)) \<longrightarrow> seq_off b x \<in> octets b xs)"
  using assms(1,3,5)
proof (induction xs arbitrary: lo holestart)
  case Nil
  then show ?case by simp
next
  case (Cons k xs)
  note w = blks_ok_Cons_in[OF Cons.prems(1) assms(2)]
  have tl: "blks_ok b (Suc (seq_off b (blk_end k))) hi xs" using Cons.prems by simp
  define s where "s = (if SEQ_LT holestart (snd_highrxt tp) then snd_highrxt tp else holestart)"
  have ws: "seq_in b s" and os: "seq_off b s = max (seq_off b holestart) (seq_off b (snd_highrxt tp))"
    using assms(4) Cons.prems(2) by (auto simp: s_def sw.lt_off[of b])
  have later: "octets b xs \<subseteq> {Suc (seq_off b (blk_end k)) ..< hi}" using blks_ok_octets[OF tl] .
  show ?case
  proof (cases "SEQ_LT s (blk_start k)")
    case True
    then have lt: "seq_off b s < seq_off b (blk_start k)" using ws w by (simp add: sw.lt_off[of b])
    have "{seq_off b s ..< seq_off b (blk_start k)} \<inter> octets b (k # xs) = {}"
      using later Cons.prems(1) by fastforce
    then show ?thesis using lt os ws True by (simp add: s_def[symmetric] Let_def)
  next
    case False
    then have ge: "seq_off b (blk_start k) \<le> seq_off b s" using ws w by (simp add: sw.lt_off[of b])
    have unf: "rescue_walk tp holestart (k # xs) = rescue_walk tp (blk_end k) xs"
      using False by (simp add: s_def[symmetric] Let_def)
    note ih = Cons.IH[OF tl w(2)]
    have up: "seq_off b x \<in> octets b (k # xs) \<or> SEQ_LEQ (blk_end k) x"
      if "seq_in b x" "SEQ_LEQ holestart x" "SEQ_LEQ (snd_highrxt tp) x" for x
    proof -
      have "seq_off b s \<le> seq_off b x"
        using that Cons.prems(2) assms(4) os by (simp add: sw.leq_off[of b])
      then show ?thesis using that ge w by (auto simp: sw.leq_off[of b])
    qed
    have notk: "\<not> SEQ_LT x (blk_start k)" if "seq_in b x" "SEQ_LEQ (blk_end k) x" for x
      using that w Cons.prems(1) by (simp add: sw.leq_off[of b] sw.lt_off[of b])
    show ?thesis
    proof (cases "rescue_walk tp (blk_end k) xs")
      case None
      then show ?thesis unfolding unf using ih up notk by auto
    next
      case (Some se)
      obtain s' e' where se: "se = (s', e')" by force
      have h: "seq_off b holestart \<le> seq_off b (blk_end k)" using Cons.prems by simp
      have "{seq_off b s' ..< seq_off b e'} \<inter> octets b (k # xs) = {}"
        using ih Some se by auto
      then show ?thesis using ih Some se h unfolding unf by auto
    qed
  qed
qed

section \<open>Proportional rate reduction\<close>

lemma tcp_sack_snd_bytes_above_cong:
  "snd_sackblks tp' = snd_sackblks tp \<Longrightarrow> tcp_sack_snd_bytes_above tp' f = tcp_sack_snd_bytes_above tp f"
  by (simp add: tcp_sack_snd_bytes_above_def)

lemma prr_cwnd_sum:
  fixes pipe cnt :: u32
  assumes "unat pipe < 2 ^ 31" "unat cnt < 2 ^ 31"
  shows "unat (pipe + cnt) = unat pipe + unat cnt"
proof -
  have "unat pipe + unat cnt < 2 ^ 32" using assms by simp
  then show ?thesis using unat_add_of_nat[of pipe "unat cnt"] by simp
qed

text \<open>The quota of one acknowledgement, as numbers.\<close>

definition prr_quota :: "tcpcb \<Rightarrow> nat" where
  "prr_quota tp = (let fs = (if prr_recoverfs tp = 0 then 1 else unat (prr_recoverfs tp))
     in (unat (prr_delivered tp) * unat (snd_ssthresh tp) + (fs - 1)) div fs)"

lemma prr_q_unat:
  fixes d t fs :: u32
  assumes "fs \<noteq> 0"
  shows "unat (((ucast d :: 64 word) * ucast t + ucast (fs - 1)) div ucast fs) =
         (unat d * unat t + (unat fs - 1)) div unat fs"
proof -
  have b: "unat d \<le> 4294967295" "unat t \<le> 4294967295" "unat fs \<le> 4294967295"
    using unat_u32_bound[of d] unat_u32_bound[of t] unat_u32_bound[of fs] by linarith+
  have f1: "unat (fs - 1) = unat fs - 1"
    using assms by (metis unat_minus_one)
  have "unat d * unat t \<le> 4294967295 * 4294967295" using b by (intro mult_mono) simp_all
  then have s: "unat d * unat t + (unat fs - 1) < 2 ^ 64" using b(3) by simp
  then have m: "unat ((ucast d :: 64 word) * ucast t) = unat d * unat t"
    by (subst unat_mult_lem[THEN iffD1]) simp_all
  have "unat ((ucast d :: 64 word) * ucast t + ucast (fs - 1)) = unat d * unat t + (unat fs - 1)"
    using s m f1 by (subst unat_add_lem[THEN iffD1]) simp_all
  then show ?thesis by (simp add: unat_div)
qed


lemma sack_pipe_loop_delivered:
  "sack_pipe_loop (tp\<lparr>prr_delivered := d\<rparr>) seq pipe = sack_pipe_loop tp seq pipe"
proof (induction tp seq pipe rule: sack_pipe_loop.induct)
  case (1 tp seq pipe)
  have same: "pipe_mss (tp\<lparr>prr_delivered := d\<rparr>) = pipe_mss tp"
    "tcp_sack_issacked (tp\<lparr>prr_delivered := d\<rparr>) seq = tcp_sack_issacked tp seq"
    "tcp_sack_islost (tp\<lparr>prr_delivered := d\<rparr>) seq = tcp_sack_islost tp seq"
    "snd_max (tp\<lparr>prr_delivered := d\<rparr>) = snd_max tp"
    "snd_highrxt (tp\<lparr>prr_delivered := d\<rparr>) = snd_highrxt tp"
    by (simp_all add: pipe_mss_def tcp_sack_issacked_def tcp_sack_islost_def)
  show ?case
  proof (cases "SEQ_LT seq (snd_max tp)")
    case True
    note ih = 1[OF True refl refl]
    show ?thesis
      using True ih
      by (subst (1 2) sack_pipe_loop.simps) (simp only: same Let_def if_True)
  next
    case False
    then show ?thesis by (subst (1 2) sack_pipe_loop.simps) simp
  qed
qed

lemma tcp_sack_pipe_delivered [simp]: "tcp_sack_pipe (tp\<lparr>prr_delivered := d\<rparr>) = tcp_sack_pipe tp"
  by (simp add: tcp_sack_pipe_def sack_pipe_loop_delivered)

lemma prr_sndcnt_ssrb:
  assumes "unat pipe \<le> unat (snd_ssthresh tp)"
  shows "unat (if sint (prr_sndcnt tp dlv pipe) < 0 then 0 else prr_sndcnt tp dlv pipe)
         \<le> unat (snd_ssthresh tp) - unat pipe"
proof -
  have "sint (prr_sndcnt tp dlv pipe) \<le> sint (snd_ssthresh tp - pipe)"
    using assms by (simp add: prr_sndcnt_def Let_def)
  moreover have "unat (snd_ssthresh tp - pipe) = unat (snd_ssthresh tp) - unat pipe"
    using assms by (simp add: unat_sub word_le_nat_alt)
  ultimately show ?thesis
    using unat_le_of_sint_le[of "prr_sndcnt tp dlv pipe" "snd_ssthresh tp - pipe"]
    by (auto simp: not_less)
qed

lemma prr_sndcnt_proportional:
  assumes "unat (snd_ssthresh tp) < unat pipe" "unat (prr_out tp) < 2 ^ 31"
  shows "unat (if sint (prr_sndcnt tp dlv pipe) < 0 then 0 else prr_sndcnt tp dlv pipe)
         = min (prr_quota tp) (2 ^ 31 - 1) - unat (prr_out tp)"
proof -
  define fs where "fs = (if prr_recoverfs tp \<noteq> 0 then prr_recoverfs tp else 1)"
  define q where "q = ((ucast (prr_delivered tp) :: 64 word) * ucast (snd_ssthresh tp)
                    + ucast (fs - 1)) div ucast fs"
  define q1 where "q1 = (if q > 0x7FFFFFFF then 0x7FFFFFFF else q)"
  have "fs \<noteq> 0" by (simp add: fs_def)
  then have uq: "unat q = prr_quota tp"
    by (simp add: q_def prr_q_unat prr_quota_def Let_def fs_def)
  have u1: "unat q1 = min (prr_quota tp) (2 ^ 31 - 1)"
    using uq by (auto simp: q1_def word_less_nat_alt min_def)
  have "unat (ucast q1 :: u32) = unat q1"
    using u1 by (simp add: unsigned_ucast_eq take_bit_nat_eq_self)
  then have u2: "unat (ucast q1 :: u32) = min (prr_quota tp) (2 ^ 31 - 1)" using u1 by simp
  then have lt: "unat (ucast q1 :: u32) < 2 ^ 31" by simp
  have c: "prr_sndcnt tp dlv pipe = (ucast q1 :: u32) - prr_out tp"
    using assms(1) by (simp add: prr_sndcnt_def Let_def q1_def q_def fs_def)
  have s: "sint (prr_sndcnt tp dlv pipe) = int (unat (ucast q1 :: u32)) - int (unat (prr_out tp))"
    unfolding c by (rule sint_diff_small[OF lt assms(2)])
  show ?thesis
  proof (cases "unat (prr_out tp) \<le> unat (ucast q1 :: u32)")
    case True
    then have "\<not> sint (prr_sndcnt tp dlv pipe) < 0" using s by linarith
    moreover have "unat (prr_sndcnt tp dlv pipe) = unat (ucast q1 :: u32) - unat (prr_out tp)"
      unfolding c using True by (simp add: unat_sub word_le_nat_alt)
    ultimately show ?thesis using u2 by simp
  next
    case False
    then have "sint (prr_sndcnt tp dlv pipe) < 0" using s by linarith
    moreover have "min (prr_quota tp) (2 ^ 31 - 1) \<le> unat (prr_out tp)" using u2 False by linarith
    ultimately show ?thesis by (simp only: if_True unat_0 diff_is_0_eq')
  qed
qed

lemma tcp_sack_prr_ack_conv:
  obtains dlv where
    "tcp_sack_prr_ack tp acked prev =
       (tp\<lparr>prr_delivered := prr_delivered tp + dlv\<rparr>)\<lparr>snd_cwnd := tcp_sack_pipe tp +
          (if sint (prr_sndcnt (tp\<lparr>prr_delivered := prr_delivered tp + dlv\<rparr>) dlv (tcp_sack_pipe tp)) < 0 then 0
           else prr_sndcnt (tp\<lparr>prr_delivered := prr_delivered tp + dlv\<rparr>) dlv (tcp_sack_pipe tp))\<rparr>"
proof (rule that[of "if sint (acked + tcp_sack_snd_bytes_above tp (snd_una tp) - prev) < 0 then 0
    else acked + tcp_sack_snd_bytes_above tp (snd_una tp) - prev"])
qed (simp only: tcp_sack_prr_ack_def Let_def tcp_sack_pipe_delivered)

lemma prr_quota_cwnd [simp]: "prr_quota (tp\<lparr>snd_cwnd := w\<rparr>) = prr_quota tp"
  by (simp add: prr_quota_def)

text \<open>C32: proportional rate reduction. One acknowledgement leaves the congestion window at or
  above the pipe estimate without 32-bit wrap-around; once the pipe is at or below the slow
  start threshold the window does not pass the threshold; while it is above, the window is
  the pipe plus exactly the part of \<open>ceil (prr_delivered * ssthresh / RecoverFS)\<close> not sent yet.\<close>

theorem tcp_sack_prr_ack_bounds:
  assumes "snd_sack_inv b tp"
  shows "unat (tcp_sack_pipe tp) \<le> unat (snd_cwnd (tcp_sack_prr_ack tp acked prev)) \<and>
    (unat (tcp_sack_pipe tp) \<le> unat (snd_ssthresh tp) \<longrightarrow>
       unat (snd_cwnd (tcp_sack_prr_ack tp acked prev)) \<le> unat (snd_ssthresh tp)) \<and>
    (unat (snd_ssthresh tp) < unat (tcp_sack_pipe tp) \<and> unat (prr_out tp) < 2 ^ 31 \<longrightarrow>
       unat (snd_cwnd (tcp_sack_prr_ack tp acked prev)) = unat (tcp_sack_pipe tp) +
         (min (prr_quota (tcp_sack_prr_ack tp acked prev)) (2 ^ 31 - 1) - unat (prr_out tp)))"
proof -
  obtain dlv where c: "tcp_sack_prr_ack tp acked prev =
       (tp\<lparr>prr_delivered := prr_delivered tp + dlv\<rparr>)\<lparr>snd_cwnd := tcp_sack_pipe tp +
          (if sint (prr_sndcnt (tp\<lparr>prr_delivered := prr_delivered tp + dlv\<rparr>) dlv (tcp_sack_pipe tp)) < 0 then 0
           else prr_sndcnt (tp\<lparr>prr_delivered := prr_delivered tp + dlv\<rparr>) dlv (tcp_sack_pipe tp))\<rparr>"
    by (rule tcp_sack_prr_ack_conv)
  define tp1 where "tp1 = tp\<lparr>prr_delivered := prr_delivered tp + dlv\<rparr>"
  define cnt where "cnt = (if sint (prr_sndcnt tp1 dlv (tcp_sack_pipe tp)) < 0 then 0
           else prr_sndcnt tp1 dlv (tcp_sack_pipe tp))"
  have r: "tcp_sack_prr_ack tp acked prev = tp1\<lparr>snd_cwnd := tcp_sack_pipe tp + cnt\<rparr>"
    unfolding tp1_def cnt_def by (rule c)
  have pb: "unat (tcp_sack_pipe tp) < 2 ^ 31" using tcp_sack_pipe_bound(1,3)[OF assms] by linarith
  have "unat cnt < 2 ^ 31" unfolding cnt_def by (rule unat_nonneg_clamp)
  from prr_cwnd_sum[OF pb this]
  have w: "unat (snd_cwnd (tcp_sack_prr_ack tp acked prev)) = unat (tcp_sack_pipe tp) + unat cnt"
    by (simp add: r)
  have same: "snd_ssthresh tp1 = snd_ssthresh tp" "prr_out tp1 = prr_out tp" by (simp_all add: tp1_def)
  have "unat cnt \<le> unat (snd_ssthresh tp) - unat (tcp_sack_pipe tp)"
    if "unat (tcp_sack_pipe tp) \<le> unat (snd_ssthresh tp)"
    using prr_sndcnt_ssrb[of "tcp_sack_pipe tp" tp1 dlv] that by (simp only: cnt_def same)
  moreover have "unat cnt = min (prr_quota tp1) (2 ^ 31 - 1) - unat (prr_out tp)"
    if "unat (snd_ssthresh tp) < unat (tcp_sack_pipe tp)" "unat (prr_out tp) < 2 ^ 31"
    using prr_sndcnt_proportional[of tp1 "tcp_sack_pipe tp" dlv] that by (simp only: cnt_def same)
  moreover have "prr_quota (tcp_sack_prr_ack tp acked prev) = prr_quota tp1" by (simp add: r)
  ultimately show ?thesis unfolding w by auto
qed


theorem tcp_sack_prr_ack_bounds_witness:
  "unat (tcp_sack_pipe (tcpcb_zero\<lparr>snd_una := 100, snd_max := 100, snd_ssthresh := 4000, t_maxseg := 1000\<rparr>))
     \<le> unat (snd_cwnd (tcp_sack_prr_ack
          (tcpcb_zero\<lparr>snd_una := 100, snd_max := 100, snd_ssthresh := 4000, t_maxseg := 1000\<rparr>) 500 0)) \<and>
   snd_cwnd (tcp_sack_prr_ack
          (tcpcb_zero\<lparr>snd_una := 100, snd_max := 100, snd_ssthresh := 4000, t_maxseg := 1000\<rparr>) 500 0) = 1500"
proof
  let ?tp = "tcpcb_zero\<lparr>snd_una := 100, snd_max := 100, snd_ssthresh := 4000, t_maxseg := 1000\<rparr>"
  have "snd_sack_inv 100 ?tp"
    by (simp add: snd_sack_inv_def seq_off_def TCP_MAX_SACK_SND_def)
  from tcp_sack_prr_ack_bounds[OF this, of 500 0]
  show "unat (tcp_sack_pipe ?tp) \<le> unat (snd_cwnd (tcp_sack_prr_ack ?tp 500 0))" by blast
  have "tcp_sack_pipe ?tp = 0"
    by (simp add: tcp_sack_pipe_def sack_pipe_loop.simps[of _ 100 0] SEQ_LT_def)
  then show "snd_cwnd (tcp_sack_prr_ack ?tp 500 0) = 1500"
    by (simp add: tcp_sack_prr_ack_def prr_sndcnt_def tcp_sack_snd_bytes_above_def Let_def)
qed

text \<open>
  IsLost is the RFC 6675 rule: a sequence number is lost when three islands start
  above it, or when more than two maximum segments' worth of octets at or above it have been
  SACKed. The 32-bit sum does not overflow.\<close>

theorem tcp_sack_islost_spec:
  assumes "snd_sack_inv b tp" "seq_in b seq"
  shows "tcp_sack_islost tp seq \<longleftrightarrow>
    3 \<le> length (filter (\<lambda>k. SEQ_GT (blk_start k) seq) (snd_sackblks tp)) \<or>
    2 * unat (t_maxseg tp) < card (octets b (snd_sackblks tp) \<inter> {seq_off b seq..})"
proof -
  have "filter (\<lambda>k. SEQ_GT (blk_start k) seq) (snd_sackblks tp) =
        filter (\<lambda>k. seq_off b seq < seq_off b (blk_start k)) (snd_sackblks tp)"
    using blks_ok_in[OF snd_sack_inv_blks(1,2)[OF assms(1)]] assms(2)
    by (intro filter_cong) (simp_all add: sw.gt_off[of b])
  then show ?thesis
    using islost_conv[OF assms]
    by (simp add: islands_above_def octets_above_def tcprexmtthresh_def)
qed

theorem tcp_sack_islost_spec_witness:
  "tcp_sack_islost (tcpcb_zero\<lparr>snd_max := 9000, t_maxseg := 1000,
      snd_sackblks := [blk 1000 2000, blk 3000 4000, blk 5000 6000]\<rparr>) 500"
proof -
  let ?tp = "tcpcb_zero\<lparr>snd_max := 9000, t_maxseg := 1000,
      snd_sackblks := [blk 1000 2000, blk 3000 4000, blk 5000 6000]\<rparr>"
  have "snd_sack_inv 0 ?tp" by (simp add: snd_sack_inv_def seq_off_def TCP_MAX_SACK_SND_def)
  moreover have "seq_in 0 500" by (simp add: seq_in_def seq_off_def)
  ultimately show ?thesis by (subst tcp_sack_islost_spec) (simp_all add: SEQ_GT_def)
qed

text \<open>C31: NextSeg rule (1) is sound and complete. A retransmission is a hole at or above
  \<open>snd_una\<close> and HighRxt, entirely unSACKed, ending at a SACKed octet below \<open>snd_max\<close>, and lost;
  when new data is offered instead, no unSACKed octet at or above HighRxt with SACKed data
  above it is lost, which is what makes the early end of the scan correct.\<close>

theorem tcp_sack_nextseg_spec:
  assumes "snd_sack_inv (snd_una tp) tp" "seq_in (snd_una tp) (snd_highrxt tp)"
  shows "case tcp_sack_nextseg tp of
      (s, e, True) \<Rightarrow> SEQ_GEQ s (snd_una tp) \<and> SEQ_GEQ s (snd_highrxt tp) \<and>
          seq_off (snd_una tp) s < seq_off (snd_una tp) e \<and>
          seq_off (snd_una tp) e < seq_off (snd_una tp) (snd_max tp) \<and>
          {seq_off (snd_una tp) s ..< seq_off (snd_una tp) e} \<inter> octets (snd_una tp) (snd_sackblks tp) = {} \<and>
          tcp_sack_issacked tp e \<and> tcp_sack_islost tp s
    | (s, e, False) \<Rightarrow> s = snd_max tp \<and> e = snd_max tp \<and>
          (\<forall>x. SEQ_GEQ x (snd_una tp) \<and> SEQ_LEQ (snd_highrxt tp) x \<and> \<not> tcp_sack_issacked tp x \<and>
               (\<exists>k \<in> set (snd_sackblks tp). SEQ_LT x (blk_start k)) \<longrightarrow> \<not> tcp_sack_islost tp x)"
proof -
  let ?u = "snd_una tp" and ?xs = "snd_sackblks tp"
  note i = snd_sack_inv_blks[OF assms(1)]
  note spec = nextseg_walk_spec[OF i(1,2) seq_in_self assms(2) _ assms(1), simplified]
  obtain s e r where r: "tcp_sack_nextseg tp = (s, e, r)" by (metis prod_cases3)
  show ?thesis
  proof (cases r)
    case True
    have sp: "seq_in ?u s \<and> seq_off ?u s < seq_off ?u e \<and> seq_off ?u (snd_highrxt tp) \<le> seq_off ?u s \<and>
        {seq_off ?u s ..< seq_off ?u e} \<inter> octets ?u ?xs = {} \<and> e \<in> blk_start ` set ?xs \<and> tcp_sack_islost tp s"
      using spec r True by (simp add: tcp_sack_nextseg_def)
    then obtain k where k: "k \<in> set ?xs" "e = blk_start k" by auto
    have "seq_off ?u (blk_start k) < seq_off ?u (blk_end k) \<and> seq_off ?u (blk_end k) \<le> seq_off ?u (snd_max tp)"
      using k(1) i(1) by (rule blks_ok_mem)
    moreover have "seq_in ?u e" using blks_ok_in[OF i(1,2) k(1)] k(2) by simp
    ultimately have "tcp_sack_issacked tp e" "seq_off ?u e < seq_off ?u (snd_max tp)"
      using k by (auto simp: issacked_conv[OF assms(1)] octets_def)
    then show ?thesis using sp r True assms(2) by (simp add: SEQ_GEQ_off[of s ?u] sw.geq_off[of ?u])
  next
    case False
    have "SEQ_LEQ ?u x" if "seq_in ?u x" for x using that by (simp add: sw.leq_off[of ?u])
    then show ?thesis
      using spec r False
      by (auto simp: tcp_sack_nextseg_def SEQ_GEQ_off[of _ ?u] issacked_conv[OF assms(1)])
  qed
qed


theorem tcp_sack_nextseg_spec_witness:
  "tcp_sack_nextseg (tcpcb_zero\<lparr>snd_max := 9000, t_maxseg := 1000,
      snd_sackblks := [blk 1000 2000, blk 3000 4000, blk 5000 6000]\<rparr>) = (0, 1000, True) \<and>
   tcp_sack_islost (tcpcb_zero\<lparr>snd_max := 9000, t_maxseg := 1000,
      snd_sackblks := [blk 1000 2000, blk 3000 4000, blk 5000 6000]\<rparr>) 0"
proof -
  let ?tp = "tcpcb_zero\<lparr>snd_max := 9000, t_maxseg := 1000,
      snd_sackblks := [blk 1000 2000, blk 3000 4000, blk 5000 6000]\<rparr>"
  have n: "tcp_sack_nextseg ?tp = (0, 1000, True)"
    by (simp add: tcp_sack_nextseg_def tcp_sack_islost_def tcprexmtthresh_def SEQ_defs Let_def)
  have "snd_sack_inv (snd_una ?tp) ?tp" by (simp add: snd_sack_inv_def seq_off_def TCP_MAX_SACK_SND_def)
  from tcp_sack_nextseg_spec[OF this] have "tcp_sack_islost ?tp 0" unfolding n by simp
  with n show ?thesis by blast
qed

text \<open>
  The rescue rule returns an unSACKed hole at or above HighRxt that ends at a SACKed
  block, and returns none only when no such octet is left below a SACKed block.\<close>

theorem tcp_sack_rescue_spec:
  assumes "snd_sack_inv (snd_una tp) tp" "seq_in (snd_una tp) (snd_highrxt tp)"
  shows "case tcp_sack_rescue tp of
      Some (s, e) \<Rightarrow> SEQ_GEQ s (snd_una tp) \<and> SEQ_GEQ s (snd_highrxt tp) \<and>
          seq_off (snd_una tp) s < seq_off (snd_una tp) e \<and>
          {seq_off (snd_una tp) s ..< seq_off (snd_una tp) e} \<inter> octets (snd_una tp) (snd_sackblks tp) = {} \<and>
          e \<in> blk_start ` set (snd_sackblks tp)
    | None \<Rightarrow> (\<forall>x. SEQ_GEQ x (snd_una tp) \<and> SEQ_LEQ (snd_highrxt tp) x \<and>
               (\<exists>k \<in> set (snd_sackblks tp). SEQ_LT x (blk_start k)) \<longrightarrow> tcp_sack_issacked tp x)"
proof -
  let ?u = "snd_una tp"
  note i = snd_sack_inv_blks[OF assms(1)]
  note spec = rescue_walk_spec[OF i(1,2) seq_in_self assms(2), simplified]
  have "SEQ_LEQ ?u x" if "seq_in ?u x" for x using that by (simp add: sw.leq_off[of ?u])
  then show ?thesis
    using spec assms(2)
    by (auto simp: tcp_sack_rescue_def SEQ_GEQ_off[of _ ?u] sw.geq_off[of ?u] issacked_conv[OF assms(1)]
        split: option.splits prod.splits)
qed

theorem tcp_sack_rescue_spec_witness:
  "tcp_sack_rescue (tcpcb_zero\<lparr>snd_max := 9000, snd_highrxt := 500, snd_sackblks := [blk 1000 2000]\<rparr>)
     = Some (500, 1000) \<and>
   SEQ_GEQ 500 (snd_highrxt (tcpcb_zero\<lparr>snd_max := 9000, snd_highrxt := 500, snd_sackblks := [blk 1000 2000]\<rparr>))"
proof -
  let ?tp = "tcpcb_zero\<lparr>snd_max := 9000, snd_highrxt := 500, snd_sackblks := [blk 1000 2000]\<rparr>"
  have n: "tcp_sack_rescue ?tp = Some (500, 1000)"
    by (simp add: tcp_sack_rescue_def SEQ_defs Let_def)
  have "snd_sack_inv (snd_una ?tp) ?tp" by (simp add: snd_sack_inv_def seq_off_def TCP_MAX_SACK_SND_def)
  moreover have "seq_in (snd_una ?tp) (snd_highrxt ?tp)" by (simp add: seq_in_def seq_off_def)
  ultimately have "SEQ_GEQ 500 (snd_highrxt ?tp)" using tcp_sack_rescue_spec[of ?tp] unfolding n by simp
  with n show ?thesis by blast
qed

text \<open>
  The pipe estimate ends for every control block, never exceeds the octets in flight
  (so it does not wrap), and is exactly the flight size when nothing has been SACKed.\<close>

theorem tcp_sack_pipe_spec:
  assumes "snd_sack_inv b tp"
  shows "unat (tcp_sack_pipe tp) \<le> seq_off (snd_una tp) (snd_max tp) \<and>
    (snd_sackblks tp = [] \<longrightarrow> tcp_sack_pipe tp = snd_max tp - snd_una tp)"
proof -
  have "tcp_sack_pipe tp = snd_max tp - snd_una tp" if "snd_sackblks tp = []"
    using tcp_sack_pipe_bound(2)[OF assms that] by (simp add: seq_off_def word_unat_eq_iff)
  then show ?thesis using tcp_sack_pipe_bound(1)[OF assms] by blast
qed

theorem tcp_sack_pipe_spec_witness:
  "tcp_sack_pipe (tcpcb_zero\<lparr>snd_una := 100, snd_max := 5100, t_maxseg := 1000\<rparr>) = 5000"
proof -
  let ?tp = "tcpcb_zero\<lparr>snd_una := 100, snd_max := 5100, t_maxseg := 1000\<rparr>"
  have "snd_sack_inv 100 ?tp" by (simp add: snd_sack_inv_def seq_off_def TCP_MAX_SACK_SND_def)
  from tcp_sack_pipe_spec[OF this] show ?thesis by simp
qed

end
