(* ===== verification/Tcp_Conn.thy ===== *)
theory Tcp_Conn
  imports Tcp_Timer Tcp_Sack_Recovery
begin

text \<open>
  The invariant of a synchronised connection and what \<open>tcp_output\<close> decides to send in it: the
  sequence numbers as offsets above \<open>snd_una\<close>, the persist timer, the sequential choice, the
  recovery rules and the tests before \<open>send:\<close>.
\<close>

section \<open>A synchronised connection\<close>

definition nxt :: "tcpcb \<Rightarrow> nat" where "nxt t = seq_off (snd_una t) (snd_nxt t)"
definition mx :: "tcpcb \<Rightarrow> nat" where "mx t = seq_off (snd_una t) (snd_max t)"
definition cc :: "tcpsock \<Rightarrow> nat" where "cc s = unat (sb_cc (so_snd s))"

definition timers_ok :: "tcpcb \<Rightarrow> bool" where
  "timers_ok t \<longleftrightarrow> (t_timer t TCPT_REXMT = 0 \<or> t_timer t TCPT_PERSIST = 0) \<and>
     0 \<le> sint (t_rxtshift t) \<and> sint (t_rxtshift t) \<le> TCP_MAXRXTSHIFT"

definition fin_state :: "tcpcb \<Rightarrow> bool" where
  "fin_state t \<longleftrightarrow> 6 \<le> t_state t \<and> t_state t \<le> 8"

definition seq_ok :: "nat \<Rightarrow> tcpcb \<Rightarrow> bool" where
  "seq_ok n t \<longleftrightarrow> nxt t \<le> mx t \<and>
     (if fin_state t then mx t \<le> n + 1 \<and> (tf TF_SENTFIN t \<longleftrightarrow> mx t = n + 1)
      else mx t \<le> (if t_state t = 0 then n + 1 else n))"

definition recover_ok :: "tcpcb \<Rightarrow> bool" where
  "recover_ok t \<longleftrightarrow> snd_nxt t = snd_max t \<and> snd_wnd t \<noteq> 0 \<and> snd_cwnd t \<noteq> 0 \<and>
     snd_sack_inv (snd_una t) t \<and> seq_off (snd_una t) (snd_highrxt t) \<le> mx t"

definition conn_ok :: "tcpsock \<Rightarrow> tcpcb \<Rightarrow> bool" where
  "conn_ok s t \<longleftrightarrow> (t_state t = 0 \<or> 4 \<le> t_state t) \<and> t_state t \<le> 10 \<and> t_maxseg t \<noteq> 0 \<and> cc s < 2 ^ 30 \<and>
     unat (snd_wnd t) < 2 ^ 31 \<and> unat (snd_cwnd t) < 2 ^ 31 \<and> seq_ok (cc s) t \<and> timers_ok t \<and>
     (tf TF_SACK_RECOVER t \<longrightarrow> recover_ok t)"

text \<open>The invariant reads only these fields.\<close>

lemma nxt_cong: "snd_una t' = snd_una t \<Longrightarrow> snd_nxt t' = snd_nxt t \<Longrightarrow> nxt t' = nxt t"
  by (simp add: nxt_def)

lemma mx_cong: "snd_una t' = snd_una t \<Longrightarrow> snd_max t' = snd_max t \<Longrightarrow> mx t' = mx t"
  by (simp add: mx_def)

lemma seq_ok_cong:
  "snd_una t' = snd_una t \<Longrightarrow> snd_nxt t' = snd_nxt t \<Longrightarrow> snd_max t' = snd_max t \<Longrightarrow>
   t_state t' = t_state t \<Longrightarrow> tf TF_SENTFIN t' = tf TF_SENTFIN t \<Longrightarrow> seq_ok n t' = seq_ok n t"
  by (simp add: seq_ok_def nxt_def mx_def fin_state_def)

lemma snd_sack_inv_cong:
  "snd_una t' = snd_una t \<Longrightarrow> snd_max t' = snd_max t \<Longrightarrow> snd_sackblks t' = snd_sackblks t \<Longrightarrow>
   snd_sack_inv b t' = snd_sack_inv b t"
  by (simp add: snd_sack_inv_def)

lemma recover_ok_cong:
  "snd_una t' = snd_una t \<Longrightarrow> snd_nxt t' = snd_nxt t \<Longrightarrow> snd_max t' = snd_max t \<Longrightarrow>
   snd_wnd t' = snd_wnd t \<Longrightarrow> (snd_cwnd t' = 0) = (snd_cwnd t = 0) \<Longrightarrow>
   snd_sackblks t' = snd_sackblks t \<Longrightarrow> snd_highrxt t' = snd_highrxt t \<Longrightarrow> recover_ok t' = recover_ok t"
  using snd_sack_inv_cong[of t' t] by (simp add: recover_ok_def mx_def)

text \<open>Offsets above \<open>snd_una\<close>.\<close>

lemma sint_off: "seq_in u x \<Longrightarrow> sint (x - u) = int (seq_off u x)"
  unfolding seq_in_def seq_off_def by (rule sint_eq_uint_small)

lemma SEQ_LT_of_off:
  assumes "m < 2 ^ 31" "n < 2 ^ 31"
  shows "SEQ_LT (u + of_nat m) (u + of_nat n) \<longleftrightarrow> m < n"
proof -
  have "m < 2 ^ 32" "n < 2 ^ 32" using assms by (auto intro: less_trans)
  then have o: "seq_off u (u + of_nat m) = m" "seq_off u (u + of_nat n) = n" by (simp_all only: seq_off_add)
  then show ?thesis using sw.lt_off[of u "u + of_nat m" "u + of_nat n"] assms unfolding seq_in_def o by blast
qed

lemma w32_of_nat: "w32 (int n) = of_nat n"
  by (simp add: w32_def)

lemma sint_min_word:
  fixes a b :: u32
  assumes "unat a < 2 ^ 31"
  shows "sint (min a b) = min (int (unat a)) (int (unat b))" "unat (min a b) = min (unat a) (unat b)"
proof -
  show u: "unat (min a b) = min (unat a) (unat b)" by (simp add: min_def word_le_nat_alt)
  have "unat (min a b) < 2 ^ 31" unfolding u using assms by simp
  then show "sint (min a b) = min (int (unat a)) (int (unat b))"
    using sint_eq_uint_small[of "min a b"] by (simp only: u of_nat_min)
qed

lemma w32_unat: "0 \<le> x \<Longrightarrow> x < 4294967296 \<Longrightarrow> unat (w32 x) = nat x"
  by (simp add: w32_def unsigned_of_int take_bit_int_eq_self)

lemma tcp_outflags_synced:
  assumes "4 \<le> n" "n \<le> 10"
  shows "tcp_outflags ! n = (if 6 \<le> n \<and> n \<le> 8 then TH_FIN OR TH_ACK else TH_ACK)"
proof -
  have "n = 4 \<or> n = 5 \<or> n = 6 \<or> n = 7 \<or> n = 8 \<or> n = 9 \<or> n = 10" using assms by arith
  then show ?thesis by (elim disjE) (simp_all add: tcp_outflags_def)
qed

section \<open>The persist timer\<close>

lemma rangeset_bounds:
  assumes "- 32768 \<le> lo" "lo \<le> hi" "hi < 32768"
  shows "lo \<le> sint (tcpt_rangeset v lo hi)" "sint (tcpt_rangeset v lo hi) \<le> hi"
proof -
  have w: "sint (word_of_int x :: s16) = x" if "- 32768 \<le> x" "x < 32768" for x
    using that by (simp add: signed_of_int signed_take_bit_int_eq_self)
  show "lo \<le> sint (tcpt_rangeset v lo hi)" "sint (tcpt_rangeset v lo hi) \<le> hi"
    using assms w[of lo] w[of hi] by (auto simp: tcpt_rangeset_def Let_def)
qed

lemma set_timer_sel [simp]:
  "t_timer (set_timer i v t) = (t_timer t)(i := v)" "snd_una (set_timer i v t) = snd_una t"
  "snd_nxt (set_timer i v t) = snd_nxt t" "snd_max (set_timer i v t) = snd_max t"
  "t_state (set_timer i v t) = t_state t" "t_flags (set_timer i v t) = t_flags t"
  "t_maxseg (set_timer i v t) = t_maxseg t" "snd_wnd (set_timer i v t) = snd_wnd t"
  "snd_cwnd (set_timer i v t) = snd_cwnd t" "snd_sackblks (set_timer i v t) = snd_sackblks t"
  "snd_highrxt (set_timer i v t) = snd_highrxt t" "t_rxtshift (set_timer i v t) = t_rxtshift t"
  "t_rxtcur (set_timer i v t) = t_rxtcur t" "t_force (set_timer i v t) = t_force t"
  "t_srtt (set_timer i v t) = t_srtt t" "t_rttvar (set_timer i v t) = t_rttvar t"
  "t_rttmin (set_timer i v t) = t_rttmin t" "t_softerror (set_timer i v t) = t_softerror t"
  "rcv_nxt (set_timer i v t) = rcv_nxt t" "t_idle (set_timer i v t) = t_idle t"
  by (simp_all add: set_timer_def)

lemma tf_flags: "t_flags t' = t_flags t \<Longrightarrow> tf f t' = tf f t"
  by (simp add: tf_def)

lemma tf_set_timer [simp]: "tf f (set_timer i v t) = tf f t"
  by (simp add: tf_def)

text \<open>What the engine leaves alone, whatever it does.\<close>

definition same_conn :: "tcpcb \<Rightarrow> tcpcb \<Rightarrow> bool" where
  "same_conn t t' \<longleftrightarrow> t_state t' = t_state t \<and> t_maxseg t' = t_maxseg t \<and> snd_una t' = snd_una t \<and>
     snd_wnd t' = snd_wnd t \<and> tf TF_SACK_RECOVER t' = tf TF_SACK_RECOVER t \<and> snd_sackblks t' = snd_sackblks t \<and>
     t_force t' = t_force t \<and> t_rxtcur t' = t_rxtcur t \<and> t_srtt t' = t_srtt t \<and> t_rttvar t' = t_rttvar t \<and>
     t_rttmin t' = t_rttmin t"

lemma same_conn_refl [simp]: "same_conn t t"
  by (simp add: same_conn_def)

lemma same_conn_trans: "same_conn t t1 \<Longrightarrow> same_conn t1 t2 \<Longrightarrow> same_conn t t2"
  by (simp add: same_conn_def)

lemma conn_ok_timers:
  assumes "conn_ok s t" "timers_ok t'" "same_conn t t'" "snd_nxt t' = snd_nxt t" "snd_max t' = snd_max t"
    and "snd_cwnd t' = snd_cwnd t" "snd_highrxt t' = snd_highrxt t" "tf TF_SENTFIN t' = tf TF_SENTFIN t"
  shows "conn_ok s t'"
  using assms seq_ok_cong[of t' t "cc s"] recover_ok_cong[of t' t]
  unfolding conn_ok_def same_conn_def by simp

lemma setpersist_ok:
  assumes "conn_ok s t" "t_timer t TCPT_REXMT = 0"
  shows "\<exists>t'. tcp_setpersist t = Inr t' \<and> conn_ok s t' \<and> same_conn t t' \<and> 10 \<le> sint (t_timer t' TCPT_PERSIST) \<and>
    sint (t_timer t' TCPT_PERSIST) \<le> 120 \<and> snd_nxt t' = snd_nxt t \<and> snd_max t' = snd_max t \<and>
    snd_highrxt t' = snd_highrxt t \<and> snd_cwnd t' = snd_cwnd t \<and> t_timer t' TCPT_REXMT = 0"
proof -
  let ?v = "(sint (t_srtt t) div 4 + sint (t_rttvar t)) div 2"
  let ?p = "tcpt_rangeset (?v * tcp_backoff ! nat (sint (t_rxtshift t))) TCPTV_PERSMIN TCPTV_PERSMAX"
  let ?t1 = "set_timer TCPT_PERSIST ?p t"
  let ?t' = "if sint (t_rxtshift t) < TCP_MAXRXTSHIFT then ?t1\<lparr>t_rxtshift := t_rxtshift t + 1\<rparr> else ?t1"
  have sh: "0 \<le> sint (t_rxtshift t)" "sint (t_rxtshift t) \<le> 12"
    using assms(1) by (auto simp: conn_ok_def timers_ok_def TCP_MAXRXTSHIFT_def)
  have inc: "sint (t_rxtshift t + 1) = sint (t_rxtshift t) + 1" if "sint (t_rxtshift t) < 12"
    using that sh by (simp add: sint_word_ariths signed_take_bit_int_eq_self)
  have run: "tcp_setpersist t = Inr ?t'" using assms(2) by (simp add: tcp_setpersist_def Let_def)
  have b: "10 \<le> sint ?p" "sint ?p \<le> 120"
    using rangeset_bounds[of 10 120] by (simp_all add: TCPTV_PERSMIN_def TCPTV_PERSMAX_def)
  have sc: "same_conn t ?t'" by (simp add: same_conn_def tf_def)
  have tm: "timers_ok ?t'"
    using assms(2) sh inc by (auto simp: timers_ok_def TCP_MAXRXTSHIFT_def)
  have "conn_ok s ?t'"
    by (rule conn_ok_timers[OF assms(1) tm sc]) (simp_all add: tf_def)
  then show ?thesis using run b sc assms(2) by (intro exI[of _ ?t']) simp
qed

section \<open>The choice of a segment\<close>

text \<open>
  A chosen segment: it lies inside the send buffer, it is new data or a hole of what was sent,
  and its sequence number is that of its first byte.
\<close>

definition outv_ok :: "tcpsock \<Rightarrow> tcpcb \<Rightarrow> outv \<Rightarrow> bool" where
  "outv_ok s t v \<longleftrightarrow> 0 \<le> ov_len v \<and> ov_len v \<le> int (unat (t_maxseg t)) \<and>
     (ov_sendalot v \<longrightarrow> ov_len v = int (unat (t_maxseg t))) \<and>
     (if ov_rxmit v
      then 0 < ov_len v \<and> 0 \<le> ov_off v \<and> ov_off v + ov_len v \<le> int (min (cc s) (mx t)) \<and>
        ov_rseq v = snd_una t + w32 (ov_off v) \<and>
        (ov_sendalot v \<longrightarrow> int (seq_off (snd_una t) (snd_highrxt t)) \<le> ov_off v)
      else 0 < ov_len v \<longrightarrow> ov_off v = int (nxt t) \<and>
        ov_off v + ov_len v \<le> int (min (cc s) (max 1 (unat (snd_wnd t)))))"

lemma conn_okD:
  assumes "conn_ok s t"
  shows "t_state t = 0 \<or> 4 \<le> t_state t" "t_state t \<le> 10" "t_maxseg t \<noteq> 0" "cc s < 2 ^ 30" "unat (snd_wnd t) < 2 ^ 31"
    "unat (snd_cwnd t) < 2 ^ 31" "nxt t \<le> mx t" "mx t \<le> cc s + 1" "seq_ok (cc s) t" "timers_ok t"
    "tf TF_SACK_RECOVER t \<Longrightarrow> recover_ok t" "0 < unat (t_maxseg t)" "mx t < 2 ^ 31" "nxt t < 2 ^ 31" "cc s < 2 ^ 31"
proof -
  show c: "t_state t = 0 \<or> 4 \<le> t_state t" "t_state t \<le> 10" "t_maxseg t \<noteq> 0" "cc s < 2 ^ 30" "unat (snd_wnd t) < 2 ^ 31"
    "unat (snd_cwnd t) < 2 ^ 31" "seq_ok (cc s) t" "timers_ok t" "tf TF_SACK_RECOVER t \<Longrightarrow> recover_ok t"
    using assms unfolding conn_ok_def by simp_all
  show m: "nxt t \<le> mx t" "mx t \<le> cc s + 1" using c(7) by (auto simp: seq_ok_def split: if_splits)
  show "0 < unat (t_maxseg t)" using c(3) by (simp add: unat_gt_0)
  have "(2::nat) ^ 30 + 1 < 2 ^ 31" by simp
  then show "mx t < 2 ^ 31" "nxt t < 2 ^ 31" "cc s < 2 ^ 31" using m c(4) by linarith+
qed

lemma sb_cc_of: "sb_cc (so_snd s) = of_nat (cc s)"
  by (simp add: cc_def)

lemma snd_nxt_of: "snd_nxt t = snd_una t + of_nat (nxt t)" "snd_max t = snd_una t + of_nat (mx t)"
  by (simp_all add: nxt_def mx_def seq_off_def)

lemma sint_min_diff:
  assumes "unat (a :: u32) < 2 ^ 31" "n < 2 ^ 31"
  shows "sint (min a b - of_nat n) = int (min (unat a) (unat b)) - int n"
proof -
  have u: "unat (min a b) = min (unat a) (unat b)" using sint_min_word(2)[OF assms(1)] .
  have n: "unat (of_nat n :: u32) = n" using assms(2) by (simp add: unat_of_nat)
  have "unat (min a b) < 2 ^ 31" unfolding u using assms(1) by simp
  then show ?thesis using sint_diff_small[of "min a b" "of_nat n"] assms(2) unfolding u n by simp
qed

lemma sint_neg_flags: "tf f (t\<lparr>t_rxtshift := x\<rparr>) = tf f t" "tf f (t\<lparr>snd_nxt := y\<rparr>) = tf f t"
  "tf f (t\<lparr>snd_highrxt := y\<rparr>) = tf f t" "tf f (t\<lparr>snd_max := y\<rparr>) = tf f t" "tf f (t\<lparr>snd_up := y\<rparr>) = tf f t"
  "tf f (t\<lparr>snd_cwnd := y\<rparr>) = tf f t" "tf f (t\<lparr>t_rtt := x\<rparr>) = tf f t" "tf f (t\<lparr>t_rtseq := y\<rparr>) = tf f t"
  "tf f (t\<lparr>t_softerror := x\<rparr>) = tf f t" "tf f (t\<lparr>prr_out := y\<rparr>) = tf f t" "tf f (t\<lparr>rcv_adv := y\<rparr>) = tf f t"
  "tf f (t\<lparr>last_ack_sent := y\<rparr>) = tf f t" "tf f (t\<lparr>t_force := z\<rparr>) = tf f t" "tf f (t\<lparr>t_state := k\<rparr>) = tf f t"
  by (simp_all add: tf_def)

lemmas tf_upd [simp] = sint_neg_flags

lemma conn_ok_cancel:
  assumes "conn_ok s t"
  shows "conn_ok s ((set_timer TCPT_PERSIST 0 t)\<lparr>t_rxtshift := 0\<rparr>)" "conn_ok s (set_timer TCPT_REXMT 0 t)"
proof -
  have "timers_ok ((set_timer TCPT_PERSIST 0 t)\<lparr>t_rxtshift := 0\<rparr>)" "timers_ok (set_timer TCPT_REXMT 0 t)"
    using conn_okD(10)[OF assms] by (auto simp: timers_ok_def TCP_MAXRXTSHIFT_def)
  then show "conn_ok s ((set_timer TCPT_PERSIST 0 t)\<lparr>t_rxtshift := 0\<rparr>)" "conn_ok s (set_timer TCPT_REXMT 0 t)"
    using conn_ok_timers[OF assms] by (simp_all add: same_conn_def)
qed

text \<open>Pulling \<open>snd_nxt\<close> back is harmless outside recovery.\<close>

lemma conn_ok_pull:
  assumes "conn_ok s t" "\<not> tf TF_SACK_RECOVER t"
  shows "conn_ok s (t\<lparr>snd_nxt := snd_una t\<rparr>)"
proof -
  have m: "mx (t\<lparr>snd_nxt := snd_una t\<rparr>) = mx t" "nxt (t\<lparr>snd_nxt := snd_una t\<rparr>) = 0"
    "fin_state (t\<lparr>snd_nxt := snd_una t\<rparr>) = fin_state t"
    by (simp_all add: mx_def nxt_def fin_state_def seq_off_def)
  have "seq_ok (cc s) (t\<lparr>snd_nxt := snd_una t\<rparr>)"
    using conn_okD(9)[OF assms(1)] by (auto simp: seq_ok_def m split: if_splits)
  then show ?thesis using assms by (simp add: conn_ok_def timers_ok_def)
qed

lemma out_plan_ok:
  assumes "conn_ok s t"
  shows "\<exists>t1 v. out_plan s t = (t1, v) \<and> conn_ok s t1 \<and> same_conn t t1 \<and> outv_ok s t1 v \<and> \<not> ov_rxmit v \<and>
    ov_flags v = tcp_outflags ! t_state t \<and> snd_max t1 = snd_max t \<and> snd_highrxt t1 = snd_highrxt t \<and>
    snd_cwnd t1 = snd_cwnd t \<and> t_flags t1 = t_flags t \<and> (snd_nxt t1 = snd_nxt t \<or> ov_len v = 0) \<and>
    (ov_sendalot v \<longrightarrow> ov_off v + ov_len v < int (cc s)) \<and>
    (t_force t1 \<noteq> 0 \<and> t_timer t1 TCPT_PERSIST \<noteq> 0 \<longrightarrow> \<not> ov_sendalot v \<and> \<not> tf TF_SACK_RECOVER t1)"
proof -
  note D = conn_okD[OF assms]
  define wn where "wn = min (unat (snd_wnd t)) (unat (snd_cwnd t))"
  have win0: "sint (min (snd_wnd t) (snd_cwnd t)) = int wn" unfolding wn_def by (simp only: sint_min_word(1)[OF D(5)] of_nat_min)
  have off: "sint (snd_nxt t - snd_una t) = int (nxt t)"
    using sint_off[of "snd_una t" "snd_nxt t"] D(14) by (simp add: nxt_def seq_in_def)
  define w where "w = (if t_force t \<noteq> 0 \<and> wn = 0 then 1 else wn)"
  define t1 where "t1 = (if t_force t \<noteq> 0 \<and> wn \<noteq> 0 then (set_timer TCPT_PERSIST 0 t)\<lparr>t_rxtshift := 0\<rparr> else t)"
  have pair: "(if t_force t \<noteq> 0
        then (if int wn = 0 then (t, 1) else ((set_timer TCPT_PERSIST 0 t)\<lparr>t_rxtshift := 0\<rparr>, int wn))
        else (t, int wn)) = (t1, int w)" by (simp add: t1_def w_def)
  have w: "w < 2 ^ 31" "w \<le> max 1 (unat (snd_wnd t))" using D(5,6) by (auto simp: w_def wn_def)
  have ww: "unat (w32 (int w)) = w" using w(1) by (simp add: w32_unat)
  have len: "sint (min (sb_cc (so_snd s)) (w32 (int w)) - w32 (int (nxt t))) = int (min (cc s) w) - int (nxt t)"
    using sint_min_diff[of "sb_cc (so_snd s)" "nxt t" "w32 (int w)"] D(14,15) ww unfolding w32_of_nat cc_def by simp
  have c1: "conn_ok s t1" using conn_ok_cancel(1)[OF assms] assms by (simp add: t1_def)
  have s1: "same_conn t t1" by (simp add: t1_def same_conn_def)
  have f1: "snd_nxt t1 = snd_nxt t" "snd_max t1 = snd_max t" "snd_highrxt t1 = snd_highrxt t" "snd_cwnd t1 = snd_cwnd t"
    "t_flags t1 = t_flags t" "snd_una t1 = snd_una t" "t_maxseg t1 = t_maxseg t" "snd_wnd t1 = snd_wnd t"
    "t_state t1 = t_state t" "t_force t1 = t_force t"
    by (simp_all add: t1_def)
  have persist: "t_force t \<noteq> 0 \<Longrightarrow> t_timer t1 TCPT_PERSIST \<noteq> 0 \<Longrightarrow> w = 1 \<and> wn = 0" by (auto simp: t1_def w_def split: if_splits)
  let ?len0 = "int (min (cc s) w) - int (nxt t)"
  define t2 where "t2 = (if ?len0 < 0 \<and> w = 0 then (set_timer TCPT_REXMT 0 t1)\<lparr>snd_nxt := snd_una t1\<rparr> else t1)"
  define len1 where "len1 = (if ?len0 < 0 then 0 else ?len0)"
  have pair2: "(if ?len0 < 0 then (if int w = 0 then (set_timer TCPT_REXMT 0 t1)\<lparr>snd_nxt := snd_una t1\<rparr> else t1, 0)
      else (t1, ?len0)) = (t2, len1)" by (simp add: t2_def len1_def)
  let ?m = "int (unat (t_maxseg t2))"
  let ?v = "\<lparr>ov_off = int (nxt t), ov_len = (if len1 > ?m then ?m else len1), ov_win = int w,
    ov_flags = tcp_outflags ! t_state t2, ov_sendalot = (len1 > ?m), ov_rxmit = False, ov_rseq = 0\<rparr>"
  have run: "out_plan s t = (t2, ?v)"
    unfolding out_plan_def Let_def win0 off pair prod.case len pair2 by (rule refl)
  have f2: "snd_max t2 = snd_max t" "snd_highrxt t2 = snd_highrxt t" "snd_cwnd t2 = snd_cwnd t" "t_flags t2 = t_flags t"
    "t_maxseg t2 = t_maxseg t" "snd_wnd t2 = snd_wnd t" "t_state t2 = t_state t" "t_force t2 = t_force t"
    "t_timer t2 TCPT_PERSIST = t_timer t1 TCPT_PERSIST"
    by (simp_all add: t2_def f1)
  have s2: "same_conn t t2" using s1 by (simp add: t2_def same_conn_def)
  have rec: "wn \<noteq> 0" if "tf TF_SACK_RECOVER t"
  proof -
    have "snd_wnd t \<noteq> 0" "snd_cwnd t \<noteq> 0" using D(11) that by (auto simp: recover_ok_def)
    then show ?thesis by (simp add: unat_gt_0 wn_def)
  qed
  have c2: "conn_ok s t2"
  proof (cases "?len0 < 0 \<and> w = 0")
    case True
    then have "wn = 0" by (simp add: w_def split: if_splits)
    then have "\<not> tf TF_SACK_RECOVER t" using rec by blast
    then have "\<not> tf TF_SACK_RECOVER (set_timer TCPT_REXMT 0 t1)" by (simp add: tf_def f1)
    from conn_ok_pull[OF conn_ok_cancel(2)[OF c1] this] show ?thesis using True by (simp add: t2_def)
  next
    case False
    show ?thesis unfolding t2_def if_not_P[OF False] by (rule c1)
  qed
  have nx: "len1 \<noteq> 0 \<Longrightarrow> snd_nxt t2 = snd_nxt t" by (auto simp: t2_def len1_def f1 split: if_splits)
  have un: "snd_una t2 = snd_una t" using s2 by (simp add: same_conn_def)
  have "nxt t2 = nxt t" if "len1 \<noteq> 0" using nx[OF that] un by (simp add: nxt_def)
  then have ov: "outv_ok s t2 ?v"
    using w(2) f2 by (auto simp: outv_ok_def len1_def)
  have "(len1 > ?m) \<longrightarrow> int (nxt t) + ?m < int (cc s)" by (auto simp: len1_def)
  moreover have pos: "1 \<le> int (unat (t_maxseg t))" using D(12) by linarith
  have "t_force t2 \<noteq> 0 \<and> t_timer t2 TCPT_PERSIST \<noteq> 0 \<longrightarrow> \<not> len1 > ?m \<and> \<not> tf TF_SACK_RECOVER t2"
    using persist pos rec by (auto simp: f2 len1_def tf_def)
  moreover have "snd_nxt t2 = snd_nxt t \<or> ov_len ?v = 0" using nx by (cases "len1 = 0") simp_all
  ultimately show ?thesis using run c2 s2 ov f2
    by (intro exI[of _ t2] exI[of _ ?v]) auto
qed

section \<open>Recovery\<close>

lemma tf_or: "tf f (t\<lparr>t_flags := t_flags t OR m\<rparr>) \<longleftrightarrow> tf f t \<or> m AND f \<noteq> 0"
  by (simp add: tf_def bit.conj_disj_distrib2 or_eq_0_iff)

lemma word_andnot_disj:
  fixes x :: "'a::len word"
  assumes "m AND f = 0"
  shows "(x AND NOT m) AND f = x AND f"
proof -
  have "NOT m AND f = f" using assms by (simp add: bit_eq_iff bit_simps) blast
  then show ?thesis by (simp add: and.assoc)
qed

lemma tf_andnot: "m AND f = 0 \<Longrightarrow> tf f (t\<lparr>t_flags := t_flags t AND NOT m\<rparr>) = tf f t"
  by (simp add: tf_def word_andnot_disj)

text \<open>A hole of the scoreboard is data already sent, below the end of the send buffer.\<close>

definition hole :: "tcpcb \<Rightarrow> u32 \<Rightarrow> u32 \<Rightarrow> bool" where
  "hole t hs he \<longleftrightarrow> seq_in (snd_una t) hs \<and> seq_off (snd_una t) hs < seq_off (snd_una t) he \<and>
     seq_off (snd_una t) (snd_highrxt t) \<le> seq_off (snd_una t) hs \<and>
     he \<in> blk_start ` set (snd_sackblks t)"

lemma recover_okD:
  assumes "conn_ok s t" "tf TF_SACK_RECOVER t"
  shows "snd_nxt t = snd_max t" "snd_wnd t \<noteq> 0" "snd_cwnd t \<noteq> 0" "snd_sack_inv (snd_una t) t"
    "seq_off (snd_una t) (snd_highrxt t) \<le> mx t" "seq_in (snd_una t) (snd_highrxt t)" "nxt t = mx t"
proof -
  have r: "recover_ok t" using conn_okD(11)[OF assms] .
  then show "snd_nxt t = snd_max t" "snd_wnd t \<noteq> 0" "snd_cwnd t \<noteq> 0" "snd_sack_inv (snd_una t) t"
    "seq_off (snd_una t) (snd_highrxt t) \<le> mx t"
    by (simp_all add: recover_ok_def)
  then show "seq_in (snd_una t) (snd_highrxt t)" "nxt t = mx t"
    using conn_okD(13)[OF assms(1)] by (simp_all add: seq_in_def nxt_def mx_def)
qed

lemma nextseg_hole:
  assumes "conn_ok s t" "tf TF_SACK_RECOVER t" "tcp_sack_nextseg t = (hs, he, True)"
  shows "hole t hs he"
proof -
  note R = recover_okD[OF assms(1,2)] and i = snd_sack_inv_blks[OF recover_okD(4)[OF assms(1,2)]]
  show ?thesis
    using nextseg_walk_spec[OF i(1,2) seq_in_self R(6) _ R(4)] assms(3)
    by (simp add: tcp_sack_nextseg_def hole_def)
qed

lemma rescue_hole:
  assumes "conn_ok s t" "tf TF_SACK_RECOVER t" "tcp_sack_rescue t = Some (hs, he)"
  shows "hole t hs he"
proof -
  note R = recover_okD[OF assms(1,2)] and i = snd_sack_inv_blks[OF recover_okD(4)[OF assms(1,2)]]
  show ?thesis
    using rescue_walk_spec[OF i(1,2) seq_in_self R(6)] assms(3)
    by (simp add: tcp_sack_rescue_def hole_def)
qed

lemma hole_bounds:
  assumes "conn_ok s t" "tf TF_SACK_RECOVER t" "hole t hs he"
  shows "sint (hs - snd_una t) = int (seq_off (snd_una t) hs)"
    "sint (he - hs) = int (seq_off (snd_una t) he) - int (seq_off (snd_una t) hs)"
    "seq_off (snd_una t) he \<le> min (cc s) (mx t)" "hs = snd_una t + of_nat (seq_off (snd_una t) hs)"
proof -
  note R = recover_okD[OF assms(1,2)] and i = snd_sack_inv_blks[OF recover_okD(4)[OF assms(1,2)]]
  have h: "seq_in (snd_una t) hs" "he \<in> blk_start ` set (snd_sackblks t)" using assms(3) by (auto simp: hole_def)
  then obtain k where k: "k \<in> set (snd_sackblks t)" "he = blk_start k" by auto
  have b: "seq_off (snd_una t) (blk_start k) < seq_off (snd_una t) (blk_end k)"
    "seq_off (snd_una t) (blk_end k) \<le> mx t"
    using blks_ok_mem[OF k(1) i(1)] by (simp_all add: mx_def)
  then show "seq_off (snd_una t) he \<le> min (cc s) (mx t)" using k(2) conn_okD(8)[OF assms(1)] by simp
  have "seq_in (snd_una t) he" using blks_ok_in[OF i(1,2) k(1)] k(2) by simp
  from sint_diff_off[OF this h(1)]
  show "sint (he - hs) = int (seq_off (snd_una t) he) - int (seq_off (snd_una t) hs)" .
  show "sint (hs - snd_una t) = int (seq_off (snd_una t) hs)" using sint_off[OF h(1)] .
  show "hs = snd_una t + of_nat (seq_off (snd_una t) hs)" by (simp add: seq_of_off)
qed

text \<open>The end of the rules: the cut to one segment and to no less than nothing.\<close>

definition out_cut :: "tcpcb \<Rightarrow> outv \<Rightarrow> outv" where
  "out_cut t v =
     (let v2 = (if ov_len v > int (unat (t_maxseg t))
                then v\<lparr>ov_len := int (unat (t_maxseg t)), ov_sendalot := True\<rparr> else v)
      in if ov_len v2 < 0 then v2\<lparr>ov_len := 0\<rparr> else v2)"

lemma out_cut_sel [simp]:
  "ov_off (out_cut t v) = ov_off v" "ov_rxmit (out_cut t v) = ov_rxmit v" "ov_rseq (out_cut t v) = ov_rseq v"
  "ov_flags (out_cut t v) = ov_flags v" "ov_win (out_cut t v) = ov_win v"
  "ov_len (out_cut t v) = max 0 (min (ov_len v) (int (unat (t_maxseg t))))"
  "ov_sendalot (out_cut t v) = (ov_sendalot v \<or> ov_len v > int (unat (t_maxseg t)))"
  by (auto simp: out_cut_def Let_def)

lemma out_rules_alt:
  "out_rules s pipe t v =
     (let (hs, he, rx) = tcp_sack_nextseg t;
          (t1, v1) =
            (if rx then (t, out_hole t hs he v)
             else let room = sint (snd_cwnd t - pipe);
                      off = sint (snd_max t - snd_una t);
                      len0 = sint (min (sb_cc (so_snd s)) (snd_wnd t) - w32 off);
                      len = (if len0 > room then room else len0);
                      v0 = v\<lparr>ov_off := off, ov_len := len\<rparr>
                  in if len \<le> 0 \<and> \<not> tf TF_SACK_RESCUE t then
                       (case tcp_sack_rescue t of
                          Some (rs, re) \<Rightarrow> (t\<lparr>t_flags := t_flags t OR TF_SACK_RESCUE\<rparr>, out_hole t rs re v0)
                        | None \<Rightarrow> (t, v0))
                     else (t, v0))
      in (t1, out_cut t1 v1))"
  by (simp add: out_rules_def out_cut_def Let_def split_def)

lemma conn_ok_flags:
  assumes "conn_ok s t" "tf TF_SENTFIN (t\<lparr>t_flags := f\<rparr>) = tf TF_SENTFIN t"
    "tf TF_SACK_RECOVER (t\<lparr>t_flags := f\<rparr>) = tf TF_SACK_RECOVER t"
  shows "conn_ok s (t\<lparr>t_flags := f\<rparr>)" "same_conn t (t\<lparr>t_flags := f\<rparr>)"
proof -
  show "same_conn t (t\<lparr>t_flags := f\<rparr>)" using assms(3) by (simp add: same_conn_def)
  then show "conn_ok s (t\<lparr>t_flags := f\<rparr>)"
    using conn_okD(10)[OF assms(1)] assms(2) by (intro conn_ok_timers[OF assms(1)]) (simp_all add: timers_ok_def)
qed

lemma out_hole_ok:
  assumes "conn_ok s t" "tf TF_SACK_RECOVER t" "hole t hs he" "\<not> ov_sendalot v"
  shows "outv_ok s t (out_cut t (out_hole t hs he v))"
proof -
  note b = hole_bounds[OF assms(1-3)]
  have "seq_off (snd_una t) hs < seq_off (snd_una t) he" "seq_off (snd_una t) (snd_highrxt t) \<le> seq_off (snd_una t) hs"
    using assms(3) by (auto simp: hole_def)
  moreover have "1 \<le> int (unat (t_maxseg t))" using conn_okD(12)[OF assms(1)] by linarith
  moreover have "hs = snd_una t + w32 (int (seq_off (snd_una t) hs))" using b(4) by (simp only: w32_of_nat)
  ultimately show ?thesis
    using b(3) assms(4) unfolding outv_ok_def out_cut_sel by (auto simp: out_hole_def b(1,2))
qed

lemma outv_ok_flags [simp]: "outv_ok s (t\<lparr>t_flags := f\<rparr>) v = outv_ok s t v"
  by (simp add: outv_ok_def nxt_def mx_def)

lemma room_pos:
  fixes p c :: u32
  assumes "p < c" "unat c < 2 ^ 31"
  shows "sint (c - p) = int (unat c) - int (unat p)"
  using assms by (intro sint_diff_small) (auto simp: word_less_nat_alt)

text \<open>New data, from \<open>snd_max\<close>, as much as the pipe and the window allow.\<close>

lemma out_new_ok:
  assumes "conn_ok s t" "tf TF_SACK_RECOVER t" "\<not> ov_sendalot v" "\<not> ov_rxmit v"
    and "len \<le> int (min (cc s) (unat (snd_wnd t))) - int (mx t)"
  shows "outv_ok s t (out_cut t (v\<lparr>ov_off := int (mx t), ov_len := len\<rparr>))"
    "ov_sendalot (out_cut t (v\<lparr>ov_off := int (mx t), ov_len := len\<rparr>)) \<Longrightarrow>
     int (mx t) + ov_len (out_cut t (v\<lparr>ov_off := int (mx t), ov_len := len\<rparr>)) < int (cc s)"
proof -
  note R = recover_okD[OF assms(1,2)]
  have m: "1 \<le> int (unat (t_maxseg t))" using conn_okD(12)[OF assms(1)] by linarith
  show "outv_ok s t (out_cut t (v\<lparr>ov_off := int (mx t), ov_len := len\<rparr>))"
    using assms(3-5) m unfolding outv_ok_def out_cut_sel R(7) by auto
  show "int (mx t) + ov_len (out_cut t (v\<lparr>ov_off := int (mx t), ov_len := len\<rparr>)) < int (cc s)"
    if "ov_sendalot (out_cut t (v\<lparr>ov_off := int (mx t), ov_len := len\<rparr>))"
    using assms(3,5) that by auto
qed

lemma out_rules_ok:
  assumes "conn_ok s t" "tf TF_SACK_RECOVER t" "\<not> ov_sendalot v" "\<not> ov_rxmit v" "pipe < snd_cwnd t"
  shows "\<exists>t1 v1. out_rules s pipe t v = (t1, v1) \<and> conn_ok s t1 \<and> same_conn t t1 \<and>
    (t1 = t \<or> t1 = t\<lparr>t_flags := t_flags t OR TF_SACK_RESCUE\<rparr>) \<and> outv_ok s t1 v1 \<and> ov_flags v1 = ov_flags v \<and>
    (ov_sendalot v1 \<and> \<not> ov_rxmit v1 \<longrightarrow> ov_off v1 + ov_len v1 < int (cc s))"
proof -
  obtain hs he rx where n: "tcp_sack_nextseg t = (hs, he, rx)" by (metis prod_cases3)
  show ?thesis
  proof (cases rx)
    case True
    then have h: "hole t hs he" using nextseg_hole[OF assms(1,2)] n by simp
    have "out_rules s pipe t v = (t, out_cut t (out_hole t hs he v))"
      using True by (simp add: out_rules_alt n)
    moreover have "ov_rxmit (out_cut t (out_hole t hs he v))" "ov_flags (out_cut t (out_hole t hs he v)) = ov_flags v"
      by (simp_all add: out_hole_def)
    ultimately show ?thesis using out_hole_ok[OF assms(1,2) h assms(3)] assms(1)
      by (intro exI[of _ t] exI[of _ "out_cut t (out_hole t hs he v)"]) simp
  next
    case False
    note D = conn_okD[OF assms(1)]
    define room where "room = sint (snd_cwnd t - pipe)"
    have off: "sint (snd_max t - snd_una t) = int (mx t)"
      using sint_off[of "snd_una t" "snd_max t"] D(13) by (simp add: mx_def seq_in_def)
    have len0: "sint (min (sb_cc (so_snd s)) (snd_wnd t) - w32 (int (mx t))) = int (min (cc s) (unat (snd_wnd t))) - int (mx t)"
      using sint_min_diff[of "sb_cc (so_snd s)" "mx t" "snd_wnd t"] D(13,15) unfolding w32_of_nat cc_def by simp
    define len where "len = (if int (min (cc s) (unat (snd_wnd t))) - int (mx t) > room then room
                             else int (min (cc s) (unat (snd_wnd t))) - int (mx t))"
    have le: "len \<le> int (min (cc s) (unat (snd_wnd t))) - int (mx t)" by (simp add: len_def)
    let ?v0 = "v\<lparr>ov_off := int (mx t), ov_len := len\<rparr>"
    note nw = out_new_ok[OF assms(1-4) le]
    have run: "out_rules s pipe t v =
        (let (t1, v1) = (if len \<le> 0 \<and> \<not> tf TF_SACK_RESCUE t then
             (case tcp_sack_rescue t of
                Some (rs, re) \<Rightarrow> (t\<lparr>t_flags := t_flags t OR TF_SACK_RESCUE\<rparr>, out_hole t rs re ?v0)
              | None \<Rightarrow> (t, ?v0))
           else (t, ?v0))
         in (t1, out_cut t1 v1))"
      unfolding out_rules_alt n Let_def prod.case off len0 room_def[symmetric] len_def[symmetric] using False by simp
    show ?thesis
    proof (cases "\<exists>rs re. len \<le> 0 \<and> \<not> tf TF_SACK_RESCUE t \<and> tcp_sack_rescue t = Some (rs, re)")
      case True
      then obtain rs re where r: "len \<le> 0" "\<not> tf TF_SACK_RESCUE t" "tcp_sack_rescue t = Some (rs, re)" by blast
      let ?t1 = "t\<lparr>t_flags := t_flags t OR TF_SACK_RESCUE\<rparr>"
      have h: "hole t rs re" by (rule rescue_hole[OF assms(1,2) r(3)])
      have c: "conn_ok s ?t1" "same_conn t ?t1"
        by (rule conn_ok_flags[OF assms(1)]; simp add: tf_or TF_SACK_RESCUE_def TF_SENTFIN_def TF_SACK_RECOVER_def)+
      have cut: "out_cut ?t1 w = out_cut t w" for w by (simp add: out_cut_def)
      have "out_rules s pipe t v = (?t1, out_cut t (out_hole t rs re ?v0))"
        unfolding run using r by (simp add: cut)
      moreover have "ov_rxmit (out_cut t (out_hole t rs re ?v0))" "ov_flags (out_cut t (out_hole t rs re ?v0)) = ov_flags v"
        by (simp_all add: out_hole_def)
      moreover have "outv_ok s ?t1 (out_cut t (out_hole t rs re ?v0))"
        using out_hole_ok[OF assms(1,2) h, of ?v0] assms(3) by simp
      ultimately show ?thesis using c
        by (intro exI[of _ ?t1] exI[of _ "out_cut t (out_hole t rs re ?v0)"]) simp
    next
      case no: False
      have "out_rules s pipe t v = (t, out_cut t ?v0)"
        unfolding run using no by (auto split: option.splits)
      then show ?thesis using nw assms(1)
        by (intro exI[of _ t] exI[of _ "out_cut t ?v0"]) (auto simp del: out_cut_sel(6,7))
    qed
  qed
qed

text \<open>What a decision leaves unchanged beside \<open>same_conn\<close>.\<close>

lemma out_recover_ok:
  assumes "conn_ok s t" "outv_ok s t v" "\<not> ov_rxmit v"
    and "ov_sendalot v \<longrightarrow> ov_off v + ov_len v < int (cc s)"
  shows "\<exists>t1 v1. out_recover s t v = (t1, v1) \<and> conn_ok s t1 \<and> same_conn t t1 \<and>
    (t1 = t \<or> t1 = t\<lparr>t_flags := t_flags t OR TF_SACK_RESCUE\<rparr>) \<and> outv_ok s t1 v1 \<and> ov_flags v1 = ov_flags v \<and>
    (ov_sendalot v1 \<and> \<not> ov_rxmit v1 \<longrightarrow> ov_off v1 + ov_len v1 < int (cc s)) \<and>
    (ov_rxmit v1 \<longrightarrow> tf TF_SACK_RECOVER t1 \<and> 0 < ov_len v1) \<and> (\<not> tf TF_SACK_RECOVER t \<longrightarrow> t1 = t \<and> v1 = v)"
proof (cases "tf TF_SACK_RECOVER t")
  case False
  then show ?thesis using assms by (intro exI[of _ t] exI[of _ v]) (simp add: out_recover_def)
next
  case rec: True
  note R = recover_okD[OF assms(1) rec]
  let ?v0 = "v\<lparr>ov_len := 0, ov_sendalot := False\<rparr>"
  have probe: "out_probe s t1 w = w" if "snd_wnd t1 = snd_wnd t" for t1 w
    using R(2) that by (simp add: out_probe_def)
  show ?thesis
  proof (cases "tcp_sack_pipe t < snd_cwnd t")
    case True
    obtain t1 v1 where r: "out_rules s (tcp_sack_pipe t) t ?v0 = (t1, v1)" "conn_ok s t1" "same_conn t t1"
      "t1 = t \<or> t1 = t\<lparr>t_flags := t_flags t OR TF_SACK_RESCUE\<rparr>" "outv_ok s t1 v1" "ov_flags v1 = ov_flags v"
      "ov_sendalot v1 \<and> \<not> ov_rxmit v1 \<longrightarrow> ov_off v1 + ov_len v1 < int (cc s)"
      using out_rules_ok[OF assms(1) rec, of ?v0 "tcp_sack_pipe t"] assms(3) True by auto
    have "out_recover s t v = (t1, v1)"
      using rec True r(1,3) probe[of t1] by (simp add: out_recover_def Let_def same_conn_def)
    moreover have "tf TF_SACK_RECOVER t1" using r(3) rec by (simp add: same_conn_def)
    moreover have "ov_rxmit v1 \<longrightarrow> 0 < ov_len v1" using r(5) by (simp add: outv_ok_def)
    ultimately show ?thesis using r rec by (intro exI[of _ t1] exI[of _ v1]) simp
  next
    case False
    have "out_recover s t v = (t, ?v0)" using rec False probe by (simp add: out_recover_def Let_def)
    moreover have "outv_ok s t ?v0" using assms(3) by (simp add: outv_ok_def)
    ultimately show ?thesis using assms rec by (intro exI[of _ t] exI[of _ ?v0]) simp
  qed
qed

section \<open>The decision\<close>

text \<open>What holds of the segment when the code reaches \<open>send:\<close>.\<close>

definition send_ok :: "tcpsock \<Rightarrow> tcpcb \<Rightarrow> outv \<Rightarrow> bool" where
  "send_ok s t v \<longleftrightarrow> outv_ok s t v \<and> \<not> hasf TH_SYN (ov_flags v) \<and>
     (hasf TH_FIN (ov_flags v) \<longrightarrow> fin_state t \<and>
        int (cc s) \<le> (if ov_rxmit v then ov_off v else int (nxt t)) + ov_len v) \<and>
     (ov_sendalot v \<and> \<not> ov_rxmit v \<longrightarrow> ov_off v + ov_len v < int (cc s)) \<and>
     (ov_rxmit v \<longrightarrow> tf TF_SACK_RECOVER t) \<and>
     (t_force t \<noteq> 0 \<and> t_timer t TCPT_PERSIST \<noteq> 0 \<longrightarrow> \<not> ov_sendalot v \<and> \<not> tf TF_SACK_RECOVER t)"

lemma hasf_andnot: "hasf f (w AND NOT m) \<Longrightarrow> hasf f w"
  by (auto simp: hasf_def and.assoc) (metis and.commute and.left_commute and_zero_eq)

lemma synced_flags:
  assumes "n = 0 \<or> 4 \<le> n" "n \<le> 10"
  shows "\<not> hasf TH_SYN (tcp_outflags ! n)"
    "hasf TH_FIN (tcp_outflags ! n) \<Longrightarrow> 6 \<le> n \<and> n \<le> 8"
proof -
  have "tcp_outflags ! 0 = TH_RST OR TH_ACK" by (simp add: tcp_outflags_def)
  then have "n = 0 \<or> tcp_outflags ! n = (if 6 \<le> n \<and> n \<le> 8 then TH_FIN OR TH_ACK else TH_ACK)"
    "tcp_outflags ! 0 = TH_RST OR TH_ACK"
    using tcp_outflags_synced[OF _ assms(2)] assms(1) by auto
  then show "\<not> hasf TH_SYN (tcp_outflags ! n)" "hasf TH_FIN (tcp_outflags ! n) \<Longrightarrow> 6 \<le> n \<and> n \<le> 8"
    by (auto simp: hasf_def TH_SYN_def TH_RST_def TH_FIN_def TH_ACK_def split: if_splits)
qed

lemma out_nofin_sel [simp]:
  "ov_off (out_nofin s t f v) = ov_off v" "ov_len (out_nofin s t f v) = ov_len v"
  "ov_rxmit (out_nofin s t f v) = ov_rxmit v" "ov_rseq (out_nofin s t f v) = ov_rseq v"
  "ov_sendalot (out_nofin s t f v) = ov_sendalot v" "ov_win (out_nofin s t f v) = ov_win v"
  by (simp_all add: out_nofin_def)

lemma outv_ok_cong:
  assumes "ov_off v' = ov_off v" "ov_len v' = ov_len v" "ov_rxmit v' = ov_rxmit v" "ov_rseq v' = ov_rseq v"
    "ov_sendalot v' = ov_sendalot v"
  shows "outv_ok s t v' = outv_ok s t v"
  using assms by (simp add: outv_ok_def)

lemma out_nofin_fin:
  assumes "f = snd_una t + of_nat n" "0 \<le> ov_len v" "n + nat (ov_len v) < 2 ^ 31" "cc s < 2 ^ 31"
    and "hasf TH_FIN (ov_flags (out_nofin s t f v))"
  shows "hasf TH_FIN (ov_flags v)" "int (cc s) \<le> int n + ov_len v"
proof -
  have e: "f + w32 (ov_len v) = snd_una t + of_nat (n + nat (ov_len v))"
    using assms(1,2) w32_of_nat[of "nat (ov_len v)"] by simp
  have lt: "SEQ_LT (f + w32 (ov_len v)) (snd_una t + sb_cc (so_snd s)) \<longleftrightarrow> n + nat (ov_len v) < cc s"
    unfolding e sb_cc_of by (rule SEQ_LT_of_off[OF assms(3,4)])
  have "\<not> hasf TH_FIN (ov_flags v AND NOT TH_FIN)" by (simp add: hasf_def TH_FIN_def and.assoc)
  then have "\<not> SEQ_LT (f + w32 (ov_len v)) (snd_una t + sb_cc (so_snd s))"
    using assms(5) unfolding out_nofin_def by (auto split: if_splits)
  then show "int (cc s) \<le> int n + ov_len v" "hasf TH_FIN (ov_flags v)"
    using lt assms(2,5) by (auto simp: out_nofin_def)
qed

lemma out_decide_ok:
  assumes "conn_ok s t"
  shows "\<exists>t1 v snd. out_decide s idle t = (t1, v, snd) \<and> conn_ok s t1 \<and> same_conn t t1 \<and>
    send_ok s t1 v \<and> snd_max t1 = snd_max t \<and> snd_highrxt t1 = snd_highrxt t \<and>
    (snd_nxt t1 = snd_nxt t \<or> ov_len v = 0)"
proof -
  obtain t1 v1 where p: "out_plan s t = (t1, v1)" "conn_ok s t1" "same_conn t t1" "outv_ok s t1 v1"
    "\<not> ov_rxmit v1" "ov_flags v1 = tcp_outflags ! t_state t" "snd_max t1 = snd_max t"
    "snd_highrxt t1 = snd_highrxt t" "t_flags t1 = t_flags t" "snd_nxt t1 = snd_nxt t \<or> ov_len v1 = 0"
    "ov_sendalot v1 \<longrightarrow> ov_off v1 + ov_len v1 < int (cc s)"
    "t_force t1 \<noteq> 0 \<and> t_timer t1 TCPT_PERSIST \<noteq> 0 \<longrightarrow> \<not> ov_sendalot v1 \<and> \<not> tf TF_SACK_RECOVER t1"
    using out_plan_ok[OF assms] by blast
  obtain t2 v2 where r: "out_recover s t1 v1 = (t2, v2)" "conn_ok s t2" "same_conn t1 t2"
    "t2 = t1 \<or> t2 = t1\<lparr>t_flags := t_flags t1 OR TF_SACK_RESCUE\<rparr>" "outv_ok s t2 v2" "ov_flags v2 = ov_flags v1"
    "ov_sendalot v2 \<and> \<not> ov_rxmit v2 \<longrightarrow> ov_off v2 + ov_len v2 < int (cc s)"
    "ov_rxmit v2 \<longrightarrow> tf TF_SACK_RECOVER t2 \<and> 0 < ov_len v2" "\<not> tf TF_SACK_RECOVER t1 \<longrightarrow> t2 = t1 \<and> v2 = v1"
    using out_recover_ok[OF p(2,4,5) p(11)] by blast
  note D = conn_okD[OF r(2)]
  have st: "t_state t2 = t_state t" using p(3) r(3) by (simp add: same_conn_def)
  have fl: "\<not> hasf TH_SYN (ov_flags v2)" "hasf TH_FIN (ov_flags v2) \<Longrightarrow> fin_state t2"
    using synced_flags[of "t_state t2"] D(1,2) r(6) p(6) st by (simp_all add: fin_state_def)
  have len: "0 \<le> ov_len v2" "ov_len v2 \<le> int (unat (t_maxseg t2))" using r(5) by (auto simp: outv_ok_def)
  have small: "unat (t_maxseg t2) < 2 ^ 16" using unat_u16_bound[of "t_maxseg t2"] by simp
  have rx: "ov_off v2 + ov_len v2 \<le> int (cc s) \<and> 0 \<le> ov_off v2 \<and> ov_rseq v2 = snd_una t2 + of_nat (nat (ov_off v2))"
    if "ov_rxmit v2"
    using r(5) that w32_of_nat[of "nat (ov_off v2)"] by (auto simp: outv_ok_def)
  have sq: "nxt t2 + nat (ov_len v2) < 2 ^ 31"
  proof -
    have "nxt t2 \<le> cc s + 1" using D(7,8) by linarith
    moreover have "nat (ov_len v2) \<le> unat (t_maxseg t2)" using len by linarith
    moreover have "(2::nat) ^ 30 + 2 ^ 16 + 1 < 2 ^ 31" by simp
    ultimately show ?thesis using small D(4) by linarith
  qed
  define f where "f = (if tf TF_SACK_RECOVER t1 \<and> ov_len v2 > 0 \<and> ov_rxmit v2 then ov_rseq v2 else snd_nxt t2)"
  define n where "n = (if ov_rxmit v2 then nat (ov_off v2) else nxt t2)"
  have rec12: "tf TF_SACK_RECOVER t1 = tf TF_SACK_RECOVER t2" using r(3) by (simp add: same_conn_def)
  have fn: "f = snd_una t2 + of_nat n"
    using rx r(8) rec12 snd_nxt_of(1)[of t2] by (auto simp: f_def n_def)
  have nl: "n + nat (ov_len v2) < 2 ^ 31" using sq rx len(1) D(15) by (auto simp: n_def)
  define v where "v = out_nofin s t2 f v2\<lparr>ov_win := sbspace (so_rcv s)\<rparr>"
  have cm: "out_nofin s t2 g (v2\<lparr>ov_win := w\<rparr>) = (out_nofin s t2 g v2)\<lparr>ov_win := w\<rparr>" for g w
    by (simp add: out_nofin_def)
  have run: "\<exists>snd. out_decide s idle t = (t2, v, snd)"
    using r(8) rec12 by (auto simp: out_decide_def p(1) r(1) v_def f_def cm Let_def)
  have sl: "ov_off v = ov_off v2" "ov_len v = ov_len v2" "ov_rxmit v = ov_rxmit v2" "ov_rseq v = ov_rseq v2"
    "ov_sendalot v = ov_sendalot v2" "ov_flags v = ov_flags (out_nofin s t2 f v2)"
    by (simp_all add: v_def)
  have syn: "\<not> hasf TH_SYN (ov_flags v)"
    using fl(1) hasf_andnot[of TH_SYN "ov_flags v2" TH_FIN]
    by (auto simp: sl(6) out_nofin_def)
  have fin: "fin_state t2 \<and> int (cc s) \<le> (if ov_rxmit v then ov_off v else int (nxt t2)) + ov_len v"
    if "hasf TH_FIN (ov_flags v)"
  proof -
    note a = out_nofin_fin[OF fn len(1) nl D(15) that[unfolded sl(6)]]
    have "int n = (if ov_rxmit v2 then ov_off v2 else int (nxt t2))" using rx by (simp add: n_def)
    then show ?thesis using a fl(2) unfolding sl(1-3) by simp
  qed
  have fp: "t_force t2 \<noteq> 0 \<and> t_timer t2 TCPT_PERSIST \<noteq> 0 \<longrightarrow> \<not> ov_sendalot v2 \<and> \<not> tf TF_SACK_RECOVER t2"
  proof (cases "tf TF_SACK_RECOVER t1")
    case True
    have "t_force t2 = t_force t1 \<and> t_timer t2 = t_timer t1" using r(4) by (elim disjE) simp_all
    then show ?thesis using p(12) True by auto
  next
    case False
    then show ?thesis using p(12) r(9) by simp
  qed
  have ov: "outv_ok s t2 v" using r(5) outv_ok_cong[OF sl(1-5)] by blast
  have ok: "send_ok s t2 v"
    unfolding send_ok_def sl(1-5) using ov syn fin[unfolded sl(1-5)] r(7,8) fp by blast
  have "snd_nxt t2 = snd_nxt t \<or> ov_len v = 0"
  proof (cases "tf TF_SACK_RECOVER t1")
    case True
    have a: "snd_nxt t1 = snd_max t1" using recover_okD(1)[OF p(2) True] .
    have "tf TF_SACK_RECOVER t" using True p(3) by (simp add: same_conn_def)
    then have "snd_nxt t = snd_max t" using recover_okD(1)[OF assms] by blast
    then show ?thesis using a p(7) r(4) by auto
  next
    case False
    then show ?thesis using p(10) r(9) sl(2) by auto
  qed
  then show ?thesis
    using run r(2,3,4) p(3,7,8) ok same_conn_trans[OF p(3) r(3)] by auto
qed

end
