(* ===== verification/Tcp_Output_Inv.thy ===== *)
theory Tcp_Output_Inv
  imports Tcp_Conn
begin

text \<open>
  One turn of \<open>tcp_output\<close> and its loop: what sending a segment does to a well-formed connection,
  and why the loop ends.
\<close>

section \<open>Sending a segment\<close>

lemma conn_okI:
  assumes "conn_ok s t" "same_conn t t'" "seq_ok (cc s) t'" "timers_ok t'" "snd_cwnd t' = snd_cwnd t"
    and "tf TF_SACK_RECOVER t \<Longrightarrow> recover_ok t'"
  shows "conn_ok s t'"
  using assms unfolding conn_ok_def same_conn_def by simp

lemma recover_okI:
  assumes "conn_ok s t" "tf TF_SACK_RECOVER t" "same_conn t t'" "snd_cwnd t' = snd_cwnd t"
    and "snd_nxt t' = snd_max t'" "mx t \<le> mx t'" "mx t' < 2 ^ 31"
    and "seq_off (snd_una t) (snd_highrxt t') \<le> mx t'"
  shows "recover_ok t'"
proof -
  note R = recover_okD[OF assms(1,2)]
  have "blks_ok (snd_una t) 0 (mx t') (snd_sackblks t)"
    using blks_ok_mono[of "snd_una t" 0 "mx t" "snd_sackblks t" 0 "mx t'"] R(4) assms(6)
    by (simp add: snd_sack_inv_def mx_def)
  then show ?thesis
    using R(2-4) assms(3-8) by (simp add: recover_ok_def same_conn_def snd_sack_inv_def mx_def)
qed

text \<open>The sequence numbers as offsets.\<close>

lemma nxt_of_nat: "n < 2 ^ 31 \<Longrightarrow> snd_nxt t = snd_una t + of_nat n \<Longrightarrow> nxt t = n"
  using seq_off_add[of n "snd_una t"] by (simp add: nxt_def)

lemma SEQ_GT_of_off:
  assumes "m < 2 ^ 31" "n < 2 ^ 31"
  shows "SEQ_GT (u + of_nat m) (u + of_nat n) \<longleftrightarrow> n < m"
proof -
  have "m < 2 ^ 32" "n < 2 ^ 32" using assms by (auto intro: less_trans)
  then have o: "seq_off u (u + of_nat m) = m" "seq_off u (u + of_nat n) = n" by (simp_all only: seq_off_add)
  then show ?thesis using sw.gt_off[of u "u + of_nat m" "u + of_nat n"] assms unfolding seq_in_def o by blast
qed

text \<open>What the accounting of a plain segment does to each field.\<close>

lemma acct_send_sel:
  assumes "\<not> hasf TH_SYN (ov_flags v)"
  shows "snd_nxt (acct_send t v) = snd_nxt t + (if hasf TH_FIN (ov_flags v) then 1 else 0) + w32 (ov_len v)"
    "snd_max (acct_send t v) = (if SEQ_GT (snd_nxt (acct_send t v)) (snd_max t)
       then snd_nxt (acct_send t v) else snd_max t)"
    "t_flags (acct_send t v) = (if hasf TH_FIN (ov_flags v) then t_flags t OR TF_SENTFIN else t_flags t)"
    "snd_una (acct_send t v) = snd_una t" "t_state (acct_send t v) = t_state t"
    "t_maxseg (acct_send t v) = t_maxseg t" "snd_wnd (acct_send t v) = snd_wnd t"
    "snd_cwnd (acct_send t v) = snd_cwnd t" "snd_sackblks (acct_send t v) = snd_sackblks t"
    "snd_highrxt (acct_send t v) = snd_highrxt t" "t_force (acct_send t v) = t_force t"
    "t_rxtcur (acct_send t v) = t_rxtcur t" "t_srtt (acct_send t v) = t_srtt t"
    "t_rttvar (acct_send t v) = t_rttvar t" "t_rttmin (acct_send t v) = t_rttmin t"
  using assms by (simp_all add: acct_send_def Let_def)

lemma acct_send_timers:
  assumes "timers_ok t" shows "timers_ok (acct_send t v)"
  using assms by (auto simp: acct_send_def Let_def timers_ok_def TCP_MAXRXTSHIFT_def)

lemma acct_send_same:
  assumes "\<not> hasf TH_SYN (ov_flags v)"
  shows "same_conn t (acct_send t v)"
    "tf TF_SENTFIN (acct_send t v) \<longleftrightarrow> tf TF_SENTFIN t \<or> hasf TH_FIN (ov_flags v)"
proof -
  have f: "tf m (acct_send t v) \<longleftrightarrow> tf m t \<or> hasf TH_FIN (ov_flags v) \<and> TF_SENTFIN AND m \<noteq> 0" for m
    using acct_send_sel(3)[OF assms, of t] by (auto simp: tf_def bit.conj_disj_distrib2 or_eq_0_iff)
  then have "tf TF_SACK_RECOVER (acct_send t v) = tf TF_SACK_RECOVER t"
    by (simp add: TF_SENTFIN_def TF_SACK_RECOVER_def)
  then show "same_conn t (acct_send t v)" by (simp add: same_conn_def acct_send_sel[OF assms])
  show "tf TF_SENTFIN (acct_send t v) \<longleftrightarrow> tf TF_SENTFIN t \<or> hasf TH_FIN (ov_flags v)"
    using f[of TF_SENTFIN] by (simp add: TF_SENTFIN_def)
qed

text \<open>
  A segment of \<open>n\<close> octets from the offset of \<open>snd_nxt\<close>, with the FIN behind the last one: where
  \<open>snd_nxt\<close> and \<open>snd_max\<close> go.
\<close>

lemma acct_send_off:
  assumes "\<not> hasf TH_SYN (ov_flags v)" "0 \<le> ov_len v"
    and "nxt t + nat (ov_len v) + 1 < 2 ^ 31" "mx t < 2 ^ 31"
  shows "nxt (acct_send t v) = nxt t + nat (ov_len v) + (if hasf TH_FIN (ov_flags v) then 1 else 0)"
    "mx (acct_send t v) = max (mx t) (nxt (acct_send t v))"
    "mx t \<le> nxt (acct_send t v) \<Longrightarrow> snd_nxt (acct_send t v) = snd_max (acct_send t v)"
proof -
  let ?n = "nxt t + nat (ov_len v) + (if hasf TH_FIN (ov_flags v) then 1 else 0)"
  have n: "?n < 2 ^ 31" using assms(3) by simp
  have len: "w32 (ov_len v) = of_nat (nat (ov_len v))" using w32_of_nat[of "nat (ov_len v)"] assms(2) by simp
  have x: "snd_nxt (acct_send t v) = snd_una t + of_nat ?n"
    using snd_nxt_of(1)[of t] by (simp add: acct_send_sel(1)[OF assms(1)] len)
  then show e: "nxt (acct_send t v) = ?n"
    using nxt_of_nat[OF n, of "acct_send t v"] acct_send_sel(4)[OF assms(1)] by simp
  have g: "SEQ_GT (snd_nxt (acct_send t v)) (snd_max t) \<longleftrightarrow> mx t < ?n"
    unfolding x snd_nxt_of(2)[of t] by (rule SEQ_GT_of_off[OF n assms(4)])
  have m: "mx (acct_send t v) = (if mx t < ?n then nxt (acct_send t v) else mx t)"
    using acct_send_sel(2)[OF assms(1), of t] acct_send_sel(4)[OF assms(1), of t] g
    by (simp add: mx_def nxt_def)
  then show "mx (acct_send t v) = max (mx t) (nxt (acct_send t v))" unfolding e by simp
  show "snd_nxt (acct_send t v) = snd_max (acct_send t v)" if "mx t \<le> nxt (acct_send t v)"
  proof (cases "mx t < ?n")
    case True
    then show ?thesis using acct_send_sel(2)[OF assms(1), of t] g by simp
  next
    case False
    then have "mx t = ?n" using that unfolding e by simp
    then show ?thesis using acct_send_sel(2)[OF assms(1), of t] g x snd_nxt_of(2)[of t] by simp
  qed
qed

text \<open>
  A segment on the wire: within the segment size; its data within the send buffer and the limit
  \<open>w\<close>, under the sequence number of its first byte; a FIN only at the end of the buffer.
\<close>

definition seg_ok :: "tcpsock \<Rightarrow> tcpcb \<Rightarrow> nat \<Rightarrow> tcpseg \<Rightarrow> bool" where
  "seg_ok s t w g \<longleftrightarrow> 0 \<le> sg_len g \<and> sg_len g \<le> int (unat (t_maxseg t)) \<and>
     (0 < sg_len g \<longrightarrow> 0 \<le> sg_off g \<and> sg_off g + sg_len g \<le> int (min (cc s) w) \<and>
        sg_seq g = snd_una t + w32 (sg_off g)) \<and>
     (hasf TH_FIN (sg_flags g) \<longrightarrow> sg_seq g + w32 (sg_len g) = snd_una t + sb_cc (so_snd s))"

text \<open>The resent FIN goes under the sequence number it had.\<close>

definition fin_again :: "tcpcb \<Rightarrow> outv \<Rightarrow> bool" where
  "fin_again t v \<longleftrightarrow> \<not> ov_rxmit v \<and> hasf TH_FIN (ov_flags v) \<and> tf TF_SENTFIN t \<and> snd_nxt t = snd_max t"

lemma out_header_sel:
  assumes "out_header s t v opt = (t1, g)"
  shows "snd_nxt t1 = (if fin_again t v then snd_nxt t - 1 else snd_nxt t)"
    "same_conn t t1" "snd_max t1 = snd_max t" "t_flags t1 = t_flags t" "snd_cwnd t1 = snd_cwnd t"
    "snd_highrxt t1 = snd_highrxt t" "t_timer t1 = t_timer t" "t_rxtshift t1 = t_rxtshift t"
    "sg_seq g = (if ov_rxmit v then ov_rseq v else snd_nxt t1)" "sg_off g = ov_off v" "sg_len g = ov_len v"
    "hasf TH_FIN (sg_flags g) = hasf TH_FIN (ov_flags v)"
proof -
  define t0 where "t0 = (if fin_again t v then t\<lparr>snd_nxt := snd_nxt t - 1\<rparr> else t)"
  have t0: "snd_nxt t0 = (if fin_again t v then snd_nxt t - 1 else snd_nxt t)" "same_conn t t0"
    "snd_max t0 = snd_max t" "t_flags t0 = t_flags t" "snd_cwnd t0 = snd_cwnd t" "snd_highrxt t0 = snd_highrxt t"
    "t_timer t0 = t_timer t" "t_rxtshift t0 = t_rxtshift t"
    by (simp_all add: t0_def same_conn_def)
  have up: "same_conn t (t0\<lparr>snd_up := x\<rparr>)" for x using t0(2) by (simp add: same_conn_def)
  have urg: "hasf TH_FIN (w OR TH_URG) = hasf TH_FIN w" for w
    by (simp add: hasf_def TH_URG_def TH_FIN_def bit.conj_disj_distrib2 or_eq_0_iff)
  have r: "t1 = (if SEQ_GT (snd_up t0) (snd_nxt t0) then t0 else t0\<lparr>snd_up := snd_una t0\<rparr>)"
    "sg_seq g = (if ov_rxmit v then ov_rseq v else snd_nxt t0)" "sg_off g = ov_off v" "sg_len g = ov_len v"
    "sg_flags g = (if SEQ_GT (snd_up t0) (snd_nxt t0) then ov_flags v OR TH_URG else ov_flags v)"
    using assms unfolding out_header_def Let_def fin_again_def[symmetric] t0_def[symmetric] by auto
  show "snd_nxt t1 = (if fin_again t v then snd_nxt t - 1 else snd_nxt t)"
    "same_conn t t1" "snd_max t1 = snd_max t" "t_flags t1 = t_flags t" "snd_cwnd t1 = snd_cwnd t"
    "snd_highrxt t1 = snd_highrxt t" "t_timer t1 = t_timer t" "t_rxtshift t1 = t_rxtshift t"
    "sg_seq g = (if ov_rxmit v then ov_rseq v else snd_nxt t1)" "sg_off g = ov_off v" "sg_len g = ov_len v"
    "hasf TH_FIN (sg_flags g) = hasf TH_FIN (ov_flags v)"
    using t0 up urg by (simp_all add: r)
qed

text \<open>The FIN at the right place: the offsets before the segment is accounted.\<close>

lemma fin_offsets:
  assumes "conn_ok s t" "send_ok s t v" "\<not> ov_rxmit v" "out_header s t v opt = (t1, g)"
  shows "nxt t1 = (if fin_again t v then nxt t - 1 else nxt t)" "nxt t1 \<le> mx t"
    "fin_again t v \<Longrightarrow> ov_len v = 0 \<and> mx t = cc s + 1 \<and> nxt t = mx t"
    "hasf TH_FIN (ov_flags v) \<Longrightarrow> fin_state t \<and> nxt t1 + nat (ov_len v) = cc s"
    "0 < ov_len v \<Longrightarrow> ov_off v = int (nxt t1) \<and> nxt t1 + nat (ov_len v) \<le> min (cc s) (max 1 (unat (snd_wnd t)))"
proof -
  note H = out_header_sel[OF assms(4)] and D = conn_okD[OF assms(1)]
  have o: "outv_ok s t v" using assms(2) by (simp add: send_ok_def)
  have l: "0 < ov_len v \<Longrightarrow> ov_off v = int (nxt t) \<and> ov_off v + ov_len v \<le> int (min (cc s) (max 1 (unat (snd_wnd t))))"
    "0 \<le> ov_len v"
    using o assms(3) by (auto simp: outv_ok_def)
  have f: "hasf TH_FIN (ov_flags v) \<Longrightarrow> fin_state t \<and> int (cc s) \<le> int (nxt t) + ov_len v"
    using assms(2,3) by (simp add: send_ok_def)
  have un: "snd_una t1 = snd_una t" using H(2) by (simp add: same_conn_def)
  have sq: "fin_state t \<Longrightarrow> mx t \<le> cc s + 1 \<and> (tf TF_SENTFIN t \<longleftrightarrow> mx t = cc s + 1)" "nxt t \<le> mx t"
    using D(7,9) by (auto simp: seq_ok_def)
  show k: "ov_len v = 0 \<and> mx t = cc s + 1 \<and> nxt t = mx t" if "fin_again t v"
  proof -
    have a: "hasf TH_FIN (ov_flags v)" "tf TF_SENTFIN t" "snd_nxt t = snd_max t"
      using that by (auto simp: fin_again_def)
    then have "mx t = cc s + 1" "nxt t = mx t" using f sq(1) by (auto simp: nxt_def mx_def)
    moreover have "\<not> 0 < ov_len v" using l(1) \<open>mx t = cc s + 1\<close> \<open>nxt t = mx t\<close> by auto
    ultimately show ?thesis using l(2) by simp
  qed
  show n: "nxt t1 = (if fin_again t v then nxt t - 1 else nxt t)"
  proof (cases "fin_again t v")
    case True
    then have "nxt t = cc s + 1" using k by simp
    then have "snd_nxt t1 = snd_una t1 + of_nat (cc s)" using H(1) True snd_nxt_of(1)[of t] un by simp
    then show ?thesis using nxt_of_nat[OF D(15)] k True by simp
  next
    case False
    then show ?thesis using H(1) un by (simp add: nxt_def)
  qed
  show "nxt t1 \<le> mx t" using n sq(2) by (auto split: if_splits)
  show "fin_state t \<and> nxt t1 + nat (ov_len v) = cc s" if h: "hasf TH_FIN (ov_flags v)"
  proof (cases "fin_again t v")
    case True
    then show ?thesis using n k f[OF h] by simp
  next
    case False
    have "nxt t + nat (ov_len v) = cc s"
    proof (cases "0 < ov_len v")
      case True
      then show ?thesis using l(1) f[OF h] by linarith
    next
      case no: False
      have "nxt t \<noteq> cc s + 1"
      proof
        assume e: "nxt t = cc s + 1"
        then have "mx t = cc s + 1" using sq f[OF h] by simp
        then have "tf TF_SENTFIN t" "snd_nxt t = snd_max t"
          using sq(1) f[OF h] e snd_nxt_of[of t] by simp_all
        then show False using False h assms(3) by (simp add: fin_again_def)
      qed
      then show ?thesis using f[OF h] no l(2) sq f[OF h] by simp
    qed
    then show ?thesis using n False f[OF h] by simp
  qed
  show "ov_off v = int (nxt t1) \<and> nxt t1 + nat (ov_len v) \<le> min (cc s) (max 1 (unat (snd_wnd t)))" if "0 < ov_len v"
    using l(1)[OF that] n k that by auto
qed

definition hr :: "tcpcb \<Rightarrow> nat" where "hr t = seq_off (snd_una t) (snd_highrxt t)"

text \<open>What is left to send, as the loop sees it: beyond \<open>snd_nxt\<close>, and beyond HighRxt.\<close>

definition unsent :: "tcpsock \<Rightarrow> tcpcb \<Rightarrow> nat" where
  "unsent s t = (cc s + 2 - nxt t) + (cc s + 2 - hr t)"

lemma w32_add: "w32 (a + b) = w32 a + w32 b"
  by (simp add: w32_def)

lemma same_conn_off:
  assumes "same_conn t t'"
  shows "snd_nxt t' = snd_nxt t \<Longrightarrow> nxt t' = nxt t" "snd_max t' = snd_max t \<Longrightarrow> mx t' = mx t"
    "snd_highrxt t' = snd_highrxt t \<Longrightarrow> hr t' = hr t"
  using assms by (simp_all add: same_conn_def nxt_def mx_def hr_def)

lemma hole_wire:
  assumes "conn_ok s t" "send_ok s t v" "ov_rxmit v" "out_header s t v opt = (t1, g)"
    and "min (cc s) (mx t) \<le> w"
  shows "\<exists>t2. out_account t1 v = Inr t2 \<and> conn_ok s t2 \<and> same_conn t t2 \<and> seg_ok s t w g \<and>
    snd_max t2 = snd_max t \<and> snd_cwnd t2 = snd_cwnd t \<and> (ov_sendalot v \<longrightarrow> unsent s t2 < unsent s t)"
proof -
  note H = out_header_sel[OF assms(4)] and D = conn_okD[OF assms(1)]
  have rec: "tf TF_SACK_RECOVER t" using assms(2,3) by (simp add: send_ok_def)
  note R = recover_okD[OF assms(1) rec]
  have o: "0 < ov_len v" "0 \<le> ov_off v" "ov_off v + ov_len v \<le> int (min (cc s) (mx t))"
    "ov_rseq v = snd_una t + w32 (ov_off v)" "ov_len v \<le> int (unat (t_maxseg t))"
    "ov_sendalot v \<Longrightarrow> int (hr t) \<le> ov_off v"
    using assms(2,3) by (auto simp: send_ok_def outv_ok_def hr_def)
  define h where "h = nat (ov_off v + ov_len v)"
  have h: "int h = ov_off v + ov_len v" "h \<le> mx t" "h \<le> cc s" "h < 2 ^ 31" using o D(13) by (auto simp: h_def)
  have fin: "ov_rseq v + w32 (ov_len v) = snd_una t + of_nat h"
    using o(4) w32_add[of "ov_off v" "ov_len v"] w32_of_nat[of h] h(1) by simp
  have gt: "SEQ_GT (ov_rseq v + w32 (ov_len v)) (snd_highrxt t1) \<longleftrightarrow> hr t < h"
  proof -
    have "snd_highrxt t = snd_una t + of_nat (hr t)" by (simp add: hr_def seq_of_off)
    moreover have "hr t < 2 ^ 31" using R(5) D(13) by (simp add: hr_def)
    ultimately show ?thesis using SEQ_GT_of_off[OF h(4)] unfolding fin H(6) by simp
  qed
  define t0 where "t0 = (if hr t < h then t1\<lparr>snd_highrxt := ov_rseq v + w32 (ov_len v)\<rparr> else t1)"
  have f0: "snd_nxt t0 = snd_nxt t" "snd_max t0 = snd_max t" "t_flags t0 = t_flags t" "snd_cwnd t0 = snd_cwnd t"
    "t_timer t0 = t_timer t" "t_rxtshift t0 = t_rxtshift t"
    using H assms(3) by (simp_all add: t0_def fin_again_def)
  have s1: "same_conn t (t1\<lparr>snd_highrxt := x\<rparr>)" for x using H(2) by (simp add: same_conn_def)
  have s0: "same_conn t t0" using H(2) s1 by (simp add: t0_def)
  note un = s0[unfolded same_conn_def, THEN conjunct2, THEN conjunct2, THEN conjunct1]
  have h0: "hr t0 = max (hr t) h"
  proof (cases "hr t < h")
    case True
    have "h < 2 ^ 32" using h(4) by simp
    then have "seq_off (snd_una t) (snd_una t + of_nat h) = h" by (rule seq_off_add)
    then show ?thesis using True fin un by (simp add: hr_def t0_def)
  next
    case False
    then show ?thesis using H(2,6) by (simp add: t0_def hr_def same_conn_def)
  qed
  have m0: "mx t0 = mx t" "nxt t0 = nxt t" using same_conn_off[OF s0] f0 by simp_all
  have tm: "timers_ok t0" using D(10) f0 by (simp add: timers_ok_def)
  have q0: "seq_ok (cc s) t0"
    using D(9) seq_ok_cong[of t0 t "cc s"] f0 s0 by (simp add: same_conn_def tf_def)
  have c0: "conn_ok s t0"
  proof (rule conn_okI[OF assms(1) s0 q0 tm f0(4)])
    have "hr t0 \<le> mx t0" using h0 m0 h(2) R(5) by (simp add: hr_def)
    then have "seq_off (snd_una t) (snd_highrxt t0) \<le> mx t0" using un by (simp add: hr_def)
    then show "recover_ok t0"
      using recover_okI[OF assms(1) rec s0 f0(4)] f0 R(1) m0 D(13) by simp
  qed
  define t2 where "t2 = (if t_timer t0 TCPT_REXMT = 0 \<and> snd_nxt t0 \<noteq> snd_una t0 \<and> t_timer t0 TCPT_PERSIST = 0
                         then set_timer TCPT_REXMT (t_rxtcur t0) t0 else t0)"
  have wnd: "snd_wnd t0 \<noteq> 0" using R(2) s0 by (simp add: same_conn_def)
  have "out_account t1 v = acct_hole t1 v" using assms(3) by (simp add: out_account_def)
  also have "\<dots> = Inr t2"
    using o(1) gt wnd by (simp add: acct_hole_def Let_def t2_def t0_def[symmetric])
  finally have run: "out_account t1 v = Inr t2" .
  have s2: "same_conn t t2" using s0 by (simp add: t2_def same_conn_def tf_def)
  have f2: "snd_nxt t2 = snd_nxt t0" "snd_max t2 = snd_max t0" "snd_cwnd t2 = snd_cwnd t0"
    "snd_highrxt t2 = snd_highrxt t0" "t_flags t2 = t_flags t0"
    by (simp_all add: t2_def)
  have tm2: "timers_ok t2" using tm by (auto simp: t2_def timers_ok_def)
  have s02: "same_conn t0 t2" by (simp add: t2_def same_conn_def tf_def)
  have c2: "conn_ok s t2"
    by (rule conn_ok_timers[OF c0 tm2 s02]) (simp_all add: f2 tf_def)
  have u: "unsent s t2 < unsent s t" if "ov_sendalot v"
  proof -
    have "hr t < h" "h < cc s + 2" using o(1) o(6)[OF that] h(1,3) by linarith+
    moreover have "hr t2 = max (hr t) h" "nxt t2 = nxt t"
      using same_conn_off(1,3)[OF s02] f2 h0 m0 by simp_all
    ultimately show ?thesis by (simp add: unsent_def)
  qed
  have "seg_ok s t w g"
  proof -
    have "sg_seq g + w32 (sg_len g) = snd_una t + sb_cc (so_snd s)" if "hasf TH_FIN (sg_flags g)"
    proof -
      have "int (cc s) \<le> int h" using that assms(2,3) H(12) h(1) by (simp add: send_ok_def)
      then have "h = cc s" using h(3) by simp
      then show ?thesis using fin H(9,11) assms(3) by (simp add: sb_cc_of)
    qed
    then show ?thesis
      unfolding seg_ok_def using o H(9-11) assms(3,5) by auto
  qed
  then show ?thesis using run c2 s2 u f0 f2 by (intro exI[of _ t2]) simp
qed

lemma acct_probe_off:
  assumes "0 \<le> ov_len v" "nxt t + nat (ov_len v) < 2 ^ 31" "mx t < 2 ^ 31"
  shows "mx (acct_probe t v) = max (mx t) (nxt t + nat (ov_len v))" "snd_nxt (acct_probe t v) = snd_nxt t"
    "same_conn t (acct_probe t v)" "t_flags (acct_probe t v) = t_flags t" "snd_cwnd (acct_probe t v) = snd_cwnd t"
    "snd_highrxt (acct_probe t v) = snd_highrxt t" "t_timer (acct_probe t v) = t_timer t"
    "t_rxtshift (acct_probe t v) = t_rxtshift t"
proof -
  have x: "snd_nxt t + w32 (ov_len v) = snd_una t + of_nat (nxt t + nat (ov_len v))"
    using snd_nxt_of(1)[of t] w32_of_nat[of "nat (ov_len v)"] assms(1) by simp
  have g: "SEQ_GT (snd_nxt t + w32 (ov_len v)) (snd_max t) \<longleftrightarrow> mx t < nxt t + nat (ov_len v)"
    unfolding x snd_nxt_of(2)[of t] by (rule SEQ_GT_of_off[OF assms(2,3)])
  have "nxt t + nat (ov_len v) < 2 ^ 32" using assms(2) by simp
  then have "seq_off (snd_una t) (snd_una t + of_nat (nxt t + nat (ov_len v))) = nxt t + nat (ov_len v)"
    by (rule seq_off_add)
  then show "mx (acct_probe t v) = max (mx t) (nxt t + nat (ov_len v))"
    using g x by (simp add: acct_probe_def Let_def mx_def)
  show "snd_nxt (acct_probe t v) = snd_nxt t" "same_conn t (acct_probe t v)"
    "t_flags (acct_probe t v) = t_flags t" "snd_cwnd (acct_probe t v) = snd_cwnd t"
    "snd_highrxt (acct_probe t v) = snd_highrxt t" "t_timer (acct_probe t v) = t_timer t"
    "t_rxtshift (acct_probe t v) = t_rxtshift t"
    by (simp_all add: acct_probe_def Let_def same_conn_def)
qed

lemma plain_wire:
  assumes "conn_ok s t" "send_ok s t v" "\<not> ov_rxmit v" "out_header s t v opt = (t1, g)"
    and w: "max 1 (unat (snd_wnd t)) \<le> w" "min (cc s) (mx t) \<le> w"
  shows "\<exists>t2. out_account t1 v = Inr t2 \<and> conn_ok s t2 \<and> same_conn t t2 \<and> seg_ok s t w g \<and>
    min (cc s) (mx t2) \<le> w \<and> snd_cwnd t2 = snd_cwnd t \<and> (ov_sendalot v \<longrightarrow> unsent s t2 < unsent s t)"
proof -
  note H = out_header_sel[OF assms(4)] and D = conn_okD[OF assms(1)] and F = fin_offsets[OF assms(1-4)]
  have o: "outv_ok s t v" and ns: "\<not> hasf TH_SYN (ov_flags v)" using assms(2) by (simp_all add: send_ok_def)
  have pos: "1 \<le> int (unat (t_maxseg t))" using D(12) by linarith
  have l: "0 \<le> ov_len v" "ov_len v \<le> int (unat (t_maxseg t))" "ov_sendalot v \<Longrightarrow> 0 < ov_len v"
    using o pos by (auto simp: outv_ok_def)
  have sq: "fin_state t \<Longrightarrow> mx t \<le> cc s + 1 \<and> (tf TF_SENTFIN t \<longleftrightarrow> mx t = cc s + 1)"
    "\<not> fin_state t \<Longrightarrow> mx t \<le> (if t_state t = 0 then cc s + 1 else cc s)" "nxt t \<le> mx t"
    using D(7,9) by (auto simp: seq_ok_def)
  have un: "snd_una t1 = snd_una t" "t_state t1 = t_state t" using H(2) by (simp_all add: same_conn_def)
  have m1: "mx t1 = mx t" using H(3) un by (simp add: mx_def)
  have h1: "hr t1 = hr t" using H(6) un by (simp add: hr_def)
  define n where "n = nxt t1 + nat (ov_len v)"
  have n: "n \<le> cc s + 1" "0 < ov_len v \<Longrightarrow> n \<le> cc s \<and> n \<le> max 1 (unat (snd_wnd t))" "n + 1 < 2 ^ 31"
    "ov_len v = 0 \<Longrightarrow> n \<le> mx t"
  proof -
    show pos: "0 < ov_len v \<Longrightarrow> n \<le> cc s \<and> n \<le> max 1 (unat (snd_wnd t))" using F(5) by (simp add: n_def)
    show zero: "ov_len v = 0 \<Longrightarrow> n \<le> mx t" using F(2) by (simp add: n_def)
    show "n \<le> cc s + 1" using pos zero D(8) l(1) by (cases "0 < ov_len v") auto
    then have "n + 1 \<le> 2 ^ 30 + 2" using D(4) by linarith
    also have "(2::nat) ^ 30 + 2 < 2 ^ 31" by simp
    finally show "n + 1 < 2 ^ 31" .
  qed
  have tm1: "timers_ok t1" using D(10) H(7,8) by (simp add: timers_ok_def)
  have seg: "seg_ok s t w g"
  proof -
    have a: "sg_seq g = snd_una t + of_nat (nxt t1)" using H(9) assms(3) snd_nxt_of(1)[of t1] un by simp
    have len: "w32 (ov_len v) = of_nat (nat (ov_len v))" using w32_of_nat[of "nat (ov_len v)"] l(1) by simp
    have "sg_seq g + w32 (sg_len g) = snd_una t + sb_cc (so_snd s)" if "hasf TH_FIN (sg_flags g)"
    proof -
      have "nxt t1 + nat (ov_len v) = cc s" using F(4) H(12) that by simp
      then have "of_nat (nxt t1) + of_nat (nat (ov_len v)) = (of_nat (cc s) :: u32)" by (metis of_nat_add)
      then show ?thesis unfolding a H(11) len sb_cc_of by (simp add: add.assoc)
    qed
    moreover have "0 \<le> sg_off g \<and> sg_off g + sg_len g \<le> int (min (cc s) w) \<and> sg_seq g = snd_una t + w32 (sg_off g)"
      if "0 < sg_len g"
    proof -
      have "0 < ov_len v" using that H(11) by simp
      from F(5)[OF this] show ?thesis using w(1) l(1) a w32_of_nat[of "nxt t1"] unfolding H(10,11) by auto
    qed
    ultimately show ?thesis using l H(11) by (simp add: seg_ok_def)
  qed
  show ?thesis
  proof (cases "t_force t1 = 0 \<or> t_timer t1 TCPT_PERSIST = 0")
    case True
    let ?t2 = "acct_send t1 v"
    have run: "out_account t1 v = Inr ?t2" using True assms(3) by (simp add: out_account_def)
    have nl: "nxt t1 + nat (ov_len v) + 1 < 2 ^ 31" using n(3) by (simp add: n_def)
    have ml: "mx t1 < 2 ^ 31" using D(13) m1 by simp
    note O = acct_send_off[OF ns l(1) nl ml, folded n_def, unfolded m1] and S = acct_send_same[OF ns, of t1]
    have s2: "same_conn t ?t2" using same_conn_trans[OF H(2) S(1)] .
    have fs: "fin_state ?t2 = fin_state t" "t_state ?t2 = t_state t" using s2 by (simp_all add: fin_state_def same_conn_def)
    have sf: "tf TF_SENTFIN ?t2 \<longleftrightarrow> tf TF_SENTFIN t \<or> hasf TH_FIN (ov_flags v)"
      using S(2) tf_flags[OF H(4)] by simp
    have fin: "hasf TH_FIN (ov_flags v) \<Longrightarrow> fin_state t \<and> n = cc s" using F(4) by (simp add: n_def)
    have nn: "nxt ?t2 = (if hasf TH_FIN (ov_flags v) then cc s + 1 else n)" using O(1) fin by simp
    have ncc: "\<not> hasf TH_FIN (ov_flags v) \<Longrightarrow> n \<le> max (cc s) (mx t) \<and> (n \<le> cc s \<or> n \<le> mx t)"
      using n(2,4) l(1) by (cases "0 < ov_len v") auto
    have q2: "seq_ok (cc s) ?t2"
      unfolding seq_ok_def O(2) nn fs sf using fin sq ncc by (auto split: if_splits)
    have cw: "snd_cwnd ?t2 = snd_cwnd t" using H(5) acct_send_sel(8)[OF ns] by simp
    have h2: "hr ?t2 = hr t" using acct_send_sel(4,10)[OF ns, of t1] h1 by (simp add: hr_def)
    have c2: "conn_ok s ?t2"
    proof (rule conn_okI[OF assms(1) s2 q2 acct_send_timers[OF tm1] cw])
      assume rec: "tf TF_SACK_RECOVER t"
      note R = recover_okD[OF assms(1) rec]
      have le: "mx t \<le> nxt ?t2"
      proof (cases "fin_again t v")
        case True
        then have "hasf TH_FIN (ov_flags v)" "mx t = cc s + 1" using F(3) by (auto simp: fin_again_def)
        then show ?thesis using nn by simp
      next
        case False
        then have "nxt t1 = mx t" using F(1) R(7) by simp
        then show ?thesis using O(1) by (simp add: n_def)
      qed
      have "mx ?t2 < 2 ^ 31" using O(2) nn n D(13,8) D(4) by (auto simp: max_def split: if_splits)
      moreover have "seq_off (snd_una t) (snd_highrxt ?t2) \<le> mx ?t2"
        using h2 R(5) O(2) s2 by (simp add: hr_def same_conn_def)
      ultimately show "recover_ok ?t2"
        using recover_okI[OF assms(1) rec s2 cw] O(2,3) le by simp
    qed
    have w2: "min (cc s) (mx ?t2) \<le> w"
    proof (cases "hasf TH_FIN (ov_flags v)")
      case True
      have "cc s \<le> w"
      proof (cases "0 < ov_len v")
        case True
        then show ?thesis using n(2) fin[OF \<open>hasf TH_FIN (ov_flags v)\<close>] w(1) by linarith
      next
        case False
        then show ?thesis using n(4) l(1) fin[OF \<open>hasf TH_FIN (ov_flags v)\<close>] w(2) by simp
      qed
      then show ?thesis by simp
    next
      case False
      then show ?thesis using O(2) nn n(2,4) w l(1) by (cases "0 < ov_len v") auto
    qed
    have "unsent s ?t2 < unsent s t" if "ov_sendalot v"
    proof -
      have p: "0 < ov_len v" using l(3)[OF that] .
      have "\<not> fin_again t v" using F(3) p by auto
      then have "nxt t1 = nxt t" using F(1) by simp
      then have "nxt t < nxt ?t2" using p O(1) by (simp add: n_def)
      moreover have "nxt t < cc s + 2" using sq(3) D(8) by linarith
      ultimately show ?thesis using h2 by (simp add: unsent_def)
    qed
    then show ?thesis using run c2 s2 seg w2 cw by blast
  next
    case False
    let ?t2 = "acct_probe t1 v"
    have run: "out_account t1 v = Inr ?t2" using False assms(3) by (simp add: out_account_def)
    have ft: "t_force t1 = t_force t" using H(2) by (simp add: same_conn_def)
    have nf: "\<not> ov_sendalot v" "\<not> tf TF_SACK_RECOVER t"
      using False assms(2) ft H(7) by (auto simp: send_ok_def)
    have nl: "nxt t1 + nat (ov_len v) < 2 ^ 31" using n(3) by (simp add: n_def)
    have ml: "mx t1 < 2 ^ 31" using D(13) m1 by simp
    note P = acct_probe_off[OF l(1) nl ml, folded n_def, unfolded m1]
    have s2: "same_conn t ?t2" using same_conn_trans[OF H(2) P(3)] .
    have un2: "snd_una ?t2 = snd_una t1" using P(3) by (simp add: same_conn_def)
    have nx: "nxt ?t2 = nxt t1" using P(2) un2 by (simp add: nxt_def)
    have fs: "fin_state ?t2 = fin_state t" "t_state ?t2 = t_state t" using s2 by (simp_all add: fin_state_def same_conn_def)
    have sf: "tf TF_SENTFIN ?t2 = tf TF_SENTFIN t" using P(4) H(4) by (simp add: tf_def)
    have nm: "n \<le> cc s \<or> n \<le> mx t" using n(2,4) l(1) by (cases "0 < ov_len v") auto
    have q2: "seq_ok (cc s) ?t2"
      unfolding seq_ok_def P(1) nx fs sf using sq F(2) nm by (auto split: if_splits)
    have tm2: "timers_ok ?t2" using tm1 P(7,8) by (simp add: timers_ok_def)
    have c2: "conn_ok s ?t2"
      by (rule conn_okI[OF assms(1) s2 q2 tm2]) (simp_all add: P(5) H(5) nf(2))
    have "min (cc s) (mx ?t2) \<le> w"
      unfolding P(1) using n(2,4) w l(1) by (cases "0 < ov_len v") auto
    then show ?thesis using run c2 s2 seg nf(1) P(5) H(5) by (intro exI[of _ ?t2]) simp
  qed
qed

text \<open>A change of the congestion window, the flags or the timers keeps the invariant.\<close>

lemma conn_ok_other:
  assumes "conn_ok s t" "same_conn t t'" "timers_ok t'" "snd_nxt t' = snd_nxt t" "snd_max t' = snd_max t"
    and "snd_highrxt t' = snd_highrxt t" "tf TF_SENTFIN t' = tf TF_SENTFIN t"
    and "unat (snd_cwnd t') < 2 ^ 31" "(snd_cwnd t' = 0) = (snd_cwnd t = 0) \<or> snd_cwnd t' \<noteq> 0"
  shows "conn_ok s t'"
proof -
  have "recover_ok t'" if "tf TF_SACK_RECOVER t"
    using conn_okD(11)[OF assms(1) that] assms(2,4-6,9) snd_sack_inv_cong[of t' t]
    by (auto simp: recover_ok_def same_conn_def mx_def)
  moreover have "seq_ok (cc s) t'"
    using conn_okD(9)[OF assms(1)] seq_ok_cong[of t' t "cc s"] assms(2,4,5,7) by (simp add: same_conn_def)
  ultimately show ?thesis using assms unfolding conn_ok_def same_conn_def by simp
qed

lemma maxseg_u32:
  assumes "conn_ok s t"
  shows "(ucast (t_maxseg t) :: u32) \<noteq> 0" "unat (ucast (t_maxseg t) :: u32) < 2 ^ 31"
proof -
  have "unat (ucast (t_maxseg t) :: u32) = unat (t_maxseg t)" by simp
  then show "(ucast (t_maxseg t) :: u32) \<noteq> 0" using conn_okD(12)[OF assms] by (metis less_numeral_extra(3) unat_0)
  show "unat (ucast (t_maxseg t) :: u32) < 2 ^ 31" using unat_u16_bound[of "t_maxseg t"] by simp
qed

lemma out_error_ok:
  assumes "conn_ok s t" "out_error e s t = (t', r)"
  shows "conn_ok s t' \<and> same_conn t t' \<and> snd_nxt t' = snd_nxt t \<and> snd_max t' = snd_max t \<and>
    snd_highrxt t' = snd_highrxt t"
proof -
  let ?c = "sb_cc (so_snd s) \<noteq> 0 \<and> t_timer t TCPT_REXMT = 0 \<and> t_timer t TCPT_PERSIST = 0 \<and> SEQ_LT (snd_una t) (snd_max t)"
  define t1 where "t1 = (if ?c then set_timer TCPT_REXMT (t_rxtcur t) t else t)"
  have f1: "same_conn t t1" "snd_nxt t1 = snd_nxt t" "snd_max t1 = snd_max t" "snd_highrxt t1 = snd_highrxt t"
    "snd_cwnd t1 = snd_cwnd t" "t_flags t1 = t_flags t"
    by (simp_all add: t1_def same_conn_def tf_def)
  have tm: "timers_ok t1" using conn_okD(10)[OF assms(1)] by (auto simp: t1_def timers_ok_def)
  have "t_maxseg t1 = t_maxseg t" using f1(1) by (simp add: same_conn_def)
  then have mz: "(ucast (t_maxseg t1) :: u32) \<noteq> 0" "unat (ucast (t_maxseg t1) :: u32) < 2 ^ 31"
    using maxseg_u32[OF assms(1)] by simp_all
  have r: "(t', r) = (if e = ENOBUFS then (tcp_quench t1, 0)
       else if (e = EHOSTUNREACH \<or> e = ENETDOWN \<or> e = EHOSTDOWN) \<and> t_state t1 \<ge> TCPS_SYN_RECEIVED
       then (t1\<lparr>t_softerror := word_of_int e\<rparr>, 0) else (t1, e))"
    using assms(2) unfolding out_error_def Let_def t1_def[symmetric] by simp
  then have "t' = tcp_quench t1 \<or> t' = t1\<lparr>t_softerror := word_of_int e\<rparr> \<or> t' = t1"
    by (auto split: if_splits)
  moreover have "conn_ok s (tcp_quench t1)" "same_conn t (tcp_quench t1)"
  proof -
    show q: "same_conn t (tcp_quench t1)" using f1(1) by (simp add: same_conn_def tcp_quench_def tf_def)
    show "conn_ok s (tcp_quench t1)"
      by (rule conn_ok_other[OF assms(1) q]) (use tm f1 mz in \<open>simp_all add: tcp_quench_def timers_ok_def tf_def\<close>)
  qed
  moreover have "conn_ok s t1"
    by (rule conn_ok_timers[OF assms(1) tm f1(1)]) (simp_all add: f1 tf_def)
  moreover have "conn_ok s (t1\<lparr>t_softerror := word_of_int e\<rparr>)" "same_conn t (t1\<lparr>t_softerror := word_of_int e\<rparr>)"
  proof -
    show q: "same_conn t (t1\<lparr>t_softerror := word_of_int e\<rparr>)" using f1(1) by (simp add: same_conn_def)
    show "conn_ok s (t1\<lparr>t_softerror := word_of_int e\<rparr>)"
      by (rule conn_ok_timers[OF assms(1) _ q]) (use tm in \<open>simp_all add: f1 timers_ok_def tf_def\<close>)
  qed
  ultimately show ?thesis using f1 by (elim disjE) (simp_all add: tcp_quench_def)
qed

lemma out_sent_sel:
  "snd_nxt (out_sent v t) = snd_nxt t" "snd_max (out_sent v t) = snd_max t"
  "snd_highrxt (out_sent v t) = snd_highrxt t" "snd_cwnd (out_sent v t) = snd_cwnd t"
  "t_timer (out_sent v t) = t_timer t" "t_rxtshift (out_sent v t) = t_rxtshift t"
  "tf TF_SENTFIN (out_sent v t) = tf TF_SENTFIN t" "tf TF_SACK_RECOVER (out_sent v t) = tf TF_SACK_RECOVER t"
proof -
  have fl: "t_flags (out_sent v t) = t_flags t AND NOT (TF_ACKNOW OR TF_DELACK)"
    by (simp add: out_sent_def Let_def)
  show "tf TF_SENTFIN (out_sent v t) = tf TF_SENTFIN t" "tf TF_SACK_RECOVER (out_sent v t) = tf TF_SACK_RECOVER t"
    unfolding tf_def fl
    by (subst word_andnot_disj; simp add: TF_ACKNOW_def TF_DELACK_def TF_SENTFIN_def TF_SACK_RECOVER_def)+
qed (simp_all add: out_sent_def Let_def)

lemma out_sent_same: "same_conn t (out_sent v t)"
  using out_sent_sel(8)[of v t] by (simp add: same_conn_def) (simp add: out_sent_def Let_def)

lemma out_sent_ok:
  assumes "conn_ok s t"
  shows "conn_ok s (out_sent v t) \<and> same_conn t (out_sent v t) \<and> snd_nxt (out_sent v t) = snd_nxt t \<and>
    snd_max (out_sent v t) = snd_max t \<and> snd_highrxt (out_sent v t) = snd_highrxt t"
proof -
  have "timers_ok (out_sent v t)" using conn_okD(10)[OF assms] by (simp add: out_sent_sel timers_ok_def)
  then have "conn_ok s (out_sent v t)"
    by (rule conn_ok_timers[OF assms _ out_sent_same]) (simp_all add: out_sent_sel)
  then show ?thesis by (simp add: out_sent_same out_sent_sel)
qed

lemma send_ok_cong:
  assumes "send_ok s t v" "ov_len v' = ov_len v" "ov_rxmit v' = ov_rxmit v" "ov_rseq v' = ov_rseq v"
    and "ov_sendalot v' = ov_sendalot v" "ov_off v' = ov_off v \<or> ov_off v < 0"
    and "hasf TH_FIN (ov_flags v') = hasf TH_FIN (ov_flags v)"
    and "hasf TH_SYN (ov_flags v') = hasf TH_SYN (ov_flags v)" "t_maxseg t \<noteq> 0"
  shows "send_ok s t v'"
proof (cases "ov_off v' = ov_off v")
  case True
  show ?thesis
    unfolding send_ok_def outv_ok_def assms(2-5,7,8) True using assms(1)[unfolded send_ok_def outv_ok_def] .
next
  case False
  then have n: "ov_off v < 0" using assms(6) by simp
  have o: "outv_ok s t v" using assms(1) by (simp add: send_ok_def)
  have "\<not> ov_rxmit v" "\<not> 0 < ov_len v" using o n by (auto simp: outv_ok_def split: if_splits)
  moreover have "\<not> ov_sendalot v"
  proof
    assume "ov_sendalot v"
    then have "ov_len v = int (unat (t_maxseg t))" using o by (simp add: outv_ok_def)
    moreover have "0 < unat (t_maxseg t)" using assms(9) by (simp add: unat_gt_0)
    ultimately show False using \<open>\<not> 0 < ov_len v\<close> by linarith
  qed
  moreover have "0 \<le> ov_len v" using o by (simp add: outv_ok_def)
  ultimately have z: "\<not> ov_rxmit v" "ov_len v = 0" "\<not> ov_sendalot v" by simp_all
  have z': "\<not> ov_rxmit v'" "ov_len v' = 0" "\<not> ov_sendalot v'" using z assms by simp_all
  have "outv_ok s t v'" using z' by (simp add: outv_ok_def)
  then show ?thesis
    unfolding send_ok_def assms(7,8) using z z' assms(1)[unfolded send_ok_def] by auto
qed

lemma out_options_ok:
  assumes "\<not> hasf TH_SYN (ov_flags v)" "conn_ok (sk st) (tp st)" "send_ok (sk st) (tp st) v"
  shows "\<exists>t2 opt. out_options v st = (st\<lparr>tp := t2\<rparr>, opt) \<and> conn_ok (sk st) t2 \<and> same_conn (tp st) t2 \<and>
    snd_nxt t2 = snd_nxt (tp st) \<and> snd_max t2 = snd_max (tp st) \<and> snd_highrxt t2 = snd_highrxt (tp st) \<and>
    send_ok (sk st) t2 v"
proof -
  note ns = assms(1)
  define o2 where "o2 = ts_options (tcp_now (glob st)) (ov_flags v) (tp st)"
  obtain t2 o3 where so: "sack_options (length o2) (ov_flags v) (ov_len v) (tp st) = (t2, o3)" by fastforce
  have run: "out_options v st = (st\<lparr>tp := t2\<rparr>, o2 @ o3)"
    using ns so by (simp add: out_options_def o2_def Let_def)
  have "t2 = tp st \<or> t2 = (tp st)\<lparr>t_flags := t_flags (tp st) AND NOT TF_DSACK\<rparr>"
    using so by (auto simp: sack_options_def Let_def split: if_splits)
  then show ?thesis
  proof
    assume e: "t2 = tp st"
    have "st\<lparr>tp := tp st\<rparr> = st" by simp
    then show ?thesis using run assms e by (intro exI[of _ t2] exI[of _ "o2 @ o3"]) simp
  next
    assume e: "t2 = (tp st)\<lparr>t_flags := t_flags (tp st) AND NOT TF_DSACK\<rparr>"
    have f: "tf TF_SENTFIN t2 = tf TF_SENTFIN (tp st)" "tf TF_SACK_RECOVER t2 = tf TF_SACK_RECOVER (tp st)"
      unfolding e by (rule tf_andnot; simp add: TF_DSACK_def TF_SENTFIN_def TF_SACK_RECOVER_def)+
    note c = conn_ok_flags[OF assms(2) f[unfolded e]]
    have g: "nxt t2 = nxt (tp st)" "fin_state t2 = fin_state (tp st)" "t_force t2 = t_force (tp st)"
      "t_timer t2 = t_timer (tp st)" "outv_ok (sk st) t2 v = outv_ok (sk st) (tp st) v"
      by (simp_all add: e nxt_def fin_state_def)
    have "send_ok (sk st) t2 v" unfolding send_ok_def g f(2) using assms(3)[unfolded send_ok_def] .
    then show ?thesis using run c e by (intro exI[of _ t2] exI[of _ "o2 @ o3"]) simp
  qed
qed

section \<open>One turn, and the loop\<close>

text \<open>
  What \<open>tcp_output\<close> keeps from state to state: the connection stays well formed, the socket and
  the environment are untouched, and every new segment is right with respect to the limit \<open>w\<close>.
\<close>

definition sends_ok :: "nat \<Rightarrow> tcpst \<Rightarrow> tcpst \<Rightarrow> bool" where
  "sends_ok w st st' \<longleftrightarrow> conn_ok (sk st') (tp st') \<and> same_conn (tp st) (tp st') \<and> sk st' = sk st \<and>
     glob st' = glob st \<and> net st' = net st \<and> alive st' = alive st \<and>
     min (cc (sk st')) (mx (tp st')) \<le> w \<and>
     (\<exists>gs. segs st' = segs st @ gs \<and> (\<forall>g \<in> set gs. seg_ok (sk st) (tp st) w g))"

lemma seg_ok_same: "same_conn t t' \<Longrightarrow> seg_ok s t' w g = seg_ok s t w g"
  by (simp add: seg_ok_def same_conn_def)

lemma sends_ok_trans:
  assumes "sends_ok w st st1" "sends_ok w st1 st2"
  shows "sends_ok w st st2"
proof -
  obtain gs where g: "segs st1 = segs st @ gs" "\<forall>g \<in> set gs. seg_ok (sk st) (tp st) w g"
    using assms(1) by (auto simp: sends_ok_def)
  obtain hs where h: "segs st2 = segs st1 @ hs" "\<forall>g \<in> set hs. seg_ok (sk st1) (tp st1) w g"
    using assms(2) by (auto simp: sends_ok_def)
  have s: "same_conn (tp st) (tp st1)" "sk st1 = sk st" using assms(1) by (simp_all add: sends_ok_def)
  have "\<forall>g \<in> set (gs @ hs). seg_ok (sk st) (tp st) w g" using g(2) h(2) seg_ok_same[OF s(1)] s(2) by auto
  moreover have "segs st2 = segs st @ (gs @ hs)" using g(1) h(1) by simp
  moreover have "same_conn (tp st) (tp st2)"
    using same_conn_trans[OF s(1)] assms(2) by (simp add: sends_ok_def)
  ultimately show ?thesis using assms unfolding sends_ok_def by auto
qed

lemma hasf_or_push:
  "hasf TH_FIN (f OR TH_PUSH) = hasf TH_FIN f" "hasf TH_SYN (f OR TH_PUSH) = hasf TH_SYN f"
  by (simp_all add: hasf_def TH_FIN_def TH_SYN_def TH_RST_def TH_PUSH_def bit.conj_disj_distrib2 or_eq_0_iff)

lemma wire_ok:
  assumes "conn_ok s t" "send_ok s t v" "out_header s t v opt = (t1, g)"
    and "max 1 (unat (snd_wnd t)) \<le> w" "min (cc s) (mx t) \<le> w"
  shows "\<exists>t2. out_account t1 v = Inr t2 \<and> conn_ok s t2 \<and> same_conn t t2 \<and> seg_ok s t w g \<and>
    min (cc s) (mx t2) \<le> w \<and> (ov_sendalot v \<longrightarrow> unsent s t2 < unsent s t)"
proof (cases "ov_rxmit v")
  case True
  obtain t2 where "out_account t1 v = Inr t2 \<and> conn_ok s t2 \<and> same_conn t t2 \<and> seg_ok s t w g \<and>
    snd_max t2 = snd_max t \<and> snd_cwnd t2 = snd_cwnd t \<and> (ov_sendalot v \<longrightarrow> unsent s t2 < unsent s t)"
    using hole_wire[OF assms(1,2) True assms(3,5)] by blast
  then show ?thesis using same_conn_off(2)[of t t2] assms(5) by auto
next
  case False
  show ?thesis using plain_wire[OF assms(1,2) False assms(3-5)] by blast
qed

lemma unsent_same:
  "same_conn t t' \<Longrightarrow> snd_nxt t' = snd_nxt t \<Longrightarrow> snd_highrxt t' = snd_highrxt t \<Longrightarrow> unsent s t' = unsent s t"
  using same_conn_off[of t t'] by (simp add: unsent_def)

lemma out_send_Sent:
  assumes "net st (net_i st) = Sent err" "out_options v st = (st\<lparr>tp := t2\<rparr>, opt)"
  shows "out_send v st =
    (let v1 = (if ov_off v < 0 then v\<lparr>ov_off := 0\<rparr> else v);
         v3 = (if ov_len v1 \<noteq> 0 \<and> w32 (ov_off v1 + ov_len v1) = sb_cc (so_snd (sk st))
               then v1\<lparr>ov_flags := ov_flags v1 OR TH_PUSH\<rparr> else v1);
         v4 = v3\<lparr>ov_win := out_win (sk st) t2 (ov_win v3)\<rparr>
     in case out_header (sk st) t2 v4 opt of (t3, g) \<Rightarrow>
        (case out_account t3 v4 of
           Inl p \<Rightarrow> Inl p
         | Inr t4 \<Rightarrow>
             if err \<noteq> 0
             then (case out_error err (sk st) t4 of (t5, e) \<Rightarrow>
                     Inr (st\<lparr>tp := t5, net_i := net_i st + 1, segs := segs st @ [g]\<rparr>, Some e))
             else Inr (st\<lparr>tp := out_sent v4 t4, net_i := net_i st + 1, segs := segs st @ [g]\<rparr>, None)))"
proof -
  have n: "net (st\<lparr>tp := t2\<rparr>) (net_i st) = Sent err" using assms(1) by simp
  have u: "st\<lparr>tp := a, net_i := i, tp := b, segs := c\<rparr> = st\<lparr>tp := b, net_i := i, segs := c\<rparr>"
    "st\<lparr>tp := b, net_i := i, segs := c, tp := d\<rparr> = st\<lparr>tp := d, net_i := i, segs := c\<rparr>" for a b c d i
    by simp_all
  have k: "sk (st\<lparr>tp := t2, net_i := i\<rparr>) = sk st" "tp (st\<lparr>tp := t2, net_i := i\<rparr>) = t2"
    "segs (st\<lparr>tp := t2, net_i := i\<rparr>) = segs st" "net_i (st\<lparr>tp := t2\<rparr>) = net_i st"
    "sk (st\<lparr>tp := b, net_i := i, segs := c\<rparr>) = sk st" for i b c
    by simp_all
  show ?thesis
    unfolding out_send_def assms(2) Let_def prod.case n netres.case k u
    by (simp only: simp_thms if_False)
qed

lemma out_send_ok:
  assumes c: "conn_ok (sk st) (tp st)" and so: "send_ok (sk st) (tp st) v"
    and nc: "\<And>e. net st (net_i st) \<noteq> NoCopy e"
    and w: "max 1 (unat (snd_wnd (tp st))) \<le> w" "min (cc (sk st)) (mx (tp st)) \<le> w"
  shows "\<exists>st1 r. out_send v st = Inr (st1, r) \<and> sends_ok w st st1 \<and>
    (r = None \<and> ov_sendalot v \<longrightarrow> unsent (sk st) (tp st1) < unsent (sk st) (tp st))"
proof -
  have ns: "\<not> hasf TH_SYN (ov_flags v)" using so by (simp add: send_ok_def)
  obtain t2 opt where o: "out_options v st = (st\<lparr>tp := t2\<rparr>, opt)" "conn_ok (sk st) t2" "same_conn (tp st) t2"
    "snd_nxt t2 = snd_nxt (tp st)" "snd_max t2 = snd_max (tp st)" "snd_highrxt t2 = snd_highrxt (tp st)"
    "send_ok (sk st) t2 v"
    using out_options_ok[OF ns c so] by blast
  let ?st1 = "st\<lparr>tp := t2, net_i := net_i st + 1\<rparr>"
  have mx2: "mx t2 = mx (tp st)" using same_conn_off(2)[OF o(3)] o(5) by simp
  have wnd2: "snd_wnd t2 = snd_wnd (tp st)" using o(3) by (simp add: same_conn_def)
  show ?thesis
  proof (cases "net st (net_i st)")
    case NoHdr
    obtain t e where e: "out_error ENOBUFS (sk st) t2 = (t, e)" by fastforce
    note q = out_error_ok[OF o(2) e]
    have run: "out_send v st = Inr (?st1\<lparr>tp := t\<rparr>, Some e)"
      using NoHdr by (simp add: out_send_def o(1) e Let_def)
    have "mx t = mx (tp st)" using same_conn_off(2)[of t2 t] q mx2 by simp
    then have "sends_ok w st (?st1\<lparr>tp := t\<rparr>)"
      using q w(2) same_conn_trans[OF o(3)] by (simp add: sends_ok_def)
    then show ?thesis using run by blast
  next
    case (NoCopy e)
    then show ?thesis using nc by blast
  next
    case (Sent err)
    define v1 where "v1 = (if ov_off v < 0 then v\<lparr>ov_off := 0\<rparr> else v)"
    define v3 where "v3 = (if ov_len v1 \<noteq> 0 \<and> w32 (ov_off v1 + ov_len v1) = sb_cc (so_snd (sk st))
                           then v1\<lparr>ov_flags := ov_flags v1 OR TH_PUSH\<rparr> else v1)"
    define v4 where "v4 = v3\<lparr>ov_win := out_win (sk st) t2 (ov_win v3)\<rparr>"
    have f: "ov_len v4 = ov_len v" "ov_rxmit v4 = ov_rxmit v" "ov_rseq v4 = ov_rseq v" "ov_sendalot v4 = ov_sendalot v"
      "ov_off v4 = ov_off v \<or> ov_off v < 0" "hasf TH_FIN (ov_flags v4) = hasf TH_FIN (ov_flags v)"
      "hasf TH_SYN (ov_flags v4) = hasf TH_SYN (ov_flags v)"
      by (simp_all add: v4_def v3_def v1_def hasf_or_push)
    have so4: "send_ok (sk st) t2 v4" by (rule send_ok_cong[OF o(7) f conn_okD(3)[OF o(2)]])
    obtain t3 g where h: "out_header (sk st) t2 v4 opt = (t3, g)" by fastforce
    obtain t4 where a: "out_account t3 v4 = Inr t4" "conn_ok (sk st) t4" "same_conn t2 t4" "seg_ok (sk st) t2 w g"
      "min (cc (sk st)) (mx t4) \<le> w" "ov_sendalot v4 \<longrightarrow> unsent (sk st) t4 < unsent (sk st) t2"
      using wire_ok[OF o(2) so4 h] w mx2 wnd2 by auto
    let ?st2 = "\<lambda>t5. st\<lparr>tp := t5, net_i := net_i st + 1, segs := segs st @ [g]\<rparr>"
    have run: "out_send v st = (if err \<noteq> 0
        then (case out_error err (sk st) t4 of (t5, e) \<Rightarrow> Inr (?st2 t5, Some e))
        else Inr (?st2 (out_sent v4 t4), None))"
      unfolding out_send_Sent[OF Sent o(1)] Let_def v1_def[symmetric] v3_def[symmetric] v4_def[symmetric]
      unfolding h prod.case a(1) sum.case by (rule refl)
    have sg: "seg_ok (sk st) (tp st) w g" using a(4) seg_ok_same[OF o(3)] by simp
    have u2: "unsent (sk st) t2 = unsent (sk st) (tp st)" using unsent_same[OF o(3,4,6)] .
    have sends: "sends_ok w st (?st2 t5)" if "conn_ok (sk st) t5 \<and> same_conn t4 t5 \<and> snd_max t5 = snd_max t4" for t5
    proof -
      have "mx t5 = mx t4" using same_conn_off(2)[of t4 t5] that by simp
      moreover have "same_conn (tp st) t5" using same_conn_trans[OF same_conn_trans[OF o(3) a(3)]] that by blast
      ultimately show ?thesis using that a(5) sg by (simp add: sends_ok_def)
    qed
    show ?thesis
    proof (cases "err = 0")
      case True
      note q = out_sent_ok[OF a(2), of v4]
      have "unsent (sk st) (out_sent v4 t4) = unsent (sk st) t4" using unsent_same q by blast
      then show ?thesis
        using run True sends[of "out_sent v4 t4"] q a(6) f(4) u2
        by (intro exI[of _ "?st2 (out_sent v4 t4)"] exI[of _ None]) simp
    next
      case False
      obtain t5 e where e: "out_error err (sk st) t4 = (t5, e)" by fastforce
      note q = out_error_ok[OF a(2) e]
      then show ?thesis using run False sends[of t5] e
        by (intro exI[of _ "?st2 t5"] exI[of _ "Some e"]) simp
    qed
  qed
qed

lemma out_nosend_ok:
  assumes "conn_ok s t"
  shows "\<exists>t'. out_nosend s t = Inr t' \<and> conn_ok s t' \<and> same_conn t t' \<and> snd_max t' = snd_max t"
proof -
  have tm: "timers_ok t" using conn_okD(10)[OF assms] .
  have "timers_ok (t\<lparr>t_rxtshift := 0\<rparr>)" using tm by (simp add: timers_ok_def TCP_MAXRXTSHIFT_def)
  moreover have s0: "same_conn t (t\<lparr>t_rxtshift := 0\<rparr>)" by (simp add: same_conn_def)
  ultimately have c0: "conn_ok s (t\<lparr>t_rxtshift := 0\<rparr>)"
    by (rule conn_ok_timers[OF assms]) simp_all
  have persist: ?thesis if "out_nosend s t = tcp_setpersist (t\<lparr>t_rxtshift := 0\<rparr>)" "t_timer t TCPT_REXMT = 0"
  proof -
    note r = that
    obtain t' where "tcp_setpersist (t\<lparr>t_rxtshift := 0\<rparr>) = Inr t'" "conn_ok s t'"
      "same_conn (t\<lparr>t_rxtshift := 0\<rparr>) t'" "snd_max t' = snd_max (t\<lparr>t_rxtshift := 0\<rparr>)"
      using setpersist_ok[OF c0] r(2) by auto
    then show ?thesis using r(1) same_conn_trans[OF s0] by auto
  qed
  have rexmt: "conn_ok s (set_timer TCPT_REXMT (t_rxtcur t) t)" if "t_timer t TCPT_PERSIST = 0"
    by (rule conn_ok_timers[OF assms]) (use tm that in \<open>simp_all add: timers_ok_def same_conn_def\<close>)
  show ?thesis
  proof (cases "sb_cc (so_snd s) \<noteq> 0 \<and> t_timer t TCPT_REXMT = 0 \<and> t_timer t TCPT_PERSIST = 0")
    case True
    have "out_nosend s t = tcp_setpersist (t\<lparr>t_rxtshift := 0\<rparr>) \<or>
        out_nosend s t = Inr (set_timer TCPT_REXMT (t_rxtcur t) t) \<or> out_nosend s t = Inr t"
      using True by (simp add: out_nosend_def)
    then consider "out_nosend s t = tcp_setpersist (t\<lparr>t_rxtshift := 0\<rparr>)"
      | "out_nosend s t = Inr (set_timer TCPT_REXMT (t_rxtcur t) t)" | "out_nosend s t = Inr t"
      by blast
    then show ?thesis
    proof cases
      case 1
      then show ?thesis using persist True by blast
    next
      case 2
      then show ?thesis using rexmt True by (simp add: same_conn_def)
    next
      case 3
      then show ?thesis using assms by simp
    qed
  next
    case False
    then have "out_nosend s t = Inr t" by (auto simp: out_nosend_def)
    then show ?thesis using assms by simp
  qed
qed

lemma segs_mss: "segs (fst (tcp_mss x st)) = segs st"
  by (simp add: tcp_mss_def Let_def split: option.split prod.split)

lemma segs_options: "segs (fst (out_options v st)) = segs st"
  using segs_mss[of 0 st] by (simp add: out_options_def split_def Let_def)

lemma out_send_count:
  assumes "out_send v st = Inr (st1, r)"
  shows "length (segs st1) \<le> length (segs st) + 1"
proof -
  obtain st0 opt where o: "out_options v st = (st0, opt)" by fastforce
  have sg: "segs st0 = segs st" using segs_options[of v st] o by simp
  let ?st1 = "st0\<lparr>net_i := net_i st0 + 1\<rparr>"
  have "segs st1 = segs st0 \<or> (\<exists>g. segs st1 = segs st0 @ [g])"
  proof (cases "net st0 (net_i st0)")
    case NoHdr
    then show ?thesis using assms unfolding out_send_def o by (auto simp: Let_def split: prod.splits)
  next
    case (NoCopy e)
    show ?thesis using assms unfolding out_send_def o prod.case Let_def NoCopy netres.case
      by (auto split: prod.splits sum.splits if_splits(2))
  next
    case (Sent e)
    show ?thesis using assms unfolding out_send_def o prod.case Let_def Sent netres.case
      by (auto split: prod.splits sum.splits if_splits(2))
  qed
  then show ?thesis using sg by auto
qed

lemma out_turn_ok:
  assumes c: "conn_ok (sk st) (tp st)" and nc: "\<And>i e. net st i \<noteq> NoCopy e"
    and w: "max 1 (unat (snd_wnd (tp st))) \<le> w" "min (cc (sk st)) (mx (tp st)) \<le> w"
  shows "\<exists>st1 r. out_turn idle st = Inr (st1, r) \<and> sends_ok w st st1 \<and> length (segs st1) \<le> length (segs st) + 1 \<and>
    (r = None \<longrightarrow> unsent (sk st) (tp st1) < unsent (sk st) (tp st))"
proof -
  obtain t v snd where d: "out_decide (sk st) idle (tp st) = (t, v, snd)" "conn_ok (sk st) t" "same_conn (tp st) t"
    "send_ok (sk st) t v" "snd_max t = snd_max (tp st)" "snd_highrxt t = snd_highrxt (tp st)"
    "snd_nxt t = snd_nxt (tp st) \<or> ov_len v = 0"
    using out_decide_ok[OF c] by blast
  have mt: "mx t = mx (tp st)" using same_conn_off(2)[OF d(3,5)] .
  have s1: "sends_ok w st (st\<lparr>tp := t\<rparr>)" using d(2,3) w(2) mt by (simp add: sends_ok_def)
  show ?thesis
  proof (cases snd)
    case True
    have wt: "max 1 (unat (snd_wnd t)) \<le> w" "min (cc (sk st)) (mx t) \<le> w"
      using w mt d(3) by (simp_all add: same_conn_def)
    have "\<exists>st1 r. out_send v (st\<lparr>tp := t\<rparr>) = Inr (st1, r) \<and> sends_ok w (st\<lparr>tp := t\<rparr>) st1 \<and>
        (r = None \<and> ov_sendalot v \<longrightarrow> unsent (sk st) (tp st1) < unsent (sk st) t)"
      using out_send_ok[of "st\<lparr>tp := t\<rparr>" v w] d(2,4) nc wt by simp
    then obtain st1 r where o: "out_send v (st\<lparr>tp := t\<rparr>) = Inr (st1, r)" "sends_ok w (st\<lparr>tp := t\<rparr>) st1"
      "r = None \<and> ov_sendalot v \<longrightarrow> unsent (sk st) (tp st1) < unsent (sk st) t"
      by blast
    have k: "length (segs st1) \<le> length (segs st) + 1" using out_send_count[OF o(1)] by simp
    note s = sends_ok_trans[OF s1 o(2)]
    show ?thesis
    proof (cases r)
      case None
      have run: "out_turn idle st = Inr (st1, if ov_sendalot v then None else Some 0)"
        using d(1) True o(1) None by (simp add: out_turn_def)
      have "unsent (sk st) (tp st1) < unsent (sk st) (tp st)" if "ov_sendalot v"
      proof -
        have l: "ov_len v = int (unat (t_maxseg t))" using d(4) that by (simp add: send_ok_def outv_ok_def)
        have "ov_len v \<noteq> 0" unfolding l using conn_okD(12)[OF d(2)] by linarith
        then have "unsent (sk st) t = unsent (sk st) (tp st)" using d(7) unsent_same[OF d(3) _ d(6)] by blast
        then show ?thesis using o(3) None that by simp
      qed
      then show ?thesis using run s k by auto
    next
      case (Some e)
      have "out_turn idle st = Inr (st1, Some e)" using d(1) True o(1) Some by (simp add: out_turn_def)
      then show ?thesis using s k by auto
    qed
  next
    case False
    obtain t' where n: "out_nosend (sk st) t = Inr t'" "conn_ok (sk st) t'" "same_conn t t'" "snd_max t' = snd_max t"
      using out_nosend_ok[OF d(2)] by blast
    have "out_turn idle st = Inr (st\<lparr>tp := t'\<rparr>, Some 0)" using d(1) False n(1) by (simp add: out_turn_def)
    moreover have "mx t' = mx t" using same_conn_off(2)[OF n(3,4)] .
    then have "sends_ok w st (st\<lparr>tp := t'\<rparr>)"
      using n(2) same_conn_trans[OF d(3) n(3)] w(2) mt by (simp add: sends_ok_def)
    ultimately show ?thesis by auto
  qed
qed

lemma tcp_output_loop_ok:
  assumes "conn_ok (sk st) (tp st)" "\<And>i e. net st i \<noteq> NoCopy e"
    and "max 1 (unat (snd_wnd (tp st))) \<le> w" "min (cc (sk st)) (mx (tp st)) \<le> w"
  shows "\<exists>st' e. tcp_output_loop idle st = Some (Inr (st', e)) \<and> sends_ok w st st' \<and>
    length (segs st') \<le> length (segs st) + unsent (sk st) (tp st) + 1"
  using assms
proof (induction "unsent (sk st) (tp st)" arbitrary: st rule: less_induct)
  case less
  obtain st1 r where t: "out_turn idle st = Inr (st1, r)" "sends_ok w st st1" "length (segs st1) \<le> length (segs st) + 1"
    "r = None \<longrightarrow> unsent (sk st) (tp st1) < unsent (sk st) (tp st)"
    using out_turn_ok[OF less.prems] by blast
  show ?case
  proof (cases r)
    case None
    have k: "conn_ok (sk st1) (tp st1)" "sk st1 = sk st" "net st1 = net st" "snd_wnd (tp st1) = snd_wnd (tp st)"
      "min (cc (sk st1)) (mx (tp st1)) \<le> w"
      using t(2) by (auto simp: sends_ok_def same_conn_def)
    have u: "unsent (sk st1) (tp st1) < unsent (sk st) (tp st)" using t(4) None k(2) by simp
    have "\<exists>st' e. tcp_output_loop idle st1 = Some (Inr (st', e)) \<and> sends_ok w st1 st' \<and>
        length (segs st') \<le> length (segs st1) + unsent (sk st1) (tp st1) + 1"
      by (rule less.hyps[OF u k(1)]) (use less.prems(2,3) k(3-5) in simp_all)
    then obtain st' e where "tcp_output_loop idle st1 = Some (Inr (st', e))" "sends_ok w st1 st'"
      "length (segs st') \<le> length (segs st1) + unsent (sk st1) (tp st1) + 1"
      by blast
    moreover have "tcp_output_loop idle st = tcp_output_loop idle st1"
      by (subst tcp_output_loop.simps) (simp add: t(1) None)
    moreover note sends_ok_trans[OF t(2), of st']
    ultimately show ?thesis using t(3) u by fastforce
  next
    case (Some e)
    have "tcp_output_loop idle st = Some (Inr (st1, e))"
      by (subst tcp_output_loop.simps) (simp add: t(1) Some)
    then show ?thesis using t(2,3) by auto
  qed
qed

definition send_limit :: "tcpsock \<Rightarrow> tcpcb \<Rightarrow> nat" where
  "send_limit s t = max (max 1 (unat (snd_wnd t))) (mx t)"

lemma tcp_output_start:
  assumes "conn_ok s t"
  shows "conn_ok s (if snd_max t = snd_una t \<and> sint (t_idle t) \<ge> sint (t_rxtcur t)
    then t\<lparr>snd_cwnd := ucast (t_maxseg t)\<rparr> else t)"
proof -
  have "same_conn t (t\<lparr>snd_cwnd := ucast (t_maxseg t)\<rparr>)" by (simp add: same_conn_def)
  then have "conn_ok s (t\<lparr>snd_cwnd := ucast (t_maxseg t)\<rparr>)"
    by (rule conn_ok_other[OF assms])
      (use conn_okD(10)[OF assms] maxseg_u32[OF assms] in \<open>simp_all add: timers_ok_def\<close>)
  then show ?thesis using assms by simp
qed

lemma tcp_output_ok:
  assumes "conn_ok (sk st) (tp st)" "\<And>i e. net st i \<noteq> NoCopy e"
  shows "\<exists>st' e. tcp_output st = Some (Inr (st', e)) \<and> sends_ok (send_limit (sk st) (tp st)) st st' \<and>
    length (segs st') \<le> length (segs st) + unsent (sk st) (tp st) + 1"
proof -
  let ?t = "tp st"
  define t1 where "t1 = (if snd_max ?t = snd_una ?t \<and> sint (t_idle ?t) \<ge> sint (t_rxtcur ?t)
                         then ?t\<lparr>snd_cwnd := ucast (t_maxseg ?t)\<rparr> else ?t)"
  have s1: "same_conn ?t t1" by (simp add: t1_def same_conn_def tf_def)
  have c1: "conn_ok (sk st) t1" unfolding t1_def by (rule tcp_output_start[OF assms(1)])
  have f: "mx t1 = mx ?t" "unsent (sk st) t1 = unsent (sk st) ?t"
    using same_conn_off(2)[OF s1] unsent_same[OF s1] by (simp_all add: t1_def)
  let ?w = "send_limit (sk st) ?t" and ?st = "st\<lparr>tp := t1\<rparr>"
  have w: "max 1 (unat (snd_wnd t1)) \<le> ?w" "min (cc (sk st)) (mx t1) \<le> ?w"
    using f s1 by (simp_all add: send_limit_def same_conn_def)
  obtain st' e where r: "tcp_output_loop (snd_max ?t = snd_una ?t) ?st = Some (Inr (st', e))" "sends_ok ?w ?st st'"
    "length (segs st') \<le> length (segs st) + unsent (sk st) ?t + 1"
    using tcp_output_loop_ok[of ?st ?w "snd_max ?t = snd_una ?t"] c1 assms(2) w f(2) by auto
  have s0: "sends_ok ?w st ?st" using c1 s1 w by (simp add: sends_ok_def)
  have "tcp_output st = tcp_output_loop (snd_max ?t = snd_una ?t) ?st"
    by (simp add: tcp_output_def Let_def t1_def)
  then show ?thesis using r sends_ok_trans[OF s0 r(2)] by auto
qed

end
