(* ===== verification/Tcp_Timer_Inv.thy ===== *)
theory Tcp_Timer_Inv
  imports Tcp_Output_Inv
begin

text \<open>
  What \<open>tcp_output\<close> and the timer routines do to the timers of a connection in any state, and to a
  connection whose retransmit timer runs.
\<close>

section \<open>The timers under the send engine\<close>

text \<open>
  For every control block, synchronised or not: the retransmit and the persist timer are never
  both running and the shift stays in the backoff table, whatever \<open>tcp_output\<close> does; so
  \<open>tcp_setpersist\<close> never panics.
\<close>

definition same_timers :: "tcpcb \<Rightarrow> tcpcb \<Rightarrow> bool" where
  "same_timers t t' \<longleftrightarrow> t_timer t' = t_timer t \<and> t_rxtshift t' = t_rxtshift t"

lemma timers_ok_same: "same_timers t t' \<Longrightarrow> timers_ok t' = timers_ok t"
  by (simp add: same_timers_def timers_ok_def)

lemma same_timers_refl [simp]: "same_timers t t"
  by (simp add: same_timers_def)

lemma same_timers_trans: "same_timers t t1 \<Longrightarrow> same_timers t1 t2 \<Longrightarrow> same_timers t t2"
  by (simp add: same_timers_def)

lemma timers_ok_D:
  assumes "timers_ok t"
  shows "t_timer t TCPT_REXMT = 0 \<or> t_timer t TCPT_PERSIST = 0" "0 \<le> sint (t_rxtshift t)" "sint (t_rxtshift t) \<le> 12"
  using assms by (auto simp: timers_ok_def TCP_MAXRXTSHIFT_def)

lemma timers_ok_clear:
  assumes "timers_ok t"
  shows "timers_ok (t\<lparr>t_rxtshift := 0\<rparr>)" "timers_ok (set_timer TCPT_REXMT 0 t)" "timers_ok (set_timer TCPT_PERSIST 0 t)"
    "timers_ok (set_timer TCPT_KEEP v t)" "timers_ok (set_timer TCPT_2MSL v t)"
    "t_timer t TCPT_PERSIST = 0 \<Longrightarrow> timers_ok (set_timer TCPT_REXMT v t)"
  using assms by (auto simp: timers_ok_def TCP_MAXRXTSHIFT_def)

lemma shift_inc: "0 \<le> sint (w :: s16) \<Longrightarrow> sint w < 32767 \<Longrightarrow> sint (w + 1) = sint w + 1"
  by (simp add: sint_word_ariths signed_take_bit_int_eq_self)

lemma setpersist_timers:
  assumes "timers_ok t" "t_timer t TCPT_REXMT = 0"
  shows "\<exists>t'. tcp_setpersist t = Inr t' \<and> timers_ok t' \<and> t_timer t' TCPT_REXMT = 0"
proof -
  note d = timers_ok_D[OF assms(1)]
  have i: "sint (t_rxtshift t + 1) = sint (t_rxtshift t) + 1" if "sint (t_rxtshift t) < 12"
    by (rule shift_inc) (use d that in simp_all)
  show ?thesis using assms d i by (auto simp: tcp_setpersist_def Let_def timers_ok_def TCP_MAXRXTSHIFT_def)
qed

lemma out_plan_timers: "timers_ok t \<Longrightarrow> timers_ok (fst (out_plan s t))"
  by (simp add: out_plan_def Let_def split_def timers_ok_clear) (auto simp: timers_ok_def TCP_MAXRXTSHIFT_def)

lemma out_rules_timers: "same_timers t (fst (out_rules s p t v))"
  by (simp add: out_rules_def Let_def split_def same_timers_def split: option.split)

lemma out_recover_timers: "same_timers t (fst (out_recover s t v))"
  using out_rules_timers by (auto simp: out_recover_def Let_def split_def)

lemma out_decide_timers:
  assumes "timers_ok t"
  shows "timers_ok (fst (out_decide s idle t))"
proof -
  obtain t1 v1 where p: "out_plan s t = (t1, v1)" by fastforce
  obtain t2 v2 where r: "out_recover s t1 v1 = (t2, v2)" by fastforce
  have "timers_ok t1" using out_plan_timers[OF assms, of s] p by simp
  then have "timers_ok t2" using timers_ok_same out_recover_timers[of t1 s v1] r by simp
  then show ?thesis by (simp add: out_decide_def p r Let_def)
qed

lemma out_nosend_timers:
  assumes "timers_ok t"
  shows "\<exists>t'. out_nosend s t = Inr t' \<and> timers_ok t'"
proof (cases "sb_cc (so_snd s) \<noteq> 0 \<and> t_timer t TCPT_REXMT = 0 \<and> t_timer t TCPT_PERSIST = 0")
  case True
  have "out_nosend s t = tcp_setpersist (t\<lparr>t_rxtshift := 0\<rparr>) \<or>
      out_nosend s t = Inr (set_timer TCPT_REXMT (t_rxtcur t) t) \<or> out_nosend s t = Inr t"
    using True by (simp add: out_nosend_def)
  moreover have "\<exists>t'. tcp_setpersist (t\<lparr>t_rxtshift := 0\<rparr>) = Inr t' \<and> timers_ok t'"
    using setpersist_timers[of "t\<lparr>t_rxtshift := 0\<rparr>"] timers_ok_clear(1)[OF assms] True by auto
  ultimately show ?thesis using assms timers_ok_clear(6)[OF assms] True by auto
next
  case False
  then have "out_nosend s t = Inr t" by (auto simp: out_nosend_def)
  then show ?thesis using assms by simp
qed

lemma mss_rtt_timers: "same_timers t (mss_rtt rt t)"
  by (simp add: mss_rtt_def Let_def same_timers_def)

lemma tcp_mss_timers: "same_timers (tp st) (tp (fst (tcp_mss x st)))"
  using mss_rtt_timers[of "tp st"] by (simp add: tcp_mss_def Let_def split_def same_timers_def split: option.split)

lemma out_options_timers: "same_timers (tp st) (tp (fst (out_options v st)))"
proof -
  have a: "same_timers t (fst (syn_options s f m t))" for s f m t
    by (simp add: syn_options_def Let_def same_timers_def)
  have b: "same_timers t (fst (sack_options n f l t))" for n f l t
    by (simp add: sack_options_def Let_def same_timers_def)
  let ?st1 = "fst (if hasf TH_SYN (ov_flags v) \<and> \<not> tf TF_NOOPT (tp st)
         then (let (st0, mss) = tcp_mss 0 st;
                   (t1, opt) = syn_options (sk st0) (ov_flags v) (word_of_int mss) (tp st0)
               in (st0\<lparr>tp := t1\<rparr>, opt))
         else (st, []))"
  have "same_timers (tp st) (tp ?st1)"
    using same_timers_trans[OF tcp_mss_timers a] by (simp add: split_def Let_def)
  from same_timers_trans[OF this b] show ?thesis
    unfolding out_options_def Let_def split_def by simp
qed

lemma out_header_timers: "same_timers t (fst (out_header s t v opt))"
  by (simp add: out_header_def Let_def same_timers_def)

lemma out_account_timers:
  assumes "timers_ok t"
  shows "\<exists>t'. out_account t v = Inr t' \<and> timers_ok t'"
proof (cases "ov_rxmit v")
  case True
  define t1 where "t1 = (if ov_len v > 0 \<and> SEQ_GT (ov_rseq v + w32 (ov_len v)) (snd_highrxt t)
    then t\<lparr>snd_highrxt := ov_rseq v + w32 (ov_len v)\<rparr> else t)"
  have "same_timers t t1" by (simp add: t1_def same_timers_def)
  then have t1: "timers_ok t1" using timers_ok_same assms by blast
  have "out_account t v = (if t_timer t1 TCPT_REXMT = 0 \<and> snd_nxt t1 \<noteq> snd_una t1 \<and> t_timer t1 TCPT_PERSIST = 0 then
           (if snd_wnd t1 = 0 then tcp_setpersist (t1\<lparr>t_rxtshift := 0\<rparr>)
            else Inr (set_timer TCPT_REXMT (t_rxtcur t1) t1)) else Inr t1)"
    using True by (simp add: out_account_def acct_hole_def Let_def t1_def)
  moreover have "\<exists>t'. tcp_setpersist (t1\<lparr>t_rxtshift := 0\<rparr>) = Inr t' \<and> timers_ok t'" if "t_timer t1 TCPT_REXMT = 0"
    using setpersist_timers[of "t1\<lparr>t_rxtshift := 0\<rparr>"] timers_ok_clear(1)[OF t1] that by auto
  ultimately show ?thesis using t1 timers_ok_clear(6)[OF t1] by auto
next
  case False
  have "same_timers t (acct_probe t v)" by (simp add: acct_probe_def Let_def same_timers_def)
  then have "timers_ok (acct_probe t v)" using timers_ok_same assms by blast
  then show ?thesis using False acct_send_timers[OF assms] by (simp add: out_account_def)
qed

lemma out_error_timers:
  assumes "timers_ok t"
  shows "timers_ok (fst (out_error e s t))"
proof -
  let ?c = "sb_cc (so_snd s) \<noteq> 0 \<and> t_timer t TCPT_REXMT = 0 \<and> t_timer t TCPT_PERSIST = 0 \<and> SEQ_LT (snd_una t) (snd_max t)"
  define t1 where "t1 = (if ?c then set_timer TCPT_REXMT (t_rxtcur t) t else t)"
  have "timers_ok t1" using timers_ok_clear(6)[OF assms] assms by (auto simp: t1_def)
  moreover have "same_timers t1 (fst (out_error e s t))"
    unfolding out_error_def Let_def t1_def[symmetric] by (simp add: same_timers_def tcp_quench_def)
  ultimately show ?thesis using timers_ok_same by blast
qed

lemma out_sent_timers: "same_timers t (out_sent v t)"
  by (simp add: same_timers_def out_sent_sel)

lemma out_send_timers:
  assumes "timers_ok (tp st)"
  shows "\<exists>st1 r. out_send v st = Inr (st1, r) \<and> timers_ok (tp st1)"
proof -
  obtain st0 opt where o: "out_options v st = (st0, opt)" by fastforce
  have t0: "timers_ok (tp st0)" using timers_ok_same[OF out_options_timers[of st v]] assms o by simp
  have wire: "\<exists>t4. out_account t3 v4 = Inr t4 \<and> timers_ok t4" if "out_header s (tp st0) v4 opt = (t3, g)" for s v4 t3 g
  proof -
    have "timers_ok t3" using timers_ok_same[OF out_header_timers[of "tp st0" s v4 opt]] t0 that by simp
    then show ?thesis by (rule out_account_timers)
  qed
  have body: "\<exists>st1 r. (case out_header (sk st0) (tp st0) v4 opt of (t1, seg) \<Rightarrow>
      (case out_account t1 v4 of Inl p \<Rightarrow> Inl p
       | Inr t2 \<Rightarrow> (let st2 = (st0\<lparr>net_i := net_i st0 + 1\<rparr>)\<lparr>tp := t2, segs := segs (st0\<lparr>net_i := net_i st0 + 1\<rparr>) @ [seg]\<rparr> in
            if err \<noteq> 0 then (case out_error err (sk st2) t2 of (t3, e) \<Rightarrow> Inr (st2\<lparr>tp := t3\<rparr>, Some e))
            else Inr (st2\<lparr>tp := out_sent v4 t2\<rparr>, None)))) = Inr (st1, r) \<and> timers_ok (tp st1)" for v4 err
  proof -
    obtain t3 g where h: "out_header (sk st0) (tp st0) v4 opt = (t3, g)" by fastforce
    obtain t4 where a: "out_account t3 v4 = Inr t4" "timers_ok t4" using wire[OF h] by blast
    obtain t5 e where x: "out_error err (sk st0) t4 = (t5, e)" by fastforce
    have "timers_ok t5" using out_error_timers[OF a(2), of err "sk st0"] x by simp
    moreover have "timers_ok (out_sent v4 t4)" using timers_ok_same[OF out_sent_timers] a(2) by blast
    ultimately show ?thesis using h a(1) x by (cases "err = 0") simp_all
  qed
  have k: "tp (st0\<lparr>net_i := i\<rparr>) = tp st0" "sk (st0\<lparr>net_i := i\<rparr>) = sk st0" for i by simp_all
  show ?thesis
  proof (cases "net st0 (net_i st0)")
    case NoHdr
    obtain t e where x: "out_error ENOBUFS (sk st0) (tp st0) = (t, e)" by fastforce
    have "timers_ok t" using out_error_timers[OF t0, of ENOBUFS "sk st0"] x by simp
    then show ?thesis using NoHdr x by (simp add: out_send_def o Let_def)
  next
    case (NoCopy e)
    show ?thesis
      unfolding out_send_def o prod.case Let_def NoCopy netres.case k by (rule body[unfolded Let_def])
  next
    case (Sent e)
    show ?thesis
      unfolding out_send_def o prod.case Let_def Sent netres.case k by (rule body[unfolded Let_def])
  qed
qed

lemma out_turn_timers:
  assumes "timers_ok (tp st)"
  shows "\<exists>st1 r. out_turn idle st = Inr (st1, r) \<and> timers_ok (tp st1)"
proof -
  obtain t v snd where d: "out_decide (sk st) idle (tp st) = (t, v, snd)" by (metis prod_cases3)
  have t: "timers_ok t" using out_decide_timers[OF assms, of "sk st" idle] d by simp
  show ?thesis
  proof (cases snd)
    case True
    obtain st1 r where o: "out_send v (st\<lparr>tp := t\<rparr>) = Inr (st1, r)" "timers_ok (tp st1)"
      using out_send_timers[of "st\<lparr>tp := t\<rparr>" v] t by auto
    then show ?thesis using True d by (cases r) (simp_all add: out_turn_def)
  next
    case False
    then show ?thesis using out_nosend_timers[OF t, of "sk st"] d by (auto simp: out_turn_def)
  qed
qed

lemma tcp_output_loop_timers:
  assumes "tcp_output_loop idle st = Some r" "timers_ok (tp st)"
  shows "\<exists>st' e. r = Inr (st', e) \<and> timers_ok (tp st')"
proof -
  have "timers_ok (tp st) \<longrightarrow> (\<exists>st' e. r = Inr (st', e) \<and> timers_ok (tp st'))"
  proof (rule tcp_output_loop.raw_induct[of "\<lambda>idle st r. timers_ok (tp st) \<longrightarrow> (\<exists>st' e. r = Inr (st', e) \<and> timers_ok (tp st'))",
        OF _ assms(1)])
    fix self :: "bool \<Rightarrow> tcpst \<Rightarrow> (panic + tcpst \<times> int) option" and idle st r
    assume ih: "\<And>idle st r. self idle st = Some r \<Longrightarrow>
        timers_ok (tp st) \<longrightarrow> (\<exists>st' e. r = Inr (st', e) \<and> timers_ok (tp st'))"
      and run: "(case out_turn idle st of Inl p \<Rightarrow> Some (Inl p) | Inr (st1, Some e) \<Rightarrow> Some (Inr (st1, e))
          | Inr (st1, None) \<Rightarrow> self idle st1) = Some r"
    show "timers_ok (tp st) \<longrightarrow> (\<exists>st' e. r = Inr (st', e) \<and> timers_ok (tp st'))"
    proof
      assume "timers_ok (tp st)"
      then obtain st1 r1 where t: "out_turn idle st = Inr (st1, r1)" "timers_ok (tp st1)"
        using out_turn_timers by blast
      show "\<exists>st' e. r = Inr (st', e) \<and> timers_ok (tp st')"
      proof (cases r1)
        case None
        then show ?thesis using ih[of idle st1 r] run t by simp
      next
        case (Some e)
        then show ?thesis using run t by auto
      qed
    qed
  qed
  then show ?thesis using assms(2) by blast
qed

lemma tcp_output_timers:
  assumes "tcp_output st = Some r" "timers_ok (tp st)"
  shows "\<exists>st' e. r = Inr (st', e) \<and> timers_ok (tp st')"
proof -
  let ?t1 = "if snd_max (tp st) = snd_una (tp st) \<and> sint (t_idle (tp st)) \<ge> sint (t_rxtcur (tp st))
    then (tp st)\<lparr>snd_cwnd := ucast (t_maxseg (tp st))\<rparr> else tp st"
  have "same_timers (tp st) ?t1" by (simp add: same_timers_def)
  then have "timers_ok (tp (st\<lparr>tp := ?t1\<rparr>))" using timers_ok_same[of "tp st" ?t1] assms(2) by simp
  then show ?thesis
    using tcp_output_loop_timers[of _ "st\<lparr>tp := ?t1\<rparr>" r] assms(1) unfolding tcp_output_def Let_def by blast
qed

section \<open>The timer routines\<close>

lemma output_ignored_timers:
  assumes "output_ignored st = Some r" "timers_ok (tp st)"
  shows "\<exists>st'. r = Inr st' \<and> timers_ok (tp st')"
proof -
  obtain r0 where "tcp_output st = Some r0" "r = map_sum id fst r0"
    using assms(1) by (auto simp: output_ignored_def)
  then show ?thesis using tcp_output_timers[OF _ assms(2)] by fastforce
qed

lemma tcp_close_tp [simp]: "tp (tcp_close st) = tp st" "alive (tcp_close st) = False"
  by (simp_all add: tcp_close_def Let_def)

lemma tcp_drop_timers:
  assumes "tcp_drop errno st = Some r" "timers_ok (tp st)"
  shows "\<exists>st'. r = Inr st' \<and> timers_ok (tp st') \<and> \<not> alive st'"
proof -
  let ?st1 = "st\<lparr>tp := (tp st)\<lparr>t_state := TCPS_CLOSED\<rparr>\<rparr>"
  have t1: "timers_ok (tp ?st1)" using assms(2) by (simp add: timers_ok_def)
  obtain r0 where r0: "(if t_state (tp st) \<ge> TCPS_SYN_RECEIVED then tcp_output ?st1 else Some (Inr (st, 0))) = Some r0"
    "r = (case r0 of Inl p \<Rightarrow> Inl p | Inr (st1, _) \<Rightarrow>
          (let e = (if errno = ETIMEDOUT \<and> t_softerror (tp st1) \<noteq> 0 then sint (t_softerror (tp st1)) else errno)
           in Inr (tcp_close (st1\<lparr>sk := (sk st1)\<lparr>so_error := e\<rparr>\<rparr>))))"
    using assms(1) by (auto simp: tcp_drop_def Option.bind_eq_Some_conv)
  have "\<exists>st' e. r0 = Inr (st', e) \<and> timers_ok (tp st')"
    using r0(1) tcp_output_timers[of ?st1 r0] t1 assms(2) by (auto split: if_splits)
  then show ?thesis using r0(2) by (auto simp: Let_def)
qed

lemma tcp_respond_tp [simp]: "tp (tcp_respond a s st) = tp st"
  by (simp add: tcp_respond_def Let_def split: netres.split)

lemma rexmt_backoff_timers:
  assumes "timers_ok (tp st)" "t_timer (tp st) TCPT_PERSIST = 0"
  shows "timers_ok (tp (rexmt_backoff st))"
proof -
  have "t_timer (tp (rexmt_backoff st)) TCPT_PERSIST = 0" "t_rxtshift (tp (rexmt_backoff st)) = t_rxtshift (tp st)"
    using assms(2) by (simp_all add: rexmt_backoff_def Let_def)
  then show ?thesis using assms(1) by (simp add: timers_ok_def)
qed

lemma tcp_timers_timers:
  assumes "tcp_timers i st = Some r" "timers_ok (tp st)"
    and "i = TCPT_REXMT \<Longrightarrow> t_timer (tp st) TCPT_PERSIST = 0" "i = TCPT_PERSIST \<Longrightarrow> t_timer (tp st) TCPT_REXMT = 0"
  shows "\<exists>st'. r = Inr st' \<and> timers_ok (tp st')"
proof -
  note d = timers_ok_D[OF assms(2)]
  show ?thesis
  proof (cases i)
    case TCPT_REXMT
    note p = assms(3)[OF TCPT_REXMT]
    let ?t = "tp st"
    show ?thesis
    proof (cases "t_state ?t \<ge> TCPS_ESTABLISHED \<and> sb_cc (so_snd (sk st)) > 0 \<and> snd_wnd ?t = 0 \<and> SEQ_LT (snd_una ?t) (snd_max ?t)")
      case True
      have "timers_ok ((set_timer TCPT_REXMT 0 ?t)\<lparr>t_rxtshift := 0\<rparr>)"
        using timers_ok_clear(1)[OF timers_ok_clear(2)[OF assms(2)]] .
      then obtain t' where "tcp_setpersist ((set_timer TCPT_REXMT 0 ?t)\<lparr>t_rxtshift := 0\<rparr>) = Inr t'" "timers_ok t'"
        using setpersist_timers by fastforce
      then show ?thesis using assms(1) TCPT_REXMT True by (auto simp: tcp_timers_def Let_def)
    next
      case False
      have sh: "sint (t_rxtshift ?t + 1) = sint (t_rxtshift ?t) + 1" by (rule shift_inc) (use d in simp_all)
      show ?thesis
      proof (cases "sint (t_rxtshift ?t + 1) > TCP_MAXRXTSHIFT")
        case True
        let ?st1 = "st\<lparr>tp := (?t\<lparr>t_rxtshift := t_rxtshift ?t + 1\<rparr>)\<lparr>t_rxtshift := word_of_int TCP_MAXRXTSHIFT\<rparr>\<rparr>"
        have t1: "timers_ok (tp ?st1)" using assms(2) by (simp add: timers_ok_def TCP_MAXRXTSHIFT_def)
        obtain e where "tcp_drop e ?st1 = Some r"
          using assms(1) TCPT_REXMT True False by (simp add: tcp_timers_def Let_def)
        then show ?thesis using tcp_drop_timers[OF _ t1] by blast
      next
        case no: False
        let ?st1 = "st\<lparr>tp := ?t\<lparr>t_rxtshift := t_rxtshift ?t + 1\<rparr>\<rparr>"
        have t1: "timers_ok (tp ?st1)" using assms(2) no sh d by (simp add: timers_ok_def)
        have "timers_ok (tp (rexmt_backoff ?st1))" using rexmt_backoff_timers[OF t1] p by simp
        moreover have "output_ignored (rexmt_backoff ?st1) = Some r"
          using assms(1) TCPT_REXMT no False by (simp add: tcp_timers_def Let_def)
        ultimately show ?thesis using output_ignored_timers by blast
      qed
    qed
  next
    case TCPT_PERSIST
    obtain t' where t: "tcp_setpersist (tp st) = Inr t'" "timers_ok t'"
      using setpersist_timers[OF assms(2) assms(4)[OF TCPT_PERSIST]] by blast
    have "timers_ok (tp (st\<lparr>tp := t'\<lparr>t_force := 1\<rparr>\<rparr>))" using t(2) by (simp add: timers_ok_def)
    moreover obtain r0 where r0: "output_ignored (st\<lparr>tp := t'\<lparr>t_force := 1\<rparr>\<rparr>) = Some r0"
      "r = map_sum id (\<lambda>s. s\<lparr>tp := (tp s)\<lparr>t_force := 0\<rparr>\<rparr>) r0"
      using assms(1) TCPT_PERSIST t(1) by (auto simp: tcp_timers_def)
    ultimately obtain s where "r0 = Inr s" "timers_ok (tp s)" using output_ignored_timers by blast
    then show ?thesis using r0(2) by (simp add: timers_ok_def)
  next
    case TCPT_KEEP
    then show ?thesis
      using assms(1,2) tcp_drop_timers[of _ st r] timers_ok_clear(4)[OF assms(2)]
      by (auto simp: tcp_timers_def Let_def split: if_splits)
  next
    case TCPT_2MSL
    then show ?thesis
      using assms(1,2) timers_ok_clear(5)[OF assms(2)] by (auto simp: tcp_timers_def Let_def split: if_splits)
  qed
qed

lemma timer_tick_timers:
  assumes "timer_tick i st = Some r" "timers_ok (tp st)"
  shows "\<exists>st'. r = Inr st' \<and> timers_ok (tp st')"
proof (cases "t_timer (tp st) i = 0")
  case True
  then show ?thesis using assms by (auto simp: timer_tick_def)
next
  case False
  let ?v = "t_timer (tp st) i" and ?st1 = "st\<lparr>tp := set_timer i (t_timer (tp st) i - 1) (tp st)\<rparr>"
  have t1: "timers_ok (tp ?st1)" using assms(2) False by (cases i) (auto simp: timers_ok_def)
  have ex: "i = TCPT_REXMT \<Longrightarrow> t_timer (tp ?st1) TCPT_PERSIST = 0" "i = TCPT_PERSIST \<Longrightarrow> t_timer (tp ?st1) TCPT_REXMT = 0"
    using timers_ok_D(1)[OF assms(2)] False by auto
  show ?thesis
  proof (cases "?v - 1 = 0")
    case True
    then show ?thesis using assms(1) False tcp_timers_timers[OF _ t1 ex] by (simp add: timer_tick_def Let_def)
  next
    case no: False
    then show ?thesis using assms(1) False t1 by (auto simp: timer_tick_def Let_def)
  qed
qed

lemma timer_ticks_timers:
  assumes "timer_ticks is st = Some r" "timers_ok (tp st)"
  shows "\<exists>st'. r = Inr st' \<and> timers_ok (tp st')"
  using assms
proof (induction "is" arbitrary: st)
  case (Cons i "is")
  obtain r1 where r1: "timer_tick i st = Some r1"
    "(case r1 of Inl p \<Rightarrow> Some (Inl p) | Inr st1 \<Rightarrow> if alive st1 then timer_ticks is st1 else Some (Inr st1)) = Some r"
    using Cons.prems(1) by (auto simp: Option.bind_eq_Some_conv)
  obtain st1 where "r1 = Inr st1" "timers_ok (tp st1)" using timer_tick_timers[OF r1(1) Cons.prems(2)] by blast
  then show ?case using r1(2) Cons.IH[of st1] by (auto split: if_splits)
qed auto

lemma ng_rcvstall_timers: "same_timers t (fst (ng_rcvstall_check now sl sb t))"
  by (simp add: ng_rcvstall_check_def same_timers_def)

lemma slow_one_timers:
  assumes "slow_one sl st = Some r" "timers_ok (tp st)"
  shows "\<exists>st'. r = Inr st' \<and> timers_ok (tp st')"
proof -
  obtain r1 where r1: "timer_ticks [TCPT_REXMT, TCPT_PERSIST, TCPT_KEEP, TCPT_2MSL] st = Some r1"
    using assms(1) by (auto simp: slow_one_def Option.bind_eq_Some_conv simp del: timer_ticks.simps)
  obtain st1 where s: "r1 = Inr st1" "timers_ok (tp st1)" using timer_ticks_timers[OF r1 assms(2)] by blast
  let ?t1 = "(tp st1)\<lparr>t_idle := t_idle (tp st1) + 1, t_rtt := (if t_rtt (tp st1) \<noteq> 0 then t_rtt (tp st1) + 1 else 0)\<rparr>"
  have "timers_ok ?t1" using s(2) by (simp add: timers_ok_def)
  then have "timers_ok (fst (ng_rcvstall_check (tcp_now (glob st1)) sl (so_rcv (sk st1)) ?t1))"
    using timers_ok_same[OF ng_rcvstall_timers] by blast
  then show ?thesis
    using assms(1) r1 s by (auto simp: slow_one_def Let_def simp del: timer_ticks.simps split: if_splits)
qed

section \<open>A running retransmit timer\<close>

text \<open>
  While the retransmit timer runs and both windows are open, \<open>tcp_output\<close> leaves the timers and
  the shift alone.
\<close>

definition running :: "tcpcb \<Rightarrow> bool" where
  "running t \<longleftrightarrow> t_timer t TCPT_REXMT \<noteq> 0 \<and> t_timer t TCPT_PERSIST = 0 \<and> t_force t = 0 \<and> snd_wnd t \<noteq> 0 \<and>
     snd_cwnd t \<noteq> 0"

definition run_same :: "tcpcb \<Rightarrow> tcpcb \<Rightarrow> bool" where
  "run_same t t' \<longleftrightarrow> same_timers t t' \<and> t_force t' = t_force t \<and> snd_wnd t' = snd_wnd t \<and> t_maxseg t' = t_maxseg t \<and>
     (snd_cwnd t' = snd_cwnd t \<or> snd_cwnd t' = ucast (t_maxseg t))"

lemma run_same_refl [simp]: "run_same t t"
  by (simp add: run_same_def)

lemma run_same_trans: "run_same t t1 \<Longrightarrow> run_same t1 t2 \<Longrightarrow> run_same t t2"
  by (auto simp: run_same_def same_timers_def)

lemma running_same:
  assumes "running t" "run_same t t'" "conn_ok s t"
  shows "running t'"
  using assms(1,2) maxseg_u32(1)[OF assms(3)] by (auto simp: running_def run_same_def same_timers_def)

lemma out_plan_running:
  assumes "running t" "conn_ok s t"
  shows "fst (out_plan s t) = t"
proof -
  have "min (snd_wnd t) (snd_cwnd t) \<noteq> 0" using assms(1) by (simp add: running_def min_def)
  then have "sint (min (snd_wnd t) (snd_cwnd t)) \<noteq> 0" by (simp add: sint_eq_0_iff_u32)
  then show ?thesis using assms(1) by (simp add: out_plan_def Let_def split_def running_def)
qed

lemma run_same_flags [simp]: "run_same t (t\<lparr>t_flags := f\<rparr>)"
  by (simp add: run_same_def same_timers_def)

lemma out_decide_running:
  assumes "running t" "conn_ok s t"
  shows "run_same t (fst (out_decide s idle t))"
proof -
  obtain v1 where p: "out_plan s t = (t, v1)" using out_plan_running[OF assms] by (metis prod.collapse)
  obtain t2 v2 where r: "out_recover s t v1 = (t2, v2)" by fastforce
  have "run_same t (fst (out_rules s pp t v))" for pp v
    by (simp add: out_rules_def Let_def split_def split: option.split)
  then have "run_same t t2" using r by (auto simp: out_recover_def Let_def split_def split: if_splits)
  then show ?thesis by (simp add: out_decide_def p r Let_def)
qed

lemma out_account_running:
  assumes "running t" "out_account t v = Inr t'"
  shows "run_same t t'"
proof (cases "ov_rxmit v")
  case True
  then have "out_account t v = Inr (if ov_len v > 0 \<and> SEQ_GT (ov_rseq v + w32 (ov_len v)) (snd_highrxt t)
      then t\<lparr>snd_highrxt := ov_rseq v + w32 (ov_len v)\<rparr> else t)"
    using assms(1) by (simp add: out_account_def acct_hole_def Let_def running_def)
  then have t': "t' = (if ov_len v > 0 \<and> SEQ_GT (ov_rseq v + w32 (ov_len v)) (snd_highrxt t)
      then t\<lparr>snd_highrxt := ov_rseq v + w32 (ov_len v)\<rparr> else t)" using assms(2) by simp
  show ?thesis unfolding t' by (simp add: run_same_def same_timers_def)
next
  case False
  then have t': "t' = acct_send t v" using assms by (simp add: out_account_def running_def)
  show ?thesis unfolding t' using assms(1) by (simp add: acct_send_def Let_def running_def run_same_def same_timers_def)
qed

lemma out_send_running:
  assumes "running (tp st)" "conn_ok (sk st) (tp st)" "\<not> hasf TH_SYN (ov_flags v)" "out_send v st = Inr (st1, r)"
  shows "run_same (tp st) (tp st1)"
proof -
  obtain t2 o3 where so: "sack_options (length (ts_options (tcp_now (glob st)) (ov_flags v) (tp st))) (ov_flags v)
      (ov_len v) (tp st) = (t2, o3)" by fastforce
  then obtain opt where o: "out_options v st = (st\<lparr>tp := t2\<rparr>, opt)"
    using assms(3) by (auto simp: out_options_def Let_def)
  have "run_same (tp st) (fst (sack_options n f l (tp st)))" for n f l by (simp add: sack_options_def Let_def)
  from this[of "length (ts_options (tcp_now (glob st)) (ov_flags v) (tp st))" "ov_flags v" "ov_len v"]
  have r2: "run_same (tp st) t2" unfolding so by simp
  then have run2: "running t2" using running_same[OF assms(1) _ assms(2)] by blast
  have err: "run_same t (fst (out_error e s t))" if "running t" for e s t
    using that by (simp add: out_error_def Let_def run_same_def same_timers_def running_def tcp_quench_def)
  have acc: "run_same t2 t4" if h: "out_header s t2 v4 opt = (t3, g)" and a: "out_account t3 v4 = Inr t4" for s v4 t3 g t4
  proof -
    note H = out_header_sel[OF h]
    have t3: "running t3 \<and> run_same t2 t3"
      using run2 H(2,5,7,8) by (simp add: running_def run_same_def same_timers_def same_conn_def)
    moreover have "run_same t3 t4" using out_account_running a t3 by blast
    ultimately show ?thesis using run_same_trans[of t2 t3 t4] by blast
  qed
  have fin: "run_same (tp st) (tp st1)"
    if "(case out_header (sk st) t2 v4 opt of (t1, seg) \<Rightarrow>
      (case out_account t1 v4 of Inl p \<Rightarrow> Inl p
       | Inr t4 \<Rightarrow> (let st2 = (st\<lparr>tp := t2, net_i := i\<rparr>)\<lparr>tp := t4, segs := segs (st\<lparr>tp := t2, net_i := i\<rparr>) @ [seg]\<rparr> in
            if err \<noteq> 0 then (case out_error err (sk st2) t4 of (t3, e) \<Rightarrow> Inr (st2\<lparr>tp := t3\<rparr>, Some e))
            else Inr (st2\<lparr>tp := out_sent v4 t4\<rparr>, None)))) = Inr (st1, r)" for v4 err i
  proof -
    note hyp = that
    obtain t3 g where h: "out_header (sk st) t2 v4 opt = (t3, g)" by fastforce
    obtain t4 where a: "out_account t3 v4 = Inr t4" using hyp h by (auto split: sum.splits)
    have s4: "run_same t2 t4" using acc[OF h a] .
    have "conn_ok (sk st) t2 \<or> True" by simp
    have "running t4"
      using s4 run2 maxseg_u32(1)[OF assms(2)] r2 by (auto simp: running_def run_same_def same_timers_def)
    then have "run_same t4 (fst (out_error err (sk st) t4))" by (rule err)
    moreover have "run_same t4 (out_sent v4 t4)"
      using out_sent_same[of t4 v4] by (simp add: run_same_def same_timers_def out_sent_sel same_conn_def)
    moreover have "tp st1 = fst (out_error err (sk st) t4) \<or> tp st1 = out_sent v4 t4"
      using hyp h a by (auto simp: Let_def split: prod.splits if_splits)
    ultimately show ?thesis using run_same_trans[OF run_same_trans[OF r2 s4]] by metis
  qed
  have k: "sk (st\<lparr>tp := t2, net_i := i\<rparr>) = sk st" "tp (st\<lparr>tp := t2, net_i := i\<rparr>) = t2"
    "net (st\<lparr>tp := t2\<rparr>) = net st" "net_i (st\<lparr>tp := t2\<rparr>) = net_i st" for i
    by simp_all
  show ?thesis
  proof (cases "net st (net_i st)")
    case NoHdr
    have "run_same t2 (fst (out_error ENOBUFS (sk st) t2))" by (rule err[OF run2])
    moreover have "tp st1 = fst (out_error ENOBUFS (sk st) t2)"
      using assms(4) NoHdr by (auto simp: out_send_def o Let_def split: prod.splits)
    ultimately show ?thesis using run_same_trans[OF r2] by simp
  next
    case (NoCopy e)
    show ?thesis
      using assms(4) unfolding out_send_def o prod.case Let_def k NoCopy netres.case by (rule fin[unfolded Let_def])
  next
    case (Sent e)
    show ?thesis
      using assms(4) unfolding out_send_def o prod.case Let_def k Sent netres.case by (rule fin[unfolded Let_def])
  qed
qed

lemma out_turn_running:
  assumes "running (tp st)" "conn_ok (sk st) (tp st)" "out_turn idle st = Inr (st1, r)"
  shows "run_same (tp st) (tp st1)"
proof -
  obtain t v snd where d: "out_decide (sk st) idle (tp st) = (t, v, snd)" "conn_ok (sk st) t" "send_ok (sk st) t v"
    using out_decide_ok[OF assms(2)] by blast
  have s: "run_same (tp st) t" using out_decide_running[OF assms(1,2), of idle] d(1) by simp
  have t: "running t" using running_same[OF assms(1) s assms(2)] .
  show ?thesis
  proof (cases snd)
    case True
    obtain r' where "out_send v (st\<lparr>tp := t\<rparr>) = Inr (st1, r')"
      using assms(3) d(1) True by (auto simp: out_turn_def split: sum.splits option.splits prod.splits)
    then have "run_same t (tp st1)"
      using out_send_running[of "st\<lparr>tp := t\<rparr>" v st1 r'] t d(2,3) by (simp add: send_ok_def)
    then show ?thesis using run_same_trans[OF s] by blast
  next
    case False
    have "out_nosend (sk st) t = Inr t" using t by (simp add: out_nosend_def running_def)
    then have "st1 = st\<lparr>tp := t\<rparr>" using assms(3) d(1) False by (simp add: out_turn_def)
    then show ?thesis using s by simp
  qed
qed

lemma tcp_output_loop_running:
  assumes "tcp_output_loop idle st = Some (Inr (st', e))" "running (tp st)" "conn_ok (sk st) (tp st)"
    and "\<And>i e. net st i \<noteq> NoCopy e"
  shows "run_same (tp st) (tp st')"
proof -
  define P where "P st r \<longleftrightarrow> running (tp st) \<and> conn_ok (sk st) (tp st) \<and> (\<forall>i e. net st i \<noteq> NoCopy e) \<longrightarrow>
    (\<forall>st' e. r = Inr (st', e) \<longrightarrow> run_same (tp st) (tp st'))" for st :: tcpst and r :: "panic + tcpst \<times> int"
  have "P st (Inr (st', e))"
  proof (rule tcp_output_loop.raw_induct[of "\<lambda>idle st r. P st r", OF _ assms(1)])
    fix self :: "bool \<Rightarrow> tcpst \<Rightarrow> (panic + tcpst \<times> int) option" and idle st r
    assume ih: "\<And>idle st r. self idle st = Some r \<Longrightarrow> P st r"
      and run: "(case out_turn idle st of Inl p \<Rightarrow> Some (Inl p) | Inr (st1, Some e) \<Rightarrow> Some (Inr (st1, e))
          | Inr (st1, None) \<Rightarrow> self idle st1) = Some r"
    show "P st r"
      unfolding P_def
    proof (intro impI allI)
      fix st' e
      assume a: "running (tp st) \<and> conn_ok (sk st) (tp st) \<and> (\<forall>i e. net st i \<noteq> NoCopy e)" and r: "r = Inr (st', e)"
      have w: "max 1 (unat (snd_wnd (tp st))) \<le> send_limit (sk st) (tp st)"
        "min (cc (sk st)) (mx (tp st)) \<le> send_limit (sk st) (tp st)"
        by (simp_all add: send_limit_def)
      obtain st1 r1 where t: "out_turn idle st = Inr (st1, r1)" "sends_ok (send_limit (sk st) (tp st)) st st1"
        using out_turn_ok[OF _ _ w] a by blast
      have s: "run_same (tp st) (tp st1)" using out_turn_running t(1) a by blast
      show "run_same (tp st) (tp st')"
      proof (cases r1)
        case None
        have "P st1 r" using ih run t(1) None by simp
        moreover have "running (tp st1)" "conn_ok (sk st1) (tp st1)" "net st1 = net st"
          using running_same s a t(2) by (auto simp: sends_ok_def)
        ultimately show ?thesis using a r run_same_trans[OF s] by (simp add: P_def)
      next
        case (Some x)
        then show ?thesis using run t(1) r s by simp
      qed
    qed
  qed
  then show ?thesis using assms(2-4) by (simp add: P_def)
qed

lemma tcp_output_running:
  assumes "tcp_output st = Some (Inr (st', e))" "running (tp st)" "conn_ok (sk st) (tp st)" "\<And>i e. net st i \<noteq> NoCopy e"
  shows "run_same (tp st) (tp st')"
proof -
  let ?t1 = "if snd_max (tp st) = snd_una (tp st) \<and> sint (t_idle (tp st)) \<ge> sint (t_rxtcur (tp st))
    then (tp st)\<lparr>snd_cwnd := ucast (t_maxseg (tp st))\<rparr> else tp st"
  have s: "run_same (tp st) ?t1" by (simp add: run_same_def same_timers_def)
  have "run_same ?t1 (tp st')"
    using tcp_output_loop_running[of _ "st\<lparr>tp := ?t1\<rparr>" st' e] assms(1,4) running_same[OF assms(2) s assms(3)]
      tcp_output_start[OF assms(3)]
    by (simp add: tcp_output_def Let_def)
  then show ?thesis using run_same_trans[OF s] by blast
qed

end
