(* ===== verification/Tcp_Output_Correct.thy ===== *)
theory Tcp_Output_Correct
  imports Tcp_Output_Inv
begin

text \<open>
  The properties of \<open>tcp_output\<close>: it returns, what it puts on the wire, the invariant it keeps, the
  timer it leaves running; and the states in which it goes wrong.
\<close>

section \<open>Example connections\<close>

definition ex_glob :: tcpglob where
  "ex_glob = \<lparr>tcp_now = 100, max_linkhdr = 16, tcp_mssdflt = 0, tcp_iw = 10, g_mclbytes = 2048, g_sb_max = 262144,
     tcp_keepidle = 14400, tcp_keepintvl = 150, tcp_maxidle = 1200\<rparr>"

definition ex_buf :: "u32 \<Rightarrow> sockbuf" where
  "ex_buf n = \<lparr>sb_cc = n, sb_hiwat = 16384, sb_mbcnt = n, sb_mbmax = 32768, sb_lowat = 1\<rparr>"

definition ex_sock :: "u32 \<Rightarrow> tcpsock" where
  "ex_sock n = \<lparr>so_snd = ex_buf n, so_rcv = ex_buf 0, so_keepalive = False, so_error = 0, inp_faddr_any = False,
     inp_faddr_local = True, ro_rt = None, rtalloc_rt = None\<rparr>"

definition ex_tcb :: tcpcb where
  "ex_tcb = tcpcb_zero\<lparr>t_state := 4, t_maxseg := 1000, snd_una := 1000, snd_nxt := 1000, snd_max := 1000,
     snd_up := 1000, snd_wnd := 8000, max_sndwnd := 8000, snd_cwnd := 4000, rcv_nxt := 70000, rcv_adv := 86384,
     t_rxtcur := 2, t_rttvar := 2, t_rttmin := 2\<rparr>"

definition ex_st :: "(nat \<Rightarrow> netres) \<Rightarrow> u32 \<Rightarrow> tcpcb \<Rightarrow> tcpst" where
  "ex_st nw n t = \<lparr>tp = t, sk = ex_sock n, glob = ex_glob, net = nw, net_i = 0, segs = [], alive = True\<rparr>"

lemmas ex_defs = ex_st_def ex_sock_def ex_buf_def ex_glob_def ex_tcb_def tcpcb_zero_def

lemmas out_defs = out_plan_def out_recover_def out_rules_def out_probe_def out_hole_def out_nofin_def out_data_def
  out_winup_def out_ctl_def out_decide_def out_nosend_def out_options_def ts_options_def sack_options_def out_win_def
  out_header_def acct_send_def acct_hole_def acct_probe_def out_account_def out_error_def out_sent_def needs_copy_def
  out_send_def out_turn_def w32_def hasf_def tf_def set_timer_def tcp_setpersist_def tcpt_rangeset_def wrap_int_def
  tcp_outflags_def sbspace_def SEQ_defs TH_FIN_def TH_SYN_def TH_RST_def TH_PUSH_def TH_ACK_def TH_URG_def
  TF_ACKNOW_def TF_DELACK_def TF_NODELAY_def TF_NOOPT_def TF_SENTFIN_def TF_REQ_TSTMP_def TF_RCVD_TSTMP_def
  TF_SACK_PERMIT_def TF_SACK_RECOVER_def TF_SACK_RESCUE_def TF_DSACK_def TCPTV_PERSMIN_def TCPTV_PERSMAX_def
  TCP_MAXRXTSHIFT_def tcp_backoff_def TCP_MAXWIN_def

section \<open>A shortage of mbufs\<close>

text \<open>
  A connection that can send a full segment and more, when the copy of the data always fails:
  header mbufs are to be had, and \<open>ip_output\<close> takes the segment.
\<close>

definition starved :: "tcpst \<Rightarrow> bool" where
  "starved st \<longleftrightarrow>
     (let t = tp st; s = sk st in
      (t_state t = 4 \<or> t_state t = 5) \<and> t_force t = 0 \<and> \<not> tf TF_SACK_RECOVER t \<and> nxt t \<le> mx t \<and> mx t < 2 ^ 31 \<and>
      cc s < 2 ^ 31 \<and> unat (snd_wnd t) < 2 ^ 31 \<and> 56 < unat (t_maxseg t) \<and>
      nxt t + unat (t_maxseg t) < min (cc s) (min (unat (snd_wnd t)) (unat (snd_cwnd t))) \<and>
      0 \<le> max_linkhdr (glob st) \<and> max_linkhdr (glob st) \<le> 44 \<and> (\<forall>i. net st i = NoCopy 0))"

lemma out_plan_full:
  assumes "t_force t = 0" "unat (snd_wnd t) < 2 ^ 31" "cc s < 2 ^ 31" "nxt t < 2 ^ 31"
    and "nxt t + unat (t_maxseg t) < min (cc s) (min (unat (snd_wnd t)) (unat (snd_cwnd t)))"
  shows "out_plan s t = (t, \<lparr>ov_off = int (nxt t), ov_len = int (unat (t_maxseg t)),
    ov_win = int (min (unat (snd_wnd t)) (unat (snd_cwnd t))), ov_flags = tcp_outflags ! t_state t,
    ov_sendalot = True, ov_rxmit = False, ov_rseq = 0\<rparr>)"
proof -
  define wn where "wn = min (unat (snd_wnd t)) (unat (snd_cwnd t))"
  have win: "sint (min (snd_wnd t) (snd_cwnd t)) = int wn"
    unfolding wn_def by (simp only: sint_min_word(1)[OF assms(2)] of_nat_min)
  have off: "sint (snd_nxt t - snd_una t) = int (nxt t)"
    using sint_off[of "snd_una t" "snd_nxt t"] assms(4) by (simp add: nxt_def seq_in_def)
  have "wn < 2 ^ 31" using assms(2) by (simp add: wn_def)
  then have ww: "unat (w32 (int wn)) = wn" by (simp add: w32_unat)
  have len: "sint (min (sb_cc (so_snd s)) (w32 (int wn)) - w32 (int (nxt t))) = int (min (cc s) wn) - int (nxt t)"
    using sint_min_diff[of "sb_cc (so_snd s)" "nxt t" "w32 (int wn)"] assms(3,4) ww unfolding w32_of_nat cc_def by simp
  have lt: "\<not> min (cc s) wn < nxt t" using assms(5) unfolding wn_def[symmetric] by linarith
  have big: "\<not> int (min (cc s) wn) - int (nxt t) < 0" "int (min (cc s) wn) - int (nxt t) > int (unat (t_maxseg t))"
    using assms(5) unfolding wn_def[symmetric] by linarith+
  show ?thesis
    unfolding out_plan_def Let_def win off wn_def[symmetric] using assms(1) len big lt by simp
qed

lemma synced_ack: "n = 4 \<or> n = 5 \<Longrightarrow> tcp_outflags ! n = TH_ACK"
  by (auto simp: tcp_outflags_def)

lemma out_send_NoCopy:
  assumes "net st (net_i st) = NoCopy 0" "out_options v st = (st, opt)" "\<not> ov_off v < 0" "ov_len v \<noteq> 0"
    and "needs_copy (glob st) (length opt) (ov_len v)"
  shows "out_send v st =
    (let v3 = (if w32 (ov_off (v\<lparr>ov_len := 0\<rparr>) + ov_len (v\<lparr>ov_len := 0\<rparr>)) = sb_cc (so_snd (sk st))
      then v\<lparr>ov_len := 0, ov_flags := ov_flags (v\<lparr>ov_len := 0\<rparr>) OR TH_PUSH\<rparr> else v\<lparr>ov_len := 0\<rparr>);
         v4 = v3\<lparr>ov_win := out_win (sk st) (tp st) (ov_win v3)\<rparr>
     in case out_header (sk st) (tp st) v4 opt of (t3, g) \<Rightarrow>
        (case out_account t3 v4 of
           Inl p \<Rightarrow> Inl p
         | Inr t4 \<Rightarrow> Inr (st\<lparr>tp := out_sent v4 t4, net_i := net_i st + 1, segs := segs st @ [g]\<rparr>, None)))"
proof -
  have c: "needs_copy (glob (st\<lparr>net_i := net_i st + 1\<rparr>)) (length opt) (ov_len v) = True" "(ov_len v \<noteq> 0) = True"
    using assms(4,5) by simp_all
  have u: "st\<lparr>net_i := i, tp := b, segs := c\<rparr> = st\<lparr>tp := b, net_i := i, segs := c\<rparr>"
    "st\<lparr>tp := b, net_i := i, segs := c, tp := d\<rparr> = st\<lparr>tp := d, net_i := i, segs := c\<rparr>" for b c d i
    by simp_all
  have k: "sk (st\<lparr>net_i := i\<rparr>) = sk st" "tp (st\<lparr>net_i := i\<rparr>) = tp st" "segs (st\<lparr>net_i := i\<rparr>) = segs st" for i
    by simp_all
  show ?thesis
    unfolding out_send_def assms(2) Let_def prod.case assms(1) netres.case if_not_P[OF assms(3)] c simp_thms if_True k u
    by (simp only: simp_thms if_False)
qed

lemma starved_turn:
  assumes "starved st"
  shows "\<exists>st'. out_turn idle st = Inr (st', None) \<and> starved st'"
proof -
  let ?t = "tp st" and ?s = "sk st"
  have a: "t_state ?t = 4 \<or> t_state ?t = 5" "t_force ?t = 0" "\<not> tf TF_SACK_RECOVER ?t" "nxt ?t \<le> mx ?t" "mx ?t < 2 ^ 31"
    "cc ?s < 2 ^ 31" "unat (snd_wnd ?t) < 2 ^ 31" "56 < unat (t_maxseg ?t)"
    "nxt ?t + unat (t_maxseg ?t) < min (cc ?s) (min (unat (snd_wnd ?t)) (unat (snd_cwnd ?t)))"
    "0 \<le> max_linkhdr (glob st)" "max_linkhdr (glob st) \<le> 44" "\<And>i. net st i = NoCopy 0"
    using assms unfolding starved_def Let_def by blast+
  have n31: "nxt ?t < 2 ^ 31" using a(4,5) by simp
  have pos: "int (unat (t_maxseg ?t)) \<noteq> 0" using a(8) by linarith
  have n32: "nxt ?t + 1 < 2 ^ 31" using a(6,8,9) by linarith
  obtain v where d: "out_decide ?s idle ?t = (?t, v, True)" "ov_len v = int (unat (t_maxseg ?t))" "ov_sendalot v"
    "\<not> ov_rxmit v" "ov_off v = int (nxt ?t)" "\<not> hasf TH_SYN (ov_flags v)" "\<not> hasf TH_FIN (ov_flags v)"
  proof -
    let ?a = "\<lparr>ov_off = int (nxt ?t), ov_len = int (unat (t_maxseg ?t)),
      ov_win = int (min (unat (snd_wnd ?t)) (unat (snd_cwnd ?t))), ov_flags = TH_ACK,
      ov_sendalot = True, ov_rxmit = False, ov_rseq = 0\<rparr>"
    let ?v = "(out_nofin ?s ?t (snd_nxt ?t) ?a)\<lparr>ov_win := sbspace (so_rcv ?s)\<rparr>"
    have p: "out_plan ?s ?t = (?t, ?a)"
      using out_plan_full[OF a(2,7,6) n31 a(9)] synced_ack[OF a(1)] by simp
    have "out_data ?s idle ?t ?v" using pos by (simp add: out_data_def)
    then have "out_decide ?s idle ?t = (?t, ?v, True)"
      using a(3) by (simp add: out_decide_def p out_recover_def Let_def)
    moreover have "\<not> hasf TH_SYN (ov_flags ?v)" "\<not> hasf TH_FIN (ov_flags ?v)"
      by (simp_all add: out_nofin_def hasf_def TH_SYN_def TH_FIN_def TH_ACK_def)
    ultimately show ?thesis using that[of ?v] by simp
  qed
  define opt where "opt = ts_options (tcp_now (glob st)) (ov_flags v) ?t"
  have ol: "length opt \<le> 12" by (simp add: opt_def ts_options_def bytes32_def)
  have opts: "out_options v st = (st, opt)"
  proof -
    have "sack_options (length opt) (ov_flags v) (ov_len v) ?t = (?t, [])" using d(2) pos by (simp add: sack_options_def)
    then show ?thesis using d(6) by (simp add: out_options_def opt_def)
  qed
  have nc: "needs_copy (glob st) (length opt) (ov_len v)"
  proof -
    let ?r = "96 - int (40 + length opt) - max_linkhdr (glob st)"
    have r: "0 \<le> ?r" "?r \<le> 56" using ol a(10,11) by simp_all
    have m: "unat (t_maxseg ?t) < 2 ^ 16" using unat_u16_bound[of "t_maxseg ?t"] by simp
    have "unat (w32 ?r) = nat ?r" by (rule w32_unat) (use r in simp_all)
    moreover have "unat (w32 (ov_len v)) = unat (t_maxseg ?t)"
      unfolding d(2) w32_of_nat by simp
    ultimately show ?thesis using r a(8) by (simp add: needs_copy_def word_less_nat_alt)
  qed
  define v3 where "v3 = (if w32 (ov_off (v\<lparr>ov_len := 0\<rparr>) + ov_len (v\<lparr>ov_len := 0\<rparr>)) = sb_cc (so_snd ?s)
      then v\<lparr>ov_len := 0, ov_flags := ov_flags (v\<lparr>ov_len := 0\<rparr>) OR TH_PUSH\<rparr> else v\<lparr>ov_len := 0\<rparr>)"
  define v4 where "v4 = v3\<lparr>ov_win := out_win ?s ?t (ov_win v3)\<rparr>"
  have v4: "ov_len v4 = 0" "\<not> ov_rxmit v4" "\<not> hasf TH_SYN (ov_flags v4)" "\<not> hasf TH_FIN (ov_flags v4)"
    using d(4,6,7) by (simp_all add: v4_def v3_def Let_def hasf_def TH_SYN_def TH_FIN_def TH_PUSH_def bit.conj_disj_distrib2 or_eq_0_iff)
  obtain t1 g where h: "out_header ?s ?t v4 opt = (t1, g)" by fastforce
  note H = out_header_sel[OF h]
  have "\<not> ov_off v < 0" using d(5) by simp
  then have run: "out_send v st = Inr (st\<lparr>tp := out_sent v4 (acct_send t1 v4), net_i := net_i st + 1, segs := segs st @ [g]\<rparr>, None)"
  proof -
    have len: "ov_len v \<noteq> 0" using d(2) pos by simp
    have acc: "out_account t1 v4 = Inr (acct_send t1 v4)"
      using a(2) H(2) v4(2) by (simp add: out_account_def same_conn_def)
    show ?thesis
      unfolding out_send_NoCopy[OF a(12) opts \<open>\<not> ov_off v < 0\<close> len nc] v3_def[symmetric] v4_def[symmetric] Let_def
        h prod.case acc sum.case by (rule refl)
  qed
  let ?st' = "st\<lparr>tp := out_sent v4 (acct_send t1 v4), net_i := net_i st + 1, segs := segs st @ [g]\<rparr>"
  have "out_turn idle st = Inr (?st', None)" using d(1,3) run by (simp add: out_turn_def)
  moreover have "starved ?st'"
  proof -
    let ?t' = "out_sent v4 (acct_send t1 v4)"
    have o: "snd_nxt ?t' = snd_nxt (acct_send t1 v4)" "snd_max ?t' = snd_max (acct_send t1 v4)"
      "snd_cwnd ?t' = snd_cwnd (acct_send t1 v4)" "same_conn (acct_send t1 v4) ?t'"
      by (simp_all add: out_sent_sel out_sent_same)
    have s: "same_conn ?t ?t'"
      using same_conn_trans[OF same_conn_trans[OF H(2) acct_send_same(1)[OF v4(3)]] o(4)] .
    have f: "\<not> fin_again ?t v4" using v4(4) by (simp add: fin_again_def)
    have n1: "nxt t1 = nxt ?t" "mx t1 = mx ?t" using H(1,3) f same_conn_off[OF H(2)] by simp_all
    note A = acct_send_off[OF v4(3), of t1]
    have "nxt (acct_send t1 v4) = nxt ?t" "mx (acct_send t1 v4) = mx ?t"
      using A(1,2) v4(1,4) n1 n32 a(4,5) by (simp_all split: if_splits)
    then have "nxt ?t' = nxt ?t" "mx ?t' = mx ?t"
      using same_conn_off(1,2)[OF o(4)] o by simp_all
    moreover have "snd_cwnd ?t' = snd_cwnd ?t" using o(3) acct_send_sel(8)[OF v4(3), of t1] H(5) by simp
    ultimately show ?thesis using s a unfolding starved_def Let_def same_conn_def by simp
  qed
  ultimately show ?thesis by blast
qed

lemma starved_loop:
  assumes "tcp_output_loop idle st = Some r"
  shows "\<not> starved st"
proof (rule tcp_output_loop.raw_induct[of "\<lambda>idle st r. \<not> starved st", OF _ assms])
  fix self :: "bool \<Rightarrow> tcpst \<Rightarrow> (panic + tcpst \<times> int) option" and idle st r
  assume ih: "\<And>idle st r. self idle st = Some r \<Longrightarrow> \<not> starved st"
    and run: "(case out_turn idle st of Inl p \<Rightarrow> Some (Inl p) | Inr (st1, Some e) \<Rightarrow> Some (Inr (st1, e))
        | Inr (st1, None) \<Rightarrow> self idle st1) = Some r"
  show "\<not> starved st"
  proof
    assume "starved st"
    then obtain st' where t: "out_turn idle st = Inr (st', None)" "starved st'" using starved_turn by blast
    then have "self idle st' = Some r" using run by simp
    then show False using ih t(2) by blast
  qed
qed

section \<open>The engine\<close>

lemma ex_conn_ok: "conn_ok (ex_sock 2500) ex_tcb"
proof -
  have "nxt ex_tcb = 0" "mx ex_tcb = 0" by (simp_all add: nxt_def mx_def ex_tcb_def)
  moreover have "cc (ex_sock 2500) = 2500" by (simp add: cc_def ex_sock_def ex_buf_def)
  ultimately show ?thesis
    by (simp add: conn_ok_def seq_ok_def timers_ok_def fin_state_def TCP_MAXRXTSHIFT_def)
      (simp add: ex_tcb_def tcpcb_zero_def tf_def)
qed

lemma ex_st_sel [simp]:
  "tp (ex_st nw n t) = t" "sk (ex_st nw n t) = ex_sock n" "net (ex_st nw n t) = nw" "segs (ex_st nw n t) = []"
  by (simp_all add: ex_st_def)







section \<open>What goes wrong\<close>

text \<open>
  A connection that may send more than a full segment, while header mbufs can be had but the
  copy of the data fails, never leaves tcp_output: each turn sends an empty segment and asks for
  another.\<close>

theorem tcp_output_starves:
  assumes "starved st" "snd_max (tp st) \<noteq> snd_una (tp st) \<or> sint (t_idle (tp st)) < sint (t_rxtcur (tp st))"
  shows "tcp_output st = None"
proof -
  have "tcp_output st = tcp_output_loop (snd_max (tp st) = snd_una (tp st)) st"
    using assms(2) by (auto simp: tcp_output_def Let_def)
  then show ?thesis using starved_loop[of _ st] assms(1) by (metis option.exhaust)
qed

theorem tcp_output_starves_witness:
  "tcp_output (ex_st (\<lambda>_. NoCopy 0) 2500 ex_tcb) = None"
proof -
  have "nxt ex_tcb = 0" "mx ex_tcb = 0" by (simp_all add: nxt_def mx_def ex_tcb_def)
  then have "starved (ex_st (\<lambda>_. NoCopy 0) 2500 ex_tcb)"
    by (simp add: starved_def Let_def) (simp add: ex_defs cc_def tf_def)
  then show ?thesis by (rule tcp_output_starves) (simp add: ex_defs)
qed


lemmas rec_defs = tcp_sack_nextseg_def tcp_sack_rescue_def tcp_sack_pipe_def sack_pipe_loop.simps pipe_mss_def
  tcp_sack_issacked_def tcp_sack_islost_def tcprexmtthresh_def

definition ex_recov :: tcpcb where
  "ex_recov = ex_tcb\<lparr>t_flags := TF_SACK_RECOVER OR TF_SACK_PERMIT, snd_nxt := 4000, snd_max := 4000,
     snd_highrxt := 1000, snd_wnd := 0\<rparr>"


section \<open>Never idle with data queued\<close>

lemma setpersist_runs: "tcp_setpersist t = Inr t' \<Longrightarrow> t_timer t' TCPT_PERSIST \<noteq> 0"
proof -
  assume "tcp_setpersist t = Inr t'"
  then have e: "\<exists>v. t_timer t' TCPT_PERSIST = tcpt_rangeset v TCPTV_PERSMIN TCPTV_PERSMAX"
    by (auto simp: tcp_setpersist_def Let_def split: if_splits)
  then obtain v where v: "t_timer t' TCPT_PERSIST = tcpt_rangeset v TCPTV_PERSMIN TCPTV_PERSMAX" ..
  have "10 \<le> sint (t_timer t' TCPT_PERSIST)"
    unfolding v using rangeset_bounds(1)[of 10 120 v] by (simp add: TCPTV_PERSMIN_def TCPTV_PERSMAX_def)
  then show ?thesis by auto
qed

lemma out_nosend_runs:
  assumes "out_nosend s t = Inr t'" "cc s \<noteq> 0" "t_rxtcur t \<noteq> 0" "tf TF_SACK_RECOVER t \<Longrightarrow> SEQ_LT (snd_una t) (snd_max t)"
  shows "t_timer t' TCPT_REXMT \<noteq> 0 \<or> t_timer t' TCPT_PERSIST \<noteq> 0"
proof (cases "t_timer t TCPT_REXMT = 0 \<and> t_timer t TCPT_PERSIST = 0")
  case True
  have "sb_cc (so_snd s) \<noteq> 0" using assms(2) by (auto simp: cc_def)
  then have "tcp_setpersist (t\<lparr>t_rxtshift := 0\<rparr>) = Inr t' \<or> t' = set_timer TCPT_REXMT (t_rxtcur t) t"
    using assms(1,4) True by (auto simp: out_nosend_def split: if_splits)
  then show ?thesis using setpersist_runs assms(3) by auto
next
  case False
  then have "t' = t" using assms(1) by (auto simp: out_nosend_def)
  then show ?thesis using False by simp
qed

lemma out_send_grows:
  assumes "out_send v st = Inr (st1, r)" "\<And>i. \<exists>e. net st i = Sent e" "\<not> hasf TH_SYN (ov_flags v)"
  shows "length (segs st) < length (segs st1)"
proof -
  obtain e where n: "net st (net_i st) = Sent e" using assms(2) by blast
  obtain t2 o3 where "sack_options (length (ts_options (tcp_now (glob st)) (ov_flags v) (tp st))) (ov_flags v)
      (ov_len v) (tp st) = (t2, o3)" by fastforce
  then obtain opt where o: "out_options v st = (st\<lparr>tp := t2\<rparr>, opt)"
    using assms(3) by (auto simp: out_options_def Let_def)
  show ?thesis
    using assms(1) unfolding out_send_Sent[OF n o]
    by (auto simp: Let_def split: prod.splits sum.splits if_splits(2))
qed

lemma sends_ok_grows: "sends_ok w st st' \<Longrightarrow> length (segs st) \<le> length (segs st')"
  by (auto simp: sends_ok_def)

text \<open>A turn that sends adds a segment, and the turns behind it take none away.\<close>

lemma loop_sent:
  assumes c0: "conn_ok (sk st0) (tp st0)" and "\<forall>i. \<exists>e. net st0 i = Sent e"
    and d: "out_decide (sk st0) idle (tp st0) = (t, v, True)" "send_ok (sk st0) t v"
    and run: "tcp_output_loop idle st0 = Some (Inr (st', e))"
  shows "length (segs st0) < length (segs st')"
proof -
  let ?w = "send_limit (sk st0) (tp st0)"
  have w: "max 1 (unat (snd_wnd (tp st0))) \<le> ?w" "min (cc (sk st0)) (mx (tp st0)) \<le> ?w" by (simp_all add: send_limit_def)
  have nc: "\<And>i e. net st0 i \<noteq> NoCopy e" using assms(2) by (metis netres.distinct(5))
  have syn: "\<not> hasf TH_SYN (ov_flags v)" using d(2) by (simp add: send_ok_def)
  obtain st1 r where t: "out_turn idle st0 = Inr (st1, r)" "sends_ok ?w st0 st1"
    using out_turn_ok[OF c0 nc w] by blast
  have "length (segs st0) < length (segs st1)"
  proof -
    obtain r' where "out_send v (st0\<lparr>tp := t\<rparr>) = Inr (st1, r')"
      using t(1) d(1) by (auto simp: out_turn_def split: sum.splits option.splits prod.splits)
    then show ?thesis using out_send_grows[of v "st0\<lparr>tp := t\<rparr>"] assms(2) syn by auto
  qed
  moreover have "length (segs st1) \<le> length (segs st')"
  proof (cases r)
    case (Some x)
    then have "st' = st1" using run t(1) by (subst (asm) tcp_output_loop.simps) simp
    then show ?thesis by simp
  next
    case None
    have k: "conn_ok (sk st1) (tp st1)" "net st1 = net st0" "snd_wnd (tp st1) = snd_wnd (tp st0)"
      "min (cc (sk st1)) (mx (tp st1)) \<le> ?w"
      using t(2) by (auto simp: sends_ok_def same_conn_def)
    have "tcp_output_loop idle st1 = Some (Inr (st', e))"
      using run t(1) None by (subst (asm) tcp_output_loop.simps) simp
    moreover have "\<exists>st' e. tcp_output_loop idle st1 = Some (Inr (st', e)) \<and> sends_ok ?w st1 st'"
      using tcp_output_loop_ok[of st1 ?w idle] k nc w(1) by auto
    ultimately show ?thesis using sends_ok_grows[of ?w st1 st'] by auto
  qed
  ultimately show ?thesis by simp
qed



text \<open>
  With the window closed and data queued, an owed acknowledgement is sent from tcp_output
  without arming any timer: unlike the path that sends nothing, this one forgets the data until
  something else happens on the connection.\<close>

theorem tcp_output_ack_forgets:
  "\<exists>st' g. tcp_output (ex_st (\<lambda>_. Sent 0) 500 (ex_tcb\<lparr>snd_wnd := 0, t_flags := TF_ACKNOW\<rparr>)) = Some (Inr (st', 0)) \<and>
    segs st' = [g] \<and> sg_len g = 0 \<and> cc (sk st') = 500 \<and> (\<forall>i. t_timer (tp st') i = 0)"
  by (simp add: tcp_output_def, subst tcp_output_loop.simps) (simp add: ex_defs out_defs Let_def cc_def)

end
