(* ===== verification/Tcp_Timer_Correct.thy ===== *)
theory Tcp_Timer_Correct
  imports Tcp_Timer_Inv Tcp_Output_Correct
begin

text \<open>
  The properties of the timers: the slow timer keeps the timer invariant of every connection, a
  connection with a silent peer is dropped in a bounded number of ticks, and the round-trip estimator
  computes Jacobson's estimates without wrapping.
\<close>

section \<open>The slow timer over all connections\<close>

lemma slow_walk_timers:
  assumes "slow_walk sl cs = Some r" "\<forall>c \<in> set cs. timers_ok (tp c)"
  shows "\<exists>cs'. r = Inr cs' \<and> (\<forall>c \<in> set cs'. timers_ok (tp c) \<and> alive c)"
  using assms
proof (induction cs arbitrary: r)
  case (Cons c cs)
  obtain r1 where r1: "slow_one (sl c) c = Some r1" "(case r1 of Inl p \<Rightarrow> Some (Inl p)
      | Inr c1 \<Rightarrow> do { rs \<leftarrow> slow_walk sl cs; Some (map_sum id (\<lambda>cs1. if alive c1 then c1 # cs1 else cs1) rs) }) = Some r"
    using Cons.prems(1) by (auto simp: Option.bind_eq_Some_conv)
  obtain c1 where c1: "r1 = Inr c1" "timers_ok (tp c1)" using slow_one_timers[OF r1(1)] Cons.prems(2) by auto
  then obtain rs where rs: "slow_walk sl cs = Some rs" "r = map_sum id (\<lambda>cs1. if alive c1 then c1 # cs1 else cs1) rs"
    using r1(2) by (auto simp: Option.bind_eq_Some_conv)
  obtain cs' where "rs = Inr cs'" "\<forall>c \<in> set cs'. timers_ok (tp c) \<and> alive c"
    using Cons.IH[OF rs(1)] Cons.prems(2) by auto
  then show ?case using rs(2) c1(2) by auto
qed simp

text \<open>C29: a slow timer tick keeps the timer invariant of every connection in every state: the retransmit
  and the persist timer never both run and the shift indexes the backoff table. So whenever the tick
  returns it returns without the setpersist panic, and the connections it keeps are the live ones.
  A new control block has the invariant.\<close>

theorem tcp_slowtimo_timers:
  assumes "tcp_slowtimo sl cs = Some r" "\<forall>c \<in> set cs. timers_ok (tp c)"
  shows "(\<exists>cs'. r = Inr cs' \<and> (\<forall>c \<in> set cs'. timers_ok (tp c) \<and> alive c)) \<and> timers_ok (tcp_newtcpcb g a b c)"
proof
  have "\<forall>c \<in> set (map (\<lambda>c. c\<lparr>glob := slow_clock (glob c)\<rparr>) cs). timers_ok (tp c)" using assms(2) by simp
  then show "\<exists>cs'. r = Inr cs' \<and> (\<forall>c \<in> set cs'. timers_ok (tp c) \<and> alive c)"
    using slow_walk_timers assms(1) unfolding tcp_slowtimo_def by blast
  show "timers_ok (tcp_newtcpcb g a b c)"
    by (simp add: tcp_newtcpcb_def Let_def timers_ok_def TCP_MAXRXTSHIFT_def tcpcb_zero_def)
qed

section \<open>A silent peer\<close>

text \<open>
  A connection that is retransmitting into an open window.
\<close>

definition retrying :: "tcpst \<Rightarrow> bool" where
  "retrying st \<longleftrightarrow> alive st \<and> conn_ok (sk st) (tp st) \<and> 4 \<le> t_state (tp st) \<and> running (tp st) \<and>
     (\<forall>i e. net st i \<noteq> NoCopy e) \<and> 0 < sint (t_timer (tp st) TCPT_REXMT) \<and>
     sint (t_timer (tp st) TCPT_REXMT) \<le> TCPTV_REXMTMAX \<and> 1 \<le> unat (t_rttmin (tp st)) \<and>
     int (unat (t_rttmin (tp st))) \<le> TCPTV_REXMTMAX"

text \<open>The ticks left: twelve retransmissions of at most \<open>TCPTV_REXMTMAX\<close> ticks each.\<close>

definition ticks_left :: "tcpcb \<Rightarrow> nat" where
  "ticks_left t = nat ((12 - sint (t_rxtshift t)) * 129 + sint (t_timer t TCPT_REXMT))"

lemma retrying_tp:
  assumes "retrying st" "sk st' = sk st" "net st' = net st" "alive st' = alive st"
    and "same_conn (tp st) (tp st')" "t_timer (tp st') TCPT_PERSIST = 0" "0 < sint (t_timer (tp st') TCPT_REXMT)"
    and "sint (t_timer (tp st') TCPT_REXMT) \<le> TCPTV_REXMTMAX" "t_rxtshift (tp st') = t_rxtshift (tp st)"
    and "snd_nxt (tp st') = snd_nxt (tp st)" "snd_max (tp st') = snd_max (tp st)" "snd_cwnd (tp st') = snd_cwnd (tp st)"
    and "snd_highrxt (tp st') = snd_highrxt (tp st)" "tf TF_SENTFIN (tp st') = tf TF_SENTFIN (tp st)"
  shows "retrying st'"
proof -
  have c: "conn_ok (sk st) (tp st)" using assms(1) by (simp add: retrying_def)
  have "timers_ok (tp st')" using conn_okD(10)[OF c] assms(6,9) by (simp add: timers_ok_def)
  then have "conn_ok (sk st) (tp st')" using assms(5,10-14) by (intro conn_ok_timers[OF c]) simp_all
  moreover have "running (tp st')"
    using assms(1,5-7,12) by (auto simp: retrying_def running_def same_conn_def)
  ultimately show ?thesis using assms by (simp add: retrying_def same_conn_def)
qed

lemma tcp_drop_returns:
  assumes "conn_ok (sk st) (tp st)" "4 \<le> t_state (tp st)" "\<And>i e. net st i \<noteq> NoCopy e"
  shows "\<exists>st'. tcp_drop err st = Some (Inr st') \<and> \<not> alive st'"
proof -
  let ?t = "(tp st)\<lparr>t_state := TCPS_CLOSED\<rparr>"
  have "seq_ok (cc (sk st)) ?t"
    using conn_okD(7,8)[OF assms(1)] by (simp add: seq_ok_def nxt_def mx_def fin_state_def TCPS_CLOSED_def)
  moreover have "recover_ok ?t = recover_ok (tp st)" by (rule recover_ok_cong) simp_all
  ultimately have "conn_ok (sk st) ?t"
    using assms(1) by (simp add: conn_ok_def TCPS_CLOSED_def timers_ok_def tf_def)
  then obtain st' e where "tcp_output (st\<lparr>tp := ?t\<rparr>) = Some (Inr (st', e))"
    using tcp_output_ok[of "st\<lparr>tp := ?t\<rparr>"] assms(3) by auto
  then show ?thesis using assms(2) by (simp add: tcp_drop_def TCPS_SYN_RECEIVED_def Let_def)
qed

lemma tf_rexmt:
  "\<not> tf TF_SACK_RECOVER (t\<lparr>t_flags := t_flags t AND NOT (TF_SACK_RECOVER OR TF_SACK_RESCUE)\<rparr>)"
  "tf TF_SENTFIN (t\<lparr>t_flags := t_flags t AND NOT (TF_SACK_RECOVER OR TF_SACK_RESCUE)\<rparr>) = tf TF_SENTFIN t"
proof -
  have f: "(TF_SACK_RECOVER OR TF_SACK_RESCUE) AND TF_SENTFIN = 0"
    by (simp add: TF_SACK_RECOVER_def TF_SACK_RESCUE_def TF_SENTFIN_def)
  show "tf TF_SENTFIN (t\<lparr>t_flags := t_flags t AND NOT (TF_SACK_RECOVER OR TF_SACK_RESCUE)\<rparr>) = tf TF_SENTFIN t"
    by (rule tf_andnot[OF f])
  show "\<not> tf TF_SACK_RECOVER (t\<lparr>t_flags := t_flags t AND NOT (TF_SACK_RECOVER OR TF_SACK_RESCUE)\<rparr>)"
    by (simp add: tf_def bit_eq_iff bit_simps) blast
qed

text \<open>The retransmission itself keeps the connection well-formed and running.\<close>

lemma rexmt_backoff_running:
  assumes "conn_ok (sk st) (tp st)" "t_timer (tp st) TCPT_PERSIST = 0" "t_force (tp st) = 0" "snd_wnd (tp st) \<noteq> 0"
    and "1 \<le> unat (t_rttmin (tp st))" "int (unat (t_rttmin (tp st))) \<le> TCPTV_REXMTMAX"
  defines "t' \<equiv> tp (rexmt_backoff st)"
  shows "conn_ok (sk (rexmt_backoff st)) t'" "running t'" "0 < sint (t_timer t' TCPT_REXMT)"
    "sint (t_timer t' TCPT_REXMT) \<le> TCPTV_REXMTMAX" "t_rxtshift t' = t_rxtshift (tp st)" "t_state t' = t_state (tp st)"
    "t_rttmin t' = t_rttmin (tp st)" "net (rexmt_backoff st) = net st" "alive (rexmt_backoff st) = alive st"
proof -
  define cur where "cur = tcpt_rangeset (TCP_REXMTVAL (tp st) * tcp_backoff ! nat (sint (t_rxtshift (tp st))))
    (int (unat (t_rttmin (tp st)))) TCPTV_REXMTMAX"
  have cur: "1 \<le> sint cur" "sint cur \<le> 128"
  proof -
    have b: "1 \<le> int (unat (t_rttmin (tp st)))" "int (unat (t_rttmin (tp st))) \<le> 128"
      using assms(5,6) by (linarith, simp add: TCPTV_REXMTMAX_def)
    then have p: "- 32768 \<le> int (unat (t_rttmin (tp st)))" by linarith
    note r = rangeset_bounds[of "int (unat (t_rttmin (tp st)))" 128, OF p b(2)]
    show "1 \<le> sint cur" using order_trans[OF b(1) r(1)] unfolding cur_def TCPTV_REXMTMAX_def by simp
    show "sint cur \<le> 128" using r(2) unfolding cur_def TCPTV_REXMTMAX_def by simp
  qed
  have sel: "t_timer t' TCPT_REXMT = cur" "t_timer t' TCPT_PERSIST = 0" "t_force t' = 0" "snd_wnd t' = snd_wnd (tp st)"
    "t_rxtshift t' = t_rxtshift (tp st)" "t_state t' = t_state (tp st)" "t_rttmin t' = t_rttmin (tp st)"
    "snd_cwnd t' = ucast (t_maxseg (tp st))" "snd_nxt t' = snd_una (tp st)" "snd_una t' = snd_una (tp st)"
    "snd_max t' = snd_max (tp st)" "t_maxseg t' = t_maxseg (tp st)"
    using assms(2-4) unfolding t'_def rexmt_backoff_def Let_def cur_def by simp_all
  have fl: "\<not> tf TF_SACK_RECOVER t'" "tf TF_SENTFIN t' = tf TF_SENTFIN (tp st)"
  proof -
    have "t_flags t' = (if tf TF_SACK_RECOVER (tp st)
        then t_flags (tp st) AND NOT (TF_SACK_RECOVER OR TF_SACK_RESCUE) else t_flags (tp st))"
      unfolding t'_def rexmt_backoff_def Let_def by (simp add: tf_def)
    then show "\<not> tf TF_SACK_RECOVER t'" "tf TF_SENTFIN t' = tf TF_SENTFIN (tp st)"
      using tf_rexmt[of "tp st"] by (auto simp: tf_def split: if_splits)
  qed
  show "running t'" using sel cur assms(4) maxseg_u32[OF assms(1)] by (auto simp: running_def)
  show "0 < sint (t_timer t' TCPT_REXMT)" "sint (t_timer t' TCPT_REXMT) \<le> TCPTV_REXMTMAX"
    using cur sel(1) by (simp_all add: TCPTV_REXMTMAX_def)
  have "seq_ok (cc (sk st)) t'"
    using conn_okD(9)[OF assms(1)] sel fl by (auto simp: seq_ok_def nxt_def mx_def fin_state_def)
  moreover have "cc (sk (rexmt_backoff st)) = cc (sk st)"
    by (simp add: rexmt_backoff_def Let_def in_losing_def cc_def)
  moreover have "timers_ok t'" using conn_okD(10)[OF assms(1)] sel by (simp add: timers_ok_def)
  ultimately show "conn_ok (sk (rexmt_backoff st)) t'"
    using assms(1) sel fl maxseg_u32[OF assms(1)] by (simp add: conn_ok_def)
  show "t_rxtshift t' = t_rxtshift (tp st)" "t_state t' = t_state (tp st)" "t_rttmin t' = t_rttmin (tp st)"
    using sel by simp_all
  show "net (rexmt_backoff st) = net st" "alive (rexmt_backoff st) = alive st"
    by (simp_all add: rexmt_backoff_def Let_def)
qed


lemma s16_dec: "0 < sint (w :: s16) \<Longrightarrow> sint (w - 1) = sint w - 1"
  using sint_lt[of w] sint_ge[of w] by (simp add: sint_word_ariths signed_take_bit_int_eq_self)

lemma retry_rexmt:
  assumes "retrying st"
  shows "\<exists>st1. timer_tick TCPT_REXMT st = Some (Inr st1) \<and>
    (alive st1 \<longrightarrow> retrying st1 \<and> ticks_left (tp st1) < ticks_left (tp st))"
proof -
  let ?t = "tp st" and ?v = "t_timer (tp st) TCPT_REXMT"
  note q = assms[unfolded retrying_def running_def]
  have c: "conn_ok (sk st) ?t" using q by blast
  note sh = timers_ok_D(2,3)[OF conn_okD(10)[OF c]]
  have v: "sint (?v - 1) = sint ?v - 1" using q s16_dec by blast
  define st1 where "st1 = st\<lparr>tp := set_timer TCPT_REXMT (?v - 1) ?t\<rparr>"
  have run: "timer_tick TCPT_REXMT st = (if ?v - 1 = 0 then tcp_timers TCPT_REXMT st1 else Some (Inr st1))"
    using q by (auto simp: timer_tick_def Let_def st1_def)
  show ?thesis
  proof (cases "?v - 1 = 0")
    case False
    then have "sint (?v - 1) \<noteq> 0" by (metis sint_0 signed_word_eqI)
    then have p: "0 < sint (?v - 1)" "sint (?v - 1) \<le> TCPTV_REXMTMAX" using v q by linarith+
    have "retrying st1"
      by (rule retrying_tp[OF assms]) (use p q in \<open>simp_all add: st1_def same_conn_def tf_def\<close>)
    moreover have "ticks_left (tp st1) < ticks_left ?t" using v p sh by (simp add: ticks_left_def st1_def)
    ultimately show ?thesis using run False by simp
  next
    case True
    define t1 where "t1 = (set_timer TCPT_REXMT 0 ?t)\<lparr>t_rxtshift := t_rxtshift ?t + 1\<rparr>"
    have inc: "sint (t_rxtshift ?t + 1) = sint (t_rxtshift ?t) + 1" by (rule shift_inc) (use sh in simp_all)
    have sc: "same_conn ?t t1" by (simp add: t1_def same_conn_def tf_def)
    have cd: "conn_ok (sk st) (t1\<lparr>t_rxtshift := w\<rparr>)" if "0 \<le> sint w" "sint w \<le> 12" for w
      by (rule conn_ok_timers[OF c])
        (use that q in \<open>simp_all add: t1_def same_conn_def tf_def timers_ok_def TCP_MAXRXTSHIFT_def\<close>)
    show ?thesis
    proof (cases "sint (t_rxtshift ?t) + 1 > 12")
      case drop: True
      have "\<exists>e. tcp_timers TCPT_REXMT st1 = tcp_drop e (st\<lparr>tp := t1\<lparr>t_rxtshift := word_of_int TCP_MAXRXTSHIFT\<rparr>\<rparr>)"
        using True drop q inc by (auto simp: tcp_timers_def Let_def st1_def t1_def TCP_MAXRXTSHIFT_def)
      moreover have "\<exists>st'. tcp_drop e (st\<lparr>tp := t1\<lparr>t_rxtshift := word_of_int TCP_MAXRXTSHIFT\<rparr>\<rparr>) = Some (Inr st') \<and> \<not> alive st'" for e
        by (rule tcp_drop_returns) (use cd[of 12] q in \<open>simp_all add: TCP_MAXRXTSHIFT_def t1_def\<close>)
      ultimately show ?thesis using run True by fastforce
    next
      case no: False
      define st2 where "st2 = st\<lparr>tp := t1\<rparr>"
      have "t1 = t1\<lparr>t_rxtshift := t_rxtshift ?t + 1\<rparr>" by (simp add: t1_def)
      then have c2: "conn_ok (sk st2) (tp st2)" using cd[of "t_rxtshift ?t + 1"] inc sh no by (simp add: st2_def)
      have r2: "t_timer (tp st2) TCPT_PERSIST = 0" "t_force (tp st2) = 0" "snd_wnd (tp st2) \<noteq> 0"
        "1 \<le> unat (t_rttmin (tp st2))" "int (unat (t_rttmin (tp st2))) \<le> TCPTV_REXMTMAX"
        using q by (simp_all add: st2_def t1_def)
      note B = rexmt_backoff_running[OF c2 r2]
      have run2: "tcp_timers TCPT_REXMT st1 = output_ignored (rexmt_backoff st2)"
        using True no q inc by (auto simp: tcp_timers_def Let_def st1_def st2_def t1_def TCP_MAXRXTSHIFT_def)
      have nc: "net (rexmt_backoff st2) i \<noteq> NoCopy e" for i e using q B(8) by (simp add: st2_def)
      obtain st' e where o: "tcp_output (rexmt_backoff st2) = Some (Inr (st', e))"
        "sends_ok (send_limit (sk (rexmt_backoff st2)) (tp (rexmt_backoff st2))) (rexmt_backoff st2) st'"
        using tcp_output_ok[OF B(1) nc] by blast
      have same: "run_same (tp (rexmt_backoff st2)) (tp st')" by (rule tcp_output_running[OF o(1) B(2,1) nc])
      have cn: "conn_ok (sk st') (tp st')" using o(2) unfolding sends_ok_def by blast
      have s: "net st' = net st" "alive st' = alive st" "t_state (tp st') = t_state ?t"
        "t_rttmin (tp st') = t_rttmin ?t"
        using o(2) B(6-9) by (simp_all add: sends_ok_def same_conn_def st2_def t1_def)
      have tm: "t_timer (tp st') = t_timer (tp (rexmt_backoff st2))" "t_rxtshift (tp st') = t_rxtshift ?t + 1"
        using same B(5) by (simp_all add: run_same_def same_timers_def st2_def t1_def)
      have "running (tp st')" by (rule running_same[OF B(2) same B(1)])
      then have "retrying st'" using cn s tm B(3,4) q by (simp add: retrying_def)
      moreover have "ticks_left (tp st') < ticks_left ?t"
        using B(3,4) tm inc sh no q by (simp add: ticks_left_def TCPTV_REXMTMAX_def)
      ultimately show ?thesis using run True run2 o(1) by (simp add: output_ignored_def)
    qed
  qed
qed

lemma tcp_respond_sel [simp]:
  "sk (tcp_respond a s st) = sk st" "net (tcp_respond a s st) = net st" "alive (tcp_respond a s st) = alive st"
  by (simp_all add: tcp_respond_def Let_def split: netres.split)

lemma retrying_set_timer:
  assumes "retrying st" "i = TCPT_KEEP \<or> i = TCPT_2MSL" "sk st' = sk st" "net st' = net st" "alive st' = alive st"
    and "tp st' = set_timer i v (tp st)"
  shows "retrying st' \<and> ticks_left (tp st') = ticks_left (tp st)"
proof
  have i: "i \<noteq> TCPT_REXMT" "i \<noteq> TCPT_PERSIST" using assms(2) by auto
  show "retrying st'"
    by (rule retrying_tp[OF assms(1,3-5)])
      (use assms(1) i in \<open>simp_all add: assms(6) retrying_def running_def same_conn_def tf_def\<close>)
  show "ticks_left (tp st') = ticks_left (tp st)" using i by (simp add: ticks_left_def assms(6))
qed

lemma retry_others:
  assumes "retrying st" "i \<noteq> TCPT_REXMT"
  shows "\<exists>st1. timer_tick i st = Some (Inr st1) \<and>
    (alive st1 \<longrightarrow> retrying st1 \<and> ticks_left (tp st1) = ticks_left (tp st))"
proof (cases "t_timer (tp st) i = 0")
  case True
  then show ?thesis using assms(1) by (simp add: timer_tick_def)
next
  case False
  then have i: "i = TCPT_KEEP \<or> i = TCPT_2MSL"
    using assms by (cases i) (auto simp: retrying_def running_def)
  define st1 where "st1 = st\<lparr>tp := set_timer i (t_timer (tp st) i - 1) (tp st)\<rparr>"
  have q1: "retrying st1" "ticks_left (tp st1) = ticks_left (tp st)"
    using retrying_set_timer[OF assms(1) i, of st1] by (simp_all add: st1_def)
  have run: "timer_tick i st = (if t_timer (tp st) i - 1 = 0 then tcp_timers i st1 else Some (Inr st1))"
    using False by (simp add: timer_tick_def Let_def st1_def)
  have dead: "\<exists>st'. tcp_drop err st1 = Some (Inr st') \<and> \<not> alive st'" for err
    using q1(1) by (intro tcp_drop_returns) (auto simp: retrying_def)
  have re: "retrying st' \<and> ticks_left (tp st') = ticks_left (tp st)"
    if "sk st' = sk st1" "net st' = net st1" "alive st' = alive st1" "tp st' = set_timer i v (tp st1)" for st' v
    using retrying_set_timer[OF q1(1) i that] q1(2) by simp
  have "\<exists>st2. tcp_timers i st1 = Some (Inr st2) \<and>
    (alive st2 \<longrightarrow> retrying st2 \<and> ticks_left (tp st2) = ticks_left (tp st))"
  proof (cases "i = TCPT_KEEP")
    case True
    have r1: "retrying (st1\<lparr>tp := set_timer i v (tp st1)\<rparr>) \<and>
        ticks_left (tp (st1\<lparr>tp := set_timer i v (tp st1)\<rparr>)) = ticks_left (tp st)" for v
      by (rule re) simp_all
    have r2: "retrying ((tcp_respond a s st1)\<lparr>tp := set_timer i v (tp st1)\<rparr>) \<and>
        ticks_left (tp ((tcp_respond a s st1)\<lparr>tp := set_timer i v (tp st1)\<rparr>)) = ticks_left (tp st)" for v a s
      by (rule re) simp_all
    have e: "4 \<le> t_state (tp st1)" using q1(1) by (simp add: retrying_def)
    show ?thesis
      using dead[of ETIMEDOUT] r1 r2 e True
      by (auto simp: tcp_timers_def Let_def TCPS_ESTABLISHED_def)
  next
    case False
    then have i2: "i = TCPT_2MSL" using i by blast
    have r1: "retrying (st1\<lparr>tp := set_timer i v (tp st1)\<rparr>) \<and>
        ticks_left (tp (st1\<lparr>tp := set_timer i v (tp st1)\<rparr>)) = ticks_left (tp st)" for v
      by (rule re) simp_all
    then show ?thesis unfolding i2 by (auto simp: tcp_timers_def Let_def)
  qed
  then show ?thesis using run q1 by simp
qed

text \<open>The four timers in turn, then the clocks.\<close>

lemma timer_ticks_retry:
  assumes "retrying st" "TCPT_REXMT \<notin> set is"
  shows "\<exists>st1. timer_ticks is st = Some (Inr st1) \<and>
    (alive st1 \<longrightarrow> retrying st1 \<and> ticks_left (tp st1) = ticks_left (tp st))"
  using assms
proof (induction "is" arbitrary: st)
  case (Cons i "is")
  obtain st1 where 1: "timer_tick i st = Some (Inr st1)"
    "alive st1 \<longrightarrow> retrying st1 \<and> ticks_left (tp st1) = ticks_left (tp st)"
    using retry_others[OF Cons.prems(1), of i] Cons.prems(2) by auto
  show ?case
  proof (cases "alive st1")
    case True
    have "TCPT_REXMT \<notin> set is" using Cons.prems(2) by simp
    then obtain st2 where "timer_ticks is st1 = Some (Inr st2)"
      "alive st2 \<longrightarrow> retrying st2 \<and> ticks_left (tp st2) = ticks_left (tp st1)"
      using Cons.IH[of st1] 1(2) True by blast
    then show ?thesis using 1 True by simp
  next
    case False
    then show ?thesis using 1 by simp
  qed
qed simp

lemma slow_one_retry:
  assumes "retrying st"
  shows "\<exists>st1. slow_one sl st = Some (Inr st1) \<and>
    (alive st1 \<longrightarrow> retrying st1 \<and> ticks_left (tp st1) < ticks_left (tp st))"
proof -
  obtain st1 where 1: "timer_tick TCPT_REXMT st = Some (Inr st1)"
    "alive st1 \<longrightarrow> retrying st1 \<and> ticks_left (tp st1) < ticks_left (tp st)"
    using retry_rexmt[OF assms] by blast
  show ?thesis
  proof (cases "alive st1")
    case False
    then show ?thesis using 1(1) by (simp add: slow_one_def)
  next
    case True
    then have q1: "retrying st1" "ticks_left (tp st1) < ticks_left (tp st)" using 1(2) by auto
    obtain st2 where 2: "timer_ticks [TCPT_PERSIST, TCPT_KEEP, TCPT_2MSL] st1 = Some (Inr st2)"
      "alive st2 \<longrightarrow> retrying st2 \<and> ticks_left (tp st2) = ticks_left (tp st1)"
      using timer_ticks_retry[OF q1(1), of "[TCPT_PERSIST, TCPT_KEEP, TCPT_2MSL]"] by auto
    have run: "timer_ticks [TCPT_REXMT, TCPT_PERSIST, TCPT_KEEP, TCPT_2MSL] st = Some (Inr st2)"
      using 1(1) True 2(1) by simp
    show ?thesis
    proof (cases "alive st2")
      case False
      then show ?thesis using run by (simp add: slow_one_def del: timer_ticks.simps)
    next
      case alive: True
      then have q2: "retrying st2" "ticks_left (tp st2) < ticks_left (tp st)" using 2(2) q1(2) by auto
      define t1 where "t1 = (tp st2)\<lparr>t_idle := t_idle (tp st2) + 1,
        t_rtt := (if t_rtt (tp st2) \<noteq> 0 then t_rtt (tp st2) + 1 else 0)\<rparr>"
      define t2 where "t2 = fst (ng_rcvstall_check (tcp_now (glob st2)) sl (so_rcv (sk st2)) t1)"
      have r: "slow_one sl st = Some (Inr (st2\<lparr>tp := t2\<rparr>))"
        using run alive by (simp add: slow_one_def Let_def t1_def t2_def del: timer_ticks.simps)
      have sel: "same_conn (tp st2) t2" "t_timer t2 = t_timer (tp st2)" "t_rxtshift t2 = t_rxtshift (tp st2)"
        "snd_nxt t2 = snd_nxt (tp st2)" "snd_max t2 = snd_max (tp st2)" "snd_cwnd t2 = snd_cwnd (tp st2)"
        "snd_highrxt t2 = snd_highrxt (tp st2)" "tf TF_SENTFIN t2 = tf TF_SENTFIN (tp st2)"
        by (simp_all add: t2_def t1_def ng_rcvstall_check_def same_conn_def tf_def)
      have "retrying (st2\<lparr>tp := t2\<rparr>)"
        by (rule retrying_tp[OF q2(1)]) (use q2(1) sel in \<open>simp_all add: retrying_def running_def\<close>)
      moreover have "ticks_left t2 = ticks_left (tp st2)" using sel(2,3) by (simp add: ticks_left_def)
      ultimately show ?thesis using r q2(2) by simp
    qed
  qed
qed

lemma slow_walk_retry:
  assumes "\<forall>c \<in> set cs. retrying c \<and> ticks_left (tp c) \<le> Suc n"
  shows "\<exists>cs'. slow_walk sl cs = Some (Inr cs') \<and> (\<forall>c \<in> set cs'. retrying c \<and> ticks_left (tp c) \<le> n)"
  using assms
proof (induction cs)
  case (Cons c cs)
  obtain c1 where 1: "slow_one (sl c) c = Some (Inr c1)"
    "alive c1 \<longrightarrow> retrying c1 \<and> ticks_left (tp c1) < ticks_left (tp c)"
    using slow_one_retry[of c "sl c"] Cons.prems by auto
  obtain cs' where "slow_walk sl cs = Some (Inr cs')" "\<forall>c \<in> set cs'. retrying c \<and> ticks_left (tp c) \<le> n"
    using Cons.IH Cons.prems by auto
  then show ?case using 1 Cons.prems by (cases "alive c1") auto
qed simp

lemma ticks_left_pos: "retrying c \<Longrightarrow> 0 < ticks_left (tp c)"
proof -
  assume q: "retrying c"
  then have "sint (t_rxtshift (tp c)) \<le> 12" using conn_okD(10) timers_ok_D(3) unfolding retrying_def by blast
  then show ?thesis using q by (simp add: ticks_left_def retrying_def)
qed

lemma ticks_left_max: "retrying c \<Longrightarrow> ticks_left (tp c) \<le> 1676"
proof -
  assume q: "retrying c"
  then have "0 \<le> sint (t_rxtshift (tp c))" using conn_okD(10) timers_ok_D(2) unfolding retrying_def by blast
  moreover have "sint (t_timer (tp c) TCPT_REXMT) \<le> 128" using q by (simp add: retrying_def TCPTV_REXMTMAX_def)
  ultimately have "(12 - sint (t_rxtshift (tp c))) * 129 + sint (t_timer (tp c) TCPT_REXMT) \<le> 1676"
    by (simp add: algebra_simps)
  then show ?thesis unfolding ticks_left_def by linarith
qed

text \<open>\<open>n\<close> ticks of the slow timer with nothing received in between.\<close>

fun slow_ticks :: "nat \<Rightarrow> (tcpst \<Rightarrow> int) \<Rightarrow> tcpst list \<Rightarrow> (panic + tcpst list) option" where
  "slow_ticks 0 sl cs = Some (Inr cs)"
| "slow_ticks (Suc n) sl cs =
     (case tcp_slowtimo sl cs of Some (Inr cs') \<Rightarrow> slow_ticks n sl cs' | r \<Rightarrow> r)"

lemma slow_ticks_retry:
  assumes "\<forall>c \<in> set cs. retrying c \<and> ticks_left (tp c) \<le> n"
  shows "slow_ticks n sl cs = Some (Inr [])"
  using assms
proof (induction n arbitrary: cs)
  case 0
  have False if "c \<in> set cs" for c
    using 0 that ticks_left_pos[of c] by fastforce
  then have "cs = []" by (cases cs) auto
  then show ?case by simp
next
  case (Suc n)
  have g: "retrying (c\<lparr>glob := g\<rparr>) = retrying c" "ticks_left (tp (c\<lparr>glob := g\<rparr>)) = ticks_left (tp c)" for c g
    by (simp_all add: retrying_def)
  have "\<forall>c \<in> set (map (\<lambda>c. c\<lparr>glob := slow_clock (glob c)\<rparr>) cs). retrying c \<and> ticks_left (tp c) \<le> Suc n"
    using Suc.prems g by auto
  then obtain cs' where "tcp_slowtimo sl cs = Some (Inr cs')" "\<forall>c \<in> set cs'. retrying c \<and> ticks_left (tp c) \<le> n"
    using slow_walk_retry unfolding tcp_slowtimo_def by blast
  then show ?case using Suc.IH by simp
qed

text \<open>C15: no connection waits for ever on a silent peer. Connections that retransmit into an open window
  are all dropped after at most 1676 ticks of the slow timer in which nothing arrives (twelve
  retransmissions of at most 128 ticks each), whatever ip_output answers, so long as data can be
  copied; every one of these ticks returns, without a panic.\<close>

theorem tcp_slowtimo_drops_silent:
  assumes "\<forall>c \<in> set cs. retrying c"
  shows "slow_ticks 1676 sl cs = Some (Inr [])"
  using assms ticks_left_max by (intro slow_ticks_retry) blast

theorem tcp_slowtimo_timers_witness:
  "\<exists>cs'. tcp_slowtimo (\<lambda>_. 0) [ex_st (\<lambda>_. Sent 0) 0 ex_tcb] = Some (Inr cs') \<and> cs' \<noteq> [] \<and> (\<forall>c \<in> set cs'. timers_ok (tp c))"
proof -
  have "\<exists>c. tcp_slowtimo (\<lambda>_. 0) [ex_st (\<lambda>_. Sent 0) 0 ex_tcb] = Some (Inr [c])"
    by (simp add: tcp_slowtimo_def slow_one_def timer_tick_def ex_st_def ex_tcb_def tcpcb_zero_def Let_def)
  then obtain c where c: "tcp_slowtimo (\<lambda>_. 0) [ex_st (\<lambda>_. Sent 0) 0 ex_tcb] = Some (Inr [c])" by blast
  have "\<forall>c \<in> set [ex_st (\<lambda>_. Sent 0) 0 ex_tcb]. timers_ok (tp c)"
    by (simp add: timers_ok_def ex_st_def ex_tcb_def tcpcb_zero_def TCP_MAXRXTSHIFT_def)
  then show ?thesis using tcp_slowtimo_timers[OF c] c by auto
qed

theorem tcp_slowtimo_drops_silent_witness:
  "slow_ticks 1676 (\<lambda>_. 0) [ex_st (\<lambda>_. Sent 0) 500 (ex_tcb\<lparr>snd_nxt := 1500, snd_max := 1500,
     t_timer := (\<lambda>i. if i = TCPT_REXMT then 2 else 0)\<rparr>)] = Some (Inr [])"
proof (rule tcp_slowtimo_drops_silent)
  show "\<forall>c \<in> set [ex_st (\<lambda>_. Sent 0) 500 (ex_tcb\<lparr>snd_nxt := 1500, snd_max := 1500,
     t_timer := (\<lambda>i. if i = TCPT_REXMT then 2 else 0)\<rparr>)]. retrying c"
    by (simp add: retrying_def running_def conn_ok_def seq_ok_def nxt_def mx_def cc_def fin_state_def seq_off_def
        timers_ok_def ex_defs TCP_MAXRXTSHIFT_def TCPTV_REXMTMAX_def tf_def TF_SACK_RECOVER_def)
qed

section \<open>The round-trip estimator\<close>

text \<open>The smoothed estimates in exact arithmetic: \<open>srtt\<close> is scaled by 8, \<open>rttvar\<close> by 4.\<close>

definition jacobson :: "int \<Rightarrow> int \<times> int \<Rightarrow> int \<times> int" where
  "jacobson rtt = (\<lambda>(s, v).
     (if s = 0 then (8 * rtt, 2 * rtt)
      else let d = rtt - 1 - s div 8 in (max 1 (s + d), max 1 (v + (\<bar>d\<bar> - v div 4)))))"

definition est :: "tcpcb \<Rightarrow> int \<times> int" where
  "est t = (sint (t_srtt t), sint (t_rttvar t))"

definition est_ok :: "int \<Rightarrow> int \<times> int \<Rightarrow> bool" where
  "est_ok R = (\<lambda>(s, v). 0 \<le> s \<and> s \<le> 8 * R \<and> 0 \<le> v \<and> v \<le> 4 * R)"

lemma est_step:
  fixes s v rtt R :: int
  assumes "0 \<le> s" "s \<le> 8 * R" "0 \<le> v" "v \<le> 4 * R" "1 \<le> rtt" "rtt \<le> R"
  shows "0 \<le> s + (rtt - 1 - s div 8)" "s + (rtt - 1 - s div 8) \<le> 8 * R" "\<bar>rtt - 1 - s div 8\<bar> \<le> R"
    "0 \<le> v div 4" "v div 4 \<le> R" "v + (\<bar>rtt - 1 - s div 8\<bar> - v div 4) \<le> 4 * R"
proof -
  define q where "q = s div 8"
  have q: "8 * q \<le> s" "s < 8 * q + 8" "0 \<le> q" "q \<le> R" unfolding q_def using assms(1,2) by auto
  have w: "v - v div 4 \<le> 3 * R" "0 \<le> v div 4" "v div 4 \<le> R" using assms(3,4) by auto
  have a: "\<bar>rtt - 1 - q\<bar> \<le> R" using q assms(5,6) by linarith
  show "0 \<le> s + (rtt - 1 - s div 8)" "s + (rtt - 1 - s div 8) \<le> 8 * R"
    unfolding q_def[symmetric] using q assms by linarith+
  show "\<bar>rtt - 1 - s div 8\<bar> \<le> R" "v + (\<bar>rtt - 1 - s div 8\<bar> - v div 4) \<le> 4 * R" "0 \<le> v div 4" "v div 4 \<le> R"
    unfolding q_def[symmetric] using a w by linarith+
qed

lemma jacobson_ok:
  assumes "est_ok R e" "1 \<le> rtt" "rtt \<le> R"
  shows "est_ok R (jacobson rtt e)" "0 < fst (jacobson rtt e)"
proof -
  obtain s v where e: "e = (s, v)" by fastforce
  have b: "0 \<le> s" "s \<le> 8 * R" "0 \<le> v" "v \<le> 4 * R" using assms(1) e by (auto simp: est_ok_def)
  define d where "d = rtt - 1 - s div 8"
  note D = est_step[OF b assms(2,3), folded d_def]
  have m: "1 \<le> max 1 (s + d)" "max 1 (s + d) \<le> 8 * R" "1 \<le> max 1 (v + (\<bar>d\<bar> - v div 4))"
    "max 1 (v + (\<bar>d\<bar> - v div 4)) \<le> 4 * R" using D assms(2,3) by linarith+
  define a where "a = (if s = 0 then 8 * rtt else max 1 (s + d))"
  define c where "c = (if s = 0 then 2 * rtt else max 1 (v + (\<bar>d\<bar> - v div 4)))"
  have j: "jacobson rtt e = (a, c)" by (simp add: e jacobson_def Let_def d_def a_def c_def)
  have a: "1 \<le> a" "a \<le> 8 * R" using m(1,2) assms(2,3) by (auto simp only: a_def split: if_splits)
  have c: "1 \<le> c" "c \<le> 4 * R" using m(3,4) assms(2,3) by (auto simp only: c_def split: if_splits)
  show "est_ok R (jacobson rtt e)" "0 < fst (jacobson rtt e)" using a c by (simp_all add: j est_ok_def)
qed

lemma s16_of_int: "- 32768 \<le> x \<Longrightarrow> x < 32768 \<Longrightarrow> sint (word_of_int x :: s16) = x"
  by (simp add: signed_of_int signed_take_bit_int_eq_self)

lemma s16_add: "- 32768 \<le> sint (x :: s16) + sint y \<Longrightarrow> sint x + sint y < 32768 \<Longrightarrow> sint (x + y) = sint x + sint y"
  by (simp add: sint_word_ariths signed_take_bit_int_eq_self)

lemma s16_minus: "- 32768 \<le> sint (x :: s16) - sint y \<Longrightarrow> sint x - sint y < 32768 \<Longrightarrow> sint (x - y) = sint x - sint y"
  by (simp add: sint_word_ariths signed_take_bit_int_eq_self)

lemma s16_neg: "- 32768 < sint (x :: s16) \<Longrightarrow> sint (- x) = - sint x"
  using sint_lt[of x] sint_ge[of x] by (simp add: sint_word_ariths signed_take_bit_int_eq_self)

lemma s16_push:
  "push_bit 3 (x :: s16) = word_of_int (8 * sint x)" "push_bit 1 (x :: s16) = word_of_int (2 * sint x)"
  by (simp_all add: push_bit_eq_mult)

lemma smooth_exact:
  assumes "- 32768 \<le> sint v + sint d" "sint v + sint d < 32768"
  shows "sint (smooth v d) = max 1 (sint v + sint d)"
  using s16_add[OF assms] by (simp add: smooth_def max_def)

lemma xmit_sel:
  "t_rxtcur (tcp_xmit_timer rtt t) = tcpt_rangeset (TCP_REXMTVAL (tcp_xmit_timer rtt t)) (int (unat (t_rttmin t))) TCPTV_REXMTMAX"
  "t_rxtshift (tcp_xmit_timer rtt t) = 0" "t_rtt (tcp_xmit_timer rtt t) = 0"
  by (simp_all add: tcp_xmit_timer_def Let_def TCP_REXMTVAL_def)

lemma rangeset_exact:
  assumes "- 32768 \<le> v" "v < 32768" "- 32768 \<le> lo" "lo \<le> hi" "hi < 32768"
  shows "sint (tcpt_rangeset v lo hi) = max lo (min hi v)"
  using assms s16_of_int[of v] s16_of_int[of lo] s16_of_int[of hi] by (simp add: tcpt_rangeset_def Let_def)

lemma est_xmit:
  assumes "est_ok R (est t)" "1 \<le> sint rtt" "sint rtt \<le> R" "R \<le> 4095"
  shows "est (tcp_xmit_timer rtt t) = jacobson (sint rtt) (est t)"
proof -
  define s where "s = sint (t_srtt t)"
  define v where "v = sint (t_rttvar t)"
  have b: "0 \<le> s" "s \<le> 8 * R" "0 \<le> v" "v \<le> 4 * R" using assms(1) by (auto simp: est_ok_def est_def s_def v_def)
  show ?thesis
  proof (cases "t_srtt t = 0")
    case True
    have "sint (push_bit 3 rtt) = 8 * sint rtt" "sint (push_bit 1 rtt) = 2 * sint rtt"
      using s16_of_int[of "8 * sint rtt"] s16_of_int[of "2 * sint rtt"] assms(2-4) unfolding s16_push by simp_all
    then show ?thesis using True by (simp add: est_def jacobson_def tcp_xmit_timer_def Let_def)
  next
    case False
    then have s0: "s \<noteq> 0" unfolding s_def by (metis sint_0 signed_word_eqI)
    define d where "d = sint rtt - 1 - s div 8"
    define delta where "delta = (word_of_int d :: s16)"
    define d1 where "d1 = (if sint delta < 0 then - delta else delta)"
    define d2 where "d2 = d1 - word_of_int (v div 4)"
    note D = est_step[OF b assms(2,3), folded d_def]
    have db: "- 4095 \<le> d" "d \<le> 4095" "- 32768 \<le> s + d" "s + d < 32768" using D assms(4) by linarith+
    have delta: "sint delta = d" unfolding delta_def using db by (intro s16_of_int) linarith+
    have d1: "sint d1 = \<bar>d\<bar>" using s16_neg[of delta] delta db by (auto simp: d1_def)
    have w4: "sint (word_of_int (v div 4) :: s16) = v div 4" using D assms(4) by (intro s16_of_int) linarith+
    have d2: "sint d2 = \<bar>d\<bar> - v div 4"
      using s16_minus[of d1 "word_of_int (v div 4)"] d1 w4 D assms(4) unfolding d2_def by linarith
    have r: "t_srtt (tcp_xmit_timer rtt t) = smooth (t_srtt t) delta" "t_rttvar (tcp_xmit_timer rtt t) = smooth (t_rttvar t) d2"
      using False by (simp_all add: tcp_xmit_timer_def Let_def delta_def d1_def d2_def d_def s_def v_def)
    have "sint (smooth (t_srtt t) delta) = max 1 (s + d)"
      using smooth_exact[of "t_srtt t" delta] delta db unfolding s_def[symmetric] by linarith
    moreover have "sint (smooth (t_rttvar t) d2) = max 1 (v + (\<bar>d\<bar> - v div 4))"
      using smooth_exact[of "t_rttvar t" d2] d2 D b assms(4) unfolding v_def[symmetric] by linarith
    ultimately show ?thesis
      using r s0 by (simp add: est_def jacobson_def Let_def s_def[symmetric] v_def[symmetric] d_def[symmetric])
  qed
qed

text \<open>C30: for round-trip samples of 1 to R ticks (R at most 4095, 34 minutes) the 16-bit arithmetic of
  tcp_xmit_timer never wraps: it computes exactly Jacobson's smoothed time and deviation, keeps them
  within 8R and 4R, leaves a non-zero smoothed time, and sets the retransmission timeout to exactly
  srtt/8 + rttvar clamped between the connection's minimum and 64 seconds.\<close>

theorem tcp_xmit_timer_exact:
  assumes "est_ok R (est t)" "1 \<le> sint rtt" "sint rtt \<le> R" "R \<le> 4095" "int (unat (t_rttmin t)) \<le> TCPTV_REXMTMAX"
  shows "case est (tcp_xmit_timer rtt t) of (s, v) \<Rightarrow>
    (s, v) = jacobson (sint rtt) (est t) \<and> est_ok R (s, v) \<and> 0 < s \<and>
    sint (t_rxtcur (tcp_xmit_timer rtt t)) = max (int (unat (t_rttmin t))) (min TCPTV_REXMTMAX (s div 8 + v))"
proof -
  obtain s v where e: "est (tcp_xmit_timer rtt t) = (s, v)" by fastforce
  have j: "(s, v) = jacobson (sint rtt) (est t)" using est_xmit[OF assms(1-4)] e by simp
  have ok: "est_ok R (s, v)" "0 < s" using jacobson_ok[OF assms(1-3)] j[symmetric] by simp_all
  have "TCP_REXMTVAL (tcp_xmit_timer rtt t) = s div 8 + v" using e by (auto simp: TCP_REXMTVAL_def est_def)
  moreover have "0 \<le> s div 8 + v" "s div 8 + v < 32768" using ok assms(4) by (auto simp: est_ok_def)
  moreover have p: "- 32768 \<le> int (unat (t_rttmin t))" by linarith
  ultimately have "sint (t_rxtcur (tcp_xmit_timer rtt t)) = max (int (unat (t_rttmin t))) (min TCPTV_REXMTMAX (s div 8 + v))"
    unfolding xmit_sel(1) using p assms(5) rangeset_exact[of "s div 8 + v" "int (unat (t_rttmin t))" TCPTV_REXMTMAX]
    by (simp add: TCPTV_REXMTMAX_def)
  then show ?thesis unfolding e prod.case using j ok by blast
qed

theorem tcp_xmit_timer_exact_witness:
  "est (tcp_xmit_timer 5 (tcpcb_zero\<lparr>t_srtt := 16, t_rttvar := 4, t_rttmin := 2\<rparr>)) = (18, 5) \<and>
   sint (t_rxtcur (tcp_xmit_timer 5 (tcpcb_zero\<lparr>t_srtt := 16, t_rttvar := 4, t_rttmin := 2\<rparr>))) = 7"
proof -
  have e: "est (tcpcb_zero\<lparr>t_srtt := 16, t_rttvar := 4, t_rttmin := 2\<rparr>) = (16, 4)" by (simp add: est_def)
  have j: "jacobson 5 (16, 4) = (18, 5)" by (simp add: jacobson_def Let_def)
  show ?thesis
    using tcp_xmit_timer_exact[of 100 "tcpcb_zero\<lparr>t_srtt := 16, t_rttvar := 4, t_rttmin := 2\<rparr>" 5]
    by (simp add: e j est_ok_def TCPTV_REXMTMAX_def split: prod.splits)
qed

end
