(* ===== verification/Tcp_Frame.thy ===== *)
theory Tcp_Frame
  imports Tcp_Timer_Correct
begin

text \<open>
  What \<open>tcp_output\<close> leaves alone, in any state of a connection: everything that belongs to the
  receiver, the state, and the acknowledged sequence number and window of the sender.
\<close>

definition stable_flags :: u16 where
  "stable_flags = NOT (TF_ACKNOW OR TF_DELACK OR TF_SENTFIN OR TF_DSACK OR TF_SACK_RESCUE)"

lemma stable_masks [simp]:
  "(w OR TF_SENTFIN) AND stable_flags = w AND stable_flags"
  "(w OR TF_SACK_RESCUE) AND stable_flags = w AND stable_flags"
  "(w OR TF_ACKNOW) AND stable_flags = w AND stable_flags"
  "(w OR TF_DELACK) AND stable_flags = w AND stable_flags"
  "(w AND NOT TF_DSACK) AND stable_flags = w AND stable_flags"
  "(w AND (NOT TF_ACKNOW AND NOT TF_DELACK)) AND stable_flags = w AND stable_flags"
  "(w AND NOT TF_DELACK) AND stable_flags = w AND stable_flags"
  by (auto simp: stable_flags_def bit_eq_iff bit_simps)

definition frame :: "tcpcb \<Rightarrow> tcpcb \<Rightarrow> bool" where
  "frame t t' \<longleftrightarrow> t_state t' = t_state t \<and> snd_una t' = snd_una t \<and> snd_wnd t' = snd_wnd t \<and>
     snd_wl1 t' = snd_wl1 t \<and> snd_wl2 t' = snd_wl2 t \<and> rcv_nxt t' = rcv_nxt t \<and> rcv_wnd t' = rcv_wnd t \<and>
     rcv_up t' = rcv_up t \<and> irs t' = irs t \<and> iss t' = iss t \<and> t_dupacks t' = t_dupacks t \<and>
     sackblks t' = sackblks t \<and> snd_sackblks t' = snd_sackblks t \<and> snd_recover t' = snd_recover t \<and>
     ts_recent t' = ts_recent t \<and> ts_recent_age t' = ts_recent_age t \<and>
     t_flags t' AND stable_flags = t_flags t AND stable_flags"

lemma frame_refl [simp]: "frame t t"
  by (simp add: frame_def)

lemma frame_upd [simp]:
  "frame t (t1\<lparr>t_timer := x0\<rparr>) = frame t t1"
  "frame t (t1\<lparr>t_rxtshift := x1\<rparr>) = frame t t1"
  "frame t (t1\<lparr>t_rxtcur := x2\<rparr>) = frame t t1"
  "frame t (t1\<lparr>t_maxseg := x3\<rparr>) = frame t t1"
  "frame t (t1\<lparr>t_force := x4\<rparr>) = frame t t1"
  "frame t (t1\<lparr>snd_nxt := x5\<rparr>) = frame t t1"
  "frame t (t1\<lparr>snd_up := x6\<rparr>) = frame t t1"
  "frame t (t1\<lparr>rcv_adv := x7\<rparr>) = frame t t1"
  "frame t (t1\<lparr>snd_max := x8\<rparr>) = frame t t1"
  "frame t (t1\<lparr>snd_cwnd := x9\<rparr>) = frame t t1"
  "frame t (t1\<lparr>snd_ssthresh := x10\<rparr>) = frame t t1"
  "frame t (t1\<lparr>t_idle := x11\<rparr>) = frame t t1"
  "frame t (t1\<lparr>t_rtt := x12\<rparr>) = frame t t1"
  "frame t (t1\<lparr>t_rtseq := x13\<rparr>) = frame t t1"
  "frame t (t1\<lparr>t_srtt := x14\<rparr>) = frame t t1"
  "frame t (t1\<lparr>t_rttvar := x15\<rparr>) = frame t t1"
  "frame t (t1\<lparr>t_rttmin := x16\<rparr>) = frame t t1"
  "frame t (t1\<lparr>max_sndwnd := x17\<rparr>) = frame t t1"
  "frame t (t1\<lparr>t_softerror := x18\<rparr>) = frame t t1"
  "frame t (t1\<lparr>request_r_scale := x19\<rparr>) = frame t t1"
  "frame t (t1\<lparr>rcv_dsackblk := x20\<rparr>) = frame t t1"
  "frame t (t1\<lparr>snd_highrxt := x21\<rparr>) = frame t t1"
  "frame t (t1\<lparr>prr_delivered := x22\<rparr>) = frame t t1"
  "frame t (t1\<lparr>prr_out := x23\<rparr>) = frame t t1"
  "frame t (t1\<lparr>prr_recoverfs := x24\<rparr>) = frame t t1"
  "frame t (t1\<lparr>last_ack_sent := x25\<rparr>) = frame t t1"
  "frame t (set_timer i v t1) = frame t t1"
  by (simp_all add: frame_def set_timer_def)

lemma frame_flags [simp]:
  "f AND stable_flags = t_flags t1 AND stable_flags \<Longrightarrow> frame t (t1\<lparr>t_flags := f\<rparr>) = frame t t1"
  by (simp add: frame_def)

lemma frame_trans: "frame t t1 \<Longrightarrow> frame t1 t2 \<Longrightarrow> frame t t2"
  by (simp add: frame_def)

lemma frame_flag:
  assumes "frame t t'" "f AND stable_flags = f"
  shows "tf f t' = tf f t"
proof -
  have "w AND f = (w AND stable_flags) AND f" for w :: u16 using assms(2) by (metis and.assoc and.commute)
  then show ?thesis using assms(1) unfolding tf_def frame_def by metis
qed

definition sframe :: "tcpst \<Rightarrow> tcpst \<Rightarrow> bool" where
  "sframe st st' \<longleftrightarrow> frame (tp st) (tp st') \<and> alive st' = alive st \<and> glob st' = glob st \<and>
     sb_cc (so_rcv (sk st')) = sb_cc (so_rcv (sk st)) \<and> sb_mbcnt (so_rcv (sk st')) = sb_mbcnt (so_rcv (sk st)) \<and>
     sb_cc (so_snd (sk st')) = sb_cc (so_snd (sk st)) \<and> so_error (sk st') = so_error (sk st) \<and>
     (TCPS_ESTABLISHED \<le> t_state (tp st) \<longrightarrow> sk st' = sk st)"

lemma sframe_refl [simp]: "sframe st st"
  by (simp add: sframe_def)

lemma sframe_trans: "sframe st st1 \<Longrightarrow> sframe st1 st2 \<Longrightarrow> sframe st st2"
  by (simp add: sframe_def frame_def)

lemma sframe_tp: "sframe st (st\<lparr>tp := t\<rparr>) \<longleftrightarrow> frame (tp st) t"
  by (simp add: sframe_def)

section \<open>The steps of the send engine\<close>

lemma setpersist_frame: "tcp_setpersist t1 = Inr t' \<Longrightarrow> frame t t' = frame t t1"
  by (auto simp: tcp_setpersist_def Let_def split: if_splits)

lemma out_plan_frame: "frame t (fst (out_plan s t))"
  by (simp add: out_plan_def Let_def split_def)

lemma out_rules_frame: "frame t (fst (out_rules s p t v))"
  by (simp add: out_rules_def Let_def split_def split: option.split)

lemma out_recover_frame: "frame t (fst (out_recover s t v))"
  using out_rules_frame by (auto simp: out_recover_def Let_def split_def)

lemma out_decide_frame: "frame t (fst (out_decide s idle t))"
proof -
  obtain t1 v1 where p: "out_plan s t = (t1, v1)" by fastforce
  obtain t2 v2 where r: "out_recover s t1 v1 = (t2, v2)" by fastforce
  have "frame t t1" "frame t1 t2" using out_plan_frame[of t s] out_recover_frame[of t1 s v1] p r by simp_all
  then have "frame t t2" by (rule frame_trans)
  then show ?thesis by (simp add: out_decide_def p r Let_def)
qed

lemma out_nosend_frame: "out_nosend s t = Inr t' \<Longrightarrow> frame t t'"
  by (auto simp: out_nosend_def setpersist_frame split: if_splits)

lemma frame_if: "frame t (if c then a else b) \<longleftrightarrow> (c \<longrightarrow> frame t a) \<and> (\<not> c \<longrightarrow> frame t b)"
  by simp

lemma mss_rtt_frame [simp]: "frame t (mss_rtt rt t)"
  unfolding mss_rtt_def Let_def by (simp only: frame_if frame_upd frame_refl simp_thms)

lemma sbreserve_sel:
  "sb_cc (fst (sbreserve m l n sb)) = sb_cc sb" "sb_mbcnt (fst (sbreserve m l n sb)) = sb_mbcnt sb"
  by (simp_all add: sbreserve_def Let_def)

lemma mss_bufs_frame:
  "sb_cc (so_rcv (fst (mss_bufs g rt m s))) = sb_cc (so_rcv s)"
  "sb_mbcnt (so_rcv (fst (mss_bufs g rt m s))) = sb_mbcnt (so_rcv s)"
  "sb_cc (so_snd (fst (mss_bufs g rt m s))) = sb_cc (so_snd s)" "so_error (fst (mss_bufs g rt m s)) = so_error s"
  by (simp_all add: mss_bufs_def sbreserve_sel Let_def)

lemma tcp_mss_frame: "frame (tp st) (tp (fst (tcp_mss x st)))"
  by (simp add: tcp_mss_def Let_def split_def split: option.split)

lemma tcp_mss_sk:
  "alive (fst (tcp_mss x st)) = alive st" "glob (fst (tcp_mss x st)) = glob st"
  "sb_cc (so_rcv (sk (fst (tcp_mss x st)))) = sb_cc (so_rcv (sk st))"
  "sb_mbcnt (so_rcv (sk (fst (tcp_mss x st)))) = sb_mbcnt (so_rcv (sk st))"
  "sb_cc (so_snd (sk (fst (tcp_mss x st)))) = sb_cc (so_snd (sk st))"
  "so_error (sk (fst (tcp_mss x st))) = so_error (sk st)"
  by (simp_all add: tcp_mss_def mss_bufs_frame Let_def split_def split: option.split)

lemma syn_options_frame: "frame t (fst (syn_options s f m t))"
  by (simp add: syn_options_def Let_def)

lemma sack_options_frame: "frame t (fst (sack_options n f l t))"
  by (simp add: sack_options_def Let_def)

lemma out_options_frame:
  "frame (tp st) (tp (fst (out_options v st)))" "alive (fst (out_options v st)) = alive st"
  "glob (fst (out_options v st)) = glob st"
  "sb_cc (so_rcv (sk (fst (out_options v st)))) = sb_cc (so_rcv (sk st))"
  "sb_mbcnt (so_rcv (sk (fst (out_options v st)))) = sb_mbcnt (so_rcv (sk st))"
  "sb_cc (so_snd (sk (fst (out_options v st)))) = sb_cc (so_snd (sk st))"
  "so_error (sk (fst (out_options v st))) = so_error (sk st)"
  "\<not> hasf TH_SYN (ov_flags v) \<Longrightarrow> sk (fst (out_options v st)) = sk st"
proof -
  show "frame (tp st) (tp (fst (out_options v st)))"
    using frame_trans[OF frame_trans[OF tcp_mss_frame syn_options_frame] sack_options_frame] sack_options_frame
    by (simp add: out_options_def Let_def split_def)
qed (simp_all add: out_options_def Let_def split_def tcp_mss_sk)

lemma out_header_frame: "frame t (fst (out_header s t v opt))"
  by (simp add: out_header_def Let_def)

lemma out_account_frame: "out_account t v = Inr t' \<Longrightarrow> frame t t'"
  by (auto simp: out_account_def acct_hole_def acct_send_def acct_probe_def Let_def setpersist_frame split: if_splits)

lemma out_error_frame: "frame t (fst (out_error e s t))"
  by (simp add: out_error_def Let_def tcp_quench_def)

lemma out_sent_frame: "frame t (out_sent v t)"
  by (simp add: out_sent_def Let_def)

section \<open>The send engine\<close>

lemma out_send_frame:
  assumes "out_send v st = Inr (st', r)" "TCPS_ESTABLISHED \<le> t_state (tp st) \<longrightarrow> \<not> hasf TH_SYN (ov_flags v)"
  shows "sframe st st'"
proof -
  obtain st0 opt where o: "out_options v st = (st0, opt)" by fastforce
  have f0: "sframe st st0" using out_options_frame[where st=st and v=v] assms(2) o by (simp add: sframe_def)
  have f: "frame (tp st) (tp st0)" using f0 by (simp add: sframe_def)
  have body: "frame (tp st) (tp st') \<and> sk st' = sk st0 \<and> alive st' = alive st0 \<and> glob st' = glob st0"
    if "(case out_header (sk st0) (tp st0) v4 opt of (t1, seg) \<Rightarrow>
      (case out_account t1 v4 of Inl p \<Rightarrow> Inl p
       | Inr t2 \<Rightarrow> (let st2 = (st0\<lparr>net_i := net_i st0 + 1\<rparr>)\<lparr>tp := t2, segs := segs (st0\<lparr>net_i := net_i st0 + 1\<rparr>) @ [seg]\<rparr> in
            if err \<noteq> 0 then (case out_error err (sk st2) t2 of (t3, e) \<Rightarrow> Inr (st2\<lparr>tp := t3\<rparr>, Some e))
            else Inr (st2\<lparr>tp := out_sent v4 t2\<rparr>, None)))) = Inr (st', r)" for v4 err
  proof -
    note hyp = that
    obtain t3 g where h: "out_header (sk st0) (tp st0) v4 opt = (t3, g)" by fastforce
    then obtain t4 where a: "out_account t3 v4 = Inr t4" using hyp by (cases "out_account t3 v4") auto
    obtain t5 e where x: "out_error err (sk st0) t4 = (t5, e)" by fastforce
    have "frame (tp st0) t3" using out_header_frame[of "tp st0" "sk st0" v4 opt] h by simp
    then have f4: "frame (tp st) t4" by (rule frame_trans[OF frame_trans[OF f] out_account_frame[OF a]])
    have "frame (tp st) t5" using frame_trans[OF f4 out_error_frame[of t4 err "sk st0"]] x by simp
    moreover have "frame (tp st) (out_sent v4 t4)" by (rule frame_trans[OF f4 out_sent_frame])
    ultimately show ?thesis using hyp h a x by (cases "err = 0") auto
  qed
  have k: "tp (st0\<lparr>net_i := i\<rparr>) = tp st0" "sk (st0\<lparr>net_i := i\<rparr>) = sk st0" for i by simp_all
  have "frame (tp st) (tp st') \<and> sk st' = sk st0 \<and> alive st' = alive st0 \<and> glob st' = glob st0"
  proof (cases "net st0 (net_i st0)")
    case NoHdr
    obtain t e where x: "out_error ENOBUFS (sk st0) (tp st0) = (t, e)" by fastforce
    have "frame (tp st0) t" using out_error_frame[of "tp st0" ENOBUFS "sk st0"] x by simp
    then have "frame (tp st) t" by (rule frame_trans[OF f])
    then show ?thesis using assms(1) NoHdr x by (auto simp: out_send_def o Let_def)
  next
    case (NoCopy e)
    show ?thesis using assms(1)
      unfolding out_send_def o prod.case Let_def NoCopy netres.case k by (rule body[unfolded Let_def])
  next
    case (Sent e)
    show ?thesis using assms(1)
      unfolding out_send_def o prod.case Let_def Sent netres.case k by (rule body[unfolded Let_def])
  qed
  then show ?thesis using f0 by (simp add: sframe_def)
qed


lemma hasf_syn_out: 
  assumes "hasf TH_SYN (tcp_outflags ! n)" "n \<le> 10"
  shows "n = 2 \<or> n = 3"
proof -
  have "n = 0 \<or> n = 1 \<or> n = 2 \<or> n = 3 \<or> n = 4 \<or> n = 5 \<or> n = 6 \<or> n = 7 \<or> n = 8 \<or> n = 9 \<or> n = 10" using assms(2) by arith
  then show ?thesis using assms(1)
    by (elim disjE) (simp_all add: tcp_outflags_def hasf_def TH_SYN_def TH_FIN_def TH_ACK_def TH_RST_def)
qed

lemma out_plan_flags: "ov_flags (snd (out_plan s t)) = tcp_outflags ! t_state t"
  by (simp add: out_plan_def Let_def split_def)

lemma out_rules_flags: "ov_flags (snd (out_rules s p t v)) = ov_flags v"
  by (simp add: out_rules_def out_hole_def Let_def split_def split: option.split)

lemma out_probe_flags: "ov_flags (out_probe s t v) = ov_flags v"
  by (simp add: out_probe_def Let_def)

lemma out_recover_flags: "ov_flags (snd (out_recover s t v)) = ov_flags v"
  by (simp add: out_recover_def Let_def split_def out_rules_flags out_probe_flags)

lemma out_decide_syn:
  assumes "hasf TH_SYN (ov_flags (fst (snd (out_decide s idle t))))"
  shows "hasf TH_SYN (tcp_outflags ! t_state t)"
proof -
  obtain t1 v1 where p: "out_plan s t = (t1, v1)" by fastforce
  obtain t2 v2 where r: "out_recover s t1 v1 = (t2, v2)" by fastforce
  have f: "ov_flags v2 = tcp_outflags ! t_state t"
    using out_plan_flags[of s t] out_recover_flags[of s t1 v1] p r by simp
  have n: "hasf TH_SYN (ov_flags (out_nofin s u fr w)) \<Longrightarrow> hasf TH_SYN (ov_flags w)" for u fr w
    using hasf_andnot[of TH_SYN "ov_flags w" TH_FIN] by (auto simp: out_nofin_def split: if_splits)
  have "\<exists>u fr w. ov_flags w = ov_flags v2 \<and> ov_flags (fst (snd (out_decide s idle t))) = ov_flags (out_nofin s u fr w)"
  proof (cases "tf TF_SACK_RECOVER t1 \<and> ov_len v2 > 0")
    case True
    then show ?thesis
      by (intro exI[of _ t2] exI[of _ "if ov_rxmit v2 then ov_rseq v2 else snd_nxt t2"]
          exI[of _ "v2\<lparr>ov_win := sbspace (so_rcv s)\<rparr>"]) (simp add: out_decide_def p r Let_def)
  next
    case False
    then show ?thesis
      by (intro exI[of _ t2] exI[of _ "snd_nxt t2"] exI[of _ v2]) (auto simp: out_decide_def p r Let_def)
  qed
  then show ?thesis using n assms f by metis
qed

lemma out_turn_frame:
  assumes "out_turn idle st = Inr (st', r)" "t_state (tp st) \<le> 10"
  shows "sframe st st'"
proof -
  obtain t v snd where d: "out_decide (sk st) idle (tp st) = (t, v, snd)" by (metis prod_cases3)
  have t: "frame (tp st) t" using out_decide_frame[of "tp st" "sk st" idle] d by simp
  have s0: "sframe st (st\<lparr>tp := t\<rparr>)" using t by (simp add: sframe_tp)
  show ?thesis
  proof (cases snd)
    case True
    obtain st1 r1 where o: "out_send v (st\<lparr>tp := t\<rparr>) = Inr (st1, r1)"
      using assms(1) True d by (cases "out_send v (st\<lparr>tp := t\<rparr>)") (auto simp: out_turn_def)
    have e: "t_state t = t_state (tp st)" using t by (simp add: frame_def)
    have "TCPS_ESTABLISHED \<le> t_state (tp (st\<lparr>tp := t\<rparr>)) \<longrightarrow> \<not> hasf TH_SYN (ov_flags v)"
      using out_decide_syn[of "sk st" idle "tp st"] hasf_syn_out[OF _ assms(2)] d e by (auto simp: TCPS_ESTABLISHED_def)
    then have "sframe st st1" by (rule sframe_trans[OF s0 out_send_frame[OF o]])
    moreover have "st' = st1" using assms(1) True d o by (cases r1) (auto simp: out_turn_def)
    ultimately show ?thesis by simp
  next
    case False
    then obtain t1 where "out_nosend (sk st) t = Inr t1" "st' = st\<lparr>tp := t1\<rparr>"
      using assms(1) d by (cases "out_nosend (sk st) t") (auto simp: out_turn_def)
    then show ?thesis using frame_trans[OF t out_nosend_frame] by (simp add: sframe_tp)
  qed
qed

lemma tcp_output_loop_frame:
  assumes "tcp_output_loop idle st = Some r"
  shows "t_state (tp st) \<le> 10 \<longrightarrow> (\<forall>st' e. r = Inr (st', e) \<longrightarrow> sframe st st')"
proof (rule tcp_output_loop.raw_induct[of "\<lambda>idle st r. t_state (tp st) \<le> 10 \<longrightarrow> (\<forall>st' e. r = Inr (st', e) \<longrightarrow> sframe st st')",
      OF _ assms])
  fix self :: "bool \<Rightarrow> tcpst \<Rightarrow> (panic + tcpst \<times> int) option" and idle st r
  assume ih: "\<And>idle st r. self idle st = Some r \<Longrightarrow>
      t_state (tp st) \<le> 10 \<longrightarrow> (\<forall>st' e. r = Inr (st', e) \<longrightarrow> sframe st st')"
    and run: "(case out_turn idle st of Inl p \<Rightarrow> Some (Inl p) | Inr (st1, Some e) \<Rightarrow> Some (Inr (st1, e))
        | Inr (st1, None) \<Rightarrow> self idle st1) = Some r"
  show "t_state (tp st) \<le> 10 \<longrightarrow> (\<forall>st' e. r = Inr (st', e) \<longrightarrow> sframe st st')"
  proof (intro impI allI)
    fix st' e
    assume st: "t_state (tp st) \<le> 10" and r: "r = Inr (st', e)"
    then obtain st1 r1 where t: "out_turn idle st = Inr (st1, r1)" using run by (cases "out_turn idle st") auto
    have f: "sframe st st1" by (rule out_turn_frame[OF t st])
    have st1: "t_state (tp st1) \<le> 10" using f st by (simp add: sframe_def frame_def)
    show "sframe st st'"
    proof (cases r1)
      case None
      then have "sframe st1 st'" using ih[of idle st1 r] run t r st1 by simp
      then show ?thesis by (rule sframe_trans[OF f])
    next
      case (Some e1)
      then show ?thesis using run t r f by simp
    qed
  qed
qed

lemma tcp_output_frame:
  assumes "tcp_output st = Some (Inr (st', e))" "t_state (tp st) \<le> 10"
  shows "sframe st st'"
proof -
  let ?t1 = "if snd_max (tp st) = snd_una (tp st) \<and> sint (t_idle (tp st)) \<ge> sint (t_rxtcur (tp st))
    then (tp st)\<lparr>snd_cwnd := ucast (t_maxseg (tp st))\<rparr> else tp st"
  have f: "sframe st (st\<lparr>tp := ?t1\<rparr>)" by (simp add: sframe_tp)
  have "sframe (st\<lparr>tp := ?t1\<rparr>) st'"
    using tcp_output_loop_frame[of _ "st\<lparr>tp := ?t1\<rparr>" "Inr (st', e)"] assms unfolding tcp_output_def Let_def by simp
  then show ?thesis by (rule sframe_trans[OF f])
qed

end
