(* ===== verification/Tcp_Reass_Correct.thy ===== *)
theory Tcp_Reass_Correct
  imports Tcp_Reass Sockbuf_Correct Tcp_Timer_Correct
begin

text \<open>
  Correctness of reassembly: when every segment carries its part of one stream of the peer, the
  socket buffer gets exactly the stream, in order, up to the first byte that is missing; the queue
  stays sorted and without overlaps, and holds every byte beyond, unless the limit refuses it.
\<close>

section \<open>Positions in the stream\<close>

text \<open>The sequence number of position \<open>p\<close> of the stream is \<open>b + p\<close>.\<close>

lemma seq_diff:
  fixes b :: u32
  assumes "x < y + 2 ^ 31" "y < x + 2 ^ 31"
  shows "sint (b + of_nat x - (b + of_nat y)) = int x - int y"
proof -
  have "b + of_nat x - (b + of_nat y) = of_nat x - of_nat y" by simp
  also have "\<dots> = word_of_int (int x - int y)" by (metis of_int_diff of_int_of_nat_eq)
  finally show ?thesis using assms by (simp only: signed_of_int) (simp add: signed_take_bit_int_eq_self)
qed

lemma seq_gt:
  fixes b :: u32
  assumes "x < y + 2 ^ 31" "y < x + 2 ^ 31"
  shows "SEQ_GT (b + of_nat x) (b + of_nat y) \<longleftrightarrow> y < x"
  using seq_diff[OF assms, of b] by (simp add: SEQ_GT_def)

lemma seq_eq:
  fixes b :: u32
  assumes "x < y + 2 ^ 31" "y < x + 2 ^ 31" "b + of_nat x = b + of_nat y"
  shows "x = y"
  using seq_diff[OF assms(1,2), of b] assms(3) by simp

definition slen :: "tseg \<Rightarrow> nat" where
  "slen ti = length (vbytes (ti_m ti))"

definition seg_at :: "(nat \<Rightarrow> u8) \<Rightarrow> u32 \<Rightarrow> nat \<Rightarrow> tseg \<Rightarrow> bool" where
  "seg_at strm b p ti \<longleftrightarrow> ti_seq ti = b + of_nat p \<and> sint (ti_len ti) = int (slen ti) \<and>
     vbytes (ti_m ti) = map strm [p..<p + slen ti]"

lemma scast_len:
  assumes "sint (v :: s16) = int n"
  shows "(scast v :: u32) = of_nat n"
proof -
  have "(scast v :: u32) = word_of_int (sint v)" by simp
  then show ?thesis using assms by simp
qed

lemma seg_fin_at: "seg_at strm b p ti \<Longrightarrow> seg_fin ti = b + of_nat (p + slen ti)"
  using scast_len[of "ti_len ti" "slen ti"] by (simp add: seg_at_def seg_fin_def)

lemma seg_skip_at:
  assumes "seg_at strm b p ti" "k \<le> slen ti"
  shows "seg_at strm b (p + k) (seg_skip (int k) ti)" "slen (seg_skip (int k) ti) = slen ti - k"
proof -
  have b: "vbytes (ti_m (seg_skip (int k) ti)) = drop k (vbytes (ti_m ti))"
    by (simp add: seg_skip_def vm_adj_bytes)
  show l: "slen (seg_skip (int k) ti) = slen ti - k" unfolding slen_def b by simp
  have s: "sint (ti_len ti) = int (slen ti)" using assms(1) by (simp add: seg_at_def)
  have u: "int (slen ti) < 2 ^ 15" using s sint_lt[of "ti_len ti"] by simp
  have "ti_len ti = word_of_int (int (slen ti))" unfolding s[symmetric] by simp
  then have "ti_len ti - word_of_int (int k) = word_of_int (int (slen ti) - int k)" by (metis of_int_diff)
  then have "sint (ti_len ti - word_of_int (int k)) = int (slen ti) - int k"
    using assms(2) u by (simp only: signed_of_int) (simp add: signed_take_bit_int_eq_self)
  then show "seg_at strm b (p + k) (seg_skip (int k) ti)" 
    using assms b l by (simp add: seg_at_def seg_skip_def w32_def drop_map drop_upt)
qed

section \<open>Sorted queues\<close>

text \<open>
  A queue with the positions of its segments: sorted, without overlaps, from \<open>lo\<close> to \<open>lim\<close>. The
  bytes it covers, and the same set read off the sequence numbers.
\<close>

fun rq_at :: "(nat \<Rightarrow> u8) \<Rightarrow> u32 \<Rightarrow> nat \<Rightarrow> nat \<Rightarrow> (nat \<times> tseg) list \<Rightarrow> bool" where
  "rq_at strm b lo lim [] \<longleftrightarrow> lo \<le> lim"
| "rq_at strm b lo lim ((p, ti) # pq) \<longleftrightarrow> lo \<le> p \<and> seg_at strm b p ti \<and> rq_at strm b (p + slen ti) lim pq"

definition cov :: "(nat \<times> tseg) list \<Rightarrow> nat set" where
  "cov pq = (\<Union>(p, ti) \<in> set pq. {p..<p + slen ti})"

definition held :: "u32 \<Rightarrow> nat \<Rightarrow> tseg list \<Rightarrow> nat set" where
  "held b n q = {p. n \<le> p \<and> p < n + 2 ^ 31 \<and> (\<exists>ti \<in> set q. \<exists>k < slen ti. b + of_nat p = ti_seq ti + of_nat k)}"

lemma cov_simps [simp]:
  "cov [] = {}" "cov ((p, ti) # pq) = {p..<p + slen ti} \<union> cov pq" "cov (pq @ pq') = cov pq \<union> cov pq'"
  by (auto simp: cov_def)

lemma rq_le: "rq_at strm b lo lim pq \<Longrightarrow> lo \<le> lim"
  by (induction strm b lo lim pq rule: rq_at.induct) auto

lemma rq_mono: "rq_at strm b lo lim pq \<Longrightarrow> lo' \<le> lo \<Longrightarrow> rq_at strm b lo' lim pq"
  by (cases pq) auto

lemma rq_mem_all:
  "rq_at strm b lo lim pq \<Longrightarrow> (p, ti) \<in> set pq \<Longrightarrow> lo \<le> p \<and> p + slen ti \<le> lim \<and> seg_at strm b p ti"
  by (induction strm b lo lim pq rule: rq_at.induct) (auto dest: rq_le)

lemmas rq_mem = rq_mem_all[THEN conjunct1] rq_mem_all[THEN conjunct2, THEN conjunct1] rq_mem_all[THEN conjunct2, THEN conjunct2]

lemma rq_cov: "rq_at strm b lo lim pq \<Longrightarrow> cov pq \<subseteq> {lo..<lim}"
  using rq_mem by (fastforce simp: cov_def)

lemma rq_append:
  "rq_at strm b lo lim (pq @ pq') \<longleftrightarrow> (\<exists>m. rq_at strm b lo m pq \<and> rq_at strm b m lim pq')"
proof (induction strm b lo lim pq rule: rq_at.induct)
  case (1 strm b lo lim)
  then show ?case using rq_mono by auto
qed auto

lemma held_cov:
  assumes "rq_at strm b n lim pq" "lim \<le> n + 2 ^ 30"
  shows "held b n (map snd pq) = cov pq"
proof (intro set_eqI iffI)
  fix p
  assume "p \<in> held b n (map snd pq)"
  then obtain ti k where p: "n \<le> p" "p < n + 2 ^ 31" "ti \<in> set (map snd pq)" "k < slen ti"
    "b + of_nat p = ti_seq ti + of_nat k" by (auto simp: held_def)
  then obtain p0 where q: "(p0, ti) \<in> set pq" by auto
  note M = rq_mem[OF assms(1) q]
  have "b + of_nat p = b + of_nat (p0 + k)" using p(5) M(3) by (simp add: seg_at_def algebra_simps)
  then have "p = p0 + k" using seq_eq[of p "p0 + k" b] p M(1,2) assms(2) by simp
  then show "p \<in> cov pq" using q p(4) unfolding cov_def by (intro UN_I[OF q]) simp
next
  fix p
  assume "p \<in> cov pq"
  then obtain p0 ti where q: "(p0, ti) \<in> set pq" "p0 \<le> p" "p < p0 + slen ti" by (auto simp: cov_def)
  note M = rq_mem[OF assms(1) q(1)]
  have "b + of_nat p = ti_seq ti + of_nat (p - p0)" using M(3) q(2) by (simp add: seg_at_def of_nat_diff)
  moreover have "p - p0 < slen ti" using q(2,3) by arith
  moreover have "ti \<in> set (map snd pq)" using q(1) by force
  moreover have "n \<le> p" "p < n + 2 ^ 31" using q M(1,2) assms(2) by simp_all
  ultimately show "p \<in> held b n (map snd pq)" unfolding held_def by blast
qed

section \<open>Insertion\<close>

lemma reass_back_ok:
  assumes "rq_at strm b p lim pq" "seg_at strm b p ti" "p + slen ti \<le> lim" "lim \<le> p + 2 ^ 30"
  shows "\<exists>pq'. reass_back ti (map snd pq) = map snd pq' \<and> rq_at strm b (p + slen ti) lim pq' \<and>
    {p..<p + slen ti} \<union> cov pq' = {p..<p + slen ti} \<union> cov pq"
  using assms
proof (induction pq)
  case Nil
  then show ?case by (intro exI[of _ "[]"]) simp
next
  case (Cons a pq)
  obtain p1 q where a: "a = (p1, q)" by fastforce
  let ?e = "p + slen ti"
  have q: "p \<le> p1" "seg_at strm b p1 q" "rq_at strm b (p1 + slen q) lim pq" using Cons.prems(1) a by auto
  have lim: "p1 + slen q \<le> lim" by (rule rq_le[OF q(3)])
  have i: "sint (seg_fin ti - ti_seq q) = int ?e - int p1"
    using seg_fin_at[OF Cons.prems(2)] q(1,2) lim Cons.prems(3,4) seq_diff[of ?e p1 b] by (simp add: seg_at_def)
  have l: "sint (ti_len q) = int (slen q)" using q(2) by (simp add: seg_at_def)
  consider "?e \<le> p1" | "p1 < ?e" "?e < p1 + slen q" | "p1 < ?e" "p1 + slen q \<le> ?e" by linarith
  then show ?case
  proof cases
    case 1
    then have "reass_back ti (map snd (a # pq)) = map snd (a # pq)" using i a by (simp add: Let_def)
    then show ?thesis using 1 q a by (intro exI[of _ "a # pq"]) auto
  next
    case 2
    define k where "k = ?e - p1"
    have k: "int ?e - int p1 = int k" "k \<le> slen q" "p1 + k = ?e" using 2 by (simp_all add: k_def)
    have r: "reass_back ti (map snd (a # pq)) = map snd ((?e, seg_skip (int k) q) # pq)"
      using 2 i a l k(2,3) unfolding k(1) by (simp add: Let_def)
    note S = seg_skip_at[OF q(2) k(2)]
    have e: "?e + slen (seg_skip (int k) q) = p1 + slen q" using S(2) k by simp
    have c: "{?e..<?e + slen (seg_skip (int k) q)} \<union> {p..<?e} = {p1..<p1 + slen q} \<union> {p..<?e}"
      using 2 q(1) unfolding e by auto
    have s: "seg_at strm b ?e (seg_skip (int k) q)" using S(1) unfolding k(3) .
    show ?thesis unfolding r
    proof (intro exI[of _ "(?e, seg_skip (int k) q) # pq"] conjI refl)
      show "rq_at strm b ?e lim ((?e, seg_skip (int k) q) # pq)" using s q(3) by (simp add: e)
      show "{p..<?e} \<union> cov ((?e, seg_skip (int k) q) # pq) = {p..<?e} \<union> cov (a # pq)"
        unfolding a cov_simps using c by blast
    qed
  next
    case 3
    then have r: "reass_back ti (map snd (a # pq)) = reass_back ti (map snd pq)" using i a l by (simp add: Let_def)
    obtain pq' where pq': "reass_back ti (map snd pq) = map snd pq'" "rq_at strm b ?e lim pq'"
      "{p..<?e} \<union> cov pq' = {p..<?e} \<union> cov pq"
      using Cons.IH[OF rq_mono[OF q(3)] Cons.prems(2-4)] q(1) by auto
    have "{p1..<p1 + slen q} \<subseteq> {p..<?e}" using 3 q(1) by auto
    then have "{p..<?e} \<union> cov pq' = {p..<?e} \<union> cov (a # pq)" unfolding a cov_simps using pq'(3) by blast
    then show ?thesis unfolding r using pq'(1,2) by blast
  qed
qed

lemma rq_split:
  assumes "rq_at strm b lo lim pq" "lim \<le> lo + 2 ^ 30" "lo \<le> p" "p \<le> lim"
  shows "\<exists>pre post m. pq = pre @ post \<and> rq_at strm b lo m pre \<and> rq_at strm b (max p m) lim post \<and>
    (pre = [] \<longrightarrow> m = lo) \<and> (pre \<noteq> [] \<longrightarrow> (\<exists>pl l. last pre = (pl, l) \<and> pl \<le> p \<and> seg_at strm b pl l \<and> pl + slen l = m)) \<and> m \<le> lim \<and>
    takeWhile (\<lambda>q. \<not> SEQ_GT (ti_seq q) (b + of_nat p)) (map snd pq) = map snd pre \<and>
    dropWhile (\<lambda>q. \<not> SEQ_GT (ti_seq q) (b + of_nat p)) (map snd pq) = map snd post"
  using assms
proof (induction pq arbitrary: lo)
  case Nil
  then show ?case by (intro exI[of _ "[]"] exI[of _ "lo"]) (simp add: max_def)
next
  case (Cons a pq)
  obtain p1 q where a: "a = (p1, q)" by fastforce
  have q: "lo \<le> p1" "seg_at strm b p1 q" "rq_at strm b (p1 + slen q) lim pq" using Cons.prems(1) a by auto
  have lim: "p1 + slen q \<le> lim" by (rule rq_le[OF q(3)])
  have g: "SEQ_GT (ti_seq q) (b + of_nat p) \<longleftrightarrow> p < p1"
    using seq_gt[of p1 p b] q(1,2) lim Cons.prems(2-4) by (simp add: seg_at_def)
  show ?case
  proof (cases "p < p1")
    case True
    then show ?thesis using g a q Cons.prems
      by (intro exI[of _ "[]"] exI[of _ "a # pq"] exI[of _ lo]) (simp add: max_def)
  next
    case False
    let ?lo = "p1 + slen q"
    have lo: "lim \<le> ?lo + 2 ^ 30" using Cons.prems(2) q(1) by simp
    show ?thesis
    proof (cases "?lo \<le> p")
      case True
      obtain pre post m where H: "pq = pre @ post" "rq_at strm b ?lo m pre" "rq_at strm b (max p m) lim post"
        "pre = [] \<longrightarrow> m = ?lo" "pre \<noteq> [] \<longrightarrow> (\<exists>pl l. last pre = (pl, l) \<and> pl \<le> p \<and> seg_at strm b pl l \<and> pl + slen l = m)" "m \<le> lim"
        "takeWhile (\<lambda>q. \<not> SEQ_GT (ti_seq q) (b + of_nat p)) (map snd pq) = map snd pre"
        "dropWhile (\<lambda>q. \<not> SEQ_GT (ti_seq q) (b + of_nat p)) (map snd pq) = map snd post"
        using Cons.IH[OF q(3) lo True Cons.prems(4)] by blast
      show ?thesis
        by (intro exI[of _ "a # pre"] exI[of _ post] exI[of _ m])
          (use H g False a q in auto)
    next
      case F: False
      have d: "takeWhile (\<lambda>q. \<not> SEQ_GT (ti_seq q) (b + of_nat p)) (map snd pq) = []"
        "dropWhile (\<lambda>q. \<not> SEQ_GT (ti_seq q) (b + of_nat p)) (map snd pq) = map snd pq"
      proof -
        have "SEQ_GT (ti_seq r) (b + of_nat p)" if r: "(p2, r) \<in> set pq" for p2 r
        proof -
          note M = rq_mem[OF q(3) r]
          show ?thesis using seq_gt[of p2 p b] M F lim Cons.prems(2-4) q(1) by (simp add: seg_at_def)
        qed
        then have "\<forall>r \<in> set (map snd pq). SEQ_GT (ti_seq r) (b + of_nat p)" by auto
        then show "takeWhile (\<lambda>q. \<not> SEQ_GT (ti_seq q) (b + of_nat p)) (map snd pq) = []"
          "dropWhile (\<lambda>q. \<not> SEQ_GT (ti_seq q) (b + of_nat p)) (map snd pq) = map snd pq"
          by (cases "map snd pq"; simp)+
      qed
      have "max p ?lo = ?lo" using F by simp
      then show ?thesis
        by (intro exI[of _ "[a]"] exI[of _ pq] exI[of _ ?lo])
          (use d g False a q lim in auto)
    qed
  qed
qed

lemma reass_insert_ok:
  assumes "rq_at strm b lo lim pq" "seg_at strm b p ti" "lo \<le> p" "p + slen ti \<le> lim" "lim \<le> lo + 2 ^ 30"
  shows "case reass_insert ti (map snd pq) of
      None \<Rightarrow> {p..<p + slen ti} \<subseteq> cov pq
    | Some (q', t1) \<Rightarrow> (\<exists>pq'. q' = map snd pq' \<and> rq_at strm b lo lim pq' \<and> cov pq' = cov pq \<union> {p..<p + slen ti})"
proof -
  have lim: "p \<le> lim" using assms(4) by simp
  obtain pre post m where S: "pq = pre @ post" "rq_at strm b lo m pre" "rq_at strm b (max p m) lim post"
    "pre = [] \<longrightarrow> m = lo" "pre \<noteq> [] \<longrightarrow> (\<exists>pl l. last pre = (pl, l) \<and> pl \<le> p \<and> seg_at strm b pl l \<and> pl + slen l = m)" "m \<le> lim"
    "takeWhile (\<lambda>q. \<not> SEQ_GT (ti_seq q) (b + of_nat p)) (map snd pq) = map snd pre"
    "dropWhile (\<lambda>q. \<not> SEQ_GT (ti_seq q) (b + of_nat p)) (map snd pq) = map snd post"
    using rq_split[OF assms(1,5,3) lim] by blast
  have ti: "ti_seq ti = b + of_nat p" "sint (ti_len ti) = int (slen ti)" using assms(2) by (simp_all add: seg_at_def)
  have lo: "lo \<le> m" by (rule rq_le[OF S(2)])
  have i: "sint (seg_fin (last (map snd pre)) - ti_seq ti) = int m - int p" if pre: "pre \<noteq> []"
  proof -
    obtain pl l where l: "last pre = (pl, l)" "seg_at strm b pl l" "pl + slen l = m" using S(5) pre by blast
    have "seg_fin (last (map snd pre)) = b + of_nat m" using l pre seg_fin_at[OF l(2)] by (simp add: last_map)
    then show ?thesis using ti(1) S(6) assms(3-5) lo seq_diff[of m p b] by simp
  qed
  have before: "{p..<m} \<subseteq> cov pre" if pre: "pre \<noteq> []"
  proof -
    obtain pl l where l: "last pre = (pl, l)" "pl \<le> p" "pl + slen l = m" using S(5) pre by blast
    obtain pre0 where "pre = pre0 @ [(pl, l)]" using pre l(1) by (cases pre rule: rev_cases) auto
    then show ?thesis using l(2,3) by auto
  qed
  have ins: "case reass_front (map snd pre) ti of
      None \<Rightarrow> m \<ge> p + slen ti \<and> pre \<noteq> [] \<and> p < m
    | Some t1 \<Rightarrow> seg_at strm b (max p m) t1 \<and> max p m + slen t1 = p + slen ti"
  proof (cases "pre \<noteq> [] \<and> p < m")
    case True
    have k: "int m - int p = int (m - p)" "0 < int m - int p" using True by simp_all
    have i0: "sint (seg_fin (last (map snd pre)) - ti_seq ti) = int m - int p" using i True by blast
    have "reass_front (map snd pre) ti =
      (if int m - int p \<ge> int (slen ti) then None else Some (seg_skip (int m - int p) ti))"
      unfolding reass_front_def Let_def i0 ti(2) using True by simp
    then have f: "reass_front (map snd pre) ti =
      (if int m - int p \<ge> int (slen ti) then None else Some (seg_skip (int (m - p)) ti))" unfolding k(1) .
    show ?thesis
    proof (cases "slen ti \<le> m - p")
      case c: True
      then have "int m - int p \<ge> int (slen ti)" using True by linarith
      then show ?thesis using True c f by simp
    next
      case c: False
      then have "\<not> int m - int p \<ge> int (slen ti)" using True by linarith
      moreover have "max p m = p + (m - p)" using True by simp
      ultimately show ?thesis using seg_skip_at[OF assms(2), of "m - p"] c f by simp
    qed
  next
    case False
    then have "reass_front (map snd pre) ti = Some ti" using i unfolding reass_front_def by (auto simp: Let_def)
    moreover have "max p m = p" using False S(4) assms(3) by auto
    ultimately show ?thesis using assms(2) by simp
  qed
  show ?thesis
  proof (cases "reass_front (map snd pre) ti")
    case None
    then have n: "m \<ge> p + slen ti" "pre \<noteq> []" "p < m" using ins by auto
    have "reass_insert ti (map snd pq) = None" using None S(7,8) by (simp add: reass_insert_def ti(1))
    moreover have "{p..<p + slen ti} \<subseteq> cov pq" using before[OF n(2)] n(1) S(1) by auto
    ultimately show ?thesis by simp
  next
    case (Some t1)
    then have t1: "seg_at strm b (max p m) t1" "max p m + slen t1 = p + slen ti" using ins by auto
    have "max p m + slen t1 \<le> lim" "lim \<le> max p m + 2 ^ 30" using t1 assms(3-5) by simp_all
    then obtain post' where P: "reass_back t1 (map snd post) = map snd post'"
      "rq_at strm b (max p m + slen t1) lim post'"
      "{max p m..<max p m + slen t1} \<union> cov post' = {max p m..<max p m + slen t1} \<union> cov post"
      using reass_back_ok[OF S(3) t1(1)] by blast
    have "reass_insert ti (map snd pq) = Some (map snd (pre @ (max p m, t1) # post'), t1)"
      using Some S(7,8) P(1) by (simp add: reass_insert_def ti(1))
    moreover have "rq_at strm b lo lim (pre @ (max p m, t1) # post')"
      unfolding rq_append using S(2) t1(1) P(2) by (intro exI[of _ m]) simp
    moreover have "cov (pre @ (max p m, t1) # post') = cov pq \<union> {p..<p + slen ti}"
    proof -
      have "{p..<p + slen ti} \<union> cov pre = {max p m..<p + slen ti} \<union> cov pre"
      proof (cases "pre \<noteq> [] \<and> p < m")
        case True
        have "{p..<p + slen ti} \<subseteq> {p..<m} \<union> {m..<p + slen ti}" "{m..<p + slen ti} \<subseteq> {p..<p + slen ti}" "max p m = m"
          using True by auto
        then show ?thesis using before True by (simp only:) blast
      next
        case False
        then have "max p m = p" using S(4) assms(3) by auto
        then show ?thesis by simp
      qed
      then show ?thesis using P(3) unfolding t1(2) S(1) cov_simps by blast
    qed
    ultimately show ?thesis unfolding \<open>reass_insert ti (map snd pq) = _\<close> option.case prod.case by blast
  qed
qed

section \<open>Delivery\<close>

lemma reass_deliver_ok:
  assumes "rq_at strm b n lim pq" "lim \<le> n + 2 ^ 30" "rcv_nxt t = b + of_nat n" "sbcheck s"
  shows "\<exists>n' t' s' pq' fl'. reass_deliver False t s (map snd pq) fl = ((t', s', map snd pq'), fl') \<and>
    n \<le> n' \<and> t' = t\<lparr>rcv_nxt := b + of_nat n'\<rparr> \<and> sbcheck s' \<and> sb_bytes s' = sb_bytes s @ map strm [n..<n'] \<and>
    rq_at strm b n' lim pq' \<and> n' \<notin> cov pq' \<and> {..<n'} \<union> cov pq' = {..<n} \<union> cov pq"
  using assms
proof (induction pq arbitrary: n t s fl)
  case Nil
  then show ?case by (intro exI[of _ n] exI[of _ t] exI[of _ s] exI[of _ "[]"] exI[of _ fl]) auto
next
  case (Cons a pq)
  obtain p q where a: "a = (p, q)" by fastforce
  have q: "n \<le> p" "seg_at strm b p q" "rq_at strm b (p + slen q) lim pq" using Cons.prems(1) a by auto
  have lim: "p + slen q \<le> lim" by (rule rq_le[OF q(3)])
  have e: "ti_seq q = rcv_nxt t \<longleftrightarrow> p = n"
    using q(1,2) lim Cons.prems(2,3) seq_eq[of p n b] by (auto simp: seg_at_def)
  show ?case
  proof (cases "p = n")
    case True
    let ?n = "n + slen q"
    let ?t = "t\<lparr>rcv_nxt := rcv_nxt t + scast (ti_len q)\<rparr>"
    have s: "sint (ti_len q) = int (slen q)" "vbytes (ti_m q) = map strm [n..<?n]"
      using q(2) True by (simp_all add: seg_at_def)
    have l: "rcv_nxt ?t = b + of_nat ?n" using scast_len[OF s(1)] Cons.prems(3) by simp
    have r: "rq_at strm b ?n lim pq" "lim \<le> ?n + 2 ^ 30" using q(3) True Cons.prems(2) by simp_all
    have d: "reass_deliver False t s (map snd (a # pq)) fl =
      reass_deliver False ?t (sbappend s (ti_m q)) (map snd pq) (ti_flags q AND TH_FIN)"
      using e True a by simp
    obtain n' t' s' pq' fl' where H: "reass_deliver False t s (map snd (a # pq)) fl = ((t', s', map snd pq'), fl')"
      "?n \<le> n'" "t' = ?t\<lparr>rcv_nxt := b + of_nat n'\<rparr>" "sbcheck s'"
      "sb_bytes s' = sb_bytes (sbappend s (ti_m q)) @ map strm [?n..<n']"
      "rq_at strm b n' lim pq'" "n' \<notin> cov pq'" "{..<n'} \<union> cov pq' = {..<?n} \<union> cov pq"
      using Cons.IH[OF r l sbappend_ok(1)[OF Cons.prems(4)]] unfolding d by blast
    have "[n..<n'] = [n..<?n] @ [?n..<n']" using H(2) upt_add_eq_append[of n ?n "n' - ?n"] by simp
    then have "sb_bytes s' = sb_bytes s @ map strm [n..<n']"
      using H(5) sbappend_ok(2)[OF Cons.prems(4)] s(2) by simp
    moreover have "{..<n'} \<union> cov pq' = {..<n} \<union> cov (a # pq)" unfolding H(8) using a True by auto
    ultimately show ?thesis using H by (intro exI[of _ n'] exI[of _ t'] exI[of _ s'] exI[of _ pq'] exI[of _ fl']) simp
  next
    case False
    have d: "reass_deliver False t s (map snd (a # pq)) fl = ((t, s, map snd (a # pq)), fl)" using e False a by simp
    have "n \<notin> cov (a # pq)" using rq_cov[OF q(3)] q(1) False a by auto
    then show ?thesis unfolding d using Cons.prems
      by (intro exI[of _ n] exI[of _ t] exI[of _ s] exI[of _ "a # pq"] exI[of _ fl]) auto
  qed
qed

definition recv_ok :: "(nat \<Rightarrow> u8) \<Rightarrow> u32 \<Rightarrow> nat \<Rightarrow> nat \<Rightarrow> rstate \<Rightarrow> bool" where
  "recv_ok strm b n lim = (\<lambda>(t, s, q). rcv_nxt t = b + of_nat n \<and> sbcheck s \<and> lim \<le> n + 2 ^ 30 \<and>
     (\<exists>pq. q = map snd pq \<and> rq_at strm b n lim pq \<and> n \<notin> cov pq))"

lemma sack_rcv_sel [simp]:
  "rcv_nxt (tcp_sack_purge t) = rcv_nxt t" "t_state (tcp_sack_purge t) = t_state t"
  "rcv_nxt (tcp_sack_addblock t x y) = rcv_nxt t" "t_state (tcp_sack_addblock t x y) = t_state t"
  by (simp_all add: tcp_sack_purge_def tcp_sack_addblock_def Let_def split: prod.splits)

lemma reass_present_ok:
  assumes "rq_at strm b n lim pq" "lim \<le> n + 2 ^ 30" "rcv_nxt t = b + of_nat n" "sbcheck s"
    "TCPS_ESTABLISHED \<le> t_state t"
  shows "\<exists>n' t' s' pq' fl'. reass_present False (t, s, map snd pq) = ((t', s', map snd pq'), fl') \<and>
    n \<le> n' \<and> rcv_nxt t' = b + of_nat n' \<and> sbcheck s' \<and> sb_bytes s' = sb_bytes s @ map strm [n..<n'] \<and>
    rq_at strm b n' lim pq' \<and> n' \<notin> cov pq' \<and> {..<n'} \<union> cov pq' = {..<n} \<union> cov pq"
proof -
  obtain n' t' s' pq' fl' where H: "reass_deliver False t s (map snd pq) 0 = ((t', s', map snd pq'), fl')"
    "n \<le> n'" "t' = t\<lparr>rcv_nxt := b + of_nat n'\<rparr>" "sbcheck s'" "sb_bytes s' = sb_bytes s @ map strm [n..<n']"
    "rq_at strm b n' lim pq'" "n' \<notin> cov pq'" "{..<n'} \<union> cov pq' = {..<n} \<union> cov pq"
    using reass_deliver_ok[OF assms(1-4)] by blast
  have st: "\<not> t_state t < TCPS_SYN_RECEIVED" "t_state t \<noteq> TCPS_SYN_RECEIVED"
    using assms(5) by (auto simp: TCPS_ESTABLISHED_def TCPS_SYN_RECEIVED_def)
  obtain t2 fl2 where "reass_present False (t, s, map snd pq) = ((t2, s', map snd pq'), fl2)" "rcv_nxt t2 = rcv_nxt t'"
  proof (cases "map snd pq = [] \<or> ti_seq (hd (map snd pq)) \<noteq> rcv_nxt t")
    case True
    then have "reass_present False (t, s, map snd pq) = ((t, s, map snd pq), 0)"
      using st by (auto simp: reass_present_def split: list.splits)
    moreover have "reass_deliver False t s (map snd pq) 0 = ((t, s, map snd pq), 0)" using True by (cases "map snd pq") auto
    ultimately show ?thesis using H(1) that by simp
  next
    case False
    then obtain ti q where q: "map snd pq = ti # q" "ti_seq ti = rcv_nxt t" by (cases "map snd pq") auto
    have "reass_present False (t, s, map snd pq) =
      ((if tf TF_SACK_PERMIT t' then tcp_sack_purge t' else t', s', map snd pq'), fl')"
      using st q H(1) by (simp add: reass_present_def del: reass_deliver.simps)
    then show ?thesis using that by simp
  qed
  then show ?thesis using H by (intro exI[of _ n'] exI[of _ t2] exI[of _ s'] exI[of _ pq'] exI[of _ fl2]) simp
qed

lemma tcp_reass_ok:
  assumes "rq_at strm b n lim pq" "lim \<le> n + 2 ^ 30" "rcv_nxt t = b + of_nat n" "sbcheck s" "n \<notin> cov pq"
    "TCPS_ESTABLISHED \<le> t_state t" "seg_at strm b p ti" "n \<le> p" "p + slen ti \<le> lim"
  shows "\<exists>n' t' s' pq' fl'. tcp_reass False (Some ti) (t, s, map snd pq) = ((t', s', map snd pq'), fl') \<and>
    n \<le> n' \<and> rcv_nxt t' = b + of_nat n' \<and> sbcheck s' \<and> sb_bytes s' = sb_bytes s @ map strm [n..<n'] \<and>
    rq_at strm b n' lim pq' \<and> n' \<notin> cov pq' \<and>
    {..<n'} \<union> cov pq' = {..<n} \<union> cov pq \<union> (if p \<noteq> n \<and> reass_full (fst s) (map snd pq) ti then {} else {p..<p + slen ti})"
proof -
  have seq: "ti_seq ti = rcv_nxt t \<longleftrightarrow> p = n"
    using assms(2,3,7-9) seq_eq[of p n b] by (auto simp: seg_at_def)
  note I = reass_insert_ok[OF assms(1,7,8,9,2)]
  show ?thesis
  proof (cases "p \<noteq> n \<and> reass_full (fst s) (map snd pq) ti")
    case True
    then have "tcp_reass False (Some ti) (t, s, map snd pq) = ((t, s, map snd pq), 0)" using seq by (simp add: tcp_reass_def)
    then show ?thesis using assms True
      by (intro exI[of _ n] exI[of _ t] exI[of _ s] exI[of _ pq] exI[of _ 0]) simp
  next
    case False
    then have nf: "\<not> (ti_seq ti \<noteq> rcv_nxt t \<and> reass_full (fst s) (map snd pq) ti)" using seq by blast
    show ?thesis
    proof (cases "reass_insert ti (map snd pq)")
      case None
      have "tcp_reass False (Some ti) (t, s, map snd pq) = ((t, s, map snd pq), 0)"
        unfolding tcp_reass_def by (simp add: nf None)
      moreover have "{p..<p + slen ti} \<subseteq> cov pq" using I None by simp
      ultimately show ?thesis using assms False
        by (intro exI[of _ n] exI[of _ t] exI[of _ s] exI[of _ pq] exI[of _ 0]) auto
    next
      case (Some r)
      obtain q1 t1 where r: "r = (q1, t1)" by fastforce
      obtain pq1 where P: "q1 = map snd pq1" "rq_at strm b n lim pq1" "cov pq1 = cov pq \<union> {p..<p + slen ti}"
        using I Some r by auto
      define t0 where "t0 = (if tf TF_SACK_PERMIT t then tcp_sack_addblock t (ti_seq t1) (seg_fin t1) else t)"
      have t0: "rcv_nxt t0 = b + of_nat n" "TCPS_ESTABLISHED \<le> t_state t0" using assms(3,6) by (simp_all add: t0_def)
      have d: "tcp_reass False (Some ti) (t, s, map snd pq) = reass_present False (t0, s, map snd pq1)"
        unfolding tcp_reass_def t0_def by (simp add: nf Some r P(1))
      show ?thesis using reass_present_ok[OF P(2) assms(2) t0(1) assms(4) t0(2)] P(3) unfolding d if_not_P[OF False]
        by (simp add: Un_assoc)
    qed
  qed
qed

lemma TCP_REASS_ok:
  assumes "recv_ok strm b n lim (t, s, q)" "TCPS_ESTABLISHED \<le> t_state t" "seg_at strm b p ti" "n \<le> p" "p + slen ti \<le> lim"
  shows "case TCP_REASS False ti (t, s, q) of ((t', s', q'), fl) \<Rightarrow>
    \<exists>n'. n \<le> n' \<and> recv_ok strm b n' lim (t', s', q') \<and> sb_bytes s' = sb_bytes s @ map strm [n..<n'] \<and>
      {..<n'} \<union> held b n' q' = {..<n} \<union> held b n q \<union>
        (if p \<noteq> n \<and> reass_full (fst s) q ti then {} else {p..<p + slen ti})"
proof -
  obtain pq where A: "rcv_nxt t = b + of_nat n" "sbcheck s" "lim \<le> n + 2 ^ 30" "q = map snd pq"
    "rq_at strm b n lim pq" "n \<notin> cov pq"
    using assms(1) by (auto simp: recv_ok_def)
  have h: "held b n q = cov pq" using held_cov[OF A(5,3)] A(4) by simp
  have seq: "ti_seq ti = rcv_nxt t \<longleftrightarrow> p = n"
    using assms(3-5) A(1,3) seq_eq[of p n b] by (auto simp: seg_at_def)
  show ?thesis
  proof (cases "p = n \<and> q = [] \<and> t_state t = TCPS_ESTABLISHED")
    case True
    let ?t = "(TCP_SETDELACK t)\<lparr>rcv_nxt := rcv_nxt t + scast (ti_len ti)\<rparr>"
    have R: "TCP_REASS False ti (t, s, q) = ((?t, sbappend s (ti_m ti), []), ti_flags ti AND TH_FIN)"
      using True seq by (simp add: TCP_REASS_def)
    have s: "sint (ti_len ti) = int (slen ti)" "vbytes (ti_m ti) = map strm [n..<n + slen ti]"
      using assms(3) True by (simp_all add: seg_at_def)
    show ?thesis unfolding R
      using True A scast_len[OF s(1)] sbappend_ok(1,2)[OF A(2)] assms(5) s(2)
      by (auto intro!: exI[of _ "n + slen ti"] simp: recv_ok_def held_def)
  next
    case False
    obtain n' t' s' pq' fl' where R: "tcp_reass False (Some ti) (t, s, q) = ((t', s', map snd pq'), fl')"
      "n \<le> n'" "rcv_nxt t' = b + of_nat n'" "sbcheck s'" "sb_bytes s' = sb_bytes s @ map strm [n..<n']"
      "rq_at strm b n' lim pq'" "n' \<notin> cov pq'"
      "{..<n'} \<union> cov pq' = {..<n} \<union> cov pq \<union> (if p \<noteq> n \<and> reass_full (fst s) q ti then {} else {p..<p + slen ti})"
      using tcp_reass_ok[OF A(5,3,1,2,6) assms(2-5)] unfolding A(4)[symmetric] by blast
    have T: "TCP_REASS False ti (t, s, q) = ((t'\<lparr>t_flags := t_flags t' OR TF_ACKNOW\<rparr>, s', map snd pq'), fl')"
      using False seq R(1) by (auto simp: TCP_REASS_def)
    have lim: "lim \<le> n' + 2 ^ 30" using A(3) R(2) by simp
    show ?thesis unfolding T prod.case
      using R(2-7) lim unfolding h R(8)[symmetric]
      by (intro exI[of _ n'] conjI) (auto simp: recv_ok_def held_cov[OF R(6) lim])
  qed
qed

text \<open>C4: reassembly delivers the peer's stream. Whatever the order of arrival, overlaps and duplicates,
  as long as every segment carries its part of one stream, TCP_REASS appends to the receive buffer
  exactly the bytes of the stream from the old rcv_nxt to the new one, which is the first position it
  does not have; it keeps the queue sorted and without overlaps; and nothing received is lost: what it
  has afterwards is what it had and the new segment, unless the limit on the queue refuses a segment
  that does not start at rcv_nxt. The segment at rcv_nxt is never refused.\<close>

theorem tcp_reass_stream:
  assumes "recv_ok strm b n lim (t, s, q)" "TCPS_ESTABLISHED \<le> t_state t" "seg_at strm b p ti" "n \<le> p" "p + slen ti \<le> lim"
  shows "case TCP_REASS False ti (t, s, q) of ((t', s', q'), fl) \<Rightarrow>
    \<exists>n'. n \<le> n' \<and> recv_ok strm b n' lim (t', s', q') \<and> sb_bytes s' = sb_bytes s @ map strm [n..<n'] \<and>
      {..<n'} \<union> held b n' q' = {..<n} \<union> held b n q \<union>
        (if p \<noteq> n \<and> reass_full (fst s) q ti then {} else {p..<p + slen ti})"
  by (rule TCP_REASS_ok[OF assms])

text \<open>A segment of the bytes 20 to 22 arrives first, one that overlaps it fills the hole.\<close>

definition ex_stream :: "nat \<Rightarrow> u8" where "ex_stream p = of_nat p"

definition ex_tseg :: "nat \<Rightarrow> nat \<Rightarrow> tseg" where
  "ex_tseg p n = \<lparr>ti_seq = of_nat p, ti_ack = 0, ti_len = of_nat n, ti_flags = TH_ACK, ti_win = 0, ti_urp = 0,
     ti_m = [\<lparr>vm_data = map ex_stream [p..<p + n], vm_ext = None, vm_room = 0, vm_type = 1\<rparr>]\<rparr>"

definition ex_rcv :: rstate where
  "ex_rcv = (tcpcb_zero\<lparr>t_state := 4, rcv_nxt := 18\<rparr>, (\<lparr>sb_cc = 0, sb_hiwat = 1000, sb_mbcnt = 0, sb_mbmax = 8000, sb_lowat = 1\<rparr>, []),
     [ex_tseg 20 3])"

lemma ex_tseg_at: "n < 100 \<Longrightarrow> seg_at ex_stream 0 p (ex_tseg p n)" "slen (ex_tseg p n) = n"
proof -
  show l: "slen (ex_tseg p n) = n" by (simp add: slen_def ex_tseg_def)
  show "seg_at ex_stream 0 p (ex_tseg p n)" if "n < 100"
  proof -
    have "sint (of_nat n :: s16) = sint (word_of_int (int n) :: s16)" by simp
    also have "\<dots> = int n" using that by (simp only: signed_of_int) (simp add: signed_take_bit_int_eq_self)
    finally show ?thesis unfolding seg_at_def l by (simp add: ex_tseg_def)
  qed
qed

lemma ex_rcv_ok: "recv_ok ex_stream 0 18 1000 ex_rcv" "held 0 18 (snd (snd ex_rcv)) = {20..<23}"
proof -
  have r: "rq_at ex_stream 0 18 1000 [(20, ex_tseg 20 3)]" using ex_tseg_at(1)[of 3 20] by (simp add: ex_tseg_at(2))
  then show "recv_ok ex_stream 0 18 1000 ex_rcv"
    by (auto simp: recv_ok_def ex_rcv_def sbcheck_def ex_tseg_at intro!: exI[of _ "[(20, ex_tseg 20 3)]"])
  show "held 0 18 (snd (snd ex_rcv)) = {20..<23}"
    using held_cov[OF r] by (simp add: ex_rcv_def ex_tseg_at)
qed

theorem tcp_reass_stream_witness:
  "\<exists>n'. recv_ok ex_stream 0 n' 1000 (fst (TCP_REASS False (ex_tseg 18 4) ex_rcv)) \<and>
    sb_bytes (fst (snd (fst (TCP_REASS False (ex_tseg 18 4) ex_rcv)))) = map ex_stream [18..<n'] \<and>
    {..<23} = {..<n'} \<union> held 0 n' (snd (snd (fst (TCP_REASS False (ex_tseg 18 4) ex_rcv))))"
proof -
  obtain t s q where e: "ex_rcv = (t, s, q)" by (cases ex_rcv) auto
  have p: "TCPS_ESTABLISHED \<le> t_state t" "sb_bytes s = []" "held 0 18 q = {20..<23}"
    using e ex_rcv_ok(2) by (auto simp: ex_rcv_def TCPS_ESTABLISHED_def)
  have r: "recv_ok ex_stream 0 18 1000 (t, s, q)" using ex_rcv_ok(1) e by simp
  have "{..<18} \<union> {20..<23} \<union> {18..<22} = {..<(23::nat)}" by auto
  then show ?thesis
    using tcp_reass_stream[OF r p(1) ex_tseg_at(1)[of 4 18]] p(2,3) unfolding e[symmetric]
    by (auto simp: ex_tseg_at(2) split: prod.splits)
qed

end
