(* ===== verification/Tcp_Options_Correct.thy ===== *)
theory Tcp_Options_Correct
  imports Tcp_Options Tcp_Timer_Correct
begin

text \<open>
  The option parser: it never reads behind the options, only a SYN changes the connection, what
  \<open>tcp_output\<close> emits is parsed back, and how a forged SYN shrinks the segment size.
\<close>

section \<open>Safety\<close>

lemma opt_long_Some: "i + 4 \<le> length cp \<Longrightarrow> opt_long cp i = Some (be32 (cp ! i) (cp ! (i + 1)) (cp ! (i + 2)) (cp ! (i + 3)))"
  by (simp add: opt_long_def opt_at_def)

lemma opt_blocks_Some:
  "bp + 8 * n \<le> length cp \<Longrightarrow> \<exists>bl. opt_blocks cp bp n sack = Some bl \<and> length bl = length sack + n"
  by (induction cp bp n sack rule: opt_blocks.induct) (fastforce simp: opt_long_Some)+

lemma opt_one_safe:
  assumes "cp \<noteq> []" "opt_len cp = Some n"
  shows "\<exists>st' o' m'. opt_one flags n cp (st, o1, m) = Some (st', o', m') \<and>
    (length (sack_in o1) \<le> TCP_MAX_SACK \<longrightarrow> length (sack_in o') \<le> TCP_MAX_SACK) \<and>
    (\<not> hasf TH_SYN flags \<longrightarrow> st' = st \<and> m' = m)"
proof -
  have n: "0 < n" "n \<le> length cp" using opt_len_bounds[OF assms] by auto
  let ?k = "min ((n - 2) div 8) (TCP_MAX_SACK - length (sack_in o1))"
  obtain bl where bl: "10 \<le> n \<longrightarrow> opt_blocks cp 2 ?k (sack_in o1) = Some bl \<and> length bl = length (sack_in o1) + ?k"
  proof (cases "10 \<le> n")
    case True
    define k where "k = ?k"
    define q where "q = (n - 2) div 8"
    have "8 * q \<le> n - 2" "k \<le> q" by (simp_all add: q_def k_def)
    then have "2 + 8 * k \<le> length cp" using True n(2) by linarith
    then have "2 + 8 * ?k \<le> length cp" unfolding k_def .
    from opt_blocks_Some[OF this, of "sack_in o1"] obtain b where
      "opt_blocks cp 2 ?k (sack_in o1) = Some b \<and> length b = length (sack_in o1) + ?k" by blast
    then show ?thesis by (intro that[of b]) simp
  next
    case False
    then show ?thesis by (intro that[of "[]"]) simp
  qed
  let ?op = "unat (cp ! 0)"
  show ?thesis
  proof (cases "?op = 5")
    case True
    show ?thesis
    proof (cases "\<not> tf TF_SACK_PERMIT (tp st) \<or> n < 10 \<or> (n - 2) mod 8 \<noteq> 0")
      case True
      then have "opt_one flags n cp (st, o1, m) = Some (st, o1, m)" using \<open>?op = 5\<close> by (simp add: opt_one_def Let_def)
      then show ?thesis by simp
    next
      case False
      then have b: "opt_blocks cp 2 ?k (sack_in o1) = Some bl" "length bl = length (sack_in o1) + ?k" using bl by auto
      have "opt_one flags n cp (st, o1, m) = Some (st, o1\<lparr>sack_in := bl\<rparr>, m)"
        using \<open>?op = 5\<close> False b(1) by (simp add: opt_one_def Let_def)
      then show ?thesis using b(2) by (auto simp: min_def)
    qed
  next
    case False
    have at: "opt_at cp i = Some (cp ! i)" if "i < n" for i using that n by (simp add: opt_at_def)
    consider "?op = 2" | "?op = 3" | "?op = 4" | "?op = 8" | "?op \<notin> {2, 3, 4, 5, 8}" using False by blast
    then show ?thesis
    proof cases
      case 1
      then show ?thesis by (simp add: opt_one_def Let_def at) blast
    next
      case 4
      show ?thesis
      proof (cases "n = 10")
        case True
        then show ?thesis using 4 n by (simp add: opt_one_def Let_def opt_long_Some)
      qed (simp add: opt_one_def Let_def 4)
    qed (simp_all add: opt_one_def Let_def at)
  qed
qed

lemma opt_walk_safe:
  assumes "length (sack_in o1) \<le> TCP_MAX_SACK"
  shows "\<exists>st' o' m'. opt_walk flags cp (st, o1, m) = Some (st', o', m') \<and> length (sack_in o') \<le> TCP_MAX_SACK \<and>
    (\<not> hasf TH_SYN flags \<longrightarrow> st' = st \<and> m' = m)"
  using assms
proof (induction "length cp" arbitrary: cp st o1 m rule: less_induct)
  case less
  show ?case
  proof (cases "cp = [] \<or> opt_len cp = None")
    case True
    then show ?thesis using less.prems by (subst opt_walk.simps) auto
  next
    case False
    then obtain n where n: "opt_len cp = Some n" "cp \<noteq> []" by auto
    obtain st' o' m' where one: "opt_one flags n cp (st, o1, m) = Some (st', o', m')"
      "length (sack_in o') \<le> TCP_MAX_SACK" "\<not> hasf TH_SYN flags \<longrightarrow> st' = st \<and> m' = m"
      using opt_one_safe[OF n(2,1), of flags st o1 m] less.prems by blast
    have "length (drop n cp) < length cp" using opt_len_bounds[OF n(2,1)] by (simp only: length_drop) linarith
    from less.hyps[OF this one(2), of st' m'] show ?thesis
      using one n by (subst opt_walk.simps) auto
  qed
qed


section \<open>Round trip\<close>

lemma be32_bytes: "be32 (ucast (drop_bit 24 w)) (ucast (drop_bit 16 w)) (ucast (drop_bit 8 w)) (ucast w) = (w :: u32)"
proof (rule bit_word_eqI)
  fix n :: nat
  assume "n < LENGTH(32)"
  then consider "n < 8" | "8 \<le> n" "n < 16" | "16 \<le> n" "n < 24" | "24 \<le> n" "n < 32" by fastforce
  then show "bit (be32 (ucast (drop_bit 24 w)) (ucast (drop_bit 16 w)) (ucast (drop_bit 8 w)) (ucast w)) n = bit w n"
    by cases (auto simp: be32_def bit_simps)
qed

lemma be16_bytes: "ucast (be16 (ucast (drop_bit 8 w)) (ucast (w :: u16))) = w"
  by (rule bit_word_eqI) (auto simp: be16_def bit_simps)

lemma length_bytes [simp]: "length (bytes32 w) = 4" "length (bytes16 v) = 2" "length (blk_bytes b) = 8"
  by (simp_all add: bytes32_def bytes16_def blk_bytes_def)

lemma opt_long_bytes: "opt_long (xs @ bytes32 w @ ys) (length xs) = Some w"
  using be32_bytes[of w] by (simp add: opt_long_Some nth_append bytes32_def)

lemma opt_long_at: "length xs = i \<Longrightarrow> opt_long (xs @ bytes32 w @ ys) i = Some w"
  using opt_long_bytes[of xs w ys] by simp

lemma opt_blocks_bytes:
  "length xs = bp \<Longrightarrow> opt_blocks (xs @ concat (map blk_bytes bl) @ ys) bp (length bl) sack = Some (sack @ bl)"
proof (induction bl arbitrary: xs bp sack)
  case (Cons b bl)
  have e: "xs @ concat (map blk_bytes (b # bl)) @ ys = (xs @ blk_bytes b) @ concat (map blk_bytes bl) @ ys" by simp
  have 1: "opt_long (xs @ concat (map blk_bytes (b # bl)) @ ys) bp = Some (blk_start b)"
    using opt_long_at[OF Cons.prems] by (simp add: blk_bytes_def)
  have 2: "opt_long (xs @ concat (map blk_bytes (b # bl)) @ ys) (bp + 4) = Some (blk_end b)"
    using opt_long_at[of "xs @ bytes32 (blk_start b)" "bp + 4"] Cons.prems by (simp add: blk_bytes_def)
  have "opt_blocks ((xs @ blk_bytes b) @ concat (map blk_bytes bl) @ ys) (bp + 8) (length bl) (sack @ [b]) =
    Some ((sack @ [b]) @ bl)"
    by (rule Cons.IH) (simp add: Cons.prems)
  then show ?case using 1 2 unfolding e by (cases b) simp
qed simp

lemma walk_nop: "opt_walk flags (1 # cp) s = opt_walk flags cp s"
  by (cases s) (subst opt_walk.simps, simp add: opt_len_def opt_one_def Let_def)

lemma walk_step:
  assumes "opt_len cp = Some n" "cp \<noteq> []" "opt_one flags n cp s = Some s1"
  shows "opt_walk flags cp s = opt_walk flags (drop n cp) s1"
  using assms by (subst opt_walk.simps) simp

text \<open>The timestamp option, on a segment without SYN.\<close>

lemma walk_ts:
  assumes "\<not> hasf TH_SYN flags"
  shows "opt_walk flags ([1, 1, 8, 10] @ bytes32 v @ bytes32 e @ cp) (st, o1, m) =
    opt_walk flags cp (st, o1\<lparr>ts_present := True, ts_val := v, ts_ecr := e\<rparr>, m)"
proof -
  let ?cp = "[8, 10] @ bytes32 v @ bytes32 e @ cp"
  have l: "opt_len ?cp = Some 10" by (simp add: opt_len_def)
  have 1: "opt_long ?cp 2 = Some v" by (rule opt_long_at) simp
  have 2: "opt_long ?cp 6 = Some e" using opt_long_at[of "[8, 10] @ bytes32 v" 6 e cp] by simp
  have "opt_one flags 10 ?cp (st, o1, m) = Some (st, o1\<lparr>ts_present := True, ts_val := v, ts_ecr := e\<rparr>, m)"
    using 1 2 assms by (simp add: opt_one_def Let_def)
  from walk_step[OF l _ this] show ?thesis by (simp add: walk_nop)
qed

lemma walk_sack:
  assumes "tf TF_SACK_PERMIT (tp st)" "sack_in o1 = []" "0 < length bl" "length bl \<le> 4"
  shows "opt_walk flags ([1, 1, 5, of_nat (2 + length bl * 8)] @ concat (map blk_bytes bl)) (st, o1, m) =
    Some (st, o1\<lparr>sack_in := bl\<rparr>, m)"
proof -
  let ?n = "2 + length bl * 8" and ?cp = "[5, of_nat (2 + length bl * 8)] @ concat (map blk_bytes bl)"
  have len: "length (concat (map blk_bytes bl)) = length bl * 8" by (induction bl) simp_all
  have u: "unat (of_nat ?n :: u8) = ?n" using assms(4) by (simp only: unat_of_nat) (simp add: take_bit_nat_eq_self)
  have l: "opt_len ?cp = Some ?n" using assms(3) u by (simp add: opt_len_def Let_def len)
  have k: "min ((?n - 2) div 8) (TCP_MAX_SACK - length (sack_in o1)) = length bl" using assms(2,4) by (simp add: TCP_MAX_SACK_def)
  have "opt_blocks ?cp 2 (length bl) [] = Some bl"
    using opt_blocks_bytes[of "[5, of_nat ?n]" 2 bl "[]" "[]"] by simp
  then have "opt_one flags ?n ?cp (st, o1, m) = Some (st, o1\<lparr>sack_in := bl\<rparr>, m)"
    using assms(1,2,3) k by (simp add: opt_one_def Let_def)
  from walk_step[OF l _ this] have "opt_walk flags ?cp (st, o1, m) = opt_walk flags (drop ?n ?cp) (st, o1\<lparr>sack_in := bl\<rparr>, m)"
    by simp
  also have "drop ?n ?cp = []" using len by simp
  finally show ?thesis by (simp add: walk_nop opt_walk.simps[of flags "[]"])
qed

text \<open>The blocks a segment reports.\<close>

definition sent_blocks :: "nat \<Rightarrow> u8 \<Rightarrow> int \<Rightarrow> tcpcb \<Rightarrow> sackblk list" where
  "sent_blocks optlen flags len t =
     (if tf TF_SACK_PERMIT t \<and> len = 0 \<and> \<not> hasf (TH_SYN OR TH_RST) flags
      then (if tf TF_DSACK t then [rcv_dsackblk t] else []) @
           take ((40 - optlen - 4) div 8 - (if tf TF_DSACK t then 1 else 0)) (sackblks t)
      else [])"


lemma sack_options_bytes:
  fixes flags :: u8 and len :: int
  assumes "length (sackblks t) \<le> TCP_MAX_SACK" "optlen \<le> 12"
  defines "bl \<equiv> sent_blocks optlen flags len t"
  shows "snd (sack_options optlen flags len t) =
      (if bl = [] then [] else [1, 1, 5, of_nat (2 + length bl * 8)] @ concat (map blk_bytes bl))"
    "length bl \<le> 4"
proof -
  define k where "k = (40 - optlen - 4) div 8"
  have k': "(36 - optlen) div 8 = k" by (simp add: k_def)
  have k: "1 \<le> k" "k \<le> 4" using assms(2) by (auto simp: k_def)
  have t: "take (min (length (sackblks t)) i) (sackblks t) = take i (sackblks t)" for i by (simp add: min_def)
  show "snd (sack_options optlen flags len t) =
      (if bl = [] then [] else [1, 1, 5, of_nat (2 + length bl * 8)] @ concat (map blk_bytes bl))"
  proof (cases "tf TF_SACK_PERMIT t \<and> len = 0 \<and> \<not> hasf (TH_SYN OR TH_RST) flags")
    case False
    have "sack_options optlen flags len t = (t, [])" unfolding sack_options_def by (rule if_not_P) (use False in blast)
    moreover have "bl = []" unfolding bl_def sent_blocks_def by (rule if_not_P) (use False in blast)
    ultimately show ?thesis by simp
  next
    case True
    show ?thesis
    proof (cases "tf TF_DSACK t")
      case d: True
      then have "bl = rcv_dsackblk t # take (k - 1) (sackblks t)" using True by (simp add: bl_def sent_blocks_def k_def)
      then show ?thesis using True d k(1) by (simp add: sack_options_def Let_def k_def[symmetric] k' t)
    next
      case False
      then have "bl = take k (sackblks t)" using True by (simp add: bl_def sent_blocks_def k_def)
      then show ?thesis using True False k(1) by (cases "sackblks t = []") (simp_all add: sack_options_def Let_def k_def[symmetric] k' t)
    qed
  qed
  show "length bl \<le> 4" using k unfolding bl_def sent_blocks_def k_def[symmetric] by auto
qed

text \<open>C23: what tcp_output puts into the options of an acknowledgement is what the peer's tcp_dooptions
  reads out of them: the sender's clock and the echo of its last timestamp when the timestamp
  option goes out (and only then), and exactly the SACK blocks reported, the D-SACK block first,
  then the newest blocks in order, as many as fit.\<close>

theorem tcp_options_roundtrip:
  assumes "\<not> hasf TH_SYN flags" "tf TF_SACK_PERMIT (tp st)" "length (sackblks t) \<le> TCP_MAX_SACK"
  shows "tcp_dooptions flags
      (ts_options now flags t @ snd (sack_options (length (ts_options now flags t)) flags len t)) o0 st =
    Some (st, (if ts_options now flags t = [] then o0 else o0\<lparr>ts_present := True, ts_val := now, ts_ecr := ts_recent t\<rparr>)
      \<lparr>sack_in := sent_blocks (length (ts_options now flags t)) flags len t\<rparr>)"
proof -
  let ?ts = "ts_options now flags t"
  have ts: "?ts = [] \<or> ?ts = [1, 1, 8, 10] @ bytes32 now @ bytes32 (ts_recent t)" by (simp add: ts_options_def)
  then have l: "length ?ts \<le> 12" by auto
  let ?bl = "sent_blocks (length ?ts) flags len t"
  note S = sack_options_bytes[OF assms(3) l, of flags len]
  have sack: "opt_walk flags (snd (sack_options (length ?ts) flags len t)) (st, o1, m) = Some (st, o1\<lparr>sack_in := ?bl\<rparr>, m)"
    if "sack_in o1 = []" for o1 m
  proof (cases "?bl = []")
    case True
    then show ?thesis using that unfolding S(1) by (cases o1) (simp add: opt_walk.simps[of flags "[]"])
  next
    case False
    then show ?thesis using walk_sack[OF assms(2) that _ S(2)] unfolding S(1) by simp
  qed
  have nt: "opt_walk flags ([1, 1, 8, 10] @ bytes32 now @ bytes32 (ts_recent t) @ snd (sack_options (length ?ts) flags len t))
      (st, o0\<lparr>sack_in := []\<rparr>, False) =
    Some (st, (o0\<lparr>sack_in := []\<rparr>)\<lparr>ts_present := True, ts_val := now, ts_ecr := ts_recent t\<rparr>\<lparr>sack_in := ?bl\<rparr>, False)"
    by (subst walk_ts[OF assms(1)], rule sack) simp
  from ts show ?thesis
  proof
    assume "?ts = []"
    then show ?thesis using sack[of "o0\<lparr>sack_in := []\<rparr>" False] by (simp add: tcp_dooptions_def Let_def)
  next
    assume e: "?ts = [1, 1, 8, 10] @ bytes32 now @ bytes32 (ts_recent t)"
    then have "?ts \<noteq> []" by simp
    moreover have "opt_walk flags (?ts @ snd (sack_options (length ?ts) flags len t)) (st, o0\<lparr>sack_in := []\<rparr>, False) =
      Some (st, (o0\<lparr>sack_in := []\<rparr>)\<lparr>ts_present := True, ts_val := now, ts_ecr := ts_recent t\<rparr>\<lparr>sack_in := ?bl\<rparr>, False)"
      using nt by (subst (1) e) simp
    ultimately show ?thesis by (simp add: tcp_dooptions_def Let_def)
  qed
qed

theorem tcp_options_roundtrip_witness:
  "tcp_dooptions TH_ACK
     (ts_options 77 TH_ACK (ex_tcb\<lparr>t_flags := TF_SACK_PERMIT OR TF_REQ_TSTMP OR TF_RCVD_TSTMP, ts_recent := 5,
        sackblks := [\<lparr>blk_start = 70100, blk_end = 70200\<rparr>]\<rparr>) @
      snd (sack_options 12 TH_ACK 0 (ex_tcb\<lparr>t_flags := TF_SACK_PERMIT OR TF_REQ_TSTMP OR TF_RCVD_TSTMP, ts_recent := 5,
        sackblks := [\<lparr>blk_start = 70100, blk_end = 70200\<rparr>]\<rparr>)))
     \<lparr>ts_present = False, ts_val = 0, ts_ecr = 0, sack_in = []\<rparr>
     (ex_st (\<lambda>_. Sent 0) 0 (ex_tcb\<lparr>t_flags := TF_SACK_PERMIT\<rparr>)) =
   Some (ex_st (\<lambda>_. Sent 0) 0 (ex_tcb\<lparr>t_flags := TF_SACK_PERMIT\<rparr>),
     \<lparr>ts_present = True, ts_val = 77, ts_ecr = 5, sack_in = [\<lparr>blk_start = 70100, blk_end = 70200\<rparr>]\<rparr>)"
proof -
  let ?t = "ex_tcb\<lparr>t_flags := TF_SACK_PERMIT OR TF_REQ_TSTMP OR TF_RCVD_TSTMP, ts_recent := 5,
    sackblks := [\<lparr>blk_start = 70100, blk_end = 70200\<rparr>]\<rparr>"
  let ?st = "ex_st (\<lambda>_. Sent 0) 0 (ex_tcb\<lparr>t_flags := TF_SACK_PERMIT\<rparr>)"
  have n: "ts_options 77 TH_ACK ?t \<noteq> []" "length (ts_options 77 TH_ACK ?t) = 12"
    by (simp_all add: ts_options_def tf_def hasf_def TF_SACK_PERMIT_def TF_REQ_TSTMP_def TF_RCVD_TSTMP_def TF_NOOPT_def
        TH_ACK_def TH_RST_def TH_SYN_def)
  have b: "sent_blocks 12 TH_ACK 0 ?t = [\<lparr>blk_start = 70100, blk_end = 70200\<rparr>]"
    by (simp add: sent_blocks_def tf_def hasf_def TF_SACK_PERMIT_def TF_REQ_TSTMP_def TF_RCVD_TSTMP_def TF_DSACK_def
        TH_ACK_def TH_RST_def TH_SYN_def)
  have h: "\<not> hasf TH_SYN TH_ACK" "tf TF_SACK_PERMIT (tp ?st)" "length (sackblks ?t) \<le> TCP_MAX_SACK"
    by (simp_all add: hasf_def TH_SYN_def TH_ACK_def tf_def TF_SACK_PERMIT_def TCP_MAX_SACK_def)
  show ?thesis using tcp_options_roundtrip[OF h, of 77 0] n b by simp
qed


section \<open>A forged SYN\<close>

text \<open>
  A connection with timestamps, a round-trip estimate and a cached route, whose segment size is not
  above what the path allows.
\<close>

definition established :: "rtentry \<Rightarrow> tcpst \<Rightarrow> bool" where
  "established rt st \<longleftrightarrow> ro_rt (sk st) = Some rt \<and> t_srtt (tp st) \<noteq> 0 \<and> t_state (tp st) = TCPS_ESTABLISHED \<and>
     t_flags (tp st) AND (TF_REQ_TSTMP OR TF_RCVD_TSTMP) = TF_REQ_TSTMP OR TF_RCVD_TSTMP \<and>
     int (unat (t_maxseg (tp st))) \<le> sint (mss_path (glob st) (inp_faddr_local (sk st)) rt)"

text \<open>The state after \<open>n\<close> SYN segments whose only option is a segment size of 0.\<close>

fun forged_syns :: "nat \<Rightarrow> tcpst \<Rightarrow> tcpst" where
  "forged_syns 0 st = st"
| "forged_syns (Suc n) st =
     (case tcp_dooptions TH_SYN [2, 4, 0, 0] \<lparr>ts_present = False, ts_val = 0, ts_ecr = 0, sack_in = []\<rparr> st of
        None \<Rightarrow> st | Some (st', _) \<Rightarrow> forged_syns n st')"

lemma tcp_mss_0:
  assumes "established rt st"
  shows "tp (fst (tcp_mss 0 st)) = (tp st)\<lparr>snd_cwnd := snd_cwnd (tp (fst (tcp_mss 0 st))),
      snd_ssthresh := snd_ssthresh (tp (fst (tcp_mss 0 st)))\<rparr>"
    "sk (fst (tcp_mss 0 st)) = sk st" "glob (fst (tcp_mss 0 st)) = glob st"
proof -
  have r: "mss_rtt rt (tp st) = tp st" using assms by (simp add: established_def mss_rtt_def)
  have c: "\<not> sint (mss_path (glob st) (inp_faddr_local (sk st)) rt) < uint (t_maxseg (tp st))"
    using assms by (simp add: established_def)
  have ro: "ro_rt (sk st) = Some rt" using assms by (simp add: established_def)
  show "tp (fst (tcp_mss 0 st)) = (tp st)\<lparr>snd_cwnd := snd_cwnd (tp (fst (tcp_mss 0 st))),
      snd_ssthresh := snd_ssthresh (tp (fst (tcp_mss 0 st)))\<rparr>"
    "sk (fst (tcp_mss 0 st)) = sk st" "glob (fst (tcp_mss 0 st)) = glob st"
    using c by (simp_all add: tcp_mss_def ro r Let_def)
qed

lemma forged_one:
  assumes "established rt st" "12 \<le> unat (t_maxseg (tp st))"
  shows "\<exists>st' o'. tcp_dooptions TH_SYN [2, 4, 0, 0] \<lparr>ts_present = False, ts_val = 0, ts_ecr = 0, sack_in = []\<rparr> st = Some (st', o') \<and>
    established rt st' \<and> t_maxseg (tp st') = t_maxseg (tp st) - 12"
proof -
  note M = tcp_mss_0[OF assms(1)]
  define st1 where "st1 = fst (tcp_mss 0 st)"
  have f: "t_maxseg (tp st1) = t_maxseg (tp st)" "t_flags (tp st1) = t_flags (tp st)" "t_srtt (tp st1) = t_srtt (tp st)"
    "t_state (tp st1) = t_state (tp st)" "sk st1 = sk st" "glob st1 = glob st"
    using M(2,3) arg_cong[OF M(1), of t_maxseg] arg_cong[OF M(1), of t_flags] arg_cong[OF M(1), of t_srtt]
      arg_cong[OF M(1), of t_state] by (simp_all add: st1_def)
  have z: "ucast (be16 0 0) = (0 :: u16)" by (simp add: be16_def)
  have w: "opt_walk TH_SYN [2, 4, 0, 0] (st, o1, m) = Some (st1, o1, True)" for o1 m
    by (subst opt_walk.simps)
      (simp add: opt_len_def opt_one_def Let_def hasf_def TH_SYN_def opt_at_def z st1_def opt_walk.simps[of _ "[]"])
  define st' where "st' = st1\<lparr>tp := (tp st1)\<lparr>t_maxseg := t_maxseg (tp st1) - 12\<rparr>\<rparr>"
  have "tcp_dooptions TH_SYN [2, 4, 0, 0] \<lparr>ts_present = False, ts_val = 0, ts_ecr = 0, sack_in = []\<rparr> st =
      Some (st', \<lparr>ts_present = False, ts_val = 0, ts_ecr = 0, sack_in = []\<rparr>)"
    using assms(1) f(2) by (simp add: tcp_dooptions_def w Let_def st'_def established_def)
  moreover have "int (unat (t_maxseg (tp st) - 12)) \<le> int (unat (t_maxseg (tp st)))"
    using assms(2) by (simp only: unat_sub_if_size) simp
  then have "uint (t_maxseg (tp st) - 12) \<le> sint (mss_path (glob st) (inp_faddr_local (sk st)) rt)"
    using assms(1) by (simp add: established_def)
  ultimately show ?thesis
    using assms f by (auto simp: established_def st'_def)
qed

lemma forged_syns_shrink:
  assumes "established rt st" "12 * n \<le> unat (t_maxseg (tp st))"
  shows "established rt (forged_syns n st) \<and> unat (t_maxseg (tp (forged_syns n st))) = unat (t_maxseg (tp st)) - 12 * n"
  using assms
proof (induction n arbitrary: st)
  case (Suc n)
  then have "12 \<le> unat (t_maxseg (tp st))" by simp
  from forged_one[OF Suc.prems(1) this] obtain st' o' where
    s: "tcp_dooptions TH_SYN [2, 4, 0, 0] \<lparr>ts_present = False, ts_val = 0, ts_ecr = 0, sack_in = []\<rparr> st = Some (st', o')"
    "established rt st'" "t_maxseg (tp st') = t_maxseg (tp st) - 12" by blast
  have u: "unat (t_maxseg (tp st')) = unat (t_maxseg (tp st)) - 12"
    using Suc.prems(2) by (simp add: s(3) unat_sub_if_size)
  then have "12 * n \<le> unat (t_maxseg (tp st'))" using Suc.prems(2) by simp
  from Suc.IH[OF s(2) this] show ?case using s u by simp
qed simp


definition ex_rt :: rtentry where
  "ex_rt = \<lparr>if_mtu = 1500, rmx_locks = 0, rmx_mtu = 1492, rmx_recvpipe = 0, rmx_sendpipe = 0, rmx_ssthresh = 0,
     rmx_rtt = 0, rmx_rttvar = 0, rt_key_any = True\<rparr>"

definition ex_timed :: tcpst where
  "ex_timed = (ex_st (\<lambda>_. Sent 0) 0 (ex_tcb\<lparr>t_maxseg := 1440, t_srtt := 8, t_flags := TF_REQ_TSTMP OR TF_RCVD_TSTMP\<rparr>))
     \<lparr>sk := (ex_sock 0)\<lparr>ro_rt := Some ex_rt\<rparr>\<rparr>"


end
