(* ===== verification/Tcp_Input_Flow.thy ===== *)
theory Tcp_Input_Flow
  imports Tcp_Input Tcp_Frame Tcp_Reass_Correct Tcp_Options_Correct
begin

text \<open>
  Reasoning about \<open>tcp_input\<close>: a judgement on the ways a part of it ends, and what each part leaves
  of the receiver's side of a connection.
\<close>

section \<open>Judgements on flows\<close>

text \<open>
  \<open>flow_all G S Q fl\<close>: \<open>G\<close> holds when the next part runs, \<open>S\<close> at \<open>step6\<close>, \<open>Q\<close> of the connection a
  return leaves. A panic, and a call that does not return, leave none.
\<close>

fun flow_all :: "(inconn \<Rightarrow> invar \<Rightarrow> bool) \<Rightarrow> (inconn \<Rightarrow> invar \<Rightarrow> bool) \<Rightarrow> (inconn \<Rightarrow> bool) \<Rightarrow> flow \<Rightarrow> bool" where
  "flow_all G S Q (Go c v) = G c v"
| "flow_all G S Q (Step6 c v) = S c v"
| "flow_all G S Q (Stop r) = (\<forall>c. r = Some (Inr c) \<longrightarrow> Q c)"
| "flow_all G S Q (Again i c v) = Q c"

named_theorems flow_rules

lemma flow_all_bind [flow_rules]:
  "flow_all G S Q fl \<Longrightarrow> (\<And>c v. G c v \<Longrightarrow> flow_all G' S Q (f c v)) \<Longrightarrow> flow_all G' S Q (flow_bind fl f)"
  by (cases fl) auto

lemma flow_all_res [flow_rules]:
  "(\<And>c. r = Some (Inr c) \<Longrightarrow> flow_all G S Q (f c)) \<Longrightarrow> flow_all G S Q (res_bind r f)"
  by (cases "(r, f)" rule: res_bind.cases) auto

lemma flow_all_if [flow_rules]:
  "(b \<Longrightarrow> flow_all G S Q x) \<Longrightarrow> (\<not> b \<Longrightarrow> flow_all G S Q y) \<Longrightarrow> flow_all G S Q (if b then x else y)"
  by simp

lemma flow_all_mono: "flow_all G S Q fl \<Longrightarrow> (\<And>c v. G c v \<Longrightarrow> G' c v) \<Longrightarrow> (\<And>c v. S c v \<Longrightarrow> S' c v) \<Longrightarrow>
  (\<And>c. Q c \<Longrightarrow> Q' c) \<Longrightarrow> flow_all G' S' Q' fl"
  by (cases fl) auto

lemma in_drop_all [simp]: "flow_all G S Q (in_drop c) = Q c"
  by (simp add: in_drop_def)

section \<open>Parts of a connection\<close>

lemma conn_sel [simp]:
  "ctp (set_tp t c) = t" "crcv (set_tp t c) = crcv c" "csnd (set_tp t c) = csnd c"
  "ctp (set_snd s c) = ctp c" "crcv (set_snd s c) = crcv c" "csnd (set_snd s c) = s"
  "ctp (set_rcv s c) = ctp c" "crcv (set_rcv s c) = s" "csnd (set_rcv s c) = csnd c"
  "rq (set_tp t c) = rq c" "rq (set_snd s c) = rq c" "rq (set_rcv s c) = rq c"
  "ss_cantrcvmore (set_tp t c) = ss_cantrcvmore c" "ss_cantrcvmore (set_snd s c) = ss_cantrcvmore c"
  "ss_cantrcvmore (set_rcv s c) = ss_cantrcvmore c"
  "ctp (soisconnected c) = ctp c" "crcv (soisconnected c) = crcv c" "rq (soisconnected c) = rq c"
  "ss_cantrcvmore (soisconnected c) = ss_cantrcvmore c"
  "ctp (soisdisconnected c) = ctp c" "crcv (soisdisconnected c) = crcv c" "rq (soisdisconnected c) = rq c"
  "ss_cantrcvmore (soisdisconnected c) = True"
  "ctp (in_close c) = ctp c" "rq (in_close c) = rq c" "ss_cantrcvmore (in_close c) = ss_cantrcvmore c"
  by (simp_all add: ctp_def crcv_def csnd_def set_tp_def set_snd_def set_rcv_def soisconnected_def soisdisconnected_def in_close_def)

lemma tcp_close_sk: "so_rcv (sk (tcp_close st)) = so_rcv (sk st)"
  by (simp add: tcp_close_def Let_def split: option.split)

lemma in_close_rcv [simp]: "crcv (in_close c) = crcv c"
  by (simp add: crcv_def in_close_def tcp_close_sk)

text \<open>The fields no acknowledgement touches.\<close>

lemma sack_update_sel [simp]:
  "rcv_nxt (tcp_sack_update t bs) = rcv_nxt t" "t_state (tcp_sack_update t bs) = t_state t"
proof -
  have i: "rcv_nxt (tcp_sack_snd_insert u s e) = rcv_nxt u \<and> t_state (tcp_sack_snd_insert u s e) = t_state u" for u s e
    by (simp add: tcp_sack_snd_insert_def split: prod.splits)
  have l: "rcv_nxt (sack_update_loop u bs) = rcv_nxt u \<and> t_state (sack_update_loop u bs) = t_state u" for u
    by (induction u bs rule: sack_update_loop.induct) (simp_all add: i Let_def)
  show "rcv_nxt (tcp_sack_update t bs) = rcv_nxt t" "t_state (tcp_sack_update t bs) = t_state t"
    using l[of "tcp_sack_snd_trim t"] by (simp_all add: tcp_sack_update_def tcp_sack_snd_trim_def)
qed

lemma xmit_timer_sel [simp]:
  "rcv_nxt (tcp_xmit_timer r t) = rcv_nxt t" "t_state (tcp_xmit_timer r t) = t_state t"
  by (simp_all add: tcp_xmit_timer_def Let_def)

lemma ack_sel [simp]:
  "rcv_nxt (set_wnd ti w t) = rcv_nxt t" "t_state (set_wnd ti w t) = t_state t"
  "rcv_nxt (ack_rtt tn v t) = rcv_nxt t" "t_state (ack_rtt tn v t) = t_state t"
  "rcv_nxt (ts_update tn n v t) = rcv_nxt t" "t_state (ts_update tn n v t) = t_state t"
  "rcv_nxt (in_sack_blocks v t) = rcv_nxt t" "t_state (in_sack_blocks v t) = t_state t"
  "rcv_nxt (or_flags f t) = rcv_nxt t" "t_state (or_flags f t) = t_state t"
  "rcv_nxt (commit_scale t) = rcv_nxt t" "t_state (commit_scale t) = t_state t"
  "rcv_nxt (tcp_sack_prr_ack t a p) = rcv_nxt t" "t_state (tcp_sack_prr_ack t a p) = t_state t"
  "rcv_nxt (sack_enter t) = rcv_nxt t" "t_state (sack_enter t) = t_state t"
  "rcv_nxt (ack_deflate t) = rcv_nxt t" "t_state (ack_deflate t) = t_state t"
  "rcv_nxt (ack_timer ti t) = rcv_nxt t" "t_state (ack_timer ti t) = t_state t"
  "rcv_nxt (ack_open t) = rcv_nxt t" "t_state (ack_open t) = t_state t"
  "rcv_nxt (ack_una ti t) = rcv_nxt t" "t_state (ack_una ti t) = t_state t"
  "rcv_nxt (TCP_SETDELACK t) = rcv_nxt t" "t_state (TCP_SETDELACK t) = t_state t"
  "rcv_nxt (set_timewait t) = rcv_nxt t" "t_state (set_timewait t) = 10"
  by (simp_all add: set_wnd_def ack_rtt_def ts_update_def in_sack_blocks_def or_flags_def commit_scale_def
      tcp_sack_prr_ack_def sack_enter_def ack_deflate_def ack_timer_def ack_open_def ack_una_def TCP_SETDELACK_def
      set_timewait_def tcp_canceltimers_def TCPS_TIME_WAIT_def Let_def)

lemma ack_recover_sel [simp]:
  "rcv_nxt (fst (ack_recover a p t)) = rcv_nxt t" "t_state (fst (ack_recover a p t)) = t_state t"
  by (simp_all add: ack_recover_def Let_def)

section \<open>The receiver's side\<close>

text \<open>
  \<open>keeps c0 c\<close>: a synchronised connection that still has what \<open>c0\<close> had received, and that still
  takes data if \<open>c0\<close> did, or has come to \<open>TIME_WAIT\<close>.
\<close>

definition keeps :: "inconn \<Rightarrow> inconn \<Rightarrow> bool" where
  "keeps c0 c \<longleftrightarrow> rcv_nxt (ctp c) = rcv_nxt (ctp c0) \<and> crcv c = crcv c0 \<and> rq c = rq c0 \<and>
     4 \<le> t_state (ctp c) \<and> t_state (ctp c) \<le> 10 \<and> (ss_cantrcvmore c \<longrightarrow> ss_cantrcvmore c0 \<or> t_state (ctp c) = 10)"

lemma keeps_tp:
  "keeps c0 c \<Longrightarrow> rcv_nxt t = rcv_nxt (ctp c) \<Longrightarrow> t_state t = t_state (ctp c) \<Longrightarrow> keeps c0 (set_tp t c)"
  by (simp add: keeps_def)

lemma keeps_snd: "keeps c0 c \<Longrightarrow> keeps c0 (set_snd s c)"
  by (simp add: keeps_def)

lemma keeps_close: "keeps c0 c \<Longrightarrow> keeps c0 (in_close c)"
  by (simp add: keeps_def)

lemma in_output_Inr: "in_output c = Some (Inr c1) \<Longrightarrow> \<exists>st e. tcp_output (cn c) = Some (Inr (st, e)) \<and> c1 = c\<lparr>cn := st\<rparr>"
  by (cases "tcp_output (cn c)"; cases "the (tcp_output (cn c))") (auto simp: in_output_def)

lemma in_output_keeps:
  assumes "keeps c0 c" "in_output c = Some (Inr c1)"
  shows "keeps c0 c1" "t_state (ctp c1) = t_state (ctp c)"
proof -
  obtain st e where o: "tcp_output (cn c) = Some (Inr (st, e))" "c1 = c\<lparr>cn := st\<rparr>"
    using in_output_Inr[OF assms(2)] by blast
  have "sframe (cn c) st" by (rule tcp_output_frame[OF o(1)]) (use assms(1) in \<open>simp add: keeps_def ctp_def\<close>)
  then have f: "frame (ctp c) (tp st)" "sk st = sk (cn c)"
    using assms(1) by (simp_all add: sframe_def keeps_def ctp_def TCPS_ESTABLISHED_def)
  show "keeps c0 c1" "t_state (ctp c1) = t_state (ctp c)"
    using assms(1) f unfolding o(2) by (simp_all add: keeps_def ctp_def crcv_def frame_def)
qed

lemma in_sbdrop_Inr: "in_sbdrop n c = Some (Inr c1) \<Longrightarrow> \<exists>s. c1 = set_snd s c"
  by (cases "sbdrop (mbufcheck c) n (csnd c)") (auto simp: in_sbdrop_def)

lemma in_sbdrop_keeps: "keeps c0 c \<Longrightarrow> in_sbdrop n c = Some (Inr c1) \<Longrightarrow> keeps c0 c1 \<and> ctp c1 = ctp c"
  using in_sbdrop_Inr[of n c c1] keeps_snd[of c0 c] by auto

lemmas keeps_intros = keeps_tp keeps_snd keeps_close

lemmas tcps_defs = TCPS_CLOSED_def TCPS_LISTEN_def TCPS_SYN_SENT_def TCPS_SYN_RECEIVED_def TCPS_ESTABLISHED_def
  TCPS_CLOSE_WAIT_def TCPS_FIN_WAIT_1_def TCPS_CLOSING_def TCPS_LAST_ACK_def TCPS_FIN_WAIT_2_def TCPS_TIME_WAIT_def

text \<open>The segment does not change in the course of acknowledgement processing.\<close>

definition same_seg :: "invar \<Rightarrow> invar \<Rightarrow> bool" where
  "same_seg v v' \<longleftrightarrow> sg v' = sg v \<and> tif v' = tif v"

lemma same_seg_simps [simp]: "same_seg v v" "same_seg v (v\<lparr>needoutput := n\<rparr>)" "same_seg (v\<lparr>needoutput := n\<rparr>) v' = same_seg v v'"
  by (simp_all add: same_seg_def)

abbreviation kept :: "inconn \<Rightarrow> invar \<Rightarrow> inconn \<Rightarrow> invar \<Rightarrow> bool" where
  "kept c0 v \<equiv> \<lambda>c v'. keeps c0 c \<and> same_seg v v'"

lemma output_drop_keeps:
  assumes "keeps c0 c" "\<And>t. rcv_nxt (f t) = rcv_nxt t \<and> t_state (f t) = t_state t"
  shows "flow_all G S (keeps c0) (output_drop f c)"
  unfolding output_drop_def
  by (intro flow_rules) (use in_output_keeps[OF assms(1)] assms(2) in \<open>auto intro!: keeps_tp\<close>)

lemma ack_now_keeps: "keeps c0 c \<Longrightarrow> flow_all G S (keeps c0) (in_ack_now c)"
  unfolding in_ack_now_def flow_all.simps by (intro allI impI, rule in_output_keeps(1), rule keeps_tp, assumption) simp_all

lemma dropafterack_keeps: "keeps c0 c \<Longrightarrow> flow_all G S (keeps c0) (in_dropafterack v c)"
  using ack_now_keeps by (simp add: in_dropafterack_def)

lemma challenge_keeps: "keeps c0 c \<Longrightarrow> flow_all G S (keeps c0) (in_challenge c)"
proof -
  assume k: "keeps c0 c"
  define c1 where "c1 = (if now c \<noteq> challenge_win c then c\<lparr>challenge_win := now c, challenge_cnt := 0\<rparr> else c)"
  define c2 where "c2 = c1\<lparr>challenge_cnt := challenge_cnt c1 + 1\<rparr>"
  have "keeps c0 c2" using k by (simp add: c1_def c2_def keeps_def ctp_def crcv_def)
  then show ?thesis unfolding in_challenge_def Let_def c1_def[symmetric] c2_def[symmetric] using ack_now_keeps by simp
qed

lemma reset_keeps: "keeps c0 c \<Longrightarrow> flow_all G S (keeps c0) (in_dropwithreset e g v c)"
  by (simp add: in_dropwithreset_def in_reset_def Let_def keeps_def ctp_def crcv_def)

lemma output_if_data_keeps: "keeps c0 c \<Longrightarrow> flow_all G S (keeps c0) (output_if_data c)"
  using in_output_keeps by (auto simp: output_if_data_def)

section \<open>Acknowledgements leave the receiver alone\<close>

lemma fast_rexmt_keeps:
  assumes "keeps c0 c" "rcv_nxt t = rcv_nxt (ctp c)" "t_state t = t_state (ctp c)"
  shows "flow_all G S (keeps c0) (fast_rexmt t ti c)"
  unfolding fast_rexmt_def Let_def using assms
  by (auto intro!: output_drop_keeps keeps_tp simp: set_timer_def)

lemma in_dupack_keeps: "keeps c0 c \<Longrightarrow> flow_all G (kept c0 v) (keeps c0) (in_dupack e c v)"
  unfolding in_dupack_def Let_def
  by (auto intro!: output_drop_keeps fast_rexmt_keeps keeps_tp)

lemma in_finacked_keeps: "keeps c0 c \<Longrightarrow> flow_all G (kept c0 v) (keeps c0) (in_finacked f c v)"
  unfolding in_finacked_def Let_def by (auto simp: keeps_def tcps_defs intro!: dropafterack_keeps)

lemma ack_drop_keeps:
  assumes "keeps c0 c" "snd (ack_drop acked c) = Some (Inr c1)"
  shows "keeps c0 c1"
proof (cases "acked > sb_cc (so_snd (sk (cn c)))")
  case True
  let ?cc = "sb_cc (so_snd (sk (cn c)))"
  let ?c = "set_tp ((ctp c)\<lparr>snd_wnd := snd_wnd (ctp c) - ?cc\<rparr>) c"
  have "keeps c0 ?c" by (rule keeps_tp[OF assms(1)]) simp_all
  moreover have "in_sbdrop (sint ?cc) ?c = Some (Inr c1)" using assms(2) True by (simp add: ack_drop_def Let_def)
  ultimately show ?thesis using in_sbdrop_keeps by blast
next
  case False
  then obtain c2 where "in_sbdrop (sint acked) c = Some (Inr c2)"
    "c1 = set_tp ((ctp c2)\<lparr>snd_wnd := snd_wnd (ctp c2) - acked\<rparr>) c2"
    using assms(2) by (cases "sbdrop (mbufcheck c) (sint acked) (csnd c)") (auto simp: ack_drop_def Let_def in_sbdrop_def)
  moreover have "keeps c0 c2" using in_sbdrop_keeps[OF assms(1) calculation(1)] by blast
  ultimately show ?thesis by (simp add: keeps_tp)
qed

lemma in_partial_keeps:
  assumes "keeps c0 c" "in_partial acked c = Some (Inr c1)"
  shows "keeps c0 c1"
proof -
  let ?c = "set_tp ((ctp c)\<lparr>t_rtt := 0, snd_nxt := snd_una (ctp c), snd_cwnd := seg32 (ctp c)\<rparr>) c"
  have k: "keeps c0 ?c" by (rule keeps_tp[OF assms(1)]) simp_all
  obtain c2 where o: "in_output ?c = Some (Inr c2)"
    using assms(2) by (cases "in_output ?c"; cases "the (in_output ?c)") (auto simp: in_partial_def Let_def)
  have "\<exists>t. c1 = set_tp t c2 \<and> rcv_nxt t = rcv_nxt (ctp c2) \<and> t_state t = t_state (ctp c2)"
    using assms(2) o by (auto simp: in_partial_def Let_def)
  then show ?thesis using keeps_tp[OF in_output_keeps(1)[OF k o]] by auto
qed

lemma in_acked_keeps: "keeps c0 c \<Longrightarrow> flow_all G (kept c0 v) (keeps c0) (in_acked f p a v c)"
proof -
  assume k: "keeps c0 c"
  let ?c = "set_tp (fst (ack_recover a (prev_sacked v) (ack_una (sg v) (ctp c)))) c"
  have c: "keeps c0 ?c" by (rule keeps_tp[OF k]) simp_all
  show ?thesis
    unfolding in_acked_def split_def
    by (rule flow_all_res, rule flow_all_mono[OF in_finacked_keeps]) (use c in_partial_keeps[OF c] in \<open>auto split: if_splits\<close>)
qed

lemma in_newack_keeps: "keeps c0 c \<Longrightarrow> flow_all G (kept c0 v) (keeps c0) (in_newack c v)"
proof -
  assume k: "keeps c0 c"
  let ?p = "ack_partial (ctp c) (sg v)"
  let ?t1 = "if ?p then ctp c else ack_deflate (ctp c)"
  let ?t3 = "ack_ready ?p (now c) v ?t1"
  have "keeps c0 (set_tp ?t1 c)" "keeps c0 (set_tp ?t3 c)"
    by (rule keeps_tp[OF k]; simp add: ack_ready_def Let_def)+
  then show ?thesis
    unfolding in_newack_def Let_def split_def
    by (intro flow_rules dropafterack_keeps flow_all_mono[OF in_acked_keeps]) (auto intro: ack_drop_keeps)
qed

lemma in_ack_keeps: "keeps c0 c \<Longrightarrow> flow_all G (kept c0 v) (keeps c0) (in_ack e c v)"
  by (simp add: in_ack_def in_dupack_keeps in_newack_keeps)

end
