(* ===== verification/Tcp_Input_Correct.thy ===== *)
theory Tcp_Input_Correct
  imports Tcp_Input_Flow
begin

text \<open>
  Correctness of \<open>tcp_input\<close> at the receiver: whatever arrives on a synchronised connection, the
  receive buffer gets the peer's stream and nothing else.
\<close>

section \<open>Cutting the tail\<close>

lemma right_cut_at:
  assumes "seg_at strm b p (sg v)" "0 < k" "k \<le> slen (sg v)"
  shows "seg_at strm b p (sg (right_cut (int k) v))" "slen (sg (right_cut (int k) v)) = slen (sg v) - k"
proof -
  let ?ti = "sg v"
  have b: "vbytes (ti_m (sg (right_cut (int k) v))) = take (slen ?ti - k) (vbytes (ti_m ?ti))"
    using vm_adj_tail[OF assms(2)] assms(3) by (simp add: right_cut_def slen_def Let_def)
  show l: "slen (sg (right_cut (int k) v)) = slen ?ti - k" unfolding slen_def b using assms(3) by (simp add: slen_def)
  have s: "seg_at strm b p ?ti" "ti_seq (sg (right_cut (int k) v)) = ti_seq ?ti"
    "ti_len (sg (right_cut (int k) v)) = ti_len (seg_skip (int k) ?ti)"
    using assms(1) by (simp_all add: right_cut_def seg_skip_def Let_def)
  have n: "sint (ti_len (seg_skip (int k) ?ti)) = int (slen ?ti - k)"
    using seg_skip_at[OF assms(1,3)] by (simp add: seg_at_def)
  have "take (slen ?ti - k) (map strm [p..<p + slen ?ti]) = map strm [p..<p + (slen ?ti - k)]"
    using assms(3) by (simp add: take_map)
  then show "seg_at strm b p (sg (right_cut (int k) v))"
    using s b n l by (simp add: seg_at_def)
qed

section \<open>Data segments\<close>

definition no_fin :: "tseg \<Rightarrow> bool" where
  "no_fin ti \<longleftrightarrow> ti_flags ti AND TH_FIN = 0"

text \<open>A segment that carries data and an acknowledgement, and no control.\<close>

definition data_flags :: "u8 \<Rightarrow> bool" where
  "data_flags f \<longleftrightarrow> f AND (TH_SYN OR TH_FIN OR TH_RST OR TH_URG) = 0"

lemma mask_zero:
  fixes f :: u8
  assumes "f AND n = 0" "m AND n = m"
  shows "f AND m = 0"
proof -
  have "f AND m = (f AND n) AND m" using assms(2) by (metis and.assoc and.commute)
  then show ?thesis using assms(1) by simp
qed

lemma data_flags_bits:
  assumes "data_flags f"
  shows "\<not> hasf TH_SYN f" "\<not> hasf TH_FIN f" "\<not> hasf TH_RST f" "\<not> hasf TH_URG f" "f AND TH_FIN = 0"
    "data_flags (f AND g)" "\<not> hasf (TH_SYN OR TH_FIN) f"
proof -
  note z = mask_zero[OF assms[unfolded data_flags_def]]
  show "\<not> hasf TH_SYN f" "\<not> hasf TH_FIN f" "\<not> hasf TH_RST f" "\<not> hasf TH_URG f" "f AND TH_FIN = 0"
    "\<not> hasf (TH_SYN OR TH_FIN) f"
    unfolding hasf_def not_not by (rule z, simp add: TH_SYN_def TH_FIN_def TH_RST_def TH_URG_def)+
  have "f AND g AND m = 0" if "f AND m = 0" for m using that by (metis and.left_commute and_zero_eq)
  then show "data_flags (f AND g)" using assms by (simp add: data_flags_def and.assoc)
qed

section \<open>The queue without FIN\<close>

lemma seg_skip_flags [simp]: "ti_flags (seg_skip i ti) = ti_flags ti"
  by (simp add: seg_skip_def)

lemma reass_back_nofin: "\<forall>q \<in> set qs. no_fin q \<Longrightarrow> q \<in> set (reass_back ti qs) \<Longrightarrow> no_fin q"
  by (induction ti qs rule: reass_back.induct) (auto simp: Let_def no_fin_def split: if_splits)

lemma reass_insert_nofin:
  assumes "\<forall>q \<in> set qs. no_fin q" "no_fin ti" "reass_insert ti qs = Some (q', t1)" "q \<in> set q'"
  shows "no_fin q"
proof -
  let ?P = "\<lambda>p. \<not> SEQ_GT (ti_seq p) (ti_seq ti)"
  obtain t2 where f: "reass_front (takeWhile ?P qs) ti = Some t2" "t1 = t2"
    "q' = takeWhile ?P qs @ t2 # reass_back t2 (dropWhile ?P qs)"
    using assms(3) by (auto simp: reass_insert_def Let_def split: option.splits)
  have "no_fin t2" using f(1) assms(2) by (auto simp: reass_front_def no_fin_def Let_def split: if_splits)
  moreover have "\<forall>q \<in> set (dropWhile ?P qs). no_fin q" "\<forall>q \<in> set (takeWhile ?P qs). no_fin q"
    using assms(1) by (auto dest: set_dropWhileD set_takeWhileD)
  ultimately show ?thesis using assms(4) f(3) reass_back_nofin[of "dropWhile ?P qs" q t2] by auto
qed

lemma reass_deliver_nofin:
  assumes "\<forall>q \<in> set qs. no_fin q" "reass_deliver cr t s qs fl = ((t', s', q'), fl')" "fl AND TH_FIN = 0"
  shows "fl' AND TH_FIN = 0 \<and> (\<forall>q \<in> set q'. no_fin q) \<and> t_state t' = t_state t"
  using assms
  by (induction cr t s qs fl rule: reass_deliver.induct) (auto simp: no_fin_def split: if_splits)

lemma reass_present_nofin:
  assumes "\<forall>q \<in> set qs. no_fin q" "reass_present cr (t, s, qs) = ((t', s', q'), fl)"
  shows "fl AND TH_FIN = 0 \<and> (\<forall>q \<in> set q'. no_fin q) \<and> t_state t' = t_state t"
proof -
  obtain t1 s1 q1 f1 where d: "reass_deliver cr t s qs 0 = ((t1, s1, q1), f1)" by (metis prod_cases3 surj_pair)
  have "f1 AND TH_FIN = 0" "\<forall>q \<in> set q1. no_fin q" "t_state t1 = t_state t"
    using reass_deliver_nofin[OF assms(1) d] by simp_all
  then show ?thesis using assms d by (auto simp: reass_present_def split: if_splits list.splits)
qed

lemma TCP_REASS_nofin:
  assumes "\<forall>q \<in> set qs. no_fin q" "no_fin ti" "TCP_REASS cr ti (t, s, qs) = ((t', s', q'), fl)"
  shows "fl AND TH_FIN = 0 \<and> (\<forall>q \<in> set q'. no_fin q) \<and> t_state t' = t_state t"
proof (cases "ti_seq ti = rcv_nxt t \<and> qs = [] \<and> t_state t = TCPS_ESTABLISHED")
  case True
  then show ?thesis using assms by (auto simp: TCP_REASS_def no_fin_def)
next
  case False
  obtain t1 s1 q1 f1 where r: "tcp_reass cr (Some ti) (t, s, qs) = ((t1, s1, q1), f1)" by (metis prod_cases3 surj_pair)
  have "f1 AND TH_FIN = 0 \<and> (\<forall>q \<in> set q1. no_fin q) \<and> t_state t1 = t_state t"
  proof (cases "ti_seq ti \<noteq> rcv_nxt t \<and> reass_full (fst s) qs ti \<or> reass_insert ti qs = None")
    case True
    then have "tcp_reass cr (Some ti) (t, s, qs) = ((t, s, qs), 0)" by (auto simp: tcp_reass_def)
    then show ?thesis using r assms(1) by simp
  next
    case F: False
    then obtain q2 t2 where i: "reass_insert ti qs = Some (q2, t2)" by auto
    define t0 where "t0 = (if tf TF_SACK_PERMIT t then tcp_sack_addblock t (ti_seq t2) (seg_fin t2) else t)"
    have "reass_present cr (t0, s, q2) = ((t1, s1, q1), f1)" using r F i by (auto simp: tcp_reass_def t0_def)
    moreover have "\<forall>q \<in> set q2. no_fin q" using reass_insert_nofin[OF assms(1,2) i] by blast
    moreover have "t_state t0 = t_state t" by (simp add: t0_def)
    ultimately show ?thesis using reass_present_nofin by metis
  qed
  then show ?thesis using assms(3) False r by (auto simp: TCP_REASS_def)
qed

section \<open>From \<open>step6\<close> on\<close>

definition rcv_of :: "inconn \<Rightarrow> rstate" where
  "rcv_of c = (ctp c, crcv c, rq c)"

definition rstart :: "(nat \<Rightarrow> u8) \<Rightarrow> u32 \<Rightarrow> nat \<Rightarrow> nat \<Rightarrow> inconn \<Rightarrow> bool" where
  "rstart strm b n lim c \<longleftrightarrow> recv_ok strm b n lim (rcv_of c) \<and> (\<forall>q \<in> set (rq c). no_fin q) \<and>
     \<not> ss_cantrcvmore c \<and> TCPS_ESTABLISHED \<le> t_state (ctp c) \<and> t_state (ctp c) \<le> TCPS_TIME_WAIT"

text \<open>What a segment of the positions \<open>{p..<p + l}\<close> may do to a receiver that has \<open>{..<n}\<close>.\<close>

definition rcvd :: "(nat \<Rightarrow> u8) \<Rightarrow> u32 \<Rightarrow> nat \<Rightarrow> nat \<Rightarrow> nat \<Rightarrow> nat \<Rightarrow> inconn \<Rightarrow> inconn \<Rightarrow> bool" where
  "rcvd strm b n lim p l c0 c \<longleftrightarrow> (\<exists>n'. n \<le> n' \<and> recv_ok strm b n' lim (rcv_of c) \<and> (\<forall>q \<in> set (rq c). no_fin q) \<and>
     sb_bytes (crcv c) = sb_bytes (crcv c0) @ map strm [n..<n'] \<and>
     {..<n} \<union> held b n (rq c0) \<subseteq> {..<n'} \<union> held b n' (rq c) \<and>
     {..<n'} \<union> held b n' (rq c) \<subseteq> {..<n} \<union> held b n (rq c0) \<union> {p..<p + l})"

lemma recv_ok_cong: "rcv_nxt t' = rcv_nxt t \<Longrightarrow> recv_ok strm b n lim (t', s, q) = recv_ok strm b n lim (t, s, q)"
  by (simp add: recv_ok_def)

lemma rcvd_keeps:
  assumes "rstart strm b n lim c0" "keeps c0 c"
  shows "rcvd strm b n lim p l c0 c"
proof -
  have "recv_ok strm b n lim (rcv_of c)" "rq c = rq c0" "crcv c = crcv c0"
    using assms recv_ok_cong[of "ctp c" "ctp c0"] by (simp_all add: rstart_def keeps_def rcv_of_def)
  then show ?thesis using assms(1) unfolding rcvd_def rstart_def by (intro exI[of _ n]) auto
qed

lemma rcvd_trans_keeps:
  assumes "rcvd strm b n lim p l c0 c" "keeps c c1"
  shows "rcvd strm b n lim p l c0 c1"
proof -
  have "rq c1 = rq c" "crcv c1 = crcv c" "recv_ok strm b m lim (rcv_of c1) = recv_ok strm b m lim (rcv_of c)" for m
    using assms(2) recv_ok_cong[of "ctp c1" "ctp c"] by (simp_all add: keeps_def rcv_of_def)
  then show ?thesis using assms(1) unfolding rcvd_def by metis
qed

lemma conn_keeps_refl: "4 \<le> t_state (ctp c) \<Longrightarrow> t_state (ctp c) \<le> 10 \<Longrightarrow> keeps c c"
  by (simp add: keeps_def)

lemma in_winup_keeps:
  assumes "keeps c0 c" "in_winup c v = (c1, v1)"
  shows "keeps c0 c1" "sg v1 = sg v" "tif v1 = tif v"
proof -
  have "(c1 = c \<or> c1 = set_tp (set_wnd (sg v) (tiwin v) (ctp c)) c) \<and> sg v1 = sg v \<and> tif v1 = tif v"
    using assms(2) by (auto simp: in_winup_def Let_def split: if_splits)
  then show "keeps c0 c1" "sg v1 = sg v" "tif v1 = tif v" using assms(1) by (auto intro: keeps_tp)
qed

lemma in_urg_keeps:
  assumes "keeps c0 c" "in_urg c v = (c1, v1)" "\<not> hasf TH_URG (tif v)"
  shows "keeps c0 c1" "v1 = v"
proof -
  have "(c1 = c \<or> c1 = set_tp ((ctp c)\<lparr>rcv_up := rcv_nxt (ctp c)\<rparr>) c) \<and> v1 = v"
    using assms(2,3) by (auto simp: in_urg_def Let_def split: if_splits)
  then show "keeps c0 c1" "v1 = v" using assms(1) by (auto intro: keeps_tp)
qed

lemma in_text_rcvd:
  assumes "rstart strm b n lim c0" "keeps c0 c" "seg_at strm b p (sg v)" "n \<le> p" "p + slen (sg v) \<le> lim"
    "{p..<p + slen (sg v)} \<subseteq> {p0..<p0 + l0}" "no_fin (sg v)" "tif v AND TH_FIN = 0" "in_text c v = (c1, v1)"
  shows "rcvd strm b n lim p0 l0 c0 c1" "tif v1 AND TH_FIN = 0" "4 \<le> t_state (ctp c1)" "t_state (ctp c1) \<le> 10"
proof -
  have st: "4 \<le> t_state (ctp c)" "t_state (ctp c) \<le> 10" using assms(2) by (simp_all add: keeps_def)
  have "rcvd strm b n lim p0 l0 c0 c1 \<and> tif v1 AND TH_FIN = 0 \<and> t_state (ctp c1) = t_state (ctp c)"
  proof (cases "(ti_len (sg v) \<noteq> 0 \<or> hasf TH_FIN (tif v)) \<and> t_state (ctp c) < TCPS_TIME_WAIT")
    case False
    then have e: "c1 = c" "v1 = v\<lparr>tif := tif v AND NOT TH_FIN\<rparr>" using assms(9) by (auto simp: in_text_def)
    have "tif v1 AND TH_FIN = 0" unfolding e(2) using assms(8) by (simp add: and.assoc)
    then show ?thesis using e rcvd_keeps[OF assms(1,2)] by simp
  next
    case True
    have cr: "\<not> ss_cantrcvmore c" "rq c = rq c0" "crcv c = crcv c0" "rcv_nxt (ctp c) = rcv_nxt (ctp c0)"
      using assms(1,2) True by (auto simp: keeps_def rstart_def tcps_defs)
    obtain t s q fl where r: "TCP_REASS False (sg v) (ctp c, crcv c, rq c) = ((t, s, q), fl)" by (metis prod_cases3 surj_pair)
    have c1: "c1 = (set_tp t (set_rcv s c))\<lparr>rq := q\<rparr>" "v1 = v\<lparr>tif := fl\<rparr>"
      using assms(9) True r cr(1) by (auto simp: in_text_def in_reass_def)
    have sel: "ctp c1 = t" "crcv c1 = s" "rq c1 = q"
      unfolding c1(1) by (simp_all add: ctp_def crcv_def set_tp_def set_rcv_def)
    have ok: "recv_ok strm b n lim (ctp c, crcv c, rq c)"
      using assms(1) cr recv_ok_cong[OF cr(4)] by (simp add: rstart_def rcv_of_def)
    have nf: "fl AND TH_FIN = 0" "\<forall>q' \<in> set q. no_fin q'" "t_state t = t_state (ctp c)"
      using TCP_REASS_nofin[OF _ assms(7) r] assms(1) cr(2) by (simp_all add: rstart_def)
    obtain n' where N: "n \<le> n'" "recv_ok strm b n' lim (t, s, q)" "sb_bytes s = sb_bytes (crcv c) @ map strm [n..<n']"
      "{..<n'} \<union> held b n' q = {..<n} \<union> held b n (rq c) \<union>
        (if p \<noteq> n \<and> reass_full (fst (crcv c)) (rq c) (sg v) then {} else {p..<p + slen (sg v)})"
      using TCP_REASS_ok[OF ok _ assms(3-5)] st(1) r by (auto simp: TCPS_ESTABLISHED_def)
    have "rcvd strm b n lim p0 l0 c0 c1"
      unfolding rcvd_def rcv_of_def sel
      by (intro exI[of _ n'] conjI) (use N nf(2) cr assms(6) in auto)
    then show ?thesis using nf sel c1(2) by simp
  qed
  then show "rcvd strm b n lim p0 l0 c0 c1" "tif v1 AND TH_FIN = 0" "4 \<le> t_state (ctp c1)" "t_state (ctp c1) \<le> 10"
    using st by auto
qed

lemma in_step6_rcvd:
  assumes "rstart strm b n lim c0" "keeps c0 c" "seg_at strm b p (sg v)" "n \<le> p" "p + slen (sg v) \<le> lim"
    "{p..<p + slen (sg v)} \<subseteq> {p0..<p0 + l0}" "no_fin (sg v)" "data_flags (tif v)" "in_step6 c v = Some (Inr c')"
  shows "rcvd strm b n lim p0 l0 c0 c'"
proof -
  obtain c1 v1 where w: "in_winup c v = (c1, v1)" by fastforce
  note W = in_winup_keeps[OF assms(2) w]
  obtain c2 v2 where u: "in_urg c1 v1 = (c2, v2)" by fastforce
  have nu: "\<not> hasf TH_URG (tif v1)" using data_flags_bits(4)[OF assms(8)] W(3) by simp
  note U = in_urg_keeps[OF W(1) u nu]
  obtain c3 v3 where x: "in_text c2 v2 = (c3, v3)" by fastforce
  have v2: "sg v2 = sg v" "tif v2 = tif v" using U(2) W(2,3) by simp_all
  note T = in_text_rcvd[OF assms(1) U(1) _ assms(4) _ _ _ _ x, of p0 l0, unfolded v2, OF assms(3,5,6,7) data_flags_bits(5)[OF assms(8)]]
  have f: "in_fin c3 v3 = c3" using T(2) by (simp add: in_fin_def hasf_def)
  have "c' = c3 \<or> in_output c3 = Some (Inr c')"
    using assms(9) by (auto simp: in_step6_def w u x f Let_def split: if_splits)
  then show ?thesis using T(1) rcvd_trans_keeps[OF T(1)] in_output_keeps(1)[OF conn_keeps_refl[OF T(3,4)]] by blast
qed

section \<open>Trimming to the window\<close>

text \<open>The variables of a data segment that is the part from \<open>p\<close> on of what arrived.\<close>

definition piece :: "(nat \<Rightarrow> u8) \<Rightarrow> u32 \<Rightarrow> nat \<Rightarrow> nat \<Rightarrow> nat \<Rightarrow> invar \<Rightarrow> bool" where
  "piece strm b p0 l0 p v \<longleftrightarrow> seg_at strm b p (sg v) \<and> p0 \<le> p \<and> p + slen (sg v) \<le> p0 + l0 \<and> no_fin (sg v) \<and> data_flags (tif v)"

lemma seg_at_urp [simp]: "seg_at strm b p (ti\<lparr>ti_urp := x\<rparr>) = seg_at strm b p ti" "slen (ti\<lparr>ti_urp := x\<rparr>) = slen ti"
  "no_fin (ti\<lparr>ti_urp := x\<rparr>) = no_fin ti" "no_fin (seg_skip i ti) = no_fin ti"
  by (simp_all add: seg_at_def slen_def no_fin_def)

lemma left_cut_piece:
  assumes "piece strm b p0 l0 p v" "k \<le> slen (sg v)"
  shows "piece strm b p0 l0 (p + k) (left_cut (int k) v)" "slen (sg (left_cut (int k) v)) = slen (sg v) - k"
  using assms seg_skip_at[of strm b p "sg v" k] data_flags_bits(6)
  by (auto simp: piece_def left_cut_def Let_def)

lemma right_cut_piece:
  assumes "piece strm b p0 l0 p v" "0 < k" "k \<le> slen (sg v)"
  shows "piece strm b p0 l0 p (right_cut (int k) v)" "slen (sg (right_cut (int k) v)) = slen (sg v) - k"
  using assms right_cut_at[OF _ assms(2,3)] data_flags_bits(6)
  by (auto simp: piece_def right_cut_def Let_def no_fin_def)

text \<open>The gap between two positions, as the code computes it.\<close>

lemma in_left_piece:
  assumes "keeps c0 c" "rcv_nxt (ctp c0) = b + of_nat n" "piece strm b p0 l0 p v" "n < p + 2 ^ 31" "p < n + 2 ^ 31"
  shows "flow_all (\<lambda>c1 v1. keeps c0 c1 \<and> rcv_wnd (ctp c1) = rcv_wnd (ctp c) \<and> (\<exists>p1 \<ge> n. piece strm b p0 l0 p1 v1))
    S (keeps c0) (in_left c v)"
proof -
  let ?v = "v\<lparr>rst_seq := ti_seq (sg v)\<rparr>"
  have P: "piece strm b p0 l0 p ?v" using assms(3) by (simp add: piece_def)
  have s: "ti_seq (sg ?v) = b + of_nat p" "sint (ti_len (sg ?v)) = int (slen (sg ?v))"
    using P by (simp_all add: piece_def seg_at_def)
  have d: "sint (rcv_nxt (ctp c) - ti_seq (sg ?v)) = int n - int p"
    using assms(1,2) s(1) seq_diff[OF assms(4,5), of b] by (simp add: keeps_def)
  have f: "\<not> hasf TH_SYN (tif ?v)" "\<not> hasf TH_FIN (tif ?v)"
    using data_flags_bits(1,2)[of "tif v"] assms(3) by (simp_all add: piece_def)
  show ?thesis
  proof (cases "n \<le> p")
    case True
    then have "in_left c v = Go c ?v" using d by (simp add: in_left_def Let_def)
    then show ?thesis using P True assms(1) by auto
  next
    case False
    define k where "k = n - p"
    have k: "int n - int p = int k" "0 < k" "p + k = n" using False by (simp_all add: k_def)
    have ls: "left_syn (int k) ?v = (int k, ?v)" using f(1) by (simp add: left_syn_def)
    let ?c = "if tf TF_SACK_PERMIT (ctp c) \<and> sint (ti_len (sg ?v)) > 0
      then set_tp (or_flags (TF_DSACK OR TF_ACKNOW) ((ctp c)\<lparr>rcv_dsackblk := blk (ti_seq (sg ?v)) (seg_fin (sg ?v))\<rparr>)) c else c"
    have l: "in_left c v = (if int k \<ge> int (slen (sg ?v)) then in_dropafterack ?v ?c else Go c (left_cut (int k) ?v))"
      using d f ls k(2) s(2) unfolding in_left_def Let_def k(1) by auto
    have "keeps c0 ?c" using assms(1) by (auto intro!: keeps_tp)
    then have da: "flow_all G S (keeps c0) (in_dropafterack ?v ?c)" for G by (rule dropafterack_keeps)
    show ?thesis
    proof (cases "k < slen (sg ?v)")
      case T: True
      have "piece strm b p0 l0 n (left_cut (int k) ?v)" using left_cut_piece(1)[OF P, of k] T k(3) by simp
      then show ?thesis unfolding l using T assms(1) by auto
    next
      case F: False
      then show ?thesis unfolding l using da by simp
    qed
  qed
qed

lemma in_right_piece:
  assumes "keeps c0 c" "rcv_nxt (ctp c0) = b + of_nat n" "piece strm b p0 l0 p v" "n \<le> p" "p0 + l0 < n + 2 ^ 31"
    "unat (rcv_wnd (ctp c)) < 2 ^ 31"
  shows "flow_all (\<lambda>c1 v1. keeps c0 c1 \<and> (\<exists>p1 \<ge> n. piece strm b p0 l0 p1 v1 \<and> p1 + slen (sg v1) \<le> n + unat (rcv_wnd (ctp c))))
    S (keeps c0) (in_right c v)"
proof -
  let ?w = "unat (rcv_wnd (ctp c))" and ?l = "slen (sg v)"
  have s: "ti_seq (sg v) = b + of_nat p" "sint (ti_len (sg v)) = int ?l" "seg_fin (sg v) = b + of_nat (p + ?l)"
    "p + ?l \<le> p0 + l0" "\<not> hasf TH_SYN (tif v)"
    using assms(3) seg_fin_at data_flags_bits(1)[of "tif v"] by (auto simp: piece_def seg_at_def)
  have r: "rcv_nxt (ctp c) + rcv_wnd (ctp c) = b + of_nat (n + ?w)"
    using assms(1,2) by (simp add: keeps_def)
  have d: "sint (seg_fin (sg v) - (rcv_nxt (ctp c) + rcv_wnd (ctp c))) = int (p + ?l) - int (n + ?w)"
    unfolding s(3) r by (rule seq_diff) (use s(4) assms(4-6) in simp_all)
  show ?thesis
  proof (cases "p + ?l \<le> n + ?w")
    case True
    then have "\<not> 0 < sint (seg_fin (sg v) - (rcv_nxt (ctp c) + rcv_wnd (ctp c)))"
      unfolding d by (metis diff_le_0_iff_le not_less of_nat_le_iff)
    then have "in_right c v = Go c v" unfolding in_right_def Let_def by simp
    then show ?thesis using True assms(1,3,4) by auto
  next
    case False
    define k where "k = p + ?l - (n + ?w)"
    have k: "int (p + ?l) - int (n + ?w) = int k" "0 < k" "p + ?l = n + ?w + k" using False by (simp_all add: k_def)
    have da: "flow_all G S (keeps c0) (in_dropafterack v c)" for G by (rule dropafterack_keeps[OF assms(1)])
    have R: "in_right c v = (if int k \<ge> int ?l
        then (if rcv_wnd (ctp c) = 0 \<and> ti_seq (sg v) = rcv_nxt (ctp c)
              then Go (set_tp (or_flags TF_ACKNOW (ctp c)) c) (right_cut (int k) v) else in_dropafterack v c)
        else Go c (right_cut (int k) v))"
      unfolding in_right_def Let_def d s(2) k(1) using s(5) k(2) by simp
    show ?thesis
    proof (cases "k < ?l")
      case True
      have kl: "k \<le> ?l" using True by simp
      have "piece strm b p0 l0 p (right_cut (int k) v)" "p + slen (sg (right_cut (int k) v)) = n + ?w"
        using right_cut_piece[OF assms(3) k(2) kl] kl k(3) by simp_all
      then show ?thesis unfolding R using True assms(1,4) by auto
    next
      case F: False
      show ?thesis
      proof (cases "rcv_wnd (ctp c) = 0 \<and> ti_seq (sg v) = rcv_nxt (ctp c)")
        case True
        have pn: "p = n"
          by (rule seq_eq[of p n b]) (use True s(1,4) assms(1,2,4,5) in \<open>simp_all add: keeps_def\<close>)
        then have kl: "k = ?l" using True k(3) by simp
        have "piece strm b p0 l0 p (right_cut (int k) v)" "slen (sg (right_cut (int k) v)) = 0"
          using right_cut_piece[OF assms(3) k(2)] kl by simp_all
        then show ?thesis unfolding R using True F assms(1) pn by (auto intro!: keeps_tp)
      next
        case G: False
        then show ?thesis unfolding R if_not_P[OF G] using F da by simp
      qed
    qed
  qed
qed

section \<open>The whole routine\<close>

text \<open>The window the routine computes.\<close>

definition in_wnd :: "inconn \<Rightarrow> u32" where
  "in_wnd c = w32 (max (max 0 (sbspace (so_rcv (sk (cn c))))) (sint (rcv_adv (ctp c) - rcv_nxt (ctp c))))"

text \<open>A part of the segment within the window, on a connection that still has what it had.\<close>

definition ready :: "(nat \<Rightarrow> u8) \<Rightarrow> u32 \<Rightarrow> nat \<Rightarrow> nat \<Rightarrow> nat \<Rightarrow> nat \<Rightarrow> inconn \<Rightarrow> inconn \<Rightarrow> invar \<Rightarrow> bool" where
  "ready strm b n lim p0 l0 c0 c v \<longleftrightarrow> keeps c0 c \<and> (\<exists>p \<ge> n. piece strm b p0 l0 p v \<and> p + slen (sg v) \<le> lim)"

lemma ready_same:
  "ready strm b n lim p0 l0 c0 c v \<Longrightarrow> keeps c0 c1 \<Longrightarrow> sg v1 = sg v \<Longrightarrow> tif v1 = tif v \<Longrightarrow> ready strm b n lim p0 l0 c0 c1 v1"
  by (auto simp: ready_def piece_def)

lemma ready_keeps: "ready strm b n lim p0 l0 c0 c v \<Longrightarrow> keeps c0 c"
  by (simp add: ready_def)

lemma ready_flags: "ready strm b n lim p0 l0 c0 c v \<Longrightarrow> data_flags (tif v)"
  by (auto simp: ready_def piece_def)

lemma in_checks_ready:
  assumes "ready strm b n lim p0 l0 c0 c v"
  shows "flow_all (ready strm b n lim p0 l0 c0) S (keeps c0) (in_tsrecent c v)"
    "flow_all (ready strm b n lim p0 l0 c0) S (keeps c0) (in_rst c v)"
    "flow_all (ready strm b n lim p0 l0 c0) S (keeps c0) (in_syn c v)"
    "flow_all (ready strm b n lim p0 l0 c0) S (keeps c0) (in_sack c v)"
    "flow_all (ready strm b n lim p0 l0 c0) S (keeps c0) (in_synrcvd e c v)"
proof -
  note K = ready_keeps[OF assms] and F = data_flags_bits[OF ready_flags[OF assms]]
  show "flow_all (ready strm b n lim p0 l0 c0) S (keeps c0) (in_tsrecent c v)"
    unfolding in_tsrecent_def flow_all.simps by (rule ready_same[OF assms]) (auto intro: keeps_tp[OF K])
  show "flow_all (ready strm b n lim p0 l0 c0) S (keeps c0) (in_rst c v)" using assms F(3) by (simp add: in_rst_def)
  show "flow_all (ready strm b n lim p0 l0 c0) S (keeps c0) (in_syn c v)" using assms K F(1) by (simp add: in_syn_def)
  show "flow_all (ready strm b n lim p0 l0 c0) S (keeps c0) (in_sack c v)"
  proof (cases "tf TF_SACK_PERMIT (ctp c)")
    case True
    show ?thesis unfolding in_sack_def Let_def if_P[OF True] flow_all.simps
      by (rule ready_same[OF assms keeps_tp[OF K]]) simp_all
  next
    case False
    then show ?thesis using assms by (simp add: in_sack_def)
  qed
  have "t_state (ctp c) \<noteq> TCPS_SYN_RECEIVED" using K by (simp add: keeps_def tcps_defs)
  then show "flow_all (ready strm b n lim p0 l0 c0) S (keeps c0) (in_synrcvd e c v)"
    using assms by (simp add: in_synrcvd_def)
qed

lemma in_synced_ready:
  assumes "keeps c0 c" "rcv_nxt (ctp c0) = b + of_nat n" "piece strm b p l p v" "n < p + 2 ^ 31" "p + l < n + 2 ^ 31"
    "n + unat (rcv_wnd (ctp c)) \<le> lim" "lim \<le> n + 2 ^ 30"
  shows "flow_all (ready strm b n lim p l c0) (ready strm b n lim p l c0) (keeps c0) (in_synced e c v)"
proof -
  let ?w = "rcv_wnd (ctp c)"
  let ?A = "\<lambda>c1 v1. keeps c0 c1 \<and> rcv_wnd (ctp c1) = ?w \<and> v1 = v"
  let ?B = "\<lambda>c1 v1. keeps c0 c1 \<and> rcv_wnd (ctp c1) = ?w \<and> (\<exists>p1 \<ge> n. piece strm b p l p1 v1)"
  let ?R = "ready strm b n lim p l c0"
  have lo: "p < n + 2 ^ 31" "unat ?w < 2 ^ 31" using assms(3,5-7) by (auto simp: piece_def)
  have paws: "flow_all ?A ?R (keeps c0) (in_paws c v)"
    using assms(1) by (auto simp: in_paws_def Let_def intro!: dropafterack_keeps keeps_tp)
  have left: "flow_all ?B ?R (keeps c0) (in_left c1 v1)" if "?A c1 v1" for c1 v1
    using in_left_piece[OF conjunct1[OF that] assms(2) _ assms(4) lo(1), of strm p l v1 ?R] that assms(3) by simp
  have gone: "flow_all ?B ?R (keeps c0) (in_gone e c1 v1)" if "?B c1 v1" for c1 v1
    unfolding in_gone_def
    by (rule flow_all_if, rule reset_keeps, rule keeps_close, rule conjunct1[OF that], unfold flow_all.simps, rule that)
  have right: "flow_all ?R ?R (keeps c0) (in_right c1 v1)" if "?B c1 v1" for c1 v1
  proof -
    have "\<exists>p1 \<ge> n. piece strm b p l p1 v1" by (rule conjunct2[OF conjunct2[OF that]])
    then obtain p1 where p1: "n \<le> p1" "piece strm b p l p1 v1" by (elim exE conjE)
    have "flow_all (\<lambda>c2 v2. keeps c0 c2 \<and> (\<exists>p2 \<ge> n. piece strm b p l p2 v2 \<and> p2 + slen (sg v2) \<le> n + unat ?w)) ?R (keeps c0) (in_right c1 v1)"
      using in_right_piece[OF conjunct1[OF that] assms(2) p1(2,1) assms(5)] lo(2) that by simp
    then show ?thesis by (rule flow_all_mono) (use assms(6) in \<open>auto simp: ready_def\<close>)
  qed
  have ack: "flow_all ?R ?R (keeps c0) (in_ack e c1 v1)" if "?R c1 v1" for c1 v1
  proof (rule flow_all_mono[OF in_ack_keeps[where G = "\<lambda>_ _. False", OF ready_keeps[OF that]]])
    show "?R c2 v2" if "kept c0 v1 c2 v2" for c2 v2
      by (rule ready_same[OF \<open>?R c1 v1\<close>]) (use that in \<open>simp_all add: same_seg_def\<close>)
  qed simp_all
  show ?thesis
    unfolding in_synced_def
    by (rule flow_all_bind[OF paws], rule flow_all_bind[OF left], assumption, rule flow_all_bind[OF gone], assumption,
        rule flow_all_bind[OF right], assumption, rule flow_all_bind[OF in_checks_ready(1)], assumption,
        rule flow_all_bind[OF in_checks_ready(2)], assumption, rule flow_all_bind[OF in_checks_ready(3)], assumption,
        rule flow_all_bind[OF in_checks_ready(4)], assumption, rule flow_all_bind[OF in_checks_ready(5)], assumption,
        rule ack)
qed

lemma in_window_sel: "in_window c v = Go (set_tp ((ctp c)\<lparr>rcv_wnd := in_wnd c\<rparr>) c) v"
  by (simp add: in_window_def in_wnd_def Let_def)

text \<open>Before the switch: the options of a segment without SYN change nothing.\<close>

lemma in_start_keeps:
  assumes "4 \<le> t_state (ctp c)" "t_state (ctp c) \<le> 10" "\<not> hasf TH_SYN (ti_flags (sg v))" "length (sack_in (io v)) \<le> TCP_MAX_SACK"
  shows "flow_all (\<lambda>c1 v1. kept c v c1 v1 \<and> in_wnd c1 = in_wnd c) S Q (in_start om c v)"
proof -
  define c0 where "c0 = set_tp (set_timer TCPT_KEEP (word_of_int (tcp_keepidle (glob (cn c)))) ((ctp c)\<lparr>t_idle := 0\<rparr>)) c"
  have k: "keeps c c0" "in_wnd c0 = in_wnd c" "t_state (ctp c0) = t_state (ctp c)"
    using assms(1,2) by (simp_all add: c0_def keeps_def in_wnd_def set_timer_def) (simp_all add: set_tp_def ctp_def)
  have "flow_all (\<lambda>c1 v1. c1 = c0 \<and> same_seg v v1) S Q (in_options om c0 v)"
  proof (cases om)
    case (Some cp)
    have "length (sack_in ((io v)\<lparr>sack_in := []\<rparr>)) \<le> TCP_MAX_SACK" by simp
    from opt_walk_safe[OF this, of "ti_flags (sg v)" cp "cn c0" False]
    obtain o1 where "opt_walk (ti_flags (sg v)) cp (cn c0, (io v)\<lparr>sack_in := []\<rparr>, False) = Some (cn c0, o1, False)"
      using assms(3) by auto
    then have "tcp_dooptions (ti_flags (sg v)) cp (io v) (cn c0) = Some (cn c0, o1)"
      by (simp add: tcp_dooptions_def)
    then show ?thesis using Some by (simp add: in_options_def same_seg_def)
  qed (simp add: in_options_def)
  then show ?thesis
    using k assms(1)
    unfolding in_start_def Let_def c0_def[symmetric]
    by (cases "in_options om c0 v") (auto simp: tcps_defs c0_def same_seg_def)
qed

text \<open>Header prediction.\<close>

lemma in_wnd_space: "0 \<le> sbspace (so_rcv (sk (cn c))) \<Longrightarrow> sbspace (so_rcv (sk (cn c))) \<le> int (unat (in_wnd c))"
proof -
  define x where "x = max (max 0 (sbspace (so_rcv (sk (cn c))))) (sint (rcv_adv (ctp c) - rcv_nxt (ctp c)))"
  have s: "sint (w :: u32) < 2 ^ 31" for w using sint_lt[of w] by simp
  have "sbspace (so_rcv (sk (cn c))) < 2 ^ 31" using s by (simp add: sbspace_def min_less_iff_disj)
  then have x: "0 \<le> x" "x < 2 ^ 31" using s by (simp_all add: x_def)
  then have "unat (in_wnd c) = nat x" unfolding in_wnd_def x_def[symmetric] by (intro w32_unat) simp_all
  then have "int (unat (in_wnd c)) = x" using x(1) by simp
  moreover have "sbspace (so_rcv (sk (cn c))) \<le> x" by (simp add: x_def)
  ultimately show ?thesis by simp
qed

lemma predict_ack_keeps:
  assumes "keeps c0 c"
  shows "flow_all G S (keeps c0) (predict_ack w c v)" "flow_all G S (keeps c0) (predict_win c v)"
proof -
  define t2 where "t2 = ack_rtt (now c) v (if w then set_wnd (sg v) (tiwin v) ((ctp c)\<lparr>t_dupacks := 0\<rparr>) else (ctp c)\<lparr>t_dupacks := 0\<rparr>)"
  have t2: "rcv_nxt t2 = rcv_nxt (ctp c)" "t_state t2 = t_state (ctp c)" by (simp_all add: t2_def)
  show "flow_all G S (keeps c0) (predict_ack w c v)"
    unfolding predict_ack_def Let_def t2_def[symmetric]
  proof (rule flow_all_res)
    fix c1
    assume "in_sbdrop (sint (ti_ack (sg v) - snd_una t2)) (set_tp t2 c) = Some (Inr c1)"
    then have k: "keeps c0 c1" using in_sbdrop_keeps[OF keeps_tp[OF assms t2]] by blast
    show "flow_all G S (keeps c0) (output_if_data (set_tp (
        if snd_una (in_sack_blocks v ((ctp c1)\<lparr>snd_una := ti_ack (sg v)\<rparr>)) = snd_max (in_sack_blocks v ((ctp c1)\<lparr>snd_una := ti_ack (sg v)\<rparr>))
        then set_timer TCPT_REXMT 0 (in_sack_blocks v ((ctp c1)\<lparr>snd_una := ti_ack (sg v)\<rparr>))
        else if t_timer (in_sack_blocks v ((ctp c1)\<lparr>snd_una := ti_ack (sg v)\<rparr>)) TCPT_PERSIST = 0
        then set_timer TCPT_REXMT (t_rxtcur (in_sack_blocks v ((ctp c1)\<lparr>snd_una := ti_ack (sg v)\<rparr>)))
               (in_sack_blocks v ((ctp c1)\<lparr>snd_una := ti_ack (sg v)\<rparr>))
        else in_sack_blocks v ((ctp c1)\<lparr>snd_una := ti_ack (sg v)\<rparr>)) c1))"
      by (rule output_if_data_keeps, rule keeps_tp[OF k]) simp_all
  qed
  show "flow_all G S (keeps c0) (predict_win c v)"
    unfolding predict_win_def Let_def by (rule output_if_data_keeps, rule keeps_tp[OF assms]) simp_all
qed

lemma predict_data_rcvd:
  assumes "rstart strm b n lim c0" "keeps c0 c" "piece strm b p l p v" "rq c = []" "ti_seq (sg v) = rcv_nxt (ctp c)"
    "sint (ti_len (sg v)) \<le> sbspace (so_rcv (sk (cn c)))" "n + unat (in_wnd c) \<le> lim" "p < n + 2 ^ 31" "n < p + 2 ^ 31"
  shows "flow_all G S (rcvd strm b n lim p l c0) (predict_data c v)"
proof -
  let ?ti = "sg v"
  define t1 where "t1 = TCP_SETDELACK ((ctp c)\<lparr>rcv_nxt := rcv_nxt (ctp c) + scast (ti_len ?ti)\<rparr>)"
  define c1 where "c1 = set_tp t1 (set_rcv (sbappend (crcv c) (ti_m ?ti)) c)"
  have s: "ti_seq ?ti = b + of_nat p" "sint (ti_len ?ti) = int (slen ?ti)" "vbytes (ti_m ?ti) = map strm [p..<p + slen ?ti]"
    "slen ?ti \<le> l"
    using assms(3) by (simp_all add: piece_def seg_at_def)
  have r: "rcv_nxt (ctp c0) = b + of_nat n" "sbcheck (crcv c0)" "lim \<le> n + 2 ^ 30" "crcv c = crcv c0" "rq c0 = []"
    "rcv_nxt (ctp c) = b + of_nat n" "4 \<le> t_state (ctp c)" "t_state (ctp c) \<le> 10"
    using assms(1,2,4) by (auto simp: rstart_def recv_ok_def rcv_of_def keeps_def)
  have pn: "p = n" by (rule seq_eq[of p n b]) (use assms(5,8,9) s(1) r(6) in simp_all)
  have "int (slen ?ti) \<le> int (unat (in_wnd c))" using in_wnd_space[of c] assms(6) s(2) by linarith
  then have lim: "n + slen ?ti \<le> lim" using assms(7) by linarith
  have sel: "ctp c1 = t1" "crcv c1 = sbappend (crcv c0) (ti_m ?ti)" "rq c1 = []" using assms(4) r(4) by (simp_all add: c1_def)
  have nx: "rcv_nxt t1 = b + of_nat (n + slen ?ti)" using scast_len[OF s(2)] r(6) by (simp add: t1_def)
  have "rcvd strm b n lim p l c0 c1"
    unfolding rcvd_def rcv_of_def sel
    by (intro exI[of _ "n + slen ?ti"] conjI)
      (use sbappend_ok(1,2)[OF r(2)] s(3,4) pn nx lim r(3,5) in \<open>auto simp: recv_ok_def held_def\<close>)
  moreover have "4 \<le> t_state (ctp c1)" "t_state (ctp c1) \<le> 10" using r(7,8) by (simp_all add: sel t1_def)
  ultimately show ?thesis
    unfolding predict_data_def Let_def t1_def[symmetric] c1_def[symmetric]
    using rcvd_trans_keeps in_output_keeps(1)[OF conn_keeps_refl] by auto
qed

lemma in_predict_rcvd:
  assumes "rstart strm b n lim c0" "keeps c0 c" "piece strm b p l p v" "n + unat (in_wnd c) \<le> lim"
    "p < n + 2 ^ 31" "n < p + 2 ^ 31"
  shows "flow_all (\<lambda>c1 v1. keeps c0 c1 \<and> v1 = v \<and> in_wnd c1 = in_wnd c) S (rcvd strm b n lim p l c0) (in_predict c v)"
proof -
  define c1 where "c1 = set_tp (ts_update (now c) 0 v (ctp c)) c"
  have k: "keeps c0 c1" unfolding c1_def by (rule keeps_tp[OF assms(2)]) simp_all
  have w: "in_wnd c1 = in_wnd c" "ctp c1 = ts_update (now c) 0 v (ctp c)"
    unfolding c1_def by (simp_all add: in_wnd_def) (simp_all add: ts_update_def ctp_def set_tp_def)
  note G = flow_all_mono[OF _ _ _ rcvd_keeps[OF assms(1)]]
  let ?G = "\<lambda>c2 v2. keeps c0 c2 \<and> v2 = v \<and> in_wnd c2 = in_wnd c"
  have a: "flow_all ?G S (rcvd strm b n lim p l c0) (predict_ack x c1 v)" for x by (rule G[OF predict_ack_keeps(1)[OF k]]) simp_all
  have b: "flow_all ?G S (rcvd strm b n lim p l c0) (predict_win c1 v)" by (rule G[OF predict_ack_keeps(2)[OF k]]) simp_all
  have d: "flow_all ?G S (rcvd strm b n lim p l c0) (predict_data c1 v)"
    if "in_predicted c v" "rq c1 = []" "sint (ti_len (sg v)) \<le> sbspace (so_rcv (sk (cn c1)))"
  proof (rule predict_data_rcvd[OF assms(1) k assms(3) that(2) _ that(3) _ assms(5,6)])
    show "ti_seq (sg v) = rcv_nxt (ctp c1)" using that(1) by (simp add: in_predicted_def Let_def c1_def)
    show "n + unat (in_wnd c1) \<le> lim" using assms(4) w by simp
  qed
  show ?thesis
    unfolding in_predict_def Let_def c1_def[symmetric]
    by (intro flow_all_if a b d) (use k w assms(2) in auto)
qed

lemma in_found_ready:
  assumes "rstart strm b n lim c" "n + unat (in_wnd c) \<le> lim" "piece strm b p l p v" "n < p + 2 ^ 31" "p + l < n + 2 ^ 31"
    "\<not> hasf TH_SYN (ti_flags (sg v))" "length (sack_in (io v)) \<le> TCP_MAX_SACK"
  shows "flow_all (ready strm b n lim p l c) (ready strm b n lim p l c) (rcvd strm b n lim p l c) (in_found e i om c v)"
proof -
  have st: "4 \<le> t_state (ctp c)" "t_state (ctp c) \<le> 10" using assms(1) by (simp_all add: rstart_def tcps_defs)
  have nx: "rcv_nxt (ctp c) = b + of_nat n" "lim \<le> n + 2 ^ 30" using assms(1) by (simp_all add: rstart_def recv_ok_def rcv_of_def)
  have lo: "p < n + 2 ^ 31" using assms(5) by simp
  let ?A = "\<lambda>c1 v1. kept c v c1 v1 \<and> in_wnd c1 = in_wnd c"
  let ?R = "ready strm b n lim p l c"
  have predict: "flow_all (\<lambda>c2 v2. keeps c c2 \<and> v2 = v1 \<and> in_wnd c2 = in_wnd c1) ?R (rcvd strm b n lim p l c) (in_predict c1 v1)"
    if "?A c1 v1" for c1 v1
    by (rule in_predict_rcvd[OF assms(1)]) (use that assms(2,3,4) lo in \<open>simp_all add: piece_def same_seg_def\<close>)
  have switch: "flow_all ?R ?R (rcvd strm b n lim p l c) (in_switch e i om (set_tp ((ctp c2)\<lparr>rcv_wnd := in_wnd c2\<rparr>) c2) v2)"
    if "keeps c c2" "same_seg v v2" "in_wnd c2 = in_wnd c" for c2 v2
  proof -
    let ?c = "set_tp ((ctp c2)\<lparr>rcv_wnd := in_wnd c2\<rparr>) c2"
    have k: "keeps c ?c" by (rule keeps_tp[OF that(1)]) simp_all
    have s: "in_switch e i om ?c v2 = in_synced e ?c v2" using k by (simp add: in_switch_def keeps_def tcps_defs)
    have "flow_all ?R ?R (keeps c) (in_synced e ?c v2)"
      by (rule in_synced_ready[OF k nx(1) _ assms(4,5) _ nx(2)]) (use that assms(2,3) in \<open>simp_all add: piece_def same_seg_def\<close>)
    then show ?thesis unfolding s by (rule flow_all_mono) (simp_all add: rcvd_keeps[OF assms(1)])
  qed
  have after: "flow_all ?R ?R (rcvd strm b n lim p l c) (flow_bind (in_predict c1 v1) (\<lambda>c v. flow_bind (in_window c v) (\<lambda>c v. in_switch e i om c v)))"
    if "?A c1 v1" for c1 v1
  proof (rule flow_all_bind[OF predict[OF that]])
    fix c2 v2
    assume a: "keeps c c2 \<and> v2 = v1 \<and> in_wnd c2 = in_wnd c1"
    show "flow_all ?R ?R (rcvd strm b n lim p l c) (flow_bind (in_window c2 v2) (\<lambda>c v. in_switch e i om c v))"
      unfolding in_window_sel flow_bind.simps by (rule switch) (use a that in simp_all)
  qed
  show ?thesis
    unfolding in_found_def by (rule flow_all_bind[OF in_start_keeps[OF st assms(6,7)] after])
qed


text \<open>Four bytes in sequence, the next ones the connection waits for.\<close>

definition ex_conn :: "tcpcb \<Rightarrow> inconn" where
  "ex_conn t = \<lparr>cn = ex_st (\<lambda>_. Sent 0) 0 t, rq = [], sndq = [], rcvq = [], ss_nofdref = False, ss_cantrcvmore = False,
     ss_cantsendmore = False, ss_isconnected = True, ss_rcvatmark = False, so_oobinline = False, so_oobmark = 0,
     challenge_win = 0, challenge_cnt = 0, mbufcheck = False\<rparr>"

definition ex_env :: inenv where
  "ex_env = \<lparr>ie_bcast = False, ie_mget = True, ie_connect = True, ie_template = True, ie_isn = 0, ie_rfc3042 = True\<rparr>"

definition ex_data :: tseg where
  "ex_data = (ex_tseg 18 4)\<lparr>ti_ack := 1000, ti_win := 8000\<rparr>"

definition ex_peer :: tcpcb where
  "ex_peer = ex_tcb\<lparr>rcv_nxt := 18, rcv_adv := 16402\<rparr>"

lemma ex_data_start: "in_start None (ex_conn ex_peer) (invar0 ex_data) =
  Go (set_tp (set_timer TCPT_KEEP 14400 ex_peer) (ex_conn ex_peer)) ((invar0 ex_data)\<lparr>tiwin := 8000\<rparr>)"
  by (simp add: in_start_def in_options_def ex_conn_def ex_peer_def ex_defs ex_data_def ex_tseg_def invar0_def
      ctp_def set_tp_def tcps_defs set_timer_def)

lemma ex_data_predicted: "in_predicted (set_tp (set_timer TCPT_KEEP 14400 ex_peer) (ex_conn ex_peer)) ((invar0 ex_data)\<lparr>tiwin := 8000\<rparr>)"
  by (simp add: in_predicted_def ex_conn_def ex_peer_def ex_defs ex_data_def ex_tseg_def invar0_def
      ctp_def set_tp_def tcps_defs set_timer_def tf_def tcprexmtthresh_def TH_SYN_def TH_FIN_def TH_RST_def TH_URG_def TH_ACK_def)

lemma ex_data_found: "\<exists>c'. in_found e 0 None (ex_conn ex_peer) (invar0 ex_data) = Stop (Some (Inr c'))"
proof -
  define c where "c = set_tp (set_timer TCPT_KEEP 14400 ex_peer) (ex_conn ex_peer)"
  define v where "v = (invar0 ex_data)\<lparr>tiwin := 8000\<rparr>"
  have s: "in_start None (ex_conn ex_peer) (invar0 ex_data) = Go c v" unfolding c_def v_def by (rule ex_data_start)
  have p: "in_predicted c v" unfolding c_def v_def by (rule ex_data_predicted)
  have u: "ts_update (now c) 0 v (ctp c) = ctp c"
    by (simp add: ts_update_def v_def invar0_def)
  have st: "set_tp (ctp c) c = c" by (simp add: set_tp_def ctp_def)
  have d: "ti_len (sg v) \<noteq> 0" "tiwin v = snd_wnd (ctp c)" "ti_ack (sg v) = snd_una (ctp c)" "rq c = []"
    "sint (ti_len (sg v)) \<le> sbspace (so_rcv (sk (cn c)))"
    by (simp_all add: c_def v_def ex_conn_def ex_peer_def ex_defs ex_data_def ex_tseg_def invar0_def ctp_def set_tp_def
        set_timer_def sbspace_def)
  have a: "\<not> tf TF_ACKNOW (TCP_SETDELACK ((ctp c)\<lparr>rcv_nxt := rcv_nxt (ctp c) + scast (ti_len (sg v))\<rparr>))"
    by (simp add: c_def ex_conn_def ex_peer_def ex_defs ctp_def set_tp_def set_timer_def TCP_SETDELACK_def tf_def
        TF_DELACK_def TF_ACKNOW_def)
  have "in_predict c v = predict_data c v"
    unfolding in_predict_def using p d by (simp add: u st Let_def)
  then show ?thesis using s a by (simp add: in_found_def predict_data_def Let_def)
qed



end
