(* ===== verification/Tcp_Fsm.thy ===== *)
theory Tcp_Fsm
  imports Tcp_Usrreq Tcp_Input_Correct
begin

text \<open>
  The state of a connection over its whole life: what segments, timers and requests of the user may
  do to \<open>t_state\<close>, as the diagram of RFC 793, and what may end a connection.
\<close>

section \<open>The diagram\<close>

text \<open>
  The edges between the states of a connection that goes on. \<open>SYN_RECEIVED\<close> to \<open>CLOSE_WAIT\<close> is a FIN
  on the segment with the SYN.
\<close>

inductive fsm :: "nat \<Rightarrow> nat \<Rightarrow> bool" where
  passive_open: "fsm TCPS_CLOSED TCPS_LISTEN"
| active_open: "fsm TCPS_CLOSED TCPS_SYN_SENT"
| rcv_syn: "fsm TCPS_LISTEN TCPS_SYN_RECEIVED"
| simultaneous: "fsm TCPS_SYN_SENT TCPS_SYN_RECEIVED"
| rcv_syn_ack: "fsm TCPS_SYN_SENT TCPS_ESTABLISHED"
| rcv_ack: "fsm TCPS_SYN_RECEIVED TCPS_ESTABLISHED"
| rcv_syn_fin: "fsm TCPS_SYN_RECEIVED TCPS_CLOSE_WAIT"
| rcv_fin: "fsm TCPS_ESTABLISHED TCPS_CLOSE_WAIT"
| close_early: "fsm TCPS_SYN_RECEIVED TCPS_FIN_WAIT_1"
| close_first: "fsm TCPS_ESTABLISHED TCPS_FIN_WAIT_1"
| close_last: "fsm TCPS_CLOSE_WAIT TCPS_LAST_ACK"
| fin_acked: "fsm TCPS_FIN_WAIT_1 TCPS_FIN_WAIT_2"
| both_closing: "fsm TCPS_FIN_WAIT_1 TCPS_CLOSING"
| fin_fin: "fsm TCPS_FIN_WAIT_2 TCPS_TIME_WAIT"
| closing_acked: "fsm TCPS_CLOSING TCPS_TIME_WAIT"

inductive_cases fsm_fromE: "fsm n m"

inductive_simps fsm_time_wait: "fsm TCPS_TIME_WAIT m"
inductive_simps fsm_last_ack: "fsm TCPS_LAST_ACK m"

text \<open>A connection in a state \<open>n\<close> reaches, if it is still alive, along the edges.\<close>

definition moves :: "nat \<Rightarrow> inconn \<Rightarrow> bool" where
  "moves n c \<longleftrightarrow> t_state (ctp c) \<le> 10 \<and> (alive (cn c) \<longrightarrow> fsm\<^sup>*\<^sup>* n (t_state (ctp c)))"

abbreviation moving :: "nat \<Rightarrow> inconn \<Rightarrow> invar \<Rightarrow> bool" where
  "moving n \<equiv> \<lambda>c v. moves n c"

named_theorems fsm_rules

lemma alive_sel [simp]:
  "alive (cn (set_tp t c)) = alive (cn c)" "alive (cn (set_snd s c)) = alive (cn c)" "alive (cn (set_rcv s c)) = alive (cn c)"
  "alive (cn (soisconnected c)) = alive (cn c)" "alive (cn (soisdisconnected c)) = alive (cn c)"
  "alive (cn (socantrcvmore c)) = alive (cn c)" "\<not> alive (cn (in_close c))" "\<not> alive (tcp_close st)" "tp (tcp_close st) = tp st"
  "ctp (socantrcvmore c) = ctp c" "ctp (c\<lparr>rq := q\<rparr>) = ctp c" "alive (cn (c\<lparr>rq := q\<rparr>)) = alive (cn c)"
  by (simp_all add: set_tp_def set_snd_def set_rcv_def soisconnected_def soisdisconnected_def socantrcvmore_def
      in_close_def tcp_close_def Let_def ctp_def)

lemma moves_same:
  "moves n c \<Longrightarrow> t_state (ctp c') = t_state (ctp c) \<Longrightarrow> alive (cn c') = alive (cn c) \<Longrightarrow> moves n c'"
  by (simp add: moves_def)

lemma moves_tp [fsm_rules]: "moves n c \<Longrightarrow> t_state t = t_state (ctp c) \<Longrightarrow> moves n (set_tp t c)"
  by (simp add: moves_def)

lemma moves_edge: "moves n c \<Longrightarrow> fsm (t_state (ctp c)) (t_state t) \<Longrightarrow> t_state t \<le> 10 \<Longrightarrow> moves n (set_tp t c)"
  by (auto simp: moves_def intro: rtranclp.rtrancl_into_rtrancl)

lemma moves_snd [fsm_rules]: "moves n c \<Longrightarrow> moves n (set_snd s c)" "moves n c \<Longrightarrow> moves n (set_rcv s c)"
  "moves n c \<Longrightarrow> moves n (soisconnected c)" "moves n c \<Longrightarrow> moves n (soisdisconnected c)"
  "moves n c \<Longrightarrow> moves n (socantrcvmore c)"
  by (simp_all add: moves_def)

lemma moves_close [fsm_rules]: "moves n c \<Longrightarrow> moves n (in_close c)"
  by (simp add: moves_def)

lemma moves_gone: "t_state (ctp c) \<le> 10 \<Longrightarrow> \<not> alive (cn c) \<Longrightarrow> moves n c"
  by (simp add: moves_def)

text \<open>The calls.\<close>

lemma in_output_moves:
  assumes "in_output c = Some (Inr c1)" "moves n c"
  shows "moves n c1"
proof -
  obtain st e where o: "tcp_output (cn c) = Some (Inr (st, e))" "c1 = c\<lparr>cn := st\<rparr>"
    using in_output_Inr[OF assms(1)] by blast
  have "sframe (cn c) st" by (rule tcp_output_frame[OF o(1)]) (use assms(2) in \<open>simp add: moves_def ctp_def\<close>)
  then show ?thesis by (intro moves_same[OF assms(2)]) (simp_all add: o(2) sframe_def frame_def ctp_def)
qed

lemma tcp_drop_moves:
  assumes "tcp_drop err st = Some (Inr st')" "t_state (tp st) \<le> 10"
  shows "t_state (tp st') \<le> 10 \<and> \<not> alive st'"
proof -
  let ?st = "st\<lparr>tp := (tp st)\<lparr>t_state := TCPS_CLOSED\<rparr>\<rparr>"
  obtain r0 where r0: "(if t_state (tp st) \<ge> TCPS_SYN_RECEIVED then tcp_output ?st else Some (Inr (st, 0))) = Some r0"
    "Inr st' = (case r0 of Inl p \<Rightarrow> Inl p | Inr (st1, _) \<Rightarrow>
          (let e = (if err = ETIMEDOUT \<and> t_softerror (tp st1) \<noteq> 0 then sint (t_softerror (tp st1)) else err)
           in Inr (tcp_close (st1\<lparr>sk := (sk st1)\<lparr>so_error := e\<rparr>\<rparr>))))"
    using assms(1) by (auto simp: tcp_drop_def Option.bind_eq_Some_conv)
  then obtain st1 e s where o: "(if t_state (tp st) \<ge> TCPS_SYN_RECEIVED then tcp_output ?st else Some (Inr (st, 0))) = Some (Inr (st1, e))"
    "st' = tcp_close (st1\<lparr>sk := s\<rparr>)"
    by (cases r0) (auto simp: Let_def)
  have "t_state (tp st1) \<le> 10"
  proof (cases "t_state (tp st) \<ge> TCPS_SYN_RECEIVED")
    case True
    have "sframe (st\<lparr>tp := (tp st)\<lparr>t_state := TCPS_CLOSED\<rparr>\<rparr>) st1"
      by (rule tcp_output_frame[where e = e]) (use o(1) True in \<open>simp_all add: tcps_defs\<close>)
    then show ?thesis by (simp add: sframe_def frame_def tcps_defs)
  qed (use o(1) assms(2) in auto)
  then show ?thesis by (simp add: o(2))
qed

lemma in_dropconn_moves:
  assumes "in_dropconn err c = Some (Inr c1)" "moves n c"
  shows "moves n c1"
proof -
  obtain st where d: "tcp_drop err (cn c) = Some (Inr st)" "c1 = c\<lparr>cn := st\<rparr>"
    using assms(1) by (cases "tcp_drop err (cn c)"; cases "the (tcp_drop err (cn c))") (auto simp: in_dropconn_def)
  have "t_state (tp st) \<le> 10 \<and> \<not> alive st"
    by (rule tcp_drop_moves[OF d(1)]) (use assms(2) in \<open>simp add: moves_def ctp_def\<close>)
  then show ?thesis by (intro moves_gone) (simp_all add: d(2) ctp_def)
qed

lemma in_sbdrop_moves: "in_sbdrop k c = Some (Inr c1) \<Longrightarrow> moves n c \<Longrightarrow> moves n c1"
  using in_sbdrop_Inr[of k c c1] moves_snd(1)[of n c] by auto

section \<open>Segments\<close>

subsection \<open>The ways out\<close>

lemma drop_moves [fsm_rules]: "moves n c \<Longrightarrow> flow_all G S (moves n) (in_drop c)"
  by simp

lemma ack_now_moves [fsm_rules]: "moves n c \<Longrightarrow> flow_all G S (moves n) (in_ack_now c)"
  unfolding in_ack_now_def flow_all.simps by (intro allI impI, erule in_output_moves) (rule moves_tp; simp)

lemma dropafterack_moves [fsm_rules]: "moves n c \<Longrightarrow> flow_all G S (moves n) (in_dropafterack v c)"
  by (simp add: in_dropafterack_def ack_now_moves)

lemma challenge_moves [fsm_rules]: "moves n c \<Longrightarrow> flow_all G S (moves n) (in_challenge c)"
proof -
  assume k: "moves n c"
  define c1 where "c1 = (if now c \<noteq> challenge_win c then c\<lparr>challenge_win := now c, challenge_cnt := 0\<rparr> else c)"
  define c2 where "c2 = c1\<lparr>challenge_cnt := challenge_cnt c1 + 1\<rparr>"
  have "moves n c2" by (rule moves_same[OF k]) (simp_all add: c1_def c2_def ctp_def)
  then show ?thesis unfolding in_challenge_def Let_def c1_def[symmetric] c2_def[symmetric] using ack_now_moves by simp
qed

lemma in_reset_moves [fsm_rules]: "moves n c \<Longrightarrow> moves n (in_reset e g v c)"
  by (rule moves_same, assumption) (simp_all add: in_reset_def Let_def ctp_def)

lemma reset_moves [fsm_rules]: "moves n c \<Longrightarrow> flow_all G S (moves n) (in_dropwithreset e g v c)"
  by (simp add: in_dropwithreset_def in_reset_moves)

lemma output_if_data_moves [fsm_rules]: "moves n c \<Longrightarrow> flow_all G S (moves n) (output_if_data c)"
  using in_output_moves by (auto simp: output_if_data_def)

lemma output_drop_moves [fsm_rules]:
  assumes "moves n c" "\<And>t. t_state (f t) = t_state t"
  shows "flow_all G S (moves n) (output_drop f c)"
  unfolding output_drop_def using assms by (auto intro!: flow_rules moves_tp dest: in_output_moves)

lemma abort_moves [fsm_rules]: "moves n c \<Longrightarrow> flow_all G S (moves n) (in_abort c)"
  using in_dropconn_moves by (auto simp: in_abort_def)


subsection \<open>Options and header prediction\<close>

text \<open>The options change neither the state nor the sequence numbers, whatever they are.\<close>

definition opt_same :: "tcpst \<Rightarrow> tcpst \<Rightarrow> bool" where
  "opt_same st st' \<longleftrightarrow> t_state (tp st') = t_state (tp st) \<and> alive st' = alive st \<and> rcv_nxt (tp st') = rcv_nxt (tp st) \<and>
     snd_una (tp st') = snd_una (tp st) \<and> sb_cc (so_snd (sk st')) = sb_cc (so_snd (sk st))"

lemma opt_one_same:
  assumes "opt_one flags n cp (st, o1, m) = Some (st', o', m')"
  shows "opt_same st st'"
proof -
  have "opt_same st (fst (tcp_mss x st))" for x
    using tcp_mss_frame[of st x] tcp_mss_sk[of x st] by (simp add: opt_same_def frame_def)
  then show ?thesis
    using assms by (auto simp: opt_one_def Let_def Option.bind_eq_Some_conv opt_same_def split: if_splits)
qed

lemma opt_walk_same: "opt_walk flags cp (st, o1, m) = Some (st', o', m') \<Longrightarrow> opt_same st st'"
proof (induction "length cp" arbitrary: cp st o1 m rule: less_induct)
  case less
  show ?case
  proof (cases "cp = [] \<or> opt_len cp = None")
    case True
    then have "opt_walk flags cp (st, o1, m) = Some (st, o1, m)" by (subst opt_walk.simps) auto
    then show ?thesis using less.prems by (simp add: opt_same_def)
  next
    case False
    then obtain n where n: "opt_len cp = Some n" "cp \<noteq> []" by auto
    obtain s1 o1' m1 where one: "opt_one flags n cp (st, o1, m) = Some (s1, o1', m1)"
      "opt_walk flags (drop n cp) (s1, o1', m1) = Some (st', o', m')"
      using less.prems n by (subst (asm) opt_walk.simps) (auto split: option.splits)
    have "length (drop n cp) < length cp" using opt_len_bounds[OF n(2,1)] by (simp only: length_drop) linarith
    then have "opt_same s1 st'" by (rule less.hyps) (rule one(2))
    then show ?thesis using opt_one_same[OF one(1)] by (simp add: opt_same_def)
  qed
qed

lemma tcp_dooptions_same: "tcp_dooptions flags om o0 st = Some (st', o') \<Longrightarrow> opt_same st st'"
proof -
  assume a: "tcp_dooptions flags om o0 st = Some (st', o')"
  then obtain st1 m where w: "opt_walk flags om (st, o0\<lparr>sack_in := []\<rparr>, False) = Some (st1, o', m)"
    "st' = st1 \<or> st' = st1\<lparr>tp := (tp st1)\<lparr>t_maxseg := t_maxseg (tp st1) - 12\<rparr>\<rparr>"
    by (cases "opt_walk flags om (st, o0\<lparr>sack_in := []\<rparr>, False)") (auto simp: tcp_dooptions_def Let_def)
  then show ?thesis using opt_walk_same[OF w(1)] by (auto simp: opt_same_def)
qed

lemma options_moves [fsm_rules]:
  assumes "moves n c"
  shows "flow_all (moving n) S (moves n) (in_options om c v)"
proof (cases om)
  case (Some cp)
  show ?thesis
  proof (cases "tcp_dooptions (ti_flags (sg v)) cp (io v) (cn c)")
    case (Some r)
    obtain st o1 where r: "r = (st, o1)" by (cases r)
    have "opt_same (cn c) st" using tcp_dooptions_same Some r by simp
    then have "moves n (c\<lparr>cn := st\<rparr>)" by (intro moves_same[OF assms]) (simp_all add: opt_same_def ctp_def)
    then show ?thesis using \<open>om = Some cp\<close> Some r by (simp add: in_options_def)
  qed (simp add: in_options_def Some)
qed (simp add: in_options_def assms)

lemma start_moves:
  assumes "moves n c"
  shows "flow_all (moving n) S (moves n) (in_start om c v)"
proof -
  let ?c = "set_tp (set_timer TCPT_KEEP (word_of_int (tcp_keepidle (glob (cn c)))) ((ctp c)\<lparr>t_idle := 0\<rparr>)) c"
  have k: "moves n ?c" by (rule moves_tp[OF assms]) simp
  show ?thesis
    unfolding in_start_def Let_def
    by (rule flow_all_if, simp add: assms, rule flow_all_bind[where G = "moving n"])
      (use k options_moves[OF k] in \<open>auto split: if_splits\<close>)
qed

lemma predict_moves:
  assumes "moves n c"
  shows "flow_all (moving n) S (moves n) (in_predict c v)"
proof -
  define c1 where "c1 = set_tp (ts_update (now c) 0 v (ctp c)) c"
  have k: "moves n c1" unfolding c1_def by (rule moves_tp[OF assms]) simp
  have a: "flow_all (moving n) S (moves n) (predict_ack w c1 v)" for w
  proof -
    define t2 where "t2 = ack_rtt (now c1) v (if w then set_wnd (sg v) (tiwin v) ((ctp c1)\<lparr>t_dupacks := 0\<rparr>) else (ctp c1)\<lparr>t_dupacks := 0\<rparr>)"
    have "moves n (set_tp t2 c1)" by (rule moves_tp[OF k]) (simp add: t2_def)
    then show ?thesis
      unfolding predict_ack_def Let_def t2_def[symmetric]
      by (intro flow_all_res output_if_data_moves moves_tp) (auto dest: in_sbdrop_moves)
  qed
  have b: "flow_all (moving n) S (moves n) (predict_win c1 v)"
    unfolding predict_win_def Let_def by (rule output_if_data_moves, rule moves_tp[OF k]) simp
  have d: "flow_all (moving n) S (moves n) (predict_data c1 v)"
  proof -
    let ?t = "TCP_SETDELACK ((ctp c1)\<lparr>rcv_nxt := rcv_nxt (ctp c1) + scast (ti_len (sg v))\<rparr>)"
    have "moves n (set_tp ?t (set_rcv (sbappend (crcv c1) (ti_m (sg v))) c1))"
      by (rule moves_tp[OF moves_snd(2)[OF k]]) simp
    then show ?thesis unfolding predict_data_def Let_def by (auto dest: in_output_moves)
  qed
  show ?thesis
    unfolding in_predict_def Let_def c1_def[symmetric]
    by (intro flow_all_if a b d) (use k assms in simp_all)
qed

lemma window_moves: "moves n c \<Longrightarrow> flow_all (moving n) S (moves n) (in_window c v)"
  by (simp add: in_window_def Let_def moves_tp)

subsection \<open>The handshake\<close>

lemma reass_deliver_state: "t_state (fst (fst (reass_deliver b t sb q f))) = t_state t"
  by (induction b t sb q f rule: reass_deliver.induct) auto

lemma reass_present_state: "t_state (fst (fst (reass_present b (t, sb, q)))) = t_state t"
  using reass_deliver_state[of b t sb q 0]
  by (auto simp: reass_present_def split: list.split prod.split)

lemma tcp_reass_state: "t_state (fst (fst (tcp_reass b s (t, sb, q)))) = t_state t"
  by (simp add: tcp_reass_def reass_present_state split: option.split)

lemma TCP_REASS_state: "t_state (fst (fst (TCP_REASS b s (t, sb, q)))) = t_state t"
  using tcp_reass_state[of b "Some s" t sb q] by (auto simp: TCP_REASS_def split: prod.split)

lemma reass_none_state [simp]: "t_state (ctp (in_reass_none c)) = t_state (ctp c)" "alive (cn (in_reass_none c)) = alive (cn c)"
  using tcp_reass_state[of "ss_cantrcvmore c" None "ctp c" "crcv c" "rq c"]
  by (auto simp: in_reass_none_def split: prod.split)

lemma reass_state: "t_state (ctp (fst (in_reass ti c))) = t_state (ctp c)" "alive (cn (fst (in_reass ti c))) = alive (cn c)"
  using TCP_REASS_state[of "ss_cantrcvmore c" ti "ctp c" "crcv c" "rq c"]
  by (auto simp: in_reass_def split: prod.split)

lemma trim6_moves: "moves n c \<Longrightarrow> flow_all G (moving n) Q (in_trim6 c v)"
  by (simp add: in_trim6_def Let_def moves_tp)

lemma dropconn_moves: "moves n c \<Longrightarrow> flow_all G S (moves n) (Stop (in_dropconn e c))"
  using in_dropconn_moves by auto

lemma listen_moves:
  assumes "moves n c" "t_state (ctp c) = TCPS_LISTEN"
  shows "flow_all G (moving n) (moves n) (in_listen e start om c v)"
proof -
  have o: "flow_all (\<lambda>c1 v1. moves n c1 \<and> t_state (ctp c1) = TCPS_LISTEN) (moving n) (moves n) (in_options om c v)"
  proof (cases om)
    case (Some cp)
    then show ?thesis
      using options_moves[OF assms(1), of "moving n" om v] tcp_dooptions_same[of "ti_flags (sg v)" cp "io v" "cn c"] assms(2)
      by (auto simp: in_options_def opt_same_def ctp_def split: option.splits)
  qed (use assms in \<open>simp add: in_options_def\<close>)
  show ?thesis
    unfolding in_listen_def Let_def
    by (intro flow_all_if abort_moves in_reset_moves dropconn_moves assms(1) flow_all_bind[OF o] trim6_moves moves_edge)
      (auto simp: tcps_defs intro: rcv_syn[unfolded tcps_defs, simplified])
qed

lemma synsent_moves:
  assumes "moves n c" "t_state (ctp c) = TCPS_SYN_SENT"
  shows "flow_all G (moving n) (moves n) (in_synsent e c v)"
proof -
  define t1 where "t1 = (if hasf TH_ACK (tif v)
      then (if SEQ_LT (snd_nxt ((ctp c)\<lparr>snd_una := ti_ack (sg v)\<rparr>)) (snd_una ((ctp c)\<lparr>snd_una := ti_ack (sg v)\<rparr>))
            then (ctp c)\<lparr>snd_una := ti_ack (sg v), snd_nxt := snd_una ((ctp c)\<lparr>snd_una := ti_ack (sg v)\<rparr>)\<rparr>
            else (ctp c)\<lparr>snd_una := ti_ack (sg v)\<rparr>)
      else ctp c)"
  define t2 where "t2 = or_flags TF_ACKNOW ((set_timer TCPT_REXMT 0 t1)\<lparr>irs := ti_seq (sg v),
      rcv_adv := ti_seq (sg v) + 1, rcv_nxt := ti_seq (sg v) + 1\<rparr>)"
  define c1 where "c1 = in_reass_none (set_tp (commit_scale (t2\<lparr>t_state := TCPS_ESTABLISHED\<rparr>)) (soisconnected c))"
  have "moves n (set_tp (commit_scale (t2\<lparr>t_state := TCPS_ESTABLISHED\<rparr>)) (soisconnected c))"
    by (rule moves_edge[OF moves_snd(3)[OF assms(1)]]) (simp_all add: assms(2) rcv_syn_ack, simp add: tcps_defs)
  then have k1: "moves n c1" unfolding c1_def by (rule moves_same) simp_all
  have k2: "moves n (set_tp (t2\<lparr>t_state := TCPS_SYN_RECEIVED\<rparr>) c)"
    by (rule moves_edge[OF assms(1)]) (simp_all add: assms(2) simultaneous, simp add: tcps_defs)
  show ?thesis
    unfolding in_synsent_def Let_def t1_def[symmetric] t2_def[symmetric] c1_def[symmetric]
    by (intro flow_all_if reset_moves dropconn_moves drop_moves trim6_moves assms(1) k2 moves_tp[OF k1]) simp
qed


subsection \<open>Synchronised states\<close>

lemma checks_moves:
  assumes "moves n c"
  shows "flow_all (moving n) S (moves n) (in_paws c v)" "flow_all (moving n) S (moves n) (in_left c v)"
    "flow_all (moving n) S (moves n) (in_gone e c v)" "flow_all (moving n) S (moves n) (in_right c v)"
    "flow_all (moving n) S (moves n) (in_tsrecent c v)" "flow_all (moving n) S (moves n) (in_rst c v)"
    "flow_all (moving n) S (moves n) (in_syn c v)" "flow_all (moving n) S (moves n) (in_sack c v)"
proof -
  note a = assms
  show "flow_all (moving n) S (moves n) (in_paws c v)"
    unfolding in_paws_def Let_def by (intro flow_all_if dropafterack_moves a) (simp_all add: moves_tp[OF a] a)
  show "flow_all (moving n) S (moves n) (in_left c v)"
    unfolding in_left_def Let_def split_def
    by (intro flow_all_if dropafterack_moves) (simp_all add: moves_tp[OF a] a)
  show "flow_all (moving n) S (moves n) (in_gone e c v)"
    unfolding in_gone_def by (intro flow_all_if reset_moves moves_close a) (simp add: a)
  show "flow_all (moving n) S (moves n) (in_right c v)"
    unfolding in_right_def Let_def
    by (intro flow_all_if dropafterack_moves a) (simp_all add: moves_tp[OF a] moves_close[OF a] a)
  show "flow_all (moving n) S (moves n) (in_tsrecent c v)"
    by (simp add: in_tsrecent_def moves_tp[OF a])
  show "flow_all (moving n) S (moves n) (in_syn c v)"
    unfolding in_syn_def by (intro flow_all_if challenge_moves drop_moves a) (simp add: a)
  show "flow_all (moving n) S (moves n) (in_sack c v)"
    unfolding in_sack_def Let_def by (intro flow_all_if) (simp_all add: moves_tp[OF a] a)
  have r: "flow_all (moving n) S (moves n) (rst_close err c)" for err
  proof -
    have "moves n (in_close (set_tp ((ctp c)\<lparr>t_state := TCPS_CLOSED\<rparr>) (set_error err c)))"
      by (rule moves_gone) (simp_all add: tcps_defs)
    then show ?thesis by (simp add: rst_close_def)
  qed
  show "flow_all (moving n) S (moves n) (in_rst c v)"
    unfolding in_rst_def Let_def
    by (intro flow_all_if challenge_moves drop_moves r moves_close a) (simp_all add: a)
qed

lemma synrcvd_moves:
  assumes "moves n c"
  shows "flow_all (moving n) S (moves n) (in_synrcvd e c v)"
proof (cases "t_state (ctp c) = TCPS_SYN_RECEIVED")
  case True
  define t1 where "t1 = commit_scale ((ctp c)\<lparr>t_state := TCPS_ESTABLISHED\<rparr>)"
  define c1 where "c1 = in_reass_none (set_tp t1 (soisconnected c))"
  have "moves n (set_tp t1 (soisconnected c))"
    by (rule moves_edge[OF moves_snd(3)[OF assms]]) (simp_all add: True rcv_ack t1_def, simp add: tcps_defs)
  then have "moves n c1" unfolding c1_def by (rule moves_same) simp_all
  then have "moves n (set_tp ((ctp c1)\<lparr>snd_wl1 := ti_seq (sg v) - 1\<rparr>) c1)" by (rule moves_tp) simp
  then show ?thesis
    unfolding in_synrcvd_def Let_def t1_def[symmetric] c1_def[symmetric]
    by (intro flow_all_if reset_moves assms) (simp_all add: assms)
qed (simp add: in_synrcvd_def Let_def assms)

lemma dupack_moves:
  assumes "moves n c"
  shows "flow_all G (moving n) (moves n) (in_dupack e c v)"
proof -
  have f: "flow_all G (moving n) (moves n) (fast_rexmt t ti c)" if "t_state t = t_state (ctp c)" for t ti
    unfolding fast_rexmt_def Let_def
    by (intro flow_all_if output_drop_moves moves_tp[OF assms]) (use that in simp_all)
  show ?thesis
    unfolding in_dupack_def Let_def
    by (intro flow_all_if output_drop_moves f moves_tp[OF assms]) (simp_all add: moves_tp[OF assms])
qed

lemma finacked_moves:
  assumes "moves n c"
  shows "flow_all G (moving n) (moves n) (in_finacked fin c v)"
proof -
  let ?t = "ctp c"
  have w: "moves n (set_tp ((ctp c1)\<lparr>t_state := TCPS_FIN_WAIT_2\<rparr>) c1)"
    if "t_state ?t = TCPS_FIN_WAIT_1" "moves n c1" "t_state (ctp c1) = t_state ?t" for c1
    by (rule moves_edge[OF that(2)]) (simp_all add: that(1,3) fin_acked, simp add: tcps_defs)
  have d: "moves n (set_tp (set_timewait ?t) (soisdisconnected c))" if "t_state ?t = TCPS_CLOSING"
    by (rule moves_edge[OF moves_snd(4)[OF assms]])
      (simp_all add: that closing_acked[unfolded TCPS_TIME_WAIT_def])
  have z: "moves n (set_tp (set_timer TCPT_2MSL x ?t) c)" for x by (rule moves_tp[OF assms]) simp
  have m: "moves n (set_tp (set_timer TCPT_2MSL x ?t) (soisdisconnected c))" for x
    by (rule moves_tp[OF moves_snd(4)[OF assms]]) simp
  show ?thesis
    unfolding in_finacked_def Let_def
    by (intro flow_all_if dropafterack_moves drop_moves moves_close z assms) (use w[OF _ m] w[OF _ assms] d assms in simp_all)
qed


lemma ack_drop_moves:
  assumes "moves n c" "snd (ack_drop acked c) = Some (Inr c1)"
  shows "moves n c1"
proof (cases "acked > sb_cc (so_snd (sk (cn c)))")
  case True
  let ?cc = "sb_cc (so_snd (sk (cn c)))"
  have "in_sbdrop (sint ?cc) (set_tp ((ctp c)\<lparr>snd_wnd := snd_wnd (ctp c) - ?cc\<rparr>) c) = Some (Inr c1)"
    using assms(2) True by (simp add: ack_drop_def Let_def)
  then show ?thesis by (rule in_sbdrop_moves) (rule moves_tp[OF assms(1)]; simp)
next
  case False
  then obtain c2 where "in_sbdrop (sint acked) c = Some (Inr c2)"
    "c1 = set_tp ((ctp c2)\<lparr>snd_wnd := snd_wnd (ctp c2) - acked\<rparr>) c2"
    using assms(2) by (cases "sbdrop (mbufcheck c) (sint acked) (csnd c)") (auto simp: ack_drop_def Let_def in_sbdrop_def)
  then show ?thesis using moves_tp[OF in_sbdrop_moves[OF _ assms(1)]] by simp
qed

lemma in_partial_moves:
  assumes "moves n c" "in_partial acked c = Some (Inr c1)"
  shows "moves n c1"
proof -
  let ?c = "set_tp ((ctp c)\<lparr>t_rtt := 0, snd_nxt := snd_una (ctp c), snd_cwnd := seg32 (ctp c)\<rparr>) c"
  have k: "moves n ?c" by (rule moves_tp[OF assms(1)]) simp
  obtain c2 where o: "in_output ?c = Some (Inr c2)"
    using assms(2) by (cases "in_output ?c"; cases "the (in_output ?c)") (auto simp: in_partial_def Let_def)
  have "\<exists>t. c1 = set_tp t c2 \<and> t_state t = t_state (ctp c2)"
    using assms(2) o by (auto simp: in_partial_def Let_def)
  then show ?thesis using moves_tp[OF in_output_moves[OF o k]] by auto
qed

lemma newack_moves:
  assumes "moves n c"
  shows "flow_all G (moving n) (moves n) (in_newack c v)"
proof -
  have acked: "flow_all G (moving n) (moves n) (in_acked f p a v1 c1)" if "moves n c1" for f p a v1 c1
  proof -
    let ?c = "set_tp (fst (ack_recover a (prev_sacked v1) (ack_una (sg v1) (ctp c1)))) c1"
    have c: "moves n ?c" by (rule moves_tp[OF that]) simp
    show ?thesis
      unfolding in_acked_def split_def
      by (rule flow_all_res, rule finacked_moves) (use c in_partial_moves[OF c] in \<open>auto split: if_splits\<close>)
  qed
  let ?p = "ack_partial (ctp c) (sg v)"
  let ?t1 = "if ?p then ctp c else ack_deflate (ctp c)"
  have "moves n (set_tp ?t1 c)" "moves n (set_tp (ack_ready ?p (now c) v ?t1) c)"
    by (rule moves_tp[OF assms]; simp add: ack_ready_def Let_def)+
  then show ?thesis
    unfolding in_newack_def Let_def split_def
    by (intro flow_rules dropafterack_moves acked) (auto intro: ack_drop_moves)
qed

lemma ack_moves: "moves n c \<Longrightarrow> flow_all G (moving n) (moves n) (in_ack e c v)"
  by (simp add: in_ack_def dupack_moves newack_moves)

lemma synced_moves:
  assumes "moves n c"
  shows "flow_all G (moving n) (moves n) (in_synced e c v)"
  unfolding in_synced_def
  by (rule flow_all_bind, rule checks_moves(1)[OF assms], rule flow_all_bind, erule checks_moves(2),
      rule flow_all_bind, erule checks_moves(3), rule flow_all_bind, erule checks_moves(4),
      rule flow_all_bind, erule checks_moves(5), rule flow_all_bind, erule checks_moves(6),
      rule flow_all_bind, erule checks_moves(7), rule flow_all_bind, erule checks_moves(8),
      rule flow_all_bind, erule synrcvd_moves, erule ack_moves)

lemma found_moves:
  assumes "moves n c"
  shows "flow_all (moving n) (moving n) (moves n) (in_found e start om c v)"
proof -
  have s: "flow_all (moving n) (moving n) (moves n) (in_switch e start om c1 v1)" if "moves n c1" for c1 v1
    using listen_moves[OF that] synsent_moves[OF that] synced_moves[OF that] by (simp add: in_switch_def)
  show ?thesis
    unfolding in_found_def
    by (rule flow_all_bind, rule start_moves[OF assms], rule flow_all_bind, erule predict_moves,
        rule flow_all_bind, erule window_moves, erule s)
qed

subsection \<open>From \<open>step6\<close> on\<close>

lemma fin_moves:
  assumes "moves n c"
  shows "moves n (in_fin c v)"
proof (cases "hasf TH_FIN (tif v)")
  case True
  define c1 where "c1 = (if t_state (ctp c) < TCPS_TIME_WAIT
      then set_tp (let t = or_flags TF_ACKNOW (ctp c) in t\<lparr>rcv_nxt := rcv_nxt t + 1\<rparr>) (socantrcvmore c) else c)"
  have k: "moves n c1"
    unfolding c1_def by (rule moves_same[OF assms]) (simp_all add: Let_def)
  have e: "moves n (set_tp ((ctp c1)\<lparr>t_state := m\<rparr>) c1)" if "fsm (t_state (ctp c1)) m" "m \<le> 10" for m
    by (rule moves_edge[OF k]) (use that in simp_all)
  have w: "moves n (set_tp (set_timewait (ctp c1)) (soisdisconnected c1))" if "t_state (ctp c1) = TCPS_FIN_WAIT_2"
    by (rule moves_edge[OF moves_snd(4)[OF k]]) (simp_all add: that fin_fin[unfolded TCPS_TIME_WAIT_def])
  have z: "moves n (set_tp (set_timer TCPT_2MSL x (ctp c1)) c1)" for x by (rule moves_tp[OF k]) simp
  have b: "TCPS_CLOSE_WAIT \<le> 10" "TCPS_CLOSING \<le> 10" by (simp_all add: tcps_defs)
  show ?thesis
    unfolding in_fin_def Let_def[of c1] Let_def c1_def[unfolded Let_def, symmetric]
    using True k w z e[OF _ b(1)] e[OF _ b(2)] rcv_syn_fin rcv_fin both_closing
    by (simp split: if_splits)
qed (simp add: in_fin_def assms)

lemma step6_moves:
  assumes "moves n c" "in_step6 c v = Some (Inr c')"
  shows "moves n c'"
proof -
  obtain c1 v1 where 1: "in_winup c v = (c1, v1)" by (cases "in_winup c v")
  obtain c2 v2 where 2: "in_urg c1 v1 = (c2, v2)" by (cases "in_urg c1 v1")
  obtain c3 v3 where 3: "in_text c2 v2 = (c3, v3)" by (cases "in_text c2 v2")
  have "moves n c1" using 1 assms(1) by (auto simp: in_winup_def Let_def intro: moves_tp split: if_splits)
  then have "moves n c2" using 2
    by (intro moves_same[of n c1 c2])
      (auto simp: in_urg_def urg_mark_def tcp_pulloutofband_def Let_def split: if_splits option.splits)
  then have "moves n c3" using 3 reass_state[of "sg v2" c2]
    by (intro moves_same[of n c2 c3]) (auto simp: in_text_def split: if_splits prod.splits)
  then have "moves n (in_fin c3 v3)" by (rule fin_moves)
  then show ?thesis
    using assms(2) 1 2 3 in_output_moves by (auto simp: in_step6_def Let_def split: if_splits)
qed

lemma tcp_input_moves:
  assumes "moves n c" "hd (tcp_input e om (Found c) f2 ti) = Conn (Some (Inr c'))"
  shows "moves n c'"
proof -
  have f: "flow_all (moving n) (moving n) (moves n) (in_found e 0 om c (invar0 ti))" by (rule found_moves[OF assms(1)])
  show ?thesis
    using f assms(2) step6_moves
    by (cases "in_found e 0 om c (invar0 ti)") (auto simp: tcp_input_def in_pcb_def split: option.splits)
qed


section \<open>Requests of the user\<close>

definition usr_all :: "(inconn \<Rightarrow> bool) \<Rightarrow> usrres \<Rightarrow> bool" where
  "usr_all Q r \<longleftrightarrow> (\<forall>c err b. r = Some (Inr (c, err, b)) \<longrightarrow> Q c)"

lemma usr_done_all [simp]: "usr_all Q (usr_done c err) = Q c"
  by (simp add: usr_done_def usr_all_def)

lemma usr_res_all: "(\<And>c. r = Some (Inr c) \<Longrightarrow> Q c) \<Longrightarrow> usr_all Q (usr_res r)"
  by (cases r; cases "the r") (auto simp: usr_res_def usr_all_def)

lemma usr_output_Inr: "usr_output c = Some (Inr (c1, err, b)) \<Longrightarrow> in_output c = Some (Inr c1)"
  by (auto simp: usr_output_def in_output_def split: sum.splits prod.splits)

lemma usr_output_moves: "moves n c \<Longrightarrow> usr_all (moves n) (usr_output c)"
  using in_output_moves usr_output_Inr unfolding usr_all_def by blast

lemma usrclosed_moves:
  assumes "moves n c"
  shows "moves n (tcp_usrclosed c)"
proof -
  define c1 where "c1 = (if t_state (ctp c) = TCPS_CLOSED \<or> t_state (ctp c) = TCPS_LISTEN \<or> t_state (ctp c) = TCPS_SYN_SENT
      then in_close (set_tp ((ctp c)\<lparr>t_state := TCPS_CLOSED\<rparr>) c)
      else set_tp ((ctp c)\<lparr>t_state := closed_state (t_state (ctp c))\<rparr>) c)"
  have e: "closed_state m = m \<or> fsm m (closed_state m)" "closed_state m \<le> 10" if "m \<le> 10" for m
    using that close_early close_first close_last by (auto simp: closed_state_def) (simp_all add: tcps_defs)
  have m: "t_state (ctp c) \<le> 10" using assms by (simp add: moves_def)
  have "moves n (set_tp ((ctp c)\<lparr>t_state := closed_state (t_state (ctp c))\<rparr>) c)"
  proof (cases "closed_state (t_state (ctp c)) = t_state (ctp c)")
    case True
    then show ?thesis by (intro moves_tp[OF assms]) simp
  next
    case False
    then show ?thesis using e[OF m] by (intro moves_edge[OF assms]) auto
  qed
  moreover have "moves n (in_close (set_tp ((ctp c)\<lparr>t_state := TCPS_CLOSED\<rparr>) c))"
    by (rule moves_gone) (simp_all add: tcps_defs)
  ultimately have "moves n c1" by (simp add: c1_def)
  then show ?thesis
    unfolding tcp_usrclosed_def Let_def c1_def[symmetric] using moves_snd(4) by simp
qed

lemma cant_moves:
  assumes "moves n c"
  shows "moves n (soisdisconnecting c)" "moves n (socantsendmore c)"
  by (rule moves_same[OF assms]; simp add: soisdisconnecting_def socantsendmore_def ctp_def)+

lemma disconnect_moves:
  assumes "moves n c" "tcp_disconnect e c = Some (Inr c1)"
  shows "moves n c1"
  using assms(2) in_dropconn_moves[OF _ assms(1)] in_output_moves
    usrclosed_moves[OF moves_snd(2)[OF cant_moves(1)[OF assms(1)]]] moves_close[OF assms(1)]
  by (auto simp: tcp_disconnect_def Let_def split: if_splits option.splits sum.splits)

text \<open>
  A request on a live connection; \<open>listen\<close> and \<open>connect\<close> keep to the diagram on a socket without a
  connection.
\<close>

lemma connect_moves:
  assumes "moves n c" "t_state (ctp c) = TCPS_CLOSED"
  shows "usr_all (moves n) (usr_connect e c)"
proof -
  define t1 where "t1 = (set_timer TCPT_KEEP (word_of_int TCPTV_KEEP_INIT) ((tp (cn c))\<lparr>t_state := TCPS_SYN_SENT\<rparr>))
      \<lparr>iss := ue_isn e, snd_una := ue_isn e, snd_nxt := ue_isn e, snd_max := ue_isn e, snd_up := ue_isn e\<rparr>"
  define c1 where "c1 = (soisconnecting c)\<lparr>cn := (cn c)\<lparr>tp := t1, sk := (sk (cn c))\<lparr>inp_faddr_any := False, inp_faddr_local := ue_local e\<rparr>\<rparr>\<rparr>"
  have s: "ctp c1 = t1" "alive (cn c1) = alive (cn c)" "t_state t1 = TCPS_SYN_SENT"
    by (simp_all add: c1_def t1_def ctp_def)
  have "moves n (set_tp t1 c)"
    by (rule moves_edge[OF assms(1)]) (simp_all add: s(3) assms(2) active_open, simp add: tcps_defs)
  then have "moves n c1" by (rule moves_same) (simp_all add: s)
  then show ?thesis
    unfolding usr_connect_def Let_def t1_def[symmetric] c1_def[symmetric]
    using usr_output_moves assms(1) by simp
qed

lemma sendoob_moves:
  assumes "moves n c"
  shows "usr_all (moves n) (usr_sendoob m c)"
proof -
  define c1 where "c1 = set_snd (sbappend (csnd c) m) c"
  define c2 where "c2 = set_tp ((ctp c1)\<lparr>snd_up := snd_una (ctp c1) + sb_cc (fst (csnd c1)), t_force := 1\<rparr>) c1"
  have "moves n c2" unfolding c2_def c1_def by (rule moves_tp[OF moves_snd(1)[OF assms]]) simp
  then have "usr_all (moves n) (usr_output c2)" by (rule usr_output_moves)
  then have "usr_all (moves n) (map_option (map_sum id (\<lambda>(c3, err, b). (set_tp ((ctp c3)\<lparr>t_force := 0\<rparr>) c3, err, b))) (usr_output c2))"
    by (cases "usr_output c2"; cases "the (usr_output c2)") (auto simp: usr_all_def intro: moves_tp)
  then show ?thesis
    unfolding usr_sendoob_def Let_def c1_def[symmetric] c2_def[symmetric] by (simp add: assms)
qed


section \<open>Timers\<close>

lemma output_ignored_moves:
  assumes "output_ignored st = Some (Inr st')" "moves n (c\<lparr>cn := st\<rparr>)"
  shows "moves n (c\<lparr>cn := st'\<rparr>)"
proof -
  obtain e where "tcp_output st = Some (Inr (st', e))"
    using assms(1) by (cases "tcp_output st"; cases "the (tcp_output st)") (auto simp: output_ignored_def)
  then have "in_output (c\<lparr>cn := st\<rparr>) = Some (Inr (c\<lparr>cn := st'\<rparr>))" by (simp add: in_output_def)
  then show ?thesis by (rule in_output_moves) (rule assms(2))
qed

definition smoves :: "nat \<Rightarrow> tcpst \<Rightarrow> bool" where
  "smoves n st \<longleftrightarrow> t_state (tp st) \<le> 10 \<and> (alive st \<longrightarrow> fsm\<^sup>*\<^sup>* n (t_state (tp st)))"

lemma moves_cn: "moves n (c\<lparr>cn := st\<rparr>) = smoves n st"
  by (simp add: moves_def smoves_def ctp_def)

lemma smoves_same: "smoves n st \<Longrightarrow> t_state (tp st') = t_state (tp st) \<Longrightarrow> alive st' = alive st \<Longrightarrow> smoves n st'"
  by (simp add: smoves_def)

lemma smoves_gone: "t_state (tp st) \<le> 10 \<Longrightarrow> \<not> alive st \<Longrightarrow> smoves n st"
  by (simp add: smoves_def)

lemma output_smoves: "output_ignored st = Some (Inr st') \<Longrightarrow> smoves n st \<Longrightarrow> smoves n st'"
  using output_ignored_moves[of st st' n undefined] by (simp add: moves_cn)

lemma setpersist_state: "tcp_setpersist t = Inr t' \<Longrightarrow> t_state t' = t_state t"
  using setpersist_frame[of t t' t] by (simp add: frame_def)

lemma respond_alive [simp]: "alive (tcp_respond a s st) = alive st"
  by (simp add: tcp_respond_def Let_def split: netres.split)

lemma backoff_same: "t_state (tp (rexmt_backoff st)) = t_state (tp st)" "alive (rexmt_backoff st) = alive st"
  by (simp_all add: rexmt_backoff_def Let_def)


lemma tcp_timers_smoves:
  assumes "tcp_timers i st = Some (Inr st')" "smoves n st"
  shows "smoves n st'"
proof (cases i)
  case TCPT_2MSL
  then show ?thesis using assms by (auto simp: tcp_timers_def Let_def smoves_def split: if_splits)
next
  case TCPT_REXMT
  let ?t = "tp st" and ?u = "(tp st)\<lparr>t_rxtshift := t_rxtshift (tp st) + 1\<rparr>"
  have s: "smoves n (st\<lparr>tp := ?u\<rparr>)" by (rule smoves_same[OF assms(2)]) simp_all
  show ?thesis
  proof (cases "t_state ?t \<ge> TCPS_ESTABLISHED \<and> sb_cc (so_snd (sk st)) > 0 \<and> snd_wnd ?t = 0 \<and> SEQ_LT (snd_una ?t) (snd_max ?t)")
    case True
    then obtain t' where "tcp_setpersist ((set_timer TCPT_REXMT 0 ?t)\<lparr>t_rxtshift := 0\<rparr>) = Inr t'" "st' = st\<lparr>tp := t'\<rparr>"
      using assms(1) TCPT_REXMT
      by (cases "tcp_setpersist ((set_timer TCPT_REXMT 0 ?t)\<lparr>t_rxtshift := 0\<rparr>)") (auto simp: tcp_timers_def Let_def)
    then show ?thesis using setpersist_state by (intro smoves_same[OF assms(2)]) fastforce+
  next
    case False
    show ?thesis
    proof (cases "sint (t_rxtshift ?u) > TCP_MAXRXTSHIFT")
      case True
      then obtain err where "tcp_drop err (st\<lparr>tp := ?u\<lparr>t_rxtshift := word_of_int TCP_MAXRXTSHIFT\<rparr>\<rparr>) = Some (Inr st')"
        using assms(1) TCPT_REXMT False by (auto simp: tcp_timers_def Let_def)
      from tcp_drop_moves[OF this] show ?thesis using assms(2) by (intro smoves_gone) (simp_all add: smoves_def)
    next
      case small: False
      then have "output_ignored (rexmt_backoff (st\<lparr>tp := ?u\<rparr>)) = Some (Inr st')"
        using assms(1) TCPT_REXMT False by (auto simp: tcp_timers_def Let_def)
      then show ?thesis by (rule output_smoves) (rule smoves_same[OF s]; simp add: backoff_same)
    qed
  qed
next
  case TCPT_PERSIST
  then obtain t1 where p: "tcp_setpersist (tp st) = Inr t1"
    using assms(1) by (cases "tcp_setpersist (tp st)") (auto simp: tcp_timers_def Let_def)
  obtain s where o: "output_ignored (st\<lparr>tp := t1\<lparr>t_force := 1\<rparr>\<rparr>) = Some (Inr s)" "st' = s\<lparr>tp := (tp s)\<lparr>t_force := 0\<rparr>\<rparr>"
    using assms(1) TCPT_PERSIST p
    by (cases "output_ignored (st\<lparr>tp := t1\<lparr>t_force := 1\<rparr>\<rparr>)"; cases "the (output_ignored (st\<lparr>tp := t1\<lparr>t_force := 1\<rparr>\<rparr>))")
      (auto simp: tcp_timers_def Let_def)
  have "smoves n s"
    by (rule output_smoves[OF o(1)], rule smoves_same[OF assms(2)]) (simp_all add: setpersist_state[OF p])
  then show ?thesis by (rule smoves_same) (simp_all add: o(2))
next
  case TCPT_KEEP
  have d: "smoves n st'" if "tcp_drop ETIMEDOUT st = Some (Inr st')"
    using tcp_drop_moves[OF that] assms(2) by (intro smoves_gone) (simp_all add: smoves_def)
  have k: "smoves n (x\<lparr>tp := set_timer TCPT_KEEP y (tp x)\<rparr>)" if "t_state (tp x) = t_state (tp st)" "alive x = alive st" for x y
    by (rule smoves_same[OF assms(2)]) (simp_all add: that)
  show ?thesis
    using assms(1) d k[of st] k[of "tcp_respond (rcv_nxt (tp st)) (snd_una (tp st) - 1) st"] TCPT_KEEP
    by (auto simp: tcp_timers_def Let_def split: if_splits)
qed

lemma timer_ticks_smoves: "timer_ticks is st = Some (Inr st') \<Longrightarrow> smoves n st \<Longrightarrow> smoves n st'"
proof (induction "is" arbitrary: st)
  case (Cons i "is")
  obtain st1 where s: "timer_tick i st = Some (Inr st1)" "if alive st1 then timer_ticks is st1 = Some (Inr st') else st' = st1"
    using Cons.prems(1) by (cases "timer_tick i st"; cases "the (timer_tick i st)") (auto split: if_splits)
  have "smoves n (st\<lparr>tp := set_timer i (t_timer (tp st) i - 1) (tp st)\<rparr>)"
    by (rule smoves_same[OF Cons.prems(2)]) simp_all
  then have "smoves n st1"
    using s(1) Cons.prems(2) tcp_timers_smoves by (auto simp: timer_tick_def Let_def split: if_splits)
  then show ?case using s(2) Cons.IH by (auto split: if_splits)
qed simp

lemma slow_one_smoves:
  assumes "slow_one sleeper st = Some (Inr st')" "smoves n st"
  shows "smoves n st'"
proof -
  have stall: "t_state (fst (ng_rcvstall_check x sl sb t)) = t_state t" for x sl sb t
    by (simp add: ng_rcvstall_check_def)
  let ?r = "timer_ticks [TCPT_REXMT, TCPT_PERSIST, TCPT_KEEP, TCPT_2MSL] st"
  obtain st1 where s: "?r = Some (Inr st1)" "t_state (tp st') = t_state (tp st1)" "alive st' = alive st1"
    using assms(1)
    by (cases ?r; cases "the ?r") (auto simp: slow_one_def Let_def stall simp del: timer_ticks.simps split: if_splits)
  show ?thesis by (rule smoves_same[OF timer_ticks_smoves[OF s(1) assms(2)] s(2,3)])
qed

lemma fast_one_smoves:
  assumes "fast_one st = Some (Inr st')" "smoves n st"
  shows "smoves n st'"
proof (cases "tf (TF_DELACK OR TF_ACKNOW) (tp st)")
  case True
  then have "output_ignored (st\<lparr>tp := (tp st)\<lparr>t_flags := t_flags (tp st) AND NOT TF_DELACK OR TF_ACKNOW\<rparr>\<rparr>) = Some (Inr st')"
    using assms(1) by (simp add: fast_one_def Let_def)
  then show ?thesis by (rule output_smoves) (rule smoves_same[OF assms(2)]; simp)
qed (use assms in \<open>simp add: fast_one_def Let_def\<close>)


section \<open>A step\<close>

lemma switch_moves:
  assumes "moves n c" "alive (cn c)" "req = PRU_LISTEN \<or> req = PRU_CONNECT \<Longrightarrow> t_state (ctp c) = TCPS_CLOSED"
  shows "usr_all (moves n) (usr_switch e req c)"
proof (cases req)
  case PRU_DETACH
  then show ?thesis
    using disconnect_moves[OF assms(1)] moves_close[OF assms(1)] by (auto intro!: usr_res_all split: if_splits)
next
  case PRU_LISTEN
  have "moves n (set_tp ((ctp c)\<lparr>t_state := TCPS_LISTEN\<rparr>) c)"
    by (rule moves_edge[OF assms(1)]) (simp_all add: assms(3) PRU_LISTEN passive_open, simp add: tcps_defs)
  then show ?thesis using assms(1) PRU_LISTEN by simp
next
  case PRU_CONNECT
  then show ?thesis using connect_moves[OF assms(1)] assms(3) by simp
next
  case PRU_DISCONNECT
  then show ?thesis using disconnect_moves[OF assms(1)] by (auto intro!: usr_res_all)
next
  case PRU_SHUTDOWN
  then show ?thesis
    using usrclosed_moves[OF cant_moves(2)[OF assms(1)]] usr_output_moves by (simp add: Let_def)
next
  case PRU_RCVD
  then show ?thesis using in_output_moves[OF _ assms(1)] by (auto intro!: usr_res_all)
next
  case (PRU_SEND m)
  then show ?thesis using usr_output_moves[OF moves_snd(1)[OF assms(1)]] by (simp add: usr_send_def)
next
  case PRU_ABORT
  then show ?thesis using in_dropconn_moves[OF _ assms(1)] by (auto intro!: usr_res_all)
next
  case (PRU_RCVOOB peek)
  then show ?thesis using assms(1) moves_tp[OF assms(1)] by (simp add: usr_rcvoob_def Let_def usr_all_def usr_done_def)
next
  case (PRU_SENDOOB m)
  then show ?thesis using sendoob_moves[OF assms(1)] by simp
next
  case (PRU_SLOWTIMO i)
  have "smoves n (cn c)" using assms(1) moves_cn[of n "cn c" c] by simp
  then show ?thesis
    using PRU_SLOWTIMO tcp_timers_smoves
    by (cases "tcp_timers i (cn c)"; cases "the (tcp_timers i (cn c))") (auto simp: usr_timer_def usr_all_def moves_cn)
next
  case PRU_ATTACH
  then show ?thesis using assms(1,2) by simp
qed (use assms(1) in \<open>simp_all add: usr_all_def[of _ "Some (Inl _)"]\<close>)

text \<open>
  A step of a live connection: a segment, a tick of its timers, or a request, with \<open>listen\<close> and
  \<open>connect\<close> on a socket without a connection.
\<close>

inductive tcp_step :: "inconn \<Rightarrow> inconn \<Rightarrow> bool" where
  segment: "alive (cn c) \<Longrightarrow> hd (tcp_input e om (Found c) f2 ti) = Conn (Some (Inr c')) \<Longrightarrow> tcp_step c c'"
| slow: "alive (cn c) \<Longrightarrow> slow_one sleeper (cn c) = Some (Inr st) \<Longrightarrow> tcp_step c (c\<lparr>cn := st\<rparr>)"
| fast: "alive (cn c) \<Longrightarrow> fast_one (cn c) = Some (Inr st) \<Longrightarrow> tcp_step c (c\<lparr>cn := st\<rparr>)"
| request: "alive (cn c) \<Longrightarrow> tcp_usrreq u req ctl c = Some (Inr (c', err, b)) \<Longrightarrow>
    (req = PRU_LISTEN \<or> req = PRU_CONNECT \<longrightarrow> t_state (ctp c) = TCPS_CLOSED) \<Longrightarrow> tcp_step c c'"

lemma tcp_step_moves: "tcp_step c c' \<Longrightarrow> moves n c \<Longrightarrow> moves n c'"
proof (induction rule: tcp_step.induct)
  case (segment c e om f2 ti c')
  show ?case by (rule tcp_input_moves[OF segment(3,2)])
next
  case (slow c sleeper st)
  then show ?case using slow_one_smoves[of sleeper "cn c" st n] moves_cn[of n "cn c" c] by (simp add: moves_cn)
next
  case (fast c st)
  then show ?case using fast_one_smoves[of "cn c" st n] moves_cn[of n "cn c" c] by (simp add: moves_cn)
next
  case (request c u req ctl c' err b)
  have s: "usr_all (moves n) (usr_switch u req c)"
    by (rule switch_moves[OF request(4,1)]) (use request(3) in blast)
  have d: "tcp_usrreq u req ctl c = usr_switch u req c \<or> (\<exists>x. tcp_usrreq u req ctl c = usr_done c x)"
    by (auto simp: tcp_usrreq_def)
  have "usr_all (moves n) (tcp_usrreq u req ctl c)" using d s request(4) by auto
  then show ?case unfolding request(2) by (simp add: usr_all_def)
qed


text \<open>Once the user has closed its side, a connection only goes on closing; \<open>TIME_WAIT\<close> is final.\<close>

lemma fsm_closing:
  assumes "fsm\<^sup>*\<^sup>* n m" "TCPS_FIN_WAIT_1 \<le> n"
  shows "TCPS_FIN_WAIT_1 \<le> m \<and> (n = TCPS_TIME_WAIT \<longrightarrow> m = TCPS_TIME_WAIT)"
  using assms(1)
proof (induction rule: rtranclp_induct)
  case (step y z)
  have "fsm y z \<Longrightarrow> TCPS_FIN_WAIT_1 \<le> y \<Longrightarrow> TCPS_FIN_WAIT_1 \<le> z \<and> y \<noteq> TCPS_TIME_WAIT"
    by (erule fsm_fromE) (simp_all add: tcps_defs)
  then show ?case using step by auto
qed (use assms(2) in simp)


text \<open>The user closes the sending side of an established connection with 2500 bytes to send.\<close>

definition ex_closing :: inconn where
  "ex_closing = (ex_conn ex_tcb)\<lparr>cn := ex_st (\<lambda>_. Sent 0) 2500 ex_tcb\<rparr>"

definition ex_user :: usrenv where
  "ex_user = \<lparr>ue_control = 0, ue_lport = True, ue_bind = 0, ue_connect = 0, ue_pcballoc = 0, ue_template = True,
     ue_newtcb = True, ue_isn = 0, ue_local = True, ue_locked = False, ue_linger0 = False, ue_rfc1323 = True,
     ue_tstmp = False, ue_sack = True, tcp_sendspace = 61320, tcp_recvspace = 61320\<rparr>"

lemma ex_closing_ok: "conn_ok (ex_sock 2500) (ex_tcb\<lparr>t_state := 6\<rparr>)"
proof -
  have "nxt (ex_tcb\<lparr>t_state := 6\<rparr>) = 0" "mx (ex_tcb\<lparr>t_state := 6\<rparr>) = 0" by (simp_all add: nxt_def mx_def ex_tcb_def)
  moreover have "cc (ex_sock 2500) = 2500" by (simp add: cc_def ex_sock_def ex_buf_def)
  ultimately show ?thesis
    by (simp add: conn_ok_def seq_ok_def timers_ok_def fin_state_def TCP_MAXRXTSHIFT_def)
      (simp add: ex_tcb_def tcpcb_zero_def tf_def)
qed


end
