(* ===== verification/Tcp_Rst.thy ===== *)
theory Tcp_Rst
  imports Tcp_Fsm Tcp_Input_Correct
begin

text \<open>
  What may end a connection (RFC 5961): a synchronised connection survives every segment but an exact
  reset, the acknowledgement it waits for in \<open>LAST_ACK\<close>, a new SYN in \<open>TIME_WAIT\<close>, and anything after
  its user is gone.
\<close>

definition may_end :: "tseg \<Rightarrow> inconn \<Rightarrow> bool" where
  "may_end ti c \<longleftrightarrow>
     hasf TH_RST (ti_flags ti) \<and> ti_seq ti = rcv_nxt (ctp c) \<or>
     t_state (ctp c) = TCPS_LAST_ACK \<and> ti_ack ti - snd_una (ctp c) > sb_cc (so_snd (sk (cn c))) \<or>
     t_state (ctp c) = TCPS_TIME_WAIT \<and> hasf TH_SYN (ti_flags ti) \<or>
     t_state (ctp c) > TCPS_CLOSE_WAIT \<and> ss_nofdref c"

abbreviation lives :: "bool \<Rightarrow> inconn \<Rightarrow> bool" where
  "lives E c \<equiv> alive (cn c) \<or> E"

text \<open>The connection as the segment met it; what is left of the segment.\<close>

definition steady :: "inconn \<Rightarrow> inconn \<Rightarrow> bool" where
  "steady c0 c \<longleftrightarrow> alive (cn c) \<and> t_state (ctp c) = t_state (ctp c0) \<and> rcv_nxt (ctp c) = rcv_nxt (ctp c0) \<and>
     snd_una (ctp c) = snd_una (ctp c0) \<and> sb_cc (so_snd (sk (cn c))) = sb_cc (so_snd (sk (cn c0))) \<and>
     ss_nofdref c = ss_nofdref c0"

definition of_seg :: "tseg \<Rightarrow> invar \<Rightarrow> bool" where
  "of_seg ti v \<longleftrightarrow> ti_ack (sg v) = ti_ack ti \<and> (hasf TH_RST (tif v) \<longrightarrow> hasf TH_RST (ti_flags ti)) \<and>
     (hasf TH_SYN (tif v) \<longrightarrow> hasf TH_SYN (ti_flags ti))"

abbreviation arrived :: "inconn \<Rightarrow> tseg \<Rightarrow> inconn \<Rightarrow> invar \<Rightarrow> bool" where
  "arrived c0 ti \<equiv> \<lambda>c v. steady c0 c \<and> of_seg ti v \<and> ti_seq (sg v) = ti_seq ti"

abbreviation trimmed :: "inconn \<Rightarrow> tseg \<Rightarrow> inconn \<Rightarrow> invar \<Rightarrow> bool" where
  "trimmed c0 ti \<equiv> \<lambda>c v. steady c0 c \<and> of_seg ti v \<and> rst_seq v = ti_seq ti"

lemma hasf_and: "hasf m (w AND x) \<Longrightarrow> hasf m w"
proof -
  have "(w AND x) AND m = (w AND m) AND x" by (simp only: ac_simps)
  then show "hasf m (w AND x) \<Longrightarrow> hasf m w" by (auto simp: hasf_def)
qed

lemma steady_tp: "steady c0 c \<Longrightarrow> t_state t = t_state (ctp c) \<Longrightarrow> rcv_nxt t = rcv_nxt (ctp c) \<Longrightarrow> snd_una t = snd_una (ctp c) \<Longrightarrow>
    steady c0 (set_tp t c)"
  by (simp add: steady_def) (simp add: set_tp_def)

lemma steady_alive: "steady c0 c \<Longrightarrow> alive (cn c)"
  by (simp add: steady_def)

lemma or_flags_una [simp]: "snd_una (or_flags f t) = snd_una t" "snd_una (ts_update x y v t) = snd_una t"
  by (simp_all add: or_flags_def ts_update_def)

lemma sack_update_una [simp]: "snd_una (tcp_sack_update t bs) = snd_una t"
proof -
  have i: "snd_una (tcp_sack_snd_insert u s e) = snd_una u" for u s e
    by (simp add: tcp_sack_snd_insert_def split: prod.splits)
  have l: "snd_una (sack_update_loop u bs) = snd_una u" for u
    by (induction u bs rule: sack_update_loop.induct) (simp_all add: i Let_def)
  show ?thesis using l[of "tcp_sack_snd_trim t"] by (simp add: tcp_sack_update_def tcp_sack_snd_trim_def)
qed

section \<open>The ways out keep a connection alive\<close>

lemma in_output_alive:
  assumes "in_output c = Some (Inr c1)" "t_state (ctp c) \<le> 10"
  shows "alive (cn c1) = alive (cn c)" "t_state (ctp c1) = t_state (ctp c)"
proof -
  obtain st e where o: "tcp_output (cn c) = Some (Inr (st, e))" "c1 = c\<lparr>cn := st\<rparr>"
    using in_output_Inr[OF assms(1)] by blast
  have "sframe (cn c) st" by (rule tcp_output_frame[OF o(1)]) (use assms(2) in \<open>simp add: ctp_def\<close>)
  then show "alive (cn c1) = alive (cn c)" "t_state (ctp c1) = t_state (ctp c)" by (simp_all add: o(2) sframe_def frame_def ctp_def)
qed

text \<open>A live connection, in a state \<open>m\<close>.\<close>

definition livein :: "nat \<Rightarrow> inconn \<Rightarrow> bool" where
  "livein m c \<longleftrightarrow> alive (cn c) \<and> t_state (ctp c) = m \<and> m \<le> 10"

lemma livein_tp: "livein m c \<Longrightarrow> t_state t = t_state (ctp c) \<Longrightarrow> livein m (set_tp t c)"
  by (simp add: livein_def)

lemma livein_output: "in_output c = Some (Inr c1) \<Longrightarrow> livein m c \<Longrightarrow> livein m c1"
  using in_output_alive[of c c1] by (simp add: livein_def)

lemma livein_sbdrop: "in_sbdrop k c = Some (Inr c1) \<Longrightarrow> livein m c \<Longrightarrow> livein m c1"
  using in_sbdrop_Inr[of k c c1] by (auto simp: livein_def)

lemma ack_now_lives: "livein m c \<Longrightarrow> flow_all G S (lives E) (in_ack_now c)"
proof -
  assume "livein m c"
  then have "livein m (set_tp (or_flags TF_ACKNOW (ctp c)) c)" by (rule livein_tp) simp
  then show ?thesis using livein_output by (auto simp: in_ack_now_def livein_def)
qed

lemma dropafterack_lives: "livein m c \<Longrightarrow> flow_all G S (lives E) (in_dropafterack v c)"
  by (simp add: in_dropafterack_def ack_now_lives) (simp add: livein_def)

lemma challenge_lives: "livein m c \<Longrightarrow> flow_all G S (lives E) (in_challenge c)"
proof -
  assume k: "livein m c"
  define c1 where "c1 = (if now c \<noteq> challenge_win c then c\<lparr>challenge_win := now c, challenge_cnt := 0\<rparr> else c)"
  define c2 where "c2 = c1\<lparr>challenge_cnt := challenge_cnt c1 + 1\<rparr>"
  have l: "livein m c2" using k by (simp add: c1_def c2_def livein_def ctp_def)
  then show ?thesis
    unfolding in_challenge_def Let_def c1_def[symmetric] c2_def[symmetric]
    using ack_now_lives[OF l] by (simp add: livein_def)
qed

lemma reset_lives: "livein m c \<Longrightarrow> flow_all G S (lives E) (in_dropwithreset e g v c)"
  by (simp add: in_dropwithreset_def in_reset_def Let_def livein_def)

lemma output_drop_lives:
  assumes "livein m c" "\<And>t. t_state (f t) = t_state t"
  shows "flow_all G S (lives E) (output_drop f c)"
  unfolding output_drop_def using livein_output[OF _ assms(1)] by (auto intro!: flow_rules simp: livein_def)

lemma output_if_data_lives: "livein m c \<Longrightarrow> flow_all G S (lives E) (output_if_data c)"
  using livein_output by (auto simp: output_if_data_def livein_def)

lemma steady_livein: "steady c0 c \<Longrightarrow> t_state (ctp c0) \<le> 10 \<Longrightarrow> livein (t_state (ctp c0)) c"
  by (simp add: steady_def livein_def)


section \<open>Up to the acknowledgement\<close>

abbreviation living :: "inconn \<Rightarrow> invar \<Rightarrow> bool" where
  "living \<equiv> \<lambda>c v. alive (cn c)"

lemma start_arrived:
  assumes "arrived c0 ti c v" "4 \<le> t_state (ctp c0)"
  shows "flow_all (arrived c0 ti) S (lives E) (in_start om c v)"
proof -
  define c1 where "c1 = set_tp (set_timer TCPT_KEEP (word_of_int (tcp_keepidle (glob (cn c)))) ((ctp c)\<lparr>t_idle := 0\<rparr>)) c"
  have k: "arrived c0 ti c1 v" using assms(1) by (auto simp: c1_def intro: steady_tp)
  have "flow_all (arrived c0 ti) S (lives E) (in_options om c1 v)"
  proof (cases om)
    case (Some cp)
    show ?thesis
    proof (cases "tcp_dooptions (ti_flags (sg v)) cp (io v) (cn c1)")
      case (Some r)
      obtain st o1 where r: "r = (st, o1)" by (cases r)
      have "opt_same (cn c1) st" using tcp_dooptions_same Some r by simp
      then have "steady c0 (c1\<lparr>cn := st\<rparr>)" using k by (simp add: steady_def opt_same_def ctp_def)
      then show ?thesis using \<open>om = Some cp\<close> Some r k by (simp add: in_options_def of_seg_def)
    qed (simp add: in_options_def Some)
  qed (use k in \<open>simp add: in_options_def\<close>)
  moreover have "t_state (ctp c) \<noteq> TCPS_CLOSED" "t_state (ctp c) \<noteq> TCPS_LISTEN"
    using assms by (auto simp: steady_def tcps_defs)
  ultimately show ?thesis
    unfolding in_start_def Let_def c1_def[symmetric]
    by (cases "in_options om c1 v") (auto simp: of_seg_def)
qed

lemma predict_arrived:
  assumes "arrived c0 ti c v" "t_state (ctp c0) \<le> 10"
  shows "flow_all (arrived c0 ti) S (lives E) (in_predict c v)"
proof -
  define c1 where "c1 = set_tp (ts_update (now c) 0 v (ctp c)) c"
  have k: "arrived c0 ti c1 v" using assms(1) by (auto simp: c1_def intro: steady_tp)
  let ?m = "t_state (ctp c0)"
  have l: "livein ?m c1" using k steady_livein assms(2) by blast
  have a: "flow_all (arrived c0 ti) S (lives E) (predict_ack w c1 v)" for w
  proof -
    define t2 where "t2 = ack_rtt (now c1) v (if w then set_wnd (sg v) (tiwin v) ((ctp c1)\<lparr>t_dupacks := 0\<rparr>) else (ctp c1)\<lparr>t_dupacks := 0\<rparr>)"
    have "livein ?m (set_tp t2 c1)" by (rule livein_tp[OF l]) (simp add: t2_def)
    then show ?thesis
      unfolding predict_ack_def Let_def t2_def[symmetric]
      by (intro flow_all_res output_if_data_lives livein_tp) (auto dest: livein_sbdrop)
  qed
  have b: "flow_all (arrived c0 ti) S (lives E) (predict_win c1 v)"
    unfolding predict_win_def Let_def by (rule output_if_data_lives, rule livein_tp[OF l]) simp
  have d: "flow_all (arrived c0 ti) S (lives E) (predict_data c1 v)"
  proof -
    let ?t = "TCP_SETDELACK ((ctp c1)\<lparr>rcv_nxt := rcv_nxt (ctp c1) + scast (ti_len (sg v))\<rparr>)"
    have "livein ?m (set_tp ?t (set_rcv (sbappend (crcv c1) (ti_m (sg v))) c1))"
      by (rule livein_tp) (use l in \<open>simp_all add: livein_def\<close>)
    then show ?thesis unfolding predict_data_def Let_def using livein_output by (auto simp: livein_def)
  qed
  show ?thesis
    unfolding in_predict_def Let_def c1_def[symmetric]
    by (intro flow_all_if a b d) (use k assms(1) in simp_all)
qed

lemma left_cut_seg: "of_seg ti v \<Longrightarrow> of_seg ti (left_cut d v)" "rst_seq (left_cut d v) = rst_seq v"
  by (auto simp: left_cut_def of_seg_def seg_skip_def Let_def intro: hasf_and)

lemma left_syn_seg: "of_seg ti v \<Longrightarrow> of_seg ti (snd (left_syn d v))" "rst_seq (snd (left_syn d v)) = rst_seq v"
  by (auto simp: left_syn_def of_seg_def Let_def intro: hasf_and dest: hasf_and)

lemma right_cut_seg: "of_seg ti v \<Longrightarrow> of_seg ti (right_cut d v)" "rst_seq (right_cut d v) = rst_seq v"
  by (auto simp: right_cut_def of_seg_def Let_def intro: hasf_and)

lemma left_trimmed:
  assumes "arrived c0 ti c v" "t_state (ctp c0) \<le> 10"
  shows "flow_all (trimmed c0 ti) S (lives E) (in_left c v)"
proof -
  define w where "w = v\<lparr>rst_seq := ti_seq (sg v)\<rparr>"
  have w: "of_seg ti w" "rst_seq w = ti_seq ti" using assms(1) by (simp_all add: w_def of_seg_def)
  obtain d v1 where s: "left_syn (sint (rcv_nxt (ctp c) - ti_seq (sg w))) w = (d, v1)"
    by (cases "left_syn (sint (rcv_nxt (ctp c) - ti_seq (sg w))) w")
  have v1: "of_seg ti v1" "rst_seq v1 = ti_seq ti"
    using left_syn_seg(1)[of ti w "sint (rcv_nxt (ctp c) - ti_seq (sg w))"]
      left_syn_seg(2)[of "sint (rcv_nxt (ctp c) - ti_seq (sg w))" w] w s by simp_all
  have nf: "of_seg ti (v1\<lparr>tif := tif v1 AND NOT TH_FIN\<rparr>)" using v1(1) by (auto simp: of_seg_def intro: hasf_and)
  have st: "steady c0 c" "livein (t_state (ctp c0)) c" using assms steady_livein by auto
  have tp: "steady c0 (set_tp (or_flags TF_ACKNOW (ctp c)) c)" by (rule steady_tp[OF st(1)]) simp_all
  have ds: "livein (t_state (ctp c0)) (set_tp (or_flags f ((ctp c)\<lparr>rcv_dsackblk := b\<rparr>)) c)" for f b
    by (rule livein_tp[OF st(2)]) simp
  show ?thesis
    unfolding in_left_def Let_def w_def[symmetric] s prod.case
    by (intro flow_all_if dropafterack_lives[where m = "t_state (ctp c0)"])
      (use left_cut_seg(1)[OF v1(1)] left_cut_seg(1)[OF nf] v1(2) w tp st ds in \<open>simp_all add: left_cut_seg(2)\<close>)
qed

lemma paws_arrived:
  assumes "arrived c0 ti c v" "t_state (ctp c0) \<le> 10"
  shows "flow_all (arrived c0 ti) S (lives E) (in_paws c v)"
proof -
  have l: "livein (t_state (ctp c0)) c" using assms steady_livein by blast
  have "steady c0 (set_tp ((ctp c)\<lparr>ts_recent := 0\<rparr>) c)" by (rule steady_tp) (use assms(1) in simp_all)
  then show ?thesis
    unfolding in_paws_def Let_def
    by (intro flow_all_if dropafterack_lives[OF l]) (use assms(1) in simp_all)
qed

lemma trimmed_checks:
  assumes "trimmed c0 ti c v" "t_state (ctp c0) \<le> 10" "4 \<le> t_state (ctp c0)"
  shows "flow_all (trimmed c0 ti) S (lives (may_end ti c0)) (in_gone e c v)"
    "flow_all (trimmed c0 ti) S (lives (may_end ti c0)) (in_right c v)"
    "flow_all (trimmed c0 ti) S (lives (may_end ti c0)) (in_tsrecent c v)"
    "flow_all (trimmed c0 ti) S (lives (may_end ti c0)) (in_rst c v)"
    "flow_all (trimmed c0 ti) S (lives (may_end ti c0)) (in_syn c v)"
    "flow_all (trimmed c0 ti) S (lives (may_end ti c0)) (in_sack c v)"
    "flow_all (trimmed c0 ti) S (lives (may_end ti c0)) (in_synrcvd e c v)"
proof -
  have s: "steady c0 c" "of_seg ti v" "rst_seq v = ti_seq ti" using assms(1) by auto
  have l: "livein (t_state (ctp c0)) c" using s(1) assms(2) steady_livein by blast
  have n: "t_state (ctp c) = t_state (ctp c0)" "rcv_nxt (ctp c) = rcv_nxt (ctp c0)" "ss_nofdref c = ss_nofdref c0" "alive (cn c)"
    using s(1) by (simp_all add: steady_def)
  have up: "steady c0 (set_tp t c)" if "t_state t = t_state (ctp c)" "rcv_nxt t = rcv_nxt (ctp c)" "snd_una t = snd_una (ctp c)" for t
    by (rule steady_tp[OF s(1) that])
  show "flow_all (trimmed c0 ti) S (lives (may_end ti c0)) (in_gone e c v)"
  proof (cases "ss_nofdref c \<and> t_state (ctp c) > TCPS_CLOSE_WAIT \<and> ti_len (sg v) \<noteq> 0")
    case True
    then have "may_end ti c0" using n by (simp add: may_end_def)
    then show ?thesis using True by (simp add: in_gone_def in_dropwithreset_def)
  qed (use assms(1) in \<open>auto simp: in_gone_def\<close>)
  show "flow_all (trimmed c0 ti) S (lives (may_end ti c0)) (in_right c v)"
  proof -
    have e: "may_end ti c0" if "hasf TH_SYN (tif v)" "t_state (ctp c) = TCPS_TIME_WAIT"
      using that s(2) n by (simp add: may_end_def of_seg_def)
    show ?thesis
      unfolding in_right_def Let_def
      by (intro flow_all_if dropafterack_lives[OF l]) (use e s right_cut_seg up in auto)
  qed
  show "flow_all (trimmed c0 ti) S (lives (may_end ti c0)) (in_tsrecent c v)"
    unfolding in_tsrecent_def flow_all.simps using up s by simp
  show "flow_all (trimmed c0 ti) S (lives (may_end ti c0)) (in_rst c v)"
  proof -
    have e: "may_end ti c0" if "hasf TH_RST (tif v)" "\<not> rst_seq v \<noteq> rcv_nxt (ctp c)"
      using that s n by (simp add: may_end_def of_seg_def)
    show ?thesis
      unfolding in_rst_def Let_def
      by (intro flow_all_if challenge_lives[OF l]) (use e s in \<open>simp_all add: rst_close_def\<close>)
  qed
  show "flow_all (trimmed c0 ti) S (lives (may_end ti c0)) (in_syn c v)"
    unfolding in_syn_def by (intro flow_all_if challenge_lives[OF l]) (use n s in simp_all)
  show "flow_all (trimmed c0 ti) S (lives (may_end ti c0)) (in_sack c v)"
    unfolding in_sack_def Let_def by (intro flow_all_if) (use s up in \<open>auto simp: of_seg_def\<close>)
  show "flow_all (trimmed c0 ti) S (lives (may_end ti c0)) (in_synrcvd e c v)"
    using n assms(3) s by (simp add: in_synrcvd_def Let_def tcps_defs)
qed


section \<open>Acknowledgements and the rest\<close>

lemma dupack_lives:
  assumes "livein m c"
  shows "flow_all G living (lives E) (in_dupack e c v)"
proof -
  have f: "flow_all G living (lives E) (fast_rexmt t ti c)" if "t_state t = t_state (ctp c)" for t ti
    unfolding fast_rexmt_def Let_def
    by (intro flow_all_if output_drop_lives[where m = m] livein_tp[OF assms]) (use that in simp_all)
  have a: "alive (cn c)" using assms by (simp add: livein_def)
  show ?thesis
    unfolding in_dupack_def Let_def
    by (intro flow_all_if output_drop_lives[where m = m] f livein_tp[OF assms]) (simp_all add: a)
qed

lemma finacked_lives:
  assumes "livein m c" "fin \<and> m = TCPS_LAST_ACK \<Longrightarrow> E"
  shows "flow_all G living (lives E) (in_finacked fin c v)"
proof -
  have a: "alive (cn c)" "t_state (ctp c) = m" using assms(1) by (simp_all add: livein_def)
  have z: "livein m (set_tp (set_timer TCPT_2MSL x (ctp c)) c)" for x by (rule livein_tp[OF assms(1)]) simp
  show ?thesis
    unfolding in_finacked_def Let_def
    by (intro flow_all_if dropafterack_lives[OF z]) (use a assms(2) in simp_all)
qed

lemma ack_drop_lives:
  assumes "livein m c" "snd (ack_drop acked c) = Some (Inr c1)"
  shows "livein m c1"
proof (cases "acked > sb_cc (so_snd (sk (cn c)))")
  case True
  let ?cc = "sb_cc (so_snd (sk (cn c)))"
  have "in_sbdrop (sint ?cc) (set_tp ((ctp c)\<lparr>snd_wnd := snd_wnd (ctp c) - ?cc\<rparr>) c) = Some (Inr c1)"
    using assms(2) True by (simp add: ack_drop_def Let_def)
  then show ?thesis by (rule livein_sbdrop) (rule livein_tp[OF assms(1)]; simp)
next
  case False
  then obtain c2 where "in_sbdrop (sint acked) c = Some (Inr c2)"
    "c1 = set_tp ((ctp c2)\<lparr>snd_wnd := snd_wnd (ctp c2) - acked\<rparr>) c2"
    using assms(2) by (cases "sbdrop (mbufcheck c) (sint acked) (csnd c)") (auto simp: ack_drop_def Let_def in_sbdrop_def)
  then show ?thesis using livein_tp[OF livein_sbdrop[OF _ assms(1)]] by simp
qed

lemma in_partial_lives:
  assumes "livein m c" "in_partial acked c = Some (Inr c1)"
  shows "livein m c1"
proof -
  let ?c = "set_tp ((ctp c)\<lparr>t_rtt := 0, snd_nxt := snd_una (ctp c), snd_cwnd := seg32 (ctp c)\<rparr>) c"
  have k: "livein m ?c" by (rule livein_tp[OF assms(1)]) simp
  obtain c2 where o: "in_output ?c = Some (Inr c2)"
    using assms(2) by (cases "in_output ?c"; cases "the (in_output ?c)") (auto simp: in_partial_def Let_def)
  have "\<exists>t. c1 = set_tp t c2 \<and> t_state t = t_state (ctp c2)"
    using assms(2) o by (auto simp: in_partial_def Let_def)
  then show ?thesis using livein_tp[OF livein_output[OF o k]] by auto
qed

lemma deflate_una [simp]: "snd_una (ack_deflate t) = snd_una t"
  by (simp add: ack_deflate_def)

lemma newack_lives:
  assumes "livein m c" "m = TCPS_LAST_ACK \<and> ti_ack (sg v) - snd_una (ctp c) > sb_cc (so_snd (sk (cn c))) \<Longrightarrow> E"
  shows "flow_all G living (lives E) (in_newack c v)"
proof -
  have acked: "flow_all G living (lives E) (in_acked f p a v1 c1)"
    if "livein m c1" "f \<and> m = TCPS_LAST_ACK \<Longrightarrow> E" for f p a v1 c1
  proof -
    let ?c = "set_tp (fst (ack_recover a (prev_sacked v1) (ack_una (sg v1) (ctp c1)))) c1"
    have c: "livein m ?c" by (rule livein_tp[OF that(1)]) simp
    show ?thesis
      unfolding in_acked_def split_def
      by (rule flow_all_res, rule finacked_lives[where m = m])
        (use c in_partial_lives[OF c] that(2) in \<open>auto split: if_splits\<close>)
  qed
  define p where "p = ack_partial (ctp c) (sg v)"
  define t1 where "t1 = (if p then ctp c else ack_deflate (ctp c))"
  define c2 where "c2 = set_tp (ack_ready p (now c) v t1) c"
  have t1: "snd_una t1 = snd_una (ctp c)" by (simp add: t1_def)
  have k: "livein m (set_tp t1 c)" "livein m c2"
    unfolding c2_def by (rule livein_tp[OF assms(1)]; simp add: t1_def ack_ready_def Let_def)+
  have cc: "sb_cc (so_snd (sk (cn c2))) = sb_cc (so_snd (sk (cn c)))" by (simp add: c2_def set_tp_def)
  have e: "E" if "fst (ack_drop (ti_ack (sg v) - snd_una t1) c2) \<and> m = TCPS_LAST_ACK"
    using that assms(2) cc t1 by (auto simp: ack_drop_def Let_def split: if_splits)
  show ?thesis
    unfolding in_newack_def Let_def split_def p_def[symmetric] t1_def[symmetric] c2_def[symmetric]
    by (intro flow_rules dropafterack_lives[OF k(1)] acked) (use e in \<open>auto intro: ack_drop_lives[OF k(2)]\<close>)
qed

lemma ack_lives:
  assumes "trimmed c0 ti c v" "t_state (ctp c0) \<le> 10" "4 \<le> t_state (ctp c0)"
  shows "flow_all G living (lives (may_end ti c0)) (in_ack e c v)"
proof -
  have s: "steady c0 c" "ti_ack (sg v) = ti_ack ti" using assms(1) by (simp_all add: of_seg_def)
  have l: "livein (t_state (ctp c0)) c" using s(1) assms(2) steady_livein by blast
  have n: "flow_all G living (lives (may_end ti c0)) (in_newack c v)"
    by (rule newack_lives[OF l]) (use s in \<open>auto simp: may_end_def steady_def\<close>)
  show ?thesis using dupack_lives[OF l] n l by (simp add: in_ack_def livein_def)
qed

lemma synced_lives:
  assumes "arrived c0 ti c v" "t_state (ctp c0) \<le> 10" "4 \<le> t_state (ctp c0)"
  shows "flow_all G living (lives (may_end ti c0)) (in_synced e c v)"
proof -
  note ch = trimmed_checks[OF _ assms(2,3)]
  show ?thesis
    unfolding in_synced_def
    by (rule flow_all_bind, rule paws_arrived[OF assms(1,2)], rule flow_all_bind, erule left_trimmed[OF _ assms(2)],
        rule flow_all_bind, erule ch(1), rule flow_all_bind, erule ch(2), rule flow_all_bind, erule ch(3),
        rule flow_all_bind, erule ch(4), rule flow_all_bind, erule ch(5), rule flow_all_bind, erule ch(6),
        rule flow_all_bind, erule ch(7), erule ack_lives[OF _ assms(2,3)])
qed

lemma found_lives:
  assumes "arrived c0 ti c v" "t_state (ctp c0) \<le> 10" "4 \<le> t_state (ctp c0)"
  shows "flow_all living living (lives (may_end ti c0)) (in_found e start om c v)"
proof -
  have w: "flow_all (arrived c0 ti) S Q (in_window c1 v1)" if "arrived c0 ti c1 v1" for c1 v1 S Q
    using that by (auto simp: in_window_def Let_def intro: steady_tp)
  have s: "flow_all living living (lives (may_end ti c0)) (in_switch e start om c1 v1)" if "arrived c0 ti c1 v1" for c1 v1
  proof -
    have "in_switch e start om c1 v1 = in_synced e c1 v1"
      using that assms(3) by (auto simp: in_switch_def steady_def tcps_defs)
    then show ?thesis using synced_lives[OF that assms(2,3)] by simp
  qed
  show ?thesis
    unfolding in_found_def
    by (rule flow_all_bind, rule start_arrived[OF assms(1,3)], rule flow_all_bind, erule predict_arrived[OF _ assms(2)],
        rule flow_all_bind, erule w, erule s)
qed


lemma step6_alive:
  assumes "moves n c" "alive (cn c)" "in_step6 c v = Some (Inr c')"
  shows "alive (cn c')"
proof -
  obtain c1 v1 where 1: "in_winup c v = (c1, v1)" by (cases "in_winup c v")
  obtain c2 v2 where 2: "in_urg c1 v1 = (c2, v2)" by (cases "in_urg c1 v1")
  obtain c3 v3 where 3: "in_text c2 v2 = (c3, v3)" by (cases "in_text c2 v2")
  have w: "alive (cn c1) = alive (cn c)" "t_state (ctp c1) = t_state (ctp c)"
    using 1 by (auto simp: in_winup_def Let_def split: if_splits)
  have u: "alive (cn c2) = alive (cn c1)" "t_state (ctp c2) = t_state (ctp c1)" using 2
    by (auto simp: in_urg_def urg_mark_def tcp_pulloutofband_def Let_def split: if_splits option.splits)
  have x: "alive (cn c3) = alive (cn c2)" "t_state (ctp c3) = t_state (ctp c2)" using 3 reass_state[of "sg v2" c2]
    by (auto simp: in_text_def split: if_splits prod.splits)
  have f: "alive (cn (in_fin c3 v3)) = alive (cn c3)" by (simp add: in_fin_def Let_def)
  have "moves n c3" by (rule moves_same[OF assms(1)]) (simp_all add: w u x)
  then have "t_state (ctp (in_fin c3 v3)) \<le> 10" using fin_moves[of n c3 v3] unfolding moves_def by blast
  then show ?thesis
    using assms(2,3) 1 2 3 w u x f in_output_alive(1) by (auto simp: in_step6_def Let_def split: if_splits)
qed



text \<open>An exact reset.\<close>

definition ex_rst :: tseg where
  "ex_rst = (ex_tseg 18 0)\<lparr>ti_flags := TH_RST\<rparr>"

lemma ex_rst_start: "in_start None (ex_conn ex_peer) (invar0 ex_rst) =
  Go (set_tp (set_timer TCPT_KEEP 14400 ex_peer) (ex_conn ex_peer)) (invar0 ex_rst)"
  by (simp add: in_start_def in_options_def ex_conn_def ex_peer_def ex_defs ex_rst_def ex_tseg_def invar0_def
      ctp_def set_tp_def tcps_defs set_timer_def)

lemma ex_rst_found: "in_found e 0 None (ex_conn ex_peer) (invar0 ex_rst) =
  rst_close ECONNRESET (set_tp ((set_timer TCPT_KEEP 14400 ex_peer)\<lparr>rcv_wnd := 16384\<rparr>) (ex_conn ex_peer))"
proof -
  define c where "c = set_tp (set_timer TCPT_KEEP 14400 ex_peer) (ex_conn ex_peer)"
  define c1 where "c1 = set_tp ((set_timer TCPT_KEEP 14400 ex_peer)\<lparr>rcv_wnd := 16384\<rparr>) (ex_conn ex_peer)"
  define v where "v = invar0 ex_rst"
  have f: "hasf TH_RST (tif v)" "\<not> hasf TH_SYN (tif v)" "\<not> hasf TH_FIN (tif v)" "tif v AND (TH_SYN OR TH_FIN OR TH_RST OR TH_URG OR TH_ACK) \<noteq> TH_ACK"
    by (simp_all add: v_def invar0_def ex_rst_def hasf_def TH_SYN_def TH_FIN_def TH_RST_def TH_URG_def TH_ACK_def)
  have s: "ti_seq (sg v) = 18" "ti_len (sg v) = 0" "\<not> ts_present (io v)" "v\<lparr>rst_seq := 18\<rparr> = v\<lparr>rst_seq := ti_seq (sg v)\<rparr>"
    by (simp_all add: v_def invar0_def ex_rst_def ex_tseg_def)
  have t: "t_state (ctp c1) = 4" "rcv_nxt (ctp c1) = 18" "rcv_wnd (ctp c1) = 16384" "ss_nofdref c1 = False"
    by (simp_all add: c1_def ex_peer_def ex_defs set_timer_def ex_conn_def) (simp add: set_tp_def)
  have p: "in_predict c v = Go c v" using f(4) by (simp add: in_predict_def in_predicted_def Let_def)
  have w: "in_window c v = Go c1 v"
    by (simp add: in_window_def Let_def c_def c1_def ex_conn_def ex_peer_def ex_defs set_timer_def ctp_def set_tp_def sbspace_def w32_def)
  have "in_synced e c1 (v\<lparr>rst_seq := x\<rparr>) = rst_close ECONNRESET c1" for x
    using f s(1-3) t
    by (simp add: in_synced_def in_paws_def in_left_def in_gone_def in_right_def in_tsrecent_def in_rst_def ts_update_def
        seg_fin_def Let_def tcps_defs rst_close_def in_drop_def) (simp add: set_tp_def ctp_def)
  from this[of "rst_seq v"] have y: "in_synced e c1 v = rst_close ECONNRESET c1" by simp
  show ?thesis
    using ex_rst_start t(1) p w y by (simp add: in_found_def in_switch_def c_def[symmetric] v_def[symmetric] c1_def tcps_defs)
qed



end
