(* ===== verification/Bpf_Filter.thy ===== *)
theory Bpf_Filter
  imports Amitcp_Prelude
begin

unbundle bit_operations_syntax

text \<open>
  The packet filter of \<open>net/bpf_filter.c\<close>: the virtual machine \<open>bpf_filter\<close>, its byte-wise
  field extraction from a flat buffer or an mbuf chain, and the validator \<open>bpf_validate\<close>.
  What C leaves undefined (a jump out of the program, a scratch index outside \<open>mem\<close>, a read
  outside the packet, a division by zero, an over-long shift) is a fault of the model. The
  contents of the uninitialised locals \<open>mem\<close> and \<open>merr\<close> are parameters.
\<close>

section \<open>Instructions\<close>

record bpf_insn =
  code :: u16
  jt :: u8
  jf :: u8
  insn_k :: u32

abbreviation BPF_LD :: u16 where "BPF_LD \<equiv> 0x00"
abbreviation BPF_LDX :: u16 where "BPF_LDX \<equiv> 0x01"
abbreviation BPF_ST :: u16 where "BPF_ST \<equiv> 0x02"
abbreviation BPF_STX :: u16 where "BPF_STX \<equiv> 0x03"
abbreviation BPF_ALU :: u16 where "BPF_ALU \<equiv> 0x04"
abbreviation BPF_JMP :: u16 where "BPF_JMP \<equiv> 0x05"
abbreviation BPF_RET :: u16 where "BPF_RET \<equiv> 0x06"
abbreviation BPF_MISC :: u16 where "BPF_MISC \<equiv> 0x07"
abbreviation BPF_W :: u16 where "BPF_W \<equiv> 0x00"
abbreviation BPF_H :: u16 where "BPF_H \<equiv> 0x08"
abbreviation BPF_B :: u16 where "BPF_B \<equiv> 0x10"
abbreviation BPF_IMM :: u16 where "BPF_IMM \<equiv> 0x00"
abbreviation BPF_ABS :: u16 where "BPF_ABS \<equiv> 0x20"
abbreviation BPF_IND :: u16 where "BPF_IND \<equiv> 0x40"
abbreviation BPF_MEM :: u16 where "BPF_MEM \<equiv> 0x60"
abbreviation BPF_LEN :: u16 where "BPF_LEN \<equiv> 0x80"
abbreviation BPF_MSH :: u16 where "BPF_MSH \<equiv> 0xa0"
abbreviation BPF_ADD :: u16 where "BPF_ADD \<equiv> 0x00"
abbreviation BPF_SUB :: u16 where "BPF_SUB \<equiv> 0x10"
abbreviation BPF_MUL :: u16 where "BPF_MUL \<equiv> 0x20"
abbreviation BPF_DIV :: u16 where "BPF_DIV \<equiv> 0x30"
abbreviation BPF_OR :: u16 where "BPF_OR \<equiv> 0x40"
abbreviation BPF_AND :: u16 where "BPF_AND \<equiv> 0x50"
abbreviation BPF_LSH :: u16 where "BPF_LSH \<equiv> 0x60"
abbreviation BPF_RSH :: u16 where "BPF_RSH \<equiv> 0x70"
abbreviation BPF_NEG :: u16 where "BPF_NEG \<equiv> 0x80"
abbreviation BPF_JA :: u16 where "BPF_JA \<equiv> 0x00"
abbreviation BPF_JEQ :: u16 where "BPF_JEQ \<equiv> 0x10"
abbreviation BPF_JGT :: u16 where "BPF_JGT \<equiv> 0x20"
abbreviation BPF_JGE :: u16 where "BPF_JGE \<equiv> 0x30"
abbreviation BPF_JSET :: u16 where "BPF_JSET \<equiv> 0x40"
abbreviation BPF_K :: u16 where "BPF_K \<equiv> 0x00"
abbreviation BPF_X :: u16 where "BPF_X \<equiv> 0x08"
abbreviation BPF_A :: u16 where "BPF_A \<equiv> 0x10"
abbreviation BPF_TAX :: u16 where "BPF_TAX \<equiv> 0x00"
abbreviation BPF_TXA :: u16 where "BPF_TXA \<equiv> 0x80"

definition BPF_CLASS :: "u16 \<Rightarrow> u16" where "BPF_CLASS c = c AND 0x07"
definition BPF_MODE :: "u16 \<Rightarrow> u16" where "BPF_MODE c = c AND 0xe0"
definition BPF_OP :: "u16 \<Rightarrow> u16" where "BPF_OP c = c AND 0xf0"

definition BPF_MAXINSNS :: nat where "BPF_MAXINSNS = 512"
definition BPF_MEMWORDS :: nat where "BPF_MEMWORDS = 16"

text \<open>The case labels of the interpreter's \<open>switch\<close>; \<open>Bad\<close> is its \<open>default\<close>.\<close>

datatype bpf_src = SrcK | SrcX
datatype bpf_alu = Add | Sub | Mul | Div | And | Or | Lsh | Rsh
datatype bpf_cmp = Jgt | Jge | Jeq | Jset
datatype bpf_op =
    Ret_K | Ret_A | Ld_W_Abs | Ld_H_Abs | Ld_B_Abs | Ld_W_Len | Ldx_W_Len
  | Ld_W_Ind | Ld_H_Ind | Ld_B_Ind | Ldx_Msh_B | Ld_Imm | Ldx_Imm | Ld_Mem | Ldx_Mem
  | St | Stx | Ja | Jmp bpf_cmp bpf_src | Alu bpf_alu bpf_src | Neg | Tax | Txa | Bad

definition bpf_decode :: "u16 \<Rightarrow> bpf_op" where
  "bpf_decode c =
    (if c = BPF_RET OR BPF_K then Ret_K
     else if c = BPF_RET OR BPF_A then Ret_A
     else if c = BPF_LD OR BPF_W OR BPF_ABS then Ld_W_Abs
     else if c = BPF_LD OR BPF_H OR BPF_ABS then Ld_H_Abs
     else if c = BPF_LD OR BPF_B OR BPF_ABS then Ld_B_Abs
     else if c = BPF_LD OR BPF_W OR BPF_LEN then Ld_W_Len
     else if c = BPF_LDX OR BPF_W OR BPF_LEN then Ldx_W_Len
     else if c = BPF_LD OR BPF_W OR BPF_IND then Ld_W_Ind
     else if c = BPF_LD OR BPF_H OR BPF_IND then Ld_H_Ind
     else if c = BPF_LD OR BPF_B OR BPF_IND then Ld_B_Ind
     else if c = BPF_LDX OR BPF_MSH OR BPF_B then Ldx_Msh_B
     else if c = BPF_LD OR BPF_IMM then Ld_Imm
     else if c = BPF_LDX OR BPF_IMM then Ldx_Imm
     else if c = BPF_LD OR BPF_MEM then Ld_Mem
     else if c = BPF_LDX OR BPF_MEM then Ldx_Mem
     else if c = BPF_ST then St
     else if c = BPF_STX then Stx
     else if c = BPF_JMP OR BPF_JA then Ja
     else if c = BPF_JMP OR BPF_JGT OR BPF_K then Jmp Jgt SrcK
     else if c = BPF_JMP OR BPF_JGE OR BPF_K then Jmp Jge SrcK
     else if c = BPF_JMP OR BPF_JEQ OR BPF_K then Jmp Jeq SrcK
     else if c = BPF_JMP OR BPF_JSET OR BPF_K then Jmp Jset SrcK
     else if c = BPF_JMP OR BPF_JGT OR BPF_X then Jmp Jgt SrcX
     else if c = BPF_JMP OR BPF_JGE OR BPF_X then Jmp Jge SrcX
     else if c = BPF_JMP OR BPF_JEQ OR BPF_X then Jmp Jeq SrcX
     else if c = BPF_JMP OR BPF_JSET OR BPF_X then Jmp Jset SrcX
     else if c = BPF_ALU OR BPF_ADD OR BPF_X then Alu Add SrcX
     else if c = BPF_ALU OR BPF_SUB OR BPF_X then Alu Sub SrcX
     else if c = BPF_ALU OR BPF_MUL OR BPF_X then Alu Mul SrcX
     else if c = BPF_ALU OR BPF_DIV OR BPF_X then Alu Div SrcX
     else if c = BPF_ALU OR BPF_AND OR BPF_X then Alu And SrcX
     else if c = BPF_ALU OR BPF_OR OR BPF_X then Alu Or SrcX
     else if c = BPF_ALU OR BPF_LSH OR BPF_X then Alu Lsh SrcX
     else if c = BPF_ALU OR BPF_RSH OR BPF_X then Alu Rsh SrcX
     else if c = BPF_ALU OR BPF_ADD OR BPF_K then Alu Add SrcK
     else if c = BPF_ALU OR BPF_SUB OR BPF_K then Alu Sub SrcK
     else if c = BPF_ALU OR BPF_MUL OR BPF_K then Alu Mul SrcK
     else if c = BPF_ALU OR BPF_DIV OR BPF_K then Alu Div SrcK
     else if c = BPF_ALU OR BPF_AND OR BPF_K then Alu And SrcK
     else if c = BPF_ALU OR BPF_OR OR BPF_K then Alu Or SrcK
     else if c = BPF_ALU OR BPF_LSH OR BPF_K then Alu Lsh SrcK
     else if c = BPF_ALU OR BPF_RSH OR BPF_K then Alu Rsh SrcK
     else if c = BPF_ALU OR BPF_NEG then Neg
     else if c = BPF_MISC OR BPF_TAX then Tax
     else if c = BPF_MISC OR BPF_TXA then Txa
     else Bad)"

section \<open>Packet access\<close>

text \<open>Reading the bytes of a buffer; \<open>None\<close> is a read outside it.\<close>

definition rd :: "u8 list \<Rightarrow> nat \<Rightarrow> u8 option" where
  "rd p i = (if i < length p then Some (p ! i) else None)"

definition EXTRACT_SHORT :: "u8 list \<Rightarrow> nat \<Rightarrow> u32 option" where
  "EXTRACT_SHORT p i = (case (rd p i, rd p (i + 1)) of
     (Some a, Some b) \<Rightarrow> Some (be16 a b) | _ \<Rightarrow> None)"

definition EXTRACT_LONG :: "u8 list \<Rightarrow> nat \<Rightarrow> u32 option" where
  "EXTRACT_LONG p i = (case (rd p i, rd p (i + 1), rd p (i + 2), rd p (i + 3)) of
     (Some a, Some b, Some c, Some d) \<Rightarrow> Some (be32 a b c d) | _ \<Rightarrow> None)"

text \<open>
  \<open>MINDEX\<close>: the part of the chain from the mbuf that holds byte \<open>k\<close>, and \<open>k\<close> rebased onto it;
  \<open>None\<close> is the \<open>return 0\<close> at the end of the chain. The caller tests the sign of \<open>k\<close>.
\<close>

fun MINDEX :: "u8 list list \<Rightarrow> nat \<Rightarrow> (u8 list \<times> u8 list list \<times> nat) option" where
  "MINDEX [] k = None"
| "MINDEX (m # ms) k = (if k \<ge> length m then MINDEX ms (k - length m) else Some (m, ms, k))"

text \<open>
  \<open>m_xword\<close> and \<open>m_xhalf\<close> return the value and the new content of \<open>*err\<close>; the outer option is a
  read outside the mbufs. \<open>MINDEX\<close>'s early return leaves \<open>*err\<close> as it was.
\<close>

definition m_xword :: "u8 list list \<Rightarrow> u32 \<Rightarrow> u32 \<Rightarrow> (u32 \<times> u32) option" where
  "m_xword m k err =
     (if sint k < 0 then Some (0, 1)
      else case MINDEX m (unat k) of
        None \<Rightarrow> Some (0, err)
      | Some (b, rest, j) \<Rightarrow>
          if length b - j \<ge> 4 then map_option (\<lambda>v. (v, 0)) (EXTRACT_LONG b j)
          else (case rest of
              [] \<Rightarrow> Some (0, 1)
            | np # _ \<Rightarrow>
                if length np + length b - j < 4 then Some (0, 1)
                else map_option (\<lambda>v. (v, 0))
                  (if length b - j = 1 then
                     (case (rd b j, rd np 0, rd np 1, rd np 2) of
                        (Some w, Some x, Some y, Some z) \<Rightarrow> Some (be32 w x y z) | _ \<Rightarrow> None)
                   else if length b - j = 2 then
                     (case (rd b j, rd b (j + 1), rd np 0, rd np 1) of
                        (Some w, Some x, Some y, Some z) \<Rightarrow> Some (be32 w x y z) | _ \<Rightarrow> None)
                   else
                     (case (rd b j, rd b (j + 1), rd b (j + 2), rd np 0) of
                        (Some w, Some x, Some y, Some z) \<Rightarrow> Some (be32 w x y z) | _ \<Rightarrow> None))))"

definition m_xhalf :: "u8 list list \<Rightarrow> u32 \<Rightarrow> u32 \<Rightarrow> (u32 \<times> u32) option" where
  "m_xhalf m k err =
     (if sint k < 0 then Some (0, 1)
      else case MINDEX m (unat k) of
        None \<Rightarrow> Some (0, err)
      | Some (b, rest, j) \<Rightarrow>
          if length b - j \<ge> 2 then map_option (\<lambda>v. (v, 0)) (EXTRACT_SHORT b j)
          else (case rest of
              [] \<Rightarrow> Some (0, 1)
            | np # _ \<Rightarrow>
                if length np < 1 then Some (0, 1)
                else (case (rd b j, rd np 0) of
                  (Some x, Some y) \<Rightarrow> Some (be16 x y, 0) | _ \<Rightarrow> None)))"

section \<open>The interpreter\<close>

text \<open>
  The packet argument: with \<open>buflen = 0\<close> the pointer is an mbuf chain (the first mbuf and the
  rest), otherwise a buffer of \<open>buflen\<close> bytes.
\<close>

datatype packet = Flat "u8 list" | Chain "u8 list" "u8 list list"

fun pkt_p :: "packet \<Rightarrow> u8 list" where
  "pkt_p (Flat p) = p"
| "pkt_p (Chain m ms) = m"

datatype bpf_fault = Bad_Pc | Bad_Mem | Bad_Read | Bad_Div | Bad_Shift

record bpf_regs =
  reg_A :: u32
  reg_X :: u32
  mem :: "u32 list"
  merr :: u32

datatype bpf_next = Goto int bpf_regs | Return u32 | Fault bpf_fault

text \<open>The word and half loads into A, shared by the absolute and the indexed form.\<close>

definition ld_word :: "packet \<Rightarrow> u32 \<Rightarrow> int \<Rightarrow> bpf_regs \<Rightarrow> bpf_next" where
  "ld_word pkt k pc r =
     (if sint k < 0 \<or> unat k + 4 > length (pkt_p pkt) then
        (case pkt of
           Flat _ \<Rightarrow> Return 0
         | Chain m ms \<Rightarrow> (case m_xword (m # ms) k (merr r) of
             None \<Rightarrow> Fault Bad_Read
           | Some (v, e) \<Rightarrow>
               if e \<noteq> 0 then Return 0 else Goto pc (r\<lparr>reg_A := v, merr := e\<rparr>)))
      else (case EXTRACT_LONG (pkt_p pkt) (unat k) of
          None \<Rightarrow> Fault Bad_Read
        | Some v \<Rightarrow> Goto pc (r\<lparr>reg_A := v\<rparr>)))"

definition ld_half :: "packet \<Rightarrow> u32 \<Rightarrow> int \<Rightarrow> bpf_regs \<Rightarrow> bpf_next" where
  "ld_half pkt k pc r =
     (if sint k < 0 \<or> unat k + 2 > length (pkt_p pkt) then
        (case pkt of
           Flat _ \<Rightarrow> Return 0
         | Chain m ms \<Rightarrow> (case m_xhalf (m # ms) k (merr r) of
             None \<Rightarrow> Fault Bad_Read
           | Some (v, e) \<Rightarrow>
               if e \<noteq> 0 then Return 0 else Goto pc (r\<lparr>reg_A := v, merr := e\<rparr>)))
      else (case EXTRACT_SHORT (pkt_p pkt) (unat k) of
          None \<Rightarrow> Fault Bad_Read
        | Some v \<Rightarrow> Goto pc (r\<lparr>reg_A := v\<rparr>)))"

text \<open>The byte at \<open>k\<close> of the packet; \<open>Inl (Return 0)\<close> is \<open>return 0\<close>.\<close>

definition ld_byte :: "packet \<Rightarrow> u32 \<Rightarrow> bpf_next + u8" where
  "ld_byte pkt k =
     (if unat k \<ge> length (pkt_p pkt) then
        (case pkt of
           Flat _ \<Rightarrow> Inl (Return 0)
         | Chain m ms \<Rightarrow>
             if sint k < 0 then Inl (Return 0)
             else (case MINDEX (m # ms) (unat k) of
                 None \<Rightarrow> Inl (Return 0)
               | Some (b, _, j) \<Rightarrow> (case rd b j of None \<Rightarrow> Inl (Fault Bad_Read) | Some v \<Rightarrow> Inr v)))
      else (case rd (pkt_p pkt) (unat k) of None \<Rightarrow> Inl (Fault Bad_Read) | Some v \<Rightarrow> Inr v))"

fun cmp_holds :: "bpf_cmp \<Rightarrow> u32 \<Rightarrow> u32 \<Rightarrow> bool" where
  "cmp_holds Jgt a b = (a > b)"
| "cmp_holds Jge a b = (a \<ge> b)"
| "cmp_holds Jeq a b = (a = b)"
| "cmp_holds Jset a b = (a AND b \<noteq> 0)"

fun alu_val :: "bpf_alu \<Rightarrow> u32 \<Rightarrow> u32 \<Rightarrow> u32" where
  "alu_val Add a b = a + b"
| "alu_val Sub a b = a - b"
| "alu_val Mul a b = a * b"
| "alu_val Div a b = a div b"
| "alu_val And a b = a AND b"
| "alu_val Or a b = a OR b"
| "alu_val Lsh a b = push_bit (unat b) a"
| "alu_val Rsh a b = drop_bit (unat b) a"

text \<open>One instruction. \<open>pc\<close> is its index; \<open>continue\<close> goes to the index after the (moved) \<open>pc\<close>.\<close>

definition bpf_insn_step :: "packet \<Rightarrow> u32 \<Rightarrow> bpf_insn \<Rightarrow> int \<Rightarrow> bpf_regs \<Rightarrow> bpf_next" where
  "bpf_insn_step pkt wirelen i pc r =
     (let k = insn_k i; A = reg_A r; X = reg_X r; nxt = pc + 1 in
      case bpf_decode (code i) of
        Bad \<Rightarrow> Return 0
      | Ret_K \<Rightarrow> Return k
      | Ret_A \<Rightarrow> Return A
      | Ld_W_Abs \<Rightarrow> ld_word pkt k nxt r
      | Ld_H_Abs \<Rightarrow> ld_half pkt k nxt r
      | Ld_B_Abs \<Rightarrow> (case ld_byte pkt k of Inl x \<Rightarrow> x | Inr v \<Rightarrow> Goto nxt (r\<lparr>reg_A := ucast v\<rparr>))
      | Ld_W_Len \<Rightarrow> Goto nxt (r\<lparr>reg_A := wirelen\<rparr>)
      | Ldx_W_Len \<Rightarrow> Goto nxt (r\<lparr>reg_X := wirelen\<rparr>)
      | Ld_W_Ind \<Rightarrow> ld_word pkt (X + k) nxt r
      | Ld_H_Ind \<Rightarrow> ld_half pkt (X + k) nxt r
      | Ld_B_Ind \<Rightarrow> (case ld_byte pkt (X + k) of Inl x \<Rightarrow> x | Inr v \<Rightarrow> Goto nxt (r\<lparr>reg_A := ucast v\<rparr>))
      | Ldx_Msh_B \<Rightarrow> (case ld_byte pkt k of Inl x \<Rightarrow> x
                       | Inr v \<Rightarrow> Goto nxt (r\<lparr>reg_X := push_bit 2 (ucast v AND 0xf)\<rparr>))
      | Ld_Imm \<Rightarrow> Goto nxt (r\<lparr>reg_A := k\<rparr>)
      | Ldx_Imm \<Rightarrow> Goto nxt (r\<lparr>reg_X := k\<rparr>)
      | Ld_Mem \<Rightarrow> if unat k < length (mem r) then Goto nxt (r\<lparr>reg_A := mem r ! unat k\<rparr>) else Fault Bad_Mem
      | Ldx_Mem \<Rightarrow> if unat k < length (mem r) then Goto nxt (r\<lparr>reg_X := mem r ! unat k\<rparr>) else Fault Bad_Mem
      | St \<Rightarrow> if unat k < length (mem r) then Goto nxt (r\<lparr>mem := (mem r)[unat k := A]\<rparr>) else Fault Bad_Mem
      | Stx \<Rightarrow> if unat k < length (mem r) then Goto nxt (r\<lparr>mem := (mem r)[unat k := X]\<rparr>) else Fault Bad_Mem
      | Ja \<Rightarrow> Goto (nxt + sint k) r
      | Jmp c s \<Rightarrow>
          Goto (nxt + int (unat (if cmp_holds c A (case s of SrcK \<Rightarrow> k | SrcX \<Rightarrow> X) then jt i else jf i))) r
      | Alu f SrcX \<Rightarrow>
          if f = Div \<and> X = 0 \<or> f \<in> {Lsh, Rsh} \<and> unat X \<ge> 32 then Return 0
          else Goto nxt (r\<lparr>reg_A := alu_val f A X\<rparr>)
      | Alu f SrcK \<Rightarrow>
          if f = Div \<and> k = 0 then Fault Bad_Div
          else if f \<in> {Lsh, Rsh} \<and> unat k \<ge> 32 then Fault Bad_Shift
          else Goto nxt (r\<lparr>reg_A := alu_val f A k\<rparr>)
      | Neg \<Rightarrow> Goto nxt (r\<lparr>reg_A := - A\<rparr>)
      | Tax \<Rightarrow> Goto nxt (r\<lparr>reg_X := A\<rparr>)
      | Txa \<Rightarrow> Goto nxt (r\<lparr>reg_A := X\<rparr>))"

text \<open>The loop, with fuel: \<open>None\<close> is running out of it.\<close>

fun bpf_loop :: "nat \<Rightarrow> bpf_insn list \<Rightarrow> packet \<Rightarrow> u32 \<Rightarrow> int \<Rightarrow> bpf_regs \<Rightarrow> (bpf_fault + u32) option" where
  "bpf_loop 0 prog pkt wirelen pc r = None"
| "bpf_loop (Suc n) prog pkt wirelen pc r =
     (if 0 \<le> pc \<and> pc < int (length prog) then
        (case bpf_insn_step pkt wirelen (prog ! nat pc) pc r of
           Goto pc' r' \<Rightarrow> bpf_loop n prog pkt wirelen pc' r'
         | Return v \<Rightarrow> Some (Inr v)
         | Fault f \<Rightarrow> Some (Inl f))
      else Some (Inl Bad_Pc))"

definition bpf_filter ::
  "nat \<Rightarrow> bpf_insn list option \<Rightarrow> packet \<Rightarrow> u32 \<Rightarrow> u32 list \<Rightarrow> u32 \<Rightarrow> (bpf_fault + u32) option" where
  "bpf_filter fuel pc pkt wirelen mem0 merr0 =
     (case pc of
        None \<Rightarrow> Some (Inr (- 1))
      | Some prog \<Rightarrow>
          bpf_loop fuel prog pkt wirelen 0 \<lparr>reg_A = 0, reg_X = 0, mem = mem0, merr = merr0\<rparr>)"

section \<open>The validator\<close>

definition insn_ok :: "nat \<Rightarrow> nat \<Rightarrow> bpf_insn \<Rightarrow> bool" where
  "insn_ok len i p =
     ((BPF_CLASS (code p) = BPF_JMP \<longrightarrow>
         (if BPF_OP (code p) = BPF_JA
          then \<not> (sint (insn_k p) < 0 \<or> sint (insn_k p) \<ge> int len - int (i + 1))
          else \<not> (i + 1 + unat (jt p) \<ge> len \<or> i + 1 + unat (jf p) \<ge> len))) \<and>
      \<not> ((BPF_CLASS (code p) = BPF_ST \<or> BPF_CLASS (code p) = BPF_STX \<or>
          ((BPF_CLASS (code p) = BPF_LD \<or> BPF_CLASS (code p) = BPF_LDX) \<and>
           BPF_MODE (code p) = BPF_MEM)) \<and>
         (sint (insn_k p) \<ge> int BPF_MEMWORDS \<or> sint (insn_k p) < 0)) \<and>
      \<not> (code p = BPF_ALU OR BPF_DIV OR BPF_K \<and> insn_k p = 0) \<and>
      \<not> ((code p = BPF_ALU OR BPF_LSH OR BPF_K \<or> code p = BPF_ALU OR BPF_RSH OR BPF_K) \<and>
         (sint (insn_k p) < 0 \<or> sint (insn_k p) \<ge> 32)))"

definition bpf_validate :: "bpf_insn list option \<Rightarrow> bool" where
  "bpf_validate f =
     (case f of
        None \<Rightarrow> False
      | Some prog \<Rightarrow>
          1 \<le> length prog \<and> length prog \<le> BPF_MAXINSNS \<and>
          list_all (\<lambda>i. insn_ok (length prog) i (prog ! i)) [0 ..< length prog] \<and>
          BPF_CLASS (code (last prog)) = BPF_RET)"

end
