(* ===== verification/Bpf_Safety.thy ===== *)
theory Bpf_Safety
  imports Bpf_Filter
begin

text \<open>
  Correctness of the packet filter: what a chain load delivers, that validated programs run to
  completion without a fault, and where the mbuf form departs from the flat form.
\<close>

unbundle bit_operations_syntax

section \<open>Field extraction\<close>

lemma rd_Some [simp]: "i < length p \<Longrightarrow> rd p i = Some (p ! i)"
  by (simp add: rd_def)

lemma EXTRACT_SHORT_in: "i + 2 \<le> length p \<Longrightarrow> EXTRACT_SHORT p i = Some (be16 (p ! i) (p ! (i + 1)))"
  by (simp add: EXTRACT_SHORT_def)

lemma EXTRACT_LONG_in:
  "i + 4 \<le> length p \<Longrightarrow>
   EXTRACT_LONG p i = Some (be32 (p ! i) (p ! (i + 1)) (p ! (i + 2)) (p ! (i + 3)))"
  by (simp add: EXTRACT_LONG_def)

lemma MINDEX_spec:
  "MINDEX ms k = Some (b, rest, j) \<Longrightarrow>
   \<exists>pre. ms = pre @ b # rest \<and> k = length (concat pre) + j \<and> j < length b"
proof (induction ms k rule: MINDEX.induct)
  case (1 k)
  then show ?case by simp
next
  case (2 m ms k)
  show ?case
  proof (cases "k \<ge> length m")
    case True
    then obtain pre where "ms = pre @ b # rest" "k - length m = length (concat pre) + j" "j < length b"
      using 2 by auto
    then show ?thesis using True by (intro exI[of _ "m # pre"]) auto
  next
    case False
    then show ?thesis using 2(2) by (intro exI[of _ "[]"]) auto
  qed
qed

lemma MINDEX_None: "MINDEX ms k = None \<longleftrightarrow> length (concat ms) \<le> k"
  by (induction ms k rule: MINDEX.induct) auto

text \<open>
  What a chain load yields: the field of the concatenated packet with \<open>*err\<close> cleared, or 0
  with \<open>*err\<close> set, or, behind the end of the chain, 0 with \<open>*err\<close> as it was.
\<close>

definition xload_ok :: "nat \<Rightarrow> (u8 list \<Rightarrow> nat \<Rightarrow> u32 option) \<Rightarrow> u8 list list \<Rightarrow> u32 \<Rightarrow> u32 \<Rightarrow> (u32 \<times> u32) option \<Rightarrow> bool" where
  "xload_ok w extract ms k err res = (case res of None \<Rightarrow> False
     | Some (v, e) \<Rightarrow>
         (0 \<le> sint k \<and> unat k + w \<le> length (concat ms) \<and> e = 0 \<and> extract (concat ms) (unat k) = Some v) \<or>
         (v = 0 \<and> e = 1) \<or>
         (0 \<le> sint k \<and> length (concat ms) \<le> unat k \<and> v = 0 \<and> e = err))"

lemma xload_cases:
  fixes k :: u32 and ms :: "u8 list list"
  obtains (neg) "sint k < 0" | (out) "0 \<le> sint k" "MINDEX ms (unat k) = None" "length (concat ms) \<le> unat k"
    | (inside) pre :: "u8 list list" and b rest j where "0 \<le> sint k" "MINDEX ms (unat k) = Some (b, rest, j)" "j < length b"
      "length (concat ms) = length (concat pre) + length b + length (concat rest)"
      "unat k = length (concat pre) + j"
      "\<And>n. concat ms ! (unat k + n) = (b @ concat rest) ! (j + n)"
proof (cases "sint k < 0")
  case True
  then show thesis by (rule neg)
next
  case False
  show thesis
  proof (cases "MINDEX ms (unat k)")
    case None
    then show thesis using False out by (simp add: MINDEX_None)
  next
    case (Some t)
    obtain b rest j where t: "t = (b, rest, j)" by (metis prod_cases3)
    obtain pre where ms: "ms = pre @ b # rest" and k: "unat k = length (concat pre) + j" and j: "j < length b"
      using MINDEX_spec[of ms "unat k" b rest j] Some t by auto
    have "concat ms ! (unat k + n) = (b @ concat rest) ! (j + n)" for n
      unfolding ms k by (simp add: nth_append add.assoc)
    moreover have "length (concat ms) = length (concat pre) + length b + length (concat rest)"
      unfolding ms by simp
    ultimately show thesis using inside[of b rest j pre] False Some t j k by simp
  qed
qed

lemma m_xword_ok: "xload_ok 4 EXTRACT_LONG ms k err (m_xword ms k err)"
proof (cases rule: xload_cases[where k = k and ms = ms])
  case neg
  then show ?thesis by (simp add: m_xword_def xload_ok_def)
next
  case out
  then show ?thesis by (simp add: m_xword_def xload_ok_def)
next
  case (inside pre b rest j)
  note nth = inside(6) inside(6)[of 0, simplified]
  show ?thesis
  proof (cases "length b - j \<ge> 4")
    case True
    then have long: "j + 3 < length b" by simp
    have len: "unat k + 4 \<le> length (concat ms)" using True inside(3-5) by simp
    have "m_xword ms k err = Some (be32 (b ! j) (b ! (j + 1)) (b ! (j + 2)) (b ! (j + 3)), 0)"
      using inside(1-3) True by (simp add: m_xword_def EXTRACT_LONG_in)
    moreover have "EXTRACT_LONG (concat ms) (unat k) =
        Some (be32 (b ! j) (b ! (j + 1)) (b ! (j + 2)) (b ! (j + 3)))"
      unfolding EXTRACT_LONG_in[OF len] nth using long by (simp add: nth_append)
    ultimately show ?thesis using inside(1) len by (simp add: xload_ok_def)
  next
    case False
    show ?thesis
    proof (cases "\<exists>np rest'. rest = np # rest' \<and> \<not> length np + length b - j < 4")
      case True
      then obtain np rest' where r: "rest = np # rest'" "\<not> length np + length b - j < 4" by auto
      have len: "unat k + 4 \<le> length (concat ms)" using r inside by simp
      have np: "np \<noteq> []" using r False by auto
      consider "length b = j + 1" | "length b = j + 2" | "length b = j + 3"
        using False inside(3) by linarith
      then have "m_xword ms k err = Some (be32 ((b @ concat rest) ! j) ((b @ concat rest) ! (j + 1))
          ((b @ concat rest) ! (j + 2)) ((b @ concat rest) ! (j + 3)), 0)"
        using inside(1-3) r np by cases (simp_all add: m_xword_def nth_append numeral_2_eq_2 numeral_3_eq_3)
      moreover have "EXTRACT_LONG (concat ms) (unat k) = Some (be32 ((b @ concat rest) ! j)
          ((b @ concat rest) ! (j + 1)) ((b @ concat rest) ! (j + 2)) ((b @ concat rest) ! (j + 3)))"
        unfolding EXTRACT_LONG_in[OF len] nth by simp
      ultimately show ?thesis using inside(1) len by (simp add: xload_ok_def)
    next
      case no: False
      then show ?thesis
        using inside(1,2) False by (auto simp: m_xword_def xload_ok_def split: list.splits)
    qed
  qed
qed

lemma m_xhalf_ok: "xload_ok 2 EXTRACT_SHORT ms k err (m_xhalf ms k err)"
proof (cases rule: xload_cases[where k = k and ms = ms])
  case neg
  then show ?thesis by (simp add: m_xhalf_def xload_ok_def)
next
  case out
  then show ?thesis by (simp add: m_xhalf_def xload_ok_def)
next
  case (inside pre b rest j)
  note nth = inside(6) inside(6)[of 0, simplified]
  show ?thesis
  proof (cases "length b - j \<ge> 2")
    case True
    then have long: "j + 1 < length b" by simp
    have len: "unat k + 2 \<le> length (concat ms)" using True inside(3-5) by simp
    have "m_xhalf ms k err = Some (be16 (b ! j) (b ! (j + 1)), 0)"
      using inside(1-3) True by (simp add: m_xhalf_def EXTRACT_SHORT_in)
    moreover have "EXTRACT_SHORT (concat ms) (unat k) = Some (be16 (b ! j) (b ! (j + 1)))"
      unfolding EXTRACT_SHORT_in[OF len] nth using long by (simp add: nth_append)
    ultimately show ?thesis using inside(1) len by (simp add: xload_ok_def)
  next
    case False
    then have b: "length b = Suc j" using inside(3) by simp
    show ?thesis
    proof (cases "\<exists>np rest'. rest = np # rest' \<and> np \<noteq> []")
      case True
      then obtain np rest' where r: "rest = np # rest'" "np \<noteq> []" by auto
      have len: "unat k + 2 \<le> length (concat ms)" using r b inside(4,5) by (cases np) auto
      have "m_xhalf ms k err = Some (be16 (b ! j) (np ! 0), 0)"
        using inside(1-3) b r by (cases np) (simp_all add: m_xhalf_def)
      moreover have "EXTRACT_SHORT (concat ms) (unat k) = Some (be16 (b ! j) (np ! 0))"
        unfolding EXTRACT_SHORT_in[OF len] nth using b r by (simp add: nth_append)
      ultimately show ?thesis using inside(1) len by (simp add: xload_ok_def)
    next
      case no: False
      then show ?thesis
        using inside(1,2) b by (auto simp: m_xhalf_def xload_ok_def split: list.splits)
    qed
  qed
qed


section \<open>The packet as a byte sequence\<close>

fun pkt_bytes :: "packet \<Rightarrow> u8 list" where
  "pkt_bytes (Flat p) = p"
| "pkt_bytes (Chain m ms) = concat (m # ms)"

lemma xload_ok_D:
  assumes "xload_ok w ext ms k err res"
  obtains v e where "res = Some (v, e)"
    "e = 0 \<Longrightarrow> err \<noteq> 0 \<Longrightarrow> 0 \<le> sint k \<and> unat k + w \<le> length (concat ms) \<and> ext (concat ms) (unat k) = Some v"
    "err = 0 \<Longrightarrow> e = 0 \<Longrightarrow> v = 0 \<or> ext (concat ms) (unat k) = Some v"
  using assms by (auto simp: xload_ok_def split: option.splits prod.splits)

lemma nth_concat_first: "i < length m \<Longrightarrow> concat (m # ms) ! i = m ! i"
  by (simp add: nth_append)

text \<open>Loads never read outside the packet, and go on to the next instruction or return.\<close>

lemma ld_word_safe:
  "(\<exists>v. ld_word pkt k pc r = Return v) \<or>
   (\<exists>v e. ld_word pkt k pc r = Goto pc (r\<lparr>reg_A := v, merr := e\<rparr>))"
proof (cases "sint k < 0 \<or> unat k + 4 > length (pkt_p pkt)")
  case True
  show ?thesis
  proof (cases pkt)
    case (Flat p)
    then show ?thesis using True by (simp add: ld_word_def)
  next
    case (Chain m ms)
    obtain v e where "m_xword (m # ms) k (merr r) = Some (v, e)"
      using m_xword_ok[of "m # ms" k "merr r"] by (auto simp: xload_ok_def split: option.splits)
    then show ?thesis using True Chain by (auto simp: ld_word_def)
  qed
next
  case False
  then have "\<exists>v. ld_word pkt k pc r = Goto pc (r\<lparr>reg_A := v, merr := merr r\<rparr>)"
    by (auto simp: ld_word_def EXTRACT_LONG_in not_less)
  then show ?thesis by blast
qed

lemma ld_half_safe:
  "(\<exists>v. ld_half pkt k pc r = Return v) \<or>
   (\<exists>v e. ld_half pkt k pc r = Goto pc (r\<lparr>reg_A := v, merr := e\<rparr>))"
proof (cases "sint k < 0 \<or> unat k + 2 > length (pkt_p pkt)")
  case True
  show ?thesis
  proof (cases pkt)
    case (Flat p)
    then show ?thesis using True by (simp add: ld_half_def)
  next
    case (Chain m ms)
    obtain v e where "m_xhalf (m # ms) k (merr r) = Some (v, e)"
      using m_xhalf_ok[of "m # ms" k "merr r"] by (auto simp: xload_ok_def split: option.splits)
    then show ?thesis using True Chain by (auto simp: ld_half_def)
  qed
next
  case False
  then have "\<exists>v. ld_half pkt k pc r = Goto pc (r\<lparr>reg_A := v, merr := merr r\<rparr>)"
    by (auto simp: ld_half_def EXTRACT_SHORT_in not_less)
  then show ?thesis by blast
qed

lemma ld_byte_spec:
  "ld_byte pkt k =
     (if unat k < length (pkt_bytes pkt) \<and> (unat k < length (pkt_p pkt) \<or> 0 \<le> sint k)
      then Inr (pkt_bytes pkt ! unat k) else Inl (Return 0))"
proof (cases "unat k \<ge> length (pkt_p pkt)")
  case False
  then show ?thesis
    by (cases pkt) (auto simp: ld_byte_def not_le nth_append)
next
  case True
  show ?thesis
  proof (cases pkt)
    case (Flat p)
    then show ?thesis using True by (simp add: ld_byte_def)
  next
    case (Chain m ms)
    show ?thesis
    proof (cases rule: xload_cases[where k = k and ms = "m # ms"])
      case neg
      then show ?thesis using True Chain by (simp add: ld_byte_def)
    next
      case out
      then show ?thesis using True Chain by (simp add: ld_byte_def)
    next
      case (inside pre b rest j)
      have "concat (m # ms) ! unat k = b ! j" using inside(6)[of 0] inside(3) by (simp add: nth_append)
      moreover have "unat k < length (concat (m # ms))" using inside(3-5) by simp
      ultimately show ?thesis using True Chain inside(1-3) by (simp add: ld_byte_def)
    qed
  qed
qed


section \<open>Safety of validated programs\<close>

lemma decode_class:
  "bpf_decode c = Ld_Mem \<Longrightarrow> BPF_CLASS c = BPF_LD \<and> BPF_MODE c = BPF_MEM"
  "bpf_decode c = Ldx_Mem \<Longrightarrow> BPF_CLASS c = BPF_LDX \<and> BPF_MODE c = BPF_MEM"
  "bpf_decode c = St \<Longrightarrow> BPF_CLASS c = BPF_ST"
  "bpf_decode c = Stx \<Longrightarrow> BPF_CLASS c = BPF_STX"
  "bpf_decode c = Ja \<Longrightarrow> BPF_CLASS c = BPF_JMP \<and> BPF_OP c = BPF_JA"
  "bpf_decode c = Jmp cc s \<Longrightarrow> BPF_CLASS c = BPF_JMP \<and> BPF_OP c \<noteq> BPF_JA"
  "bpf_decode c = Alu Div SrcK \<Longrightarrow> c = BPF_ALU OR BPF_DIV OR BPF_K"
  "bpf_decode c = Alu Lsh SrcK \<Longrightarrow> c = BPF_ALU OR BPF_LSH OR BPF_K"
  "bpf_decode c = Alu Rsh SrcK \<Longrightarrow> c = BPF_ALU OR BPF_RSH OR BPF_K"
  by (simp_all add: bpf_decode_def BPF_CLASS_def BPF_MODE_def BPF_OP_def split: if_splits)

lemma decode_ret:
  assumes "BPF_CLASS c = BPF_RET"
  shows "bpf_decode c \<in> {Ret_K, Ret_A, Bad}"
  using assms by (auto simp: bpf_decode_def BPF_CLASS_def)


lemma unat_of_sint_range:
  fixes k :: u32
  assumes "0 \<le> sint k" "sint k < int n"
  shows "unat k < n"
proof -
  have "unat k < 2 ^ 31" using assms(1) sint_neg_iff[of k] by linarith
  then show ?thesis using assms(2) sint_eq_uint_small[of k] by linarith
qed

text \<open>
  A step of a checked instruction never faults; it returns, or continues at the next index or
  at a later one inside the program, with the scratch memory keeping its size.
\<close>

lemma bpf_insn_step_safe:
  assumes ok: "insn_ok len i p" and mem: "length (mem r) = BPF_MEMWORDS"
  shows "case bpf_insn_step pkt wirelen p (int i) r of
      Fault f \<Rightarrow> False
    | Return v \<Rightarrow> True
    | Goto pc r' \<Rightarrow> length (mem r') = BPF_MEMWORDS \<and> BPF_CLASS (code p) \<noteq> BPF_RET \<and>
        (pc = int i + 1 \<or> int i < pc \<and> pc < int len)"
proof -
  have nr: "BPF_CLASS (code p) \<noteq> BPF_RET" if "bpf_decode (code p) \<notin> {Ret_K, Ret_A, Bad}"
    using decode_ret that by blast
  have mi: "unat (insn_k p) < BPF_MEMWORDS"
    if "bpf_decode (code p) \<in> {Ld_Mem, Ldx_Mem, St, Stx}"
    using that ok decode_class(1-4)[of "code p"]
    by (intro unat_of_sint_range) (auto simp: insn_ok_def)
  have ja: "0 \<le> sint (insn_k p) \<and> int i + 1 + sint (insn_k p) < int len" if "bpf_decode (code p) = Ja"
    using that ok decode_class(5)[of "code p"] by (simp add: insn_ok_def)
  have jmp: "i + 1 + unat (jt p) < len \<and> i + 1 + unat (jf p) < len" if "bpf_decode (code p) = Jmp c s" for c s
    using decode_class(6)[OF that] ok by (simp add: insn_ok_def)
  have div: "insn_k p \<noteq> 0" if "bpf_decode (code p) = Alu Div SrcK"
    using decode_class(7)[OF that] ok by (simp add: insn_ok_def)
  have sh: "unat (insn_k p) < 32" if "bpf_decode (code p) = Alu f SrcK" "f \<in> {Lsh, Rsh}" for f
    using that ok decode_class(8,9)[of "code p"]
    by (intro unat_of_sint_range) (auto simp: insn_ok_def)
  note ldw = ld_word_safe[of pkt _ "int i + 1" r] and ldh = ld_half_safe[of pkt _ "int i + 1" r]
  show ?thesis
  proof (cases "bpf_decode (code p)")
    case Ld_W_Abs
    then show ?thesis using ldw[of "insn_k p"] mem nr by (auto simp: bpf_insn_step_def Let_def)
  next
    case Ld_H_Abs
    then show ?thesis using ldh[of "insn_k p"] mem nr by (auto simp: bpf_insn_step_def Let_def)
  next
    case Ld_W_Ind
    then show ?thesis using ldw[of "reg_X r + insn_k p"] mem nr by (auto simp: bpf_insn_step_def Let_def)
  next
    case Ld_H_Ind
    then show ?thesis using ldh[of "reg_X r + insn_k p"] mem nr by (auto simp: bpf_insn_step_def Let_def)
  next
    case Ja
    then show ?thesis using ja mem nr by (simp add: bpf_insn_step_def Let_def)
  next
    case (Jmp c s)
    then show ?thesis using jmp[OF Jmp] mem nr
      by (auto simp: bpf_insn_step_def Let_def simp del: of_nat_unat)
  next
    case (Alu f s)
    then show ?thesis using div sh[of f] mem nr
      by (cases s; cases f) (simp_all add: bpf_insn_step_def Let_def)
  qed (use mem nr mi in \<open>auto simp: bpf_insn_step_def Let_def ld_byte_spec split: sum.splits\<close>)
qed


lemma bpf_validate_D:
  assumes "bpf_validate (Some prog)"
  shows "prog \<noteq> []" "\<And>i. i < length prog \<Longrightarrow> insn_ok (length prog) i (prog ! i)"
    "BPF_CLASS (code (prog ! (length prog - 1))) = BPF_RET"
proof -
  show ne: "prog \<noteq> []" using assms by (auto simp: bpf_validate_def)
  show "\<And>i. i < length prog \<Longrightarrow> insn_ok (length prog) i (prog ! i)"
    using assms by (simp add: bpf_validate_def list_all_iff)
  show "BPF_CLASS (code (prog ! (length prog - 1))) = BPF_RET"
    using assms ne by (simp add: bpf_validate_def last_conv_nth)
qed

lemma bpf_loop_safe:
  assumes v: "bpf_validate (Some prog)" and "i < length prog" "length (mem r) = BPF_MEMWORDS"
    and "length prog - i \<le> fuel"
  shows "\<exists>x. bpf_loop fuel prog pkt wirelen (int i) r = Some (Inr x)"
  using assms(2-)
proof (induction fuel arbitrary: i r)
  case 0
  then show ?case by simp
next
  case (Suc fuel)
  note D = bpf_validate_D[OF v]
  have safe: "case bpf_insn_step pkt wirelen (prog ! i) (int i) r of
      Fault f \<Rightarrow> False
    | Return v \<Rightarrow> True
    | Goto pc r' \<Rightarrow> length (mem r') = BPF_MEMWORDS \<and> BPF_CLASS (code (prog ! i)) \<noteq> BPF_RET \<and>
        (pc = int i + 1 \<or> int i < pc \<and> pc < int (length prog))"
    using bpf_insn_step_safe[OF D(2)[OF Suc.prems(1)] Suc.prems(2)] .
  show ?case
  proof (cases "bpf_insn_step pkt wirelen (prog ! i) (int i) r")
    case (Goto pc r')
    have "i \<noteq> length prog - 1" using D(3) safe Goto by auto
    then have "i + 1 < length prog" using Suc.prems(1) by linarith
    then have pc: "int i < pc" "pc < int (length prog)" using safe Goto by auto
    then have "\<exists>x. bpf_loop fuel prog pkt wirelen (int (nat pc)) r' = Some (Inr x)"
      using safe Goto Suc.prems by (intro Suc.IH) auto
    then show ?thesis using Goto pc Suc.prems(1) by simp
  qed (use safe Suc.prems(1) in auto)
qed

text \<open>C19: a validated filter is safe to run. For every program \<open>bpf_validate\<close> accepts, every
  packet (flat or mbuf chain) and every content of the uninitialised locals, the interpreter
  returns after at most one step per instruction, without jumping out of the program, indexing
  outside the scratch memory, reading outside the packet, dividing by zero or shifting too far.\<close>

theorem bpf_filter_validated:
  assumes "bpf_validate (Some prog)" "length mem0 = BPF_MEMWORDS" "length prog \<le> fuel"
  shows "\<exists>x. bpf_filter fuel (Some prog) pkt wirelen mem0 merr0 = Some (Inr x)"
  using bpf_loop_safe[OF assms(1), of 0 "\<lparr>reg_A = 0, reg_X = 0, mem = mem0, merr = merr0\<rparr>" fuel]
    bpf_validate_D(1)[OF assms(1)] assms(2,3)
  by (simp add: bpf_filter_def)

subsection \<open>Packet representations\<close>

text \<open>
  What the interpreter relies on when it loads a field: a load that succeeds delivers the
  big-endian field of the packet's bytes, so it cannot depend on how the bytes are stored.
\<close>

locale packet_view =
  fixes byts :: "'p \<Rightarrow> u8 list" and fld :: "'p \<Rightarrow> u32 \<Rightarrow> u32 option"
    and wd :: nat and ext :: "u8 list \<Rightarrow> nat \<Rightarrow> u32 option"
  assumes load_sound: "fld p k = Some v \<Longrightarrow>
    0 \<le> sint k \<and> unat k + wd \<le> length (byts p) \<and> ext (byts p) (unat k) = Some v"
begin

lemma load_bounds: "fld p k = Some v \<Longrightarrow> unat k + wd \<le> length (byts p)"
  using load_sound by blast

lemma load_same: "byts p = byts q \<Longrightarrow> fld p k = Some v \<Longrightarrow> fld q k = Some w \<Longrightarrow> v = w"
  using load_sound by (metis option.inject)

end

text \<open>The value a load leaves in A, when the filter goes on and no earlier load cleared \<open>merr\<close>.\<close>

definition loaded :: "(packet \<Rightarrow> u32 \<Rightarrow> int \<Rightarrow> bpf_regs \<Rightarrow> bpf_next) \<Rightarrow> packet \<Rightarrow> u32 \<Rightarrow> u32 option" where
  "loaded ld pkt k =
     (case ld pkt k 0 \<lparr>reg_A = 0, reg_X = 0, mem = [], merr = 1\<rparr> of
        Goto _ r \<Rightarrow> Some (reg_A r) | _ \<Rightarrow> None)"

lemma extract_first:
  "i + 4 \<le> length m \<Longrightarrow> EXTRACT_LONG (m @ ms) i = EXTRACT_LONG m i"
  "i + 2 \<le> length m \<Longrightarrow> EXTRACT_SHORT (m @ ms) i = EXTRACT_SHORT m i"
  by (simp_all add: EXTRACT_LONG_in EXTRACT_SHORT_in nth_append)

lemma ld_word_sound:
  assumes "merr r \<noteq> 0" "ld_word pkt k pc r = Goto pc' r'"
  shows "0 \<le> sint k \<and> unat k + 4 \<le> length (pkt_bytes pkt) \<and>
         EXTRACT_LONG (pkt_bytes pkt) (unat k) = Some (reg_A r')"
proof (cases pkt)
  case (Flat p)
  then show ?thesis using assms by (auto simp: ld_word_def split: if_splits option.splits)
next
  case (Chain m ms)
  then show ?thesis
    using assms m_xword_ok[of "m # ms" k "merr r"]
    by (auto simp: ld_word_def xload_ok_def extract_first split: if_splits option.splits)
qed

lemma ld_half_sound:
  assumes "merr r \<noteq> 0" "ld_half pkt k pc r = Goto pc' r'"
  shows "0 \<le> sint k \<and> unat k + 2 \<le> length (pkt_bytes pkt) \<and>
         EXTRACT_SHORT (pkt_bytes pkt) (unat k) = Some (reg_A r')"
proof (cases pkt)
  case (Flat p)
  then show ?thesis using assms by (auto simp: ld_half_def split: if_splits option.splits)
next
  case (Chain m ms)
  then show ?thesis
    using assms m_xhalf_ok[of "m # ms" k "merr r"]
    by (auto simp: ld_half_def xload_ok_def extract_first split: if_splits option.splits)
qed

interpretation wordv: packet_view pkt_bytes "loaded ld_word" 4 EXTRACT_LONG
proof unfold_locales
  fix p k v
  assume "loaded ld_word p k = Some v"
  then obtain pc r where "ld_word p k 0 \<lparr>reg_A = 0, reg_X = 0, mem = [], merr = 1\<rparr> = Goto pc r" "v = reg_A r"
    by (auto simp: loaded_def split: bpf_next.splits)
  then show "0 \<le> sint k \<and> unat k + 4 \<le> length (pkt_bytes p) \<and> EXTRACT_LONG (pkt_bytes p) (unat k) = Some v"
    using ld_word_sound[of "\<lparr>reg_A = 0, reg_X = 0, mem = [], merr = 1\<rparr>" p k 0 pc r] by simp
qed

interpretation halfv: packet_view pkt_bytes "loaded ld_half" 2 EXTRACT_SHORT
proof unfold_locales
  fix p k v
  assume "loaded ld_half p k = Some v"
  then obtain pc r where "ld_half p k 0 \<lparr>reg_A = 0, reg_X = 0, mem = [], merr = 1\<rparr> = Goto pc r" "v = reg_A r"
    by (auto simp: loaded_def split: bpf_next.splits)
  then show "0 \<le> sint k \<and> unat k + 2 \<le> length (pkt_bytes p) \<and> EXTRACT_SHORT (pkt_bytes p) (unat k) = Some v"
    using ld_half_sound[of "\<lparr>reg_A = 0, reg_X = 0, mem = [], merr = 1\<rparr>" p k 0 pc r] by simp
qed

text \<open>
  Word and half loads do not depend on how a packet is split into mbufs. When \<open>merr\<close> is
  non-zero before the load, a load that lets the filter go on lies inside the packet and
  delivers the same value for any two representations of the same bytes.\<close>

theorem bpf_loads_representation:
  assumes "pkt_bytes p = pkt_bytes q"
    and "loaded ld_word p k = Some v" "loaded ld_word q k = Some v'"
    and "loaded ld_half p j = Some w" "loaded ld_half q j = Some w'"
  shows "v = v' \<and> w = w' \<and> unat k + 4 \<le> length (pkt_bytes p) \<and> unat j + 2 \<le> length (pkt_bytes p)"
  using wordv.load_same[OF assms(1-3)] halfv.load_same[OF assms(1,4,5)]
    wordv.load_bounds[OF assms(2)] halfv.load_bounds[OF assms(4)] by blast

theorem bpf_loads_representation_witness:
  "\<exists>v w. loaded ld_word (Chain [1, 2, 3] [[4, 5]]) 1 = Some v \<and> loaded ld_word (Flat [1, 2, 3, 4, 5]) 1 = Some v \<and>
     loaded ld_half (Chain [1, 2, 3] [[4, 5]]) 2 = Some w \<and> loaded ld_half (Flat [1, 2, 3, 4, 5]) 2 = Some w"
proof -
  have e: "loaded ld_word (Chain [1, 2, 3] [[4, 5]]) 1 = Some 0x2030405"
    "loaded ld_word (Flat [1, 2, 3, 4, 5]) 1 = Some 0x2030405"
    "loaded ld_half (Chain [1, 2, 3] [[4, 5]]) 2 = Some 0x304"
    "loaded ld_half (Flat [1, 2, 3, 4, 5]) 2 = Some 0x304"
    by (simp_all add: loaded_def ld_word_def ld_half_def m_xword_def m_xhalf_def EXTRACT_LONG_def
        EXTRACT_SHORT_def rd_def be32_def be16_def)
  have "pkt_bytes (Chain [1, 2, 3] [[4, 5]]) = pkt_bytes (Flat [1, 2, 3, 4, 5])" by simp
  from bpf_loads_representation[OF this e] e show ?thesis by blast
qed

text \<open>
  Behind the end of an mbuf chain \<open>m_xword\<close> returns without setting \<open>*err\<close>, and
  \<open>merr\<close> is uninitialised in \<open>bpf_filter\<close>: the same out-of-range load is rejected or accepted
  as 0 depending on what \<open>merr\<close> held, while a flat buffer always rejects.\<close>

theorem bpf_filter_stale_merr:
  fixes pkt_m :: "u8 list" and k :: u32
  assumes "length pkt_m \<le> unat k" "0 \<le> sint k" "v \<noteq> 0"
  shows "bpf_filter 2 (Some [\<lparr>code = BPF_LD OR BPF_W OR BPF_ABS, jt = 0, jf = 0, insn_k = k\<rparr>,
             \<lparr>code = BPF_RET OR BPF_K, jt = 0, jf = 0, insn_k = v\<rparr>]) (Chain pkt_m []) wirelen mem0 0
           = Some (Inr v) \<and>
         bpf_filter 2 (Some [\<lparr>code = BPF_LD OR BPF_W OR BPF_ABS, jt = 0, jf = 0, insn_k = k\<rparr>,
             \<lparr>code = BPF_RET OR BPF_K, jt = 0, jf = 0, insn_k = v\<rparr>]) (Chain pkt_m []) wirelen mem0 1
           = Some (Inr 0) \<and>
         bpf_filter 2 (Some [\<lparr>code = BPF_LD OR BPF_W OR BPF_ABS, jt = 0, jf = 0, insn_k = k\<rparr>,
             \<lparr>code = BPF_RET OR BPF_K, jt = 0, jf = 0, insn_k = v\<rparr>]) (Flat pkt_m) wirelen mem0 merr0
           = Some (Inr 0)"
  unfolding bpf_filter_def numeral_2_eq_2 using assms
  by (simp add: bpf_insn_step_def bpf_decode_def Let_def ld_word_def m_xword_def)


lemma m_xload_single:
  "m_xword [b] k err = Some (v, e) \<Longrightarrow> sint k < 0 \<or> length b < unat k + 4 \<Longrightarrow> err \<noteq> 0 \<Longrightarrow> e \<noteq> 0"
  "m_xhalf [b] k err = Some (v, e) \<Longrightarrow> sint k < 0 \<or> length b < unat k + 2 \<Longrightarrow> err \<noteq> 0 \<Longrightarrow> e \<noteq> 0"
  by (auto simp: m_xword_def m_xhalf_def split: if_splits)

lemma bpf_insn_step_single:
  assumes "merr r \<noteq> 0"
  shows "bpf_insn_step (Chain b []) wirelen p pc r = bpf_insn_step (Flat b) wirelen p pc r"
proof -
  have w: "ld_word (Chain b []) k n r = ld_word (Flat b) k n r" for k n
    using m_xword_ok[of "[b]" k "merr r"] m_xload_single(1)[of b k "merr r"] assms
    by (auto simp: ld_word_def xload_ok_def split: option.splits)
  have h: "ld_half (Chain b []) k n r = ld_half (Flat b) k n r" for k n
    using m_xhalf_ok[of "[b]" k "merr r"] m_xload_single(2)[of b k "merr r"] assms
    by (auto simp: ld_half_def xload_ok_def split: option.splits)
  have y: "ld_byte (Chain b []) k = ld_byte (Flat b) k" for k
    by (simp add: ld_byte_spec)
  show ?thesis unfolding bpf_insn_step_def w h y by (rule refl)
qed

lemma ld_flat_merr:
  "ld_word (Flat b) k n r = Goto pc r' \<Longrightarrow> merr r' = merr r"
  "ld_half (Flat b) k n r = Goto pc r' \<Longrightarrow> merr r' = merr r"
  by (auto simp: ld_word_def ld_half_def split: if_splits option.splits)

lemma bpf_insn_step_flat_merr:
  "bpf_insn_step (Flat b) wirelen p pc r = Goto pc' r' \<Longrightarrow> merr r' = merr r"
  by (auto simp: bpf_insn_step_def Let_def ld_byte_spec dest: ld_flat_merr
      split: bpf_op.splits bpf_src.splits if_splits)

text \<open>
  A packet held in one mbuf is filtered exactly as the same bytes in a flat buffer, for
  every program, provided \<open>merr\<close> starts non-zero.\<close>

theorem bpf_filter_single_mbuf:
  assumes "merr0 \<noteq> 0"
  shows "bpf_filter fuel prog (Chain b []) wirelen mem0 merr0 =
         bpf_filter fuel prog (Flat b) wirelen mem0 merr0"
proof -
  have "merr r \<noteq> 0 \<Longrightarrow> bpf_loop fuel p (Chain b []) wirelen pc r = bpf_loop fuel p (Flat b) wirelen pc r"
    for p pc r
  proof (induction fuel arbitrary: pc r)
    case (Suc fuel)
    have "bpf_loop fuel p (Chain b []) wirelen pc' r' = bpf_loop fuel p (Flat b) wirelen pc' r'"
      if "bpf_insn_step (Flat b) wirelen (p ! nat pc) pc r = Goto pc' r'" for pc' r'
      using bpf_insn_step_flat_merr[OF that] Suc by simp
    then show ?case
      using bpf_insn_step_single[OF Suc.prems] by (simp split: bpf_next.splits)
  qed simp
  then show ?thesis using assms by (simp add: bpf_filter_def split: option.splits)
qed


theorem bpf_filter_single_mbuf_witness:
  "bpf_filter 2 (Some [\<lparr>code = BPF_LD OR BPF_H OR BPF_ABS, jt = 0, jf = 0, insn_k = 2\<rparr>,
      \<lparr>code = BPF_RET OR BPF_A, jt = 0, jf = 0, insn_k = 0\<rparr>]) (Chain [1, 2, 3, 4] []) 4 [] 1
   = bpf_filter 2 (Some [\<lparr>code = BPF_LD OR BPF_H OR BPF_ABS, jt = 0, jf = 0, insn_k = 2\<rparr>,
      \<lparr>code = BPF_RET OR BPF_A, jt = 0, jf = 0, insn_k = 0\<rparr>]) (Flat [1, 2, 3, 4]) 4 [] 1"
  by (rule bpf_filter_single_mbuf) simp

theorem bpf_filter_stale_merr_witness:
  "bpf_filter 2 (Some [\<lparr>code = BPF_LD OR BPF_W OR BPF_ABS, jt = 0, jf = 0, insn_k = 100\<rparr>,
      \<lparr>code = BPF_RET OR BPF_K, jt = 0, jf = 0, insn_k = 96\<rparr>]) (Chain [1, 2] []) 2 [] 0 = Some (Inr 96)"
proof -
  have "length [1, 2 :: u8] \<le> unat (100 :: u32)" "0 \<le> sint (100 :: u32)" "(96 :: u32) \<noteq> 0" by simp_all
  from bpf_filter_stale_merr[OF this] show ?thesis by blast
qed

theorem bpf_filter_validated_witness:
  "\<exists>x. bpf_filter 4 (Some [\<lparr>code = BPF_LD OR BPF_H OR BPF_ABS, jt = 0, jf = 0, insn_k = 12\<rparr>,
       \<lparr>code = BPF_JMP OR BPF_JEQ OR BPF_K, jt = 0, jf = 1, insn_k = 0x800\<rparr>,
       \<lparr>code = BPF_RET OR BPF_K, jt = 0, jf = 0, insn_k = 96\<rparr>,
       \<lparr>code = BPF_RET OR BPF_K, jt = 0, jf = 0, insn_k = 0\<rparr>])
     (Flat [1, 2, 3]) 3 (replicate 16 0) 7 = Some (Inr x)"
proof (rule bpf_filter_validated)
  show "bpf_validate (Some [\<lparr>code = BPF_LD OR BPF_H OR BPF_ABS, jt = 0, jf = 0, insn_k = 12\<rparr>,
       \<lparr>code = BPF_JMP OR BPF_JEQ OR BPF_K, jt = 0, jf = 1, insn_k = 0x800\<rparr>,
       \<lparr>code = BPF_RET OR BPF_K, jt = 0, jf = 0, insn_k = 96\<rparr>,
       \<lparr>code = BPF_RET OR BPF_K, jt = 0, jf = 0, insn_k = 0\<rparr>])"
    by (simp add: bpf_validate_def insn_ok_def BPF_CLASS_def BPF_OP_def BPF_MODE_def BPF_MAXINSNS_def upt_rec)
qed (simp_all add: BPF_MEMWORDS_def)

end
