(* ===== verification/Res_Comp.thy ===== *)
theory Res_Comp
  imports Amitcp_Prelude
begin

unbundle bit_operations_syntax

text \<open>
  DNS name compression (\<open>api/res_comp.c\<close>): \<open>dn_expand\<close>, \<open>dn_comp\<close> with its search \<open>dn_find\<close>,
  \<open>__dn_skipname\<close> and the big-endian helpers. A message is the list of its bytes and a pointer
  into it an offset. An access outside the message or outside the caller's buffer is a
  \<open>Fault\<close>, the return value \<open>-1\<close> is \<open>Err\<close>.
\<close>

datatype 'a dn_res = Ok 'a | Err | Fault

abbreviation DOT :: u8 where "DOT \<equiv> 46"
abbreviation BSLASH :: u8 where "BSLASH \<equiv> 92"
abbreviation INDIR_MASK :: u8 where "INDIR_MASK \<equiv> 0xc0"

definition MAXLABEL :: nat where "MAXLABEL = 63"

text \<open>The offset of a compression pointer, \<open>((n & 0x3f) << 8) | (*cp & 0xff)\<close>.\<close>

definition indir_off :: "u8 \<Rightarrow> u8 \<Rightarrow> nat" where
  "indir_off n lo = unat (n AND 0x3f) * 256 + unat lo"

section \<open>Expansion\<close>

text \<open>
  \<open>*dn++ = c\<close> with \<open>dn\<close> the bytes written so far; a write at or behind \<open>exp_dn + length\<close> is a
  fault.
\<close>

definition dn_put :: "int \<Rightarrow> u8 list \<Rightarrow> u8 \<Rightarrow> u8 list dn_res" where
  "dn_put sz dn c = (if int (length dn) < sz then Ok (dn @ [c]) else Fault)"

fun dn_bind :: "'a dn_res \<Rightarrow> ('a \<Rightarrow> 'b dn_res) \<Rightarrow> 'b dn_res" where
  "dn_bind (Ok x) f = f x"
| "dn_bind Err f = Err"
| "dn_bind Fault f = Fault"

text \<open>The copy loop of a label; the first argument is \<open>n\<close>.\<close>

fun expand_label :: "nat \<Rightarrow> u8 list \<Rightarrow> int \<Rightarrow> nat \<Rightarrow> u8 list \<Rightarrow> (nat \<times> u8 list) dn_res" where
  "expand_label 0 msg sz cp dn = Ok (cp, dn)"
| "expand_label (Suc n) msg sz cp dn =
     (if cp \<ge> length msg then Err
      else let c = msg ! cp in
        if c = DOT then
          (if int (length dn) + int n + 2 \<ge> sz then Err
           else dn_bind (dn_put sz dn BSLASH) (\<lambda>dn1.
                dn_bind (dn_put sz dn1 c) (\<lambda>dn2. expand_label n msg sz (cp + 1) dn2)))
        else dn_bind (dn_put sz dn c) (\<lambda>dn1. expand_label n msg sz (cp + 1) dn1))"

text \<open>
  The loop of \<open>dn_expand\<close>: \<open>start\<close> is \<open>comp_dn\<close>, \<open>len\<close> is \<open>None\<close> while it is negative. The result
  is the return value and the bytes of \<open>exp_dn\<close> before the terminator.
\<close>

lemma expand_label_cp: "expand_label n msg sz cp dn = Ok (cp', dn') \<Longrightarrow> cp' = cp + n"
proof (induction n arbitrary: cp dn)
  case (Suc n)
  from Suc.prems show ?case
    by (auto simp: Let_def dn_put_def split: if_splits dest!: Suc.IH)
qed simp

function expand_loop ::
  "u8 list \<Rightarrow> nat \<Rightarrow> int \<Rightarrow> nat \<Rightarrow> u8 list \<Rightarrow> nat option \<Rightarrow> nat \<Rightarrow> (nat \<times> u8 list) dn_res" where
  "expand_loop msg start sz cp dn len checked =
     (if cp \<ge> length msg then Err
      else let n = msg ! cp in
        if n = 0 then
          (if int (length dn) \<ge> sz then Err
           else Ok (case len of None \<Rightarrow> cp + 1 - start | Some l \<Rightarrow> l, dn))
        else if n AND INDIR_MASK = 0 then
          (if dn \<noteq> [] \<and> int (length dn) \<ge> sz then Err
           else case (if dn \<noteq> [] then dn_put sz dn DOT else Ok dn) of
             Err \<Rightarrow> Err
           | Fault \<Rightarrow> Fault
           | Ok dn1 \<Rightarrow>
               if int (length dn1) + int (unat n) \<ge> sz then Err
               else (case expand_label (unat n) msg sz (cp + 1) dn1 of
                   Err \<Rightarrow> Err
                 | Fault \<Rightarrow> Fault
                 | Ok (cp', dn') \<Rightarrow>
                     expand_loop msg start sz cp' dn' len (checked + unat n + 1)))
        else if n AND INDIR_MASK = INDIR_MASK then
          (if cp + 1 \<ge> length msg then Err
           else let cp' = indir_off n (msg ! (cp + 1)) in
             if cp' \<ge> length msg then Err
             else if checked + 2 \<ge> length msg then Err
             else expand_loop msg start sz cp' dn
                    (case len of None \<Rightarrow> Some (cp + 2 - start) | Some l \<Rightarrow> Some l) (checked + 2))
        else Err)"
  by pat_completeness auto
termination
  by (relation "measures [\<lambda>(msg, start, sz, cp, dn, len, checked). length msg - checked,
                          \<lambda>(msg, start, sz, cp, dn, len, checked). length msg - cp]")
     (auto dest: expand_label_cp)

declare expand_loop.simps [simp del]

definition dn_expand :: "u8 list \<Rightarrow> nat \<Rightarrow> int \<Rightarrow> (nat \<times> u8 list) dn_res" where
  "dn_expand msg comp_dn sz = expand_loop msg comp_dn sz comp_dn [] None 0"

section \<open>Skipping a name\<close>

text \<open>\<open>None\<close> is \<open>-1\<close>. The result may lie behind the end of the message.\<close>

function skip_loop :: "u8 list \<Rightarrow> nat \<Rightarrow> nat \<Rightarrow> nat option" where
  "skip_loop msg start cp =
     (if cp \<ge> length msg then Some (cp - start)
      else let n = msg ! cp in
        if n = 0 then Some (cp + 1 - start)
        else if n AND INDIR_MASK = 0 then skip_loop msg start (cp + 1 + unat n)
        else if n AND INDIR_MASK = INDIR_MASK then Some (cp + 2 - start)
        else None)"
  by pat_completeness auto
termination by (relation "measure (\<lambda>(msg, start, cp). length msg - cp)") auto

declare skip_loop.simps [simp del]

definition dn_skipname :: "u8 list \<Rightarrow> nat \<Rightarrow> nat option" where
  "dn_skipname msg comp_dn = skip_loop msg comp_dn comp_dn"

section \<open>Compression\<close>

text \<open>
  \<open>dn_find\<close>: the comparison of one stored label with the name. The name is the rest of a string
  without its NUL, so \<open>*dn\<close> at its end is 0. \<open>None\<close> is \<open>goto next\<close>.
\<close>

fun str_hd :: "u8 list \<Rightarrow> u8" where
  "str_hd [] = 0"
| "str_hd (c # _) = c"

fun find_label :: "nat \<Rightarrow> u8 list \<Rightarrow> nat \<Rightarrow> u8 list \<Rightarrow> (nat \<times> u8 list) option dn_res" where
  "find_label 0 buf cp dn = Ok (Some (cp, dn))"
| "find_label (Suc n) buf cp dn =
     (if str_hd dn = DOT then Ok None
      else let dn1 = (if str_hd dn = BSLASH then tl dn else dn) in
        if cp \<ge> length buf then Fault
        else if str_hd dn1 \<noteq> buf ! cp then Ok None
        else if dn1 = [] then Fault
        else find_label n buf (cp + 1) (tl dn1))"

text \<open>
  The walk along one stored name: \<open>Ok True\<close> is a match, \<open>Ok False\<close> is \<open>goto next\<close>, \<open>Err\<close> is
  \<open>return (-1)\<close>. The fuel bounds the labels and pointers followed; running out is a fault, as
  is reading outside the message.
\<close>

fun find_name :: "nat \<Rightarrow> u8 list \<Rightarrow> nat \<Rightarrow> u8 list \<Rightarrow> bool dn_res" where
  "find_name 0 buf cp dn = Fault"
| "find_name (Suc fuel) buf cp dn =
     (if cp \<ge> length buf then Fault
      else let n = buf ! cp in
        if n = 0 then Ok (dn = [])
        else if n AND INDIR_MASK = 0 then
          (case find_label (unat n) buf (cp + 1) dn of
             Err \<Rightarrow> Err
           | Fault \<Rightarrow> Fault
           | Ok None \<Rightarrow> Ok False
           | Ok (Some (cp', dn')) \<Rightarrow>
               if cp' \<ge> length buf then Fault
               else if dn' = [] \<and> buf ! cp' = 0 then Ok True
               else if str_hd dn' = DOT then find_name fuel buf cp' (tl dn')
               else Ok False)
        else if n AND INDIR_MASK = INDIR_MASK then
          (if cp + 1 \<ge> length buf then Fault
           else find_name fuel buf (indir_off n (buf ! (cp + 1))) dn)
        else Err)"

fun dn_find :: "nat \<Rightarrow> u8 list \<Rightarrow> nat list \<Rightarrow> u8 list \<Rightarrow> nat option dn_res" where
  "dn_find fuel buf [] dn = Ok None"
| "dn_find fuel buf (p # ps) dn =
     (case find_name fuel buf p dn of
        Ok True \<Rightarrow> Ok (Some p)
      | Ok False \<Rightarrow> dn_find fuel buf ps dn
      | Err \<Rightarrow> Ok None
      | Fault \<Rightarrow> Fault)"

text \<open>\<open>*cp = c\<close> in the message buffer.\<close>

definition wr :: "u8 list \<Rightarrow> nat \<Rightarrow> u8 \<Rightarrow> u8 list dn_res" where
  "wr buf i c = (if i < length buf then Ok (buf[i := c]) else Fault)"

text \<open>
  The \<open>do ... while\<close> that copies a label: the argument is the rest of the string from the
  character \<open>c\<close> on, the result the rest from the new \<open>c\<close>, the new \<open>cp\<close> and the buffer.
\<close>

fun comp_label :: "nat \<Rightarrow> u8 list \<Rightarrow> nat \<Rightarrow> u8 list \<Rightarrow> (u8 list \<times> nat \<times> u8 list) dn_res" where
  "comp_label eob [] cp buf = Ok ([], cp, buf)"
| "comp_label eob (c # r) cp buf =
     (if c = DOT then Ok (r, cp, buf)
      else if c = BSLASH then
        (case r of
           [] \<Rightarrow> Ok ([], cp, buf)
         | c' # r' \<Rightarrow> if cp \<ge> eob then Err
                     else dn_bind (wr buf cp c') (\<lambda>buf'. comp_label eob r' (cp + 1) buf'))
      else if cp \<ge> eob then Err
      else dn_bind (wr buf cp c) (\<lambda>buf'. comp_label eob r (cp + 1) buf'))"

text \<open>
  The list of previous names: \<open>None\<close> when there is none to use (\<open>msg == NULL\<close>); otherwise the
  offsets stored in \<open>dnptrs\<close>, the number of them when the call began (\<open>lpp\<close>), and the capacity
  \<open>lastdnptr - dnptrs\<close> (\<open>None\<close> for \<open>lastdnptr == NULL\<close>).
\<close>

record dn_ptrs =
  dp_list :: "nat list"
  dp_lpp :: nat
  dp_cap :: "nat option"

definition ptrs_save :: "dn_ptrs \<Rightarrow> nat \<Rightarrow> dn_ptrs" where
  "ptrs_save d cp =
     (case dp_cap d of
        Some cap \<Rightarrow> if length (dp_list d) + 1 < cap then d\<lparr>dp_list := dp_list d @ [cp]\<rparr> else d
      | None \<Rightarrow> d)"

definition ptrs_reset :: "dn_ptrs option \<Rightarrow> dn_ptrs option" where
  "ptrs_reset d = map_option (\<lambda>p. p\<lparr>dp_list := take (dp_lpp p) (dp_list p)\<rparr>) d"

lemma comp_label_le: "comp_label eob r cp buf = Ok (r', cp', buf') \<Longrightarrow> length r' \<le> length r"
proof (induction eob r cp buf rule: comp_label.induct)
  case (2 eob c r cp buf)
  from 2 show ?case
    by (fastforce simp: wr_def intro: le_SucI split: if_splits list.splits)
qed simp

lemma comp_label_length:
  "comp_label eob r cp buf = Ok (r', cp', buf') \<Longrightarrow> r \<noteq> [] \<Longrightarrow> length r' < length r"
  by (cases r) (auto simp: wr_def less_Suc_eq_le split: if_splits list.splits dest!: comp_label_le)

text \<open>
  The loop of \<open>dn_comp\<close>. \<open>base\<close> is \<open>comp_dn\<close>, \<open>eob\<close> the end of its array. The result holds the
  updated list, and the return value with the buffer (\<open>Err\<close> for \<open>-1\<close>).
\<close>

function comp_loop ::
  "nat \<Rightarrow> nat \<Rightarrow> nat \<Rightarrow> dn_ptrs option \<Rightarrow> u8 list \<Rightarrow> nat \<Rightarrow> u8 list \<Rightarrow> dn_ptrs option \<times> (nat \<times> u8 list) dn_res" where
  "comp_loop fuel base eob d r cp buf =
     (let finish = (\<lambda>cp buf d. if cp \<ge> eob then (ptrs_reset d, Err)
                     else (d, dn_bind (wr buf cp 0) (\<lambda>buf'. Ok (cp + 1 - base, buf')))) in
      if r = [] then finish cp buf d
      else case (case d of None \<Rightarrow> Ok None
                 | Some p \<Rightarrow> dn_find fuel buf (take (dp_lpp p) (dp_list p)) r) of
        Fault \<Rightarrow> (d, Fault)
      | Err \<Rightarrow> (d, Err)
      | Ok (Some l) \<Rightarrow>
          if cp + 1 \<ge> eob then (d, Err)
          else (d, dn_bind (wr buf cp (word_of_nat (l div 256) OR INDIR_MASK)) (\<lambda>b1.
                   dn_bind (wr b1 (cp + 1) (word_of_nat (l mod 256))) (\<lambda>b2. Ok (cp + 2 - base, b2))))
      | Ok None \<Rightarrow>
          let d1 = map_option (\<lambda>p. ptrs_save p cp) d in
          (case comp_label eob r (cp + 1) buf of
             Fault \<Rightarrow> (d1, Fault)
           | Err \<Rightarrow> (ptrs_reset d1, Err)
           | Ok (r', cp', buf') \<Rightarrow>
               let l = cp' - cp - 1 in
               if l = 0 \<and> r' = [] then finish cp buf' d1
               else if l = 0 \<or> l > MAXLABEL then (ptrs_reset d1, Err)
               else (case wr buf' cp (word_of_nat l) of
                   Ok buf'' \<Rightarrow> comp_loop fuel base eob d1 r' cp' buf''
                 | _ \<Rightarrow> (d1, Fault))))"
  by pat_completeness auto
termination
  by (relation "measure (\<lambda>(fuel, base, eob, d, r, cp, buf). length r)") (auto dest: comp_label_length)

declare comp_loop.simps [simp del]

definition dn_comp ::
  "nat \<Rightarrow> u8 list \<Rightarrow> u8 list \<Rightarrow> nat \<Rightarrow> nat \<Rightarrow> dn_ptrs option \<Rightarrow> dn_ptrs option \<times> (nat \<times> u8 list) dn_res" where
  "dn_comp fuel exp_dn buf comp_dn sz d =
     comp_loop fuel comp_dn (comp_dn + sz) d exp_dn comp_dn buf"

section \<open>Integers in messages\<close>

definition getshort :: "u8 list \<Rightarrow> nat \<Rightarrow> u16" where
  "getshort m i = push_bit 8 (ucast (m ! i)) OR ucast (m ! (i + 1))"

definition getlong :: "u8 list \<Rightarrow> nat \<Rightarrow> u32" where
  "getlong m i =
     (let u0 = push_bit 8 (ucast (m ! i));
          u1 = push_bit 8 (u0 OR ucast (m ! (i + 1)));
          u2 = push_bit 8 (u1 OR ucast (m ! (i + 2)))
      in u2 OR ucast (m ! (i + 3)))"

definition putshort :: "u16 \<Rightarrow> u8 list \<Rightarrow> nat \<Rightarrow> u8 list" where
  "putshort s m i = m[i + 1 := ucast s, i := ucast (drop_bit 8 s)]"

definition putlong :: "u32 \<Rightarrow> u8 list \<Rightarrow> nat \<Rightarrow> u8 list" where
  "putlong l m i =
     (let l1 = drop_bit 8 l; l2 = drop_bit 8 l1
      in m[i + 3 := ucast l, i + 2 := ucast l1, i + 1 := ucast l2, i := ucast (drop_bit 8 l2)])"

end
