(* ===== verification/Res_Comp_Correct.thy ===== *)
theory Res_Comp_Correct
  imports Res_Comp
begin

text \<open>
  Correctness of DNS name compression: memory safety and termination of the expansion of
  untrusted names, the bounds of the compressor, the round trip of plain names, and the
  integers stored in messages.
\<close>

section \<open>Expansion is memory safe\<close>

lemma dn_put_ok: "int (length dn) < sz \<Longrightarrow> dn_put sz dn c = Ok (dn @ [c])"
  by (simp add: dn_put_def)

lemma expand_label_safe:
  "int (length dn) + int n < sz \<Longrightarrow>
   case expand_label n msg sz cp dn of Fault \<Rightarrow> False | Err \<Rightarrow> True
     | Ok (cp', dn') \<Rightarrow> int (length dn') < sz \<and> cp' \<le> max cp (length msg)"
proof (induction n arbitrary: cp dn)
  case (Suc n)
  show ?case
  proof (cases "cp \<ge> length msg")
    case False
    let ?c = "msg ! cp"
    show ?thesis
    proof (cases "?c = DOT")
      case True
      show ?thesis
      proof (cases "int (length dn) + int n + 2 \<ge> sz")
        case fits: False
        then have "expand_label (Suc n) msg sz cp dn = expand_label n msg sz (cp + 1) ((dn @ [BSLASH]) @ [DOT])"
          using False True by (simp add: Let_def dn_put_ok)
        moreover have "int (length ((dn @ [BSLASH]) @ [DOT])) + int n < sz" using fits by simp
        ultimately show ?thesis using Suc.IH[of "(dn @ [BSLASH]) @ [DOT]" "cp + 1"] False
          by (auto simp: max_def split: dn_res.splits)
      qed (use False True in simp)
    next
      case nd: False
      then have "expand_label (Suc n) msg sz cp dn = expand_label n msg sz (cp + 1) (dn @ [?c])"
        using False Suc.prems by (simp add: Let_def dn_put_ok)
      moreover have "int (length (dn @ [?c])) + int n < sz" using Suc.prems by simp
      ultimately show ?thesis using Suc.IH[of "dn @ [?c]" "cp + 1"] False
        by (auto simp: max_def split: dn_res.splits)
    qed
  qed simp
qed simp

text \<open>What a result of the loop may be, from the position \<open>cp\<close>.\<close>

definition expand_post :: "u8 list \<Rightarrow> nat \<Rightarrow> int \<Rightarrow> nat \<Rightarrow> nat option \<Rightarrow> (nat \<times> u8 list) dn_res \<Rightarrow> bool" where
  "expand_post msg start sz cp len res =
     (case res of Fault \<Rightarrow> False | Err \<Rightarrow> True
      | Ok (n, out) \<Rightarrow> int (length out) < sz \<and> start + n \<le> length msg \<and>
         (case len of None \<Rightarrow> skip_loop msg start cp = Some n | Some l \<Rightarrow> n = l))"

lemma expand_post_Err [simp]: "expand_post msg start sz cp len Err"
  by (simp add: expand_post_def)

lemma expand_loop_safe:
  "(len = None \<Longrightarrow> start \<le> cp) \<Longrightarrow> (\<And>l. len = Some l \<Longrightarrow> start + l \<le> length msg) \<Longrightarrow>
   expand_post msg start sz cp len (expand_loop msg start sz cp dn len checked)"
proof (induction msg start sz cp dn len checked rule: expand_loop.induct)
  case (1 msg start sz cp dn len checked)
  let ?n = "msg ! cp"
  note unf = expand_loop.simps[of msg start sz cp dn len checked] and skp = skip_loop.simps[of msg start cp]
  consider (past) "cp \<ge> length msg" | (zero) "cp < length msg" "?n = 0"
    | (label) "cp < length msg" "?n \<noteq> 0" "?n AND INDIR_MASK = 0"
    | (ptr) "cp < length msg" "?n \<noteq> 0" "?n AND INDIR_MASK = INDIR_MASK"
    | (bad) "cp < length msg" "?n \<noteq> 0" "?n AND INDIR_MASK \<noteq> 0" "?n AND INDIR_MASK \<noteq> INDIR_MASK"
    by fastforce
  then show ?case
  proof cases
    case past
    then show ?thesis by (simp add: unf)
  next
    case zero
    then have "expand_loop msg start sz cp dn len checked = (if int (length dn) \<ge> sz then Err
        else Ok (case len of None \<Rightarrow> cp + 1 - start | Some l \<Rightarrow> l, dn))" by (simp add: unf)
    then show ?thesis using 1(3,4) zero by (cases len) (auto simp: expand_post_def skp)
  next
    case bad
    then show ?thesis by (simp add: unf Let_def)
  next
    case label
    define put where "put = (if dn \<noteq> [] then dn_put sz dn DOT else Ok dn)"
    show ?thesis
    proof (cases "dn \<noteq> [] \<and> int (length dn) \<ge> sz")
      case True
      then show ?thesis using label by (simp add: unf Let_def)
    next
      case False
      then obtain dn1 where dn1: "put = Ok dn1" by (cases "dn = []") (auto simp: put_def dn_put_def)
      show ?thesis
      proof (cases "int (length dn1) + int (unat ?n) \<ge> sz")
        case True
        then show ?thesis using label False dn1 by (simp add: unf Let_def put_def)
      next
        case fits: False
        have step: "expand_loop msg start sz cp dn len checked =
          (case expand_label (unat ?n) msg sz (cp + 1) dn1 of Err \<Rightarrow> Err | Fault \<Rightarrow> Fault
           | Ok (cp', dn') \<Rightarrow> expand_loop msg start sz cp' dn' len (checked + unat ?n + 1))"
          using False label dn1 fits by (auto simp: unf Let_def put_def simp del: of_nat_unat)
        have safe: "case expand_label (unat ?n) msg sz (cp + 1) dn1 of Fault \<Rightarrow> False | Err \<Rightarrow> True
          | Ok (cp', dn') \<Rightarrow> int (length dn') < sz \<and> cp' \<le> max (cp + 1) (length msg)"
          using fits by (intro expand_label_safe) simp
        show ?thesis
        proof (cases "expand_label (unat ?n) msg sz (cp + 1) dn1")
          case (Ok r)
          obtain cp' dn' where r: "r = (cp', dn')" by force
          have cp': "cp' = cp + 1 + unat ?n" using expand_label_cp[of "unat ?n" msg sz "cp + 1" dn1] Ok r by simp
          have ih: "expand_post msg start sz cp' len (expand_loop msg start sz cp' dn' len (checked + unat ?n + 1))"
          proof (rule 1(1)[OF _ refl _ _ False dn1[unfolded put_def] fits Ok r[symmetric]])
            show "start \<le> cp'" if "len = None" using 1(3)[OF that] cp' by simp
          qed (use label 1(4) in auto)
          have "skip_loop msg start cp = skip_loop msg start cp'"
            using label cp' by (simp add: skp Let_def)
          then show ?thesis using ih Ok r by (auto simp: step expand_post_def split: dn_res.splits option.splits)
        qed (use step safe in auto)
      qed
    qed
  next
    case ptr
    show ?thesis
    proof (cases "cp + 1 \<ge> length msg \<or> indir_off ?n (msg ! (cp + 1)) \<ge> length msg \<or> checked + 2 \<ge> length msg")
      case True
      then show ?thesis using ptr by (auto simp: unf Let_def)
    next
      case False
      define len' where "len' = (case len of None \<Rightarrow> Some (cp + 2 - start) | Some l \<Rightarrow> Some l)"
      have step: "expand_loop msg start sz cp dn len checked =
        expand_loop msg start sz (indir_off ?n (msg ! (cp + 1))) dn len' (checked + 2)"
        using ptr False by (simp add: unf Let_def len'_def)
      have "expand_post msg start sz (indir_off ?n (msg ! (cp + 1))) len'
          (expand_loop msg start sz (indir_off ?n (msg ! (cp + 1))) dn len' (checked + 2))"
        unfolding len'_def
      proof (rule 1(2)[OF _ refl])
        show "start + l \<le> length msg"
          if "(case len of None \<Rightarrow> Some (cp + 2 - start) | Some l \<Rightarrow> Some l) = Some l" for l
          using that 1(3,4) ptr False by (cases len) auto
      qed (use ptr False in \<open>auto split: option.splits\<close>)
      then show ?thesis using ptr
        unfolding step by (cases len) (auto simp: expand_post_def len'_def skp Let_def split: dn_res.splits)
    qed
  qed
qed


section \<open>Compression stays in its buffer\<close>

text \<open>The buffer changed only inside \<open>[lo, hi)\<close>.\<close>

definition buf_frame :: "nat \<Rightarrow> nat \<Rightarrow> u8 list \<Rightarrow> u8 list \<Rightarrow> bool" where
  "buf_frame lo hi buf buf' \<longleftrightarrow> length buf' = length buf \<and>
     (\<forall>j. (j < lo \<or> hi \<le> j) \<longrightarrow> buf' ! j = buf ! j)"

lemma buf_frame_refl [simp]: "buf_frame lo hi buf buf"
  by (simp add: buf_frame_def)

lemma buf_frame_trans: "buf_frame lo hi a b \<Longrightarrow> buf_frame lo hi b c \<Longrightarrow> buf_frame lo hi a c"
  by (simp add: buf_frame_def)

lemma buf_frame_upd: "lo \<le> i \<Longrightarrow> i < hi \<Longrightarrow> buf_frame lo hi buf (buf[i := c])"
  by (auto simp: buf_frame_def nth_list_update)

lemma wr_frame: "lo \<le> i \<Longrightarrow> i < hi \<Longrightarrow> hi \<le> length buf \<Longrightarrow>
  \<exists>buf'. wr buf i c = Ok buf' \<and> buf_frame lo hi buf buf'"
  using buf_frame_upd[of lo i hi buf c] by (simp add: wr_def)

lemma buf_frame_length: "buf_frame lo hi a b \<Longrightarrow> length b = length a"
  by (simp add: buf_frame_def)

lemma comp_label_safe:
  "lo \<le> cp \<Longrightarrow> eob \<le> length buf \<Longrightarrow>
   case comp_label eob r cp buf of Fault \<Rightarrow> False | Err \<Rightarrow> True
   | Ok (r', cp', buf') \<Rightarrow> buf_frame lo eob buf buf' \<and> cp \<le> cp' \<and> (cp < cp' \<longrightarrow> cp' \<le> eob)"
proof (induction r arbitrary: cp buf rule: length_induct)
  case (1 r)
  have store: "case dn_bind (wr buf cp c) (\<lambda>b. comp_label eob s (cp + 1) b) of Fault \<Rightarrow> False | Err \<Rightarrow> True
     | Ok (r', cp', buf') \<Rightarrow> buf_frame lo eob buf buf' \<and> cp \<le> cp' \<and> (cp < cp' \<longrightarrow> cp' \<le> eob)"
    if short: "length s < length r" and room: "cp < eob" for s c
  proof -
    obtain b where b: "wr buf cp c = Ok b" "buf_frame lo eob buf b"
      using wr_frame[of lo cp eob buf c] 1(2,3) room by blast
    have "case comp_label eob s (cp + 1) b of Fault \<Rightarrow> False | Err \<Rightarrow> True
       | Ok (r', cp', buf') \<Rightarrow> buf_frame lo eob b buf' \<and> cp + 1 \<le> cp' \<and> (cp + 1 < cp' \<longrightarrow> cp' \<le> eob)"
      using 1(1)[rule_format, OF short, of "cp + 1" b] 1(2,3) buf_frame_length[OF b(2)] by simp
    then show ?thesis
      using b room by (auto split: dn_res.splits intro: buf_frame_trans[OF b(2)])
  qed
  show ?case
  proof (cases r)
    case Nil
    then show ?thesis by simp
  next
    case (Cons c s)
    have roomeq: "comp_label eob r cp buf = dn_bind (wr buf cp c) (comp_label eob s (cp + 1))"
      if "c \<noteq> DOT" "c \<noteq> BSLASH" "cp < eob" using that Cons by simp
    have esceq: "comp_label eob r cp buf = dn_bind (wr buf cp c') (comp_label eob s' (cp + 1))"
      if "c = BSLASH" "s = c' # s'" "cp < eob" for c' s' using that Cons by simp
    consider "c = DOT" | "c = BSLASH" "s = []" | "c = BSLASH" "s \<noteq> []" "eob \<le> cp"
      | "c \<noteq> DOT" "c \<noteq> BSLASH" "eob \<le> cp" | (room) "c \<noteq> DOT" "c \<noteq> BSLASH" "cp < eob"
      | (esc) c' s' where "c = BSLASH" "s = c' # s'" "cp < eob"
      by (cases s) (auto simp: not_le[symmetric])
    then show ?thesis
    proof cases
      case room
      then show ?thesis using store[of s c] Cons unfolding roomeq[OF room(1-3)] by simp
    next
      case esc
      then show ?thesis using store[of s' c'] Cons unfolding esceq[OF esc(1-3)] by simp
    qed (use Cons in \<open>auto split: list.splits\<close>)
  qed
qed

lemma ptr_write_safe:
  assumes "lo \<le> cp" "cp + 1 < eob" "eob \<le> length buf"
  shows "\<exists>b. dn_bind (wr buf cp x) (\<lambda>b1. dn_bind (wr b1 (cp + 1) y) (\<lambda>b2. Ok (n, b2))) = Ok (n, b) \<and>
             buf_frame lo eob buf b"
proof -
  obtain b1 where b1: "wr buf cp x = Ok b1" "buf_frame lo eob buf b1"
    using wr_frame[of lo cp eob buf x] assms by auto
  obtain b2 where b2: "wr b1 (cp + 1) y = Ok b2" "buf_frame lo eob b1 b2"
    using wr_frame[of lo "cp + 1" eob b1 y] assms buf_frame_length[OF b1(2)] by auto
  then show ?thesis using b1 buf_frame_trans[OF b1(2) b2(2)] by simp
qed

text \<open>What \<open>dn_comp\<close> may return from \<open>cp\<close> on: a fault only from the search of earlier names.\<close>

definition comp_post :: "nat \<Rightarrow> nat \<Rightarrow> dn_ptrs option \<Rightarrow> u8 list \<Rightarrow> (nat \<times> u8 list) dn_res \<Rightarrow> bool" where
  "comp_post base eob d buf res =
     (case res of Fault \<Rightarrow> d \<noteq> None | Err \<Rightarrow> True
      | Ok (n, buf') \<Rightarrow> base + n \<le> eob \<and> buf_frame base eob buf buf')"

lemma comp_finish_safe:
  assumes "base \<le> cp" "eob \<le> length buf"
  shows "comp_post base eob d buf (snd (if cp \<ge> eob then (ptrs_reset d', Err)
           else (d', dn_bind (wr buf cp 0) (\<lambda>buf'. Ok (cp + 1 - base, buf')))))"
proof (cases "cp \<ge> eob")
  case False
  then obtain b where "wr buf cp 0 = Ok b" "buf_frame base eob buf b"
    using wr_frame[of base cp eob buf 0] assms by auto
  then show ?thesis using False assms by (simp add: comp_post_def)
qed (simp add: comp_post_def)

lemma comp_post_trans: "buf_frame base eob a b \<Longrightarrow> comp_post base eob d b res \<Longrightarrow> comp_post base eob d a res"
  by (auto simp: comp_post_def split: dn_res.splits intro: buf_frame_trans)

lemma comp_loop_safe:
  "base \<le> cp \<Longrightarrow> eob \<le> length buf \<Longrightarrow> comp_post base eob d buf (snd (comp_loop fuel base eob d r cp buf))"
proof (induction r arbitrary: cp buf d rule: length_induct)
  case (1 r)
  note unf = comp_loop.simps[of fuel base eob d r cp buf]
  show ?case
  proof (cases "r = []")
    case True
    then show ?thesis unfolding unf using comp_finish_safe[OF 1(2,3)] by (simp add: Let_def)
  next
    case False
    define fnd where "fnd = (case d of None \<Rightarrow> Ok None | Some p \<Rightarrow> dn_find fuel buf (take (dp_lpp p) (dp_list p)) r)"
    define d1 where "d1 = map_option (\<lambda>p. ptrs_save p cp) d"
    show ?thesis
    proof (cases fnd)
      case Fault
      then have "d \<noteq> None" by (auto simp: fnd_def split: option.splits)
      then show ?thesis using False Fault by (simp add: unf fnd_def[symmetric] comp_post_def)
    next
      case Err
      then show ?thesis using False by (simp add: unf fnd_def[symmetric] comp_post_def)
    next
      case (Ok l)
      show ?thesis
      proof (cases l)
        case (Some off)
        show ?thesis
        proof (cases "cp + 1 \<ge> eob")
          case True
          then show ?thesis using False Ok Some by (simp add: unf fnd_def[symmetric] comp_post_def)
        next
          case room: False
          then show ?thesis
            using False Ok Some ptr_write_safe[of base cp eob buf "word_of_nat (off div 256) OR INDIR_MASK"
                "word_of_nat (off mod 256)" "cp + 2 - base"] 1(2,3)
            by (auto simp: unf fnd_def[symmetric] comp_post_def)
        qed
      next
        case None
        have lab: "case comp_label eob r (cp + 1) buf of Fault \<Rightarrow> False | Err \<Rightarrow> True
            | Ok (r', cp', buf') \<Rightarrow> buf_frame base eob buf buf' \<and> cp + 1 \<le> cp' \<and> (cp + 1 < cp' \<longrightarrow> cp' \<le> eob)"
          using comp_label_safe[of base "cp + 1" eob buf r] 1(2,3) by simp
        show ?thesis
        proof (cases "comp_label eob r (cp + 1) buf")
          case okl: (Ok t)
          obtain r' cp' buf' where t: "t = (r', cp', buf')" by (metis prod_cases3)
          have fr: "buf_frame base eob buf buf'" "cp + 1 \<le> cp'" "cp + 1 < cp' \<Longrightarrow> cp' \<le> eob"
            using lab okl t by auto
          have len: "length buf' = length buf" using buf_frame_length[OF fr(1)] .
          define l where "l = cp' - cp - 1"
          consider (trail) "l = 0" "r' = []" | (bad) "l = 0 \<and> r' \<noteq> [] \<or> l > MAXLABEL"
            | (go) "\<not> (l = 0 \<or> l > MAXLABEL)" by blast
          then show ?thesis
          proof cases
            case trail
            have "comp_loop fuel base eob d r cp buf = (if cp \<ge> eob then (ptrs_reset d1, Err)
                else (d1, dn_bind (wr buf' cp 0) (\<lambda>b. Ok (cp + 1 - base, b))))"
              using False Ok None okl t trail
              by (simp add: unf fnd_def[symmetric] d1_def[symmetric] l_def Let_def)
            then show ?thesis
              using comp_post_trans[OF fr(1) comp_finish_safe[of base cp eob buf' d d1]] 1(2,3) len by simp
          next
            case bad
            then show ?thesis using False Ok None okl t
              by (auto simp: unf fnd_def[symmetric] d1_def[symmetric] l_def comp_post_def Let_def)
          next
            case go
            then have "cp + 1 < cp'" by (simp add: l_def)
            then have "cp < eob" using fr(3) by simp
            then obtain b where b: "wr buf' cp (word_of_nat l) = Ok b" "buf_frame base eob buf' b"
              using wr_frame[of base cp eob buf' "word_of_nat l"] 1(2,3) len by auto
            have "comp_loop fuel base eob d r cp buf = comp_loop fuel base eob d1 r' cp' b"
              using False Ok None okl t go b(1)
              by (simp add: unf fnd_def[symmetric] d1_def[symmetric] l_def Let_def)
            moreover have "comp_post base eob d1 b (snd (comp_loop fuel base eob d1 r' cp' b))"
              using 1(1)[rule_format, of r' cp' b d1] comp_label_length[of eob r "cp + 1" buf r' cp' buf']
                okl t False fr(2) 1(2,3) len buf_frame_length[OF b(2)] by simp
            moreover have "comp_post base eob d1 b res = comp_post base eob d b res" for res
              by (cases d) (auto simp: comp_post_def d1_def split: dn_res.splits)
            ultimately show ?thesis
              using comp_post_trans[OF buf_frame_trans[OF fr(1) b(2)]] by simp
          qed
        qed (use lab False Ok None in \<open>auto simp: unf fnd_def[symmetric] comp_post_def Let_def\<close>)
      qed
    qed
  qed
qed

text \<open>C26: compressing a name writes only inside the \<open>length\<close> bytes at \<open>comp_dn\<close>, and returns at
  most that size; without a list of earlier names it never accesses memory outside, whatever
  the name is.\<close>

theorem dn_comp_safe:
  assumes "comp_dn + sz \<le> length buf"
  shows "case snd (dn_comp fuel name buf comp_dn sz d) of
      Fault \<Rightarrow> d \<noteq> None
    | Err \<Rightarrow> True
    | Ok (n, buf') \<Rightarrow> n \<le> sz \<and> length buf' = length buf \<and>
        (\<forall>j. j < comp_dn \<or> comp_dn + sz \<le> j \<longrightarrow> buf' ! j = buf ! j)"
  using comp_loop_safe[of comp_dn comp_dn "comp_dn + sz" buf d fuel name] assms
  by (auto simp: dn_comp_def comp_post_def buf_frame_def split: dn_res.splits)

section \<open>Round trip\<close>

text \<open>A dotted name and the wire form of its labels.\<close>

fun join :: "u8 list list \<Rightarrow> u8 list" where
  "join [] = []"
| "join (l # ls) = (if ls = [] then l else l @ DOT # join ls)"

fun wire :: "u8 list list \<Rightarrow> u8 list" where
  "wire [] = [0]"
| "wire (l # ls) = word_of_nat (length l) # l @ wire ls"

definition label_ok :: "u8 list \<Rightarrow> bool" where
  "label_ok l \<longleftrightarrow> 1 \<le> length l \<and> length l \<le> MAXLABEL \<and> DOT \<notin> set l \<and> BSLASH \<notin> set l"

definition at :: "u8 list \<Rightarrow> nat \<Rightarrow> u8 list \<Rightarrow> bool" where
  "at buf i xs \<longleftrightarrow> i + length xs \<le> length buf \<and> (\<forall>k < length xs. buf ! (i + k) = xs ! k)"

lemma at_Cons: "at buf i (x # xs) \<longleftrightarrow> i < length buf \<and> buf ! i = x \<and> at buf (i + 1) xs"
  unfolding at_def
  by (auto simp: nth_Cons' less_Suc_eq_0_disj split: if_splits)

lemma at_Nil: "at buf i [] \<longleftrightarrow> i \<le> length buf"
  by (simp add: at_def)

lemma at_append: "at buf i (xs @ ys) \<longleftrightarrow> at buf i xs \<and> at buf (i + length xs) ys"
proof (induction xs arbitrary: i)
  case Nil
  then show ?case by (auto simp: at_def)
qed (simp add: at_Cons)

lemma at_frame: "at buf i xs \<Longrightarrow> buf_frame lo hi buf buf' \<Longrightarrow> i + length xs \<le> lo \<or> hi \<le> i \<Longrightarrow> at buf' i xs"
  unfolding at_def buf_frame_def by auto

lemma buf_frame_mono: "buf_frame lo hi a b \<Longrightarrow> lo' \<le> lo \<Longrightarrow> hi \<le> hi' \<Longrightarrow> buf_frame lo' hi' a b"
  by (auto simp: buf_frame_def)

lemma label_len_word:
  assumes "1 \<le> n" "n \<le> MAXLABEL"
  shows "unat (word_of_nat n :: u8) = n" "(word_of_nat n :: u8) \<noteq> 0" "(word_of_nat n :: u8) AND INDIR_MASK = 0"
proof -
  show u: "unat (word_of_nat n :: u8) = n" using assms by (simp add: unat_of_nat MAXLABEL_def)
  then show "(word_of_nat n :: u8) \<noteq> 0" using assms by auto
  have "unat (take_bit 6 (word_of_nat n :: u8)) = n"
    using u assms by (simp add: unsigned_take_bit_eq take_bit_nat_eq_self MAXLABEL_def)
  then have t: "take_bit 6 (word_of_nat n :: u8) = word_of_nat n" using u by (simp add: word_unat_eq_iff)
  have "INDIR_MASK = NOT (mask 6)" by (simp add: mask_eq_exp_minus_1)
  then have "take_bit 6 (word_of_nat n :: u8) AND INDIR_MASK = 0"
    by (simp only:) (auto simp: bit_eq_iff bit_simps)
  then show "(word_of_nat n :: u8) AND INDIR_MASK = 0" unfolding t .
qed

lemma comp_label_copy:
  assumes "DOT \<notin> set l" "BSLASH \<notin> set l" "cp + length l \<le> eob" "eob \<le> length buf"
    and "rest = [] \<or> (\<exists>r. rest = DOT # r)"
  shows "\<exists>buf'. comp_label eob (l @ rest) cp buf = Ok (tl rest, cp + length l, buf') \<and>
           at buf' cp l \<and> buf_frame cp (cp + length l) buf buf'"
  using assms(1-4)
proof (induction l arbitrary: cp buf)
  case Nil
  then show ?case using assms(5) by (auto simp: at_Nil)
next
  case (Cons c l)
  let ?b = "buf[cp := c]"
  obtain b' where b': "comp_label eob (l @ rest) (cp + 1) ?b = Ok (tl rest, cp + 1 + length l, b')"
      "at b' (cp + 1) l" "buf_frame (cp + 1) (cp + 1 + length l) ?b b'"
    using Cons.IH[of "cp + 1" ?b] Cons.prems by auto
  have "comp_label eob ((c # l) @ rest) cp buf = Ok (tl rest, cp + length (c # l), b')"
    using Cons.prems b'(1) by (simp add: wr_def)
  moreover have "b' ! cp = c" "length b' = length buf"
    using b'(3) Cons.prems by (auto simp: buf_frame_def)
  moreover have "buf_frame cp (cp + length (c # l)) buf b'"
    using b'(3) by (auto simp: buf_frame_def nth_list_update)
  ultimately show ?case using b'(2) Cons.prems by (auto simp: at_Cons)
qed

lemma comp_loop_wire:
  "list_all label_ok ls \<Longrightarrow> base \<le> cp \<Longrightarrow> cp + length (wire ls) \<le> eob \<Longrightarrow> eob \<le> length buf \<Longrightarrow>
   \<exists>buf'. comp_loop fuel base eob None (join ls) cp buf = (None, Ok (cp + length (wire ls) - base, buf')) \<and>
     at buf' cp (wire ls) \<and> buf_frame cp (cp + length (wire ls)) buf buf'"
proof (induction ls arbitrary: cp buf)
  case Nil
  then show ?case
    by (auto simp: comp_loop.simps[of _ _ _ _ "[]"] wr_def at_Cons at_Nil Let_def intro!: buf_frame_upd)
next
  case (Cons l ls)
  have l: "label_ok l" "list_all label_ok ls" using Cons.prems by auto
  let ?rest = "if ls = [] then [] else DOT # join ls"
  have jn: "join (l # ls) = l @ ?rest" "tl ?rest = join ls" by auto
  have ne: "join (l # ls) \<noteq> []" using l by (auto simp: label_ok_def)
  obtain b1 where b1: "comp_label eob (l @ ?rest) (cp + 1) buf = Ok (join ls, cp + 1 + length l, b1)"
      "at b1 (cp + 1) l" "buf_frame (cp + 1) (cp + 1 + length l) buf b1"
  proof -
    have "?rest = [] \<or> (\<exists>r. ?rest = DOT # r)" by simp
    then show thesis
      using comp_label_copy[of l "cp + 1" eob buf ?rest] l(1) Cons.prems(3,4) that
      unfolding jn(2) by (auto simp: label_ok_def)
  qed
  let ?len = "word_of_nat (length l) :: u8"
  let ?b2 = "b1[cp := ?len]"
  have len1: "length b1 = length buf" using buf_frame_length[OF b1(3)] .
  have wr: "wr b1 cp ?len = Ok ?b2" using Cons.prems len1 by (simp add: wr_def)
  have step: "comp_loop fuel base eob None (join (l # ls)) cp buf =
      comp_loop fuel base eob None (join ls) (cp + 1 + length l) ?b2"
    using ne b1(1) wr l(1) unfolding jn(1)
    by (subst comp_loop.simps) (auto simp: Let_def label_ok_def)
  obtain b3 where b3: "comp_loop fuel base eob None (join ls) (cp + 1 + length l) ?b2 =
        (None, Ok (cp + 1 + length l + length (wire ls) - base, b3))"
      "at b3 (cp + 1 + length l) (wire ls)"
      "buf_frame (cp + 1 + length l) (cp + 1 + length l + length (wire ls)) ?b2 b3"
    using Cons.IH[of "cp + 1 + length l" ?b2] l Cons.prems len1 by auto
  have "at ?b2 cp (?len # l)"
    using b1(2) Cons.prems len1 at_frame[OF b1(2) buf_frame_upd[of cp cp "cp + 1" b1 ?len]] by (auto simp: at_Cons)
  then have "at b3 cp (?len # l)" using at_frame[OF _ b3(3)] by simp
  then have "at b3 cp (wire (l # ls))" using b3(2) at_append[of b3 cp "?len # l" "wire ls"] by simp
  moreover have "buf_frame cp (cp + length (wire (l # ls))) buf b3"
    by (rule buf_frame_trans[OF buf_frame_mono[OF b1(3)]
          buf_frame_trans[OF buf_frame_upd[of cp cp "cp + length (wire (l # ls))" b1 ?len] buf_frame_mono[OF b3(3)]]]) auto
  ultimately show ?case using step b3(1) by auto
qed

lemma expand_label_copy:
  assumes "DOT \<notin> set l" "at msg cp l" "int (length dn) + int (length l) < sz"
  shows "expand_label (length l) msg sz cp dn = Ok (cp + length l, dn @ l)"
  using assms
proof (induction l arbitrary: cp dn)
  case (Cons c l)
  then show ?case using Cons.IH[of "cp + 1" "dn @ [c]"] by (simp add: at_Cons dn_put_ok)
qed simp

definition glue :: "u8 list \<Rightarrow> u8 list \<Rightarrow> u8 list" where
  "glue dn l = (if dn = [] then l else dn @ DOT # l)"

lemma expand_loop_wire:
  "list_all label_ok ls \<Longrightarrow> at msg cp (wire ls) \<Longrightarrow> start \<le> cp \<Longrightarrow>
   int (length (if ls = [] then dn else glue dn (join ls))) < sz \<Longrightarrow>
   expand_loop msg start sz cp dn None checked =
     Ok (cp + length (wire ls) - start, if ls = [] then dn else glue dn (join ls))"
proof (induction ls arbitrary: cp dn checked)
  case Nil
  then show ?case by (subst expand_loop.simps) (simp add: at_Cons at_Nil)
next
  case (Cons l ls)
  have l: "label_ok l" "list_all label_ok ls" using Cons.prems by auto
  let ?n = "word_of_nat (length l) :: u8"
  note w = label_len_word[of "length l"]
  have wl: "unat ?n = length l" "?n \<noteq> 0" "?n AND INDIR_MASK = 0" using w l by (auto simp: label_ok_def)
  have a: "cp < length msg" "msg ! cp = ?n" "at msg (cp + 1) l" "at msg (cp + 1 + length l) (wire ls)"
    using Cons.prems(2) by (auto simp: at_Cons at_append)
  define dn1 where "dn1 = (if dn = [] then dn else dn @ [DOT])"
  have g1: "dn1 @ l = glue dn l" by (simp add: dn1_def glue_def)
  have len: "length (glue dn l) \<le> length (glue dn (join (l # ls)))" by (auto simp: glue_def)
  have fit: "int (length dn1) + int (length l) < sz" using Cons.prems(4) len g1[symmetric] by simp
  have put: "(if dn \<noteq> [] then dn_put sz dn DOT else Ok dn) = Ok dn1" "\<not> (dn \<noteq> [] \<and> int (length dn) \<ge> sz)"
    using fit by (auto simp: dn1_def dn_put_def split: if_splits)
  have el: "expand_label (length l) msg sz (cp + 1) dn1 = Ok (cp + 1 + length l, glue dn l)"
    using expand_label_copy[of l msg "cp + 1" dn1 sz] l a fit g1 by (simp add: label_ok_def)
  have step: "expand_loop msg start sz cp dn None checked =
      expand_loop msg start sz (cp + 1 + length l) (glue dn l) None (checked + length l + 1)"
    using a wl put(2) fit el unfolding expand_loop.simps[of msg start sz cp] put(1)
    by (auto simp: Let_def)
  have gne: "glue dn l \<noteq> []" using l(1) by (auto simp: glue_def label_ok_def)
  have gg: "(if ls = [] then glue dn l else glue (glue dn l) (join ls)) = glue dn (join (l # ls))"
    using gne by (auto simp: glue_def)
  have "expand_loop msg start sz (cp + 1 + length l) (glue dn l) None (checked + length l + 1) =
      Ok (cp + 1 + length l + length (wire ls) - start, glue dn (join (l # ls)))"
    using Cons.IH[of "cp + 1 + length l" "glue dn l" "checked + length l + 1"] l a(4) Cons.prems(3,4) gg by simp
  then show ?case using step by simp
qed

lemma wire_length: "ls \<noteq> [] \<Longrightarrow> length (wire ls) = length (join ls) + 2"
  by (induction ls rule: join.induct) auto

text \<open>C21: a name of labels of 1 to 63 bytes without dots and backslashes, compressed without a
  list of earlier names, is expanded back to itself, with the same size in the message.\<close>

theorem dn_comp_expand_roundtrip:
  assumes "ls \<noteq> []" "list_all label_ok ls" "comp_dn + sz \<le> length buf" "length (join ls) + 2 \<le> sz"
    and "int (length (join ls)) < out"
  shows "\<exists>buf'. dn_comp fuel (join ls) buf comp_dn sz None = (None, Ok (length (join ls) + 2, buf')) \<and>
           dn_expand buf' comp_dn out = Ok (length (join ls) + 2, join ls)"
proof -
  have wl: "length (wire ls) = length (join ls) + 2" using wire_length[OF assms(1)] .
  obtain buf' where b: "comp_loop fuel comp_dn (comp_dn + sz) None (join ls) comp_dn buf =
      (None, Ok (comp_dn + length (wire ls) - comp_dn, buf'))" "at buf' comp_dn (wire ls)"
    using comp_loop_wire[OF assms(2), of comp_dn comp_dn "comp_dn + sz" buf fuel] assms(3,4) wl by auto
  have "expand_loop buf' comp_dn out comp_dn [] None 0 = Ok (comp_dn + length (wire ls) - comp_dn, join ls)"
    using expand_loop_wire[OF assms(2) b(2), of comp_dn "[]" out 0] assms(1,5) by (simp add: glue_def)
  then show ?thesis using b wl by (auto simp: dn_comp_def dn_expand_def)
qed


theorem dn_comp_expand_roundtrip_witness:
  "\<exists>buf'. dn_comp 0 [119, 119, 119, 46, 97, 98] (replicate 20 0) 4 16 None = (None, Ok (8, buf')) \<and>
     dn_expand buf' 4 16 = Ok (8, [119, 119, 119, 46, 97, 98])"
proof -
  let ?ls = "[[119, 119, 119], [97, 98]] :: u8 list list"
  have n: "length (join ?ls) + 2 = 8" and j: "join ?ls = [119, 119, 119, 46, 97, 98]" by simp_all
  have "\<exists>buf'. dn_comp 0 (join ?ls) (replicate 20 0) 4 16 None = (None, Ok (length (join ?ls) + 2, buf')) \<and>
     dn_expand buf' 4 16 = Ok (length (join ?ls) + 2, join ?ls)"
    by (rule dn_comp_expand_roundtrip) (simp_all add: label_ok_def MAXLABEL_def)
  then show ?thesis unfolding n unfolding j .
qed

theorem dn_comp_safe_witness:
  "case snd (dn_comp 0 [119, 46] (replicate 4 7) 1 2 None) of Fault \<Rightarrow> False | Err \<Rightarrow> True
     | Ok (n, buf') \<Rightarrow> n \<le> 2 \<and> length buf' = 4"
  using dn_comp_safe[where comp_dn = 1 and sz = 2 and buf = "replicate 4 7" and fuel = 0
      and name = "[119, 46]" and d = None]
  by (auto split: dn_res.splits)

text \<open>
  When \<open>dn_comp\<close> finds an earlier name but has no room for the pointer, it returns -1
  and leaves the entries it added to \<open>dnptrs\<close> behind, while its other failures remove them.\<close>

theorem dn_comp_ptrs_dangling:
  "dn_comp 5 [97, 46, 98] [1, 98, 0, 0, 0, 0, 0, 0] 3 3
      (Some \<lparr>dp_list = [0], dp_lpp = 1, dp_cap = Some 10\<rparr>)
    = (Some \<lparr>dp_list = [0, 3], dp_lpp = 1, dp_cap = Some 10\<rparr>, Err) \<and>
   dn_comp 5 [97, 46, 99] [1, 98, 0, 0, 0, 0, 0, 0] 3 3
      (Some \<lparr>dp_list = [0], dp_lpp = 1, dp_cap = Some 10\<rparr>)
    = (Some \<lparr>dp_list = [0], dp_lpp = 1, dp_cap = Some 10\<rparr>, Err)"
  by code_simp

section \<open>Integers in messages\<close>

text \<open>
  What the message builders rely on: a stored integer is read back, its neighbours are left
  alone, and reading looks only at its own bytes.
\<close>

locale be_codec =
  fixes put :: "'v \<Rightarrow> u8 list \<Rightarrow> nat \<Rightarrow> u8 list" and get :: "u8 list \<Rightarrow> nat \<Rightarrow> 'v" and w :: nat
  assumes get_put: "i + w \<le> length m \<Longrightarrow> get (put v m i) i = v"
    and put_frame: "buf_frame i (i + w) m (put v m i)"
    and get_cong: "(\<And>k. k < w \<Longrightarrow> m ! (i + k) = m' ! (i + k)) \<Longrightarrow> get m i = get m' i"
begin

lemma put_length [simp]: "length (put v m i) = length m"
  using buf_frame_length[OF put_frame] .

lemma get_other:
  assumes "buf_frame lo hi m m'" "i + w \<le> lo \<or> hi \<le> i"
  shows "get m' i = get m i"
  using assms by (intro get_cong) (auto simp: buf_frame_def)

lemma get_put_other: "i + w \<le> j \<or> j + w \<le> i \<Longrightarrow> get (put v m j) i = get m i"
  by (rule get_other[OF put_frame])

end

lemma ucast_halves_u16: "push_bit 8 (ucast (ucast (drop_bit 8 s) :: u8)) OR ucast (ucast s :: u8) = (s :: u16)"
  by (rule bit_word_eqI) (auto simp: bit_simps)

lemma ucast_bytes_u32:
  fixes l :: u32
  shows "push_bit 8 (push_bit 8 (push_bit 8 (ucast (ucast (drop_bit 8 (drop_bit 8 (drop_bit 8 l))) :: u8))
     OR ucast (ucast (drop_bit 8 (drop_bit 8 l)) :: u8)) OR ucast (ucast (drop_bit 8 l) :: u8)) OR ucast (ucast l :: u8) = l"
proof (rule bit_word_eqI)
  fix n
  assume n32: "n < LENGTH(32)"
  consider "n < 8" | "8 \<le> n" "n < 16" | "16 \<le> n" "n < 24" | "24 \<le> n" by linarith
  then show "bit (push_bit 8 (push_bit 8 (push_bit 8 (ucast (ucast (drop_bit 8 (drop_bit 8 (drop_bit 8 l))) :: u8))
     OR ucast (ucast (drop_bit 8 (drop_bit 8 l)) :: u8)) OR ucast (ucast (drop_bit 8 l) :: u8))
     OR ucast (ucast l :: u8) :: u32) n = bit l n"
    using n32 by cases (auto simp: bit_simps)
qed

interpretation sc: be_codec putshort getshort 2
proof unfold_locales
  show "getshort (putshort v m i) i = v" if "i + 2 \<le> length m" for i m v
    using that ucast_halves_u16[of v] by (simp add: getshort_def putshort_def)
  show "buf_frame i (i + 2) m (putshort v m i)" for i m v
    by (auto simp: buf_frame_def putshort_def nth_list_update)
  show "getshort m i = getshort m' i" if "\<And>k. k < 2 \<Longrightarrow> m ! (i + k) = m' ! (i + k)" for m m' i
    using that[of 0] that[of 1] by (simp add: getshort_def)
qed

interpretation lc: be_codec putlong getlong 4
proof unfold_locales
  show "getlong (putlong v m i) i = v" if "i + 4 \<le> length m" for i m v
    using that ucast_bytes_u32[of v] by (simp add: getlong_def putlong_def Let_def)
  show "buf_frame i (i + 4) m (putlong v m i)" for i m v
    by (auto simp: buf_frame_def putlong_def nth_list_update Let_def)
  show "getlong m i = getlong m' i" if "\<And>k. k < 4 \<Longrightarrow> m ! (i + k) = m' ! (i + k)" for m m' i
    using that[of 0] that[of 1] that[of 2] that[of 3] by (simp add: getlong_def Let_def)
qed

text \<open>
  The type, class and TTL a builder stores one after another in a message with
  \<open>__putshort\<close> and \<open>__putlong\<close> are what \<open>_getshort\<close> and \<open>_getlong\<close> read back.\<close>

theorem put_get_record:
  assumes "i + 8 \<le> length m"
  shows "getshort (putlong ttl (putshort cls (putshort typ m i) (i + 2)) (i + 4)) i = typ \<and>
         getshort (putlong ttl (putshort cls (putshort typ m i) (i + 2)) (i + 4)) (i + 2) = cls \<and>
         getlong (putlong ttl (putshort cls (putshort typ m i) (i + 2)) (i + 4)) (i + 4) = ttl"
  using assms
  by (simp add: sc.get_other[OF lc.put_frame] sc.get_put_other sc.get_put lc.get_put)

theorem put_get_record_witness:
  "getlong (putlong 300 (putshort 1 (putshort 28 (replicate 8 0) 0) 2) 4) 4 = 300"
  using put_get_record[of 0 "replicate 8 0" 300 1 28] unfolding add_0 by simp

end
