(* ===== verification/Dns_Cache.thy ===== *)
theory Dns_Cache
  imports Amitcp_Prelude
begin

text \<open>
  The resolver's answer cache (\<open>api/dns_cache.c\<close>): a fixed table of slots keyed by lowercased
  query name and record type, positive entries with a clamped TTL, negative entries, lazy
  expiry and replacement of the entry that expires soonest. The clock value and the outcome of
  each allocation are arguments. A name is a C string without its terminator.
\<close>

section \<open>The table\<close>

record dns_ent =
  de_name :: "u8 list option"
  de_response :: "u8 list option"
  de_resp_len :: nat
  de_type :: int
  de_negative :: bool
  de_expiry :: u32

text \<open>
  \<open>dns_tab\<close> is the list of its \<open>dns_tab_n\<close> slots; a table that could not be allocated has none.
\<close>

record dns_cache =
  dns_tab :: "dns_ent list"
  dns_ready :: bool

definition ent_empty :: dns_ent where
  "ent_empty = \<lparr>de_name = None, de_response = None, de_resp_len = 0, de_type = 0,
                de_negative = False, de_expiry = 0\<rparr>"

definition DNS_CACHE_TTL_MIN :: u32 where "DNS_CACHE_TTL_MIN = 30"
definition DNS_CACHE_TTL_MAX :: u32 where "DNS_CACHE_TTL_MAX = 3600"
definition DNS_CACHE_NEG_TTL :: u32 where "DNS_CACHE_NEG_TTL = 30"
definition DNS_CACHE_MAXRESP :: nat where "DNS_CACHE_MAXRESP = 1024"

definition lower :: "u8 \<Rightarrow> u8" where
  "lower c = (if 65 \<le> unat c \<and> unat c \<le> 90 then c + 32 else c)"

fun name_ieq :: "u8 list \<Rightarrow> u8 list \<Rightarrow> bool" where
  "name_ieq [] [] = True"
| "name_ieq (x # xs) (r # rs) = (x = lower r \<and> name_ieq xs rs)"
| "name_ieq _ _ = False"

text \<open>\<open>alloc\<close> is whether \<open>AllocVec\<close> succeeds.\<close>

definition name_dup_lc :: "bool \<Rightarrow> u8 list \<Rightarrow> u8 list option" where
  "name_dup_lc alloc s = (if alloc then Some (map lower s) else None)"

definition ent_clear :: "dns_ent \<Rightarrow> dns_ent" where
  "ent_clear e = e\<lparr>de_name := None, de_response := None, de_resp_len := 0, de_type := 0,
                   de_negative := False, de_expiry := 0\<rparr>"

text \<open>\<open>(LONG)(now - e->expiry) >= 0\<close>\<close>

definition ent_expired :: "u32 \<Rightarrow> dns_ent \<Rightarrow> bool" where
  "ent_expired now e \<longleftrightarrow> sint (now - de_expiry e) \<ge> 0"

text \<open>The loop of \<open>pick_slot\<close> from slot \<open>i\<close> on; the victim is its index and expiry.\<close>

fun pick_slot_loop :: "u32 \<Rightarrow> dns_ent list \<Rightarrow> nat \<Rightarrow> (nat \<times> u32) option \<Rightarrow> nat option" where
  "pick_slot_loop now [] i victim = map_option fst victim"
| "pick_slot_loop now (c # cs) i victim =
     (if de_name c = None then Some i
      else if ent_expired now c then Some i
      else pick_slot_loop now cs (Suc i)
        (case victim of
           None \<Rightarrow> Some (i, de_expiry c)
         | Some (j, x) \<Rightarrow> if sint (de_expiry c - x) < 0 then Some (i, de_expiry c) else Some (j, x)))"

definition pick_slot :: "u32 \<Rightarrow> dns_ent list \<Rightarrow> nat option" where
  "pick_slot now tab = pick_slot_loop now tab 0 None"

definition ent_matches :: "u8 list \<Rightarrow> int \<Rightarrow> dns_ent \<Rightarrow> bool" where
  "ent_matches name ty e =
     (case de_name e of None \<Rightarrow> False | Some lc \<Rightarrow> de_type e = ty \<and> name_ieq lc name)"

text \<open>The table after \<open>ent_find\<close> and the index of the entry it returns.\<close>

fun ent_find :: "dns_ent list \<Rightarrow> u8 list \<Rightarrow> int \<Rightarrow> u32 \<Rightarrow> dns_ent list \<times> nat option" where
  "ent_find [] name ty now = ([], None)"
| "ent_find (e # es) name ty now =
     (if ent_matches name ty e then
        (if ent_expired now e then (ent_clear e # es, None) else (e # es, Some 0))
      else (case ent_find es name ty now of (es', r) \<Rightarrow> (e # es', map_option Suc r)))"

section \<open>Operations\<close>

definition ng_dnscache_init :: "nat \<Rightarrow> bool \<Rightarrow> dns_cache \<Rightarrow> dns_cache" where
  "ng_dnscache_init cache_max alloc c =
     (if dns_ready c then c
      else c\<lparr>dns_tab := (if cache_max > 0 \<and> alloc then replicate cache_max ent_empty else []),
             dns_ready := True\<rparr>)"

definition ng_dnscache_flush :: "dns_cache \<Rightarrow> dns_cache" where
  "ng_dnscache_flush c =
     (if \<not> dns_ready c \<or> dns_tab c = [] then c else c\<lparr>dns_tab := map ent_clear (dns_tab c)\<rparr>)"

text \<open>
  A lookup: the table afterwards, \<open>*neg\<close>, and the copied response that is replayed through the
  answer parser (\<open>None\<close>: the null result).
\<close>

definition ng_dnscache_get ::
  "bool \<Rightarrow> u32 \<Rightarrow> dns_cache \<Rightarrow> u8 list option \<Rightarrow> int \<Rightarrow> dns_cache \<times> bool \<times> u8 list option" where
  "ng_dnscache_get alloc now c name ty =
     (case name of
        None \<Rightarrow> (c, False, None)
      | Some nm \<Rightarrow>
          if \<not> dns_ready c \<or> dns_tab c = [] \<or> \<not> alloc then (c, False, None)
          else (case ent_find (dns_tab c) nm ty now of
              (tab, None) \<Rightarrow> (c\<lparr>dns_tab := tab\<rparr>, False, None)
            | (tab, Some i) \<Rightarrow>
                let e = tab ! i in
                (c\<lparr>dns_tab := tab\<rparr>, de_negative e,
                 if de_negative e then None
                 else (case de_response e of
                     None \<Rightarrow> None
                   | Some r \<Rightarrow> if 0 < de_resp_len e \<and> de_resp_len e \<le> DNS_CACHE_MAXRESP
                              then Some (take (de_resp_len e) r) else None))))"

text \<open>The slot a store uses: the live entry for the key, else the one \<open>pick_slot\<close> gives.\<close>

definition put_slot :: "dns_ent list \<Rightarrow> u8 list \<Rightarrow> int \<Rightarrow> u32 \<Rightarrow> dns_ent list \<times> nat option" where
  "put_slot tab name ty now =
     (case ent_find tab name ty now of
        (tab', Some i) \<Rightarrow> (tab', Some i)
      | (tab', None) \<Rightarrow> (tab', pick_slot now tab'))"

definition clamp_ttl :: "u32 \<Rightarrow> u32" where
  "clamp_ttl min_ttl =
     (if min_ttl < DNS_CACHE_TTL_MIN then DNS_CACHE_TTL_MIN
      else if min_ttl > DNS_CACHE_TTL_MAX then DNS_CACHE_TTL_MAX else min_ttl)"

text \<open>A positive store; the response is the \<open>resp_len\<close> bytes given (\<open>None\<close>: a null pointer).\<close>

definition ng_dnscache_put ::
  "bool \<Rightarrow> bool \<Rightarrow> u32 \<Rightarrow> u8 list option \<Rightarrow> int \<Rightarrow> u8 list option \<Rightarrow> u32 \<Rightarrow> dns_cache \<Rightarrow> dns_cache" where
  "ng_dnscache_put alloc_name alloc_resp now name ty response min_ttl c =
     (case (name, response) of
        (Some nm, Some resp) \<Rightarrow>
          if \<not> dns_ready c \<or> dns_tab c = [] \<or> length resp = 0 \<or> length resp > DNS_CACHE_MAXRESP then c
          else (case name_dup_lc alloc_name nm of
              None \<Rightarrow> c
            | Some lc \<Rightarrow>
                if \<not> alloc_resp then c
                else (case put_slot (dns_tab c) nm ty now of
                    (tab, None) \<Rightarrow> c\<lparr>dns_tab := tab\<rparr>
                  | (tab, Some i) \<Rightarrow>
                      c\<lparr>dns_tab := tab[i := (ent_clear (tab ! i))\<lparr>de_name := Some lc,
                          de_response := Some resp, de_resp_len := length resp, de_type := ty,
                          de_expiry := now + clamp_ttl min_ttl\<rparr>]\<rparr>))
      | _ \<Rightarrow> c)"

definition ng_dnscache_put_negative ::
  "bool \<Rightarrow> u32 \<Rightarrow> u8 list option \<Rightarrow> int \<Rightarrow> dns_cache \<Rightarrow> dns_cache" where
  "ng_dnscache_put_negative alloc_name now name ty c =
     (case name of
        None \<Rightarrow> c
      | Some nm \<Rightarrow>
          if \<not> dns_ready c \<or> dns_tab c = [] then c
          else (case name_dup_lc alloc_name nm of
              None \<Rightarrow> c
            | Some lc \<Rightarrow>
                (case put_slot (dns_tab c) nm ty now of
                    (tab, None) \<Rightarrow> c\<lparr>dns_tab := tab\<rparr>
                  | (tab, Some i) \<Rightarrow>
                      c\<lparr>dns_tab := tab[i := (ent_clear (tab ! i))\<lparr>de_name := Some lc,
                          de_negative := True, de_type := ty,
                          de_expiry := now + DNS_CACHE_NEG_TTL\<rparr>]\<rparr>)))"

end
