(* ===== verification/Dns_Cache_Correct.thy ===== *)
theory Dns_Cache_Correct
  imports Dns_Cache
begin

text \<open>
  Correctness of the answer cache: the table invariant (every slot holds what its kind needs,
  no two slots share a key) and its preservation, the answer a lookup gives after each store,
  the behaviour over whole histories of operations (through the locale \<open>coherent_cache\<close>, the
  contract of a cache that may forget but never invents), and the choice of the slot to reuse.
\<close>

section \<open>Keys and answers\<close>

type_synonym dns_key = "u8 list \<times> int"

definition keyed :: "dns_key \<Rightarrow> dns_ent \<Rightarrow> bool" where
  "keyed k e \<longleftrightarrow> de_name e = Some (fst k) \<and> de_type e = snd k"

definition key_of :: "u8 list \<Rightarrow> int \<Rightarrow> dns_key" where
  "key_of name ty = (map lower name, ty)"

datatype dns_ans = NotFound | Answer "u8 list"

lemma name_ieq_lower: "name_ieq xs rs \<longleftrightarrow> xs = map lower rs"
  by (induction xs rs rule: name_ieq.induct) auto

lemma ent_matches_keyed: "ent_matches name ty e \<longleftrightarrow> keyed (key_of name ty) e"
  by (auto simp: ent_matches_def keyed_def key_of_def name_ieq_lower split: option.splits)

lemma keyed_clear [simp]: "\<not> keyed k (ent_clear e)"
  by (simp add: keyed_def ent_clear_def)

text \<open>Well-formed tables: an entry holds what its kind needs, and no two slots share a key.\<close>

definition ent_ok :: "dns_ent \<Rightarrow> bool" where
  "ent_ok e \<longleftrightarrow> de_name e = None \<or>
     (if de_negative e then de_response e = None
      else \<exists>r. de_response e = Some r \<and> de_resp_len e = length r \<and> r \<noteq> [] \<and>
               length r \<le> DNS_CACHE_MAXRESP)"

definition same_key :: "dns_ent \<Rightarrow> dns_ent \<Rightarrow> bool" where
  "same_key d e \<longleftrightarrow> de_name d \<noteq> None \<and> de_name d = de_name e \<and> de_type d = de_type e"

definition tab_uniq :: "dns_ent list \<Rightarrow> bool" where
  "tab_uniq tab \<longleftrightarrow> (\<forall>i < length tab. \<forall>j < length tab. same_key (tab ! i) (tab ! j) \<longrightarrow> i = j)"

definition dns_inv :: "dns_cache \<Rightarrow> bool" where
  "dns_inv c \<longleftrightarrow> list_all ent_ok (dns_tab c) \<and> tab_uniq (dns_tab c)"

definition ent_ans :: "dns_ent \<Rightarrow> dns_ans" where
  "ent_ans e = (if de_negative e then NotFound
                else Answer (case de_response e of Some r \<Rightarrow> r | None \<Rightarrow> []))"

text \<open>What a lookup at time \<open>t\<close> (with memory for its scratch buffer) answers.\<close>

definition look :: "u32 \<Rightarrow> dns_cache \<Rightarrow> dns_key \<Rightarrow> dns_ans option" where
  "look t c k =
     (case ng_dnscache_get True t c (Some (fst k)) (snd k) of
        (_, neg, r) \<Rightarrow> if neg then Some NotFound else map_option Answer r)"

definition norm_key :: "dns_key \<Rightarrow> dns_key" where
  "norm_key k = key_of (fst k) (snd k)"

lemma keyed_same: "keyed k d \<Longrightarrow> keyed k e \<longleftrightarrow> same_key d e"
  by (auto simp: keyed_def same_key_def)

lemma same_key_clear [simp]: "\<not> same_key (ent_clear d) e" "\<not> same_key d (ent_clear e)"
  by (auto simp: same_key_def ent_clear_def)

lemma same_key_sym: "same_key d e \<longleftrightarrow> same_key e d"
  by (auto simp: same_key_def)

section \<open>Searching\<close>

lemma ent_find_found:
  "ent_find tab name ty now = (tab', Some i) \<Longrightarrow>
   tab' = tab \<and> i < length tab \<and> keyed (key_of name ty) (tab ! i) \<and> \<not> ent_expired now (tab ! i)"
  by (induction tab arbitrary: i tab')
    (auto simp: ent_matches_keyed split: if_splits prod.splits)

lemma ent_find_length: "length (fst (ent_find tab name ty now)) = length tab"
  by (induction tab) (auto split: prod.splits)

lemma ent_find_nth:
  "i < length tab \<Longrightarrow>
   fst (ent_find tab name ty now) ! i = tab ! i \<or>
   fst (ent_find tab name ty now) ! i = ent_clear (tab ! i) \<and>
     keyed (key_of name ty) (tab ! i) \<and> ent_expired now (tab ! i)"
proof (induction tab arbitrary: i)
  case (Cons e es)
  show ?case
  proof (cases i)
    case 0
    then show ?thesis by (auto simp: ent_matches_keyed split: prod.splits)
  next
    case (Suc j)
    then show ?thesis using Cons.IH[of j] Cons.prems
      by (auto split: prod.splits)
  qed
qed simp

lemma tab_uniq_Cons:
  "tab_uniq (e # es) \<longleftrightarrow> tab_uniq es \<and> (\<forall>x \<in> set es. \<not> same_key e x)"
proof
  assume u: "tab_uniq (e # es)"
  then have "tab_uniq es" unfolding tab_uniq_def by (metis Suc_less_eq length_Cons nth_Cons_Suc nat.inject)
  moreover have "\<not> same_key e (es ! j)" if "j < length es" for j
    using u that unfolding tab_uniq_def by (metis Suc_less_eq length_Cons nth_Cons_0 nth_Cons_Suc zero_less_Suc nat.distinct(1))
  ultimately show "tab_uniq es \<and> (\<forall>x \<in> set es. \<not> same_key e x)" by (auto simp: in_set_conv_nth)
next
  assume u: "tab_uniq es \<and> (\<forall>x \<in> set es. \<not> same_key e x)"
  have "\<not> same_key (es ! j) e" if "j < length es" for j
    using u that by (simp add: same_key_sym[of _ e])
  then show "tab_uniq (e # es)"
    using u unfolding tab_uniq_def
    by (auto simp: less_Suc_eq_0_disj)
qed

lemma ent_find_none:
  "tab_uniq tab \<Longrightarrow> ent_find tab name ty now = (tab', None) \<Longrightarrow>
   (\<forall>e \<in> set tab'. \<not> keyed (key_of name ty) e) \<and>
   (\<forall>e \<in> set tab. keyed (key_of name ty) e \<longrightarrow> ent_expired now e)"
proof (induction tab arbitrary: tab')
  case Nil
  then show ?case by simp
next
  case (Cons e es)
  show ?case
  proof (cases "ent_matches name ty e")
    case True
    then have "\<forall>x \<in> set es. \<not> keyed (key_of name ty) x"
      using Cons.prems(1) keyed_same[of "key_of name ty" e] by (simp add: ent_matches_keyed tab_uniq_Cons)
    then show ?thesis using Cons.prems True
      by (auto simp: ent_matches_keyed split: if_splits)
  next
    case False
    then show ?thesis using Cons
      by (auto simp: ent_matches_keyed tab_uniq_Cons split: prod.splits)
  qed
qed

lemma ent_find_inv:
  assumes "list_all ent_ok tab" "tab_uniq tab"
  shows "list_all ent_ok (fst (ent_find tab name ty now))" "tab_uniq (fst (ent_find tab name ty now))"
proof -
  let ?t = "fst (ent_find tab name ty now)"
  have n: "?t ! i = tab ! i \<or> ?t ! i = ent_clear (tab ! i)" if "i < length tab" for i
    using ent_find_nth[OF that] by blast
  show "list_all ent_ok ?t"
    unfolding list_all_length ent_find_length
  proof (intro allI impI)
    fix i assume i: "i < length tab"
    then have "ent_ok (tab ! i)" using assms(1) by (simp add: list_all_length)
    then show "ent_ok (?t ! i)" using n[OF i] by (auto simp: ent_ok_def ent_clear_def)
  qed
  show "tab_uniq ?t"
    using assms(2) n unfolding tab_uniq_def ent_find_length by (metis same_key_clear)
qed

lemma pick_slot_loop_bound:
  "(\<And>j x. v = Some (j, x) \<Longrightarrow> j < i) \<Longrightarrow> pick_slot_loop now es i v = Some n \<Longrightarrow> n < i + length es"
proof (induction es arbitrary: i v)
  case Nil
  then show ?case by auto
next
  case (Cons c cs)
  let ?v = "case v of None \<Rightarrow> Some (i, de_expiry c)
    | Some (j, x) \<Rightarrow> if sint (de_expiry c - x) < 0 then Some (i, de_expiry c) else Some (j, x)"
  have "j < Suc i" if "?v = Some (j, x)" for j x
    using that Cons.prems(1) by (fastforce split: option.splits if_splits)
  from Cons.IH[OF this] Cons.prems(2) show ?case by (auto split: if_splits)
qed

lemma pick_slot_some:
  "es \<noteq> [] \<or> v \<noteq> None \<Longrightarrow> pick_slot_loop now es i v \<noteq> None"
  by (induction es arbitrary: i v) (auto split: option.splits)

lemma pick_slot_bound: "tab \<noteq> [] \<Longrightarrow> \<exists>n < length tab. pick_slot now tab = Some n"
  using pick_slot_some[of tab None now 0] pick_slot_loop_bound[of None 0 now tab]
  by (auto simp: pick_slot_def)

lemma put_slot_spec:
  assumes "tab_uniq tab" "tab \<noteq> []"
  obtains tab' i where "put_slot tab name ty now = (tab', Some i)" "i < length tab'"
    "tab' = fst (ent_find tab name ty now)"
    "\<And>j. j < length tab' \<Longrightarrow> j \<noteq> i \<Longrightarrow> \<not> keyed (key_of name ty) (tab' ! j)"
proof -
  obtain tab' r where f: "ent_find tab name ty now = (tab', r)" by force
  have len: "length tab' = length tab" using ent_find_length[of tab name ty now] f by simp
  show thesis
  proof (cases r)
    case (Some i)
    then have "tab' = tab" "i < length tab" "keyed (key_of name ty) (tab ! i)"
      using ent_find_found f by auto
    moreover have "\<not> keyed (key_of name ty) (tab ! j)" if "j < length tab" "j \<noteq> i" for j
      using that calculation assms(1) keyed_same[of "key_of name ty" "tab ! i" "tab ! j"]
      unfolding tab_uniq_def by metis
    ultimately show thesis using that[of tab' i] f Some by (simp add: put_slot_def)
  next
    case None
    then have no: "\<forall>e \<in> set tab'. \<not> keyed (key_of name ty) e"
      using ent_find_none[OF assms(1)] f by simp
    obtain i where i: "i < length tab'" "pick_slot now tab' = Some i"
    proof -
      have "tab' \<noteq> []" using assms(2) len by auto
      then show thesis using pick_slot_bound[of tab' now] that by blast
    qed
    show thesis
    proof (rule that[of tab' i])
      show "put_slot tab name ty now = (tab', Some i)" using f None i(2) by (simp add: put_slot_def)
    qed (use f i(1) no in auto)
  qed
qed

section \<open>Storing one entry\<close>

text \<open>The table after a store, as an update of one slot with a new entry for the key.\<close>

lemma tab_update_inv:
  assumes "list_all ent_ok tab" "tab_uniq tab" "ent_ok e" "keyed k e"
    and "\<And>j. j < length tab \<Longrightarrow> j \<noteq> i \<Longrightarrow> \<not> keyed k (tab ! j)"
  shows "list_all ent_ok (tab[i := e])" "tab_uniq (tab[i := e])"
proof -
  show "list_all ent_ok (tab[i := e])"
    using assms(1,3) by (auto simp: list_all_length) (metis nth_list_update_eq nth_list_update_neq)
  have "\<not> same_key e (tab ! j)" "\<not> same_key (tab ! j) e" if "j < length tab" "j \<noteq> i" for j
    using assms(5)[OF that] keyed_same[OF assms(4)] same_key_sym by blast+
  then show "tab_uniq (tab[i := e])"
    using assms(2) unfolding tab_uniq_def length_list_update
    by (metis nth_list_update_eq nth_list_update_neq)
qed

text \<open>The answer of a lookup, in a well-formed table.\<close>

lemma look_iff:
  assumes "dns_inv c" "dns_ready c"
  shows "look t c k = Some v \<longleftrightarrow>
    (\<exists>e \<in> set (dns_tab c). keyed (norm_key k) e \<and> \<not> ent_expired t e \<and> ent_ans e = v)"
proof (cases "dns_tab c = []")
  case True
  then show ?thesis by (simp add: look_def ng_dnscache_get_def)
next
  case False
  have u: "tab_uniq (dns_tab c)" and okl: "list_all ent_ok (dns_tab c)" using assms(1) by (auto simp: dns_inv_def)
  obtain tab r where f: "ent_find (dns_tab c) (fst k) (snd k) t = (tab, r)" by force
  show ?thesis
  proof (cases r)
    case None
    then have "look t c k = None"
      using f False assms(2) by (simp add: look_def ng_dnscache_get_def)
    moreover have "\<forall>e \<in> set (dns_tab c). keyed (norm_key k) e \<longrightarrow> ent_expired t e"
      using ent_find_none[OF u] f None by (simp add: norm_key_def)
    ultimately show ?thesis by auto
  next
    case (Some i)
    let ?e = "dns_tab c ! i"
    have i: "tab = dns_tab c" "i < length (dns_tab c)" "keyed (norm_key k) ?e" "\<not> ent_expired t ?e"
      using ent_find_found f Some by (auto simp: norm_key_def)
    have ok: "ent_ok ?e" using okl i(2) by (simp add: list_all_length)
    have "look t c k = Some (ent_ans ?e)"
      using f Some False assms(2) i ok
      by (auto simp: look_def ng_dnscache_get_def ent_ok_def ent_ans_def keyed_def Let_def split: if_splits)
    moreover have "e = ?e" if "e \<in> set (dns_tab c)" "keyed (norm_key k) e" for e
      using u that i keyed_same[OF i(3), of e] unfolding tab_uniq_def by (metis in_set_conv_nth)
    ultimately show ?thesis using i by (metis nth_mem option.inject)
  qed
qed


section \<open>What each operation does to later lookups\<close>

text \<open>A step forgets entries, or stores one: the table afterwards, entry by entry.\<close>

lemma look_subset:
  assumes "dns_inv c" "dns_ready c" "dns_inv c'" "dns_ready c'"
    and "\<And>e. e \<in> set (dns_tab c') \<Longrightarrow> de_name e \<noteq> None \<Longrightarrow> e \<in> set (dns_tab c)"
  shows "look t c' k = None \<or> look t c' k = look t c k"
proof (cases "look t c' k")
  case (Some v)
  then obtain e where "e \<in> set (dns_tab c')" "keyed (norm_key k) e" "\<not> ent_expired t e" "ent_ans e = v"
    using look_iff[OF assms(3,4)] by blast
  moreover from this have "e \<in> set (dns_tab c)" using assms(5) by (auto simp: keyed_def)
  ultimately have "look t c k = Some v" using look_iff[OF assms(1,2)] by blast
  then show ?thesis using Some by simp
qed simp

lemma ent_find_subset:
  "e \<in> set (fst (ent_find tab name ty now)) \<Longrightarrow> de_name e \<noteq> None \<Longrightarrow> e \<in> set tab"
  using ent_find_nth[of _ tab name ty now] ent_find_length[of tab name ty now]
  by (fastforce simp: in_set_conv_nth ent_clear_def)

text \<open>Both stores are this update.\<close>

definition stored :: "dns_cache \<Rightarrow> dns_cache \<Rightarrow> dns_key \<Rightarrow> dns_ent \<Rightarrow> bool" where
  "stored c c' k e \<longleftrightarrow> (\<exists>tab i. i < length tab \<and> (\<exists>name ty now. tab = fst (ent_find (dns_tab c) name ty now)) \<and>
     (\<forall>j < length tab. j \<noteq> i \<longrightarrow> \<not> keyed k (tab ! j)) \<and>
     c' = c\<lparr>dns_tab := tab[i := e]\<rparr> \<and> keyed k e \<and> ent_ok e)"

lemma stored_inv:
  assumes "dns_inv c" "stored c c' k e"
  shows "dns_inv c'" "dns_ready c' = dns_ready c"
proof -
  obtain tab i name ty now where s: "i < length tab" "tab = fst (ent_find (dns_tab c) name ty now)"
    "\<forall>j < length tab. j \<noteq> i \<longrightarrow> \<not> keyed k (tab ! j)" "c' = c\<lparr>dns_tab := tab[i := e]\<rparr>" "keyed k e" "ent_ok e"
    using assms(2) unfolding stored_def by blast
  have "list_all ent_ok tab" "tab_uniq tab"
    using ent_find_inv assms(1) unfolding s(2) dns_inv_def by auto
  from tab_update_inv[OF this s(6,5)] s(3,4) show "dns_inv c'" by (simp add: dns_inv_def)
  show "dns_ready c' = dns_ready c" using s(4) by simp
qed

lemma stored_members:
  assumes "stored c c' k e" "x \<in> set (dns_tab c')" "de_name x \<noteq> None"
  shows "x = e \<or> x \<in> set (dns_tab c) \<and> \<not> keyed k x"
proof -
  obtain tab i name ty now where s: "i < length tab" "tab = fst (ent_find (dns_tab c) name ty now)"
    "\<forall>j < length tab. j \<noteq> i \<longrightarrow> \<not> keyed k (tab ! j)" "c' = c\<lparr>dns_tab := tab[i := e]\<rparr>"
    using assms(1) unfolding stored_def by blast
  obtain j where j: "j < length tab" "x = tab[i := e] ! j"
    using assms(2) s(4) by (auto simp: in_set_conv_nth)
  show ?thesis
  proof (cases "j = i")
    case True
    then show ?thesis using j s(1) by simp
  next
    case False
    then have "x = tab ! j" "\<not> keyed k x" using j s(3) by auto
    then show ?thesis using ent_find_subset[of x "dns_tab c" name ty now] s(2) j(1) assms(3) by auto
  qed
qed

lemma stored_look:
  assumes "dns_inv c" "dns_ready c" "stored c c' k e"
  shows "look t c' k' = (if norm_key k' = k then (if ent_expired t e then None else Some (ent_ans e)) else look t c' k')"
    and "norm_key k' \<noteq> k \<Longrightarrow> look t c' k' = None \<or> look t c' k' = look t c k'"
proof -
  have inv': "dns_inv c'" "dns_ready c'" using stored_inv[OF assms(1,3)] assms(2) by auto
  have e: "keyed k e" "e \<in> set (dns_tab c')"
    using assms(3) unfolding stored_def by (auto intro: set_update_memI)
  have only: "x = e" if "x \<in> set (dns_tab c')" "keyed k x" for x
    using stored_members[OF assms(3) that(1)] that(2) by (auto simp: keyed_def)
  show "look t c' k' = (if norm_key k' = k then (if ent_expired t e then None else Some (ent_ans e)) else look t c' k')"
  proof (cases "norm_key k' = k")
    case True
    have "look t c' k' = Some v \<longleftrightarrow> \<not> ent_expired t e \<and> ent_ans e = v" for v
      unfolding look_iff[OF inv'] True using e only by blast
    then show ?thesis using True by (cases "look t c' k'") auto
  qed simp
  assume nk: "norm_key k' \<noteq> k"
  show "look t c' k' = None \<or> look t c' k' = look t c k'"
  proof (cases "look t c' k'")
    case (Some v)
    then obtain x where x: "x \<in> set (dns_tab c')" "keyed (norm_key k') x" "\<not> ent_expired t x" "ent_ans x = v"
      using look_iff[OF inv'] by blast
    have "x \<noteq> e" using x(2) e(1) nk by (auto simp: keyed_def prod_eq_iff)
    then have "x \<in> set (dns_tab c)" using stored_members[OF assms(3) x(1)] x(2) by (auto simp: keyed_def)
    then have "look t c k' = Some v" using look_iff[OF assms(1,2)] x by blast
    then show ?thesis using Some by simp
  qed simp
qed

text \<open>When the two stores store.\<close>

definition put_entry :: "u32 \<Rightarrow> u8 list \<Rightarrow> int \<Rightarrow> u8 list \<Rightarrow> u32 \<Rightarrow> dns_ent" where
  "put_entry now name ty resp min_ttl = \<lparr>de_name = Some (map lower name), de_response = Some resp,
     de_resp_len = length resp, de_type = ty, de_negative = False, de_expiry = now + clamp_ttl min_ttl\<rparr>"

definition put_neg_entry :: "u32 \<Rightarrow> u8 list \<Rightarrow> int \<Rightarrow> dns_ent" where
  "put_neg_entry now name ty = \<lparr>de_name = Some (map lower name), de_response = None,
     de_resp_len = 0, de_type = ty, de_negative = True, de_expiry = now + DNS_CACHE_NEG_TTL\<rparr>"

lemma put_stored:
  assumes "dns_inv c" "dns_ready c" "dns_tab c \<noteq> []" "resp \<noteq> []" "length resp \<le> DNS_CACHE_MAXRESP"
  shows "stored c (ng_dnscache_put True True now (Some name) ty (Some resp) min_ttl c)
           (key_of name ty) (put_entry now name ty resp min_ttl)"
proof -
  have u: "tab_uniq (dns_tab c)" using assms(1) by (simp add: dns_inv_def)
  obtain tab i where p: "put_slot (dns_tab c) name ty now = (tab, Some i)" "i < length tab"
    "tab = fst (ent_find (dns_tab c) name ty now)"
    "\<And>j. j < length tab \<Longrightarrow> j \<noteq> i \<Longrightarrow> \<not> keyed (key_of name ty) (tab ! j)"
    using put_slot_spec[OF u assms(3), of name ty now] by blast
  have "ng_dnscache_put True True now (Some name) ty (Some resp) min_ttl c =
      c\<lparr>dns_tab := tab[i := put_entry now name ty resp min_ttl]\<rparr>"
    using p(1) assms by (cases "tab ! i") (simp add: ng_dnscache_put_def name_dup_lc_def put_entry_def ent_clear_def)
  moreover have "keyed (key_of name ty) (put_entry now name ty resp min_ttl)"
    "ent_ok (put_entry now name ty resp min_ttl)"
    using assms(4,5) by (simp_all add: keyed_def key_of_def put_entry_def ent_ok_def)
  ultimately show ?thesis unfolding stored_def using p by blast
qed

lemma put_negative_stored:
  assumes "dns_inv c" "dns_ready c" "dns_tab c \<noteq> []"
  shows "stored c (ng_dnscache_put_negative True now (Some name) ty c) (key_of name ty) (put_neg_entry now name ty)"
proof -
  have u: "tab_uniq (dns_tab c)" using assms(1) by (simp add: dns_inv_def)
  obtain tab i where p: "put_slot (dns_tab c) name ty now = (tab, Some i)" "i < length tab"
    "tab = fst (ent_find (dns_tab c) name ty now)"
    "\<And>j. j < length tab \<Longrightarrow> j \<noteq> i \<Longrightarrow> \<not> keyed (key_of name ty) (tab ! j)"
    using put_slot_spec[OF u assms(3), of name ty now] by blast
  have "ng_dnscache_put_negative True now (Some name) ty c =
      c\<lparr>dns_tab := tab[i := put_neg_entry now name ty]\<rparr>"
    using p(1) assms by (cases "tab ! i") (simp add: ng_dnscache_put_negative_def name_dup_lc_def put_neg_entry_def ent_clear_def)
  moreover have "keyed (key_of name ty) (put_neg_entry now name ty)" "ent_ok (put_neg_entry now name ty)"
    by (simp_all add: keyed_def key_of_def put_neg_entry_def ent_ok_def)
  ultimately show ?thesis unfolding stored_def using p by blast
qed


section \<open>Expiry\<close>

lemma clamp_ttl_range: "30 \<le> unat (clamp_ttl x)" "unat (clamp_ttl x) \<le> 3600"
  by (auto simp: clamp_ttl_def DNS_CACHE_TTL_MIN_def DNS_CACHE_TTL_MAX_def word_less_nat_alt)

lemma expired_iff:
  assumes "unat ttl < 2 ^ 31" "unat (t - now) < 2 ^ 31" "de_expiry e = now + ttl"
  shows "ent_expired t e \<longleftrightarrow> unat ttl \<le> unat (t - now)"
proof -
  have "t - (now + ttl) = (t - now) - ttl" by simp
  then have "sint (t - de_expiry e) = int (unat (t - now)) - int (unat ttl)"
    unfolding assms(3) using sint_diff_small[OF assms(2,1)] by (simp only:)
  then show ?thesis by (simp add: ent_expired_def del: of_nat_unat)
qed

text \<open>
  In a well-formed, initialised cache with at least one slot, when the allocations
  succeed, storing a response of 1 to 1024 bytes for a name and type makes a later lookup of the
  same name in any letter case and the same type return exactly those bytes, up to the clamped
  TTL (30 to 3600 seconds) after the store, and nothing from then on; this holds however full
  the table is and across a wrap of the 32-bit clock (for lookups within \<open>2 ^ 31\<close> seconds).\<close>

theorem dns_cache_put_get:
  assumes "dns_inv c" "dns_ready c" "dns_tab c \<noteq> []" "resp \<noteq> []" "length resp \<le> DNS_CACHE_MAXRESP"
    and "map lower name' = map lower name" "unat (t - now) < 2 ^ 31"
  shows "snd (ng_dnscache_get True t
            (ng_dnscache_put True True now (Some name) ty (Some resp) min_ttl c) (Some name') ty) =
         (False, if unat (t - now) < unat (clamp_ttl min_ttl) then Some resp else None)"
proof -
  let ?c' = "ng_dnscache_put True True now (Some name) ty (Some resp) min_ttl c"
  let ?e = "put_entry now name ty resp min_ttl"
  have "norm_key (name', ty) = key_of name ty" using assms(6) by (simp add: norm_key_def key_of_def)
  moreover have a: "ent_ans ?e = Answer resp" by (simp add: ent_ans_def put_entry_def)
  ultimately have l: "look t ?c' (name', ty) = (if ent_expired t ?e then None else Some (Answer resp))"
    using stored_look(1)[OF assms(1,2) put_stored[OF assms(1-5), of now name ty min_ttl],
        where t = t and k' = "(name', ty)"] a
    by simp
  have "ent_expired t ?e \<longleftrightarrow> unat (clamp_ttl min_ttl) \<le> unat (t - now)"
    using clamp_ttl_range[of min_ttl] assms(7) by (intro expired_iff) (auto simp: put_entry_def)
  then show ?thesis
    using l by (auto simp: look_def split: prod.splits if_splits)
qed

text \<open>
  A negative store makes a later lookup of the same name in any letter case and the same
  type report the negative answer, with no response, for exactly the 30 seconds of
  \<open>DNS_CACHE_NEG_TTL\<close>; afterwards the lookup reports a miss.\<close>

theorem dns_cache_put_negative_get:
  assumes "dns_inv c" "dns_ready c" "dns_tab c \<noteq> []"
    and "map lower name' = map lower name" "unat (t - now) < 2 ^ 31"
  shows "snd (ng_dnscache_get True t (ng_dnscache_put_negative True now (Some name) ty c) (Some name') ty) =
         (unat (t - now) < 30, None)"
proof -
  let ?c' = "ng_dnscache_put_negative True now (Some name) ty c"
  let ?e = "put_neg_entry now name ty"
  have "norm_key (name', ty) = key_of name ty" using assms(4) by (simp add: norm_key_def key_of_def)
  moreover have a: "ent_ans ?e = NotFound" by (simp add: ent_ans_def put_neg_entry_def)
  ultimately have l: "look t ?c' (name', ty) = (if ent_expired t ?e then None else Some NotFound)"
    using stored_look(1)[OF assms(1,2) put_negative_stored[OF assms(1-3), of now name ty],
        where t = t and k' = "(name', ty)"] a
    by simp
  have "ent_expired t ?e \<longleftrightarrow> unat DNS_CACHE_NEG_TTL \<le> unat (t - now)"
    using assms(5) by (intro expired_iff) (auto simp: put_neg_entry_def DNS_CACHE_NEG_TTL_def)
  then have "ent_expired t ?e \<longleftrightarrow> \<not> unat (t - now) < 30" by (auto simp: DNS_CACHE_NEG_TTL_def)
  moreover obtain cc neg r where g: "ng_dnscache_get True t ?c' (Some name') ty = (cc, neg, r)"
    by (metis prod_cases3)
  moreover have "neg \<Longrightarrow> r = None"
    using g by (auto simp: ng_dnscache_get_def Let_def split: if_splits prod.splits option.splits)
  ultimately show ?thesis
    using l by (auto simp: look_def split: if_splits)
qed

section \<open>Histories\<close>

text \<open>
  The contract of a cache whose answers may be forgotten at any time but never invented: a
  step keeps what a lookup answers, replaces it by what it writes, or drops it.
\<close>

datatype 'v cache_effect = Keep | Write 'v | Drop

primrec latest :: "('op \<Rightarrow> 'k \<Rightarrow> 'v cache_effect) \<Rightarrow> 'k \<Rightarrow> 'v option \<Rightarrow> 'op list \<Rightarrow> 'v option" where
  "latest eff k v [] = v"
| "latest eff k v (op # ops) =
     latest eff k (case eff op k of Keep \<Rightarrow> v | Write w \<Rightarrow> Some w | Drop \<Rightarrow> None) ops"

locale coherent_cache =
  fixes inv :: "'s \<Rightarrow> bool" and step :: "'op \<Rightarrow> 's \<Rightarrow> 's"
    and lookup :: "'s \<Rightarrow> 'k \<Rightarrow> 'v option" and eff :: "'op \<Rightarrow> 'k \<Rightarrow> 'v cache_effect"
  assumes inv_step: "inv s \<Longrightarrow> inv (step op s)"
    and keep_step: "inv s \<Longrightarrow> eff op k = Keep \<Longrightarrow>
      lookup (step op s) k = None \<or> lookup (step op s) k = lookup s k"
    and write_step: "inv s \<Longrightarrow> eff op k = Write v \<Longrightarrow>
      lookup (step op s) k = None \<or> lookup (step op s) k = Some v"
    and drop_step: "inv s \<Longrightarrow> eff op k = Drop \<Longrightarrow> lookup (step op s) k = None"
begin

lemma inv_run: "inv s \<Longrightarrow> inv (fold step ops s)"
  by (induction ops arbitrary: s) (simp_all add: inv_step)

lemma run_lookup:
  "inv s \<Longrightarrow> lookup s k = None \<or> lookup s k = v \<Longrightarrow>
   lookup (fold step ops s) k = None \<or> lookup (fold step ops s) k = latest eff k v ops"
proof (induction ops arbitrary: s v)
  case (Cons op ops)
  have "lookup (step op s) k = None \<or>
      lookup (step op s) k = (case eff op k of Keep \<Rightarrow> v | Write w \<Rightarrow> Some w | Drop \<Rightarrow> None)"
    using keep_step[OF Cons.prems(1), of op k] write_step[OF Cons.prems(1), of op k]
      drop_step[OF Cons.prems(1), of op k] Cons.prems(2)
    by (cases "eff op k") auto
  then show ?case using Cons.IH inv_step[OF Cons.prems(1)] by simp
qed simp

end

datatype dns_op =
    Op_Put bool bool u32 "u8 list option" int "u8 list option" u32
  | Op_Put_Negative bool u32 "u8 list option" int
  | Op_Get bool u32 "u8 list option" int
  | Op_Flush

fun dns_step :: "dns_op \<Rightarrow> dns_cache \<Rightarrow> dns_cache" where
  "dns_step (Op_Put an ar now name ty resp ttl) c = ng_dnscache_put an ar now name ty resp ttl c"
| "dns_step (Op_Put_Negative an now name ty) c = ng_dnscache_put_negative an now name ty c"
| "dns_step (Op_Get al now name ty) c = fst (ng_dnscache_get al now c name ty)"
| "dns_step Op_Flush c = ng_dnscache_flush c"

fun dns_eff :: "dns_op \<Rightarrow> dns_key \<Rightarrow> dns_ans cache_effect" where
  "dns_eff (Op_Put an ar now (Some name) ty (Some resp) ttl) k =
     (if an \<and> ar \<and> resp \<noteq> [] \<and> length resp \<le> DNS_CACHE_MAXRESP \<and> norm_key k = key_of name ty
      then Write (Answer resp) else Keep)"
| "dns_eff (Op_Put_Negative an now (Some name) ty) k =
     (if an \<and> norm_key k = key_of name ty then Write NotFound else Keep)"
| "dns_eff Op_Flush k = Drop"
| "dns_eff _ k = Keep"

definition cache_ok :: "dns_cache \<Rightarrow> bool" where
  "cache_ok c \<longleftrightarrow> dns_inv c \<and> dns_ready c"

lemma put_noop:
  "\<not> (an \<and> ar \<and> dns_tab c \<noteq> [] \<and> resp \<noteq> [] \<and> length resp \<le> DNS_CACHE_MAXRESP) \<Longrightarrow>
   ng_dnscache_put an ar now (Some name) ty (Some resp) ttl c = c"
  by (auto simp: ng_dnscache_put_def name_dup_lc_def)

lemma put_negative_noop:
  "\<not> (an \<and> dns_tab c \<noteq> []) \<Longrightarrow> ng_dnscache_put_negative an now (Some name) ty c = c"
  by (auto simp: ng_dnscache_put_negative_def name_dup_lc_def)

lemma get_state:
  "fst (ng_dnscache_get al now c name ty) = c \<or>
   (\<exists>nm. fst (ng_dnscache_get al now c name ty) = c\<lparr>dns_tab := fst (ent_find (dns_tab c) nm ty now)\<rparr>)"
proof (cases name)
  case (Some nm)
  obtain tab r where "ent_find (dns_tab c) nm ty now = (tab, r)" by force
  then have "fst (ng_dnscache_get al now c name ty) = c \<or>
      fst (ng_dnscache_get al now c name ty) = c\<lparr>dns_tab := fst (ent_find (dns_tab c) nm ty now)\<rparr>"
    using Some by (cases r) (simp_all add: ng_dnscache_get_def Let_def)
  then show ?thesis by blast
qed (simp add: ng_dnscache_get_def)

lemma look_empty: "dns_tab c = [] \<Longrightarrow> look t c k = None"
  by (simp add: look_def ng_dnscache_get_def)

lemma dns_step_cases:
  assumes "cache_ok c"
  obtains (store) k e where "stored c (dns_step op c) k e"
      "\<And>k'. norm_key k' = k \<Longrightarrow> dns_eff op k' = Write (ent_ans e)" "\<And>k'. norm_key k' \<noteq> k \<Longrightarrow> dns_eff op k' = Keep"
    | (forget) "cache_ok (dns_step op c)" "op \<noteq> Op_Flush"
      "\<And>x. x \<in> set (dns_tab (dns_step op c)) \<Longrightarrow> de_name x \<noteq> None \<Longrightarrow> x \<in> set (dns_tab c)"
      "\<And>k'. dns_eff op k' = Keep \<or> dns_tab (dns_step op c) = []"
    | (flush) "op = Op_Flush"
proof -
  have inv: "dns_inv c" "dns_ready c" using assms by (auto simp: cache_ok_def)
  show thesis
  proof (cases op)
    case (Op_Put an ar now name ty resp ttl)
    show thesis
    proof (cases "\<exists>nm rs. name = Some nm \<and> resp = Some rs \<and>
        an \<and> ar \<and> dns_tab c \<noteq> [] \<and> rs \<noteq> [] \<and> length rs \<le> DNS_CACHE_MAXRESP")
      case True
      then obtain nm rs where *: "name = Some nm" "resp = Some rs" "an" "ar" "dns_tab c \<noteq> []" "rs \<noteq> []"
        "length rs \<le> DNS_CACHE_MAXRESP" by blast
      show thesis
        using put_stored[OF inv *(5-7), of now nm ty ttl] * Op_Put
        by (intro store[of "key_of nm ty" "put_entry now nm ty rs ttl"]) (auto simp: ent_ans_def put_entry_def)
    next
      case False
      then have same: "dns_step op c = c"
        using Op_Put put_noop[of an ar c _ now _ ty ttl]
        by (cases name; cases resp) (auto simp: ng_dnscache_put_def)
      have "dns_eff op k' = Keep \<or> dns_tab c = []" for k'
        using False Op_Put by (cases name; cases resp) auto
      then show thesis using forget same assms Op_Put by simp
    qed
  next
    case (Op_Put_Negative an now name ty)
    show thesis
    proof (cases "\<exists>nm. name = Some nm \<and> an \<and> dns_tab c \<noteq> []")
      case True
      then obtain nm where *: "name = Some nm" "an" "dns_tab c \<noteq> []" by blast
      show thesis
        using put_negative_stored[OF inv *(3), of now nm ty] * Op_Put_Negative
        by (intro store[of "key_of nm ty" "put_neg_entry now nm ty"]) (auto simp: ent_ans_def put_neg_entry_def)
    next
      case False
      then have same: "dns_step op c = c"
        using Op_Put_Negative put_negative_noop[of an c now _ ty]
        by (cases name) (auto simp: ng_dnscache_put_negative_def)
      have "dns_eff op k' = Keep \<or> dns_tab c = []" for k'
        using False Op_Put_Negative by (cases name) auto
      then show thesis using forget same assms Op_Put_Negative by simp
    qed
  next
    case (Op_Get al now name ty)
    consider "dns_step op c = c" | nm where "dns_step op c = c\<lparr>dns_tab := fst (ent_find (dns_tab c) nm ty now)\<rparr>"
      using Op_Get get_state[of al now c name ty] by auto
    then show thesis
    proof cases
      case 1
      then show thesis using forget assms Op_Get by simp
    next
      case 2
      have "cache_ok (dns_step op c)"
        using ent_find_inv inv unfolding 2 by (simp add: cache_ok_def dns_inv_def)
      then show thesis using forget 2 ent_find_subset Op_Get by auto
    qed
  next
    case Op_Flush
    then show thesis by (rule flush)
  qed
qed


lemma flush_ok:
  assumes "cache_ok c"
  shows "cache_ok (ng_dnscache_flush c)" "look t (ng_dnscache_flush c) k = None"
proof -
  have inv: "dns_inv c" "dns_ready c" using assms by (auto simp: cache_ok_def)
  let ?c = "ng_dnscache_flush c"
  have ok: "dns_inv ?c" "dns_ready ?c"
    using inv by (auto simp: ng_dnscache_flush_def dns_inv_def list_all_length tab_uniq_def ent_ok_def ent_clear_def same_key_def)
  then show "cache_ok ?c" by (simp add: cache_ok_def)
  show "look t ?c k = None"
  proof (cases "look t ?c k")
    case (Some v)
    then show ?thesis using look_iff[OF ok] inv(2) by (auto simp: ng_dnscache_flush_def split: if_splits)
  qed
qed

interpretation dc: coherent_cache cache_ok dns_step "look t" dns_eff for t
proof unfold_locales
  fix c :: dns_cache and op k v
  assume ok: "cache_ok c"
  have inv: "dns_inv c" "dns_ready c" using ok by (auto simp: cache_ok_def)
  show "cache_ok (dns_step op c)"
    using ok
  proof (cases rule: dns_step_cases[of c op])
    case (store k' e)
    then show ?thesis using stored_inv[OF inv(1) store(1)] inv(2) by (simp add: cache_ok_def)
  next
    case flush
    then show ?thesis using flush_ok(1)[OF ok] by simp
  qed
  show "look t (dns_step op c) k = None \<or> look t (dns_step op c) k = look t c k" if "dns_eff op k = Keep"
    using ok
  proof (cases rule: dns_step_cases[of c op])
    case (store k' e)
    then have "norm_key k \<noteq> k'" using store(2)[of k] that by auto
    then show ?thesis using stored_look(2)[OF inv store(1)] by blast
  next
    case forget
    then show ?thesis using look_subset[OF inv] by (auto simp: cache_ok_def)
  next
    case flush
    then show ?thesis using flush_ok[OF ok] by simp
  qed
  show "look t (dns_step op c) k = None \<or> look t (dns_step op c) k = Some v" if "dns_eff op k = Write v"
    using ok
  proof (cases rule: dns_step_cases[of c op])
    case (store k' e)
    then have nk: "norm_key k = k'" using store(3)[of k] that by auto
    then have "v = ent_ans e" using store(2)[of k] that by simp
    note nk this
    then show ?thesis using stored_look(1)[OF inv store(1), where t = t and k' = k] by auto
  next
    case forget
    have "dns_tab (dns_step op c) = []" using forget(4)[of k] that by simp
    then show ?thesis by (simp add: look_empty)
  next
    case flush
    then show ?thesis using flush_ok[OF ok] by simp
  qed
  show "look t (dns_step op c) k = None" if "dns_eff op k = Drop"
  proof -
    have "op = Op_Flush" using that by (cases "(op, k)" rule: dns_eff.cases) (auto split: if_splits)
    then show ?thesis using flush_ok[OF ok] by simp
  qed
qed

text \<open>C22: after any sequence of stores, negative stores, lookups and flushes on a freshly
  initialised cache of any size (also when its table could not be allocated), with any outcomes
  of the allocations and any clock values, a lookup either misses or gives the answer of the
  most recent effective store for that name and type since the last flush; it never returns
  another name's answer, a superseded one, or one that was flushed.\<close>

theorem dns_cache_coherent:
  "look t (fold dns_step ops (ng_dnscache_init n alloc \<lparr>dns_tab = [], dns_ready = False\<rparr>)) k = None \<or>
   look t (fold dns_step ops (ng_dnscache_init n alloc \<lparr>dns_tab = [], dns_ready = False\<rparr>)) k =
     latest dns_eff k None ops"
proof -
  let ?c = "ng_dnscache_init n alloc \<lparr>dns_tab = [], dns_ready = False\<rparr>"
  have ok: "cache_ok ?c"
    by (auto simp: cache_ok_def ng_dnscache_init_def dns_inv_def list_all_length ent_ok_def
        ent_empty_def tab_uniq_def same_key_def)
  have "look t ?c k = None"
  proof (cases "look t ?c k")
    case (Some v)
    then show ?thesis using look_iff[of ?c t k] ok
      by (auto simp: cache_ok_def ng_dnscache_init_def keyed_def ent_empty_def split: if_splits)
  qed
  then show ?thesis using dc.run_lookup[OF ok, of t k None ops] by simp
qed

section \<open>Replacement\<close>

definition slot_free :: "u32 \<Rightarrow> dns_ent \<Rightarrow> bool" where
  "slot_free now e \<longleftrightarrow> de_name e = None \<or> ent_expired now e"

definition life :: "u32 \<Rightarrow> dns_ent \<Rightarrow> nat" where
  "life now e = unat (de_expiry e - now)"

lemma pick_slot_loop_free:
  "\<exists>e \<in> set es. slot_free now e \<Longrightarrow>
   \<exists>n. pick_slot_loop now es i v = Some n \<and> i \<le> n \<and> n < i + length es \<and> slot_free now (es ! (n - i))"
proof (induction es arbitrary: i v)
  case (Cons c cs)
  show ?case
  proof (cases "slot_free now c")
    case False
    then obtain n where "pick_slot_loop now (c # cs) i v = Some n" "Suc i \<le> n" "n < Suc i + length cs"
      "slot_free now (cs ! (n - Suc i))"
      using Cons.IH[of "Suc i"] Cons.prems by (fastforce simp: slot_free_def)
    then show ?thesis by (intro exI[of _ n]) (simp add: nth_Cons')
  qed (auto simp: slot_free_def)
qed simp

text \<open>The victim so far, as an entry seen: its index and the least remaining life.\<close>

lemma pick_slot_loop_live:
  assumes "\<forall>e \<in> set es. \<not> slot_free now e \<and> life now e < 2 ^ 31"
    and "k < length pre" "\<forall>e \<in> set pre. life now (pre ! k) \<le> life now e" "life now (pre ! k) < 2 ^ 31"
  shows "\<exists>n < length (pre @ es). pick_slot_loop now es (length pre) (Some (k, de_expiry (pre ! k))) = Some n \<and>
           (\<forall>e \<in> set (pre @ es). life now ((pre @ es) ! n) \<le> life now e)"
  using assms
proof (induction es arbitrary: pre k)
  case Nil
  then show ?case by auto
next
  case (Cons c cs)
  have sd: "sint (de_expiry c - de_expiry (pre ! k)) = int (life now c) - int (life now (pre ! k))"
  proof -
    have "de_expiry c - de_expiry (pre ! k) = (de_expiry c - now) - (de_expiry (pre ! k) - now)" by simp
    moreover have "unat (de_expiry c - now) < 2 ^ 31" "unat (de_expiry (pre ! k) - now) < 2 ^ 31"
      using Cons.prems(1,4) by (auto simp: life_def)
    ultimately show ?thesis
      using sint_diff_small[of "de_expiry c - now" "de_expiry (pre ! k) - now"]
      unfolding life_def by presburger
  qed
  define k' where "k' = (if life now c < life now (pre ! k) then length pre else k)"
  have e: "(pre @ [c]) ! k' = (if life now c < life now (pre ! k) then c else pre ! k)"
    using Cons.prems(2) by (simp add: k'_def nth_append)
  have unf: "pick_slot_loop now (c # cs) (length pre) (Some (k, de_expiry (pre ! k))) =
      pick_slot_loop now cs (length (pre @ [c])) (Some (k', de_expiry ((pre @ [c]) ! k')))"
    using Cons.prems(1) sd unfolding e by (auto simp: slot_free_def k'_def)
  have "\<exists>n < length ((pre @ [c]) @ cs). pick_slot_loop now cs (length (pre @ [c])) (Some (k', de_expiry ((pre @ [c]) ! k'))) = Some n \<and>
      (\<forall>e \<in> set ((pre @ [c]) @ cs). life now (((pre @ [c]) @ cs) ! n) \<le> life now e)"
  proof (rule Cons.IH)
    show "k' < length (pre @ [c])" using Cons.prems(2) by (simp add: k'_def)
    show "\<forall>x \<in> set (pre @ [c]). life now ((pre @ [c]) ! k') \<le> life now x"
      unfolding e using Cons.prems(3) by auto
    show "life now ((pre @ [c]) ! k') < 2 ^ 31" unfolding e using Cons.prems(1,4) by simp
  qed (use Cons.prems(1) in simp)
  then show ?case unfolding unf by simp
qed

text \<open>
  On a table whose live entries expire within \<open>2 ^ 31\<close> seconds, the slot chosen for a
  new entry is a free or expired one whenever there is one, and otherwise the live entry with
  the least remaining life; it is always a slot of the table.\<close>

theorem pick_slot_spec:
  assumes "tab \<noteq> []" "\<forall>e \<in> set tab. slot_free now e \<or> life now e < 2 ^ 31"
  shows "\<exists>n < length tab. pick_slot now tab = Some n \<and>
    (if \<exists>e \<in> set tab. slot_free now e then slot_free now (tab ! n)
     else \<forall>e \<in> set tab. life now (tab ! n) \<le> life now e)"
proof (cases "\<exists>e \<in> set tab. slot_free now e")
  case True
  then show ?thesis using pick_slot_loop_free[OF True, of 0 None] by (auto simp: pick_slot_def)
next
  case False
  obtain c cs where tab: "tab = c # cs" using assms(1) by (cases tab) auto
  have "pick_slot now tab = pick_slot_loop now cs (length [c]) (Some (0, de_expiry ([c] ! 0)))"
    using False tab by (auto simp: pick_slot_def slot_free_def)
  moreover have "\<exists>n < length ([c] @ cs). pick_slot_loop now cs (length [c]) (Some (0, de_expiry ([c] ! 0))) = Some n \<and>
      (\<forall>e \<in> set ([c] @ cs). life now (([c] @ cs) ! n) \<le> life now e)"
    using False assms(2) tab by (intro pick_slot_loop_live) auto
  ultimately show ?thesis using False tab by auto
qed

lemma replicate_ok:
  "dns_inv \<lparr>dns_tab = replicate n ent_empty, dns_ready = True\<rparr>"
  by (simp add: dns_inv_def list_all_length ent_ok_def ent_empty_def tab_uniq_def same_key_def)

theorem dns_cache_put_get_witness:
  "snd (ng_dnscache_get True 1100
      (ng_dnscache_put True True 1000 (Some [87, 87]) 1 (Some [9]) 300
         \<lparr>dns_tab = replicate 2 ent_empty, dns_ready = True\<rparr>) (Some [119, 87]) 1) = (False, Some [9])"
proof -
  let ?c = "\<lparr>dns_tab = replicate 2 ent_empty, dns_ready = True\<rparr>"
  have "snd (ng_dnscache_get True 1100 (ng_dnscache_put True True 1000 (Some [87, 87]) 1 (Some [9]) 300 ?c)
      (Some [119, 87]) 1) = (False, if unat (1100 - 1000 :: u32) < unat (clamp_ttl 300) then Some [9] else None)"
    by (rule dns_cache_put_get[OF replicate_ok]) (simp_all add: lower_def DNS_CACHE_MAXRESP_def)
  then show ?thesis by (simp add: clamp_ttl_def DNS_CACHE_TTL_MIN_def DNS_CACHE_TTL_MAX_def)
qed

theorem dns_cache_put_negative_get_witness:
  "snd (ng_dnscache_get True 1029
      (ng_dnscache_put_negative True 1000 (Some [87]) 1
         \<lparr>dns_tab = replicate 2 ent_empty, dns_ready = True\<rparr>) (Some [119]) 1) = (True, None)"
proof -
  let ?c = "\<lparr>dns_tab = replicate 2 ent_empty, dns_ready = True\<rparr>"
  have "snd (ng_dnscache_get True 1029 (ng_dnscache_put_negative True 1000 (Some [87]) 1 ?c) (Some [119]) 1) =
      (unat (1029 - 1000 :: u32) < 30, None)"
    by (rule dns_cache_put_negative_get[OF replicate_ok]) (simp_all add: lower_def)
  then show ?thesis by simp
qed

theorem pick_slot_spec_witness:
  "pick_slot 1000 [ent_empty\<lparr>de_name := Some [97], de_expiry := 1300\<rparr>,
                   ent_empty\<lparr>de_name := Some [98], de_expiry := 1100\<rparr>] = Some 1"
proof -
  let ?t = "[ent_empty\<lparr>de_name := Some [97], de_expiry := 1300\<rparr>, ent_empty\<lparr>de_name := Some [98], de_expiry := 1100\<rparr>]"
  have "\<exists>n < length ?t. pick_slot 1000 ?t = Some n \<and>
    (if \<exists>e \<in> set ?t. slot_free 1000 e then slot_free 1000 (?t ! n)
     else \<forall>e \<in> set ?t. life 1000 (?t ! n) \<le> life 1000 e)"
    by (rule pick_slot_spec) (simp_all add: life_def)
  then obtain n where n: "n < length ?t" "pick_slot 1000 ?t = Some n"
    "if \<exists>e \<in> set ?t. slot_free 1000 e then slot_free 1000 (?t ! n)
     else \<forall>e \<in> set ?t. life 1000 (?t ! n) \<le> life 1000 e" by blast
  have "n = 0 \<or> n = 1" using n(1) by auto
  then show ?thesis using n(2,3) by (auto simp: slot_free_def ent_empty_def ent_expired_def life_def)
qed

end
