(* ===== verification/Mbuf_Chain.thy ===== *)
theory Mbuf_Chain
  imports Mbuf
begin

text \<open>
  The routines that edit and copy mbuf chains (\<open>m_prepend\<close>, \<open>m_copym\<close>, \<open>m_copydata\<close>,
  \<open>m_cat\<close>, \<open>m_adj\<close>, \<open>m_pullup\<close> of \<open>kern/uipc_mbuf.c\<close> and the space macros of
  \<open>sys/mbuf.h\<close>), on the heap of \<open>Mbuf\<close>. The \<open>int\<close> arithmetic is written on integers; the one
  negation that can overflow, in \<open>m_adj\<close>, wraps.
\<close>

section \<open>Reading and writing storage\<close>

definition m_buf :: "mst \<Rightarrow> mbuf \<Rightarrow> u8 list" where
  "m_buf st b = (if has_flag M_EXT b then mcl_buf (clus st (ext_buf b)) else m_dat b)"

text \<open>The \<open>n\<close> bytes at \<open>mtod(m) + off\<close>.\<close>

definition m_read :: "mst \<Rightarrow> mbuf \<Rightarrow> int \<Rightarrow> int \<Rightarrow> u8 list" where
  "m_read st b off n = take (nat n) (drop (nat (m_data b + off)) (m_buf st b))"

definition put_bytes :: "nat \<Rightarrow> u8 list \<Rightarrow> u8 list \<Rightarrow> u8 list" where
  "put_bytes i bs xs = take i xs @ bs @ drop (i + length bs) xs"

text \<open>\<open>bcopy\<close> of \<open>bs\<close> to \<open>mtod(m) + off\<close>, for an mbuf without a cluster.\<close>

definition m_write :: "ptr \<Rightarrow> int \<Rightarrow> u8 list \<Rightarrow> mst \<Rightarrow> mst" where
  "m_write p off bs = upd p (\<lambda>b. b\<lparr>m_dat := put_bytes (nat (m_data b + off)) bs (m_dat b)\<rparr>)"

text \<open>\<open>M_COPY_PKTHDR(to, from)\<close>\<close>

definition M_COPY_PKTHDR :: "ptr \<Rightarrow> ptr \<Rightarrow> mst \<Rightarrow> mst" where
  "M_COPY_PKTHDR to from st =
     (let f = mbufs st from in
      upd to (\<lambda>b. b\<lparr>m_pkthdr := m_pkthdr f, m_flags := m_flags f AND M_COPYFLAGS,
                    m_data := MLEN - MHLEN\<rparr>) st)"

text \<open>\<open>x & ~(sizeof(long) - 1)\<close>\<close>

definition long_align :: "int \<Rightarrow> int" where
  "long_align x = x - x mod 4"

definition M_ALIGN :: "ptr \<Rightarrow> int \<Rightarrow> mst \<Rightarrow> mst" where
  "M_ALIGN m len = upd m (\<lambda>b. b\<lparr>m_data := m_data b + long_align (MLEN - len)\<rparr>)"

definition MH_ALIGN :: "ptr \<Rightarrow> int \<Rightarrow> mst \<Rightarrow> mst" where
  "MH_ALIGN m len = upd m (\<lambda>b. b\<lparr>m_data := m_data b + long_align (MHLEN - len)\<rparr>)"

definition M_LEADINGSPACE :: "mbuf \<Rightarrow> int" where
  "M_LEADINGSPACE b =
     (if has_flag M_EXT b then 0
      else if has_flag M_PKTHDR b then m_data b - (MLEN - MHLEN) else m_data b)"

definition M_TRAILINGSPACE :: "mbuf \<Rightarrow> int" where
  "M_TRAILINGSPACE b =
     (if has_flag M_EXT b then int (unat (ext_size b)) - (m_data b + m_len b)
      else MLEN - (m_data b + m_len b))"

definition MCHTYPE :: "ptr \<Rightarrow> nat \<Rightarrow> mst \<Rightarrow> mst" where
  "MCHTYPE m t st =
     upd m (\<lambda>b. b\<lparr>m_type := t\<rparr>) (count_type t 1 (count_type (m_type (mbufs st m)) (- 1) st))"

section \<open>Prepending\<close>

definition m_prepend :: "ptr \<Rightarrow> int \<Rightarrow> mst \<Rightarrow> (mst \<times> ptr) option" where
  "m_prepend m len st =
     (if len < 0 \<or> len > MHLEN then do { st1 \<leftarrow> m_freem m st; Some (st1, 0) }
      else do {
        (st1, mn) \<leftarrow> MGET (m_type (mbufs st m)) st;
        if mn = 0 then do { st2 \<leftarrow> m_freem m st1; Some (st2, 0) }
        else do {
          let st2 = (if has_flag M_PKTHDR (mbufs st1 m)
                     then upd m (\<lambda>b. b\<lparr>m_flags := m_flags b AND NOT M_PKTHDR\<rparr>) (M_COPY_PKTHDR mn m st1)
                     else st1);
          let st3 = upd mn (\<lambda>b. b\<lparr>m_next := m\<rparr>) st2;
          let st4 = (if len < MHLEN then MH_ALIGN mn len st3 else st3);
          Some (upd mn (\<lambda>b. b\<lparr>m_len := len\<rparr>) st4, mn) } })"

definition M_PREPEND :: "ptr \<Rightarrow> int \<Rightarrow> mst \<Rightarrow> (mst \<times> ptr) option" where
  "M_PREPEND m plen st = do {
     (st1, m1) \<leftarrow>
       (if M_LEADINGSPACE (mbufs st m) \<ge> plen
        then Some (upd m (\<lambda>b. b\<lparr>m_data := m_data b - plen, m_len := m_len b + plen\<rparr>) st, m)
        else m_prepend m plen st);
     Some (if m1 \<noteq> 0 \<and> has_flag M_PKTHDR (mbufs st1 m1)
           then upd m1 (\<lambda>b. b\<lparr>m_pkthdr := (m_pkthdr b)\<lparr>ph_len := ph_len (m_pkthdr b) + plen\<rparr>\<rparr>) st1
           else st1, m1) }"

section \<open>Copying out\<close>

text \<open>
  The search for the first mbuf: the mbuf and the offset in it; \<open>Some None\<close> is the short chain.
\<close>

partial_function (option) m_seek :: "ptr \<Rightarrow> int \<Rightarrow> mst \<Rightarrow> (ptr \<times> int) option option" where
  "m_seek m off st =
     (if off > 0 then
        (if m = 0 then Some None
         else if off < m_len (mbufs st m) then Some (Some (m, off))
         else m_seek (m_next (mbufs st m)) (off - m_len (mbufs st m)) st)
      else Some (Some (m, off)))"

text \<open>The copy loop of \<open>m_copydata\<close>; the bytes written to \<open>cp\<close> so far are \<open>out\<close>.\<close>

partial_function (option) m_copydata_loop :: "ptr \<Rightarrow> int \<Rightarrow> int \<Rightarrow> u8 list \<Rightarrow> mst \<Rightarrow> u8 list option" where
  "m_copydata_loop m off len out st =
     (if len > 0 then
        (if m = 0 then Some out
         else let b = mbufs st m; count = min (m_len b - off) len
           in m_copydata_loop (m_next b) 0 (len - count) (out @ m_read st b off count) st)
      else Some out)"

definition m_copydata :: "ptr \<Rightarrow> int \<Rightarrow> int \<Rightarrow> mst \<Rightarrow> u8 list option" where
  "m_copydata m off len st =
     (if off < 0 \<or> len < 0 then Some []
      else do {
        r \<leftarrow> m_seek m off st;
        (case r of None \<Rightarrow> Some [] | Some (m1, off1) \<Rightarrow> m_copydata_loop m1 off1 len [] st) })"

text \<open>
  \<open>*np = n\<close>: the pointer \<open>np\<close> is to \<open>top\<close> while \<open>lst\<close> is 0, then to the \<open>m_next\<close> of \<open>lst\<close>.
  The result of the loop is the state, \<open>tp\<close> (the source's \<open>top\<close>), and whether it ended normally.
\<close>

definition link_np :: "ptr \<Rightarrow> ptr \<Rightarrow> mst \<Rightarrow> mst" where
  "link_np lst n st = (if lst = 0 then st else upd lst (\<lambda>b. b\<lparr>m_next := n\<rparr>) st)"

text \<open>One copied mbuf: everything the loop body does to the new mbuf \<open>n\<close>.\<close>

definition copym_fill :: "ptr \<Rightarrow> ptr \<Rightarrow> int \<Rightarrow> int \<Rightarrow> int \<Rightarrow> bool \<Rightarrow> mst \<Rightarrow> mst" where
  "copym_fill n m off len off0 copyhdr st =
     (let st1 = (if copyhdr then
                   upd n (\<lambda>b. b\<lparr>m_pkthdr := (m_pkthdr b)\<lparr>ph_len :=
                     (if len = M_COPYALL then ph_len (m_pkthdr b) - off0 else len)\<rparr>\<rparr>) (M_COPY_PKTHDR n m st)
                 else st);
          st2 = upd n (\<lambda>b. b\<lparr>m_len := min len (m_len (mbufs st1 m) - off)\<rparr>) st1;
          b = mbufs st2 m
      in if has_flag M_EXT b then
           (let st3 = upd n (\<lambda>c. c\<lparr>m_data := m_data b + off\<rparr>) st2;
                st4 = upd_clus (ext_buf b) (\<lambda>w. set_refcnt (mcl_refcnt w + 1) w) st3
            in upd n (\<lambda>c. c\<lparr>ext_buf := ext_buf b, ext_size := ext_size b, m_flags := m_flags c OR M_EXT\<rparr>) st4)
         else m_write n 0 (m_read st2 b off (m_len (mbufs st2 n))) st2)"

partial_function (option) m_copym_loop ::
  "ptr \<Rightarrow> int \<Rightarrow> int \<Rightarrow> int \<Rightarrow> bool \<Rightarrow> ptr \<Rightarrow> ptr \<Rightarrow> mst \<Rightarrow> (mst \<times> ptr \<times> bool) option" where
  "m_copym_loop m off len off0 copyhdr tp lst st =
     (if len > 0 then
        (if m = 0 then Some (st, tp, len = M_COPYALL)
         else do {
           (st1, n) \<leftarrow> MGET (m_type (mbufs st m)) st;
           let st2 = link_np lst n st1;
           let tp' = (if lst = 0 then n else tp);
           if n = 0 then Some (st2, tp', False)
           else do {
             let st3 = copym_fill n m off len off0 copyhdr st2;
             m_copym_loop (m_next (mbufs st3 m)) 0
               (if len = M_COPYALL then len else len - m_len (mbufs st3 n)) off0 False tp' n st3 } })
      else Some (st, tp, True))"

definition copym_fail :: "ptr \<Rightarrow> mst \<Rightarrow> (mst \<times> ptr) option" where
  "copym_fail tp st = do { st1 \<leftarrow> m_freem tp st; Some (st1\<lparr>MCFail := MCFail st1 + 1\<rparr>, 0) }"

definition m_copym :: "ptr \<Rightarrow> int \<Rightarrow> int \<Rightarrow> mst \<Rightarrow> (mst \<times> ptr) option" where
  "m_copym m off0 len st =
     (if off0 < 0 \<or> len < 0 \<or> m = 0 then copym_fail 0 st
      else do {
        r \<leftarrow> m_seek m off0 st;
        (case r of
           None \<Rightarrow> copym_fail 0 st
         | Some (m1, off) \<Rightarrow> do {
             (st1, tp, ok) \<leftarrow>
               m_copym_loop m1 off len off0 (off0 = 0 \<and> has_flag M_PKTHDR (mbufs st m)) 0 0 st;
             if \<not> ok then copym_fail tp st1
             else Some (if tp = 0 then st1\<lparr>MCFail := MCFail st1 + 1\<rparr> else st1, tp) }) })"

section \<open>Concatenating\<close>

partial_function (option) m_last :: "ptr \<Rightarrow> mst \<Rightarrow> ptr option" where
  "m_last m st = (if m_next (mbufs st m) \<noteq> 0 then m_last (m_next (mbufs st m)) st else Some m)"

partial_function (option) m_cat_loop :: "ptr \<Rightarrow> ptr \<Rightarrow> mst \<Rightarrow> mst option" where
  "m_cat_loop m n st =
     (if n \<noteq> 0 then
        (let b = mbufs st m; c = mbufs st n in
         if has_flag M_EXT b \<or> m_data b + m_len b + m_len c \<ge> MLEN
         then Some (upd m (\<lambda>b. b\<lparr>m_next := n\<rparr>) st)
         else (let st1 = m_write m (m_len b) (m_read st c 0 (m_len c)) st;
                   st2 = upd m (\<lambda>b. b\<lparr>m_len := m_len b + m_len c\<rparr>) st1
               in (case m_free n st2 of (st3, n1) \<Rightarrow> m_cat_loop m n1 st3)))
      else Some st)"

definition m_cat :: "ptr \<Rightarrow> ptr \<Rightarrow> mst \<Rightarrow> mst option" where
  "m_cat m n st = do { l \<leftarrow> m_last m st; m_cat_loop l n st }"

section \<open>Trimming\<close>

partial_function (option) m_adj_head :: "ptr \<Rightarrow> int \<Rightarrow> mst \<Rightarrow> (mst \<times> int) option" where
  "m_adj_head m len st =
     (if m \<noteq> 0 \<and> len > 0 then
        (let b = mbufs st m in
         if m_len b \<le> len
         then m_adj_head (m_next b) (len - m_len b) (upd m (\<lambda>b. b\<lparr>m_len := 0\<rparr>) st)
         else Some (upd m (\<lambda>b. b\<lparr>m_len := m_len b - len, m_data := m_data b + len\<rparr>) st, 0))
      else Some (st, len))"

text \<open>The length of the chain and its last mbuf.\<close>

partial_function (option) m_adj_count :: "ptr \<Rightarrow> int \<Rightarrow> mst \<Rightarrow> (int \<times> ptr) option" where
  "m_adj_count m count st =
     (let count1 = count + m_len (mbufs st m) in
      if m_next (mbufs st m) = 0 then Some (count1, m)
      else m_adj_count (m_next (mbufs st m)) count1 st)"

text \<open>The \<open>for\<close> loop that sets the new last length, then the loop that empties the rest.\<close>

partial_function (option) m_adj_zero :: "ptr \<Rightarrow> mst \<Rightarrow> mst option" where
  "m_adj_zero m st =
     (let n = m_next (mbufs st m) in
      if n \<noteq> 0 then m_adj_zero n (upd n (\<lambda>b. b\<lparr>m_len := 0\<rparr>) st) else Some st)"

partial_function (option) m_adj_cut :: "ptr \<Rightarrow> int \<Rightarrow> mst \<Rightarrow> mst option" where
  "m_adj_cut m count st =
     (if m = 0 then m_adj_zero 0 st
      else if m_len (mbufs st m) \<ge> count
      then m_adj_zero m (upd m (\<lambda>b. b\<lparr>m_len := count\<rparr>) st)
      else m_adj_cut (m_next (mbufs st m)) (count - m_len (mbufs st m)) st)"

definition m_adj :: "ptr \<Rightarrow> int \<Rightarrow> mst \<Rightarrow> mst option" where
  "m_adj mp req_len st =
     (if mp = 0 then Some st
      else if req_len \<ge> 0 then do {
        (st1, len) \<leftarrow> m_adj_head mp req_len st;
        Some (if has_flag M_PKTHDR (mbufs st1 mp)
              then upd mp (\<lambda>b. b\<lparr>m_pkthdr := (m_pkthdr b)\<lparr>ph_len :=
                     (let l = ph_len (m_pkthdr b) - (req_len - len) in if l < 0 then 0 else l)\<rparr>\<rparr>) st1
              else st1) }
      else do {
        let len = wrap32 (- req_len);
        (count, m) \<leftarrow> m_adj_count mp 0 st;
        if m_len (mbufs st m) \<ge> len then
          (let st1 = upd m (\<lambda>b. b\<lparr>m_len := wrap32 (m_len b - len)\<rparr>) st in
           Some (if has_flag M_PKTHDR (mbufs st1 m)
                 then upd m (\<lambda>b. b\<lparr>m_pkthdr := (m_pkthdr b)\<lparr>ph_len := wrap32 (ph_len (m_pkthdr b) - len)\<rparr>\<rparr>) st1
                 else st1))
        else do {
          let count1 = (if count - len < 0 then 0 else count - len);
          let st1 = (if has_flag M_PKTHDR (mbufs st mp)
                     then upd mp (\<lambda>b. b\<lparr>m_pkthdr := (m_pkthdr b)\<lparr>ph_len := count1\<rparr>\<rparr>) st
                     else st);
          m_adj_cut mp count1 st1 } })"

section \<open>Pulling up\<close>

text \<open>\<open>min\<close> and \<open>max\<close> take unsigned arguments: \<open>u\<close> is the argument as \<open>unsigned int\<close>.\<close>

definition as_unsigned :: "int \<Rightarrow> int" where
  "as_unsigned x = take_bit 32 x"

definition pullup_count :: "int \<Rightarrow> int \<Rightarrow> int \<Rightarrow> int \<Rightarrow> int" where
  "pullup_count len protohdr space nlen =
     wrap32 (min (min (max (as_unsigned len) (as_unsigned protohdr)) (as_unsigned space)) (as_unsigned nlen))"

text \<open>
  The \<open>do\<close> loop: bytes of \<open>n\<close> are moved to the end of \<open>m\<close>. The result is the state, \<open>len\<close> and \<open>n\<close>.
\<close>

partial_function (option) m_pullup_loop ::
  "ptr \<Rightarrow> ptr \<Rightarrow> int \<Rightarrow> int \<Rightarrow> mst \<Rightarrow> (mst \<times> int \<times> ptr) option" where
  "m_pullup_loop m n len space st =
     (let count = pullup_count len (max_protohdr st) space (m_len (mbufs st n));
          st1 = m_write m (m_len (mbufs st m)) (m_read st (mbufs st n) 0 count) st;
          st2 = upd m (\<lambda>b. b\<lparr>m_len := m_len b + count\<rparr>) st1;
          st3 = upd n (\<lambda>b. b\<lparr>m_len := m_len b - count\<rparr>) st2;
          len1 = len - count;
          (st4, n1) = (if m_len (mbufs st3 n) \<noteq> 0
                       then (upd n (\<lambda>b. b\<lparr>m_data := m_data b + count\<rparr>) st3, n)
                       else m_free n st3)
      in if len1 > 0 \<and> n1 \<noteq> 0 then m_pullup_loop m n1 len1 (space - count) st4
         else Some (st4, len1, n1))"

definition pullup_bad :: "ptr \<Rightarrow> mst \<Rightarrow> (mst \<times> ptr) option" where
  "pullup_bad n st = do { st1 \<leftarrow> m_freem n st; Some (st1\<lparr>MPFail := MPFail st1 + 1\<rparr>, 0) }"

definition m_pullup_body :: "ptr \<Rightarrow> ptr \<Rightarrow> int \<Rightarrow> mst \<Rightarrow> (mst \<times> ptr) option" where
  "m_pullup_body m n len st = do {
     let b = mbufs st m;
     (st1, len1, n1) \<leftarrow> m_pullup_loop m n len (MLEN - (m_data b + m_len b)) st;
     if len1 > 0 then pullup_bad n1 (fst (m_free m st1))
     else Some (upd m (\<lambda>b. b\<lparr>m_next := n1\<rparr>) st1, m) }"

definition m_pullup :: "ptr \<Rightarrow> int \<Rightarrow> mst \<Rightarrow> (mst \<times> ptr) option" where
  "m_pullup n len st =
     (let b = mbufs st n in
      if \<not> has_flag M_EXT b \<and> m_data b + len < MLEN \<and> m_next b \<noteq> 0 then
        (if m_len b \<ge> len then Some (st, n)
         else m_pullup_body n (m_next b) (len - m_len b) st)
      else if len > MHLEN then pullup_bad n st
      else do {
        (st1, m) \<leftarrow> MGET (m_type b) st;
        if m = 0 then pullup_bad n st1
        else do {
          let st2 = upd m (\<lambda>b. b\<lparr>m_len := 0\<rparr>) st1;
          let st3 = (if has_flag M_PKTHDR (mbufs st2 n)
                     then upd n (\<lambda>b. b\<lparr>m_flags := m_flags b AND NOT (M_PKTHDR OR M_CSUM_DONE)\<rparr>)
                            (M_COPY_PKTHDR m n st2)
                     else st2);
          m_pullup_body m n len st3 } })"

end
