(* ===== verification/Mbuf_Pool.thy ===== *)
theory Mbuf_Pool
  imports Mbuf
begin

text \<open>
  The ownership invariant of the mbuf pool: the free list, the chains the protocols would drain,
  and the mbufs the client holds are disjoint, cluster reference counts agree with the mbufs
  that refer to them, and every pool operation keeps this. Also the geometry of the pool (which
  addresses \<open>m_valid\<close> accepts) and the effect of the free-list checks on double frees.
\<close>

section \<open>Chains\<close>

fun chain :: "(ptr \<Rightarrow> mbuf) \<Rightarrow> ptr \<Rightarrow> ptr list \<Rightarrow> bool" where
  "chain h p [] = (p = 0)"
| "chain h p (a # as) = (p = a \<and> a \<noteq> 0 \<and> chain h (m_next (h a)) as)"

fun cchain :: "(ptr \<Rightarrow> mcluster) \<Rightarrow> ptr \<Rightarrow> ptr list \<Rightarrow> bool" where
  "cchain h p [] = (p = 0)"
| "cchain h p (a # as) = (p = a \<and> a \<noteq> 0 \<and> cchain h (mcl_word (h a)) as)"

lemma chain_cong: "(\<And>a. a \<in> set as \<Longrightarrow> m_next (h a) = m_next (h' a)) \<Longrightarrow> chain h p as = chain h' p as"
  by (induction as arbitrary: p) auto

lemma cchain_cong: "(\<And>a. a \<in> set as \<Longrightarrow> mcl_word (h a) = mcl_word (h' a)) \<Longrightarrow> cchain h p as = cchain h' p as"
  by (induction as arbitrary: p) auto

lemma chain_nonzero: "chain h p as \<Longrightarrow> 0 \<notin> set as"
  by (induction as arbitrary: p) auto

lemma chain_0 [simp]: "chain h 0 as \<longleftrightarrow> as = []"
  by (cases as) auto

lemma chain_nz: "chain h p as \<Longrightarrow> p \<noteq> 0 \<Longrightarrow> \<exists>bs. as = p # bs \<and> chain h (m_next (h p)) bs"
  by (cases as) auto

lemma chain_fun: "chain h p as \<Longrightarrow> chain h p bs \<Longrightarrow> as = bs"
proof (induction as arbitrary: p bs)
  case (Cons a as)
  then show ?case by (cases bs) auto
qed auto

section \<open>The invariant\<close>

definition nref :: "(ptr \<Rightarrow> mbuf) \<Rightarrow> ptr set \<Rightarrow> ptr \<Rightarrow> nat" where
  "nref h L c = card {a \<in> L. has_flag M_EXT (h a) \<and> ext_buf (h a) = c}"

definition cl_inv :: "mst \<Rightarrow> ptr set \<Rightarrow> ptr list \<Rightarrow> bool" where
  "cl_inv st L cs \<longleftrightarrow> cchain (clus st) (mclfree st) cs \<and> distinct cs \<and>
     (\<forall>a \<in> L. has_flag M_EXT (mbufs st a) \<longrightarrow>
        ext_buf (mbufs st a) \<noteq> 0 \<and> ext_buf (mbufs st a) \<notin> set cs \<and>
        mcl_refcnt (mcl_word (clus st (ext_buf (mbufs st a)))) = of_nat (nref (mbufs st) L (ext_buf (mbufs st a))))"

text \<open>The slots \<open>m_alloc\<close> makes of a block, and what is asked of the blocks still to come.\<close>

definition first_slot :: "u32 \<Rightarrow> ptr" where
  "first_slot b = dtom (b + memHeader_sz + of_nat MSIZE - 1)"

definition slots :: "u32 \<Rightarrow> nat \<Rightarrow> ptr list" where
  "slots p n = map (\<lambda>i. p + of_nat MSIZE * of_nat i) [0 ..< n]"

definition grow_slots :: "mst \<Rightarrow> u32 \<Rightarrow> ptr list" where
  "grow_slots st b = (if b = 0 then [] else slots (first_slot b) (unat (mbufchunk (conf st))))"

definition alloc_ok :: "mst \<Rightarrow> ptr set \<Rightarrow> bool" where
  "alloc_ok st U \<longleftrightarrow> (let gs = concat (map (grow_slots st) (allocs st)) in
     distinct gs \<and> 0 \<notin> set gs \<and> set gs \<inter> U = {} \<and> card U + length gs < 65536)"

definition sysx :: "mst \<Rightarrow> ptr set \<Rightarrow> ptr list \<Rightarrow> ptr list list \<Rightarrow> ptr list \<Rightarrow> bool" where
  "sysx st C fs dss cs \<longleftrightarrow>
     chain (mbufs st) (mfree st) fs \<and> list_all2 (chain (mbufs st)) (drainable st) dss \<and>
     distinct (fs @ concat dss) \<and> finite C \<and> 0 \<notin> C \<and> C \<inter> set (fs @ concat dss) = {} \<and>
     (\<forall>a \<in> C \<union> set (concat dss). m_type (mbufs st a) \<noteq> MT_FREE) \<and>
     (ng_mbufcheck_active st \<longrightarrow> (\<forall>a \<in> set fs. m_type (mbufs st a) = MT_FREE \<and> poisoned (mbufs st a))) \<and>
     (\<forall>a \<in> C \<union> set (fs @ concat dss). length (m_dat (mbufs st a)) = 108) \<and>
     cl_inv st (C \<union> set (concat dss)) cs \<and> alloc_ok st (C \<union> set (fs @ concat dss))"

definition sys :: "mst \<Rightarrow> ptr set \<Rightarrow> bool" where
  "sys st C \<longleftrightarrow> (\<exists>fs dss cs. sysx st C fs dss cs)"

text \<open>What an operation leaves to the owner of \<open>C\<close>: its mbufs and the cluster buffers.\<close>

definition keeps :: "ptr set \<Rightarrow> mst \<Rightarrow> mst \<Rightarrow> bool" where
  "keeps C st st' \<longleftrightarrow> (\<forall>a \<in> C. mbufs st' a = mbufs st a) \<and>
     (\<forall>c. mcl_buf (clus st' c) = mcl_buf (clus st c)) \<and>
     conf st' = conf st \<and> max_protohdr st' = max_protohdr st \<and>
     ng_mbufcheck_active st' = ng_mbufcheck_active st"

lemma keeps_refl [simp]: "keeps C st st"
  by (simp add: keeps_def)

lemma keeps_trans: "keeps C st st1 \<Longrightarrow> keeps D st1 st2 \<Longrightarrow> C' \<subseteq> C \<Longrightarrow> C' \<subseteq> D \<Longrightarrow> keeps C' st st2"
  unfolding keeps_def by (metis subsetD)

section \<open>Reference counts\<close>

lemma mcl_refcnt_set [simp]: "mcl_refcnt (set_refcnt r w) = r"
proof (rule bit_word_eqI)
  fix n assume "n < LENGTH(16)"
  then show "bit (mcl_refcnt (set_refcnt r w)) n = bit r n"
    by (auto simp: mcl_refcnt_def set_refcnt_def bit_simps)
qed

lemma nref_insert:
  "finite L \<Longrightarrow> a \<notin> L \<Longrightarrow>
   nref h (insert a L) c = nref h L c + (if has_flag M_EXT (h a) \<and> ext_buf (h a) = c then 1 else 0)"
proof -
  assume "finite L" "a \<notin> L"
  have "{x \<in> insert a L. has_flag M_EXT (h x) \<and> ext_buf (h x) = c} =
    (if has_flag M_EXT (h a) \<and> ext_buf (h a) = c
     then insert a {x \<in> L. has_flag M_EXT (h x) \<and> ext_buf (h x) = c}
     else {x \<in> L. has_flag M_EXT (h x) \<and> ext_buf (h x) = c})" by auto
  then show ?thesis using \<open>finite L\<close> \<open>a \<notin> L\<close> by (auto simp: nref_def card_insert_if)
qed

lemma nref_cong:
  assumes "\<forall>a \<in> L. has_flag M_EXT (h a) = has_flag M_EXT (h' a) \<and>
    (has_flag M_EXT (h a) \<longrightarrow> ext_buf (h a) = ext_buf (h' a))"
  shows "nref h L c = nref h' L c"
proof -
  have "{x \<in> L. has_flag M_EXT (h x) \<and> ext_buf (h x) = c} = {x \<in> L. has_flag M_EXT (h' x) \<and> ext_buf (h' x) = c}"
    using assms by auto
  then show ?thesis unfolding nref_def by (rule arg_cong)
qed

lemma nref_pos: "finite L \<Longrightarrow> a \<in> L \<Longrightarrow> has_flag M_EXT (h a) \<Longrightarrow> nref h L (ext_buf (h a)) > 0"
  unfolding nref_def by (subst card_gt_0_iff) auto

lemma nref_le: "finite L \<Longrightarrow> nref h L c \<le> card L"
  unfolding nref_def by (rule card_mono) auto

lemma refcnt_dec:
  assumes "0 < n" "n < 65536"
  shows "(of_nat n - 1 :: u16) = of_nat (n - 1)" "(of_nat n - 1 :: u16) = 0 \<longleftrightarrow> n = 1"
proof -
  show 1: "(of_nat n - 1 :: u16) = of_nat (n - 1)" using assms by (simp add: of_nat_diff)
  have "(of_nat (n - 1) :: u16) = 0 \<longleftrightarrow> 2 ^ 16 dvd (n - 1)"
    by (simp only: word_of_nat_eq_0_iff) simp
  also have "\<dots> \<longleftrightarrow> n - 1 = 0" using assms by (auto dest: dvd_imp_le)
  finally show "(of_nat n - 1 :: u16) = 0 \<longleftrightarrow> n = 1" using assms unfolding 1 by auto
qed


section \<open>Freeing\<close>

definition freed :: "mst \<Rightarrow> ptr \<Rightarrow> mbuf" where
  "freed st m = (let b = mbufs st m in
     if ng_mbufcheck_active st
     then b\<lparr>m_type := MT_FREE, m_pkthdr := poison_hdr, ext_buf := NG_MBUF_POISON,
            ext_size := NG_MBUF_POISON, m_dat := poison_dat, m_next := mfree st\<rparr>
     else b\<lparr>m_next := mfree st\<rparr>)"

lemma MCLFREE_sel [simp]:
  "mbufs (MCLFREE c st) = mbufs st" "mfree (MCLFREE c st) = mfree st" "conf (MCLFREE c st) = conf st"
  "ng_mbufcheck_active (MCLFREE c st) = ng_mbufcheck_active st" "drainable (MCLFREE c st) = drainable st"
  "allocs (MCLFREE c st) = allocs st" "max_protohdr (MCLFREE c st) = max_protohdr st"
  "mcl_buf (clus (MCLFREE c st) d) = mcl_buf (clus st d)"
  by (auto simp: MCLFREE_def upd_clus_def Let_def)

lemma MFREE_next: "\<not> (ng_mbufcheck_active st \<and> m_type (mbufs st m) = MT_FREE) \<Longrightarrow>
   snd (MFREE m st) = m_next (mbufs st m)"
  by (auto simp: MFREE_def ng_mbuf_bad_free_def count_type_def Let_def split: prod.splits)

lemma MFREE_sel:
  assumes "\<not> (ng_mbufcheck_active st \<and> m_type (mbufs st m) = MT_FREE)"
  defines "st' \<equiv> fst (MFREE m st)"
  shows "mbufs st' = (mbufs st)(m := freed st m)" "mfree st' = m" "conf st' = conf st"
    "ng_mbufcheck_active st' = ng_mbufcheck_active st" "drainable st' = drainable st"
    "allocs st' = allocs st" "max_protohdr st' = max_protohdr st"
    "mcl_buf (clus st' d) = mcl_buf (clus st d)"
    "clus st' = clus (if has_flag M_EXT (mbufs st m) then MCLFREE (ext_buf (mbufs st m)) st else st)"
    "mclfree st' = mclfree (if has_flag M_EXT (mbufs st m) then MCLFREE (ext_buf (mbufs st m)) st else st)"
  using assms(1) unfolding st'_def
  by (auto simp: MFREE_def ng_mbuf_bad_free_def count_type_def Let_def freed_def ng_mbuf_poison_def upd_def
      MCLFREE_def upd_clus_def fun_upd_def split: prod.splits)

lemma freed_sel: "m_next (freed st m) = mfree st"
  "ng_mbufcheck_active st \<Longrightarrow> m_type (freed st m) = MT_FREE \<and> poisoned (freed st m)"
  "length (m_dat (mbufs st m)) = 108 \<Longrightarrow> length (m_dat (freed st m)) = 108"
  by (auto simp: freed_def Let_def poisoned_def poison_dat_def)

text \<open>Dropping one reference of a cluster.\<close>

lemma MCLFREE_word:
  "clus (MCLFREE c st) d =
     (if d = c then (if mcl_refcnt (mcl_word (clus st c)) - 1 = 0 then (clus st c)\<lparr>mcl_word := mclfree st\<rparr>
                     else (clus st c)\<lparr>mcl_word := set_refcnt (mcl_refcnt (mcl_word (clus st c)) - 1) (mcl_word (clus st c))\<rparr>)
      else clus st d)"
  "mclfree (MCLFREE c st) = (if mcl_refcnt (mcl_word (clus st c)) - 1 = 0 then c else mclfree st)"
  by (auto simp: MCLFREE_def upd_clus_def Let_def)

lemma cl_inv_remove:
  assumes "cl_inv st L cs" "finite L" "card L < 65536" "a \<in> L"
    and "mbufs st' = (mbufs st)(a := b)"
    and "clus st' = clus (if has_flag M_EXT (mbufs st a) then MCLFREE (ext_buf (mbufs st a)) st else st)"
    and "mclfree st' = mclfree (if has_flag M_EXT (mbufs st a) then MCLFREE (ext_buf (mbufs st a)) st else st)"
  shows "\<exists>cs'. cl_inv st' (L - {a}) cs'"
proof -
  let ?h = "mbufs st" and ?c = "ext_buf (mbufs st a)"
  have rest: "nref ?h L c = nref ?h (L - {a}) c + (if has_flag M_EXT (?h a) \<and> ext_buf (?h a) = c then 1 else 0)" for c
    using nref_insert[of "L - {a}" a ?h c] assms(2,4) by (simp add: insert_absorb)
  have same: "nref (?h(a := b)) (L - {a}) c = nref ?h (L - {a}) c" for c
    by (rule nref_cong) simp
  show ?thesis
  proof (cases "has_flag M_EXT (?h a)")
    case False
    then have "cl_inv st' (L - {a}) cs"
      using assms(1) rest unfolding cl_inv_def by (simp add: assms(5-7) same)
    then show ?thesis by blast
  next
    case True
    have c0: "?c \<noteq> 0" "?c \<notin> set cs" "mcl_refcnt (mcl_word (clus st ?c)) = of_nat (nref ?h L ?c)"
      using assms(1,4) True by (auto simp: cl_inv_def)
    have n: "0 < nref ?h L ?c" "nref ?h L ?c < 65536"
      using nref_pos[of L a ?h, OF assms(2,4) True] nref_le[OF assms(2), of ?h ?c] assms(3) by auto
    note dec = refcnt_dec[OF n]
    have cc: "cchain (clus st') p cs = cchain (clus st) p cs" for p
      by (rule cchain_cong) (use c0 True in \<open>auto simp: assms(6) MCLFREE_word\<close>)
    have old: "cchain (clus st) (mclfree st) cs" using assms(1) by (simp add: cl_inv_def)
    have others: "mbufs st' x = ?h x \<and> ext_buf (?h x) \<noteq> 0 \<and> ext_buf (?h x) \<notin> set cs \<and>
        mcl_refcnt (mcl_word (clus st (ext_buf (?h x)))) = of_nat (nref ?h L (ext_buf (?h x)))"
      if "x \<in> L - {a}" "has_flag M_EXT (mbufs st' x)" for x
      using assms(1) that by (auto simp: cl_inv_def assms(5))
    have cl': "clus st' d = clus (MCLFREE ?c st) d" "mclfree st' = mclfree (MCLFREE ?c st)" for d
      using True assms(6,7) by simp_all
    have nr: "nref (mbufs st') (L - {a}) c = nref ?h L c - (if ?c = c then 1 else 0)" for c
      using rest[of c] True by (simp add: assms(5) same)
    have count: "mcl_refcnt (mcl_word (clus st' d)) = of_nat (nref (mbufs st') (L - {a}) d)"
      if "d \<noteq> ?c \<or> nref ?h L ?c \<noteq> 1" "mcl_refcnt (mcl_word (clus st d)) = of_nat (nref ?h L d)" for d
      using that c0(3) dec unfolding nr cl' MCLFREE_word by (cases "d = ?c") simp_all
    show ?thesis
    proof (cases "nref ?h L ?c = 1")
      case one: True
      have ch: "cchain (clus st') (mclfree st') (?c # cs)"
        using True c0 dec one cc old
        by (simp add: cc) (simp add: assms(6,7) MCLFREE_word)
      have nc: "ext_buf (?h x) \<noteq> ?c" if "x \<in> L - {a}" "has_flag M_EXT (?h x)" for x
        using nref_pos[of "L - {a}" x ?h] rest[of ?c] one True that assms(2) by auto
      have "cl_inv st' (L - {a}) (?c # cs)"
        unfolding cl_inv_def
      proof (intro conjI ballI impI ch)
        fix x assume x: "x \<in> L - {a}" "has_flag M_EXT (mbufs st' x)"
        note o = others[OF x]
        have ne: "ext_buf (?h x) \<noteq> ?c" using nc[OF x(1)] x(2) o by simp
        show "ext_buf (mbufs st' x) \<noteq> 0" "ext_buf (mbufs st' x) \<notin> set (?c # cs)" using o ne by auto
        show "mcl_refcnt (mcl_word (clus st' (ext_buf (mbufs st' x)))) =
            of_nat (nref (mbufs st') (L - {a}) (ext_buf (mbufs st' x)))"
          using count[of "ext_buf (?h x)"] o ne by simp
      qed (use assms(1) c0 in \<open>auto simp: cl_inv_def\<close>)
      then show ?thesis by blast
    next
      case False
      have ch: "cchain (clus st') (mclfree st') cs"
        using True c0 dec False cc old
        by (simp add: cc) (simp add: assms(6,7) MCLFREE_word)
      have "cl_inv st' (L - {a}) cs"
        unfolding cl_inv_def
      proof (intro conjI ballI impI ch)
        fix x assume x: "x \<in> L - {a}" "has_flag M_EXT (mbufs st' x)"
        note o = others[OF x]
        show "ext_buf (mbufs st' x) \<noteq> 0" "ext_buf (mbufs st' x) \<notin> set cs" using o by auto
        show "mcl_refcnt (mcl_word (clus st' (ext_buf (mbufs st' x)))) =
            of_nat (nref (mbufs st') (L - {a}) (ext_buf (mbufs st' x)))"
          using count[of "ext_buf (?h x)"] o False by simp
      qed (use assms(1) in \<open>auto simp: cl_inv_def\<close>)
      then show ?thesis by blast
    qed
  qed
qed

lemma alloc_ok_mono:
  assumes "alloc_ok st U" "finite U" "V \<subseteq> U" "allocs st' = allocs st" "conf st' = conf st"
  shows "alloc_ok st' V"
proof -
  have "grow_slots st' = grow_slots st" using assms(5) by (intro ext) (simp add: grow_slots_def)
  then show ?thesis
    using assms(1,3,4) card_mono[OF assms(2,3)] unfolding alloc_ok_def Let_def
    by (simp only:) auto
qed

lemma sysx_finite: "sysx st C fs dss cs \<Longrightarrow> finite (C \<union> set (fs @ concat dss))"
  by (simp add: sysx_def)

lemma list_all2_chain_cong:
  "(\<And>a. a \<in> set (concat dss) \<Longrightarrow> m_next (h a) = m_next (h' a)) \<Longrightarrow>
   list_all2 (chain h) hs dss = list_all2 (chain h') hs dss"
proof (induction dss arbitrary: hs)
  case (Cons ds dss)
  have "chain h p ds = chain h' p ds" for p by (rule chain_cong) (use Cons.prems in auto)
  moreover have "list_all2 (chain h) hs dss = list_all2 (chain h') hs dss" for hs
    by (rule Cons.IH) (use Cons.prems in auto)
  ultimately show ?case by (auto simp: list_all2_Cons2)
qed simp

lemma m_free_sysx:
  assumes "sysx st C fs dss cs" "a \<in> C"
  obtains st' cs' where "MFREE a st = (st', m_next (mbufs st a))"
    "sysx st' (C - {a}) (a # fs) dss cs'" "keeps (C - {a}) st st'" "mbufs st' = (mbufs st)(a := freed st a)"
proof -
  have nf: "\<not> (ng_mbufcheck_active st \<and> m_type (mbufs st a) = MT_FREE)" using assms by (auto simp: sysx_def)
  obtain st' where st': "MFREE a st = (st', m_next (mbufs st a))" using MFREE_next[OF nf] by (metis prod.collapse)
  have st'_def: "st' = fst (MFREE a st)" using st' by simp
  note sel = MFREE_sel[OF nf, folded st'_def]
  let ?L = "C \<union> set (concat dss)" and ?U = "C \<union> set (fs @ concat dss)"
  have disj: "a \<notin> set fs" "a \<notin> set (concat dss)" using assms by (auto simp: sysx_def)
  have fin: "finite ?L" "card ?L \<le> card ?U"
    using sysx_finite[OF assms(1)] by (auto intro: card_mono)
  have "card ?U < 65536" using assms(1) by (auto simp: sysx_def alloc_ok_def Let_def)
  moreover have "cl_inv st ?L cs" using assms(1) by (simp add: sysx_def)
  ultimately obtain cs' where cs': "cl_inv st' (?L - {a}) cs'"
    using cl_inv_remove[OF _ fin(1) _ _ sel(1) sel(9) sel(10)] fin(2) assms(2) by fastforce
  have La: "?L - {a} = (C - {a}) \<union> set (concat dss)" using disj by auto
  have Ua: "(C - {a}) \<union> set ((a # fs) @ concat dss) = ?U" using assms(2) by auto
  have dch: "list_all2 (chain (mbufs st')) (drainable st) dss"
  proof -
    have "list_all2 (chain (mbufs st')) (drainable st) dss = list_all2 (chain (mbufs st)) (drainable st) dss"
      by (rule list_all2_chain_cong) (use disj sel(1) in auto)
    then show ?thesis using assms(1) by (simp add: sysx_def)
  qed
  have fch: "chain (mbufs st') (mfree st') (a # fs)"
  proof -
    have "chain (mbufs st') (mfree st) fs = chain (mbufs st) (mfree st) fs"
      by (rule chain_cong) (use disj sel(1) in auto)
    then show ?thesis using assms by (auto simp: sysx_def sel freed_sel)
  qed
  have al: "alloc_ok st' ?U"
    by (rule alloc_ok_mono[of st ?U]) (use assms(1) sel in \<open>auto simp: sysx_def\<close>)
  have "sysx st' (C - {a}) (a # fs) dss cs'"
    unfolding sysx_def Ua La[symmetric]
    using assms dch fch cs' al disj
    by (auto simp: sysx_def sel(1,2,4,5) freed_sel)
  moreover have "keeps (C - {a}) st st'" by (simp add: keeps_def sel)
  ultimately show thesis using that st' sel(1) by blast
qed

section \<open>Walking and freeing chains\<close>


lemma chain_suffix: "chain h p (xs @ a # ys) \<Longrightarrow> chain h a (a # ys)"
  by (induction xs arbitrary: p) auto

lemma chain_distinct: "chain h p as \<Longrightarrow> distinct as"
proof (rule ccontr)
  assume c: "chain h p as" and "\<not> distinct as"
  then obtain xs a ys zs where s: "as = xs @ [a] @ ys @ [a] @ zs" using not_distinct_decomp by blast
  have "chain h a (a # ys @ a # zs)" using c s chain_suffix[of h p xs a "ys @ a # zs"] by simp
  moreover have "chain h a (a # zs)" using c s chain_suffix[of h p "xs @ a # ys" a zs] by simp
  ultimately have "a # ys @ a # zs = a # zs" by (rule chain_fun)
  then have "length (a # ys @ a # zs) = length (a # zs)" by (rule arg_cong)
  then show False by simp
qed

lemma m_freem_sysx:
  assumes "sysx st C fs dss cs" "chain (mbufs st) p ps" "set ps \<subseteq> C"
  obtains st' cs' where "m_freem p st = Some st'" "sysx st' (C - set ps) (rev ps @ fs) dss cs'"
    "keeps (C - set ps) st st'"
  using assms
proof (induction ps arbitrary: st C fs cs p thesis)
  case Nil
  have "m_freem p st = Some st" using Nil.prems(3) by (subst m_freem.simps) simp
  then show ?case using Nil.prems by auto
next
  case (Cons a as)
  have p: "p = a" "a \<noteq> 0" "chain (mbufs st) (m_next (mbufs st a)) as" "a \<in> C" "set as \<subseteq> C" "a \<notin> set as"
    using Cons.prems(3,4) chain_distinct[OF Cons.prems(3)] by auto
  obtain st1 cs1 where 1: "MFREE a st = (st1, m_next (mbufs st a))"
    "sysx st1 (C - {a}) (a # fs) dss cs1" "keeps (C - {a}) st st1" "mbufs st1 = (mbufs st)(a := freed st a)"
    by (rule m_free_sysx[OF Cons.prems(2) p(4)])
  have "chain (mbufs st1) (m_next (mbufs st a)) as = chain (mbufs st) (m_next (mbufs st a)) as"
    by (rule chain_cong) (use 1(4) p(6) in auto)
  then have c: "chain (mbufs st1) (m_next (mbufs st a)) as" using p(3) by simp
  have sub: "set as \<subseteq> C - {a}" using p(5,6) by auto
  obtain st2 cs2 where 2: "m_freem (m_next (mbufs st a)) st1 = Some st2"
    "sysx st2 (C - {a} - set as) (rev as @ a # fs) dss cs2" "keeps (C - {a} - set as) st1 st2"
    using Cons.IH[OF _ 1(2) c sub] by blast
  have set: "C - {a} - set as = C - set (a # as)" by auto
  show ?case
  proof (rule Cons.prems(1))
    show "m_freem p st = Some st2" using p(1,2) 1(1) 2(1) by (subst m_freem.simps) simp
    show "sysx st2 (C - set (a # as)) (rev (a # as) @ fs) dss cs2" using 2(2) unfolding set by simp
    show "keeps (C - set (a # as)) st st2"
      unfolding set[symmetric] by (rule keeps_trans[OF 1(3) 2(3)]) auto
  qed
qed

lemma drain_chains_sysx:
  assumes "sysx st (C \<union> set (concat dss)) fs [] cs" "list_all2 (chain (mbufs st)) ps dss"
    "C \<inter> set (concat dss) = {}" "distinct (concat dss)"
  obtains st' fs' cs' where "drain_chains ps st = Some st'" "sysx st' C fs' [] cs'" "keeps C st st'"
  using assms
proof (induction dss arbitrary: st fs cs ps thesis)
  case Nil
  then show ?case by auto
next
  case (Cons ds dss)
  obtain p ps' where ps: "ps = p # ps'" "chain (mbufs st) p ds" "list_all2 (chain (mbufs st)) ps' dss"
    using Cons.prems(3) by (auto simp: list_all2_Cons2)
  have sub: "set ds \<subseteq> C \<union> set (concat (ds # dss))" by auto
  have rem: "C \<union> set (concat (ds # dss)) - set ds = C \<union> set (concat dss)"
    using Cons.prems(4,5) by auto
  obtain st1 cs1 where 1: "m_freem p st = Some st1" "sysx st1 (C \<union> set (concat dss)) (rev ds @ fs) [] cs1"
    "keeps (C \<union> set (concat dss)) st st1"
    using m_freem_sysx[OF Cons.prems(2) ps(2) sub] unfolding rem by blast
  have "list_all2 (chain (mbufs st1)) ps' dss = list_all2 (chain (mbufs st)) ps' dss"
    by (rule list_all2_chain_cong) (use 1(3) in \<open>auto simp: keeps_def\<close>)
  then have ch: "list_all2 (chain (mbufs st1)) ps' dss" using ps(3) by simp
  obtain st2 fs2 cs2 where 2: "drain_chains ps' st1 = Some st2" "sysx st2 C fs2 [] cs2" "keeps C st1 st2"
  proof -
    have "C \<inter> set (concat dss) = {}" "distinct (concat dss)" using Cons.prems(4,5) by auto
    from Cons.IH[OF _ 1(2) ch this] that show thesis by blast
  qed
  show ?case
  proof (rule Cons.prems(1))
    show "drain_chains ps st = Some st2" using ps(1) 1(1) 2(1) by simp
    show "sysx st2 C fs2 [] cs2" by (rule 2(2))
    show "keeps C st st2" by (rule keeps_trans[OF 1(3) 2(3)]) auto
  qed
qed

lemma sysx_cong:
  assumes "mbufs st' = mbufs st" "clus st' = clus st" "mfree st' = mfree st" "mclfree st' = mclfree st"
    "conf st' = conf st" "ng_mbufcheck_active st' = ng_mbufcheck_active st"
    "drainable st' = drainable st" "allocs st' = allocs st"
  shows "sysx st' C fs dss cs = sysx st C fs dss cs"
proof -
  have "grow_slots st' = grow_slots st" using assms(5) by (intro ext) (simp add: grow_slots_def)
  then have "alloc_ok st' U = alloc_ok st U" for U by (simp add: alloc_ok_def assms(8))
  moreover have "cl_inv st' L cs = cl_inv st L cs" for L by (simp add: cl_inv_def assms)
  ultimately show ?thesis by (simp add: sysx_def assms)
qed

lemma sysx_flat:
  assumes "sysx st C fs dss cs"
  shows "sysx (st\<lparr>drainable := []\<rparr>) (C \<union> set (concat dss)) fs [] cs"
proof -
  have "alloc_ok (st\<lparr>drainable := []\<rparr>) (C \<union> set (concat dss) \<union> set (fs @ concat []))"
    by (rule alloc_ok_mono[of st "C \<union> set (fs @ concat dss)"])
      (use assms sysx_finite[OF assms] in \<open>auto simp: sysx_def\<close>)
  moreover have "cl_inv (st\<lparr>drainable := []\<rparr>) (C \<union> set (concat dss) \<union> set (concat [])) cs"
    using assms by (simp add: sysx_def cl_inv_def)
  moreover have "0 \<notin> set (concat dss)"
  proof
    assume "0 \<in> set (concat dss)"
    then obtain ds where "ds \<in> set dss" "0 \<in> set ds" by auto
    then obtain i where "i < length dss" "0 \<in> set (dss ! i)" by (metis in_set_conv_nth)
    then show False
      using assms chain_nonzero[of "mbufs st" "drainable st ! i" "dss ! i"]
      by (auto simp: sysx_def list_all2_conv_all_nth)
  qed
  ultimately show ?thesis
    using assms unfolding sysx_def by (simp del: set_concat) blast
qed

lemma m_reclaim_sysx:
  assumes "sysx st C fs dss cs"
  obtains st' fs' cs' where "m_reclaim st = Some st'" "sysx st' C fs' [] cs'" "keeps C st st'"
proof -
  let ?st = "st\<lparr>drainable := []\<rparr>"
  have d: "list_all2 (chain (mbufs ?st)) (drainable st) dss" "C \<inter> set (concat dss) = {}" "distinct (concat dss)"
    using assms by (auto simp: sysx_def)
  obtain st1 fs1 cs1 where 1: "drain_chains (drainable st) ?st = Some st1" "sysx st1 C fs1 [] cs1" "keeps C ?st st1"
    by (rule drain_chains_sysx[OF sysx_flat[OF assms] d])
  let ?st2 = "st1\<lparr>st_drain := st_drain st1 + 1\<rparr>"
  show thesis
  proof (rule that[of ?st2 fs1 cs1])
    show "m_reclaim st = Some ?st2" using 1(1) by (simp add: m_reclaim_def)
    have "sysx ?st2 C fs1 [] cs1 = sysx st1 C fs1 [] cs1" by (rule sysx_cong) simp_all
    then show "sysx ?st2 C fs1 [] cs1" using 1(2) by blast
    show "keeps C st ?st2" using 1(3) by (simp add: keeps_def)
  qed
qed

section \<open>Allocating\<close>

definition fresh :: "nat \<Rightarrow> mbuf \<Rightarrow> bool" where
  "fresh ty b \<longleftrightarrow> m_type b = ty \<and> m_next b = 0 \<and> m_nextpkt b = 0 \<and> m_data b = 0 \<and> m_flags b = 0 \<and>
     length (m_dat b) = 108"

lemma MGET_nr_sel:
  fixes ty :: nat
  assumes "mfree st \<noteq> 0"
  defines "st' \<equiv> fst (MGET_nr ty st)" and "m \<equiv> mfree st"
  shows "snd (MGET_nr ty st) = m"
    "mbufs st' = (mbufs st)(m := (mbufs st m)\<lparr>m_type := ty, m_next := 0, m_nextpkt := 0, m_data := 0, m_flags := 0\<rparr>)"
    "mfree st' = m_next (mbufs st m)" "conf st' = conf st" "clus st' = clus st" "mclfree st' = mclfree st"
    "ng_mbufcheck_active st' = ng_mbufcheck_active st" "drainable st' = drainable st"
    "allocs st' = allocs st" "max_protohdr st' = max_protohdr st"
  using assms(1) unfolding st'_def m_def
  by (auto simp: MGET_nr_def Let_def upd_def count_type_def ng_mbuf_alloc_check_def fun_upd_def)

lemma MGET_nr_none: "mfree st = 0 \<Longrightarrow> MGET_nr ty st = (st, 0)"
  by (simp add: MGET_nr_def)

lemma has_flag_0 [simp]: "m_flags b = 0 \<Longrightarrow> \<not> has_flag f b"
  by (simp add: has_flag_def)

lemma cl_inv_add:
  assumes "cl_inv st L cs" "finite L" "m \<notin> L" "\<not> has_flag M_EXT b"
    and "mbufs st' = (mbufs st)(m := b)" "clus st' = clus st" "mclfree st' = mclfree st"
  shows "cl_inv st' (insert m L) cs"
proof -
  have "nref (mbufs st') (insert m L) c = nref (mbufs st) L c" for c
  proof -
    have "nref (mbufs st') (insert m L) c = nref (mbufs st') L c"
      using nref_insert[OF assms(2,3), of "mbufs st'"] assms(4,5) by simp
    also have "\<dots> = nref (mbufs st) L c" by (rule nref_cong) (use assms(3,5) in auto)
    finally show ?thesis .
  qed
  then show ?thesis using assms(1,3,4) unfolding cl_inv_def by (auto simp: assms(5-7))
qed

lemma MGET_nr_sysx:
  assumes "sysx st C fs dss cs" "mfree st \<noteq> 0" "ty \<noteq> MT_FREE"
  obtains st' fs' where "MGET_nr ty st = (st', mfree st)" "fs = mfree st # fs'"
    "sysx st' (insert (mfree st) C) fs' dss cs" "keeps C st st'" "fresh ty (mbufs st' (mfree st))"
    "mbufs st' = (mbufs st)(mfree st := mbufs st' (mfree st))" "mfree st \<notin> C"
proof -
  let ?m = "mfree st"
  obtain fs' where fs: "fs = ?m # fs'" "chain (mbufs st) (m_next (mbufs st ?m)) fs'"
    using assms(1,2) chain_nz unfolding sysx_def by blast
  define st' where "st' = fst (MGET_nr ty st)"
  note sel = MGET_nr_sel[OF assms(2), of ty, folded st'_def]
  have m: "?m \<notin> set fs'" "?m \<notin> C" "?m \<notin> set (concat dss)" using assms(1) fs by (auto simp: sysx_def)
  have "chain (mbufs st') (mfree st') fs' = chain (mbufs st) (mfree st') fs'"
    by (rule chain_cong) (use m sel(2) in auto)
  then have c1: "chain (mbufs st') (mfree st') fs'" using fs(2) sel(3) by simp
  have "list_all2 (chain (mbufs st')) (drainable st) dss = list_all2 (chain (mbufs st)) (drainable st) dss"
    by (rule list_all2_chain_cong) (use m sel(2) in auto)
  then have c2: "list_all2 (chain (mbufs st')) (drainable st') dss" using assms(1) sel(8) by (simp add: sysx_def)
  have U: "insert ?m C \<union> set (fs' @ concat dss) = C \<union> set (fs @ concat dss)" using fs by auto
  have c3: "cl_inv st' (insert ?m (C \<union> set (concat dss))) cs"
  proof (rule cl_inv_add[of st])
    show "mbufs st' = (mbufs st)(?m := (mbufs st ?m)\<lparr>m_type := ty, m_next := 0, m_nextpkt := 0, m_data := 0, m_flags := 0\<rparr>)"
      by (rule sel(2))
  qed (use assms(1) m sel in \<open>auto simp: sysx_def\<close>)
  have c4: "alloc_ok st' (C \<union> set (fs @ concat dss))"
    by (rule alloc_ok_mono[of st "C \<union> set (fs @ concat dss)"])
      (use assms(1) sysx_finite[OF assms(1)] sel in \<open>auto simp: sysx_def\<close>)
  have "sysx st' (insert ?m C) fs' dss cs"
    unfolding sysx_def U
    using assms c1 c2 c3 c4 m fs by (auto simp: sysx_def sel)
  moreover have "keeps C st st'" using m by (auto simp: keeps_def sel)
  moreover have "fresh ty (mbufs st' ?m)"
    using assms(1) fs by (auto simp: fresh_def sel(2) sysx_def)
  ultimately show thesis using that[of st' fs'] fs m sel(1,2) unfolding st'_def by (simp add: prod_eq_iff)
qed

lemma slots_Suc: "slots p (Suc n) = p # slots (p + of_nat MSIZE) n"
  unfolding slots_def upt_conv_Cons[OF zero_less_Suc] map_Suc_upt[symmetric]
  by (simp add: algebra_simps)

lemma m_alloc_loop_spec:
  fixes p :: ptr and n :: nat
  assumes "chain (mbufs st) (mfree st) fs" "distinct (slots p n)" "0 \<notin> set (slots p n)" "set (slots p n) \<inter> set fs = {}"
  defines "st' \<equiv> m_alloc_loop n p st"
  shows "chain (mbufs st') (mfree st') (rev (slots p n) @ fs) \<and>
    (\<forall>a. a \<notin> set (slots p n) \<longrightarrow> mbufs st' a = mbufs st a) \<and>
    (\<forall>a \<in> set (slots p n). m_type (mbufs st' a) = MT_FREE \<and> poisoned (mbufs st' a)) \<and>
    conf st' = conf st \<and> clus st' = clus st \<and> mclfree st' = mclfree st \<and>
    ng_mbufcheck_active st' = ng_mbufcheck_active st \<and> drainable st' = drainable st \<and>
    allocs st' = allocs st \<and> max_protohdr st' = max_protohdr st \<and> mbufmem st' = mbufmem st"
  using assms(1-4) unfolding st'_def
proof (induction n arbitrary: p st fs)
  case 0
  then show ?case by (simp add: slots_def)
next
  case (Suc n)
  let ?st = "(upd p (\<lambda>b. b\<lparr>m_next := mfree (ng_mbuf_poison p st)\<rparr>) (ng_mbuf_poison p st))\<lparr>mfree := p\<rparr>"
  let ?q = "p + of_nat MSIZE"
  have loop: "m_alloc_loop (Suc n) p st = m_alloc_loop n ?q ?st" by (simp add: Let_def)
  have p: "p \<notin> set fs" "p \<noteq> 0" "p \<notin> set (slots ?q n)" "distinct (slots ?q n)" "0 \<notin> set (slots ?q n)"
    "set (slots ?q n) \<inter> set (p # fs) = {}"
    using Suc.prems by (auto simp: slots_Suc)
  have "chain (mbufs ?st) (mfree st) fs = chain (mbufs st) (mfree st) fs"
    by (rule chain_cong) (use p in \<open>auto simp: upd_def ng_mbuf_poison_def\<close>)
  then have "chain (mbufs ?st) (mfree ?st) (p # fs)"
    using Suc.prems(1) p by (simp add: upd_def ng_mbuf_poison_def)
  note IH = Suc.IH[OF this p(4-6)]
  have st: "\<And>a. a \<noteq> p \<Longrightarrow> mbufs ?st a = mbufs st a" "m_type (mbufs ?st p) = MT_FREE" "poisoned (mbufs ?st p)"
    "conf ?st = conf st" "clus ?st = clus st" "mclfree ?st = mclfree st"
    "ng_mbufcheck_active ?st = ng_mbufcheck_active st" "drainable ?st = drainable st"
    "allocs ?st = allocs st" "max_protohdr ?st = max_protohdr st" "mbufmem ?st = mbufmem st"
    by (simp_all add: upd_def ng_mbuf_poison_def poisoned_def)
  show ?case
    using IH p(3) st unfolding loop slots_Suc by auto
qed

lemma alloc_ok_tail:
  assumes "alloc_ok st U" "finite U" "allocs st = mh # rest" "V \<subseteq> U \<union> set (grow_slots st mh)"
    "allocs st' = rest" "conf st' = conf st"
  shows "alloc_ok st' V"
proof -
  have g: "grow_slots st' = grow_slots st" using assms(6) by (intro ext) (simp add: grow_slots_def)
  let ?g = "grow_slots st mh" and ?r = "concat (map (grow_slots st) rest)"
  have d: "distinct (?g @ ?r)" "0 \<notin> set (?g @ ?r)" "set (?g @ ?r) \<inter> U = {}" "card U + length (?g @ ?r) < 65536"
    using assms(1,3) by (simp_all add: alloc_ok_def Let_def)
  have "card V \<le> card (U \<union> set ?g)" using assms(2,4) by (intro card_mono) auto
  also have "\<dots> = card U + length ?g" using d assms(2) by (subst card_Un_disjoint) (auto simp: distinct_card)
  finally have "card V + length ?r < 65536" using d(4) by simp
  then show ?thesis
    unfolding alloc_ok_def Let_def g assms(5) using d assms(4) by fastforce
qed

lemma grow_slots_fresh:
  assumes "sysx st C fs dss cs" "allocs st = mh # rest"
  shows "distinct (grow_slots st mh)" "0 \<notin> set (grow_slots st mh)"
    "set (grow_slots st mh) \<inter> (C \<union> set (fs @ concat dss)) = {}"
proof -
  have "alloc_ok st (C \<union> set (fs @ concat dss))" using assms(1) by (simp add: sysx_def)
  then show "distinct (grow_slots st mh)" "0 \<notin> set (grow_slots st mh)"
    "set (grow_slots st mh) \<inter> (C \<union> set (fs @ concat dss)) = {}"
    using assms(2) by (auto simp: alloc_ok_def Let_def)
qed

lemma m_alloc_cases:
  assumes "AllocMem st = (st1, mh)"
  shows "fst (m_alloc n st) = st \<or> fst (m_alloc n st) = st1 \<or>
    mh \<noteq> 0 \<and> fst (m_alloc n st) = m_alloc_loop (unat n) (first_slot mh)
      (st1\<lparr>st_memused := st_memused st1 + m_alloc_size n,
           mbufmem := \<lparr>mh_base = mh, mh_size = m_alloc_size n, ismbuf = True\<rparr> # mbufmem st1,
           st_mbufs := st_mbufs st1 + n\<rparr>)"
  by (simp add: m_alloc_def Let_def assms first_slot_def)

lemma m_alloc_sysx:
  assumes "sysx st C fs dss cs"
  obtains st' fs' where "fst (m_alloc (mbufchunk (conf st)) st) = st'" "sysx st' C fs' dss cs" "keeps C st st'"
proof -
  let ?n = "mbufchunk (conf st)" and ?U = "C \<union> set (fs @ concat dss)"
  let ?st1 = "fst (AllocMem st)" and ?mh = "snd (AllocMem st)"
  have AM: "AllocMem st = (?st1, ?mh)" by simp
  have pop: "sysx ?st1 C fs dss cs"
  proof (cases "allocs st")
    case Nil
    then show ?thesis using assms by (simp add: AllocMem_def)
  next
    case (Cons b rest)
    have "alloc_ok ?st1 ?U"
      by (rule alloc_ok_tail[of st ?U b rest]) (use assms Cons sysx_finite[OF assms] in \<open>auto simp: sysx_def AllocMem_def\<close>)
    moreover have "cl_inv ?st1 L cs = cl_inv st L cs" for L using Cons by (simp add: cl_inv_def AllocMem_def)
    ultimately show ?thesis using assms Cons by (simp add: sysx_def AllocMem_def)
  qed
  have k1: "keeps C st ?st1" by (auto simp: keeps_def AllocMem_def split: list.splits)
  consider (same) "fst (m_alloc ?n st) = st" | (fail) "fst (m_alloc ?n st) = ?st1"
    | (grow) sz where "?mh \<noteq> 0" "fst (m_alloc ?n st) = m_alloc_loop (unat ?n) (first_slot ?mh)
        (?st1\<lparr>st_memused := st_memused ?st1 + sz,
              mbufmem := \<lparr>mh_base = ?mh, mh_size = sz, ismbuf = True\<rparr> # mbufmem ?st1,
              st_mbufs := st_mbufs ?st1 + ?n\<rparr>)"
    using m_alloc_cases[OF AM, of ?n] by blast
  then show thesis
  proof cases
    case same
    then show thesis using that assms by simp
  next
    case fail
    then show thesis using that pop k1 by simp
  next
    case (grow sz)
    obtain rest where al: "allocs st = ?mh # rest" and ams: "AllocMem st = (st\<lparr>allocs := rest\<rparr>, ?mh)"
      using grow(1) by (cases "allocs st") (auto simp: AllocMem_def)
    have fst1: "?st1 = st\<lparr>allocs := rest\<rparr>" using ams by (metis fst_conv)
    let ?st2 = "?st1\<lparr>st_memused := st_memused ?st1 + sz,
              mbufmem := \<lparr>mh_base = ?mh, mh_size = sz, ismbuf = True\<rparr> # mbufmem ?st1,
              st_mbufs := st_mbufs ?st1 + ?n\<rparr>"
    let ?g = "grow_slots st ?mh" and ?st' = "m_alloc_loop (unat ?n) (first_slot ?mh) ?st2"
    have g: "?g = slots (first_slot ?mh) (unat ?n)" using grow(1) by (simp add: grow_slots_def)
    note fr = grow_slots_fresh[OF assms al]
    have st1: "mbufs ?st1 = mbufs st" "clus ?st1 = clus st" "mfree ?st1 = mfree st" "mclfree ?st1 = mclfree st"
      "conf ?st1 = conf st" "ng_mbufcheck_active ?st1 = ng_mbufcheck_active st" "drainable ?st1 = drainable st"
      "allocs ?st1 = rest" "max_protohdr ?st1 = max_protohdr st"
      by (simp_all add: fst1)
    have ch: "chain (mbufs ?st2) (mfree ?st2) fs" using assms st1 by (simp add: sysx_def)
    have gf: "set ?g \<inter> set fs = {}" using fr by auto
    define st' where "st' = ?st'"
    note L = m_alloc_loop_spec[OF ch, of "first_slot ?mh" "unat ?n", folded g, OF fr(1,2) gf, folded st'_def]
    have out: "mbufs st' a = mbufs st a" if "a \<in> C \<union> set (fs @ concat dss)" for a
    proof -
      have "a \<notin> set ?g" using fr(3) that by blast
      then show ?thesis using L st1 by simp
    qed
    have outL: "mbufs st' a = mbufs st a" if "a \<in> C \<union> set (concat dss)" for a
      using out[of a] that by auto
    have sel: "conf st' = conf st" "clus st' = clus st" "mclfree st' = mclfree st"
      "ng_mbufcheck_active st' = ng_mbufcheck_active st" "drainable st' = drainable st" "allocs st' = rest"
      "max_protohdr st' = max_protohdr st" "chain (mbufs st') (mfree st') (rev ?g @ fs)"
      "\<forall>a \<in> set ?g. m_type (mbufs st' a) = MT_FREE \<and> poisoned (mbufs st' a)"
      using L st1 by simp_all
    have "list_all2 (chain (mbufs st')) (drainable st) dss = list_all2 (chain (mbufs st)) (drainable st) dss"
      by (rule list_all2_chain_cong) (simp add: outL)
    then have c2: "list_all2 (chain (mbufs st')) (drainable st) dss" using assms by (simp add: sysx_def)
    have "nref (mbufs st') (C \<union> set (concat dss)) c = nref (mbufs st) (C \<union> set (concat dss)) c" for c
      by (rule nref_cong) (simp add: outL del: set_concat)
    then have c3: "cl_inv st' (C \<union> set (concat dss)) cs"
      using assms unfolding sysx_def cl_inv_def sel(2,3) by (simp add: outL del: set_concat)
    have c4: "alloc_ok st' (C \<union> set ((rev ?g @ fs) @ concat dss))"
      by (rule alloc_ok_tail[of st ?U ?mh rest])
        (use assms al sel sysx_finite[OF assms] in \<open>auto simp: sysx_def\<close>)
    have tyL: "m_type (mbufs st' a) \<noteq> MT_FREE" if "a \<in> C \<union> set (concat dss)" for a
      using that assms by (simp add: outL sysx_def del: set_concat)
    have len: "length (m_dat (mbufs st' a)) = 108" if "a \<in> C \<union> set ((rev ?g @ fs) @ concat dss)" for a
    proof (cases "a \<in> set ?g")
      case True
      then show ?thesis using sel(9) by (auto simp: poisoned_def poison_dat_def)
    next
      case False
      then have "a \<in> C \<union> set (fs @ concat dss)" using that by auto
      then show ?thesis using assms out by (simp add: sysx_def del: set_append set_concat)
    qed
    have poi: "m_type (mbufs st' a) = MT_FREE \<and> poisoned (mbufs st' a)"
      if "ng_mbufcheck_active st" "a \<in> set (rev ?g @ fs)" for a
    proof (cases "a \<in> set ?g")
      case False
      then have "a \<in> set fs" using that by simp
      then show ?thesis using assms that(1) out[of a] by (simp add: sysx_def)
    qed (use sel(9) in blast)
    have dis: "distinct ((rev ?g @ fs) @ concat dss)" "C \<inter> set ((rev ?g @ fs) @ concat dss) = {}"
      using assms fr by (auto simp: sysx_def)
    have "sysx st' C (rev ?g @ fs) dss cs"
      unfolding sysx_def sel(4,5)
      using assms sel(8) c2 c3 c4 tyL len poi dis by (simp add: sysx_def del: set_append set_concat distinct_append)
    moreover have "keeps C st st'" using outL sel by (simp add: keeps_def)
    ultimately show thesis using that grow(2) by (simp add: st'_def)
  qed
qed

lemma m_retry_sysx:
  assumes "sysx st C fs dss cs" "ty \<noteq> MT_FREE"
  obtains st' m fs' cs' where "m_retry ty st = Some (st', m)" "keeps C st st'"
    "if m = 0 then sysx st' C fs' [] cs'
     else m \<notin> C \<and> sysx st' (insert m C) fs' [] cs' \<and> fresh ty (mbufs st' m)"
proof -
  obtain st1 fs1 cs1 where 1: "m_reclaim st = Some st1" "sysx st1 C fs1 [] cs1" "keeps C st st1"
    by (rule m_reclaim_sysx[OF assms(1)])
  obtain st2 fs2 where 2: "(if mfree st1 = 0 then fst (m_alloc (mbufchunk (conf st1)) st1) else st1) = st2"
    "sysx st2 C fs2 [] cs1" "keeps C st1 st2"
    using m_alloc_sysx[OF 1(2)] 1(2) keeps_refl by metis
  have k: "keeps C st st2" by (rule keeps_trans[OF 1(3) 2(3)]) auto
  have r: "m_retry ty st = Some (MGET_nr ty st2)" by (simp add: m_retry_def 1(1) 2(1) Let_def)
  show thesis
  proof (cases "mfree st2 = 0")
    case True
    then show thesis using that[of st2 0 fs2 cs1] r k 2(2) by (simp add: MGET_nr_none)
  next
    case False
    obtain st3 fs3 where 3: "MGET_nr ty st2 = (st3, mfree st2)" "sysx st3 (insert (mfree st2) C) fs3 [] cs1"
      "keeps C st2 st3" "fresh ty (mbufs st3 (mfree st2))" "mfree st2 \<notin> C"
      using MGET_nr_sysx[OF 2(2) False assms(2)] by metis
    have "keeps C st st3" by (rule keeps_trans[OF k 3(3)]) auto
    then show thesis using that[of st3 "mfree st2" fs3 cs1] r 3 False by simp
  qed
qed

text \<open>The contract of an allocation, as the routines that call it use it.\<close>

lemma MGET_sys:
  assumes "sys st C" "ty \<noteq> MT_FREE"
  obtains st' m where "MGET ty st = Some (st', m)" "keeps C st st'"
    "m = 0 \<Longrightarrow> sys st' C" "m \<noteq> 0 \<Longrightarrow> m \<notin> C \<and> sys st' (insert m C) \<and> fresh ty (mbufs st' m)"
    "mfree st \<noteq> 0 \<Longrightarrow> m \<noteq> 0"
proof -
  obtain fs dss cs where s: "sysx st C fs dss cs" using assms(1) by (auto simp: sys_def)
  show thesis
  proof (cases "mfree st = 0")
    case True
    obtain st' m fs' cs' where 1: "m_retry ty st = Some (st', m)" "keeps C st st'"
      "if m = 0 then sysx st' C fs' [] cs'
       else m \<notin> C \<and> sysx st' (insert m C) fs' [] cs' \<and> fresh ty (mbufs st' m)"
      by (rule m_retry_sysx[OF s assms(2)])
    show thesis
    proof (rule that[of st' m])
      show "m = 0 \<Longrightarrow> sys st' C" using 1(3) unfolding sys_def by (simp split: if_splits) blast
      show "m \<noteq> 0 \<Longrightarrow> m \<notin> C \<and> sys st' (insert m C) \<and> fresh ty (mbufs st' m)"
        using 1(3) unfolding sys_def by (simp split: if_splits) blast
    qed (use 1 True in \<open>auto simp: MGET_def\<close>)
  next
    case False
    obtain st' fs' where "MGET_nr ty st = (st', mfree st)" "sysx st' (insert (mfree st) C) fs' dss cs"
      "keeps C st st'" "fresh ty (mbufs st' (mfree st))" "mfree st \<notin> C"
      using MGET_nr_sysx[OF s False assms(2)] by metis
    then show thesis using that[of st' "mfree st"] False by (auto simp: MGET_def sys_def)
  qed
qed

lemma m_free_sys:
  assumes "sys st C" "a \<in> C"
  obtains st' where "m_free a st = (st', m_next (mbufs st a))" "sys st' (C - {a})" "keeps (C - {a}) st st'"
  using assms m_free_sysx unfolding sys_def m_free_def by metis

lemma m_freem_sys:
  assumes "sys st C" "chain (mbufs st) p ps" "set ps \<subseteq> C"
  obtains st' where "m_freem p st = Some st'" "sys st' (C - set ps)" "keeps (C - set ps) st st'"
  using assms m_freem_sysx unfolding sys_def by metis

text \<open>Editing the owner's mbufs.\<close>

lemma sys_upd:
  assumes "sys st C"
    and "\<And>a. a \<notin> C \<Longrightarrow> mbufs st' a = mbufs st a"
    and "\<And>a. a \<in> C \<Longrightarrow> m_type (mbufs st' a) \<noteq> MT_FREE \<and> length (m_dat (mbufs st' a)) = 108 \<and>
      has_flag M_EXT (mbufs st' a) = has_flag M_EXT (mbufs st a) \<and>
      (has_flag M_EXT (mbufs st a) \<longrightarrow> ext_buf (mbufs st' a) = ext_buf (mbufs st a))"
    and "clus st' = clus st" "mfree st' = mfree st" "mclfree st' = mclfree st"
    "conf st' = conf st" "ng_mbufcheck_active st' = ng_mbufcheck_active st"
    "drainable st' = drainable st" "allocs st' = allocs st"
  shows "sys st' C"
proof -
  obtain fs dss cs where s: "sysx st C fs dss cs" using assms(1) by (auto simp: sys_def)
  then have out: "\<forall>a \<in> set (fs @ concat dss). mbufs st' a = mbufs st a"
    using assms(2) unfolding sysx_def by (metis disjoint_iff)
  have "chain (mbufs st') (mfree st) fs = chain (mbufs st) (mfree st) fs"
    by (rule chain_cong) (use out in auto)
  moreover have "list_all2 (chain (mbufs st')) (drainable st) dss = list_all2 (chain (mbufs st)) (drainable st) dss"
    by (rule list_all2_chain_cong) (use out in auto)
  moreover have "cl_inv st' (C \<union> set (concat dss)) cs"
  proof -
    have m: "has_flag M_EXT (mbufs st' a) = has_flag M_EXT (mbufs st a)"
      "has_flag M_EXT (mbufs st a) \<Longrightarrow> ext_buf (mbufs st' a) = ext_buf (mbufs st a)"
      if "a \<in> C \<union> set (concat dss)" for a using that out assms(3) by (cases "a \<in> C"; simp)+
    have "nref (mbufs st') (C \<union> set (concat dss)) c = nref (mbufs st) (C \<union> set (concat dss)) c" for c
      by (rule nref_cong) (use m in auto)
    then show ?thesis using s m unfolding sysx_def cl_inv_def assms(4,6) by simp
  qed
  moreover have "alloc_ok st' (C \<union> set (fs @ concat dss))"
    by (rule alloc_ok_mono[of st "C \<union> set (fs @ concat dss)"])
      (use s sysx_finite[OF s] assms in \<open>auto simp: sysx_def\<close>)
  moreover have "\<forall>a \<in> C \<union> set (concat dss). m_type (mbufs st' a) \<noteq> MT_FREE"
    "\<forall>a \<in> C \<union> set (fs @ concat dss). length (m_dat (mbufs st' a)) = 108"
  proof -
    have "m_type (mbufs st' a) \<noteq> MT_FREE" if "a \<in> C \<union> set (concat dss)" for a
      using that s out assms(3)[of a] by (cases "a \<in> C") (simp_all add: sysx_def del: set_concat)
    moreover have "length (m_dat (mbufs st' a)) = 108" if "a \<in> C \<union> set (fs @ concat dss)" for a
      using that s out assms(3)[of a] by (cases "a \<in> C") (simp_all add: sysx_def del: set_concat)
    ultimately show "\<forall>a \<in> C \<union> set (concat dss). m_type (mbufs st' a) \<noteq> MT_FREE"
      "\<forall>a \<in> C \<union> set (fs @ concat dss). length (m_dat (mbufs st' a)) = 108" by blast+
  qed
  ultimately have "sysx st' C fs dss cs"
    using s out unfolding sysx_def assms(5,8,9) by simp
  then show ?thesis by (auto simp: sys_def)
qed

end
