(* ===== verification/Mbuf_Data.thy ===== *)
theory Mbuf_Data
  imports Mbuf_Chain Mbuf_Pool
begin

text \<open>
  What an mbuf chain holds (\<open>cdata\<close>), and the routines that read it and trim it against that
  view: \<open>m_copydata\<close> reads an interval of the data, \<open>m_adj\<close> cuts it at either end.
\<close>

section \<open>What a chain holds\<close>

text \<open>An mbuf whose data lies in its storage.\<close>

definition mb_ok :: "mst \<Rightarrow> mbuf \<Rightarrow> bool" where
  "mb_ok st b \<longleftrightarrow> 0 \<le> m_len b \<and> m_len b < 2147483648 \<and>
     (if has_flag M_EXT b
      then 0 \<le> m_data b \<and> m_data b + m_len b \<le> int (length (mcl_buf (clus st (ext_buf b))))
      else (if has_flag M_PKTHDR b then MLEN - MHLEN else 0) \<le> m_data b \<and> m_data b + m_len b \<le> MLEN \<and>
           length (m_dat b) = nat MLEN)"

definition m_bytes :: "mst \<Rightarrow> mbuf \<Rightarrow> u8 list" where
  "m_bytes st b = m_read st b 0 (m_len b)"

definition chain_ok :: "mst \<Rightarrow> ptr list \<Rightarrow> bool" where
  "chain_ok st ps \<longleftrightarrow> (\<forall>a \<in> set ps. mb_ok st (mbufs st a))"

definition cdata :: "mst \<Rightarrow> ptr list \<Rightarrow> u8 list" where
  "cdata st ps = concat (map (\<lambda>a. m_bytes st (mbufs st a)) ps)"

definition clen :: "mst \<Rightarrow> ptr list \<Rightarrow> int" where
  "clen st ps = sum_list (map (\<lambda>a. m_len (mbufs st a)) ps)"

lemma chain_ok_simps [simp]:
  "chain_ok st []" "chain_ok st (a # as) \<longleftrightarrow> mb_ok st (mbufs st a) \<and> chain_ok st as"
  "chain_ok st (as @ bs) \<longleftrightarrow> chain_ok st as \<and> chain_ok st bs"
  by (auto simp: chain_ok_def)

lemma cdata_simps [simp]:
  "cdata st [] = []" "cdata st (a # as) = m_bytes st (mbufs st a) @ cdata st as"
  "cdata st (as @ bs) = cdata st as @ cdata st bs"
  by (simp_all add: cdata_def)

lemma clen_simps [simp]:
  "clen st [] = 0" "clen st (a # as) = m_len (mbufs st a) + clen st as"
  "clen st (as @ bs) = clen st as + clen st bs"
  by (simp_all add: clen_def)

lemma mb_ok_len: "mb_ok st b \<Longrightarrow> 0 \<le> m_len b"
  by (simp add: mb_ok_def)

lemma mb_ok_data: "mb_ok st b \<Longrightarrow> 0 \<le> m_data b"
  by (auto simp: mb_ok_def MLEN_def MHLEN_def split: if_splits)

lemma mb_ok_storage: "mb_ok st b \<Longrightarrow> m_data b + m_len b \<le> int (length (m_buf st b))"
  by (cases "has_flag M_EXT b") (simp_all add: mb_ok_def m_buf_def MLEN_def)

declare mb_ok_len [simp]

lemma length_m_bytes [simp]: "mb_ok st b \<Longrightarrow> length (m_bytes st b) = nat (m_len b)"
  using mb_ok_storage[of st b] mb_ok_data[of st b] mb_ok_len[of st b]
  by (simp add: m_bytes_def m_read_def)

lemma length_cdata: "chain_ok st ps \<Longrightarrow> int (length (cdata st ps)) = clen st ps"
  by (induction ps) auto

lemma clen_nonneg: "chain_ok st ps \<Longrightarrow> 0 \<le> clen st ps"
  by (induction ps) auto

lemma length_cdata_nat: "chain_ok st ps \<Longrightarrow> length (cdata st ps) = nat (clen st ps)"
  using length_cdata by fastforce

text \<open>A read inside an mbuf is a part of its bytes.\<close>

lemma m_read_bytes:
  "mb_ok st b \<Longrightarrow> 0 \<le> off \<Longrightarrow> off + n \<le> m_len b \<Longrightarrow>
   m_read st b off n = take (nat n) (drop (nat off) (m_bytes st b))"
  using mb_ok_data[of st b]
  by (simp add: m_read_def m_bytes_def drop_take nat_add_distrib ac_simps min_def)

text \<open>Both depend on the mbuf and the cluster buffers only.\<close>

lemma mbuf_view_cong:
  assumes "\<And>c. mcl_buf (clus st' c) = mcl_buf (clus st c)"
  shows "mb_ok st' b = mb_ok st b" "m_bytes st' b = m_bytes st b" "m_read st' b off n = m_read st b off n"
  by (simp_all add: m_bytes_def m_read_def m_buf_def mb_ok_def assms del: mb_ok_len)

section \<open>Copying out\<close>

lemma m_seek_spec:
  assumes "chain (mbufs st) m ps" "chain_ok st ps" "0 \<le> off"
  shows "\<exists>r. m_seek m off st = Some r \<and>
    (case r of None \<Rightarrow> clen st ps < off
     | Some (m', off') \<Rightarrow> \<exists>qs rs. ps = qs @ rs \<and> chain (mbufs st) m' rs \<and> off = clen st qs + off' \<and> 0 \<le> off' \<and>
         (if rs = [] then off' = 0 else off' = 0 \<or> off' < m_len (mbufs st (hd rs))))"
  using assms
proof (induction ps arbitrary: m off)
  case Nil
  then show ?case by (cases "off > 0") (subst m_seek.simps; auto)+
next
  case (Cons a as)
  let ?b = "mbufs st a"
  have m: "m = a" "a \<noteq> 0" "chain (mbufs st) (m_next ?b) as" using Cons.prems(1) by auto
  show ?case
  proof (cases "0 < off \<and> m_len ?b \<le> off")
    case False
    then have "m_seek m off st = Some (Some (m, off))" using m by (subst m_seek.simps) auto
    moreover have "a # as = [] @ a # as \<and> chain (mbufs st) m (a # as) \<and> off = clen st [] + off \<and> 0 \<le> off \<and>
        (if a # as = [] then off = 0 else off = 0 \<or> off < m_len (mbufs st (hd (a # as))))"
      using False Cons.prems by auto
    ultimately show ?thesis by (intro exI[of _ "Some (m, off)"]) (simp only: option.case prod.case, blast)
  next
    case True
    then have step: "m_seek m off st = m_seek (m_next ?b) (off - m_len ?b) st"
      using m by (subst m_seek.simps) simp
    obtain r where r: "m_seek (m_next ?b) (off - m_len ?b) st = Some r"
      "case r of None \<Rightarrow> clen st as < off - m_len ?b
       | Some (m', off') \<Rightarrow> \<exists>qs rs. as = qs @ rs \<and> chain (mbufs st) m' rs \<and> off - m_len ?b = clen st qs + off' \<and>
         0 \<le> off' \<and> (if rs = [] then off' = 0 else off' = 0 \<or> off' < m_len (mbufs st (hd rs)))"
    proof -
      have "chain_ok st as" "0 \<le> off - m_len ?b" using Cons.prems True by auto
      from Cons.IH[OF m(3) this] show thesis using that by blast
    qed
    have "case r of None \<Rightarrow> clen st (a # as) < off
       | Some (m', off') \<Rightarrow> \<exists>qs rs. a # as = qs @ rs \<and> chain (mbufs st) m' rs \<and> off = clen st qs + off' \<and>
         0 \<le> off' \<and> (if rs = [] then off' = 0 else off' = 0 \<or> off' < m_len (mbufs st (hd rs)))"
    proof (cases r)
      case (Some p)
      obtain m' off' where p: "p = (m', off')" by force
      obtain qs rs where "as = qs @ rs" "chain (mbufs st) m' rs" "off - m_len ?b = clen st qs + off'"
         "0 \<le> off'" "if rs = [] then off' = 0 else off' = 0 \<or> off' < m_len (mbufs st (hd rs))"
        using r(2) Some p by auto
      then have "a # as = (a # qs) @ rs \<and> chain (mbufs st) m' rs \<and> off = clen st (a # qs) + off' \<and> 0 \<le> off' \<and>
          (if rs = [] then off' = 0 else off' = 0 \<or> off' < m_len (mbufs st (hd rs)))" by simp
      then show ?thesis unfolding Some p by (simp only: option.case prod.case, blast)
    qed (use r(2) in auto)
    then show ?thesis using r(1) step by auto
  qed
qed

lemma m_copydata_loop_spec:
  assumes "chain (mbufs st) m rs" "chain_ok st rs" "0 \<le> off"
    and "if rs = [] then off = 0 else off \<le> m_len (mbufs st (hd rs))"
  shows "m_copydata_loop m off len out st = Some (out @ take (nat len) (drop (nat off) (cdata st rs)))"
  using assms
proof (induction rs arbitrary: m off len out)
  case Nil
  then show ?case by (subst m_copydata_loop.simps) simp
next
  case (Cons a as)
  let ?b = "mbufs st a"
  have m: "m = a" "a \<noteq> 0" "chain (mbufs st) (m_next ?b) as" and ok: "mb_ok st ?b" "chain_ok st as"
    and off: "0 \<le> off" "off \<le> m_len ?b"
    using Cons.prems by auto
  show ?case
  proof (cases "0 < len")
    case False
    then show ?thesis by (subst m_copydata_loop.simps) simp
  next
    case True
    let ?c = "min (m_len ?b - off) len"
    have rd: "m_read st ?b off ?c = take (nat ?c) (drop (nat off) (m_bytes st ?b))"
      by (rule m_read_bytes[OF ok(1) off(1)]) simp
    have "m_copydata_loop m off len out st =
        m_copydata_loop (m_next ?b) 0 (len - ?c) (out @ m_read st ?b off ?c) st"
      using True m by (subst m_copydata_loop.simps) (simp add: Let_def)
    also have "\<dots> = Some ((out @ m_read st ?b off ?c) @ take (nat (len - ?c)) (drop (nat 0) (cdata st as)))"
      by (rule Cons.IH[OF m(3) ok(2)]) (use ok in \<open>cases as; auto\<close>)+
    also have "\<dots> = Some (out @ take (nat len) (drop (nat off) (cdata st (a # as))))"
      unfolding rd using ok(1) off True by (cases "m_len ?b - off \<le> len") (auto simp: min_def nat_diff_distrib)
    finally show ?thesis .
  qed
qed

text \<open>
  On a chain whose mbufs hold their data, m_copydata returns exactly the len bytes of the
  chain data from off on, fewer when the chain is shorter, and nothing for a negative off or len;
  the walk always ends.\<close>

theorem m_copydata_spec:
  assumes "chain (mbufs st) m ps" "chain_ok st ps"
  shows "m_copydata m off len st =
    Some (if off < 0 \<or> len < 0 then [] else take (nat len) (drop (nat off) (cdata st ps)))"
proof (cases "off < 0 \<or> len < 0")
  case False
  obtain r where r: "m_seek m off st = Some r"
    "case r of None \<Rightarrow> clen st ps < off
     | Some (m', off') \<Rightarrow> \<exists>qs rs. ps = qs @ rs \<and> chain (mbufs st) m' rs \<and> off = clen st qs + off' \<and> 0 \<le> off' \<and>
         (if rs = [] then off' = 0 else off' = 0 \<or> off' < m_len (mbufs st (hd rs)))"
    using m_seek_spec[OF assms, of off] False by auto
  show ?thesis
  proof (cases r)
    case None
    then have "length (cdata st ps) \<le> nat off" using r(2) length_cdata_nat[OF assms(2)] by simp
    then show ?thesis using r(1) None False by (simp add: m_copydata_def)
  next
    case (Some p)
    obtain m' off' where p: "p = (m', off')" by force
    obtain qs rs where q: "ps = qs @ rs" "chain (mbufs st) m' rs" "off = clen st qs + off'" "0 \<le> off'"
      "if rs = [] then off' = 0 else off' = 0 \<or> off' < m_len (mbufs st (hd rs))"
      using r(2) Some p by auto
    have ok: "chain_ok st qs" "chain_ok st rs" using assms(2) q(1) by auto
    have "m_copydata_loop m' off' len [] st = Some ([] @ take (nat len) (drop (nat off') (cdata st rs)))"
      by (rule m_copydata_loop_spec[OF q(2) ok(2) q(4)]) (use q(5) ok(2) in \<open>cases rs; auto\<close>)
    moreover have "drop (nat off) (cdata st ps) = drop (nat off') (cdata st rs)"
      using q(1,3,4) length_cdata_nat[OF ok(1)] clen_nonneg[OF ok(1)] by (simp add: nat_add_distrib)
    ultimately show ?thesis using r(1) Some p False by (simp add: m_copydata_def)
  qed
qed (simp add: m_copydata_def)


section \<open>Trimming\<close>

text \<open>Changing only where the data of the mbufs \<open>A\<close> starts and ends, and packet headers.\<close>

definition trims :: "ptr set \<Rightarrow> mst \<Rightarrow> mst \<Rightarrow> bool" where
  "trims A st st' \<longleftrightarrow> st' = st\<lparr>mbufs := mbufs st'\<rparr> \<and> (\<forall>a. a \<notin> A \<longrightarrow> mbufs st' a = mbufs st a) \<and>
     (\<forall>a. m_next (mbufs st' a) = m_next (mbufs st a) \<and> m_nextpkt (mbufs st' a) = m_nextpkt (mbufs st a) \<and>
          m_type (mbufs st' a) = m_type (mbufs st a) \<and> m_flags (mbufs st' a) = m_flags (mbufs st a) \<and>
          ext_buf (mbufs st' a) = ext_buf (mbufs st a) \<and> ext_size (mbufs st' a) = ext_size (mbufs st a) \<and>
          m_dat (mbufs st' a) = m_dat (mbufs st a))"

lemma trims_refl [simp]: "trims A st st"
  by (simp add: trims_def)

lemma trims_trans:
  assumes "trims A st st1" "trims B st1 st2" "A \<subseteq> D" "B \<subseteq> D"
  shows "trims D st st2"
proof -
  have s1: "st1 = st\<lparr>mbufs := mbufs st1\<rparr>" and s2: "st2 = st1\<lparr>mbufs := mbufs st2\<rparr>"
    using assms(1,2) unfolding trims_def by blast+
  have "st1\<lparr>mbufs := x\<rparr> = st\<lparr>mbufs := x\<rparr>" for x by (subst s1) simp
  then have "st2 = st\<lparr>mbufs := mbufs st2\<rparr>" using s2 by (rule subst)
  moreover have "mbufs st2 a = mbufs st a" if "a \<notin> D" for a using assms that unfolding trims_def by (metis subsetD)
  ultimately show ?thesis using assms(1,2) unfolding trims_def by simp
qed

lemma trims_upd:
  assumes "a \<in> A" "\<And>b. m_next (f b) = m_next b" "\<And>b. m_nextpkt (f b) = m_nextpkt b" "\<And>b. m_type (f b) = m_type b"
    "\<And>b. m_flags (f b) = m_flags b" "\<And>b. ext_buf (f b) = ext_buf b" "\<And>b. ext_size (f b) = ext_size b"
    "\<And>b. m_dat (f b) = m_dat b"
  shows "trims A st (upd a f st)"
  using assms by (auto simp: trims_def upd_def)

lemma has_flag_cong: "m_flags b = m_flags c \<Longrightarrow> has_flag f b = has_flag f c"
  by (simp add: has_flag_def)

lemma trims_sel:
  assumes "trims A st st'"
  shows "a \<notin> A \<Longrightarrow> mbufs st' a = mbufs st a" "m_next (mbufs st' a) = m_next (mbufs st a)"
    "m_flags (mbufs st' a) = m_flags (mbufs st a)" "has_flag f (mbufs st' a) = has_flag f (mbufs st a)"
    "clus st' = clus st" "conf st' = conf st"
    "m_dat (mbufs st' a) = m_dat (mbufs st a)" "ext_buf (mbufs st' a) = ext_buf (mbufs st a)"
    "m_type (mbufs st' a) = m_type (mbufs st a)"
proof -
  have s: "st' = st\<lparr>mbufs := mbufs st'\<rparr>" and a: "a \<notin> A \<Longrightarrow> mbufs st' a = mbufs st a"
    and b: "m_next (mbufs st' a) = m_next (mbufs st a)" "m_flags (mbufs st' a) = m_flags (mbufs st a)"
      "m_dat (mbufs st' a) = m_dat (mbufs st a)" "ext_buf (mbufs st' a) = ext_buf (mbufs st a)"
      "m_type (mbufs st' a) = m_type (mbufs st a)"
    using assms unfolding trims_def by blast+
  have "clus st' = clus (st\<lparr>mbufs := mbufs st'\<rparr>)" "conf st' = conf (st\<lparr>mbufs := mbufs st'\<rparr>)" using s by metis+
  then show "clus st' = clus st" "conf st' = conf st" by simp_all
  show "a \<notin> A \<Longrightarrow> mbufs st' a = mbufs st a" by (rule a)
  show "m_next (mbufs st' a) = m_next (mbufs st a)" "m_flags (mbufs st' a) = m_flags (mbufs st a)"
    "m_dat (mbufs st' a) = m_dat (mbufs st a)" "ext_buf (mbufs st' a) = ext_buf (mbufs st a)"
    "m_type (mbufs st' a) = m_type (mbufs st a)" by (rule b)+
  show "has_flag f (mbufs st' a) = has_flag f (mbufs st a)" by (simp add: has_flag_def b(2))
qed

lemma trims_state:
  assumes "trims A st st'"
  shows "mfree st' = mfree st" "mclfree st' = mclfree st" "ng_mbufcheck_active st' = ng_mbufcheck_active st"
    "drainable st' = drainable st" "allocs st' = allocs st" "max_protohdr st' = max_protohdr st"
proof -
  have s: "st' = st\<lparr>mbufs := mbufs st'\<rparr>" using assms by (simp add: trims_def)
  show "mfree st' = mfree st" "mclfree st' = mclfree st" "ng_mbufcheck_active st' = ng_mbufcheck_active st"
    "drainable st' = drainable st" "allocs st' = allocs st" "max_protohdr st' = max_protohdr st"
    by (subst s, simp)+
qed

lemma trims_chain: "trims A st st' \<Longrightarrow> chain (mbufs st') p ps = chain (mbufs st) p ps"
  by (rule chain_cong) (simp add: trims_sel)

lemma trims_keeps: "trims A st st' \<Longrightarrow> C \<inter> A = {} \<Longrightarrow> keeps C st st'"
  by (auto simp: keeps_def trims_sel trims_state disjoint_iff)

lemma trims_sys:
  assumes "sys st C" "trims A st st'" "A \<subseteq> C"
  shows "sys st' C"
proof (rule sys_upd[OF assms(1)])
  fix a assume "a \<in> C"
  then show "m_type (mbufs st' a) \<noteq> MT_FREE \<and> length (m_dat (mbufs st' a)) = 108 \<and>
      has_flag M_EXT (mbufs st' a) = has_flag M_EXT (mbufs st a) \<and>
      (has_flag M_EXT (mbufs st a) \<longrightarrow> ext_buf (mbufs st' a) = ext_buf (mbufs st a))"
    using assms(1,2) by (auto simp: trims_sel sys_def sysx_def)
next
  fix a assume "a \<notin> C"
  then show "mbufs st' a = mbufs st a" using trims_sel(1)[OF assms(2)] assms(3) by blast
qed (use assms(2) in \<open>simp_all add: trims_sel trims_state\<close>)

text \<open>The data of a chain depends on its mbufs and on the cluster buffers only.\<close>

lemma cdata_cong:
  assumes "\<And>a. a \<in> set ps \<Longrightarrow> mbufs st' a = mbufs st a" "\<And>c. mcl_buf (clus st' c) = mcl_buf (clus st c)"
  shows "cdata st' ps = cdata st ps" "clen st' ps = clen st ps" "chain_ok st' ps = chain_ok st ps"
proof -
  note b = mbuf_view_cong[OF assms(2)]
  show "cdata st' ps = cdata st ps" "clen st' ps = clen st ps" "chain_ok st' ps = chain_ok st ps"
    unfolding cdata_def clen_def chain_ok_def using assms(1) b by (simp_all cong: map_cong)
qed

lemma trims_cdata:
  "trims A st st' \<Longrightarrow> set ps \<inter> A = {} \<Longrightarrow>
   cdata st' ps = cdata st ps \<and> clen st' ps = clen st ps \<and> chain_ok st' ps = chain_ok st ps"
  using cdata_cong[of ps st' st] by (auto simp: trims_sel disjoint_iff)

lemma wrap32_id: "- 2147483648 \<le> x \<Longrightarrow> x < 2147483648 \<Longrightarrow> wrap32 x = x"
  unfolding wrap32_def by (rule signed_take_bit_int_eq_self) simp_all

lemma m_bytes_trim:
  assumes "mb_ok st b" "0 \<le> i" "0 \<le> n" "i + n \<le> m_len b"
  shows "m_bytes st (b\<lparr>m_data := m_data b + i, m_len := n\<rparr>) = take (nat n) (drop (nat i) (m_bytes st b))"
    "mb_ok st (b\<lparr>m_data := m_data b + i, m_len := n\<rparr>)"
proof -
  have f: "has_flag f (b\<lparr>m_data := m_data b + i, m_len := n\<rparr>) = has_flag f b" for f by (simp add: has_flag_def)
  have "m_bytes st (b\<lparr>m_data := m_data b + i, m_len := n\<rparr>) = m_read st b i n"
    by (simp add: m_bytes_def m_read_def m_buf_def f)
  also have "\<dots> = take (nat n) (drop (nat i) (m_bytes st b))"
    by (rule m_read_bytes) (use assms in auto)
  finally show "m_bytes st (b\<lparr>m_data := m_data b + i, m_len := n\<rparr>) = take (nat n) (drop (nat i) (m_bytes st b))" .
  show "mb_ok st (b\<lparr>m_data := m_data b + i, m_len := n\<rparr>)"
    using assms by (auto simp: mb_ok_def f simp del: mb_ok_len)
qed

lemma m_bytes_cut:
  assumes "mb_ok st b" "0 \<le> n" "n \<le> m_len b"
  shows "m_bytes st (b\<lparr>m_len := n\<rparr>) = take (nat n) (m_bytes st b)" "mb_ok st (b\<lparr>m_len := n\<rparr>)"
  using m_bytes_trim[OF assms(1), of 0 n] assms by simp_all

lemma m_adj_head_spec:
  assumes "chain (mbufs st) m ps" "chain_ok st ps" "0 \<le> len"
  shows "\<exists>st'. m_adj_head m len st = Some (st', max 0 (len - clen st ps)) \<and> trims (set ps) st st' \<and>
    (\<forall>a. m_pkthdr (mbufs st' a) = m_pkthdr (mbufs st a)) \<and> chain_ok st' ps \<and>
    cdata st' ps = drop (nat len) (cdata st ps)"
  using assms
proof (induction ps arbitrary: m len st)
  case Nil
  then show ?case by (subst m_adj_head.simps) auto
next
  case (Cons a as)
  let ?b = "mbufs st a"
  have m: "m = a" "a \<noteq> 0" "chain (mbufs st) (m_next ?b) as" and ok: "mb_ok st ?b" "chain_ok st as" and na: "a \<notin> set as"
    using Cons.prems chain_distinct[OF Cons.prems(1)] by auto
  have nn: "0 \<le> clen st as" "0 \<le> m_len ?b" using ok clen_nonneg by auto
  consider (stop) "len = 0" | (all) "0 < len" "m_len ?b \<le> len" | (part) "0 < len" "len < m_len ?b"
    using Cons.prems(3) by linarith
  then show ?case
  proof cases
    case stop
    then show ?thesis using nn Cons.prems(2) by (subst m_adj_head.simps) (auto intro!: exI[of _ st])
  next
    case all
    let ?st1 = "upd a (\<lambda>b. b\<lparr>m_len := 0\<rparr>) st"
    have t1: "trims {a} st ?st1" by (rule trims_upd) simp_all
    have as1: "cdata ?st1 as = cdata st as" "clen ?st1 as = clen st as" "chain_ok ?st1 as" "chain (mbufs ?st1) (m_next ?b) as"
      using trims_cdata[OF t1, of as] trims_chain[OF t1] na ok m by auto
    obtain st' where st': "m_adj_head (m_next ?b) (len - m_len ?b) ?st1 = Some (st', max 0 (len - m_len ?b - clen ?st1 as))"
      "trims (set as) ?st1 st'" "\<forall>x. m_pkthdr (mbufs st' x) = m_pkthdr (mbufs ?st1 x)" "chain_ok st' as"
      "cdata st' as = drop (nat (len - m_len ?b)) (cdata ?st1 as)"
      using Cons.IH[OF as1(4,3), of "len - m_len ?b"] all by auto
    have a': "mbufs st' a = ?b\<lparr>m_len := 0\<rparr>" using trims_sel(1)[OF st'(2) na] by (simp add: upd_def)
    have cl: "clus st' = clus st" using trims_sel(5)[OF st'(2)] by (simp add: upd_def)
    have "m_bytes st' (?b\<lparr>m_len := 0\<rparr>) = []" by (simp add: m_bytes_def m_read_def)
    moreover have "mb_ok st' (?b\<lparr>m_len := 0\<rparr>)"
      using m_bytes_cut(2)[OF ok(1), of 0] nn mbuf_view_cong(1)[of st' st] cl by simp
    moreover have "trims (set (a # as)) st st'" by (rule trims_trans[OF t1 st'(2)]) auto
    moreover have "drop (nat (len - m_len ?b)) (cdata st as) = drop (nat len) (cdata st (a # as))"
      using ok nn all by (simp add: nat_diff_distrib)
    moreover have "m_adj_head m len st = Some (st', max 0 (len - clen st (a # as)))"
      using m all st'(1) as1 by (subst m_adj_head.simps) (simp add: algebra_simps)
    moreover have "m_pkthdr (mbufs st' x) = m_pkthdr (mbufs st x)" for x using st'(3) by (simp add: upd_def)
    ultimately show ?thesis
      using st'(4,5) as1(1) by (intro exI[of _ st']) (simp add: a')
  next
    case part
    let ?st1 = "upd a (\<lambda>b. b\<lparr>m_len := m_len b - len, m_data := m_data b + len\<rparr>) st"
    have t1: "trims {a} st ?st1" by (rule trims_upd) simp_all
    have as1: "cdata ?st1 as = cdata st as" "chain_ok ?st1 as"
      using trims_cdata[OF t1, of as] na ok by auto
    have b1: "mbufs ?st1 a = ?b\<lparr>m_data := m_data ?b + len, m_len := m_len ?b - len\<rparr>" by (simp add: upd_def)
    have same: "m_bytes ?st1 b = m_bytes st b" "mb_ok ?st1 b = mb_ok st b" for b
      by (rule mbuf_view_cong, simp add: upd_def)+
    have b2: "m_bytes ?st1 (mbufs ?st1 a) = drop (nat len) (m_bytes st ?b)" "mb_ok ?st1 (mbufs ?st1 a)"
      using m_bytes_trim[OF ok(1), of len "m_len ?b - len"] part ok(1) unfolding b1 same
      by (simp_all add: nat_diff_distrib)
    have "m_adj_head m len st = Some (?st1, max 0 (len - clen st (a # as)))"
      using m part nn by (subst m_adj_head.simps) simp
    moreover have "trims (set (a # as)) st ?st1" by (rule trims_trans[OF t1 trims_refl]) auto
    moreover have "cdata ?st1 (a # as) = drop (nat len) (cdata st (a # as))"
      using b2(1) as1(1) part ok(1) by simp
    ultimately show ?thesis using b2(2) as1(2)
      by (intro exI[of _ ?st1]) (simp add: upd_def)
  qed
qed

lemma m_adj_count_spec:
  assumes "chain (mbufs st) m ps" "ps \<noteq> []"
  shows "m_adj_count m c st = Some (c + clen st ps, last ps)"
  using assms
proof (induction ps arbitrary: m c)
  case (Cons a as)
  then show ?case
    by (cases as) (subst m_adj_count.simps; simp add: Let_def add.assoc)+
qed simp

lemma m_adj_zero_spec:
  assumes "chain (mbufs st) m (m # ps)"
  shows "\<exists>st'. m_adj_zero m st = Some st' \<and> trims (set ps) st st' \<and>
    (\<forall>a \<in> set ps. mbufs st' a = (mbufs st a)\<lparr>m_len := 0\<rparr>)"
  using assms
proof (induction ps arbitrary: m st)
  case Nil
  then show ?case by (subst m_adj_zero.simps) auto
next
  case (Cons a as)
  have n: "m_next (mbufs st m) = a" "a \<noteq> 0" "chain (mbufs st) a (a # as)" "a \<notin> set as"
    using Cons.prems chain_distinct[OF Cons.prems] by auto
  let ?st1 = "upd a (\<lambda>b. b\<lparr>m_len := 0\<rparr>) st"
  have t1: "trims {a} st ?st1" by (rule trims_upd) simp_all
  obtain st' where st': "m_adj_zero a ?st1 = Some st'" "trims (set as) ?st1 st'"
    "\<forall>x \<in> set as. mbufs st' x = (mbufs ?st1 x)\<lparr>m_len := 0\<rparr>"
  proof -
    have "chain (mbufs ?st1) a (a # as)" unfolding trims_chain[OF t1] by (rule n(3))
    from Cons.IH[OF this] that show thesis by blast
  qed
  have "mbufs st' a = mbufs ?st1 a" by (rule trims_sel(1)[OF st'(2) n(4)])
  moreover have "mbufs ?st1 x = mbufs st x" if "x \<in> set as" for x using that n(4) by (auto simp: upd_def)
  moreover have "trims (set (a # as)) st st'" by (rule trims_trans[OF t1 st'(2)]) auto
  moreover have "m_adj_zero m st = Some st'" using n st'(1) by (subst m_adj_zero.simps) (simp add: Let_def)
  ultimately show ?case using st'(3) by (intro exI[of _ st']) (simp add: upd_def)
qed

text \<open>Emptied mbufs hold nothing.\<close>

lemma emptied_chain:
  assumes "\<forall>a \<in> set ps. mbufs st' a = (mbufs st a)\<lparr>m_len := 0\<rparr>" "clus st' = clus st" "chain_ok st ps"
  shows "cdata st' ps = []" "chain_ok st' ps"
proof -
  have "m_bytes st' ((mbufs st a)\<lparr>m_len := 0\<rparr>) = []" for a by (simp add: m_bytes_def m_read_def)
  then show "cdata st' ps = []" using assms(1) by (simp add: cdata_def)
  have "mb_ok st' ((mbufs st a)\<lparr>m_len := 0\<rparr>)" if "a \<in> set ps" for a
    using m_bytes_cut(2)[of st "mbufs st a" 0] assms(3) that mbuf_view_cong(1)[of st' st] assms(2)
    by (simp add: chain_ok_def)
  then show "chain_ok st' ps" using assms(1) by (simp add: chain_ok_def)
qed

lemma m_adj_cut_spec:
  assumes "chain (mbufs st) m ps" "chain_ok st ps" "ps \<noteq> []" "0 \<le> count" "count \<le> clen st ps"
  shows "\<exists>st'. m_adj_cut m count st = Some st' \<and> trims (set ps) st st' \<and>
    (\<forall>a. m_pkthdr (mbufs st' a) = m_pkthdr (mbufs st a)) \<and> chain_ok st' ps \<and>
    cdata st' ps = take (nat count) (cdata st ps)"
  using assms
proof (induction ps arbitrary: m count)
  case (Cons a as)
  let ?b = "mbufs st a"
  have m: "m = a" "a \<noteq> 0" "chain (mbufs st) (m_next ?b) as" and ok: "mb_ok st ?b" "chain_ok st as" and na: "a \<notin> set as"
    using Cons.prems chain_distinct[OF Cons.prems(1)] by auto
  show ?case
  proof (cases "m_len ?b \<ge> count")
    case True
    let ?st1 = "upd a (\<lambda>b. b\<lparr>m_len := count\<rparr>) st"
    have t1: "trims {a} st ?st1" by (rule trims_upd) simp_all
    have c1: "chain (mbufs ?st1) a (a # as)" unfolding trims_chain[OF t1] using m Cons.prems(1) by simp
    obtain st' where st': "m_adj_zero a ?st1 = Some st'" "trims (set as) ?st1 st'"
      "\<forall>x \<in> set as. mbufs st' x = (mbufs ?st1 x)\<lparr>m_len := 0\<rparr>"
      using m_adj_zero_spec[OF c1] by blast
    have as1: "mbufs ?st1 x = mbufs st x" if "x \<in> set as" for x using that na by (auto simp: upd_def)
    have cl: "clus st' = clus st" using trims_sel(5)[OF st'(2)] trims_sel(5)[OF t1] by simp
    have e: "cdata st' as = []" "chain_ok st' as"
      using emptied_chain[of as st' st] st'(3) as1 cl ok(2) by simp_all
    have a': "mbufs st' a = ?b\<lparr>m_len := count\<rparr>" using trims_sel(1)[OF st'(2) na] by (simp add: upd_def)
    note view = mbuf_view_cong[of st' st, unfolded cl, OF refl]
    have b: "m_bytes st' (mbufs st' a) = take (nat count) (m_bytes st ?b)" "mb_ok st' (mbufs st' a)"
      unfolding a' view using m_bytes_cut[OF ok(1), of count] Cons.prems(4) True by simp_all
    have pk: "m_pkthdr (mbufs st' x) = m_pkthdr (mbufs st x)" for x
    proof (cases "x \<in> set as")
      case False
      then show ?thesis using trims_sel(1)[OF st'(2), of x] by (auto simp: upd_def)
    qed (use st'(3) as1 in simp)
    have "m_adj_cut m count st = Some st'" using m True st'(1) by (subst m_adj_cut.simps) simp
    moreover have "trims (set (a # as)) st st'" by (rule trims_trans[OF t1 st'(2)]) auto
    moreover have "take (nat count) (cdata st (a # as)) = take (nat count) (m_bytes st ?b)"
      using True ok(1) by simp
    ultimately show ?thesis using pk e b by (intro exI[of _ st']) simp
  next
    case False
    have nn: "0 \<le> m_len ?b" using ok by simp
    have as: "as \<noteq> []" using False Cons.prems(5) by auto
    have "0 \<le> count - m_len ?b" "count - m_len ?b \<le> clen st as" using False Cons.prems(5) by simp_all
    from Cons.IH[OF m(3) ok(2) as this] obtain st' where
      st': "m_adj_cut (m_next ?b) (count - m_len ?b) st = Some st'" "trims (set as) st st'"
      "\<forall>x. m_pkthdr (mbufs st' x) = m_pkthdr (mbufs st x)" "chain_ok st' as"
      "cdata st' as = take (nat (count - m_len ?b)) (cdata st as)" by blast
    have a': "mbufs st' a = ?b" by (rule trims_sel(1)[OF st'(2) na])
    have cl: "clus st' = clus st" by (rule trims_sel(5)[OF st'(2)])
    note view = mbuf_view_cong[of st' st, unfolded cl, OF refl]
    have "m_adj_cut m count st = Some st'" using m False st'(1) by (subst m_adj_cut.simps) simp
    moreover have "trims (set (a # as)) st st'" by (rule trims_trans[OF trims_refl st'(2)]) auto
    moreover have "take (nat count) (cdata st (a # as)) = m_bytes st ?b @ take (nat (count - m_len ?b)) (cdata st as)"
      using False ok(1) nn by (simp add: nat_diff_distrib)
    ultimately show ?thesis using st' ok(1) by (intro exI[of _ st']) (simp add: a' view)
  qed
qed simp

lemma trims_pkthdr:
  "trims {a} st (upd a (\<lambda>b. b\<lparr>m_pkthdr := g b\<rparr>) st)" by (rule trims_upd) simp_all

lemma pkthdr_view:
  "cdata (upd a (\<lambda>b. b\<lparr>m_pkthdr := g b\<rparr>) st) ps = cdata st ps"
  "clen (upd a (\<lambda>b. b\<lparr>m_pkthdr := g b\<rparr>) st) ps = clen st ps"
  "chain_ok (upd a (\<lambda>b. b\<lparr>m_pkthdr := g b\<rparr>) st) ps = chain_ok st ps"
proof -
  let ?st' = "upd a (\<lambda>b. b\<lparr>m_pkthdr := g b\<rparr>) st"
  have f: "has_flag f (mbufs ?st' x) = has_flag f (mbufs st x)" for f x by (simp add: upd_def has_flag_def)
  have s: "m_len (mbufs ?st' x) = m_len (mbufs st x)" "m_data (mbufs ?st' x) = m_data (mbufs st x)"
    "m_dat (mbufs ?st' x) = m_dat (mbufs st x)" "ext_buf (mbufs ?st' x) = ext_buf (mbufs st x)"
    "clus ?st' = clus st" for x by (simp_all add: upd_def)
  show "cdata ?st' ps = cdata st ps" "clen ?st' ps = clen st ps" "chain_ok ?st' ps = chain_ok st ps"
    unfolding cdata_def clen_def chain_ok_def mb_ok_def m_bytes_def m_read_def m_buf_def f s by (rule refl)+
qed

lemma last_data:
  assumes "chain_ok st ps" "ps \<noteq> []" "n \<le> m_len (mbufs st (last ps))"
  shows "clen st ps = clen st (butlast ps) + m_len (mbufs st (last ps))"
    "cdata st ps = cdata st (butlast ps) @ m_bytes st (mbufs st (last ps))" "chain_ok st (butlast ps)"
    "mb_ok st (mbufs st (last ps))"
proof -
  have "ps = butlast ps @ [last ps]" using assms(2) by simp
  then show "clen st ps = clen st (butlast ps) + m_len (mbufs st (last ps))"
    "cdata st ps = cdata st (butlast ps) @ m_bytes st (mbufs st (last ps))" "chain_ok st (butlast ps)"
    "mb_ok st (mbufs st (last ps))"
    using assms(1) by (metis clen_simps(3) clen_simps(2) clen_simps(1) add_0_right)
      (metis \<open>ps = butlast ps @ [last ps]\<close> cdata_simps append_Nil2, metis \<open>ps = butlast ps @ [last ps]\<close> assms(1) chain_ok_simps(3),
       metis \<open>ps = butlast ps @ [last ps]\<close> assms(1) chain_ok_simps(2,3))
qed

lemma last_notin_butlast: "distinct ps \<Longrightarrow> ps \<noteq> [] \<Longrightarrow> last ps \<notin> set (butlast ps)"
  by (induction ps rule: rev_induct) auto

text \<open>The part of \<open>m_adj\<close> that shortens only the last mbuf.\<close>

lemma m_adj_tail_last:
  assumes "chain (mbufs st) m ps" "ps \<noteq> []" "chain_ok st ps" "0 < k" "k \<le> m_len (mbufs st (last ps))" "k < 2147483648"
  defines "l \<equiv> last ps"
  shows "\<exists>st'. m_adj m (- k) st = Some st' \<and> trims {l} st st' \<and> chain_ok st' ps \<and>
    cdata st' ps = take (length (cdata st ps) - nat k) (cdata st ps) \<and> clen st' ps = clen st ps - k \<and>
    m_pkthdr (mbufs st' l) = (if has_flag M_PKTHDR (mbufs st l)
      then (m_pkthdr (mbufs st l))\<lparr>ph_len := wrap32 (ph_len (m_pkthdr (mbufs st l)) - k)\<rparr> else m_pkthdr (mbufs st l))"
proof -
  let ?b = "mbufs st l" and ?st1 = "upd l (\<lambda>b. b\<lparr>m_len := wrap32 (m_len b - k)\<rparr>) st"
  let ?g = "\<lambda>b. (m_pkthdr b)\<lparr>ph_len := wrap32 (ph_len (m_pkthdr b) - k)\<rparr>"
  let ?st' = "if has_flag M_PKTHDR (mbufs ?st1 l) then upd l (\<lambda>b. b\<lparr>m_pkthdr := ?g b\<rparr>) ?st1 else ?st1"
  have m: "m \<noteq> 0" using assms(1,2) by (cases ps) auto
  note L = last_data[OF assms(3,2,5), folded l_def]
  have k: "wrap32 (- (- k)) = k" "wrap32 (m_len ?b - k) = m_len ?b - k"
    using assms(4-6) L(4) by (auto intro!: wrap32_id simp: l_def mb_ok_def simp del: mb_ok_len)
  have run: "m_adj m (- k) st = Some ?st'"
    using m assms(4,5) k(1) m_adj_count_spec[OF assms(1,2), of 0]
    by (simp add: m_adj_def Let_def l_def)
  have t1: "trims {l} st ?st1" by (rule trims_upd) simp_all
  have t2: "trims {l} ?st1 ?st'" using trims_pkthdr[of l ?st1 ?g] by simp
  have t: "trims {l} st ?st'" by (rule trims_trans[OF t1 t2]) auto
  have view: "cdata ?st' qs = cdata ?st1 qs" "clen ?st' qs = clen ?st1 qs" "chain_ok ?st' qs = chain_ok ?st1 qs" for qs
    using pkthdr_view[of l ?g ?st1] by simp_all
  have ps: "ps = butlast ps @ [l]" using assms(2) by (simp add: l_def)
  have nl: "l \<notin> set (butlast ps)"
    unfolding l_def using chain_distinct[OF assms(1)] assms(2) by (rule last_notin_butlast)
  have rest: "cdata ?st1 (butlast ps) = cdata st (butlast ps)" "clen ?st1 (butlast ps) = clen st (butlast ps)"
    "chain_ok ?st1 (butlast ps) = chain_ok st (butlast ps)"
    using trims_cdata[OF t1, of "butlast ps"] nl by auto
  have b1: "mbufs ?st1 l = ?b\<lparr>m_len := m_len ?b - k\<rparr>" using k(2) by (simp add: upd_def)
  note v1 = mbuf_view_cong[of ?st1 st, unfolded trims_sel(5)[OF t1], OF refl]
  have b: "m_bytes ?st1 (mbufs ?st1 l) = take (nat (m_len ?b - k)) (m_bytes st ?b)" "mb_ok ?st1 (mbufs ?st1 l)"
    unfolding b1 v1 using m_bytes_cut[OF L(4), of "m_len ?b - k"] assms(4,5) by (simp_all add: l_def)
  have len: "length (cdata st ps) - nat k = length (cdata st (butlast ps)) + nat (m_len ?b - k)"
    using L assms(4,5) by (simp add: l_def nat_diff_distrib)
  have "cdata ?st1 ps = take (length (cdata st ps) - nat k) (cdata st ps)"
    unfolding len by (subst L(2), subst ps) (simp add: rest b)
  moreover have "clen ?st1 ps = clen st ps - k"
    unfolding L(1) by (subst ps) (simp add: rest b1)
  moreover have "chain_ok ?st1 ps" by (subst ps) (simp add: rest b L)
  moreover have "has_flag M_PKTHDR (mbufs ?st1 l) = has_flag M_PKTHDR ?b" by (rule trims_sel(4)[OF t1])
  ultimately show ?thesis using run t view by (intro exI[of _ ?st']) (simp add: upd_def)
qed

text \<open>What \<open>m_adj\<close> owes its caller, for each of its three ways.\<close>

definition adjusted :: "ptr set \<Rightarrow> mst \<Rightarrow> ptr list \<Rightarrow> ptr \<Rightarrow> int \<Rightarrow> mst \<Rightarrow> bool" where
  "adjusted C st ps m n st' \<longleftrightarrow> sys st' C \<and> keeps (C - set ps) st st' \<and>
    chain (mbufs st') m ps \<and> chain_ok st' ps \<and>
    cdata st' ps = (if 0 \<le> n then drop (nat n) (cdata st ps)
                    else take (length (cdata st ps) - nat (- n)) (cdata st ps)) \<and>
    (has_flag M_PKTHDR (mbufs st m) \<and> ph_len (m_pkthdr (mbufs st m)) = clen st ps \<and>
     (0 \<le> n \<or> ps = [m] \<or> m_len (mbufs st (last ps)) < - n) \<longrightarrow>
       ph_len (m_pkthdr (mbufs st' m)) = clen st' ps)"

lemma m_adj_by_head:
  assumes "sys st C" "chain (mbufs st) m ps" "ps \<noteq> []" "set ps \<subseteq> C" "chain_ok st ps"
    and "- 2147483648 < n" "clen st ps < 2147483648"
    and head: "0 \<le> n"
  shows "\<exists>st'. m_adj m n st = Some st' \<and> adjusted C st ps m n st'"
proof -
  have m: "m \<noteq> 0" "m \<in> set ps" using assms(2,3) by (cases ps; auto)+
  have fin: "sys st' C \<and> keeps (C - set ps) st st' \<and> chain (mbufs st') m ps" if "trims (set ps) st st'" for st'
    using trims_sys[OF assms(1) that assms(4)] trims_keeps[OF that, of "C - set ps"] trims_chain[OF that] assms(2) by auto
  have nn: "0 \<le> clen st ps" using clen_nonneg[OF assms(5)] .
  have cl: "clen st' ps = int (length (cdata st' ps))" if "chain_ok st' ps" for st' using length_cdata[OF that] by simp
  obtain st1 where 1: "m_adj_head m n st = Some (st1, max 0 (n - clen st ps))" "trims (set ps) st st1"
    "\<forall>a. m_pkthdr (mbufs st1 a) = m_pkthdr (mbufs st a)" "chain_ok st1 ps" "cdata st1 ps = drop (nat n) (cdata st ps)"
    using m_adj_head_spec[OF assms(2,5) head] by blast
  let ?l = "ph_len (m_pkthdr (mbufs st m)) - (n - max 0 (n - clen st ps))"
  let ?g = "\<lambda>b. (m_pkthdr b)\<lparr>ph_len := (let l = ph_len (m_pkthdr b) - (n - max 0 (n - clen st ps)) in if l < 0 then 0 else l)\<rparr>"
  let ?st' = "if has_flag M_PKTHDR (mbufs st1 m) then upd m (\<lambda>b. b\<lparr>m_pkthdr := ?g b\<rparr>) st1 else st1"
  have run: "m_adj m n st = Some ?st'" using m head 1(1) by (simp add: m_adj_def)
  have "trims {m} st1 ?st'" using trims_pkthdr[of m st1 ?g] by simp
  then have t: "trims (set ps) st ?st'" using trims_trans[OF 1(2)] m(2) by auto
  have view: "cdata ?st' ps = cdata st1 ps" "clen ?st' ps = clen st1 ps" "chain_ok ?st' ps = chain_ok st1 ps"
    using pkthdr_view[of m ?g st1] by simp_all
  have "clen st1 ps = max 0 (clen st ps - n)"
    unfolding cl[OF 1(4)] 1(5) using cl[OF assms(5)] head by simp
  moreover have "has_flag M_PKTHDR (mbufs st1 m) = has_flag M_PKTHDR (mbufs st m)" by (rule trims_sel(4)[OF 1(2)])
  ultimately have "has_flag M_PKTHDR (mbufs st m) \<and> ph_len (m_pkthdr (mbufs st m)) = clen st ps \<longrightarrow>
      ph_len (m_pkthdr (mbufs ?st' m)) = clen ?st' ps"
    using 1(3) nn head unfolding view by (simp add: upd_def Let_def max_def)
  then show ?thesis unfolding adjusted_def using run fin[OF t] view 1(4,5) head by auto
qed

lemma m_adj_by_last:
  assumes "sys st C" "chain (mbufs st) m ps" "ps \<noteq> []" "set ps \<subseteq> C" "chain_ok st ps"
    and "- 2147483648 < n" "clen st ps < 2147483648"
    and last: "n < 0" "- n \<le> m_len (mbufs st (last ps))"
  shows "\<exists>st'. m_adj m n st = Some st' \<and> adjusted C st ps m n st'"
proof -
  have m: "m \<noteq> 0" "m \<in> set ps" using assms(2,3) by (cases ps; auto)+
  have fin: "sys st' C \<and> keeps (C - set ps) st st' \<and> chain (mbufs st') m ps" if "trims (set ps) st st'" for st'
    using trims_sys[OF assms(1) that assms(4)] trims_keeps[OF that, of "C - set ps"] trims_chain[OF that] assms(2) by auto
  have nn: "0 \<le> clen st ps" using clen_nonneg[OF assms(5)] .
  have cl: "clen st' ps = int (length (cdata st' ps))" if "chain_ok st' ps" for st' using length_cdata[OF that] by simp
  have k: "0 < - n" "- n < 2147483648" using last assms(6) by auto
  obtain st' where 1: "m_adj m n st = Some st'" "trims {last ps} st st'" "chain_ok st' ps"
    "cdata st' ps = take (length (cdata st ps) - nat (- n)) (cdata st ps)" "clen st' ps = clen st ps + n"
    "m_pkthdr (mbufs st' (last ps)) = (if has_flag M_PKTHDR (mbufs st (last ps))
       then (m_pkthdr (mbufs st (last ps)))\<lparr>ph_len := wrap32 (ph_len (m_pkthdr (mbufs st (last ps))) + n)\<rparr>
       else m_pkthdr (mbufs st (last ps)))"
    using m_adj_tail_last[OF assms(2,3,5) k(1) last(2) k(2)] by auto
  have t: "trims (set ps) st st'" by (rule trims_trans[OF trims_refl[of "{}"] 1(2)]) (use assms(3) in auto)
  have "ph_len (m_pkthdr (mbufs st' m)) = clen st' ps"
    if "has_flag M_PKTHDR (mbufs st m)" "ph_len (m_pkthdr (mbufs st m)) = clen st ps" "ps = [m]"
  proof -
    have "wrap32 (clen st ps + n) = clen st ps + n"
      using last that(3) assms(7) by (intro wrap32_id) auto
    then show ?thesis using 1(5,6) that by simp
  qed
  then show ?thesis unfolding adjusted_def using 1 fin[OF t] last by auto
qed

lemma m_adj_by_cut:
  assumes "sys st C" "chain (mbufs st) m ps" "ps \<noteq> []" "set ps \<subseteq> C" "chain_ok st ps"
    and "- 2147483648 < n" "clen st ps < 2147483648"
    and cut: "n < 0" "m_len (mbufs st (last ps)) < - n"
  shows "\<exists>st'. m_adj m n st = Some st' \<and> adjusted C st ps m n st'"
proof -
  have m: "m \<noteq> 0" "m \<in> set ps" using assms(2,3) by (cases ps; auto)+
  have fin: "sys st' C \<and> keeps (C - set ps) st st' \<and> chain (mbufs st') m ps" if "trims (set ps) st st'" for st'
    using trims_sys[OF assms(1) that assms(4)] trims_keeps[OF that, of "C - set ps"] trims_chain[OF that] assms(2) by auto
  have nn: "0 \<le> clen st ps" using clen_nonneg[OF assms(5)] .
  have cl: "clen st' ps = int (length (cdata st' ps))" if "chain_ok st' ps" for st' using length_cdata[OF that] by simp
  let ?k = "- n" and ?c = "if clen st ps - - n < 0 then 0 else clen st ps - - n"
  have w: "wrap32 (- n) = - n" using cut assms(6) by (intro wrap32_id) auto
  let ?g = "\<lambda>b. (m_pkthdr b)\<lparr>ph_len := ?c\<rparr>"
  let ?st1 = "if has_flag M_PKTHDR (mbufs st m) then upd m (\<lambda>b. b\<lparr>m_pkthdr := ?g b\<rparr>) st else st"
  have t1: "trims {m} st ?st1" using trims_pkthdr[of m st ?g] by simp
  have view: "cdata ?st1 ps = cdata st ps" "clen ?st1 ps = clen st ps" "chain_ok ?st1 ps = chain_ok st ps"
    using pkthdr_view[of m ?g st] by simp_all
  have c1: "chain (mbufs ?st1) m ps" unfolding trims_chain[OF t1] by (rule assms(2))
  have cc: "0 \<le> ?c" "?c \<le> clen ?st1 ps" "chain_ok ?st1 ps" unfolding view using nn cut assms(5) by auto
  obtain st' where 1: "m_adj_cut m ?c ?st1 = Some st'" "trims (set ps) ?st1 st'"
    "\<forall>a. m_pkthdr (mbufs st' a) = m_pkthdr (mbufs ?st1 a)" "chain_ok st' ps" "cdata st' ps = take (nat ?c) (cdata ?st1 ps)"
    using m_adj_cut_spec[OF c1 cc(3) assms(3) cc(1,2)] by blast
  have run: "m_adj m n st = Some st'"
    using m cut w 1(1) m_adj_count_spec[OF assms(2,3), of 0]
    by (cases "clen st ps + n < 0"; cases "has_flag M_PKTHDR (mbufs st m)") (simp_all add: m_adj_def Let_def)
  have t: "trims (set ps) st st'" using trims_trans[OF t1 1(2)] m(2) by auto
  have nc: "nat ?c = length (cdata st ps) - nat (- n)"
    using cl[OF assms(5)] cut by auto
  have d: "cdata st' ps = take (length (cdata st ps) - nat (- n)) (cdata st ps)" unfolding 1(5) view nc ..
  have "clen st' ps = ?c" unfolding cl[OF 1(4)] 1(5) view using cl[OF assms(5)] nn cut by auto
  then have "has_flag M_PKTHDR (mbufs st m) \<longrightarrow> ph_len (m_pkthdr (mbufs st' m)) = clen st' ps"
    using 1(3) by (simp add: upd_def)
  then show ?thesis unfolding adjusted_def using run fin[OF t] 1(4) d cut by auto
qed

text \<open>
  M_adj on a chain the client owns always returns, keeps the pool invariant and touches no
  other mbuf; for n at least 0 it drops the first n data bytes, for a negative n other than the
  least int the last -n, all of them when there are fewer. A packet header whose length was right
  stays right, except when a tail trim of a chain of several mbufs is satisfied by the last mbuf
  alone.\<close>

theorem m_adj_spec:
  assumes "sys st C" "chain (mbufs st) m ps" "ps \<noteq> []" "set ps \<subseteq> C" "chain_ok st ps"
    and "- 2147483648 < n" "clen st ps < 2147483648"
  shows "\<exists>st'. m_adj m n st = Some st' \<and> sys st' C \<and> keeps (C - set ps) st st' \<and>
    chain (mbufs st') m ps \<and> chain_ok st' ps \<and>
    cdata st' ps = (if 0 \<le> n then drop (nat n) (cdata st ps)
                    else take (length (cdata st ps) - nat (- n)) (cdata st ps)) \<and>
    (has_flag M_PKTHDR (mbufs st m) \<and> ph_len (m_pkthdr (mbufs st m)) = clen st ps \<and>
     (0 \<le> n \<or> ps = [m] \<or> m_len (mbufs st (last ps)) < - n) \<longrightarrow>
       ph_len (m_pkthdr (mbufs st' m)) = clen st' ps)"
proof -
  consider (head) "0 \<le> n" | (last) "n < 0" "- n \<le> m_len (mbufs st (last ps))"
    | (cut) "n < 0" "m_len (mbufs st (last ps)) < - n" by linarith
  then have "\<exists>st'. m_adj m n st = Some st' \<and> adjusted C st ps m n st'"
    by cases (rule m_adj_by_head[OF assms] m_adj_by_last[OF assms] m_adj_by_cut[OF assms]; assumption)+
  then show ?thesis unfolding adjusted_def .
qed

text \<open>
  Trimming k bytes off the tail of a chain of two or more mbufs whose last mbuf holds at least
  k bytes leaves the head's packet length at its old value, k more than the chain now holds.\<close>

theorem m_adj_tail_stale_pkthdr:
  assumes "chain (mbufs st) m ps" "chain_ok st ps" "2 \<le> length ps" "0 < k" "k \<le> m_len (mbufs st (last ps))"
    and "ph_len (m_pkthdr (mbufs st m)) = clen st ps" "k < 2147483648"
  shows "\<exists>st'. m_adj m (- k) st = Some st' \<and> clen st' ps = clen st ps - k \<and>
    ph_len (m_pkthdr (mbufs st' m)) = clen st ps"
proof -
  have ps: "ps \<noteq> []" using assms(3) by auto
  obtain st' where 1: "m_adj m (- k) st = Some st'" "trims {last ps} st st'" "clen st' ps = clen st ps - k"
    using m_adj_tail_last[OF assms(1) ps assms(2,4,5,7)] by blast
  have "m \<noteq> last ps"
    using assms(1,3) chain_distinct[OF assms(1)] by (cases ps) (auto split: if_splits)
  then have "mbufs st' m = mbufs st m" using trims_sel(1)[OF 1(2)] by simp
  then show ?thesis using 1(1,3) assms(6) by auto
qed

text \<open>With the least int as length, m_adj leaves the last mbuf of the chain with a negative m_len:
  the negation of the request overflows.\<close>

lemma m_adj_int_min:
  assumes "chain (mbufs st) m ps" "ps \<noteq> []" "chain_ok st ps"
  shows "\<exists>st'. m_adj m (- 2147483648) st = Some st' \<and> m_len (mbufs st' (last ps)) < 0"
proof -
  let ?l = "last ps"
  have m: "m \<noteq> 0" using assms(1,2) by (cases ps) auto
  have w: "wrap32 2147483648 = - 2147483648" by (simp add: wrap32_def)
  have b: "0 \<le> m_len (mbufs st ?l)" "m_len (mbufs st ?l) < 2147483648"
    using assms(2,3) by (auto simp: chain_ok_def mb_ok_def simp del: mb_ok_len)
  have "wrap32 (m_len (mbufs st ?l) + 2147483648) = m_len (mbufs st ?l) - 2147483648"
  proof -
    have "wrap32 (m_len (mbufs st ?l) + 2147483648) = wrap32 (m_len (mbufs st ?l) - 2147483648)"
      unfolding wrap32_def signed_take_bit_eq_iff_take_bit_eq by (simp add: take_bit_eq_mod mod_eq_dvd_iff)
    also have "\<dots> = m_len (mbufs st ?l) - 2147483648" using b by (intro wrap32_id) auto
    finally show ?thesis .
  qed
  then show ?thesis
    using m w b m_adj_count_spec[OF assms(1,2), of 0]
    by (simp add: m_adj_def Let_def upd_def)
qed

section \<open>An example heap\<close>

text \<open>A packet of two mbufs holding the bytes 1 to 5, two free mbufs, no more memory.\<close>

definition ex_mbuf :: "ptr \<Rightarrow> int \<Rightarrow> u16 \<Rightarrow> u8 list \<Rightarrow> mbuf" where
  "ex_mbuf nx off fl bs = \<lparr>m_next = nx, m_nextpkt = 0, m_len = int (length bs), m_data = off, m_type = MT_DATA,
     m_flags = fl, m_pkthdr = \<lparr>ph_len = 5, ph_rcvif = 0, ph_csum = 0\<rparr>, ext_buf = 0, ext_size = 0,
     m_dat = replicate (nat off) 0 @ bs @ replicate (108 - nat off - length bs) 0\<rparr>"

definition ex_mst :: mst where
  "ex_mst = \<lparr>mbufs = (\<lambda>_. ex_mbuf 0 0 0 [])(0x80 := ex_mbuf 0x100 12 M_PKTHDR [1, 2, 3], 0x100 := ex_mbuf 0 0 0 [4, 5],
       0x180 := ex_mbuf 0x200 0 0 [], 0x200 := ex_mbuf 0 0 0 [], 0x280 := ex_mbuf 0 0 0 [6]),
     clus = (\<lambda>_. \<lparr>mcl_word = 0, mcl_buf = []\<rparr>), mfree = 0x180, mclfree = 0, mbufmem = [],
     conf = \<lparr>initial_mbuf_chunks = 1, mbufchunk = 32, clusterchunk = 1, maxmem = 64, mclbytes = 2048\<rparr>,
     st_mbufs = 5, st_clusters = 0, st_clfree = 0, st_drain = 0, st_memused = 0, st_mtypes = (\<lambda>_. 0),
     initialized = True, ng_mbufcheck = False, ng_mbufcheck_active = False, ng_mbuf_doublefree = 0,
     ng_mbuf_useafterfree = 0, ng_mbuf_listcorrupt = 0, MCFail = 0, MPFail = 0, max_protohdr = 40,
     allocs = [], drainable = []\<rparr>"

lemmas ex_defs = ex_mst_def ex_mbuf_def has_flag_def M_PKTHDR_def M_EXT_def MLEN_def MHLEN_def

lemma ex_sys: "sys ex_mst {0x80, 0x100, 0x280}"
  unfolding sys_def sysx_def
  by (rule exI[of _ "[0x180, 0x200]"], rule exI[of _ "[]"], rule exI[of _ "[]"])
    (simp add: ex_defs cl_inv_def alloc_ok_def MT_DATA_def MT_FREE_def)

lemma ex_chain: "chain (mbufs ex_mst) 0x80 [0x80, 0x100]" "chain (mbufs ex_mst) 0x280 [0x280]"
  "chain_ok ex_mst [0x80, 0x100]" "chain_ok ex_mst [0x280]"
  by (simp_all add: ex_defs mb_ok_def del: mb_ok_len)

lemma ex_cdata: "cdata ex_mst [0x80, 0x100] = [1, 2, 3, 4, 5]" "cdata ex_mst [0x280] = [6]"
  "clen ex_mst [0x80, 0x100] = 5"
  by (simp_all add: ex_defs m_bytes_def m_read_def m_buf_def)

lemma ex_head: "has_flag M_PKTHDR (mbufs ex_mst 0x80)" "m_len (mbufs ex_mst 0x100) = 2" "m_len (mbufs ex_mst 0x80) = 3"
  "ph_len (m_pkthdr (mbufs ex_mst 0x80)) = 5" "max_protohdr ex_mst = 40" "mfree ex_mst = 0x180"
  by (simp_all add: ex_defs)

theorem m_copydata_spec_witness: "m_copydata 0x80 2 2 ex_mst = Some [3, 4]"
  using m_copydata_spec[OF ex_chain(1,3), of 2 2] by (simp add: ex_cdata del: cdata_simps)

theorem m_adj_spec_witness:
  "\<exists>st'. m_adj 0x80 (- 3) ex_mst = Some st' \<and> sys st' {0x80, 0x100, 0x280} \<and>
    cdata st' [0x80, 0x100] = [1, 2] \<and> ph_len (m_pkthdr (mbufs st' 0x80)) = clen st' [0x80, 0x100]"
  using m_adj_spec[OF ex_sys ex_chain(1) _ _ ex_chain(3), of "- 3"]
  by (auto simp: ex_cdata ex_head simp del: cdata_simps clen_simps)

theorem m_adj_tail_stale_pkthdr_witness:
  "\<exists>st'. m_adj 0x80 (- 2) ex_mst = Some st' \<and> clen st' [0x80, 0x100] = 3 \<and> ph_len (m_pkthdr (mbufs st' 0x80)) = 5"
  using m_adj_tail_stale_pkthdr[OF ex_chain(1,3), of 2] by (simp add: ex_cdata ex_head del: clen_simps)

lemma m_adj_int_min_instance:
  "\<exists>st'. m_adj 0x280 (- 2147483648) ex_mst = Some st' \<and> m_len (mbufs st' 0x280) < 0"
  using m_adj_int_min[OF ex_chain(2) _ ex_chain(4)] by simp

end
