(* ===== verification/Mbuf_Join.thy ===== *)
theory Mbuf_Join
  imports Mbuf_Data
begin

text \<open>
  The routines that join and reshape chains: \<open>m_cat\<close>, \<open>m_prepend\<close> and \<open>m_pullup\<close> keep the pool
  invariant and the data of the chain.
\<close>

section \<open>Appending\<close>

lemma sys_upd1:
  assumes "sys st C" "a \<in> C" "m_type (f (mbufs st a)) \<noteq> MT_FREE" "length (m_dat (f (mbufs st a))) = 108"
    and "has_flag M_EXT (f (mbufs st a)) = has_flag M_EXT (mbufs st a)"
    and "has_flag M_EXT (mbufs st a) \<Longrightarrow> ext_buf (f (mbufs st a)) = ext_buf (mbufs st a)"
  shows "sys (upd a f st) C"
proof (rule sys_upd[OF assms(1)])
  fix b assume "b \<in> C"
  then show "m_type (mbufs (upd a f st) b) \<noteq> MT_FREE \<and> length (m_dat (mbufs (upd a f st) b)) = 108 \<and>
      has_flag M_EXT (mbufs (upd a f st) b) = has_flag M_EXT (mbufs st b) \<and>
      (has_flag M_EXT (mbufs st b) \<longrightarrow> ext_buf (mbufs (upd a f st) b) = ext_buf (mbufs st b))"
    using assms by (cases "b = a") (auto simp: upd_def sys_def sysx_def)
next
  fix b assume "b \<notin> C"
  then show "mbufs (upd a f st) b = mbufs st b" using assms(2) by (auto simp: upd_def)
qed (simp_all add: upd_def)

lemma sys_mbuf:
  assumes "sys st C" "a \<in> C"
  shows "m_type (mbufs st a) \<noteq> MT_FREE" "length (m_dat (mbufs st a)) = 108" "a \<noteq> 0"
  using assms by (auto simp: sys_def sysx_def)

lemma upd_sel [simp]:
  "mbufs (upd a f st) = (mbufs st)(a := f (mbufs st a))" "clus (upd a f st) = clus st"
  "conf (upd a f st) = conf st" "max_protohdr (upd a f st) = max_protohdr st"
  "ng_mbufcheck_active (upd a f st) = ng_mbufcheck_active st" "mfree (upd a f st) = mfree st"
  by (simp_all add: upd_def)

lemma keeps_upd: "a \<notin> C \<Longrightarrow> keeps C st (upd a f st)"
  by (auto simp: keeps_def)

lemma keeps_view:
  assumes "keeps C st st'" "set ps \<subseteq> C"
  shows "cdata st' ps = cdata st ps" "clen st' ps = clen st ps" "chain_ok st' ps = chain_ok st ps"
    "chain (mbufs st') p ps = chain (mbufs st) p ps"
proof -
  have a: "mbufs st' a = mbufs st a" if "a \<in> set ps" for a using assms that by (auto simp: keeps_def)
  have c: "mcl_buf (clus st' c) = mcl_buf (clus st c)" for c using assms by (simp add: keeps_def)
  show "cdata st' ps = cdata st ps" "clen st' ps = clen st ps" "chain_ok st' ps = chain_ok st ps"
    by (rule cdata_cong; use a c in simp)+
  show "chain (mbufs st') p ps = chain (mbufs st) p ps" by (rule chain_cong) (simp add: a)
qed

lemma keeps_mbuf:
  assumes "keeps C st st'"
  shows "a \<in> C \<Longrightarrow> mbufs st' a = mbufs st a" "mb_ok st' b = mb_ok st b" "m_bytes st' b = m_bytes st b"
  using assms mbuf_view_cong[of st' st] by (auto simp: keeps_def)

definition appended :: "u8 list \<Rightarrow> mbuf \<Rightarrow> mbuf" where
  "appended bs b = b\<lparr>m_dat := put_bytes (nat (m_data b + m_len b)) bs (m_dat b), m_len := m_len b + int (length bs)\<rparr>"

lemma append_ok:
  assumes "mb_ok st b" "\<not> has_flag M_EXT b" "m_data b + m_len b + int (length bs) \<le> MLEN"
  shows "m_bytes st (appended bs b) = m_bytes st b @ bs" "mb_ok st (appended bs b)"
    "has_flag f (appended bs b) = has_flag f b" "length (m_dat (appended bs b)) = length (m_dat b)"
proof -
  show f: "has_flag f (appended bs b) = has_flag f b" for f by (simp add: appended_def has_flag_def)
  have d: "0 \<le> m_data b" "0 \<le> m_len b" using mb_ok_data[OF assms(1)] assms(1) by simp_all
  have l: "length (m_dat b) = 108" using assms(1,2) by (simp add: mb_ok_def MLEN_def del: mb_ok_len)
  let ?i = "nat (m_data b + m_len b)"
  have i: "?i + length bs \<le> 108" "?i = nat (m_data b) + nat (m_len b)" using assms(3) d by (auto simp: MLEN_def nat_add_distrib)
  show len: "length (m_dat (appended bs b)) = length (m_dat b)"
    using l i(1) by (simp add: appended_def put_bytes_def)
  have "m_bytes st (appended bs b) = take (nat (m_len b) + length bs) (drop (nat (m_data b)) (put_bytes ?i bs (m_dat b)))"
    using assms(2) d by (simp add: m_bytes_def m_read_def m_buf_def f) (simp add: appended_def nat_add_distrib)
  also have "\<dots> = take (nat (m_len b)) (drop (nat (m_data b)) (m_dat b)) @ bs"
    using l i by (simp add: put_bytes_def drop_take)
  also have "\<dots> = m_bytes st b @ bs" using assms(2) by (simp add: m_bytes_def m_read_def m_buf_def)
  finally show "m_bytes st (appended bs b) = m_bytes st b @ bs" .
  have "m_data (appended bs b) = m_data b" "m_len (appended bs b) = m_len b + int (length bs)"
    by (simp_all add: appended_def)
  then show "mb_ok st (appended bs b)"
    using assms d l len unfolding mb_ok_def f by (auto simp: MLEN_def MHLEN_def split: if_splits)
qed

text \<open>The copy and the new length, as one update.\<close>

lemma m_write_append:
  "upd m (\<lambda>b. b\<lparr>m_len := m_len b + int (length bs)\<rparr>) (m_write m (m_len (mbufs st m)) bs st) = upd m (appended bs) st"
  by (simp add: upd_def m_write_def appended_def)

lemma m_read_whole: "m_read st b 0 (m_len b) = m_bytes st b"
  by (simp add: m_bytes_def)

lemma m_cat_loop_spec:
  assumes "sys st C" "chain (mbufs st) n ns" "set ns \<subseteq> C" "l \<in> C" "l \<notin> set ns"
    and "mb_ok st (mbufs st l)" "chain_ok st ns" "m_next (mbufs st l) = 0"
  shows "\<exists>st' us vs. ns = us @ vs \<and> m_cat_loop l n st = Some st' \<and> sys st' (C - set us) \<and>
    chain (mbufs st') (m_next (mbufs st' l)) vs \<and> keeps (C - {l} - set us) st st' \<and>
    m_bytes st' (mbufs st' l) @ cdata st' vs = m_bytes st (mbufs st l) @ cdata st ns \<and> mb_ok st' (mbufs st' l) \<and>
    m_pkthdr (mbufs st' l) = m_pkthdr (mbufs st l)"
  using assms
proof (induction ns arbitrary: st C n)
  case Nil
  have "m_cat_loop l n st = Some st" using Nil.prems(2) by (subst m_cat_loop.simps) simp
  then show ?case using Nil.prems by (intro exI[of _ st] exI[of _ "[]"]) simp
next
  case (Cons a as)
  let ?b = "mbufs st l" and ?c = "mbufs st a"
  have n: "n = a" "a \<noteq> 0" "chain (mbufs st) (m_next ?c) as" "a \<notin> set as" "a \<noteq> l" "a \<in> C"
    using Cons.prems chain_distinct[OF Cons.prems(2)] by auto
  have ok: "mb_ok st ?c" "chain_ok st as" using Cons.prems(7) by auto
  show ?case
  proof (cases "has_flag M_EXT ?b \<or> m_data ?b + m_len ?b + m_len ?c \<ge> MLEN")
    case True
    let ?st1 = "upd l (\<lambda>b. b\<lparr>m_next := n\<rparr>) st"
    have run: "m_cat_loop l n st = Some ?st1" using True n by (subst m_cat_loop.simps) (simp add: Let_def)
    have k: "keeps (C - {l}) st ?st1" by (rule keeps_upd) simp
    have sub: "set (a # as) \<subseteq> C - {l}" using Cons.prems(3,5) by auto
    have s: "sys ?st1 C"
      by (rule sys_upd1[OF Cons.prems(1,4)]) (use sys_mbuf[OF Cons.prems(1,4)] in \<open>auto simp: has_flag_def\<close>)
    have f: "has_flag f (?b\<lparr>m_next := n\<rparr>) = has_flag f ?b" for f by (simp add: has_flag_def)
    have b: "mb_ok st (?b\<lparr>m_next := n\<rparr>) = mb_ok st ?b" "m_bytes st (?b\<lparr>m_next := n\<rparr>) = m_bytes st ?b"
      unfolding mb_ok_def m_bytes_def m_read_def m_buf_def f by simp_all
    have l1: "mbufs ?st1 l = ?b\<lparr>m_next := n\<rparr>" by simp
    have B: "m_bytes ?st1 (mbufs ?st1 l) = m_bytes st ?b" "mb_ok ?st1 (mbufs ?st1 l)"
      unfolding l1 keeps_mbuf[OF k] b using Cons.prems(6) by simp_all
    have C1: "chain (mbufs ?st1) (m_next (mbufs ?st1 l)) (a # as)"
      unfolding l1 keeps_view(4)[OF k sub] using Cons.prems(2) by simp
    have P1: "m_pkthdr (mbufs ?st1 l) = m_pkthdr ?b" unfolding l1 by simp
    show ?thesis
      by (rule exI[of _ ?st1], rule exI[of _ "[]"], rule exI[of _ "a # as"])
        (use run s k C1 B P1 keeps_view(1)[OF k sub] in \<open>simp del: upd_sel chain.simps cdata_simps(2)\<close>)
  next
    case False
    have fit: "m_data ?b + m_len ?b + int (length (m_bytes st ?c)) \<le> MLEN" "\<not> has_flag M_EXT ?b"
      using False ok(1) by auto
    let ?bs = "m_bytes st ?c"
    let ?st2 = "upd l (appended ?bs) st"
    note ap = append_ok[OF Cons.prems(6) fit(2,1)]
    have s2: "sys ?st2 C"
      by (rule sys_upd1[OF Cons.prems(1,4)])
        (use sys_mbuf[OF Cons.prems(1,4)] ap(3,4) in \<open>auto simp: appended_def\<close>)
    have k2: "keeps (C - {l}) st ?st2" by (rule keeps_upd) simp
    obtain st3 where 3: "m_free a ?st2 = (st3, m_next (mbufs ?st2 a))" "sys st3 (C - {a})" "keeps (C - {a}) ?st2 st3"
      by (rule m_free_sys[OF s2 n(6)])
    have nx: "m_next (mbufs ?st2 a) = m_next ?c" using n(5) by simp
    have l3: "mbufs st3 l = appended ?bs ?b" using keeps_mbuf(1)[OF 3(3), of l] Cons.prems(4) n(5) by simp
    have k3: "keeps (C - {l} - {a}) st st3" by (rule keeps_trans[OF k2 3(3)]) auto
    have sub: "set as \<subseteq> C - {l} - {a}" using Cons.prems(3,5) n(4) by auto
    note v3 = keeps_view[OF k3 sub]
    have step: "m_cat_loop l n st = m_cat_loop l (m_next ?c) st3"
    proof -
      have "m_len ?c = int (length ?bs)" using ok(1) by simp
      then have "upd l (\<lambda>b. b\<lparr>m_len := m_len b + m_len ?c\<rparr>) (m_write l (m_len ?b) (m_read st ?c 0 (m_len ?c)) st) = ?st2"
        unfolding m_read_whole by (subst \<open>m_len ?c = int (length ?bs)\<close>) (rule m_write_append)
      then show ?thesis using False n(1,2) 3(1) nx by (subst m_cat_loop.simps) (simp add: Let_def)
    qed
    obtain st' us vs where IH: "as = us @ vs" "m_cat_loop l (m_next ?c) st3 = Some st'" "sys st' (C - {a} - set us)"
      "chain (mbufs st') (m_next (mbufs st' l)) vs" "keeps (C - {a} - {l} - set us) st3 st'"
      "m_bytes st' (mbufs st' l) @ cdata st' vs = m_bytes st3 (mbufs st3 l) @ cdata st3 as" "mb_ok st' (mbufs st' l)"
      "m_pkthdr (mbufs st' l) = m_pkthdr (mbufs st3 l)"
    proof -
      have "chain (mbufs st3) (m_next ?c) as" "chain_ok st3 as" using v3 n(3) ok(2) by simp_all
      moreover have "set as \<subseteq> C - {a}" "l \<in> C - {a}" "l \<notin> set as" using sub Cons.prems(4,5) n(5) by auto
      moreover have "mb_ok st3 (mbufs st3 l)" "m_next (mbufs st3 l) = 0"
        unfolding l3 keeps_mbuf(2)[OF k3] using ap(2) Cons.prems(8) by (simp_all add: appended_def)
      ultimately show thesis using Cons.IH[OF 3(2)] that by blast
    qed
    have "keeps (C - {l} - set (a # us)) st st'" by (rule keeps_trans[OF k3 IH(5)]) auto
    moreover have "C - {a} - set us = C - set (a # us)" by auto
    moreover have "m_bytes st3 (mbufs st3 l) @ cdata st3 as = m_bytes st ?b @ cdata st (a # as)"
      unfolding l3 keeps_mbuf(3)[OF k3] ap(1) v3(1) by simp
    moreover have "m_pkthdr (mbufs st3 l) = m_pkthdr ?b" unfolding l3 by (simp add: appended_def)
    ultimately show ?thesis using IH step
      by (intro exI[of _ st'] exI[of _ "a # us"] exI[of _ vs]) simp
  qed
qed

lemma m_last_spec: "chain (mbufs st) m ps \<Longrightarrow> ps \<noteq> [] \<Longrightarrow> m_last m st = Some (last ps)"
proof (induction ps arbitrary: m)
  case (Cons a as)
  then show ?case by (cases as) (subst m_last.simps; simp)+
qed simp

lemma chain_last_next: "chain h p ps \<Longrightarrow> ps \<noteq> [] \<Longrightarrow> m_next (h (last ps)) = 0"
  by (induction ps arbitrary: p) auto

lemma chain_append_last:
  assumes "chain h p ps" "ps \<noteq> []" "\<And>a. a \<in> set ps \<Longrightarrow> a \<noteq> last ps \<Longrightarrow> m_next (h' a) = m_next (h a)"
    and "chain h' (m_next (h' (last ps))) vs"
  shows "chain h' p (ps @ vs)"
  using assms
proof (induction ps arbitrary: p)
  case (Cons a as)
  show ?case
  proof (cases "as = []")
    case False
    have "a \<noteq> last as" using chain_distinct[OF Cons.prems(1)] False last_in_set[of as] by auto
    then have "m_next (h' a) = m_next (h a)" using Cons.prems(3)[of a] False by simp
    then show ?thesis using Cons False by simp
  qed (use Cons.prems in simp)
qed simp

text \<open>
  M_cat of two disjoint chains the client owns returns, keeps the pool invariant, frees
  exactly the leading mbufs of the second chain it has copied into the last of the first, and
  leaves one well-formed chain whose data is the concatenation; nothing else changes.\<close>

theorem m_cat_spec:
  assumes "sys st C" "chain (mbufs st) m ps" "ps \<noteq> []" "chain (mbufs st) n ns"
    and "set ps \<subseteq> C" "set ns \<subseteq> C" "set ps \<inter> set ns = {}" "chain_ok st ps" "chain_ok st ns"
  shows "\<exists>st' us vs. m_cat m n st = Some st' \<and> ns = us @ vs \<and> sys st' (C - set us) \<and>
    chain (mbufs st') m (ps @ vs) \<and> chain_ok st' (ps @ vs) \<and>
    cdata st' (ps @ vs) = cdata st ps @ cdata st ns \<and> keeps (C - {last ps} - set us) st st'"
proof -
  let ?l = "last ps"
  have l: "?l \<in> C" "?l \<notin> set ns" "mb_ok st (mbufs st ?l)" "m_next (mbufs st ?l) = 0"
    using assms(5,7,8) chain_last_next[OF assms(2,3)] last_in_set[OF assms(3)]
    by (auto simp: chain_ok_def disjoint_iff)
  obtain st' us vs where 1: "ns = us @ vs" "m_cat_loop ?l n st = Some st'" "sys st' (C - set us)"
    "chain (mbufs st') (m_next (mbufs st' ?l)) vs" "keeps (C - {?l} - set us) st st'"
    "m_bytes st' (mbufs st' ?l) @ cdata st' vs = m_bytes st (mbufs st ?l) @ cdata st ns" "mb_ok st' (mbufs st' ?l)"
    using m_cat_loop_spec[OF assms(1,4,6) l(1-3) assms(9) l(4)] by blast
  have ps: "ps = butlast ps @ [?l]" using assms(3) by simp
  have nl: "?l \<notin> set (butlast ps)" using chain_distinct[OF assms(2)] by (intro last_notin_butlast) (use assms(3) in auto)
  have bl: "set (butlast ps) \<subseteq> C - {?l} - set us" "set vs \<subseteq> C - {?l} - set us"
    using nl assms(5-7) 1(1) l(2) chain_distinct[OF assms(4)] by (auto dest: in_set_butlastD)
  note vb = keeps_view[OF 1(5) bl(1)] and vv = keeps_view[OF 1(5) bl(2)]
  have d: "cdata st' (ps @ vs) = cdata st ps @ cdata st ns"
  proof -
    have "cdata st' (ps @ vs) = cdata st' (butlast ps) @ m_bytes st' (mbufs st' ?l) @ cdata st' vs"
      by (subst ps) simp
    also have "\<dots> = cdata st (butlast ps @ [?l]) @ cdata st ns" using 1(6) vb(1) by simp
    finally show ?thesis using ps by simp
  qed
  have "chain_ok st' (butlast ps @ [?l])" using vb(3) 1(7) last_data(3)[OF assms(8,3) order_refl] by simp
  then have o: "chain_ok st' (ps @ vs)" using ps vv(3) assms(9) 1(1) by simp
  have c: "chain (mbufs st') m (ps @ vs)"
  proof (rule chain_append_last[OF assms(2,3)])
    fix a assume "a \<in> set ps" "a \<noteq> ?l"
    then have "a \<in> C - {?l} - set us" using assms(5,7) 1(1) by auto
    then show "m_next (mbufs st' a) = m_next (mbufs st a)" using keeps_mbuf(1)[OF 1(5)] by simp
  qed (rule 1(4))
  have "m_cat m n st = Some st'" using m_last_spec[OF assms(2,3)] 1(2) by (simp add: m_cat_def)
  then show ?thesis using 1(1,3,5) c o d by blast
qed

section \<open>Prepending\<close>

lemma flag_simps [simp]:
  "has_flag M_EXT (b\<lparr>m_flags := w AND M_COPYFLAGS\<rparr>) = False"
  "has_flag M_PKTHDR (b\<lparr>m_flags := m_flags f AND M_COPYFLAGS\<rparr>) = has_flag M_PKTHDR f"
  "has_flag M_EXT (b\<lparr>m_flags := m_flags f AND NOT M_PKTHDR\<rparr>) = has_flag M_EXT f"
  "has_flag M_EXT (b\<lparr>m_flags := m_flags f AND NOT (M_PKTHDR OR M_CSUM_DONE)\<rparr>) = has_flag M_EXT f"
  "has_flag M_PKTHDR (b\<lparr>m_flags := w AND NOT M_PKTHDR\<rparr>) = False"
  "has_flag M_PKTHDR (b\<lparr>m_flags := w AND NOT (M_PKTHDR OR M_CSUM_DONE)\<rparr>) = False"
  by (simp_all add: has_flag_def and.assoc M_EXT_def M_PKTHDR_def M_COPYFLAGS_def M_BCAST_def M_MCAST_def M_CSUM_DONE_def)

lemma has_flag_flags: "has_flag f b = has_flag f (b\<lparr>m_flags := m_flags b\<rparr>)"
  by simp

text \<open>Only the flags matter to \<open>has_flag\<close>.\<close>

lemma has_flag_upd [simp]:
  "has_flag f (b\<lparr>m_len := x\<rparr>) = has_flag f b" "has_flag f (b\<lparr>m_data := y\<rparr>) = has_flag f b"
  "has_flag f (b\<lparr>m_next := p\<rparr>) = has_flag f b" "has_flag f (b\<lparr>m_pkthdr := h\<rparr>) = has_flag f b"
  "has_flag f (b\<lparr>m_dat := d\<rparr>) = has_flag f b" "has_flag f (b\<lparr>m_type := t\<rparr>) = has_flag f b"
  "has_flag f (b\<lparr>m_nextpkt := p\<rparr>) = has_flag f b"
  "has_flag f (b\<lparr>ext_buf := p\<rparr>) = has_flag f b" "has_flag f (b\<lparr>ext_size := s\<rparr>) = has_flag f b"
  by (simp_all add: has_flag_def)

lemma long_align_bounds: "long_align x \<le> x" "0 \<le> x \<Longrightarrow> 0 \<le> long_align x" "x - 3 \<le> long_align x"
proof -
  have m: "0 \<le> x mod 4" "x mod 4 \<le> 3" by simp_all
  then show "long_align x \<le> x" "x - 3 \<le> long_align x" by (simp_all add: long_align_def)
  show "0 \<le> x \<Longrightarrow> 0 \<le> long_align x"
    using zmod_le_nonneg_dividend[of x 4] by (simp add: long_align_def)
qed

text \<open>An mbuf that loses its packet header keeps its data.\<close>

lemma demote_view:
  assumes "mb_ok st b" "has_flag M_EXT (b\<lparr>m_flags := w\<rparr>) = has_flag M_EXT b" "\<not> has_flag M_PKTHDR (b\<lparr>m_flags := w\<rparr>)"
  shows "mb_ok st (b\<lparr>m_flags := w\<rparr>)" "m_bytes st (b\<lparr>m_flags := w\<rparr>) = m_bytes st b"
  using assms mb_ok_data[OF assms(1)]
  by (auto simp: mb_ok_def m_bytes_def m_read_def m_buf_def simp del: mb_ok_len)

definition demoted :: "u16 \<Rightarrow> mbuf \<Rightarrow> mbuf" where
  "demoted w b = (if has_flag M_PKTHDR b then b\<lparr>m_flags := m_flags b AND NOT w\<rparr> else b)"

text \<open>A fresh mbuf \<open>r\<close> takes over the packet header of \<open>m\<close>, if it has one.\<close>

definition take_pkthdr :: "u16 \<Rightarrow> ptr \<Rightarrow> ptr \<Rightarrow> mst \<Rightarrow> mst" where
  "take_pkthdr w r m st =
     (if has_flag M_PKTHDR (mbufs st m)
      then upd m (\<lambda>b. b\<lparr>m_flags := m_flags b AND NOT w\<rparr>) (M_COPY_PKTHDR r m st) else st)"

lemma take_pkthdr_spec:
  assumes "sys st C" "r \<in> C" "m \<in> C" "r \<noteq> m" "m_flags (mbufs st r) = 0" "m_data (mbufs st r) = 0"
    and "w = M_PKTHDR \<or> w = (M_PKTHDR OR M_CSUM_DONE)" "mb_ok st (mbufs st m)"
  defines "st' \<equiv> take_pkthdr w r m st" and "h \<equiv> has_flag M_PKTHDR (mbufs st m)"
  shows "sys st' C" "keeps (C - {r, m}) st st'" "mb_ok st' (mbufs st' m)"
    "m_bytes st' (mbufs st' m) = m_bytes st (mbufs st m)" "m_next (mbufs st' m) = m_next (mbufs st m)"
    "\<not> has_flag M_PKTHDR (mbufs st' m)" "\<not> has_flag M_EXT (mbufs st' r)" "has_flag M_PKTHDR (mbufs st' r) = h"
    "m_data (mbufs st' r) = (if h then 12 else 0)" "h \<Longrightarrow> m_pkthdr (mbufs st' r) = m_pkthdr (mbufs st m)"
    "m_len (mbufs st' r) = m_len (mbufs st r)" "m_dat (mbufs st' r) = m_dat (mbufs st r)"
    "m_next (mbufs st' r) = m_next (mbufs st r)" "m_len (mbufs st' m) = m_len (mbufs st m)"
    "has_flag M_EXT (mbufs st' m) = has_flag M_EXT (mbufs st m)"
proof -
  let ?st1 = "M_COPY_PKTHDR r m st"
  have ew: "has_flag M_EXT (b\<lparr>m_flags := m_flags b AND NOT w\<rparr>) = has_flag M_EXT b"
    "\<not> has_flag M_PKTHDR (b\<lparr>m_flags := m_flags b AND NOT w\<rparr>)" for b
    using assms(7) by (elim disjE; simp only: flag_simps not_False_eq_True)+
  have c1: "?st1 = upd r (\<lambda>b. b\<lparr>m_pkthdr := m_pkthdr (mbufs st m), m_flags := m_flags (mbufs st m) AND M_COPYFLAGS,
      m_data := MLEN - MHLEN\<rparr>) st" by (simp add: M_COPY_PKTHDR_def Let_def)
  have clus: "mcl_buf (clus st' c) = mcl_buf (clus st c)" for c
    by (simp add: st'_def take_pkthdr_def c1)
  note view = mbuf_view_cong[of st' st, OF clus]
  have s1: "sys ?st1 C" unfolding c1
    by (rule sys_upd1[OF assms(1,2)]) (use sys_mbuf[OF assms(1,2)] assms(5) in simp_all)
  have s2: "sys (upd m (\<lambda>b. b\<lparr>m_flags := m_flags b AND NOT w\<rparr>) ?st1) C"
    by (rule sys_upd1[OF s1 assms(3)]) (use sys_mbuf[OF s1 assms(3)] ew in \<open>simp_all del: upd_sel\<close>)
  show "sys st' C" using s2 assms(1) by (simp add: st'_def take_pkthdr_def)
  show "keeps (C - {r, m}) st st'" by (auto simp: keeps_def st'_def take_pkthdr_def c1)
  have m': "mbufs st' m = demoted w (mbufs st m)" using assms(4) by (simp add: st'_def take_pkthdr_def c1 demoted_def)
  note e = ew[of "mbufs st m"]
  note dv = demote_view[OF assms(8) e]
  show "mb_ok st' (mbufs st' m)" "m_bytes st' (mbufs st' m) = m_bytes st (mbufs st m)"
    unfolding view m' demoted_def using dv assms(8) by simp_all
  show "m_next (mbufs st' m) = m_next (mbufs st m)" "m_len (mbufs st' m) = m_len (mbufs st m)"
    unfolding m' demoted_def by simp_all
  show "\<not> has_flag M_PKTHDR (mbufs st' m)" "has_flag M_EXT (mbufs st' m) = has_flag M_EXT (mbufs st m)"
    unfolding m' demoted_def using e by simp_all
  show "\<not> has_flag M_EXT (mbufs st' r)" "has_flag M_PKTHDR (mbufs st' r) = h"
    "m_data (mbufs st' r) = (if h then 12 else 0)" "h \<Longrightarrow> m_pkthdr (mbufs st' r) = m_pkthdr (mbufs st m)"
    "m_len (mbufs st' r) = m_len (mbufs st r)" "m_dat (mbufs st' r) = m_dat (mbufs st r)"
    "m_next (mbufs st' r) = m_next (mbufs st r)"
    using assms(4-6) by (simp_all add: st'_def h_def take_pkthdr_def c1 MLEN_def MHLEN_def)
qed

lemma chain_in: "chain (mbufs st) m ps \<Longrightarrow> ps \<noteq> [] \<Longrightarrow> m \<in> set ps \<and> m \<noteq> 0 \<and> ps = m # tl ps"
  by (cases ps) auto

text \<open>
  M_prepend either fails, having freed the whole chain (always when len is negative or above
  MHLEN), or returns a new mbuf in front of the unchanged chain with len bytes of data space, to
  which the packet header has moved; the pool invariant holds in both cases and no other mbuf
  changes.\<close>

theorem m_prepend_spec:
  assumes "sys st C" "chain (mbufs st) m ps" "ps \<noteq> []" "set ps \<subseteq> C" "chain_ok st ps"
  shows "\<exists>st' r. m_prepend m len st = Some (st', r) \<and>
    (if r = 0 then sys st' (C - set ps) \<and> keeps (C - set ps) st st'
     else 0 \<le> len \<and> len \<le> 96 \<and> r \<notin> C \<and> sys st' (insert r C) \<and> keeps (C - {m}) st st' \<and>
       chain (mbufs st') r (r # ps) \<and> chain_ok st' (r # ps) \<and> m_len (mbufs st' r) = len \<and>
       cdata st' ps = cdata st ps \<and>
       has_flag M_PKTHDR (mbufs st' r) = has_flag M_PKTHDR (mbufs st m) \<and>
       (has_flag M_PKTHDR (mbufs st m) \<longrightarrow> m_pkthdr (mbufs st' r) = m_pkthdr (mbufs st m)) \<and>
       \<not> has_flag M_PKTHDR (mbufs st' m))"
proof -
  have m: "m \<in> set ps" "m \<noteq> 0" "ps = m # tl ps" "m \<in> C" using chain_in[OF assms(2,3)] assms(4) by auto
  have tl: "set (tl ps) \<subseteq> C - {m}"
    using assms(4) chain_distinct[OF assms(2)] m(3) by (metis Diff_empty distinct.simps(2) set_subset_Cons subset_Diff_insert subset_trans)
  show ?thesis
  proof (cases "len < 0 \<or> len > MHLEN")
    case True
    obtain st' where "m_freem m st = Some st'" "sys st' (C - set ps)" "keeps (C - set ps) st st'"
      by (rule m_freem_sys[OF assms(1,2,4)])
    then show ?thesis using True by (intro exI[of _ st'] exI[of _ 0]) (simp add: m_prepend_def)
  next
    case False
    obtain st1 r where 1: "MGET (m_type (mbufs st m)) st = Some (st1, r)" "keeps C st st1" "r = 0 \<Longrightarrow> sys st1 C"
      "r \<noteq> 0 \<Longrightarrow> r \<notin> C \<and> sys st1 (insert r C) \<and> fresh (m_type (mbufs st m)) (mbufs st1 r)"
      using MGET_sys[OF assms(1) sys_mbuf(1)[OF assms(1) m(4)]] by metis
    show ?thesis
    proof (cases "r = 0")
      case True
      have "chain (mbufs st1) m ps" using keeps_view(4)[OF 1(2) assms(4)] assms(2) by simp
      then obtain st2 where "m_freem m st1 = Some st2" "sys st2 (C - set ps)" "keeps (C - set ps) st1 st2"
        using m_freem_sys[OF 1(3)[OF True] _ assms(4)] by blast
      moreover from this have "keeps (C - set ps) st st2" using keeps_trans[OF 1(2)] by blast
      ultimately show ?thesis using False True 1(1)
        by (intro exI[of _ st2] exI[of _ 0]) (simp add: m_prepend_def)
    next
      case r: False
      note f = 1(4)[OF r]
      let ?D = "insert r C" and ?h = "has_flag M_PKTHDR (mbufs st m)"
      have mem: "r \<in> ?D" "m \<in> ?D" "r \<noteq> m" using f m(4) by auto
      have m1: "mbufs st1 m = mbufs st m" using keeps_mbuf(1)[OF 1(2) m(4)] .
      have ok1: "mb_ok st1 (mbufs st1 m)" using assms(5) m(1) m1 keeps_mbuf(2)[OF 1(2)] by (auto simp: chain_ok_def)
      have fl: "m_flags (mbufs st1 r) = 0" "m_data (mbufs st1 r) = 0" "length (m_dat (mbufs st1 r)) = 108"
        using f by (auto simp: fresh_def)
      let ?st2 = "take_pkthdr M_PKTHDR r m st1"
      note T = take_pkthdr_spec[OF f[THEN conjunct2, THEN conjunct1] mem fl(1,2) disjI1[OF refl] ok1]
      let ?st3 = "upd r (\<lambda>b. b\<lparr>m_next := m\<rparr>) ?st2"
      let ?st4 = "if len < MHLEN then MH_ALIGN r len ?st3 else ?st3"
      let ?st5 = "upd r (\<lambda>b. b\<lparr>m_len := len\<rparr>) ?st4"
      have run: "m_prepend m len st = Some (?st5, r)"
        using False 1(1) r by (simp add: m_prepend_def take_pkthdr_def Let_def)
      have s5: "?st5 = upd r (\<lambda>b. b\<lparr>m_next := m, m_data := m_data b + (if len < MHLEN then long_align (MHLEN - len) else 0), m_len := len\<rparr>) ?st2"
        by (simp add: upd_def MH_ALIGN_def)
      let ?f = "\<lambda>b. b\<lparr>m_next := m, m_data := m_data b + (if len < MHLEN then long_align (MHLEN - len) else 0), m_len := len\<rparr>"
      have sy: "sys ?st5 ?D" unfolding s5
        by (rule sys_upd1[OF T(1) mem(1)]) (use sys_mbuf[OF T(1) mem(1)] in simp_all)
      have k2: "keeps (C - {m}) st ?st2"
        by (rule keeps_trans[OF 1(2) T(2)]) (use f in auto)
      have k5: "keeps (C - {m}) st ?st5" unfolding s5
        by (rule keeps_trans[OF k2 keeps_upd[of r "C - {m}"]]) (use f in auto)
      have m5: "mbufs ?st5 m = mbufs ?st2 m" unfolding s5 using mem(3) by simp
      have r5: "mbufs ?st5 r = ?f (mbufs ?st2 r)" unfolding s5 by simp
      have b5: "mcl_buf (clus ?st5 c) = mcl_buf (clus ?st2 c)" for c unfolding s5 by simp
      note v5 = mbuf_view_cong[of ?st5 ?st2, OF b5]
      note vt = keeps_view[OF k5 tl]
      have d: "cdata ?st5 ps = cdata st ps"
      proof -
        have "cdata ?st5 (m # tl ps) = cdata st (m # tl ps)"
          using vt(1) T(4) m1 keeps_mbuf(3)[OF 1(2)] by (simp add: v5 m5 del: upd_sel)
        then show ?thesis using m(3) by simp
      qed
      have "chain_ok ?st5 (m # tl ps)"
      proof -
        have "chain_ok st (tl ps)" using assms(5) m(3) by (metis chain_ok_simps(2))
        then show ?thesis using vt(3) T(3) by (simp add: v5 m5 del: upd_sel)
      qed
      moreover have "mb_ok ?st5 (mbufs ?st5 r)"
        unfolding v5 r5 mb_ok_def
        using T(7-9,12) fl(3) False long_align_bounds[of "MHLEN - len"]
        by (auto simp: MLEN_def MHLEN_def simp del: mb_ok_len)
      ultimately have o: "chain_ok ?st5 (r # ps)" using m(3) by (metis chain_ok_simps(2))
      have c: "chain (mbufs ?st5) r (r # ps)"
      proof -
        have "chain (mbufs st) (m_next (mbufs st m)) (tl ps)" using assms(2) m(3) by (metis chain.simps(2))
        then have "chain (mbufs ?st5) (m_next (mbufs st m)) (tl ps)" using vt(4) by simp
        then have "chain (mbufs ?st5) m (m # tl ps)" using m(2) T(5) m1 by (simp add: m5 del: upd_sel)
        then show ?thesis using r m(3) r5 by simp
      qed
      have hd: "has_flag M_PKTHDR (mbufs ?st5 r) = ?h" "?h \<longrightarrow> m_pkthdr (mbufs ?st5 r) = m_pkthdr (mbufs st m)"
        "\<not> has_flag M_PKTHDR (mbufs ?st5 m)" "m_len (mbufs ?st5 r) = len"
        unfolding r5 m5 using T(6,8,10) m1 by simp_all
      show ?thesis
        by (rule exI[of _ ?st5], rule exI[of _ r])
          (use run r False f sy k5 c o d hd in \<open>simp add: MHLEN_def del: upd_sel chain.simps\<close>)
    qed
  qed
qed

section \<open>Pulling up\<close>

lemma pullup_count_eq:
  assumes "0 \<le> len" "len < 2147483648" "0 \<le> p" "p < 2147483648" "0 \<le> s" "s < 2147483648" "0 \<le> n" "n < 2147483648"
  shows "pullup_count len p s n = min (min (max len p) s) n"
proof -
  have u: "as_unsigned x = x" if "0 \<le> x" "x < 2147483648" for x
    using that by (simp add: as_unsigned_def take_bit_int_eq_self)
  show ?thesis unfolding pullup_count_def using assms u by (auto intro!: wrap32_id simp: min_def max_def)
qed

lemma sys_stat: "sys (st\<lparr>MPFail := x\<rparr>) C = sys st C" "sys (st\<lparr>MCFail := x\<rparr>) C = sys st C"
proof -
  have "sysx (st\<lparr>MPFail := x\<rparr>) C fs dss cs = sysx st C fs dss cs" "sysx (st\<lparr>MCFail := x\<rparr>) C fs dss cs = sysx st C fs dss cs"
    for fs dss cs by (rule sysx_cong; simp)+
  then show "sys (st\<lparr>MPFail := x\<rparr>) C = sys st C" "sys (st\<lparr>MCFail := x\<rparr>) C = sys st C" by (simp_all add: sys_def)
qed

lemma take_read: "mb_ok st b \<Longrightarrow> 0 \<le> n \<Longrightarrow> n \<le> m_len b \<Longrightarrow> m_read st b 0 n = take (nat n) (m_bytes st b)"
  using m_read_bytes[of st b 0 n] by simp

lemma m_pullup_loop_spec:
  assumes "sys st C" "chain (mbufs st) n ns" "ns \<noteq> []" "set ns \<subseteq> C" "m \<in> C" "m \<notin> set ns"
    and "mb_ok st (mbufs st m)" "\<not> has_flag M_EXT (mbufs st m)" "chain_ok st ns"
    and "0 < len" "len \<le> space" "space = MLEN - (m_data (mbufs st m) + m_len (mbufs st m))"
    and "0 \<le> max_protohdr st" "max_protohdr st < 2147483648"
  shows "\<exists>st' len' n' us vs. m_pullup_loop m n len space st = Some (st', len', n') \<and> ns = us @ vs \<and>
    sys st' (C - set us) \<and> chain (mbufs st') n' vs \<and> chain_ok st' vs \<and> keeps (C - {m} - set ns) st st' \<and>
    m_bytes st' (mbufs st' m) @ cdata st' vs = m_bytes st (mbufs st m) @ cdata st ns \<and> mb_ok st' (mbufs st' m) \<and>
    len' = len - (m_len (mbufs st' m) - m_len (mbufs st m)) \<and> (0 < len' \<longrightarrow> vs = []) \<and>
    m_len (mbufs st m) \<le> m_len (mbufs st' m) \<and>
    \<not> has_flag M_EXT (mbufs st' m) \<and> m_pkthdr (mbufs st' m) = m_pkthdr (mbufs st m) \<and>
    m_flags (mbufs st' m) = m_flags (mbufs st m)"
  using assms
proof (induction ns arbitrary: st C n len space)
  case Nil
  then show ?case by simp
next
  case (Cons a as)
  let ?b = "mbufs st m" and ?c = "mbufs st a"
  have n: "n = a" "a \<noteq> 0" "chain (mbufs st) (m_next ?c) as" "a \<notin> set as" "a \<noteq> m" "a \<in> C"
    using Cons.prems(2,4,6) chain_distinct[OF Cons.prems(2)] by auto
  have ok: "mb_ok st ?c" "chain_ok st as" using Cons.prems(9) by auto
  have bd: "0 \<le> m_data ?b" "0 \<le> m_len ?b" using mb_ok_data[OF Cons.prems(7)] Cons.prems(7) by simp_all
  have sp: "space < 2147483648" "0 \<le> space" "space \<le> 108" using Cons.prems(10-12) bd by (auto simp: MLEN_def)
  have cl: "0 \<le> m_len ?c" "m_len ?c < 2147483648" using ok(1) by (simp_all add: mb_ok_def del: mb_ok_len)
  define k where "k = pullup_count len (max_protohdr st) space (m_len ?c)"
  have k: "k = min (min (max len (max_protohdr st)) space) (m_len ?c)"
    unfolding k_def by (rule pullup_count_eq) (use Cons.prems(10,11,13,14) sp cl in auto)
  have kb: "0 \<le> k" "k \<le> space" "k \<le> m_len ?c" "k = m_len ?c \<or> len \<le> k"
    using Cons.prems(10,11,13) sp cl unfolding k by (auto simp: min_def max_def)
  let ?bs = "take (nat k) (m_bytes st ?c)"
  have lb: "int (length ?bs) = k" using ok(1) kb by simp
  have rd: "m_read st ?c 0 k = ?bs" using take_read[OF ok(1)] kb by simp
  let ?st2 = "upd m (appended ?bs) st"
  have W: "upd m (\<lambda>b. b\<lparr>m_len := m_len b + k\<rparr>) (m_write m (m_len ?b) (m_read st ?c 0 k) st) = ?st2"
    unfolding rd using m_write_append[of m ?bs st] unfolding lb .
  have fit: "m_data ?b + m_len ?b + int (length ?bs) \<le> MLEN" unfolding lb using kb(2) Cons.prems(12) by simp
  note ap = append_ok[OF Cons.prems(7,8) fit]
  have s2: "sys ?st2 C"
    by (rule sys_upd1[OF Cons.prems(1,5)]) (use sys_mbuf[OF Cons.prems(1,5)] ap(3,4) in \<open>auto simp: appended_def\<close>)
  have k2: "keeps (C - {m}) st ?st2" by (rule keeps_upd) simp
  have m2: "mbufs ?st2 m = appended ?bs ?b" "mbufs ?st2 a = ?c" using n(5) by simp_all
  have ml: "m_len (appended ?bs ?b) = m_len ?b + k" "m_data (appended ?bs ?b) = m_data ?b"
    "m_pkthdr (appended ?bs ?b) = m_pkthdr ?b" "m_flags (appended ?bs ?b) = m_flags ?b"
    using lb by (simp_all add: appended_def)
  have sub: "set as \<subseteq> C - {m} - {a}" using Cons.prems(4,6) n(4) by auto
  show ?case
  proof (cases "k = m_len ?c")
    case True
    let ?st3 = "upd a (\<lambda>b. b\<lparr>m_len := m_len b - k\<rparr>) ?st2"
    have s3: "sys ?st3 C"
      by (rule sys_upd1[OF s2 n(6)]) (use sys_mbuf[OF s2 n(6)] in \<open>simp_all del: upd_sel\<close>)
    have k3: "keeps (C - {a}) ?st2 ?st3" by (rule keeps_upd) simp
    obtain st4 where 4: "m_free a ?st3 = (st4, m_next (mbufs ?st3 a))" "sys st4 (C - {a})" "keeps (C - {a}) ?st3 st4"
      by (rule m_free_sys[OF s3 n(6)])
    have nx: "m_next (mbufs ?st3 a) = m_next ?c" "m_len (mbufs ?st3 a) = 0" using True n(5) by simp_all
    have k4: "keeps (C - {a}) ?st2 st4" by (rule keeps_trans[OF k3 4(3)]) auto
    have k5: "keeps (C - {m} - {a}) st st4" by (rule keeps_trans[OF k2 k4]) auto
    have m4: "mbufs st4 m = appended ?bs ?b" using keeps_mbuf(1)[OF k4, of m] Cons.prems(5) n(5) m2 by simp
    note v4 = keeps_view[OF k5 sub]
    have bs: "?bs = m_bytes st ?c" using True ok(1) by simp
    have dat4: "m_bytes st4 (mbufs st4 m) @ cdata st4 as = m_bytes st ?b @ cdata st (a # as)"
      unfolding m4 keeps_mbuf(3)[OF k5] ap(1) v4(1) using bs by simp
    have ok4: "mb_ok st4 (mbufs st4 m)" unfolding m4 keeps_mbuf(2)[OF k5] by (rule ap(2))
    have e4: "\<not> has_flag M_EXT (mbufs st4 m)" unfolding m4 ap(3) by (rule Cons.prems(8))
    have pr4: "max_protohdr st4 = max_protohdr st" using k5 by (simp add: keeps_def)
    have step: "m_pullup_loop m n len space st =
        (if len - k > 0 \<and> m_next ?c \<noteq> 0 then m_pullup_loop m (m_next ?c) (len - k) (space - k) st4
         else Some (st4, len - k, m_next ?c))"
      using n(1) nx 4(1) by (subst m_pullup_loop.simps) (simp only: k_def[symmetric] W Let_def, simp del: upd_sel)
    show ?thesis
    proof (cases "len - k > 0 \<and> m_next ?c \<noteq> 0")
      case False
      have e: "0 < len - k \<longrightarrow> as = []" using False n(3) by auto
      have kk: "keeps (C - {m} - set (a # as)) st st4" using k5 by (auto simp: keeps_def)
      have cc: "chain (mbufs st4) (m_next ?c) as" "chain_ok st4 as" using v4(3,4) n(3) ok(2) by simp_all
      have mm: "m_len (mbufs st4 m) = m_len ?b + k" "m_pkthdr (mbufs st4 m) = m_pkthdr ?b" "m_flags (mbufs st4 m) = m_flags ?b"
        unfolding m4 using ml by simp_all
      have run: "m_pullup_loop m n len space st = Some (st4, len - k, m_next ?c)" using step False by (simp only: if_False)
      show ?thesis
        by (rule exI[of _ st4], rule exI[of _ "len - k"], rule exI[of _ "m_next ?c"], rule exI[of _ "[a]"], rule exI[of _ as])
          (use run 4(2) kk cc dat4 ok4 e4 e mm kb(1) in \<open>simp del: cdata_simps chain_ok_simps\<close>)
    next
      case more: True
      then have as: "as \<noteq> []" using n(3) by auto
      have pre: "chain (mbufs st4) (m_next ?c) as" "set as \<subseteq> C - {a}" "m \<in> C - {a}" "m \<notin> set as" "chain_ok st4 as"
        "0 < len - k" "len - k \<le> space - k" "space - k = MLEN - (m_data (mbufs st4 m) + m_len (mbufs st4 m))"
        "0 \<le> max_protohdr st4" "max_protohdr st4 < 2147483648"
        using v4(3,4) n(3,5) ok(2) sub Cons.prems more unfolding m4 ml pr4 by auto
      obtain st' len' n' us vs where IH: "m_pullup_loop m (m_next ?c) (len - k) (space - k) st4 = Some (st', len', n')"
        "as = us @ vs" "sys st' (C - {a} - set us)" "chain (mbufs st') n' vs" "chain_ok st' vs"
        "keeps (C - {a} - {m} - set as) st4 st'"
        "m_bytes st' (mbufs st' m) @ cdata st' vs = m_bytes st4 (mbufs st4 m) @ cdata st4 as" "mb_ok st' (mbufs st' m)"
        "len' = len - k - (m_len (mbufs st' m) - m_len (mbufs st4 m))" "0 < len' \<longrightarrow> vs = []"
        "m_len (mbufs st4 m) \<le> m_len (mbufs st' m)" "\<not> has_flag M_EXT (mbufs st' m)"
        "m_pkthdr (mbufs st' m) = m_pkthdr (mbufs st4 m)" "m_flags (mbufs st' m) = m_flags (mbufs st4 m)"
        using Cons.IH[OF 4(2) pre(1) as pre(2-4) ok4 e4 pre(5-10)] by blast
      have "keeps (C - {m} - set (a # as)) st st'" by (rule keeps_trans[OF k5 IH(6)]) auto
      moreover have "C - {a} - set us = C - set (a # us)" by auto
      moreover have "m_len (mbufs st4 m) = m_len ?b + k" "m_pkthdr (mbufs st4 m) = m_pkthdr ?b" "m_flags (mbufs st4 m) = m_flags ?b"
        unfolding m4 using ml by simp_all
      ultimately show ?thesis using IH step more dat4 kb(1)
        by (intro exI[of _ st'] exI[of _ len'] exI[of _ n'], intro exI[of _ "a # us"] exI[of _ vs]) simp
    qed
  next
    case False
    let ?st4 = "upd a (\<lambda>b. b\<lparr>m_len := m_len b - k, m_data := m_data b + k\<rparr>) ?st2"
    have lk: "len \<le> k" "k < m_len ?c" using kb False by auto
    have s4: "sys ?st4 C"
      by (rule sys_upd1[OF s2 n(6)]) (use sys_mbuf[OF s2 n(6)] in \<open>simp_all del: upd_sel\<close>)
    have step: "m_pullup_loop m n len space st = Some (?st4, len - k, n)"
    proof -
      let ?st3 = "upd a (\<lambda>b. b\<lparr>m_len := m_len b - k\<rparr>) ?st2"
      have "m_len (mbufs ?st3 a) \<noteq> 0" using n(5) lk by simp
      moreover have "upd a (\<lambda>b. b\<lparr>m_data := m_data b + k\<rparr>) ?st3 = ?st4" by (simp add: upd_def)
      ultimately show ?thesis
        using n(1) lk by (subst m_pullup_loop.simps) (simp only: k_def[symmetric] W Let_def, simp del: upd_sel)
    qed
    have k4: "keeps (C - {m} - {a}) st ?st4" by (rule keeps_trans[OF k2 keeps_upd[of a "C - {m} - {a}"]]) auto
    have a4: "mbufs ?st4 a = ?c\<lparr>m_data := m_data ?c + k, m_len := m_len ?c - k\<rparr>" "mbufs ?st4 m = appended ?bs ?b"
      using n(5) by simp_all
    note v4 = keeps_view[OF k4 sub]
    have tr: "m_bytes st (?c\<lparr>m_data := m_data ?c + k, m_len := m_len ?c - k\<rparr>) = drop (nat k) (m_bytes st ?c)"
      "mb_ok st (?c\<lparr>m_data := m_data ?c + k, m_len := m_len ?c - k\<rparr>)"
      using m_bytes_trim[OF ok(1), of k "m_len ?c - k"] kb ok(1) lk by (simp_all add: nat_diff_distrib)
    have c4: "chain (mbufs ?st4) n (a # as)"
    proof -
      have "m_next (mbufs ?st4 a) = m_next ?c" unfolding a4 by simp
      then show ?thesis using n v4(4)[of "m_next ?c"] by (simp only: chain.simps simp_thms)
    qed
    have o4: "chain_ok ?st4 (a # as)"
      unfolding chain_ok_simps a4 keeps_mbuf(2)[OF k4] v4(3) using tr(2) ok(2) by simp
    have d4: "m_bytes ?st4 (mbufs ?st4 m) @ cdata ?st4 (a # as) = m_bytes st ?b @ cdata st (a # as)"
      unfolding cdata_simps a4 keeps_mbuf(3)[OF k4] v4(1) tr(1) ap(1) by simp
    have ok4: "mb_ok ?st4 (mbufs ?st4 m)" "\<not> has_flag M_EXT (mbufs ?st4 m)"
      unfolding a4 keeps_mbuf(2)[OF k4] ap(3) using ap(2) Cons.prems(8) by simp_all
    have "keeps (C - {m} - set (a # as)) st ?st4" using k4 by (auto simp: keeps_def)
    then show ?thesis
      by (intro exI[of _ ?st4] exI[of _ "len - k"] exI[of _ n], intro exI[of _ "[]"] exI[of _ "a # as"])
        (use step s4 c4 o4 d4 ok4 lk kb ml in \<open>simp del: upd_sel chain.simps cdata_simps chain_ok_simps add: a4(2)\<close>)
  qed
qed

lemma m_pullup_body_spec:
  assumes "sys st C" "chain (mbufs st) n ns" "ns \<noteq> []" "set ns \<subseteq> C" "m \<in> C" "m \<notin> set ns"
    and "mb_ok st (mbufs st m)" "\<not> has_flag M_EXT (mbufs st m)" "chain_ok st ns"
    and "0 < len" "len \<le> MLEN - (m_data (mbufs st m) + m_len (mbufs st m))"
    and "0 \<le> max_protohdr st" "max_protohdr st < 2147483648"
  shows "\<exists>st' r. m_pullup_body m n len st = Some (st', r) \<and>
    (if r = 0 then clen st ns < len \<and> sys st' (C - {m} - set ns) \<and> keeps (C - {m} - set ns) st st'
     else r = m \<and> (\<exists>us vs. ns = us @ vs \<and> sys st' (C - set us) \<and> chain (mbufs st') m (m # vs) \<and> chain_ok st' (m # vs) \<and>
       keeps (C - {m} - set ns) st st' \<and> m_len (mbufs st m) + len \<le> m_len (mbufs st' m) \<and>
       cdata st' (m # vs) = m_bytes st (mbufs st m) @ cdata st ns \<and> \<not> has_flag M_EXT (mbufs st' m) \<and>
       m_pkthdr (mbufs st' m) = m_pkthdr (mbufs st m) \<and> m_flags (mbufs st' m) = m_flags (mbufs st m)))"
proof -
  obtain st1 len' n' us vs where 1: "m_pullup_loop m n len (MLEN - (m_data (mbufs st m) + m_len (mbufs st m))) st = Some (st1, len', n')"
    "ns = us @ vs" "sys st1 (C - set us)" "chain (mbufs st1) n' vs" "chain_ok st1 vs" "keeps (C - {m} - set ns) st st1"
    "m_bytes st1 (mbufs st1 m) @ cdata st1 vs = m_bytes st (mbufs st m) @ cdata st ns" "mb_ok st1 (mbufs st1 m)"
    "len' = len - (m_len (mbufs st1 m) - m_len (mbufs st m))" "0 < len' \<longrightarrow> vs = []"
    "m_len (mbufs st m) \<le> m_len (mbufs st1 m)"
    "\<not> has_flag M_EXT (mbufs st1 m)" "m_pkthdr (mbufs st1 m) = m_pkthdr (mbufs st m)"
    "m_flags (mbufs st1 m) = m_flags (mbufs st m)"
    using m_pullup_loop_spec[OF assms(1-11) refl assms(12,13)] by blast
  have mC: "m \<in> C - set us" using assms(5,6) 1(2) by auto
  show ?thesis
  proof (cases "len' > 0")
    case True
    then have vs: "vs = []" "ns = us" "n' = 0" using 1(2,4,10) by auto
    obtain st2 where 2: "m_free m st1 = (st2, m_next (mbufs st1 m))" "sys st2 (C - set us - {m})" "keeps (C - set us - {m}) st1 st2"
      by (rule m_free_sys[OF 1(3) mC])
    have "m_freem n' st2 = Some st2" using vs by (subst m_freem.simps) simp
    then have run: "m_pullup_body m n len st = Some (st2\<lparr>MPFail := MPFail st2 + 1\<rparr>, 0)"
      using 1(1) True 2(1) by (simp add: m_pullup_body_def pullup_bad_def Let_def)
    have "sys (st2\<lparr>MPFail := MPFail st2 + 1\<rparr>) (C - set us - {m})"
      using 2(2) by (simp add: sys_stat)
    moreover have "keeps (C - {m} - set ns) st (st2\<lparr>MPFail := MPFail st2 + 1\<rparr>)"
    proof -
      have "keeps (C - {m} - set ns) st st2" by (rule keeps_trans[OF 1(6) 2(3)]) (use vs in auto)
      then show ?thesis by (simp add: keeps_def)
    qed
    moreover have "clen st ns < len"
    proof -
      have "m_len (mbufs st1 m) = m_len (mbufs st m) + clen st ns"
      proof -
        have "length (m_bytes st1 (mbufs st1 m)) = length (m_bytes st (mbufs st m)) + length (cdata st ns)"
          using arg_cong[OF 1(7), of length] vs by simp
        then have "int (nat (m_len (mbufs st1 m))) = int (nat (m_len (mbufs st m))) + int (length (cdata st ns))"
          using 1(8) assms(7) by (simp del: int_nat_eq)
        then show ?thesis using 1(8) assms(7) length_cdata[OF assms(9)] by simp
      qed
      then show ?thesis using 1(9) True by simp
    qed
    moreover have "C - set us - {m} = C - {m} - set ns" using vs by auto
    ultimately show ?thesis using run
      by (intro exI[of _ "st2\<lparr>MPFail := MPFail st2 + 1\<rparr>"] exI[of _ 0]) simp
  next
    case False
    let ?f = "\<lambda>b. b\<lparr>m_next := n'\<rparr>"
    let ?st2 = "upd m ?f st1"
    have run: "m_pullup_body m n len st = Some (?st2, m)"
      using 1(1) False by (simp add: m_pullup_body_def Let_def)
    have s2: "sys ?st2 (C - set us)"
      by (rule sys_upd1[OF 1(3) mC]) (use sys_mbuf[OF 1(3) mC] in simp_all)
    have k2: "keeps (C - {m}) st1 ?st2" by (rule keeps_upd) simp
    have k: "keeps (C - {m} - set ns) st ?st2" by (rule keeps_trans[OF 1(6) k2]) auto
    have sub: "set vs \<subseteq> C - {m}" using assms(4,6) 1(2) by auto
    note v2 = keeps_view[OF k2 sub]
    have m2: "mbufs ?st2 m = (mbufs st1 m)\<lparr>m_next := n'\<rparr>" by simp
    have b2: "m_bytes ?st2 (mbufs ?st2 m) = m_bytes st1 (mbufs st1 m)" "mb_ok ?st2 (mbufs ?st2 m)"
      using 1(8) unfolding m2 keeps_mbuf[OF k2] by (simp_all add: m_bytes_def m_read_def m_buf_def mb_ok_def del: mb_ok_len)
    have m0: "m \<noteq> 0" using sys_mbuf(3)[OF assms(1,5)] .
    have c2: "chain (mbufs ?st2) m (m # vs)"
    proof -
      have "m_next (mbufs ?st2 m) = n'" unfolding m2 by simp
      then show ?thesis using m0 1(4) v2(4)[of n'] by (simp only: chain.simps simp_thms)
    qed
    have o2: "chain_ok ?st2 (m # vs)" unfolding chain_ok_simps v2(3) using b2(2) 1(5) by simp
    have d2: "cdata ?st2 (m # vs) = m_bytes st (mbufs st m) @ cdata st ns"
      unfolding cdata_simps v2(1) b2(1) by (rule 1(7))
    have r2: "m_len (mbufs ?st2 m) = m_len (mbufs st1 m)" "has_flag M_EXT (mbufs ?st2 m) = has_flag M_EXT (mbufs st1 m)"
      "m_pkthdr (mbufs ?st2 m) = m_pkthdr (mbufs st1 m)" "m_flags (mbufs ?st2 m) = m_flags (mbufs st1 m)"
      unfolding m2 by simp_all
    have "\<exists>us vs. ns = us @ vs \<and> sys ?st2 (C - set us) \<and> chain (mbufs ?st2) m (m # vs) \<and> chain_ok ?st2 (m # vs) \<and>
       keeps (C - {m} - set ns) st ?st2 \<and> m_len (mbufs st m) + len \<le> m_len (mbufs ?st2 m) \<and>
       cdata ?st2 (m # vs) = m_bytes st (mbufs st m) @ cdata st ns \<and> \<not> has_flag M_EXT (mbufs ?st2 m) \<and>
       m_pkthdr (mbufs ?st2 m) = m_pkthdr (mbufs st m) \<and> m_flags (mbufs ?st2 m) = m_flags (mbufs st m)"
      by (rule exI[of _ us], rule exI[of _ vs])
        (use 1(2,9,12-14) False s2 c2 o2 d2 k in \<open>simp only: r2, simp\<close>)
    then show ?thesis using run m0
      by (intro exI[of _ ?st2] exI[of _ m]) (simp del: upd_sel chain.simps cdata_simps chain_ok_simps)
  qed
qed

text \<open>What \<open>m_pullup\<close> owes its caller, and the parts of a chain that its cases use.\<close>

definition pulled :: "ptr set \<Rightarrow> mst \<Rightarrow> ptr list \<Rightarrow> ptr \<Rightarrow> int \<Rightarrow> mst \<Rightarrow> ptr \<Rightarrow> bool" where
  "pulled C st ps n len st' r \<longleftrightarrow>
    (if r = 0 then sys st' (C - set ps) \<and> keeps (C - set ps) st st' \<and>
        (len \<le> 96 \<and> mfree st \<noteq> 0 \<longrightarrow> clen st ps < len)
     else \<exists>qs D. chain (mbufs st') r qs \<and> r \<in> set qs \<and> chain_ok st' qs \<and> sys st' D \<and> set qs \<subseteq> D \<and>
       C - set ps \<subseteq> D \<and> keeps (C - set ps) st st' \<and> cdata st' qs = cdata st ps \<and>
       len \<le> m_len (mbufs st' r) \<and> \<not> has_flag M_EXT (mbufs st' r) \<and>
       (has_flag M_PKTHDR (mbufs st n) \<longrightarrow>
          has_flag M_PKTHDR (mbufs st' r) \<and> m_pkthdr (mbufs st' r) = m_pkthdr (mbufs st n)))"

lemma chain_parts:
  assumes "chain (mbufs st) n ps" "ps \<noteq> []" "set ps \<subseteq> C" "chain_ok st ps"
  shows "n \<in> set ps" "n \<noteq> 0" "ps = n # tl ps" "n \<in> C" "mb_ok st (mbufs st n)" "chain_ok st (tl ps)"
    "n \<notin> set (tl ps)" "chain (mbufs st) (m_next (mbufs st n)) (tl ps)" "set (tl ps) \<subseteq> C"
proof -
  show n: "n \<in> set ps" "n \<noteq> 0" "ps = n # tl ps" "n \<in> C" using chain_in[OF assms(1,2)] assms(3) by auto
  show "mb_ok st (mbufs st n)" "chain_ok st (tl ps)" using assms(4) n(3) by (metis chain_ok_simps(2))+
  have "distinct (n # tl ps)" "chain (mbufs st) n (n # tl ps)" "set (n # tl ps) \<subseteq> C"
    using chain_distinct[OF assms(1)] assms(1,3) n(3) by simp_all
  then show "n \<notin> set (tl ps)" "chain (mbufs st) (m_next (mbufs st n)) (tl ps)" "set (tl ps) \<subseteq> C" by auto
qed

lemma pullup_failed:
  assumes "sys st0 C" "keeps C st st0" "chain (mbufs st) n ps" "set ps \<subseteq> C"
  shows "\<exists>st'. pullup_bad n st0 = Some (st', 0) \<and> sys st' (C - set ps) \<and> keeps (C - set ps) st st'"
proof -
  note s0 = assms(1) and k0 = assms(2)
  have c: "chain (mbufs st0) n ps" using keeps_view(4)[OF k0 assms(4)] assms(3) by simp
  obtain st2 where 2: "m_freem n st0 = Some st2" "sys st2 (C - set ps)" "keeps (C - set ps) st0 st2"
    by (rule m_freem_sys[OF s0 c assms(4)])
  let ?st3 = "st2\<lparr>MPFail := MPFail st2 + 1\<rparr>"
  have "sys ?st3 (C - set ps)" using 2(2) by (simp add: sys_stat)
  moreover have "keeps (C - set ps) st ?st3"
    using keeps_trans[OF k0 2(3), of "C - set ps"] by (auto simp: keeps_def)
  ultimately show ?thesis using 2(1) by (simp add: pullup_bad_def)
qed

text \<open>Bytes are moved into the first mbuf.\<close>

lemma pullup_into:
  assumes "sys st C" "chain (mbufs st) n ps" "ps \<noteq> []" "set ps \<subseteq> C" "chain_ok st ps" "0 < len"
    and "0 \<le> max_protohdr st" "max_protohdr st < 2147483648"
    and into: "\<not> has_flag M_EXT (mbufs st n)" "m_data (mbufs st n) + len < MLEN" "m_next (mbufs st n) \<noteq> 0" "m_len (mbufs st n) < len"
  shows "\<exists>st' r. m_pullup n len st = Some (st', r) \<and> pulled C st ps n len st' r"
proof -
  let ?b = "mbufs st n"
  note P = chain_parts[OF assms(2-5)]
  note n = P(1-4) and okn = P(5,6) and tl = P(7-9)
  have run: "m_pullup n len st = m_pullup_body n (m_next ?b) (len - m_len ?b) st"
    using into by (simp add: m_pullup_def Let_def)
  have ne: "tl ps \<noteq> []" using into(3) tl(2) by auto
  have pre: "0 < len - m_len ?b" "len - m_len ?b \<le> MLEN - (m_data ?b + m_len ?b)" using into by auto
  obtain st' r where 1: "m_pullup_body n (m_next ?b) (len - m_len ?b) st = Some (st', r)"
    "if r = 0 then clen st (tl ps) < len - m_len ?b \<and> sys st' (C - {n} - set (tl ps)) \<and> keeps (C - {n} - set (tl ps)) st st'
     else r = n \<and> (\<exists>us vs. tl ps = us @ vs \<and> sys st' (C - set us) \<and> chain (mbufs st') n (n # vs) \<and> chain_ok st' (n # vs) \<and>
       keeps (C - {n} - set (tl ps)) st st' \<and> m_len ?b + (len - m_len ?b) \<le> m_len (mbufs st' n) \<and>
       cdata st' (n # vs) = m_bytes st ?b @ cdata st (tl ps) \<and> \<not> has_flag M_EXT (mbufs st' n) \<and>
       m_pkthdr (mbufs st' n) = m_pkthdr ?b \<and> m_flags (mbufs st' n) = m_flags ?b)"
    using m_pullup_body_spec[OF assms(1) tl(2) ne tl(3) n(4) tl(1) okn(1) into(1) okn(2) pre assms(7,8)] by blast
  have set: "C - {n} - set (tl ps) = C - set ps" by (subst (2) n(3)) auto
  have cl: "clen st ps = m_len ?b + clen st (tl ps)" "cdata st ps = m_bytes st ?b @ cdata st (tl ps)"
    by (subst n(3), simp)+
  show ?thesis
  proof (cases "r = 0")
    case True
    then show ?thesis unfolding pulled_def using run 1 by (intro exI[of _ st'] exI[of _ 0]) (simp add: set cl)
  next
    case False
    obtain us vs where 2: "r = n" "tl ps = us @ vs" "sys st' (C - set us)" "chain (mbufs st') n (n # vs)" "chain_ok st' (n # vs)"
       "keeps (C - set ps) st st'" "len \<le> m_len (mbufs st' n)"
       "cdata st' (n # vs) = cdata st ps" "\<not> has_flag M_EXT (mbufs st' n)"
       "m_pkthdr (mbufs st' n) = m_pkthdr ?b" "m_flags (mbufs st' n) = m_flags ?b"
      using 1(2) False unfolding set cl(2) by auto
    have ps: "ps = n # us @ vs" using n(3) 2(2) by simp
    have "distinct (n # us @ vs)" using chain_distinct[OF assms(2)] unfolding ps .
    then have "set (n # vs) \<subseteq> C - set us" using tl(3) n(4) unfolding 2(2) by auto
    moreover have "C - set ps \<subseteq> C - set us" using 2(2) n(3) by (auto dest: list.set_sel(2))
    moreover have "has_flag M_PKTHDR (mbufs st' n) = has_flag M_PKTHDR ?b" using 2(11) by (rule has_flag_cong)
    ultimately show ?thesis unfolding pulled_def using run 1(1) False 2
      by (intro exI[of _ st'] exI[of _ n]) (auto intro!: exI[of _ "n # vs"] exI[of _ "C - set us"] simp del: cdata_simps)
  qed
qed

text \<open>A new mbuf goes in front.\<close>

lemma pullup_new:
  assumes "sys st C" "chain (mbufs st) n ps" "ps \<noteq> []" "set ps \<subseteq> C" "chain_ok st ps" "0 < len"
    and "0 \<le> max_protohdr st" "max_protohdr st < 2147483648"
    and new: "has_flag M_EXT (mbufs st n) \<or> m_data (mbufs st n) + len \<ge> MLEN \<or> m_next (mbufs st n) = 0" "len \<le> MHLEN"
    and m: "MGET (m_type (mbufs st n)) st = Some (st1, r)" "keeps C st st1" and r: "r \<noteq> 0"
    and f: "r \<notin> C \<and> sys st1 (insert r C) \<and> fresh (m_type (mbufs st n)) (mbufs st1 r)"
  shows "\<exists>st' r. m_pullup n len st = Some (st', r) \<and> pulled C st ps n len st' r"
proof -
  let ?b = "mbufs st n"
  note P = chain_parts[OF assms(2-5)]
  note n = P(1-4) and okn = P(5,6) and tl = P(7-9)
  have path: "\<not> (\<not> has_flag M_EXT ?b \<and> m_data ?b + len < MLEN \<and> m_next ?b \<noteq> 0)" "\<not> len > MHLEN" using new by auto
  let ?D = "insert r C"
  let ?st2 = "upd r (\<lambda>b. b\<lparr>m_len := 0\<rparr>) st1"
  let ?st3 = "take_pkthdr (M_PKTHDR OR M_CSUM_DONE) r n ?st2"
  have mem: "r \<in> ?D" "n \<in> ?D" "r \<noteq> n" using f n(4) by auto
  have k2: "keeps C st ?st2" by (rule keeps_trans[OF m(2) keeps_upd[of r C]]) (use f in auto)
  have s2: "sys ?st2 ?D"
    by (rule sys_upd1[OF _ mem(1)]) (use f sys_mbuf[of st1 ?D r] in simp_all)
  have n2: "mbufs ?st2 n = ?b" using keeps_mbuf(1)[OF k2 n(4)] .
  have fl: "m_flags (mbufs ?st2 r) = 0" "m_data (mbufs ?st2 r) = 0" "length (m_dat (mbufs ?st2 r)) = 108" "m_len (mbufs ?st2 r) = 0"
    using f by (auto simp: fresh_def)
  have ok2: "mb_ok ?st2 (mbufs ?st2 n)" unfolding n2 keeps_mbuf(2)[OF k2] by (rule okn(1))
  note T = take_pkthdr_spec[OF s2 mem fl(1,2) disjI2[OF refl] ok2]
  have run: "m_pullup n len st = m_pullup_body r n len ?st3"
    unfolding m_pullup_def Let_def if_not_P[OF path(1)] if_not_P[OF path(2)]
    using m(1) r by (simp add: take_pkthdr_def Let_def del: upd_sel)
  have k3: "keeps (C - {n}) st ?st3" by (rule keeps_trans[OF k2 T(2)]) (use f in auto)
  have tlC: "set (tl ps) \<subseteq> C - {n}" using tl by auto
  note v3 = keeps_view[OF k3 tlC]
  have c3: "chain (mbufs ?st3) n ps"
    by (subst n(3)) (use n(2) T(5) n2 v3(4) tl(2) in \<open>simp del: upd_sel\<close>)
  have o3: "chain_ok ?st3 ps" by (subst n(3)) (use T(3) v3(3) okn(2) in \<open>simp del: upd_sel\<close>)
  have d3: "cdata ?st3 ps = cdata st ps"
    by (subst (1 2) n(3)) (use T(4) n2 keeps_mbuf(3)[OF k2] v3(1) in \<open>simp del: upd_sel\<close>)
  have l3: "clen ?st3 ps = clen st ps"
    by (subst (1 2) n(3)) (use T(14) n2 v3(2) in \<open>simp del: upd_sel\<close>)
  have okr: "mb_ok ?st3 (mbufs ?st3 r)"
    unfolding mb_ok_def using T(7-9,11,12) fl(3,4) by (auto simp: MLEN_def MHLEN_def simp del: mb_ok_len upd_sel)
  have br: "m_bytes ?st3 (mbufs ?st3 r) = []"
    using T(11) fl(4) by (simp add: m_bytes_def m_read_def del: upd_sel)
  have pr3: "0 \<le> max_protohdr ?st3" "max_protohdr ?st3 < 2147483648" using k3 assms(7,8) by (auto simp: keeps_def)
  have room: "len \<le> MLEN - (m_data (mbufs ?st3 r) + m_len (mbufs ?st3 r))"
    using T(9,11) fl(4) new(2) by (auto simp: MLEN_def MHLEN_def simp del: upd_sel)
  have rn: "r \<notin> set ps" "set ps \<subseteq> ?D" using f assms(4) by auto
  obtain st' q where 2: "m_pullup_body r n len ?st3 = Some (st', q)"
    "if q = 0 then clen ?st3 ps < len \<and> sys st' (?D - {r} - set ps) \<and> keeps (?D - {r} - set ps) ?st3 st'
     else q = r \<and> (\<exists>us vs. ps = us @ vs \<and> sys st' (?D - set us) \<and> chain (mbufs st') r (r # vs) \<and> chain_ok st' (r # vs) \<and>
       keeps (?D - {r} - set ps) ?st3 st' \<and> m_len (mbufs ?st3 r) + len \<le> m_len (mbufs st' r) \<and>
       cdata st' (r # vs) = m_bytes ?st3 (mbufs ?st3 r) @ cdata ?st3 ps \<and> \<not> has_flag M_EXT (mbufs st' r) \<and>
       m_pkthdr (mbufs st' r) = m_pkthdr (mbufs ?st3 r) \<and> m_flags (mbufs st' r) = m_flags (mbufs ?st3 r))"
    using m_pullup_body_spec[OF T(1) c3 assms(3) rn(2) mem(1) rn(1) okr T(7) o3 assms(6) room pr3] by blast
  have set: "?D - {r} - set ps = C - set ps" using f by auto
  have ks: "keeps (C - set ps) st st'" if "keeps (?D - {r} - set ps) ?st3 st'"
    by (rule keeps_trans[OF k3 that]) (use n(1) in \<open>auto simp: f\<close>)
  show ?thesis
  proof (cases "q = 0")
    case True
    then show ?thesis unfolding pulled_def using run 2 ks unfolding l3 set by (intro exI[of _ st'] exI[of _ 0]) simp
  next
    case False
    obtain us vs where 3: "q = r" "ps = us @ vs" "sys st' (?D - set us)" "chain (mbufs st') r (r # vs)" "chain_ok st' (r # vs)"
      "keeps (?D - {r} - set ps) ?st3 st'" "len \<le> m_len (mbufs st' r)" "cdata st' (r # vs) = cdata st ps"
      "\<not> has_flag M_EXT (mbufs st' r)" "m_pkthdr (mbufs st' r) = m_pkthdr (mbufs ?st3 r)"
      "m_flags (mbufs st' r) = m_flags (mbufs ?st3 r)"
      using 2(2) False T(11) fl(4) unfolding br d3 by (auto simp del: upd_sel)
    have "set (r # vs) \<subseteq> ?D - set us"
      using rn 3(2) chain_distinct[OF assms(2)] by auto
    moreover have "C - set ps \<subseteq> ?D - set us" using 3(2) by auto
    moreover have "has_flag M_PKTHDR ?b \<longrightarrow> has_flag M_PKTHDR (mbufs st' r) \<and> m_pkthdr (mbufs st' r) = m_pkthdr ?b"
      using T(8,10) n2 3(10) has_flag_cong[OF 3(11), of M_PKTHDR] by (simp del: upd_sel)
    ultimately show ?thesis unfolding pulled_def using run 2(1) False 3 ks[OF 3(6)]
      by (intro exI[of _ st'] exI[of _ r]) (auto intro!: exI[of _ "r # vs"] exI[of _ "?D - set us"] simp del: cdata_simps upd_sel)
  qed
qed


section \<open>The routines on the example heap\<close>

theorem m_cat_spec_witness:
  "\<exists>st' us vs. m_cat 0x80 0x280 ex_mst = Some st' \<and> [0x280] = us @ vs \<and> sys st' ({0x80, 0x100, 0x280} - set us) \<and>
    cdata st' ([0x80, 0x100] @ vs) = [1, 2, 3, 4, 5, 6]"
  using m_cat_spec[OF ex_sys ex_chain(1) _ ex_chain(2) _ _ _ ex_chain(3,4)]
  unfolding ex_cdata by (simp del: cdata_simps) blast

theorem m_prepend_spec_witness:
  "\<exists>st' r. m_prepend 0x80 8 ex_mst = Some (st', r) \<and>
    (if r = 0 then sys st' {0x280} else sys st' {r, 0x80, 0x100, 0x280} \<and> cdata st' [0x80, 0x100] = [1, 2, 3, 4, 5])"
  using m_prepend_spec[OF ex_sys ex_chain(1) _ _ ex_chain(3), of 8]
  by (auto simp: ex_cdata insert_Diff_if simp del: cdata_simps split: if_splits)


end
