(* ===== verification/Mbuf_Copy.thy ===== *)
theory Mbuf_Copy
  imports Mbuf_Join
begin

text \<open>
  \<open>m_copym\<close> makes an independent chain that shares the clusters of the source.
\<close>

section \<open>Sharing a cluster\<close>

lemma nref_share:
  assumes "finite L" "n \<in> L" "\<not> has_flag M_EXT (h n)" "has_flag M_EXT (h' n)" "ext_buf (h' n) = c"
    and "\<And>a. a \<noteq> n \<Longrightarrow> h' a = h a"
  shows "nref h' L x = nref h L x + (if x = c then 1 else 0)"
proof -
  have "{a \<in> L. has_flag M_EXT (h' a) \<and> ext_buf (h' a) = x} =
    (if x = c then insert n {a \<in> L. has_flag M_EXT (h a) \<and> ext_buf (h a) = x}
     else {a \<in> L. has_flag M_EXT (h a) \<and> ext_buf (h a) = x})"
    using assms(2-6) by (auto, metis+)
  moreover have "n \<notin> {a \<in> L. has_flag M_EXT (h a) \<and> ext_buf (h a) = x}" using assms(3) by simp
  ultimately show ?thesis using assms(1) by (cases "x = c") (simp_all add: nref_def card_insert_if)
qed

lemma cl_inv_share:
  assumes "cl_inv st L cs" "finite L" "n \<in> L" "m \<in> L" "\<not> has_flag M_EXT (mbufs st n)" "has_flag M_EXT (mbufs st m)"
    and "has_flag M_EXT (f (mbufs st n))" "ext_buf (f (mbufs st n)) = ext_buf (mbufs st m)"
  shows "cl_inv (upd_clus (ext_buf (mbufs st m)) (\<lambda>w. set_refcnt (mcl_refcnt w + 1) w) (upd n f st)) L cs"
    (is "cl_inv ?st' L cs")
proof -
  let ?c = "ext_buf (mbufs st m)"
  have m: "?c \<noteq> 0" "?c \<notin> set cs"
    "mcl_refcnt (mcl_word (clus st ?c)) = of_nat (nref (mbufs st) L ?c)"
    using assms(1,4,6) by (auto simp: cl_inv_def)
  have mb: "mbufs ?st' a = (if a = n then f (mbufs st n) else mbufs st a)" for a
    by (simp add: upd_clus_def)
  have nr: "nref (mbufs ?st') L x = nref (mbufs st) L x + (if x = ?c then 1 else 0)" for x
    by (rule nref_share[OF assms(2,3)]) (use assms(5,7,8) mb in auto)
  have cw: "mcl_word (clus ?st' x) =
      (if x = ?c then set_refcnt (mcl_refcnt (mcl_word (clus st ?c)) + 1) (mcl_word (clus st ?c)) else mcl_word (clus st x))" for x
    by (simp add: upd_clus_def)
  have "cchain (clus ?st') (mclfree st) cs = cchain (clus st) (mclfree st) cs"
    by (rule cchain_cong) (use m(2) cw in auto)
  then have ch: "cchain (clus ?st') (mclfree ?st') cs" using assms(1) by (simp add: cl_inv_def upd_clus_def upd_def)
  have "ext_buf (mbufs ?st' a) \<noteq> 0 \<and> ext_buf (mbufs ?st' a) \<notin> set cs \<and>
      mcl_refcnt (mcl_word (clus ?st' (ext_buf (mbufs ?st' a)))) = of_nat (nref (mbufs ?st') L (ext_buf (mbufs ?st' a)))"
    if "a \<in> L" "has_flag M_EXT (mbufs ?st' a)" for a
  proof (cases "a = n")
    case True
    then show ?thesis using m assms(8) unfolding nr cw mb by simp
  next
    case False
    then have "has_flag M_EXT (mbufs st a)" using that(2) mb by simp
    then have "ext_buf (mbufs st a) \<noteq> 0 \<and> ext_buf (mbufs st a) \<notin> set cs \<and>
        mcl_refcnt (mcl_word (clus st (ext_buf (mbufs st a)))) = of_nat (nref (mbufs st) L (ext_buf (mbufs st a)))"
      using assms(1) that(1) by (simp add: cl_inv_def)
    then show ?thesis using False m(3) unfolding nr cw mb by simp
  qed
  then show ?thesis using ch assms(1) by (simp add: cl_inv_def)
qed

lemma sys_share:
  assumes "sys st C" "n \<in> C" "m \<in> C" "\<not> has_flag M_EXT (mbufs st n)" "has_flag M_EXT (mbufs st m)"
    and "has_flag M_EXT (f (mbufs st n))" "ext_buf (f (mbufs st n)) = ext_buf (mbufs st m)"
    and "m_type (f (mbufs st n)) \<noteq> MT_FREE" "length (m_dat (f (mbufs st n))) = 108"
  shows "sys (upd_clus (ext_buf (mbufs st m)) (\<lambda>w. set_refcnt (mcl_refcnt w + 1) w) (upd n f st)) C"
    (is "sys ?st' C")
proof -
  obtain fs dss cs where s: "sysx st C fs dss cs" using assms(1) by (auto simp: sys_def)
  have mb: "mbufs ?st' a = (if a = n then f (mbufs st n) else mbufs st a)" for a by (simp add: upd_clus_def)
  have out: "\<forall>a \<in> set (fs @ concat dss). mbufs ?st' a = mbufs st a"
    using s assms(2) mb by (auto simp: sysx_def disjoint_iff)
  have same: "mfree ?st' = mfree st" "drainable ?st' = drainable st" "conf ?st' = conf st" "allocs ?st' = allocs st"
    "ng_mbufcheck_active ?st' = ng_mbufcheck_active st" by (simp_all add: upd_clus_def upd_def)
  have "chain (mbufs ?st') (mfree st) fs = chain (mbufs st) (mfree st) fs"
    by (rule chain_cong) (use out in auto)
  moreover have "list_all2 (chain (mbufs ?st')) (drainable st) dss = list_all2 (chain (mbufs st)) (drainable st) dss"
    by (rule list_all2_chain_cong) (use out in auto)
  moreover have "cl_inv ?st' (C \<union> set (concat dss)) cs"
    by (rule cl_inv_share) (use s assms in \<open>auto simp: sysx_def\<close>)
  moreover have "alloc_ok ?st' (C \<union> set (fs @ concat dss))"
    by (rule alloc_ok_mono[of st "C \<union> set (fs @ concat dss)"])
      (use s sysx_finite[OF s] same in \<open>auto simp: sysx_def\<close>)
  moreover have "\<forall>a \<in> C \<union> set (concat dss). m_type (mbufs ?st' a) \<noteq> MT_FREE"
    "\<forall>a \<in> C \<union> set (fs @ concat dss). length (m_dat (mbufs ?st' a)) = 108"
    using s assms(8,9) unfolding mb by (simp_all add: sysx_def del: set_concat)
  ultimately have "sysx ?st' C fs dss cs"
    using s out unfolding sysx_def same by simp
  then show ?thesis by (auto simp: sys_def)
qed

section \<open>One copied mbuf\<close>

text \<open>The header fields a copy takes.\<close>

definition copied_hdr :: "bool \<Rightarrow> int \<Rightarrow> int \<Rightarrow> mbuf \<Rightarrow> mbuf \<Rightarrow> mbuf" where
  "copied_hdr copyhdr len off0 c b =
     (if copyhdr then b\<lparr>m_flags := m_flags c AND M_COPYFLAGS, m_data := 12, m_pkthdr :=
       (m_pkthdr c)\<lparr>ph_len := (if len = M_COPYALL then ph_len (m_pkthdr c) - off0 else len)\<rparr>\<rparr> else b)"

lemma copied_hdr_sel:
  "m_next (copied_hdr h len o0 c b) = m_next b" "m_type (copied_hdr h len o0 c b) = m_type b"
  "m_dat (copied_hdr h len o0 c b) = m_dat b" "m_data (copied_hdr h len o0 c b) = (if h then 12 else m_data b)"
  "has_flag M_EXT (copied_hdr h len o0 c b) = (\<not> h \<and> has_flag M_EXT b)"
  "has_flag M_PKTHDR (copied_hdr h len o0 c b) = (if h then has_flag M_PKTHDR c else has_flag M_PKTHDR b)"
  "m_pkthdr (copied_hdr h len o0 c b) =
     (if h then (m_pkthdr c)\<lparr>ph_len := (if len = M_COPYALL then ph_len (m_pkthdr c) - o0 else len)\<rparr> else m_pkthdr b)"
proof -
  have "has_flag f (b\<lparr>m_flags := w, m_data := d, m_pkthdr := p\<rparr>) = has_flag f (b\<lparr>m_flags := w\<rparr>)" for f p w d
    by (simp add: has_flag_def)
  then show "has_flag M_EXT (copied_hdr h len o0 c b) = (\<not> h \<and> has_flag M_EXT b)"
    "has_flag M_PKTHDR (copied_hdr h len o0 c b) = (if h then has_flag M_PKTHDR c else has_flag M_PKTHDR b)"
    by (simp_all add: copied_hdr_def)
qed (simp_all add: copied_hdr_def)

lemma has_flag_or: "has_flag f (b\<lparr>m_flags := w OR v\<rparr>) \<longleftrightarrow> w AND f \<noteq> 0 \<or> v AND f \<noteq> 0"
proof -
  have "(w OR v) AND f = 0 \<longleftrightarrow> w AND f = 0 \<and> v AND f = 0"
    by (simp add: bit.conj_disj_distrib2 or_eq_0_iff)
  then show ?thesis by (simp add: has_flag_def)
qed

lemma m_read_mbufs [simp]: "m_read (st\<lparr>mbufs := h\<rparr>) b off n = m_read st b off n"
  by (simp add: m_read_def m_buf_def)

lemma copym_fill_eq:
  fixes st :: mst and len off0 :: int and copyhdr :: bool
  assumes "n \<noteq> m"
  defines "c \<equiv> mbufs st m" and "b \<equiv> copied_hdr copyhdr len off0 (mbufs st m) (mbufs st n)"
  shows "copym_fill n m off len off0 copyhdr st =
    (if has_flag M_EXT c
     then upd_clus (ext_buf c) (\<lambda>w. set_refcnt (mcl_refcnt w + 1) w)
       (upd n (\<lambda>_. b\<lparr>m_len := min len (m_len c - off), m_data := m_data c + off, ext_buf := ext_buf c,
                     ext_size := ext_size c, m_flags := m_flags b OR M_EXT\<rparr>) st)
     else upd n (\<lambda>_. b\<lparr>m_len := min len (m_len c - off),
                       m_dat := put_bytes (nat (m_data b)) (m_read st c off (min len (m_len c - off))) (m_dat b)\<rparr>) st)"
  using assms(1) unfolding b_def c_def
  by (cases copyhdr; cases "has_flag M_EXT (mbufs st m)")
    (simp_all add: copym_fill_def Let_def copied_hdr_def M_COPY_PKTHDR_def upd_clus_def upd_def m_write_def
      MLEN_def MHLEN_def del: upd_sel)

lemma copym_fill_spec:
  fixes st :: mst and len off0 off :: int and copyhdr :: bool
  assumes "sys st C" "n \<in> C" "m \<in> C" "n \<noteq> m" "m_flags (mbufs st n) = 0" "m_data (mbufs st n) = 0"
    and "mb_ok st (mbufs st m)" "0 \<le> off" "off \<le> m_len (mbufs st m)" "0 < len"
    and "copyhdr \<longrightarrow> has_flag M_PKTHDR (mbufs st m)"
  defines "st' \<equiv> copym_fill n m off len off0 copyhdr st"
  shows "sys st' C" "keeps (C - {n}) st st'" "m_next (mbufs st' n) = m_next (mbufs st n)"
    "mb_ok st' (mbufs st' n)" "m_bytes st' (mbufs st' n) = take (nat len) (drop (nat off) (m_bytes st (mbufs st m)))"
    "m_len (mbufs st' n) = min len (m_len (mbufs st m) - off)"
    "has_flag M_PKTHDR (mbufs st' n) = copyhdr"
    "copyhdr \<Longrightarrow> m_pkthdr (mbufs st' n) = (m_pkthdr (mbufs st m))\<lparr>ph_len :=
       (if len = M_COPYALL then ph_len (m_pkthdr (mbufs st m)) - off0 else len)\<rparr>"
proof -
  let ?c = "mbufs st m" and ?k = "min len (m_len (mbufs st m) - off)"
  define b where "b = copied_hdr copyhdr len off0 ?c (mbufs st n)"
  note sel = copied_hdr_sel[of copyhdr len off0 ?c "mbufs st n", folded b_def]
  have n: "m_type (mbufs st n) \<noteq> MT_FREE" "length (m_dat (mbufs st n)) = 108" using sys_mbuf[OF assms(1,2)] by auto
  have nf: "\<not> has_flag M_EXT (mbufs st n)" "\<not> has_flag M_PKTHDR (mbufs st n)" using assms(5) by (simp_all add: has_flag_def)
  have k: "0 \<le> ?k" "?k \<le> m_len ?c - off" "?k < 2147483648" using assms(7,9,10,8) by (auto simp: mb_ok_def simp del: mb_ok_len)
  have bytes: "m_read st ?c off ?k = take (nat len) (drop (nat off) (m_bytes st ?c))"
  proof -
    have "m_read st ?c off ?k = take (nat ?k) (drop (nat off) (m_bytes st ?c))"
      by (rule m_read_bytes[OF assms(7,8)]) (use k in simp)
    also have "\<dots> = take (nat len) (drop (nat off) (m_bytes st ?c))"
      using assms(7-10) by (cases "len \<le> m_len ?c - off") (simp_all add: min_def nat_diff_distrib')
    finally show ?thesis .
  qed
  have lb: "int (length (m_read st ?c off ?k)) = ?k"
    using length_m_bytes[OF assms(7)] assms(8-10) mb_ok_len[OF assms(7)] unfolding bytes by (simp add: min_def) linarith
  note eq = copym_fill_eq[OF assms(4), where st = st and copyhdr = copyhdr and len = len and ?off0.0 = off0 and off = off, folded b_def, folded st'_def]
  have clus: "mcl_buf (clus st' x) = mcl_buf (clus st x)" for x unfolding eq by (simp add: upd_clus_def)
  note view = mbuf_view_cong[of st' st, OF clus]
  have mbn: "a \<noteq> n \<Longrightarrow> mbufs st' a = mbufs st a" for a unfolding eq by (simp add: upd_clus_def)
  show "keeps (C - {n}) st st'"
    unfolding keeps_def using clus mbn unfolding eq by (auto simp: upd_clus_def)
  show r1: "m_next (mbufs st' n) = m_next (mbufs st n)" "m_len (mbufs st' n) = ?k"
    unfolding eq by (simp_all add: upd_clus_def sel)
  have pk: "m_pkthdr (mbufs st' n) = m_pkthdr b" unfolding eq by (simp add: upd_clus_def)
  show "copyhdr \<Longrightarrow> m_pkthdr (mbufs st' n) = (m_pkthdr ?c)\<lparr>ph_len :=
       (if len = M_COPYALL then ph_len (m_pkthdr ?c) - off0 else len)\<rparr>" unfolding pk sel by simp
  have "sys st' C \<and> mb_ok st' (mbufs st' n) \<and> has_flag M_PKTHDR (mbufs st' n) = copyhdr \<and>
      m_bytes st' (mbufs st' n) = take (nat len) (drop (nat off) (m_bytes st ?c))"
  proof (cases "has_flag M_EXT ?c")
    case True
    define e where "e = b\<lparr>m_len := ?k, m_data := m_data ?c + off, ext_buf := ext_buf ?c, ext_size := ext_size ?c,
      m_flags := m_flags b OR M_EXT\<rparr>"
    have st': "st' = upd_clus (ext_buf ?c) (\<lambda>w. set_refcnt (mcl_refcnt w + 1) w) (upd n (\<lambda>_. e) st)"
      unfolding eq e_def using True by simp
    have fl: "has_flag M_EXT e" "has_flag M_PKTHDR e = copyhdr"
    proof -
      have "M_EXT AND M_EXT \<noteq> 0" "M_EXT AND M_PKTHDR = 0" by (simp_all add: M_EXT_def M_PKTHDR_def)
      moreover have "m_flags b AND M_PKTHDR \<noteq> 0 \<longleftrightarrow> copyhdr"
        using nf sel(6) assms(11) unfolding has_flag_def[of M_PKTHDR b, symmetric] by auto
      ultimately show "has_flag M_EXT e" "has_flag M_PKTHDR e = copyhdr"
        unfolding e_def has_flag_or by simp_all
    qed
    have es: "m_type e = m_type b" "m_dat e = m_dat b" "ext_buf e = ext_buf ?c" "m_data e = m_data ?c + off" "m_len e = ?k"
      by (simp_all add: e_def)
    have "sys st' C" unfolding st'
      by (rule sys_share[OF assms(1-3) nf(1) True]) (use fl es sel n in auto)
    moreover have e: "mbufs st' n = e" unfolding st' by (simp add: upd_clus_def)
    moreover have "mb_ok st e"
      using assms(7,8) True fl es k unfolding mb_ok_def by (auto simp: min_def simp del: mb_ok_len)
    moreover have "m_bytes st e = m_read st ?c off ?k"
      using fl es True by (simp add: m_bytes_def m_read_def m_buf_def)
    ultimately show ?thesis using bytes fl(2) unfolding view e by simp
  next
    case False
    let ?bs = "m_read st ?c off ?k"
    define b0 where "b0 = b\<lparr>m_len := 0\<rparr>"
    have b0: "\<not> has_flag M_EXT b0" "m_data b0 = (if copyhdr then 12 else 0)" "m_dat b0 = m_dat (mbufs st n)"
      "has_flag M_PKTHDR b0 = copyhdr" "m_len b0 = 0" "m_type b0 = m_type (mbufs st n)"
      using nf sel assms(6,11) by (auto simp: b0_def)
    have st': "st' = upd n (\<lambda>_. appended ?bs b0) st"
    proof -
      have "b\<lparr>m_len := ?k, m_dat := put_bytes (nat (m_data b)) ?bs (m_dat b)\<rparr> = appended ?bs b0"
        unfolding appended_def b0_def lb by simp
      then show ?thesis unfolding eq using False by simp
    qed
    have ok0: "mb_ok st b0" using b0 n(2) by (simp add: mb_ok_def MLEN_def MHLEN_def)
    have room: "m_data b0 + m_len b0 + int (length ?bs) \<le> MLEN"
    proof -
      have "(if copyhdr then 12 else 0) \<le> m_data ?c" "m_data ?c + m_len ?c \<le> MLEN"
        using assms(7,11) False by (auto simp: mb_ok_def MLEN_def MHLEN_def split: if_splits simp del: mb_ok_len)
      then show ?thesis unfolding lb using k(2) assms(8) b0(2,5) by (auto split: if_splits)
    qed
    note ap = append_ok[OF ok0 b0(1) room]
    have e: "mbufs st' n = appended ?bs b0" unfolding st' by simp
    have "sys st' C" unfolding st'
      by (rule sys_upd1[OF assms(1,2)]) (use ap nf b0 n in \<open>simp_all add: appended_def\<close>)
    moreover have "m_bytes st b0 = []" using b0(5) by (simp add: m_bytes_def m_read_def)
    ultimately show ?thesis using ap b0(4) bytes unfolding view e by simp
  qed
  then show "sys st' C" "mb_ok st' (mbufs st' n)" "has_flag M_PKTHDR (mbufs st' n) = copyhdr"
    "m_bytes st' (mbufs st' n) = take (nat len) (drop (nat off) (m_bytes st ?c))" by auto
qed

section \<open>The copy loop\<close>

lemma next_view [simp]:
  "mb_ok st (b\<lparr>m_next := p\<rparr>) = mb_ok st b" "m_bytes st (b\<lparr>m_next := p\<rparr>) = m_bytes st b"
  by (simp_all add: mb_ok_def m_bytes_def m_read_def m_buf_def del: mb_ok_len)

text \<open>Linking \<open>n\<close> behind the copy \<open>ds\<close> made so far.\<close>

definition copy_inv :: "mst \<Rightarrow> ptr set \<Rightarrow> ptr list \<Rightarrow> ptr \<Rightarrow> ptr \<Rightarrow> bool" where
  "copy_inv st C ds tp lst \<longleftrightarrow> sys st (C \<union> set ds) \<and> C \<inter> set ds = {} \<and> chain (mbufs st) tp ds \<and>
     lst = (if ds = [] then 0 else last ds)"

definition copied :: "ptr list \<Rightarrow> mst \<Rightarrow> mst \<Rightarrow> bool" where
  "copied ds st st' \<longleftrightarrow> (\<forall>a \<in> set ds. m_bytes st' (mbufs st' a) = m_bytes st (mbufs st a) \<and>
     mb_ok st' (mbufs st' a) = mb_ok st (mbufs st a) \<and> m_pkthdr (mbufs st' a) = m_pkthdr (mbufs st a) \<and>
     has_flag M_PKTHDR (mbufs st' a) = has_flag M_PKTHDR (mbufs st a))"

lemma copied_refl [simp]: "copied ds st st"
  by (simp add: copied_def)

lemma copied_trans: "copied ds st st1 \<Longrightarrow> copied ds st1 st2 \<Longrightarrow> copied ds st st2"
  by (simp add: copied_def)

lemma copied_view: "copied ds st st' \<Longrightarrow> cdata st' ds = cdata st ds \<and> chain_ok st' ds = chain_ok st ds"
proof (induction ds)
  case (Cons a as)
  then have "copied as st st'" by (simp add: copied_def)
  with Cons show ?case by (simp add: copied_def)
qed simp

lemma keeps_copied: "keeps C st st' \<Longrightarrow> set ds \<subseteq> C \<Longrightarrow> copied ds st st'"
  using keeps_mbuf[of C st st'] by (auto simp: copied_def)

lemma link_np_spec:
  fixes n :: ptr
  assumes "copy_inv st C ds tp lst"
  defines "st' \<equiv> link_np lst n st"
  shows "sys st D \<Longrightarrow> C \<union> set ds \<subseteq> D \<Longrightarrow> sys st' D" "keeps (- {lst}) st st'" "lst \<noteq> 0 \<Longrightarrow> lst \<in> set ds"
    "copied ds st st'" "a \<notin> set ds \<Longrightarrow> mbufs st' a = mbufs st a"
    "a \<noteq> lst \<Longrightarrow> mbufs st' a = mbufs st a" "lst \<noteq> 0 \<Longrightarrow> m_next (mbufs st' lst) = n"
proof -
  have l: "lst \<noteq> 0 \<Longrightarrow> ds \<noteq> [] \<and> lst \<in> set ds" using assms(1) by (auto simp: copy_inv_def split: if_splits)
  then show "lst \<noteq> 0 \<Longrightarrow> lst \<in> set ds" by simp
  show "sys st D \<Longrightarrow> C \<union> set ds \<subseteq> D \<Longrightarrow> sys st' D"
  proof (cases "lst = 0")
    case False
    assume s: "sys st D" "C \<union> set ds \<subseteq> D"
    then have "lst \<in> D" using l False by auto
    then show ?thesis unfolding st'_def link_np_def using False sys_mbuf[OF s(1) \<open>lst \<in> D\<close>]
      by (simp add: sys_upd1[OF s(1)])
  qed (simp add: st'_def link_np_def)
  show "keeps (- {lst}) st st'"
    using keeps_upd[of lst "- {lst}" st] by (simp add: st'_def link_np_def)
  have v: "m_bytes st' b = m_bytes st b" "mb_ok st' b = mb_ok st b" for b
    using mbuf_view_cong[of st' st] by (simp_all add: st'_def link_np_def)
  show "copied ds st st'" unfolding copied_def v by (auto simp: st'_def link_np_def)
  show "a \<notin> set ds \<Longrightarrow> mbufs st' a = mbufs st a" using l by (auto simp: st'_def link_np_def)
  show "a \<noteq> lst \<Longrightarrow> mbufs st' a = mbufs st a" "lst \<noteq> 0 \<Longrightarrow> m_next (mbufs st' lst) = n"
    by (simp_all add: st'_def link_np_def)
qed

lemma link_null:
  assumes "copy_inv st C ds tp lst"
  shows "copy_inv (link_np lst 0 st) C ds (if lst = 0 then 0 else tp) lst"
proof -
  note L = link_np_spec[OF assms]
  have c: "chain (mbufs st) tp ds" "sys st (C \<union> set ds)" "lst = (if ds = [] then 0 else last ds)"
    using assms by (auto simp: copy_inv_def)
  have nz: "ds \<noteq> [] \<Longrightarrow> lst \<noteq> 0" using c(3) chain_nonzero[OF c(1)] last_in_set[of ds] by metis
  have "chain (mbufs (link_np lst 0 st)) tp ds"
  proof -
    have "m_next (mbufs (link_np lst 0 st) a) = m_next (mbufs st a)" if "a \<in> set ds" for a
      using that L(6)[of a] L(7) chain_last_next[OF c(1)] c(3) nz by (cases "a = lst") auto
    then show ?thesis using c(1) chain_cong by metis
  qed
  moreover have "sys (link_np lst 0 st) (C \<union> set ds)" by (rule L(1)[OF c(2)]) simp
  ultimately show ?thesis using assms nz by (auto simp: copy_inv_def)
qed

lemma copym_step:
  fixes off0 :: int
  assumes "copy_inv st C ds tp lst" "m \<in> C" "mb_ok st (mbufs st m)" "0 \<le> off" "off \<le> m_len (mbufs st m)" "0 < len"
    and "copyhdr \<longrightarrow> has_flag M_PKTHDR (mbufs st m)" "chain_ok st ds"
    and "keeps (C \<union> set ds) st st1" "n \<notin> C \<union> set ds" "sys st1 (insert n (C \<union> set ds))"
    and "fresh (m_type (mbufs st m)) (mbufs st1 n)"
  defines "st3 \<equiv> copym_fill n m off len off0 copyhdr (link_np lst n st1)"
  shows "copy_inv st3 C (ds @ [n]) (if lst = 0 then n else tp) n" "keeps C st st3" "copied ds st st3"
    "chain_ok st3 (ds @ [n])"
    "cdata st3 (ds @ [n]) = cdata st ds @ take (nat len) (drop (nat off) (m_bytes st (mbufs st m)))"
    "m_len (mbufs st3 n) = min len (m_len (mbufs st m) - off)"
    "has_flag M_PKTHDR (mbufs st3 n) = copyhdr"
    "copyhdr \<Longrightarrow> m_pkthdr (mbufs st3 n) = (m_pkthdr (mbufs st m))\<lparr>ph_len :=
       (if len = M_COPYALL then ph_len (m_pkthdr (mbufs st m)) - off0 else len)\<rparr>"
proof -
  let ?D = "insert n (C \<union> set ds)" and ?st2 = "link_np lst n st1"
  have i: "C \<inter> set ds = {}" "chain (mbufs st) tp ds" "lst = (if ds = [] then 0 else last ds)"
    using assms(1) by (auto simp: copy_inv_def)
  have nz: "ds \<noteq> [] \<Longrightarrow> lst \<noteq> 0 \<and> lst \<in> set ds" using i(3) chain_nonzero[OF i(2)] last_in_set[of ds] by metis
  have n0: "n \<noteq> 0" using sys_mbuf(3)[OF assms(11)] by simp
  have "sys st1 ?D" by (rule assms(11))
  have lst: "lst \<noteq> n" using nz n0 assms(10) i(3) by (cases "ds = []") auto
  have mb2: "mbufs ?st2 a = (if a = lst \<and> lst \<noteq> 0 then (mbufs st1 a)\<lparr>m_next := n\<rparr> else mbufs st1 a)" for a
    by (simp add: link_np_def)
  have k2: "keeps (C \<union> set ds - {lst}) st ?st2"
    by (rule keeps_trans[OF assms(9), of "- {lst}"]) (auto simp: link_np_def keeps_def)
  have s2: "sys ?st2 ?D"
  proof (cases "lst = 0")
    case False
    then have "lst \<in> ?D" using nz i(3) by auto
    then show ?thesis using False sys_mbuf[OF assms(11) \<open>lst \<in> ?D\<close>]
      by (simp add: link_np_def sys_upd1[OF assms(11)])
  qed (use assms(11) in \<open>simp add: link_np_def\<close>)
  have mC: "m \<notin> set ds" "m \<noteq> n" "m \<noteq> lst \<or> lst = 0" using assms(2,10) i(1) nz i(3) by (auto split: if_splits)
  have st1m: "mbufs st1 m = mbufs st m" using keeps_mbuf(1)[OF assms(9)] assms(2) by simp
  have m2: "mbufs ?st2 m = mbufs st m" using mC(3) unfolding mb2 st1m by auto
  note v2 = keeps_mbuf(2,3)[OF k2]
  have n2: "mbufs ?st2 n = mbufs st1 n" using lst mb2 by auto
  have fr: "m_flags (mbufs ?st2 n) = 0" "m_data (mbufs ?st2 n) = 0" "m_next (mbufs ?st2 n) = 0"
    using assms(12) unfolding n2 by (simp_all add: fresh_def)
  have ok2: "mb_ok ?st2 (mbufs ?st2 m)" unfolding m2 v2 by (rule assms(3))
  have mem: "n \<in> ?D" "m \<in> ?D" "n \<noteq> m" using assms(2) mC by auto
  have pre: "off \<le> m_len (mbufs ?st2 m)" "copyhdr \<longrightarrow> has_flag M_PKTHDR (mbufs ?st2 m)" unfolding m2 using assms(5,7) by auto
  note F = copym_fill_spec[OF s2 mem fr(1,2) ok2 assms(4) pre(1) assms(6) pre(2), where ?off0.0 = off0, folded st3_def, unfolded m2 v2 fr(3)]
  have k3: "keeps (C \<union> set ds - {lst}) st st3" by (rule keeps_trans[OF k2 F(2)]) (use assms(10) in auto)
  have lC: "lst \<noteq> 0 \<Longrightarrow> lst \<notin> C" using nz i by (auto split: if_splits)
  have z: "0 \<notin> C" using sys_mbuf(3)[OF assms(11), of 0] by auto
  show "keeps C st st3" by (rule keeps_trans[OF keeps_refl[of C] k3]) (use lC z in auto)
  have "copied ds st st3"
    unfolding copied_def
  proof
    fix a assume a: "a \<in> set ds"
    have "mbufs st3 a = mbufs ?st2 a" using keeps_mbuf(1)[OF F(2), of a] a assms(10) by auto
    moreover have "mbufs st1 a = mbufs st a" using keeps_mbuf(1)[OF assms(9)] a by simp
    ultimately show "m_bytes st3 (mbufs st3 a) = m_bytes st (mbufs st a) \<and> mb_ok st3 (mbufs st3 a) = mb_ok st (mbufs st a) \<and>
        m_pkthdr (mbufs st3 a) = m_pkthdr (mbufs st a) \<and> has_flag M_PKTHDR (mbufs st3 a) = has_flag M_PKTHDR (mbufs st a)"
      unfolding keeps_mbuf(2,3)[OF k3] by (auto simp: mb2)
  qed
  then show "copied ds st st3" .
  note cv = copied_view[OF this]
  show "chain_ok st3 (ds @ [n])" using cv F(4) assms(8) by simp
  show "cdata st3 (ds @ [n]) = cdata st ds @ take (nat len) (drop (nat off) (m_bytes st (mbufs st m)))"
    using cv F(5) by simp
  show "m_len (mbufs st3 n) = min len (m_len (mbufs st m) - off)" "has_flag M_PKTHDR (mbufs st3 n) = copyhdr"
    "copyhdr \<Longrightarrow> m_pkthdr (mbufs st3 n) = (m_pkthdr (mbufs st m))\<lparr>ph_len :=
       (if len = M_COPYALL then ph_len (m_pkthdr (mbufs st m)) - off0 else len)\<rparr>"
    using F(6-8) by simp_all
  have nx: "m_next (mbufs st3 a) = (if a = last ds then n else m_next (mbufs st a))" if "a \<in> set ds" for a
  proof -
    have "mbufs st3 a = mbufs ?st2 a" using keeps_mbuf(1)[OF F(2), of a] that assms(10) by auto
    then have "mbufs st3 a = (if a = lst \<and> lst \<noteq> 0 then (mbufs st1 a)\<lparr>m_next := n\<rparr> else mbufs st1 a)" unfolding mb2 .
    moreover have "mbufs st1 a = mbufs st a" using keeps_mbuf(1)[OF assms(9)] that by simp
    moreover have "lst = last ds" "lst \<noteq> 0" using i(3) that nz by auto
    ultimately show ?thesis by simp
  qed
  have "chain (mbufs st3) (if lst = 0 then n else tp) (ds @ [n])"
  proof (cases "ds = []")
    case True
    then show ?thesis using i(3) n0 F(3) by simp
  next
    case False
    have "chain (mbufs st3) tp (ds @ [n])"
      by (rule chain_append_last[OF i(2) False]) (use nx False n0 F(3) in auto)
    then show ?thesis using nz[OF False] by simp
  qed
  moreover have "C \<union> set (ds @ [n]) = ?D" by auto
  ultimately show "copy_inv st3 C (ds @ [n]) (if lst = 0 then n else tp) n"
    using F(1) i(1) assms(10) by (simp add: copy_inv_def)
qed


lemma m_copym_loop_spec:
  assumes "copy_inv st C ds tp lst" "chain (mbufs st) m rs" "set rs \<subseteq> C" "chain_ok st rs" "0 \<le> off"
    and "rs = [] \<longrightarrow> off = 0" "rs \<noteq> [] \<longrightarrow> off \<le> m_len (mbufs st (hd rs))" "0 \<le> len"
    and "clen st rs \<le> M_COPYALL" "copyhdr \<longrightarrow> rs \<noteq> [] \<and> has_flag M_PKTHDR (mbufs st m)" "chain_ok st ds"
  shows "\<exists>st' tp' ok ds' lst'. m_copym_loop m off len off0 copyhdr tp lst st = Some (st', tp', ok) \<and>
    copy_inv st' C ds' tp' lst' \<and> keeps C st st' \<and>
    (ok \<longrightarrow> (\<exists>es. ds' = ds @ es \<and> copied ds st st' \<and> chain_ok st' es \<and>
       cdata st' es = take (nat len) (drop (nat off) (cdata st rs)) \<and>
       (M_COPYALL \<le> len \<or> len + off \<le> clen st rs \<or> len = 0) \<and>
       (copyhdr \<and> 0 < len \<longrightarrow> es \<noteq> [] \<and> has_flag M_PKTHDR (mbufs st' (hd es)) \<and>
          m_pkthdr (mbufs st' (hd es)) = (m_pkthdr (mbufs st m))\<lparr>ph_len :=
            (if len = M_COPYALL then ph_len (m_pkthdr (mbufs st m)) - off0 else len)\<rparr>)))"
  using assms
proof (induction rs arbitrary: st ds tp lst m off len copyhdr)
  case Nil
  then have "m_copym_loop m off len off0 copyhdr tp lst st = Some (st, tp, len = M_COPYALL \<or> \<not> 0 < len)"
    by (subst m_copym_loop.simps) auto
  then show ?case using Nil.prems
    by (intro exI[of _ st] exI[of _ tp] exI[of _ "len = M_COPYALL \<or> \<not> 0 < len"] exI[of _ ds] exI[of _ lst]) auto
next
  case (Cons a as)
  let ?c = "mbufs st a"
  have m: "m = a" "a \<noteq> 0" "chain (mbufs st) (m_next ?c) as" "a \<in> C" "set as \<subseteq> C" using Cons.prems(2,3) by auto
  have ok: "mb_ok st ?c" "chain_ok st as" using Cons.prems(4) by auto
  have off: "0 \<le> off" "off \<le> m_len ?c" using Cons.prems(5,7) by auto
  show ?case
  proof (cases "0 < len")
    case False
    then have "m_copym_loop m off len off0 copyhdr tp lst st = Some (st, tp, True)" by (subst m_copym_loop.simps) simp
    then show ?thesis using Cons.prems False
      by (intro exI[of _ st] exI[of _ tp] exI[of _ True] exI[of _ ds] exI[of _ lst]) auto
  next
    case True
    have s: "sys st (C \<union> set ds)" using Cons.prems(1) by (simp add: copy_inv_def)
    have ty: "m_type ?c \<noteq> MT_FREE" using sys_mbuf(1)[OF s] m(4) by simp
    obtain st1 n where 1: "MGET (m_type ?c) st = Some (st1, n)" "keeps (C \<union> set ds) st st1"
      "n = 0 \<Longrightarrow> sys st1 (C \<union> set ds)"
      "n \<noteq> 0 \<Longrightarrow> n \<notin> C \<union> set ds \<and> sys st1 (insert n (C \<union> set ds)) \<and> fresh (m_type ?c) (mbufs st1 n)"
      using MGET_sys[OF s ty] by metis
    show ?thesis
    proof (cases "n = 0")
      case n: True
      have "copy_inv st1 C ds tp lst"
        using Cons.prems(1) 1(3)[OF n] keeps_view(4)[OF 1(2), of ds] by (simp add: copy_inv_def)
      from link_null[OF this] have i: "copy_inv (link_np lst 0 st1) C ds (if lst = 0 then 0 else tp) lst" .
      have "keeps C st (link_np lst 0 st1)"
      proof (rule keeps_trans[OF 1(2) link_np_spec(2)[OF \<open>copy_inv st1 C ds tp lst\<close>]])
        have "lst \<noteq> 0 \<Longrightarrow> lst \<notin> C" using link_np_spec(3)[OF Cons.prems(1)] Cons.prems(1) by (auto simp: copy_inv_def)
        moreover have "0 \<notin> C" using sys_mbuf(3)[OF s, of 0] by auto
        ultimately show "C \<subseteq> - {lst}" by auto
      qed auto
      moreover have "m_copym_loop m off len off0 copyhdr tp lst st =
          Some (link_np lst 0 st1, if lst = 0 then 0 else tp, False)"
        using True m 1(1) n by (subst m_copym_loop.simps) (simp add: Let_def)
      ultimately show ?thesis using i by blast
    next
      case n: False
define st3 where "st3 = copym_fill n m off len off0 copyhdr (link_np lst n st1)"
      let ?tp = "if lst = 0 then n else tp" and ?len = "if len = M_COPYALL then len else len - min len (m_len ?c - off)"
      have h: "copyhdr \<longrightarrow> has_flag M_PKTHDR ?c" using Cons.prems(10) m(1) by simp
      note S = copym_step[OF Cons.prems(1) m(4) ok(1) off True h Cons.prems(11) 1(2), where ?off0.0 = off0 and n = n]
      note S = S[OF conjunct1[OF 1(4)[OF n]] conjunct1[OF conjunct2[OF 1(4)[OF n]]] conjunct2[OF conjunct2[OF 1(4)[OF n]]],
          folded m(1), folded st3_def]
      note v = keeps_view[OF S(2) m(5)]
      have mb3: "mbufs st3 m = mbufs st m" using keeps_mbuf(1)[OF S(2)] m(1,4) by simp
      have run: "m_copym_loop m off len off0 copyhdr tp lst st =
          m_copym_loop (m_next ?c) 0 ?len off0 False ?tp n st3"
      proof -
        have "m_copym_loop m off len off0 copyhdr tp lst st = m_copym_loop (m_next (mbufs st3 m)) 0
            (if len = M_COPYALL then len else len - m_len (mbufs st3 n)) off0 False ?tp n st3"
          using True m(1,2) 1(1) n unfolding st3_def by (subst m_copym_loop.simps) (simp add: Let_def)
        then show ?thesis unfolding S(6) mb3 unfolding m(1) .
      qed
      have "clen st (a # as) = m_len ?c + clen st as" by simp
      then have "clen st3 as \<le> M_COPYALL" using v(2) Cons.prems(9) mb_ok_len[OF ok(1)] by linarith
      then have pre: "chain (mbufs st3) (m_next ?c) as" "chain_ok st3 as" "clen st3 as \<le> M_COPYALL" "0 \<le> ?len"
        using v m(3) ok mb_ok_len[OF ok(1)] Cons.prems(8,9) S(4) by (auto simp: min_def)
      have "as \<noteq> [] \<longrightarrow> 0 \<le> m_len (mbufs st3 (hd as))" using pre(2) by (cases as) auto
      then obtain st' tp' ok' ds' lst' where 2: "m_copym_loop (m_next ?c) 0 ?len off0 False ?tp n st3 = Some (st', tp', ok')"
        "copy_inv st' C ds' tp' lst'" "keeps C st3 st'"
        "ok' \<longrightarrow> (\<exists>es. ds' = (ds @ [n]) @ es \<and> copied (ds @ [n]) st3 st' \<and> chain_ok st' es \<and>
           cdata st' es = take (nat ?len) (drop (nat 0) (cdata st3 as)) \<and>
           (M_COPYALL \<le> ?len \<or> ?len + 0 \<le> clen st3 as \<or> ?len = 0))"
        using Cons.IH[OF S(1) pre(1) m(5) pre(2) order_refl, of ?len False] pre S(4) by fastforce
      have k: "keeps C st st'" by (rule keeps_trans[OF S(2) 2(3)]) auto
      have "\<exists>es. ds' = ds @ es \<and> copied ds st st' \<and> chain_ok st' es \<and>
         cdata st' es = take (nat len) (drop (nat off) (cdata st (a # as))) \<and>
         (M_COPYALL \<le> len \<or> len + off \<le> clen st (a # as) \<or> len = 0) \<and>
         (copyhdr \<and> 0 < len \<longrightarrow> es \<noteq> [] \<and> has_flag M_PKTHDR (mbufs st' (hd es)) \<and>
            m_pkthdr (mbufs st' (hd es)) = (m_pkthdr (mbufs st m))\<lparr>ph_len :=
              (if len = M_COPYALL then ph_len (m_pkthdr (mbufs st m)) - off0 else len)\<rparr>)" if ok'
      proof -
        note okk = that
        obtain es where e: "ds' = (ds @ [n]) @ es" "copied (ds @ [n]) st3 st'" "chain_ok st' es"
          "cdata st' es = take (nat ?len) (cdata st as)" "M_COPYALL \<le> ?len \<or> ?len \<le> clen st as \<or> ?len = 0"
          using 2(4) okk unfolding v by auto
        have cn: "copied ds st3 st'" "m_bytes st' (mbufs st' n) = m_bytes st3 (mbufs st3 n)" "mb_ok st' (mbufs st' n)"
          "m_pkthdr (mbufs st' n) = m_pkthdr (mbufs st3 n)" "has_flag M_PKTHDR (mbufs st' n) = has_flag M_PKTHDR (mbufs st3 n)"
          using e(2) S(4) by (auto simp: copied_def)
        have "m_bytes st3 (mbufs st3 n) = take (nat len) (drop (nat off) (m_bytes st ?c))"
          using S(5) copied_view[OF S(3)] m(1) by simp
        moreover have "take (nat len) (drop (nat off) (m_bytes st ?c)) @ take (nat ?len) (cdata st as) =
            take (nat len) (drop (nat off) (cdata st (a # as)))"
        proof -
          have L: "length (m_bytes st ?c) = nat (m_len ?c)" "0 \<le> m_len ?c" using ok(1) by simp_all
          have "int (length (cdata st as)) + m_len ?c \<le> M_COPYALL"
            using Cons.prems(9) length_cdata[OF ok(2)] by simp
          then have "take (nat ?len) (cdata st as) = take (nat len - (nat (m_len ?c) - nat off)) (cdata st as)"
            using off True by (cases "len = M_COPYALL") (auto simp: min_def nat_diff_distrib')
          then show ?thesis using L off by simp
        qed
        ultimately have "cdata st' (n # es) = take (nat len) (drop (nat off) (cdata st (a # as)))"
          using e(4) cn(2) by simp
        moreover have "M_COPYALL \<le> len \<or> len + off \<le> clen st (a # as) \<or> len = 0"
          using e(5) clen_nonneg[OF ok(2)] off by (auto simp: min_def split: if_splits)
        moreover have "copied ds st st'" by (rule copied_trans[OF S(3) cn(1)])
        ultimately show ?thesis using e(1,3) cn(3-5) S(7,8) m(1) by (intro exI[of _ "n # es"]) (simp del: cdata_simps clen_simps)
      qed
      then show ?thesis using run 2(1,2) k
        by (intro exI[of _ st'] exI[of _ tp'] exI[of _ ok'] exI[of _ ds'] exI[of _ lst']) simp
    qed
  qed
qed


section \<open>Copying a chain\<close>

lemma copym_fail_spec:
  assumes "copy_inv st C ds tp lst"
  shows "\<exists>st'. copym_fail tp st = Some (st', 0) \<and> sys st' C \<and> keeps C st st'"
proof -
  have i: "sys st (C \<union> set ds)" "chain (mbufs st) tp ds" "C \<inter> set ds = {}" using assms by (auto simp: copy_inv_def)
  obtain st1 where 1: "m_freem tp st = Some st1" "sys st1 (C \<union> set ds - set ds)" "keeps (C \<union> set ds - set ds) st st1"
    by (rule m_freem_sys[OF i(1,2)]) auto
  have "C \<union> set ds - set ds = C" using i(3) by auto
  then show ?thesis using 1 by (intro exI[of _ "st1\<lparr>MCFail := MCFail st1 + 1\<rparr>"]) (auto simp: copym_fail_def sys_stat keeps_def)
qed

text \<open>What \<open>m_copym\<close> owes its caller, and the copy from the place it has found.\<close>

definition copy_made :: "ptr set \<Rightarrow> mst \<Rightarrow> ptr list \<Rightarrow> ptr \<Rightarrow> int \<Rightarrow> int \<Rightarrow> mst \<Rightarrow> ptr \<Rightarrow> bool" where
  "copy_made C st ps m off len st' r \<longleftrightarrow> keeps C st st' \<and>
    (if r = 0 then sys st' C
     else \<exists>qs. chain (mbufs st') r qs \<and> C \<inter> set qs = {} \<and> sys st' (C \<union> set qs) \<and> chain_ok st' qs \<and>
       cdata st' qs = take (nat len) (drop (nat off) (cdata st ps)) \<and>
       0 \<le> off \<and> 0 < len \<and> (M_COPYALL \<le> len \<or> off + len \<le> clen st ps) \<and>
       (off = 0 \<and> has_flag M_PKTHDR (mbufs st m) \<longrightarrow> has_flag M_PKTHDR (mbufs st' r) \<and>
          m_pkthdr (mbufs st' r) = (m_pkthdr (mbufs st m))\<lparr>ph_len :=
            (if len = M_COPYALL then ph_len (m_pkthdr (mbufs st m)) else len)\<rparr>))"

lemma copym_found:
  assumes "sys st C" "chain (mbufs st) m ps" "ps \<noteq> []" "set ps \<subseteq> C" "chain_ok st ps" "clen st ps \<le> M_COPYALL"
    and ge: "\<not> (off < 0 \<or> len < 0)" and seek: "m_seek m off st = Some (Some (m', off'))"
    and q: "ps = xs @ rs" "chain (mbufs st) m' rs" "off = clen st xs + off'" "0 \<le> off'"
      "if rs = [] then off' = 0 else off' = 0 \<or> off' < m_len (mbufs st (hd rs))"
  shows "\<exists>st' r. m_copym m off len st = Some (st', r) \<and> copy_made C st ps m off len st' r"
proof -
  have m0: "m \<noteq> 0" "m \<in> set ps" "hd ps = m" using assms(2,3) by (cases ps; auto)+
  have ci: "copy_inv st C [] 0 0" using assms(1) by (simp add: copy_inv_def)
  have ok: "chain_ok st xs" "chain_ok st rs" "set rs \<subseteq> C" using assms(4,5) q(1) by auto
  have cl: "clen st rs \<le> M_COPYALL" "clen st ps = clen st xs + clen st rs"
    using assms(6) q(1) clen_nonneg[OF ok(1)] by auto
  have nn: "rs \<noteq> [] \<Longrightarrow> 0 \<le> m_len (mbufs st (hd rs))" using ok(2) by (cases rs) auto
  let ?h = "off = 0 \<and> has_flag M_PKTHDR (mbufs st m)"
  have seek0: "off = 0 \<Longrightarrow> m' = m" using seek by (subst (asm) m_seek.simps) auto
  have h: "?h \<longrightarrow> rs \<noteq> [] \<and> has_flag M_PKTHDR (mbufs st m')" using seek0 q(2) m0(1) by (cases rs) auto
  obtain st1 tp ok1 ds lst where 1: "m_copym_loop m' off' len off ?h 0 0 st = Some (st1, tp, ok1)"
    "copy_inv st1 C ds tp lst" "keeps C st st1"
    "ok1 \<longrightarrow> (\<exists>es. ds = [] @ es \<and> copied [] st st1 \<and> chain_ok st1 es \<and>
       cdata st1 es = take (nat len) (drop (nat off') (cdata st rs)) \<and>
       (M_COPYALL \<le> len \<or> len + off' \<le> clen st rs \<or> len = 0) \<and>
       (?h \<and> 0 < len \<longrightarrow> es \<noteq> [] \<and> has_flag M_PKTHDR (mbufs st1 (hd es)) \<and>
          m_pkthdr (mbufs st1 (hd es)) = (m_pkthdr (mbufs st m'))\<lparr>ph_len :=
            (if len = M_COPYALL then ph_len (m_pkthdr (mbufs st m')) - off else len)\<rparr>))"
    using m_copym_loop_spec[OF ci q(2) ok(3,2) q(4), of len ?h off] q(5) nn ge cl(1) h by fastforce
  have run: "m_copym m off len st =
      (if \<not> ok1 then copym_fail tp st1 else Some (if tp = 0 then st1\<lparr>MCFail := MCFail st1 + 1\<rparr> else st1, tp))"
    using m0(1) ge seek 1(1) by (simp add: m_copym_def)
  show ?thesis
  proof (cases ok1)
    case False
    obtain st2 where "copym_fail tp st1 = Some (st2, 0)" "sys st2 C" "keeps C st1 st2"
      using copym_fail_spec[OF 1(2)] by blast
    then show ?thesis unfolding copy_made_def using run False keeps_trans[OF 1(3), of C st2 C] by (intro exI[of _ st2] exI[of _ 0]) auto
  next
    case True
    have ds: "chain_ok st1 ds" "cdata st1 ds = take (nat len) (drop (nat off') (cdata st rs))"
      "M_COPYALL \<le> len \<or> len + off' \<le> clen st rs \<or> len = 0"
      "?h \<and> 0 < len \<longrightarrow> ds \<noteq> [] \<and> has_flag M_PKTHDR (mbufs st1 (hd ds)) \<and>
          m_pkthdr (mbufs st1 (hd ds)) = (m_pkthdr (mbufs st m'))\<lparr>ph_len :=
            (if len = M_COPYALL then ph_len (m_pkthdr (mbufs st m')) - off else len)\<rparr>"
      using 1(4) True by auto
    have i: "sys st1 (C \<union> set ds)" "C \<inter> set ds = {}" "chain (mbufs st1) tp ds" using 1(2) by (auto simp: copy_inv_def)
    have data: "drop (nat off) (cdata st ps) = drop (nat off') (cdata st rs)"
      using q(1,3,4) length_cdata_nat[OF ok(1)] clen_nonneg[OF ok(1)] by (simp add: nat_add_distrib)
    show ?thesis
    proof (cases "tp = 0")
      case tp: True
      then have "ds = []" using i(3) by simp
      then show ?thesis unfolding copy_made_def using run True tp i(1) 1(3)
        by (intro exI[of _ "st1\<lparr>MCFail := MCFail st1 + 1\<rparr>"] exI[of _ 0]) (auto simp: sys_stat keeps_def)
    next
      case tp: False
      then have dn: "ds \<noteq> []" "hd ds = tp" using i(3) by (cases ds; auto)+
      have "0 < len"
      proof (rule ccontr)
        assume "\<not> 0 < len"
        then have "m_copym_loop m' off' len off ?h 0 0 st = Some (st, 0, True)" by (subst m_copym_loop.simps) simp
        then show False using 1(1) tp by simp
      qed
      then show ?thesis unfolding copy_made_def using run True tp i ds dn ge q(3) cl(2) data seek0 1(3)
        by (intro exI[of _ st1] exI[of _ tp]) (auto intro!: exI[of _ ds])
    qed
  qed
qed



end
