(* ===== verification/Spec2Isabelle.thy ===== *)
theory Spec2Isabelle
  imports Udp_Send Ip_Queues Sock_Queue_Correct Tcp_Rst Tcp_Sack_Recovery Bpf_Safety In_Cksum Res_Comp_Correct Dns_Cache_Correct Mbuf_Copy
begin

text \<open>
  AmiTCP_NG is the TCP/IP stack of the Amiga in the Berkeley tradition: \<open>bsdsocket.library\<close> (\<open>src/api\<close>)
  takes the calls of programs, the socket layer (\<open>src/kern\<close>) queues their data in chains of mbufs,
  TCP, UDP and IP (\<open>src/netinet\<close>) turn them into packets, and SANA-II drivers (\<open>src/net\<close>) carry these. This
  development models the parts that hold the logic of the protocol: the state of a TCP connection and
  everything that acts on it, the fragments of IP, the mbufs and socket buffers below, and four
  self-contained machines (the packet filter, the Internet checksum, the compression of domain
  names, the answer cache of the resolver).

  \<^bold>\<open>How the parts interact.\<close> A connection is the record \<open>inconn\<close>: the socket's flags and receive buffer
  around \<open>tcpst\<close>, which holds the control block (\<open>tcpcb\<close>), the send buffer and the options of the
  socket, and whether the connection is alive. A segment goes through \<open>tcp_input\<close>, which parses its options
  (\<open>tcp_dooptions\<close>), applies acknowledgements (\<open>tcp_sack_update\<close>, \<open>tcp_xmit_timer\<close>, \<open>sbdrop\<close>), queues
  text (\<open>tcp_reass\<close>, \<open>sbappend\<close>) and calls \<open>tcp_output\<close>; the timers (\<open>tcp_slowtimo\<close>, \<open>fast_one\<close> of \<open>tcp_fasttimo\<close>)
  and the user (\<open>tcp_usrreq\<close>) call the same routines. In the models as in the code they are
  composed by calls; a step of a connection is one of these three.

  \<^bold>\<open>Theories, in the order of the code.\<close>

  \<^item> \<open>Amitcp_Prelude\<close>: the machine integers of the m68k (\<open>u8\<close>, \<open>u16\<close>, \<open>u32\<close>), signed reads, big-endian
    values, and facts on words and lists that the theories share.
  \<^item> \<open>Mbuf\<close>, \<open>Mbuf_Pool\<close>, \<open>Mbuf_Chain\<close>, \<open>Mbuf_Data\<close>, \<open>Mbuf_Join\<close>, \<open>Mbuf_Copy\<close> (\<open>kern/uipc_mbuf.c\<close>, \<open>sys/mbuf.h\<close>):
    the pool of mbufs and clusters as a store with free lists and reference counts, and the operations
    on chains. The lemmas show what bytes a chain holds after \<open>m_adj\<close>, \<open>m_pullup\<close>, \<open>m_prepend\<close>, \<open>m_cat\<close> and \<open>m_copym\<close>,
    and that the pool loses nothing.
  \<^item> \<open>Sockvar\<close>, \<open>Sockbuf\<close>, \<open>Sockbuf_Correct\<close> (\<open>kern/uipc_socket2.c\<close>, \<open>sys/socketvar.h\<close>): the socket buffers, as
    records of mbufs given by their bytes. The counters agree with the contents and the buffer is a
    queue of bytes.
  \<^item> \<open>Sock_Queue\<close>, \<open>Sock_Queue_Correct\<close> (\<open>kern/uipc_socket2.c\<close>): the two queues of a listening socket, linked
    through the sockets in a store, refine two plain lists.
  \<^item> \<open>Tcp_Seq\<close>, \<open>Tcp_Var\<close>: sequence numbers modulo 2 to the 32 and the control block (\<open>tcp_seq.h\<close>, \<open>tcp_var.h\<close>).
  \<^item> \<open>Tcp_Sack\<close>, \<open>Tcp_Sack_Board\<close>, \<open>Tcp_Sack_Recovery\<close> (\<open>tcp_sack.c\<close>): the blocks a receiver reports, the
    sender's scoreboard as a set of sequence numbers, and what it decides from them.
  \<^item> \<open>Tcp_Output\<close>, \<open>Tcp_Output_Inv\<close>, \<open>Tcp_Output_Correct\<close> (\<open>tcp_output.c\<close>): one segment after the other from
    the send buffer. The invariant \<open>conn_ok\<close> ties the sequence numbers to the buffer; every segment carries the
    bytes its sequence number stands for and fits the window; the routine returns.
  \<^item> \<open>Tcp_Conn\<close>, \<open>Tcp_Timer\<close>, \<open>Tcp_Timer_Inv\<close>, \<open>Tcp_Timer_Correct\<close> (\<open>tcp_subr.c\<close>, \<open>tcp_timer.c\<close>, the estimator of
    \<open>tcp_input.c\<close>): set-up, the choice of the segment size, the timers and the round-trip time.
  \<^item> \<open>Tcp_Options\<close>, \<open>Tcp_Options_Correct\<close>, \<open>Tcp_Reass\<close>, \<open>Tcp_Reass_Correct\<close> (\<open>tcp_input.c\<close>): the options of a
    segment and the queue of segments that came out of order.
  \<^item> \<open>Tcp_In\<close>, \<open>Tcp_Input\<close>, \<open>Tcp_Frame\<close>, \<open>Tcp_Input_Flow\<close>, \<open>Tcp_Input_Correct\<close> (\<open>tcp_input.c\<close>): the input routine.
    A part of it ends in one of several ways (type \<open>flow\<close>: go on, acknowledge, drop, reset, look the
    connection up again), which stand for its labels; \<open>flow_all\<close> states a property for every way out. The
    received data is a prefix of the peer's stream whatever arrives.
  \<^item> \<open>Tcp_Usrreq\<close> (\<open>tcp_usrreq.c\<close>): the requests of the socket layer.
  \<^item> \<open>Tcp_Fsm\<close>, \<open>Tcp_Rst\<close>: properties of input, timers and requests together: the step relation \<open>tcp_step\<close>
    moves \<open>t_state\<close> along the diagram of RFC 793 (relation \<open>fsm\<close>), and what may end a connection (RFC 5961).
  \<^item> \<open>In_Pcb\<close>, \<open>In_Pcb_Correct\<close> (\<open>in_pcb.c\<close>, \<open>findpcb\<close> in \<open>tcp_input.c\<close>): the table of control blocks, ephemeral
    ports and the lookup. The lookup finds the most specific block, the connections of TCP are
    unique, and its cache of the last block is transparent; a connect that binds implicitly breaks this.
  \<^item> \<open>Udp\<close>, \<open>Udp_Chain\<close>, \<open>Udp_Input\<close>, \<open>Udp_Correct\<close>, \<open>Udp_Send\<close> (\<open>udp_usrreq.c\<close>): UDP on packets as bytes in mbufs.
    \<open>udp_input_cases\<close> reduces \<open>udp_input\<close> to the bytes of the datagram, however they are cut; the theorems say
    which socket or sockets receive what, that what \<open>udp_output\<close> sends arrives, and that sending to an
    address leaves the block as it was.
  \<^item> \<open>Ip_Reass\<close>, \<open>Ip_Reass_Correct\<close>, \<open>Ip_Frag\<close>, \<open>Ip_Frag_Correct\<close>, \<open>Ip_Queues\<close> (\<open>ip_input.c\<close>, \<open>ip_output.c\<close>): the cutting of a
    datagram into fragments, the queues that put it together, that the two are inverse, and what the
    queues hold under any traffic.
  \<^item> \<open>Bpf_Filter\<close>, \<open>Bpf_Safety\<close> (\<open>net/bpf_filter.c\<close>): the filter machine and its validator; a validated
    program reads nothing outside the packet and its memory and ends.
  \<^item> \<open>In_Cksum\<close> (\<open>in_cksum.c\<close>): the checksum over a chain of mbufs against RFC 1071.
  \<^item> \<open>Res_Comp\<close>, \<open>Res_Comp_Correct\<close> (\<open>api/res_comp.c\<close>): \<open>dn_expand\<close>, \<open>dn_comp\<close>, \<open>dn_skipname\<close>; safety and the
    round trip.
  \<^item> \<open>Dns_Cache\<close>, \<open>Dns_Cache_Correct\<close> (\<open>api/dns_cache.c\<close>): the cache of answers.

  \<^bold>\<open>Conventions.\<close> Integers have their width; C's signed comparisons of sequence numbers are \<open>sint\<close> of a
  difference. A panic is the left side of a sum; \<open>None\<close> of an option type is a routine that does not return. The
  answers of code outside a component (the mbuf pool under load, \<open>ip_output\<close>, routes and interface addresses,
  drivers, the clock) are arguments or sequences in the state, and the theorems hold for all of them unless
  they say otherwise. Log lines and traces are left out
  throughout, statistics and wakeups everywhere but in UDP.

  \<^bold>\<open>Bounds.\<close> No definition carries fuel. Loops that the code does not bound (walks of chains of mbufs,
  \<open>tcp_output\<close>, \<open>sbflush\<close>, \<open>ip_optcopy\<close>, the loops over fragments and of \<open>m_pullup\<close>) are partial functions with value
  \<open>None\<close> for not returning, and that they return is part of the theorems. A silent peer is dropped after at most 1676 ticks
  of the slow timer: 12 times 129 for the retransmissions and 128 for the timer that was
  running. \<open>tcp_xmit_timer_exact\<close> is for samples up to 4095 ticks, beyond which the scaled \<open>short\<close> wraps. A stream is
  followed within 2 to the 30 bytes of the next expected one, more than any window, so that comparisons of
  sequence numbers mean what they say. \<open>ip_nfrags\<close> is an integer without a width; it is at most the number of
  packets that came.

  \<^bold>\<open>Not modelled.\<close> The routing table (a radix tree of nodes that share memory), interfaces and drivers, ICMP,
  raw sockets, \<open>sosend\<close> and \<open>soreceive\<close>, everything that is AmigaOS (message ports,
  signals, processes, tag lists, the library's calling conventions), configuration files, the resolver's
  traffic, and the tools: they are input and output, or rest on an operating system that is not in the repository.
\<close>

end
